(* ===== verification/CMem.thy ===== *)
theory CMem
  imports Main "HOL-Library.Word" "HOL-Library.Monad_Syntax"
begin

unbundle bit_operations_syntax

text \<open>
  Prelude of the development: the memory the C code works on, and the lemmas every component
  shares.

  A memory is a partial map from addresses to cells (\<open>'a mem\<close>); the address counts cells of
  the type the routine works on (bytes for the string routines, 32-bit limbs for the
  multi-precision ones, array elements for the sorting ones). A load from or a store to a cell
  that is not mapped is \<open>None\<close>, and so is a loop that never returns, so that "the routine
  yields \<open>Some\<close>" says at once that it stops and that it touches no cell outside the objects it
  was given.

  \<open>block m p xs\<close> says that the cells from \<open>p\<close> on hold \<open>xs\<close>; \<open>wr m p xs\<close> is the memory with
  \<open>xs\<close> written there (every other cell as before: the frame of a specification is its result
  written with \<open>wr\<close>); \<open>cstr m p s\<close> says that \<open>p\<close> points to a C string with the bytes \<open>s\<close>.
\<close>

type_synonym 'a mem = "nat \<Rightarrow> 'a option"
type_synonym byte = "8 word"
type_synonym u32 = "32 word"
type_synonym u64 = "64 word"
type_synonym bmem = "byte mem"

named_theorems mem_simps \<open>reading and writing blocks of memory\<close>
named_theorems cstr_simps \<open>C strings in memory\<close>

section \<open>Loads and stores\<close>

definition ld :: "'a mem \<Rightarrow> nat \<Rightarrow> 'a option" where
  "ld m p = m p"

definition st :: "'a mem \<Rightarrow> nat \<Rightarrow> 'a \<Rightarrow> 'a mem option" where
  "st m p v = (case m p of None \<Rightarrow> None | Some _ \<Rightarrow> Some (m(p \<mapsto> v)))"

definition mapped :: "'a mem \<Rightarrow> nat \<Rightarrow> nat \<Rightarrow> bool" where
  "mapped m p n \<longleftrightarrow> (\<forall>i<n. m (p + i) \<noteq> None)"

definition block :: "'a mem \<Rightarrow> nat \<Rightarrow> 'a list \<Rightarrow> bool" where
  "block m p xs \<longleftrightarrow> (\<forall>i<length xs. m (p + i) = Some (xs ! i))"

definition wr :: "'a mem \<Rightarrow> nat \<Rightarrow> 'a list \<Rightarrow> 'a mem" where
  "wr m p xs = (\<lambda>a. if p \<le> a \<and> a < p + length xs then Some (xs ! (a - p)) else m a)"

definition disjnt_rng :: "nat \<Rightarrow> nat \<Rightarrow> nat \<Rightarrow> nat \<Rightarrow> bool" where
  "disjnt_rng p n q k \<longleftrightarrow> p + n \<le> q \<or> q + k \<le> p"

text \<open>
  A routine that runs upwards over \<open>n\<close> cells, reading at \<open>q\<close> and writing at \<open>p\<close>, never reads
  a cell it has written when the destination is not above the source, or beyond its end; for a
  routine that runs downwards the condition is the mirror image.
\<close>

definition up_ok :: "nat \<Rightarrow> nat \<Rightarrow> nat \<Rightarrow> bool" where
  "up_ok p q n \<longleftrightarrow> p \<le> q \<or> q + n \<le> p"

definition down_ok :: "nat \<Rightarrow> nat \<Rightarrow> nat \<Rightarrow> bool" where
  "down_ok p q n \<longleftrightarrow> q \<le> p \<or> p + n \<le> q"

text \<open>Reading and writing an array of a fixed size that is not in memory (a local variable, a table).\<close>

definition get :: "'a list \<Rightarrow> nat \<Rightarrow> 'a option" where
  "get xs i = (if i < length xs then Some (xs ! i) else None)"

definition put :: "'a list \<Rightarrow> nat \<Rightarrow> 'a \<Rightarrow> 'a list option" where
  "put xs i x = (if i < length xs then Some (xs[i := x]) else None)"

section \<open>Blocks\<close>

lemma block_Nil [simp]: "block m p []"
  by (simp add: block_def)

lemma block_Cons [mem_simps]:
  "block m p (x # xs) \<longleftrightarrow> m p = Some x \<and> block m (Suc p) xs"
proof -
  have "(\<forall>i<Suc (length xs). m (p + i) = Some ((x # xs) ! i)) \<longleftrightarrow>
      m p = Some x \<and> (\<forall>i<length xs. m (Suc p + i) = Some (xs ! i))"
    by (subst All_less_Suc2) simp
  then show ?thesis by (simp add: block_def)
qed

lemma block_append [mem_simps]:
  "block m p (xs @ ys) \<longleftrightarrow> block m p xs \<and> block m (p + length xs) ys"
  by (induction xs arbitrary: p) (auto simp: block_Cons)

lemma block_mapped: "block m p xs \<Longrightarrow> mapped m p (length xs)"
  by (auto simp: block_def mapped_def)

lemma block_unique:
  "block m p xs \<Longrightarrow> block m p ys \<Longrightarrow> length xs = length ys \<Longrightarrow> xs = ys"
  by (auto simp: block_def list_eq_iff_nth_eq)

lemma block_take: "block m p xs \<Longrightarrow> block m p (take n xs)"
  by (auto simp: block_def)

lemma block_drop: "block m p xs \<Longrightarrow> n \<le> length xs \<Longrightarrow> block m (p + n) (drop n xs)"
  by (auto simp: block_def add.assoc)

lemma block_nth: "block m p xs \<Longrightarrow> i < length xs \<Longrightarrow> m (p + i) = Some (xs ! i)"
  by (simp add: block_def)

lemma mapped_0 [simp]: "mapped m p 0"
  by (simp add: mapped_def)

lemma mapped_Suc [mem_simps]: "mapped m p (Suc n) \<longleftrightarrow> m p \<noteq> None \<and> mapped m (Suc p) n"
  unfolding mapped_def by (subst All_less_Suc2) simp

lemma mapped_add [mem_simps]: "mapped m p (n + k) \<longleftrightarrow> mapped m p n \<and> mapped m (p + n) k"
  by (induction n arbitrary: p) (auto simp: mapped_Suc)

lemma mapped_mid: "mapped m p (n + Suc k) \<longleftrightarrow> mapped m p n \<and> m (p + n) \<noteq> None \<and> mapped m (Suc (p + n)) k"
  by (simp only: mapped_add mapped_Suc)

lemma mapped_nth: "mapped m p n \<Longrightarrow> i < n \<Longrightarrow> m (p + i) \<noteq> None"
  by (simp add: mapped_def)

lemma mapped_le: "mapped m p n \<Longrightarrow> k \<le> n \<Longrightarrow> mapped m p k"
  by (simp add: mapped_def)

lemma mapped_block: "mapped m p n \<Longrightarrow> \<exists>xs. length xs = n \<and> block m p xs"
proof -
  assume "mapped m p n"
  then have "block m p (map (\<lambda>i. the (m (p + i))) [0..<n])"
    by (auto simp: block_def mapped_def)
  then show ?thesis by (intro exI [of _ "map (\<lambda>i. the (m (p + i))) [0..<n]"]) simp
qed

section \<open>Writing\<close>

lemma wr_Nil [simp]: "wr m p [] = m"
  by (rule ext) (auto simp: wr_def)

lemma wr_Cons: "wr m p (x # xs) = wr (m(p \<mapsto> x)) (Suc p) xs"
  by (rule ext) (auto simp: wr_def nth_Cons' le_Suc_eq Suc_le_eq)

lemma wr_append: "wr m p (xs @ ys) = wr (wr m p xs) (p + length xs) ys"
  by (rule ext) (auto simp: wr_def nth_append)

lemma wr_upd_before: "a < p \<Longrightarrow> wr (m(a \<mapsto> x)) p xs = (wr m p xs)(a \<mapsto> x)"
  by (rule ext) (auto simp: wr_def)

lemma wr_snoc: "wr m p (xs @ [x]) = (wr m p xs)(p + length xs \<mapsto> x)"
  by (simp add: wr_append wr_Cons)

lemma wr_apply_in: "i < length xs \<Longrightarrow> wr m p xs (p + i) = Some (xs ! i)"
  by (simp add: wr_def)

lemma wr_apply_out: "a < p \<or> p + length xs \<le> a \<Longrightarrow> wr m p xs a = m a"
  by (auto simp: wr_def)

lemma block_wr_same [simp]: "block (wr m p xs) p xs"
  by (simp add: block_def wr_def)

lemma wr_block_id:
  assumes "block m p xs"
  shows "wr m p xs = m"
proof
  fix a
  show "wr m p xs a = m a"
  proof (cases "p \<le> a \<and> a < p + length xs")
    case True
    then have "a - p < length xs" "p + (a - p) = a" by auto
    then show ?thesis using block_nth [OF assms, of "a - p"] by (simp add: wr_def)
  next
    case False
    then show ?thesis by (auto simp: wr_def)
  qed
qed

lemma block_wr_disjnt:
  "disjnt_rng p (length xs) q (length ys) \<Longrightarrow> block (wr m p xs) q ys = block m q ys"
  unfolding block_def wr_def disjnt_rng_def by (intro all_cong) auto

lemma wr_not_None: "m a \<noteq> None \<Longrightarrow> wr m p xs a \<noteq> None"
  by (simp add: wr_def)

lemma mapped_wr [simp]: "mapped m q n \<Longrightarrow> mapped (wr m p xs) q n"
  by (auto simp: mapped_def wr_def)

lemma wr_wr_same: "length xs = length ys \<Longrightarrow> wr (wr m p xs) p ys = wr m p ys"
  by (rule ext) (auto simp: wr_def)

lemma wr_again: "wr (wr m p xs) p ys = wr m p (ys @ drop (length ys) xs)"
  by (rule ext) (auto simp: wr_def nth_append)

lemma wr_over: "length ys \<le> length zs \<Longrightarrow> wr (wr m p (xs @ ys)) (p + length xs) zs = wr m p (xs @ zs)"
  by (rule ext) (auto simp: wr_def nth_append)

lemma wr_cover:
  "p \<le> q \<Longrightarrow> q + length ys \<le> p + length xs \<Longrightarrow>
    wr (wr m p xs) q ys = wr m p (take (q - p) xs @ ys @ drop (q - p + length ys) xs)"
  by (rule ext) (auto simp: wr_def nth_append)

lemma wr_commute:
  "disjnt_rng p (length xs) q (length ys) \<Longrightarrow> wr (wr m p xs) q ys = wr (wr m q ys) p xs"
  by (rule ext) (auto simp: wr_def disjnt_rng_def)

lemma block_upd_other: "a < p \<or> p + length xs \<le> a \<Longrightarrow> block (m(a \<mapsto> x)) p xs = block m p xs"
  unfolding block_def by (intro all_cong) auto

lemma mapped_upd [simp]: "mapped m p n \<Longrightarrow> mapped (m(a \<mapsto> x)) p n"
  by (auto simp: mapped_def)

lemma st_Some [simp]: "m p \<noteq> None \<Longrightarrow> st m p v = Some (m(p \<mapsto> v))"
  by (auto simp: st_def)

lemma st_eq_Some: "st m p v = Some m' \<longleftrightarrow> m p \<noteq> None \<and> m' = m(p \<mapsto> v)"
  by (auto simp: st_def split: option.splits)

lemma st_mapped: "mapped m p n \<Longrightarrow> 0 < n \<Longrightarrow> st m p v = Some (m(p \<mapsto> v))"
  by (cases n) (auto simp: mapped_Suc)

lemma disjnt_rng_sym: "disjnt_rng p n q k = disjnt_rng q k p n"
  by (auto simp: disjnt_rng_def)

lemma mapped_const [simp]: "mapped (\<lambda>_. Some c) p n"
  by (simp add: mapped_def)

lemma wr_snoc_before: "wr (m(p + length xs \<mapsto> x)) p xs = wr m p (xs @ [x])"
  by (rule ext) (auto simp: wr_def nth_append)

section \<open>A result and its scratch space\<close>

text \<open>\<open>kst m p t P T\<close>: the result \<open>P\<close> at \<open>p\<close> and the scratch space \<open>T\<close> at \<open>t\<close>, everything else as in \<open>m\<close>.\<close>

definition kst :: "'a mem \<Rightarrow> nat \<Rightarrow> nat \<Rightarrow> 'a list \<Rightarrow> 'a list \<Rightarrow> 'a mem" where
  "kst m pp tp P T = wr (wr m pp P) tp T"

lemma kst_block_P:
  assumes "disjnt_rng pp (length P) tp (length T)" "P = A @ xs @ C"
  shows "block (kst m pp tp P T) (pp + length A) xs"
proof -
  have "block (wr m pp P) pp P" by simp
  then have "block (wr m pp P) (pp + length A) xs" by (subst (asm) (2) assms(2)) (simp add: block_append)
  then show ?thesis using assms unfolding kst_def by (subst block_wr_disjnt) (auto simp: disjnt_rng_def)
qed

lemma kst_block_T:
  assumes "T = A @ xs @ C"
  shows "block (kst m pp tp P T) (tp + length A) xs"
proof -
  have "block (kst m pp tp P T) tp T" by (simp add: kst_def)
  then show ?thesis by (subst (asm) (2) assms) (simp add: block_append)
qed

lemma kst_block_out:
  assumes "block m q xs" "disjnt_rng pp (length P) q (length xs)" "disjnt_rng tp (length T) q (length xs)"
  shows "block (kst m pp tp P T) q xs"
  using assms unfolding kst_def by (simp add: block_wr_disjnt)

lemma kst_wr_P:
  assumes "disjnt_rng pp (length P) tp (length T)" "P = A @ xs @ C" "length zs = length xs" "q = pp + length A"
  shows "wr (kst m pp tp P T) q zs = kst m pp tp (A @ zs @ C) T"
proof -
  have "wr (kst m pp tp P T) q zs = wr (wr (wr m pp P) q zs) tp T"
    using assms unfolding kst_def by (intro wr_commute) (auto simp: disjnt_rng_def)
  also have "wr (wr m pp P) q zs = wr m pp (A @ zs @ C)"
    using assms by (subst wr_cover) auto
  finally show ?thesis by (simp add: kst_def)
qed

lemma kst_wr_T:
  assumes "T = A @ xs @ C" "length zs = length xs" "q = tp + length A"
  shows "wr (kst m pp tp P T) q zs = kst m pp tp P (A @ zs @ C)"
  unfolding kst_def using assms by (subst wr_cover) auto

lemma kst_mapped [simp]: "mapped m q n \<Longrightarrow> mapped (kst m pp tp P T) q n"
  by (simp add: kst_def)

lemma kst_self:
  assumes "mapped m pp n" "mapped m tp k"
  shows "\<exists>P T. length P = n \<and> length T = k \<and> m = kst m pp tp P T"
proof -
  obtain P T where "length P = n" "block m pp P" "length T = k" "block m tp T"
    using mapped_block [OF assms(1)] mapped_block [OF assms(2)] by blast
  then show ?thesis by (intro exI [of _ P] exI [of _ T]) (simp add: kst_def wr_block_id)
qed

lemma kst_wr_T_two:
  assumes "length zs \<le> k" "k + length ts \<le> length T"
  shows "\<exists>X. wr (wr (kst m pp tp P T) tp zs) (tp + k) ts = kst m pp tp P (zs @ X) \<and> length zs + length X = length T"
proof -
  have "wr (kst m pp tp P T) tp zs = kst m pp tp P (zs @ drop (length zs) T)"
    using kst_wr_T [of T "[]" "take (length zs) T" "drop (length zs) T" zs tp] assms by simp
  moreover have "wr (kst m pp tp P (zs @ drop (length zs) T)) (tp + k) ts =
      kst m pp tp P (zs @ take (k - length zs) (drop (length zs) T) @ ts @ drop (k + length ts) T)"
    unfolding kst_def using assms by (subst wr_cover) (auto simp: min_def)
  ultimately show ?thesis using assms
    by (intro exI [of _ "take (k - length zs) (drop (length zs) T) @ ts @ drop (k + length ts) T"]) simp
qed

lemma kst_ld_last:
  assumes "disjnt_rng pp (length P) tp (length T)" "P \<noteq> []" "length P = n"
  shows "ld (kst m pp tp P T) (pp + n - 1) = Some (last P)"
proof -
  have "block (kst m pp tp P T) (pp + length (butlast P)) [last P]"
    using kst_block_P [OF assms(1), of "butlast P" "[last P]" "[]"] assms(2) by simp
  moreover have "pp + n - 1 = pp + length (butlast P)" using assms by (cases P) auto
  ultimately show ?thesis by (simp only: block_Cons ld_def)
qed

lemma kst_frame:
  "a < pp \<or> pp + length P \<le> a \<Longrightarrow> a < tp \<or> tp + length T \<le> a \<Longrightarrow> kst m pp tp P T a = m a"
  by (auto simp: kst_def wr_def)

lemma kst_result:
  assumes "disjnt_rng pp (length P) tp (length T)"
  shows "block (kst m pp tp P T) pp P"
  using kst_block_P [OF assms, of "[]" P "[]"] by simp

section \<open>Copying cells\<close>

text \<open>
  \<open>memcpy\<close> (and the library's \<open>MPN_COPY\<close>, \<open>MPN_COPY_INCR\<close>) copies upwards; the order of the
  copies matters only where the ranges overlap.
\<close>

fun copy_up :: "'a mem \<Rightarrow> nat \<Rightarrow> nat \<Rightarrow> nat \<Rightarrow> 'a mem option" where
  "copy_up m d s 0 = Some m"
| "copy_up m d s (Suc n) = do { x \<leftarrow> ld m s; m' \<leftarrow> st m d x; copy_up m' (Suc d) (Suc s) n }"

fun copy_down :: "'a mem \<Rightarrow> nat \<Rightarrow> nat \<Rightarrow> nat \<Rightarrow> 'a mem option" where
  "copy_down m d s 0 = Some m"
| "copy_down m d s (Suc n) = do { x \<leftarrow> ld m (s + n); m' \<leftarrow> st m (d + n) x; copy_down m' d s n }"

fun fill :: "'a mem \<Rightarrow> nat \<Rightarrow> 'a \<Rightarrow> nat \<Rightarrow> 'a mem option" where
  "fill m d v 0 = Some m"
| "fill m d v (Suc n) = do { m' \<leftarrow> st m d v; fill m' (Suc d) v n }"

lemma copy_up_spec:
  assumes "block m s xs" "mapped m d (length xs)" "up_ok d s (length xs)"
  shows "copy_up m d s (length xs) = Some (wr m d xs)"
  using assms
proof (induction xs arbitrary: m d s)
  case Nil
  then show ?case by simp
next
  case (Cons x xs)
  have "block (m(d \<mapsto> x)) (Suc s) xs"
    using Cons.prems by (auto simp: block_Cons up_ok_def block_def)
  moreover have "mapped (m(d \<mapsto> x)) (Suc d) (length xs)" "up_ok (Suc d) (Suc s) (length xs)"
    using Cons.prems by (auto simp: mapped_Suc up_ok_def)
  ultimately have "copy_up (m(d \<mapsto> x)) (Suc d) (Suc s) (length xs) = Some (wr (m(d \<mapsto> x)) (Suc d) xs)"
    by (rule Cons.IH)
  then show ?case
    using Cons.prems by (simp add: ld_def block_Cons mapped_Suc wr_Cons)
qed

lemma copy_down_spec:
  assumes "block m s xs" "mapped m d (length xs)" "down_ok d s (length xs)"
  shows "copy_down m d s (length xs) = Some (wr m d xs)"
  using assms
proof (induction xs arbitrary: m rule: rev_induct)
  case Nil
  then show ?case by simp
next
  case (snoc x xs)
  have m: "mapped m d (length xs)" "m (d + length xs) \<noteq> None"
    using snoc.prems(2) by (auto simp: mapped_def)
  let ?m = "m(d + length xs \<mapsto> x)"
  have "block ?m s xs"
    using snoc.prems by (auto simp: block_def down_ok_def nth_append split: if_splits)
  moreover have "mapped ?m d (length xs)" "down_ok d s (length xs)"
    using m snoc.prems by (auto simp: down_ok_def)
  ultimately have "copy_down ?m d s (length xs) = Some (wr ?m d xs)"
    by (rule snoc.IH)
  moreover have "wr ?m d xs = wr m d (xs @ [x])"
    by (rule ext) (auto simp: wr_def nth_append)
  ultimately show ?case
    using snoc.prems m by (simp add: ld_def block_append block_Cons)
qed

lemma fill_spec: "mapped m d n \<Longrightarrow> fill m d v n = Some (wr m d (replicate n v))"
  by (induction n arbitrary: m d) (auto simp: mapped_Suc wr_Cons)

section \<open>C strings\<close>

definition cstr :: "bmem \<Rightarrow> nat \<Rightarrow> byte list \<Rightarrow> bool" where
  "cstr m p s \<longleftrightarrow> block m p (s @ [0]) \<and> 0 \<notin> set s"

lemma cstr_Nil [cstr_simps]: "cstr m p [] \<longleftrightarrow> m p = Some 0"
  by (simp add: cstr_def block_Cons)

lemma cstr_Cons [cstr_simps]: "cstr m p (c # s) \<longleftrightarrow> m p = Some c \<and> c \<noteq> 0 \<and> cstr m (Suc p) s"
  by (auto simp: cstr_def block_Cons)

lemma cstr_block: "cstr m p s \<Longrightarrow> block m p s"
  by (simp add: cstr_def block_append)

lemma cstr_terminated: "cstr m p s \<Longrightarrow> block m p (s @ [0])"
  by (simp add: cstr_def)

lemma cstr_end: "cstr m p s \<Longrightarrow> m (p + length s) = Some 0"
  by (simp add: cstr_def block_append block_Cons)

lemma cstr_drop: "cstr m p s \<Longrightarrow> n \<le> length s \<Longrightarrow> cstr m (p + n) (drop n s)"
proof (induction s arbitrary: p n)
  case Nil
  then show ?case by simp
next
  case (Cons c s)
  then show ?case by (cases n) (simp_all add: cstr_Cons flip: add_Suc)
qed

lemma cstr_unique: "cstr m p s \<Longrightarrow> cstr m p t \<Longrightarrow> s = t"
proof (induction s arbitrary: p t)
  case Nil
  then show ?case by (cases t) (auto simp: cstr_Nil cstr_Cons)
next
  case (Cons c s)
  then show ?case by (cases t) (auto simp: cstr_Nil cstr_Cons)
qed

lemma cstr_wr_disjnt:
  "disjnt_rng p (length xs) q (Suc (length s)) \<Longrightarrow> cstr (wr m p xs) q s = cstr m q s"
  by (simp add: cstr_def block_wr_disjnt)

section \<open>Words and truth values\<close>

text \<open>The value of a C comparison.\<close>

definition b2w :: "bool \<Rightarrow> 'a::len word" where
  "b2w b = (if b then 1 else 0)"

lemma b2w_simps [simp]: "b2w True = 1" "b2w False = 0"
  by (simp_all add: b2w_def)

lemma unat_b2w: "unat (b2w b :: 'a::len word) = of_bool b"
  by (simp add: b2w_def)

text \<open>A byte that was widened to an \<open>int\<close>, with its sign or without, is its low byte.\<close>

lemma ucast_byte_of_int: "(ucast (word_of_int x :: u32) :: byte) = word_of_int x"
  by (rule ucast_down_wi) (simp add: is_down)

lemma ucast_scast_byte: "(ucast (scast (c :: byte) :: u32) :: byte) = c"
proof -
  have "(scast c :: u32) = word_of_int (sint c)" by simp
  then have "(ucast (scast c :: u32) :: byte) = word_of_int (sint c)" by (simp only: ucast_byte_of_int)
  then show ?thesis by simp
qed

lemma ucast_ucast_byte: "(ucast (ucast (c :: byte) :: u32) :: byte) = c"
proof -
  have "(ucast c :: u32) = word_of_int (uint c)" by simp
  then have "(ucast (ucast c :: u32) :: byte) = word_of_int (uint c)" by (simp only: ucast_byte_of_int)
  then show ?thesis by simp
qed

lemma scast_byte_eq: "(scast (c :: byte) :: u32) = scast d \<longleftrightarrow> c = d"
  by (metis ucast_scast_byte)

lemma sint_u32_nonneg: "0 \<le> sint (w :: u32) \<longleftrightarrow> unat w < 2 ^ 31"
proof -
  have "0 \<le> sint w \<longleftrightarrow> drop_bit (LENGTH(32) - Suc 0) w = 0"
    unfolding drop_bit_eq_zero_iff_not_bit_last bit_last_iff by auto
  also have "\<dots> \<longleftrightarrow> unat (drop_bit 31 w) = 0" by (simp add: unat_eq_zero)
  also have "unat (drop_bit 31 w) = unat w div 2 ^ 31" by (simp only: unat_drop_bit_eq drop_bit_eq_div [of 31 "unat w"])
  finally show ?thesis by (simp add: div_eq_0_iff)
qed

end
