(* ===== verification/Ctype.thy ===== *)
theory Ctype
  imports CMem
begin

text \<open>
  Character classification (\<^verbatim>\<open>mintlib/ctype.c\<close>, \<^verbatim>\<open>include/ctype.h\<close>): a table with a word of flags for
  \<open>EOF\<close> and for each character, indexed with \<open>(unsigned char)(c + 1)\<close>, and the conversions of
  \<^verbatim>\<open>mintlib/toxxx.c\<close>. The argument is a C \<open>int\<close>, a 32-bit word. The index of 255 wraps around to the
  entry of \<open>EOF\<close>.
\<close>

abbreviation IScntrl :: u32 where "IScntrl \<equiv> 0x01"
abbreviation ISdigit :: u32 where "ISdigit \<equiv> 0x02"
abbreviation ISupper :: u32 where "ISupper \<equiv> 0x04"
abbreviation ISlower :: u32 where "ISlower \<equiv> 0x08"
abbreviation ISspace :: u32 where "ISspace \<equiv> 0x10"
abbreviation ISpunct :: u32 where "ISpunct \<equiv> 0x20"
abbreviation ISxdigit :: u32 where "ISxdigit \<equiv> 0x40"
abbreviation ISblank :: u32 where "ISblank \<equiv> 0x80"
abbreviation ISgraph :: u32 where "ISgraph \<equiv> 0x100"
abbreviation ISprint :: u32 where "ISprint \<equiv> 0x200"

text \<open>The table as runs of equal entries.\<close>

definition ctype_runs :: "(nat \<times> u32) list" where
  "ctype_runs =
    [(1, 0),
     (9, IScntrl), (1, IScntrl OR ISspace OR ISblank), (4, IScntrl OR ISspace), (18, IScntrl),
     (1, ISspace OR ISblank OR ISprint), (15, ISpunct OR ISgraph OR ISprint),
     (10, ISdigit OR ISxdigit OR ISgraph OR ISprint), (7, ISpunct OR ISgraph OR ISprint),
     (6, ISupper OR ISxdigit OR ISgraph OR ISprint), (20, ISupper OR ISgraph OR ISprint),
     (6, ISpunct OR ISgraph OR ISprint),
     (6, ISlower OR ISxdigit OR ISgraph OR ISprint), (20, ISlower OR ISgraph OR ISprint),
     (4, ISpunct OR ISgraph OR ISprint), (1, IScntrl), (128, IScntrl)]"

definition myctype :: "u32 list" where
  "myctype = concat (map (\<lambda>(n, x). replicate n x) ctype_runs)"

definition ctype_of :: "u32 \<Rightarrow> u32" where
  "ctype_of c = myctype ! unat (ucast (c + 1) :: byte)"

definition isalnum :: "u32 \<Rightarrow> u32" where "isalnum c = ctype_of c AND (ISupper OR ISlower OR ISdigit)"
definition isalpha :: "u32 \<Rightarrow> u32" where "isalpha c = ctype_of c AND (ISupper OR ISlower)"
definition isascii :: "u32 \<Rightarrow> u32" where "isascii c = b2w (c AND NOT 0x7F = 0)"
definition toascii :: "u32 \<Rightarrow> u32" where "toascii c = c AND 0x7F"
definition iscntrl :: "u32 \<Rightarrow> u32" where
  "iscntrl c = (if c = - 1 then 0 else if (ucast c :: byte) = 255 then 1 else ctype_of c AND IScntrl)"
definition isdigit :: "u32 \<Rightarrow> u32" where "isdigit c = ctype_of c AND ISdigit"
definition isgraph :: "u32 \<Rightarrow> u32" where "isgraph c = ctype_of c AND ISgraph"
definition islower :: "u32 \<Rightarrow> u32" where "islower c = ctype_of c AND ISlower"
definition isprint :: "u32 \<Rightarrow> u32" where "isprint c = ctype_of c AND ISprint"
definition ispunct :: "u32 \<Rightarrow> u32" where "ispunct c = ctype_of c AND ISpunct"
definition isspace :: "u32 \<Rightarrow> u32" where "isspace c = ctype_of c AND ISspace"
definition isupper :: "u32 \<Rightarrow> u32" where "isupper c = ctype_of c AND ISupper"
definition isxdigit :: "u32 \<Rightarrow> u32" where "isxdigit c = ctype_of c AND ISxdigit"
definition isblank :: "u32 \<Rightarrow> u32" where "isblank c = ctype_of c AND ISblank"

definition toupper :: "u32 \<Rightarrow> u32" where "toupper c = (if islower c \<noteq> 0 then c AND NOT 0x20 else c)"
definition tolower :: "u32 \<Rightarrow> u32" where "tolower c = (if isupper c \<noteq> 0 then c OR 0x20 else c)"

section \<open>The table by ranges\<close>

fun run_at :: "nat \<Rightarrow> (nat \<times> 'a) list \<Rightarrow> nat \<Rightarrow> 'a" where
  "run_at b [] i = undefined"
| "run_at b ((n, x) # rs) i = (if i < b + n then x else run_at (b + n) rs i)"

lemma nth_runs:
  "b \<le> i \<Longrightarrow> i < b + sum_list (map fst rs) \<Longrightarrow> concat (map (\<lambda>(n, x). replicate n x) rs) ! (i - b) = run_at b rs i"
  by (induction b rs i rule: run_at.induct) (auto simp: nth_append)

lemma length_myctype: "length myctype = 257"
  by (simp add: myctype_def ctype_runs_def)

lemma myctype_nth:
  "i < 255 \<Longrightarrow> myctype ! Suc i =
    (if i < 9 then IScntrl else if i < 10 then IScntrl OR ISspace OR ISblank else if i < 14 then IScntrl OR ISspace
     else if i < 32 then IScntrl else if i < 33 then ISspace OR ISblank OR ISprint
     else if i < 48 then ISpunct OR ISgraph OR ISprint else if i < 58 then ISdigit OR ISxdigit OR ISgraph OR ISprint
     else if i < 65 then ISpunct OR ISgraph OR ISprint else if i < 71 then ISupper OR ISxdigit OR ISgraph OR ISprint
     else if i < 91 then ISupper OR ISgraph OR ISprint else if i < 97 then ISpunct OR ISgraph OR ISprint
     else if i < 103 then ISlower OR ISxdigit OR ISgraph OR ISprint else if i < 123 then ISlower OR ISgraph OR ISprint
     else if i < 127 then ISpunct OR ISgraph OR ISprint else if i < 128 then IScntrl else IScntrl)"
proof -
  assume i: "i < 255"
  then have "myctype ! (Suc i - 0) = run_at 0 ctype_runs (Suc i)"
    unfolding myctype_def by (intro nth_runs) (simp_all add: ctype_runs_def)
  also have "\<dots> = (if i < 0 then 0 else run_at 1 (tl ctype_runs) (Suc i))" by (simp add: ctype_runs_def)
  finally show ?thesis using i by (simp add: ctype_runs_def)
qed

lemma ctype_of_char:
  "n < 255 \<Longrightarrow> ctype_of (of_nat n) = myctype ! Suc n"
proof -
  assume n: "n < 255"
  have "(of_nat n + 1 :: u32) = of_nat (Suc n)" by simp
  moreover have "unat (ucast (of_nat (Suc n) :: u32) :: byte) = Suc n"
    using n by (simp only: unsigned_ucast_eq unat_of_nat take_bit_eq_mod) simp
  ultimately show ?thesis by (simp only: ctype_of_def)
qed

lemma ctype_of_255: "ctype_of 255 = 0" "ctype_of (- 1) = 0"
  by (simp_all add: ctype_of_def myctype_def ctype_runs_def)

lemma ctype_cases:
  "isalpha (of_nat n) \<noteq> 0 \<longleftrightarrow> n \<in> {65..90} \<union> {97..122}" "isdigit (of_nat n) \<noteq> 0 \<longleftrightarrow> n \<in> {48..57}"
  "isupper (of_nat n) \<noteq> 0 \<longleftrightarrow> n \<in> {65..90}" "islower (of_nat n) \<noteq> 0 \<longleftrightarrow> n \<in> {97..122}"
  "isspace (of_nat n) \<noteq> 0 \<longleftrightarrow> n \<in> {9..13} \<union> {32}" "isxdigit (of_nat n) \<noteq> 0 \<longleftrightarrow> n \<in> {48..57} \<union> {65..70} \<union> {97..102}"
  "isprint (of_nat n) \<noteq> 0 \<longleftrightarrow> n \<in> {32..126}" "isgraph (of_nat n) \<noteq> 0 \<longleftrightarrow> n \<in> {33..126}"
  "isblank (of_nat n) \<noteq> 0 \<longleftrightarrow> n \<in> {9, 32}"
  if "n < 255" for n
  using that
  by (auto simp: isalpha_def isdigit_def isupper_def islower_def isspace_def isxdigit_def isprint_def isgraph_def isblank_def
      ctype_of_char myctype_nth)

lemma ctype_cases_255:
  "isalpha 255 = 0" "isdigit 255 = 0" "isupper 255 = 0" "islower 255 = 0" "isspace 255 = 0" "isxdigit 255 = 0"
  "isprint 255 = 0" "isgraph 255 = 0" "isblank 255 = 0" "ispunct 255 = 0" "iscntrl 255 = 1"
  by (simp_all add: isalpha_def isdigit_def isupper_def islower_def isspace_def isxdigit_def isprint_def isgraph_def
      isblank_def ispunct_def iscntrl_def ctype_of_255)

lemma iscntrl_ispunct:
  assumes "n < 255"
  shows "iscntrl (of_nat n) \<noteq> 0 \<longleftrightarrow> n < 32 \<or> 127 \<le> n"
    and "ispunct (of_nat n) \<noteq> 0 \<longleftrightarrow> n \<in> {33..47} \<union> {58..64} \<union> {91..96} \<union> {123..126}"
proof -
  have u: "unat (of_nat n :: u32) = n" using assms by (simp only: unat_of_nat take_bit_eq_mod) simp
  have "unat (ucast (of_nat n :: u32) :: byte) = n" using assms by (simp only: unsigned_ucast_eq u take_bit_eq_mod) simp
  then have ne: "(ucast (of_nat n :: u32) :: byte) \<noteq> 255" using assms by auto
  have "(of_nat n :: u32) \<noteq> - 1"
  proof
    assume "(of_nat n :: u32) = - 1"
    then have "n = unat (- 1 :: u32)" using u by metis
    then show False using assms by (simp add: unsigned_minus_1_eq_mask mask_eq_exp_minus_1)
  qed
  note ne = ne this
  then show "iscntrl (of_nat n) \<noteq> 0 \<longleftrightarrow> n < 32 \<or> 127 \<le> n"
    using assms ne by (simp add: iscntrl_def ctype_of_char myctype_nth)
  show "ispunct (of_nat n) \<noteq> 0 \<longleftrightarrow> n \<in> {33..47} \<union> {58..64} \<union> {91..96} \<union> {123..126}"
    using assms by (auto simp: ispunct_def ctype_of_char myctype_nth)
qed

text \<open>Letters and their case, as natural numbers.\<close>

definition upper_nat :: "nat \<Rightarrow> nat" where "upper_nat n = (if n \<in> {97..122} then n - 32 else n)"

lemma toupper_spec: "n < 256 \<Longrightarrow> toupper (of_nat n) = of_nat (upper_nat n)"
proof (cases "n \<in> {97..122}")
  case True
  have t: "\<forall>k \<in> set [97..<123]. (of_nat k :: u32) AND NOT 0x20 = of_nat (k - 32)" by (simp add: upt_rec)
  have "(of_nat n :: u32) AND NOT 0x20 = of_nat (n - 32)" by (rule bspec [OF t], subst set_upt) (use True in simp)
  then show ?thesis using True ctype_cases(4) [of n] by (simp add: toupper_def upper_nat_def)
next
  case False
  assume "n < 256"
  then have "islower (of_nat n) = 0" using False ctype_cases(4) [of n] ctype_cases_255(4) by (cases "n = 255") auto
  then show ?thesis using False by (auto simp: toupper_def upper_nat_def)
qed

text \<open>Characters reach the classification as \<open>int\<close>s, with their sign or without; only the low byte counts.\<close>

lemma ctype_of_low: "ctype_of c = myctype ! unat (ucast c + 1 :: byte)"
proof -
  have "c + 1 = word_of_int (uint c + 1)" by simp
  then have "(ucast (c + 1) :: byte) = word_of_int (uint c + 1)" by (simp only: ucast_byte_of_int)
  also have "\<dots> = ucast c + 1" by simp
  finally show ?thesis by (simp only: ctype_of_def)
qed

lemma class_byte:
  fixes c :: byte
  shows "ctype_of (scast c) = ctype_of (of_nat (unat c))" "ctype_of (ucast c) = ctype_of (of_nat (unat c))"
  by (simp_all add: ctype_of_low ucast_scast_byte ucast_ucast_byte)

lemma byte_255: "(unat (c :: byte) < 255 \<or> unat c = 255)"
  using unsigned_less [of c, where ?'a = nat] by simp arith

lemma isspace_byte: "isspace (scast (c :: byte)) \<noteq> 0 \<longleftrightarrow> unat c \<in> {9..13} \<union> {32}"
  using ctype_cases(5) [of "unat c"] ctype_cases_255(5) byte_255 [of c]
  by (auto simp: isspace_def class_byte simp del: of_nat_unat)

lemma islower_byte: "islower (scast (c :: byte)) \<noteq> 0 \<longleftrightarrow> unat c \<in> {97..122}"
  using ctype_cases(4) [of "unat c"] ctype_cases_255(4) byte_255 [of c]
  by (auto simp: islower_def class_byte simp del: of_nat_unat)

lemma isalpha_byte: "isalpha (ucast (c :: byte)) \<noteq> 0 \<longleftrightarrow> unat c \<in> {65..90} \<union> {97..122}"
  using ctype_cases(1) [of "unat c"] ctype_cases_255(1) byte_255 [of c]
  by (auto simp: isalpha_def class_byte simp del: of_nat_unat)

lemma toupper_X: "toupper (scast (c :: byte)) = 88 \<longleftrightarrow> c = 120 \<or> c = 88"
proof (cases "unat c \<in> {97..122}")
  case True
  have t: "\<forall>k \<in> set [97..<123]. ((scast (of_nat k :: byte) :: u32) AND NOT 0x20 = 88) = (k = 120)" by (simp add: upt_rec)
  have "((scast (of_nat (unat c) :: byte) :: u32) AND NOT 0x20 = 88) = (unat c = 120)"
    by (rule bspec [OF t], subst set_upt) (use True in simp)
  moreover have "c = 120 \<longleftrightarrow> unat c = 120" "c \<noteq> 88" using True by (auto simp: word_unat_eq_iff)
  ultimately show ?thesis using True islower_byte [of c] by (simp add: toupper_def)
next
  case False
  have "(scast c :: u32) = 88 \<longleftrightarrow> c = 88"
  proof
    assume "(scast c :: u32) = 88"
    then have "(ucast (scast c :: u32) :: byte) = ucast (88 :: u32)" by simp
    then show "c = 88" by (simp add: ucast_scast_byte)
  qed simp
  moreover have "c \<noteq> 120" using False by auto
  moreover have "islower (scast c) = 0" using False islower_byte by blast
  ultimately show ?thesis by (simp add: toupper_def)
qed

lemma isalnum_or: "isalnum c \<noteq> 0 \<longleftrightarrow> isalpha c \<noteq> 0 \<or> isdigit c \<noteq> 0"
proof -
  have "isalnum c = isalpha c OR isdigit c"
    by (simp add: isalnum_def isalpha_def isdigit_def flip: bit.conj_disj_distrib)
  then show ?thesis by (simp only: or_eq_0_iff) blast
qed

lemma ctype_eof:
  "isalpha (- 1) = 0" "isdigit (- 1) = 0" "isalnum (- 1) = 0" "isupper (- 1) = 0" "islower (- 1) = 0" "isspace (- 1) = 0"
  "isblank (- 1) = 0" "isxdigit (- 1) = 0" "isprint (- 1) = 0" "isgraph (- 1) = 0" "ispunct (- 1) = 0" "iscntrl (- 1) = 0"
  by (simp_all add: isalpha_def isdigit_def isalnum_def isupper_def islower_def isspace_def isxdigit_def isprint_def isgraph_def
      isblank_def ispunct_def iscntrl_def ctype_of_255)

text \<open>All codes at once, 255 included.\<close>

lemma byte_class:
  assumes "n < 256" "f 255 = 0" "n < 255 \<Longrightarrow> f (of_nat n) \<noteq> 0 \<longleftrightarrow> n \<in> C" "255 \<notin> C"
  shows "f (of_nat n :: u32) \<noteq> (0 :: u32) \<longleftrightarrow> n \<in> C"
proof (cases "n = 255")
  case False
  then show ?thesis using assms(1,3) by simp
qed (use assms(2,4) in simp)

lemma byte_classes:
  assumes n: "n < 256"
  shows "isalpha (of_nat n) \<noteq> 0 \<longleftrightarrow> n \<in> {65..90} \<union> {97..122}" "isdigit (of_nat n) \<noteq> 0 \<longleftrightarrow> n \<in> {48..57}"
    "isupper (of_nat n) \<noteq> 0 \<longleftrightarrow> n \<in> {65..90}" "islower (of_nat n) \<noteq> 0 \<longleftrightarrow> n \<in> {97..122}"
    "isspace (of_nat n) \<noteq> 0 \<longleftrightarrow> n \<in> {9..13} \<union> {32}" "isblank (of_nat n) \<noteq> 0 \<longleftrightarrow> n \<in> {9, 32}"
    "isxdigit (of_nat n) \<noteq> 0 \<longleftrightarrow> n \<in> {48..57} \<union> {65..70} \<union> {97..102}"
    "isprint (of_nat n) \<noteq> 0 \<longleftrightarrow> n \<in> {32..126}" "isgraph (of_nat n) \<noteq> 0 \<longleftrightarrow> n \<in> {33..126}"
    "ispunct (of_nat n) \<noteq> 0 \<longleftrightarrow> n \<in> {33..47} \<union> {58..64} \<union> {91..96} \<union> {123..126}"
  by (rule byte_class [OF n], rule ctype_cases_255, erule ctype_cases iscntrl_ispunct, simp)+

lemma alnum_cntrl:
  assumes n: "n < 256"
  shows "isalnum (of_nat n) \<noteq> 0 \<longleftrightarrow> n \<in> {48..57} \<union> {65..90} \<union> {97..122}"
    and "iscntrl (of_nat n) \<noteq> 0 \<longleftrightarrow> n \<in> {0..31} \<union> {127..255}"
proof -
  show "isalnum (of_nat n) \<noteq> 0 \<longleftrightarrow> n \<in> {48..57} \<union> {65..90} \<union> {97..122}"
    unfolding isalnum_or byte_classes(1,2) [OF n] by blast
  show "iscntrl (of_nat n) \<noteq> 0 \<longleftrightarrow> n \<in> {0..31} \<union> {127..255}"
  proof (cases "n = 255")
    case False
    then have "n < 255" using n by simp
    from iscntrl_ispunct(1) [OF this] show ?thesis using n by auto
  qed (simp add: ctype_cases_255)
qed

text \<open>C34: The classification functions give for every character code what ASCII says, class by class: the table agrees with the
  ranges, and the index computation is right for every code, 255 included, which shares the entry of \<open>EOF\<close>. \<open>EOF\<close> itself is in no
  class, and \<open>toupper\<close> changes the lower-case letters only.\<close>

theorem ctype_correct:
  assumes "n < 256"
  shows "(isalpha (of_nat n) \<noteq> 0 \<longleftrightarrow> n \<in> {65..90} \<union> {97..122}) \<and> (isdigit (of_nat n) \<noteq> 0 \<longleftrightarrow> n \<in> {48..57}) \<and>
    (isalnum (of_nat n) \<noteq> 0 \<longleftrightarrow> n \<in> {48..57} \<union> {65..90} \<union> {97..122}) \<and>
    (isupper (of_nat n) \<noteq> 0 \<longleftrightarrow> n \<in> {65..90}) \<and> (islower (of_nat n) \<noteq> 0 \<longleftrightarrow> n \<in> {97..122}) \<and>
    (isspace (of_nat n) \<noteq> 0 \<longleftrightarrow> n \<in> {9..13} \<union> {32}) \<and> (isblank (of_nat n) \<noteq> 0 \<longleftrightarrow> n \<in> {9, 32}) \<and>
    (isxdigit (of_nat n) \<noteq> 0 \<longleftrightarrow> n \<in> {48..57} \<union> {65..70} \<union> {97..102}) \<and>
    (isprint (of_nat n) \<noteq> 0 \<longleftrightarrow> n \<in> {32..126}) \<and> (isgraph (of_nat n) \<noteq> 0 \<longleftrightarrow> n \<in> {33..126}) \<and>
    (ispunct (of_nat n) \<noteq> 0 \<longleftrightarrow> n \<in> {33..47} \<union> {58..64} \<union> {91..96} \<union> {123..126}) \<and>
    (iscntrl (of_nat n) \<noteq> 0 \<longleftrightarrow> n \<in> {0..31} \<union> {127..255}) \<and>
    isalpha (- 1) = 0 \<and> isdigit (- 1) = 0 \<and> isalnum (- 1) = 0 \<and> isupper (- 1) = 0 \<and> islower (- 1) = 0 \<and> isspace (- 1) = 0 \<and>
    isblank (- 1) = 0 \<and> isxdigit (- 1) = 0 \<and> isprint (- 1) = 0 \<and> isgraph (- 1) = 0 \<and> ispunct (- 1) = 0 \<and> iscntrl (- 1) = 0 \<and>
    toupper (of_nat n) = of_nat (upper_nat n)"
  by (intro conjI byte_classes alnum_cntrl ctype_eof toupper_spec assms)

theorem ctype_correct_witness: "isalpha 65 \<noteq> 0 \<and> toupper 97 = 65 \<and> isalpha 255 = 0 \<and> ispunct (- 1) = 0"
  using ctype_correct [of 65] ctype_correct [of 97] ctype_correct [of 255] by (simp add: upper_nat_def)

end
