(* ===== verification/Sorting.thy ===== *)
theory Sorting
  imports CMem "HOL-Library.Multiset"
begin

text \<open>
  Sorting and searching of arrays: \<open>msort_with_tmp\<close> of \<^verbatim>\<open>stdlib/msort.c\<close>, \<open>bsearch\<close> of
  \<^verbatim>\<open>stdlib/bsearch.c\<close>, \<open>lsearch\<close> and \<open>lfind\<close> of \<^verbatim>\<open>misc/lsearch.c\<close>. A cell of the memory is one
  array element, so the code's \<open>base + i * size\<close> is the address \<open>base + i\<close> and a \<open>memcpy\<close> of
  \<open>size\<close> bytes is one load and one store; the comparison function of the caller is the
  parameter \<open>cmp\<close>, its result an \<open>int\<close>.

  The locale \<open>comparator\<close> states what the standard asks of \<open>cmp\<close>; under it the merge sort sorts,
  permutes and is stable, and the binary search decides membership.
\<close>

section \<open>Merge sort\<close>

fun msort_merge ::
  "('a \<Rightarrow> 'a \<Rightarrow> int) \<Rightarrow> 'a mem \<Rightarrow> nat \<Rightarrow> nat \<Rightarrow> nat \<Rightarrow> nat \<Rightarrow> nat \<Rightarrow> ('a mem \<times> nat \<times> nat \<times> nat \<times> nat) option" where
  "msort_merge cmp m tmp b1 0 b2 n2 = Some (m, tmp, b1, 0, n2)"
| "msort_merge cmp m tmp b1 (Suc n1) b2 0 = Some (m, tmp, b1, Suc n1, 0)"
| "msort_merge cmp m tmp b1 (Suc n1) b2 (Suc n2) =
    do { x \<leftarrow> ld m b1; y \<leftarrow> ld m b2;
         if cmp x y \<le> 0
         then do { m \<leftarrow> st m tmp x; msort_merge cmp m (Suc tmp) (Suc b1) n1 b2 (Suc n2) }
         else do { m \<leftarrow> st m tmp y; msort_merge cmp m (Suc tmp) b1 (Suc n1) (Suc b2) n2 } }"

function msort_with_tmp :: "('a \<Rightarrow> 'a \<Rightarrow> int) \<Rightarrow> 'a mem \<Rightarrow> nat \<Rightarrow> nat \<Rightarrow> nat \<Rightarrow> 'a mem option" where
  "msort_with_tmp cmp m b n t =
    (if n \<le> 1 then Some m
     else do { m \<leftarrow> msort_with_tmp cmp m b (n div 2) t;
               m \<leftarrow> msort_with_tmp cmp m (b + n div 2) (n - n div 2) t;
               (m, tmp, b1, n1, n2) \<leftarrow> msort_merge cmp m t b (n div 2) (b + n div 2) (n - n div 2);
               m \<leftarrow> (if n1 > 0 then copy_up m tmp b1 n1 else Some m);
               copy_up m b t (n - n2) })"
  by pat_completeness auto
termination
  by (relation "measure (\<lambda>(cmp, m, b, n, t). n)") auto

declare msort_with_tmp.simps [simp del]

section \<open>The lists it computes\<close>

fun merge_list :: "('a \<Rightarrow> 'a \<Rightarrow> int) \<Rightarrow> 'a list \<Rightarrow> 'a list \<Rightarrow> 'a list" where
  "merge_list cmp [] ys = ys"
| "merge_list cmp (x # xs) [] = x # xs"
| "merge_list cmp (x # xs) (y # ys) =
    (if cmp x y \<le> 0 then x # merge_list cmp xs (y # ys) else y # merge_list cmp (x # xs) ys)"

function msort_list :: "('a \<Rightarrow> 'a \<Rightarrow> int) \<Rightarrow> 'a list \<Rightarrow> 'a list" where
  "msort_list cmp xs =
    (if length xs \<le> 1 then xs
     else merge_list cmp (msort_list cmp (take (length xs div 2) xs)) (msort_list cmp (drop (length xs div 2) xs)))"
  by pat_completeness auto
termination
  by (relation "measure (\<lambda>(cmp, xs). length xs)") auto

declare msort_list.simps [simp del]

lemma mset_merge_list [simp]: "mset (merge_list cmp xs ys) = mset xs + mset ys"
  by (induction cmp xs ys rule: merge_list.induct) auto

lemma set_merge_list [simp]: "set (merge_list cmp xs ys) = set xs \<union> set ys"
  by (induction cmp xs ys rule: merge_list.induct) auto

lemma length_merge_list [simp]: "length (merge_list cmp xs ys) = length xs + length ys"
  by (induction cmp xs ys rule: merge_list.induct) auto

lemma mset_msort_list [simp]: "mset (msort_list cmp xs) = mset xs"
proof (induction cmp xs rule: msort_list.induct)
  case (1 cmp xs)
  then show ?case
    by (subst msort_list.simps) (auto simp flip: mset_append)
qed

lemma length_msort_list [simp]: "length (msort_list cmp xs) = length xs"
  by (metis mset_msort_list size_mset)

lemma set_msort_list [simp]: "set (msort_list cmp xs) = set xs"
  by (metis mset_msort_list set_mset_mset)

section \<open>The merge in memory\<close>

lemma msort_merge_spec:
  assumes "block m b1 xs" "block m b2 ys" "mapped m tmp (length xs + length ys)"
    and "disjnt_rng tmp (length xs + length ys) b1 (length xs)" "disjnt_rng tmp (length xs + length ys) b2 (length ys)"
  shows "\<exists>zs xs0 xs' ys'. msort_merge cmp m tmp b1 (length xs) b2 (length ys) =
      Some (wr m tmp zs, tmp + length zs, b1 + length xs0, length xs', length ys') \<and>
    zs @ xs' @ ys' = merge_list cmp xs ys \<and> xs = xs0 @ xs' \<and> (\<exists>ys0. ys = ys0 @ ys') \<and> (xs' = [] \<or> ys' = [])"
  using assms
proof (induction cmp xs ys arbitrary: m tmp b1 b2 rule: merge_list.induct)
  case (1 cmp ys)
  show ?case by (rule exI [of _ "[]"], rule exI [of _ "[]"], rule exI [of _ "[]"], rule exI [of _ ys]) simp
next
  case (2 cmp x xs)
  then show ?case by (intro exI [of _ "[]"] exI [of _ "x # xs"]) auto
next
  case (3 cmp x xs y ys)
  have mt: "m tmp \<noteq> None" using 3(5) by (simp add: mapped_Suc)
  have l: "ld m b1 = Some x" "ld m b2 = Some y" using 3(3,4) by (auto simp: block_Cons ld_def)
  show ?case
  proof (cases "cmp x y \<le> 0")
    case True
    let ?m = "m(tmp \<mapsto> x)"
    have "block ?m (Suc b1) xs" "block ?m b2 (y # ys)"
      using 3(3,4,6,7) by (auto simp: block_Cons block_upd_other disjnt_rng_def)
    moreover have "mapped ?m (Suc tmp) (length xs + length (y # ys))" 
      using 3(5) by (intro mapped_upd) (simp add: mapped_Suc)
    moreover have "disjnt_rng (Suc tmp) (length xs + length (y # ys)) (Suc b1) (length xs)"
      "disjnt_rng (Suc tmp) (length xs + length (y # ys)) b2 (length (y # ys))"
      using 3(6,7) by (auto simp: disjnt_rng_def)
    ultimately obtain zs xs0 xs' ys' where r:
      "msort_merge cmp ?m (Suc tmp) (Suc b1) (length xs) b2 (length (y # ys)) =
        Some (wr ?m (Suc tmp) zs, Suc tmp + length zs, Suc b1 + length xs0, length xs', length ys')"
      "zs @ xs' @ ys' = merge_list cmp xs (y # ys)" "xs = xs0 @ xs'" "\<exists>ys0. y # ys = ys0 @ ys'" "xs' = [] \<or> ys' = []"
      using 3(1) [OF True] by blast
    show ?thesis
      by (rule exI [of _ "x # zs"], rule exI [of _ "x # xs0"], rule exI [of _ xs'], rule exI [of _ ys'])
        (use True l mt r in \<open>simp add: wr_Cons del: fun_upd_apply\<close>)
  next
    case False
    let ?m = "m(tmp \<mapsto> y)"
    have "block ?m b1 (x # xs)" "block ?m (Suc b2) ys"
      using 3(3,4,6,7) by (auto simp: block_Cons block_upd_other disjnt_rng_def)
    moreover have "mapped ?m (Suc tmp) (length (x # xs) + length ys)" 
      using 3(5) by (intro mapped_upd) (simp add: mapped_Suc)
    moreover have "disjnt_rng (Suc tmp) (length (x # xs) + length ys) b1 (length (x # xs))"
      "disjnt_rng (Suc tmp) (length (x # xs) + length ys) (Suc b2) (length ys)"
      using 3(6,7) by (auto simp: disjnt_rng_def)
    ultimately obtain zs xs0 xs' ys' where r:
      "msort_merge cmp ?m (Suc tmp) b1 (length (x # xs)) (Suc b2) (length ys) =
        Some (wr ?m (Suc tmp) zs, Suc tmp + length zs, b1 + length xs0, length xs', length ys')"
      "zs @ xs' @ ys' = merge_list cmp (x # xs) ys" "x # xs = xs0 @ xs'" "\<exists>ys0. ys = ys0 @ ys'" "xs' = [] \<or> ys' = []"
      using 3(2) [OF False] by blast
    have "\<exists>ys0. y # ys = ys0 @ ys'" using r(4) by (metis append_Cons)
    moreover have "msort_merge cmp m tmp b1 (length (x # xs)) b2 (length (y # ys)) =
        Some (wr m tmp (y # zs), tmp + length (y # zs), b1 + length xs0, length xs', length ys')"
      using False l mt r(1) by (simp add: wr_Cons del: fun_upd_apply)
    moreover have "(y # zs) @ xs' @ ys' = merge_list cmp (x # xs) (y # ys)" using False r(2) by simp
    ultimately show ?thesis using r(3,5) by blast
  qed
qed

lemma drop_length_append: "drop (length xs) (xs @ ys) = ys"
  by simp

lemma msort_with_tmp_spec:
  assumes "block m b xs" "mapped m t (length xs)" "disjnt_rng b (length xs) t (length xs)"
  shows "\<exists>ts. msort_with_tmp cmp m b (length xs) t = Some (kst m b t (msort_list cmp xs) ts) \<and> length ts \<le> length xs"
  using assms
proof (induction "length xs" arbitrary: m b xs rule: less_induct)
  case less
  show ?case
  proof (cases "length xs \<le> 1")
    case True
    then have "msort_with_tmp cmp m b (length xs) t = Some (kst m b t (msort_list cmp xs) [])"
      using less.prems(1) by (subst msort_with_tmp.simps, subst msort_list.simps) (simp add: kst_def wr_block_id)
    then show ?thesis by (intro exI [of _ "[]"]) simp
  next
    case False
    define n1 where "n1 = length xs div 2"
    define xs1 xs2 where "xs1 = take n1 xs" and "xs2 = drop n1 xs"
    have sp: "xs = xs1 @ xs2" "length xs1 = n1" "length xs2 = length xs - n1" "length xs1 < length xs" "length xs2 < length xs"
      using False by (auto simp: xs1_def xs2_def n1_def)
    have b: "block m b xs1" "block m (b + n1) xs2" using less.prems(1) sp by (simp_all add: block_append)
    note mt = less.prems(2) and d = less.prems(3)
    define P1 P2 where "P1 = msort_list cmp xs1" and "P2 = msort_list cmp xs2"
    have lP: "length P1 = n1" "length P2 = length xs - n1" "length (P1 @ P2) = length xs"
      using sp(2-4) by (auto simp: P1_def P2_def)
    obtain ts1 where t1: "msort_with_tmp cmp m b n1 t = Some (kst m b t P1 ts1)" "length ts1 \<le> n1"
    proof -
      have "mapped m t (length xs1)" "disjnt_rng b (length xs1) t (length xs1)"
        using mapped_le [OF mt] d sp(2,4) by (auto simp: disjnt_rng_def)
      from less.hyps [OF sp(4) b(1) this] show ?thesis using that unfolding P1_def sp(2) by blast
    qed
    let ?m1 = "kst m b t P1 ts1"
    have b2: "block ?m1 (b + n1) xs2"
      using b(2) d sp(2,3) lP t1(2) by (auto intro!: kst_block_out simp: disjnt_rng_def)
    have mt2: "mapped ?m1 t (length xs2)" using mapped_le [OF mt] sp(3) by simp
    have d2: "disjnt_rng (b + n1) (length xs2) t (length xs2)" using d sp(3) by (auto simp: disjnt_rng_def)
    obtain ts2 where t2: "msort_with_tmp cmp ?m1 (b + n1) (length xs - n1) t = Some (kst ?m1 (b + n1) t P2 ts2)" "length ts2 \<le> length xs - n1"
      using less.hyps [OF sp(5) b2 mt2 d2] unfolding P2_def sp(3) by blast
    define T where "T = ts2 @ drop (length ts2) ts1"
    have lT: "length T \<le> length xs" using t1(2) t2(2) sp(2-4) by (simp add: T_def)
    have m2: "kst ?m1 (b + n1) t P2 ts2 = kst m b t (P1 @ P2) T"
    proof -
      have "wr (wr (wr m b P1) t ts1) (b + n1) P2 = wr (wr (wr m b P1) (b + n1) P2) t ts1"
        using d lP sp(2,3) t1(2) by (intro wr_commute) (auto simp: disjnt_rng_def)
      also have "wr (wr m b P1) (b + n1) P2 = wr m b (P1 @ P2)" by (simp add: wr_append lP)
      finally show ?thesis by (simp add: kst_def T_def wr_again)
    qed
    let ?m2 = "kst m b t (P1 @ P2) T"
    have dT: "disjnt_rng b (length (P1 @ P2)) t (length T)" using d lP lT by (auto simp: disjnt_rng_def)
    have bP: "block ?m2 b P1" "block ?m2 (b + n1) P2"
      using kst_block_P [OF dT, of "[]" P1 P2] kst_block_P [OF dT, of P1 P2 "[]"] lP by simp_all
    have len: "length P1 + length P2 = length xs" using lP by simp
    have dm: "disjnt_rng t (length P1 + length P2) b (length P1)" "disjnt_rng t (length P1 + length P2) (b + n1) (length P2)"
      "mapped ?m2 t (length P1 + length P2)"
      using d mt lP len by (auto simp: disjnt_rng_def)
    obtain zs xs0 xs' ys' ys0 where g: "msort_merge cmp ?m2 t b (length P1) (b + n1) (length P2) =
        Some (wr ?m2 t zs, t + length zs, b + length xs0, length xs', length ys')"
      "zs @ xs' @ ys' = merge_list cmp P1 P2" "P1 = xs0 @ xs'" "P2 = ys0 @ ys'"
      using msort_merge_spec [OF bP dm(3,1,2), of cmp] by blast
    let ?v = "zs @ xs'"
    have "length (zs @ xs' @ ys') = length xs" unfolding g(2) using len by simp
    then have lv: "length ?v + length ys' = length xs" by simp
    have c1: "(if length xs' > 0 then copy_up (wr ?m2 t zs) (t + length zs) (b + length xs0) (length xs') else Some (wr ?m2 t zs))
        = Some (wr ?m2 t ?v)"
    proof (cases "xs' = []")
      case False
      have "block ?m2 (b + length xs0) xs'" using bP(1) g(3) by (simp add: block_append)
      then have "block (wr ?m2 t zs) (b + length xs0) xs'"
        using d lv lP g(3) by (subst block_wr_disjnt) (auto simp: disjnt_rng_def)
      moreover have "mapped (wr ?m2 t zs) (t + length zs) (length xs')"
        using mt lv by (intro mapped_wr kst_mapped) (auto simp: mapped_def add.assoc)
      moreover have "up_ok (t + length zs) (b + length xs0) (length xs')"
        using d lv lP g(3) by (auto simp: disjnt_rng_def up_ok_def)
      ultimately show ?thesis using False by (simp add: copy_up_spec wr_append)
    qed simp
    have m4: "wr ?m2 t ?v = kst m b t (P1 @ P2) (?v @ drop (length ?v) T)" by (simp add: kst_def wr_again)
    let ?T4 = "?v @ drop (length ?v) T"
    have lT4: "length ?T4 \<le> length xs" using lT lv by simp
    have c2: "copy_up (wr ?m2 t ?v) b t (length ?v) = Some (wr (wr ?m2 t ?v) b ?v)"
    proof (rule copy_up_spec)
      show "mapped (wr ?m2 t ?v) b (length ?v)"
        using block_mapped [OF less.prems(1)] lv by (intro mapped_wr kst_mapped) (auto intro: mapped_le)
      show "up_ok b t (length ?v)" using d lv by (auto simp: disjnt_rng_def up_ok_def)
    qed simp
    have dr: "drop (length ?v) (P1 @ P2) = ys'"
    proof -
      have "length ?v = length (xs0 @ xs' @ ys0)" using lv len g(3,4) by simp
      moreover have "P1 @ P2 = (xs0 @ xs' @ ys0) @ ys'" using g(3,4) by simp
      ultimately show ?thesis by (simp only: drop_length_append)
    qed
    have dT4: "disjnt_rng b (length (P1 @ P2)) t (length ?T4)" using d lP lT4 by (auto simp: disjnt_rng_def)
    have tk: "P1 @ P2 = [] @ take (length ?v) (P1 @ P2) @ ys'"
      using append_take_drop_id [of "length ?v" "P1 @ P2"] unfolding dr by simp
    have "length ?v = length (take (length ?v) (P1 @ P2))" using lv lP(3) by simp
    from kst_wr_P [OF dT4 tk this, of b m]
    have "wr (kst m b t (P1 @ P2) ?T4) b ?v = kst m b t (?v @ ys') ?T4" by simp
    moreover have "?v @ ys' = msort_list cmp xs"
      using False g(2) by (subst msort_list.simps) (simp add: P1_def P2_def xs1_def xs2_def n1_def)
    ultimately have fin: "wr (wr ?m2 t ?v) b ?v = kst m b t (msort_list cmp xs) ?T4" using m4 by simp
    have "msort_with_tmp cmp m b (length xs) t = Some (kst m b t (msort_list cmp xs) ?T4)"
    proof -
      have nn: "length xs - length ys' = length ?v" using lv by simp
      show ?thesis
        using False t1(1) t2(1) m2 g(1) c1 c2 fin lP n1_def nn
        by (subst msort_with_tmp.simps) (simp del: copy_up.simps length_append)
    qed
    then show ?thesis using lT4 by blast
  qed
qed

section \<open>Order and stability\<close>

lemma sorted_wrt_merge_list:
  assumes "\<And>x y z. cmp x y \<le> 0 \<Longrightarrow> cmp y z \<le> 0 \<Longrightarrow> cmp x z \<le> (0 :: int)"
    and "\<And>x y. \<not> cmp x y \<le> 0 \<Longrightarrow> cmp y x \<le> 0"
    and "sorted_wrt (\<lambda>x y. cmp x y \<le> 0) xs" "sorted_wrt (\<lambda>x y. cmp x y \<le> 0) ys"
  shows "sorted_wrt (\<lambda>x y. cmp x y \<le> 0) (merge_list cmp xs ys)"
  using assms
proof (induction cmp xs ys rule: merge_list.induct)
  case (3 cmp x xs y ys)
  note tr = 3(3) and tot = 3(4)
  show ?case
  proof (cases "cmp x y \<le> 0")
    case True
    have "cmp x z \<le> 0" if "z \<in> set ys" for z
    proof -
      have "cmp y z \<le> 0" using 3(6) that by simp
      then show ?thesis by (rule tr [OF True])
    qed
    moreover have "sorted_wrt (\<lambda>x y. cmp x y \<le> 0) (merge_list cmp xs (y # ys))"
      using 3(5,6) by (intro 3(1) [OF True tr tot]) simp_all
    ultimately show ?thesis using True 3(5) by auto
  next
    case False
    have "cmp y z \<le> 0" if "z \<in> set xs" for z
    proof -
      have "cmp x z \<le> 0" using 3(5) that by simp
      then show ?thesis by (rule tr [OF tot [OF False]])
    qed
    moreover have "sorted_wrt (\<lambda>x y. cmp x y \<le> 0) (merge_list cmp (x # xs) ys)"
      using 3(5,6) by (intro 3(2) [OF False tr tot]) simp_all
    ultimately show ?thesis using False tot [OF False] 3(6) by auto
  qed
qed (unfold merge_list.simps, assumption+)

lemma filter_merge_list:
  assumes "\<And>x y z. cmp x y \<le> 0 \<Longrightarrow> cmp y z \<le> 0 \<Longrightarrow> cmp x z \<le> (0 :: int)"
    and "\<And>x y. P x \<Longrightarrow> P y \<Longrightarrow> cmp x y \<le> 0" and "sorted_wrt (\<lambda>x y. cmp x y \<le> 0) xs"
  shows "filter P (merge_list cmp xs ys) = filter P xs @ filter P ys"
  using assms
proof (induction cmp xs ys rule: merge_list.induct)
  case (3 cmp x xs y ys)
  note tr = 3(3) and P = 3(4)
  show ?case
  proof (cases "cmp x y \<le> 0")
    case True
    have "filter P (merge_list cmp xs (y # ys)) = filter P xs @ filter P (y # ys)"
      using 3(5) by (intro 3(1) [OF True tr P]) simp_all
    then show ?thesis using True by simp
  next
    case False
    have f: "filter P (merge_list cmp (x # xs) ys) = filter P (x # xs) @ filter P ys"
      using 3(5) by (intro 3(2) [OF False tr P]) simp_all
    have "\<not> P z" if "P y" "z \<in> set (x # xs)" for z
    proof
      assume "P z"
      then have "cmp z y \<le> 0" using P \<open>P y\<close> by blast
      moreover have "z = x \<or> cmp x z \<le> 0" using 3(5) that(2) by (simp only: sorted_wrt.simps set_simps) blast
      ultimately show False using tr [of x z y] False by blast
    qed
    then have "P y \<Longrightarrow> filter P (x # xs) = []" by (simp only: filter_empty_conv) blast
    then show ?thesis using False f by (cases "P y") auto
  qed
qed (unfold merge_list.simps filter.simps append_Nil append_Nil2, (rule refl)+)

section \<open>The comparison function\<close>

locale comparator =
  fixes cmp :: "'a \<Rightarrow> 'a \<Rightarrow> int"
  assumes cmp_sym: "cmp x y < 0 \<longleftrightarrow> 0 < cmp y x"
    and cmp_trans: "cmp x y \<le> 0 \<Longrightarrow> cmp y z \<le> 0 \<Longrightarrow> cmp x z \<le> 0"
begin

lemma cmp_total: "\<not> cmp x y \<le> 0 \<Longrightarrow> cmp y x \<le> 0"
  using cmp_sym [of y x] by auto

lemma cmp_refl: "cmp x x = 0"
  using cmp_sym [of x x] by auto

lemma cmp_less_trans: "cmp x y \<le> 0 \<Longrightarrow> cmp y z < 0 \<Longrightarrow> cmp x z < 0"
proof -
  assume a: "cmp x y \<le> 0" "cmp y z < 0"
  show ?thesis
  proof (rule ccontr)
    assume "\<not> cmp x z < 0"
    then have "cmp z x \<le> 0" using cmp_sym [of z x] cmp_sym [of x z] by auto
    then have "cmp z y \<le> 0" using a(1) by (rule cmp_trans)
    then show False using a(2) cmp_sym [of y z] by simp
  qed
qed

lemma sorted_msort_list: "sorted_wrt (\<lambda>x y. cmp x y \<le> 0) (msort_list cmp xs)"
proof (induction "length xs" arbitrary: xs rule: less_induct)
  case less
  show ?case
  proof (cases "length xs \<le> 1")
    case True
    then show ?thesis by (cases xs) (auto simp: msort_list.simps)
  next
    case False
    let ?n = "length xs div 2"
    have "length (take ?n xs) < length xs" "length (drop ?n xs) < length xs" using False by auto
    from less [OF this(1)] less [OF this(2)] show ?thesis using False
      by (subst msort_list.simps) (simp add: sorted_wrt_merge_list [of cmp, OF cmp_trans cmp_total])
  qed
qed

lemma stable_msort_list:
  "filter (\<lambda>y. cmp x y = 0) (msort_list cmp xs) = filter (\<lambda>y. cmp x y = 0) xs"
proof (induction "length xs" arbitrary: xs rule: less_induct)
  case less
  have P: "cmp y z \<le> 0" if "cmp x y = 0" "cmp x z = 0" for y z
  proof -
    have "cmp y x \<le> 0" using that(1) cmp_sym [of x y] by (metis less_irrefl not_less)
    moreover have "cmp x z \<le> 0" using that(2) by simp
    ultimately show ?thesis by (rule cmp_trans)
  qed
  show ?case
  proof (cases "length xs \<le> 1")
    case True
    then show ?thesis by (simp add: msort_list.simps)
  next
    case False
    let ?n = "length xs div 2"
    have "filter (\<lambda>y. cmp x y = 0) (msort_list cmp xs) =
        filter (\<lambda>y. cmp x y = 0) (msort_list cmp (take ?n xs)) @ filter (\<lambda>y. cmp x y = 0) (msort_list cmp (drop ?n xs))"
    proof -
      have e: "msort_list cmp xs = merge_list cmp (msort_list cmp (take ?n xs)) (msort_list cmp (drop ?n xs))"
        using False by (subst msort_list.simps) simp
      show ?thesis unfolding e by (rule filter_merge_list [OF cmp_trans P sorted_msort_list])
    qed
    also have "\<dots> = filter (\<lambda>y. cmp x y = 0) (take ?n xs) @ filter (\<lambda>y. cmp x y = 0) (drop ?n xs)"
      using False by (simp add: less)
    also have "\<dots> = filter (\<lambda>y. cmp x y = 0) xs" by (simp flip: filter_append)
    finally show ?thesis .
  qed
qed

lemma sorted_partition:
  assumes "sorted_wrt (\<lambda>x y. cmp x y \<le> 0) xs" "i < j" "j < length xs"
  shows "cmp k (xs ! j) > 0 \<Longrightarrow> cmp k (xs ! i) > 0" "cmp k (xs ! i) < 0 \<Longrightarrow> cmp k (xs ! j) < 0"
proof -
  have le: "cmp (xs ! i) (xs ! j) \<le> 0" using assms sorted_wrt_nth_less by blast
  show "cmp k (xs ! i) < 0 \<Longrightarrow> cmp k (xs ! j) < 0"
    using cmp_trans [of "xs ! j"] le cmp_sym by (meson cmp_total cmp_trans not_less)
  show "cmp k (xs ! j) > 0 \<Longrightarrow> cmp k (xs ! i) > 0"
    using cmp_less_trans [OF le, of k] by (simp add: cmp_sym)
qed

end

section \<open>Binary search\<close>

text \<open>The indices are the code's unsigned 32-bit numbers; \<open>None\<close> inside the result is \<open>NULL\<close>.\<close>

partial_function (option) bsearch_loop ::
  "('k \<Rightarrow> 'a \<Rightarrow> int) \<Rightarrow> 'a mem \<Rightarrow> 'k \<Rightarrow> nat \<Rightarrow> u32 \<Rightarrow> u32 \<Rightarrow> nat option option" where
  "bsearch_loop cmp m key p a b =
    (if a \<le> b
     then
       let c = drop_bit 1 (a + b)
       in do { x \<leftarrow> ld m (p + unat c);
               if cmp key x \<noteq> 0
               then if cmp key x < 0
                    then if c = 0 then Some None else bsearch_loop cmp m key p a (c - 1)
                    else bsearch_loop cmp m key p (c + 1) b
               else Some (Some (p + unat c)) }
     else Some None)"

definition bsearch :: "('k \<Rightarrow> 'a \<Rightarrow> int) \<Rightarrow> 'a mem \<Rightarrow> 'k option \<Rightarrow> nat \<Rightarrow> u32 \<Rightarrow> u32 \<Rightarrow> nat option option" where
  "bsearch cmp m key p num elsize =
    (case key of
       None \<Rightarrow> Some None
     | Some k \<Rightarrow> if p = 0 \<or> elsize = 0 \<or> num = 0 then Some None else bsearch_loop cmp m k p 0 (num - 1))"

text \<open>What the search needs of the array: the elements below the key come first, those above it last.\<close>

definition split_at :: "('k \<Rightarrow> 'a \<Rightarrow> int) \<Rightarrow> 'k \<Rightarrow> 'a list \<Rightarrow> bool" where
  "split_at cmp k xs \<longleftrightarrow> (\<forall>i j. i < j \<longrightarrow> j < length xs \<longrightarrow>
     (cmp k (xs ! j) > 0 \<longrightarrow> cmp k (xs ! i) > 0) \<and> (cmp k (xs ! i) < 0 \<longrightarrow> cmp k (xs ! j) < 0))"

definition bsearch_ok :: "('k \<Rightarrow> 'a \<Rightarrow> int) \<Rightarrow> 'k \<Rightarrow> nat \<Rightarrow> 'a list \<Rightarrow> nat option \<Rightarrow> bool" where
  "bsearch_ok cmp k p xs r \<longleftrightarrow>
     (case r of None \<Rightarrow> \<forall>x\<in>set xs. cmp k x \<noteq> 0
      | Some q \<Rightarrow> \<exists>i<length xs. q = p + i \<and> cmp k (xs ! i) = 0)"

lemma bsearch_step:
  assumes "a \<le> b" "c = drop_bit 1 (a + b)" "ld m (p + unat c) = Some x"
  shows "bsearch_loop cmp m key p a b =
    (if cmp key x \<noteq> 0
     then if cmp key x < 0
          then if c = 0 then Some None else bsearch_loop cmp m key p a (c - 1)
          else bsearch_loop cmp m key p (c + 1) b
     else Some (Some (p + unat c)))"
  by (subst bsearch_loop.simps) (simp only: assms(1) if_True Let_def assms(2) [symmetric] assms(3) bind.bind_lunit)

lemma bsearch_loop_spec:
  assumes "block m p xs" "length xs \<le> 2 ^ 31" "split_at cmp k xs" "unat b < length xs"
    and "\<And>i. i < unat a \<Longrightarrow> cmp k (xs ! i) > 0" "\<And>i. unat b < i \<Longrightarrow> i < length xs \<Longrightarrow> cmp k (xs ! i) < 0"
    and "unat a \<le> unat b + 1"
  shows "\<exists>r. bsearch_loop cmp m k p a b = Some r \<and> bsearch_ok cmp k p xs r"
  using assms(4-)
proof (induction "unat b + 1 - unat a" arbitrary: a b rule: less_induct)
  case less
  have none: "\<forall>x\<in>set xs. cmp k x \<noteq> 0" if "\<And>i. i < length xs \<Longrightarrow> cmp k (xs ! i) \<noteq> 0"
    using that by (metis in_set_conv_nth)
  show ?case
  proof (cases "a \<le> b")
    case False
    then have "unat b < unat a" by (simp add: word_le_nat_alt)
    then have "cmp k (xs ! i) \<noteq> 0" if "i < length xs" for i
      using less.prems(2,3) [of i] that by (cases "i < unat a") auto
    then show ?thesis using False none
      by (intro exI [of _ None]) (auto simp: bsearch_loop.simps bsearch_ok_def)
  next
    case True
    define c where "c = drop_bit 1 (a + b)"
    have ab: "unat a \<le> unat b" "unat a + unat b < 2 ^ 32"
      using True less.prems(1) assms(2) by (simp_all add: word_le_nat_alt)
    have uc: "unat c = (unat a + unat b) div 2"
      unfolding c_def using ab(2) by (simp add: unat_drop_bit_eq drop_bit_eq_div unat_word_ariths)
    then have cb: "unat a \<le> unat c" "unat c \<le> unat b" "unat c < length xs" using ab(1) less.prems(1) by auto
    have l: "ld m (p + unat c) = Some (xs ! unat c)" using block_nth [OF assms(1) cb(3)] by (simp add: ld_def)
    note step = bsearch_step [OF True c_def l, of cmp k]
    show ?thesis
    proof (cases "cmp k (xs ! unat c) = 0")
      case eq: True
      then show ?thesis unfolding step using cb(3)
        by (intro exI [of _ "Some (p + unat c)"]) (auto simp: bsearch_ok_def)
    next
      case ne: False
      show ?thesis
      proof (cases "cmp k (xs ! unat c) < 0")
        case lt: True
        have hi: "cmp k (xs ! i) < 0" if "unat c \<le> i" "i < length xs" for i
          using assms(3) lt that unfolding split_at_def by (metis le_neq_implies_less)
        show ?thesis
        proof (cases "c = 0")
          case c0: True
          then have "cmp k (xs ! i) \<noteq> 0" if "i < length xs" for i using hi [of i] that by simp
          then show ?thesis unfolding step using lt c0 none
            by (intro exI [of _ None]) (simp add: bsearch_ok_def)
        next
          case c1: False
          then have u: "unat (c - 1) = unat c - 1" "0 < unat c" by (simp_all add: unat_minus_one unat_gt_0)
          have "\<exists>r. bsearch_loop cmp m k p a (c - 1) = Some r \<and> bsearch_ok cmp k p xs r"
            using less.prems cb u hi by (intro less.hyps) auto
          then show ?thesis unfolding step using lt c1 by simp
        qed
      next
        case gt: False
        then have g: "cmp k (xs ! unat c) > 0" using ne by simp
        have lo: "cmp k (xs ! i) > 0" if "i \<le> unat c" for i
          using assms(3) g cb(3) that unfolding split_at_def by (metis le_neq_implies_less)
        have u: "unat (c + 1) = unat c + 1"
          using cb assms(2) by (simp add: unat_word_ariths)
        have "\<exists>r. bsearch_loop cmp m k p (c + 1) b = Some r \<and> bsearch_ok cmp k p xs r"
          using less.prems cb u lo by (intro less.hyps) auto
        then show ?thesis unfolding step using gt ne by simp
      qed
    qed
  qed
qed

section \<open>Linear search\<close>

fun lfind_loop :: "('k \<Rightarrow> 'a \<Rightarrow> int) \<Rightarrow> 'a mem \<Rightarrow> 'k \<Rightarrow> nat \<Rightarrow> nat \<Rightarrow> nat option option" where
  "lfind_loop cmp m key p 0 = Some None"
| "lfind_loop cmp m key p (Suc n) =
    do { x \<leftarrow> ld m p; if cmp key x \<noteq> 0 then lfind_loop cmp m key (Suc p) n else Some (Some p) }"

definition lfind :: "('k \<Rightarrow> 'a \<Rightarrow> int) \<Rightarrow> 'a mem \<Rightarrow> 'k \<Rightarrow> nat \<Rightarrow> nat \<Rightarrow> nat option option" where
  "lfind cmp m key p nmemb = lfind_loop cmp m key p nmemb"

definition lsearch :: "('a \<Rightarrow> 'a \<Rightarrow> int) \<Rightarrow> 'a mem \<Rightarrow> 'a \<Rightarrow> nat \<Rightarrow> nat \<Rightarrow> ('a mem \<times> nat \<times> nat) option" where
  "lsearch cmp m key p nmemb =
    do { r \<leftarrow> lfind cmp m key p nmemb;
         case r of
           None \<Rightarrow> do { m \<leftarrow> st m (p + nmemb) key; Some (m, Suc nmemb, p + nmemb) }
         | Some q \<Rightarrow> Some (m, nmemb, q) }"

lemma lfind_loop_spec:
  assumes "block m p xs"
  shows "\<exists>r. lfind_loop cmp m k p (length xs) = Some r \<and>
    (case r of None \<Rightarrow> \<forall>x\<in>set xs. cmp k x \<noteq> 0
     | Some q \<Rightarrow> \<exists>i<length xs. q = p + i \<and> cmp k (xs ! i) = 0 \<and> (\<forall>j<i. cmp k (xs ! j) \<noteq> 0))"
  using assms
proof (induction xs arbitrary: p)
  case Nil
  then show ?case by simp
next
  case (Cons x xs)
  have l: "ld m p = Some x" "block m (Suc p) xs" using Cons.prems by (simp_all add: block_Cons ld_def)
  obtain r where r: "lfind_loop cmp m k (Suc p) (length xs) = Some r"
    "case r of None \<Rightarrow> \<forall>x\<in>set xs. cmp k x \<noteq> 0
     | Some q \<Rightarrow> \<exists>i<length xs. q = Suc p + i \<and> cmp k (xs ! i) = 0 \<and> (\<forall>j<i. cmp k (xs ! j) \<noteq> 0)"
    using Cons.IH [OF l(2)] by blast
  show ?case
  proof (cases "cmp k x = 0")
    case True
    then show ?thesis using l by (intro exI [of _ "Some p"]) auto
  next
    case False
    show ?thesis
    proof (cases r)
      case None
      then show ?thesis using False l r by (intro exI [of _ None]) simp
    next
      case (Some q)
      then obtain i where i: "i < length xs" "q = p + Suc i" "cmp k (xs ! i) = 0" "\<forall>j<i. cmp k (xs ! j) \<noteq> 0"
        using r(2) by auto
      then have "\<forall>j<Suc i. cmp k ((x # xs) ! j) \<noteq> 0" using False by (auto simp: less_Suc_eq_0_disj)
      then show ?thesis using False l r i Some
        by (intro exI [of _ "Some q"]) (auto intro!: exI [of _ "Suc i"])
    qed
  qed
qed

end
