(* ===== verification/Str.thy ===== *)
theory Str
  imports Sorting "HOL-Library.Sublist"
begin

text \<open>
  The C strings of \<^verbatim>\<open>string/\<close>, over the byte memory: lengths, copies, comparison and searching.
  A pointer is an address, \<open>NULL\<close> is 0, and a \<open>size_t\<close> that only counts bytes of an object is a
  \<open>nat\<close>; where the code keeps a count in a signed \<open>long\<close> it is a 32-bit word read with \<open>sint\<close>.

  Every routine is specified on the bytes \<open>s\<close> of its strings (\<open>cstr m p s\<close>): what it returns, and
  the memory it leaves, written with \<open>wr\<close>. Since a load from an unmapped cell is \<open>None\<close>, each of
  these lemmas says as well that the routine reads and writes nothing beyond the strings.
\<close>

definition null :: nat where "null = 0"

section \<open>Length\<close>

partial_function (option) skip_string :: "bmem \<Rightarrow> nat \<Rightarrow> nat option" where
  "skip_string m scan = do { c \<leftarrow> ld m scan; if c \<noteq> 0 then skip_string m (scan + 1) else Some (scan + 1) }"

definition strlen :: "bmem \<Rightarrow> nat \<Rightarrow> nat option" where
  "strlen m s = (if s = null then Some 0 else do { scan \<leftarrow> skip_string m s; Some (scan - (s + 1)) })"

lemma skip_string_spec: "cstr m p s \<Longrightarrow> skip_string m p = Some (p + length s + 1)"
proof (induction s arbitrary: p)
  case Nil
  then show ?case by (subst skip_string.simps) (simp add: cstr_Nil ld_def)
next
  case (Cons c s)
  then show ?case by (subst skip_string.simps) (simp add: cstr_Cons ld_def)
qed

lemma strlen_spec: "cstr m p s \<Longrightarrow> p \<noteq> 0 \<Longrightarrow> strlen m p = Some (length s)"
  by (simp add: strlen_def skip_string_spec null_def)

section \<open>Copying\<close>

partial_function (option) copy_string :: "bmem \<Rightarrow> nat \<Rightarrow> nat \<Rightarrow> (bmem \<times> nat) option" where
  "copy_string m dscan sscan =
    do { c \<leftarrow> ld m sscan; m \<leftarrow> st m dscan c;
         if c \<noteq> 0 then copy_string m (dscan + 1) (sscan + 1) else Some (m, dscan + 1) }"

text \<open>A null source is the empty string.\<close>

definition strcpy :: "bmem \<Rightarrow> nat \<Rightarrow> nat \<Rightarrow> (bmem \<times> nat) option" where
  "strcpy m dst src =
    (if src = null then do { m \<leftarrow> st m dst 0; Some (m, dst) }
     else do { (m, _) \<leftarrow> copy_string m dst src; Some (m, dst) })"

partial_function (option) stpcpy_loop :: "bmem \<Rightarrow> nat \<Rightarrow> nat \<Rightarrow> (bmem \<times> nat) option" where
  "stpcpy_loop m d s =
    do { c \<leftarrow> ld m s; m \<leftarrow> st m d c; c \<leftarrow> ld m s;
         if c \<noteq> 0 then stpcpy_loop m (d + 1) (s + 1) else Some (m, d + 1) }"

definition stpcpy :: "bmem \<Rightarrow> nat \<Rightarrow> nat \<Rightarrow> (bmem \<times> nat) option" where
  "stpcpy m dest src = do { (m, d) \<leftarrow> stpcpy_loop m dest src; Some (m, d - 1) }"

partial_function (option) end_of_string :: "bmem \<Rightarrow> nat \<Rightarrow> nat option" where
  "end_of_string m p = do { c \<leftarrow> ld m p; if c \<noteq> 0 then end_of_string m (p + 1) else Some p }"

definition strcat :: "bmem \<Rightarrow> nat \<Rightarrow> nat \<Rightarrow> (bmem \<times> nat) option" where
  "strcat m dst src =
    (if src \<noteq> null
     then do { d \<leftarrow> end_of_string m dst; (m, _) \<leftarrow> copy_string m d src; Some (m, dst) }
     else Some (m, dst))"

text \<open>\<open>strncat\<close> keeps its count in a signed long.\<close>

partial_function (option) strncat_loop :: "bmem \<Rightarrow> nat \<Rightarrow> nat \<Rightarrow> u32 \<Rightarrow> (bmem \<times> nat) option" where
  "strncat_loop m dscan sscan cnt =
    do { c \<leftarrow> ld m sscan;
         if c \<noteq> 0 \<and> sint (cnt - 1) \<ge> 0
         then do { m \<leftarrow> st m dscan c; strncat_loop m (dscan + 1) (sscan + 1) (cnt - 1) }
         else Some (m, dscan) }"

definition strncat :: "bmem \<Rightarrow> nat \<Rightarrow> nat \<Rightarrow> u32 \<Rightarrow> (bmem \<times> nat) option" where
  "strncat m dst src n =
    (if src \<noteq> null \<and> n > 0
     then do { d \<leftarrow> end_of_string m dst;
               (m, d) \<leftarrow> strncat_loop m d src n;
               m \<leftarrow> st m d 0;
               Some (m, dst) }
     else Some (m, dst))"

lemma end_of_string_spec: "cstr m p s \<Longrightarrow> end_of_string m p = Some (p + length s)"
proof (induction s arbitrary: p)
  case Nil
  then show ?case by (subst end_of_string.simps) (simp add: cstr_Nil ld_def)
next
  case (Cons c s)
  then show ?case by (subst end_of_string.simps) (simp add: cstr_Cons ld_def)
qed

lemma cstr_upd_other: "a < p \<or> p + length s < a \<Longrightarrow> cstr (m(a \<mapsto> x)) p s = cstr m p s"
  unfolding cstr_def using block_upd_other [of a p "s @ [0]" m x] by auto

lemma copy_string_spec:
  assumes "cstr m q s" "mapped m p (Suc (length s))" "up_ok p q (Suc (length s))"
  shows "copy_string m p q = Some (wr m p (s @ [0]), p + length s + 1)"
  using assms
proof (induction s arbitrary: m p q)
  case Nil
  then show ?case by (subst copy_string.simps) (simp add: cstr_Nil ld_def mapped_Suc wr_Cons del: fun_upd_apply)
next
  case (Cons c s)
  let ?m = "m(p \<mapsto> c)"
  have "cstr ?m (Suc q) s"
    using Cons.prems(1,3) by (subst cstr_upd_other) (auto simp: cstr_Cons up_ok_def)
  moreover have "mapped ?m (Suc p) (Suc (length s))" using Cons.prems(2) by (intro mapped_upd) (simp add: mapped_Suc)
  moreover have "up_ok (Suc p) (Suc q) (Suc (length s))" using Cons.prems(3) by (auto simp: up_ok_def)
  ultimately have "copy_string ?m (Suc p) (Suc q) = Some (wr ?m (Suc p) (s @ [0]), Suc p + length s + 1)"
    by (rule Cons.IH)
  then show ?case using Cons.prems(1,2)
    by (subst copy_string.simps) (simp add: cstr_Cons ld_def mapped_Suc wr_Cons del: fun_upd_apply)
qed

lemma strcpy_spec:
  assumes "cstr m src s" "src \<noteq> 0" "mapped m dst (Suc (length s))" "up_ok dst src (Suc (length s))"
  shows "strcpy m dst src = Some (wr m dst (s @ [0]), dst)"
  using copy_string_spec [OF assms(1,3,4)] assms(2) by (simp add: strcpy_def null_def)

lemma stpcpy_loop_spec:
  assumes "cstr m q s" "mapped m p (Suc (length s))" "disjnt_rng p (Suc (length s)) q (Suc (length s))"
  shows "stpcpy_loop m p q = Some (wr m p (s @ [0]), p + length s + 1)"
  using assms
proof (induction s arbitrary: m p q)
  case Nil
  then have "p \<noteq> q" by (auto simp: disjnt_rng_def)
  with Nil show ?case by (subst stpcpy_loop.simps) (simp add: cstr_Nil ld_def mapped_Suc wr_Cons)
next
  case (Cons c s)
  let ?m = "m(p \<mapsto> c)"
  have c: "cstr ?m q (c # s)" using Cons.prems(1,3) by (subst cstr_upd_other) (auto simp: disjnt_rng_def)
  then have "cstr ?m (Suc q) s" by (simp add: cstr_Cons)
  moreover have "mapped ?m (Suc p) (Suc (length s))" using Cons.prems(2) by (intro mapped_upd) (simp add: mapped_Suc)
  moreover have "disjnt_rng (Suc p) (Suc (length s)) (Suc q) (Suc (length s))" using Cons.prems(3) by (auto simp: disjnt_rng_def)
  ultimately have "stpcpy_loop ?m (Suc p) (Suc q) = Some (wr ?m (Suc p) (s @ [0]), Suc p + length s + 1)"
    by (rule Cons.IH)
  moreover have "?m q = Some c" "c \<noteq> 0" using c by (simp_all add: cstr_Cons del: fun_upd_apply)
  ultimately show ?case using Cons.prems(1,2)
    by (subst stpcpy_loop.simps) (simp add: cstr_Cons ld_def mapped_Suc wr_Cons del: fun_upd_apply)
qed

lemma stpcpy_spec:
  assumes "cstr m src s" "mapped m dst (Suc (length s))" "disjnt_rng dst (Suc (length s)) src (Suc (length s))"
  shows "stpcpy m dst src = Some (wr m dst (s @ [0]), dst + length s)"
  using stpcpy_loop_spec [OF assms] by (simp add: stpcpy_def)

lemma wr_append_end: "cstr m p s \<Longrightarrow> wr m (p + length s) xs = wr m p (s @ xs)"
  using wr_block_id [OF cstr_block] by (metis wr_append)

lemma strcat_spec:
  assumes "cstr m dst d" "cstr m src s" "src \<noteq> 0" "mapped m dst (length d + Suc (length s))"
    and "disjnt_rng dst (length d + Suc (length s)) src (Suc (length s))"
  shows "strcat m dst src = Some (wr m dst (d @ s @ [0]), dst)"
proof -
  have "mapped m (dst + length d) (Suc (length s))" using assms(4) by (simp only: mapped_add)
  moreover have "up_ok (dst + length d) src (Suc (length s))" using assms(5) by (auto simp: up_ok_def disjnt_rng_def)
  ultimately show ?thesis
    using copy_string_spec [OF assms(2)] end_of_string_spec [OF assms(1)] assms(3) wr_append_end [OF assms(1)]
    by (simp add: strcat_def null_def)
qed

lemma strncat_loop_spec:
  assumes "cstr m q s" "mapped m p (min (unat cnt) (length s))" "unat cnt < 2 ^ 31"
    and "disjnt_rng p (min (unat cnt) (length s)) q (Suc (length s))"
  shows "strncat_loop m p q cnt = Some (wr m p (take (unat cnt) s), p + min (unat cnt) (length s))"
  using assms
proof (induction s arbitrary: m p q cnt)
  case Nil
  then show ?case by (subst strncat_loop.simps) (simp add: cstr_Nil ld_def)
next
  case (Cons c s)
  have l: "ld m q = Some c" "c \<noteq> 0" using Cons.prems(1) by (simp_all add: cstr_Cons ld_def)
  show ?case
  proof (cases "cnt = 0")
    case True
    then show ?thesis using l by (subst strncat_loop.simps) simp
  next
    case False
    let ?m = "m(p \<mapsto> c)"
    have u: "unat (cnt - 1) = unat cnt - 1" "0 < unat cnt" using False by (simp_all add: unat_minus_one unat_gt_0)
    then have mn: "min (unat cnt) (length (c # s)) = Suc (min (unat (cnt - 1)) (length s))" by auto
    have mp: "m p \<noteq> None" "mapped m (Suc p) (min (unat (cnt - 1)) (length s))"
      using Cons.prems(2) unfolding mn by (simp_all add: mapped_Suc)
    have "cstr ?m (Suc q) s" using Cons.prems(1,4) unfolding mn
      by (subst cstr_upd_other) (auto simp: cstr_Cons disjnt_rng_def)
    moreover have "mapped ?m (Suc p) (min (unat (cnt - 1)) (length s))" using mp(2) by (rule mapped_upd)
    moreover have "unat (cnt - 1) < 2 ^ 31" using Cons.prems(3) u by simp
    moreover have "disjnt_rng (Suc p) (min (unat (cnt - 1)) (length s)) (Suc q) (Suc (length s))"
      using Cons.prems(4) unfolding mn by (auto simp: disjnt_rng_def)
    ultimately have "strncat_loop ?m (Suc p) (Suc q) (cnt - 1) =
        Some (wr ?m (Suc p) (take (unat (cnt - 1)) s), Suc p + min (unat (cnt - 1)) (length s))"
      by (rule Cons.IH)
    moreover have "take (unat cnt) (c # s) = c # take (unat (cnt - 1)) s" using u by (cases "unat cnt") simp_all
    moreover have "0 \<le> sint (cnt - 1)" using \<open>unat (cnt - 1) < 2 ^ 31\<close> by (simp only: sint_u32_nonneg)
    ultimately show ?thesis using l mp(1) mn by (subst strncat_loop.simps) (simp add: wr_Cons del: fun_upd_apply)
  qed
qed

lemma strncat_spec:
  assumes "cstr m dst d" "cstr m src s" "src \<noteq> 0" "unat n < 2 ^ 31" "k = min (unat n) (length s)"
    and "mapped m dst (length d + Suc k)" "disjnt_rng dst (length d + Suc k) src (Suc (length s))"
  shows "strncat m dst src n = Some (wr m dst (d @ take (unat n) s @ [0]), dst)"
proof -
  have e: "m (dst + length d) = Some 0" using cstr_end [OF assms(1)] .
  show ?thesis
  proof (cases "n = 0")
    case True
    have "wr m dst (d @ [0]) = m" using cstr_terminated [OF assms(1)] by (rule wr_block_id)
    then show ?thesis using True by (simp add: strncat_def)
  next
    case False
    have mp: "mapped m (dst + length d) (Suc k)" using assms(6) by (simp only: mapped_add)
    have "disjnt_rng (dst + length d) (min (unat n) (length s)) src (Suc (length s))"
      using assms(5,7) by (auto simp: disjnt_rng_def)
    then have l: "strncat_loop m (dst + length d) src n = Some (wr m (dst + length d) (take (unat n) s), dst + length d + k)"
      using strncat_loop_spec [OF assms(2) mapped_le [OF mp] assms(4)] unfolding assms(5) by simp
    let ?m = "wr m (dst + length d) (take (unat n) s)"
    have len: "length (take (unat n) s) = k" using assms(5) by (simp add: min.commute)
    have "?m (dst + length d + k) \<noteq> None" using mapped_nth [OF mp, of k] by (intro wr_not_None) simp
    moreover have "?m(dst + length d + k \<mapsto> 0) = wr m (dst + length d) (take (unat n) s @ [0])"
      using len by (simp add: wr_snoc)
    moreover have "n > 0" using False by (simp add: word_gt_0)
    ultimately show ?thesis using l end_of_string_spec [OF assms(1)] assms(3) wr_append_end [OF assms(1)]
      by (simp add: strncat_def null_def del: fun_upd_apply)
  qed
qed

section \<open>Copying with a size\<close>

fun strlcpy_loop :: "bmem \<Rightarrow> nat \<Rightarrow> nat \<Rightarrow> nat \<Rightarrow> (bmem \<times> nat \<times> nat \<times> nat) option" where
  "strlcpy_loop m d s 0 = Some (m, d, s, 0)"
| "strlcpy_loop m d s (Suc n) =
    do { c \<leftarrow> ld m s; m \<leftarrow> st m d c;
         if c = 0 then Some (m, d + 1, s + 1, Suc n) else strlcpy_loop m (d + 1) (s + 1) n }"

definition strlcpy :: "bmem \<Rightarrow> nat \<Rightarrow> nat \<Rightarrow> nat \<Rightarrow> (bmem \<times> nat) option" where
  "strlcpy m dst src siz =
    do { (m, d, s, n) \<leftarrow> strlcpy_loop m dst src (siz - 1);
         if n = 0
         then do { m \<leftarrow> (if siz \<noteq> 0 then st m d 0 else Some m);
                   s \<leftarrow> skip_string m s;
                   Some (m, s - src - 1) }
         else Some (m, s - src - 1) }"

fun strlcat_end :: "bmem \<Rightarrow> nat \<Rightarrow> nat \<Rightarrow> nat option" where
  "strlcat_end m d 0 = Some d"
| "strlcat_end m d (Suc n) = do { c \<leftarrow> ld m d; if c \<noteq> 0 then strlcat_end m (d + 1) n else Some d }"

partial_function (option) strlcat_loop :: "bmem \<Rightarrow> nat \<Rightarrow> nat \<Rightarrow> nat \<Rightarrow> (bmem \<times> nat \<times> nat) option" where
  "strlcat_loop m d s n =
    do { c \<leftarrow> ld m s;
         if c \<noteq> 0
         then if n \<noteq> 1 then do { m \<leftarrow> st m d c; strlcat_loop m (d + 1) (s + 1) (n - 1) }
              else strlcat_loop m d (s + 1) n
         else Some (m, d, s) }"

definition strlcat :: "bmem \<Rightarrow> nat \<Rightarrow> nat \<Rightarrow> nat \<Rightarrow> (bmem \<times> nat) option" where
  "strlcat m dst src siz =
    do { d \<leftarrow> strlcat_end m dst siz;
         dlen \<leftarrow> Some (d - dst);
         n \<leftarrow> Some (siz - dlen);
         if n = 0
         then do { l \<leftarrow> strlen m src; Some (m, dlen + l) }
         else do { (m, d, s) \<leftarrow> strlcat_loop m d src n;
                   m \<leftarrow> st m d 0;
                   Some (m, dlen + (s - src)) } }"

lemma strlcpy_loop_spec:
  assumes "cstr m q s" "mapped m p n" "disjnt_rng p n q (Suc (length s))"
  shows "strlcpy_loop m p q n =
    (if length s < n then Some (wr m p (s @ [0]), p + length s + 1, q + length s + 1, n - length s)
     else Some (wr m p (take n s), p + n, q + n, 0))"
  using assms
proof (induction n arbitrary: m p q s)
  case 0
  then show ?case by simp
next
  case (Suc n)
  show ?case
  proof (cases s)
    case Nil
    then show ?thesis using Suc.prems by (simp add: cstr_Nil ld_def mapped_Suc wr_Cons del: fun_upd_apply)
  next
    case (Cons c t)
    let ?m = "m(p \<mapsto> c)"
    have "cstr ?m (Suc q) t" using Suc.prems(1,3) Cons by (subst cstr_upd_other) (auto simp: cstr_Cons disjnt_rng_def)
    moreover have "mapped ?m (Suc p) n" using Suc.prems(2) by (intro mapped_upd) (simp add: mapped_Suc)
    moreover have "disjnt_rng (Suc p) n (Suc q) (Suc (length t))" using Suc.prems(3) Cons by (auto simp: disjnt_rng_def)
    ultimately show ?thesis using Suc.IH [of ?m "Suc q" t "Suc p"] Suc.prems(1,2) Cons
      by (simp add: cstr_Cons ld_def mapped_Suc wr_Cons del: fun_upd_apply)
  qed
qed

lemma strlcpy_spec:
  assumes "cstr m src s" "mapped m dst siz" "disjnt_rng dst siz src (Suc (length s))"
  shows "strlcpy m dst src siz =
    Some (if siz = 0 then m else wr m dst (take (siz - 1) s @ [0]), length s)"
proof (cases siz)
  case 0
  then show ?thesis using skip_string_spec [OF assms(1)] by (simp add: strlcpy_def)
next
  case (Suc k)
  have d1: "mapped m dst k" "disjnt_rng dst k src (Suc (length s))"
    using assms(2,3) Suc by (auto intro: mapped_le simp: disjnt_rng_def)
  note l = strlcpy_loop_spec [OF assms(1) d1]
  show ?thesis
  proof (cases "length s < k")
    case True
    then show ?thesis using l Suc by (simp add: strlcpy_def)
  next
    case False
    let ?m = "wr m dst (take k s)"
    have len: "length (take k s) = k" using False by simp
    have "?m (dst + k) \<noteq> None" using mapped_nth [OF assms(2), of k] Suc by (intro wr_not_None) simp
    then have w: "st ?m (dst + k) 0 = Some (wr m dst (take k s @ [0]))"
      using wr_snoc [of m dst "take k s" 0] len by (simp del: fun_upd_apply)
    have "cstr (wr m dst (take k s @ [0])) src s"
      using assms(1,3) cstr_wr_disjnt [of dst "take k s @ [0]" src s m] len Suc by simp
    then have "cstr (wr m dst (take k s @ [0])) (src + k) (drop k s)" using False by (intro cstr_drop) simp_all
    then have "skip_string (wr m dst (take k s @ [0])) (src + k) = Some (src + k + length (drop k s) + 1)"
      by (rule skip_string_spec)
    then show ?thesis using l False w Suc by (simp add: strlcpy_def)
  qed
qed

lemma strlcat_end_spec: "cstr m p s \<Longrightarrow> strlcat_end m p n = Some (p + min n (length s))"
proof (induction n arbitrary: p s)
  case (Suc n)
  then show ?case by (cases s) (auto simp: cstr_Nil cstr_Cons ld_def)
qed simp

lemma strlcat_loop_spec:
  assumes "cstr m q s" "mapped m p n" "disjnt_rng p n q (Suc (length s))" "0 < n"
  shows "strlcat_loop m p q n = Some (wr m p (take (n - 1) s), p + min (n - 1) (length s), q + length s)"
  using assms
proof (induction s arbitrary: m p q n)
  case Nil
  then show ?case by (subst strlcat_loop.simps) (simp add: cstr_Nil ld_def)
next
  case (Cons c s)
  have l: "ld m q = Some c" "c \<noteq> 0" "cstr m (Suc q) s" using Cons.prems(1) by (simp_all add: cstr_Cons ld_def)
  show ?case
  proof (cases "n = 1")
    case True
    have "disjnt_rng p n (Suc q) (Suc (length s))" using Cons.prems(3) by (auto simp: disjnt_rng_def)
    then show ?thesis using Cons.IH [OF l(3) Cons.prems(2) _ Cons.prems(4)] True l
      by (subst strlcat_loop.simps) simp
  next
    case False
    then obtain k where k: "n = Suc (Suc k)" using Cons.prems(4) by (metis One_nat_def not0_implies_Suc less_not_refl)
    let ?m = "m(p \<mapsto> c)"
    have "cstr ?m (Suc q) s" using l(3) Cons.prems(3) k by (subst cstr_upd_other) (auto simp: disjnt_rng_def)
    moreover have "mapped ?m (Suc p) (Suc k)" using Cons.prems(2) k by (intro mapped_upd) (simp add: mapped_Suc)
    moreover have "disjnt_rng (Suc p) (Suc k) (Suc q) (Suc (length s))" using Cons.prems(3) k by (auto simp: disjnt_rng_def)
    ultimately have "strlcat_loop ?m (Suc p) (Suc q) (Suc k) = Some (wr ?m (Suc p) (take k s), Suc p + min k (length s), Suc q + length s)"
      using Cons.IH [of ?m "Suc q" "Suc p" "Suc k"] by (simp del: fun_upd_apply)
    then show ?thesis using False l k Cons.prems(2)
      by (subst strlcat_loop.simps) (simp add: mapped_Suc wr_Cons del: fun_upd_apply)
  qed
qed

lemma strlcat_spec:
  assumes "cstr m dst d" "cstr m src s" "src \<noteq> 0" "length d < siz" "mapped m dst siz" "disjnt_rng dst siz src (Suc (length s))"
  shows "strlcat m dst src siz = Some (wr m dst (take (siz - 1) (d @ s) @ [0]), length d + length s)"
proof -
  define n where "n = siz - length d"
  have n: "0 < n" "siz = length d + n" using assms(4) by (simp_all add: n_def)
  have mp: "mapped m (dst + length d) n" using assms(5) n(2) by (simp only: mapped_add)
  have "disjnt_rng (dst + length d) n src (Suc (length s))" using assms(6) n by (auto simp: disjnt_rng_def)
  note l = strlcat_loop_spec [OF assms(2) mp this n(1)]
  let ?t = "take (n - 1) s"
  let ?m = "wr m (dst + length d) ?t"
  have len: "length ?t = min (n - 1) (length s)" by (simp add: min.commute)
  have "?m (dst + length d + min (n - 1) (length s)) \<noteq> None"
    using mapped_nth [OF mp, of "min (n - 1) (length s)"] n(1) by (intro wr_not_None) simp
  then have "st ?m (dst + length d + min (n - 1) (length s)) 0 = Some (wr m (dst + length d) (?t @ [0]))"
    using wr_snoc [of m "dst + length d" ?t 0] len by simp
  moreover have "wr m (dst + length d) (?t @ [0]) = wr m dst (take (siz - 1) (d @ s) @ [0])"
    using wr_append_end [OF assms(1)] n by simp
  ultimately show ?thesis
    using l strlcat_end_spec [OF assms(1), of siz] n by (simp add: strlcat_def Let_def)
qed

end
