(* ===== verification/Strtol.thy ===== *)
theory Strtol
  imports Ctype Str
begin

text \<open>
  Number conversion (\<^verbatim>\<open>stdlib/strtol.c\<close>), which is compiled four times: for \<open>long\<close> and \<open>long long\<close>,
  signed (\<open>strtol\<close>, \<open>strtoll\<close>) and unsigned (\<open>strtoul\<close>, \<open>strtoull\<close>). The result type is a word of
  the width of \<open>LONG\<close>; \<open>uns\<close> is the preprocessor flag \<open>UNSIGNED\<close>. Number grouping is not compiled in,
  so \<open>end\<close> is \<open>NULL\<close> and the test \<open>s == end\<close> never holds. The value stored in \<open>*endptr\<close> and the new
  \<open>errno\<close> are returned (\<open>None\<close> when the code does not store one).
\<close>

datatype num_errno = ERANGE | NUM_EINVAL

section \<open>The loops\<close>

definition num_digit :: "byte \<Rightarrow> byte option" where
  "num_digit c =
    (if c \<ge> 48 \<and> c \<le> 57 then Some (c - 48)
     else if isalpha (ucast c) \<noteq> 0 then Some (ucast (toupper (ucast c) - 65 + 10))
     else None)"

partial_function (option) strtol_loop ::
    "bmem \<Rightarrow> int \<Rightarrow> 'a::len word \<Rightarrow> u32 \<Rightarrow> nat \<Rightarrow> 'a word \<Rightarrow> bool \<Rightarrow> (nat \<times> 'a word \<times> bool) option" where
  "strtol_loop m base cutoff cutlim s i overflow =
    do { c \<leftarrow> ld m s;
         if c = 0 then Some (s, i, overflow)
         else (case num_digit c of
                 None \<Rightarrow> Some (s, i, overflow)
               | Some c \<Rightarrow>
                   if uint c \<ge> base then Some (s, i, overflow)
                   else if i > cutoff \<or> (i = cutoff \<and> ucast c > cutlim)
                   then strtol_loop m base cutoff cutlim (s + 1) i True
                   else strtol_loop m base cutoff cutlim (s + 1) (i * of_int base + ucast c) overflow) }"

text \<open>The \<open>long long\<close> variants count in a \<open>long\<close> as long as it holds the number.\<close>

partial_function (option) strtol_short ::
    "bmem \<Rightarrow> int \<Rightarrow> u64 \<Rightarrow> u32 \<Rightarrow> u32 \<Rightarrow> nat \<Rightarrow> u32 \<Rightarrow> (nat \<times> u64 \<times> bool) option" where
  "strtol_short m base cutoff cutlim jmax s j =
    do { c \<leftarrow> ld m s;
         if c = 0 then Some (s, ucast j, False)
         else (case num_digit c of
                 None \<Rightarrow> Some (s, ucast j, False)
               | Some c \<Rightarrow>
                   if uint c \<ge> base then Some (s, ucast j, False)
                   else if j \<ge> jmax
                   then strtol_loop m base cutoff cutlim (s + 1) (ucast j * of_int base + ucast c) False
                   else strtol_short m base cutoff cutlim jmax (s + 1) (j * of_int base + ucast c)) }"

section \<open>The conversion\<close>

partial_function (option) skip_space :: "bmem \<Rightarrow> nat \<Rightarrow> nat option" where
  "skip_space m s = do { c \<leftarrow> ld m s; if isspace (scast c) \<noteq> 0 then skip_space m (s + 1) else Some s }"

definition num_sign :: "byte \<Rightarrow> nat \<Rightarrow> bool \<times> nat" where
  "num_sign c s = (if c = 45 then (True, s + 1) else if c = 43 then (False, s + 1) else (False, s))"

definition num_base :: "bmem \<Rightarrow> nat \<Rightarrow> int \<Rightarrow> (nat \<times> int) option" where
  "num_base m s base =
    do { c \<leftarrow> ld m s;
         if c = 48
         then do { x \<leftarrow> (if base = 0 \<or> base = 16 then do { c1 \<leftarrow> ld m (s + 1); Some (toupper (scast c1) = 88) }
                         else Some False);
                   Some (if x then (s + 2, 16) else if base = 0 then (s, 8) else (s, base)) }
         else Some (if base = 0 then (s, 10) else (s, base)) }"

definition noconv :: "bmem \<Rightarrow> nat \<Rightarrow> nat \<Rightarrow> nat option" where
  "noconv m nptr save =
    (if save - nptr \<ge> 2
     then do { x \<leftarrow> ld m (save - 1); z \<leftarrow> ld m (save - 2);
               Some (if toupper (scast x) = 88 \<and> z = 48 then save - 1 else nptr) }
     else Some nptr)"

definition long_min :: "'a::len word" where "long_min = 2 ^ (LENGTH('a) - 1)"
definition long_max :: "'a::len word" where "long_max = 2 ^ (LENGTH('a) - 1) - 1"

definition num_result :: "bool \<Rightarrow> bool \<Rightarrow> 'a::len word \<Rightarrow> bool \<Rightarrow> 'a word \<times> num_errno option" where
  "num_result uns negative i overflow =
    (let overflow = overflow \<or>
       \<not> uns \<and> i > (if negative then - (long_min + 1) + 1 else long_max)
     in if overflow then (if uns then - 1 else if negative then long_min else long_max, Some ERANGE)
        else (if negative then - i else i, None))"

definition strtol_with ::
    "(bmem \<Rightarrow> int \<Rightarrow> nat \<Rightarrow> (nat \<times> 'a::len word \<times> bool) option) \<Rightarrow> bool \<Rightarrow> bmem \<Rightarrow> nat \<Rightarrow> int \<Rightarrow>
      ('a word \<times> nat option \<times> num_errno option) option" where
  "strtol_with loop uns m nptr base =
    (if base < 0 \<or> base = 1 \<or> base > 36 then Some (0, None, Some NUM_EINVAL)
     else do { s \<leftarrow> skip_space m nptr;
               c \<leftarrow> ld m s;
               if c = 0 then do { e \<leftarrow> noconv m nptr nptr; Some (0, Some e, None) }
               else do { (save, base) \<leftarrow> num_base m (snd (num_sign c s)) base;
                         (s', i, overflow) \<leftarrow> loop m base save;
                         if s' = save then do { e \<leftarrow> noconv m nptr save; Some (0, Some e, None) }
                         else (case num_result uns (fst (num_sign c s)) i overflow of
                                 (v, err) \<Rightarrow> Some (v, Some s', err)) } })"

definition cutoff :: "int \<Rightarrow> 'a::len word" where "cutoff base = - 1 div of_int base"
definition cutlim :: "'a::len itself \<Rightarrow> int \<Rightarrow> u32" where "cutlim _ base = ucast (- 1 mod of_int base :: 'a word)"

definition strtol :: "bool \<Rightarrow> bmem \<Rightarrow> nat \<Rightarrow> int \<Rightarrow> (u32 \<times> nat option \<times> num_errno option) option" where
  "strtol uns = strtol_with (\<lambda>m base s. strtol_loop m base (cutoff base) (cutlim TYPE(32) base) s 0 False) uns"

definition strtoll :: "bool \<Rightarrow> bmem \<Rightarrow> nat \<Rightarrow> int \<Rightarrow> (u64 \<times> nat option \<times> num_errno option) option" where
  "strtoll uns = strtol_with
    (\<lambda>m base s. strtol_short m base (cutoff base) (cutlim TYPE(64) base) (- 1 div of_int base) s 0) uns"

section \<open>The value of a string of digits\<close>

definition dig :: "byte \<Rightarrow> nat option" where "dig c = map_option unat (num_digit c)"

definition is_dig :: "int \<Rightarrow> byte \<Rightarrow> bool" where
  "is_dig b c \<longleftrightarrow> (case dig c of None \<Rightarrow> False | Some d \<Rightarrow> int d < b)"

definition dig_val :: "nat \<Rightarrow> nat \<Rightarrow> byte list \<Rightarrow> nat" where
  "dig_val b v ds = foldl (\<lambda>v c. v * b + the (dig c)) v ds"

lemma dig_val_simps [simp]:
  "dig_val b v [] = v" "dig_val b v (c # ds) = dig_val b (v * b + the (dig c)) ds"
  "dig_val b v (ds @ [c]) = dig_val b v ds * b + the (dig c)"
  by (simp_all add: dig_val_def)

lemma dig_val_mono: "v \<le> w \<Longrightarrow> dig_val b v ds \<le> dig_val b w ds"
  by (induction ds arbitrary: v w) simp_all

lemma dig_val_ge: "1 \<le> b \<Longrightarrow> v \<le> dig_val b v ds"
proof (induction ds arbitrary: v)
  case (Cons c ds)
  have "v \<le> v * b" using Cons.prems by (cases b) simp_all
  then have "v \<le> v * b + the (dig c)" by (rule trans_le_add1)
  moreover have "v * b + the (dig c) \<le> dig_val b (v * b + the (dig c)) ds" using Cons by blast
  ultimately show ?case by (simp only: dig_val_simps)
qed simp

lemma is_dig_nz: "is_dig b c \<Longrightarrow> c \<noteq> 0"
  using ctype_cases(1) [of 0] by (auto simp: is_dig_def dig_def num_digit_def)

lemma is_digE:
  assumes "is_dig b c"
  obtains d where "num_digit c = Some d" "uint d < b" "dig c = Some (unat d)" "c \<noteq> 0"
  using assms is_dig_nz [OF assms] by (auto simp: is_dig_def dig_def split: option.splits)

lemma not_digit_stop:
  assumes "\<not> is_dig base c"
  shows "m s = Some c \<Longrightarrow> strtol_loop m base cu cl s i ov = Some (s, i, ov)"
    and "m s = Some c \<Longrightarrow> strtol_short m base cu' cl jm s j = Some (s, ucast j, False)"
  using assms
  by (subst strtol_loop.simps strtol_short.simps, auto simp: ld_def is_dig_def dig_def split: option.splits)+

text \<open>The overflow test is exact.\<close>

lemma unat_base:
  assumes "2 \<le> b" "b \<le> 36" "6 \<le> LENGTH('a::len)"
  shows "unat (of_int b :: 'a word) = nat b"
proof -
  have "(2::nat) ^ 6 \<le> 2 ^ LENGTH('a)" using assms(3) by (rule power_increasing) simp
  moreover have "nat b \<le> 36" using assms(2) by simp
  moreover have "(2::nat) ^ 6 = 64" by simp
  ultimately have lt: "nat b < 2 ^ LENGTH('a)" by linarith
  have "of_int b = (of_nat (nat b) :: 'a word)" using assms(1) by simp
  then have "unat (of_int b :: 'a word) = take_bit LENGTH('a) (nat b)"
    by (simp only: unsigned_of_nat of_nat_id)
  then show ?thesis using take_bit_nat_eq_self [OF lt] by (simp only:)
qed

lemma overflow_test:
  assumes "2 \<le> b" "b \<le> 36" "6 \<le> LENGTH('a::len)" "uint (d :: byte) < b"
  shows "((i :: 'a word) > cutoff b \<or> i = cutoff b \<and> ucast d > cutlim TYPE('a) b) \<longleftrightarrow>
      2 ^ LENGTH('a) \<le> unat i * nat b + unat d"
    and "unat i * nat b + unat d < 2 ^ LENGTH('a) \<Longrightarrow> unat (i * of_int b + ucast d) = unat i * nat b + unat d"
proof -
  define N where "N = (2::nat) ^ LENGTH('a) - 1"
  have N: "unat (- 1 :: 'a word) = N" by (simp add: N_def unsigned_minus_1_eq_mask mask_eq_exp_minus_1)
  have p: "(2::nat) ^ LENGTH('a) = Suc N" by (simp add: N_def)
  note ub = unat_base [OF assms(1-3)]
  have b: "0 < nat b" using assms(1) by simp
  have d: "unat d < nat b" by (subst zless_nat_eq_int_zless) (simp add: assms(4))
  have cu: "unat (cutoff b :: 'a word) = N div nat b" by (simp add: cutoff_def unat_div N ub)
  have "N mod nat b < nat b" using b by simp
  then have "N mod nat b < 2 ^ 32" using assms(2) by simp
  then have cl: "unat (cutlim TYPE('a) b) = N mod nat b"
    by (simp add: cutlim_def unsigned_ucast_eq unat_mod N ub take_bit_nat_eq_self)
  have ud: "unat (ucast d :: u32) = unat d" by (simp add: unsigned_ucast_eq take_bit_nat_eq_self unsigned_less [of d, where ?'a = nat, THEN less_trans])
  have "(i > cutoff b \<or> i = cutoff b \<and> ucast d > cutlim TYPE('a) b) \<longleftrightarrow>
      N div nat b < unat i \<or> unat i = N div nat b \<and> N mod nat b < unat d"
    by (simp add: word_less_nat_alt word_unat_eq_iff cu cl ud)
  also have "\<dots> \<longleftrightarrow> N < unat i * nat b + unat d"
  proof -
    have Nb: "N = N div nat b * nat b + N mod nat b" by simp
    consider "unat i < N div nat b" | "unat i = N div nat b" | "N div nat b < unat i" by linarith
    then show ?thesis
    proof cases
      case 1
      then have "Suc (unat i) * nat b \<le> N div nat b * nat b" by (intro mult_le_mono1) simp
      then have "unat i * nat b + unat d < N" using d div_times_less_eq_dividend [of N "nat b"]
        unfolding mult_Suc by linarith
      then show ?thesis using 1 by simp
    next
      case 2
      then have "unat i * nat b + N mod nat b = N" by simp
      then have "N < unat i * nat b + unat d \<longleftrightarrow> N mod nat b < unat d" by linarith
      then show ?thesis by (simp only: 2) simp
    next
      case 3
      then have "Suc (N div nat b) * nat b \<le> unat i * nat b" by (intro mult_le_mono1) simp
      then have "N < unat i * nat b" using Nb \<open>N mod nat b < nat b\<close> unfolding mult_Suc by linarith
      then show ?thesis using 3 by simp
    qed
  qed
  finally show "(i > cutoff b \<or> i = cutoff b \<and> ucast d > cutlim TYPE('a) b) \<longleftrightarrow>
      2 ^ LENGTH('a) \<le> unat i * nat b + unat d" unfolding p Suc_le_eq .
  assume lt: "unat i * nat b + unat d < 2 ^ LENGTH('a)"
  then have "unat (ucast d :: 'a word) = unat d" by (simp add: unsigned_ucast_eq take_bit_nat_eq_self)
  moreover have "unat (i * of_int b) = unat i * nat b" using lt ub by (simp add: unat_word_ariths)
  ultimately show "unat (i * of_int b + ucast d) = unat i * nat b + unat d"
    using lt by (simp add: unat_word_ariths(1))
qed


section \<open>The loops on a run of digits\<close>

text \<open>\<open>digs_at m b s ds\<close>: the digits \<open>ds\<close> are at \<open>s\<close> and no further digit of base \<open>b\<close> follows.\<close>

definition digs_at :: "bmem \<Rightarrow> int \<Rightarrow> nat \<Rightarrow> byte list \<Rightarrow> bool" where
  "digs_at m b s ds \<longleftrightarrow> block m s ds \<and> (\<forall>c \<in> set ds. is_dig b c) \<and>
    (\<exists>c. m (s + length ds) = Some c \<and> \<not> is_dig b c)"

lemma digs_at_Nil: "digs_at m b s [] \<longleftrightarrow> (\<exists>c. m s = Some c \<and> \<not> is_dig b c)"
  by (simp add: digs_at_def)

lemma digs_at_Cons: "digs_at m b s (c # ds) \<longleftrightarrow> m s = Some c \<and> is_dig b c \<and> digs_at m b (Suc s) ds"
  by (auto simp: digs_at_def block_Cons)

text \<open>What either loop computes: the end of the run, whether its value exceeds the width, and the value.\<close>

definition loop_result :: "nat \<Rightarrow> bool \<Rightarrow> nat \<Rightarrow> (nat \<times> 'a::len word \<times> bool) option \<Rightarrow> bool" where
  "loop_result s' ov v r \<longleftrightarrow>
    (\<exists>i. r = Some (s', i, ov \<or> 2 ^ LENGTH('a) \<le> v) \<and> (v < 2 ^ LENGTH('a) \<longrightarrow> unat i = v \<or> ov))"

lemma strtol_loop_spec:
  assumes "digs_at m b s ds" "2 \<le> b" "b \<le> 36" "6 \<le> LENGTH('a::len)"
  shows "loop_result (s + length ds) ov (dig_val (nat b) (unat i) ds)
      (strtol_loop m b (cutoff b) (cutlim TYPE('a) b) s (i :: 'a word) ov)"
  using assms(1)
proof (induction ds arbitrary: s i ov)
  case Nil
  then obtain c where c: "m s = Some c" "\<not> is_dig b c" by (auto simp: digs_at_Nil)
  then have "strtol_loop m b (cutoff b) (cutlim TYPE('a) b) s i ov = Some (s, i, ov)" by (intro not_digit_stop(1)) auto
  moreover have "\<not> 2 ^ LENGTH('a) \<le> unat i" by (simp only: not_le unsigned_less)
  ultimately show ?case by (simp only: loop_result_def dig_val_simps list.size add_0_right) blast
next
  case (Cons c ds)
  have c: "m s = Some c" "is_dig b c" and ds: "digs_at m b (Suc s) ds" using Cons.prems by (simp_all add: digs_at_Cons)
  obtain d where d: "num_digit c = Some d" "uint d < b" "dig c = Some (unat d)" "c \<noteq> 0" using c(2) by (rule is_digE)
  note test = overflow_test(1) [OF assms(2-4) d(2), of i] and step = overflow_test(2) [OF assms(2-4) d(2), of i]
  let ?v = "unat i * nat b + unat d"
  show ?case
  proof (cases "2 ^ LENGTH('a) \<le> ?v")
    case True
    have e: "strtol_loop m b (cutoff b) (cutlim TYPE('a) b) s i ov = strtol_loop m b (cutoff b) (cutlim TYPE('a) b) (Suc s) i True"
      using c(1) d True test by (subst strtol_loop.simps) (simp add: ld_def)
    have "1 \<le> nat b" using assms(2) by simp
    then have "2 ^ LENGTH('a) \<le> dig_val (nat b) ?v ds" using True dig_val_ge le_trans by blast
    then show ?thesis using Cons.IH [OF ds, of True i] d(3) unfolding e by (auto simp: loop_result_def)
  next
    case False
    have e: "strtol_loop m b (cutoff b) (cutlim TYPE('a) b) s i ov =
        strtol_loop m b (cutoff b) (cutlim TYPE('a) b) (Suc s) (i * of_int b + ucast d) ov"
      using c(1) d False test by (subst strtol_loop.simps) (auto simp: ld_def)
    have "unat (i * of_int b + ucast d) = ?v" using step False by simp
    then show ?thesis using Cons.IH [OF ds, of ov "i * of_int b + ucast d"] d(3) unfolding e by simp
  qed
qed

text \<open>The narrow loop of \<open>long long\<close> cannot overflow below \<open>jmax\<close>, and the digit at which it hands over cannot either.\<close>

lemma short_step:
  assumes "2 \<le> b" "b \<le> 36" "uint (d :: byte) < b" "\<not> (- 1 div of_int b \<le> (j :: u32))"
  shows "unat (j * of_int b + ucast d) = unat j * nat b + unat d"
proof -
  have "unat (- 1 div of_int b :: u32) = unat (cutoff b :: u32)" by (simp add: cutoff_def)
  then have "j < cutoff b" using assms(4) by (simp add: not_le cutoff_def)
  then have "\<not> (j > cutoff b \<or> j = cutoff b \<and> ucast d > cutlim TYPE(32) b)" by auto
  then show ?thesis using overflow_test [OF assms(1,2) _ assms(3), of j] by simp
qed

lemma wide_step:
  assumes "2 \<le> b" "b \<le> 36" "uint (d :: byte) < b"
  shows "unat (ucast (j :: u32) * of_int b + ucast d :: u64) = unat j * nat b + unat d"
proof -
  have j: "unat (ucast j :: u64) = unat j"
    by (simp add: unsigned_ucast_eq take_bit_nat_eq_self unsigned_less [of j, where ?'a = nat, THEN less_trans])
  have "unat d < nat b" by (subst zless_nat_eq_int_zless) (simp add: assms(3))
  moreover have "unat j * nat b \<le> 2 ^ 32 * 36"
    using assms(2) unsigned_less [of j, where ?'a = nat] by (intro mult_le_mono) simp_all
  ultimately have "unat j * nat b + unat d < 2 ^ LENGTH(64)" using assms(2) by simp
  then show ?thesis using overflow_test(2) [OF assms(1,2) _ assms(3), of "ucast j :: u64"] j by simp
qed

lemma strtol_short_spec:
  assumes "digs_at m b s ds" "2 \<le> b" "b \<le> 36"
  shows "loop_result (s + length ds) False (dig_val (nat b) (unat j) ds)
      (strtol_short m b (cutoff b) (cutlim TYPE(64) b) (- 1 div of_int b) s j)"
  using assms(1)
proof (induction ds arbitrary: s j)
  case Nil
  then obtain c where c: "m s = Some c" "\<not> is_dig b c" by (auto simp: digs_at_Nil)
  have j: "unat (ucast j :: u64) = unat j"
    by (simp add: unsigned_ucast_eq take_bit_nat_eq_self unsigned_less [of j, where ?'a = nat, THEN less_trans])
  then have "unat j < 2 ^ 64" using unsigned_less [of "ucast j :: u64", where ?'a = nat] by simp
  then show ?case using c j by (simp add: not_digit_stop(2) loop_result_def not_le)
next
  case (Cons c ds)
  have c: "m s = Some c" "is_dig b c" and ds: "digs_at m b (Suc s) ds" using Cons.prems by (simp_all add: digs_at_Cons)
  obtain d where d: "num_digit c = Some d" "uint d < b" "dig c = Some (unat d)" "c \<noteq> 0" using c(2) by (rule is_digE)
  let ?S = "strtol_short m b (cutoff b) (cutlim TYPE(64) b) (- 1 div of_int b)"
  show ?case
  proof (cases "- 1 div of_int b \<le> j")
    case True
    then have e: "?S s j = strtol_loop m b (cutoff b) (cutlim TYPE(64) b) (Suc s) (ucast j * of_int b + ucast d) False"
      using c(1) d by (subst strtol_short.simps) (simp add: ld_def)
    show ?thesis
      using strtol_loop_spec [OF ds assms(2,3), of False "ucast j * of_int b + ucast d :: u64"] d(3)
        wide_step [OF assms(2,3) d(2), of j] unfolding e by simp
  next
    case False
    then have e: "?S s j = ?S (Suc s) (j * of_int b + ucast d)"
      using c(1) d by (subst strtol_short.simps) (simp add: ld_def)
    show ?thesis using Cons.IH [OF ds, of "j * of_int b + ucast d"] short_step [OF assms(2,3) d(2) False] d(3)
      unfolding e by simp
  qed
qed


section \<open>The whole conversion\<close>

lemma skip_space_spec:
  assumes "block m p ws" "\<forall>c \<in> set ws. isspace (scast c) \<noteq> 0" "m (p + length ws) = Some c" "isspace (scast c) = 0"
  shows "skip_space m p = Some (p + length ws)"
  using assms
proof (induction ws arbitrary: p)
  case Nil
  then show ?case by (subst skip_space.simps) (simp add: ld_def)
next
  case (Cons w ws)
  have "skip_space m (Suc p) = Some (Suc p + length ws)"
    by (rule Cons.IH) (use Cons.prems in \<open>simp_all add: block_Cons\<close>)
  then show ?case using Cons.prems by (subst skip_space.simps) (simp add: ld_def block_Cons)
qed

text \<open>The radix of a digit string \<open>ds\<close> with the prefix \<open>pre\<close>, for the argument \<open>base\<close>; \<open>d1\<close> is the character
  behind the first one of the number.\<close>

definition num_radix :: "int \<Rightarrow> byte list \<Rightarrow> byte \<Rightarrow> byte \<Rightarrow> int option" where
  "num_radix base pre d d1 =
    (if pre = [48, 120] \<or> pre = [48, 88] then (if base = 0 \<or> base = 16 then Some 16 else None)
     else if pre \<noteq> [] then None
     else if d = 48 \<and> (base = 0 \<or> base = 16) \<and> (d1 = 120 \<or> d1 = 88) then None
     else Some (if base \<noteq> 0 then base else if d = 48 then 8 else 10))"

text \<open>The value and the error of a number: its integer value when the type can hold it, and the nearest bound with
  \<open>ERANGE\<close> otherwise. An unsigned conversion negates in the type.\<close>

definition num_value :: "bool \<Rightarrow> bool \<Rightarrow> nat \<Rightarrow> 'a::len word \<times> num_errno option" where
  "num_value uns negative v =
    (if uns then (if v < 2 ^ LENGTH('a) then (if negative then - of_nat v else of_nat v, None) else (- 1, Some ERANGE))
     else if negative then (if v \<le> 2 ^ (LENGTH('a) - 1) then (of_int (- int v), None) else (- (2 ^ (LENGTH('a) - 1)), Some ERANGE))
     else (if v < 2 ^ (LENGTH('a) - 1) then (of_nat v, None) else (2 ^ (LENGTH('a) - 1) - 1, Some ERANGE)))"

lemma unat_half: "unat (2 ^ (LENGTH('a) - 1) :: 'a::len word) = 2 ^ (LENGTH('a) - 1)"
proof -
  have "(2 ^ (LENGTH('a) - 1) :: 'a word) = of_nat (2 ^ (LENGTH('a) - 1))" by simp
  moreover have "(2::nat) ^ (LENGTH('a) - 1) < 2 ^ LENGTH('a)" by (intro power_strict_increasing) simp_all
  ultimately show ?thesis by (simp only: unsigned_of_nat take_bit_nat_eq_self of_nat_id)
qed

lemma half_neg: "- (2 ^ (LENGTH('a) - 1) :: 'a::len word) = 2 ^ (LENGTH('a) - 1)"
proof -
  have "Suc (LENGTH('a) - 1) = LENGTH('a)" using len_gt_0 [where ?'a = 'a] by simp
  then have "(2::'a word) * 2 ^ (LENGTH('a) - 1) = 2 ^ LENGTH('a)" by (metis power_Suc)
  also have "\<dots> = 0" by (simp only: exp_eq_zero_iff)
  finally show ?thesis by (simp only: mult_2 neg_eq_iff_add_eq_0)
qed

lemma greater_bounds:
  "(i :: 'a::len word) > - (long_min + 1) + 1 \<longleftrightarrow> 2 ^ (LENGTH('a) - 1) < unat i"
  "i > long_max \<longleftrightarrow> 2 ^ (LENGTH('a) - 1) \<le> unat i"
proof -
  have nz: "(2 ^ (LENGTH('a) - 1) :: 'a word) \<noteq> 0"
  proof
    assume "(2 ^ (LENGTH('a) - 1) :: 'a word) = 0"
    then have "unat (2 ^ (LENGTH('a) - 1) :: 'a word) = 0" by (simp only: unsigned_0)
    then show False unfolding unat_half by simp
  qed
  have "- (long_min + 1) + 1 = (2 ^ (LENGTH('a) - 1) :: 'a word)"
    unfolding long_min_def minus_add half_neg by (simp only: ac_simps) simp
  then show "i > - (long_min + 1) + 1 \<longleftrightarrow> 2 ^ (LENGTH('a) - 1) < unat i"
    by (simp only: word_less_nat_alt unat_half)
  have "unat (2 ^ (LENGTH('a) - 1) - 1 :: 'a word) = 2 ^ (LENGTH('a) - 1) - 1"
    using unat_minus_one [OF nz] unfolding unat_half .
  then show "i > long_max \<longleftrightarrow> 2 ^ (LENGTH('a) - 1) \<le> unat i"
    by (simp add: long_max_def word_less_nat_alt less_eq_Suc_le)
qed

lemma num_result_value:
  fixes i :: "'a::len word"
  assumes "v < 2 ^ LENGTH('a) \<longrightarrow> unat i = v"
  shows "num_result uns negative i (2 ^ LENGTH('a) \<le> v) = num_value uns negative v"
proof -
  have half: "(2::nat) ^ (LENGTH('a) - 1) < 2 ^ LENGTH('a)" by (intro power_strict_increasing) simp_all
  note neg = half_neg [where ?'a = 'a]
  have i: "v < 2 ^ LENGTH('a) \<Longrightarrow> i = of_nat v" using assms by (metis of_nat_unat ucast_id)
  show ?thesis
  proof (cases "v < 2 ^ LENGTH('a)")
    case True
    then have v: "unat i = v" "i = of_nat v" "\<not> 2 ^ LENGTH('a) \<le> v" using assms i by simp_all
    have "i > (if negative then - (long_min + 1) + 1 else long_max) \<longleftrightarrow>
        (if negative then 2 ^ (LENGTH('a) - 1) < v else 2 ^ (LENGTH('a) - 1) \<le> v)"
      using greater_bounds [of i] v(1) by (cases negative) (simp_all only: if_True if_False)
    then show ?thesis using True v(2,3) neg unfolding num_result_def num_value_def Let_def
      by (cases uns; cases negative) (auto simp: long_min_def long_max_def)
  next
    case False
    then have "\<not> v \<le> 2 ^ (LENGTH('a) - 1)" "\<not> v < 2 ^ (LENGTH('a) - 1)" using half by linarith+
    then show ?thesis using False neg
      by (simp add: num_result_def num_value_def long_min_def long_max_def Let_def)
  qed
qed

lemma is_dig_cases: "is_dig b c \<Longrightarrow> unat c \<in> {48..57} \<union> {65..90} \<union> {97..122}"
  using isalpha_byte [of c]
  by (auto simp: is_dig_def dig_def num_digit_def word_le_nat_alt split: if_splits option.splits)

lemma zero_dig: "2 \<le> b \<Longrightarrow> is_dig b 48"
  by (simp add: is_dig_def dig_def num_digit_def)

section \<open>The form of a number\<close>

text \<open>\<open>number m p base ws sg pre ds b\<close>: at \<open>p\<close> there are white space \<open>ws\<close>, a sign \<open>sg\<close>, a prefix \<open>pre\<close> and then
  the digits \<open>ds\<close> of the radix \<open>b\<close> that this makes for the argument \<open>base\<close>, and no further digit.\<close>

definition number :: "bmem \<Rightarrow> nat \<Rightarrow> int \<Rightarrow> byte list \<Rightarrow> byte list \<Rightarrow> byte list \<Rightarrow> byte list \<Rightarrow> int \<Rightarrow> bool" where
  "number m p base ws sg pre ds b \<longleftrightarrow>
    0 \<le> base \<and> base \<noteq> 1 \<and> base \<le> 36 \<and> block m p (ws @ sg @ pre) \<and> (\<forall>c \<in> set ws. unat c \<in> {9..13} \<union> {32}) \<and>
    (sg = [] \<or> sg = [45] \<or> sg = [43]) \<and> digs_at m b (p + length (ws @ sg @ pre)) ds \<and>
    (\<exists>d d1. m (p + length (ws @ sg)) = Some d \<and> (d = 48 \<longrightarrow> m (p + length (ws @ sg) + 1) = Some d1) \<and>
      num_radix base pre d d1 = Some b \<and>
      (sg = [] \<longrightarrow> d \<noteq> 45 \<and> d \<noteq> 43 \<and> unat d \<notin> {9..13} \<union> {32}))"

lemma num_radix_range: "num_radix base pre d d1 = Some b \<Longrightarrow> 0 \<le> base \<Longrightarrow> base \<noteq> 1 \<Longrightarrow> base \<le> 36 \<Longrightarrow> 2 \<le> b \<and> b \<le> 36"
  by (auto simp: num_radix_def split: if_splits)

lemma num_base_spec:
  assumes "m s = Some d" "d = 48 \<longrightarrow> m (Suc s) = Some d1" "num_radix base pre d d1 = Some b" "block m s pre"
  shows "num_base m s base = Some (s + length pre, b)"
  using assms by (auto simp: num_base_def ld_def num_radix_def toupper_X block_Cons split: if_splits)


lemma noconv_spec:
  assumes "block m p (ws @ sg @ pre)" "\<forall>c \<in> set ws. unat c \<in> {9..13} \<union> {32}" "sg = [] \<or> sg = [45] \<or> sg = [43]"
    "pre = [] \<or> pre = [48, 120] \<or> pre = [48, 88]"
  shows "noconv m p (p + length (ws @ sg @ pre)) =
    Some (if pre = [] then p else p + length (ws @ sg) + 1)"
proof (cases "pre = []")
  case True
  show ?thesis
  proof (cases "length (ws @ sg) < 2")
    case False
    let ?w = "ws @ sg"
    have bl: "block m p ?w" using assms(1) True by simp
    have "m (p + (length ?w - 1)) = Some (?w ! (length ?w - 1))" "m (p + (length ?w - 2)) = Some (?w ! (length ?w - 2))"
      by (rule block_nth [OF bl], use False in simp)+
    moreover have "?w ! (length ?w - 1) \<in> set ?w" using False by (intro nth_mem) simp
    then have "\<not> (?w ! (length ?w - 1) = 120 \<or> ?w ! (length ?w - 1) = 88)" using assms(2,3) by auto
    ultimately show ?thesis using True False by (auto simp: noconv_def ld_def toupper_X)
  qed (use True in \<open>simp add: noconv_def\<close>)
next
  case False
  then obtain x where x: "pre = [48, x]" "x = 120 \<or> x = 88" using assms(4) by auto
  then have "m (p + length (ws @ sg)) = Some 48" "m (p + length (ws @ sg) + 1) = Some x"
    using assms(1) by (simp_all add: block_append block_Cons add.assoc)
  then show ?thesis using x by (auto simp: noconv_def ld_def toupper_X add.assoc)
qed

lemma num_sign_spec:
  assumes "sg = [] \<or> sg = [45] \<or> sg = [43]" "block m s sg" "m (s + length sg) = Some d" "sg = [] \<longrightarrow> d \<noteq> 45 \<and> d \<noteq> 43"
    "m s = Some c"
  shows "num_sign c s = (sg = [45], s + length sg)"
  using assms by (auto simp: num_sign_def block_Cons)

text \<open>With any loop that finds the end of the digits, the conversion gives the value of the number.\<close>

lemma strtol_with_number:
  assumes n: "number m p base ws sg pre ds b"
    and loop: "loop_result (p + length (ws @ sg @ pre) + length ds) False (dig_val (nat b) 0 ds)
      (loop m b (p + length (ws @ sg @ pre)) :: (nat \<times> 'a::len word \<times> bool) option)"
  shows "strtol_with loop uns m p base =
    (if ds = [] then Some (0, Some (if pre = [] then p else p + length (ws @ sg) + 1), None)
     else (case num_value uns (sg = [45]) (dig_val (nat b) 0 ds) of
       (v, err) \<Rightarrow> Some (v, Some (p + length (ws @ sg @ pre @ ds)), err)))"
proof -
  let ?q = "p + length (ws @ sg)" and ?e = "p + length (ws @ sg @ pre)"
  from n obtain d d1 where base: "\<not> (base < 0 \<or> base = 1 \<or> base > 36)" and bl: "block m p (ws @ sg @ pre)"
    and ws: "\<forall>c \<in> set ws. unat c \<in> {9..13} \<union> {32}" and sg: "sg = [] \<or> sg = [45] \<or> sg = [43]" and ds: "digs_at m b ?e ds"
    and d: "m ?q = Some d" "d = 48 \<longrightarrow> m (Suc ?q) = Some d1" and radix: "num_radix base pre d d1 = Some b"
    and dsg: "sg = [] \<longrightarrow> d \<noteq> 45 \<and> d \<noteq> 43 \<and> unat d \<notin> {9..13} \<union> {32}" by (auto simp: number_def)
  have blocks: "block m p ws" "block m (p + length ws) sg" "block m ?q pre" using bl by (simp_all add: block_append add.assoc)
  have pre: "pre = [] \<or> pre = [48, 120] \<or> pre = [48, 88]" using radix by (auto simp: num_radix_def split: if_splits)
  obtain c where c: "m (p + length ws) = Some c" "c = (case sg of [] \<Rightarrow> d | x # _ \<Rightarrow> x)"
    using sg blocks(2) d(1) by (auto simp: block_Cons)
  have cs: "unat c \<notin> {9..13} \<union> {32}" using c(2) sg dsg by auto
  have "skip_space m p = Some (p + length ws)"
    by (rule skip_space_spec [OF blocks(1) _ c(1)]) (use ws cs isspace_byte in blast)+
  moreover have sign: "num_sign c (p + length ws) = (sg = [45], ?q)"
    using num_sign_spec [OF sg blocks(2) _ _ c(1), of d] d(1) dsg by (simp add: add.assoc)
  moreover have nb: "num_base m ?q base = Some (?e, b)"
    using num_base_spec [OF d radix blocks(3)] by (simp add: add.assoc)
  moreover obtain i where i: "loop m b ?e = Some (?e + length ds, i, 2 ^ LENGTH('a) \<le> dig_val (nat b) 0 ds)"
    "dig_val (nat b) 0 ds < 2 ^ LENGTH('a) \<longrightarrow> unat i = dig_val (nat b) 0 ds"
    using loop by (auto simp: loop_result_def)
  moreover have nc: "noconv m p ?e = Some (if pre = [] then p else ?q + 1)" by (rule noconv_spec [OF bl ws sg pre])
  moreover have "ds = [] \<and> pre = [] \<and> sg = []" if z: "c = 0"
  proof -
    have sg0: "sg = []" using z c(2) sg by auto
    then have d0: "d = 0" using z c(2) by simp
    then have pre0: "pre = []" using pre d(1) blocks(3) by (auto simp: block_Cons)
    have "ds = []" using ds d(1) d0 is_dig_nz sg0 pre0 by (cases ds) (auto simp: digs_at_Cons)
    then show ?thesis using sg0 pre0 by simp
  qed
  moreover have "noconv m p p = Some p" by (simp add: noconv_def)
  ultimately show ?thesis using base num_result_value [OF i(2), of uns "sg = [45]"] c(1)
    by (auto simp: strtol_with_def ld_def split: prod.splits)
qed


lemma number_digs:
  assumes "number m p base ws sg pre ds b"
  shows "digs_at m b (p + length (ws @ sg @ pre)) ds" "2 \<le> b" "b \<le> 36"
  using assms num_radix_range by (auto simp: number_def)

text \<open>C16: A number, with its white space, sign and \<open>0x\<close> prefix, in the radix that the prefix or the argument gives,
  is converted by all four functions to its exact value when the type can hold it, and else to the nearest bound
  with \<open>ERANGE\<close>; \<open>*endptr\<close> is right behind the last digit. The two-phase loop of the \<open>long long\<close> functions
  makes no difference. Without a digit the result is 0 and \<open>*endptr\<close> is the start, or the \<open>x\<close> of a lone \<open>0x\<close>.\<close>

theorem strtol_correct:
  assumes "number m p base ws sg pre ds b"
  shows "(ds \<noteq> [] \<longrightarrow>
      strtol uns m p base = (case num_value uns (sg = [45]) (dig_val (nat b) 0 ds) of
        (v, err) \<Rightarrow> Some (v, Some (p + length (ws @ sg @ pre @ ds)), err)) \<and>
      strtoll uns m p base = (case num_value uns (sg = [45]) (dig_val (nat b) 0 ds) of
        (v, err) \<Rightarrow> Some (v, Some (p + length (ws @ sg @ pre @ ds)), err))) \<and>
    (ds = [] \<longrightarrow>
      strtol uns m p base = Some (0, Some (if pre = [] then p else p + length (ws @ sg) + 1), None) \<and>
      strtoll uns m p base = Some (0, Some (if pre = [] then p else p + length (ws @ sg) + 1), None))"
proof -
  note d = number_digs [OF assms]
  have "loop_result (p + length (ws @ sg @ pre) + length ds) False (dig_val (nat b) 0 ds)
      (strtol_loop m b (cutoff b) (cutlim TYPE(32) b) (p + length (ws @ sg @ pre)) (0 :: u32) False)"
    using strtol_loop_spec [OF d, where ?'a = 32, of False 0] by simp
  from strtol_with_number [where loop = "\<lambda>m base s. strtol_loop m base (cutoff base) (cutlim TYPE(32) base) s 0 False",
      OF assms this, of uns]
  have long: "strtol uns m p base =
    (if ds = [] then Some (0, Some (if pre = [] then p else p + length (ws @ sg) + 1), None)
     else (case num_value uns (sg = [45]) (dig_val (nat b) 0 ds) of
       (v, err) \<Rightarrow> Some (v, Some (p + length (ws @ sg @ pre @ ds)), err)))" unfolding strtol_def .
  have "loop_result (p + length (ws @ sg @ pre) + length ds) False (dig_val (nat b) 0 ds)
      (strtol_short m b (cutoff b) (cutlim TYPE(64) b) (- 1 div of_int b) (p + length (ws @ sg @ pre)) 0)"
    using strtol_short_spec [OF d, of 0] by simp
  from strtol_with_number [where loop = "\<lambda>m base s. strtol_short m base (cutoff base) (cutlim TYPE(64) base) (- 1 div of_int base) s 0",
      OF assms this, of uns]
  have "strtoll uns m p base =
    (if ds = [] then Some (0, Some (if pre = [] then p else p + length (ws @ sg) + 1), None)
     else (case num_value uns (sg = [45]) (dig_val (nat b) 0 ds) of
       (v, err) \<Rightarrow> Some (v, Some (p + length (ws @ sg @ pre @ ds)), err)))" unfolding strtoll_def .
  with long show ?thesis by simp
qed

theorem strtol_correct_witness:
  "let m = wr (\<lambda>_. None) 8 [32, 45, 48, 120, 102, 70, 44, 0]
   in strtol False m 8 0 = Some (- 255, Some 14, None) \<and> strtoll True m 8 0 = Some (- 255, Some 14, None)"
proof -
  define m where "m = wr (\<lambda>_. None) 8 [32, 45, 48, 120, 102, 70, 44, 0 :: byte]"
  note cls = ctype_cases(1) [of 44, simplified] ctype_cases(1) [of 70, simplified] ctype_cases(1) [of 102, simplified]
    toupper_spec [of 70, simplified] toupper_spec [of 102, simplified] upper_nat_def
  have "number m 8 0 [32] [45] [48, 120] [102, 70] 16"
    by (simp add: cls number_def m_def wr_def block_Cons digs_at_def is_dig_def dig_def num_digit_def num_radix_def)
  from strtol_correct [OF this] show ?thesis unfolding m_def [symmetric] Let_def
    by (simp add: cls num_value_def dig_val_def dig_def num_digit_def)
qed

lemma strtol_bad_base:
  "base < 0 \<or> base = 1 \<or> 36 < base \<Longrightarrow>
    strtol uns m p base = Some (0, None, Some NUM_EINVAL) \<and> strtoll uns m p base = Some (0, None, Some NUM_EINVAL)"
  by (simp add: strtol_def strtoll_def strtol_with_def)

end
