(* ===== verification/Inet.thy ===== *)
theory Inet
  imports Strtol Str
begin

text \<open>
  Internet addresses: \<open>inet_pton\<close>, \<open>inet_ntop\<close> (the IPv4 part, which is all that is compiled for this system),
  \<open>inet_ntoa\<close>, \<open>inet_aton\<close>, \<open>inet_addr\<close>, \<open>inet_network\<close>, \<open>inet_neta\<close>, \<open>inet_makeaddr\<close>, \<open>inet_netof\<close> and
  \<open>inet_lnaof\<close> (\<open>socket/inet_*.c\<close>).

  An address is the word \<open>s_addr\<close>; the system is big endian, so that \<open>htonl\<close> and \<open>ntohl\<close> are the identity and the
  first byte of the object is the most significant one. Local arrays that the code does not initialise are
  arguments of the definitions (\<open>tmp\<close>), and a store past their end is \<open>None\<close>. The conversions \<open>%u\<close> and \<open>%d\<close> of
  \<open>sprintf\<close>, which these functions apply to a byte only, are \<open>dec\<close>.
\<close>

section \<open>Reading: inet_pton\<close>

datatype inet_errno = EAFNOSUPPORT | ENOSPC | EMSGSIZE

definition AF_INET :: int where "AF_INET = 2"

fun store :: "'a mem \<Rightarrow> nat \<Rightarrow> 'a list \<Rightarrow> 'a mem option" where
  "store m p [] = Some m"
| "store m p (x # xs) = do { m' \<leftarrow> st m p x; store m' (Suc p) xs }"

partial_function (option) pton4_loop ::
    "bmem \<Rightarrow> nat \<Rightarrow> byte list \<Rightarrow> nat \<Rightarrow> bool \<Rightarrow> nat \<Rightarrow> byte list option option" where
  "pton4_loop m src tmp tp saw_digit octets =
    do { ch \<leftarrow> ld m src;
         if ch = 0 then Some (if octets < 4 then None else Some tmp)
         else if 48 \<le> ch \<and> ch \<le> 57 then
           do { d \<leftarrow> get tmp tp;
                let new = (ucast d * 10 + (ucast ch - 48) :: u32) in
                if new > 255 then Some None
                else do { tmp \<leftarrow> put tmp tp (ucast new);
                          if saw_digit then pton4_loop m (src + 1) tmp tp saw_digit octets
                          else if octets + 1 > 4 then Some None
                          else pton4_loop m (src + 1) tmp tp True (octets + 1) } }
         else if ch = 46 \<and> saw_digit then
           (if octets = 4 then Some None
            else do { tmp \<leftarrow> put tmp (tp + 1) 0; pton4_loop m (src + 1) tmp (tp + 1) False octets })
         else Some None }"

definition inet_pton4 :: "byte list \<Rightarrow> bmem \<Rightarrow> nat \<Rightarrow> nat \<Rightarrow> (bmem \<times> int) option" where
  "inet_pton4 tmp m src dst =
    do { tmp \<leftarrow> put tmp 0 0;
         r \<leftarrow> pton4_loop m src tmp 0 False 0;
         case r of None \<Rightarrow> Some (m, 0)
         | Some tmp \<Rightarrow> do { m \<leftarrow> store m dst tmp; Some (m, 1) } }"

definition inet_pton :: "byte list \<Rightarrow> bmem \<Rightarrow> int \<Rightarrow> nat \<Rightarrow> nat \<Rightarrow> (bmem \<times> int \<times> inet_errno option) option" where
  "inet_pton tmp m af src dst =
    (if af = AF_INET then do { (m, r) \<leftarrow> inet_pton4 tmp m src dst; Some (m, r, None) }
     else Some (m, - 1, Some EAFNOSUPPORT))"

section \<open>Writing: inet_ntop, inet_ntoa\<close>

fun dec :: "nat \<Rightarrow> byte list" where
  "dec n = (if n < 10 then [48 + of_nat n] else dec (n div 10) @ [48 + of_nat (n mod 10)])"

declare dec.simps [simp del]

definition quad_text :: "byte list \<Rightarrow> byte list" where
  "quad_text bs = dec (unat (bs ! 0)) @ 46 # dec (unat (bs ! 1)) @ 46 # dec (unat (bs ! 2)) @ 46 # dec (unat (bs ! 3))"

definition load4 :: "'a mem \<Rightarrow> nat \<Rightarrow> 'a list option" where
  "load4 m p = do { a \<leftarrow> ld m p; b \<leftarrow> ld m (p + 1); c \<leftarrow> ld m (p + 2); d \<leftarrow> ld m (p + 3); Some [a, b, c, d] }"

text \<open>\<open>tmp\<close> is the address of the local array of 16 bytes.\<close>

definition inet_ntop4 :: "nat \<Rightarrow> bmem \<Rightarrow> nat \<Rightarrow> nat \<Rightarrow> u32 \<Rightarrow> (bmem \<times> nat \<times> inet_errno option) option" where
  "inet_ntop4 tmp m src dst sz =
    do { bs \<leftarrow> load4 m src;
         m \<leftarrow> store m tmp (quad_text bs @ [0]);
         if of_nat (length (quad_text bs)) > sz then Some (m, null, Some ENOSPC)
         else do { (m, r) \<leftarrow> strcpy m dst tmp; Some (m, r, None) } }"

definition inet_ntop :: "nat \<Rightarrow> bmem \<Rightarrow> int \<Rightarrow> nat \<Rightarrow> nat \<Rightarrow> u32 \<Rightarrow> (bmem \<times> nat \<times> inet_errno option) option" where
  "inet_ntop tmp m af src dst sz =
    (if af = AF_INET then inet_ntop4 tmp m src dst sz else Some (m, null, Some EAFNOSUPPORT))"

text \<open>The bytes of an address, in the order of its object.\<close>

definition bytes_of :: "u32 \<Rightarrow> byte list" where
  "bytes_of a = [ucast (drop_bit 24 a), ucast (drop_bit 16 a), ucast (drop_bit 8 a), ucast a]"

definition uc :: "byte \<Rightarrow> u32" where "uc b = scast b AND 0xff"

text \<open>\<open>b\<close> is the address of the static array of 18 bytes.\<close>

definition inet_ntoa :: "nat \<Rightarrow> bmem \<Rightarrow> u32 \<Rightarrow> (bmem \<times> nat) option" where
  "inet_ntoa b m a =
    (let u = (\<lambda>i. dec (unat (uc (bytes_of a ! i))))
     in do { m \<leftarrow> store m b (u 0 @ 46 # u 1 @ 46 # u 2 @ 46 # u 3 @ [0]); Some (m, b) })"

section \<open>Reading numbers in C notation: inet_aton, inet_addr\<close>

text \<open>\<open>parts\<close> is the initialised part of the array \<open>parts\<close>, so that \<open>pp\<close> is its length.\<close>

definition INADDR_NONE :: u32 where "INADDR_NONE = 0xffffffff"

partial_function (option) aton_loop ::
    "bmem \<Rightarrow> nat \<Rightarrow> byte \<Rightarrow> num_errno option \<Rightarrow> u32 list \<Rightarrow> (byte \<times> u32 list \<times> u32) option option" where
  "aton_loop m cp c errno parts =
    (if isdigit (scast c) = 0 then Some None
     else do { (ul, e, err) \<leftarrow> strtol True m cp 0;
               let cp = (case e of None \<Rightarrow> cp | Some e \<Rightarrow> e);
                   errno = (case err of None \<Rightarrow> errno | Some x \<Rightarrow> Some x) in
               if ul = 0xffffffff \<and> errno = Some ERANGE then Some None
               else if ul > 0xffffffff then Some None
               else do { c \<leftarrow> ld m cp;
                         if c = 46 then
                           (if length parts \<ge> 3 then Some None
                            else do { c \<leftarrow> ld m (cp + 1); aton_loop m (cp + 1) c errno (parts @ [ul]) })
                         else Some (Some (c, parts, ul)) } })"

definition concoct :: "u32 list \<Rightarrow> u32 \<Rightarrow> u32 option" where
  "concoct parts val =
    (let n = length parts + 1 in
     if n = 1 then Some val
     else if n = 2 then
       (if parts ! 0 > 0xff \<or> val > 0xffffff then None else Some (val OR push_bit 24 (parts ! 0)))
     else if n = 3 then
       (if parts ! 0 > 0xff \<or> parts ! 1 > 0xff \<or> val > 0xffff then None
        else Some (val OR (push_bit 24 (parts ! 0) OR push_bit 16 (parts ! 1))))
     else if n = 4 then
       (if parts ! 0 > 0xff \<or> parts ! 1 > 0xff \<or> parts ! 2 > 0xff \<or> val > 0xff then None
        else Some (val OR (push_bit 24 (parts ! 0) OR push_bit 16 (parts ! 1) OR push_bit 8 (parts ! 2))))
     else Some val)"

definition inet_aton :: "bmem \<Rightarrow> nat \<Rightarrow> u32 option option" where
  "inet_aton m cp =
    do { c \<leftarrow> ld m cp;
         r \<leftarrow> aton_loop m cp c None [];
         case r of None \<Rightarrow> Some None
         | Some (c, parts, val) \<Rightarrow>
             if c \<noteq> 0 \<and> (isascii (scast c) = 0 \<or> isspace (scast c) = 0) then Some None
             else Some (concoct parts val) }"

definition inet_addr :: "bmem \<Rightarrow> nat \<Rightarrow> u32 option" where
  "inet_addr m cp = do { r \<leftarrow> inet_aton m cp; Some (case r of Some v \<Rightarrow> v | None \<Rightarrow> INADDR_NONE) }"

section \<open>Network numbers: inet_network, inet_neta\<close>

partial_function (option) network_digits :: "bmem \<Rightarrow> nat \<Rightarrow> u32 \<Rightarrow> u32 \<Rightarrow> (nat \<times> u32) option" where
  "network_digits m cp base val =
    do { c \<leftarrow> ld m cp;
         if c = 0 then Some (cp, val)
         else if isdigit (scast c) \<noteq> 0 then network_digits m (cp + 1) base (val * base + (scast c - 48))
         else if base = 16 \<and> isxdigit (scast c) \<noteq> 0 then
           network_digits m (cp + 1) base
             (push_bit 4 val + (scast c + 10 - (if islower (scast c) \<noteq> 0 then 97 else 65)))
         else Some (cp, val) }"

partial_function (option) network_parts :: "bmem \<Rightarrow> nat \<Rightarrow> u32 list \<Rightarrow> (nat \<times> u32 list \<times> u32) option option" where
  "network_parts m cp parts =
    do { c \<leftarrow> ld m cp;
         let (base, cp) = (if c = 48 then (8, cp + 1) else (10 :: u32, cp)) in
         do { c \<leftarrow> ld m cp;
              let (base, cp) = (if c = 120 \<or> c = 88 then (16, cp + 1) else (base, cp)) in
              do { (cp, val) \<leftarrow> network_digits m cp base 0;
                   c \<leftarrow> ld m cp;
                   if c = 46 then
                     (if length parts \<ge> 4 then Some None else network_parts m (cp + 1) (parts @ [val]))
                   else Some (Some (cp, parts, val)) } } }"

definition inet_network :: "bmem \<Rightarrow> nat \<Rightarrow> u32 option" where
  "inet_network m cp =
    do { r \<leftarrow> network_parts m cp [];
         case r of None \<Rightarrow> Some INADDR_NONE
         | Some (cp, parts, val) \<Rightarrow>
             do { c \<leftarrow> ld m cp;
                  if c \<noteq> 0 \<and> isspace (scast c) = 0 then Some INADDR_NONE
                  else if length parts \<ge> 4 then None
                  else Some (foldl (\<lambda>v p. push_bit 8 v OR (p AND 0xff)) 0 (parts @ [val])) } }"

partial_function (option) neta_loop :: "bmem \<Rightarrow> u32 \<Rightarrow> nat \<Rightarrow> u32 \<Rightarrow> (bmem \<times> (nat \<times> u32) option) option" where
  "neta_loop m src dst sz =
    (if src AND 0xffffffff = 0 then Some (m, Some (dst, sz))
     else let b = (ucast (drop_bit 24 (src AND 0xff000000)) :: byte); src = push_bit 8 src in
       if b \<noteq> 0 then
         (if sz < 5 then Some (m, None)
          else do { m \<leftarrow> store m dst (dec (unat b) @ [0]);
                    let tp = dst; dst = dst + length (dec (unat b)) in
                    if src \<noteq> 0 then
                      do { m \<leftarrow> store m dst [46, 0];
                           neta_loop m src (dst + 1) (sz - of_nat (dst + 1 - tp)) }
                    else neta_loop m src dst (sz - of_nat (dst - tp)) })
       else neta_loop m src dst sz)"

definition inet_neta :: "bmem \<Rightarrow> u32 \<Rightarrow> nat \<Rightarrow> u32 \<Rightarrow> (bmem \<times> nat \<times> inet_errno option) option" where
  "inet_neta m src dst sz =
    do { (m, r) \<leftarrow> neta_loop m src dst sz;
         case r of None \<Rightarrow> Some (m, null, Some EMSGSIZE)
         | Some (dst', sz) \<Rightarrow>
             if dst' = dst then
               (if sz < 8 then Some (m, null, Some EMSGSIZE)
                else do { m \<leftarrow> store m dst' [48, 46, 48, 46, 48, 46, 48, 0]; Some (m, dst, None) })
             else Some (m, dst, None) }"

section \<open>Network and host parts\<close>

definition IN_CLASSA :: "u32 \<Rightarrow> bool" where "IN_CLASSA a \<longleftrightarrow> a AND 0x80000000 = 0"
definition IN_CLASSB :: "u32 \<Rightarrow> bool" where "IN_CLASSB a \<longleftrightarrow> a AND 0xc0000000 = 0x80000000"
definition IN_CLASSC :: "u32 \<Rightarrow> bool" where "IN_CLASSC a \<longleftrightarrow> a AND 0xe0000000 = 0xc0000000"

abbreviation IN_CLASSA_NET :: u32 where "IN_CLASSA_NET \<equiv> 0xff000000"
abbreviation IN_CLASSB_NET :: u32 where "IN_CLASSB_NET \<equiv> 0xffff0000"
abbreviation IN_CLASSC_NET :: u32 where "IN_CLASSC_NET \<equiv> 0xffffff00"
abbreviation IN_CLASSA_HOST :: u32 where "IN_CLASSA_HOST \<equiv> 0xffffffff AND NOT IN_CLASSA_NET"
abbreviation IN_CLASSB_HOST :: u32 where "IN_CLASSB_HOST \<equiv> 0xffffffff AND NOT IN_CLASSB_NET"
abbreviation IN_CLASSC_HOST :: u32 where "IN_CLASSC_HOST \<equiv> 0xffffffff AND NOT IN_CLASSC_NET"

definition inet_makeaddr :: "u32 \<Rightarrow> u32 \<Rightarrow> u32" where
  "inet_makeaddr net host =
    (if net < 128 then push_bit 24 net OR (host AND IN_CLASSA_HOST)
     else if net < 65536 then push_bit 16 net OR (host AND IN_CLASSB_HOST)
     else if net < 16777216 then push_bit 8 net OR (host AND IN_CLASSC_HOST)
     else net OR host)"

definition inet_netof :: "u32 \<Rightarrow> u32" where
  "inet_netof a =
    (if IN_CLASSA a then drop_bit 24 (a AND IN_CLASSA_NET)
     else if IN_CLASSB a then drop_bit 16 (a AND IN_CLASSB_NET)
     else drop_bit 8 (a AND IN_CLASSC_NET))"

definition inet_lnaof :: "u32 \<Rightarrow> u32" where
  "inet_lnaof a =
    (if IN_CLASSA a then a AND IN_CLASSA_HOST
     else if IN_CLASSB a then a AND IN_CLASSB_HOST
     else a AND IN_CLASSC_HOST)"

end
