(* ===== verification/InetProps.thy ===== *)
theory InetProps
  imports Inet
begin

text \<open>
  What the address routines do: \<open>inet_pton\<close> accepts exactly the strings of four decimal fields of value at most 255
  (equivalence with a definition that splits the string at its dots), the two readers give back the address that
  the two writers wrote, and the split of an address into network and host part can be undone.
\<close>

section \<open>Dotted quads\<close>

primrec dot_fields :: "byte list \<Rightarrow> byte list \<Rightarrow> byte list list" where
  "dot_fields cur [] = [cur]"
| "dot_fields cur (c # s) = (if c = 46 then cur # dot_fields [] s else dot_fields (cur @ [c]) s)"

definition dec_digit :: "byte \<Rightarrow> bool" where "dec_digit c \<longleftrightarrow> 48 \<le> c \<and> c \<le> 57"

definition dec_val :: "byte list \<Rightarrow> nat" where
  "dec_val f = foldl (\<lambda>v c. v * 10 + (unat c - 48)) 0 f"

definition octet :: "byte list \<Rightarrow> bool" where
  "octet f \<longleftrightarrow> f \<noteq> [] \<and> (\<forall>c \<in> set f. dec_digit c) \<and> dec_val f \<le> 255"

definition quad_of :: "byte list list \<Rightarrow> byte list option" where
  "quad_of fs = (if length fs = 4 \<and> (\<forall>f \<in> set fs. octet f) then Some (map (\<lambda>f. of_nat (dec_val f)) fs) else None)"

lemma dec_val_simps [simp]:
  "dec_val [] = 0" "dec_val (f @ [c]) = dec_val f * 10 + (unat c - 48)"
  by (simp_all add: dec_val_def)

lemma dec_val_prefix: "dec_val f \<le> dec_val (f @ g)"
  by (induction g rule: rev_induct) (simp_all flip: append_assoc)

lemma dot_fields_head: "\<exists>g gs. dot_fields cur s = (cur @ g) # gs"
proof (induction s arbitrary: cur)
  case (Cons c s)
  show ?case
  proof (cases "c = 46")
    case False
    obtain g gs where "dot_fields (cur @ [c]) s = ((cur @ [c]) @ g) # gs" using Cons by blast
    then show ?thesis using False by simp
  qed simp
qed simp

lemma octet_prefix: "octet (f @ g) \<Longrightarrow> f \<noteq> [] \<Longrightarrow> octet f"
  using dec_val_prefix [of f g] by (auto simp: octet_def)

lemma quad_of_bad:
  assumes "cur \<noteq> []" "\<not> octet cur"
  shows "quad_of (init @ dot_fields cur s) = None"
proof -
  obtain g gs where "dot_fields cur s = (cur @ g) # gs" using dot_fields_head by blast
  then show ?thesis using octet_prefix [of cur g] assms by (auto simp: quad_of_def)
qed

text \<open>The state of the loop after the fields \<open>init\<close> and the part \<open>cur\<close> of the next one.\<close>

definition pton_state :: "byte list list \<Rightarrow> byte list \<Rightarrow> byte list \<Rightarrow> nat \<Rightarrow> bool" where
  "pton_state init cur tmp octets \<longleftrightarrow>
    length tmp = 4 \<and> length init < 4 \<and> (\<forall>f \<in> set init. octet f) \<and> (cur \<noteq> [] \<longrightarrow> octet cur) \<and>
    octets = length init + (if cur = [] then 0 else 1) \<and>
    take (Suc (length init)) tmp = map (\<lambda>f. of_nat (dec_val f)) (init @ [cur])"

lemma pton_state_tmp:
  assumes "pton_state init cur tmp octets"
  shows "tmp ! length init = of_nat (dec_val cur)" "dec_val cur \<le> 255"
proof -
  have "take (Suc (length init)) tmp ! length init = map (\<lambda>f. of_nat (dec_val f)) (init @ [cur]) ! length init"
    using assms by (simp add: pton_state_def)
  then show "tmp ! length init = of_nat (dec_val cur)" by (simp add: nth_append)
  show "dec_val cur \<le> 255" using assms by (cases "cur = []") (simp_all add: pton_state_def octet_def)
qed

lemma digit_value:
  assumes "dec_digit c" "v \<le> 255"
  shows "unat (ucast (of_nat v :: byte) * 10 + (ucast c - 48) :: u32) = v * 10 + (unat c - 48)"
proof -
  have c: "48 \<le> unat c" "unat c \<le> 57" using assms by (simp_all add: dec_digit_def word_le_nat_alt)
  have u: "unat (ucast c :: u32) = unat c" by (simp add: unsigned_ucast_eq take_bit_nat_eq_self unsigned_less [of c, where ?'a = nat, THEN less_trans])
  have "(48 :: u32) \<le> ucast c" by (simp only: word_le_nat_alt u) (use c in simp)
  then have "unat (ucast c - 48 :: u32) = unat c - 48" by (simp add: unat_sub u)
  moreover have "unat (ucast (of_nat v :: byte) :: u32) = v"
    using assms by (simp add: unsigned_ucast_eq unsigned_of_nat take_bit_nat_eq_self)
  ultimately show ?thesis using assms c by (simp add: unat_word_ariths)
qed

lemma pton_state_digit:
  assumes "pton_state init cur tmp octets" "dec_digit c" "octet (cur @ [c])"
  shows "pton_state init (cur @ [c]) (tmp[length init := of_nat (dec_val (cur @ [c]))]) (length init + 1)"
proof -
  have "take (length init) tmp = map (\<lambda>f. of_nat (dec_val f)) init"
    using arg_cong [OF assms(1) [unfolded pton_state_def, THEN conjunct2, THEN conjunct2, THEN conjunct2, THEN conjunct2, THEN conjunct2],
      of "take (length init)"] by (simp add: min_def)
  then show ?thesis using assms by (simp add: pton_state_def take_Suc_conv_app_nth)
qed

lemma pton_state_dot:
  assumes "pton_state init cur tmp octets" "cur \<noteq> []" "octets \<noteq> 4"
  shows "pton_state (init @ [cur]) [] (tmp[length init + 1 := 0]) octets"
  using assms by (auto simp: pton_state_def take_Suc_conv_app_nth)

lemma pton4_loop_spec:
  assumes "cstr m src s" "pton_state init cur tmp octets"
  shows "pton4_loop m src tmp (length init) (cur \<noteq> []) octets = Some (quad_of (init @ dot_fields cur s))"
  using assms
proof (induction s arbitrary: src init cur tmp octets)
  case Nil
  have m: "m src = Some 0" using Nil by (simp add: cstr_Nil)
  have st: "pton_state init cur tmp octets" by fact
  show ?case
  proof (cases "octets < 4")
    case True
    then have "quad_of (init @ [cur]) = None" using st by (auto simp: pton_state_def quad_of_def octet_def split: if_splits)
    then show ?thesis using m True by (subst pton4_loop.simps) (simp add: ld_def)
  next
    case False
    then have "length init = 3" "cur \<noteq> []" using st by (auto simp: pton_state_def split: if_splits)
    moreover have "take 4 tmp = tmp" using st by (simp add: pton_state_def)
    ultimately have "quad_of (init @ [cur]) = Some tmp" using st by (simp add: quad_of_def pton_state_def)
    then show ?thesis using m False by (subst pton4_loop.simps) (simp add: ld_def)
  qed
next
  case (Cons c s)
  have m: "m src = Some c" "c \<noteq> 0" "cstr m (Suc src) s" using Cons.prems by (auto simp: cstr_Cons)
  have st: "pton_state init cur tmp octets" by fact
  have len: "length init < 4" "length tmp = 4" using st by (simp_all add: pton_state_def)
  consider "dec_digit c" | "c = 46" | "\<not> dec_digit c" "c \<noteq> 46" by blast
  then show ?case
  proof cases
    case 1
    let ?w = "ucast (of_nat (dec_val cur) :: byte) * 10 + (ucast c - 48) :: u32"
    have w: "unat ?w = dec_val (cur @ [c])" using digit_value [OF 1 pton_state_tmp(2) [OF st]] by simp
    have c46: "c \<noteq> 46" using 1 by (auto simp: dec_digit_def)
    have big: "?w > 255 \<longleftrightarrow> \<not> octet (cur @ [c])"
      using w st 1 by (cases "cur = []") (auto simp: word_less_nat_alt octet_def pton_state_def)
    have oct: "octets + 1 \<le> 4 \<or> cur \<noteq> []" using st len by (auto simp: pton_state_def)
    have d: "get tmp (length init) = Some (of_nat (dec_val cur))" using pton_state_tmp(1) [OF st] len by (simp add: get_def)
    have dc: "48 \<le> c \<and> c \<le> 57" using 1 by (simp add: dec_digit_def)
    show ?thesis
    proof (cases "octet (cur @ [c])")
      case True
      have b: "ucast ?w = (of_nat (dec_val (cur @ [c])) :: byte)"
        unfolding w [symmetric] by simp
      note st' = pton_state_digit [OF st 1 True]
      have "pton4_loop m (src + 1) (tmp[length init := of_nat (dec_val (cur @ [c]))]) (length init) True (length init + 1) =
          Some (quad_of (init @ dot_fields (cur @ [c]) s))"
        using Cons.IH [OF _ st', of "src + 1"] m(3) by simp
      moreover have "octets = (if cur = [] then length init else length init + 1)" using st by (simp add: pton_state_def)
      moreover have "\<not> ?w > 255" using big True by simp
      ultimately show ?thesis
        using m d len dc c46 oct b by (cases "cur = []") (subst pton4_loop.simps, simp add: ld_def put_def Let_def)+
    next
      case False
      then have "quad_of (init @ dot_fields (cur @ [c]) s) = None" by (intro quad_of_bad) simp_all
      then show ?thesis using m d dc big False c46 by (subst pton4_loop.simps) (simp add: ld_def Let_def)
    qed
  next
    case 2
    have nd: "\<not> (48 \<le> c \<and> c \<le> 57)" using 2 by simp
    show ?thesis
    proof (cases "cur = []")
      case True
      then have "quad_of (init @ [] # dot_fields [] s) = None" by (simp add: quad_of_def octet_def)
      then show ?thesis using m 2 nd True by (subst pton4_loop.simps) (simp add: ld_def)
    next
      case False
      show ?thesis
      proof (cases "octets = 4")
        case True
        then have "length init = 3" using st False by (simp add: pton_state_def)
        then have "quad_of (init @ cur # dot_fields [] s) = None"
          using dot_fields_head [of "[]" s] by (auto simp: quad_of_def)
        then show ?thesis using m 2 nd False True by (subst pton4_loop.simps) (simp add: ld_def)
      next
        case o4: False
        have "pton4_loop m (src + 1) (tmp[length init + 1 := 0]) (length init + 1) False octets =
            Some (quad_of (init @ cur # dot_fields [] s))"
          using Cons.IH [OF _ pton_state_dot [OF st False o4], of "src + 1"] m(3) by simp
        moreover have "length init + 1 < 4" using st False o4 by (auto simp: pton_state_def)
        ultimately show ?thesis
          using m 2 nd False o4 len by (subst pton4_loop.simps) (simp add: ld_def put_def)
      qed
    qed
  next
    case 3
    then have "\<not> octet (cur @ [c])" by (simp add: octet_def)
    then have "quad_of (init @ dot_fields (cur @ [c]) s) = None" by (intro quad_of_bad) simp_all
    then show ?thesis using m 3 by (subst pton4_loop.simps) (auto simp: ld_def dec_digit_def)
  qed
qed

lemma store_spec: "mapped m p (length xs) \<Longrightarrow> store m p xs = Some (wr m p xs)"
  by (induction xs arbitrary: m p) (auto simp: mapped_Suc wr_Cons)

lemma pton_state_start: "length tmp = 4 \<Longrightarrow> pton_state [] [] (tmp[0 := 0]) 0"
  by (simp add: pton_state_def take_Suc_conv_app_nth)

lemma quad_of_length: "quad_of fs = Some bs \<Longrightarrow> length bs = 4"
  by (auto simp: quad_of_def split: if_splits)

text \<open>C20: inet_pton takes a string for an address exactly when it consists of four fields separated by dots, each a
  non-empty string of decimal digits with a value of at most 255; it then stores the four values, and otherwise
  leaves the memory untouched.\<close>

theorem inet_pton_correct:
  assumes "cstr m src s" "length tmp = 4" "mapped m dst 4"
  shows "inet_pton tmp m af src dst =
    (if af \<noteq> AF_INET then Some (m, - 1, Some EAFNOSUPPORT)
     else case quad_of (dot_fields [] s) of None \<Rightarrow> Some (m, 0, None) | Some bs \<Rightarrow> Some (wr m dst bs, 1, None))"
proof -
  have "pton4_loop m src (tmp[0 := 0]) 0 False 0 = Some (quad_of (dot_fields [] s))"
    using pton4_loop_spec [OF assms(1) pton_state_start [OF assms(2)]] by simp
  then show ?thesis
    using assms quad_of_length store_spec [of m dst]
    by (auto simp: inet_pton_def inet_pton4_def put_def split: option.splits)
qed

theorem inet_pton_correct_witness:
  "let m = wr (\<lambda>_. None) 8 [49, 48, 46, 48, 46, 51, 46, 50, 53, 53, 0, 0, 0, 0, 0]
   in inet_pton [0, 0, 0, 0] m AF_INET 8 19 = Some (wr m 19 [10, 0, 3, 255], 1, None) \<and>
      inet_pton [0, 0, 0, 0] m AF_INET 11 19 = Some (m, 0, None)"
proof -
  define m :: bmem where "m = wr (\<lambda>_. None) 8 [49, 48, 46, 48, 46, 51, 46, 50, 53, 53, 0, 0, 0, 0, 0]"
  have c: "cstr m 8 [49, 48, 46, 48, 46, 51, 46, 50, 53, 53]" "cstr m 11 [48, 46, 51, 46, 50, 53, 53]" "mapped m 19 4"
    by (simp_all add: m_def cstr_simps wr_def mapped_def)
  have q: "quad_of (dot_fields [] [49, 48, 46, 48, 46, 51, 46, 50, 53, 53]) = Some [10, 0, 3, 255]"
    "quad_of (dot_fields [] [48, 46, 51, 46, 50, 53, 53]) = None"
    by (simp_all add: quad_of_def octet_def dec_digit_def dec_val_def)
  show ?thesis
    using inet_pton_correct [OF c(1) _ c(3), of "[0, 0, 0, 0]" AF_INET] inet_pton_correct [OF c(2) _ c(3), of "[0, 0, 0, 0]" AF_INET] q
    by (simp add: Let_def flip: m_def)
qed

section \<open>Decimal numbers\<close>

lemma dec_spec: "dec n \<noteq> [] \<and> (\<forall>c \<in> set (dec n). dec_digit c) \<and> dec_val (dec n) = n"
proof (induction n rule: dec.induct)
  case (1 n)
  have d: "dec_digit (48 + of_nat k)" "unat (48 + of_nat k :: byte) = 48 + k" if "k < 10" for k
  proof -
    have "unat (of_nat k :: byte) = k" using that by (simp add: unsigned_of_nat take_bit_nat_eq_self)
    then show "unat (48 + of_nat k :: byte) = 48 + k" using that by (simp add: unat_word_ariths)
    then show "dec_digit (48 + of_nat k)" using that by (simp add: dec_digit_def word_le_nat_alt)
  qed
  show ?case
  proof (cases "n < 10")
    case True
    then show ?thesis using d [OF True] dec_val_simps(2) [of "[]"] by (subst (1 2 3) dec.simps) simp
  next
    case False
    then have "dec n = dec (n div 10) @ [48 + of_nat (n mod 10)]" by (subst dec.simps) simp
    then show ?thesis using 1 False d [of "n mod 10"] by simp
  qed
qed

lemma dec_octet: "n \<le> 255 \<Longrightarrow> octet (dec n)"
  using dec_spec [of n] by (simp add: octet_def)

lemma dec_no_dot: "46 \<notin> set (dec n)" "0 \<notin> set (dec n)"
  using dec_spec [of n] by (auto simp: dec_digit_def)

lemma dot_fields_append: "46 \<notin> set f \<Longrightarrow> dot_fields cur (f @ 46 # s) = (cur @ f) # dot_fields [] s"
  by (induction f arbitrary: cur) auto

lemma dot_fields_last: "46 \<notin> set f \<Longrightarrow> dot_fields cur f = [cur @ f]"
  by (induction f arbitrary: cur) auto

lemma quad_of_text:
  assumes "length bs = 4"
  shows "quad_of (dot_fields [] (quad_text bs)) = Some bs" "0 \<notin> set (quad_text bs)"
proof -
  have le: "unat b \<le> 255" for b :: byte using unsigned_less [of b, where ?'a = nat] by simp
  obtain b0 b1 b2 b3 where "bs = [b0, b1, b2, b3]" using assms by (auto simp: length_Suc_conv numeral_eq_Suc)
  then show "quad_of (dot_fields [] (quad_text bs)) = Some bs"
    using dec_spec dec_octet [OF le] by (simp add: quad_text_def dot_fields_append dot_fields_last dec_no_dot quad_of_def)
  show "0 \<notin> set (quad_text bs)" by (simp add: quad_text_def dec_no_dot)
qed

lemma dec_length: "n \<le> 255 \<Longrightarrow> length (dec n) \<le> 3"
  by (subst dec.simps, subst dec.simps, subst dec.simps) (simp add: dec.simps)

lemma quad_text_length: "length (quad_text bs) \<le> 15"
proof -
  have le: "unat b \<le> 255" for b :: byte using unsigned_less [of b, where ?'a = nat] by simp
  show ?thesis unfolding quad_text_def
    using dec_length [OF le, of "bs ! 0"] dec_length [OF le, of "bs ! 1"] dec_length [OF le, of "bs ! 2"] dec_length [OF le, of "bs ! 3"]
    by simp
qed

section \<open>Writing and reading back\<close>

lemma uc_byte: "uc b = ucast b"
proof -
  have "(0xff :: u32) = mask 8" by (simp add: mask_eq_exp_minus_1)
  then have "uc b = take_bit 8 (scast b)" by (simp only: uc_def take_bit_eq_mask)
  moreover have "bit (take_bit 8 (scast b :: u32)) n = bit (ucast b :: u32) n" if "n < 32" for n
    using that by (cases "n = 7") (auto simp: bit_simps min_def dest: bit_imp_le_length)
  ultimately show ?thesis by (intro bit_word_eqI) simp
qed

lemma unat_uc: "unat (uc b) = unat b"
  unfolding uc_byte by (simp add: unsigned_ucast_eq take_bit_nat_eq_self unsigned_less [of b, where ?'a = nat, THEN less_trans])

text \<open>The number that \<open>strtoul\<close> reads where a byte was written.\<close>

lemma dec_head: "hd (dec n) = 48 \<longleftrightarrow> n = 0"
proof (induction n rule: dec.induct)
  case (1 n)
  show ?case
  proof (cases "n < 10")
    case True
    then have "unat (48 + of_nat n :: byte) = 48 + n" by (simp add: unat_word_ariths unsigned_of_nat take_bit_nat_eq_self)
    then have "(48 + of_nat n :: byte) = 48 \<longleftrightarrow> n = 0" by (auto simp: word_unat_eq_iff)
    then show ?thesis using True by (subst dec.simps) simp
  next
    case False
    then have "n div 10 \<noteq> 0" by simp
    then show ?thesis using 1 False dec_spec [of "n div 10"] by (subst dec.simps) simp
  qed
qed

lemma digit_dig:
  assumes "dec_digit c"
  shows "dig c = Some (unat c - 48)" "10 \<le> b \<Longrightarrow> is_dig b c"
proof -
  have "48 \<le> unat c" "unat c \<le> 57" "48 \<le> c" using assms by (simp_all add: dec_digit_def word_le_nat_alt)
  then show "dig c = Some (unat c - 48)" using assms by (simp add: dig_def num_digit_def dec_digit_def unat_sub)
  then show "10 \<le> b \<Longrightarrow> is_dig b c" using \<open>unat c \<le> 57\<close> by (simp add: is_dig_def)
qed

lemma dec_dig_val:
  assumes "\<forall>c \<in> set f. dec_digit c"
  shows "dig_val 10 0 f = dec_val f"
  using assms by (induction f rule: rev_induct) (simp_all add: digit_dig)

lemma dec_number:
  assumes "block m p (dec n @ [e])" "e = 46 \<or> e = 0"
  shows "number m p 0 [] [] [] (dec n) (if n = 0 then 8 else 10)"
proof -
  have nd: "\<not> is_dig b e" for b using is_dig_cases [of b e] assms(2) by auto
  have all: "is_dig (if n = 0 then 8 else 10) c" if "c \<in> set (dec n)" for c
    using that dec_spec [of n] digit_dig by (auto simp: dec.simps [of 0] zero_dig)
  have "digs_at m (if n = 0 then 8 else 10) (p + length ([] :: byte list)) (dec n)"
    using assms(1) all nd by (auto simp: digs_at_def block_append block_Cons)
  moreover obtain d ds where d: "dec n = d # ds" using dec_spec [of n] by (cases "dec n") auto
  moreover have "m p = Some d" using assms(1) d by (simp add: block_Cons)
  moreover have "dec_digit d" using d dec_spec [of n] by auto
  moreover have "d = 48 \<longleftrightarrow> n = 0" using dec_head [of n] d by simp
  moreover have "n = 0 \<Longrightarrow> m (p + 1) = Some e" using assms(1) by (simp add: dec.simps [of 0] block_Cons)
  ultimately show ?thesis using assms(2) is_dig_cases [of 10 d] digit_dig [of d]
    by (cases "n = 0") (auto simp: number_def num_radix_def)
qed

lemma strtol_dec:
  assumes "block m p (dec n @ [e])" "e = 46 \<or> e = 0" "n \<le> 255"
  shows "strtol True m p 0 = Some (of_nat n, Some (p + length (dec n)), None)"
proof -
  define b :: int where "b = (if n = 0 then 8 else 10)"
  note nm = dec_number [OF assms(1,2), folded b_def]
  have b: "2 \<le> b" "b \<le> 36" by (simp_all add: b_def)
  have v: "dig_val (nat b) 0 (dec n) = n"
    using dec_dig_val [of "dec n"] dec_spec [of n] by (cases "n = 0") (simp_all add: b_def dec.simps [of 0] digit_dig dec_digit_def)
  have "digs_at m b (p + length ([] @ [] @ [] :: byte list)) (dec n)" by (rule number_digs(1) [OF nm])
  then have "loop_result (p + length ([] @ [] @ [] :: byte list) + length (dec n)) False (dig_val (nat b) 0 (dec n))
      (strtol_loop m b (cutoff b) (cutlim TYPE(32) b) (p + length ([] @ [] @ [] :: byte list)) (0 :: u32) False)"
    using strtol_loop_spec [where ?'a = 32, OF _ b, of m _ "dec n" False 0] by simp
  from strtol_with_number [where loop = "\<lambda>m base s. strtol_loop m base (cutoff base) (cutlim TYPE(32) base) s 0 False", OF nm this, of True]
  show ?thesis
    using v assms(3) dec_spec [of n] by (simp add: strtol_def num_value_def)
qed

lemma dec_hd_isdigit: "isdigit (scast (hd (dec n))) \<noteq> 0"
proof -
  define c where "c = hd (dec n)"
  have "dec_digit c" using dec_spec [of n] by (cases "dec n") (auto simp: c_def)
  then have "48 \<le> unat c" "unat c \<le> 57" by (simp_all add: dec_digit_def word_le_nat_alt)
  then show ?thesis unfolding c_def [symmetric]
    using ctype_cases(2) [of "unat c"] by (simp add: isdigit_def class_byte del: of_nat_unat)
qed

lemma aton_loop_step:
  assumes "block m p (dec n @ [46, c'])" "n \<le> 255" "length parts < 3"
  shows "aton_loop m p (hd (dec n)) None parts = aton_loop m (p + length (dec n) + 1) c' None (parts @ [of_nat n])"
proof -
  have "block m p (dec n @ [46])" "m (p + length (dec n)) = Some 46" "m (Suc (p + length (dec n))) = Some c'"
    using assms(1) by (auto simp: block_append block_Cons)
  moreover have "\<not> (0xffffffff :: u32) < of_nat n"
    using unsigned_less [of "of_nat n :: u32", where ?'a = nat] by (simp add: word_less_nat_alt)
  moreover have "(of_nat n :: u32) \<noteq> 0xffffffff"
    using assms(2) by (simp add: word_unat_eq_iff unsigned_of_nat take_bit_nat_eq_self)
  ultimately show ?thesis
    using assms(2,3) strtol_dec [of m p n 46] dec_hd_isdigit [of n]
    by (subst aton_loop.simps) (simp add: ld_def Let_def)
qed

lemma aton_loop_end:
  assumes "block m p (dec n @ [0])" "n \<le> 255"
  shows "aton_loop m p (hd (dec n)) None parts = Some (Some (0, parts, of_nat n))"
proof -
  have "m (p + length (dec n)) = Some 0" using assms(1) by (simp add: block_append block_Cons)
  moreover have "\<not> (0xffffffff :: u32) < of_nat n"
    using unsigned_less [of "of_nat n :: u32", where ?'a = nat] by (simp add: word_less_nat_alt)
  moreover have "(of_nat n :: u32) \<noteq> 0xffffffff"
    using assms(2) by (simp add: word_unat_eq_iff unsigned_of_nat take_bit_nat_eq_self)
  ultimately show ?thesis
    using assms strtol_dec [of m p n 0] dec_hd_isdigit [of n]
    by (subst aton_loop.simps) (simp add: ld_def Let_def)
qed

text \<open>An address is put together from its four bytes.\<close>

lemma bytes_of_word:
  "map ucast (bytes_of a) = [take_bit 8 (drop_bit 24 a), take_bit 8 (drop_bit 16 a), take_bit 8 (drop_bit 8 a), take_bit 8 a]"
  by (auto simp: bytes_of_def bit_simps dest: bit_imp_le_length intro!: bit_word_eqI)

lemma bytes_or:
  "take_bit 8 a OR (push_bit 24 (take_bit 8 (drop_bit 24 a)) OR push_bit 16 (take_bit 8 (drop_bit 16 a)) OR
    push_bit 8 (take_bit 8 (drop_bit 8 a))) = (a :: u32)"
proof (rule bit_word_eqI)
  fix n assume n: "n < LENGTH(32)"
  then consider "n < 8" | "8 \<le> n" "n < 16" | "16 \<le> n" "n < 24" | "24 \<le> n" "n < 32" by fastforce
  then show "bit (take_bit 8 a OR (push_bit 24 (take_bit 8 (drop_bit 24 a)) OR push_bit 16 (take_bit 8 (drop_bit 16 a)) OR
    push_bit 8 (take_bit 8 (drop_bit 8 a)))) n = bit a n"
    by cases (auto simp: bit_simps)
qed

lemma byte_small: "\<not> (0xff :: u32) < take_bit 8 x"
proof -
  have "unat (take_bit 8 x) < 2 ^ 8" by (simp only: unsigned_take_bit_eq take_bit_nat_less_exp)
  then show ?thesis by (simp add: word_less_nat_alt)
qed

lemma concoct_bytes:
  "concoct [take_bit 8 (drop_bit 24 a), take_bit 8 (drop_bit 16 a), take_bit 8 (drop_bit 8 a)] (take_bit 8 a) = Some a"
  using byte_small bytes_or [of a] by (simp add: concoct_def)

lemma dec_Cons: "dec n = hd (dec n) # tl (dec n)"
  using dec_spec [of n] by simp

lemma dec_at: "block m p (dec n @ xs) \<Longrightarrow> ld m p = Some (hd (dec n))"
  using dec_Cons [of n] by (metis append_Cons block_Cons ld_def)

lemma dec_next: "block m p (dec n @ 46 # dec k @ xs) \<Longrightarrow> block m p (dec n @ [46, hd (dec k)])"
  using dec_at [of m "Suc (p + length (dec n))" k xs] by (simp add: block_append block_Cons ld_def)

lemma byte_le: "unat (b :: byte) \<le> 255"
  using unsigned_less [of b, where ?'a = nat] by simp

lemma four_bytes: "length bs = 4 \<Longrightarrow> bs = [bs ! 0, bs ! 1, bs ! 2, bs ! 3]"
  by (auto simp: length_Suc_conv numeral_eq_Suc)

lemma inet_aton_quad:
  assumes "block m p (quad_text bs @ [0])" "length bs = 4"
  shows "inet_aton m p = Some (concoct (map ucast (take 3 bs)) (ucast (bs ! 3)))"
proof -
  obtain b0 b1 b2 b3 where bs: "bs = [b0, b1, b2, b3]" using four_bytes [OF assms(2)] by blast
  let ?n = "\<lambda>i. unat (bs ! i)"
  define p1 where "p1 = p + length (dec (?n 0)) + 1"
  define p2 where "p2 = p1 + length (dec (?n 1)) + 1"
  define p3 where "p3 = p2 + length (dec (?n 2)) + 1"
  have b: "block m p (dec (?n 0) @ 46 # dec (?n 1) @ 46 # dec (?n 2) @ 46 # dec (?n 3) @ [0])"
    "block m p1 (dec (?n 1) @ 46 # dec (?n 2) @ 46 # dec (?n 3) @ [0])"
    "block m p2 (dec (?n 2) @ 46 # dec (?n 3) @ [0])" "block m p3 (dec (?n 3) @ [0])"
    using assms(1) by (simp_all add: quad_text_def block_append block_Cons p1_def p2_def p3_def)
  have "aton_loop m p (hd (dec (?n 0))) None [] = Some (Some (0, map ucast (take 3 bs), ucast (bs ! 3)))"
    using aton_loop_step [OF dec_next [OF b(1)] byte_le, of "[]"] aton_loop_step [OF dec_next [OF b(2)] byte_le, of "[ucast (bs ! 0)]"]
      aton_loop_step [OF dec_next [OF b(3)] byte_le, of "[ucast (bs ! 0), ucast (bs ! 1)]"]
      aton_loop_end [OF b(4) byte_le, of "[ucast (bs ! 0), ucast (bs ! 1), ucast (bs ! 2)]"]
    by (simp add: p1_def p2_def p3_def bs)
  then show ?thesis using dec_at [OF b(1)] by (simp add: inet_aton_def)
qed

lemma scast_small:
  assumes "unat (c :: byte) < 128"
  shows "scast c = (of_nat (unat c) :: u32)"
proof -
  have "int (unat c) < int 128" using assms by (simp only: of_nat_less_iff)
  then have "uint c < 128" by (simp only: uint_nat of_nat_numeral)
  moreover have "- 128 \<le> uint c" by (rule order_trans [OF _ uint_ge_0]) simp
  ultimately have "sint c = uint c" unfolding sint_uint by (intro signed_take_bit_int_eq_self) simp_all
  moreover have "(scast c :: u32) = word_of_int (sint c)" "(ucast c :: u32) = word_of_int (uint c)" by simp_all
  ultimately show ?thesis by (simp only: of_nat_unat)
qed

lemma network_digits_spec:
  assumes "block m p (f @ [e])" "\<forall>c \<in> set f. dec_digit c" "e = 46 \<or> e = 0"
  shows "network_digits m p 10 (of_nat v) = Some (p + length f, of_nat (foldl (\<lambda>v c. v * 10 + (unat c - 48)) v f))"
  using assms
proof (induction f arbitrary: p v)
  case Nil
  have "isdigit (scast (46 :: byte)) = 0" using ctype_cases(2) [of 46] by simp
  then show ?case using Nil by (subst network_digits.simps) (auto simp: ld_def block_Cons)
next
  case (Cons c f)
  have c: "48 \<le> unat c" "unat c \<le> 57" using Cons.prems(2) by (simp_all add: dec_digit_def word_le_nat_alt)
  have d: "isdigit (scast c) \<noteq> 0"
    using ctype_cases(2) [of "unat c"] c by (simp add: isdigit_def class_byte del: of_nat_unat)
  have "scast c = (of_nat (unat c) :: u32)" using c by (intro scast_small) simp
  then have "(scast c - 48 :: u32) = of_nat (unat c - 48)" using c by (simp del: of_nat_unat)
  then have "(of_nat v * 10 + (scast c - 48) :: u32) = of_nat (v * 10 + (unat c - 48))" by (simp del: of_nat_unat)
  moreover have "c \<noteq> 0" using c by auto
  moreover have "m p = Some c" "block m (Suc p) (f @ [e])" using Cons.prems by (simp_all add: block_Cons)
  ultimately show ?case
    using d Cons.IH [of "Suc p" "v * 10 + (unat c - 48)"] Cons.prems
    by (subst network_digits.simps) (simp add: ld_def)
qed

lemma network_start:
  assumes "block m p (dec n @ e # xs)" "n \<le> 255" "e = 46 \<or> e = 0"
  shows "network_parts m p parts =
    (if e = 46 then (if length parts \<ge> 4 then Some None
       else network_parts m (p + length (dec n) + 1) (parts @ [of_nat n]))
     else Some (Some (p + length (dec n), parts, of_nat n)))"
proof (cases "n = 0")
  case True
  have "isdigit (scast (46 :: byte)) = 0" using ctype_cases(2) [of 46] by simp
  moreover have "m p = Some 48" "m (Suc p) = Some e" using assms(1) True by (simp_all add: dec.simps [of 0] block_Cons)
  moreover have "network_digits m (Suc p) 8 0 = Some (Suc p, 0)"
    using calculation assms(3) by (subst network_digits.simps) (auto simp: ld_def)
  ultimately show ?thesis using True assms(3)
    by (subst network_parts.simps) (auto simp: ld_def dec.simps [of 0])
next
  case False
  obtain d ds where d: "dec n = d # ds" using dec_Cons by blast
  have "dec_digit d" "d \<noteq> 48" using dec_spec [of n] dec_head [of n] d False by auto
  moreover have "m p = Some d" using assms(1) d by (simp add: block_Cons)
  moreover have "d \<noteq> 120 \<and> d \<noteq> 88" using \<open>dec_digit d\<close> by (auto simp: dec_digit_def)
  moreover have "network_digits m p 10 0 = Some (p + length (dec n), of_nat n)"
    using network_digits_spec [of m p "dec n" e 0] assms dec_spec [of n] by (simp add: block_append block_Cons dec_val_def)
  moreover have "m (p + length (dec n)) = Some e" using assms(1) by (simp add: block_append block_Cons)
  ultimately show ?thesis using assms(3)
    by (subst network_parts.simps) (auto simp: ld_def)
qed

lemma network_or:
  "foldl (\<lambda>v p. push_bit 8 v OR (p AND 0xff)) 0
    [take_bit 8 (drop_bit 24 a), take_bit 8 (drop_bit 16 a), take_bit 8 (drop_bit 8 a), take_bit 8 a] = (a :: u32)"
proof -
  have m: "x AND 0xff = take_bit 8 x" for x :: u32 by (simp add: take_bit_eq_mask mask_eq_exp_minus_1)
  show ?thesis
  proof (rule bit_word_eqI)
    fix n assume n: "n < LENGTH(32)"
    then consider "n < 8" | "8 \<le> n" "n < 16" | "16 \<le> n" "n < 24" | "24 \<le> n" "n < 32" by fastforce
    then show "bit (foldl (\<lambda>v p. push_bit 8 v OR (p AND 0xff)) 0
        [take_bit 8 (drop_bit 24 a), take_bit 8 (drop_bit 16 a), take_bit 8 (drop_bit 8 a), take_bit 8 a]) n = bit a n"
      unfolding m by cases (auto simp: bit_simps)
  qed
qed

lemma inet_network_quad:
  assumes "block m p (quad_text bs @ [0])" "length bs = 4"
  shows "inet_network m p = Some (foldl (\<lambda>v p. push_bit 8 v OR (p AND 0xff)) 0 (map ucast bs))"
proof -
  obtain b0 b1 b2 b3 where bs: "bs = [b0, b1, b2, b3]" using four_bytes [OF assms(2)] by blast
  let ?n = "\<lambda>i. unat (bs ! i)"
  define p1 where "p1 = p + length (dec (?n 0)) + 1"
  define p2 where "p2 = p1 + length (dec (?n 1)) + 1"
  define p3 where "p3 = p2 + length (dec (?n 2)) + 1"
  have b: "block m p (dec (?n 0) @ 46 # dec (?n 1) @ 46 # dec (?n 2) @ 46 # dec (?n 3) @ [0])"
    "block m p1 (dec (?n 1) @ 46 # dec (?n 2) @ 46 # dec (?n 3) @ [0])"
    "block m p2 (dec (?n 2) @ 46 # dec (?n 3) @ [0])" "block m p3 (dec (?n 3) @ [0])"
    using assms(1) by (simp_all add: quad_text_def block_append block_Cons p1_def p2_def p3_def)
  have e: "m (p3 + length (dec (?n 3))) = Some 0" using b(4) by (simp add: block_append block_Cons)
  have "network_parts m p [] = Some (Some (p3 + length (dec (?n 3)), map ucast (take 3 bs), ucast (bs ! 3)))"
    using network_start [OF b(1) byte_le] network_start [OF b(2) byte_le] network_start [OF b(3) byte_le] network_start [OF b(4) byte_le]
    by (simp add: p1_def p2_def p3_def bs)
  then show ?thesis using e by (simp add: inet_network_def ld_def bs)
qed

text \<open>Five parts are one too many for the array, and the check comes after the store.\<close>

lemma inet_network_five:
  assumes "block m p (dec n0 @ 46 # dec n1 @ 46 # dec n2 @ 46 # dec n3 @ 46 # dec n4 @ [0])"
    "n0 \<le> 255" "n1 \<le> 255" "n2 \<le> 255" "n3 \<le> 255" "n4 \<le> 255"
  shows "inet_network m p = None"
proof -
  define p1 where "p1 = p + length (dec n0) + 1"
  define p2 where "p2 = p1 + length (dec n1) + 1"
  define p3 where "p3 = p2 + length (dec n2) + 1"
  define p4 where "p4 = p3 + length (dec n3) + 1"
  have b: "block m p1 (dec n1 @ 46 # dec n2 @ 46 # dec n3 @ 46 # dec n4 @ [0])" "block m p2 (dec n2 @ 46 # dec n3 @ 46 # dec n4 @ [0])"
    "block m p3 (dec n3 @ 46 # dec n4 @ [0])" "block m p4 (dec n4 @ [0])" "m (p4 + length (dec n4)) = Some 0"
    using assms(1) by (simp_all add: block_append block_Cons p1_def p2_def p3_def p4_def)
  have "network_parts m p [] = Some (Some (p4 + length (dec n4), [of_nat n0, of_nat n1, of_nat n2, of_nat n3], of_nat n4))"
    using network_start [OF assms(1,2)] network_start [OF b(1) assms(3)] network_start [OF b(2) assms(4)]
      network_start [OF b(3) assms(5)] network_start [OF b(4) assms(6)]
    by (simp add: p1_def p2_def p3_def p4_def)
  then show ?thesis using b(5) by (simp add: inet_network_def ld_def)
qed

text \<open>inet_neta leaves out the zero bytes inside a network number, and so writes the same text for two numbers.\<close>

lemma inet_neta_same_text:
  assumes "mapped m p 8" "a = 0x0a000100 \<or> a = 0x0a010000"
  shows "\<exists>m'. inet_neta m a p 8 = Some (m', p, None) \<and> cstr m' p [49, 48, 46, 49]"
proof -
  have mp: "m p \<noteq> None" "m (Suc p) \<noteq> None" "m (Suc (Suc p)) \<noteq> None" "m (Suc (Suc (Suc p))) \<noteq> None" "m (Suc (Suc (Suc (Suc p)))) \<noteq> None"
    using assms(1) by (simp_all add: mapped_Suc numeral_eq_Suc)
  have d: "dec 10 = [49, 48]" "dec 1 = [49]" by (simp_all add: dec.simps)
  have e: "neta_loop m' 0 q z = Some (m', Some (q, z))" for m' q z by (subst neta_loop.simps) simp
  have l: "\<exists>m'. neta_loop m 0x0a010000 p 8 = Some (m', Some (p + 4, 4)) \<and> cstr m' p [49, 48, 46, 49]"
    "\<exists>m'. neta_loop m 0x0a000100 p 8 = Some (m', Some (p + 4, 4)) \<and> cstr m' p [49, 48, 46, 49]"
    using mp d by (subst neta_loop.simps, subst neta_loop.simps, (subst neta_loop.simps)?, simp add: e Let_def cstr_simps)+
  then show ?thesis using assms(2) by (auto simp: inet_neta_def)
qed

section \<open>Properties\<close>

text \<open>C26: The text that inet_ntoa makes of an address is read back to the same address by inet_aton, inet_addr and
  inet_network, for every address; the text never exceeds its static buffer.\<close>

theorem inet_ntoa_round_trip:
  assumes "mapped m b 18"
  shows "\<exists>m'. inet_ntoa b m a = Some (m', b) \<and> cstr m' b (quad_text (bytes_of a)) \<and>
    inet_aton m' b = Some (Some a) \<and> inet_addr m' b = Some a \<and> inet_network m' b = Some a"
proof -
  let ?t = "quad_text (bytes_of a)"
  let ?m = "wr m b (?t @ [0])"
  have len: "length (bytes_of a) = 4" by (simp add: bytes_of_def)
  have "mapped m b (length (?t @ [0]))" using quad_text_length [of "bytes_of a"] by (intro mapped_le [OF assms]) simp
  then have "inet_ntoa b m a = Some (?m, b)"
    using store_spec [of m b "?t @ [0]"] by (simp add: inet_ntoa_def unat_uc quad_text_def)
  moreover have c: "cstr ?m b ?t" using quad_of_text(2) [OF len] by (simp add: cstr_def)
  moreover have "take 3 (map ucast (bytes_of a)) = [take_bit 8 (drop_bit 24 a), take_bit 8 (drop_bit 16 a), take_bit 8 (drop_bit 8 a)]"
    "ucast (bytes_of a ! 3) = take_bit 8 a"
    using bytes_of_word [of a] by (simp_all add: bytes_of_def)
  then have "inet_aton ?m b = Some (Some a)"
    using inet_aton_quad [OF cstr_terminated [OF c] len] concoct_bytes [of a] by (simp add: take_map)
  moreover have "inet_network ?m b = Some a"
    using inet_network_quad [OF cstr_terminated [OF c] len] network_or [of a] by (simp only: bytes_of_word)
  ultimately show ?thesis by (simp add: inet_addr_def)
qed

theorem inet_ntoa_round_trip_witness:
  "\<exists>m'. inet_ntoa 8 (wr (\<lambda>_. None) 8 (replicate 18 0)) 0xC0A80001 = Some (m', 8) \<and> inet_aton m' 8 = Some (Some 0xC0A80001)"
  using inet_ntoa_round_trip [of "wr (\<lambda>_. None) 8 (replicate 18 0)" 8 "0xC0A80001"] by (auto simp: mapped_def wr_def)

text \<open>A copy into an object that has no room for the final zero runs out of it.\<close>

lemma copy_string_overrun:
  assumes "cstr m q s" "m (p + length s) = None" "disjnt_rng p (length s) q (Suc (length s))"
  shows "copy_string m p q = None"
  using assms
proof (induction s arbitrary: m p q)
  case Nil
  then show ?case by (subst copy_string.simps) (simp add: cstr_Nil ld_def st_def)
next
  case (Cons c s)
  show ?case
  proof (cases "m p")
    case None
    then show ?thesis using Cons.prems by (subst copy_string.simps) (simp add: cstr_Cons ld_def st_def)
  next
    case (Some d)
    have "cstr (m(p \<mapsto> c)) (Suc q) s"
      using Cons.prems cstr_wr_disjnt [of p "[c]" "Suc q" s m] by (auto simp: cstr_Cons wr_Cons disjnt_rng_def)
    moreover have "(m(p \<mapsto> c)) (Suc p + length s) = None" using Cons.prems by simp
    moreover have "disjnt_rng (Suc p) (length s) (Suc q) (Suc (length s))" using Cons.prems(3) by (auto simp: disjnt_rng_def)
    ultimately have "copy_string (m(p \<mapsto> c)) (Suc p) (Suc q) = None" by (rule Cons.IH)
    then show ?thesis using Cons.prems Some by (subst copy_string.simps) (simp add: cstr_Cons ld_def del: fun_upd_apply)
  qed
qed

lemma inet_ntop_cases:
  assumes "block m src bs" "length bs = 4" "mapped m tmp 16" "mapped m dst (unat sz)" "disjnt_rng tmp 16 dst (unat sz)" "tmp \<noteq> 0"
  defines "t \<equiv> quad_text bs"
  shows "unat sz < length t \<Longrightarrow> inet_ntop tmp m AF_INET src dst sz = Some (wr m tmp (t @ [0]), null, Some ENOSPC)"
    and "length t < unat sz \<Longrightarrow> inet_ntop tmp m AF_INET src dst sz = Some (wr (wr m tmp (t @ [0])) dst (t @ [0]), dst, None)"
    and "length t < unat sz \<Longrightarrow> length arr = 4 \<Longrightarrow> mapped m' dst' 4 \<Longrightarrow> block m' dst (t @ [0]) \<Longrightarrow>
      inet_pton arr m' AF_INET dst dst' = Some (wr m' dst' bs, 1, None)"
    and "unat sz = length t \<Longrightarrow> m (dst + unat sz) = None \<Longrightarrow> dst + unat sz < tmp \<or> tmp + 16 \<le> dst + unat sz \<Longrightarrow>
      inet_ntop tmp m AF_INET src dst sz = None"
proof -
  have len: "length t \<le> 15" by (simp add: t_def quad_text_length)
  let ?m = "wr m tmp (t @ [0])"
  obtain b0 b1 b2 b3 where bs: "bs = [b0, b1, b2, b3]" using four_bytes [OF assms(2)] by blast
  have "load4 m src = Some bs" using assms(1) by (simp add: bs load4_def ld_def block_Cons numeral_eq_Suc)
  moreover have "store m tmp (t @ [0]) = Some ?m" using len by (intro store_spec mapped_le [OF assms(3)]) simp
  moreover have n: "unat (of_nat (length t) :: u32) = length t" using len by (simp add: unsigned_of_nat take_bit_nat_eq_self)
  ultimately have run: "inet_ntop tmp m AF_INET src dst sz =
      (if unat sz < length t then Some (?m, null, Some ENOSPC) else do { (m, r) \<leftarrow> strcpy ?m dst tmp; Some (m, r, None) })"
    by (simp add: inet_ntop_def inet_ntop4_def word_less_nat_alt flip: t_def)
  have c: "cstr ?m tmp t" using quad_of_text(2) [OF assms(2)] by (simp add: cstr_def t_def)
  show "unat sz < length t \<Longrightarrow> inet_ntop tmp m AF_INET src dst sz = Some (?m, null, Some ENOSPC)" using run by simp
  have "inet_ntop tmp m AF_INET src dst sz = Some (wr ?m dst (t @ [0]), dst, None)" if l: "length t < unat sz"
  proof -
    have "mapped ?m dst (Suc (length t))" using l by (intro mapped_wr mapped_le [OF assms(4)]) simp
    moreover have "up_ok dst tmp (Suc (length t))" using assms(5) l len by (auto simp: up_ok_def disjnt_rng_def)
    ultimately have "strcpy ?m dst tmp = Some (wr ?m dst (t @ [0]), dst)" by (intro strcpy_spec [OF c assms(6)])
    then show ?thesis using run l by simp
  qed
  then show "length t < unat sz \<Longrightarrow> inet_ntop tmp m AF_INET src dst sz = Some (wr ?m dst (t @ [0]), dst, None)" .
  show "inet_pton arr m' AF_INET dst dst' = Some (wr m' dst' bs, 1, None)"
    if "length arr = 4" "mapped m' dst' 4" "block m' dst (t @ [0])"
  proof -
    have "cstr m' dst t" using that(3) quad_of_text(2) [OF assms(2)] by (simp add: cstr_def t_def)
    then have "pton4_loop m' dst (arr[0 := 0]) 0 False 0 = Some (Some bs)"
      using pton4_loop_spec [OF _ pton_state_start [OF that(1)], of m' dst t] quad_of_text(1) [OF assms(2)] by (simp add: t_def)
    then show ?thesis using that store_spec [of m' dst' bs] assms(2) by (simp add: inet_pton_def inet_pton4_def put_def)
  qed
  show "inet_ntop tmp m AF_INET src dst sz = None"
    if "unat sz = length t" "m (dst + unat sz) = None" "dst + unat sz < tmp \<or> tmp + 16 \<le> dst + unat sz"
  proof -
    have "?m (dst + length t) = None" using that len by (subst wr_apply_out) auto
    moreover have "disjnt_rng dst (length t) tmp (Suc (length t))" using assms(5) len that(1) by (auto simp: disjnt_rng_def)
    ultimately have "strcpy ?m dst tmp = None" using copy_string_overrun [OF c] assms(6) by (simp add: strcpy_def null_def)
    then show ?thesis using run that(1) by simp
  qed
qed

text \<open>C35: inet_ntop reports ENOSPC when the object is smaller than the text, and stores the text when it is larger, in
  which case inet_pton reads the four bytes back; when the size is exactly the length of the text the final zero goes
  past the end of the object.\<close>

theorem inet_ntop_correct:
  assumes "block m src bs" "length bs = 4" "mapped m tmp 16" "mapped m dst (unat sz)" "disjnt_rng tmp 16 dst (unat sz)" "tmp \<noteq> 0"
  shows "let t = quad_text bs; m1 = wr m tmp (t @ [0]); m2 = wr m1 dst (t @ [0]); r = inet_ntop tmp m AF_INET src dst sz in
    (unat sz < length t \<longrightarrow> r = Some (m1, null, Some ENOSPC)) \<and>
    (length t < unat sz \<longrightarrow> r = Some (m2, dst, None) \<and>
      (\<forall>arr dst'. length arr = 4 \<and> mapped m2 dst' 4 \<longrightarrow> inet_pton arr m2 AF_INET dst dst' = Some (wr m2 dst' bs, 1, None))) \<and>
    (unat sz = length t \<and> m (dst + unat sz) = None \<and> (dst + unat sz < tmp \<or> tmp + 16 \<le> dst + unat sz) \<longrightarrow> r = None)"
proof -
  note c = inet_ntop_cases [OF assms]
  show ?thesis unfolding Let_def by (intro conjI impI allI; (elim conjE)?; rule c) simp_all
qed

theorem inet_ntop_correct_witness:
  "let m = wr (wr (wr (\<lambda>_. None) 8 [10, 0, 0, 255]) 16 (replicate 16 0)) 40 (replicate 10 0)
   in inet_ntop 16 m AF_INET 8 40 10 = None \<and> inet_ntop 16 m AF_INET 8 40 3 = Some (wr m 16 (quad_text [10, 0, 0, 255] @ [0]), null, Some ENOSPC)"
proof -
  define m :: bmem where "m = wr (wr (wr (\<lambda>_. None) 8 [10, 0, 0, 255]) 16 (replicate 16 0)) 40 (replicate 10 0)"
  have len: "length (quad_text [10, 0, 0, 255]) = 10" by (simp add: quad_text_def dec.simps)
  have b: "block m 8 [10, 0, 0, 255]" "mapped m 16 16" "m (40 + 10) = None"
    by (simp_all add: m_def block_Cons wr_def mapped_def)
  have d: "mapped m 40 (unat (10 :: u32))" "mapped m 40 (unat (3 :: u32))" by (simp_all add: m_def mapped_def wr_def)
  show ?thesis
    using inet_ntop_correct [OF b(1) _ b(2) d(1)] inet_ntop_correct [OF b(1) _ b(2) d(2)] b(3) len
    by (simp add: disjnt_rng_def Let_def flip: m_def)
qed

section \<open>Network and host numbers\<close>

lemma IN_CLASSA_small: "IN_CLASSA a \<longleftrightarrow> unat a < 2 ^ 31"
proof -
  have "(0x80000000 :: u32) = 2 ^ 31" by simp
  then have "IN_CLASSA a \<longleftrightarrow> \<not> bit a 31" by (simp only: IN_CLASSA_def and_exp_eq_0_iff_not_bit)
  also have "bit a 31 \<longleftrightarrow> odd (unat a div 2 ^ 31)" using bit_unsigned_iff [of a 31, where ?'a = nat] by (simp add: bit_iff_odd)
  also have "\<dots> \<longleftrightarrow> \<not> unat a < 2 ^ 31"
  proof -
    have "unat a div 2 ^ 31 < 2" using unsigned_less [of a, where ?'a = nat] by (simp add: div_less_iff_less_mult)
    then have "unat a div 2 ^ 31 = 0 \<or> unat a div 2 ^ 31 = 1" by arith
    then show ?thesis by (auto simp: div_eq_0_iff)
  qed
  finally show ?thesis by simp
qed

text \<open>The three shifts: the number of bits of the host part, its mask and the mask of the network part.\<close>

lemma split_join:
  fixes a :: u32
  assumes "n \<le> 32" "net = push_bit n (mask (32 - n))" "host = mask n"
  shows "drop_bit n (a AND net) = drop_bit n a" "push_bit n (drop_bit n (a AND net)) OR (a AND host) = a"
proof -
  have l: "bit a k \<Longrightarrow> k < 32" for k by (drule bit_imp_le_length) simp
  have "bit (drop_bit n (a AND net)) k = bit (drop_bit n a) k" for k
    using assms(1) l [of "n + k"] by (auto simp: bit_simps assms(2))
  then show d: "drop_bit n (a AND net) = drop_bit n a" by (intro bit_word_eqI)
  have "bit (push_bit n (drop_bit n (a AND net)) OR (a AND host)) k = bit a k" for k
    unfolding d using l [of k] by (auto simp: bit_simps assms(3))
  then show "push_bit n (drop_bit n (a AND net)) OR (a AND host) = a" by (intro bit_word_eqI)
qed

lemma netof_value:
  fixes a :: u32
  shows "unat (drop_bit n a) = unat a div 2 ^ n"
  using take_bit_nat_eq_self [OF unsigned_less [of a, where ?'a = nat]]
  by (simp only: unsigned_drop_bit_eq) (simp add: drop_bit_eq_div)

text \<open>Every address is put together again by inet_makeaddr from the network number that inet_netof and the host
  number that inet_lnaof split it into, in every class.\<close>

theorem inet_makeaddr_split: "inet_makeaddr (inet_netof a) (inet_lnaof a) = a"
proof -
  have masks: "IN_CLASSA_NET = push_bit 24 (mask (32 - 24))" "IN_CLASSA_HOST = mask 24"
    "IN_CLASSB_NET = push_bit 16 (mask (32 - 16))" "IN_CLASSB_HOST = mask 16"
    "IN_CLASSC_NET = push_bit 8 (mask (32 - 8))" "IN_CLASSC_HOST = mask 8"
    by (simp_all add: mask_eq_exp_minus_1)
  note A = split_join [of 24, OF _ masks(1,2)] and B = split_join [of 16, OF _ masks(3,4)] and C = split_join [of 8, OF _ masks(5,6)]
  have lim: "unat a < 2 ^ 32" using unsigned_less [of a, where ?'a = nat] by simp
  have again: "x AND IN_CLASSA_HOST AND IN_CLASSA_HOST = x AND IN_CLASSA_HOST" for x by (simp add: and.assoc)
  consider "IN_CLASSA a" | "\<not> IN_CLASSA a" "IN_CLASSB a" | "\<not> IN_CLASSA a" "\<not> IN_CLASSB a" by blast
  then show ?thesis
  proof cases
    case 1
    then have "unat a div 2 ^ 24 < 128" unfolding IN_CLASSA_small by (simp add: div_less_iff_less_mult)
    then have "drop_bit 24 a < 128" by (simp add: word_less_nat_alt netof_value)
    then show ?thesis using 1 A by (simp add: inet_makeaddr_def inet_netof_def inet_lnaof_def and.assoc)
  next
    case 2
    then have "2 ^ 31 \<le> unat a" by (simp add: IN_CLASSA_small)
    then have "128 \<le> unat a div 2 ^ 16" "unat a div 2 ^ 16 < 65536" using lim by (simp_all add: div_less_iff_less_mult less_eq_div_iff_mult_less_eq)
    then have "\<not> drop_bit 16 a < 128" "drop_bit 16 a < 65536" by (simp_all add: word_less_nat_alt netof_value)
    then show ?thesis using 2 B by (simp add: inet_makeaddr_def inet_netof_def inet_lnaof_def and.assoc)
  next
    case 3
    then have "2 ^ 31 \<le> unat a" by (simp add: IN_CLASSA_small)
    then have "65536 \<le> unat a div 2 ^ 8" "unat a div 2 ^ 8 < 16777216" using lim by (simp_all add: div_less_iff_less_mult less_eq_div_iff_mult_less_eq)
    then have "\<not> drop_bit 8 a < 128" "\<not> drop_bit 8 a < 65536" "drop_bit 8 a < 16777216" by (simp_all add: word_less_nat_alt netof_value)
    then show ?thesis using 3 C by (simp add: inet_makeaddr_def inet_netof_def inet_lnaof_def and.assoc)
  qed
qed

end
