(* ===== verification/Md5.thy ===== *)
theory Md5
  imports CMem
begin

text \<open>
  MD5 message digests (\<open>crypt/md5.c\<close>): the context with its internal buffer of 128 bytes, the block function, the
  three functions that feed and finish a digest, and the ones for a whole buffer and a whole stream.

  The bytes at a pointer argument are a list, and its length is the argument \<open>len\<close>; copies into the internal
  buffer are bounded by its size (\<open>None\<close> beyond it). Two counters of 32 bits hold the number of bytes, so their
  arithmetic wraps. The system is big endian, so that \<open>SWAP\<close> reverses the bytes of a word.
\<close>

section \<open>The context\<close>

record md5_ctx =
  md5_A :: u32
  md5_B :: u32
  md5_C :: u32
  md5_D :: u32
  total0 :: u32
  total1 :: u32
  buflen :: u32
  buffer :: "byte list"

definition SWAP :: "u32 \<Rightarrow> u32" where
  "SWAP n = push_bit 24 n OR push_bit 8 (n AND 0xff00) OR (drop_bit 8 n AND 0xff00) OR drop_bit 24 n"

definition fillbuf :: "byte list" where
  "fillbuf = 0x80 # replicate 63 0"

definition md5_init_ctx :: "md5_ctx \<Rightarrow> md5_ctx" where
  "md5_init_ctx ctx = ctx\<lparr>md5_A := 0x67452301, md5_B := 0xefcdab89, md5_C := 0x98badcfe, md5_D := 0x10325476,
    total0 := 0, total1 := 0, buflen := 0\<rparr>"

text \<open>A word and its four bytes in memory.\<close>

definition word_be :: "byte list \<Rightarrow> u32" where
  "word_be bs = push_bit 24 (ucast (bs ! 0)) OR push_bit 16 (ucast (bs ! 1)) OR push_bit 8 (ucast (bs ! 2)) OR ucast (bs ! 3)"

definition bytes_be :: "u32 \<Rightarrow> byte list" where
  "bytes_be w = [ucast (drop_bit 24 w), ucast (drop_bit 16 w), ucast (drop_bit 8 w), ucast w]"

definition md5_read_ctx :: "md5_ctx \<Rightarrow> byte list" where
  "md5_read_ctx ctx =
    bytes_be (SWAP (md5_A ctx)) @ bytes_be (SWAP (md5_B ctx)) @ bytes_be (SWAP (md5_C ctx)) @ bytes_be (SWAP (md5_D ctx))"

section \<open>The block function\<close>

definition FF :: "u32 \<Rightarrow> u32 \<Rightarrow> u32 \<Rightarrow> u32" where "FF b c d = d XOR (b AND (c XOR d))"
definition FG :: "u32 \<Rightarrow> u32 \<Rightarrow> u32 \<Rightarrow> u32" where "FG b c d = FF d b c"
definition FH :: "u32 \<Rightarrow> u32 \<Rightarrow> u32 \<Rightarrow> u32" where "FH b c d = b XOR c XOR d"
definition FI :: "u32 \<Rightarrow> u32 \<Rightarrow> u32 \<Rightarrow> u32" where "FI b c d = c XOR (b OR NOT d)"

definition CYCLIC :: "u32 \<Rightarrow> nat \<Rightarrow> u32" where
  "CYCLIC w s = push_bit s w OR drop_bit (32 - s) w"

text \<open>The 64 operations in the order of the code: function, word, rotation and constant. In the code their first
  four arguments are \<open>A, B, C, D\<close>, then \<open>D, A, B, C\<close>, and so on in turn.\<close>

definition md5_ops :: "((u32 \<Rightarrow> u32 \<Rightarrow> u32 \<Rightarrow> u32) \<times> nat \<times> nat \<times> u32) list" where
  "md5_ops =
    [(FF, 0, 7, 0xd76aa478), (FF, 1, 12, 0xe8c7b756), (FF, 2, 17, 0x242070db), (FF, 3, 22, 0xc1bdceee),
     (FF, 4, 7, 0xf57c0faf), (FF, 5, 12, 0x4787c62a), (FF, 6, 17, 0xa8304613), (FF, 7, 22, 0xfd469501),
     (FF, 8, 7, 0x698098d8), (FF, 9, 12, 0x8b44f7af), (FF, 10, 17, 0xffff5bb1), (FF, 11, 22, 0x895cd7be),
     (FF, 12, 7, 0x6b901122), (FF, 13, 12, 0xfd987193), (FF, 14, 17, 0xa679438e), (FF, 15, 22, 0x49b40821),
     (FG, 1, 5, 0xf61e2562), (FG, 6, 9, 0xc040b340), (FG, 11, 14, 0x265e5a51), (FG, 0, 20, 0xe9b6c7aa),
     (FG, 5, 5, 0xd62f105d), (FG, 10, 9, 0x02441453), (FG, 15, 14, 0xd8a1e681), (FG, 4, 20, 0xe7d3fbc8),
     (FG, 9, 5, 0x21e1cde6), (FG, 14, 9, 0xc33707d6), (FG, 3, 14, 0xf4d50d87), (FG, 8, 20, 0x455a14ed),
     (FG, 13, 5, 0xa9e3e905), (FG, 2, 9, 0xfcefa3f8), (FG, 7, 14, 0x676f02d9), (FG, 12, 20, 0x8d2a4c8a),
     (FH, 5, 4, 0xfffa3942), (FH, 8, 11, 0x8771f681), (FH, 11, 16, 0x6d9d6122), (FH, 14, 23, 0xfde5380c),
     (FH, 1, 4, 0xa4beea44), (FH, 4, 11, 0x4bdecfa9), (FH, 7, 16, 0xf6bb4b60), (FH, 10, 23, 0xbebfbc70),
     (FH, 13, 4, 0x289b7ec6), (FH, 0, 11, 0xeaa127fa), (FH, 3, 16, 0xd4ef3085), (FH, 6, 23, 0x04881d05),
     (FH, 9, 4, 0xd9d4d039), (FH, 12, 11, 0xe6db99e5), (FH, 15, 16, 0x1fa27cf8), (FH, 2, 23, 0xc4ac5665),
     (FI, 0, 6, 0xf4292244), (FI, 7, 10, 0x432aff97), (FI, 14, 15, 0xab9423a7), (FI, 5, 21, 0xfc93a039),
     (FI, 12, 6, 0x655b59c3), (FI, 3, 10, 0x8f0ccc92), (FI, 10, 15, 0xffeff47d), (FI, 1, 21, 0x85845dd1),
     (FI, 8, 6, 0x6fa87e4f), (FI, 15, 10, 0xfe2ce6e0), (FI, 6, 15, 0xa3014314), (FI, 13, 21, 0x4e0811a1),
     (FI, 4, 6, 0xf7537e82), (FI, 11, 10, 0xbd3af235), (FI, 2, 15, 0x2ad7d2bb), (FI, 9, 21, 0xeb86d391)]"

type_synonym md5_regs = "u32 \<times> u32 \<times> u32 \<times> u32"

text \<open>One operation on its registers; the result has them in the order of the next operation.\<close>

definition md5_op :: "u32 list \<Rightarrow> (u32 \<Rightarrow> u32 \<Rightarrow> u32 \<Rightarrow> u32) \<times> nat \<times> nat \<times> u32 \<Rightarrow> md5_regs \<Rightarrow> md5_regs" where
  "md5_op correct_words = (\<lambda>(f, k, s, T) (a, b, c, d).
    let a = a + (f b c d + correct_words ! k + T);
        a = CYCLIC a s;
        a = a + b
    in (d, a, b, c))"

text \<open>The body of the loop on the 64 bytes at \<open>words\<close>.\<close>

definition md5_block :: "byte list \<Rightarrow> md5_regs \<Rightarrow> md5_regs" where
  "md5_block words = (\<lambda>(A_save, B_save, C_save, D_save).
    let correct_words = map (\<lambda>i. SWAP (word_be (take 4 (drop (4 * i) words)))) [0..<16];
        (A, B, C, D) = fold (md5_op correct_words) md5_ops (A_save, B_save, C_save, D_save)
    in (A + A_save, B + B_save, C + C_save, D + D_save))"

function md5_blocks :: "byte list \<Rightarrow> md5_regs \<Rightarrow> md5_regs option" where
  "md5_blocks words r =
    (if words = [] then Some r
     else if length words < 64 then None
     else md5_blocks (drop 64 words) (md5_block (take 64 words) r))"
  by pat_completeness auto
termination by (relation "measure (length \<circ> fst)") auto

definition add_total :: "u32 \<Rightarrow> md5_ctx \<Rightarrow> md5_ctx" where
  "add_total n ctx =
    (let ctx = ctx\<lparr>total0 := total0 ctx + n\<rparr>
     in if total0 ctx < n then ctx\<lparr>total1 := total1 ctx + 1\<rparr> else ctx)"

definition md5_process_block :: "byte list \<Rightarrow> md5_ctx \<Rightarrow> md5_ctx option" where
  "md5_process_block buf ctx =
    (let ctx = add_total (of_nat (length buf)) ctx
     in do { (A, B, C, D) \<leftarrow> md5_blocks buf (md5_A ctx, md5_B ctx, md5_C ctx, md5_D ctx);
             Some (ctx\<lparr>md5_A := A, md5_B := B, md5_C := C, md5_D := D\<rparr>) })"

section \<open>Feeding and finishing\<close>

text \<open>\<open>put_buffer\<close> is the \<open>memcpy\<close> into the internal buffer.\<close>

definition put_buffer :: "nat \<Rightarrow> byte list \<Rightarrow> md5_ctx \<Rightarrow> md5_ctx option" where
  "put_buffer off xs ctx =
    (if off + length xs \<le> length (buffer ctx)
     then Some (ctx\<lparr>buffer := take off (buffer ctx) @ xs @ drop (off + length xs) (buffer ctx)\<rparr>) else None)"

definition md5_finish_ctx :: "md5_ctx \<Rightarrow> (md5_ctx \<times> byte list) option" where
  "md5_finish_ctx ctx =
    (let bytes = buflen ctx;
         ctx = add_total bytes ctx;
         pad = (if bytes \<ge> 56 then 64 + 56 - bytes else 56 - bytes)
     in do { ctx \<leftarrow> put_buffer (unat bytes) (take (unat pad) fillbuf) ctx;
             ctx \<leftarrow> put_buffer (unat (bytes + pad)) (bytes_be (SWAP (push_bit 3 (total0 ctx)))) ctx;
             ctx \<leftarrow> put_buffer (unat (bytes + pad + 4))
               (bytes_be (SWAP (push_bit 3 (total1 ctx) OR drop_bit 29 (total0 ctx)))) ctx;
             ctx \<leftarrow> md5_process_block (take (unat (bytes + pad + 8)) (buffer ctx)) ctx;
             Some (ctx, md5_read_ctx ctx) })"

text \<open>The three parts of \<open>md5_process_bytes\<close>.\<close>

definition fill_up :: "byte list \<Rightarrow> md5_ctx \<Rightarrow> (byte list \<times> md5_ctx) option" where
  "fill_up buf ctx =
    (if buflen ctx \<noteq> 0 then
       (let left_over = unat (buflen ctx);
            add = (if 128 - left_over > length buf then length buf else 128 - left_over)
        in do { ctx \<leftarrow> put_buffer left_over (take add buf) ctx;
                let ctx = ctx\<lparr>buflen := buflen ctx + of_nat add\<rparr>; n = left_over + add in
                do { ctx \<leftarrow> (if n > 64 then
                         do { ctx \<leftarrow> md5_process_block (take (n - n mod 64) (buffer ctx)) ctx;
                              ctx \<leftarrow> put_buffer 0 (take (n mod 64) (drop (n - n mod 64) (buffer ctx))) ctx;
                              Some (ctx\<lparr>buflen := of_nat (n mod 64)\<rparr>) }
                       else Some ctx);
                     Some (drop add buf, ctx) } })
     else Some (buf, ctx))"

definition whole_blocks :: "byte list \<Rightarrow> md5_ctx \<Rightarrow> (byte list \<times> md5_ctx) option" where
  "whole_blocks buf ctx =
    (let len = length buf in
     if len > 64 then do { ctx \<leftarrow> md5_process_block (take (len - len mod 64) buf) ctx; Some (drop (len - len mod 64) buf, ctx) }
     else Some (buf, ctx))"

definition keep_rest :: "byte list \<Rightarrow> md5_ctx \<Rightarrow> md5_ctx option" where
  "keep_rest buf ctx =
    (if length buf > 0 then do { ctx \<leftarrow> put_buffer 0 buf ctx; Some (ctx\<lparr>buflen := of_nat (length buf)\<rparr>) }
     else Some ctx)"

definition md5_process_bytes :: "byte list \<Rightarrow> md5_ctx \<Rightarrow> md5_ctx option" where
  "md5_process_bytes buf ctx =
    do { (buf, ctx) \<leftarrow> fill_up buf ctx; (buf, ctx) \<leftarrow> whole_blocks buf ctx; keep_rest buf ctx }"

text \<open>\<open>ctx\<close> is the local context, which is not initialised.\<close>

definition md5_buffer :: "md5_ctx \<Rightarrow> byte list \<Rightarrow> byte list option" where
  "md5_buffer ctx buf =
    do { ctx \<leftarrow> md5_process_bytes buf (md5_init_ctx ctx); (_, r) \<leftarrow> md5_finish_ctx ctx; Some r }"

section \<open>Streams\<close>

text \<open>\<open>fread n s\<close> reads at most \<open>n\<close> bytes from the stream \<open>s\<close>; \<open>ferror s\<close> is its error indicator. The result is the
  digest, or nothing after an error.\<close>

partial_function (option) read_block :: "(nat \<Rightarrow> 's \<Rightarrow> byte list \<times> 's) \<Rightarrow> byte list \<Rightarrow> 's \<Rightarrow> (byte list \<times> nat \<times> 's) option" where
  "read_block fread acc s =
    (let (xs, s) = fread (4096 - length acc) s; n = length xs; acc = acc @ xs
     in if length acc < 4096 \<and> n \<noteq> 0 then read_block fread acc s else Some (acc, n, s))"

partial_function (option) stream_loop ::
    "(nat \<Rightarrow> 's \<Rightarrow> byte list \<times> 's) \<Rightarrow> ('s \<Rightarrow> bool) \<Rightarrow> md5_ctx \<Rightarrow> 's \<Rightarrow> (byte list \<times> md5_ctx) option option" where
  "stream_loop fread ferror ctx s =
    do { (buf, n, s) \<leftarrow> read_block fread [] s;
         if n = 0 \<and> ferror s then Some None
         else if n = 0 then Some (Some (buf, ctx))
         else do { ctx \<leftarrow> md5_process_block buf ctx; stream_loop fread ferror ctx s } }"

definition md5_stream :: "(nat \<Rightarrow> 's \<Rightarrow> byte list \<times> 's) \<Rightarrow> ('s \<Rightarrow> bool) \<Rightarrow> md5_ctx \<Rightarrow> 's \<Rightarrow> byte list option option" where
  "md5_stream fread ferror ctx s =
    do { r \<leftarrow> stream_loop fread ferror (md5_init_ctx ctx) s;
         case r of None \<Rightarrow> Some None
         | Some (buf, ctx) \<Rightarrow>
             do { ctx \<leftarrow> (if length buf > 0 then md5_process_bytes buf ctx else Some ctx);
                  (_, r) \<leftarrow> md5_finish_ctx ctx; Some (Some r) } }"

end
