(* ===== verification/Md5Props.thy ===== *)
theory Md5Props
  imports Md5
begin

text \<open>
  The digests are those of RFC 1321: the padding and the iteration over blocks of 64 bytes are defined on the whole
  message (\<open>md5_spec\<close>), and the context with its buffer, fed with the message in pieces of any size, refines it.
  The table of the 64 additive constants is taken from the code.
\<close>

section \<open>The reference\<close>

definition rfc_F :: "nat \<Rightarrow> u32 \<Rightarrow> u32 \<Rightarrow> u32 \<Rightarrow> u32" where
  "rfc_F i x y z =
    (if i < 16 then (x AND y) OR (NOT x AND z)
     else if i < 32 then (x AND z) OR (y AND NOT z)
     else if i < 48 then x XOR y XOR z
     else y XOR (x OR NOT z))"

definition rfc_k :: "nat \<Rightarrow> nat" where
  "rfc_k i = (if i < 16 then i else if i < 32 then (5 * i + 1) mod 16 else if i < 48 then (3 * i + 5) mod 16 else 7 * i mod 16)"

definition rfc_s :: "nat \<Rightarrow> nat" where
  "rfc_s i = [[7, 12, 17, 22], [5, 9, 14, 20], [4, 11, 16, 23], [6, 10, 15, 21]] ! (i div 16) ! (i mod 4)"

definition rfc_T :: "nat \<Rightarrow> u32" where "rfc_T i = (case md5_ops ! i of (_, _, _, T) \<Rightarrow> T)"

definition rfc_step :: "u32 list \<Rightarrow> nat \<Rightarrow> md5_regs \<Rightarrow> md5_regs" where
  "rfc_step X i = (\<lambda>(a, b, c, d). (d, b + word_rotl (rfc_s i) (a + rfc_F i b c d + X ! rfc_k i + rfc_T i), b, c))"

definition le_word :: "byte list \<Rightarrow> u32" where
  "le_word bs = ucast (bs ! 0) OR push_bit 8 (ucast (bs ! 1)) OR push_bit 16 (ucast (bs ! 2)) OR push_bit 24 (ucast (bs ! 3))"

definition rfc_block :: "byte list \<Rightarrow> md5_regs \<Rightarrow> md5_regs" where
  "rfc_block B = (\<lambda>(a, b, c, d).
    case fold (rfc_step (map (\<lambda>i. le_word (take 4 (drop (4 * i) B))) [0..<16])) [0..<64] (a, b, c, d) of
      (a', b', c', d') \<Rightarrow> (a' + a, b' + b, c' + c, d' + d))"

fun blocks_of :: "byte list \<Rightarrow> byte list list" where
  "blocks_of M = (if length M < 64 then [] else take 64 M # blocks_of (drop 64 M))"

declare blocks_of.simps [simp del]

definition rfc_init :: md5_regs where
  "rfc_init = (0x67452301, 0xefcdab89, 0x98badcfe, 0x10325476)"

definition le32 :: "u32 \<Rightarrow> byte list" where
  "le32 w = map (\<lambda>i. ucast (drop_bit (8 * i) w)) [0..<4]"

definition rfc_pad :: "byte list \<Rightarrow> byte list" where
  "rfc_pad M = M @ [0x80] @ replicate ((119 - length M mod 64) mod 64) 0 @
    le32 (of_nat (8 * length M)) @ le32 (of_nat (8 * length M div 2 ^ 32))"

definition md5_spec :: "byte list \<Rightarrow> byte list" where
  "md5_spec M = (case fold rfc_block (blocks_of (rfc_pad M)) rfc_init of (a, b, c, d) \<Rightarrow> le32 a @ le32 b @ le32 c @ le32 d)"

section \<open>Words\<close>

lemma rfc_functions:
  "FF b c d = (b AND c) OR (NOT b AND d)" "FG b c d = (b AND d) OR (c AND NOT d)" "FI b c d = c XOR (b OR NOT d)"
  by (auto intro!: bit_word_eqI simp: FF_def FG_def FI_def bit_simps)

lemma SWAP_bit: "n < 32 \<Longrightarrow> bit (SWAP w) n = bit w (if n < 8 then n + 24 else if n < 16 then n + 8 else if n < 24 then n - 8 else n - 24)"
proof -
  assume n: "n < 32"
  have m: "(0xff00 :: u32) = push_bit 8 (mask 8)" by (simp add: mask_eq_exp_minus_1)
  have l: "bit w k \<Longrightarrow> k < 32" for k by (drule bit_imp_le_length) simp
  consider "n < 8" | "8 \<le> n" "n < 16" | "16 \<le> n" "n < 24" | "24 \<le> n" using n by fastforce
  then show ?thesis unfolding SWAP_def m
    by cases (use n l [of "n + 24"] in \<open>auto simp: bit_simps add.commute\<close>)
qed

lemma CYCLIC_rotl: "0 < s \<Longrightarrow> s < 32 \<Longrightarrow> CYCLIC w s = word_rotl s w"
proof (rule bit_word_eqI)
  fix n assume s: "0 < s" "s < 32" and n: "n < LENGTH(32)"
  have l: "bit w k \<Longrightarrow> k < 32" for k by (drule bit_imp_le_length) simp
  have "bit (word_rotl s w) n = bit w (if s \<le> n then n - s else n + 32 - s)"
  proof (cases "s \<le> n")
    case True
    then have "(n + (32 - s)) mod 32 = n - s" using s n by (simp add: mod_if)
    then show ?thesis using True s n by (simp add: bit_word_rotl_iff)
  next
    case False
    then have "(n + (32 - s)) mod 32 = n + 32 - s" using s n by simp
    then show ?thesis using False s n by (simp add: bit_word_rotl_iff)
  qed
  moreover have "n + (32 - s) = n + 32 - s" using s by simp
  ultimately show "bit (CYCLIC w s) n = bit (word_rotl s w) n"
    using s n l [of "n + 32 - s"] unfolding CYCLIC_def
    by (cases "s \<le> n") (auto simp: bit_or_iff bit_push_bit_iff bit_drop_bit_eq add.commute)
qed

lemma le32_bytes: "bytes_be (SWAP w) = le32 w"
proof -
  have b: "ucast (drop_bit k (SWAP w)) = (ucast (drop_bit (24 - k) w) :: byte)" if "k \<in> {0, 8, 16, 24}" for k
    using that by (intro bit_word_eqI) (auto simp: bit_simps SWAP_bit add.commute)
  have "[0..<4] = [0, 1, 2, 3 :: nat]" by (simp add: upt_rec)
  then show ?thesis using b [of 0] b [of 8] b [of 16] b [of 24] by (simp add: le32_def bytes_be_def)
qed

lemma le_word_swap: "SWAP (word_be bs) = le_word bs"
proof (rule bit_word_eqI)
  fix n assume n: "n < LENGTH(32)"
  have l: "bit (b :: byte) k \<Longrightarrow> k < 8" for b k by (drule bit_imp_le_length) simp
  have nb: "\<not> bit (b :: byte) (8 + k)" "\<not> bit b (16 + k)" "\<not> bit b (24 + k)" "\<not> bit b (k + 24)" for b k
    using l [of b "8 + k"] l [of b "16 + k"] l [of b "24 + k"] by (auto simp: add.commute)
  consider "n < 8" | k where "n = 8 + k" "k < 8" | k where "n = 16 + k" "k < 8" | k where "n = 24 + k" "k < 8"
  proof -
    have "n < 8 \<or> n = 8 + (n - 8) \<and> n - 8 < 8 \<or> n = 16 + (n - 16) \<and> n - 16 < 8 \<or> n = 24 + (n - 24) \<and> n - 24 < 8"
      using n by simp arith
    then show thesis using that by blast
  qed
  then show "bit (SWAP (word_be bs)) n = bit (le_word bs) n"
    by cases (simp_all add: SWAP_bit word_be_def le_word_def bit_simps nb l)
qed

section \<open>The block function\<close>

lemma md5_ops_rfc: "md5_ops = map (\<lambda>i. (if i < 16 then FF else if i < 32 then FG else if i < 48 then FH else FI, rfc_k i, rfc_s i, rfc_T i)) [0..<64]"
proof -
  have "[0..<64] = [0, 1, 2, 3, 4, 5, 6, 7, 8, 9, 10, 11, 12, 13, 14, 15, 16, 17, 18, 19, 20, 21, 22, 23, 24, 25, 26, 27, 28, 29, 30, 31,
    32, 33, 34, 35, 36, 37, 38, 39, 40, 41, 42, 43, 44, 45, 46, 47, 48, 49, 50, 51, 52, 53, 54, 55, 56, 57, 58, 59, 60, 61, 62, 63 :: nat]"
    by (simp add: upt_rec)
  then show ?thesis by (simp add: rfc_k_def rfc_s_def rfc_T_def md5_ops_def)
qed

lemma rfc_s_range: "i < 64 \<Longrightarrow> 0 < rfc_s i \<and> rfc_s i < 32"
proof -
  have "\<forall>i \<in> set [0..<64]. 0 < rfc_s i \<and> rfc_s i < 32" by code_simp
  then show "i < 64 \<Longrightarrow> 0 < rfc_s i \<and> rfc_s i < 32" by simp
qed

lemma md5_op_rfc:
  assumes "i < 64"
  shows "md5_op X (md5_ops ! i) r = rfc_step X i r"
proof -
  obtain a b c d where r: "r = (a, b, c, d)" by (cases r)
  have op: "md5_ops ! i = (if i < 16 then FF else if i < 32 then FG else if i < 48 then FH else FI, rfc_k i, rfc_s i, rfc_T i)"
    by (subst md5_ops_rfc, subst nth_map) (simp_all only: nth_upt length_upt assms add_0 diff_zero)
  have f: "(if i < 16 then FF else if i < 32 then FG else if i < 48 then FH else FI) b c d = rfc_F i b c d"
    by (simp add: rfc_F_def rfc_functions FH_def)
  show ?thesis
    unfolding r op md5_op_def rfc_step_def prod.case Let_def f
    by (simp only: CYCLIC_rotl [OF rfc_s_range [OF assms, THEN conjunct1] rfc_s_range [OF assms, THEN conjunct2]] add.assoc prod.inject
      add.commute [of b])
qed

lemma md5_block_rfc: "md5_block B r = rfc_block B r"
proof -
  have "fold (md5_op X) md5_ops r = fold (rfc_step X) [0..<64] r" for X r
  proof -
    have len: "length md5_ops = 64" by (subst md5_ops_rfc) simp
    have "map ((!) md5_ops) [0..<64] = md5_ops" using map_nth [of md5_ops] by (simp only: len)
    moreover have "fold (md5_op X) (map ((!) md5_ops) [0..<64]) r = fold (\<lambda>i. md5_op X (md5_ops ! i)) [0..<64] r"
      by (simp only: fold_map comp_def)
    moreover have "fold (\<lambda>i. md5_op X (md5_ops ! i)) [0..<64] r = fold (rfc_step X) [0..<64] r"
      by (rule fold_cong) (simp_all only: fun_eq_iff md5_op_rfc set_upt atLeastLessThan_iff simp_thms)
    ultimately show ?thesis by (simp only:)
  qed
  then show ?thesis by (cases r) (simp add: md5_block_def rfc_block_def le_word_swap)
qed

section \<open>Blocks and counters\<close>

lemma blocks_of_append: "64 dvd length P \<Longrightarrow> blocks_of (P @ Q) = blocks_of P @ blocks_of Q"
proof (induction P rule: blocks_of.induct)
  case (1 P)
  show ?case
  proof (cases "P = []")
    case True
    then show ?thesis by (simp add: blocks_of.simps [of "[]"])
  next
    case False
    then have "64 \<le> length P" using 1(2) by (intro dvd_imp_le) simp_all
    moreover from this have "64 dvd length (drop 64 P)" using 1(2) by (simp add: dvd_minus_self)
    ultimately show ?thesis using 1(1) by (subst (1 2) blocks_of.simps) simp
  qed
qed

lemma md5_blocks_spec: "64 dvd length B \<Longrightarrow> md5_blocks B r = Some (fold rfc_block (blocks_of B) r)"
proof (induction B arbitrary: r rule: blocks_of.induct)
  case (1 B)
  show ?case
  proof (cases "B = []")
    case True
    then show ?thesis by (subst md5_blocks.simps, subst blocks_of.simps) simp
  next
    case False
    then have "64 \<le> length B" using 1(2) by (intro dvd_imp_le) simp_all
    moreover from this have "64 dvd length (drop 64 B)" using 1(2) by (simp add: dvd_minus_self)
    ultimately show ?thesis using 1(1) False by (subst md5_blocks.simps, subst blocks_of.simps) (simp add: md5_block_rfc)
  qed
qed

definition counted :: "md5_ctx \<Rightarrow> nat \<Rightarrow> bool" where
  "counted ctx n \<longleftrightarrow> unat (total0 ctx) + 2 ^ 32 * unat (total1 ctx) = n mod 2 ^ 64"

lemma counter_carry:
  fixes t0 t1 :: u32
  assumes "unat t0 + 2 ^ 32 * unat t1 = n mod 2 ^ 64" "k < 2 ^ 32"
  shows "unat (t0 + of_nat k) + 2 ^ 32 * unat (if t0 + of_nat k < of_nat k then t1 + 1 else t1) = (n + k) mod 2 ^ 64"
proof -
  have k: "unat (of_nat k :: u32) = k" using assms(2) by (simp add: unsigned_of_nat take_bit_nat_eq_self)
  have lim: "unat t0 < 2 ^ 32" "unat t1 < 2 ^ 32" using unsigned_less [of t0, where ?'a = nat] unsigned_less [of t1, where ?'a = nat] by simp_all
  have s: "unat (t0 + of_nat k) = (unat t0 + k) mod 2 ^ 32" by (simp add: unat_word_ariths k)
  have n: "(n + k) mod 2 ^ 64 = (unat t0 + 2 ^ 32 * unat t1 + k) mod 2 ^ 64" by (simp only: assms(1) mod_add_left_eq)
  show ?thesis
  proof (cases "unat t0 + k < 2 ^ 32")
    case True
    then have "\<not> t0 + of_nat k < of_nat k" using s k by (simp add: word_less_nat_alt)
    moreover have "unat t0 + 2 ^ 32 * unat t1 + k < 2 ^ 64" using True lim by simp
    ultimately show ?thesis using True s n by simp
  next
    case False
    then have m: "(unat t0 + k) mod 2 ^ 32 = unat t0 + k - 2 ^ 32" using lim assms(2) by (simp add: mod_if)
    then have "t0 + of_nat k < of_nat k" using s k lim False by (simp add: word_less_nat_alt)
    moreover have "unat (t1 + 1) = (unat t1 + 1) mod 2 ^ 32" by (simp add: unat_word_ariths)
    moreover have "2 ^ 32 * ((unat t1 + 1) mod 2 ^ 32) = (2 ^ 32 * (unat t1 + 1)) mod 2 ^ 64"
      by (simp add: mult_mod_right)
    moreover have "unat t0 + k - 2 ^ 32 + (2 ^ 32 * (unat t1 + 1)) mod 2 ^ 64 = (unat t0 + 2 ^ 32 * unat t1 + k) mod 2 ^ 64"
    proof (cases "unat t1 + 1 < 2 ^ 32")
      case True
      then have "2 ^ 32 * (unat t1 + 1) < 2 ^ 64" by simp
      moreover have "unat t0 + 2 ^ 32 * unat t1 + k < 2 ^ 64" using True lim assms(2) by simp
      ultimately show ?thesis using False by simp
    next
      case o: False
      then have "unat t1 + 1 = 2 ^ 32" using lim by simp
      then have "2 ^ 32 * unat t1 = 2 ^ 64 - 2 ^ 32" "2 ^ 32 * (unat t1 + 1) = 2 ^ 64" by simp_all
      then show ?thesis using False lim assms(2) by (simp add: mod_if)
    qed
    ultimately show ?thesis using s m n by simp
  qed
qed

lemma counted_add: "counted ctx n \<Longrightarrow> k < 2 ^ 32 \<Longrightarrow> counted (add_total (of_nat k) ctx) (n + k)"
  using counter_carry [of "total0 ctx" "total1 ctx" n k] by (simp add: counted_def add_total_def Let_def split: if_splits)

lemma add_total_other [simp]:
  "md5_A (add_total n ctx) = md5_A ctx" "md5_B (add_total n ctx) = md5_B ctx" "md5_C (add_total n ctx) = md5_C ctx"
  "md5_D (add_total n ctx) = md5_D ctx" "buflen (add_total n ctx) = buflen ctx" "buffer (add_total n ctx) = buffer ctx"
  by (simp_all add: add_total_def Let_def)

definition regs :: "md5_ctx \<Rightarrow> md5_regs" where "regs ctx = (md5_A ctx, md5_B ctx, md5_C ctx, md5_D ctx)"

text \<open>The bytes \<open>P\<close> have gone through the block function.\<close>

definition md5_core :: "md5_ctx \<Rightarrow> byte list \<Rightarrow> bool" where
  "md5_core ctx P \<longleftrightarrow> 64 dvd length P \<and> regs ctx = fold rfc_block (blocks_of P) rfc_init \<and> counted ctx (length P)"

lemma process_block_regs:
  assumes "64 dvd length B"
  shows "\<exists>ctx'. md5_process_block B ctx = Some ctx' \<and> regs ctx' = fold rfc_block (blocks_of B) (regs ctx) \<and>
    buffer ctx' = buffer ctx \<and> buflen ctx' = buflen ctx \<and>
    (\<forall>n. counted (add_total (of_nat (length B)) ctx) n \<longrightarrow> counted ctx' n)"
proof -
  let ?c = "add_total (of_nat (length B)) ctx"
  obtain a b c d where r: "fold rfc_block (blocks_of B) (regs ctx) = (a, b, c, d)" by (cases "fold rfc_block (blocks_of B) (regs ctx)")
  let ?c' = "?c\<lparr>md5_A := a, md5_B := b, md5_C := c, md5_D := d\<rparr>"
  have "md5_blocks B (md5_A ?c, md5_B ?c, md5_C ?c, md5_D ?c) = Some (a, b, c, d)"
    unfolding add_total_other using md5_blocks_spec [OF assms, of "regs ctx"] by (simp only: r) (simp only: regs_def)
  then have "md5_process_block B ctx = Some ?c'"
    unfolding md5_process_block_def Let_def by (simp only: Option.bind.simps prod.case)
  then show ?thesis unfolding r by (intro exI [of _ ?c']) (simp add: regs_def counted_def)
qed

lemma process_block_spec:
  assumes "md5_core ctx P" "64 dvd length B" "length B < 2 ^ 32"
  shows "\<exists>ctx'. md5_process_block B ctx = Some ctx' \<and> md5_core ctx' (P @ B) \<and> buffer ctx' = buffer ctx \<and> buflen ctx' = buflen ctx"
proof -
  have P: "regs ctx = fold rfc_block (blocks_of P) rfc_init" "64 dvd length P" "counted ctx (length P)"
    using assms(1) by (simp_all only: md5_core_def)
  obtain ctx' where c: "md5_process_block B ctx = Some ctx'" "regs ctx' = fold rfc_block (blocks_of B) (regs ctx)"
    "buffer ctx' = buffer ctx" "buflen ctx' = buflen ctx"
    "\<forall>n. counted (add_total (of_nat (length B)) ctx) n \<longrightarrow> counted ctx' n"
    using process_block_regs [OF assms(2)] by blast
  have "counted ctx' (length (P @ B))" using counted_add [OF P(3) assms(3)] c(5) by simp
  moreover have "regs ctx' = fold rfc_block (blocks_of (P @ B)) rfc_init"
    unfolding c(2) P(1) blocks_of_append [OF P(2)] fold_append comp_def ..
  moreover have "64 dvd length (P @ B)" using P(2) assms(2) by simp
  ultimately show ?thesis using c(1,3,4) unfolding md5_core_def by blast
qed

section \<open>Feeding\<close>

text \<open>After the message \<open>M\<close> its whole blocks are processed and the rest of at most 64 bytes is in the buffer.\<close>

definition md5_rep :: "md5_ctx \<Rightarrow> byte list \<Rightarrow> byte list \<Rightarrow> bool" where
  "md5_rep ctx P R \<longleftrightarrow> md5_core ctx P \<and> length R \<le> 64 \<and> buflen ctx = of_nat (length R) \<and>
    length (buffer ctx) = 128 \<and> take (length R) (buffer ctx) = R"

definition md5_inv :: "md5_ctx \<Rightarrow> byte list \<Rightarrow> bool" where
  "md5_inv ctx M \<longleftrightarrow> (\<exists>P R. M = P @ R \<and> md5_rep ctx P R)"

lemma put_buffer_spec:
  assumes "off + length xs \<le> length (buffer ctx)"
  shows "put_buffer off xs ctx = Some (ctx\<lparr>buffer := take off (buffer ctx) @ xs @ drop (off + length xs) (buffer ctx)\<rparr>)"
  using assms by (simp add: put_buffer_def)

lemma md5_core_cong [simp]:
  "md5_core (ctx\<lparr>buffer := b\<rparr>) P = md5_core ctx P" "md5_core (ctx\<lparr>buflen := n\<rparr>) P = md5_core ctx P"
  by (simp_all add: md5_core_def regs_def counted_def)

lemma buflen_value: "md5_rep ctx P R \<Longrightarrow> unat (buflen ctx) = length R"
  by (simp add: md5_rep_def unsigned_of_nat take_bit_nat_eq_self)

lemma md5_init_rep: "length (buffer ctx) = 128 \<Longrightarrow> md5_rep (md5_init_ctx ctx) [] []"
  by (simp add: md5_rep_def md5_core_def md5_init_ctx_def regs_def counted_def blocks_of.simps rfc_init_def)

lemma keep_rest_spec:
  assumes "md5_rep ctx P R" "R = [] \<or> X = []" "length X \<le> 64"
  shows "\<exists>ctx'. keep_rest X ctx = Some ctx' \<and> md5_rep ctx' P (R @ X)"
  using assms by (auto simp: keep_rest_def put_buffer_def md5_rep_def)

lemma whole_blocks_spec:
  assumes "md5_rep ctx P R" "R = [] \<or> X = []" "length X < 2 ^ 32"
  shows "\<exists>ctx' B Y. whole_blocks X ctx = Some (Y, ctx') \<and> X = B @ Y \<and> length Y \<le> 64 \<and> md5_rep ctx' (P @ B) R"
proof (cases "length X > 64")
  case True
  let ?B = "take (length X - length X mod 64) X"
  have R: "R = []" using True assms(2) by auto
  have len: "length ?B = length X - length X mod 64" by simp
  then have "64 dvd length ?B" "length ?B < 2 ^ 32" using assms(3) by (simp_all only: dvd_minus_mod)
  then obtain ctx' where "md5_process_block ?B ctx = Some ctx'" "md5_core ctx' (P @ ?B)" "buffer ctx' = buffer ctx" "buflen ctx' = buflen ctx"
    using process_block_spec assms(1) unfolding md5_rep_def by blast
  moreover have "length (drop (length X - length X mod 64) X) \<le> 64"
    using mod_less_divisor [of 64 "length X"] by (simp add: less_imp_le)
  ultimately show ?thesis using True R assms(1)
    by (intro exI [of _ ctx'] exI [of _ ?B] exI [of _ "drop (length X - length X mod 64) X"]) (simp add: whole_blocks_def Let_def md5_rep_def)
next
  case False
  then show ?thesis using assms by (intro exI [of _ ctx] exI [of _ "[]"] exI [of _ X]) (simp add: whole_blocks_def Let_def)
qed

lemma fill_up_spec:
  assumes rep: "md5_rep ctx P R" and X: "length X < 2 ^ 32"
  shows "\<exists>ctx' Y P' R'. fill_up X ctx = Some (Y, ctx') \<and> P @ R @ X = P' @ R' @ Y \<and> md5_rep ctx' P' R' \<and>
    (R' = [] \<or> Y = []) \<and> length Y \<le> length X"
proof (cases "R = []")
  case True
  then have "buflen ctx = 0" using rep by (simp add: md5_rep_def)
  then show ?thesis using rep True by (intro exI [of _ ctx] exI [of _ X] exI [of _ P] exI [of _ R]) (simp add: fill_up_def)
next
  case False
  have n: "unat (buflen ctx) = length R" by (rule buflen_value [OF rep])
  then have nz: "buflen ctx \<noteq> 0" using False by auto
  define add where "add = (if 128 - length R > length X then length X else 128 - length R)"
  define k where "k = length R + add"
  let ?S = "R @ take add X"
  define ctx1 where "ctx1 = ctx\<lparr>buffer := ?S @ drop k (buffer ctx), buflen := buflen ctx + of_nat add\<rparr>"
  have len: "length R \<le> 64" "length (buffer ctx) = 128" "take (length R) (buffer ctx) = R" using rep by (simp_all add: md5_rep_def)
  have add: "add \<le> length X" "k \<le> 128" "k < 128 \<Longrightarrow> add = length X" using len by (auto simp: add_def k_def)
  have S: "length ?S = k" using add by (simp add: k_def)
  have put: "put_buffer (length R) (take add X) ctx = Some (ctx\<lparr>buffer := ?S @ drop k (buffer ctx)\<rparr>)"
    using put_buffer_spec [of "length R" "take add X" ctx] len add by (simp add: k_def)
  have bl: "buflen ctx1 = of_nat k" using rep by (simp add: ctx1_def k_def md5_rep_def)
  have core: "md5_core ctx1 P" using rep by (simp add: ctx1_def md5_rep_def)
  have buf: "length (buffer ctx1) = 128" "take k (buffer ctx1) = ?S"
  proof -
    show "length (buffer ctx1) = 128" using S add(2) len by (simp add: ctx1_def)
    have "take (length ?S) (?S @ drop k (buffer ctx)) = ?S"
      by (rule append_eq_conv_conj [THEN iffD1, OF refl, THEN conjunct1, symmetric])
    then show "take k (buffer ctx1) = ?S" unfolding S by (simp add: ctx1_def)
  qed
  show ?thesis
  proof (cases "k > 64")
    case small: False
    then have a: "add = length X" using add(3) by simp
    then have "fill_up X ctx = Some ([], ctx1)"
      unfolding fill_up_def Let_def n add_def [symmetric] k_def [symmetric] using nz put small by (simp add: ctx1_def)
    moreover have "md5_rep ctx1 P (R @ X)" using core buf bl a small S by (simp add: md5_rep_def k_def)
    ultimately show ?thesis by (intro exI [of _ ctx1] exI [of _ "[]"] exI [of _ P] exI [of _ "R @ X"]) simp
  next
    case True
    let ?B = "take (k - k mod 64) (buffer ctx1)"
    have B: "?B = take (k - k mod 64) ?S" using buf(2) by (metis take_take min.absorb1 diff_le_self)
    have "64 dvd length ?B" "length ?B < 2 ^ 32" using add(2) buf(1) by (simp_all add: dvd_minus_mod min_def)
    then obtain ctx2 where ctx2: "md5_process_block ?B ctx1 = Some ctx2" "md5_core ctx2 (P @ ?B)" "buffer ctx2 = buffer ctx1"
      using process_block_spec [OF core] by blast
    let ?R = "take (k mod 64) (drop (k - k mod 64) (buffer ctx2))"
    have "k - k mod 64 + k mod 64 = k" by simp
    then have R: "?R = drop (k - k mod 64) ?S"
      using buf(2) ctx2(3) by (metis add.commute drop_take take_drop)
    have lR: "length ?R = k mod 64" using R S by simp
    define ctx3 where "ctx3 = ctx2\<lparr>buffer := ?R @ drop (k mod 64) (buffer ctx2), buflen := of_nat (k mod 64)\<rparr>"
    have "put_buffer 0 ?R ctx2 = Some (ctx2\<lparr>buffer := ?R @ drop (k mod 64) (buffer ctx2)\<rparr>)"
      using put_buffer_spec [of 0 ?R ctx2] lR buf(1) ctx2(3) mod_less_divisor [of 64 k] by simp
    then have "fill_up X ctx = Some (drop add X, ctx3)"
      unfolding fill_up_def Let_def n add_def [symmetric] k_def [symmetric] using nz put True ctx2(1)
      by (simp add: ctx1_def ctx3_def)
    moreover have "md5_rep ctx3 (P @ ?B) ?R"
      using ctx2 lR buf(1) mod_less_divisor [of 64 k] by (simp add: md5_rep_def ctx3_def less_imp_le)
    moreover have "P @ R @ X = (P @ ?B) @ ?R @ drop add X"
      unfolding R B using append_take_drop_id [of "k - k mod 64" ?S] by (metis append.assoc append_take_drop_id)
    moreover have "?R = [] \<or> drop add X = []" using add(2,3) lR by (cases "k < 128") auto
    ultimately show ?thesis by (intro exI [of _ ctx3] exI [of _ "drop add X"] exI [of _ "P @ ?B"] exI [of _ ?R]) simp
  qed
qed

lemma process_bytes_spec:
  assumes "md5_inv ctx M" "length X < 2 ^ 32"
  shows "\<exists>ctx'. md5_process_bytes X ctx = Some ctx' \<and> md5_inv ctx' (M @ X)"
proof -
  obtain P R where "M = P @ R" "md5_rep ctx P R" using assms(1) by (auto simp: md5_inv_def)
  then obtain c1 Y P1 R1 where 1: "fill_up X ctx = Some (Y, c1)" "M @ X = P1 @ R1 @ Y" "md5_rep c1 P1 R1" "R1 = [] \<or> Y = []" "length Y \<le> length X"
    using fill_up_spec [of ctx P R X] assms(2) by auto
  then obtain c2 B Z where 2: "whole_blocks Y c1 = Some (Z, c2)" "Y = B @ Z" "length Z \<le> 64" "md5_rep c2 (P1 @ B) R1"
    using whole_blocks_spec [OF 1(3,4)] assms(2) by auto
  have "R1 = [] \<or> Z = []" using 1(4) 2(2) by auto
  from keep_rest_spec [OF 2(4) this 2(3)] obtain c3 where 3: "keep_rest Z c2 = Some c3" "md5_rep c3 (P1 @ B) (R1 @ Z)" by blast
  have "M @ X = (P1 @ B) @ (R1 @ Z)" using 1(2,4) 2(2) by auto
  then have "md5_inv c3 (M @ X)" using 3(2) unfolding md5_inv_def by blast
  then show ?thesis using 1(1) 2(1) 3(1) by (simp add: md5_process_bytes_def)
qed

section \<open>Finishing\<close>

lemma or_disjoint_plus: "x AND y = 0 \<Longrightarrow> x OR y = x + (y :: 'a::len word)"
  using word_plus_and_or [of x y] by simp

lemma length_words:
  assumes "counted ctx n"
  shows "push_bit 3 (total0 ctx) = of_nat (8 * n)"
    and "push_bit 3 (total1 ctx) OR drop_bit 29 (total0 ctx) = of_nat (8 * n div 2 ^ 32)"
proof -
  define t0 t1 where "t0 = unat (total0 ctx)" and "t1 = unat (total1 ctx)"
  define q where "q = n div 2 ^ 64"
  have lim: "t0 < 2 ^ 32" "t1 < 2 ^ 32"
    using unsigned_less [of "total0 ctx", where ?'a = nat] unsigned_less [of "total1 ctx", where ?'a = nat] by (simp_all add: t0_def t1_def)
  have n: "n = 2 ^ 64 * q + t0 + 2 ^ 32 * t1" using assms mult_div_mod_eq [of "2 ^ 64" n]
    unfolding counted_def q_def t0_def t1_def by linarith
  have w: "total0 ctx = of_nat t0" "total1 ctx = of_nat t1" by (simp_all add: t0_def t1_def)
  have big: "(of_nat (2 ^ 32) :: u32) = 0" by simp
  have "(of_nat (8 * n) :: u32) = of_nat (2 ^ 32 * (8 * (2 ^ 32 * q + t1))) + of_nat (8 * t0)"
    unfolding of_nat_add [symmetric] by (rule arg_cong [of _ _ of_nat]) (simp add: n)
  also have "(of_nat (2 ^ 32 * (8 * (2 ^ 32 * q + t1))) :: u32) = 0" by (simp only: of_nat_mult big mult_zero_left)
  finally show "push_bit 3 (total0 ctx) = of_nat (8 * n)" by (simp add: w push_bit_eq_mult)
  have l: "bit (x :: u32) k \<Longrightarrow> k < 32" for x k by (drule bit_imp_le_length) simp
  have "push_bit 3 (total1 ctx) AND drop_bit 29 (total0 ctx) = 0"
    using l [of "total0 ctx" "29 + _"] by (intro bit_word_eqI) (fastforce simp: bit_simps dest: l)
  then have "push_bit 3 (total1 ctx) OR drop_bit 29 (total0 ctx) = push_bit 3 (total1 ctx) + drop_bit 29 (total0 ctx)"
    by (rule or_disjoint_plus)
  moreover have "push_bit 3 (total1 ctx) = of_nat (8 * t1)" by (simp add: w push_bit_eq_mult)
  moreover have "drop_bit 29 (total0 ctx) = of_nat (t0 div 2 ^ 29)"
  proof -
    have "unat (drop_bit 29 (total0 ctx)) = t0 div 2 ^ 29"
      using lim by (simp only: unsigned_drop_bit_eq) (simp add: drop_bit_eq_div t0_def take_bit_nat_eq_self)
    then show ?thesis by (metis of_nat_unat ucast_id)
  qed
  moreover have "of_nat (8 * t1) + of_nat (t0 div 2 ^ 29) = (of_nat (8 * n div 2 ^ 32) :: u32)"
  proof -
    have "8 * n = 2 ^ 32 * (2 ^ 32 * (8 * q) + 8 * t1) + 8 * t0" using n by simp
    then have "8 * n div 2 ^ 32 = (2 ^ 32 * (8 * q) + 8 * t1) + 8 * t0 div 2 ^ 32" by simp
    also have "8 * t0 div 2 ^ 32 = t0 div 2 ^ 29" by simp
    finally have "8 * n div 2 ^ 32 = 2 ^ 32 * (8 * q) + (8 * t1 + t0 div 2 ^ 29)" by simp
    then have "(of_nat (8 * n div 2 ^ 32) :: u32) = of_nat (2 ^ 32) * of_nat (8 * q) + (of_nat (8 * t1) + of_nat (t0 div 2 ^ 29))"
      by (simp only: of_nat_add of_nat_mult)
    then show ?thesis by (simp only: big mult_zero_left add_0)
  qed
  ultimately show "push_bit 3 (total1 ctx) OR drop_bit 29 (total0 ctx) = of_nat (8 * n div 2 ^ 32)" by (simp only:)
qed

text \<open>The number of bytes of padding.\<close>

definition padding :: "nat \<Rightarrow> nat" where "padding n = (if n \<ge> 56 then 120 - n else 56 - n)"

lemma padding_length: "n \<le> 64 \<Longrightarrow> padding n = Suc ((119 - n mod 64) mod 64)" "n \<le> 64 \<Longrightarrow> padding n \<le> 64" "n \<le> 64 \<Longrightarrow> n + padding n \<le> 120"
proof -
  assume n: "n \<le> 64"
  consider "n < 56" | "56 \<le> n" "n < 64" | "n = 64" using n by fastforce
  then show "padding n = Suc ((119 - n mod 64) mod 64)"
  proof cases
    case 1
    then have "(119 - n) mod 64 = 55 - n" by (simp add: mod_if)
    then show ?thesis using 1 by (simp add: padding_def)
  qed (simp_all add: padding_def)
qed (auto simp: padding_def)

lemma fillbuf_take: "k \<le> 63 \<Longrightarrow> take (Suc k) fillbuf = 0x80 # replicate k 0"
  by (simp add: fillbuf_def)

lemma le32_length [simp]: "length (le32 w) = 4"
  by (simp add: le32_def)

lemma finish_spec:
  assumes "md5_inv ctx M"
  shows "\<exists>ctx'. md5_finish_ctx ctx = Some (ctx', md5_spec M)"
proof -
  obtain P R where M: "M = P @ R" and rep: "md5_rep ctx P R" using assms by (auto simp: md5_inv_def)
  let ?n = "length R" and ?p = "padding (length R)"
  let ?pad = "if buflen ctx \<ge> 56 then 64 + 56 - buflen ctx else 56 - buflen ctx"
  let ?c1 = "add_total (buflen ctx) ctx"
  let ?l1 = "le32 (of_nat (8 * length M))" and ?l2 = "le32 (of_nat (8 * length M div 2 ^ 32))"
  let ?F = "0x80 # replicate ((119 - length M mod 64) mod 64) 0 :: byte list"
  have core: "md5_core ctx P" and n: "?n \<le> 64" and len: "length (buffer ctx) = 128" and R: "take ?n (buffer ctx) = R"
    using rep by (simp_all add: md5_rep_def)
  have bl: "unat (buflen ctx) = ?n" by (rule buflen_value [OF rep])
  have cnt: "counted ?c1 (length M)"
    using counted_add [of ctx "length P" ?n] core n rep by (simp add: M md5_core_def md5_rep_def)
  have pad: "unat ?pad = ?p"
    using n bl by (simp add: padding_def word_le_nat_alt unat_sub)
  have offs: "unat (buflen ctx + ?pad) = ?n + ?p" "unat (buflen ctx + ?pad + 4) = ?n + ?p + 4" "unat (buflen ctx + ?pad + 8) = ?n + ?p + 8"
    using padding_length(3) [OF n] by (simp_all only: unat_word_ariths bl pad) simp_all
  have M64: "length M mod 64 = ?n mod 64" using core by (auto simp: M md5_core_def dvd_def mod_add_left_eq mod_mult_self4)
  have fill: "take ?p fillbuf = ?F"
    using padding_length(1,2) [OF n] unfolding M64 by (subst padding_length(1) [OF n], subst fillbuf_take) auto
  define F where "F = ?F"
  have lF: "length F = ?p" using padding_length(1) [OF n] by (simp add: M64 F_def)
  note lims = padding_length(3) [OF n]
  define b1 where "b1 = R @ F @ drop (?n + ?p) (buffer ctx)"
  define b2 where "b2 = R @ F @ ?l1 @ drop (?n + ?p + 4) (buffer ctx)"
  define b3 where "b3 = R @ F @ ?l1 @ ?l2 @ drop (?n + ?p + 8) (buffer ctx)"
  have p1: "put_buffer ?n F ?c1 = Some (?c1\<lparr>buffer := b1\<rparr>)"
    using put_buffer_spec [of ?n F ?c1] lims len lF R by (simp add: b1_def)
  have p2: "put_buffer (?n + ?p) ?l1 (?c1\<lparr>buffer := b1\<rparr>) = Some (?c1\<lparr>buffer := b2\<rparr>)"
    using put_buffer_spec [of "?n + ?p" ?l1 "?c1\<lparr>buffer := b1\<rparr>"] lims len lF by (simp add: b1_def b2_def add.commute)
  have p3: "put_buffer (?n + ?p + 4) ?l2 (?c1\<lparr>buffer := b2\<rparr>) = Some (?c1\<lparr>buffer := b3\<rparr>)"
    using put_buffer_spec [of "?n + ?p + 4" ?l2 "?c1\<lparr>buffer := b2\<rparr>"] lims len lF by (simp add: b2_def b3_def add.commute)
  let ?B = "R @ F @ ?l1 @ ?l2"
  have t: "take (?n + ?p + 8) b3 = ?B" using lF by (simp add: b3_def)
  have "length ?B = ?n + ?p + 8" using lF by simp
  moreover have "?n + ?p + 8 = 64 \<or> ?n + ?p + 8 = 128" using n by (auto simp: padding_def)
  then have "64 dvd ?n + ?p + 8" by (elim disjE) (simp_all only: dvd_refl, simp)
  ultimately have "64 dvd length ?B" by (simp only:)
  then obtain c4 where c4: "md5_process_block ?B (?c1\<lparr>buffer := b3\<rparr>) = Some c4"
    "regs c4 = fold rfc_block (blocks_of ?B) (regs (?c1\<lparr>buffer := b3\<rparr>))"
    using process_block_regs by blast
  have "regs (?c1\<lparr>buffer := b3\<rparr>) = fold rfc_block (blocks_of P) rfc_init" "64 dvd length P" using core by (simp_all add: md5_core_def regs_def)
  then have "regs c4 = fold rfc_block (blocks_of (P @ ?B)) rfc_init"
    using c4(2) by (simp only: blocks_of_append fold_append comp_def)
  moreover have "P @ ?B = rfc_pad M" by (simp add: rfc_pad_def M F_def)
  ultimately have "md5_read_ctx c4 = md5_spec M"
    by (cases "fold rfc_block (blocks_of (rfc_pad M)) rfc_init") (simp add: md5_spec_def md5_read_ctx_def le32_bytes regs_def)
  moreover have sel: "total0 (c\<lparr>buffer := b\<rparr>) = total0 c" "total1 (c\<lparr>buffer := b\<rparr>) = total1 c" "buffer (c\<lparr>buffer := b\<rparr>) = b" for c b
    by simp_all
  have "md5_finish_ctx ctx = Some (c4, md5_read_ctx c4)"
    using p1 p2 p3 c4(1) length_words [OF cnt]
    by (simp only: md5_finish_ctx_def Let_def offs pad bl fill F_def [symmetric] le32_bytes Option.bind.simps t
      add_total_other sel)
  ultimately show ?thesis by simp
qed

section \<open>The digest of \<open>abc\<close>\<close>

text \<open>The test vector of RFC 1321, computed from the definitions.\<close>

definition abc_block :: "byte list" where
  "abc_block = [97, 98, 99, 0x80] @ replicate 52 0 @ [24, 0, 0, 0, 0, 0, 0, 0]"

lemma abc_words: "map (\<lambda>i. SWAP (word_be (take 4 (drop (4 * i) abc_block)))) [0..<16] = [0x80636261, 0, 0, 0, 0, 0, 0, 0, 0, 0, 0, 0, 0, 0, 24, 0]"
  by code_simp

lemma abc_rounds:
  "fold (md5_op [0x80636261, 0, 0, 0, 0, 0, 0, 0, 0, 0, 0, 0, 0, 0, 24, 0])
    (take 16 (drop 0 md5_ops)) (0x67452301, 0xefcdab89, 0x98badcfe, 0x10325476) = (0xdda9b9a6, 0x72aff2e0, 0xe396856b, 0xa1051895)"
  "fold (md5_op [0x80636261, 0, 0, 0, 0, 0, 0, 0, 0, 0, 0, 0, 0, 0, 24, 0])
    (take 16 (drop 16 md5_ops)) (0xdda9b9a6, 0x72aff2e0, 0xe396856b, 0xa1051895) = (0x790a77fb, 0x726342d3, 0xa62884aa, 0x9f47e4f8)"
  "fold (md5_op [0x80636261, 0, 0, 0, 0, 0, 0, 0, 0, 0, 0, 0, 0, 0, 24, 0])
    (take 16 (drop 32 md5_ops)) (0x790a77fb, 0x726342d3, 0xa62884aa, 0x9f47e4f8) = (0x7f2e507b, 0x7beb9700, 0x8fae6399, 0x99d9679d)"
  "fold (md5_op [0x80636261, 0, 0, 0, 0, 0, 0, 0, 0, 0, 0, 0, 0, 0, 24, 0])
    (take 16 (drop 48 md5_ops)) (0x7f2e507b, 0x7beb9700, 0x8fae6399, 0x99d9679d) = (0x310ade8f, 0xc08226b3, 0xe484b9d8, 0x624d8cb2)"
  by (simp_all add: md5_ops_def md5_op_def Let_def FG_def FF_def FH_def FI_def CYCLIC_def)

lemma abc_md5_block: "md5_block abc_block rfc_init = (0x98500190, 0xb04fd23c, 0x7d3f96d6, 0x727fe128)"
proof -
  have "md5_ops = take 16 (drop 0 md5_ops) @ take 16 (drop 16 md5_ops) @ take 16 (drop 32 md5_ops) @ take 16 (drop 48 md5_ops)"
    by (simp add: md5_ops_def)
  then have "fold (md5_op X) md5_ops r = fold (md5_op X) (take 16 (drop 48 md5_ops)) (fold (md5_op X) (take 16 (drop 32 md5_ops))
      (fold (md5_op X) (take 16 (drop 16 md5_ops)) (fold (md5_op X) (take 16 (drop 0 md5_ops)) r)))" for X r
    by (metis comp_apply fold_append)
  then show ?thesis unfolding md5_block_def rfc_init_def prod.case Let_def abc_words by (simp only: abc_rounds prod.case) simp
qed

lemma md5_spec_abc:
  "md5_spec [97, 98, 99] = [0x90, 0x01, 0x50, 0x98, 0x3c, 0xd2, 0x4f, 0xb0, 0xd6, 0x96, 0x3f, 0x7d, 0x28, 0xe1, 0x7f, 0x72]"
proof -
  have "[0..<4] = [0, 1, 2, 3 :: nat]" by (simp add: upt_rec)
  then have "rfc_pad [97, 98, 99] = abc_block" by (simp add: rfc_pad_def abc_block_def le32_def)
  moreover have "blocks_of abc_block = [abc_block]" by (subst blocks_of.simps, subst blocks_of.simps) (simp add: abc_block_def)
  ultimately have "fold rfc_block (blocks_of (rfc_pad [97, 98, 99])) rfc_init = (0x98500190, 0xb04fd23c, 0x7d3f96d6, 0x727fe128)"
    using abc_md5_block by (simp add: md5_block_rfc)
  then have "md5_spec [97, 98, 99] = le32 0x98500190 @ le32 0xb04fd23c @ le32 0x7d3f96d6 @ le32 0x727fe128"
    by (simp only: md5_spec_def prod.case)
  also have "\<dots> = [0x90, 0x01, 0x50, 0x98, 0x3c, 0xd2, 0x4f, 0xb0, 0xd6, 0x96, 0x3f, 0x7d, 0x28, 0xe1, 0x7f, 0x72]" by code_simp
  finally show ?thesis .
qed

section \<open>Properties\<close>

fun md5_feed :: "byte list list \<Rightarrow> md5_ctx \<Rightarrow> md5_ctx option" where
  "md5_feed [] ctx = Some ctx"
| "md5_feed (c # cs) ctx = do { ctx \<leftarrow> md5_process_bytes c ctx; md5_feed cs ctx }"

lemma feed_spec:
  assumes "md5_inv ctx M" "\<forall>c \<in> set cs. length c < 2 ^ 32"
  shows "\<exists>ctx'. md5_feed cs ctx = Some ctx' \<and> md5_inv ctx' (M @ concat cs)"
  using assms
proof (induction cs arbitrary: ctx M)
  case (Cons c cs)
  obtain ctx1 where "md5_process_bytes c ctx = Some ctx1" "md5_inv ctx1 (M @ c)"
    using process_bytes_spec [OF Cons.prems(1), of c] Cons.prems(2) by auto
  then show ?case using Cons.IH [of ctx1 "M @ c"] Cons.prems(2) by simp
qed auto

lemma init_inv: "length (buffer ctx) = 128 \<Longrightarrow> md5_inv (md5_init_ctx ctx) []"
  using md5_init_rep unfolding md5_inv_def by blast

text \<open>C13: Fed with a message in any number of pieces of any sizes, empty ones and ones that end in the middle of a
  block included, the context gives the digest that RFC 1321 defines for the whole message, and no copy leaves its
  buffer of 128 bytes.\<close>

theorem md5_pieces:
  assumes "length (buffer ctx) = 128" "\<forall>c \<in> set cs. length c < 2 ^ 32"
  shows "\<exists>ctx1 ctx2. md5_feed cs (md5_init_ctx ctx) = Some ctx1 \<and> md5_finish_ctx ctx1 = Some (ctx2, md5_spec (concat cs))"
proof -
  obtain ctx1 where "md5_feed cs (md5_init_ctx ctx) = Some ctx1" "md5_inv ctx1 (concat cs)"
    using feed_spec [OF init_inv [OF assms(1)] assms(2)] by auto
  then show ?thesis using finish_spec by blast
qed

definition new_ctx :: md5_ctx where
  "new_ctx = \<lparr>md5_A = 0, md5_B = 0, md5_C = 0, md5_D = 0, total0 = 0, total1 = 0, buflen = 0, buffer = replicate 128 0\<rparr>"

theorem md5_pieces_witness:
  "\<exists>ctx1 ctx2. md5_feed [[97], [], [98, 99]] (md5_init_ctx new_ctx) = Some ctx1 \<and>
    md5_finish_ctx ctx1 = Some (ctx2, [0x90, 0x01, 0x50, 0x98, 0x3c, 0xd2, 0x4f, 0xb0, 0xd6, 0x96, 0x3f, 0x7d, 0x28, 0xe1, 0x7f, 0x72])"
  using md5_pieces [of new_ctx "[[97], [], [98, 99]]"] by (simp add: new_ctx_def md5_spec_abc)

lemma md5_buffer_spec:
  assumes "length (buffer ctx) = 128" "length M < 2 ^ 32"
  shows "md5_buffer ctx M = Some (md5_spec M)"
proof -
  obtain ctx1 where "md5_process_bytes M (md5_init_ctx ctx) = Some ctx1" "md5_inv ctx1 M"
    using process_bytes_spec [OF init_inv [OF assms(1)] assms(2)] by auto
  then show ?thesis using finish_spec [of ctx1 M] by (auto simp: md5_buffer_def)
qed

section \<open>Streams\<close>

text \<open>A stream whose remaining bytes are \<open>data s\<close>: a read gives a prefix of them, which is empty only at their end.\<close>

definition reads :: "(nat \<Rightarrow> 's \<Rightarrow> byte list \<times> 's) \<Rightarrow> ('s \<Rightarrow> byte list) \<Rightarrow> bool" where
  "reads fread data \<longleftrightarrow> (\<forall>n s. case fread n s of (xs, s') \<Rightarrow>
    length xs \<le> n \<and> data s = xs @ data s' \<and> (xs = [] \<longrightarrow> 0 < n \<longrightarrow> data s = []))"

lemma read_block_spec:
  assumes "reads fread data" "length acc < 4096"
  shows "\<exists>buf n s'. read_block fread acc s = Some (buf, n, s') \<and> acc @ data s = buf @ data s' \<and> length buf \<le> 4096 \<and>
    (if n = 0 then data s' = [] \<and> length buf < 4096 else length buf = 4096)"
  using assms(2)
proof (induction "4096 - length acc" arbitrary: acc s rule: less_induct)
  case less
  obtain xs s1 where r: "fread (4096 - length acc) s = (xs, s1)" by force
  have d: "length xs \<le> 4096 - length acc" "data s = xs @ data s1" "xs = [] \<longrightarrow> data s = []"
    using assms(1) less.prems r unfolding reads_def by (metis (mono_tags, lifting) case_prod_conv zero_less_diff)+
  show ?case
  proof (cases "length (acc @ xs) < 4096 \<and> xs \<noteq> []")
    case True
    then have "4096 - length (acc @ xs) < 4096 - length acc" using less.prems by (cases xs) auto
    then obtain buf n s' where "read_block fread (acc @ xs) s1 = Some (buf, n, s')" "(acc @ xs) @ data s1 = buf @ data s'"
      "length buf \<le> 4096" "if n = 0 then data s' = [] \<and> length buf < 4096 else length buf = 4096"
      using less.hyps [of "acc @ xs" s1] True by blast
    then show ?thesis using r d(2) True by (subst read_block.simps) (simp add: Let_def)
  next
    case False
    then have "read_block fread acc s = Some (acc @ xs, length xs, s1)" using r by (subst read_block.simps) (auto simp: Let_def)
    then show ?thesis using False d less.prems by (cases "xs = []") auto
  qed
qed

lemma stream_loop_spec:
  assumes "reads fread data" "\<forall>s. \<not> ferror s" "md5_core ctx P"
  shows "\<exists>buf ctx' P'. stream_loop fread ferror ctx s = Some (Some (buf, ctx')) \<and> P @ data s = P' @ buf \<and>
    md5_core ctx' P' \<and> buffer ctx' = buffer ctx \<and> buflen ctx' = buflen ctx \<and> length buf \<le> 4096"
  using assms(3)
proof (induction "length (data s)" arbitrary: s ctx P rule: less_induct)
  case less
  obtain buf n s' where b: "read_block fread [] s = Some (buf, n, s')" "data s = buf @ data s'" "length buf \<le> 4096"
    "if n = 0 then data s' = [] \<and> length buf < 4096 else length buf = 4096"
    using read_block_spec [OF assms(1), of "[]" s] by auto
  show ?case
  proof (cases "n = 0")
    case True
    then have "stream_loop fread ferror ctx s = Some (Some (buf, ctx))"
      using b(1) assms(2) by (subst stream_loop.simps) simp
    then show ?thesis using b True less.prems by (intro exI [of _ buf] exI [of _ ctx] exI [of _ P]) simp
  next
    case False
    then have len: "length buf = 4096" using b(4) by simp
    then obtain ctx1 where c: "md5_process_block buf ctx = Some ctx1" "md5_core ctx1 (P @ buf)" "buffer ctx1 = buffer ctx" "buflen ctx1 = buflen ctx"
      using process_block_spec [OF less.prems, of buf] by auto
    have "length (data s') < length (data s)" using b(2) len by simp
    then obtain buf' ctx' P' where "stream_loop fread ferror ctx1 s' = Some (Some (buf', ctx'))" "(P @ buf) @ data s' = P' @ buf'"
      "md5_core ctx' P'" "buffer ctx' = buffer ctx1" "buflen ctx' = buflen ctx1" "length buf' \<le> 4096"
      using less.hyps [OF _ c(2)] by blast
    then show ?thesis using b(1,2) c False by (subst stream_loop.simps) simp
  qed
qed

text \<open>C36: On a stream that gives its data in pieces of any size and has no error, md5_stream ends with the digest of
  the data, and it agrees with md5_buffer on the same bytes.\<close>

theorem md5_stream_correct:
  assumes "length (buffer ctx) = 128" "reads fread data" "\<forall>s. \<not> ferror s"
  shows "md5_stream fread ferror ctx s = Some (Some (md5_spec (data s))) \<and>
    (length (data s) < 2 ^ 32 \<longrightarrow> md5_buffer ctx (data s) = Some (md5_spec (data s)))"
proof -
  have init: "md5_rep (md5_init_ctx ctx) [] []" by (rule md5_init_rep [OF assms(1)])
  then obtain buf ctx' P where s: "stream_loop fread ferror (md5_init_ctx ctx) s = Some (Some (buf, ctx'))" "data s = P @ buf"
    "md5_core ctx' P" "buffer ctx' = buffer (md5_init_ctx ctx)" "buflen ctx' = buflen (md5_init_ctx ctx)" "length buf \<le> 4096"
    using stream_loop_spec [OF assms(2,3), of "md5_init_ctx ctx" "[]" s] by (auto simp: md5_rep_def)
  have "md5_rep ctx' P []" using init s by (simp add: md5_rep_def)
  then have inv: "md5_inv ctx' P" by (auto simp: md5_inv_def)
  obtain c1 where "(if length buf > 0 then md5_process_bytes buf ctx' else Some ctx') = Some c1" "md5_inv c1 (data s)"
    using process_bytes_spec [OF inv, of buf] inv s(2,6) by (cases "buf = []") auto
  moreover from this obtain c2 where "md5_finish_ctx c1 = Some (c2, md5_spec (data s))" using finish_spec by blast
  ultimately show ?thesis using s(1) md5_buffer_spec [OF assms(1), of "data s"] by (simp add: md5_stream_def del: length_greater_0_conv)
qed

theorem md5_stream_correct_witness:
  "md5_stream (\<lambda>n s. (take (min n 1) s, drop (min n 1) s)) (\<lambda>_. False) new_ctx [97, 98, 99] =
    Some (Some [0x90, 0x01, 0x50, 0x98, 0x3c, 0xd2, 0x4f, 0xb0, 0xd6, 0x96, 0x3f, 0x7d, 0x28, 0xe1, 0x7f, 0x72])"
proof -
  have "reads (\<lambda>n s. (take (min n 1) s, drop (min n 1) s)) (\<lambda>s :: byte list. s)"
    by (auto simp: reads_def min_def)
  then show ?thesis
    using md5_stream_correct [of new_ctx "\<lambda>n s. (take (min n 1) s, drop (min n 1) s)" "\<lambda>s. s" "\<lambda>_. False" "[97, 98, 99]"]
    by (simp add: new_ctx_def md5_spec_abc)
qed

end
