(* ===== verification/Limbs.thy ===== *)
theory Limbs
  imports CMem
begin

text \<open>
  Limbs: the 32-bit digits of the multi-precision routines, with the two-limb primitives of
  \<^verbatim>\<open>stdlib/longlong.h\<close> and \<^verbatim>\<open>stdlib/gmp-impl.h\<close>. The primitives are the portable C macros
  (the ones that need no assembler): \<open>umul_ppmm\<close>, \<open>udiv_qrnnd\<close> with its two half-word steps,
  \<open>add_ssaaaa\<close>, \<open>sub_ddmmss\<close>, \<open>count_leading_zeros\<close> and the division by an inverted divisor
  \<open>udiv_qrnnd_preinv\<close>. Each is shown to compute the two-limb product, quotient, remainder, sum
  or difference of the numbers its limbs stand for.

  \<open>val xs\<close> is the natural number a little-endian limb vector stands for.
\<close>

type_synonym limb = u32
type_synonym lmem = "limb mem"

definition base :: nat where
  "base = 2 ^ 32"

fun val :: "limb list \<Rightarrow> nat" where
  "val [] = 0"
| "val (x # xs) = unat x + base * val xs"

lemma base_gt_0 [simp]: "0 < base" and base_gt_1 [simp]: "1 < base"
  by (simp_all add: base_def)

lemma unat_limb_less: "unat (x :: limb) < base"
  using unsigned_less [of x, where ?'a = nat] by (simp add: base_def)

lemma val_append: "val (xs @ ys) = val xs + base ^ length xs * val ys"
  by (induction xs) (simp_all add: algebra_simps)

lemma val_snoc: "val (xs @ [x]) = val xs + base ^ length xs * unat x"
  by (simp add: val_append)

lemma val_less: "val xs < base ^ length xs"
proof (induction xs)
  case Nil
  then show ?case by simp
next
  case (Cons x xs)
  then have "val xs + 1 \<le> base ^ length xs" by simp
  then have "base * (val xs + 1) \<le> base * base ^ length xs" by (rule mult_le_mono2)
  then have "base + base * val xs \<le> base ^ length (x # xs)" by (simp add: algebra_simps)
  then show ?case using unat_limb_less [of x] by simp
qed

lemma val_replicate_0 [simp]: "val (replicate n 0) = 0"
  by (induction n) simp_all

lemma val_inj: "length xs = length ys \<Longrightarrow> val xs = val ys \<Longrightarrow> xs = ys"
proof (induction xs ys rule: list_induct2)
  case Nil
  then show ?case by simp
next
  case (Cons x xs y ys)
  from Cons.prems have e: "unat x + base * val xs = unat y + base * val ys" by simp
  have "(unat x + base * val xs) mod base = (unat y + base * val ys) mod base" by (simp only: e)
  then have "unat x = unat y" by (simp add: unat_limb_less)
  with e have "val xs = val ys" using base_gt_0 by simp
  with Cons.IH \<open>unat x = unat y\<close> show ?case by (simp add: word_unat_eq_iff)
qed

section \<open>Half words\<close>

definition ll_B :: limb where
  "ll_B = push_bit 16 1"

definition ll_lowpart :: "limb \<Rightarrow> limb" where
  "ll_lowpart t = t AND (ll_B - 1)"

definition ll_highpart :: "limb \<Rightarrow> limb" where
  "ll_highpart t = drop_bit 16 t"

lemma ll_B_eq: "ll_B = 0x10000"
  by (simp add: ll_B_def)

lemma unat_ll_lowpart: "unat (ll_lowpart t) = unat t mod 2 ^ 16"
proof -
  have "ll_lowpart t = take_bit 16 t"
    by (simp add: ll_lowpart_def ll_B_eq take_bit_eq_mask mask_eq_exp_minus_1)
  then show ?thesis by (simp add: unsigned_take_bit_eq take_bit_eq_mod unat_mod_distrib)
qed

lemma unat_ll_highpart: "unat (ll_highpart t) = unat t div 2 ^ 16"
  unfolding ll_highpart_def unat_drop_bit_eq by (rule drop_bit_eq_div)

lemma unat_lt_64k_or:
  assumes "unat a < 2 ^ 16" "unat (b :: limb) < 2 ^ 16"
  shows "unat (a * ll_B OR b) = unat a * 2 ^ 16 + unat b"
proof -
  have a: "a * ll_B = push_bit 16 a"
    by (simp add: ll_B_eq push_bit_eq_mult)
  have b: "take_bit 16 b = b"
    using assms(2) by (simp add: word_unat_eq_iff unsigned_take_bit_eq take_bit_eq_mod unat_mod_distrib)
  have "\<not> bit b n" if "16 \<le> n" for n
    using that b by (metis bit_take_bit_iff not_le)
  then have "push_bit 16 a AND b = 0"
    by (intro bit_word_eqI) (auto simp: bit_simps)
  then have "a * ll_B OR b = a * ll_B + b"
    by (simp add: a disjunctive_add_eq_or)
  moreover have "unat (a * ll_B) = unat a * 2 ^ 16"
    using assms(1) by (simp add: ll_B_eq unat_word_ariths)
  ultimately show ?thesis
    using assms by (simp add: unat_word_ariths)
qed

section \<open>Two-limb addition and subtraction\<close>

definition add_ssaaaa :: "limb \<Rightarrow> limb \<Rightarrow> limb \<Rightarrow> limb \<Rightarrow> limb \<times> limb" where
  "add_ssaaaa ah al bh bl = (let x = al + bl in (ah + bh + b2w (x < al), x))"

definition sub_ddmmss :: "limb \<Rightarrow> limb \<Rightarrow> limb \<Rightarrow> limb \<Rightarrow> limb \<times> limb" where
  "sub_ddmmss ah al bh bl = (let x = al - bl in (ah - bh - b2w (x > al), x))"

text \<open>The carry and borrow idioms of the C code: \<open>sum < addend\<close>, \<open>difference > minuend\<close>.\<close>

lemma unat_add_mod: "unat (a + b) = (unat a + unat (b :: limb)) mod base"
  by (simp only: unat_word_ariths base_def) simp

lemma add_carry: "unat (a + b) + base * of_bool (a + b < (a :: limb)) = unat a + unat b"
proof -
  have "(unat a + unat b) mod base = (if unat a + unat b < base then unat a + unat b
      else unat a + unat b - base)"
    using unat_limb_less [of a] unat_limb_less [of b] by (simp add: mod_if)
  then show ?thesis
    unfolding word_less_nat_alt unat_add_mod
    using unat_limb_less [of a] unat_limb_less [of b] by (simp split: if_splits)
qed

lemma sub_borrow: "unat (a - b) + unat b = unat a + base * of_bool (a - b > (a :: limb))"
proof -
  have "unat (a - b) = (if unat b \<le> unat a then unat a - unat b else unat a + base - unat b)"
    unfolding unat_sub_if' base_def by simp
  then show ?thesis
    unfolding word_less_nat_alt
    using unat_limb_less [of a] unat_limb_less [of b]
    by (cases "unat b \<le> unat a") (auto simp: not_less)
qed

lemma sub_borrow_iff: "a - b > (a :: limb) \<longleftrightarrow> unat a < unat b"
proof (cases "a - b > a")
  case True
  then show ?thesis using sub_borrow [of a b] unat_limb_less [of "a - b"] by simp
next
  case False
  then show ?thesis using sub_borrow [of a b] by simp
qed

lemma add_carry_iff: "a + b < (a :: limb) \<longleftrightarrow> base \<le> unat a + unat b"
proof (cases "a + b < a")
  case True
  then show ?thesis using add_carry [of a b] by simp
next
  case False
  then show ?thesis using add_carry [of a b] unat_limb_less [of "a + b"] by simp
qed

definition val2 :: "limb \<Rightarrow> limb \<Rightarrow> nat" where
  "val2 h l = unat h * base + unat l"

lemma val2_less: "val2 h l < base * base"
proof -
  have "unat h * base + unat l < unat h * base + base" by (simp add: unat_limb_less)
  also have "\<dots> = (unat h + 1) * base" by simp
  also have "\<dots> \<le> base * base" using unat_limb_less [of h] by (intro mult_le_mono1) linarith
  finally show ?thesis by (simp add: val2_def)
qed

lemma add_ssaaaa_val:
  assumes "add_ssaaaa ah al bh bl = (sh, sl)"
  shows "val2 sh sl = (val2 ah al + val2 bh bl) mod (base * base)"
proof -
  have sl: "sl = al + bl" and sh: "sh = ah + bh + b2w (al + bl < al)"
    using assms by (auto simp: add_ssaaaa_def Let_def)
  have "unat sh = (unat ah + unat bh + of_bool (al + bl < al)) mod base"
    by (simp add: sh unat_add_mod mod_simps unat_b2w)
  then obtain k where k: "unat ah + unat bh + of_bool (al + bl < al) = unat sh + k * base"
    by (metis div_mod_decomp add.commute)
  have "val2 ah al + val2 bh bl = (unat ah + unat bh) * base + (unat al + unat bl)"
    by (simp add: val2_def algebra_simps)
  also have "unat al + unat bl = base * of_bool (al + bl < al) + unat sl"
    unfolding sl using add_carry [of al bl] by simp
  also have "(unat ah + unat bh) * base + \<dots> = (unat ah + unat bh + of_bool (al + bl < al)) * base + unat sl"
    by (simp add: algebra_simps)
  also have "\<dots> = val2 sh sl + k * (base * base)"
    unfolding k val2_def by (simp add: algebra_simps)
  finally show ?thesis using val2_less [of sh sl] by simp
qed

lemma sub_ddmmss_val:
  assumes "sub_ddmmss ah al bh bl = (sh, sl)" "val2 bh bl \<le> val2 ah al"
  shows "val2 sh sl = val2 ah al - val2 bh bl"
proof -
  have sl: "sl = al - bl" and sh: "sh = ah - bh - b2w (al - bl > al)"
    using assms by (auto simp: sub_ddmmss_def Let_def)
  let ?c = "of_bool (al - bl > al) :: nat"
  have lo: "unat sl + unat bl = unat al + base * ?c"
    using sub_borrow [of al bl] by (simp add: sl)
  have "unat bh + ?c \<le> unat ah"
  proof (rule ccontr)
    assume "\<not> unat bh + ?c \<le> unat ah"
    then have "(unat ah + 1) * base \<le> (unat bh + ?c) * base" by (intro mult_le_mono1) linarith
    then show False
      using lo assms(2) unat_limb_less [of sl] by (simp add: val2_def algebra_simps)
  qed
  moreover have "unat sh = unat ah - unat bh - ?c"
    using calculation unfolding sh
    by (simp add: unat_sub_if' unat_b2w)
  ultimately obtain d where "unat sh = d" "unat ah = unat bh + ?c + d"
    by (metis add_diff_inverse_nat diff_diff_add not_less)
  then show ?thesis using lo by (simp add: val2_def algebra_simps)
qed

section \<open>Products of two limbs\<close>

text \<open>
  The portable \<open>umul_ppmm\<close>: four half-word products, with the carry of the middle sum added in
  its place.
\<close>

definition umul_ppmm :: "limb \<Rightarrow> limb \<Rightarrow> limb \<times> limb" where
  "umul_ppmm u v =
    (let ul = ll_lowpart u; uh = ll_highpart u; vl = ll_lowpart v; vh = ll_highpart v;
         x0 = ul * vl; x1 = ul * vh; x2 = uh * vl; x3 = uh * vh;
         x1' = x1 + ll_highpart x0;
         x1'' = x1' + x2;
         x3' = (if x1'' < x2 then x3 + ll_B else x3)
     in (x3' + ll_highpart x1'', push_bit 16 (ll_lowpart x1'') + ll_lowpart x0))"

lemma unat_half_mult:
  assumes "unat (a :: limb) < 2 ^ 16" "unat b < 2 ^ 16"
  shows "unat (a * b) = unat a * unat b" "unat a * unat b \<le> (2 ^ 16 - 1) * (2 ^ 16 - 1)"
proof -
  show le: "unat a * unat b \<le> (2 ^ 16 - 1) * (2 ^ 16 - 1)"
    using assms by (intro mult_le_mono) linarith+
  then show "unat (a * b) = unat a * unat b"
    by (simp add: unat_word_ariths)
qed

lemma unat_halves: "unat (u :: limb) = unat (ll_highpart u) * 2 ^ 16 + unat (ll_lowpart u)"
  unfolding unat_ll_highpart unat_ll_lowpart by simp

lemma unat_highpart_less: "unat (ll_highpart u) < 2 ^ 16"
  unfolding unat_ll_highpart using unat_limb_less [of u] by (simp add: base_def)

lemma unat_lowpart_less: "unat (ll_lowpart u) < 2 ^ 16"
  unfolding unat_ll_lowpart by simp

lemma umul_ppmm_val:
  assumes "umul_ppmm u v = (w1, w0)"
  shows "val2 w1 w0 = unat u * unat v"
proof -
  let ?ul = "ll_lowpart u" and ?uh = "ll_highpart u" and ?vl = "ll_lowpart v" and ?vh = "ll_highpart v"
  define x0 x1 x2 x3 where "x0 = ?ul * ?vl" and "x1 = ?ul * ?vh" and "x2 = ?uh * ?vl" and "x3 = ?uh * ?vh"
  define y where "y = x1 + ll_highpart x0"
  define z where "z = y + x2"
  have w: "w1 = (if z < x2 then x3 + ll_B else x3) + ll_highpart z"
    "w0 = push_bit 16 (ll_lowpart z) + ll_lowpart x0"
    using assms by (auto simp: umul_ppmm_def Let_def x0_def x1_def x2_def x3_def y_def z_def)
  note lt = unat_highpart_less unat_lowpart_less
  have x: "unat x0 = unat ?ul * unat ?vl" "unat x1 = unat ?ul * unat ?vh"
    "unat x2 = unat ?uh * unat ?vl" "unat x3 = unat ?uh * unat ?vh"
    unfolding x0_def x1_def x2_def x3_def by (rule unat_half_mult(1) [OF lt(2) lt(2)]
      unat_half_mult(1) [OF lt(2) lt(1)] unat_half_mult(1) [OF lt(1) lt(2)] unat_half_mult(1) [OF lt(1) lt(1)])+
  have le: "unat x1 \<le> (2 ^ 16 - 1) * (2 ^ 16 - 1)" "unat x3 \<le> (2 ^ 16 - 1) * (2 ^ 16 - 1)"
    "unat x2 \<le> (2 ^ 16 - 1) * (2 ^ 16 - 1)"
    unfolding x by (rule unat_half_mult(2) lt)+
  have y: "unat y = unat x1 + unat (ll_highpart x0)"
    unfolding y_def unat_add_mod using le(1) lt(1) [of x0] by (intro mod_less) (simp add: base_def)
  have z: "unat z + base * of_bool (z < x2) = unat y + unat x2"
    using add_carry [of x2 y] by (simp add: z_def add.commute)
  have w0: "unat w0 = unat (ll_lowpart z) * 2 ^ 16 + unat (ll_lowpart x0)"
  proof -
    have "unat (push_bit 16 (ll_lowpart z)) = unat (ll_lowpart z) * 2 ^ 16"
      using lt(2) [of z] by (simp add: push_bit_eq_mult unat_word_ariths)
    then show ?thesis
      unfolding w(2) unat_add_mod using lt(2) [of z] lt(2) [of x0]
      by (intro trans [OF mod_less]) (simp_all add: base_def)
  qed
  have "unat u * unat v = unat x3 * base + (unat x1 + unat x2) * 2 ^ 16 + unat x0"
    unfolding x unat_halves [of u] unat_halves [of v] by (simp add: base_def algebra_simps)
  also have "unat x0 = unat (ll_highpart x0) * 2 ^ 16 + unat (ll_lowpart x0)"
    by (rule unat_halves)
  also have "unat x3 * base + (unat x1 + unat x2) * 2 ^ 16 + \<dots>
      = unat x3 * base + (unat y + unat x2) * 2 ^ 16 + unat (ll_lowpart x0)"
    unfolding y by (simp add: algebra_simps)
  also have "\<dots> = (unat x3 + 2 ^ 16 * of_bool (z < x2) + unat (ll_highpart z)) * base + unat w0"
    unfolding z [symmetric] w0 by (subst unat_halves [of z]) (simp add: base_def algebra_simps)
  finally have eq: "unat u * unat v = (unat x3 + 2 ^ 16 * of_bool (z < x2) + unat (ll_highpart z)) * base + unat w0" .
  have "unat w1 = (unat x3 + 2 ^ 16 * of_bool (z < x2) + unat (ll_highpart z)) mod base"
    unfolding w(1) unat_add_mod by (simp add: unat_add_mod ll_B_eq mod_simps)
  moreover have "unat x3 + 2 ^ 16 * of_bool (z < x2) + unat (ll_highpart z) < base"
    
  proof -
    have "unat u * unat v < base * base" by (intro mult_strict_mono) (simp_all add: unat_limb_less)
    then have "(unat x3 + 2 ^ 16 * of_bool (z < x2) + unat (ll_highpart z)) * base < base * base"
      unfolding eq by linarith
    then show ?thesis by simp
  qed
  ultimately show ?thesis by (simp add: val2_def eq)
qed

section \<open>Division of two limbs by one\<close>

text \<open>
  \<open>__udiv_qrnnd_c\<close> divides \<open>n1 * 2^32 + n0\<close> by a divisor whose top bit is set, one half word
  of the quotient at a time. Its two halves are the same text with different variables;
  \<open>udiv_half\<close> is that text: \<open>r\<close> is the remainder so far and \<open>h\<close> the half word of the dividend
  that is brought down.
\<close>

definition udiv_half :: "limb \<Rightarrow> limb \<Rightarrow> limb \<Rightarrow> limb \<times> limb" where
  "udiv_half n h d =
    (let d1 = ll_highpart d; d0 = ll_lowpart d;
         r1 = n mod d1; q1 = n div d1; m = q1 * d0;
         r1 = r1 * ll_B OR h
     in if r1 < m
        then (let q1 = q1 - 1; r1 = r1 + d
              in if r1 \<ge> d \<and> r1 < m then (q1 - 1, r1 + d - m) else (q1, r1 - m))
        else (q1, r1 - m))"

definition udiv_qrnnd :: "limb \<Rightarrow> limb \<Rightarrow> limb \<Rightarrow> limb \<times> limb" where
  "udiv_qrnnd n1 n0 d =
    (let (q1, r1) = udiv_half n1 (ll_highpart n0) d;
         (q0, r0) = udiv_half r1 (ll_lowpart n0) d
     in (q1 * ll_B OR q0, r0))"

definition normalized :: "limb \<Rightarrow> bool" where
  "normalized d \<longleftrightarrow> 2 ^ 31 \<le> unat d"

text \<open>
  The arithmetic of one half step: with \<open>T\<close> the part of the dividend at hand, \<open>q1\<close> the trial
  quotient and \<open>m\<close> the part of \<open>q1 * d\<close> the trial ignored, the quotient is \<open>q1\<close>, \<open>q1 - 1\<close> or
  \<open>q1 - 2\<close>.
\<close>

lemma half_step_arith:
  fixes n d d1 d0 h :: nat
  assumes d: "d = d1 * 2 ^ 16 + d0" "d0 < 2 ^ 16" "2 ^ 15 \<le> d1" "d1 < 2 ^ 16"
    and n: "n < d" and h: "h < 2 ^ 16"
  defines "x \<equiv> (n mod d1) * 2 ^ 16 + h" and "m \<equiv> (n div d1) * d0"
  shows "n div d1 \<le> 2 ^ 16 + 1" "m < 2 ^ 32" "x < d" "x < 2 ^ 32"
    "(n div d1) * d + x = n * 2 ^ 16 + h + m"
    "m \<le> x + 2 * d"
proof -
  have "n < d1 * (2 ^ 16 + 2)" using d n by simp
  then have "n div d1 < 2 ^ 16 + 2"
    using d(3) by (simp add: less_mult_imp_div_less mult.commute)
  then show q: "n div d1 \<le> 2 ^ 16 + 1" by simp
  have "m \<le> (2 ^ 16 + 1) * (2 ^ 16 - 1)"
    unfolding m_def using q d(2) by (intro mult_le_mono) linarith+
  then show m: "m < 2 ^ 32" by simp
  have "n mod d1 < d1" using d(3) by simp
  then have "x < d1 * 2 ^ 16" using h by (simp add: x_def)
  then show "x < d" using d by simp
  have "d1 * 2 ^ 16 \<le> 2 ^ 16 * 2 ^ 16" using d(4) by (intro mult_le_mono1) simp
  with \<open>x < d1 * 2 ^ 16\<close> show "x < 2 ^ 32" by simp
  have "n = (n div d1) * d1 + n mod d1" by simp
  then have "n * 2 ^ 16 = (n div d1) * d1 * 2 ^ 16 + (n mod d1) * 2 ^ 16" by (metis add_mult_distrib)
  then show "(n div d1) * d + x = n * 2 ^ 16 + h + m"
    unfolding x_def m_def d(1) by (simp add: algebra_simps)
  show "m \<le> x + 2 * d" using m d by simp
qed

lemma udiv_half_val:
  assumes d: "normalized d" and n: "unat n < unat d" and h: "unat h < 2 ^ 16"
    and r: "udiv_half n h d = (q, r)"
  shows "unat q * unat d + unat r = unat n * 2 ^ 16 + unat h" "unat r < unat d" "unat q < 2 ^ 16"
proof -
  let ?d1 = "unat (ll_highpart d)" and ?d0 = "unat (ll_lowpart d)"
  define q1 where "q1 = n div ll_highpart d"
  define m where "m = q1 * ll_lowpart d"
  define x where "x = (n mod ll_highpart d) * ll_B OR h"
  define T where "T = unat n * 2 ^ 16 + unat h"
  have d1: "2 ^ 15 \<le> ?d1"
    using d unfolding normalized_def unat_ll_highpart by simp
  note arith = half_step_arith [OF unat_halves unat_lowpart_less d1 unat_highpart_less n h]
  have q1: "unat q1 = unat n div ?d1" by (simp add: q1_def unat_div_distrib)
  have m: "unat m = unat q1 * ?d0"
    using arith(2) by (simp add: m_def q1 unat_word_ariths)
  have "unat n mod ?d1 < 2 ^ 16"
    using d1 unat_highpart_less [of d] by (meson less_trans mod_less_divisor zero_less_numeral zero_less_power less_le_trans)
  then have x: "unat x = (unat n mod ?d1) * 2 ^ 16 + unat h"
    unfolding x_def using h by (subst unat_lt_64k_or) (simp_all add: unat_mod_distrib)
  have eq: "unat q1 * unat d + unat x = T + unat m" and xd: "unat x < unat d" and m2: "unat m \<le> unat x + 2 * unat d"
    using arith unfolding q1 [symmetric] m [symmetric] x [symmetric] T_def by auto
  have qr: "(q, r) = (if x < m then (if x + d \<ge> d \<and> x + d < m then (q1 - 1 - 1, x + d + d - m)
      else (q1 - 1, x + d - m)) else (q1, x - m))"
    using r by (simp add: udiv_half_def Let_def x_def m_def q1_def cong: if_cong)
  have carry: "unat (x + d) + base * of_bool (x + d < d) = unat x + unat d"
    using add_carry [of d x] by (simp add: add.commute)
  have goal1: "unat q * unat d + unat r = T \<and> unat r < unat d"
  proof (cases "x < m")
    case False
    then have "q = q1" "r = x - m" "unat m \<le> unat x" using qr by (auto simp: word_less_nat_alt)
    then show ?thesis using eq xd by (simp add: unat_sub_if')
  next
    case True
    then have lt: "unat x < unat m" by (simp add: word_less_nat_alt)
    have q1pos: "0 < unat q1"
      using lt m by (cases "unat q1 = 0") auto
    then have q1m: "unat (q1 - 1) = unat q1 - 1" by (simp add: unat_gt_0 unat_minus_one)
    have q1m': "(unat q1 - 1) * unat d + unat d = unat q1 * unat d"
      using q1pos by (cases "unat q1") auto
    show ?thesis
    proof (cases "x + d \<ge> d \<and> x + d < m")
      case False
      then have v: "q = q1 - 1" "r = x + d - m" using qr True by auto
      have ge: "unat m \<le> unat x + unat d"
      proof (cases "x + d < d")
        case True
        then show ?thesis using carry unat_limb_less [of m] by simp
      next
        case False
        then show ?thesis using carry \<open>\<not> (x + d \<ge> d \<and> x + d < m)\<close> by (simp add: word_le_nat_alt word_less_nat_alt)
      qed
      have "unat r = unat x + unat d - unat m"
        unfolding v unat_sub_if' using carry ge lt unat_limb_less [of m] unat_limb_less [of d] xd
        by (cases "x + d < d") (auto simp: base_def)
      moreover have "unat q * unat d + unat d = unat q1 * unat d" using v(1) q1m q1m' by simp
      ultimately show ?thesis using eq lt ge by linarith
    next
      case True
      then have v: "q = q1 - 1 - 1" "r = x + d + d - m" using qr \<open>x < m\<close> by auto
      have nc: "unat (x + d) = unat x + unat d" "unat x + unat d < unat m"
        using True carry by (auto simp: word_le_nat_alt word_less_nat_alt not_less)
      have "1 < unat q1"
      proof (rule ccontr)
        assume "\<not> 1 < unat q1"
        with q1pos have "unat q1 = 1" by simp
        then show False using eq nc by simp
      qed
      then have q: "unat q = unat q1 - 2"
        unfolding v by (simp add: q1m unat_sub_if')
      obtain k where k: "unat q1 = k + 2" using \<open>1 < unat q1\<close> by (metis Suc_1 Suc_leI le_Suc_ex add.commute)
      have r': "r = (x + d) - (m - d)" by (simp add: v)
      have md: "unat (m - d) = unat m - unat d" using nc by (simp add: unat_sub_if')
      have "unat r = unat x + 2 * unat d - unat m"
      proof -
        have "unat m - unat d \<le> unat (x + d)" using m2 nc(1) by linarith
        then have "unat r = unat (x + d) - (unat m - unat d)" unfolding r' unat_sub_if' [of "x + d" "m - d"] md by simp
        then show ?thesis using nc by linarith
      qed
      moreover have "unat q * unat d + 2 * unat d = unat q1 * unat d" using q k by (simp add: algebra_simps)
      ultimately show ?thesis using eq nc m2 by linarith
    qed
  qed
  then show "unat q * unat d + unat r = unat n * 2 ^ 16 + unat h" "unat r < unat d"
    by (auto simp: T_def)
  show "unat q < 2 ^ 16"
  proof (rule ccontr)
    assume "\<not> unat q < 2 ^ 16"
    then have "65536 * unat d \<le> unat q * unat d" by (intro mult_le_mono1) simp
    moreover have "T < (unat n + 1) * 65536" using h by (simp add: T_def)
    moreover have "(unat n + 1) * 65536 \<le> unat d * 65536" using n by (intro mult_le_mono1) linarith
    ultimately show False using conjunct1 [OF goal1] by linarith
  qed
qed

lemma udiv_qrnnd_val:
  assumes d: "normalized d" and n: "unat n1 < unat d" and r: "udiv_qrnnd n1 n0 d = (q, r)"
  shows "unat q * unat d + unat r = val2 n1 n0" "unat r < unat d"
proof -
  obtain q1 r1 where h1: "udiv_half n1 (ll_highpart n0) d = (q1, r1)" by fastforce
  obtain q0 r0 where h0: "udiv_half r1 (ll_lowpart n0) d = (q0, r0)" by fastforce
  note v1 = udiv_half_val [OF d n unat_highpart_less h1]
  note v0 = udiv_half_val [OF d v1(2) unat_lowpart_less h0]
  have qr: "q = q1 * ll_B OR q0" "r = r0" using r by (simp_all add: udiv_qrnnd_def h1 h0)
  have "unat q * unat d + unat r = (unat q1 * unat d + unat r1) * 2 ^ 16 + unat (ll_lowpart n0)"
    unfolding qr unat_lt_64k_or [OF v1(3) v0(3)] using v0(1) by (simp add: algebra_simps)
  also have "\<dots> = unat n1 * base + unat n0"
    unfolding v1(1) by (simp add: unat_halves [of n0] base_def algebra_simps)
  finally show "unat q * unat d + unat r = val2 n1 n0" by (simp add: val2_def)
  show "unat r < unat d" using v0(2) by (simp add: qr)
qed

lemma udiv_qrnnd_eq:
  assumes "normalized d" "unat n1 < unat d" "udiv_qrnnd n1 n0 d = (q, r)"
  shows "unat q = val2 n1 n0 div unat d" "unat r = val2 n1 n0 mod unat d"
proof -
  note v = udiv_qrnnd_val [OF assms]
  from v(2) show "unat q = val2 n1 n0 div unat d" "unat r = val2 n1 n0 mod unat d"
    by (simp_all flip: v(1))
qed

section \<open>Leading zeros\<close>

definition clz_tab :: "nat list" where
  "clz_tab = [0, 1, 2, 2] @ replicate 4 3 @ replicate 8 4 @ replicate 16 5 @ replicate 32 6
     @ replicate 64 7 @ replicate 128 8"

definition count_leading_zeros :: "limb \<Rightarrow> nat" where
  "count_leading_zeros x =
    (let a = (if x < push_bit 16 1 then (if x < push_bit 8 1 then 0 else 8)
              else (if x < push_bit 24 1 then 16 else 24))
     in 32 - (clz_tab ! unat (drop_bit a x) + a))"

lemma clz_tab_nth:
  assumes "i < 256"
  shows "clz_tab ! i = (if i = 0 then 0 else if i < 2 then 1 else if i < 4 then 2 else if i < 8 then 3
    else if i < 16 then 4 else if i < 32 then 5 else if i < 64 then 6 else if i < 128 then 7 else 8)"
  unfolding clz_tab_def using assms by (auto simp: nth_append nth_Cons')

lemma clz_tab_bitlen:
  assumes "0 < i" "i < 256"
  shows "0 < clz_tab ! i" "2 ^ (clz_tab ! i - 1) \<le> i" "i < 2 ^ (clz_tab ! i)"
  unfolding clz_tab_nth [OF assms(2)] using assms by auto

lemma count_leading_zeros_shift:
  assumes "x \<noteq> 0"
  defines "c \<equiv> count_leading_zeros x"
  shows "c < 32" "2 ^ 31 \<le> unat x * 2 ^ c" "unat x * 2 ^ c < 2 ^ 32"
proof -
  define a :: nat where "a = (if x < push_bit 16 1 then (if x < push_bit 8 1 then 0 else 8)
              else (if x < push_bit 24 1 then 16 else 24))"
  define i where "i = unat x div 2 ^ a"
  have x: "0 < unat x" "unat x < 2 ^ 32"
    using assms(1) unat_limb_less [of x] by (simp_all add: unat_gt_0 base_def)
  have a: "a \<le> 24" "2 ^ a \<le> unat x \<or> a = 0" "unat x < 2 ^ (a + 8)"
    using x by (auto simp: a_def word_less_nat_alt)
  have i0: "0 < i"
    using a(2) x by (auto simp: i_def div_greater_zero_iff)
  have "unat x < 256 * 2 ^ a" using a(3) by (simp add: power_add)
  then have i: "0 < i" "i < 256" using i0 by (auto simp: i_def less_mult_imp_div_less)
  note t = clz_tab_bitlen [OF i]
  have t8: "clz_tab ! i \<le> 8" unfolding clz_tab_nth [OF i(2)] by simp
  have c: "c + (clz_tab ! i + a) = 32"
  proof -
    have "c = 32 - (clz_tab ! unat (drop_bit a x) + a)"
      unfolding c_def count_leading_zeros_def Let_def a_def ..
    moreover have "unat (drop_bit a x) = i"
      unfolding i_def unat_drop_bit_eq by (rule drop_bit_eq_div)
    ultimately show ?thesis using t8 a(1) by simp
  qed
  then show "c < 32" using t(1) by simp
  have lo: "2 ^ (clz_tab ! i - 1 + a) \<le> unat x"
  proof -
    have "2 ^ (clz_tab ! i - 1) * 2 ^ a \<le> i * 2 ^ a" using t(2) by simp
    also have "\<dots> \<le> unat x" by (simp add: i_def)
    finally show ?thesis by (simp add: power_add)
  qed
  have hi: "unat x < 2 ^ (clz_tab ! i + a)"
  proof -
    have "unat x < (i + 1) * 2 ^ a" by (simp add: i_def dividend_less_div_times)
    also have "\<dots> \<le> 2 ^ (clz_tab ! i) * 2 ^ a" using t(3) by (intro mult_le_mono1) simp
    finally show ?thesis by (simp add: power_add)
  qed
  have "2 ^ (clz_tab ! i - 1 + a) * 2 ^ c \<le> unat x * 2 ^ c" using lo by simp
  moreover have "clz_tab ! i - 1 + a + c = 31" using c t(1) by simp
  ultimately show "2 ^ 31 \<le> unat x * 2 ^ c" by (metis power_add)
  have "unat x * 2 ^ c < 2 ^ (clz_tab ! i + a) * 2 ^ c" using hi by simp
  then show "unat x * 2 ^ c < 2 ^ 32" using c by (metis power_add add.commute)
qed

section \<open>Division by an inverted divisor\<close>

definition udiv_qrnnd_preinv :: "limb \<Rightarrow> limb \<Rightarrow> limb \<Rightarrow> limb \<Rightarrow> limb \<times> limb" where
  "udiv_qrnnd_preinv nh nl d di =
    (let (q, ql) = umul_ppmm nh di;
         q = q + nh;
         (xh, xl) = umul_ppmm q d;
         (xh, r) = sub_ddmmss nh nl xh xl;
         (q, r) = (if xh \<noteq> 0
           then (let (xh, r) = sub_ddmmss xh r 0 d; q = q + 1
                 in if xh \<noteq> 0 then (let (xh, r) = sub_ddmmss xh r 0 d in (q + 1, r)) else (q, r))
           else (q, r))
     in if r \<ge> d then (q + 1, r - d) else (q, r))"

text \<open>The inverse of a normalized divisor, as the callers compute it.\<close>

definition invert_limb :: "limb \<Rightarrow> limb" where
  "invert_limb d = (if push_bit 1 d = 0 then NOT 0 else fst (udiv_qrnnd (- d) 0 d))"

lemma invert_limb_val:
  assumes d: "normalized d"
  shows "(base + unat (invert_limb d)) * unat d \<le> base * base"
    "base * base \<le> (base + unat (invert_limb d) + 1) * unat d"
proof -
  have du: "2 ^ 31 \<le> unat d" "unat d < 2 ^ 32" using d unat_limb_less [of d] by (simp_all add: normalized_def base_def)
  have "(base + unat (invert_limb d)) * unat d \<le> base * base \<and>
    base * base \<le> (base + unat (invert_limb d) + 1) * unat d"
  proof (cases "push_bit 1 d = 0")
    case True
    then have "(unat d * 2) mod 2 ^ 32 = 0"
      using unat_word_ariths(2) [of d 2] by (simp add: push_bit_eq_mult mult.commute)
    then have "unat d = 2 ^ 31" using du by (auto simp: dvd_def elim!: dvdE simp flip: dvd_eq_mod_eq_0)
    moreover have "unat (invert_limb d) = 2 ^ 32 - 1"
      using True unat_minus_one [of "0 :: limb"] by (simp add: invert_limb_def unsigned_minus_1_eq_mask mask_eq_exp_minus_1)
    ultimately show ?thesis by (simp add: base_def)
  next
    case False
    have nz: "d \<noteq> 0" using du by auto
    have m: "unat (- d) = 2 ^ 32 - unat d"
      using nz unat_sub_if' [of 0 d] by (simp add: unat_gt_0)
    have ne: "unat d \<noteq> 2 ^ 31"
    proof
      assume "unat d = 2 ^ 31"
      then have "d = 0x80000000" by (simp add: word_unat_eq_iff)
      with False show False by simp
    qed
    then have lt: "unat (- d) < unat d" using m du by simp
    obtain q r where qr: "udiv_qrnnd (- d) 0 d = (q, r)" by fastforce
    note v = udiv_qrnnd_val [OF d lt qr]
    have iv: "invert_limb d = q" using False by (simp add: invert_limb_def qr)
    have "(base + unat q) * unat d + unat r = base * base"
      using v(1) m du by (simp add: val2_def base_def algebra_simps diff_mult_distrib)
    then show ?thesis using v(2) iv by (simp add: algebra_simps)
  qed
  then show "(base + unat (invert_limb d)) * unat d \<le> base * base"
    "base * base \<le> (base + unat (invert_limb d) + 1) * unat d" by auto
qed

lemma preinv_last_step:
  fixes qc rc d q r :: limb
  assumes d: "base \<le> 2 * unat d" and qr: "unat qc * unat d + unat rc = n" and n: "n < unat d * base"
    and r: "(q, r) = (if rc \<ge> d then (qc + 1, rc - d) else (qc, rc))"
  shows "unat q * unat d + unat r = n \<and> unat r < unat d"
proof (cases "unat d \<le> unat rc")
  case True
  have "(unat qc + 1) * unat d \<le> n" using True qr by simp
  with n have "(unat qc + 1) * unat d < base * unat d" by (simp add: mult.commute)
  then have "unat qc + 1 < base" by (rule mult_less_cancel2 [THEN iffD1, THEN conjunct2])
  then have "unat (qc + 1) = unat qc + 1" unfolding unat_add_mod by simp
  then show ?thesis
    using r qr True d unat_limb_less [of rc] by (simp add: word_le_nat_alt unat_sub_if')
next
  case False
  then show ?thesis using r qr by (simp add: word_le_nat_alt)
qed

lemma udiv_qrnnd_preinv_val:
  assumes d: "normalized d" and di: "(base + unat di) * unat d \<le> base * base"
    "base * base \<le> (base + unat di + 1) * unat d"
    and n: "unat nh < unat d" and r: "udiv_qrnnd_preinv nh nl d di = (q, r)"
  shows "unat q * unat d + unat r = val2 nh nl \<and> unat r < unat d"
proof -
  have d2: "base \<le> 2 * unat d" using d by (simp add: normalized_def base_def)
  obtain q0 ql where m1: "umul_ppmm nh di = (q0, ql)" by fastforce
  define q1 where "q1 = q0 + nh"
  obtain xh xl where m2: "umul_ppmm q1 d = (xh, xl)" by fastforce
  obtain yh y where s1: "sub_ddmmss nh nl xh xl = (yh, y)" by fastforce
  obtain zh z where s2: "sub_ddmmss yh y 0 d = (zh, z)" by fastforce
  obtain wh w where s3: "sub_ddmmss zh z 0 d = (wh, w)" by fastforce
  let ?v = "base + unat di" and ?n = "val2 nh nl" and ?d = "unat d"
  have p: "(unat q0 + unat nh) * base + unat ql = unat nh * ?v"
    using umul_ppmm_val [OF m1] by (simp add: val2_def algebra_simps)
  have "unat nh * ?v * ?d \<le> unat nh * (base * base)"
    using mult_le_mono2 [OF di(1), of "unat nh"] by (simp add: algebra_simps)
  moreover have "(unat q0 + unat nh) * base * ?d \<le> unat nh * ?v * ?d" using p by (intro mult_le_mono1) linarith
  ultimately have "(unat q0 + unat nh) * base * ?d \<le> unat nh * (base * base)" by (rule order_trans [rotated])
  moreover have "(unat q0 + unat nh) * base * ?d = (unat q0 + unat nh) * ?d * base"
    "unat nh * (base * base) = unat nh * base * base" by (simp_all only: ac_simps)
  ultimately have "(unat q0 + unat nh) * ?d * base \<le> unat nh * base * base" by (simp only:)
  then have le: "(unat q0 + unat nh) * ?d \<le> unat nh * base" by simp
  have "(unat q0 + unat nh) * ?d < ?d * base" using le n base_gt_0
    by (meson le_less_trans mult_less_mono1)
  then have "unat q0 + unat nh < base" by (simp add: mult.commute)
  then have q1: "unat q1 = unat q0 + unat nh" by (simp add: q1_def unat_add_mod)
  have x: "val2 xh xl = unat q1 * ?d" by (rule umul_ppmm_val [OF m2])
  have xn: "unat q1 * ?d \<le> ?n" using le by (simp add: q1 val2_def)
  have y: "val2 yh y = ?n - unat q1 * ?d" using sub_ddmmss_val [OF s1] x xn by simp
  have "unat nh * (base * base) \<le> unat nh * ((?v + 1) * ?d)" using di(2) by (intro mult_le_mono2) simp
  also have "\<dots> = (unat nh * ?v) * ?d + unat nh * ?d" by (simp add: algebra_simps)
  also have "\<dots> \<le> ((unat q1 * base + base) * ?d) + base * ?d"
    using p q1 unat_limb_less [of ql] unat_limb_less [of nh] by (intro add_mono mult_le_mono1) simp_all
  finally have "unat nh * base * base \<le> (unat q1 * ?d + 2 * ?d) * base" by (simp add: algebra_simps)
  then have "unat nh * base \<le> unat q1 * ?d + 2 * ?d" by simp
  then have yb: "val2 yh y < base + 2 * ?d" using y xn unat_limb_less [of nl] by (simp add: val2_def)
  have two: "val2 h l < base \<longleftrightarrow> h = 0" for h l
  proof
    assume "val2 h l < base"
    then have "unat h * base < 1 * base" unfolding val2_def by linarith
    then show "h = 0" by (simp add: unat_0_iff)
  qed (simp add: val2_def unat_limb_less)
  have db: "?d < base" by (rule unat_limb_less)
  have zz: "val2 0 d = ?d" by (simp add: val2_def)
  have q2: "unat (q1 + k) = unat q1 + unat k" if "(unat q1 + unat k) * ?d \<le> ?n" for k
  proof -
    have "?n < ?d * base"
      using n unat_limb_less [of nl] mult_le_mono1 [of "unat nh + 1" ?d base] by (simp add: val2_def)
    with that have "(unat q1 + unat k) * ?d < base * ?d" unfolding mult.commute [of base] by (rule le_less_trans)
    then have "unat q1 + unat k < base" by (rule mult_less_cancel2 [THEN iffD1, THEN conjunct2])
    then show ?thesis by (simp add: unat_add_mod)
  qed
  have nb: "?n < ?d * base"
    using n unat_limb_less [of nl] mult_le_mono1 [of "unat nh + 1" ?d base] by (simp add: val2_def)
  note last = preinv_last_step [OF d2 _ nb]
  have res: "(q, r) = (let (qc, rc) = (if yh \<noteq> 0 then (if zh \<noteq> 0 then (q1 + 1 + 1, w) else (q1 + 1, z))
      else (q1, y)) in if rc \<ge> d then (qc + 1, rc - d) else (qc, rc))"
    using r by (cases "yh = 0"; cases "zh = 0")
      (simp_all add: udiv_qrnnd_preinv_def m1 m2 s1 s2 s3 q1_def [symmetric] Let_def split del: if_split)
  show "unat q * unat d + unat r = val2 nh nl \<and> unat r < unat d"
  proof (cases "yh = 0")
    case True
    then show ?thesis using res y xn by (intro last [of q1 y]) (simp_all add: val2_def)
  next
    case y0: False
    then have "base \<le> val2 yh y" using two [of yh y] by simp
    then have z: "val2 zh z = val2 yh y - ?d" "?d \<le> val2 yh y"
      using sub_ddmmss_val [OF s2] zz db by simp_all
    have qz: "(unat q1 + 1) * ?d + val2 zh z = ?n" using z y xn by simp
    have e1: "unat (q1 + 1) = unat q1 + 1" using q2 [of 1] qz by simp
    show ?thesis
    proof (cases "zh = 0")
      case True
      then show ?thesis using res y0 qz e1 by (intro last [of "q1 + 1" z]) (simp_all add: val2_def)
    next
      case z0: False
      then have "base \<le> val2 zh z" using two [of zh z] by simp
      then have w: "val2 wh w = val2 zh z - ?d" "?d \<le> val2 zh z"
        using sub_ddmmss_val [OF s3] zz db by simp_all
      have "val2 wh w < base" using w z yb by simp
      then have w0: "wh = 0" using two by simp
      have qw: "(unat q1 + 2) * ?d + val2 wh w = ?n" using qz w by simp
      have e2: "unat (q1 + 2) = unat q1 + 2" using q2 [of 2] qw by simp
      show ?thesis using res y0 z0 w0 qw e2 by (intro last [of "q1 + 2" w]) (simp_all add: val2_def)
    qed
  qed
qed

section \<open>Properties\<close>

text \<open>The division of a two-limb number by a normalised limb, in two half steps of 16 bits, and the
  division by multiplication with the precomputed inverse, both give quotient and remainder; so
  the second may stand for the first.\<close>

theorem udiv_qrnnd_preinv_equiv:
  assumes "normalized d" "unat nh < unat d"
  shows "udiv_qrnnd_preinv nh nl d (invert_limb d) = udiv_qrnnd nh nl d \<and>
    udiv_qrnnd nh nl d = (of_nat (val2 nh nl div unat d), of_nat (val2 nh nl mod unat d))"
proof -
  obtain q r where q: "udiv_qrnnd nh nl d = (q, r)" by fastforce
  obtain q' r' where q': "udiv_qrnnd_preinv nh nl d (invert_limb d) = (q', r')" by fastforce
  have v: "unat q = val2 nh nl div unat d" "unat r = val2 nh nl mod unat d"
    using udiv_qrnnd_eq [OF assms q] by auto
  have p: "unat q' * unat d + unat r' = val2 nh nl" "unat r' < unat d"
    using udiv_qrnnd_preinv_val [OF assms(1) invert_limb_val [OF assms(1)] assms(2) q'] by auto
  have "unat q' = val2 nh nl div unat d" "unat r' = val2 nh nl mod unat d" using p(2) by (simp_all flip: p(1))
  then have "q' = q" "r' = r" using v by (simp_all add: word_unat_eq_iff)
  moreover have "q = of_nat (val2 nh nl div unat d)" "r = of_nat (val2 nh nl mod unat d)" by (simp_all flip: v)
  ultimately show ?thesis using q q' by simp
qed

lemma udiv_qrnnd_preinv_equiv_witness:
  "udiv_qrnnd_preinv 5 7 0x80000001 (invert_limb 0x80000001) = udiv_qrnnd 5 7 0x80000001 \<and>
   udiv_qrnnd 5 7 0x80000001 = (of_nat (val2 5 7 div 0x80000001), of_nat (val2 5 7 mod 0x80000001))"
  using udiv_qrnnd_preinv_equiv [of "0x80000001" 5 7] by (simp add: normalized_def)

end
