(* ===== verification/Mpn.thy ===== *)
theory Mpn
  imports Limbs
begin

text \<open>
  The linear routines on limb vectors: \<^verbatim>\<open>gmp/mpn-add_n.c\<close>, \<^verbatim>\<open>mpn-sub_n.c\<close>, \<^verbatim>\<open>mpn-mul_1.c\<close>,
  \<^verbatim>\<open>mpn-addmul_1.c\<close>, \<^verbatim>\<open>mpn-submul_1.c\<close>, \<^verbatim>\<open>mpn-cmp.c\<close>, \<^verbatim>\<open>mpn-lshift.c\<close>, \<^verbatim>\<open>mpn-rshift.c\<close>, and
  the inline functions \<open>mpn_add_1\<close>, \<open>mpn_sub_1\<close>, \<open>mpn_add\<close>, \<open>mpn_sub\<close> of \<^verbatim>\<open>stdlib/gmp.h\<close>.

  Pointers are limb addresses in a limb memory. The C loops run an index from \<open>-size\<close> to \<open>-1\<close>
  over pointers moved up by \<open>size\<close>; here the pointers move and the last argument counts the
  limbs left. The bodies are \<open>do ... while\<close> loops, so a vector of size zero is run off its end:
  that is \<open>None\<close>. Five of the routines have the shape of one upward pass with a carry; the
  locale \<open>limb_pass\<close> states what the step of such a pass has to satisfy and proves the vector
  theorem once.
\<close>

section \<open>Passes with a carry\<close>

fun pass :: "(limb \<Rightarrow> limb \<Rightarrow> limb \<Rightarrow> limb \<times> limb) \<Rightarrow> lmem \<Rightarrow> nat \<Rightarrow> nat \<Rightarrow> nat \<Rightarrow> nat \<Rightarrow> limb
    \<Rightarrow> (lmem \<times> limb) option" where
  "pass f m r p q 0 c = None"
| "pass f m r p q (Suc k) c =
    do { x \<leftarrow> ld m p; y \<leftarrow> ld m q;
         let (z, c') = f x y c;
         m' \<leftarrow> st m r z;
         if k = 0 then Some (m', c') else pass f m' (Suc r) (Suc p) (Suc q) k c' }"

text \<open>
  A step maps two limbs and the carry in to a limb and the carry out such that, up to the sign
  \<open>s\<close> of the carry, the two-limb result is \<open>a * x + b * y\<close> plus the carry in.
\<close>

locale limb_pass =
  fixes step :: "limb \<Rightarrow> limb \<Rightarrow> limb \<Rightarrow> limb \<times> limb"
    and s a b :: int
    and cok :: "limb \<Rightarrow> bool"
  assumes step_val: "step x y c = (z, c') \<Longrightarrow> cok c \<Longrightarrow>
      int (unat z) + s * (int base * int (unat c')) = a * int (unat x) + b * int (unat y) + s * int (unat c)"
    and step_cok: "step x y c = (z, c') \<Longrightarrow> cok c \<Longrightarrow> cok c'"
begin

lemma pass_spec:
  assumes "block m p xs" "block m q ys" "length ys = length xs" "xs \<noteq> []" "cok c"
    and "mapped m r (length xs)" "up_ok r p (length xs)" "up_ok r q (length xs)"
  shows "\<exists>zs c'. pass step m r p q (length xs) c = Some (wr m r zs, c') \<and> length zs = length xs \<and> cok c' \<and>
    int (val zs) + s * (int base ^ length xs * int (unat c'))
      = a * int (val xs) + b * int (val ys) + s * int (unat c)"
  using assms
proof (induction xs arbitrary: m p q r ys c)
  case Nil
  then show ?case by simp
next
  case (Cons x xs)
  from Cons.prems(3) obtain y ys' where ys: "ys = y # ys'" "length ys' = length xs"
    by (cases ys) auto
  obtain z c1 where f: "step x y c = (z, c1)" by fastforce
  note sv = step_val [OF f Cons.prems(5)] and c1 = step_cok [OF f Cons.prems(5)]
  have l: "ld m p = Some x" "ld m q = Some y" "st m r z = Some (m(r \<mapsto> z))"
    using Cons.prems by (auto simp: ld_def ys block_Cons mapped_Suc)
  show ?case
  proof (cases "xs = []")
    case True
    then have "pass step m r p q (length (x # xs)) c = Some (wr m r [z], c1)"
      using l f by (simp add: wr_Cons)
    moreover have "ys' = []" using True ys by simp
    ultimately show ?thesis using sv c1 True ys by (intro exI [of _ "[z]"] exI [of _ c1]) simp
  next
    case False
    let ?m = "m(r \<mapsto> z)"
    have b: "block ?m (Suc p) xs" "block ?m (Suc q) ys'"
      using Cons.prems by (auto simp: ys block_Cons block_upd_other up_ok_def)
    have "mapped ?m (Suc r) (length xs)" "up_ok (Suc r) (Suc p) (length xs)" "up_ok (Suc r) (Suc q) (length xs)"
      using Cons.prems by (auto simp: mapped_Suc up_ok_def)
    with Cons.IH [OF b ys(2) False c1] obtain zs c' where
      IH: "pass step ?m (Suc r) (Suc p) (Suc q) (length xs) c1 = Some (wr ?m (Suc r) zs, c')" "length zs = length xs" "cok c'"
      and v: "int (val zs) + s * (int base ^ length xs * int (unat c'))
        = a * int (val xs) + b * int (val ys') + s * int (unat c1)"
      by blast
    have "pass step m r p q (length (x # xs)) c = Some (wr m r (z # zs), c')"
      using l f IH(1) False by (simp add: wr_Cons)
    moreover have "int (val (z # zs)) + s * (int base ^ length (x # xs) * int (unat c'))
        = int (unat z) + int base * (int (val zs) + s * (int base ^ length xs * int (unat c')))"
      by (simp add: algebra_simps)
    then have "int (val (z # zs)) + s * (int base ^ length (x # xs) * int (unat c'))
        = a * int (val (x # xs)) + b * int (val ys) + s * int (unat c)"
      unfolding v ys using sv by (simp add: algebra_simps)
    ultimately show ?thesis using IH by (intro exI [of _ "z # zs"] exI [of _ c']) simp
  qed
qed

end

section \<open>Addition and subtraction of vectors\<close>

fun mpn_add_n_loop :: "lmem \<Rightarrow> nat \<Rightarrow> nat \<Rightarrow> nat \<Rightarrow> nat \<Rightarrow> limb \<Rightarrow> (lmem \<times> limb) option" where
  "mpn_add_n_loop m res s1 s2 0 cy = None"
| "mpn_add_n_loop m res s1 s2 (Suc k) cy =
    do { y \<leftarrow> ld m s2;
         x \<leftarrow> ld m s1;
         let y = y + cy;
         let cy = b2w (y < cy);
         let y = x + y;
         let cy = b2w (y < x) + cy;
         m \<leftarrow> st m res y;
         if k = 0 then Some (m, cy) else mpn_add_n_loop m (Suc res) (Suc s1) (Suc s2) k cy }"

definition mpn_add_n :: "lmem \<Rightarrow> nat \<Rightarrow> nat \<Rightarrow> nat \<Rightarrow> nat \<Rightarrow> (lmem \<times> limb) option" where
  "mpn_add_n m res s1 s2 n = mpn_add_n_loop m res s1 s2 n 0"

fun mpn_sub_n_loop :: "lmem \<Rightarrow> nat \<Rightarrow> nat \<Rightarrow> nat \<Rightarrow> nat \<Rightarrow> limb \<Rightarrow> (lmem \<times> limb) option" where
  "mpn_sub_n_loop m res s1 s2 0 cy = None"
| "mpn_sub_n_loop m res s1 s2 (Suc k) cy =
    do { y \<leftarrow> ld m s2;
         x \<leftarrow> ld m s1;
         let y = y + cy;
         let cy = b2w (y < cy);
         let y = x - y;
         let cy = b2w (y > x) + cy;
         m \<leftarrow> st m res y;
         if k = 0 then Some (m, cy) else mpn_sub_n_loop m (Suc res) (Suc s1) (Suc s2) k cy }"

definition mpn_sub_n :: "lmem \<Rightarrow> nat \<Rightarrow> nat \<Rightarrow> nat \<Rightarrow> nat \<Rightarrow> (lmem \<times> limb) option" where
  "mpn_sub_n m res s1 s2 n = mpn_sub_n_loop m res s1 s2 n 0"

definition add_step :: "limb \<Rightarrow> limb \<Rightarrow> limb \<Rightarrow> limb \<times> limb" where
  "add_step x y c = (x + (y + c), b2w (x + (y + c) < x) + b2w (y + c < c))"

definition sub_step :: "limb \<Rightarrow> limb \<Rightarrow> limb \<Rightarrow> limb \<times> limb" where
  "sub_step x y c = (x - (y + c), b2w (x - (y + c) > x) + b2w (y + c < c))"

lemma mpn_add_n_pass: "mpn_add_n_loop m r p q n c = pass add_step m r p q n c"
  by (induction m r p q n c rule: mpn_add_n_loop.induct)
    (auto simp: add_step_def Let_def ld_def split: Option.bind_split)

lemma mpn_sub_n_pass: "mpn_sub_n_loop m r p q n c = pass sub_step m r p q n c"
  by (induction m r p q n c rule: mpn_sub_n_loop.induct)
    (auto simp: sub_step_def Let_def ld_def split: Option.bind_split)

text \<open>The two carries of a step cannot both occur.\<close>

lemma carry_step:
  assumes "unat (c :: limb) \<le> 1"
  shows "unat (y + c) + base * of_bool (y + c < c) = unat y + unat c"
    "y + c < c \<Longrightarrow> y + c = 0"
proof -
  show e: "unat (y + c) + base * of_bool (y + c < c) = unat y + unat c"
    using add_carry [of c y] by (simp add: add.commute)
  show "y + c = 0" if "y + c < c"
  proof -
    have "unat (y + c) = 0" using that e assms unat_limb_less [of y] by simp
    then show ?thesis by (simp only: unat_0_iff)
  qed
qed

lemma unat_two_carries: "\<not> (p \<and> q) \<Longrightarrow> unat (b2w p + b2w q :: limb) = of_bool p + of_bool q"
  by (cases p; cases q) simp_all

interpretation addn: limb_pass add_step 1 1 1 "\<lambda>c. unat c \<le> 1"
proof
  fix x y c z c' :: limb
  assume s: "add_step x y c = (z, c')" and c: "unat c \<le> 1"
  have excl: "\<not> (x + (y + c) < x \<and> y + c < c)" using carry_step(2) [OF c, of y] by auto
  have z: "z = x + (y + c)" and c': "unat c' = of_bool (x + (y + c) < x) + of_bool (y + c < c)"
    using s unat_two_carries [OF excl] by (auto simp: add_step_def)
  show "unat c' \<le> 1" using excl by (simp add: c' of_bool_def)
  have "unat z + base * unat c' = unat x + unat y + unat c"
    using add_carry [of x "y + c"] carry_step(1) [OF c, of y] by (simp add: z c' distrib_left)
  then have "int (unat z + base * unat c') = int (unat x + unat y + unat c)" by (simp only:)
  then show "int (unat z) + 1 * (int base * int (unat c')) = 1 * int (unat x) + 1 * int (unat y) + 1 * int (unat c)"
    by (simp only: of_nat_mult of_nat_add mult_1)
qed

interpretation subn: limb_pass sub_step "-1" 1 "-1" "\<lambda>c. unat c \<le> 1"
proof
  fix x y c z c' :: limb
  assume s: "sub_step x y c = (z, c')" and c: "unat c \<le> 1"
  have excl: "\<not> (x - (y + c) > x \<and> y + c < c)" using carry_step(2) [OF c, of y] by auto
  have z: "z = x - (y + c)" and c': "unat c' = of_bool (x - (y + c) > x) + of_bool (y + c < c)"
    using s unat_two_carries [OF excl] by (auto simp: sub_step_def)
  show "unat c' \<le> 1" using excl by (simp add: c' of_bool_def)
  have "unat z + unat y + unat c = unat x + base * unat c'"
    using sub_borrow [of x "y + c"] carry_step(1) [OF c, of y] by (simp add: z c' distrib_left)
  then have "int (unat z + unat y + unat c) = int (unat x + base * unat c')" by (simp only:)
  then have "int (unat z) + int (unat y) + int (unat c) = int (unat x) + int base * int (unat c')"
    by (simp only: of_nat_mult of_nat_add)
  then show "int (unat z) + - 1 * (int base * int (unat c')) = 1 * int (unat x) + - 1 * int (unat y) + - 1 * int (unat c)"
    by simp
qed

lemma mpn_add_n_spec:
  assumes "block m p xs" "block m q ys" "length ys = length xs" "xs \<noteq> []"
    and "mapped m r (length xs)" "up_ok r p (length xs)" "up_ok r q (length xs)"
  shows "\<exists>zs cy. mpn_add_n m r p q (length xs) = Some (wr m r zs, cy) \<and> length zs = length xs \<and> unat cy \<le> 1 \<and>
    val zs + base ^ length xs * unat cy = val xs + val ys"
proof -
  obtain zs c where "pass add_step m r p q (length xs) 0 = Some (wr m r zs, c)" "length zs = length xs" "unat c \<le> 1"
    and v: "int (val zs) + 1 * (int base ^ length xs * int (unat c)) = 1 * int (val xs) + 1 * int (val ys) + 1 * int (unat (0 :: limb))"
    using addn.pass_spec [OF assms(1-4) _ assms(5-7), of 0] by auto
  moreover have "int (val zs + base ^ length xs * unat c) = int (val xs + val ys)" using v by simp
  then have "val zs + base ^ length xs * unat c = val xs + val ys" by (simp only: of_nat_eq_iff)
  ultimately show ?thesis by (auto simp: mpn_add_n_def mpn_add_n_pass)
qed

lemma mpn_sub_n_spec:
  assumes "block m p xs" "block m q ys" "length ys = length xs" "xs \<noteq> []"
    and "mapped m r (length xs)" "up_ok r p (length xs)" "up_ok r q (length xs)"
  shows "\<exists>zs cy. mpn_sub_n m r p q (length xs) = Some (wr m r zs, cy) \<and> length zs = length xs \<and> unat cy \<le> 1 \<and>
    val zs + val ys = val xs + base ^ length xs * unat cy"
proof -
  obtain zs c where "pass sub_step m r p q (length xs) 0 = Some (wr m r zs, c)" "length zs = length xs" "unat c \<le> 1"
    and v: "int (val zs) + - 1 * (int base ^ length xs * int (unat c)) = 1 * int (val xs) + - 1 * int (val ys) + - 1 * int (unat (0 :: limb))"
    using subn.pass_spec [OF assms(1-4) _ assms(5-7), of 0] by auto
  moreover have "int (val zs + val ys) = int (val xs + base ^ length xs * unat c)"
    using v by simp
  then have "val zs + val ys = val xs + base ^ length xs * unat c" by (simp only: of_nat_eq_iff)
  ultimately show ?thesis by (auto simp: mpn_sub_n_def mpn_sub_n_pass)
qed

section \<open>Multiplication by a limb\<close>

fun mpn_mul_1_loop :: "lmem \<Rightarrow> nat \<Rightarrow> nat \<Rightarrow> nat \<Rightarrow> limb \<Rightarrow> limb \<Rightarrow> (lmem \<times> limb) option" where
  "mpn_mul_1_loop m res s1 0 s2_limb cy_limb = None"
| "mpn_mul_1_loop m res s1 (Suc k) s2_limb cy_limb =
    do { x \<leftarrow> ld m s1;
         let (prod_high, prod_low) = umul_ppmm x s2_limb;
         let prod_low = prod_low + cy_limb;
         let cy_limb = b2w (prod_low < cy_limb) + prod_high;
         m \<leftarrow> st m res prod_low;
         if k = 0 then Some (m, cy_limb) else mpn_mul_1_loop m (Suc res) (Suc s1) k s2_limb cy_limb }"

definition mpn_mul_1 :: "lmem \<Rightarrow> nat \<Rightarrow> nat \<Rightarrow> nat \<Rightarrow> limb \<Rightarrow> (lmem \<times> limb) option" where
  "mpn_mul_1 m res s1 n s2_limb = mpn_mul_1_loop m res s1 n s2_limb 0"

fun mpn_addmul_1_loop :: "lmem \<Rightarrow> nat \<Rightarrow> nat \<Rightarrow> nat \<Rightarrow> limb \<Rightarrow> limb \<Rightarrow> (lmem \<times> limb) option" where
  "mpn_addmul_1_loop m res s1 0 s2_limb cy_limb = None"
| "mpn_addmul_1_loop m res s1 (Suc k) s2_limb cy_limb =
    do { u \<leftarrow> ld m s1;
         let (prod_high, prod_low) = umul_ppmm u s2_limb;
         let prod_low = prod_low + cy_limb;
         let cy_limb = b2w (prod_low < cy_limb) + prod_high;
         x \<leftarrow> ld m res;
         let prod_low = x + prod_low;
         let cy_limb = cy_limb + b2w (prod_low < x);
         m \<leftarrow> st m res prod_low;
         if k = 0 then Some (m, cy_limb) else mpn_addmul_1_loop m (Suc res) (Suc s1) k s2_limb cy_limb }"

definition mpn_addmul_1 :: "lmem \<Rightarrow> nat \<Rightarrow> nat \<Rightarrow> nat \<Rightarrow> limb \<Rightarrow> (lmem \<times> limb) option" where
  "mpn_addmul_1 m res s1 n s2_limb = mpn_addmul_1_loop m res s1 n s2_limb 0"

fun mpn_submul_1_loop :: "lmem \<Rightarrow> nat \<Rightarrow> nat \<Rightarrow> nat \<Rightarrow> limb \<Rightarrow> limb \<Rightarrow> (lmem \<times> limb) option" where
  "mpn_submul_1_loop m res s1 0 s2_limb cy_limb = None"
| "mpn_submul_1_loop m res s1 (Suc k) s2_limb cy_limb =
    do { u \<leftarrow> ld m s1;
         let (prod_high, prod_low) = umul_ppmm u s2_limb;
         let prod_low = prod_low + cy_limb;
         let cy_limb = b2w (prod_low < cy_limb) + prod_high;
         x \<leftarrow> ld m res;
         let prod_low = x - prod_low;
         let cy_limb = cy_limb + b2w (prod_low > x);
         m \<leftarrow> st m res prod_low;
         if k = 0 then Some (m, cy_limb) else mpn_submul_1_loop m (Suc res) (Suc s1) k s2_limb cy_limb }"

definition mpn_submul_1 :: "lmem \<Rightarrow> nat \<Rightarrow> nat \<Rightarrow> nat \<Rightarrow> limb \<Rightarrow> (lmem \<times> limb) option" where
  "mpn_submul_1 m res s1 n s2_limb = mpn_submul_1_loop m res s1 n s2_limb 0"

definition mul_step :: "limb \<Rightarrow> limb \<Rightarrow> limb \<Rightarrow> limb \<Rightarrow> limb \<times> limb" where
  "mul_step v x y c = (let (h, l) = umul_ppmm x v in (l + c, b2w (l + c < c) + h))"

definition addmul_step :: "limb \<Rightarrow> limb \<Rightarrow> limb \<Rightarrow> limb \<Rightarrow> limb \<times> limb" where
  "addmul_step v x y c = (let (l, h) = mul_step v x y c in (y + l, h + b2w (y + l < y)))"

definition submul_step :: "limb \<Rightarrow> limb \<Rightarrow> limb \<Rightarrow> limb \<Rightarrow> limb \<times> limb" where
  "submul_step v x y c = (let (l, h) = mul_step v x y c in (y - l, h + b2w (y - l > y)))"

lemma mpn_mul_1_pass: "mpn_mul_1_loop m r p n v c = pass (mul_step v) m r p p n c"
  by (induction m r p n v c rule: mpn_mul_1_loop.induct)
    (auto simp: mul_step_def Let_def ld_def split: Option.bind_split prod.split)

lemma mpn_addmul_1_pass: "mpn_addmul_1_loop m r p n v c = pass (addmul_step v) m r p r n c"
proof (induction n arbitrary: m r p c)
  case 0
  then show ?case by simp
next
  case (Suc n)
  show ?case
  proof (cases "m p = None \<or> m r = None")
    case True
    then show ?thesis by (cases "m p") (auto simp: ld_def)
  next
    case False
    then obtain x y where "m p = Some x" "m r = Some y" by auto
    then show ?thesis
      by (cases "umul_ppmm x v") (simp add: fun_upd_def ld_def Let_def Suc.IH addmul_step_def [of v x y c] mul_step_def [of v x y c])
  qed
qed

lemma mpn_submul_1_pass: "mpn_submul_1_loop m r p n v c = pass (submul_step v) m r p r n c"
proof (induction n arbitrary: m r p c)
  case 0
  then show ?case by simp
next
  case (Suc n)
  show ?case
  proof (cases "m p = None \<or> m r = None")
    case True
    then show ?thesis by (cases "m p") (auto simp: ld_def)
  next
    case False
    then obtain x y where "m p = Some x" "m r = Some y" by auto
    then show ?thesis
      by (cases "umul_ppmm x v") (simp add: fun_upd_def ld_def Let_def Suc.IH submul_step_def [of v x y c] mul_step_def [of v x y c])
  qed
qed

text \<open>No limb of carry overflows: the products leave room for both addends.\<close>

lemma limb_prod_le: "unat (x :: limb) * unat (y :: limb) + 2 * (base - 1) < base * base"
proof -
  have "unat x * unat y \<le> (base - 1) * (base - 1)"
    using unat_limb_less [of x] unat_limb_less [of y] by (intro mult_le_mono) linarith+
  then show ?thesis by (simp add: base_def)
qed

lemma unat_add_nc: "unat (a :: limb) + unat b < base \<Longrightarrow> unat (a + b) = unat a + unat b"
  by (simp add: unat_add_mod)

lemma mul_step_val:
  assumes "mul_step v x y c = (l, h)"
  shows "unat l + base * unat h = unat x * unat v + unat c"
proof -
  obtain ph pl where u: "umul_ppmm x v = (ph, pl)" by fastforce
  have l: "l = pl + c" and h: "h = b2w (pl + c < c) + ph" using assms by (auto simp: mul_step_def u)
  have p: "unat ph * base + unat pl = unat x * unat v" using umul_ppmm_val [OF u] by (simp add: val2_def)
  have c: "unat (pl + c) + base * of_bool (pl + c < c) = unat pl + unat c"
    using add_carry [of c pl] by (simp add: add.commute)
  have "(of_bool (pl + c < c) + unat ph) * base < base * base"
    using c p limb_prod_le [of x v] unat_limb_less [of c] by (simp add: algebra_simps)
  then have "of_bool (pl + c < c) + unat ph < base" by simp
  then have "unat h = of_bool (pl + c < c) + unat ph" by (simp add: h unat_add_nc unat_b2w)
  then show ?thesis using c p by (simp add: l algebra_simps)
qed

lemma addmul_step_val:
  assumes "addmul_step v x y c = (z, c')"
  shows "unat z + base * unat c' = unat x * unat v + unat y + unat c"
proof -
  obtain l h where s: "mul_step v x y c = (l, h)" by fastforce
  note v = mul_step_val [OF s]
  have z: "z = y + l" and c': "c' = h + b2w (y + l < y)" using assms by (auto simp: addmul_step_def s)
  note c = add_carry [of y l]
  have "base * (unat h + of_bool (y + l < y)) < base * base"
    using c v limb_prod_le [of x v] unat_limb_less [of c] unat_limb_less [of y] by (simp add: algebra_simps)
  then have "unat h + of_bool (y + l < y) < base" by simp
  then have "unat c' = unat h + of_bool (y + l < y)" by (simp add: c' unat_add_nc unat_b2w)
  then show ?thesis using c v by (simp add: z algebra_simps)
qed

lemma submul_step_val:
  assumes "submul_step v x y c = (z, c')"
  shows "unat z + (unat x * unat v + unat c) = unat y + base * unat c'"
proof -
  obtain l h where s: "mul_step v x y c = (l, h)" by fastforce
  note v = mul_step_val [OF s]
  have z: "z = y - l" and c': "c' = h + b2w (y - l > y)" using assms by (auto simp: submul_step_def s)
  note c = sub_borrow [of y l]
  have "unat h + of_bool (y - l > y) < base"
  proof (rule ccontr)
    assume a: "\<not> unat h + of_bool (y - l > y) < base"
    then have h: "unat h = base - 1" and b: "y - l > y"
      using unat_limb_less [of h] by (auto split: if_splits simp: of_bool_def)
    have "unat x * unat v \<le> (base - 1) * (base - 1)"
      using unat_limb_less [of x] unat_limb_less [of v] by (intro mult_le_mono) linarith+
    then have "base * (base - 1) + unat l \<le> (base - 1) * (base - 1) + (base - 1)"
      using v h unat_limb_less [of c] by simp
    then have "unat l = 0" by (simp add: base_def)
    then show False using b by (simp add: sub_borrow_iff)
  qed
  then have "unat c' = unat h + of_bool (y - l > y)" by (simp add: c' unat_add_nc unat_b2w)
  then show ?thesis using c v by (simp add: z algebra_simps)
qed


interpretation mul1: limb_pass "mul_step v" 1 "int (unat v)" 0 "\<lambda>_. True" for v
proof
  fix x y c z c' :: limb
  assume "mul_step v x y c = (z, c')"
  then have "int (unat z + base * unat c') = int (unat x * unat v + unat c)" by (simp only: mul_step_val)
  then show "int (unat z) + 1 * (int base * int (unat c')) = int (unat v) * int (unat x) + 0 * int (unat y) + 1 * int (unat c)"
    by (simp only: of_nat_mult of_nat_add mult_1 mult_zero_left add_0_right mult.commute)
qed simp

interpretation addmul1: limb_pass "addmul_step v" 1 "int (unat v)" 1 "\<lambda>_. True" for v
proof
  fix x y c z c' :: limb
  assume "addmul_step v x y c = (z, c')"
  then have "int (unat z + base * unat c') = int (unat x * unat v + unat y + unat c)" by (simp only: addmul_step_val)
  then show "int (unat z) + 1 * (int base * int (unat c')) = int (unat v) * int (unat x) + 1 * int (unat y) + 1 * int (unat c)"
    by (simp only: of_nat_mult of_nat_add mult_1 mult.commute)
qed simp

interpretation submul1: limb_pass "submul_step v" "-1" "- int (unat v)" 1 "\<lambda>_. True" for v
proof
  fix x y c z c' :: limb
  assume "submul_step v x y c = (z, c')"
  then have "int (unat z + (unat x * unat v + unat c)) = int (unat y + base * unat c')" by (simp only: submul_step_val)
  then have "int (unat z) + int (unat x) * int (unat v) + int (unat c) = int (unat y) + int base * int (unat c')"
    by (simp only: of_nat_mult of_nat_add add.assoc)
  then show "int (unat z) + - 1 * (int base * int (unat c')) = - int (unat v) * int (unat x) + 1 * int (unat y) + - 1 * int (unat c)"
    by (simp add: mult.commute)
qed simp

lemma mpn_mul_1_spec:
  assumes "block m p xs" "xs \<noteq> []" "mapped m r (length xs)" "up_ok r p (length xs)"
  shows "\<exists>zs cy. mpn_mul_1 m r p (length xs) v = Some (wr m r zs, cy) \<and> length zs = length xs \<and>
    val zs + base ^ length xs * unat cy = val xs * unat v"
proof -
  obtain zs c where "pass (mul_step v) m r p p (length xs) 0 = Some (wr m r zs, c)" "length zs = length xs"
    and v: "int (val zs) + 1 * (int base ^ length xs * int (unat c)) = int (unat v) * int (val xs) + 0 * int (val xs) + 1 * int (unat (0 :: limb))"
    using mul1.pass_spec [OF assms(1) assms(1) refl assms(2) TrueI assms(3,4,4), of v 0] by blast
  moreover have "int (val zs + base ^ length xs * unat c) = int (val xs * unat v)" using v by simp
  then have "val zs + base ^ length xs * unat c = val xs * unat v" by (simp only: of_nat_eq_iff)
  ultimately show ?thesis by (auto simp: mpn_mul_1_def mpn_mul_1_pass)
qed

lemma up_ok_refl [simp]: "up_ok r r n"
  by (simp add: up_ok_def)

lemma mpn_addmul_1_spec:
  assumes "block m p xs" "block m r ys" "length ys = length xs" "xs \<noteq> []" "up_ok r p (length xs)"
  shows "\<exists>zs cy. mpn_addmul_1 m r p (length xs) v = Some (wr m r zs, cy) \<and> length zs = length xs \<and>
    val zs + base ^ length xs * unat cy = val ys + val xs * unat v"
proof -
  have "mapped m r (length xs)" using block_mapped [OF assms(2)] assms(3) by simp
  then obtain zs c where "pass (addmul_step v) m r p r (length xs) 0 = Some (wr m r zs, c)" "length zs = length xs"
    and v: "int (val zs) + 1 * (int base ^ length xs * int (unat c)) = int (unat v) * int (val xs) + 1 * int (val ys) + 1 * int (unat (0 :: limb))"
    using addmul1.pass_spec [OF assms(1-4) TrueI _ assms(5) up_ok_refl, of v 0] by blast
  moreover have "int (val zs + base ^ length xs * unat c) = int (val ys + val xs * unat v)" using v by simp
  then have "val zs + base ^ length xs * unat c = val ys + val xs * unat v" by (simp only: of_nat_eq_iff)
  ultimately show ?thesis by (auto simp: mpn_addmul_1_def mpn_addmul_1_pass)
qed

lemma mpn_submul_1_spec:
  assumes "block m p xs" "block m r ys" "length ys = length xs" "xs \<noteq> []" "up_ok r p (length xs)"
  shows "\<exists>zs cy. mpn_submul_1 m r p (length xs) v = Some (wr m r zs, cy) \<and> length zs = length xs \<and>
    val zs + val xs * unat v = val ys + base ^ length xs * unat cy"
proof -
  have "mapped m r (length xs)" using block_mapped [OF assms(2)] assms(3) by simp
  then obtain zs c where "pass (submul_step v) m r p r (length xs) 0 = Some (wr m r zs, c)" "length zs = length xs"
    and v: "int (val zs) + - 1 * (int base ^ length xs * int (unat c)) = - int (unat v) * int (val xs) + 1 * int (val ys) + - 1 * int (unat (0 :: limb))"
    using submul1.pass_spec [OF assms(1-4) TrueI _ assms(5) up_ok_refl, of v 0] by blast
  moreover have "int (val zs + val xs * unat v) = int (val ys + base ^ length xs * unat c)"
    using v by (simp add: mult.commute)
  then have "val zs + val xs * unat v = val ys + base ^ length xs * unat c" by (simp only: of_nat_eq_iff)
  ultimately show ?thesis by (auto simp: mpn_submul_1_def mpn_submul_1_pass)
qed

section \<open>Adding and subtracting a limb\<close>

text \<open>
  The tail after the carry has died out is copied unless the operation is in place
  (label \<open>fin\<close> of the C code).
\<close>

definition mpn_1_fin :: "lmem \<Rightarrow> nat \<Rightarrow> nat \<Rightarrow> nat \<Rightarrow> (lmem \<times> limb) option" where
  "mpn_1_fin m res s1 k =
    do { m \<leftarrow> (if res \<noteq> s1 then copy_up m res s1 (k - 1) else Some m); Some (m, 0) }"

fun mpn_add_1_loop :: "lmem \<Rightarrow> nat \<Rightarrow> nat \<Rightarrow> nat \<Rightarrow> (lmem \<times> limb) option" where
  "mpn_add_1_loop m res s1 0 = None"
| "mpn_add_1_loop m res s1 (Suc k) =
    (if k = 0 then Some (m, 1)
     else do { x \<leftarrow> ld m s1;
               let x = x + 1;
               m \<leftarrow> st m res x;
               if x \<noteq> 0 then mpn_1_fin m (Suc res) (Suc s1) k else mpn_add_1_loop m (Suc res) (Suc s1) k })"

definition mpn_add_1 :: "lmem \<Rightarrow> nat \<Rightarrow> nat \<Rightarrow> nat \<Rightarrow> limb \<Rightarrow> (lmem \<times> limb) option" where
  "mpn_add_1 m res s1 n s2_limb =
    do { x \<leftarrow> ld m s1;
         let s2_limb = x + s2_limb;
         m \<leftarrow> st m res s2_limb;
         if s2_limb < x then mpn_add_1_loop m (Suc res) (Suc s1) n else mpn_1_fin m (Suc res) (Suc s1) n }"

fun mpn_sub_1_loop :: "lmem \<Rightarrow> nat \<Rightarrow> nat \<Rightarrow> nat \<Rightarrow> (lmem \<times> limb) option" where
  "mpn_sub_1_loop m res s1 0 = None"
| "mpn_sub_1_loop m res s1 (Suc k) =
    (if k = 0 then Some (m, 1)
     else do { x \<leftarrow> ld m s1;
               m \<leftarrow> st m res (x - 1);
               if x \<noteq> 0 then mpn_1_fin m (Suc res) (Suc s1) k else mpn_sub_1_loop m (Suc res) (Suc s1) k })"

definition mpn_sub_1 :: "lmem \<Rightarrow> nat \<Rightarrow> nat \<Rightarrow> nat \<Rightarrow> limb \<Rightarrow> (lmem \<times> limb) option" where
  "mpn_sub_1 m res s1 n s2_limb =
    do { x \<leftarrow> ld m s1;
         let s2_limb = x - s2_limb;
         m \<leftarrow> st m res s2_limb;
         if s2_limb > x then mpn_sub_1_loop m (Suc res) (Suc s1) n else mpn_1_fin m (Suc res) (Suc s1) n }"

lemma mpn_1_fin_spec:
  assumes "block m p xs" "mapped m r (length xs)" "up_ok r p (length xs)"
  shows "mpn_1_fin m r p (Suc (length xs)) = Some (wr m r xs, 0)"
  using assms copy_up_spec [OF assms] wr_block_id [of m p xs] by (auto simp: mpn_1_fin_def)

lemma mpn_1_tail:
  assumes "block m p (x # xs)" "mapped m r (Suc (length xs))" "up_ok r p (Suc (length xs))"
  shows "block (m(r \<mapsto> z)) (Suc p) xs" "mapped (m(r \<mapsto> z)) (Suc r) (length xs)" "st m r z = Some (m(r \<mapsto> z))"
    and mpn_1_head: "up_ok (Suc r) (Suc p) (length xs)" "ld m p = Some x"
  using assms by (auto simp: block_Cons mapped_Suc up_ok_def ld_def block_upd_other)

lemma unat_add_1: "unat ((x :: limb) + 1) + base * of_bool (x + 1 = 0) = unat x + 1"
proof (cases "x + 1 = 0")
  case True
  then have "unat x + 1 = base" using unat_add_mod [of x 1] unat_limb_less [of x]
    by (cases "unat x + 1 < base") auto
  then show ?thesis using True by simp
next
  case False
  then show ?thesis using unat_add_mod [of x 1] unat_limb_less [of x]
    by (cases "unat x + 1 < base") (auto simp flip: unat_0_iff simp: not_less le_Suc_eq)
qed

lemma unat_sub_1: "unat ((x :: limb) - 1) + 1 = unat x + base * of_bool (x = 0)"
proof -
  have "x - 1 > x \<longleftrightarrow> x = 0" unfolding sub_borrow_iff by (simp flip: unat_0_iff add: less_Suc_eq)
  then show ?thesis using sub_borrow [of x 1] by simp
qed

lemma mpn_add_1_loop_spec:
  assumes "block m p xs" "mapped m r (length xs)" "up_ok r p (length xs)"
  shows "\<exists>zs cy. mpn_add_1_loop m r p (Suc (length xs)) = Some (wr m r zs, cy) \<and> length zs = length xs \<and>
    unat cy \<le> 1 \<and> val zs + base ^ length xs * unat cy = val xs + 1"
  using assms
proof (induction xs arbitrary: m p r)
  case Nil
  then show ?case by (intro exI [of _ "[]"] exI [of _ 1]) simp
next
  case (Cons x xs)
  have "mapped m r (Suc (length xs))" "up_ok r p (Suc (length xs))" using Cons.prems by auto
  note t = mpn_1_tail(1,2) [OF Cons.prems(1) this, of "x + 1"] mpn_1_head [OF Cons.prems(1) this] mpn_1_tail(3) [OF Cons.prems(1) this, of "x + 1"]
  show ?case
  proof (cases "x + 1 = 0")
    case False
    then have "mpn_add_1_loop m r p (Suc (length (x # xs))) = Some (wr m r ((x + 1) # xs), 0)"
      using t mpn_1_fin_spec [OF t(1-3)] by (simp add: wr_Cons)
    moreover have "unat (x + 1) = unat x + 1" using unat_add_1 [of x] False by simp
    ultimately show ?thesis by (intro exI [of _ "(x + 1) # xs"] exI [of _ 0]) simp
  next
    case True
    obtain zs cy where z: "mpn_add_1_loop (m(r \<mapsto> x + 1)) (Suc r) (Suc p) (Suc (length xs)) = Some (wr (m(r \<mapsto> x + 1)) (Suc r) zs, cy)"
      "length zs = length xs" "unat cy \<le> 1" "val zs + base ^ length xs * unat cy = val xs + 1"
      using Cons.IH [OF t(1-3)] by blast
    have "mpn_add_1_loop m r p (Suc (length (x # xs))) = Some (wr m r ((x + 1) # zs), cy)"
      using t z(1) True by (simp add: wr_Cons)
    moreover have "base * val zs + base * (base ^ length xs * unat cy) = base * (val xs + 1)"
      by (simp only: z(4) flip: distrib_left)
    ultimately show ?thesis using z(2,3) unat_add_1 [of x] True
      by (intro exI [of _ "(x + 1) # zs"] exI [of _ cy]) (simp add: algebra_simps)
  qed
qed

lemma mpn_add_1_spec:
  assumes "block m p xs" "xs \<noteq> []" "mapped m r (length xs)" "up_ok r p (length xs)"
  shows "\<exists>zs cy. mpn_add_1 m r p (length xs) v = Some (wr m r zs, cy) \<and> length zs = length xs \<and>
    unat cy \<le> 1 \<and> val zs + base ^ length xs * unat cy = val xs + unat v"
proof -
  obtain x xs' where xs: "xs = x # xs'" using assms(2) by (cases xs) auto
  have "block m p (x # xs')" "mapped m r (Suc (length xs'))" "up_ok r p (Suc (length xs'))" using assms xs by auto
  note t = mpn_1_tail(1,2) [OF this, of "x + v"] mpn_1_head [OF this] mpn_1_tail(3) [OF this, of "x + v"]
  note c = add_carry [of x v]
  show ?thesis
  proof (cases "x + v < x")
    case False
    then have "mpn_add_1 m r p (length xs) v = Some (wr m r ((x + v) # xs'), 0)"
      using t mpn_1_fin_spec [OF t(1-3)] by (simp add: wr_Cons mpn_add_1_def xs)
    then show ?thesis using c False by (intro exI [of _ "(x + v) # xs'"] exI [of _ 0]) (simp add: xs)
  next
    case True
    obtain zs cy where z: "mpn_add_1_loop (m(r \<mapsto> x + v)) (Suc r) (Suc p) (Suc (length xs')) = Some (wr (m(r \<mapsto> x + v)) (Suc r) zs, cy)"
      "length zs = length xs'" "unat cy \<le> 1" "val zs + base ^ length xs' * unat cy = val xs' + 1"
      using mpn_add_1_loop_spec [OF t(1-3)] by blast
    have "mpn_add_1 m r p (length xs) v = Some (wr m r ((x + v) # zs), cy)"
      using t z(1) True by (simp add: wr_Cons mpn_add_1_def xs)
    moreover have "base * val zs + base * (base ^ length xs' * unat cy) = base * (val xs' + 1)"
      by (simp only: z(4) flip: distrib_left)
    ultimately show ?thesis using z(2,3) c True
      by (intro exI [of _ "(x + v) # zs"] exI [of _ cy]) (simp add: xs algebra_simps)
  qed
qed

lemma mpn_sub_1_loop_spec:
  assumes "block m p xs" "mapped m r (length xs)" "up_ok r p (length xs)"
  shows "\<exists>zs cy. mpn_sub_1_loop m r p (Suc (length xs)) = Some (wr m r zs, cy) \<and> length zs = length xs \<and>
    unat cy \<le> 1 \<and> val zs + 1 = val xs + base ^ length xs * unat cy"
  using assms
proof (induction xs arbitrary: m p r)
  case Nil
  then show ?case by (intro exI [of _ "[]"] exI [of _ 1]) simp
next
  case (Cons x xs)
  have "mapped m r (Suc (length xs))" "up_ok r p (Suc (length xs))" using Cons.prems by auto
  note t = mpn_1_tail(1,2) [OF Cons.prems(1) this, of "x - 1"] mpn_1_head [OF Cons.prems(1) this] mpn_1_tail(3) [OF Cons.prems(1) this, of "x - 1"]
  show ?case
  proof (cases "x = 0")
    case False
    then have "mpn_sub_1_loop m r p (Suc (length (x # xs))) = Some (wr m r ((x - 1) # xs), 0)"
      using t mpn_1_fin_spec [OF t(1-3)] by (simp add: wr_Cons)
    moreover have "unat (x - 1) + 1 = unat x" using unat_sub_1 [of x] False by simp
    ultimately show ?thesis by (intro exI [of _ "(x - 1) # xs"] exI [of _ 0]) simp
  next
    case True
    obtain zs cy where z: "mpn_sub_1_loop (m(r \<mapsto> x - 1)) (Suc r) (Suc p) (Suc (length xs)) = Some (wr (m(r \<mapsto> x - 1)) (Suc r) zs, cy)"
      "length zs = length xs" "unat cy \<le> 1" "val zs + 1 = val xs + base ^ length xs * unat cy"
      using Cons.IH [OF t(1-3)] by blast
    have "mpn_sub_1_loop m r p (Suc (length (x # xs))) = Some (wr m r ((x - 1) # zs), cy)"
      using t z(1) True by (simp add: wr_Cons)
    moreover have "base * (val zs + 1) = base * val xs + base * (base ^ length xs * unat cy)"
      by (simp only: z(4) distrib_left)
    ultimately show ?thesis using z(2,3) unat_sub_1 [of x] True
      by (intro exI [of _ "(x - 1) # zs"] exI [of _ cy]) (simp add: algebra_simps)
  qed
qed

lemma mpn_sub_1_spec:
  assumes "block m p xs" "xs \<noteq> []" "mapped m r (length xs)" "up_ok r p (length xs)"
  shows "\<exists>zs cy. mpn_sub_1 m r p (length xs) v = Some (wr m r zs, cy) \<and> length zs = length xs \<and>
    unat cy \<le> 1 \<and> val zs + unat v = val xs + base ^ length xs * unat cy"
proof -
  obtain x xs' where xs: "xs = x # xs'" using assms(2) by (cases xs) auto
  have "block m p (x # xs')" "mapped m r (Suc (length xs'))" "up_ok r p (Suc (length xs'))" using assms xs by auto
  note t = mpn_1_tail(1,2) [OF this, of "x - v"] mpn_1_head [OF this] mpn_1_tail(3) [OF this, of "x - v"]
  note c = sub_borrow [of x v]
  show ?thesis
  proof (cases "x - v > x")
    case False
    then have "mpn_sub_1 m r p (length xs) v = Some (wr m r ((x - v) # xs'), 0)"
      using t mpn_1_fin_spec [OF t(1-3)] by (simp add: wr_Cons mpn_sub_1_def xs)
    then show ?thesis using c False by (intro exI [of _ "(x - v) # xs'"] exI [of _ 0]) (simp add: xs)
  next
    case True
    obtain zs cy where z: "mpn_sub_1_loop (m(r \<mapsto> x - v)) (Suc r) (Suc p) (Suc (length xs')) = Some (wr (m(r \<mapsto> x - v)) (Suc r) zs, cy)"
      "length zs = length xs'" "unat cy \<le> 1" "val zs + 1 = val xs' + base ^ length xs' * unat cy"
      using mpn_sub_1_loop_spec [OF t(1-3)] by blast
    have "mpn_sub_1 m r p (length xs) v = Some (wr m r ((x - v) # zs), cy)"
      using t z(1) True by (simp add: wr_Cons mpn_sub_1_def xs)
    moreover have "base * (val zs + 1) = base * val xs' + base * (base ^ length xs' * unat cy)"
      by (simp only: z(4) distrib_left)
    ultimately show ?thesis using z(2,3) c True
      by (intro exI [of _ "(x - v) # zs"] exI [of _ cy]) (simp add: xs algebra_simps)
  qed
qed

section \<open>Vectors of different lengths\<close>

definition mpn_add :: "lmem \<Rightarrow> nat \<Rightarrow> nat \<Rightarrow> nat \<Rightarrow> nat \<Rightarrow> nat \<Rightarrow> (lmem \<times> limb) option" where
  "mpn_add m res s1 s1_size s2 s2_size =
    do { (m, cy_limb) \<leftarrow> (if s2_size \<noteq> 0 then mpn_add_n m res s1 s2 s2_size else Some (m, 0));
         if s1_size - s2_size \<noteq> 0
         then mpn_add_1 m (res + s2_size) (s1 + s2_size) (s1_size - s2_size) cy_limb
         else Some (m, cy_limb) }"

definition mpn_sub :: "lmem \<Rightarrow> nat \<Rightarrow> nat \<Rightarrow> nat \<Rightarrow> nat \<Rightarrow> nat \<Rightarrow> (lmem \<times> limb) option" where
  "mpn_sub m res s1 s1_size s2 s2_size =
    do { (m, cy_limb) \<leftarrow> (if s2_size \<noteq> 0 then mpn_sub_n m res s1 s2 s2_size else Some (m, 0));
         if s1_size - s2_size \<noteq> 0
         then mpn_sub_1 m (res + s2_size) (s1 + s2_size) (s1_size - s2_size) cy_limb
         else Some (m, cy_limb) }"

lemma wr_append_below:
  assumes "block m p (us @ vs)" "up_ok r p (length us + length vs)" "length zs = length us"
  shows "block (wr m r zs) (p + length us) vs"
  using assms by (subst block_wr_disjnt) (auto simp: block_append disjnt_rng_def up_ok_def)

lemma mpn_add_spec:
  assumes "block m p (us @ vs)" "block m q ys" "length ys = length us"
    and "mapped m r (length us + length vs)" "up_ok r p (length us + length vs)" "up_ok r q (length us)"
  shows "\<exists>zs cy. mpn_add m r p (length us + length vs) q (length us) = Some (wr m r zs, cy) \<and>
    length zs = length us + length vs \<and> unat cy \<le> 1 \<and>
    val zs + base ^ (length us + length vs) * unat cy = val (us @ vs) + val ys"
proof -
  have m: "mapped m r (length us)" "mapped m (r + length us) (length vs)" using assms(4) by (auto simp: mapped_add)
  have ub: "block m p us" and up: "up_ok r p (length us)" using assms(1,5) by (auto simp: block_append up_ok_def)
  have "\<exists>zs cy. (if length us \<noteq> 0 then mpn_add_n m r p q (length us) else Some (m, 0)) = Some (wr m r zs, cy)
    \<and> length zs = length us \<and> unat cy \<le> 1 \<and> val zs + base ^ length us * unat cy = val us + val ys"
  proof (cases "us = []")
    case True
    then show ?thesis using assms(3) by (intro exI [of _ "[]"] exI [of _ 0]) simp
  next
    case False
    then show ?thesis using mpn_add_n_spec [OF ub assms(2,3) False m(1) up assms(6)] by simp
  qed
  then obtain zs cy where z: "(if length us \<noteq> 0 then mpn_add_n m r p q (length us) else Some (m, 0)) = Some (wr m r zs, cy)"
    "length zs = length us" "unat cy \<le> 1" "val zs + base ^ length us * unat cy = val us + val ys" by blast
  show ?thesis
  proof (cases "vs = []")
    case True
    then show ?thesis using z by (intro exI [of _ zs] exI [of _ cy]) (simp add: mpn_add_def)
  next
    case False
    have "up_ok (r + length us) (p + length us) (length vs)" using assms(5) by (auto simp: up_ok_def)
    then obtain ws cw where w: "mpn_add_1 (wr m r zs) (r + length us) (p + length us) (length vs) cy = Some (wr (wr m r zs) (r + length us) ws, cw)"
      "length ws = length vs" "unat cw \<le> 1" "val ws + base ^ length vs * unat cw = val vs + unat cy"
      using mpn_add_1_spec [OF wr_append_below [OF assms(1,5) z(2)] False, of "r + length us" cy] m(2) by auto
    have "mpn_add m r p (length us + length vs) q (length us) = Some (wr m r (zs @ ws), cw)"
      unfolding mpn_add_def z(1) using w(1) False by (simp add: wr_append z(2))
    moreover have "val (zs @ ws) + base ^ (length us + length vs) * unat cw
      = val zs + base ^ length us * (val ws + base ^ length vs * unat cw)"
      by (simp add: val_append z(2) power_add algebra_simps)
    then have "val (zs @ ws) + base ^ (length us + length vs) * unat cw = val (us @ vs) + val ys"
      unfolding w(4) using z(4) by (simp add: val_append algebra_simps)
    ultimately show ?thesis using z(2) w(2,3) by (intro exI [of _ "zs @ ws"] exI [of _ cw]) simp
  qed
qed

lemma mpn_sub_spec:
  assumes "block m p (us @ vs)" "block m q ys" "length ys = length us"
    and "mapped m r (length us + length vs)" "up_ok r p (length us + length vs)" "up_ok r q (length us)"
  shows "\<exists>zs cy. mpn_sub m r p (length us + length vs) q (length us) = Some (wr m r zs, cy) \<and>
    length zs = length us + length vs \<and> unat cy \<le> 1 \<and>
    val zs + val ys = val (us @ vs) + base ^ (length us + length vs) * unat cy"
proof -
  have m: "mapped m r (length us)" "mapped m (r + length us) (length vs)" using assms(4) by (auto simp: mapped_add)
  have ub: "block m p us" and up: "up_ok r p (length us)" using assms(1,5) by (auto simp: block_append up_ok_def)
  have "\<exists>zs cy. (if length us \<noteq> 0 then mpn_sub_n m r p q (length us) else Some (m, 0)) = Some (wr m r zs, cy)
    \<and> length zs = length us \<and> unat cy \<le> 1 \<and> val zs + val ys = val us + base ^ length us * unat cy"
  proof (cases "us = []")
    case True
    then show ?thesis using assms(3) by (intro exI [of _ "[]"] exI [of _ 0]) simp
  next
    case False
    then show ?thesis using mpn_sub_n_spec [OF ub assms(2,3) False m(1) up assms(6)] by simp
  qed
  then obtain zs cy where z: "(if length us \<noteq> 0 then mpn_sub_n m r p q (length us) else Some (m, 0)) = Some (wr m r zs, cy)"
    "length zs = length us" "unat cy \<le> 1" "val zs + val ys = val us + base ^ length us * unat cy" by blast
  show ?thesis
  proof (cases "vs = []")
    case True
    then show ?thesis using z by (intro exI [of _ zs] exI [of _ cy]) (simp add: mpn_sub_def)
  next
    case False
    have "up_ok (r + length us) (p + length us) (length vs)" using assms(5) by (auto simp: up_ok_def)
    then obtain ws cw where w: "mpn_sub_1 (wr m r zs) (r + length us) (p + length us) (length vs) cy = Some (wr (wr m r zs) (r + length us) ws, cw)"
      "length ws = length vs" "unat cw \<le> 1" "val ws + unat cy = val vs + base ^ length vs * unat cw"
      using mpn_sub_1_spec [OF wr_append_below [OF assms(1,5) z(2)] False, of "r + length us" cy] m(2) by auto
    have "mpn_sub m r p (length us + length vs) q (length us) = Some (wr m r (zs @ ws), cw)"
      unfolding mpn_sub_def z(1) using w(1) False by (simp add: wr_append z(2))
    moreover have "val (zs @ ws) + val ys + base ^ length us * unat cy = (val zs + val ys) + base ^ length us * (val ws + unat cy)"
      by (simp add: val_append z(2) algebra_simps)
    then have "val (zs @ ws) + val ys = val (us @ vs) + base ^ (length us + length vs) * unat cw"
      unfolding z(4) w(4) by (simp add: val_append power_add algebra_simps)
    ultimately show ?thesis using z(2) w(2,3) by (intro exI [of _ "zs @ ws"] exI [of _ cw]) simp
  qed
qed

section \<open>Comparison\<close>

fun mpn_cmp_loop :: "lmem \<Rightarrow> nat \<Rightarrow> nat \<Rightarrow> nat \<Rightarrow> int option" where
  "mpn_cmp_loop m op1 op2 0 = Some 0"
| "mpn_cmp_loop m op1 op2 (Suc i) =
    do { op1_word \<leftarrow> ld m (op1 + i);
         op2_word \<leftarrow> ld m (op2 + i);
         if op1_word \<noteq> op2_word then Some (if op1_word > op2_word then 1 else - 1)
         else mpn_cmp_loop m op1 op2 i }"

definition mpn_cmp :: "lmem \<Rightarrow> nat \<Rightarrow> nat \<Rightarrow> nat \<Rightarrow> int option" where
  "mpn_cmp m op1 op2 n = mpn_cmp_loop m op1 op2 n"

lemma val_snoc_less:
  assumes "unat x < unat y" "length xs = length ys"
  shows "val (xs @ [x]) < val (ys @ [y])"
proof -
  have "val (xs @ [x]) < base ^ length xs + base ^ length xs * unat x"
    using val_less [of xs] by (simp add: val_snoc)
  also have "\<dots> = base ^ length xs * (unat x + 1)" by simp
  also have "\<dots> \<le> base ^ length xs * unat y" using assms(1) by (intro mult_le_mono2) simp
  finally show ?thesis using assms(2) by (simp add: val_snoc)
qed

lemma sgn_val_diff:
  "length xs = length ys \<Longrightarrow> x \<noteq> y \<Longrightarrow>
    sgn (int (val (xs @ [x])) - int (val (ys @ [y]))) = (if x > y then 1 else - 1)"
  using val_snoc_less [of x y xs ys] val_snoc_less [of y x ys xs]
  by (cases "x > y") (auto simp: word_less_nat_alt word_unat_eq_iff not_less sgn_if)

lemma mpn_cmp_spec:
  assumes "block m p xs" "block m q ys" "length ys = length xs"
  shows "mpn_cmp m p q (length xs) = Some (sgn (int (val xs) - int (val ys)))"
  unfolding mpn_cmp_def using assms
proof (induction xs arbitrary: ys rule: rev_induct)
  case Nil
  then show ?case by simp
next
  case (snoc x xs)
  from snoc.prems(3) obtain ys' y where ys: "ys = ys' @ [y]" "length ys' = length xs"
    by (cases ys rule: rev_cases) auto
  have "mpn_cmp_loop m p q (length xs) = Some (sgn (int (val xs) - int (val ys')))"
    using snoc.prems snoc.IH ys by (simp add: block_append)
  moreover have "ld m (p + length xs) = Some x" "ld m (q + length xs) = Some y"
    using snoc.prems ys by (simp_all add: ld_def block_append block_Cons)
  ultimately show ?case
    using sgn_val_diff [of xs ys' x y] ys by (simp add: val_snoc)
qed

section \<open>Properties\<close>

text \<open>Adding and subtracting undo each other: after \<open>mpn_add_n\<close> of two vectors, \<open>mpn_sub_n\<close> of the
  second vector from the sum leaves the first one and borrows exactly what the addition carried.\<close>

theorem mpn_sub_n_undoes_add_n:
  assumes "block m p xs" "block m q ys" "length ys = length xs" "xs \<noteq> []"
    and "mapped m r (length xs)" "up_ok r p (length xs)" "disjnt_rng r (length xs) q (length xs)"
    and "mpn_add_n m r p q (length xs) = Some (m', cy)"
  shows "mpn_sub_n m' r r q (length xs) = Some (wr m r xs, cy)"
proof -
  obtain zs where z: "m' = wr m r zs" "length zs = length xs" "unat cy \<le> 1" "val zs + base ^ length xs * unat cy = val xs + val ys"
    using mpn_add_n_spec [OF assms(1-6)] assms(7,8) by (auto simp: disjnt_rng_def up_ok_def)
  have b: "block m' r zs" "block m' q ys" using z assms(2,3,7) by (simp_all add: block_wr_disjnt)
  have s: "length ys = length zs" "zs \<noteq> []" "mapped m' r (length zs)" "up_ok r r (length zs)" "up_ok r q (length zs)"
    using assms z by (auto simp: up_ok_def disjnt_rng_def)
  from mpn_sub_n_spec [OF b s] obtain ws bw where
    w: "mpn_sub_n m' r r q (length zs) = Some (wr m' r ws, bw)" "length ws = length zs" "unat bw \<le> 1"
      "val ws + val ys = val zs + base ^ length zs * unat bw" by blast
  have "val ws + base ^ length xs * unat cy = val xs + base ^ length xs * unat bw"
    using w(4) z(4) unfolding z(2) by linarith
  moreover have "val ws < base ^ length xs" "val xs < base ^ length xs"
    using val_less [of ws] val_less [of xs] w(2) z(2) by simp_all
  ultimately have "unat cy = unat bw"
    using z(3) w(3) by (cases "unat cy"; cases "unat bw") auto
  then have "cy = bw" "val ws = val xs"
    using \<open>val ws + base ^ length xs * unat cy = val xs + base ^ length xs * unat bw\<close> by (simp_all add: word_unat_eq_iff)
  then show ?thesis using w z val_inj [of ws xs] by (simp add: wr_wr_same)
qed

lemma mpn_sub_n_undoes_add_n_witness:
  "\<exists>m' cy. mpn_add_n (wr (wr (\<lambda>_. Some 0) 0 [1, 2]) 10 [0xFFFFFFFF, 3]) 20 0 10 2 = Some (m', cy) \<and>
    mpn_sub_n m' 20 20 10 2 = Some (wr (wr (wr (\<lambda>_. Some 0) 0 [1, 2]) 10 [0xFFFFFFFF, 3]) 20 [1, 2], cy)"
proof -
  let ?m = "wr (wr (\<lambda>_. Some 0) 0 [1, 2]) 10 [0xFFFFFFFF, 3] :: lmem"
  have b: "block ?m 0 [1, 2]" "block ?m 10 [0xFFFFFFFF, 3]" "mapped ?m 20 (length [1, 2 :: limb])"
    by (simp_all add: block_wr_disjnt disjnt_rng_def)
  obtain m' cy where c: "mpn_add_n ?m 20 0 10 (length [1, 2 :: limb]) = Some (m', cy)"
    using mpn_add_n_spec [OF b(1,2) _ _ b(3)] by (auto simp: up_ok_def)
  have "mpn_sub_n m' 20 20 10 (length [1, 2 :: limb]) = Some (wr ?m 20 [1, 2], cy)"
    using mpn_sub_n_undoes_add_n [OF b(1,2) _ _ b(3) _ _ c] by (simp add: up_ok_def disjnt_rng_def)
  moreover have "length [1, 2 :: limb] = 2" by simp
  ultimately show ?thesis using c by (auto simp only:)
qed

end
