(* ===== verification/MpnMul.thy ===== *)
theory MpnMul
  imports Mpn
begin

text \<open>
  Schoolbook multiplication: \<open>impn_mul_n_basecase\<close> and \<open>impn_sqr_n_basecase\<close> of
  \<^verbatim>\<open>gmp/mpn-mul_n.c\<close>, and the branch of \<open>mpn_mul\<close> (\<^verbatim>\<open>gmp/mpn-mul.c\<close>) for a multiplier of
  fewer than \<open>KARATSUBA_THRESHOLD\<close> limbs. All three store the first row of the product and then
  add one row per further limb of the multiplier; rows for the limbs 0 and 1 need no
  multiplication. \<open>mul_row_first\<close> and \<open>mul_rows\<close> are that text.
\<close>

definition mul_row_first :: "lmem \<Rightarrow> nat \<Rightarrow> nat \<Rightarrow> nat \<Rightarrow> limb \<Rightarrow> (lmem \<times> limb) option" where
  "mul_row_first m prodp up usize v_limb =
    (if v_limb \<le> 1
     then do { m \<leftarrow> (if v_limb = 1 then copy_up m prodp up usize else fill m prodp 0 usize); Some (m, 0) }
     else mpn_mul_1 m prodp up usize v_limb)"

fun mul_rows :: "lmem \<Rightarrow> nat \<Rightarrow> nat \<Rightarrow> nat \<Rightarrow> nat \<Rightarrow> nat \<Rightarrow> limb \<Rightarrow> (lmem \<times> limb) option" where
  "mul_rows m prodp up usize vp 0 cy_limb = Some (m, cy_limb)"
| "mul_rows m prodp up usize vp (Suc k) cy_limb =
    do { v_limb \<leftarrow> ld m vp;
         (m, cy_limb) \<leftarrow> (if v_limb \<le> 1
           then (if v_limb = 1 then mpn_add_n m prodp prodp up usize else Some (m, 0))
           else mpn_addmul_1 m prodp up usize v_limb);
         m \<leftarrow> st m (prodp + usize) cy_limb;
         mul_rows m (Suc prodp) up usize (Suc vp) k cy_limb }"

definition mul_schoolbook :: "lmem \<Rightarrow> nat \<Rightarrow> nat \<Rightarrow> nat \<Rightarrow> nat \<Rightarrow> nat \<Rightarrow> (lmem \<times> limb) option" where
  "mul_schoolbook m prodp up usize vp vsize =
    do { v_limb \<leftarrow> ld m vp;
         (m, cy_limb) \<leftarrow> mul_row_first m prodp up usize v_limb;
         m \<leftarrow> st m (prodp + usize) cy_limb;
         mul_rows m (Suc prodp) up usize (Suc vp) (vsize - 1) cy_limb }"

definition impn_mul_n_basecase :: "lmem \<Rightarrow> nat \<Rightarrow> nat \<Rightarrow> nat \<Rightarrow> nat \<Rightarrow> lmem option" where
  "impn_mul_n_basecase m prodp up vp n = do { (m, _) \<leftarrow> mul_schoolbook m prodp up n vp n; Some m }"

definition impn_sqr_n_basecase :: "lmem \<Rightarrow> nat \<Rightarrow> nat \<Rightarrow> nat \<Rightarrow> lmem option" where
  "impn_sqr_n_basecase m prodp up n = do { (m, _) \<leftarrow> mul_schoolbook m prodp up n up n; Some m }"

lemma disjnt_up_ok: "disjnt_rng r n p n \<Longrightarrow> up_ok r p n"
  by (auto simp: disjnt_rng_def up_ok_def)

lemma limb_le_1: "(v :: limb) \<le> 1 \<Longrightarrow> v = 0 \<or> v = 1"
  by (simp add: word_le_nat_alt word_unat_eq_iff) linarith

lemma mul_row_first_spec:
  assumes "block m up us" "us \<noteq> []" "mapped m pp (length us)" "disjnt_rng pp (length us) up (length us)"
  shows "\<exists>zs cy. mul_row_first m pp up (length us) v = Some (wr m pp zs, cy) \<and> length zs = length us \<and>
    val zs + base ^ length us * unat cy = val us * unat v"
proof (cases "v \<le> 1")
  case True
  then consider "v = 0" | "v = 1" using limb_le_1 by blast
  then show ?thesis
  proof cases
    case 1
    then show ?thesis using fill_spec [OF assms(3), of 0]
      by (intro exI [of _ "replicate (length us) 0"] exI [of _ 0]) (simp add: mul_row_first_def)
  next
    case 2
    then show ?thesis using copy_up_spec [OF assms(1,3) disjnt_up_ok [OF assms(4)]]
      by (intro exI [of _ us] exI [of _ 0]) (simp add: mul_row_first_def)
  qed
next
  case False
  then show ?thesis
    using mpn_mul_1_spec [OF assms(1,2,3) disjnt_up_ok [OF assms(4)]] by (simp add: mul_row_first_def)
qed

lemma mul_row_spec:
  assumes "block m up us" "us \<noteq> []" "block m pp acc" "length acc = length us" "disjnt_rng pp (length us) up (length us)"
  shows "\<exists>zs cy. (if v \<le> 1 then (if v = 1 then mpn_add_n m pp pp up (length us) else Some (m, 0))
      else mpn_addmul_1 m pp up (length us) v) = Some (wr m pp zs, cy) \<and> length zs = length us \<and>
    val zs + base ^ length us * unat cy = val acc + val us * unat v"
proof (cases "v \<le> 1")
  case True
  then consider "v = 0" | "v = 1" using limb_le_1 by blast
  then show ?thesis
  proof cases
    case 1
    then show ?thesis using assms(3,4) wr_block_id [OF assms(3)] by (intro exI [of _ acc] exI [of _ 0]) simp
  next
    case 2
    have "acc \<noteq> []" "mapped m pp (length acc)" using assms(2,4) block_mapped [OF assms(3)] by auto
    then obtain zs cy where "mpn_add_n m pp pp up (length acc) = Some (wr m pp zs, cy)" "length zs = length acc"
      "val zs + base ^ length acc * unat cy = val acc + val us"
      using mpn_add_n_spec [OF assms(3,1)] assms(4,5) disjnt_up_ok up_ok_refl by metis
    then show ?thesis using 2 assms(4) by (intro exI [of _ zs] exI [of _ cy]) simp
  qed
next
  case False
  then show ?thesis
    using mpn_addmul_1_spec [OF assms(1,3,4,2) disjnt_up_ok [OF assms(5)]] by simp
qed

lemma mul_rows_spec:
  assumes "block m up us" "us \<noteq> []" "block m pp acc" "length acc = length us" "block m vp vs"
    and "mapped m (pp + length us) (length vs)"
    and "disjnt_rng pp (length us + length vs) up (length us)" "disjnt_rng pp (length us + length vs) vp (length vs)"
  shows "\<exists>zs. mul_rows m pp up (length us) vp (length vs) cy = Some (wr m pp zs, if vs = [] then cy else last zs) \<and>
    length zs = length us + length vs \<and> val zs = val acc + val us * val vs"
  using assms
proof (induction vs arbitrary: m pp acc vp cy)
  case Nil
  then show ?case using wr_block_id [of m pp acc] by (intro exI [of _ acc]) simp
next
  case (Cons v vs)
  have "disjnt_rng pp (length us) up (length us)" using Cons.prems(7) by (auto simp: disjnt_rng_def)
  then obtain zs cy1 where row: "(if v \<le> 1 then (if v = 1 then mpn_add_n m pp pp up (length us) else Some (m, 0))
      else mpn_addmul_1 m pp up (length us) v) = Some (wr m pp zs, cy1)" "length zs = length us"
    and rv: "val zs + base ^ length us * unat cy1 = val acc + val us * unat v"
    using mul_row_spec [OF Cons.prems(1-4)] by blast
  obtain h t where ht: "zs @ [cy1] = h # t" "length t = length us"
    using row(2) length_Suc_conv [of "zs @ [cy1]" "length us"] by auto
  let ?m = "wr m pp (zs @ [cy1])"
  have l: "length (zs @ [cy1]) = Suc (length us)" by (simp add: row(2))
  have mp: "m (pp + length us) \<noteq> None" "mapped m (Suc pp + length us) (length vs)"
    using Cons.prems(6) by (auto simp: mapped_Suc)
  have d: "disjnt_rng (Suc pp) (length us + length vs) up (length us)" "disjnt_rng (Suc pp) (length us + length vs) (Suc vp) (length vs)"
    using Cons.prems(7,8) by (auto simp: disjnt_rng_def)
  have b: "block ?m up us" "block ?m (Suc vp) vs"
    using Cons.prems(1,5,7,8) l by (auto simp: block_wr_disjnt disjnt_rng_def block_Cons)
  have "block ?m (Suc pp) t" using block_wr_same [of m pp "zs @ [cy1]"] unfolding ht(1) by (simp add: block_Cons)
  then obtain ws where ws: "mul_rows ?m (Suc pp) up (length us) (Suc vp) (length vs) cy1 =
      Some (wr ?m (Suc pp) ws, if vs = [] then cy1 else last ws)"
    "length ws = length us + length vs" "val ws = val t + val us * val vs"
    using Cons.IH [OF b(1) Cons.prems(2) _ ht(2) b(2) _ d] mp(2) by auto
  have "wr (wr m pp zs) (pp + length us) [cy1] = ?m" by (simp add: wr_append row(2))
  then have "(wr m pp zs)(pp + length us \<mapsto> cy1) = ?m" by (simp add: wr_Cons)
  moreover have "ld m vp = Some v" using Cons.prems(5) by (simp add: ld_def block_Cons)
  moreover have "wr m pp zs (pp + length us) \<noteq> None" using mp(1) by (simp add: wr_def row(2))
  ultimately have "mul_rows m pp up (length us) vp (length (v # vs)) cy =
      Some (wr ?m (Suc pp) ws, if vs = [] then cy1 else last ws)"
    using row(1) ws(1) by (simp del: fun_upd_apply)
  moreover have "wr ?m (Suc pp) ws = wr m pp (h # ws)"
    using wr_over [of t ws m pp "[h]"] ht ws(2) by simp
  moreover have "val (h # ws) = val acc + val us * val (v # vs)"
  proof -
    have "val (h # t) = val acc + val us * unat v" using rv row(2) by (simp flip: ht(1) add: val_snoc)
    then show ?thesis using ws(3) by (simp add: algebra_simps)
  qed
  moreover have "vs = [] \<Longrightarrow> cy1 = last (h # ws)"
  proof -
    assume "vs = []"
    then have "ws = t" using ws(2,3) ht(2) by (intro val_inj) simp_all
    then show ?thesis using ht(1) by (metis last_snoc)
  qed
  ultimately show ?case using ws(2) Cons.prems(2) by (intro exI [of _ "h # ws"]) auto
qed

lemma mul_schoolbook_spec:
  assumes "block m up us" "us \<noteq> []" "block m vp vs" "vs \<noteq> []" "mapped m pp (length us + length vs)"
    and "disjnt_rng pp (length us + length vs) up (length us)" "disjnt_rng pp (length us + length vs) vp (length vs)"
  shows "\<exists>zs. mul_schoolbook m pp up (length us) vp (length vs) = Some (wr m pp zs, last zs) \<and>
    length zs = length us + length vs \<and> val zs = val us * val vs"
proof -
  obtain v vs' where vs: "vs = v # vs'" using assms(4) by (cases vs) auto
  have mp: "mapped m pp (length us)" "m (pp + length us) \<noteq> None" "mapped m (Suc pp + length us) (length vs')"
    using assms(5) mapped_mid [of m pp "length us" "length vs'"] by (simp_all add: vs)
  have "disjnt_rng pp (length us) up (length us)" using assms(6) by (auto simp: disjnt_rng_def)
  then obtain zs cy1 where row: "mul_row_first m pp up (length us) v = Some (wr m pp zs, cy1)" "length zs = length us"
    and rv: "val zs + base ^ length us * unat cy1 = val us * unat v"
    using mul_row_first_spec [OF assms(1,2) mp(1)] by blast
  obtain h t where ht: "zs @ [cy1] = h # t" "length t = length us"
    using row(2) length_Suc_conv [of "zs @ [cy1]" "length us"] by auto
  let ?m = "wr m pp (zs @ [cy1])"
  have d: "disjnt_rng (Suc pp) (length us + length vs') up (length us)" "disjnt_rng (Suc pp) (length us + length vs') (Suc vp) (length vs')"
    using assms(6,7) by (auto simp: vs disjnt_rng_def)
  have b: "block ?m up us" "block ?m (Suc vp) vs'"
    using assms row(2) by (auto simp: vs block_wr_disjnt disjnt_rng_def block_Cons)
  have "block ?m (Suc pp) t" using block_wr_same [of m pp "zs @ [cy1]"] unfolding ht(1) by (simp add: block_Cons)
  then obtain ws where ws: "mul_rows ?m (Suc pp) up (length us) (Suc vp) (length vs') cy1 =
      Some (wr ?m (Suc pp) ws, if vs' = [] then cy1 else last ws)"
    "length ws = length us + length vs'" "val ws = val t + val us * val vs'"
    using mul_rows_spec [OF b(1) assms(2) _ ht(2) b(2) _ d] mp(3) by auto
  have "wr (wr m pp zs) (pp + length us) [cy1] = ?m" by (simp add: wr_append row(2))
  then have "(wr m pp zs)(pp + length us \<mapsto> cy1) = ?m" by (simp add: wr_Cons)
  moreover have "ld m vp = Some v" using assms(3) by (simp add: vs ld_def block_Cons)
  moreover have "wr m pp zs (pp + length us) \<noteq> None" using mp(2) by (simp add: wr_def row(2))
  ultimately have "mul_schoolbook m pp up (length us) vp (length vs) =
      Some (wr ?m (Suc pp) ws, if vs' = [] then cy1 else last ws)"
    using row(1) ws(1) by (simp add: mul_schoolbook_def vs del: fun_upd_apply)
  moreover have "wr ?m (Suc pp) ws = wr m pp (h # ws)"
    using wr_over [of t ws m pp "[h]"] ht ws(2) by simp
  moreover have "val (h # t) = val us * unat v" using rv row(2) by (simp flip: ht(1) add: val_snoc)
  then have "val (h # ws) = val us * val vs" using ws(3) by (simp add: vs algebra_simps)
  moreover have "vs' = [] \<Longrightarrow> cy1 = last (h # ws)"
  proof -
    assume "vs' = []"
    then have "ws = t" using ws(2,3) ht(2) by (intro val_inj) simp_all
    then show ?thesis using ht(1) by (metis last_snoc)
  qed
  ultimately show ?thesis using ws(2) assms(2) by (intro exI [of _ "h # ws"]) (auto simp: vs)
qed

text \<open>The base cases of the square and of the product of vectors of one length.\<close>

lemma impn_mul_n_basecase_spec:
  assumes "block m up us" "us \<noteq> []" "block m vp vs" "length vs = length us" "mapped m pp (2 * length us)"
    and "disjnt_rng pp (2 * length us) up (length us)" "disjnt_rng pp (2 * length us) vp (length us)"
  shows "\<exists>zs. impn_mul_n_basecase m pp up vp (length us) = Some (wr m pp zs) \<and>
    length zs = 2 * length us \<and> val zs = val us * val vs"
proof -
  have "vs \<noteq> []" using assms(2,4) by auto
  then obtain zs where "mul_schoolbook m pp up (length us) vp (length vs) = Some (wr m pp zs, last zs)"
    "length zs = length us + length vs" "val zs = val us * val vs"
    using mul_schoolbook_spec [OF assms(1-3)] assms(4-) by (metis mult_2)
  then show ?thesis using assms(4) by (intro exI [of _ zs]) (simp add: impn_mul_n_basecase_def)
qed

lemma impn_sqr_n_basecase_spec:
  assumes "block m up us" "us \<noteq> []" "mapped m pp (2 * length us)" "disjnt_rng pp (2 * length us) up (length us)"
  shows "\<exists>zs. impn_sqr_n_basecase m pp up (length us) = Some (wr m pp zs) \<and>
    length zs = 2 * length us \<and> val zs = val us * val us"
  using impn_mul_n_basecase_spec [OF assms(1,2,1) refl assms(3,4,4)]
  by (simp add: impn_mul_n_basecase_def impn_sqr_n_basecase_def)

end
