(* ===== verification/MpnKaratsuba.thy ===== *)
theory MpnKaratsuba
  imports MpnMul
begin

text \<open>
  Karatsuba multiplication: \<open>impn_mul_n\<close> of \<^verbatim>\<open>gmp/mpn-mul_n.c\<close> with its macro
  \<open>MPN_MUL_N_RECURSE\<close> (\<^verbatim>\<open>stdlib/gmp-impl.h\<close>), over the limb memory. The product is assembled in
  place: its upper half first holds the product of the upper halves, its lower half the two
  differences, and the scratch space \<open>tspace\<close> (twice the length of an operand) the product of the
  differences and then the product of the lower halves.

  The main lemma says that the \<open>2 * n\<close> limbs at \<open>prodp\<close> become the product and that nothing but
  the product and the scratch space changes, for operands that overlap neither; the number of
  limbs is the termination measure.
\<close>

definition karatsuba_threshold :: nat where
  "karatsuba_threshold = 32"

text \<open>\<open>|hi - lo|\<close>, and whether the difference is negative: the two comparisons of the even case.\<close>

definition kara_diff :: "lmem \<Rightarrow> nat \<Rightarrow> nat \<Rightarrow> nat \<Rightarrow> nat \<Rightarrow> (lmem \<times> bool) option" where
  "kara_diff m dst hi lo n =
    do { c \<leftarrow> mpn_cmp m hi lo n;
         if c \<ge> 0 then do { (m, _) \<leftarrow> mpn_sub_n m dst hi lo n; Some (m, False) }
         else do { (m, _) \<leftarrow> mpn_sub_n m dst lo hi n; Some (m, True) } }"

text \<open>The end of the odd case: the top limbs of both operands, one row each.\<close>

definition kara_odd_end :: "lmem \<Rightarrow> nat \<Rightarrow> nat \<Rightarrow> nat \<Rightarrow> nat \<Rightarrow> lmem option" where
  "kara_odd_end m prodp up vp esize =
    do { v \<leftarrow> ld m (vp + esize);
         (m, cy_limb) \<leftarrow> mpn_addmul_1 m (prodp + esize) up esize v;
         m \<leftarrow> st m (prodp + esize + esize) cy_limb;
         u \<leftarrow> ld m (up + esize);
         (m, cy_limb) \<leftarrow> mpn_addmul_1 m (prodp + esize) vp (Suc esize) u;
         st m (prodp + esize + Suc esize) cy_limb }"

text \<open>Adding the products H and M in the even case; the carry may be \<open>-1\<close> for a while.\<close>

definition kara_add_HM :: "lmem \<Rightarrow> nat \<Rightarrow> nat \<Rightarrow> nat \<Rightarrow> bool \<Rightarrow> (lmem \<times> limb) option" where
  "kara_add_HM m prodp tspace hsize negflg =
    do { m \<leftarrow> copy_up m (prodp + hsize) (prodp + 2 * hsize) hsize;
         (m, cy) \<leftarrow> mpn_add_n m (prodp + 2 * hsize) (prodp + 2 * hsize) (prodp + 2 * hsize + hsize) hsize;
         if negflg
         then do { (m, c) \<leftarrow> mpn_sub_n m (prodp + hsize) (prodp + hsize) tspace (2 * hsize); Some (m, cy - c) }
         else do { (m, c) \<leftarrow> mpn_add_n m (prodp + hsize) (prodp + hsize) tspace (2 * hsize); Some (m, cy + c) } }"

text \<open>\<open>if (cy) mpn_add_1 (p, p, n, cy)\<close>.\<close>

definition kara_carry :: "lmem \<Rightarrow> nat \<Rightarrow> nat \<Rightarrow> limb \<Rightarrow> lmem option" where
  "kara_carry m p n cy =
    (if cy \<noteq> 0 then do { (m, _) \<leftarrow> mpn_add_1 m p p n cy; Some m } else Some m)"

text \<open>The last steps: the lower half of L in front, its upper half added with its carry.\<close>

definition kara_L_end :: "lmem \<Rightarrow> nat \<Rightarrow> nat \<Rightarrow> nat \<Rightarrow> lmem option" where
  "kara_L_end m prodp tspace hsize =
    do { m \<leftarrow> copy_up m prodp tspace hsize;
         (m, cy) \<leftarrow> mpn_add_n m (prodp + hsize) (prodp + hsize) (tspace + hsize) hsize;
         if cy \<noteq> 0
         then do { (m, _) \<leftarrow> mpn_add_1 m (prodp + 2 * hsize) (prodp + 2 * hsize) (2 * hsize) 1; Some m }
         else Some m }"

definition kara_add_L :: "lmem \<Rightarrow> nat \<Rightarrow> nat \<Rightarrow> nat \<Rightarrow> limb \<Rightarrow> lmem option" where
  "kara_add_L m prodp tspace hsize cy =
    do { (m, c) \<leftarrow> mpn_add_n m (prodp + hsize) (prodp + hsize) tspace (2 * hsize);
         let cy = cy + c;
         m \<leftarrow> kara_carry m (prodp + hsize + 2 * hsize) hsize cy;
         kara_L_end m prodp tspace hsize }"

function impn_mul_n :: "lmem \<Rightarrow> nat \<Rightarrow> nat \<Rightarrow> nat \<Rightarrow> nat \<Rightarrow> nat \<Rightarrow> lmem option" where
  "impn_mul_n m prodp up vp n tspace =
    (if odd n
     then do { m \<leftarrow> (if n - 1 < karatsuba_threshold then impn_mul_n_basecase m prodp up vp (n - 1)
                     else impn_mul_n m prodp up vp (n - 1) tspace);
               kara_odd_end m prodp up vp (n - 1) }
     else
       do { m \<leftarrow> (if n div 2 < karatsuba_threshold
                  then impn_mul_n_basecase m (prodp + n) (up + n div 2) (vp + n div 2) (n div 2)
                  else impn_mul_n m (prodp + n) (up + n div 2) (vp + n div 2) (n div 2) tspace);
            (m, uneg) \<leftarrow> kara_diff m prodp (up + n div 2) up (n div 2);
            (m, vneg) \<leftarrow> kara_diff m (prodp + n div 2) (vp + n div 2) vp (n div 2);
            m \<leftarrow> (if n div 2 < karatsuba_threshold
                  then impn_mul_n_basecase m tspace prodp (prodp + n div 2) (n div 2)
                  else impn_mul_n m tspace prodp (prodp + n div 2) (n div 2) (tspace + n));
            (m, cy) \<leftarrow> kara_add_HM m prodp tspace (n div 2) (uneg \<noteq> (\<not> vneg));
            m \<leftarrow> (if n div 2 < karatsuba_threshold
                  then impn_mul_n_basecase m tspace up vp (n div 2)
                  else impn_mul_n m tspace up vp (n div 2) (tspace + n));
            kara_add_L m prodp tspace (n div 2) cy })"
  by pat_completeness auto
termination
  by (relation "measure (\<lambda>(m, prodp, up, vp, n, tspace). n)") (auto simp: karatsuba_threshold_def)

declare impn_mul_n.simps [simp del]

section \<open>The contract of a multiplication\<close>

text \<open>
  The contract of a multiplication of two vectors of \<open>n\<close> limbs with scratch space; with \<open>sq\<close> it is
  promised for squares only.
\<close>

definition mul_ok :: "bool \<Rightarrow> (lmem \<Rightarrow> nat \<Rightarrow> nat \<Rightarrow> nat \<Rightarrow> nat \<Rightarrow> nat \<Rightarrow> lmem option) \<Rightarrow> nat \<Rightarrow> bool" where
  "mul_ok sq f n \<longleftrightarrow> (\<forall>m pp up vp tp us vs. (sq \<longrightarrow> vp = up) \<longrightarrow>
    block m up us \<longrightarrow> block m vp vs \<longrightarrow> length us = n \<longrightarrow> length vs = n \<longrightarrow>
    mapped m pp (2 * n) \<longrightarrow> mapped m tp (2 * n) \<longrightarrow> disjnt_rng pp (2 * n) tp (2 * n) \<longrightarrow>
    disjnt_rng pp (2 * n) up n \<longrightarrow> disjnt_rng pp (2 * n) vp n \<longrightarrow>
    disjnt_rng tp (2 * n) up n \<longrightarrow> disjnt_rng tp (2 * n) vp n \<longrightarrow>
    (\<exists>zs ts. f m pp up vp n tp = Some (kst m pp tp zs ts) \<and> length zs = 2 * n \<and> length ts = 2 * n \<and>
       val zs = val us * val vs))"

lemma mul_okD:
  assumes "mul_ok sq f n" "sq \<longrightarrow> vp = up" "block m up us" "block m vp vs" "length us = n" "length vs = n"
    "mapped m pp (2 * n)" "mapped m tp (2 * n)" "disjnt_rng pp (2 * n) tp (2 * n)"
    "disjnt_rng pp (2 * n) up n" "disjnt_rng pp (2 * n) vp n" "disjnt_rng tp (2 * n) up n" "disjnt_rng tp (2 * n) vp n"
  shows "\<exists>zs ts. f m pp up vp n tp = Some (kst m pp tp zs ts) \<and> length zs = 2 * n \<and> length ts = 2 * n \<and>
     val zs = val us * val vs"
  using assms unfolding mul_ok_def by blast

lemma mul_ok_basecase:
  assumes "0 < n"
  shows "mul_ok False (\<lambda>m pp up vp n tp. impn_mul_n_basecase m pp up vp n) n"
  unfolding mul_ok_def
proof (intro allI impI)
  fix m :: lmem and pp up vp tp us vs
  assume a: "block m up us" "block m vp vs" "length us = n" "length vs = n" "mapped m pp (2 * n)" "mapped m tp (2 * n)"
    "disjnt_rng pp (2 * n) tp (2 * n)" "disjnt_rng pp (2 * n) up n" "disjnt_rng pp (2 * n) vp n"
  obtain ts where ts: "length ts = 2 * n" "block m tp ts" using mapped_block [OF a(6)] by blast
  have "us \<noteq> []" using a(3) assms by auto
  then obtain zs where z: "impn_mul_n_basecase m pp up vp n = Some (wr m pp zs)" "length zs = 2 * n" "val zs = val us * val vs"
    using impn_mul_n_basecase_spec [OF a(1) _ a(2), of pp] a by auto
  have "block (wr m pp zs) tp ts" using ts a(7) z(2) by (simp add: block_wr_disjnt)
  then show "\<exists>zs ts. impn_mul_n_basecase m pp up vp n = Some (kst m pp tp zs ts) \<and> length zs = 2 * n \<and> length ts = 2 * n \<and>
     val zs = val us * val vs"
    using z ts by (intro exI [of _ zs] exI [of _ ts]) (simp add: kst_def wr_block_id)
qed

section \<open>The odd case\<close>

lemma kara_odd_end_spec:
  assumes "block m up (us @ [u])" "block m vp (vs @ [v])" "length us = e" "length vs = e" "us \<noteq> []"
    and "block m pp zs" "length zs = 2 * e" "val zs = val us * val vs" "mapped m pp (2 * Suc e)"
    and "disjnt_rng pp (2 * Suc e) up (Suc e)" "disjnt_rng pp (2 * Suc e) vp (Suc e)"
  shows "\<exists>ws. kara_odd_end m pp up vp e = Some (wr m pp ws) \<and> length ws = 2 * Suc e \<and>
    val ws = val (us @ [u]) * val (vs @ [v])"
proof -
  define lo hi where "lo = take e zs" and "hi = drop e zs"
  have zs: "zs = lo @ hi" "length lo = e" "length hi = e" using assms(7) by (simp_all add: lo_def hi_def)
  have hb: "block m (pp + e) hi" using assms(6) zs by (simp add: block_append)
  have ub: "block m up us" using assms(1) by (simp add: block_append)
  have up1: "up_ok (pp + e) up (length us)" using assms(10,3) by (auto simp: up_ok_def disjnt_rng_def)
  obtain a c where a: "mpn_addmul_1 m (pp + e) up e v = Some (wr m (pp + e) a, c)" "length a = e"
    "val a + base ^ e * unat c = val hi + val us * unat v"
    using mpn_addmul_1_spec [OF ub hb _ assms(5) up1, of v] zs assms(3) by auto
  let ?m = "wr m (pp + e) (a @ [c])"
  have m1: "wr m (pp + e) a (pp + e + e) \<noteq> None" 
    using mapped_nth [OF assms(9), of "e + e"] by (intro wr_not_None) (simp add: add.assoc)
  have m1e: "(wr m (pp + e) a)(pp + e + e \<mapsto> c) = ?m" by (simp add: wr_append wr_Cons a(2))
  have ub': "block ?m up (us @ [u])" and vb': "block ?m vp (vs @ [v])"
    using assms by (auto simp: block_wr_disjnt disjnt_rng_def a(2))
  have up2: "up_ok (pp + e) vp (length (vs @ [v]))" using assms(11,4) by (auto simp: up_ok_def disjnt_rng_def)
  obtain b d where b: "mpn_addmul_1 ?m (pp + e) vp (Suc e) u = Some (wr ?m (pp + e) b, d)" "length b = Suc e"
    "val b + base ^ Suc e * unat d = val (a @ [c]) + val (vs @ [v]) * unat u"
    using mpn_addmul_1_spec [OF vb' block_wr_same _ _ up2, of u] a(2) assms(4) by auto
  have m2: "wr ?m (pp + e) b (pp + e + Suc e) \<noteq> None" 
    using mapped_nth [OF assms(9), of "e + Suc e"] by (intro wr_not_None) (simp add: add.assoc)
  have res: "(wr ?m (pp + e) b)(pp + e + Suc e \<mapsto> d) = wr m pp (lo @ b @ [d])"
  proof -
    have "wr ?m (pp + e) b = wr m (pp + e) b" by (rule wr_wr_same) (simp add: a(2) b(2))
    moreover have "(wr m (pp + e) b)(pp + e + Suc e \<mapsto> d) = wr m (pp + e) (b @ [d])"
      by (simp only: wr_snoc b(2))
    moreover have "wr m pp lo = m" using assms(6) zs by (intro wr_block_id) (simp add: block_append)
    ultimately show ?thesis by (simp add: wr_append [of m pp lo] zs)
  qed
  have "ld m (vp + e) = Some v" using assms(2,4) by (simp add: ld_def block_append block_Cons)
  moreover have "ld ?m (up + e) = Some u" using ub' assms(3) by (simp add: ld_def block_append block_Cons)
  ultimately have fin: "kara_odd_end m pp up vp e = Some (wr m pp (lo @ b @ [d]))"
    using a(1) b(1) m1 m1e m2 res by (simp add: kara_odd_end_def del: fun_upd_apply)
  have "val (lo @ b @ [d]) = val lo + base ^ e * (val b + base ^ Suc e * unat d)"
    by (simp add: val_append zs b(2) algebra_simps)
  moreover have "val (a @ [c]) = val hi + val us * unat v" using a(2,3) by (simp add: val_snoc)
  ultimately have "val (lo @ b @ [d]) = (val lo + base ^ e * val hi) + base ^ e * (val us * unat v + val (vs @ [v]) * unat u)"
    unfolding b(3) by (simp only: distrib_left add.assoc)
  then have "val (lo @ b @ [d]) = val (us @ [u]) * val (vs @ [v])"
    using assms(8) zs assms(3,4) by (simp add: val_append algebra_simps)
  then show ?thesis using fin zs b(2) by (intro exI [of _ "lo @ b @ [d]"]) simp
qed

section \<open>The even case\<close>

lemma kara_diff_spec:
  assumes "block m hp hs" "block m lp ls" "length ls = length hs" "hs \<noteq> []" "mapped m dst (length hs)"
    "disjnt_rng dst (length hs) hp (length hs)" "disjnt_rng dst (length hs) lp (length hs)"
  shows "\<exists>ds. kara_diff m dst hp lp (length hs) = Some (wr m dst ds, val hs < val ls) \<and> length ds = length hs \<and>
    int (val ds) = \<bar>int (val hs) - int (val ls)\<bar>"
proof (cases "val ls \<le> val hs")
  case True
  obtain ds cy where d: "mpn_sub_n m dst hp lp (length hs) = Some (wr m dst ds, cy)" "length ds = length hs"
    "val ds + val ls = val hs + base ^ length hs * unat cy"
    using mpn_sub_n_spec [OF assms(1,2,3,4,5)] assms(6,7) disjnt_up_ok by blast
  have "unat cy = 0"
    using d True val_less [of ds] by (cases "unat cy") auto
  then show ?thesis using d True mpn_cmp_spec [OF assms(1-3)]
    by (intro exI [of _ ds]) (auto simp: kara_diff_def sgn_if)
next
  case False
  have ne: "ls \<noteq> []" "mapped m dst (length ls)" using assms(3,4,5) by auto
  obtain ds cy where d: "mpn_sub_n m dst lp hp (length ls) = Some (wr m dst ds, cy)" "length ds = length ls"
    "val ds + val hs = val ls + base ^ length ls * unat cy"
    using mpn_sub_n_spec [OF assms(2,1) assms(3) [symmetric] ne] assms(3,6,7) disjnt_up_ok by metis
  have "unat cy = 0"
    using d False val_less [of ds] by (cases "unat cy") auto
  then show ?thesis using d False mpn_cmp_spec [OF assms(1-3)] assms(3)
    by (intro exI [of _ ds]) (auto simp: kara_diff_def sgn_if)
qed

text \<open>Adding the products H and M: the middle of the product becomes \<open>X\<close>, with a signed carry \<open>k\<close>.\<close>

lemma kara_add_HM_spec:
  assumes l: "length D1 = h" "length D2 = h" "length H0 = h" "length H1 = h" "length M = 2 * h" "length J = 2 * h" "0 < h"
    and d: "disjnt_rng pp (4 * h) tp (4 * h)" and mp: "mapped m pp (4 * h)"
  shows "\<exists>X k. kara_add_HM (kst m pp tp (D1 @ D2 @ H0 @ H1) (M @ J)) pp tp h neg =
      Some (kst m pp tp (D1 @ X @ H1) (M @ J), word_of_int k) \<and> length X = 2 * h \<and> k \<le> 2 \<and>
    int (val X) + int base ^ (2 * h) * k = int (val (H0 @ H1)) + int base ^ h * int (val H0)
      + (if neg then - int (val M) else int (val M))"
proof -
  let ?T = "M @ J"
  let ?k = "\<lambda>P. kst m pp tp P ?T"
  have dj: "disjnt_rng pp (length P) tp (length ?T)" if "length P = 4 * h" for P :: "limb list"
    using d l that by (simp add: disjnt_rng_def)
  have mp': "mapped m (pp + h) h" "mapped m (pp + 2 * h) h" "mapped m (pp + h) (2 * h)"
    using mp by (auto simp: mapped_def add.assoc)
  have d4: "disjnt_rng pp (length (D1 @ D2 @ H0 @ H1)) tp (length ?T)"
    "disjnt_rng pp (length (D1 @ H0 @ H0 @ H1)) tp (length ?T)" by (rule dj, simp add: l)+
  have b1: "block (?k (D1 @ D2 @ H0 @ H1)) (pp + 2 * h) H0"
    using kst_block_P [OF d4(1), of "D1 @ D2" H0 H1] l by (simp add: mult_2)
  have c1: "copy_up (?k (D1 @ D2 @ H0 @ H1)) (pp + h) (pp + 2 * h) h = Some (?k (D1 @ H0 @ H0 @ H1))"
    using copy_up_spec [OF b1, of "pp + h"] kst_wr_P [OF d4(1), of D1 D2 "H0 @ H1" H0 "pp + h"] l mp'
    by (simp add: up_ok_def)
  have b2: "block (?k (D1 @ H0 @ H0 @ H1)) (pp + 2 * h) H0" "block (?k (D1 @ H0 @ H0 @ H1)) (pp + 2 * h + h) H1"
    using kst_block_P [OF d4(2), of "D1 @ H0" H0 H1] kst_block_P [OF d4(2), of "D1 @ H0 @ H0" H1 "[]"] l
    by (simp_all add: mult_2 add.assoc)
  have "H0 \<noteq> []" using l by auto
  then obtain S c where S: "mpn_add_n (?k (D1 @ H0 @ H0 @ H1)) (pp + 2 * h) (pp + 2 * h) (pp + 2 * h + h) h
      = Some (wr (?k (D1 @ H0 @ H0 @ H1)) (pp + 2 * h) S, c)" "length S = h" "unat c \<le> 1" "val S + base ^ h * unat c = val H0 + val H1"
    using mpn_add_n_spec [OF b2, of "pp + 2 * h"] l mp' by (auto simp: up_ok_def)
  have e2: "wr (?k (D1 @ H0 @ H0 @ H1)) (pp + 2 * h) S = ?k (D1 @ (H0 @ S) @ H1)"
    using kst_wr_P [OF d4(2), of "D1 @ H0" H0 H1 S] l S(2) by (simp add: mult_2)
  have d5: "disjnt_rng pp (length (D1 @ (H0 @ S) @ H1)) tp (length ?T)" using l S(2) by (intro dj) simp
  have b3: "block (?k (D1 @ (H0 @ S) @ H1)) (pp + h) (H0 @ S)" "block (?k (D1 @ (H0 @ S) @ H1)) tp M"
    using kst_block_P [OF d5, of D1 "H0 @ S" H1] kst_block_T [of ?T "[]" M J] l by simp_all
  have side: "length M = length (H0 @ S)" "H0 @ S \<noteq> []" "mapped (?k (D1 @ (H0 @ S) @ H1)) (pp + h) (length (H0 @ S))"
    "up_ok (pp + h) (pp + h) (length (H0 @ S))" "up_ok (pp + h) tp (length (H0 @ S))"
    using l S(2) mp' d by (auto simp: mult_2 up_ok_def disjnt_rng_def)
  have e3: "wr (?k (D1 @ (H0 @ S) @ H1)) (pp + h) X = ?k (D1 @ X @ H1)" if "length X = 2 * h" for X
    using kst_wr_P [OF d5, of D1 "H0 @ S" H1 X] l S(2) that by simp
  have mid: "int (val (H0 @ S)) + int base ^ (2 * h) * int (unat c) = int (val (H0 @ H1)) + int base ^ h * int (val H0)"
  proof -
    have "val (H0 @ S) + base ^ (2 * h) * unat c = val H0 + base ^ h * (val S + base ^ h * unat c)"
      by (simp add: val_append l(3) mult_2 power_add distrib_left mult.assoc)
    also have "\<dots> = val (H0 @ H1) + base ^ h * val H0" unfolding S(4) by (simp add: val_append l(3) algebra_simps)
    finally have "int (val (H0 @ S) + base ^ (2 * h) * unat c) = int (val (H0 @ H1) + base ^ h * val H0)" by simp
    then show ?thesis by simp
  qed
  show ?thesis
  proof (cases neg)
    case True
    obtain X c' where X: "mpn_sub_n (?k (D1 @ (H0 @ S) @ H1)) (pp + h) (pp + h) tp (length (H0 @ S))
        = Some (wr (?k (D1 @ (H0 @ S) @ H1)) (pp + h) X, c')" "length X = length (H0 @ S)"
      "val X + val M = val (H0 @ S) + base ^ length (H0 @ S) * unat c'"
      using mpn_sub_n_spec [OF b3 side] by blast
    have lX: "length X = 2 * h" using X(2) l S(2) by simp
    have "int (val X + val M) = int (val (H0 @ S) + base ^ (2 * h) * unat c')" using X(3) l S(2) by (simp add: mult_2)
    moreover have "c - c' = word_of_int (int (unat c) - int (unat c'))" by simp
    moreover have "int (unat c) - int (unat c') \<le> 2" using S(3) by linarith
    ultimately show ?thesis
      using True c1 S(1,2,3) e2 X(1) e3 [OF lX] lX mid l
      by (intro exI [of _ X] exI [of _ "int (unat c) - int (unat c')"])
        (simp add: kara_add_HM_def mult_2 right_diff_distrib del: of_int_diff word_of_int_uint)
  next
    case False
    obtain X c' where X: "mpn_add_n (?k (D1 @ (H0 @ S) @ H1)) (pp + h) (pp + h) tp (length (H0 @ S))
        = Some (wr (?k (D1 @ (H0 @ S) @ H1)) (pp + h) X, c')" "length X = length (H0 @ S)" "unat c' \<le> 1"
      "val X + base ^ length (H0 @ S) * unat c' = val (H0 @ S) + val M"
      using mpn_add_n_spec [OF b3 side] by blast
    have lX: "length X = 2 * h" using X(2) l S(2) by simp
    have "int (val X + base ^ (2 * h) * unat c') = int (val (H0 @ S) + val M)" using X(4) l S(2) by (simp add: mult_2)
    moreover have "c + c' = word_of_int (int (unat c) + int (unat c'))" by simp
    moreover have "int (unat c) + int (unat c') \<le> 2" using S(3) X(3) by linarith
    ultimately show ?thesis
      using False c1 S(1,2,3) e2 X(1,3) e3 [OF lX] lX mid l
      by (intro exI [of _ X] exI [of _ "int (unat c) + int (unat c')"])
        (simp add: kara_add_HM_def mult_2 distrib_left del: of_int_add word_of_int_uint)
  qed
qed

text \<open>Adding the product L twice: the product is complete, no carry is lost.\<close>

lemma kara_L_end_spec:
  assumes l: "length D1 = h" "length Y = 2 * h" "length Z = h" "length L0 = h" "length L1 = h" "length J = 2 * h" "0 < h"
    and d: "disjnt_rng pp (4 * h) tp (4 * h)" and mp: "mapped m pp (4 * h)"
    and W: "val L0 + base ^ h * (val (Y @ Z) + val L1) = W" "W < base ^ (4 * h)"
  shows "\<exists>zs. kara_L_end (kst m pp tp (D1 @ Y @ Z) ((L0 @ L1) @ J)) pp tp h =
      Some (kst m pp tp zs ((L0 @ L1) @ J)) \<and> length zs = 4 * h \<and> val zs = W"
proof -
  let ?T = "(L0 @ L1) @ J"
  let ?k = "\<lambda>P. kst m pp tp P ?T"
  define Y0 R where "Y0 = take h Y" and "R = drop h Y @ Z"
  have Y: "Y @ Z = Y0 @ R" "length Y0 = h" "length R = 2 * h" using l by (simp_all add: Y0_def R_def)
  have dj: "disjnt_rng pp (length P) tp (length ?T)" if "length P = 4 * h" for P :: "limb list"
    using d l that by (simp add: disjnt_rng_def)
  have d1: "disjnt_rng pp (length (D1 @ Y0 @ R)) tp (length ?T)" "disjnt_rng pp (length (L0 @ Y0 @ R)) tp (length ?T)"
    by (rule dj, simp add: l Y)+
  have mp': "mapped m pp h" "mapped m (pp + h) h" "mapped m (pp + 2 * h) (2 * h)"
    using mp by (auto simp: mapped_def add.assoc)
  have bL: "block (?k P) tp L0" "block (?k P) (tp + h) L1" for P
    using kst_block_T [of ?T "[]" L0 "L1 @ J"] kst_block_T [of ?T L0 L1 J] l by simp_all
  have "up_ok pp tp h" using d l(7) by (auto simp: up_ok_def disjnt_rng_def)
  then have c1: "copy_up (?k (D1 @ Y0 @ R)) pp tp h = Some (?k (L0 @ Y0 @ R))"
    using copy_up_spec [OF bL(1) [of "D1 @ Y0 @ R"], of pp] kst_wr_P [OF d1(1), of "[]" D1 "Y0 @ R" L0 pp] l mp'(1) by simp
  have bY: "block (?k (L0 @ Y0 @ R)) (pp + h) Y0"
    using kst_block_P [OF d1(2), of L0 Y0 R] l by simp
  have "length L1 = length Y0" "Y0 \<noteq> []" "mapped (?k (L0 @ Y0 @ R)) (pp + h) (length Y0)"
    "up_ok (pp + h) (pp + h) (length Y0)" "up_ok (pp + h) (tp + h) (length Y0)"
    using l mp' d Y by (auto simp: up_ok_def disjnt_rng_def)
  from mpn_add_n_spec [OF bY bL(2) this] obtain Y1 c where
    Y1: "mpn_add_n (?k (L0 @ Y0 @ R)) (pp + h) (pp + h) (tp + h) h = Some (wr (?k (L0 @ Y0 @ R)) (pp + h) Y1, c)"
    "length Y1 = h" "unat c \<le> 1" "val Y1 + base ^ h * unat c = val Y0 + val L1"
    using Y(2) by auto
  have e1: "wr (?k (L0 @ Y0 @ R)) (pp + h) Y1 = ?k (L0 @ Y1 @ R)"
    using kst_wr_P [OF d1(2), of L0 Y0 R Y1 "pp + h"] l Y Y1(2) by simp
  have tot: "val L0 + base ^ h * (val Y1 + base ^ h * (unat c + val R)) = W"
    using arg_cong [OF Y1(4), of "\<lambda>x. base ^ h * x"] W(1) Y by (simp add: val_append algebra_simps)
  show ?thesis
  proof (cases "c = 0")
    case True
    then show ?thesis using c1 Y1(1,2) e1 tot Y l
      by (intro exI [of _ "L0 @ Y1 @ R"]) (simp add: kara_L_end_def val_append)
  next
    case False
    then have "unat c \<noteq> 0" by (simp add: unat_eq_zero)
    then have c: "unat c = 1" using Y1(3) by simp
    have d2: "disjnt_rng pp (length (L0 @ Y1 @ R)) tp (length ?T)" by (rule dj) (simp add: l Y Y1)
    have bR: "block (?k (L0 @ Y1 @ R)) (pp + 2 * h) R"
      using kst_block_P [OF d2, of "L0 @ Y1" R "[]"] l Y1(2) by (simp add: mult_2 add.assoc)
    have "R \<noteq> []" using Y l by auto
    then obtain R' o' where R': "mpn_add_1 (?k (L0 @ Y1 @ R)) (pp + 2 * h) (pp + 2 * h) (2 * h) 1
        = Some (wr (?k (L0 @ Y1 @ R)) (pp + 2 * h) R', o')" "length R' = 2 * h" "val R' + base ^ (2 * h) * unat o' = val R + 1"
      using mpn_add_1_spec [OF bR, of "pp + 2 * h" 1] Y(3) mp' by (auto simp: up_ok_def)
    have lt: "val R + 1 < base ^ (2 * h)"
    proof (rule ccontr)
      assume "\<not> val R + 1 < base ^ (2 * h)"
      then have "base ^ h * (base ^ h * base ^ (2 * h)) \<le> base ^ h * (base ^ h * (1 + val R))" by (intro mult_le_mono2) simp
      also have "\<dots> \<le> W" unfolding tot [symmetric] c by (simp add: distrib_left)
      finally show False using W(2) by (simp flip: power_add)
    qed
    have "unat o' = 0" using R'(3) lt by (cases "unat o'") auto
    then have "val (L0 @ Y1 @ R') = W" using R'(3) tot c Y1(2) l by (simp add: val_append algebra_simps)
    moreover have "wr (?k (L0 @ Y1 @ R)) (pp + 2 * h) R' = ?k (L0 @ Y1 @ R')"
      using kst_wr_P [OF d2, of "L0 @ Y1" R "[]" R' "pp + 2 * h"] l Y Y1(2) R'(2) by (simp add: mult_2 add.assoc)
    ultimately show ?thesis using False c1 Y1(1,2) e1 Y R'(1,2) l
      by (intro exI [of _ "L0 @ Y1 @ R'"]) (simp add: kara_L_end_def)
  qed
qed

lemma kara_add_L_spec:
  assumes l: "length D1 = h" "length X = 2 * h" "length H1 = h" "length L0 = h" "length L1 = h" "length J = 2 * h" "0 < h"
    and d: "disjnt_rng pp (4 * h) tp (4 * h)" and mp: "mapped m pp (4 * h)"
    and k: "k \<le> 2" "0 \<le> int (val X) + int base ^ (2 * h) * k + int (val (L0 @ L1))"
    and W: "int (val L0) + int base ^ h * (int (val X) + int base ^ (2 * h) * (k + int (val H1)) + int (val (L0 @ L1)) + int (val L1)) = int W"
    "W < base ^ (4 * h)"
  shows "\<exists>zs. kara_add_L (kst m pp tp (D1 @ X @ H1) ((L0 @ L1) @ J)) pp tp h (word_of_int k) =
      Some (kst m pp tp zs ((L0 @ L1) @ J)) \<and> length zs = 4 * h \<and> val zs = W"
proof -
  let ?T = "(L0 @ L1) @ J"
  let ?k = "\<lambda>P. kst m pp tp P ?T"
  have dj: "disjnt_rng pp (length P) tp (length ?T)" if "length P = 4 * h" for P :: "limb list"
    using d l that by (simp add: disjnt_rng_def)
  have mp': "mapped m (pp + h) h" "mapped m (pp + 2 * h) (2 * h)" "mapped m (pp + h) (2 * h)" "mapped m (pp + h + 2 * h) h" "mapped m pp h"
    using mp by (auto simp: mapped_def add.assoc)
  have d1: "disjnt_rng pp (length (D1 @ X @ H1)) tp (length ?T)" by (rule dj) (simp add: l)
  have b1: "block (?k (D1 @ X @ H1)) (pp + h) X" "block (?k (D1 @ X @ H1)) tp (L0 @ L1)"
    using kst_block_P [OF d1, of D1 X H1] kst_block_T [of ?T "[]" "L0 @ L1" J] l by simp_all
  have "length (L0 @ L1) = length X" "X \<noteq> []" "mapped (?k (D1 @ X @ H1)) (pp + h) (length X)" "up_ok (pp + h) tp (length X)"
    using l mp' d by (auto simp: up_ok_def disjnt_rng_def)
  then obtain Y c where Y: "mpn_add_n (?k (D1 @ X @ H1)) (pp + h) (pp + h) tp (2 * h) = Some (wr (?k (D1 @ X @ H1)) (pp + h) Y, c)"
    "length Y = 2 * h" "unat c \<le> 1" "val Y + base ^ (2 * h) * unat c = val X + val (L0 @ L1)"
    using mpn_add_n_spec [OF b1, of "pp + h"] l(2) by (auto simp: up_ok_def)
  have e1: "wr (?k (D1 @ X @ H1)) (pp + h) Y = ?k (D1 @ Y @ H1)"
    using kst_wr_P [OF d1, of D1 X H1 Y] l Y(2) by simp
  have Yi: "int (val Y) + int base ^ (2 * h) * int (unat c) = int (val X) + int (val (L0 @ L1))"
    using arg_cong [OF Y(4), of int] by simp
  define K where "K = k + int (unat c)"
  have YK: "int (val X) + int base ^ (2 * h) * k + int (val (L0 @ L1)) = int (val Y) + int base ^ (2 * h) * K"
    using Yi by (simp add: K_def distrib_left)
  have K0: "0 \<le> K"
  proof (rule ccontr)
    assume "\<not> 0 \<le> K"
    then have "int base ^ (2 * h) * K \<le> int base ^ (2 * h) * (- 1)" by (intro mult_left_mono) simp_all
    moreover have "int (val Y) < int base ^ (2 * h)" using val_less [of Y] Y(2) by (simp flip: of_nat_power)
    ultimately show False using k(2) YK by simp
  qed
  have K3: "K \<le> 3" unfolding K_def using k(1) Y(3) by linarith
  have kw: "word_of_int k + c = (word_of_int K :: limb)" by (simp add: K_def)
  have uK: "int (unat (word_of_int K :: limb)) = K" using K0 K3 by (simp add: unsigned_of_int take_bit_int_eq_self)
  define N where "N = nat K + val H1"
  have N: "int N = K + int (val H1)" using K0 by (simp add: N_def)
  have WN: "val L0 + base ^ h * (val Y + base ^ (2 * h) * N + val L1) = W"
  proof -
    have "int (val L0 + base ^ h * (val Y + base ^ (2 * h) * N + val L1)) = int W"
      unfolding W(1) [symmetric] using arg_cong [OF YK, of "\<lambda>x. int base ^ h * x"] by (simp add: N algebra_simps)
    then show ?thesis by (simp only: of_nat_eq_iff)
  qed
  have Nlt: "N < base ^ h"
  proof (rule ccontr)
    assume "\<not> N < base ^ h"
    then have "base ^ h * (base ^ (2 * h) * base ^ h) \<le> base ^ h * (base ^ (2 * h) * N)" by simp
    also have "\<dots> \<le> W" by (simp flip: WN add: distrib_left)
    finally show False using W(2) by (simp flip: power_add)
  qed
  let ?s = "kara_carry (?k (D1 @ Y @ H1)) (pp + h + 2 * h) h (word_of_int K)"
  have d2: "disjnt_rng pp (length (D1 @ Y @ H1)) tp (length ?T)" by (rule dj) (simp add: l Y)
  have "\<exists>Z. ?s = Some (?k (D1 @ Y @ Z)) \<and> length Z = h \<and> val Z = N"
  proof (cases "(word_of_int K :: limb) = 0")
    case True
    then have "K = 0" using uK by simp
    then show ?thesis using True l(3) by (intro exI [of _ H1]) (simp add: N_def kara_carry_def)
  next
    case False
    have b: "block (?k (D1 @ Y @ H1)) (pp + h + 2 * h) H1"
      using kst_block_P [OF d2, of "D1 @ Y" H1 "[]"] l Y(2) by (simp add: add.assoc)
    have "H1 \<noteq> []" "mapped (?k (D1 @ Y @ H1)) (pp + h + 2 * h) (length H1)" using l mp' by auto
    then obtain Z o' where Z: "mpn_add_1 (?k (D1 @ Y @ H1)) (pp + h + 2 * h) (pp + h + 2 * h) h (word_of_int K)
        = Some (wr (?k (D1 @ Y @ H1)) (pp + h + 2 * h) Z, o')" "length Z = h"
      "val Z + base ^ h * unat o' = val H1 + unat (word_of_int K :: limb)"
      using mpn_add_1_spec [OF b, of "pp + h + 2 * h" "word_of_int K"] l(3) by (auto simp: up_ok_def)
    have "unat (word_of_int K :: limb) = nat K" using arg_cong [OF uK, of nat] by (simp only: nat_int)
    then have "val Z + base ^ h * unat o' = N" using Z(3) by (simp add: N_def)
    moreover from this have "unat o' = 0" using Nlt by (cases "unat o'") auto
    ultimately show ?thesis
      using False Z(1,2) kst_wr_P [OF d2, of "D1 @ Y" H1 "[]" Z "pp + h + 2 * h"] l Y(2)
      by (intro exI [of _ Z]) (simp add: add.assoc kara_carry_def)
  qed
  then obtain Z where Z: "?s = Some (?k (D1 @ Y @ Z))" "length Z = h" "val Z = N" by blast
  have YZ: "val L0 + base ^ h * (val (Y @ Z) + val L1) = W"
    using WN Z(3) Y(2) by (simp add: val_append algebra_simps)
  have "kara_add_L (?k (D1 @ X @ H1)) pp tp h (word_of_int k) = kara_L_end (?k (D1 @ Y @ Z)) pp tp h"
    using Y(1) e1 kw Z(1) by (simp add: kara_add_L_def)
  then show ?thesis
    using kara_L_end_spec [OF l(1) Y(2) Z(2) l(4-7) d mp YZ W(2)] by simp
qed

section \<open>The calls and the sum\<close>

text \<open>A product computed in the lower half of the scratch space with the upper half as scratch space.\<close>

lemma kara_call:
  assumes f: "mul_ok sq f h" "sq \<longrightarrow> vp = up"
    and b: "block (kst m pp tp P (T1 @ T2)) up us" "block (kst m pp tp P (T1 @ T2)) vp vs"
    and l: "length us = h" "length vs = h" "length T1 = 2 * h" "length T2 = 2 * h" and mt: "mapped m tp (4 * h)"
    and d: "disjnt_rng tp (4 * h) up h" "disjnt_rng tp (4 * h) vp h"
  shows "\<exists>zs ts. f (kst m pp tp P (T1 @ T2)) tp up vp h (tp + 2 * h) = Some (kst m pp tp P (zs @ ts)) \<and>
    length zs = 2 * h \<and> length ts = 2 * h \<and> val zs = val us * val vs"
proof -
  let ?m = "kst m pp tp P (T1 @ T2)"
  have "mapped m tp (2 * h)" "mapped m (tp + 2 * h) (2 * h)" using mt by (auto simp: mapped_def add.assoc)
  then have "mapped ?m tp (2 * h)" "mapped ?m (tp + 2 * h) (2 * h)" by simp_all
  moreover have "disjnt_rng tp (2 * h) (tp + 2 * h) (2 * h)" "disjnt_rng tp (2 * h) up h" "disjnt_rng tp (2 * h) vp h"
    "disjnt_rng (tp + 2 * h) (2 * h) up h" "disjnt_rng (tp + 2 * h) (2 * h) vp h"
    using d by (auto simp: disjnt_rng_def)
  ultimately obtain zs ts where z: "f ?m tp up vp h (tp + 2 * h) = Some (kst ?m tp (tp + 2 * h) zs ts)"
    "length zs = 2 * h" "length ts = 2 * h" "val zs = val us * val vs"
    using mul_okD [OF f b l(1,2)] by blast
  have "kst ?m tp (tp + 2 * h) zs ts = wr (wr ?m tp zs) (tp + 2 * h) ts" by (simp add: kst_def)
  also have "wr ?m tp zs = kst m pp tp P (zs @ T2)" using kst_wr_T [of "T1 @ T2" "[]" T1 T2 zs] l z by simp
  also have "wr (kst m pp tp P (zs @ T2)) (tp + 2 * h) ts = kst m pp tp P (zs @ ts)"
    using kst_wr_T [of "zs @ T2" zs T2 "[]" ts] l z by simp
  finally show ?thesis using z by auto
qed

lemma combine_less:
  fixes a b B :: nat
  assumes "a < B" "b < B"
  shows "a + B * b < B * B"
proof -
  have "a + B * b < B * Suc b" using assms by simp
  also have "\<dots> \<le> B * B" using assms by (intro mult_le_mono2) simp
  finally show ?thesis .
qed

lemma kara_identity:
  fixes u0 u1 v0 v1 B L0 L1 H0 H1 x k s :: int
  assumes "L0 + B * L1 = u0 * v0" "H0 + B * H1 = u1 * v1" "x = H0 + B * H1 + B * H0 + s" "s = (u1 - u0) * (v0 - v1)"
  shows "L0 + B * (x + B * (B * H1) + u0 * v0 + L1) = (u0 + B * u1) * (v0 + B * v1)"
proof -
  have "L0 + B * (x + B * (B * H1) + u0 * v0 + L1) = (L0 + B * L1) + B * (u0 * v0) + (B + B * B) * (H0 + B * H1) + B * s"
    unfolding assms(3) by (simp add: algebra_simps)
  then show ?thesis unfolding assms(1,2,4) by (simp add: algebra_simps)
qed

lemma kara_tail_spec:
  fixes u1 v1 :: nat
  assumes f: "mul_ok sq f h" "sq \<longrightarrow> vp = up"
    and l: "length D1 = h" "length D2 = h" "length H = 2 * h" "length M = 2 * h" "length J = 2 * h" "0 < h"
    and d: "disjnt_rng pp (4 * h) tp (4 * h)" and mp: "mapped m pp (4 * h)" "mapped m tp (4 * h)"
    and u: "block m up U0" "length U0 = h" "disjnt_rng pp (4 * h) up h" "disjnt_rng tp (4 * h) up h" "u1 < base ^ h"
    and v: "block m vp V0" "length V0 = h" "disjnt_rng pp (4 * h) vp h" "disjnt_rng tp (4 * h) vp h" "v1 < base ^ h"
    and H: "val H = u1 * v1"
    and M: "(if neg then - int (val M) else int (val M)) = (int u1 - int (val U0)) * (int (val V0) - int v1)"
  shows "\<exists>zs ts. do { (m, cy) \<leftarrow> kara_add_HM (kst m pp tp (D1 @ D2 @ H) (M @ J)) pp tp h neg;
                  m \<leftarrow> f m tp up vp h (tp + 2 * h); kara_add_L m pp tp h cy } =
      Some (kst m pp tp zs ts) \<and> length zs = 4 * h \<and> length ts = 4 * h \<and>
      val zs = (val U0 + base ^ h * u1) * (val V0 + base ^ h * v1)"
proof -
  define H0 H1 where "H0 = take h H" and "H1 = drop h H"
  have H01: "H = H0 @ H1" "length H0 = h" "length H1 = h" using l by (simp_all add: H0_def H1_def)
  obtain X k where X: "kara_add_HM (kst m pp tp (D1 @ D2 @ H0 @ H1) (M @ J)) pp tp h neg =
      Some (kst m pp tp (D1 @ X @ H1) (M @ J), word_of_int k)" "length X = 2 * h" "k \<le> 2"
    "int (val X) + int base ^ (2 * h) * k = int (val (H0 @ H1)) + int base ^ h * int (val H0)
      + (if neg then - int (val M) else int (val M))"
    using kara_add_HM_spec [OF l(1,2) H01(2,3) l(4-6) d mp(1)] by metis
  let ?s = "kst m pp tp (D1 @ X @ H1) (M @ J)"
  have "block ?s up U0" "block ?s vp V0" using u v l H01 X(2) by (auto intro!: kst_block_out)
  then obtain L J' where L: "f ?s tp up vp h (tp + 2 * h) = Some (kst m pp tp (D1 @ X @ H1) (L @ J'))"
    "length L = 2 * h" "length J' = 2 * h" "val L = val U0 * val V0"
    using kara_call [OF f _ _ u(2) v(2) l(4,5) mp(2) u(4) v(4)] by blast
  define L0 L1 where "L0 = take h L" and "L1 = drop h L"
  have L01: "L = L0 @ L1" "length L0 = h" "length L1 = h" using L by (simp_all add: L0_def L1_def)
  let ?W = "(val U0 + base ^ h * u1) * (val V0 + base ^ h * v1)"
  have Le: "int (val L0) + int base ^ h * int (val L1) = int (val U0) * int (val V0)"
    using arg_cong [OF L(4), of int] L01 by (simp add: val_append)
  have He: "int (val H0) + int base ^ h * int (val H1) = int u1 * int v1"
    using arg_cong [OF H, of int] H01 by (simp add: val_append)
  define x where "x = int (val X) + int base ^ (2 * h) * k"
  have xe: "x = int (val H0) + int base ^ h * int (val H1) + int base ^ h * int (val H0)
      + (int u1 - int (val U0)) * (int (val V0) - int v1)"
    unfolding x_def X(4) M by (simp add: val_append H01)
  have k2: "0 \<le> int (val X) + int base ^ (2 * h) * k + int (val (L0 @ L1))"
  proof -
    have "x + int (val L) = int u1 * int (val V0) + int (val U0) * int v1 + int base ^ h * int (val H0)"
      unfolding xe He L(4) by (simp add: algebra_simps)
    then show ?thesis unfolding L01(1) [symmetric] x_def [symmetric] by simp
  qed
  have W1: "int (val L0) + int base ^ h * (int (val X) + int base ^ (2 * h) * (k + int (val H1)) + int (val (L0 @ L1)) + int (val L1)) = int ?W"
  proof -
    have "int (val L0) + int base ^ h * (x + int base ^ h * (int base ^ h * int (val H1)) + int (val U0) * int (val V0) + int (val L1))
        = (int (val U0) + int base ^ h * int u1) * (int (val V0) + int base ^ h * int v1)"
      by (rule kara_identity [OF Le He xe refl])
    then show ?thesis
      unfolding L01(1) [symmetric] L(4) x_def by (simp add: distrib_left mult_2 power_add mult.assoc add.assoc)
  qed
  have "val U0 + base ^ h * u1 < base ^ (2 * h)" "val V0 + base ^ h * v1 < base ^ (2 * h)"
    using val_less [of U0] val_less [of V0] u v by (simp_all add: mult_2 power_add combine_less)
  then have W2: "?W < base ^ (4 * h)"
  proof -
    assume a: "val U0 + base ^ h * u1 < base ^ (2 * h)" "val V0 + base ^ h * v1 < base ^ (2 * h)"
    have "?W < base ^ (2 * h) * base ^ (2 * h)" using a by (intro mult_strict_mono) simp_all
    then show ?thesis by (simp flip: power_add)
  qed
  obtain zs where "kara_add_L (kst m pp tp (D1 @ X @ H1) ((L0 @ L1) @ J')) pp tp h (word_of_int k) =
      Some (kst m pp tp zs ((L0 @ L1) @ J'))" "length zs = 4 * h" "val zs = ?W"
    using kara_add_L_spec [OF l(1) X(2) H01(3) L01(2,3) L(3) l(6) d mp(1) X(3) k2 W1 W2] by blast
  then show ?thesis
    using X(1) L(1,2,3) L01 H01(1) by (intro exI [of _ zs] exI [of _ "L @ J'"]) simp
qed

text \<open>The product of the upper halves goes to the upper half of the result.\<close>

lemma kara_first:
  assumes f: "mul_ok sq f h" "sq \<longrightarrow> vq = uq"
    and d: "disjnt_rng pp (4 * h) tp (4 * h)" and mp: "mapped m pp (4 * h)" "mapped m tp (4 * h)"
    and u: "block m uq us" "length us = h" "disjnt_rng pp (4 * h) uq h" "disjnt_rng tp (4 * h) uq h"
    and v: "block m vq vs" "length vs = h" "disjnt_rng pp (4 * h) vq h" "disjnt_rng tp (4 * h) vq h"
  shows "\<exists>D1 D2 H T1 T2. f m (pp + 2 * h) uq vq h tp = Some (kst m pp tp (D1 @ D2 @ H) (T1 @ T2)) \<and>
    length D1 = h \<and> length D2 = h \<and> length H = 2 * h \<and> length T1 = 2 * h \<and> length T2 = 2 * h \<and> val H = val us * val vs"
proof -
  obtain P T where PT: "length P = 4 * h" "length T = 4 * h" "m = kst m pp tp P T"
    using kst_self [OF mp] by blast
  define D1 D2 Q T1 T2 where "D1 = take h P" and "D2 = take h (drop h P)" and "Q = drop h (drop h P)"
    and "T1 = take (2 * h) T" and "T2 = drop (2 * h) T"
  have sp: "P = D1 @ D2 @ Q" "T = T1 @ T2" "length D1 = h" "length D2 = h" "length Q = 2 * h"
    "length T1 = 2 * h" "length T2 = 2 * h"
    using PT by (simp_all add: D1_def D2_def Q_def T1_def T2_def del: drop_drop)
  have "mapped m (pp + 2 * h) (2 * h)" "mapped m tp (2 * h)" using mp by (auto simp: mapped_def add.assoc)
  moreover have "disjnt_rng (pp + 2 * h) (2 * h) tp (2 * h)" "disjnt_rng (pp + 2 * h) (2 * h) uq h" "disjnt_rng (pp + 2 * h) (2 * h) vq h"
    "disjnt_rng tp (2 * h) uq h" "disjnt_rng tp (2 * h) vq h"
    using d u v by (auto simp: disjnt_rng_def)
  ultimately obtain zs ts where z: "f m (pp + 2 * h) uq vq h tp = Some (kst m (pp + 2 * h) tp zs ts)"
    "length zs = 2 * h" "length ts = 2 * h" "val zs = val us * val vs"
    using mul_okD [OF f u(1) v(1) u(2) v(2)] by blast
  have dj: "disjnt_rng pp (length (D1 @ D2 @ Q)) tp (length T)" "disjnt_rng pp (length (D1 @ D2 @ zs)) tp (length T)"
    using d sp PT z by (simp_all add: disjnt_rng_def)
  have "kst m (pp + 2 * h) tp zs ts = wr (wr (kst m pp tp P T) (pp + 2 * h) zs) tp ts" using PT(3) by (simp add: kst_def)
  also have "wr (kst m pp tp P T) (pp + 2 * h) zs = kst m pp tp (D1 @ D2 @ zs) T"
    using kst_wr_P [OF dj(1), of "D1 @ D2" Q "[]" zs "pp + 2 * h"] sp z by simp
  also have "wr (kst m pp tp (D1 @ D2 @ zs) T) tp ts = kst m pp tp (D1 @ D2 @ zs) (ts @ T2)"
    using kst_wr_T [of T "[]" T1 T2 ts tp] sp z by simp
  finally show ?thesis
    using z sp by (intro exI [of _ D1] exI [of _ D2] exI [of _ zs] exI [of _ ts] exI [of _ T2]) simp
qed

lemma kara_even_spec:
  assumes f: "mul_ok False f h" "0 < h" and us: "us = U0 @ U1" "length U0 = h" "length U1 = h"
    and vs: "vs = V0 @ V1" "length V0 = h" "length V1 = h"
    and d: "disjnt_rng pp (4 * h) tp (4 * h)" and mp: "mapped m pp (4 * h)" "mapped m tp (4 * h)"
    and u: "block m up us" "disjnt_rng pp (4 * h) up (2 * h)" "disjnt_rng tp (4 * h) up (2 * h)"
    and v: "block m vp vs" "disjnt_rng pp (4 * h) vp (2 * h)" "disjnt_rng tp (4 * h) vp (2 * h)"
  shows "\<exists>zs ts. do { m \<leftarrow> f m (pp + 2 * h) (up + h) (vp + h) h tp;
            (m, uneg) \<leftarrow> kara_diff m pp (up + h) up h;
            (m, vneg) \<leftarrow> kara_diff m (pp + h) (vp + h) vp h;
            m \<leftarrow> f m tp pp (pp + h) h (tp + 2 * h);
            (m, cy) \<leftarrow> kara_add_HM m pp tp h (uneg \<noteq> (\<not> vneg));
            m \<leftarrow> f m tp up vp h (tp + 2 * h);
            kara_add_L m pp tp h cy } = Some (kst m pp tp zs ts) \<and> length zs = 4 * h \<and> length ts = 4 * h \<and>
      val zs = val us * val vs"
proof -
  have bu: "block m up U0" "block m (up + h) U1" using u(1) us by (simp_all add: block_append)
  have bv: "block m vp V0" "block m (vp + h) V1" using v(1) vs by (simp_all add: block_append)
  have du: "disjnt_rng pp (4 * h) up h" "disjnt_rng pp (4 * h) (up + h) h" "disjnt_rng tp (4 * h) up h" "disjnt_rng tp (4 * h) (up + h) h"
    using u by (auto simp: disjnt_rng_def)
  have dv: "disjnt_rng pp (4 * h) vp h" "disjnt_rng pp (4 * h) (vp + h) h" "disjnt_rng tp (4 * h) vp h" "disjnt_rng tp (4 * h) (vp + h) h"
    using v by (auto simp: disjnt_rng_def)
  obtain D1 D2 H T1 T2 where H: "f m (pp + 2 * h) (up + h) (vp + h) h tp = Some (kst m pp tp (D1 @ D2 @ H) (T1 @ T2))"
    "length D1 = h" "length D2 = h" "length H = 2 * h" "length T1 = 2 * h" "length T2 = 2 * h" "val H = val U1 * val V1"
    using kara_first [OF f(1) _ d mp bu(2) us(3) du(2,4) bv(2) vs(3) dv(2,4)] by blast
  let ?k = "\<lambda>A B. kst m pp tp (A @ B @ H) (T1 @ T2)"
  have dj: "disjnt_rng pp (length (A @ B @ H)) tp (length (T1 @ T2))" if "length A = h" "length B = h" for A B :: "limb list"
    using that d H by (simp add: disjnt_rng_def)
  have out: "block (?k A B) q xs" if "block m q xs" "disjnt_rng pp (4 * h) q h" "disjnt_rng tp (4 * h) q h" "length xs = h"
    "length A = h" "length B = h" for A B q xs
    using that H by (intro kst_block_out) simp_all
  have mph: "mapped (?k A B) pp h" "mapped (?k A B) (pp + h) h" for A B using mp(1) by (intro kst_mapped, simp add: mapped_def add.assoc)+
  have ne: "U1 \<noteq> []" "V1 \<noteq> []" using us(3) vs(3) f(2) by auto
  have dd: "disjnt_rng pp h (up + h) h" "disjnt_rng pp h up h" "disjnt_rng (pp + h) h (vp + h) h" "disjnt_rng (pp + h) h vp h"
    using u v by (auto simp: disjnt_rng_def)
  obtain E1 where E1: "kara_diff (?k D1 D2) pp (up + h) up h = Some (wr (?k D1 D2) pp E1, val U1 < val U0)" "length E1 = h"
    "int (val E1) = \<bar>int (val U1) - int (val U0)\<bar>"
    using kara_diff_spec [OF out [OF bu(2) du(2,4) us(3) H(2,3)] out [OF bu(1) du(1,3) us(2) H(2,3)] _ ne(1), of pp] mph(1) us dd by auto
  have e1: "wr (?k D1 D2) pp E1 = ?k E1 D2"
    using kst_wr_P [OF dj [OF H(2,3)], of "[]" D1 "D2 @ H" E1 pp] H E1(2) by simp
  obtain E2 where E2: "kara_diff (?k E1 D2) (pp + h) (vp + h) vp h = Some (wr (?k E1 D2) (pp + h) E2, val V1 < val V0)" "length E2 = h"
    "int (val E2) = \<bar>int (val V1) - int (val V0)\<bar>"
    using kara_diff_spec [OF out [OF bv(2) dv(2,4) vs(3) E1(2) H(3)] out [OF bv(1) dv(1,3) vs(2) E1(2) H(3)] _ ne(2), of "pp + h"]
      mph(2) vs dd by auto
  have e2: "wr (?k E1 D2) (pp + h) E2 = ?k E1 E2"
    using kst_wr_P [OF dj [OF E1(2) H(3)], of E1 D2 H E2 "pp + h"] H E1(2) E2(2) by simp
  have bE: "block (?k E1 E2) pp E1" "block (?k E1 E2) (pp + h) E2"
    using kst_block_P [OF dj [OF E1(2) E2(2)], of "[]" E1 "E2 @ H"] kst_block_P [OF dj [OF E1(2) E2(2)], of E1 E2 H] E1(2) by simp_all
  have dE: "disjnt_rng tp (4 * h) pp h" "disjnt_rng tp (4 * h) (pp + h) h" using d by (auto simp: disjnt_rng_def)
  obtain M J where M: "f (?k E1 E2) tp pp (pp + h) h (tp + 2 * h) = Some (kst m pp tp (E1 @ E2 @ H) (M @ J))"
    "length M = 2 * h" "length J = 2 * h" "val M = val E1 * val E2"
    using kara_call [OF f(1) _ bE E1(2) E2(2) H(5,6) mp(2) dE] by blast
  have Me: "int (val M) = \<bar>int (val U1) - int (val U0)\<bar> * \<bar>int (val V1) - int (val V0)\<bar>"
    unfolding M(4) of_nat_mult E1(3) E2(3) by (rule refl)
  have sM: "(if (val U1 < val U0) \<noteq> (\<not> (val V1 < val V0)) then - int (val M) else int (val M)) =
      (int (val U1) - int (val U0)) * (int (val V0) - int (val V1))"
    unfolding Me by (auto simp: abs_if algebra_simps)
  have lt: "val U1 < base ^ h" "val V1 < base ^ h" using val_less [of U1] val_less [of V1] us vs by simp_all
  show ?thesis
    using kara_tail_spec [OF f(1) _ E1(2) E2(2) H(4) M(2,3) f(2) d mp bu(1) us(2) du(1,3) lt(1) bv(1) vs(2) dv(1,3) lt(2) H(7) sM]
      H(1) E1(1) E2(1) M(1) us vs by (simp add: e1 e2 val_append)
qed

section \<open>The multiplication\<close>

text \<open>\<open>MPN_MUL_N_RECURSE\<close>: the schoolbook loop below the threshold, Karatsuba's step above.\<close>

definition mpn_mul_n_recurse :: "lmem \<Rightarrow> nat \<Rightarrow> nat \<Rightarrow> nat \<Rightarrow> nat \<Rightarrow> nat \<Rightarrow> lmem option" where
  "mpn_mul_n_recurse m prodp up vp n tspace =
    (if n < karatsuba_threshold then impn_mul_n_basecase m prodp up vp n
     else impn_mul_n m prodp up vp n tspace)"

lemma length_Suc_conv_rev: "length xs = Suc n \<Longrightarrow> \<exists>ys y. xs = ys @ [y] \<and> length ys = n"
  by (cases xs rule: rev_cases) auto

lemma mul_ok_cong:
  "(\<And>m pp up vp tp. f m pp up vp n tp = g m pp up vp n tp) \<Longrightarrow> mul_ok sq f n = mul_ok sq g n"
  by (simp add: mul_ok_def)

text \<open>The odd case, on top of any multiplication of one limb less.\<close>

lemma kara_odd_spec:
  assumes f: "mul_ok sq f e" "sq \<longrightarrow> vp = up" and e: "0 < e" and l: "length us = Suc e" "length vs = Suc e"
    and b: "block m up us" "block m vp vs" and mp: "mapped m pp (2 * Suc e)" "mapped m tp (2 * Suc e)"
    and d: "disjnt_rng pp (2 * Suc e) tp (2 * Suc e)" "disjnt_rng pp (2 * Suc e) up (Suc e)" "disjnt_rng pp (2 * Suc e) vp (Suc e)"
      "disjnt_rng tp (2 * Suc e) up (Suc e)" "disjnt_rng tp (2 * Suc e) vp (Suc e)"
  shows "\<exists>zs ts. do { m \<leftarrow> f m pp up vp e tp; kara_odd_end m pp up vp e } = Some (kst m pp tp zs ts) \<and>
    length zs = 2 * Suc e \<and> length ts = 2 * Suc e \<and> val zs = val us * val vs"
proof -
  obtain U u where U: "us = U @ [u]" "length U = e" using l(1) length_Suc_conv_rev by blast
  obtain V v where V: "vs = V @ [v]" "length V = e" using l(2) length_Suc_conv_rev by blast
  have bU: "block m up U" "block m vp V" using b U V by (simp_all add: block_append)
  have mp': "mapped m pp (2 * e)" "mapped m tp (2 * e)" using mp by (auto intro: mapped_le)
  have d': "disjnt_rng pp (2 * e) tp (2 * e)" "disjnt_rng pp (2 * e) up e" "disjnt_rng pp (2 * e) vp e"
      "disjnt_rng tp (2 * e) up e" "disjnt_rng tp (2 * e) vp e"
    using d by (auto simp: disjnt_rng_def)
  obtain zs ts where z: "f m pp up vp e tp = Some (kst m pp tp zs ts)" "length zs = 2 * e" "length ts = 2 * e" "val zs = val U * val V"
    using mul_okD [OF f bU U(2) V(2) mp' d'] by blast
  have bz: "block (kst m pp tp zs ts) pp zs"
    using kst_block_P [of pp zs tp ts "[]" zs "[]" m] d'(1) z by simp
  have bs: "block (kst m pp tp zs ts) up (U @ [u])" "block (kst m pp tp zs ts) vp (V @ [v])"
    using b d z U V by (auto intro!: kst_block_out simp: disjnt_rng_def)
  have ne: "U \<noteq> []" using U e by auto
  obtain ws where w: "kara_odd_end (kst m pp tp zs ts) pp up vp e = Some (wr (kst m pp tp zs ts) pp ws)"
    "length ws = 2 * Suc e" "val ws = val us * val vs"
    using kara_odd_end_spec [OF bs U(2) V(2) ne bz z(2,4) kst_mapped [OF mp(1)] d(2,3)] U V by auto
  obtain ts' where ts': "length ts' = 2 * Suc e" "block (kst m pp tp zs ts) tp ts'"
    using mapped_block [OF kst_mapped [OF mp(2)]] by blast
  have wt: "wr m pp ws = wr (wr m pp zs) pp ws" by (rule ext) (auto simp: wr_def z w)
  have c1: "wr (kst m pp tp zs ts) pp ws = wr (wr (kst m pp tp zs ts) tp ts') pp ws" using ts' by (simp add: wr_block_id)
  have c2: "wr (wr (kst m pp tp zs ts) tp ts') pp ws = wr (wr (kst m pp tp zs ts) pp ws) tp ts'"
    using d ts' w by (intro wr_commute) (simp add: disjnt_rng_sym)
  have c3: "wr (kst m pp tp zs ts) pp ws = wr (wr (wr m pp zs) pp ws) tp ts"
    using d z w unfolding kst_def by (intro wr_commute) (auto simp: disjnt_rng_def)
  have c4: "wr (wr (wr (wr m pp zs) pp ws) tp ts) tp ts' = kst m pp tp ws ts'"
    unfolding kst_def wt by (rule ext) (auto simp: wr_def z ts')
  have "wr (kst m pp tp zs ts) pp ws = kst m pp tp ws ts'"
    using c1 c2 by (simp only: c3 c4)
  then show ?thesis using z(1) w ts'(1) by auto
qed

lemma mul_ok_impn_mul_n:
  assumes "2 \<le> n"
  shows "mul_ok False impn_mul_n n"
  using assms
proof (induction n rule: less_induct)
  case (less n)
  have rec: "mul_ok False mpn_mul_n_recurse k" if "0 < k" "k < n" for k
  proof (cases "k < karatsuba_threshold")
    case True
    then show ?thesis using mul_ok_basecase [OF that(1)]
      by (subst mul_ok_cong [of _ _ "\<lambda>m pp up vp n tp. impn_mul_n_basecase m pp up vp n"]) (simp_all add: mpn_mul_n_recurse_def)
  next
    case False
    then show ?thesis using less.IH [OF that(2)]
      by (subst mul_ok_cong [of _ _ impn_mul_n]) (simp_all add: mpn_mul_n_recurse_def karatsuba_threshold_def)
  qed
  show ?case unfolding mul_ok_def
  proof (intro allI impI)
    fix m :: lmem and pp up vp tp us vs
    assume a: "block m up us" "block m vp vs" "length us = n" "length vs = n" "mapped m pp (2 * n)" "mapped m tp (2 * n)"
      "disjnt_rng pp (2 * n) tp (2 * n)" "disjnt_rng pp (2 * n) up n" "disjnt_rng pp (2 * n) vp n"
      "disjnt_rng tp (2 * n) up n" "disjnt_rng tp (2 * n) vp n"
    show "\<exists>zs ts. impn_mul_n m pp up vp n tp = Some (kst m pp tp zs ts) \<and> length zs = 2 * n \<and> length ts = 2 * n \<and>
      val zs = val us * val vs"
    proof (cases "odd n")
      case True
      obtain e where e: "n = Suc e" "0 < e" using less.prems by (cases n) auto
      have eq: "impn_mul_n m pp up vp n tp = do { m \<leftarrow> mpn_mul_n_recurse m pp up vp e tp; kara_odd_end m pp up vp e }"
        using True by (subst impn_mul_n.simps) (simp add: e(1) mpn_mul_n_recurse_def)
      show ?thesis unfolding eq
        using kara_odd_spec [OF rec [of e] _ e(2) _ _ a(1,2)] a e by simp
    next
      case False
      define h where "h = n div 2"
      have h: "n = 2 * h" "0 < h" "h < n" using False less.prems by (auto simp: h_def)
      have eq: "impn_mul_n m pp up vp n tp = do { m \<leftarrow> mpn_mul_n_recurse m (pp + 2 * h) (up + h) (vp + h) h tp;
            (m, uneg) \<leftarrow> kara_diff m pp (up + h) up h;
            (m, vneg) \<leftarrow> kara_diff m (pp + h) (vp + h) vp h;
            m \<leftarrow> mpn_mul_n_recurse m tp pp (pp + h) h (tp + 2 * h);
            (m, cy) \<leftarrow> kara_add_HM m pp tp h (uneg \<noteq> (\<not> vneg));
            m \<leftarrow> mpn_mul_n_recurse m tp up vp h (tp + 2 * h);
            kara_add_L m pp tp h cy }"
        by (subst impn_mul_n.simps) (simp add: h(1) mpn_mul_n_recurse_def)
      have "us = take h us @ drop h us" "length (take h us) = h" "length (drop h us) = h"
        "vs = take h vs @ drop h vs" "length (take h vs) = h" "length (drop h vs) = h" using a h by simp_all
      note sp = this
      have n4: "4 * h = 2 * n" using h by simp
      show ?thesis unfolding eq
        using kara_even_spec [OF rec [OF h(2,3)] h(2) sp, unfolded n4, of pp tp m up vp] a h by simp
    qed
  qed
qed

end
