(* ===== verification/MpnMulN.thy ===== *)
theory MpnMulN
  imports MpnKaratsuba
begin

text \<open>
  Squaring and the two entry points of the multiplication: \<open>impn_sqr_n\<close> and \<open>mpn_mul_n\<close> of
  \<^verbatim>\<open>gmp/mpn-mul_n.c\<close> and \<open>mpn_mul\<close> of \<^verbatim>\<open>gmp/mpn-mul.c\<close>, for operands of different lengths.

  The temporary space the code takes from the stack (\<open>TMP_ALLOC\<close>) is an argument: the address
  from which unused cells lie. One frame of \<open>mpn_mul\<close> takes \<open>4 * vsize\<close> limbs of it, all frames
  together never more than \<open>4 * (usize + vsize)\<close>.
\<close>

section \<open>Squaring\<close>

function impn_sqr_n :: "lmem \<Rightarrow> nat \<Rightarrow> nat \<Rightarrow> nat \<Rightarrow> nat \<Rightarrow> lmem option" where
  "impn_sqr_n m prodp up n tspace =
    (if odd n
     then do { m \<leftarrow> (if n - 1 < karatsuba_threshold then impn_sqr_n_basecase m prodp up (n - 1)
                     else impn_sqr_n m prodp up (n - 1) tspace);
               kara_odd_end m prodp up up (n - 1) }
     else
       do { m \<leftarrow> (if n div 2 < karatsuba_threshold
                  then impn_sqr_n_basecase m (prodp + n) (up + n div 2) (n div 2)
                  else impn_sqr_n m (prodp + n) (up + n div 2) (n div 2) tspace);
            (m, _) \<leftarrow> kara_diff m prodp (up + n div 2) up (n div 2);
            m \<leftarrow> (if n div 2 < karatsuba_threshold
                  then impn_sqr_n_basecase m tspace prodp (n div 2)
                  else impn_sqr_n m tspace prodp (n div 2) (tspace + n));
            (m, cy) \<leftarrow> kara_add_HM m prodp tspace (n div 2) True;
            m \<leftarrow> (if n div 2 < karatsuba_threshold
                  then impn_sqr_n_basecase m tspace up (n div 2)
                  else impn_sqr_n m tspace up (n div 2) (tspace + n));
            kara_add_L m prodp tspace (n div 2) cy })"
  by pat_completeness auto
termination
  by (relation "measure (\<lambda>(m, prodp, up, n, tspace). n)") (auto simp: karatsuba_threshold_def)

declare impn_sqr_n.simps [simp del]

definition mpn_sqr_n_recurse :: "lmem \<Rightarrow> nat \<Rightarrow> nat \<Rightarrow> nat \<Rightarrow> nat \<Rightarrow> lmem option" where
  "mpn_sqr_n_recurse m prodp up n tspace =
    (if n < karatsuba_threshold then impn_sqr_n_basecase m prodp up n
     else impn_sqr_n m prodp up n tspace)"

text \<open>\<open>mpn_mul_n\<close>: operands at the same address are squared.\<close>

definition mpn_mul_n :: "lmem \<Rightarrow> nat \<Rightarrow> nat \<Rightarrow> nat \<Rightarrow> nat \<Rightarrow> nat \<Rightarrow> lmem option" where
  "mpn_mul_n m prodp up vp n tspace =
    (if up = vp
     then (if n < karatsuba_threshold then impn_sqr_n_basecase m prodp up n
           else impn_sqr_n m prodp up n tspace)
     else (if n < karatsuba_threshold then impn_mul_n_basecase m prodp up vp n
           else impn_mul_n m prodp up vp n tspace))"

lemma kara_even_sqr_spec:
  assumes f: "mul_ok True f h" "0 < h" and us: "us = U0 @ U1" "length U0 = h" "length U1 = h"
    and d: "disjnt_rng pp (4 * h) tp (4 * h)" and mp: "mapped m pp (4 * h)" "mapped m tp (4 * h)"
    and u: "block m up us" "disjnt_rng pp (4 * h) up (2 * h)" "disjnt_rng tp (4 * h) up (2 * h)"
  shows "\<exists>zs ts. do { m \<leftarrow> f m (pp + 2 * h) (up + h) (up + h) h tp;
            (m, _) \<leftarrow> kara_diff m pp (up + h) up h;
            m \<leftarrow> f m tp pp pp h (tp + 2 * h);
            (m, cy) \<leftarrow> kara_add_HM m pp tp h True;
            m \<leftarrow> f m tp up up h (tp + 2 * h);
            kara_add_L m pp tp h cy } = Some (kst m pp tp zs ts) \<and> length zs = 4 * h \<and> length ts = 4 * h \<and>
      val zs = val us * val us"
proof -
  have bu: "block m up U0" "block m (up + h) U1" using u(1) us by (simp_all add: block_append)
  have du: "disjnt_rng pp (4 * h) up h" "disjnt_rng pp (4 * h) (up + h) h" "disjnt_rng tp (4 * h) up h" "disjnt_rng tp (4 * h) (up + h) h"
    using u by (auto simp: disjnt_rng_def)
  obtain D1 D2 H T1 T2 where H: "f m (pp + 2 * h) (up + h) (up + h) h tp = Some (kst m pp tp (D1 @ D2 @ H) (T1 @ T2))"
    "length D1 = h" "length D2 = h" "length H = 2 * h" "length T1 = 2 * h" "length T2 = 2 * h" "val H = val U1 * val U1"
    using kara_first [OF f(1) _ d mp bu(2) us(3) du(2,4) bu(2) us(3) du(2,4)] by blast
  let ?k = "\<lambda>A. kst m pp tp (A @ D2 @ H) (T1 @ T2)"
  have dj: "disjnt_rng pp (length (A @ D2 @ H)) tp (length (T1 @ T2))" if "length A = h" for A :: "limb list"
    using that d H by (simp add: disjnt_rng_def)
  have out: "block (?k D1) q xs" if "block m q xs" "disjnt_rng pp (4 * h) q h" "disjnt_rng tp (4 * h) q h" "length xs = h" for q xs
    using that H by (intro kst_block_out) simp_all
  have mph: "mapped (?k A) pp h" for A using mp(1) by (intro kst_mapped) (simp add: mapped_def)
  have ne: "U1 \<noteq> []" using us(3) f(2) by auto
  have dd: "disjnt_rng pp h (up + h) h" "disjnt_rng pp h up h"
    using u by (auto simp: disjnt_rng_def)
  obtain E b where E: "kara_diff (?k D1) pp (up + h) up h = Some (wr (?k D1) pp E, b)" "length E = h"
    "int (val E) = \<bar>int (val U1) - int (val U0)\<bar>"
    using kara_diff_spec [OF out [OF bu(2) du(2,4) us(3)] out [OF bu(1) du(1,3) us(2)] _ ne(1), of pp] mph us dd by auto
  have e: "wr (?k D1) pp E = ?k E"
    using kst_wr_P [OF dj [OF H(2)], of "[]" D1 "D2 @ H" E pp] H E(2) by simp
  have bE: "block (?k E) pp E"
    using kst_block_P [OF dj [OF E(2)], of "[]" E "D2 @ H"] by simp
  have dE: "disjnt_rng tp (4 * h) pp h" using d by (auto simp: disjnt_rng_def)
  obtain M J where M: "f (?k E) tp pp pp h (tp + 2 * h) = Some (kst m pp tp (E @ D2 @ H) (M @ J))"
    "length M = 2 * h" "length J = 2 * h" "val M = val E * val E"
    using kara_call [OF f(1) _ bE bE E(2) E(2) H(5,6) mp(2) dE dE] by blast
  have sM: "(if True then - int (val M) else int (val M)) =
      (int (val U1) - int (val U0)) * (int (val U0) - int (val U1))"
    unfolding M(4) of_nat_mult E(3) by (auto simp: abs_if algebra_simps)
  have lt: "val U1 < base ^ h" using val_less [of U1] us by simp
  show ?thesis
    using kara_tail_spec [OF f(1) _ E(2) H(3,4) M(2,3) f(2) d mp bu(1) us(2) du(1,3) lt bu(1) us(2) du(1,3) lt H(7) sM]
      H(1) E(1) M(1) us by (simp add: e val_append)
qed

lemma mul_ok_sqr_basecase:
  assumes "0 < n"
  shows "mul_ok True (\<lambda>m pp up vp n tp. impn_sqr_n_basecase m pp up n) n"
  using mul_ok_basecase [OF assms] unfolding mul_ok_def
  by (auto simp: impn_mul_n_basecase_def impn_sqr_n_basecase_def)

lemma mul_ok_impn_sqr_n:
  assumes "2 \<le> n"
  shows "mul_ok True (\<lambda>m pp up vp n tp. impn_sqr_n m pp up n tp) n"
  using assms
proof (induction n rule: less_induct)
  case (less n)
  let ?r = "\<lambda>m pp up vp n tp. mpn_sqr_n_recurse m pp up n tp"
  have rec: "mul_ok True ?r k" if "0 < k" "k < n" for k
  proof (cases "k < karatsuba_threshold")
    case True
    then show ?thesis using mul_ok_sqr_basecase [OF that(1)]
      by (subst mul_ok_cong [of _ _ "\<lambda>m pp up vp n tp. impn_sqr_n_basecase m pp up n"]) (simp_all add: mpn_sqr_n_recurse_def)
  next
    case False
    then show ?thesis using less.IH [OF that(2)]
      by (subst mul_ok_cong [of _ _ "\<lambda>m pp up vp n tp. impn_sqr_n m pp up n tp"])
        (simp_all add: mpn_sqr_n_recurse_def karatsuba_threshold_def)
  qed
  show ?case unfolding mul_ok_def
  proof (intro allI impI)
    fix m :: lmem and pp up vp tp us vs
    assume a: "True \<longrightarrow> vp = up" "block m up us" "block m vp vs" "length us = n" "length vs = n" "mapped m pp (2 * n)" "mapped m tp (2 * n)"
      "disjnt_rng pp (2 * n) tp (2 * n)" "disjnt_rng pp (2 * n) up n" "disjnt_rng tp (2 * n) up n"
    have eqs: "vp = up" "vs = us" using a block_unique by fastforce+
    show "\<exists>zs ts. impn_sqr_n m pp up n tp = Some (kst m pp tp zs ts) \<and> length zs = 2 * n \<and> length ts = 2 * n \<and>
      val zs = val us * val vs"
    proof (cases "odd n")
      case True
      obtain e where e: "n = Suc e" "0 < e" using less.prems by (cases n) auto
      have eq: "impn_sqr_n m pp up n tp = do { m \<leftarrow> ?r m pp up up e tp; kara_odd_end m pp up up e }"
        using True by (subst impn_sqr_n.simps) (simp add: e(1) mpn_sqr_n_recurse_def)
      show ?thesis unfolding eq eqs(2)
        using kara_odd_spec [OF rec [of e] _ e(2) _ _ a(2,2)] a e by simp
    next
      case False
      define h where "h = n div 2"
      have h: "n = 2 * h" "0 < h" "h < n" using False less.prems by (auto simp: h_def)
      have eq: "impn_sqr_n m pp up n tp = do { m \<leftarrow> ?r m (pp + 2 * h) (up + h) (up + h) h tp;
            (m, _) \<leftarrow> kara_diff m pp (up + h) up h;
            m \<leftarrow> ?r m tp pp pp h (tp + 2 * h);
            (m, cy) \<leftarrow> kara_add_HM m pp tp h True;
            m \<leftarrow> ?r m tp up up h (tp + 2 * h);
            kara_add_L m pp tp h cy }"
        by (subst impn_sqr_n.simps) (simp add: h(1) mpn_sqr_n_recurse_def)
      have sp: "us = take h us @ drop h us" "length (take h us) = h" "length (drop h us) = h" using a h by simp_all
      have n4: "4 * h = 2 * n" using h by simp
      show ?thesis unfolding eq eqs(2)
        using kara_even_sqr_spec [OF rec [OF h(2,3)] h(2) sp, unfolded n4, of pp tp m up] a h by simp
    qed
  qed
qed

lemma mul_ok_recurse: "0 < n \<Longrightarrow> mul_ok False mpn_mul_n_recurse n"
  using mul_ok_basecase [of n] mul_ok_impn_mul_n [of n]
  by (cases "n < karatsuba_threshold") (auto simp: mpn_mul_n_recurse_def karatsuba_threshold_def mul_ok_def)

lemma mul_ok_mpn_mul_n: 
  assumes "0 < n"
  shows "mul_ok False mpn_mul_n n"
  unfolding mul_ok_def
proof (intro allI impI)
  fix m :: lmem and pp up vp tp us vs
  assume a: "block m up us" "block m vp vs" "length us = n" "length vs = n" "mapped m pp (2 * n)" "mapped m tp (2 * n)"
      "disjnt_rng pp (2 * n) tp (2 * n)" "disjnt_rng pp (2 * n) up n" "disjnt_rng pp (2 * n) vp n"
      "disjnt_rng tp (2 * n) up n" "disjnt_rng tp (2 * n) vp n"
  show "\<exists>zs ts. mpn_mul_n m pp up vp n tp = Some (kst m pp tp zs ts) \<and> length zs = 2 * n \<and> length ts = 2 * n \<and>
      val zs = val us * val vs"
  proof (cases "up = vp")
    case True
    show ?thesis
    proof (cases "n < karatsuba_threshold")
      case lt: True
      have "mpn_mul_n m pp up vp n tp = impn_sqr_n_basecase m pp up n" using True lt by (simp add: mpn_mul_n_def)
      then show ?thesis using mul_okD [OF mul_ok_sqr_basecase [OF assms] _ a] True by simp
    next
      case ge: False
      have "mpn_mul_n m pp up vp n tp = impn_sqr_n m pp up n tp" "2 \<le> n" using True ge by (simp_all add: mpn_mul_n_def karatsuba_threshold_def)
      then show ?thesis using mul_okD [OF mul_ok_impn_sqr_n _ a] True by simp
    qed
  next
    case False
    then have "mpn_mul_n m pp up vp n tp = mpn_mul_n_recurse m pp up vp n tp"
      by (simp add: mpn_mul_n_def mpn_mul_n_recurse_def)
    then show ?thesis using mul_okD [OF mul_ok_recurse [OF assms] _ a] by simp
  qed
qed

section \<open>Operands of different lengths\<close>

text \<open>A partial product at \<open>tp\<close> is added at \<open>prodp\<close>, where only the lower \<open>vsize\<close> limbs hold a number yet.\<close>

definition mul_acc :: "lmem \<Rightarrow> nat \<Rightarrow> nat \<Rightarrow> nat \<Rightarrow> nat \<Rightarrow> lmem option" where
  "mul_acc m prodp tp vsize n =
    do { (m, cy) \<leftarrow> mpn_add_n m prodp prodp tp vsize;
         (m, _) \<leftarrow> mpn_add_1 m (prodp + vsize) (tp + vsize) n cy;
         Some m }"

text \<open>The loop over the blocks of \<open>vsize\<close> limbs of \<open>U\<close>.\<close>

function mul_blocks :: "lmem \<Rightarrow> nat \<Rightarrow> nat \<Rightarrow> nat \<Rightarrow> nat \<Rightarrow> nat \<Rightarrow> nat \<Rightarrow> nat \<Rightarrow> (lmem \<times> nat \<times> nat \<times> nat) option" where
  "mul_blocks m prodp up usize vp vsize tp tspace =
    (if vsize = 0 then None
     else if usize < vsize then Some (m, prodp, up, usize)
     else do { m \<leftarrow> mpn_mul_n_recurse m tp up vp vsize tspace;
               m \<leftarrow> mul_acc m prodp tp vsize vsize;
               mul_blocks m (prodp + vsize) (up + vsize) (usize - vsize) vp vsize tp tspace })"
  by pat_completeness auto
termination
  by (relation "measure (\<lambda>(m, prodp, up, usize, vp, vsize, tp, tspace). usize)") auto

declare mul_blocks.simps [simp del]

lemma mul_blocks_rest: "mul_blocks m pp up n vp v tp sp = Some (m', pp', up', n') \<Longrightarrow> n' < v"
proof (induction n arbitrary: m pp up rule: less_induct)
  case (less n)
  show ?case
  proof (cases "n < v \<or> v = 0")
    case True
    then show ?thesis using less.prems by (subst (asm) mul_blocks.simps) (auto split: if_splits)
  next
    case False
    then show ?thesis using less.prems less.IH [of "n - v"]
      by (subst (asm) mul_blocks.simps) (auto split: bind_splits)
  qed
qed

function mpn_mul :: "lmem \<Rightarrow> nat \<Rightarrow> nat \<Rightarrow> nat \<Rightarrow> nat \<Rightarrow> nat \<Rightarrow> nat \<Rightarrow> (lmem \<times> limb) option" where
  "mpn_mul m prodp up usize vp vsize tspace =
    (if vsize < karatsuba_threshold
     then (if vsize = 0 then Some (m, 0) else mul_schoolbook m prodp up usize vp vsize)
     else if usize < vsize then None
     else
       do { m \<leftarrow> mpn_mul_n_recurse m prodp up vp vsize tspace;
            (m, pp, up, n) \<leftarrow> mul_blocks m (prodp + vsize) (up + vsize) (usize - vsize) vp vsize (tspace + 2 * vsize) tspace;
            m \<leftarrow> (if n \<noteq> 0
                  then do { (m, _) \<leftarrow> mpn_mul m tspace vp vsize up n (tspace + 4 * vsize);
                            mul_acc m pp tspace vsize n }
                  else Some m);
            c \<leftarrow> ld m (prodp + usize + vsize - 1);
            Some (m, c) })"
  by pat_completeness auto
termination
  by (relation "measure (\<lambda>(m, prodp, up, usize, vp, vsize, tspace). vsize)") (auto dest: mul_blocks_rest)

declare mpn_mul.simps [simp del]

lemma mul_acc_spec:
  assumes l: "length Hi = v" "length R = n" "0 < v" "0 < n" and d: "disjnt_rng pp (length (D @ Hi @ R @ Q)) tp (length (T1 @ Z0 @ Z1 @ T2))"
    and z: "length Z0 = v" "length Z1 = n" "t = tp + length T1" "p = pp + length D"
    and mp: "mapped m pp (length (D @ Hi @ R @ Q))" and lt: "val Hi + val (Z0 @ Z1) < base ^ (v + n)"
  shows "\<exists>E0 E1. mul_acc (kst m pp tp (D @ Hi @ R @ Q) (T1 @ Z0 @ Z1 @ T2)) p t v n =
      Some (kst m pp tp (D @ E0 @ E1 @ Q) (T1 @ Z0 @ Z1 @ T2)) \<and> length E0 = v \<and> length E1 = n \<and>
    val (E0 @ E1) = val Hi + val (Z0 @ Z1)"
proof -
  let ?T = "T1 @ Z0 @ Z1 @ T2"
  let ?k = "\<lambda>A B. kst m pp tp (D @ A @ B @ Q) ?T"
  have dj: "disjnt_rng pp (length (D @ A @ B @ Q)) tp (length ?T)" if "length A = v" "length B = n" for A B :: "limb list"
    using d l that by simp
  have mp': "mapped m p v" "mapped m (p + v) n" using mp l z by (auto simp: mapped_def add.assoc)
  have bH: "block (?k Hi R) p Hi" using kst_block_P [OF dj [OF l(1,2)], of D Hi "R @ Q"] z(4) by simp
  have bZ: "block (?k A B) t Z0" "block (?k A B) (t + v) Z1" for A B
    using kst_block_T [of ?T T1 Z0 "Z1 @ T2"] kst_block_T [of ?T "T1 @ Z0" Z1 T2] z by (simp_all add: add.assoc)
  have uo: "up_ok p t v" "up_ok (p + v) (t + v) n" using d l z by (auto simp: up_ok_def disjnt_rng_def)
  have "Hi \<noteq> []" using l by auto
  then obtain E0 c where E0: "mpn_add_n (?k Hi R) p p t v = Some (wr (?k Hi R) p E0, c)" "length E0 = v"
      "val E0 + base ^ v * unat c = val Hi + val Z0"
    using mpn_add_n_spec [OF bH bZ(1), of p] l z mp' uo by auto
  have e0: "wr (?k Hi R) p E0 = ?k E0 R"
    using kst_wr_P [OF dj [OF l(1,2)], of D Hi "R @ Q" E0 p] l z E0(2) by simp
  have "Z1 \<noteq> []" using l z by auto
  then obtain E1 c' where E1: "mpn_add_1 (?k E0 R) (p + v) (t + v) n c = Some (wr (?k E0 R) (p + v) E1, c')" "length E1 = n"
      "val E1 + base ^ n * unat c' = val Z1 + unat c"
    using mpn_add_1_spec [OF bZ(2) [of E0 R], of "p + v" c] l z mp' uo by auto
  have e1: "wr (?k E0 R) (p + v) E1 = ?k E0 E1"
    using kst_wr_P [OF dj [OF E0(2) l(2)], of "D @ E0" R Q E1 "p + v"] l z E0(2) E1(2) by simp
  have tot: "val (E0 @ E1) + base ^ (v + n) * unat c' = val Hi + val (Z0 @ Z1)"
  proof -
    have "val (E0 @ E1) + base ^ (v + n) * unat c' = val E0 + base ^ v * (val E1 + base ^ n * unat c')"
      by (simp add: val_append E0(2) power_add algebra_simps)
    also have "\<dots> = (val E0 + base ^ v * unat c) + base ^ v * val Z1" unfolding E1(3) by (simp add: algebra_simps)
    finally show ?thesis unfolding E0(3) by (simp add: val_append z(1))
  qed
  then have "unat c' = 0" using lt by (cases "unat c'") auto
  then show ?thesis using tot E0(1,2) E1(1,2) e0 e1 by (intro exI [of _ E0] exI [of _ E1]) (simp add: mul_acc_def)
qed

lemma mul_add_less:
  assumes "a < base ^ v" "x < base ^ n" "y < base ^ v"
  shows "a + x * y < base ^ (v + n)"
proof -
  have "x \<le> base ^ n - 1" "y \<le> base ^ v" using assms by auto
  then have "x * y \<le> (base ^ n - 1) * base ^ v" by (rule mult_le_mono)
  then have "a + x * y < base ^ v + (base ^ n - 1) * base ^ v" using assms(1) by linarith
  also have "\<dots> = base ^ v * base ^ n"
  proof -
    obtain k where "base ^ n = Suc k" using not0_implies_Suc [of "base ^ n"] by auto
    then show ?thesis by simp
  qed
  finally show ?thesis by (simp add: power_add)
qed

text \<open>One block: \<open>MPN_MUL_N_RECURSE (tp, up, vp, vsize, tspace)\<close> on the state of the loop.\<close>

lemma mul_blocks_call:
  assumes v: "length vs = v" "0 < v" "length ua = v" "length T1 = 2 * v" "length T2 = 2 * v"
    and b: "block (kst m pp sp P (T1 @ T2 @ T3)) q ua" "block (kst m pp sp P (T1 @ T2 @ T3)) vp vs"
    and mt: "mapped m sp (4 * v)" and d: "disjnt_rng sp (4 * v) q v" "disjnt_rng sp (4 * v) vp v"
  shows "\<exists>T1' Z. mpn_mul_n_recurse (kst m pp sp P (T1 @ T2 @ T3)) (sp + 2 * v) q vp v sp =
      Some (kst m pp sp P (T1' @ Z @ T3)) \<and> length T1' = 2 * v \<and> length Z = 2 * v \<and> val Z = val ua * val vs"
proof -
  let ?m = "kst m pp sp P (T1 @ T2 @ T3)"
  have "mapped ?m (sp + 2 * v) (2 * v)" "mapped ?m sp (2 * v)" using mt by (intro kst_mapped, simp add: mapped_def add.assoc)+
  moreover have "disjnt_rng (sp + 2 * v) (2 * v) sp (2 * v)" "disjnt_rng (sp + 2 * v) (2 * v) q v" "disjnt_rng (sp + 2 * v) (2 * v) vp v"
    "disjnt_rng sp (2 * v) q v" "disjnt_rng sp (2 * v) vp v"
    using d by (auto simp: disjnt_rng_def)
  ultimately obtain Z T1' where z: "mpn_mul_n_recurse ?m (sp + 2 * v) q vp v sp = Some (kst ?m (sp + 2 * v) sp Z T1')"
    "length Z = 2 * v" "length T1' = 2 * v" "val Z = val ua * val vs"
    using mul_okD [OF mul_ok_recurse [OF v(2)] _ b v(3,1)] by blast
  have "kst ?m (sp + 2 * v) sp Z T1' = wr (wr ?m (sp + 2 * v) Z) sp T1'" by (simp add: kst_def)
  also have "wr ?m (sp + 2 * v) Z = kst m pp sp P (T1 @ Z @ T3)"
    using kst_wr_T [of "T1 @ T2 @ T3" T1 T2 T3 Z "sp + 2 * v"] v z by simp
  also have "wr (kst m pp sp P (T1 @ Z @ T3)) sp T1' = kst m pp sp P (T1' @ Z @ T3)"
    using kst_wr_T [of "T1 @ Z @ T3" "[]" T1 "Z @ T3" T1' sp] v z by simp
  finally show ?thesis using z by auto
qed

lemma mul_blocks_spec:
  assumes v: "length vs = v" "0 < v" "length T1 = 2 * v" "length T2 = 2 * v" "length Hi = v" "length R = length us"
    and d: "disjnt_rng pp (length (D @ Hi @ R)) sp (length (T1 @ T2 @ T3))"
    and mp: "mapped m pp (length (D @ Hi @ R))" "mapped m sp (4 * v)"
    and b: "block m q us" "block m vp vs"
    and du: "disjnt_rng pp (length (D @ Hi @ R)) q (length us)" "disjnt_rng sp (length (T1 @ T2 @ T3)) q (length us)"
    and dv: "disjnt_rng pp (length (D @ Hi @ R)) vp v" "disjnt_rng sp (length (T1 @ T2 @ T3)) vp v"
  shows "\<exists>D' Hi' R' T1' T2' ua ub. mul_blocks (kst m pp sp (D @ Hi @ R) (T1 @ T2 @ T3)) (pp + length D) q (length us) vp v (sp + 2 * v) sp =
      Some (kst m pp sp (D' @ Hi' @ R') (T1' @ T2' @ T3), pp + length D', q + length ua, length ub) \<and>
    us = ua @ ub \<and> length ub < v \<and> length R' = length ub \<and> length Hi' = v \<and> length D' = length D + length ua \<and>
    length T1' = 2 * v \<and> length T2' = 2 * v \<and> val (D' @ Hi') = val (D @ Hi) + base ^ length D * (val ua * val vs)"
  using v(3-) d mp b du dv
proof (induction "length us" arbitrary: us q D Hi R T1 T2 rule: less_induct)
  case less
  note a = less.prems
  let ?s = "kst m pp sp (D @ Hi @ R) (T1 @ T2 @ T3)"
  show ?case
  proof (cases "length us < v")
    case True
    have e: "mul_blocks ?s (pp + length D) q (length us) vp v (sp + 2 * v) sp = Some (?s, pp + length D, q, length us)"
      using True v(2) by (subst mul_blocks.simps) simp
    show ?thesis
      by (rule exI [of _ D], rule exI [of _ Hi], rule exI [of _ R], rule exI [of _ T1], rule exI [of _ T2],
        rule exI [of _ "[]"], rule exI [of _ us]) (use e True a(1-4) in simp)
  next
    case False
    define ua ub Ra Rb where "ua = take v us" and "ub = drop v us" and "Ra = take v R" and "Rb = drop v R"
    have sp: "us = ua @ ub" "length ua = v" "R = Ra @ Rb" "length Ra = v" "length Rb = length ub"
      using False a(4) by (simp_all add: ua_def ub_def Ra_def Rb_def)
    have bs: "block ?s q us" by (rule kst_block_out [OF a(8,10,11)])
    moreover have "block ?s vp vs" using a(12,13) v(1) by (intro kst_block_out [OF a(9)]) simp_all
    ultimately have bs: "block ?s q us" "block ?s vp vs" .
    have bua: "block ?s q ua" using bs(1) sp(1) by (simp add: block_append)
    have dq: "disjnt_rng sp (4 * v) q v" "disjnt_rng sp (4 * v) vp v"
      using a(1,2,11,13) sp(1,2) by (auto simp: disjnt_rng_def)
    obtain T1' Z where z: "mpn_mul_n_recurse ?s (sp + 2 * v) q vp v sp = Some (kst m pp sp (D @ Hi @ R) (T1' @ Z @ T3))"
      "length T1' = 2 * v" "length Z = 2 * v" "val Z = val ua * val vs"
      using mul_blocks_call [OF v(1,2) sp(2) a(1,2) bua bs(2) a(7) dq] by blast
    define Z0 Z1 where "Z0 = take v Z" and "Z1 = drop v Z"
    have Z: "Z = Z0 @ Z1" "length Z0 = v" "length Z1 = v" using z by (simp_all add: Z0_def Z1_def)
    have "val Hi + val ua * val vs < base ^ (v + v)"
      using val_less [of Hi] val_less [of ua] val_less [of vs] a(3) sp(2) v(1) by (intro mul_add_less) simp_all
    then have lt: "val Hi + val (Z0 @ Z1) < base ^ (v + v)" using z(4) Z(1) by simp
    have d': "disjnt_rng pp (length (D @ Hi @ Ra @ Rb)) sp (length (T1' @ Z0 @ Z1 @ T3))"
      "mapped m pp (length (D @ Hi @ Ra @ Rb))"
      using a(5,6) a(1,2) sp(3) z(2,3) Z by simp_all
    have ad: "sp + 2 * v = sp + length T1'" using z by simp
    obtain E0 E1 where E: "mul_acc (kst m pp sp (D @ Hi @ Ra @ Rb) (T1' @ Z0 @ Z1 @ T3)) (pp + length D) (sp + 2 * v) v v =
        Some (kst m pp sp (D @ E0 @ E1 @ Rb) (T1' @ Z0 @ Z1 @ T3))" "length E0 = v" "length E1 = v"
      "val (E0 @ E1) = val Hi + val (Z0 @ Z1)"
      using mul_acc_spec [OF a(3) sp(4) v(2,2) d'(1) Z(2,3) ad refl d'(2) lt] by blast
    have step: "mul_blocks ?s (pp + length D) q (length us) vp v (sp + 2 * v) sp =
        mul_blocks (kst m pp sp ((D @ E0) @ E1 @ Rb) (T1' @ Z @ T3)) (pp + length (D @ E0)) (q + v) (length ub) vp v (sp + 2 * v) sp"
      using False v(2) z(1) E(1,2) sp Z(1) by (subst mul_blocks.simps) (simp add: add.assoc)
    have bub: "block m (q + v) ub" using a(8) sp(1,2) by (simp add: block_append)
    have lens: "length ub < length us" "length ((D @ E0) @ E1 @ Rb) = length (D @ Hi @ R)"
      "length (T1' @ Z @ T3) = length (T1 @ T2 @ T3)"
      using sp v(2) E(2,3) a(1-4) z(2,3) by simp_all
    have du': "disjnt_rng pp (length (D @ Hi @ R)) (q + v) (length ub)" "disjnt_rng sp (length (T1 @ T2 @ T3)) (q + v) (length ub)"
      using a(10,11) sp(1,2) by (auto simp: disjnt_rng_def)
    obtain D' Hi' R' T1'' T2'' ua' ub' where r:
      "mul_blocks (kst m pp sp ((D @ E0) @ E1 @ Rb) (T1' @ Z @ T3)) (pp + length (D @ E0)) (q + v) (length ub) vp v (sp + 2 * v) sp =
      Some (kst m pp sp (D' @ Hi' @ R') (T1'' @ T2'' @ T3), pp + length D', q + v + length ua', length ub')"
      "ub = ua' @ ub'" "length ub' < v" "length R' = length ub'" "length Hi' = v" "length D' = length (D @ E0) + length ua'"
      "length T1'' = 2 * v" "length T2'' = 2 * v"
      "val (D' @ Hi') = val ((D @ E0) @ E1) + base ^ length (D @ E0) * (val ua' * val vs)"
      using less.hyps [OF lens(1) z(2,3) E(3) sp(5), of "D @ E0" "q + v", unfolded lens(2,3),
        OF a(5) a(6) a(7) bub a(9) du' a(12,13)] by blast
    have tot: "val (D' @ Hi') = val (D @ Hi) + base ^ length D * (val (ua @ ua') * val vs)"
    proof -
      have "val ((D @ E0) @ E1) = val D + base ^ length D * val (E0 @ E1)" by (simp add: val_append)
      also have "\<dots> = val (D @ Hi) + base ^ length D * (val ua * val vs)"
        unfolding E(4) using z(4) Z(1) by (simp add: val_append distrib_left)
      finally show ?thesis unfolding r(9) using sp(2) E(2) by (simp add: val_append power_add algebra_simps)
    qed
    show ?thesis
      by (rule exI [of _ D'], rule exI [of _ Hi'], rule exI [of _ R'], rule exI [of _ T1''], rule exI [of _ T2''],
        rule exI [of _ "ua @ ua'"], rule exI [of _ ub'])
        (use step r sp(1,2) E(2) tot in \<open>simp add: add.assoc\<close>)
  qed
qed

lemma mpn_mul_first:
  assumes us: "us = u0 @ ur" "length u0 = v" "length vs = v" "0 < v" and t: "k = 4 * (length us + v)"
    and b: "block m up us" "block m vp vs" and mp: "mapped m pp (length us + v)" "mapped m sp k"
    and d: "disjnt_rng pp (length us + v) sp k" "disjnt_rng pp (length us + v) up (length us)" "disjnt_rng pp (length us + v) vp v"
      "disjnt_rng sp k up (length us)" "disjnt_rng sp k vp v"
  shows "\<exists>D Hi R T1 T2 T3. mpn_mul_n_recurse m pp up vp v sp = Some (kst m pp sp (D @ Hi @ R) (T1 @ T2 @ T3)) \<and>
    length D = v \<and> length Hi = v \<and> length R = length ur \<and> length T1 = 2 * v \<and> length T2 = 2 * v \<and>
    length T3 + 4 * v = k \<and> val (D @ Hi) = val u0 * val vs"
proof -
  obtain P T where PT: "length P = length us + v" "length T = k" "m = kst m pp sp P T"
    using kst_self [OF mp] by blast
  define P0 R T0 T1 T2 where "P0 = take (2 * v) P" and "R = drop (2 * v) P" and "T0 = take (2 * v) T"
    and "T1 = take (2 * v) (drop (2 * v) T)" and "T2 = drop (2 * v) (drop (2 * v) T)"
  have sp: "P = P0 @ R" "T = T0 @ T1 @ T2" "length P0 = 2 * v" "length R = length ur"
    "length T0 = 2 * v" "length T1 = 2 * v" "length T2 + 4 * v = k"
    using PT(1,2) us(1,2) t by (simp_all add: P0_def R_def T0_def T1_def T2_def del: drop_drop)
  have bu: "block m up u0" using b(1) us(1) by (simp add: block_append)
  have mp': "mapped m pp (2 * v)" "mapped m sp (2 * v)" using mp us t by (auto intro: mapped_le)
  have d': "disjnt_rng pp (2 * v) sp (2 * v)" "disjnt_rng pp (2 * v) up v" "disjnt_rng pp (2 * v) vp v"
    "disjnt_rng sp (2 * v) up v" "disjnt_rng sp (2 * v) vp v"
    using d us(1,2) t by (auto simp: disjnt_rng_def)
  obtain zs ts where z: "mpn_mul_n_recurse m pp up vp v sp = Some (kst m pp sp zs ts)" "length zs = 2 * v" "length ts = 2 * v"
    "val zs = val u0 * val vs"
    using mul_okD [OF mul_ok_recurse [OF us(4)] _ bu b(2) us(2,3) mp' d'] by blast
  have dj: "disjnt_rng pp (length (P0 @ R)) sp (length T)" using d(1) PT(1,2) sp(1) by simp
  have "kst m pp sp zs ts = wr (wr (kst m pp sp P T) pp zs) sp ts" using PT(3) by (simp add: kst_def)
  also have "wr (kst m pp sp P T) pp zs = kst m pp sp (zs @ R) T"
    using kst_wr_P [OF dj, of "[]" P0 R zs pp] sp z by simp
  also have "wr (kst m pp sp (zs @ R) T) sp ts = kst m pp sp (zs @ R) (ts @ T1 @ T2)"
    using kst_wr_T [of T "[]" T0 "T1 @ T2" ts sp] sp z by simp
  finally have "kst m pp sp zs ts = kst m pp sp (zs @ R) (ts @ T1 @ T2)" .
  then have fin: "kst m pp sp zs ts = kst m pp sp (take v zs @ drop v zs @ R) (ts @ T1 @ T2)"
    by (simp flip: append_assoc)
  show ?thesis
    by (rule exI [of _ "take v zs"], rule exI [of _ "drop v zs"], rule exI [of _ R], rule exI [of _ ts], rule exI [of _ T1], rule exI [of _ T2])
      (use z(2-4) sp(4-7) z(1) [unfolded fin] in simp)
qed

theorem mpn_mul_spec:
  assumes "block m up us" "block m vp vs" "vs \<noteq> []" "length vs \<le> length us" "k = 4 * (length us + length vs)"
    and "mapped m pp (length us + length vs)" "mapped m sp k" "disjnt_rng pp (length us + length vs) sp k"
    and "disjnt_rng pp (length us + length vs) up (length us)" "disjnt_rng pp (length us + length vs) vp (length vs)"
    and "disjnt_rng sp k up (length us)" "disjnt_rng sp k vp (length vs)"
  shows "\<exists>zs ts. mpn_mul m pp up (length us) vp (length vs) sp = Some (kst m pp sp zs ts, last zs) \<and>
    length zs = length us + length vs \<and> length ts = k \<and> val zs = val us * val vs"
  using assms
proof (induction "length vs" arbitrary: m up vp us vs pp sp k rule: less_induct)
  case less
  note a = less.prems
  define v where "v = length vs"
  show ?case
  proof (cases "v < karatsuba_threshold")
    case True
    have ne: "us \<noteq> []" using a(3,4) by auto
    obtain zs where z: "mul_schoolbook m pp up (length us) vp v = Some (wr m pp zs, last zs)"
      "length zs = length us + v" "val zs = val us * val vs"
      using mul_schoolbook_spec [OF a(1) ne a(2,3,6,9,10)] unfolding v_def by blast
    obtain ts where ts: "length ts = k" "block m sp ts" using mapped_block [OF a(7)] by blast
    have "block (wr m pp zs) sp ts" using ts a(8) z(2) by (simp add: block_wr_disjnt v_def)
    moreover have "mpn_mul m pp up (length us) vp v sp = Some (wr m pp zs, last zs)"
      using z(1) True a(3) by (subst mpn_mul.simps) (simp add: v_def)
    ultimately show ?thesis
      unfolding v_def [symmetric] using z(2,3) ts(1) by (intro exI [of _ zs] exI [of _ ts]) (simp add: kst_def wr_block_id)
  next
    case False
    have v0: "0 < v" "v \<le> length us" "\<not> length us < v" using a(3,4) by (simp_all add: v_def)
    define u0 ur where "u0 = take v us" and "ur = drop v us"
    have us: "us = u0 @ ur" "length u0 = v" "length us = v + length ur" using v0 by (simp_all add: u0_def ur_def)
    note a' = a(4-12) [folded v_def]
    obtain D Hi R T1 T2 T3 where F: "mpn_mul_n_recurse m pp up vp v sp = Some (kst m pp sp (D @ Hi @ R) (T1 @ T2 @ T3))"
      "length D = v" "length Hi = v" "length R = length ur" "length T1 = 2 * v" "length T2 = 2 * v"
      "length T3 + 4 * v = k" "val (D @ Hi) = val u0 * val vs"
      using mpn_mul_first [OF us(1,2) v_def [symmetric] v0(1) a'(2) a(1,2) a'(3-9)] by blast
    have lens: "length (D @ Hi @ R) = length us + v" "length (T1 @ T2 @ T3) = k" using F(2-7) us(3) by simp_all
    have bur: "block m (up + v) ur" using a(1) us(1,2) by (simp add: block_append)
    have mps: "mapped m sp (4 * v)" using a'(4) F(7) by (auto intro: mapped_le)
    have du: "disjnt_rng pp (length us + v) (up + v) (length ur)" "disjnt_rng sp k (up + v) (length ur)"
      using a'(6,8) us(3) by (auto simp: disjnt_rng_def)
    obtain D' Hi' R' T1' T2' ua ub where L:
      "mul_blocks (kst m pp sp (D @ Hi @ R) (T1 @ T2 @ T3)) (pp + length D) (up + v) (length ur) vp v (sp + 2 * v) sp =
        Some (kst m pp sp (D' @ Hi' @ R') (T1' @ T2' @ T3), pp + length D', up + v + length ua, length ub)"
      "ur = ua @ ub" "length ub < v" "length R' = length ub" "length Hi' = v" "length D' = length D + length ua"
      "length T1' = 2 * v" "length T2' = 2 * v" "val (D' @ Hi') = val (D @ Hi) + base ^ length D * (val ua * val vs)"
      using mul_blocks_spec [OF v_def [symmetric] v0(1) F(5,6,3,4), where m = m and pp = pp and sp = sp and D = D and ?T3.0 = T3
          and q = "up + v" and vp = vp, unfolded lens, OF a'(5,3) mps bur a(2) du a'(7,9)] by blast
    let ?s = "kst m pp sp (D' @ Hi' @ R') (T1' @ T2' @ T3)"
    have lens': "length (D' @ Hi' @ R') = length us + v" "length (T1' @ T2' @ T3) = k" 
      using F(2,7) L(2-8) us(3) by simp_all
    have vL: "val (D' @ Hi') = val (u0 @ ua) * val vs"
      unfolding L(9) F(8) F(2) by (simp add: val_append us(2) algebra_simps)
    have step: "mpn_mul m pp up (length us) vp v sp =
      do { m \<leftarrow> (if length ub \<noteq> 0
                 then do { (m, _) \<leftarrow> mpn_mul ?s sp vp v (up + v + length ua) (length ub) (sp + 4 * v);
                           mul_acc m (pp + length D') sp v (length ub) }
                 else Some ?s);
           c \<leftarrow> ld m (pp + length us + v - 1);
           Some (m, c) }"
      using False v0(3) F(1,2) L(1) us(3) by (subst mpn_mul.simps) simp
    show ?thesis
    proof (cases "ub = []")
      case True
      have dj: "disjnt_rng pp (length (D' @ Hi' @ R')) sp (length (T1' @ T2' @ T3))" using a'(5) by (simp only: lens')
      have "ld ?s (pp + (length us + v) - 1) = Some (last (D' @ Hi' @ R'))"
        using lens' v0(1) L(5) by (intro kst_ld_last [OF dj]) auto
      then have "mpn_mul m pp up (length us) vp v sp = Some (?s, last (D' @ Hi' @ R'))"
        unfolding step using True by (simp add: add.assoc)
      moreover have "val (D' @ Hi' @ R') = val us * val vs" using vL True L(2,4) us(1) by simp
      ultimately show ?thesis unfolding v_def [symmetric] using lens' by blast
    next
      case ub: False
      have ne: "length ub \<noteq> 0" using ub by simp
      have sb: "block ?s vp vs" "block ?s (up + v + length ua) ub"
      proof -
        show "block ?s vp vs" using a(2) a'(7,9) lens' by (intro kst_block_out) (simp_all only: v_def)
        have "block m (up + v + length ua) ub" using bur L(2) by (simp add: block_append)
        moreover have "disjnt_rng pp (length us + v) (up + v + length ua) (length ub)" "disjnt_rng sp k (up + v + length ua) (length ub)"
          using a'(6,8) us(3) L(2) by (auto simp: disjnt_rng_def)
        ultimately show "block ?s (up + v + length ua) ub" using lens' by (intro kst_block_out) simp_all
      qed
      have sz: "4 * v + 4 * (v + length ub) \<le> k" using a'(2) us(3) L(2) by simp
      have "length ub < length vs" "length ub \<le> length vs" using L(3) by (simp_all add: v_def)
      moreover have "mapped ?s sp (v + length ub)" "mapped ?s (sp + 4 * v) (4 * (v + length ub))"
        using a'(4) sz by (intro kst_mapped, simp add: mapped_def add.assoc)+
      moreover have "disjnt_rng sp (v + length ub) (sp + 4 * v) (4 * (v + length ub))"
        "disjnt_rng sp (v + length ub) vp v" "disjnt_rng sp (v + length ub) (up + v + length ua) (length ub)"
        "disjnt_rng (sp + 4 * v) (4 * (v + length ub)) vp v" "disjnt_rng (sp + 4 * v) (4 * (v + length ub)) (up + v + length ua) (length ub)"
        using a'(6,8,9) us(3) L(2,3) sz by (auto simp: disjnt_rng_def)
      ultimately obtain zs ts where z: "mpn_mul ?s sp vp v (up + v + length ua) (length ub) (sp + 4 * v) =
          Some (kst ?s sp (sp + 4 * v) zs ts, last zs)" "length zs = v + length ub" "length ts = 4 * (v + length ub)" "val zs = val vs * val ub"
        using less.hyps [OF _ sb ub, where pp = sp and sp = "sp + 4 * v" and k = "4 * (v + length ub)"] unfolding v_def by blast
      obtain X where X: "kst ?s sp (sp + 4 * v) zs ts = kst m pp sp (D' @ Hi' @ R') (zs @ X)" "length zs + length X = k"
        using kst_wr_T_two [of zs "4 * v" ts "T1' @ T2' @ T3" m pp sp "D' @ Hi' @ R'"] z(2,3) sz L(3) lens'(2)
        unfolding kst_def [of ?s] by auto
      define Z0 Z1 where "Z0 = take v zs" and "Z1 = drop v zs"
      have Z: "zs = Z0 @ Z1" "length Z0 = v" "length Z1 = length ub" using z(2) by (simp_all add: Z0_def Z1_def)
      have "val Hi' + val ub * val vs < base ^ (v + length ub)"
        using val_less [of Hi'] val_less [of ub] val_less [of vs] L(5) by (intro mul_add_less) (simp_all add: v_def)
      then have lt: "val Hi' + val (Z0 @ Z1) < base ^ (v + length ub)" using z(4) Z(1) by (simp add: mult.commute)
      have dj: "disjnt_rng pp (length (D' @ Hi' @ R' @ [])) sp (length ([] @ Z0 @ Z1 @ X))"
        using a'(5) lens' X(2) Z(1) by (simp add: add.assoc)
      have mq: "mapped m pp (length (D' @ Hi' @ R' @ []))" using a'(3) lens' by simp
      obtain E0 E1 where E: "mul_acc (kst m pp sp (D' @ Hi' @ R' @ []) ([] @ Z0 @ Z1 @ X)) (pp + length D') sp v (length ub) =
          Some (kst m pp sp (D' @ E0 @ E1 @ []) ([] @ Z0 @ Z1 @ X))" "length E0 = v" "length E1 = length ub"
          "val (E0 @ E1) = val Hi' + val (Z0 @ Z1)"
        using mul_acc_spec [OF L(5,4) v0(1) _ dj Z(2,3) _ refl mq lt, of sp] ne by auto
      let ?P = "D' @ E0 @ E1"
      have lP: "length ?P = length us + v" using lens'(1) E(2,3) L(4,5) by simp
      have ldl: "ld (kst m pp sp ?P (zs @ X)) (pp + (length us + v) - 1) = Some (last ?P)"
      proof (rule kst_ld_last)
        show "disjnt_rng pp (length ?P) sp (length (zs @ X))" unfolding lP using a'(5) X(2) by simp
        show "?P \<noteq> []" using v0(1) E(2) by auto
      qed (rule lP)
      have fin: "mpn_mul m pp up (length us) vp v sp = Some (kst m pp sp ?P (zs @ X), last ?P)"
        unfolding step using ne z(1) X(1) E(1) Z(1) ldl by (simp add: add.assoc)
      have "val ?P = val D' + base ^ length D' * (val Hi' + val vs * val ub)"
        using E(4) z(4) Z(1) by (simp add: val_append)
      also have "\<dots> = val (D' @ Hi') + base ^ length D' * (val vs * val ub)" by (simp add: val_append distrib_left)
      also have "\<dots> = val us * val vs" 
        unfolding vL us(1) L(2) using L(6) F(2) us(2) by (simp add: val_append power_add algebra_simps)
      finally have "val ?P = val us * val vs" .
      then show ?thesis unfolding v_def [symmetric]
        using fin lP X(2) by (intro exI [of _ ?P] exI [of _ "zs @ X"]) simp
    qed
  qed
qed

section \<open>Properties\<close>

text \<open>C9: \<open>mpn_mul\<close> multiplies: for operands of any two lengths (the second not the longer one, not
  empty) that overlap neither the product nor the scratch space, it returns, the
  \<open>usize + vsize\<close> limbs at \<open>prodp\<close> hold the product, the result is its most significant limb,
  and no other cell changes, the scratch space apart. Below 32 limbs this is the schoolbook loop,
  above it Karatsuba's recursion block by block, with a recursive call for the remaining limbs.\<close>

theorem mpn_mul_correct:
  assumes "block m up us" "block m vp vs" "vs \<noteq> []" "length vs \<le> length us"
    and "mapped m pp (length us + length vs)" "mapped m sp (4 * (length us + length vs))"
    and "disjnt_rng pp (length us + length vs) sp (4 * (length us + length vs))"
    and "disjnt_rng pp (length us + length vs) up (length us)" "disjnt_rng pp (length us + length vs) vp (length vs)"
    and "disjnt_rng sp (4 * (length us + length vs)) up (length us)" "disjnt_rng sp (4 * (length us + length vs)) vp (length vs)"
  shows "\<exists>m' zs. mpn_mul m pp up (length us) vp (length vs) sp = Some (m', last zs) \<and> block m' pp zs \<and>
    length zs = length us + length vs \<and> val zs = val us * val vs \<and>
    (\<forall>a. \<not> (pp \<le> a \<and> a < pp + length zs) \<and> \<not> (sp \<le> a \<and> a < sp + 4 * length zs) \<longrightarrow> m' a = m a)"
proof -
  obtain zs ts where z: "mpn_mul m pp up (length us) vp (length vs) sp = Some (kst m pp sp zs ts, last zs)"
    "length zs = length us + length vs" "length ts = 4 * (length us + length vs)" "val zs = val us * val vs"
    using mpn_mul_spec [OF assms(1-4) refl assms(5-)] by blast
  then show ?thesis using assms(7)
    by (intro exI [of _ "kst m pp sp zs ts"] exI [of _ zs]) (auto simp: kst_result intro!: kst_frame)
qed

lemma mpn_mul_correct_witness:
  "\<exists>m' zs. mpn_mul (wr (wr (\<lambda>_. Some 0) 0 (replicate 77 5)) 100 (replicate 33 7)) 200 0 77 100 33 400 = Some (m', last zs) \<and>
    block m' 200 zs \<and> length zs = 110 \<and> val zs = val (replicate 77 5) * val (replicate 33 7)"
  using mpn_mul_correct [of "wr (wr (\<lambda>_. Some 0) 0 (replicate 77 5)) 100 (replicate 33 7)" 0 "replicate 77 5" 100 "replicate 33 7" 200 400]
  by (fastforce simp: disjnt_rng_def block_wr_disjnt)

text \<open>\<open>mpn_mul_n\<close> multiplies two vectors of \<open>n\<close> limbs for every \<open>n > 0\<close>, and squares one when
  both operands are at the same address, by the schoolbook loop or by Karatsuba's recursion.\<close>

theorem mpn_mul_n_correct:
  assumes "block m up us" "block m vp vs" "us \<noteq> []" "length us = n" "length vs = n"
    and "mapped m pp (2 * n)" "mapped m tp (2 * n)" "disjnt_rng pp (2 * n) tp (2 * n)"
    and "disjnt_rng pp (2 * n) up n" "disjnt_rng pp (2 * n) vp n" "disjnt_rng tp (2 * n) up n" "disjnt_rng tp (2 * n) vp n"
  shows "\<exists>m' zs. mpn_mul_n m pp up vp n tp = Some m' \<and> block m' pp zs \<and> length zs = 2 * n \<and> val zs = val us * val vs \<and>
    (\<forall>a. \<not> (pp \<le> a \<and> a < pp + 2 * n) \<and> \<not> (tp \<le> a \<and> a < tp + 2 * n) \<longrightarrow> m' a = m a)"
proof -
  have "0 < n" using assms(3,4) by auto
  from mul_okD [OF mul_ok_mpn_mul_n [OF this] _ assms(1,2,4-)] obtain zs ts where
    "mpn_mul_n m pp up vp n tp = Some (kst m pp tp zs ts)" "length zs = 2 * n" "length ts = 2 * n" "val zs = val us * val vs"
    by blast
  then show ?thesis using assms(8)
    by (intro exI [of _ "kst m pp tp zs ts"] exI [of _ zs]) (auto simp: kst_result intro!: kst_frame)
qed

lemma mpn_mul_n_correct_witness:
  "\<exists>m' zs. mpn_mul_n (wr (\<lambda>_. Some 0) 0 (replicate 67 5)) 100 0 0 67 300 = Some m' \<and>
    block m' 100 zs \<and> length zs = 134 \<and> val zs = val (replicate 67 5) * val (replicate 67 5)"
  using mpn_mul_n_correct [of "wr (\<lambda>_. Some 0) 0 (replicate 67 5)" 0 "replicate 67 5" 0 "replicate 67 5" 67 100 300]
  by (fastforce simp: disjnt_rng_def)

end
