(* ===== verification/MpnShift.thy ===== *)
theory MpnShift
  imports Mpn
begin

text \<open>
  Shifting a limb vector: \<^verbatim>\<open>gmp/mpn-lshift.c\<close> (from the top limb down, so that the result may
  lie above the operand) and \<^verbatim>\<open>gmp/mpn-rshift.c\<close> (from the bottom limb up, so that it may lie
  below). The shift count has to be between 1 and 31: for other counts one of the two limb shifts
  of the C code is undefined, and the model yields \<open>None\<close>, as it does for an empty vector, whose
  first load is outside the operand.
\<close>

fun mpn_lshift_loop :: "lmem \<Rightarrow> nat \<Rightarrow> nat \<Rightarrow> nat \<Rightarrow> nat \<Rightarrow> limb \<Rightarrow> lmem option" where
  "mpn_lshift_loop m wp up 0 sh_1 high_limb = st m wp (push_bit sh_1 high_limb)"
| "mpn_lshift_loop m wp up (Suc i) sh_1 high_limb =
    do { low_limb \<leftarrow> ld m (up + i);
         m \<leftarrow> st m (Suc wp + i) (push_bit sh_1 high_limb OR drop_bit (32 - sh_1) low_limb);
         mpn_lshift_loop m wp up i sh_1 low_limb }"

definition mpn_lshift :: "lmem \<Rightarrow> nat \<Rightarrow> nat \<Rightarrow> nat \<Rightarrow> nat \<Rightarrow> (lmem \<times> limb) option" where
  "mpn_lshift m wp up usize cnt =
    (if usize = 0 \<or> cnt = 0 \<or> 32 \<le> cnt then None
     else do { low_limb \<leftarrow> ld m (up + (usize - 1));
               let retval = drop_bit (32 - cnt) low_limb;
               m \<leftarrow> mpn_lshift_loop m wp up (usize - 1) cnt low_limb;
               Some (m, retval) })"

fun mpn_rshift_loop :: "lmem \<Rightarrow> nat \<Rightarrow> nat \<Rightarrow> nat \<Rightarrow> nat \<Rightarrow> limb \<Rightarrow> lmem option" where
  "mpn_rshift_loop m wp up 0 sh_1 low_limb = st m wp (drop_bit sh_1 low_limb)"
| "mpn_rshift_loop m wp up (Suc k) sh_1 low_limb =
    do { high_limb \<leftarrow> ld m up;
         m \<leftarrow> st m wp (drop_bit sh_1 low_limb OR push_bit (32 - sh_1) high_limb);
         mpn_rshift_loop m (Suc wp) (Suc up) k sh_1 high_limb }"

definition mpn_rshift :: "lmem \<Rightarrow> nat \<Rightarrow> nat \<Rightarrow> nat \<Rightarrow> nat \<Rightarrow> (lmem \<times> limb) option" where
  "mpn_rshift m wp up usize cnt =
    (if usize = 0 \<or> cnt = 0 \<or> 32 \<le> cnt then None
     else do { high_limb \<leftarrow> ld m up;
               let retval = push_bit (32 - cnt) high_limb;
               m \<leftarrow> mpn_rshift_loop m wp (Suc up) (usize - 1) cnt high_limb;
               Some (m, retval) })"

section \<open>Splitting a limb at a bit\<close>

lemma base_split: "s \<le> 32 \<Longrightarrow> base = 2 ^ s * 2 ^ (32 - s)"
  by (simp add: base_def flip: power_add)

lemma unat_drop_limb: "unat (drop_bit s (x :: limb)) = unat x div 2 ^ s"
  unfolding unat_drop_bit_eq by (rule drop_bit_eq_div)

lemma unat_push_limb:
  assumes "s \<le> 32"
  shows "unat (push_bit s (x :: limb)) = (unat x mod 2 ^ (32 - s)) * 2 ^ s"
proof -
  have "unat (push_bit s x) = take_bit 32 (push_bit s (unat x))"
    by (subst unsigned_push_bit_eq) simp
  also have "\<dots> = (unat x * 2 ^ s) mod 2 ^ 32" by (simp add: take_bit_eq_mod push_bit_eq_mult)
  also have "(2 :: nat) ^ 32 = 2 ^ (32 - s) * 2 ^ s" using assms by (simp flip: power_add)
  also have "(unat x * 2 ^ s) mod \<dots> = (unat x mod 2 ^ (32 - s)) * 2 ^ s" by (rule mod_mult_mult2)
  finally show ?thesis .
qed

lemma shift_out:
  assumes "s \<le> 32"
  shows "unat (push_bit s (x :: limb)) + base * unat (drop_bit (32 - s) x) = unat x * 2 ^ s"
proof -
  have "unat x * 2 ^ s = (unat x mod 2 ^ (32 - s) + 2 ^ (32 - s) * (unat x div 2 ^ (32 - s))) * 2 ^ s" by simp
  then show ?thesis
    unfolding unat_push_limb [OF assms] unat_drop_limb base_split [OF assms] by (simp only: distrib_left distrib_right ac_simps)
qed

lemma unat_or_limb:
  assumes "0 < s" "s < 32"
  shows "unat (push_bit s h OR drop_bit (32 - s) (l :: limb)) = unat (push_bit s h) + unat (drop_bit (32 - s) l)"
proof -
  have nb: "\<not> bit l n" if "32 \<le> n" for n using that bit_imp_le_length [of l n] by auto
  have "push_bit s h AND drop_bit (32 - s) l = 0"
    using assms nb by (intro bit_word_eqI) (auto simp: bit_simps)
  then have e: "push_bit s h OR drop_bit (32 - s) l = push_bit s h + drop_bit (32 - s) l"
    by (simp add: disjunctive_add_eq_or)
  have "unat (drop_bit (32 - s) l) < 2 ^ s"
    unfolding unat_drop_limb using unat_limb_less [of l] base_split [of s] assms
    by (simp add: less_mult_imp_div_less mult.commute)
  moreover have "unat (push_bit s h) + 2 ^ s \<le> base"
  proof -
    have "unat h mod 2 ^ (32 - s) + 1 \<le> 2 ^ (32 - s)" by (simp add: Suc_leI)
    then have "(unat h mod 2 ^ (32 - s) + 1) * 2 ^ s \<le> 2 ^ (32 - s) * 2 ^ s" by (rule mult_le_mono1)
    then show ?thesis using assms by (simp add: unat_push_limb base_split [of s] mult.commute)
  qed
  ultimately show ?thesis unfolding e by (intro unat_add_nc) linarith
qed

section \<open>Shifting left multiplies\<close>

lemma mpn_lshift_loop_spec:
  assumes "block m up xs" "mapped m wp (Suc (length xs))" "down_ok wp up (Suc (length xs))" "0 < s" "s < 32"
  shows "\<exists>zs. mpn_lshift_loop m wp up (length xs) s h = Some (wr m wp zs) \<and> length zs = Suc (length xs) \<and>
    val zs + base ^ Suc (length xs) * unat (drop_bit (32 - s) h) = val (xs @ [h]) * 2 ^ s"
  using assms
proof (induction xs arbitrary: m h rule: rev_induct)
  case Nil
  then show ?case using shift_out [of s h]
    by (intro exI [of _ "[push_bit s h]"]) (simp add: mapped_Suc wr_Cons val_snoc del: fun_upd_apply)
next
  case (snoc x xs)
  let ?z = "push_bit s h OR drop_bit (32 - s) x"
  let ?m = "m(Suc wp + length xs \<mapsto> ?z)"
  have mp: "m (Suc wp + length xs) \<noteq> None" "mapped m wp (Suc (length xs))"
    using snoc.prems(2) by (auto simp: mapped_def)
  have "block ?m up xs" using snoc.prems(1,3) by (subst block_upd_other) (auto simp: block_append down_ok_def)
  moreover have "down_ok wp up (Suc (length xs))" using snoc.prems(3) by (auto simp: down_ok_def)
  ultimately obtain zs where z: "mpn_lshift_loop ?m wp up (length xs) s x = Some (wr ?m wp zs)" "length zs = Suc (length xs)"
    "val zs + base ^ Suc (length xs) * unat (drop_bit (32 - s) x) = val (xs @ [x]) * 2 ^ s"
    using snoc.IH [of ?m x] mp(2) snoc.prems(4,5) by (auto simp del: fun_upd_apply)
  have "wr ?m wp zs = wr m wp (zs @ [?z])"
    by (rule ext) (auto simp: wr_def nth_append z(2))
  moreover have "m (up + length xs) = Some x" using snoc.prems(1) by (simp add: block_append block_Cons)
  ultimately have "mpn_lshift_loop m wp up (length (xs @ [x])) s h = Some (wr m wp (zs @ [?z]))"
    using z(1) mp(1) by (simp add: ld_def)
  moreover have "val (zs @ [?z]) + base ^ Suc (length (xs @ [x])) * unat (drop_bit (32 - s) h)
    = (val zs + base ^ Suc (length xs) * unat (drop_bit (32 - s) x)) + base ^ Suc (length xs) *
      (unat (push_bit s h) + base * unat (drop_bit (32 - s) h))"
    unfolding val_snoc unat_or_limb [OF snoc.prems(4,5)] z(2) by (simp add: algebra_simps)
  moreover have "val (zs @ [?z]) + base ^ Suc (length (xs @ [x])) * unat (drop_bit (32 - s) h) = val ((xs @ [x]) @ [h]) * 2 ^ s"
  proof -
    have "val ((xs @ [x]) @ [h]) = val (xs @ [x]) + base ^ Suc (length xs) * unat h" by (simp add: val_append algebra_simps)
    then show ?thesis
      using calculation(2) unfolding z(3) using shift_out [of s h] snoc.prems(5) by (simp add: algebra_simps)
  qed
  ultimately show ?case using z(2) by (intro exI [of _ "zs @ [?z]"]) simp
qed

lemma mpn_lshift_spec:
  assumes "block m up xs" "xs \<noteq> []" "mapped m wp (length xs)" "down_ok wp up (length xs)" "0 < cnt" "cnt < 32"
  shows "\<exists>zs r. mpn_lshift m wp up (length xs) cnt = Some (wr m wp zs, r) \<and> length zs = length xs \<and>
    val zs + base ^ length xs * unat r = val xs * 2 ^ cnt"
proof -
  obtain ys h where xs: "xs = ys @ [h]" using assms(2) by (cases xs rule: rev_cases) auto
  have "block m up ys" "m (up + length ys) = Some h" using assms(1) by (auto simp: xs block_append block_Cons)
  then show ?thesis
    using mpn_lshift_loop_spec [of m up ys wp cnt h] assms by (auto simp: mpn_lshift_def ld_def xs)
qed

section \<open>Shifting right divides\<close>

lemma mpn_rshift_loop_spec:
  assumes "block m up xs" "mapped m wp (Suc (length xs))" "up_ok wp up (length xs)" "0 < s" "s < 32"
  shows "\<exists>zs. mpn_rshift_loop m wp up (length xs) s l = Some (wr m wp zs) \<and> length zs = Suc (length xs) \<and>
    val zs * 2 ^ s + unat l mod 2 ^ s = val (l # xs)"
  using assms
proof (induction xs arbitrary: m wp up l)
  case Nil
  then show ?case
    by (intro exI [of _ "[drop_bit s l]"]) (simp add: mapped_Suc wr_Cons unat_drop_limb div_mult_mod_eq del: fun_upd_apply)
next
  case (Cons x xs)
  let ?z = "drop_bit s l OR push_bit (32 - s) x"
  let ?m = "m(wp \<mapsto> ?z)"
  have "block ?m (Suc up) xs" using Cons.prems by (subst block_upd_other) (auto simp: block_Cons up_ok_def)
  moreover have "mapped ?m (Suc wp) (Suc (length xs))" "up_ok (Suc wp) (Suc up) (length xs)"
    using Cons.prems by (auto simp: mapped_Suc up_ok_def)
  ultimately obtain zs where z: "mpn_rshift_loop ?m (Suc wp) (Suc up) (length xs) s x = Some (wr ?m (Suc wp) zs)"
    "length zs = Suc (length xs)" "val zs * 2 ^ s + unat x mod 2 ^ s = val (x # xs)"
    using Cons.IH [of ?m "Suc up" "Suc wp" x] Cons.prems(4,5) by (auto simp del: fun_upd_apply)
  have "mpn_rshift_loop m wp up (length (x # xs)) s l = Some (wr m wp (?z # zs))"
    using z(1) Cons.prems by (simp add: ld_def block_Cons mapped_Suc wr_Cons)
  moreover have zv: "unat ?z = unat l div 2 ^ s + (unat x mod 2 ^ s) * 2 ^ (32 - s)"
    using unat_or_limb [of "32 - s" x l] Cons.prems(4,5)
    by (simp add: or.commute [of "drop_bit s l"] unat_drop_limb unat_push_limb)
  have "val (?z # zs) * 2 ^ s + unat l mod 2 ^ s = unat l + base * (val zs * 2 ^ s + unat x mod 2 ^ s)"
  proof -
    have "(unat x mod 2 ^ s) * 2 ^ (32 - s) * 2 ^ s = base * (unat x mod 2 ^ s)"
      using base_split [of s] Cons.prems(5) by (simp add: ac_simps)
    then show ?thesis unfolding val.simps zv by (simp add: algebra_simps)
  qed
  then have "val (?z # zs) * 2 ^ s + unat l mod 2 ^ s = val (l # x # xs)" by (simp only: z(3) val.simps)
  ultimately show ?case using z(2) by (intro exI [of _ "?z # zs"]) simp
qed

lemma mpn_rshift_spec:
  assumes "block m up xs" "xs \<noteq> []" "mapped m wp (length xs)" "up_ok wp up (length xs)" "0 < cnt" "cnt < 32"
  shows "\<exists>zs r. mpn_rshift m wp up (length xs) cnt = Some (wr m wp zs, r) \<and> length zs = length xs \<and>
    val zs * base + unat r = val xs * 2 ^ (32 - cnt)"
proof -
  obtain x ys where xs: "xs = x # ys" using assms(2) by (cases xs) auto
  have "block m (Suc up) ys" "m up = Some x" "mapped m wp (Suc (length ys))" "up_ok wp (Suc up) (length ys)"
    using assms by (auto simp: xs block_Cons up_ok_def)
  then obtain zs where z: "mpn_rshift_loop m wp (Suc up) (length ys) cnt x = Some (wr m wp zs)" "length zs = Suc (length ys)"
    "val zs * 2 ^ cnt + unat x mod 2 ^ cnt = val (x # ys)"
    using mpn_rshift_loop_spec [of m "Suc up" ys wp cnt x] assms(5,6) by auto
  have "val zs * base + unat (push_bit (32 - cnt) x) = (val zs * 2 ^ cnt + unat x mod 2 ^ cnt) * 2 ^ (32 - cnt)"
    using base_split [of cnt] assms(6) by (simp add: unat_push_limb distrib_left distrib_right ac_simps)
  then show ?thesis using z \<open>m up = Some x\<close> assms(5,6)
    by (intro exI [of _ zs] exI [of _ "push_bit (32 - cnt) x"]) (simp add: mpn_rshift_def ld_def xs)
qed

end
