(* ===== verification/MpnDiv1.thy ===== *)
theory MpnDiv1
  imports MpnShift
begin

text \<open>
  Division by one limb: \<open>mpn_divmod_1\<close> (\<^verbatim>\<open>gmp/mpn-divmod_1.c\<close>) and \<open>mpn_mod_1\<close>
  (\<^verbatim>\<open>gmp/mpn-mod_1.c\<close>), from the most significant limb down, with the divisor shifted to
  normalise it and, for a long dividend, with its precomputed inverse.

  The two division steps (\<open>udiv_qrnnd\<close> and \<open>udiv_qrnnd_preinv\<close>) meet the same contract, the locale
  \<open>limb_div\<close>; the four loops are proved once over it. The timing constants that choose between
  them are those of the plain 68000 in \<^verbatim>\<open>stdlib/longlong.h\<close>.
\<close>

definition umul_time :: nat where "umul_time = 100"

definition udiv_time :: nat where "udiv_time = 400"

section \<open>The loops\<close>

text \<open>The dividend is shifted on the way; \<open>n1\<close> is the limb whose low bits come next.\<close>

fun divmod_loop_norm ::
  "(limb \<Rightarrow> limb \<Rightarrow> limb \<times> limb) \<Rightarrow> lmem \<Rightarrow> nat \<Rightarrow> nat \<Rightarrow> nat \<Rightarrow> limb \<Rightarrow> limb \<Rightarrow> nat \<Rightarrow> (lmem \<times> limb) option" where
  "divmod_loop_norm dv m quot_ptr dividend_ptr steps n1 r 0 =
    (let (q, r) = dv r (push_bit steps n1)
     in do { m \<leftarrow> st m quot_ptr q; Some (m, drop_bit steps r) })"
| "divmod_loop_norm dv m quot_ptr dividend_ptr steps n1 r (Suc i) =
    do { n0 \<leftarrow> ld m (dividend_ptr + i);
         let (q, r) = dv r (push_bit steps n1 OR drop_bit (32 - steps) n0);
         m \<leftarrow> st m (quot_ptr + Suc i) q;
         divmod_loop_norm dv m quot_ptr dividend_ptr steps n0 r i }"

fun divmod_loop ::
  "(limb \<Rightarrow> limb \<Rightarrow> limb \<times> limb) \<Rightarrow> lmem \<Rightarrow> nat \<Rightarrow> nat \<Rightarrow> limb \<Rightarrow> nat \<Rightarrow> (lmem \<times> limb) option" where
  "divmod_loop dv m quot_ptr dividend_ptr r 0 = Some (m, r)"
| "divmod_loop dv m quot_ptr dividend_ptr r (Suc i) =
    do { n0 \<leftarrow> ld m (dividend_ptr + i);
         let (q, r) = dv r n0;
         m \<leftarrow> st m (quot_ptr + i) q;
         divmod_loop dv m quot_ptr dividend_ptr r i }"

fun mod_loop_norm ::
  "(limb \<Rightarrow> limb \<Rightarrow> limb \<times> limb) \<Rightarrow> lmem \<Rightarrow> nat \<Rightarrow> nat \<Rightarrow> limb \<Rightarrow> limb \<Rightarrow> nat \<Rightarrow> limb option" where
  "mod_loop_norm dv m dividend_ptr steps n1 r 0 =
    (let (q, r) = dv r (push_bit steps n1) in Some (drop_bit steps r))"
| "mod_loop_norm dv m dividend_ptr steps n1 r (Suc i) =
    do { n0 \<leftarrow> ld m (dividend_ptr + i);
         let (q, r) = dv r (push_bit steps n1 OR drop_bit (32 - steps) n0);
         mod_loop_norm dv m dividend_ptr steps n0 r i }"

fun mod_loop :: "(limb \<Rightarrow> limb \<Rightarrow> limb \<times> limb) \<Rightarrow> lmem \<Rightarrow> nat \<Rightarrow> limb \<Rightarrow> nat \<Rightarrow> limb option" where
  "mod_loop dv m dividend_ptr r 0 = Some r"
| "mod_loop dv m dividend_ptr r (Suc i) =
    do { n0 \<leftarrow> ld m (dividend_ptr + i);
         let (q, r) = dv r n0;
         mod_loop dv m dividend_ptr r i }"

text \<open>\<open>div_step\<close> is the division of the inner loop: by multiplication with the inverse, or directly.\<close>

definition use_preinv :: "nat \<Rightarrow> bool" where
  "use_preinv size' \<longleftrightarrow> udiv_time > 2 * umul_time + 6 \<and> (udiv_time - (2 * umul_time + 6)) * size' > udiv_time"

definition div_step :: "nat \<Rightarrow> limb \<Rightarrow> limb \<Rightarrow> limb \<Rightarrow> limb \<times> limb" where
  "div_step size' d =
    (if use_preinv size' then (let di = invert_limb d in (\<lambda>nh nl. udiv_qrnnd_preinv nh nl d di))
     else (\<lambda>nh nl. udiv_qrnnd nh nl d))"

definition mpn_divmod_1 :: "lmem \<Rightarrow> nat \<Rightarrow> nat \<Rightarrow> nat \<Rightarrow> limb \<Rightarrow> (lmem \<times> limb) option" where
  "mpn_divmod_1 m quot_ptr dividend_ptr dividend_size divisor_limb =
    (if dividend_size = 0 then Some (m, 0)
     else
       let steps = count_leading_zeros divisor_limb
       in if steps \<noteq> 0
          then
            (let d = push_bit steps divisor_limb
             in do { n1 \<leftarrow> ld m (dividend_ptr + (dividend_size - 1));
                     divmod_loop_norm (div_step dividend_size d) m quot_ptr dividend_ptr steps n1
                       (drop_bit (32 - steps) n1) (dividend_size - 1) })
          else
            do { r \<leftarrow> ld m (dividend_ptr + (dividend_size - 1));
                 if r \<ge> divisor_limb
                 then divmod_loop (div_step dividend_size divisor_limb) m quot_ptr dividend_ptr 0 dividend_size
                 else do { m \<leftarrow> st m (quot_ptr + (dividend_size - 1)) 0;
                           divmod_loop (div_step dividend_size divisor_limb) m quot_ptr dividend_ptr r (dividend_size - 1) } })"

definition mpn_mod_1 :: "lmem \<Rightarrow> nat \<Rightarrow> nat \<Rightarrow> limb \<Rightarrow> limb option" where
  "mpn_mod_1 m dividend_ptr dividend_size divisor_limb =
    (if dividend_size = 0 then Some 0
     else
       let steps = count_leading_zeros divisor_limb
       in if steps \<noteq> 0
          then
            (let d = push_bit steps divisor_limb
             in do { n1 \<leftarrow> ld m (dividend_ptr + (dividend_size - 1));
                     mod_loop_norm (div_step dividend_size d) m dividend_ptr steps n1
                       (drop_bit (32 - steps) n1) (dividend_size - 1) })
          else
            do { r \<leftarrow> ld m (dividend_ptr + (dividend_size - 1));
                 if r \<ge> divisor_limb
                 then mod_loop (div_step dividend_size divisor_limb) m dividend_ptr 0 dividend_size
                 else mod_loop (div_step dividend_size divisor_limb) m dividend_ptr r (dividend_size - 1) })"

section \<open>The contract of a division step\<close>

locale limb_div =
  fixes dv :: "limb \<Rightarrow> limb \<Rightarrow> limb \<times> limb" and d :: limb
  assumes div_law: "unat nh < unat d \<Longrightarrow> dv nh nl = (q, r) \<Longrightarrow> unat q * unat d + unat r = val2 nh nl \<and> unat r < unat d"
begin

lemma divmod_loop_spec:
  assumes "block m up us" "mapped m qp (length us)" "down_ok qp up (length us)" "unat r < unat d"
  shows "\<exists>qs r'. divmod_loop dv m qp up r (length us) = Some (wr m qp qs, r') \<and> length qs = length us \<and>
    unat r' < unat d \<and> val qs * unat d + unat r' = unat r * base ^ length us + val us"
  using assms
proof (induction us arbitrary: m r rule: rev_induct)
  case Nil
  then show ?case by simp
next
  case (snoc x us)
  obtain q r1 where qr: "dv r x = (q, r1)" by fastforce
  then have l: "unat q * unat d + unat r1 = val2 r x" "unat r1 < unat d" using div_law [OF snoc.prems(4)] by auto
  let ?m = "m(qp + length us \<mapsto> q)"
  have mp: "m (qp + length us) \<noteq> None" "mapped m qp (length us)"
    using snoc.prems(2) by (auto simp: mapped_def)
  have "block ?m up us" using snoc.prems(1,3) by (subst block_upd_other) (auto simp: block_append down_ok_def)
  moreover have "down_ok qp up (length us)" using snoc.prems(3) by (auto simp: down_ok_def)
  ultimately obtain qs r' where h: "divmod_loop dv ?m qp up r1 (length us) = Some (wr ?m qp qs, r')" "length qs = length us"
    "unat r' < unat d" "val qs * unat d + unat r' = unat r1 * base ^ length us + val us"
    using snoc.IH [OF _ mapped_upd [OF mp(2)] _ l(2)] by blast
  have "wr ?m qp qs = wr m qp (qs @ [q])" unfolding h(2) [symmetric] by (rule wr_snoc_before)
  moreover have "ld m (up + length us) = Some x" using snoc.prems(1) by (simp add: block_append block_Cons ld_def)
  moreover have "val (qs @ [q]) * unat d + unat r' = unat r * base ^ length (us @ [x]) + val (us @ [x])"
  proof -
    have "val (qs @ [q]) * unat d + unat r' = (val qs * unat d + unat r') + base ^ length us * (unat q * unat d)"
      by (simp add: val_snoc h(2) algebra_simps)
    also have "\<dots> = base ^ length us * (unat q * unat d + unat r1) + val us" unfolding h(4) by (simp add: algebra_simps)
    finally show ?thesis unfolding l(1) by (simp add: val2_def val_snoc algebra_simps)
  qed
  ultimately show ?case
    using mp(1) h qr by (intro exI [of _ "qs @ [q]"] exI [of _ r']) (simp del: fun_upd_apply)
qed

lemma mod_loop_spec:
  assumes "block m up us" "unat r < unat d"
  shows "\<exists>r'. mod_loop dv m up r (length us) = Some r' \<and>
    unat r' = (unat r * base ^ length us + val us) mod unat d"
  using assms
proof (induction us arbitrary: r rule: rev_induct)
  case Nil
  then show ?case by simp
next
  case (snoc x us)
  obtain q r1 where qr: "dv r x = (q, r1)" by fastforce
  then have l: "unat q * unat d + unat r1 = val2 r x" "unat r1 < unat d" using div_law [OF snoc.prems(2)] by auto
  obtain r' where h: "mod_loop dv m up r1 (length us) = Some r'" "unat r' = (unat r1 * base ^ length us + val us) mod unat d"
    using snoc.IH [of r1] snoc.prems(1) l(2) by (auto simp: block_append)
  have "unat r * base ^ length (us @ [x]) + val (us @ [x]) = (unat r1 * base ^ length us + val us) + unat d * (base ^ length us * unat q)"
  proof -
    have "unat r * base ^ length (us @ [x]) + val (us @ [x]) = base ^ length us * val2 r x + val us"
      by (simp add: val2_def val_snoc algebra_simps)
    then show ?thesis unfolding l(1) [symmetric] by (simp add: algebra_simps)
  qed
  then have "unat r' = (unat r * base ^ length (us @ [x]) + val (us @ [x])) mod unat d" using h(2) by simp
  moreover have "ld m (up + length us) = Some x" using snoc.prems(1) by (simp add: block_append block_Cons ld_def)
  ultimately show ?case using h(1) qr by simp
qed

text \<open>The shifting loops: what is left of the dividend, shifted, is \<open>norm_rest\<close>.\<close>

definition norm_rest :: "nat \<Rightarrow> limb \<Rightarrow> limb \<Rightarrow> limb list \<Rightarrow> nat" where
  "norm_rest c n1 r us = unat r * base ^ Suc (length us) + unat (push_bit c n1) * base ^ length us + 2 ^ c * val us"

lemma norm_step:
  assumes "0 < c" "c < 32" "unat r < unat d" "dv r (push_bit c n1 OR drop_bit (32 - c) x) = (q, r1)"
  shows "norm_rest c n1 r (us @ [x]) = unat q * unat d * base ^ Suc (length us) + norm_rest c x r1 us" "unat r1 < unat d"
proof -
  have l: "unat q * unat d + unat r1 = val2 r (push_bit c n1 OR drop_bit (32 - c) x)" "unat r1 < unat d"
    using div_law [OF assms(3,4)] by auto
  show "unat r1 < unat d" by (rule l)
  have "norm_rest c n1 r (us @ [x]) = base ^ Suc (length us) * (unat r * base + unat (push_bit c n1))
      + 2 ^ c * val us + base ^ length us * (unat x * 2 ^ c)"
    by (simp add: norm_rest_def val_snoc algebra_simps)
  also have "\<dots> = base ^ Suc (length us) * (unat r * base + unat (push_bit c n1) + unat (drop_bit (32 - c) x))
      + 2 ^ c * val us + base ^ length us * unat (push_bit c x)"
    unfolding shift_out [of c x, symmetric, OF less_imp_le [OF assms(2)]] by (simp add: algebra_simps)
  also have "unat r * base + unat (push_bit c n1) + unat (drop_bit (32 - c) x) = unat q * unat d + unat r1"
    unfolding l(1) val2_def unat_or_limb [OF assms(1,2)] by simp
  finally show "norm_rest c n1 r (us @ [x]) = unat q * unat d * base ^ Suc (length us) + norm_rest c x r1 us"
    by (simp add: norm_rest_def algebra_simps)
qed

lemma divmod_loop_norm_spec:
  assumes "block m up us" "mapped m qp (Suc (length us))" "down_ok qp up (Suc (length us))" "unat r < unat d" "0 < c" "c < 32"
  shows "\<exists>qs r'. divmod_loop_norm dv m qp up c n1 r (length us) = Some (wr m qp qs, drop_bit c r') \<and> length qs = Suc (length us) \<and>
    unat r' < unat d \<and> val qs * unat d + unat r' = norm_rest c n1 r us"
  using assms
proof (induction us arbitrary: m r n1 rule: rev_induct)
  case Nil
  obtain q r1 where qr: "dv r (push_bit c n1) = (q, r1)" by fastforce
  then have l: "unat q * unat d + unat r1 = val2 r (push_bit c n1)" "unat r1 < unat d" using div_law [OF Nil.prems(4)] by auto
  have "val [q] * unat d + unat r1 = norm_rest c n1 r []" using l(1) by (simp add: norm_rest_def val2_def)
  then show ?case using Nil.prems qr l(2)
    by (intro exI [of _ "[q]"] exI [of _ r1]) (simp add: mapped_Suc wr_Cons del: fun_upd_apply)
next
  case (snoc x us)
  obtain q r1 where qr: "dv r (push_bit c n1 OR drop_bit (32 - c) x) = (q, r1)" by fastforce
  note l = norm_step [OF snoc.prems(5,6,4) qr]
  let ?m = "m(qp + Suc (length us) \<mapsto> q)"
  have mp: "m (qp + Suc (length us)) \<noteq> None" "mapped m qp (Suc (length us))"
    using mapped_nth [OF snoc.prems(2), of "Suc (length us)"] snoc.prems(2) by (auto intro: mapped_le)
  have "block ?m up us" using snoc.prems(1,3) by (subst block_upd_other) (auto simp: block_append down_ok_def)
  moreover have "down_ok qp up (Suc (length us))" using snoc.prems(3) by (auto simp: down_ok_def)
  ultimately obtain qs r' where h: "divmod_loop_norm dv ?m qp up c x r1 (length us) = Some (wr ?m qp qs, drop_bit c r')"
    "length qs = Suc (length us)" "unat r' < unat d" "val qs * unat d + unat r' = norm_rest c x r1 us"
    using snoc.IH [OF _ mapped_upd [OF mp(2)] _ l(2) snoc.prems(5,6)] by blast
  have "wr ?m qp qs = wr m qp (qs @ [q])" unfolding h(2) [symmetric] by (rule wr_snoc_before)
  moreover have "ld m (up + length us) = Some x" using snoc.prems(1) by (simp add: block_append block_Cons ld_def)
  moreover have "val (qs @ [q]) * unat d + unat r' = norm_rest c n1 r (us @ [x])"
    unfolding l(1) h(4) [symmetric] by (simp add: val_snoc h(2) algebra_simps)
  ultimately show ?case
    using mp(1) h(1-3) qr by (intro exI [of _ "qs @ [q]"] exI [of _ r']) (simp del: fun_upd_apply)
qed

lemma mod_loop_norm_spec:
  assumes "block m up us" "unat r < unat d" "0 < c" "c < 32"
  shows "\<exists>r'. mod_loop_norm dv m up c n1 r (length us) = Some (drop_bit c r') \<and> unat r' = norm_rest c n1 r us mod unat d"
  using assms
proof (induction us arbitrary: r n1 rule: rev_induct)
  case Nil
  obtain q r1 where qr: "dv r (push_bit c n1) = (q, r1)" by fastforce
  then have l: "unat q * unat d + unat r1 = val2 r (push_bit c n1)" "unat r1 < unat d" using div_law [OF Nil.prems(2)] by auto
  have "norm_rest c n1 r [] = unat q * unat d + unat r1" using l(1) by (simp add: norm_rest_def val2_def)
  then show ?case using qr l(2) by (intro exI [of _ r1]) simp
next
  case (snoc x us)
  obtain q r1 where qr: "dv r (push_bit c n1 OR drop_bit (32 - c) x) = (q, r1)" by fastforce
  note l = norm_step [OF snoc.prems(3,4,2) qr]
  have "ld m (up + length us) = Some x" using snoc.prems(1) by (simp add: block_append block_Cons ld_def)
  moreover have "(unat q * unat d * base ^ Suc (length us) + norm_rest c x r1 us) mod unat d = norm_rest c x r1 us mod unat d"
    by (subst mult.assoc, subst mult.left_commute) (rule mod_mult_self4)
  moreover have "block m up us" using snoc.prems(1) by (simp add: block_append)
  from snoc.IH [OF this l(2) snoc.prems(3,4), of x] obtain r' where
    "mod_loop_norm dv m up c x r1 (length us) = Some (drop_bit c r')" "unat r' = norm_rest c x r1 us mod unat d" by blast
  ultimately show ?case
    unfolding l(1) using qr by (intro exI [of _ r']) simp
qed

end

section \<open>The two steps meet it\<close>

lemma limb_div_udiv_qrnnd: "normalized d \<Longrightarrow> limb_div (\<lambda>nh nl. udiv_qrnnd nh nl d) d"
  by unfold_locales (blast intro: udiv_qrnnd_val)

lemma limb_div_preinv: "normalized d \<Longrightarrow> limb_div (\<lambda>nh nl. udiv_qrnnd_preinv nh nl d (invert_limb d)) d"
proof unfold_locales
  fix nh nl q r
  assume d: "normalized d" and "unat nh < unat d" "udiv_qrnnd_preinv nh nl d (invert_limb d) = (q, r)"
  then show "unat q * unat d + unat r = val2 nh nl \<and> unat r < unat d"
    by (intro udiv_qrnnd_preinv_val [OF d invert_limb_val [OF d]])
qed

text \<open>The divisor shifted as the code shifts it, for which the step the code runs is interpreted.\<close>

definition norm_divisor :: "limb \<Rightarrow> limb" where
  "norm_divisor d = push_bit (count_leading_zeros d) d"

lemma unat_norm_divisor:
  assumes "d \<noteq> 0"
  shows "unat (norm_divisor d) = unat d * 2 ^ count_leading_zeros d" "normalized (norm_divisor d)"
proof -
  note c = count_leading_zeros_shift [OF assms]
  have "unat (norm_divisor d) = (unat d mod 2 ^ (32 - count_leading_zeros d)) * 2 ^ count_leading_zeros d"
    unfolding norm_divisor_def using c(1) by (intro unat_push_limb) simp
  also have "unat d mod 2 ^ (32 - count_leading_zeros d) = unat d"
  proof (rule mod_less)
    have "(2 :: nat) ^ 32 = 2 ^ (32 - count_leading_zeros d) * 2 ^ count_leading_zeros d"
      using c(1) by (simp flip: power_add)
    then have "unat d * 2 ^ count_leading_zeros d < 2 ^ (32 - count_leading_zeros d) * 2 ^ count_leading_zeros d"
      using c(3) by (simp only:)
    then show "unat d < 2 ^ (32 - count_leading_zeros d)" by (simp only: mult_less_cancel2)
  qed
  finally show "unat (norm_divisor d) = unat d * 2 ^ count_leading_zeros d" .
  then show "normalized (norm_divisor d)" using c(2) by (simp add: normalized_def)
qed

lemma limb_div_step: "normalized d \<Longrightarrow> limb_div (div_step n d) d"
  using limb_div_udiv_qrnnd limb_div_preinv by (simp add: div_step_def)

text \<open>The shifted divisor of the code; 0, which the code must not be given, stands for 1.\<close>

definition safe_divisor :: "limb \<Rightarrow> limb" where
  "safe_divisor d = norm_divisor (if d = 0 then 1 else d)"

lemma normalized_safe_divisor: "normalized (safe_divisor d)"
  unfolding safe_divisor_def by (rule unat_norm_divisor(2)) simp

interpretation ld1: limb_div "div_step n (safe_divisor d)" "safe_divisor d"
  by (rule limb_div_step [OF normalized_safe_divisor])

lemma count_leading_zeros_0: "d \<noteq> 0 \<Longrightarrow> count_leading_zeros d = 0 \<Longrightarrow> normalized d"
  using count_leading_zeros_shift(2) [of d] by (simp add: normalized_def)

lemma safe_divisor_eq: "d \<noteq> 0 \<Longrightarrow> safe_divisor d = push_bit (count_leading_zeros d) d"
  by (simp add: safe_divisor_def norm_divisor_def)

lemma norm_rest_first:
  assumes "0 < c" "c < 32"
  shows "ld1.norm_rest c x (drop_bit (32 - c) x) us = 2 ^ c * val (us @ [x])"
proof -
  have "ld1.norm_rest c x (drop_bit (32 - c) x) us
      = base ^ length us * (unat (push_bit c x) + base * unat (drop_bit (32 - c) x)) + 2 ^ c * val us"
    by (simp add: ld1.norm_rest_def algebra_simps)
  also have "unat (push_bit c x) + base * unat (drop_bit (32 - c) x) = unat x * 2 ^ c"
    using assms by (intro shift_out) simp
  finally show ?thesis by (simp add: val_snoc algebra_simps)
qed

lemma unat_drop_less:
  assumes "0 < c" "c < 32" "normalized d"
  shows "unat (drop_bit (32 - c) (x :: limb)) < unat d"
proof -
  have "unat (drop_bit (32 - c) x) < 2 ^ c"
    unfolding unat_drop_limb using unat_limb_less [of x] base_split [of c] assms
    by (simp add: less_mult_imp_div_less mult.commute)
  also have "(2 :: nat) ^ c \<le> 2 ^ 31" using assms by (intro power_increasing) simp_all
  finally show ?thesis using assms(3) by (simp add: normalized_def)
qed

section \<open>The two routines\<close>

lemma mpn_divmod_1_spec:
  assumes "block m up us" "us \<noteq> []" "d \<noteq> 0" "mapped m qp (length us)" "down_ok qp up (length us)"
  shows "\<exists>qs r. mpn_divmod_1 m qp up (length us) d = Some (wr m qp qs, r) \<and> length qs = length us \<and>
    val qs = val us div unat d \<and> unat r = val us mod unat d"
proof -
  obtain ws x where us: "us = ws @ [x]" using assms(2) by (cases us rule: rev_cases) auto
  have x: "ld m (up + length ws) = Some x" "block m up ws"
    using assms(1) us by (simp_all add: block_append block_Cons ld_def)
  define c where "c = count_leading_zeros d"
  have sd: "safe_divisor d = push_bit c d" "unat (safe_divisor d) = unat d * 2 ^ c"
    using unat_norm_divisor(1) [OF assms(3)] safe_divisor_eq [OF assms(3)] assms(3)
    by (simp_all add: c_def safe_divisor_def)
  have d0: "0 < unat d" using assms(3) by (simp add: unat_gt_0)
  show ?thesis
  proof (cases "c = 0")
    case False
    have c: "0 < c" "c < 32" using False count_leading_zeros_shift(1) [OF assms(3)] by (simp_all add: c_def)
    obtain qs r where r: "divmod_loop_norm (div_step (length us) (safe_divisor d)) m qp up c x (drop_bit (32 - c) x) (length ws)
        = Some (wr m qp qs, drop_bit c r)" "length qs = Suc (length ws)" "unat r < unat (safe_divisor d)"
      "val qs * unat (safe_divisor d) + unat r = 2 ^ c * val us"
      using ld1.divmod_loop_norm_spec [OF x(2) _ _ unat_drop_less [OF c normalized_safe_divisor, of x] c, where qp = qp and d = d and n = "length us" and ?n1.0 = x]
        assms(4,5) norm_rest_first [OF c, of x ws] us by auto
    have "val qs * unat d * 2 ^ c + unat r = val us * 2 ^ c" using r(4) sd(2) by (simp add: algebra_simps)
    then have e: "unat r = (val us - val qs * unat d) * 2 ^ c" by (simp add: diff_mult_distrib)
    then have dr: "unat (drop_bit c r) = val us - val qs * unat d" by (simp add: unat_drop_limb)
    have "val qs * unat d * 2 ^ c \<le> val us * 2 ^ c" using \<open>val qs * unat d * 2 ^ c + unat r = val us * 2 ^ c\<close> by linarith
    then have le: "val qs * unat d \<le> val us" by simp
    have lt: "unat (drop_bit c r) < unat d" using r(3) e sd(2) dr by simp
    have "val us = val qs * unat d + unat (drop_bit c r)" using dr le by simp
    then have "val qs = val us div unat d" "unat (drop_bit c r) = val us mod unat d" using lt by simp_all
    then show ?thesis using r(1,2) x(1) us False sd(1)
      by (intro exI [of _ qs] exI [of _ "drop_bit c r"]) (simp add: mpn_divmod_1_def c_def [symmetric] Let_def)
  next
    case True
    have sd0: "safe_divisor d = d" using sd(1) True by simp
    show ?thesis
    proof (cases "x \<ge> d")
      case ge: True
      obtain qs r where r: "divmod_loop (div_step (length us) d) m qp up 0 (length us) = Some (wr m qp qs, r)" "length qs = length us"
        "unat r < unat d" "val qs * unat d + unat r = val us"
        using ld1.divmod_loop_spec [OF assms(1,4,5), of 0 d "length us"] d0 unfolding sd0 by auto
      have "val qs = val us div unat d" "unat r = val us mod unat d" using r(3) by (simp_all flip: r(4))
      then show ?thesis using r(1,2) x(1) us True ge
        by (intro exI [of _ qs] exI [of _ r]) (simp add: mpn_divmod_1_def c_def [symmetric] Let_def)
    next
      case False
      then have xd: "unat x < unat d" by (simp add: word_le_nat_alt)
      let ?m = "m(qp + length ws \<mapsto> 0)"
      have mp: "m (qp + length ws) \<noteq> None" "mapped m qp (length ws)" using assms(4) us by (auto simp: mapped_def)
      have b: "block ?m up ws" using x(2) assms(5) us by (subst block_upd_other) (auto simp: down_ok_def)
      have "down_ok qp up (length ws)" using assms(5) us by (auto simp: down_ok_def)
      then obtain qs r where r: "divmod_loop (div_step (length us) d) ?m qp up x (length ws) = Some (wr ?m qp qs, r)"
        "length qs = length ws" "unat r < unat d" "val qs * unat d + unat r = unat x * base ^ length ws + val ws"
        using ld1.divmod_loop_spec [OF b mapped_upd [OF mp(2)], where r = x and d = d and n = "length us"] xd unfolding sd0 by blast
      have vq: "val (qs @ [0]) * unat d + unat r = val us" using r(4) us by (simp add: val_snoc algebra_simps)
      have "val (qs @ [0]) = val us div unat d" "unat r = val us mod unat d" using r(3) by (simp_all flip: vq)
      moreover have "wr ?m qp qs = wr m qp (qs @ [0])" unfolding r(2) [symmetric] by (rule wr_snoc_before)
      ultimately show ?thesis using r(1,2) x(1) us True False mp(1)
        by (intro exI [of _ "qs @ [0]"] exI [of _ r]) (simp add: mpn_divmod_1_def c_def [symmetric] Let_def del: fun_upd_apply)
    qed
  qed
qed

lemma mpn_mod_1_spec:
  assumes "block m up us" "us \<noteq> []" "d \<noteq> 0"
  shows "\<exists>r. mpn_mod_1 m up (length us) d = Some r \<and> unat r = val us mod unat d"
proof -
  obtain ws x where us: "us = ws @ [x]" using assms(2) by (cases us rule: rev_cases) auto
  have x: "ld m (up + length ws) = Some x" "block m up ws"
    using assms(1) us by (simp_all add: block_append block_Cons ld_def)
  define c where "c = count_leading_zeros d"
  have sd: "safe_divisor d = push_bit c d" "unat (safe_divisor d) = unat d * 2 ^ c"
    using unat_norm_divisor(1) [OF assms(3)] safe_divisor_eq [OF assms(3)] assms(3)
    by (simp_all add: c_def safe_divisor_def)
  have d0: "0 < unat d" using assms(3) by (simp add: unat_gt_0)
  show ?thesis
  proof (cases "c = 0")
    case False
    have c: "0 < c" "c < 32" using False count_leading_zeros_shift(1) [OF assms(3)] by (simp_all add: c_def)
    obtain r where r: "mod_loop_norm (div_step (length us) (safe_divisor d)) m up c x (drop_bit (32 - c) x) (length ws)
        = Some (drop_bit c r)" "unat r = (2 ^ c * val us) mod unat (safe_divisor d)"
      using ld1.mod_loop_norm_spec [OF x(2) unat_drop_less [OF c normalized_safe_divisor, of x] c, where d = d and n = "length us" and ?n1.0 = x]
        norm_rest_first [OF c, of x ws] us by auto
    have "unat r = (val us mod unat d) * 2 ^ c" unfolding r(2) sd(2) by (simp add: mult.commute [of "2 ^ c"] mod_mult_mult2)
    then have "unat (drop_bit c r) = val us mod unat d" by (simp add: unat_drop_limb)
    then show ?thesis using r(1) x(1) us False sd(1) by (simp add: mpn_mod_1_def c_def [symmetric] Let_def)
  next
    case True
    have sd0: "safe_divisor d = d" using sd(1) True by simp
    show ?thesis
    proof (cases "x \<ge> d")
      case ge: True
      show ?thesis using ld1.mod_loop_spec [OF assms(1), where r = 0 and d = d and n = "length us"] d0 x(1) us True ge unfolding sd0
        by (auto simp: mpn_mod_1_def c_def [symmetric] Let_def)
    next
      case False
      then have xd: "unat x < unat d" by (simp add: word_le_nat_alt)
      show ?thesis using ld1.mod_loop_spec [OF x(2), where r = x and d = d and n = "length us"] xd x(1) us True False unfolding sd0
        by (auto simp: mpn_mod_1_def c_def [symmetric] Let_def val_snoc algebra_simps)
    qed
  qed
qed

section \<open>Properties\<close>

text \<open>C12: \<open>mpn_divmod_1\<close> returns the remainder of the division of the vector by the limb and leaves
  the quotient at \<open>quot_ptr\<close>, for every nonzero divisor and every length, whichever of its four
  loops it takes, also in place (the quotient may overwrite the dividend).\<close>

theorem mpn_divmod_1_correct:
  assumes "block m up us" "us \<noteq> []" "d \<noteq> 0" "mapped m qp (length us)" "down_ok qp up (length us)"
  shows "\<exists>qs r. mpn_divmod_1 m qp up (length us) d = Some (wr m qp qs, r) \<and> length qs = length us \<and>
    val qs = val us div unat d \<and> unat r = val us mod unat d"
  using assms by (rule mpn_divmod_1_spec)

lemma mpn_divmod_1_correct_witness:
  "\<exists>qs r. mpn_divmod_1 (wr (\<lambda>_. Some 0) 8 (replicate 4 6)) 8 8 4 10 = Some (wr (wr (\<lambda>_. Some 0) 8 (replicate 4 6)) 8 qs, r) \<and>
    length qs = 4 \<and> val qs = val (replicate 4 6) div 10 \<and> unat r = val (replicate 4 6) mod 10"
  using mpn_divmod_1_correct [of "wr (\<lambda>_. Some 0) 8 (replicate 4 6)" 8 "replicate 4 6" 10 8]
  by (simp add: down_ok_def)

text \<open>\<open>mpn_mod_1\<close> returns the remainder \<open>mpn_divmod_1\<close> returns, and it changes no memory.\<close>

theorem mpn_mod_1_agrees:
  assumes "block m up us" "d \<noteq> 0" "mapped m qp (length us)" "down_ok qp up (length us)"
  shows "mpn_mod_1 m up (length us) d = map_option snd (mpn_divmod_1 m qp up (length us) d)"
proof (cases "us = []")
  case True
  then show ?thesis by (simp add: mpn_mod_1_def mpn_divmod_1_def)
next
  case False
  obtain r where r: "mpn_mod_1 m up (length us) d = Some r" "unat r = val us mod unat d"
    using mpn_mod_1_spec [OF assms(1) False assms(2)] by blast
  obtain m' r' where r': "mpn_divmod_1 m qp up (length us) d = Some (m', r')" "unat r' = val us mod unat d"
    using mpn_divmod_1_spec [OF assms(1) False assms(2-4)] by blast
  from r(2) r'(2) have "r = r'" by (simp add: word_unat_eq_iff)
  then show ?thesis using r(1) r'(1) by simp
qed

lemma mpn_mod_1_agrees_witness:
  "mpn_mod_1 (wr (\<lambda>_. Some 0) 8 (replicate 2 6)) 8 2 10
    = map_option snd (mpn_divmod_1 (wr (\<lambda>_. Some 0) 8 (replicate 2 6)) 20 8 2 10)"
  using mpn_mod_1_agrees [of "wr (\<lambda>_. Some 0) 8 (replicate 2 6)" 8 "replicate 2 6" 10 20]
  by (simp add: down_ok_def)

end
