(* ===== verification/Quick.thy ===== *)
theory Quick
  imports Sorting
begin

text \<open>
  \<open>_quicksort\<close> of \<^verbatim>\<open>stdlib/qsort.c\<close>: quicksort with a median of three and an explicit stack of
  \<open>STACK_SIZE\<close> nodes, which leaves segments of at most \<open>MAX_THRESH + 1\<close> elements unsorted, and an
  insertion sort over the whole array with the smallest element as its sentinel. As in
  \<open>Sorting\<close>, a cell of the memory is one array element; a \<open>memcpy\<close> or \<open>SWAP\<close> of \<open>size\<close> bytes
  moves one cell.

  A scan that leaves the array, a stack that overflows and a loop that does not end are all
  \<open>None\<close>, so the main theorem says for every array, the 32 nodes being enough for the
  \<open>2 ^ 32\<close> elements memory can hold, that none of it happens and that the array ends up sorted.
\<close>

definition max_thresh :: nat where "max_thresh = 4"

definition stack_size :: nat where "stack_size = 8 * 4"

definition qs_swap :: "'a mem \<Rightarrow> nat \<Rightarrow> nat \<Rightarrow> 'a mem option" where
  "qs_swap m a b = do { x \<leftarrow> ld m a; y \<leftarrow> ld m b; m \<leftarrow> st m a y; st m b x }"

section \<open>Partitioning\<close>

definition qs_median :: "('a \<Rightarrow> 'a \<Rightarrow> int) \<Rightarrow> 'a mem \<Rightarrow> nat \<Rightarrow> nat \<Rightarrow> nat \<Rightarrow> 'a mem option" where
  "qs_median cmp m lo mid hi =
    do { x \<leftarrow> ld m mid; y \<leftarrow> ld m lo;
         m \<leftarrow> (if cmp x y < 0 then qs_swap m mid lo else Some m);
         x \<leftarrow> ld m hi; y \<leftarrow> ld m mid;
         if cmp x y < 0
         then do { m \<leftarrow> qs_swap m mid hi;
                   x \<leftarrow> ld m mid; y \<leftarrow> ld m lo;
                   if cmp x y < 0 then qs_swap m mid lo else Some m }
         else Some m }"

partial_function (option) scan_up :: "('a \<Rightarrow> 'a \<Rightarrow> int) \<Rightarrow> 'a mem \<Rightarrow> 'a \<Rightarrow> nat \<Rightarrow> nat option" where
  "scan_up cmp m pivot p =
    do { x \<leftarrow> ld m p; if cmp x pivot < 0 then scan_up cmp m pivot (p + 1) else Some p }"

partial_function (option) scan_down :: "('a \<Rightarrow> 'a \<Rightarrow> int) \<Rightarrow> 'a mem \<Rightarrow> 'a \<Rightarrow> nat \<Rightarrow> nat option" where
  "scan_down cmp m pivot p =
    do { x \<leftarrow> ld m p; if cmp pivot x < 0 then scan_down cmp m pivot (p - 1) else Some p }"

partial_function (option) collapse :: "('a \<Rightarrow> 'a \<Rightarrow> int) \<Rightarrow> 'a mem \<Rightarrow> 'a \<Rightarrow> nat \<Rightarrow> nat \<Rightarrow> ('a mem \<times> nat \<times> nat) option" where
  "collapse cmp m pivot left_ptr right_ptr =
    do { left_ptr \<leftarrow> scan_up cmp m pivot left_ptr;
         right_ptr \<leftarrow> scan_down cmp m pivot right_ptr;
         if left_ptr < right_ptr
         then do { m \<leftarrow> qs_swap m left_ptr right_ptr;
                   if left_ptr + 1 \<le> right_ptr - 1
                   then collapse cmp m pivot (left_ptr + 1) (right_ptr - 1)
                   else Some (m, left_ptr + 1, right_ptr - 1) }
         else if left_ptr = right_ptr then Some (m, left_ptr + 1, right_ptr - 1)
         else Some (m, left_ptr, right_ptr) }"

definition qs_partition :: "('a \<Rightarrow> 'a \<Rightarrow> int) \<Rightarrow> 'a mem \<Rightarrow> nat \<Rightarrow> nat \<Rightarrow> ('a mem \<times> nat \<times> nat) option" where
  "qs_partition cmp m lo hi =
    (let mid = lo + (hi - lo) div 2
     in do { m \<leftarrow> qs_median cmp m lo mid hi;
             pivot \<leftarrow> ld m mid;
             collapse cmp m pivot (lo + 1) (hi - 1) })"

section \<open>The stack of segments\<close>

text \<open>The first element of the list is the top of the stack.\<close>

definition qs_push :: "nat \<Rightarrow> nat \<Rightarrow> (nat \<times> nat) list \<Rightarrow> (nat \<times> nat) list option" where
  "qs_push low high stack = (if length stack < stack_size then Some ((low, high) # stack) else None)"

text \<open>\<open>(size_t) (q - p) <= max_thresh\<close>; a negative difference is a large unsigned number.\<close>

definition qs_small :: "nat \<Rightarrow> nat \<Rightarrow> bool" where
  "qs_small p q \<longleftrightarrow> p \<le> q \<and> q - p \<le> max_thresh"

definition qs_next :: "nat \<Rightarrow> nat \<Rightarrow> nat \<Rightarrow> nat \<Rightarrow> (nat \<times> nat) list \<Rightarrow> (nat \<times> nat \<times> (nat \<times> nat) list) option" where
  "qs_next lo hi left_ptr right_ptr stack =
    (if qs_small lo right_ptr
     then if qs_small left_ptr hi
          then (case stack of [] \<Rightarrow> None | (l, h) # s \<Rightarrow> Some (l, h, s))
          else Some (left_ptr, hi, stack)
     else if qs_small left_ptr hi then Some (lo, right_ptr, stack)
     else if int right_ptr - int lo > int hi - int left_ptr
          then do { s \<leftarrow> qs_push lo right_ptr stack; Some (left_ptr, hi, s) }
          else do { s \<leftarrow> qs_push left_ptr hi stack; Some (lo, right_ptr, s) })"

partial_function (option) qs_loop :: "('a \<Rightarrow> 'a \<Rightarrow> int) \<Rightarrow> 'a mem \<Rightarrow> nat \<Rightarrow> nat \<Rightarrow> (nat \<times> nat) list \<Rightarrow> 'a mem option" where
  "qs_loop cmp m lo hi stack =
    (if stack = [] then Some m
     else do { (m, left_ptr, right_ptr) \<leftarrow> qs_partition cmp m lo hi;
               (lo, hi, stack) \<leftarrow> qs_next lo hi left_ptr right_ptr stack;
               qs_loop cmp m lo hi stack })"

section \<open>Insertion sort\<close>

fun qs_min :: "('a \<Rightarrow> 'a \<Rightarrow> int) \<Rightarrow> 'a mem \<Rightarrow> nat \<Rightarrow> nat \<Rightarrow> nat \<Rightarrow> nat option" where
  "qs_min cmp m tmp_ptr run_ptr 0 = Some tmp_ptr"
| "qs_min cmp m tmp_ptr run_ptr (Suc k) =
    do { x \<leftarrow> ld m run_ptr; y \<leftarrow> ld m tmp_ptr;
         qs_min cmp m (if cmp x y < 0 then run_ptr else tmp_ptr) (Suc run_ptr) k }"

text \<open>The place of the element at \<open>run_ptr\<close>: below the last smaller or equal one.\<close>

partial_function (option) ins_scan :: "('a \<Rightarrow> 'a \<Rightarrow> int) \<Rightarrow> 'a mem \<Rightarrow> nat \<Rightarrow> nat \<Rightarrow> nat option" where
  "ins_scan cmp m run_ptr tmp_ptr =
    do { x \<leftarrow> ld m run_ptr; y \<leftarrow> ld m tmp_ptr;
         if cmp x y < 0 then ins_scan cmp m run_ptr (tmp_ptr - 1) else Some (tmp_ptr + 1) }"

text \<open>The elements from \<open>tmp_ptr\<close> on move up one place, the one at \<open>run_ptr\<close> into the gap.\<close>

fun ins_shift :: "'a mem \<Rightarrow> nat \<Rightarrow> nat \<Rightarrow> 'a \<Rightarrow> 'a mem option" where
  "ins_shift m tmp_ptr 0 c = st m tmp_ptr c"
| "ins_shift m tmp_ptr (Suc k) c =
    do { x \<leftarrow> ld m (tmp_ptr + k); m \<leftarrow> st m (tmp_ptr + Suc k) x; ins_shift m tmp_ptr k c }"

fun ins_loop :: "('a \<Rightarrow> 'a \<Rightarrow> int) \<Rightarrow> 'a mem \<Rightarrow> nat \<Rightarrow> nat \<Rightarrow> 'a mem option" where
  "ins_loop cmp m run_ptr 0 = Some m"
| "ins_loop cmp m run_ptr (Suc k) =
    do { tmp_ptr \<leftarrow> ins_scan cmp m run_ptr (run_ptr - 1);
         m \<leftarrow> (if tmp_ptr \<noteq> run_ptr
               then do { c \<leftarrow> ld m run_ptr; ins_shift m tmp_ptr (run_ptr - tmp_ptr) c }
               else Some m);
         ins_loop cmp m (run_ptr + 1) k }"

definition qs_insertion :: "('a \<Rightarrow> 'a \<Rightarrow> int) \<Rightarrow> 'a mem \<Rightarrow> nat \<Rightarrow> nat \<Rightarrow> 'a mem option" where
  "qs_insertion cmp m base_ptr total_elems =
    do { tmp_ptr \<leftarrow> qs_min cmp m base_ptr (base_ptr + 1) (min (total_elems - 1) max_thresh);
         m \<leftarrow> (if tmp_ptr \<noteq> base_ptr then qs_swap m tmp_ptr base_ptr else Some m);
         ins_loop cmp m (base_ptr + 2) (total_elems - 2) }"

text \<open>
  \<open>stack + 1\<close> is the first free node: the bottom node is never written, and the loop ends when its
  unset contents, the parameter \<open>junk\<close>, are popped.
\<close>

definition quicksort :: "nat \<times> nat \<Rightarrow> ('a \<Rightarrow> 'a \<Rightarrow> int) \<Rightarrow> 'a mem \<Rightarrow> nat \<Rightarrow> nat \<Rightarrow> 'a mem option" where
  "quicksort junk cmp m pbase total_elems =
    (if total_elems = 0 then Some m
     else do { m \<leftarrow> (if total_elems > max_thresh
                     then qs_loop cmp m pbase (pbase + (total_elems - 1)) [junk] else Some m);
               qs_insertion cmp m pbase total_elems })"

section \<open>Arrays as lists\<close>

definition swp :: "'a list \<Rightarrow> nat \<Rightarrow> nat \<Rightarrow> 'a list" where
  "swp xs i j = xs[i := xs ! j, j := xs ! i]"

definition seg :: "'a list \<Rightarrow> nat \<Rightarrow> nat \<Rightarrow> 'a set" where
  "seg xs l h = (\<lambda>i. xs ! i) ` {l..h}"

text \<open>\<open>ys\<close> permutes the segment from \<open>l\<close> to \<open>h\<close> of \<open>xs\<close>.\<close>

definition perm_seg :: "nat \<Rightarrow> nat \<Rightarrow> 'a list \<Rightarrow> 'a list \<Rightarrow> bool" where
  "perm_seg l h xs ys \<longleftrightarrow> mset ys = mset xs \<and> (\<forall>i<length xs. i < l \<or> h < i \<longrightarrow> ys ! i = xs ! i) \<and> seg ys l h = seg xs l h"

lemma perm_seg_refl [simp]: "perm_seg l h xs xs"
  by (simp add: perm_seg_def)

lemma perm_seg_length: "perm_seg l h xs ys \<Longrightarrow> length ys = length xs"
  by (auto simp: perm_seg_def dest: mset_eq_length)

lemma perm_seg_trans: "perm_seg l h xs ys \<Longrightarrow> perm_seg l h ys zs \<Longrightarrow> perm_seg l h xs zs"
  using perm_seg_length [of l h xs ys] by (auto simp: perm_seg_def)

lemma length_swp [simp]: "length (swp xs i j) = length xs"
  by (simp add: swp_def)

lemma swp_nth: "i < length xs \<Longrightarrow> j < length xs \<Longrightarrow>
    swp xs i j ! k = (if k = i then xs ! j else if k = j then xs ! i else xs ! k)"
  by (auto simp: swp_def nth_list_update)

lemma perm_seg_swp:
  assumes "l \<le> i" "i \<le> h" "l \<le> j" "j \<le> h" "h < length xs"
  shows "perm_seg l h xs (swp xs i j)"
proof -
  have ij: "i < length xs" "j < length xs" using assms by auto
  have "seg (swp xs i j) l h = seg xs l h"
  proof (intro set_eqI iffI)
    fix x assume "x \<in> seg (swp xs i j) l h"
    then show "x \<in> seg xs l h" using assms by (auto simp: seg_def swp_nth [OF ij] split: if_splits)
  next
    fix x assume "x \<in> seg xs l h"
    then obtain k where k: "k \<in> {l..h}" "x = xs ! k" by (auto simp: seg_def)
    have "x = swp xs i j ! (if k = i then j else if k = j then i else k)" using k by (simp add: swp_nth [OF ij])
    moreover have "(if k = i then j else if k = j then i else k) \<in> {l..h}" using k assms by auto
    ultimately show "x \<in> seg (swp xs i j) l h" unfolding seg_def by blast
  qed
  moreover have "mset (swp xs i j) = mset xs" using ij by (simp add: swp_def mset_swap)
  moreover have "swp xs i j ! k = xs ! k" if "k < l \<or> h < k" for k using that assms by (auto simp: swp_nth [OF ij])
  ultimately show ?thesis by (simp add: perm_seg_def)
qed

lemma arr_ld: "block m b xs \<Longrightarrow> i < length xs \<Longrightarrow> ld m (b + i) = Some (xs ! i)"
  by (simp add: block_nth ld_def)

lemma arr_st:
  assumes "i < length xs"
  shows "st (wr m b xs) (b + i) v = Some (wr m b (xs[i := v]))"
proof -
  have "wr m b xs (b + i) \<noteq> None" using assms by (simp add: wr_apply_in)
  moreover have "(wr m b xs)(b + i \<mapsto> v) = wr m b (xs[i := v])"
    using assms by (intro ext) (auto simp: wr_def)
  ultimately show ?thesis by simp
qed

lemma qs_swap_spec:
  assumes "i < length xs" "j < length xs"
  shows "qs_swap (wr m b xs) (b + i) (b + j) = Some (wr m b (swp xs i j))"
  using assms arr_ld [OF block_wr_same [of m b xs]]
  by (simp add: qs_swap_def arr_st swp_def)

context comparator
begin

lemma less_iff: "cmp x y < 0 \<longleftrightarrow> \<not> cmp y x \<le> 0"
  unfolding cmp_sym [of x y] by auto

lemma scan_up_spec:
  assumes "block m b xs" "i \<le> k" "k < length xs" "cmp p (xs ! k) \<le> 0"
  shows "\<exists>j. scan_up cmp m p (b + i) = Some (b + j) \<and> i \<le> j \<and> j \<le> k \<and> cmp p (xs ! j) \<le> 0 \<and>
    (\<forall>t. i \<le> t \<and> t < j \<longrightarrow> cmp (xs ! t) p \<le> 0)"
  using assms(2)
proof (induction "k - i" arbitrary: i rule: less_induct)
  case less
  have l: "ld m (b + i) = Some (xs ! i)" using arr_ld [OF assms(1)] less.prems assms(3) by simp
  show ?case
  proof (cases "cmp (xs ! i) p < 0")
    case True
    then have "i \<noteq> k" using assms(4) less_iff by metis
    then have "k - Suc i < k - i" "Suc i \<le> k" using less.prems by auto
    from less.hyps [OF this] obtain j where j: "scan_up cmp m p (b + Suc i) = Some (b + j)" "Suc i \<le> j" "j \<le> k"
      "cmp p (xs ! j) \<le> 0" "\<forall>t. Suc i \<le> t \<and> t < j \<longrightarrow> cmp (xs ! t) p \<le> 0" by blast
    have "cmp (xs ! t) p \<le> 0" if "i \<le> t" "t < j" for t
      using j(5) that True by (cases "t = i") auto
    then show ?thesis using True l j
      by (intro exI [of _ j]) (subst scan_up.simps, simp)
  next
    case False
    then have "scan_up cmp m p (b + i) = Some (b + i)" using l by (subst scan_up.simps) simp
    moreover have "cmp p (xs ! i) \<le> 0" using False less_iff by blast
    ultimately show ?thesis using less.prems by (intro exI [of _ i]) simp
  qed
qed

lemma scan_down_spec:
  assumes "block m b xs" "k \<le> i" "i < length xs" "cmp (xs ! k) p \<le> 0"
  shows "\<exists>j. scan_down cmp m p (b + i) = Some (b + j) \<and> k \<le> j \<and> j \<le> i \<and> cmp (xs ! j) p \<le> 0 \<and>
    (\<forall>t. j < t \<and> t \<le> i \<longrightarrow> cmp p (xs ! t) \<le> 0)"
  using assms(2,3)
proof (induction i)
  case 0
  then have "scan_down cmp m p (b + 0) = Some (b + 0)"
    using arr_ld [OF assms(1), of 0] assms(4) less_iff by (subst scan_down.simps) simp
  then show ?case using 0 assms(4) by (intro exI [of _ 0]) simp
next
  case (Suc i)
  have l: "ld m (b + Suc i) = Some (xs ! Suc i)" using arr_ld [OF assms(1)] Suc.prems by blast
  show ?case
  proof (cases "cmp p (xs ! Suc i) < 0")
    case True
    then have "k \<noteq> Suc i" using assms(4) less_iff by metis
    then obtain j where j: "scan_down cmp m p (b + i) = Some (b + j)" "k \<le> j" "j \<le> i"
      "cmp (xs ! j) p \<le> 0" "\<forall>t. j < t \<and> t \<le> i \<longrightarrow> cmp p (xs ! t) \<le> 0" using Suc.IH Suc.prems by auto
    have "cmp p (xs ! t) \<le> 0" if "j < t" "t \<le> Suc i" for t
      using j(5) that True by (cases "t = Suc i") auto
    then show ?thesis using True l j
      by (intro exI [of _ j]) (subst scan_down.simps, simp)
  next
    case False
    then have "scan_down cmp m p (b + Suc i) = Some (b + Suc i)" using l by (subst scan_down.simps) simp
    moreover have "cmp (xs ! Suc i) p \<le> 0" using False less_iff by blast
    ultimately show ?thesis using Suc.prems by (intro exI [of _ "Suc i"]) simp
  qed
qed

lemma collapse_step:
  assumes "scan_up cmp m p L = Some i" "scan_down cmp m p R = Some j" "i < j" "qs_swap m i j = Some m'"
  shows "collapse cmp m p L R = (if i + 1 \<le> j - 1 then collapse cmp m' p (i + 1) (j - 1) else Some (m', i + 1, j - 1))"
  by (subst collapse.simps) (simp only: assms bind.bind_lunit if_True)

lemma collapse_spec:
  assumes "l < L" "L \<le> R + 1" "R < h" "h < length xs"
    and "\<And>i. l \<le> i \<Longrightarrow> i < L \<Longrightarrow> cmp (xs ! i) p \<le> 0" "\<And>i. R < i \<Longrightarrow> i \<le> h \<Longrightarrow> cmp p (xs ! i) \<le> 0"
  shows "\<exists>ys L' R'. collapse cmp (wr m b xs) p (b + L) (b + R) = Some (wr m b ys, b + L', b + R') \<and> perm_seg l h xs ys \<and>
    l \<le> R' \<and> R' < L' \<and> L' \<le> h \<and> (\<forall>i. l \<le> i \<and> i \<le> R' \<longrightarrow> cmp (ys ! i) p \<le> 0) \<and> (\<forall>i. R' < i \<and> i \<le> h \<longrightarrow> cmp p (ys ! i) \<le> 0)"
  using assms
proof (induction "R + 1 - L" arbitrary: L R xs rule: less_induct)
  case less
  note a = less.prems
  have bx: "block (wr m b xs) b xs" by simp
  obtain i where i: "scan_up cmp (wr m b xs) p (b + L) = Some (b + i)" "L \<le> i" "i \<le> R + 1" "cmp p (xs ! i) \<le> 0"
    "\<forall>t. L \<le> t \<and> t < i \<longrightarrow> cmp (xs ! t) p \<le> 0"
    using scan_up_spec [OF bx a(2), of p] a(3,4) a(6) [of "R + 1"] by auto
  obtain j where j: "scan_down cmp (wr m b xs) p (b + R) = Some (b + j)" "L - 1 \<le> j" "j \<le> R" "cmp (xs ! j) p \<le> 0"
    "\<forall>t. j < t \<and> t \<le> R \<longrightarrow> cmp p (xs ! t) \<le> 0"
  proof -
    have "L - 1 \<le> R" "R < length xs" "cmp (xs ! (L - 1)) p \<le> 0" using a(1-4) a(5) [of "L - 1"] by auto
    from scan_down_spec [OF bx this] show ?thesis using that by blast
  qed
  have lo: "cmp (xs ! t) p \<le> 0" if "l \<le> t" "t < i" for t
    using a(5) [of t] i(5) that by (cases "t < L") auto
  have hi: "cmp p (xs ! t) \<le> 0" if "j < t" "t \<le> h" for t
    using a(6) [of t] j(5) that by (cases "t \<le> R") auto
  consider "i < j" | "i = j" | "j < i" by linarith
  then show ?case
  proof cases
    case 1
    define ys where "ys = swp xs i j"
    have ij: "i < length xs" "j < length xs" using 1 j(3) a(3,4) by auto
    have ps: "perm_seg l h xs ys" unfolding ys_def using 1 i(2) j(3) a(1,3,4) by (intro perm_seg_swp) auto
    have sw: "qs_swap (wr m b xs) (b + i) (b + j) = Some (wr m b ys)" unfolding ys_def by (rule qs_swap_spec [OF ij])
    have "b + i < b + j" using 1 by simp
    note step = collapse_step [OF i(1) j(1) this sw]
    have j1: "b + j - 1 = b + (j - 1)" "b + i + 1 = b + (i + 1)" using 1 by auto
    have lo': "cmp (ys ! t) p \<le> 0" if "l \<le> t" "t < i + 1" for t
      using lo [of t] j(4) that 1 by (cases "t = i") (auto simp: ys_def swp_nth [OF ij])
    have hi': "cmp p (ys ! t) \<le> 0" if "j - 1 < t" "t \<le> h" for t
      using hi [of t] i(4) that 1 by (cases "t = j") (auto simp: ys_def swp_nth [OF ij])
    show ?thesis
    proof (cases "i + 1 \<le> j - 1")
      case True
      have eq: "collapse cmp (wr m b xs) p (b + L) (b + R) = collapse cmp (wr m b ys) p (b + (i + 1)) (b + (j - 1))"
        unfolding step j1 by (simp only: add_le_cancel_left True if_True)
      have "\<exists>zs L' R'. collapse cmp (wr m b ys) p (b + (i + 1)) (b + (j - 1)) = Some (wr m b zs, b + L', b + R') \<and> perm_seg l h ys zs \<and>
          l \<le> R' \<and> R' < L' \<and> L' \<le> h \<and> (\<forall>i. l \<le> i \<and> i \<le> R' \<longrightarrow> cmp (zs ! i) p \<le> 0) \<and> (\<forall>i. R' < i \<and> i \<le> h \<longrightarrow> cmp p (zs ! i) \<le> 0)"
        using lo' hi' 1 True i(2) j(3) a(1-4) by (intro less.hyps) (auto simp: ys_def)
      then show ?thesis unfolding eq using perm_seg_trans [OF ps] by blast
    next
      case False
      have eq: "collapse cmp (wr m b xs) p (b + L) (b + R) = Some (wr m b ys, b + (i + 1), b + (j - 1))"
        unfolding step j1 by (simp only: add_le_cancel_left False if_False)
      show ?thesis
        by (rule exI [of _ ys], rule exI [of _ "i + 1"], rule exI [of _ "j - 1"])
          (use eq ps False 1 i(2) j(3) a(1,3) lo' hi' in auto)
    qed
  next
    case 2
    have eq: "collapse cmp (wr m b xs) p (b + L) (b + R) = Some (wr m b xs, b + (j + 1), b + (j - 1))"
      using 2 i(1,2) j(1) a(1) by (subst collapse.simps) simp
    have jl: "l < j" using 2 i(2) a(1) by simp
    have hi2: "cmp p (xs ! t) \<le> 0" if "j - 1 < t" "t \<le> h" for t
      using hi [of t] i(4) 2 that by (cases "t = j") auto
    show ?thesis
      by (rule exI [of _ xs], rule exI [of _ "j + 1"], rule exI [of _ "j - 1"])
        (use eq jl 2 j(3) a(3) lo hi2 in auto)
  next
    case 3
    have eq: "collapse cmp (wr m b xs) p (b + L) (b + R) = Some (wr m b xs, b + i, b + j)"
      using 3 i(1) j(1) by (subst collapse.simps) simp
    show ?thesis
      by (rule exI [of _ xs], rule exI [of _ i], rule exI [of _ j])
        (use eq 3 i(3) j(2) a(1,3) lo hi in auto)
  qed
qed

lemma qs_swap_if:
  assumes "i < length xs" "j < length xs" "l \<le> i" "i \<le> h" "l \<le> j" "j \<le> h" "h < length xs"
  shows "\<exists>ys. (if cmp (xs ! i) (xs ! j) < 0 then qs_swap (wr m b xs) (b + i) (b + j) else Some (wr m b xs)) = Some (wr m b ys) \<and>
    perm_seg l h xs ys \<and> (ys = xs \<and> cmp (xs ! j) (xs ! i) \<le> 0 \<or> ys = swp xs i j \<and> cmp (xs ! i) (xs ! j) \<le> 0)"
proof (cases "cmp (xs ! i) (xs ! j) < 0")
  case True
  then show ?thesis using qs_swap_spec [OF assms(1,2)] perm_seg_swp [OF assms(3-7)]
    by (intro exI [of _ "swp xs i j"]) simp
next
  case False
  then have "cmp (xs ! j) (xs ! i) \<le> 0" using less_iff by blast
  then show ?thesis using False by (intro exI [of _ xs]) simp
qed

lemma qs_median_spec:
  assumes "l < k" "k < h" "h < length xs"
  shows "\<exists>ys. qs_median cmp (wr m b xs) (b + l) (b + k) (b + h) = Some (wr m b ys) \<and> perm_seg l h xs ys \<and>
    cmp (ys ! l) (ys ! k) \<le> 0 \<and> cmp (ys ! k) (ys ! h) \<le> 0"
proof -
  have n: "l < length xs" "k < length xs" "h < length xs" using assms by auto
  have ldb: "ld (wr m b zs) (b + i) = Some (zs ! i)" if "i < length zs" for zs :: "'a list" and i
    using that by (rule arr_ld [OF block_wr_same])
  obtain ys where y: "(if cmp (xs ! k) (xs ! l) < 0 then qs_swap (wr m b xs) (b + k) (b + l) else Some (wr m b xs)) = Some (wr m b ys)"
    "perm_seg l h xs ys" "ys = xs \<and> cmp (xs ! l) (xs ! k) \<le> 0 \<or> ys = swp xs k l \<and> cmp (xs ! k) (xs ! l) \<le> 0"
    using qs_swap_if [OF n(2,1), of l h m b] assms by auto
  have ly: "length ys = length xs" using perm_seg_length [OF y(2)] .
  have o1: "cmp (ys ! l) (ys ! k) \<le> 0" using y(3) n assms by (auto simp: swp_nth)
  show ?thesis
  proof (cases "cmp (ys ! h) (ys ! k) < 0")
    case False
    then have "cmp (ys ! k) (ys ! h) \<le> 0" using less_iff by blast
    then show ?thesis using False y(1,2) o1 n ly
      by (intro exI [of _ ys]) (simp add: qs_median_def ldb)
  next
    case True
    define zs where "zs = swp ys k h"
    have z: "qs_swap (wr m b ys) (b + k) (b + h) = Some (wr m b zs)" "perm_seg l h ys zs"
      unfolding zs_def using qs_swap_spec [of k ys h m b] perm_seg_swp [of l k h h ys] n ly assms by auto
    have lz: "length zs = length xs" by (simp add: zs_def ly)
    have zn: "zs ! k = ys ! h" "zs ! h = ys ! k" "zs ! l = ys ! l" using n ly assms by (auto simp: zs_def swp_nth)
    obtain ws where w: "(if cmp (zs ! k) (zs ! l) < 0 then qs_swap (wr m b zs) (b + k) (b + l) else Some (wr m b zs)) = Some (wr m b ws)"
      "perm_seg l h zs ws" "ws = zs \<and> cmp (zs ! l) (zs ! k) \<le> 0 \<or> ws = swp zs k l \<and> cmp (zs ! k) (zs ! l) \<le> 0"
      using qs_swap_if [of k zs l l h m b] n lz assms by auto
    have o2: "cmp (ws ! l) (ws ! k) \<le> 0 \<and> cmp (ws ! k) (ws ! h) \<le> 0"
      using w(3)
    proof
      assume e: "ws = zs \<and> cmp (zs ! l) (zs ! k) \<le> 0"
      then show ?thesis using True by (simp add: zn)
    next
      assume e: "ws = swp zs k l \<and> cmp (zs ! k) (zs ! l) \<le> 0"
      then have wn: "ws ! l = zs ! k" "ws ! k = zs ! l" "ws ! h = zs ! h" using n lz assms by (auto simp: swp_nth)
      show ?thesis unfolding wn using e o1 by (simp add: zn)
    qed
    have "qs_median cmp (wr m b xs) (b + l) (b + k) (b + h) = Some (wr m b ws)"
      using True y(1) z(1) w(1) n ly lz by (simp add: qs_median_def ldb)
    then show ?thesis using o2 perm_seg_trans [OF perm_seg_trans [OF y(2) z(2)] w(2)] by blast
  qed
qed

lemma qs_partition_spec:
  assumes "l + 2 \<le> h" "h < length xs"
  shows "\<exists>ys L R p. qs_partition cmp (wr m b xs) (b + l) (b + h) = Some (wr m b ys, b + L, b + R) \<and> perm_seg l h xs ys \<and>
    l \<le> R \<and> R < L \<and> L \<le> h \<and> (\<forall>i. l \<le> i \<and> i \<le> R \<longrightarrow> cmp (ys ! i) p \<le> 0) \<and> (\<forall>i. R < i \<and> i \<le> h \<longrightarrow> cmp p (ys ! i) \<le> 0)"
proof -
  define k where "k = l + (h - l) div 2"
  have k: "l < k" "k < h" using assms(1) by (auto simp: k_def)
  obtain ys where y: "qs_median cmp (wr m b xs) (b + l) (b + k) (b + h) = Some (wr m b ys)" "perm_seg l h xs ys"
    "cmp (ys ! l) (ys ! k) \<le> 0" "cmp (ys ! k) (ys ! h) \<le> 0"
    using qs_median_spec [OF k assms(2)] by blast
  have ly: "length ys = length xs" using perm_seg_length [OF y(2)] .
  have "cmp (ys ! i) (ys ! k) \<le> 0" if "l \<le> i" "i < l + 1" for i
  proof -
    have "i = l" using that by simp
    then show ?thesis using y(3) by simp
  qed
  moreover have "cmp (ys ! k) (ys ! i) \<le> 0" if "h - 1 < i" "i \<le> h" for i
  proof -
    have "i = h" using that by simp
    then show ?thesis using y(4) by simp
  qed
  ultimately obtain zs L R where z: "collapse cmp (wr m b ys) (ys ! k) (b + (l + 1)) (b + (h - 1)) = Some (wr m b zs, b + L, b + R)"
    "perm_seg l h ys zs" "l \<le> R" "R < L" "L \<le> h"
    "\<forall>i. l \<le> i \<and> i \<le> R \<longrightarrow> cmp (zs ! i) (ys ! k) \<le> 0" "\<forall>i. R < i \<and> i \<le> h \<longrightarrow> cmp (ys ! k) (zs ! i) \<le> 0"
    using collapse_spec [of l "l + 1" "h - 1" h ys "ys ! k" m b] assms ly by auto
  have "ld (wr m b ys) (b + k) = Some (ys ! k)" using k assms(2) ly by (intro arr_ld [OF block_wr_same]) simp
  moreover have "b + l + (b + h - (b + l)) div 2 = b + k" "b + h - 1 = b + (h - 1)" "b + l + 1 = b + (l + 1)"
    using assms(1) by (simp_all add: k_def)
  ultimately have "qs_partition cmp (wr m b xs) (b + l) (b + h) = Some (wr m b zs, b + L, b + R)"
    unfolding qs_partition_def Let_def by (simp only: y(1) z(1) bind.bind_lunit)
  then show ?thesis using z perm_seg_trans [OF y(2) z(2)] by blast
qed

end

section \<open>The segments still to be sorted\<close>

fun seg_sizes :: "(nat \<times> nat) list \<Rightarrow> nat" where
  "seg_sizes [] = 0"
| "seg_sizes ((l, h) # s) = (h - l) + seg_sizes s"

text \<open>A segment with \<open>d\<close> others below it on the stack has at most \<open>N / 2 ^ d\<close> elements.\<close>

fun depth_ok :: "nat \<Rightarrow> (nat \<times> nat) list \<Rightarrow> bool" where
  "depth_ok N [] \<longleftrightarrow> True"
| "depth_ok N ((l, h) # s) \<longleftrightarrow> (h - l) * 2 ^ length s \<le> N \<and> depth_ok N s"

definition segs_in :: "nat \<Rightarrow> (nat \<times> nat) list \<Rightarrow> bool" where
  "segs_in n s \<longleftrightarrow> (\<forall>(l, h)\<in>set s. l + 4 \<le> h \<and> h < n)"

text \<open>The part of the array up to \<open>H\<close> is the first segment, or short and in no segment.\<close>

definition first_seg :: "nat \<Rightarrow> (nat \<times> nat) list \<Rightarrow> bool" where
  "first_seg H s \<longleftrightarrow>
     (\<exists>M. mset s = add_mset (0, H) M \<and> (\<forall>(l, h)\<in>#M. H < l)) \<or> H \<le> max_thresh \<and> (\<forall>(l, h)\<in>set s. H < l)"

definition qs_stack :: "nat \<Rightarrow> nat \<times> nat \<Rightarrow> (nat \<times> nat) list \<Rightarrow> (nat \<times> nat) list" where
  "qs_stack b junk s = map (\<lambda>(l, h). (b + l, b + h)) s @ [junk]"

text \<open>The state of the loop that has the segments \<open>s\<close> to sort, the first of them at hand.\<close>

definition qs_state :: "nat \<Rightarrow> nat \<times> nat \<Rightarrow> (nat \<times> nat) list \<Rightarrow> nat \<times> nat \<times> (nat \<times> nat) list" where
  "qs_state b junk s =
     (case s of [] \<Rightarrow> (fst junk, snd junk, []) | (l, h) # s' \<Rightarrow> (b + l, b + h, qs_stack b junk s'))"

definition kept_ok :: "nat \<Rightarrow> nat \<Rightarrow> nat \<Rightarrow> nat \<Rightarrow> (nat \<times> nat) list \<Rightarrow> bool" where
  "kept_ok l h L R kept \<longleftrightarrow>
     kept = [] \<and> R - l \<le> 4 \<or> kept = [(L, h)] \<and> R - l \<le> 4 \<and> 4 < h - L \<or> kept = [(l, R)] \<and> 4 < R - l \<or>
     kept = [(L, h), (l, R)] \<and> 4 < R - l \<and> 4 < h - L \<and> h - L < R - l \<or>
     kept = [(l, R), (L, h)] \<and> 4 < R - l \<and> 4 < h - L \<and> R - l \<le> h - L"

lemma qs_next_spec:
  assumes "l \<le> R" "R < L" "L \<le> h" "depth_ok N ((l, h) # s)" "N < 2 ^ 32"
  shows "\<exists>kept. qs_next (b + l) (b + h) (b + L) (b + R) (qs_stack b junk s) = Some (qs_state b junk (kept @ s)) \<and>
    kept_ok l h L R kept"
proof -
  have sm: "qs_small (b + l) (b + R) \<longleftrightarrow> R - l \<le> 4" "qs_small (b + L) (b + h) \<longleftrightarrow> h - L \<le> 4"
    using assms(1,3) by (simp_all add: qs_small_def max_thresh_def)
  have gt: "int (b + R) - int (b + l) > int (b + h) - int (b + L) \<longleftrightarrow> h - L < R - l" using assms(1-3) by auto
  consider "R - l \<le> 4" "h - L \<le> 4" | "R - l \<le> 4" "\<not> h - L \<le> 4" | "\<not> R - l \<le> 4" "h - L \<le> 4"
    | "\<not> R - l \<le> 4" "\<not> h - L \<le> 4" by blast
  then show ?thesis
  proof cases
    case 1
    then show ?thesis
      by (intro exI [of _ "[]"]) (cases s, auto simp: qs_next_def sm qs_stack_def qs_state_def kept_ok_def split: prod.splits)
  next
    case 2
    then show ?thesis
      by (intro exI [of _ "[(L, h)]"]) (auto simp: qs_next_def sm qs_state_def kept_ok_def)
  next
    case 3
    then show ?thesis
      by (intro exI [of _ "[(l, R)]"]) (auto simp: qs_next_def sm qs_state_def kept_ok_def)
  next
    case 4
    have "8 * 2 ^ length s \<le> (h - l) * 2 ^ length s" using 4 assms(1-3) by (intro mult_le_mono1) simp
    also have "\<dots> < 2 ^ 32" using assms(4,5) by simp
    finally have "2 ^ (length s + 3) < (2 :: nat) ^ 32" by (simp add: power_add mult.commute)
    then have "length s + 3 < 32" by (simp only: power_strict_increasing_iff)
    then have push: "qs_push x y (qs_stack b junk s) = Some ((x, y) # qs_stack b junk s)" for x y
      by (simp add: qs_push_def qs_stack_def stack_size_def)
    show ?thesis
    proof (cases "h - L < R - l")
      case True
      then show ?thesis using 4
        by (intro exI [of _ "[(L, h), (l, R)]"]) (simp add: qs_next_def sm gt push, simp add: qs_state_def qs_stack_def kept_ok_def)
    next
      case False
      then show ?thesis using 4
        by (intro exI [of _ "[(l, R), (L, h)]"]) (simp add: qs_next_def sm gt push, simp add: qs_state_def qs_stack_def kept_ok_def)
    qed
  qed
qed

lemma kept_ok_sizes:
  assumes "kept_ok l h L R kept" "l \<le> R" "R < L" "L \<le> h" "l + 4 \<le> h"
  shows "seg_sizes (kept @ s) < seg_sizes ((l, h) # s)"
  using assms by (auto simp: kept_ok_def)

lemma kept_ok_segs_in:
  assumes "kept_ok l h L R kept" "R < L" "L \<le> h" "segs_in n ((l, h) # s)"
  shows "segs_in n (kept @ s)"
  using assms by (auto simp: kept_ok_def segs_in_def)

lemma depth_half:
  assumes "2 * x \<le> (y :: nat)" "y * 2 ^ k \<le> N"
  shows "x * (2 * 2 ^ k) \<le> N"
proof -
  have "x * (2 * 2 ^ k) = (2 * x) * 2 ^ k" by simp
  also have "\<dots> \<le> y * 2 ^ k" using assms(1) by (rule mult_le_mono1)
  finally show ?thesis using assms(2) by linarith
qed

lemma kept_ok_depth:
  assumes "kept_ok l h L R kept" "l \<le> R" "R < L" "L \<le> h" "depth_ok N ((l, h) # s)"
  shows "depth_ok N (kept @ s)"
proof -
  have d: "(h - l) * 2 ^ length s \<le> N" "depth_ok N s" using assms(5) by simp_all
  have le: "x * 2 ^ length s \<le> N" if "x \<le> h - l" for x
    using mult_le_mono1 [OF that, of "2 ^ length s"] d(1) by linarith
  have half: "x * (2 * 2 ^ length s) \<le> N" if "2 * x \<le> h - l" for x
    using depth_half [OF that d(1)] .
  have "h - L \<le> h - l" "R - l \<le> h - l" using assms(2-4) by auto
  note le1 = le [OF this(1)] le [OF this(2)]
  from assms(1) consider "kept = []" | "kept = [(L, h)]" | "kept = [(l, R)]"
    | "kept = [(L, h), (l, R)]" "h - L < R - l" | "kept = [(l, R), (L, h)]" "R - l \<le> h - L"
    unfolding kept_ok_def by blast
  then show ?thesis
  proof cases
    case 4
    then have "2 * (h - L) \<le> h - l" using assms(2-4) by auto
    from half [OF this] show ?thesis using 4 le1 d(2) by simp
  next
    case 5
    then have "2 * (R - l) \<le> h - l" using assms(2-4) by auto
    from half [OF this] show ?thesis using 5 le1 d(2) by simp
  qed (use le1 d(2) in simp_all)
qed

lemma kept_ok_first:
  assumes "kept_ok l h L R kept" "l \<le> R" "R < L" "L \<le> h" "first_seg H ((l, h) # s)"
  shows "l = 0 \<and> H = h \<and> first_seg R (kept @ s) \<or> H < l \<and> first_seg H (kept @ s)"
proof -
  have ks: "\<forall>(a, c)\<in>set kept. l \<le> a" using assms(1-4) by (auto simp: kept_ok_def)
  from assms(5) consider M where "add_mset (l, h) (mset s) = add_mset (0, H) M" "\<forall>(a, c)\<in>#M. H < a"
    | "H \<le> max_thresh" "\<forall>(a, c)\<in>set ((l, h) # s). H < a" unfolding first_seg_def by auto
  then show ?thesis
  proof cases
    case 2
    then show ?thesis using ks by (fastforce simp: first_seg_def)
  next
    case 1
    show ?thesis
    proof (cases "(l, h) = (0, H)")
      case True
      then have M: "mset s = M" using 1(1) by simp
      then have sH: "\<forall>(a, c)\<in>set s. R < a" using 1(2) assms(3,4) True by fastforce
      have "first_seg R (kept @ s)"
      proof (cases "(l, R) \<in> set kept")
        case lR: True
        then have "mset (kept @ s) = add_mset (0, R) (mset (if kept = [(l, R)] then s else (L, h) # s))"
          using assms(1) True assms(3,4) by (auto simp: kept_ok_def)
        moreover have "\<forall>(a, c)\<in>#mset (if kept = [(l, R)] then s else (L, h) # s). R < a" using sH assms(3) by auto
        ultimately show ?thesis unfolding first_seg_def by blast
      next
        case False
        then have "R \<le> max_thresh" "\<forall>(a, c)\<in>set (kept @ s). R < a"
          using assms(1,3) sH True by (auto simp: kept_ok_def max_thresh_def)
        then show ?thesis unfolding first_seg_def by blast
      qed
      then show ?thesis using True by simp
    next
      case False
      then obtain M' where M': "M = add_mset (l, h) M'" "mset s = add_mset (0, H) M'"
        using 1(1) by (auto simp: add_eq_conv_ex)
      then have "H < l" "\<forall>(a, c)\<in>#M'. H < a" using 1(2) by auto
      moreover have "mset (kept @ s) = add_mset (0, H) (mset kept + M')" using M'(2) by simp
      moreover have "\<forall>(a, c)\<in>#mset kept + M'. H < a" using ks \<open>H < l\<close> \<open>\<forall>(a, c)\<in>#M'. H < a\<close> by fastforce
      ultimately show ?thesis unfolding first_seg_def by blast
    qed
  qed
qed

context comparator
begin

definition has_min :: "'a list \<Rightarrow> nat \<Rightarrow> bool" where
  "has_min xs H \<longleftrightarrow> (\<exists>i\<le>H. i < length xs \<and> (\<forall>x\<in>set xs. cmp (xs ! i) x \<le> 0))"

lemma has_min_other:
  assumes "perm_seg l h xs ys" "has_min xs H" "H < l"
  shows "has_min ys H"
proof -
  obtain i where i: "i \<le> H" "i < length xs" "\<forall>x\<in>set xs. cmp (xs ! i) x \<le> 0" using assms(2) by (auto simp: has_min_def)
  have "ys ! i = xs ! i" "set ys = set xs" "length ys = length xs"
    using assms(1,3) i perm_seg_length [OF assms(1)] mset_eq_setD [of ys xs] by (auto simp: perm_seg_def)
  then show ?thesis using i by (auto simp: has_min_def)
qed

lemma has_min_partition:
  assumes "perm_seg 0 h xs ys" "has_min xs h" "h < length xs" "R < h"
    and "\<forall>i\<le>R. cmp (ys ! i) p \<le> 0" "\<forall>i. R < i \<and> i \<le> h \<longrightarrow> cmp p (ys ! i) \<le> 0"
  shows "has_min ys R"
proof -
  obtain i where i: "i \<le> h" "\<forall>x\<in>set xs. cmp (xs ! i) x \<le> 0" using assms(2) by (auto simp: has_min_def)
  have sy: "set ys = set xs" "length ys = length xs" "seg ys 0 h = seg xs 0 h"
    using assms(1) perm_seg_length [OF assms(1)] mset_eq_setD [of ys xs] by (auto simp: perm_seg_def)
  have "xs ! i \<in> seg ys 0 h" unfolding sy(3) using i(1) by (auto simp: seg_def)
  then obtain k where k: "k \<le> h" "ys ! k = xs ! i" by (auto simp: seg_def)
  show ?thesis
  proof (cases "k \<le> R")
    case True
    then show ?thesis using k i(2) sy assms(3,4) by (auto simp: has_min_def)
  next
    case False
    have "cmp (ys ! 0) p \<le> 0" using assms(5) by blast
    moreover have "cmp p (ys ! k) \<le> 0" using assms(6) k(1) False by simp
    ultimately have "cmp (ys ! 0) (xs ! i) \<le> 0" unfolding k(2) by (rule cmp_trans)
    then have "cmp (ys ! 0) x \<le> 0" if "x \<in> set ys" for x
      using i(2) that sy(1) cmp_trans by blast
    moreover have "0 < length ys" using sy(2) assms(3) by auto
    ultimately show ?thesis unfolding has_min_def by blast
  qed
qed

lemma qs_loop_spec:
  assumes "segs_in (length xs) s" "depth_ok N s" "N < 2 ^ 32" "first_seg H s" "has_min xs H"
  shows "\<exists>ys. (case qs_state b junk s of (lo, hi, stk) \<Rightarrow> qs_loop cmp (wr m b xs) lo hi stk) = Some (wr m b ys) \<and>
    mset ys = mset xs \<and> has_min ys max_thresh"
  using assms(1,2,4,5)
proof (induction "seg_sizes s" arbitrary: s xs H rule: less_induct)
  case less
  show ?case
  proof (cases s)
    case Nil
    then have "H \<le> max_thresh" using less.prems(3) by (simp add: first_seg_def)
    then have "has_min xs max_thresh" using less.prems(4) unfolding has_min_def by (meson le_trans)
    then show ?thesis using Nil
      by (intro exI [of _ xs]) (simp add: qs_state_def qs_loop.simps)
  next
    case (Cons c s')
    obtain l h where c: "c = (l, h)" by fastforce
    have lh: "l + 4 \<le> h" "h < length xs" using less.prems(1) Cons c by (auto simp: segs_in_def)
    obtain ys L R p where y: "qs_partition cmp (wr m b xs) (b + l) (b + h) = Some (wr m b ys, b + L, b + R)"
      "perm_seg l h xs ys" "l \<le> R" "R < L" "L \<le> h"
      "\<forall>i. l \<le> i \<and> i \<le> R \<longrightarrow> cmp (ys ! i) p \<le> 0" "\<forall>i. R < i \<and> i \<le> h \<longrightarrow> cmp p (ys ! i) \<le> 0"
      using qs_partition_spec [of l h xs m b] lh by auto
    have s': "segs_in (length xs) ((l, h) # s')" "depth_ok N ((l, h) # s')" "first_seg H ((l, h) # s')"
      using less.prems Cons c by simp_all
    obtain kept where k: "qs_next (b + l) (b + h) (b + L) (b + R) (qs_stack b junk s') = Some (qs_state b junk (kept @ s'))"
      "kept_ok l h L R kept"
      using qs_next_spec [OF y(3-5) s'(2) assms(3)] by blast
    have ly: "length ys = length xs" "mset ys = mset xs" using perm_seg_length [OF y(2)] y(2) by (auto simp: perm_seg_def)
    have sz: "seg_sizes (kept @ s') < seg_sizes s" unfolding Cons c by (rule kept_ok_sizes [OF k(2) y(3-5) lh(1)])
    have si: "segs_in (length ys) (kept @ s')" unfolding ly by (rule kept_ok_segs_in [OF k(2) y(4,5) s'(1)])
    have dp: "depth_ok N (kept @ s')" by (rule kept_ok_depth [OF k(2) y(3-5) s'(2)])
    have "\<exists>H'. first_seg H' (kept @ s') \<and> has_min ys H'"
      using kept_ok_first [OF k(2) y(3-5) s'(3)]
    proof
      assume a: "l = 0 \<and> H = h \<and> first_seg R (kept @ s')"
      then have "perm_seg 0 h xs ys" "has_min xs h" "R < h" "\<forall>i\<le>R. cmp (ys ! i) p \<le> 0"
        using y less.prems(4) by auto
      from has_min_partition [OF this(1,2) lh(2) this(3,4) y(7)] show ?thesis using a by blast
    next
      assume "H < l \<and> first_seg H (kept @ s')"
      then show ?thesis using has_min_other [OF y(2) less.prems(4)] by blast
    qed
    then obtain H' where H': "first_seg H' (kept @ s')" "has_min ys H'" by blast
    obtain zs where z: "(case qs_state b junk (kept @ s') of (lo, hi, stk) \<Rightarrow> qs_loop cmp (wr m b ys) lo hi stk) = Some (wr m b zs)"
      "mset zs = mset ys" "has_min zs max_thresh"
      using less.hyps [OF sz si dp H'] by blast
    have "qs_loop cmp (wr m b xs) (b + l) (b + h) (qs_stack b junk s') =
        (case qs_state b junk (kept @ s') of (lo, hi, stk) \<Rightarrow> qs_loop cmp (wr m b ys) lo hi stk)"
    proof -
      have ne: "qs_stack b junk s' \<noteq> []" by (simp add: qs_stack_def)
      show ?thesis
        by (subst qs_loop.simps) (simp only: ne if_False y(1) bind.bind_lunit prod.case k(1))
    qed
    then show ?thesis using z ly(2) unfolding Cons c
      by (intro exI [of _ zs]) (simp add: qs_state_def)
  qed
qed

lemma qs_min_spec:
  assumes "t < i" "i + k \<le> length xs" "\<forall>x<i. cmp (xs ! t) (xs ! x) \<le> 0"
  shows "\<exists>j<i + k. qs_min cmp (wr m b xs) (b + t) (b + i) k = Some (b + j) \<and> (\<forall>x<i + k. cmp (xs ! j) (xs ! x) \<le> 0)"
  using assms
proof (induction k arbitrary: t i)
  case 0
  then show ?case by (intro exI [of _ t]) simp
next
  case (Suc k)
  have l: "ld (wr m b xs) (b + i) = Some (xs ! i)" "ld (wr m b xs) (b + t) = Some (xs ! t)"
    using Suc.prems by (auto intro!: arr_ld [OF block_wr_same])
  define t' where "t' = (if cmp (xs ! i) (xs ! t) < 0 then i else t)"
  have "cmp (xs ! t') (xs ! x) \<le> 0" if "x < Suc i" for x
  proof (cases "cmp (xs ! i) (xs ! t) < 0")
    case True
    then have "cmp (xs ! i) (xs ! t) \<le> 0" by simp
    then have "cmp (xs ! i) (xs ! x) \<le> 0"
      using that Suc.prems(3) cmp_trans cmp_refl by (cases "x = i") (simp, metis less_SucE)
    then show ?thesis using True by (simp add: t'_def)
  next
    case False
    then have "cmp (xs ! t) (xs ! i) \<le> 0" using less_iff by blast
    then show ?thesis using that Suc.prems(3) False by (cases "x = i") (auto simp: t'_def)
  qed
  moreover have "t' < Suc i" "Suc i + k \<le> length xs" using Suc.prems by (auto simp: t'_def)
  ultimately obtain j where "j < Suc i + k" "qs_min cmp (wr m b xs) (b + t') (b + Suc i) k = Some (b + j)"
    "\<forall>x<Suc i + k. cmp (xs ! j) (xs ! x) \<le> 0" using Suc.IH by blast
  moreover have "qs_min cmp (wr m b xs) (b + t) (b + i) (Suc k) = qs_min cmp (wr m b xs) (b + t') (b + Suc i) k"
    using l by (simp add: t'_def)
  ultimately show ?case by (intro exI [of _ j]) simp
qed

lemma ins_scan_spec:
  assumes "r < length xs" "i < r" "cmp (xs ! 0) (xs ! r) \<le> 0"
  shows "\<exists>t\<le>i. ins_scan cmp (wr m b xs) (b + r) (b + i) = Some (b + t + 1) \<and> cmp (xs ! t) (xs ! r) \<le> 0 \<and>
    (\<forall>j. t < j \<and> j \<le> i \<longrightarrow> cmp (xs ! r) (xs ! j) \<le> 0)"
  using assms(2)
proof (induction i)
  case 0
  have "\<not> cmp (xs ! r) (xs ! 0) < 0" using assms(3) less_iff by blast
  moreover have "ld (wr m b xs) (b + r) = Some (xs ! r)" "ld (wr m b xs) (b + 0) = Some (xs ! 0)"
    using arr_ld [OF block_wr_same, of r xs m b] arr_ld [OF block_wr_same, of 0 xs m b] assms(1) by (simp, force)
  ultimately have "ins_scan cmp (wr m b xs) (b + r) (b + 0) = Some (b + 0 + 1)" by (subst ins_scan.simps) simp
  then show ?case using assms(3) by (intro exI [of _ 0]) simp
next
  case (Suc i)
  have l: "ld (wr m b xs) (b + r) = Some (xs ! r)" "ld (wr m b xs) (b + Suc i) = Some (xs ! Suc i)"
    using Suc.prems assms(1) by (auto intro!: arr_ld [OF block_wr_same] simp del: add_Suc_right)
  show ?case
  proof (cases "cmp (xs ! r) (xs ! Suc i) < 0")
    case True
    obtain t where t: "t \<le> i" "ins_scan cmp (wr m b xs) (b + r) (b + i) = Some (b + t + 1)" "cmp (xs ! t) (xs ! r) \<le> 0"
      "\<forall>j. t < j \<and> j \<le> i \<longrightarrow> cmp (xs ! r) (xs ! j) \<le> 0"
      using Suc.IH Suc.prems by auto
    have "cmp (xs ! r) (xs ! j) \<le> 0" if "t < j" "j \<le> Suc i" for j
      using t(4) True that by (cases "j = Suc i") auto
    moreover have "ins_scan cmp (wr m b xs) (b + r) (b + Suc i) = Some (b + t + 1)"
      using True l t(2) by (subst ins_scan.simps) simp
    ultimately show ?thesis using t(1,3) by (intro exI [of _ t]) simp
  next
    case False
    then have "cmp (xs ! Suc i) (xs ! r) \<le> 0" using less_iff by blast
    moreover have "ins_scan cmp (wr m b xs) (b + r) (b + Suc i) = Some (b + Suc i + 1)"
      using False l by (subst ins_scan.simps) simp
    ultimately show ?thesis by (intro exI [of _ "Suc i"]) simp
  qed
qed

lemma ins_shift_spec:
  assumes "t + k < length xs"
  shows "ins_shift (wr m b xs) (b + t) k c = Some (wr m b (take t xs @ [c] @ take k (drop t xs) @ drop (t + k + 1) xs))"
  using assms
proof (induction k arbitrary: xs)
  case 0
  then show ?case using arr_st [of t xs m b c] by (simp add: upd_conv_take_nth_drop)
next
  case (Suc k)
  define ys where "ys = xs[t + Suc k := xs ! (t + k)]"
  have "ld (wr m b xs) (b + t + k) = Some (xs ! (t + k))"
    using arr_ld [OF block_wr_same [of m b xs], of "t + k"] Suc.prems by (simp add: add.assoc)
  moreover have "st (wr m b xs) (b + t + Suc k) (xs ! (t + k)) = Some (wr m b ys)"
    using arr_st [of "t + Suc k" xs m b "xs ! (t + k)"] Suc.prems by (simp only: ys_def add.assoc)
  moreover have "ins_shift (wr m b ys) (b + t) k c = Some (wr m b (take t ys @ [c] @ take k (drop t ys) @ drop (t + k + 1) ys))"
    using Suc.prems by (intro Suc.IH) (simp add: ys_def)
  moreover have "take t ys @ [c] @ take k (drop t ys) @ drop (t + k + 1) ys
      = take t xs @ [c] @ take (Suc k) (drop t xs) @ drop (t + Suc k + 1) xs"
  proof -
    have a: "t + k < length xs" "t + Suc k < length xs" using Suc.prems by auto
    have "take t ys = take t xs" by (simp add: ys_def)
    moreover have "take k (drop t ys) = take k (drop t xs)" by (simp add: ys_def take_drop add.commute)
    moreover have "drop (t + k + 1) ys = xs ! (t + k) # drop (t + Suc k + 1) xs"
      using a by (simp add: ys_def upd_conv_take_nth_drop)
    moreover have "take (Suc k) (drop t xs) = take k (drop t xs) @ [xs ! (t + k)]"
      using a by (simp add: take_Suc_conv_app_nth)
    ultimately show ?thesis by simp
  qed
  ultimately show ?case by (simp del: add_Suc_right)
qed

lemma sorted_insert:
  assumes "sorted_wrt (\<lambda>x y. cmp x y \<le> 0) (A @ B)" "A \<noteq> []" "cmp (last A) x \<le> 0" "\<forall>y\<in>set B. cmp x y \<le> 0"
  shows "sorted_wrt (\<lambda>x y. cmp x y \<le> 0) (A @ x # B)"
proof -
  obtain A' a where A: "A = A' @ [a]" using assms(2) by (cases A rule: rev_cases) auto
  have "cmp z x \<le> 0" if "z \<in> set A'" for z
  proof -
    have "cmp z a \<le> 0" using assms(1) that A by (simp add: sorted_wrt_append)
    then show ?thesis using assms(3) A by (auto intro: cmp_trans)
  qed
  then show ?thesis using assms A by (auto simp: sorted_wrt_append)
qed

lemma take_length_append: "take (length xs) (xs @ ys) = xs"
  by simp

lemma ins_loop_spec:
  assumes "xs \<noteq> []" "\<forall>x\<in>set xs. cmp (xs ! 0) x \<le> 0" "sorted_wrt (\<lambda>x y. cmp x y \<le> 0) (take r xs)" "r + k = length xs" "0 < r"
  shows "\<exists>ys. ins_loop cmp (wr m b xs) (b + r) k = Some (wr m b ys) \<and> mset ys = mset xs \<and> sorted_wrt (\<lambda>x y. cmp x y \<le> 0) ys"
  using assms
proof (induction k arbitrary: r xs)
  case 0
  then show ?case by (intro exI [of _ xs]) simp
next
  case (Suc k)
  have r: "r < length xs" "r - 1 < r" using Suc.prems by auto
  have "xs ! r \<in> set xs" using r by simp
  then have "cmp (xs ! 0) (xs ! r) \<le> 0" using Suc.prems(2) by blast
  from ins_scan_spec [OF r this, of m b] obtain t where
    t: "t \<le> r - 1" "ins_scan cmp (wr m b xs) (b + r) (b + (r - 1)) = Some (b + t + 1)" "cmp (xs ! t) (xs ! r) \<le> 0"
    "\<forall>j. t < j \<and> j \<le> r - 1 \<longrightarrow> cmp (xs ! r) (xs ! j) \<le> 0" by blast
  define A B C where "A = take (t + 1) xs" and "B = drop (t + 1) (take r xs)" and "C = drop (r + 1) xs"
  have tr: "t < r" using t(1) Suc.prems(5) by simp
  have sp: "xs = A @ B @ xs ! r # C" "take r xs = A @ B" "length A = t + 1" "length (A @ B) = r"
  proof -
    show "take r xs = A @ B" unfolding A_def B_def using tr by (metis append_take_drop_id take_take Suc_eq_plus1 Suc_leI min.absorb1)
    then show "xs = A @ B @ xs ! r # C" using id_take_nth_drop [OF r(1)] by (simp add: C_def)
    show "length A = t + 1" using tr r by (simp add: A_def)
    show "length (A @ B) = r" using \<open>take r xs = A @ B\<close> r(1) by (metis length_take min.absorb4)
  qed
  define ys where "ys = A @ xs ! r # B @ C"
  have my: "mset ys = mset xs" by (subst sp(1)) (simp add: ys_def)
  have Ane: "A \<noteq> []" using sp(3) by auto
  have lA: "last A = xs ! t" using tr r Ane by (simp add: A_def last_conv_nth)
  have "cmp (xs ! r) y \<le> 0" if yB: "y \<in> set B" for y
  proof -
    obtain j where j: "j < length B" "y = B ! j" using yB by (auto simp: in_set_conv_nth)
    have "y = xs ! (t + 1 + j)" using j r tr by (simp add: B_def)
    moreover have "t + 1 + j \<le> r - 1" using j r tr by (auto simp: B_def)
    ultimately show ?thesis using t(4) by simp
  qed
  then have "sorted_wrt (\<lambda>x y. cmp x y \<le> 0) (A @ xs ! r # B)"
    using Suc.prems(3) t(3) lA Ane unfolding sp(2) by (intro sorted_insert) auto
  moreover have tk: "take (Suc r) ys = A @ xs ! r # B"
  proof -
    have "Suc r = length (A @ xs ! r # B)" "ys = (A @ xs ! r # B) @ C" using sp(4) by (simp_all add: ys_def)
    then show ?thesis by (simp only: take_length_append)
  qed
  ultimately have so: "sorted_wrt (\<lambda>x y. cmp x y \<le> 0) (take (Suc r) ys)" by simp
  have y0: "ys ! 0 = xs ! 0" using Ane by (subst sp(1)) (simp add: ys_def nth_append)
  have ly: "length ys = length xs" using mset_eq_length [OF my] .
  have "\<forall>x\<in>set ys. cmp (ys ! 0) x \<le> 0" using Suc.prems(2) y0 mset_eq_setD [OF my] by simp
  moreover have "ys \<noteq> []" by (simp add: ys_def)
  ultimately obtain zs where z: "ins_loop cmp (wr m b ys) (b + Suc r) k = Some (wr m b zs)" "mset zs = mset ys"
    "sorted_wrt (\<lambda>x y. cmp x y \<le> 0) zs"
    using Suc.IH [of ys "Suc r"] so Suc.prems(4) ly by auto
  have br: "b + r - 1 = b + (r - 1)" using Suc.prems(5) by simp
  have mid: "(if b + t + 1 \<noteq> b + r then do { c \<leftarrow> ld (wr m b xs) (b + r); ins_shift (wr m b xs) (b + t + 1) (b + r - (b + t + 1)) c } else Some (wr m b xs))
      = Some (wr m b ys)"
  proof (cases "t + 1 = r")
    case True
    then have "B = []" using sp(3,4) by simp
    then have "ys = xs" by (subst sp(1)) (simp add: ys_def)
    then show ?thesis using True by simp
  next
    case False
    have e: "b + r - (b + t + 1) = r - (t + 1)" "b + t + 1 = b + (t + 1)" by simp_all
    have k: "t + 1 + (r - (t + 1)) < length xs" "t + 1 + (r - (t + 1)) + 1 = r + 1" using tr r by auto
    have "ins_shift (wr m b xs) (b + (t + 1)) (r - (t + 1)) (xs ! r) = Some (wr m b ys)"
      unfolding ins_shift_spec [OF k(1)] k(2) by (simp add: ys_def A_def B_def C_def drop_take)
    moreover have "ld (wr m b xs) (b + r) = Some (xs ! r)" using r by (intro arr_ld [OF block_wr_same])
    ultimately show ?thesis using False unfolding e by simp
  qed
  have "ins_loop cmp (wr m b xs) (b + r) (Suc k) = ins_loop cmp (wr m b ys) (b + Suc r) k"
    unfolding ins_loop.simps br t(2) bind.bind_lunit using mid by simp
  then show ?case using z my by (intro exI [of _ zs]) simp
qed

lemma qs_insertion_spec:
  assumes "xs \<noteq> []" "has_min xs max_thresh"
  shows "\<exists>ys. qs_insertion cmp (wr m b xs) b (length xs) = Some (wr m b ys) \<and> mset ys = mset xs \<and> sorted_wrt (\<lambda>x y. cmp x y \<le> 0) ys"
proof -
  define k where "k = min (length xs - 1) max_thresh"
  have k: "1 + k \<le> length xs" using assms(1) by (cases xs) (auto simp: k_def)
  obtain j where j: "j < 1 + k" "qs_min cmp (wr m b xs) (b + 0) (b + 1) k = Some (b + j)" "\<forall>x<1 + k. cmp (xs ! j) (xs ! x) \<le> 0"
    using qs_min_spec [OF _ k, of 0 m b] cmp_refl by auto
  obtain i where i: "i \<le> max_thresh" "i < length xs" "\<forall>x\<in>set xs. cmp (xs ! i) x \<le> 0" using assms(2) by (auto simp: has_min_def)
  have "i < 1 + k" using i by (auto simp: k_def)
  then have jm: "\<forall>x\<in>set xs. cmp (xs ! j) x \<le> 0" using j(3) i(3) cmp_trans by blast
  define ys where "ys = swp xs j 0"
  have jl: "j < length xs" "0 < length xs" using j(1) k by auto
  have sw: "(if b + j \<noteq> b then qs_swap (wr m b xs) (b + j) b else Some (wr m b xs)) = Some (wr m b ys)"
    using qs_swap_spec [OF jl, of m b] by (auto simp: ys_def swp_def)
  have my: "mset ys = mset xs" using jl by (simp add: ys_def swp_def mset_swap)
  have ly: "length ys = length xs" by (simp add: ys_def)
  have ym: "\<forall>x\<in>set ys. cmp (ys ! 0) x \<le> 0" using jm mset_eq_setD [OF my] jl by (cases "j = 0") (auto simp: ys_def swp_nth)
  have yne: "ys \<noteq> []" using assms(1) ly by auto
  have "\<exists>zs. ins_loop cmp (wr m b ys) (b + 2) (length xs - 2) = Some (wr m b zs) \<and> mset zs = mset ys \<and> sorted_wrt (\<lambda>x y. cmp x y \<le> 0) zs"
  proof (cases "length xs < 2")
    case True
    then have "length ys < 2" using ly by simp
    moreover have "length ys \<noteq> 0" using yne by blast
    ultimately have "length ys = 1" by linarith
    then obtain y where "ys = [y]" by (auto simp: length_Suc_conv)
    then show ?thesis using True by (intro exI [of _ ys]) simp
  next
    case False
    then obtain x y ws where ys: "ys = x # y # ws" using ly by (cases ys; cases "tl ys") auto
    have "sorted_wrt (\<lambda>x y. cmp x y \<le> 0) (take 2 ys)" using ym ys by (simp add: numeral_2_eq_2)
    then show ?thesis using ins_loop_spec [OF yne ym, of 2 "length xs - 2" m b] ly False by auto
  qed
  then obtain zs where z: "ins_loop cmp (wr m b ys) (b + 2) (length xs - 2) = Some (wr m b zs)" "mset zs = mset ys"
    "sorted_wrt (\<lambda>x y. cmp x y \<le> 0) zs" by blast
  have "qs_insertion cmp (wr m b xs) b (length xs) = Some (wr m b zs)"
    using j(2) sw z(1) unfolding qs_insertion_def k_def [symmetric] by simp
  then show ?thesis using z my by auto
qed

lemma has_min_short:
  assumes "xs \<noteq> []"
  shows "has_min xs (length xs - 1)"
proof -
  have "\<exists>i<length xs. \<forall>x\<in>set xs. cmp (xs ! i) x \<le> 0" using assms
  proof (induction xs)
    case (Cons a xs)
    show ?case
    proof (cases "xs = []")
      case True
      then show ?thesis using cmp_refl by auto
    next
      case False
      then obtain i where i: "i < length xs" "\<forall>x\<in>set xs. cmp (xs ! i) x \<le> 0" using Cons.IH by blast
      show ?thesis
      proof (cases "cmp a (xs ! i) \<le> 0")
        case True
        have "\<forall>x\<in>set (a # xs). cmp ((a # xs) ! 0) x \<le> 0"
          using cmp_refl [of a] cmp_trans [OF True] i(2) by simp
        then show ?thesis by blast
      next
        case f: False
        then have "\<forall>x\<in>set (a # xs). cmp ((a # xs) ! Suc i) x \<le> 0" using i(2) cmp_total [OF f] by simp
        then show ?thesis using i(1) by (intro exI [of _ "Suc i"]) simp
      qed
    qed
  qed simp
  then obtain i where i: "i < length xs" "\<forall>x\<in>set xs. cmp (xs ! i) x \<le> 0" by blast
  then have "i \<le> length xs - 1" by simp
  then show ?thesis using i unfolding has_min_def by blast
qed

lemma quicksort_spec:
  assumes "block m b xs" "length xs \<le> 2 ^ 32"
  shows "\<exists>ys. quicksort junk cmp m b (length xs) = Some (wr m b ys) \<and> mset ys = mset xs \<and> sorted_wrt (\<lambda>x y. cmp x y \<le> 0) ys"
proof (cases "xs = []")
  case True
  then show ?thesis by (intro exI [of _ "[]"]) (simp add: quicksort_def)
next
  case False
  have m: "wr m b xs = m" using assms(1) by (rule wr_block_id)
  have "\<exists>ys. (if length xs > max_thresh then qs_loop cmp m b (b + (length xs - 1)) [junk] else Some m) = Some (wr m b ys) \<and>
      mset ys = mset xs \<and> has_min ys max_thresh"
  proof (cases "length xs > max_thresh")
    case True
    let ?s = "[(0, length xs - 1)]"
    have "length xs - 1 < 2 ^ 32" using assms(2) False by (cases xs) auto
    moreover have "segs_in (length xs) ?s" "depth_ok (length xs - 1) ?s" "first_seg (length xs - 1) ?s"
      using True by (auto simp: segs_in_def max_thresh_def first_seg_def)
    ultimately show ?thesis
      using qs_loop_spec [where xs = xs and s = ?s and N = "length xs - 1" and H = "length xs - 1" and b = b and m = m and junk = junk] has_min_short [OF False] True m
      by (simp add: qs_state_def qs_stack_def)
  next
    case short: False
    have "has_min xs max_thresh" using has_min_short [OF False] short unfolding has_min_def by (meson le_trans diff_le_self not_less)
    then show ?thesis using short m by (intro exI [of _ xs]) simp
  qed
  then obtain ys where y: "(if length xs > max_thresh then qs_loop cmp m b (b + (length xs - 1)) [junk] else Some m) = Some (wr m b ys)"
    "mset ys = mset xs" "has_min ys max_thresh" by blast
  have "ys \<noteq> []" "length ys = length xs" using y(2) False mset_eq_length [OF y(2)] by auto
  with qs_insertion_spec [OF this(1) y(3), of m b] obtain zs where
    "qs_insertion cmp (wr m b ys) b (length xs) = Some (wr m b zs)" "mset zs = mset ys" "sorted_wrt (\<lambda>x y. cmp x y \<le> 0) zs" by auto
  then show ?thesis using y(1,2) False by (intro exI [of _ zs]) (simp add: quicksort_def)
qed

end

section \<open>\<open>qsort\<close>\<close>

text \<open>
  \<open>qsort\<close> of \<^verbatim>\<open>stdlib/msort.c\<close>: the merge sort with a temporary array on the stack or from
  \<open>malloc\<close>, whose result is the parameter \<open>heap\<close>, and \<open>_quicksort\<close> when there is none. The total
  size is the code's unsigned 32-bit product.
\<close>

definition qsort :: "nat \<times> nat \<Rightarrow> nat \<Rightarrow> nat option \<Rightarrow> ('a \<Rightarrow> 'a \<Rightarrow> int) \<Rightarrow> 'a mem \<Rightarrow> nat \<Rightarrow> u32 \<Rightarrow> u32 \<Rightarrow> 'a mem option" where
  "qsort junk stack heap cmp m b n s =
    (if n * s < 1024 then msort_with_tmp cmp m b (unat n) stack
     else case heap of
            None \<Rightarrow> quicksort junk cmp m b (unat n)
          | Some tmp \<Rightarrow> msort_with_tmp cmp m b (unat n) tmp)"

definition tmp_ok :: "'a mem \<Rightarrow> nat \<Rightarrow> nat \<Rightarrow> nat \<Rightarrow> bool" where
  "tmp_ok m b n t \<longleftrightarrow> mapped m t n \<and> disjnt_rng b n t n"

lemma msort_with_tmp_array:
  assumes "block m b xs" "tmp_ok m b (length xs) t"
  shows "\<exists>m'. msort_with_tmp cmp m b (length xs) t = Some m' \<and> block m' b (msort_list cmp xs)"
proof -
  obtain ts where t: "msort_with_tmp cmp m b (length xs) t = Some (kst m b t (msort_list cmp xs) ts)" "length ts \<le> length xs"
    using msort_with_tmp_spec [OF assms(1)] assms(2) by (auto simp: tmp_ok_def)
  have "disjnt_rng b (length (msort_list cmp xs)) t (length ts)"
    using assms(2) t(2) by (auto simp: tmp_ok_def disjnt_rng_def)
  then show ?thesis using t(1) kst_result by blast
qed

section \<open>Properties\<close>

text \<open>C10: \<open>qsort\<close> sorts: whichever of its three ways it takes, for a comparison function that is a
  consistent total order, it returns, touches no cell outside the array and the temporary one,
  and the array holds a sorted permutation of what it held.\<close>

theorem qsort_sorts:
  assumes "comparator cmp" "block m b xs" "unat n = length xs" "tmp_ok m b (length xs) stack"
    and "\<And>t. heap = Some t \<Longrightarrow> tmp_ok m b (length xs) t"
  shows "\<exists>m' ys. qsort junk stack heap cmp m b n s = Some m' \<and> block m' b ys \<and> mset ys = mset xs \<and>
    sorted_wrt (\<lambda>x y. cmp x y \<le> 0) ys"
proof -
  have ms: "\<exists>m' ys. msort_with_tmp cmp m b (length xs) t = Some m' \<and> block m' b ys \<and> mset ys = mset xs \<and>
    sorted_wrt (\<lambda>x y. cmp x y \<le> 0) ys" if "tmp_ok m b (length xs) t" for t
    using msort_with_tmp_array [OF assms(2) that] comparator.sorted_msort_list [OF assms(1)] mset_msort_list by blast
  have "unat n < 2 ^ 32" using unsigned_less [of n, where ?'a = nat] by simp
  then have "length xs \<le> 2 ^ 32" using assms(3) by simp
  from comparator.quicksort_spec [OF assms(1,2) this] have "\<exists>m' ys. quicksort junk cmp m b (length xs) = Some m' \<and> block m' b ys \<and>
    mset ys = mset xs \<and> sorted_wrt (\<lambda>x y. cmp x y \<le> 0) ys" by (metis block_wr_same)
  then show ?thesis using ms [OF assms(4)] ms assms(3,5) by (cases heap) (simp_all add: qsort_def)
qed

lemma comparator_int: "comparator (\<lambda>x y :: int. x - y)"
  by unfold_locales auto

lemma qsort_sorts_witness:
  "\<exists>m' ys. qsort (0, 0) 100 None (\<lambda>x y. x - y) (wr (\<lambda>_. Some 0) 8 [5, 3, 9, 3, 1, 7 :: int]) 8 6 400 = Some m' \<and>
    block m' 8 ys \<and> mset ys = mset [5, 3, 9, 3, 1, 7] \<and> sorted_wrt (\<lambda>x y. x - y \<le> 0) ys"
  by (rule qsort_sorts [OF comparator_int]) (simp_all add: tmp_ok_def disjnt_rng_def)

text \<open>C11: \<open>_quicksort\<close>, on its own, sorts every array: the scans stay inside the array, the loops
  end, and the 32 nodes of the stack suffice whatever the comparisons say (the larger part is
  pushed, so the parts still waiting halve with the depth).\<close>

theorem quicksort_sorts:
  assumes "comparator cmp" "block m b xs" "length xs \<le> 2 ^ 32"
  shows "\<exists>ys. quicksort junk cmp m b (length xs) = Some (wr m b ys) \<and> mset ys = mset xs \<and>
    sorted_wrt (\<lambda>x y. cmp x y \<le> 0) ys"
  by (rule comparator.quicksort_spec [OF assms])

lemma quicksort_sorts_witness:
  "\<exists>ys. quicksort (0, 0) (\<lambda>x y. x - y) (wr (\<lambda>_. Some 0) 8 [5, 3, 9, 3, 1, 7 :: int]) 8 (length [5, 3, 9, 3, 1, 7 :: int])
      = Some (wr (wr (\<lambda>_. Some 0) 8 [5, 3, 9, 3, 1, 7]) 8 ys) \<and>
    mset ys = mset [5, 3, 9, 3, 1, 7] \<and> sorted_wrt (\<lambda>x y. x - y \<le> 0) ys"
  by (rule quicksort_sorts [OF comparator_int]) simp_all

text \<open>C25: The merge sort is stable: the elements equal to any given one keep their order.\<close>

theorem msort_stable:
  assumes "comparator cmp" "block m b xs" "tmp_ok m b (length xs) t"
  shows "\<exists>m' ys. msort_with_tmp cmp m b (length xs) t = Some m' \<and> block m' b ys \<and> mset ys = mset xs \<and>
    (\<forall>x. filter (\<lambda>y. cmp x y = 0) ys = filter (\<lambda>y. cmp x y = 0) xs)"
  using msort_with_tmp_array [OF assms(2,3), of cmp] comparator.stable_msort_list [OF assms(1)] mset_msort_list by blast

lemma msort_stable_witness:
  "\<exists>m' ys. msort_with_tmp (\<lambda>x y. x div 10 - y div 10) (wr (\<lambda>_. Some 0) 8 [51, 32, 53, 31 :: int]) 8 (length [51, 32, 53, 31 :: int]) 20 = Some m' \<and>
    block m' 8 ys \<and> mset ys = mset [51, 32, 53, 31] \<and>
    (\<forall>x. filter (\<lambda>y. x div 10 - y div 10 = 0) ys = filter (\<lambda>y. x div 10 - y div 10 = 0) [51, 32, 53, 31])"
proof -
  have "comparator (\<lambda>x y :: int. x div 10 - y div 10)" by unfold_locales auto
  then show ?thesis by (rule msort_stable) (simp_all add: tmp_ok_def disjnt_rng_def)
qed

text \<open>\<open>bsearch\<close> decides whether an array sorted by the same comparison function holds an element
  equal to the key, and returns such an element or \<open>NULL\<close>; it always returns, and the midpoint
  \<open>(a + b) >> 1\<close> does not overflow for arrays of up to \<open>2 ^ 31\<close> elements.\<close>

theorem bsearch_correct:
  assumes "comparator cmp" "block m b xs" "sorted_wrt (\<lambda>x y. cmp x y \<le> 0) xs" "unat n = length xs" "length xs \<le> 2 ^ 31"
    and "b \<noteq> 0" "s \<noteq> 0"
  shows "\<exists>r. bsearch cmp m (Some k) b n s = Some r \<and>
    (case r of None \<Rightarrow> \<forall>x\<in>set xs. cmp k x \<noteq> 0 | Some q \<Rightarrow> \<exists>i<length xs. q = b + i \<and> cmp k (xs ! i) = 0)"
proof (cases "xs = []")
  case True
  then have "n = 0" using assms(4) by (simp add: unat_eq_zero)
  then show ?thesis using True assms(6,7) by (intro exI [of _ None]) (simp add: bsearch_def)
next
  case False
  then have "n \<noteq> 0" "length xs - 1 < length xs" using assms(4) by auto
  then have n: "n \<noteq> 0" "unat (n - 1) = length xs - 1" "length xs - 1 < length xs"
    using assms(4) by (simp_all add: unat_minus_one)
  have "split_at cmp k xs"
    unfolding split_at_def using comparator.sorted_partition [OF assms(1,3)] by blast
  then have "\<exists>r. bsearch_loop cmp m k b 0 (n - 1) = Some r \<and> bsearch_ok cmp k b xs r"
    using assms(2,5) n by (intro bsearch_loop_spec) auto
  then show ?thesis using n(1) assms(6,7) by (simp add: bsearch_def bsearch_ok_def)
qed

lemma bsearch_correct_witness:
  "\<exists>r. bsearch (\<lambda>x y. x - y) (wr (\<lambda>_. Some 0) 8 [1, 3, 5 :: int]) (Some (3 :: int)) 8 3 4 = Some r \<and>
    (case r of None \<Rightarrow> \<forall>x\<in>set [1, 3, 5 :: int]. 3 - x \<noteq> 0
     | Some q \<Rightarrow> \<exists>i<length [1, 3, 5 :: int]. q = 8 + i \<and> 3 - [1, 3, 5 :: int] ! i = 0)"
  by (rule bsearch_correct [OF comparator_int]) simp_all

text \<open>\<open>lsearch\<close> returns an element equal to the key: the first one of the array when there is one,
  and otherwise the key itself, appended to the array, the number of elements then being one more;
  a second call finds that same element and adds nothing.\<close>

theorem lsearch_correct:
  assumes "block m b xs" "mapped m b (Suc (length xs))" "cmp k k = 0"
  shows "\<exists>m' n' q ys. lsearch cmp m k b (length xs) = Some (m', n', q) \<and> block m' b ys \<and> length ys = n' \<and>
    ys = (if \<exists>x\<in>set xs. cmp k x = 0 then xs else xs @ [k]) \<and>
    (\<exists>i<n'. q = b + i \<and> cmp k (ys ! i) = 0 \<and> (\<forall>j<i. cmp k (ys ! j) \<noteq> 0)) \<and>
    lsearch cmp m' k b n' = Some (m', n', q)"
proof -
  obtain r where r: "lfind_loop cmp m k b (length xs) = Some r"
    "case r of None \<Rightarrow> \<forall>x\<in>set xs. cmp k x \<noteq> 0
     | Some q \<Rightarrow> \<exists>i<length xs. q = b + i \<and> cmp k (xs ! i) = 0 \<and> (\<forall>j<i. cmp k (xs ! j) \<noteq> 0)"
    using lfind_loop_spec [OF assms(1), of cmp k] by blast
  show ?thesis
  proof (cases r)
    case (Some q)
    then have l: "lsearch cmp m k b (length xs) = Some (m, length xs, q)" using r(1) by (simp add: lsearch_def lfind_def)
    from r(2) Some obtain i where i: "i < length xs" "q = b + i" "cmp k (xs ! i) = 0" "\<forall>j<i. cmp k (xs ! j) \<noteq> 0" by auto
    then have e: "\<exists>x\<in>set xs. cmp k x = 0" using nth_mem [OF i(1)] by blast
    show ?thesis
      by (rule exI [of _ m], rule exI [of _ "length xs"], rule exI [of _ q], rule exI [of _ xs])
        (use l assms(1) i e in simp)
  next
    case None
    let ?m = "wr m b (xs @ [k])" and ?ys = "xs @ [k]"
    have "m(b + length xs \<mapsto> k) = ?m" using wr_block_id [OF assms(1)] by (simp add: wr_snoc)
    moreover have "m (b + length xs) \<noteq> None" using mapped_nth [OF assms(2)] by simp
    ultimately have l: "lsearch cmp m k b (length xs) = Some (?m, Suc (length xs), b + length xs)"
      using r(1) None by (simp add: lsearch_def lfind_def)
    have no: "\<forall>x\<in>set xs. cmp k x \<noteq> 0" using r(2) None by simp
    obtain r' where r': "lfind_loop cmp ?m k b (length ?ys) = Some r'"
      "case r' of None \<Rightarrow> \<forall>x\<in>set ?ys. cmp k x \<noteq> 0
       | Some q \<Rightarrow> \<exists>i<length ?ys. q = b + i \<and> cmp k (?ys ! i) = 0 \<and> (\<forall>j<i. cmp k (?ys ! j) \<noteq> 0)"
      using lfind_loop_spec [OF block_wr_same, of cmp m b ?ys k] by blast
    have "r' = Some (b + length xs)"
    proof (cases r')
      case None
      then show ?thesis using r'(2) assms(3) by simp
    next
      case (Some q)
      then obtain i where "i < length ?ys" "q = b + i" "cmp k (?ys ! i) = 0" using r'(2) by auto
      moreover have "cmp k (?ys ! j) \<noteq> 0" if "j < length xs" for j using no that by (simp add: nth_append)
      ultimately show ?thesis using Some by (metis length_append_singleton less_antisym)
    qed
    then have l2: "lsearch cmp ?m k b (Suc (length xs)) = Some (?m, Suc (length xs), b + length xs)"
      using r'(1) by (simp add: lsearch_def lfind_def)
    have "\<forall>j<length xs. cmp k (?ys ! j) \<noteq> 0" using no by (simp add: nth_append)
    then have q: "\<exists>i<Suc (length xs). b + length xs = b + i \<and> cmp k (?ys ! i) = 0 \<and> (\<forall>j<i. cmp k (?ys ! j) \<noteq> 0)"
      using assms(3) by (intro exI [of _ "length xs"]) simp
    show ?thesis
      by (rule exI [of _ ?m], rule exI [of _ "Suc (length xs)"], rule exI [of _ "b + length xs"], rule exI [of _ ?ys])
        (use l l2 no q in simp)
  qed
qed

lemma lsearch_correct_witness:
  "\<exists>m' n' q ys. lsearch (\<lambda>x y. x - y) (wr (\<lambda>_. Some 0) 8 [5, 3 :: int]) 9 8 (length [5, 3 :: int]) = Some (m', n', q) \<and>
    block m' 8 ys \<and> length ys = n' \<and> ys = (if \<exists>x\<in>set [5, 3 :: int]. 9 - x = 0 then [5, 3] else [5, 3] @ [9]) \<and>
    (\<exists>i<n'. q = 8 + i \<and> 9 - ys ! i = 0 \<and> (\<forall>j<i. 9 - ys ! j \<noteq> 0)) \<and>
    lsearch (\<lambda>x y. x - y) m' 9 8 n' = Some (m', n', q)"
  by (rule lsearch_correct) simp_all

end
