(* ===== verification/StrCmp.thy ===== *)
theory StrCmp
  imports Str
begin

text \<open>
  Comparing strings: \<open>strcmp\<close>, \<open>strncmp\<close> and \<open>memcmp\<close> on memory, and the order \<open>strcmp_val\<close> they
  compute on byte sequences (characters compare as unsigned bytes). \<open>strcmp_val\<close> is a comparison in
  the sense of the locale \<open>comparator\<close> of the sorting routines.
\<close>

section \<open>strcmp\<close>

partial_function (option) strcmp_loop :: "bmem \<Rightarrow> nat \<Rightarrow> nat \<Rightarrow> (byte \<times> byte) option" where
  "strcmp_loop m scan1 scan2 =
    do { c1 \<leftarrow> ld m scan1; c2 \<leftarrow> ld m scan2;
         if c1 \<noteq> 0 \<and> c1 = c2 then strcmp_loop m (scan1 + 1) (scan2 + 1) else Some (c1, c2) }"

definition char_order :: "byte \<Rightarrow> byte \<Rightarrow> int" where
  "char_order c1 c2 = (if c1 = c2 then 0 else if c1 = 0 then -1 else if c2 = 0 then 1 else uint c1 - uint c2)"

definition strcmp :: "bmem \<Rightarrow> nat \<Rightarrow> nat \<Rightarrow> int option" where
  "strcmp m scan1 scan2 =
    (if scan1 = null then Some (if scan2 \<noteq> null then -1 else 0)
     else if scan2 = null then Some 1
     else do { (c1, c2) \<leftarrow> strcmp_loop m scan1 scan2; Some (char_order c1 c2) })"

text \<open>The order on byte sequences.\<close>

fun strcmp_val :: "byte list \<Rightarrow> byte list \<Rightarrow> int" where
  "strcmp_val [] [] = 0"
| "strcmp_val [] (d # t) = -1"
| "strcmp_val (c # s) [] = 1"
| "strcmp_val (c # s) (d # t) = (if c = d then strcmp_val s t else uint c - uint d)"

lemma char_order_simps [simp]:
  "char_order c c = 0" "d \<noteq> 0 \<Longrightarrow> char_order 0 d = -1" "c \<noteq> 0 \<Longrightarrow> char_order c 0 = 1"
  "c \<noteq> 0 \<Longrightarrow> d \<noteq> 0 \<Longrightarrow> c \<noteq> d \<Longrightarrow> char_order c d = uint c - uint d"
  by (simp_all add: char_order_def)

lemma strcmp_loop_spec:
  assumes "cstr m p s" "cstr m q t"
  shows "\<exists>c1 c2. strcmp_loop m p q = Some (c1, c2) \<and> char_order c1 c2 = strcmp_val s t"
  using assms
proof (induction s t arbitrary: p q rule: strcmp_val.induct)
  case (4 c s d t)
  show ?case
  proof (cases "c = d")
    case True
    then show ?thesis using "4.IH" [of "Suc p" "Suc q"] "4.prems" by (subst strcmp_loop.simps) (simp add: cstr_Cons ld_def)
  next
    case False
    then show ?thesis using "4.prems" by (subst strcmp_loop.simps) (simp add: cstr_Cons ld_def)
  qed
qed (subst strcmp_loop.simps, auto simp: cstr_Nil cstr_Cons ld_def)+

lemma strcmp_spec:
  "cstr m p s \<Longrightarrow> cstr m q t \<Longrightarrow> p \<noteq> 0 \<Longrightarrow> q \<noteq> 0 \<Longrightarrow> strcmp m p q = Some (strcmp_val s t)"
  using strcmp_loop_spec [of m p s q t] by (auto simp: strcmp_def null_def)

lemma strcmp_val_sym: "strcmp_val s t < 0 \<longleftrightarrow> 0 < strcmp_val t s"
  by (induction s t rule: strcmp_val.induct) auto

lemma strcmp_val_eq_0: "strcmp_val s t = 0 \<longleftrightarrow> s = t"
  by (induction s t rule: strcmp_val.induct) (auto simp: word_uint_eq_iff)

lemma strcmp_val_le: "strcmp_val s t \<le> 0 \<longleftrightarrow> s = t \<or> (s, t) \<in> lexord {(c, d). uint c < uint d}"
proof (induction s t rule: strcmp_val.induct)
  case (4 c s d t)
  then show ?case by (cases "c = d") (auto simp: order_le_less word_uint_eq_iff)
qed auto

lemma strcmp_val_trans: "strcmp_val s t \<le> 0 \<Longrightarrow> strcmp_val t u \<le> 0 \<Longrightarrow> strcmp_val s u \<le> 0"
proof -
  have "trans {(c :: byte, d). uint c < uint d}" by (auto intro: transI)
  then have "trans (lexord {(c :: byte, d). uint c < uint d})" by (rule lexord_trans [THEN transI, rotated -1])
  then show "strcmp_val s t \<le> 0 \<Longrightarrow> strcmp_val t u \<le> 0 \<Longrightarrow> strcmp_val s u \<le> 0"
    unfolding strcmp_val_le by (auto dest: transD)
qed

interpretation strcmp_order: comparator strcmp_val
  using strcmp_val_sym strcmp_val_trans by unfold_locales

section \<open>strncmp and memcmp\<close>

text \<open>
  \<open>strncmp\<close> keeps its count in a signed long and tests it after the bytes of the round have been
  read: the count it compares with is the value after the decrement.
\<close>

partial_function (option) strncmp_loop :: "bmem \<Rightarrow> nat \<Rightarrow> nat \<Rightarrow> u32 \<Rightarrow> (byte \<times> byte \<times> u32) option" where
  "strncmp_loop m scan1 scan2 cnt =
    do { c1 \<leftarrow> ld m scan1; c2 \<leftarrow> ld m scan2;
         if 0 \<le> sint (cnt - 1) \<and> c1 \<noteq> 0 \<and> c1 = c2 then strncmp_loop m (scan1 + 1) (scan2 + 1) (cnt - 1)
         else Some (c1, c2, cnt - 1) }"

definition strncmp :: "bmem \<Rightarrow> nat \<Rightarrow> nat \<Rightarrow> u32 \<Rightarrow> int option" where
  "strncmp m scan1 scan2 n =
    (if scan1 = null then Some (if scan2 \<noteq> null then -1 else 0)
     else if scan2 = null then Some 1
     else do { (c1, c2, cnt) \<leftarrow> strncmp_loop m scan1 scan2 n;
               Some (if sint cnt < 0 then 0 else char_order c1 c2) })"

fun memcmp :: "bmem \<Rightarrow> nat \<Rightarrow> nat \<Rightarrow> nat \<Rightarrow> int option" where
  "memcmp m scan1 scan2 0 = Some 0"
| "memcmp m scan1 scan2 (Suc n) =
    do { c1 \<leftarrow> ld m scan1; c2 \<leftarrow> ld m scan2;
         if c1 = c2 then memcmp m (scan1 + 1) (scan2 + 1) n else Some (uint c1 - uint c2) }"

lemma unat_Suc_pred: "(w :: 'a::len word) \<noteq> 0 \<Longrightarrow> unat w = Suc (unat (w - 1))"
  using unat_gt_0 [of w] by (simp add: unat_minus_one)

lemma cstr_first: "cstr m p s \<Longrightarrow> ld m p \<noteq> None"
  by (cases s) (simp_all add: cstr_Nil cstr_Cons ld_def)

lemma strncmp_loop_0:
  assumes "cstr m p s" "cstr m q t"
  obtains c1 c2 where "strncmp_loop m p q 0 = Some (c1, c2, - 1)"
  using cstr_first [OF assms(1)] cstr_first [OF assms(2)] that by (auto simp: strncmp_loop.simps [of m p q 0])

lemma strncmp_loop_spec:
  assumes "cstr m p s" "cstr m q t" "unat cnt < 2 ^ 31"
  shows "\<exists>c1 c2 k. strncmp_loop m p q cnt = Some (c1, c2, k) \<and>
    (if sint k < 0 then 0 else char_order c1 c2) = strcmp_val (take (unat cnt) s) (take (unat cnt) t)"
proof (cases "cnt = 0")
  case True
  obtain x y where "strncmp_loop m p q 0 = Some (x, y, - 1)" using assms(1,2) by (rule strncmp_loop_0)
  then show ?thesis using True by simp
next
  case False
  with assms show ?thesis
  proof (induction s t arbitrary: p q cnt rule: strcmp_val.induct)
    case (4 c s d t)
      have u: "unat cnt = Suc (unat (cnt - 1))" using "4.prems"(4) by (rule unat_Suc_pred)
    have nn: "0 \<le> sint (cnt - 1)" using "4.prems"(3) u by (simp only: sint_u32_nonneg)
    show ?case
    proof (cases "c = d")
      case True
      have s: "cstr m (Suc p) s" "cstr m (Suc q) t" using "4.prems"(1,2) by (simp_all add: cstr_Cons)
      show ?thesis
      proof (cases "cnt - 1 = 0")
        case True
        obtain x y where "strncmp_loop m (Suc p) (Suc q) 0 = Some (x, y, - 1)" using s by (rule strncmp_loop_0)
        then show ?thesis using True \<open>c = d\<close> "4.prems" u by (subst strncmp_loop.simps) (simp add: cstr_Cons ld_def)
      next
        case False
        have "unat (cnt - 1) < 2 ^ 31" using "4.prems"(3) u by simp
        from "4.IH" [OF \<open>c = d\<close> s this False] show ?thesis
          using \<open>c = d\<close> "4.prems" u nn by (subst strncmp_loop.simps) (simp add: cstr_Cons ld_def)
      qed
    next
      case False
      then show ?thesis using "4.prems" u nn by (subst strncmp_loop.simps) (simp add: cstr_Cons ld_def)
    qed
  next
    case 1
    then show ?case by (subst strncmp_loop.simps) (auto simp: cstr_Nil ld_def)
  next
    case (2 d t)
    have u: "unat cnt = Suc (unat (cnt - 1))" using 2(4) by (rule unat_Suc_pred)
    have nn: "0 \<le> sint (cnt - 1)" using 2(3) u by (simp only: sint_u32_nonneg)
    then show ?case using 2 u by (subst strncmp_loop.simps) (simp add: cstr_Nil cstr_Cons ld_def)
  next
    case (3 c s)
    have u: "unat cnt = Suc (unat (cnt - 1))" using 3(4) by (rule unat_Suc_pred)
    have nn: "0 \<le> sint (cnt - 1)" using 3(3) u by (simp only: sint_u32_nonneg)
    then show ?case using 3 u by (subst strncmp_loop.simps) (simp add: cstr_Nil cstr_Cons ld_def)
  qed
qed

lemma strncmp_spec:
  assumes "cstr m p s" "cstr m q t" "p \<noteq> 0" "q \<noteq> 0" "unat n < 2 ^ 31"
  shows "strncmp m p q n = Some (strcmp_val (take (unat n) s) (take (unat n) t))"
  using strncmp_loop_spec [OF assms(1,2,5)] assms(3,4) by (auto simp: strncmp_def null_def)

lemma memcmp_spec:
  "block m p xs \<Longrightarrow> block m q ys \<Longrightarrow> length xs = n \<Longrightarrow> length ys = n \<Longrightarrow>
    memcmp m p q n = Some (strcmp_val xs ys)"
proof (induction n arbitrary: p q xs ys)
  case (Suc n)
  then show ?case by (cases xs; cases ys) (auto simp: block_Cons ld_def)
qed simp

text \<open>The byte after the first \<open>n\<close> equal ones is read although it does not count.\<close>

lemma strncmp_reads_beyond:
  assumes "m p \<noteq> None" "m q = None" "p \<noteq> 0" "q \<noteq> 0"
  shows "strncmp m p q 0 = None"
  using assms by (simp add: strncmp_def null_def strncmp_loop.simps ld_def)

end
