(* ===== verification/StrSearch.thy ===== *)
theory StrSearch
  imports StrCmp
begin

text \<open>
  Searching strings: for a character (\<open>strchr\<close>, \<open>strrchr\<close>, \<open>memchr\<close>, \<open>strnlen\<close>), for characters of
  a set (\<open>strspn\<close>, \<open>strcspn\<close>, \<open>strpbrk\<close>) and for a string (\<open>strstr\<close>, \<open>memmem\<close>). A pointer that is
  not found is \<open>null\<close>.
\<close>

section \<open>A character\<close>

partial_function (option) strchr :: "bmem \<Rightarrow> nat \<Rightarrow> u32 \<Rightarrow> nat option" where
  "strchr m s charwanted =
    do { c \<leftarrow> ld m s;
         if c \<noteq> ucast charwanted then if c = 0 then Some null else strchr m (s + 1) charwanted
         else Some s }"

partial_function (option) strrchr_loop :: "bmem \<Rightarrow> nat \<Rightarrow> byte \<Rightarrow> nat \<Rightarrow> (nat \<times> nat) option" where
  "strrchr_loop m s w place =
    do { c \<leftarrow> ld m s;
         if c \<noteq> 0 then strrchr_loop m (s + 1) w (if c = w then s else place) else Some (s, place) }"

definition strrchr :: "bmem \<Rightarrow> nat \<Rightarrow> u32 \<Rightarrow> nat option" where
  "strrchr m s charwanted =
    do { (s, place) \<leftarrow> strrchr_loop m s (ucast charwanted) null;
         Some (if ucast charwanted = (0 :: byte) then s else place) }"

fun memchr :: "bmem \<Rightarrow> nat \<Rightarrow> u32 \<Rightarrow> nat \<Rightarrow> nat option" where
  "memchr m scan w 0 = Some null"
| "memchr m scan w (Suc n) =
    do { c \<leftarrow> ld m scan; if c = ucast w then Some scan else memchr m (scan + 1) w n }"

definition strnlen :: "bmem \<Rightarrow> nat \<Rightarrow> nat \<Rightarrow> nat option" where
  "strnlen m s mx = do { e \<leftarrow> memchr m s 0 mx; Some (if e \<noteq> null then e - s else mx) }"

lemma strchr_spec:
  "cstr m p s \<Longrightarrow> ucast w = c \<Longrightarrow>
    strchr m p w = Some (if c \<in> set (s @ [0]) then p + length (takeWhile (\<lambda>x. x \<noteq> c) s) else null)"
proof (induction s arbitrary: p)
  case Nil
  then show ?case by (subst strchr.simps) (auto simp: cstr_Nil ld_def)
next
  case (Cons x s)
  then show ?case by (subst strchr.simps) (auto simp: cstr_Cons ld_def)
qed

lemma strrchr_loop_spec:
  "cstr m p s \<Longrightarrow> strrchr_loop m p c place =
    Some (p + length s, if c \<in> set s then p + length s - 1 - length (takeWhile (\<lambda>x. x \<noteq> c) (rev s)) else place)"
proof (induction s arbitrary: p place)
  case Nil
  then show ?case by (subst strrchr_loop.simps) (simp add: cstr_Nil ld_def)
next
  case (Cons x s)
  then have "strrchr_loop m p c place = strrchr_loop m (Suc p) c (if x = c then p else place)"
    by (subst strrchr_loop.simps) (simp add: cstr_Cons ld_def)
  then show ?case using Cons by (auto simp: cstr_Cons takeWhile_append)
qed

lemma strrchr_spec:
  "cstr m p s \<Longrightarrow> ucast w = c \<Longrightarrow> c \<noteq> 0 \<Longrightarrow>
    strrchr m p w = Some (if c \<in> set s then p + length s - 1 - length (takeWhile (\<lambda>x. x \<noteq> c) (rev s)) else null)"
  by (simp add: strrchr_def strrchr_loop_spec)

lemma memchr_spec:
  "block m p xs \<Longrightarrow> ucast w = c \<Longrightarrow>
    memchr m p w (length xs) = Some (if c \<in> set xs then p + length (takeWhile (\<lambda>x. x \<noteq> c) xs) else null)"
  by (induction xs arbitrary: p) (auto simp: block_Cons ld_def)

lemma memchr_stops:
  "block m p xs \<Longrightarrow> ucast w \<in> set xs \<Longrightarrow>
    memchr m p w (length xs + k) = Some (p + length (takeWhile (\<lambda>x. x \<noteq> ucast w) xs))"
  by (induction xs arbitrary: p) (auto simp: block_Cons ld_def)

lemma strnlen_spec:
  assumes "cstr m p s" "p \<noteq> 0"
  shows "strnlen m p n = Some (min (length s) n)"
proof (cases "n \<le> length s")
  case True
  have "block m p (take n s)" using cstr_block [OF assms(1)] by (rule block_take)
  then have "memchr m p 0 (length (take n s)) = Some null"
    using memchr_spec [of m p "take n s" 0 0] assms(1) by (auto simp: cstr_def dest: in_set_takeD)
  then show ?thesis using True by (simp add: strnlen_def null_def min.absorb1 min.absorb2)
next
  case False
  have "takeWhile (\<lambda>x. x \<noteq> 0) (s @ [0 :: byte]) = s"
    using assms(1) by (subst takeWhile_append2) (auto simp: cstr_def)
  then have "memchr m p 0 (length (s @ [0]) + (n - length (s @ [0]))) = Some (p + length s)"
    using memchr_stops [OF cstr_terminated [OF assms(1)], of 0 "n - length (s @ [0])"] by simp
  then show ?thesis using False assms(2) by (simp add: strnlen_def null_def)
qed

section \<open>Characters of a set\<close>

text \<open>
  The inner loop of \<open>strspn\<close> (where the pointer into the set stops) and that of \<open>strcspn\<close>,
  \<open>strpbrk\<close> and \<open>strtok_r\<close> (which leaves the function at a match).
\<close>

partial_function (option) accept_scan :: "bmem \<Rightarrow> byte \<Rightarrow> nat \<Rightarrow> nat option" where
  "accept_scan m c ascan =
    do { a \<leftarrow> ld m ascan;
         if a \<noteq> 0 then if c = a then Some ascan else accept_scan m c (ascan + 1) else Some ascan }"

partial_function (option) reject_hit :: "bmem \<Rightarrow> byte \<Rightarrow> nat \<Rightarrow> bool option" where
  "reject_hit m c rscan =
    do { r \<leftarrow> ld m rscan;
         if r \<noteq> 0 then if c = r then Some True else reject_hit m c (rscan + 1) else Some False }"

partial_function (option) strspn_loop :: "bmem \<Rightarrow> nat \<Rightarrow> nat \<Rightarrow> nat \<Rightarrow> nat option" where
  "strspn_loop m sscan accept cnt =
    do { c \<leftarrow> ld m sscan;
         if c \<noteq> 0
         then do { a \<leftarrow> accept_scan m c accept; x \<leftarrow> ld m a;
                   if x = 0 then Some cnt else strspn_loop m (sscan + 1) accept (cnt + 1) }
         else Some cnt }"

definition strspn :: "bmem \<Rightarrow> nat \<Rightarrow> nat \<Rightarrow> nat option" where
  "strspn m s accept = strspn_loop m s accept 0"

partial_function (option) strcspn_loop :: "bmem \<Rightarrow> nat \<Rightarrow> nat \<Rightarrow> nat \<Rightarrow> nat option" where
  "strcspn_loop m scan reject cnt =
    do { c \<leftarrow> ld m scan;
         if c \<noteq> 0
         then do { hit \<leftarrow> reject_hit m c reject;
                   if hit then Some cnt else strcspn_loop m (scan + 1) reject (cnt + 1) }
         else Some cnt }"

definition strcspn :: "bmem \<Rightarrow> nat \<Rightarrow> nat \<Rightarrow> nat option" where
  "strcspn m s reject = strcspn_loop m s reject 0"

partial_function (option) strpbrk :: "bmem \<Rightarrow> nat \<Rightarrow> nat \<Rightarrow> nat option" where
  "strpbrk m sscan breakat =
    do { c \<leftarrow> ld m sscan;
         if c \<noteq> 0
         then do { hit \<leftarrow> reject_hit m c breakat;
                   if hit then Some sscan else strpbrk m (sscan + 1) breakat }
         else Some null }"

lemma accept_scan_spec:
  "cstr m q d \<Longrightarrow> \<exists>a. accept_scan m c q = Some a \<and> ld m a = Some (if c \<in> set d then c else 0)"
proof (induction d arbitrary: q)
  case Nil
  then show ?case by (subst accept_scan.simps) (simp add: cstr_Nil ld_def)
next
  case (Cons x d)
  then show ?case by (subst accept_scan.simps) (auto simp: cstr_Cons ld_def)
qed

lemma reject_hit_spec: "cstr m q d \<Longrightarrow> reject_hit m c q = Some (c \<in> set d)"
proof (induction d arbitrary: q)
  case Nil
  then show ?case by (subst reject_hit.simps) (simp add: cstr_Nil ld_def)
next
  case (Cons x d)
  then show ?case by (subst reject_hit.simps) (auto simp: cstr_Cons ld_def)
qed

lemma strspn_loop_spec:
  "cstr m p s \<Longrightarrow> cstr m q d \<Longrightarrow> strspn_loop m p q n = Some (n + length (takeWhile (\<lambda>c. c \<in> set d) s))"
proof (induction s arbitrary: p n)
  case Nil
  then show ?case by (subst strspn_loop.simps) (simp add: cstr_Nil ld_def)
next
  case (Cons c s)
  obtain a where "accept_scan m c q = Some a" "ld m a = Some (if c \<in> set d then c else 0)"
    using accept_scan_spec [OF Cons.prems(2)] by blast
  then show ?case using Cons by (subst strspn_loop.simps) (auto simp: cstr_Cons ld_def)
qed

lemma strspn_spec: "cstr m p s \<Longrightarrow> cstr m q d \<Longrightarrow> strspn m p q = Some (length (takeWhile (\<lambda>c. c \<in> set d) s))"
  by (simp add: strspn_def strspn_loop_spec)

lemma strcspn_loop_spec:
  "cstr m p s \<Longrightarrow> cstr m q d \<Longrightarrow> strcspn_loop m p q n = Some (n + length (takeWhile (\<lambda>c. c \<notin> set d) s))"
proof (induction s arbitrary: p n)
  case Nil
  then show ?case by (subst strcspn_loop.simps) (simp add: cstr_Nil ld_def)
next
  case (Cons c s)
  then show ?case by (subst strcspn_loop.simps) (simp add: cstr_Cons ld_def reject_hit_spec)
qed

lemma strcspn_spec: "cstr m p s \<Longrightarrow> cstr m q d \<Longrightarrow> strcspn m p q = Some (length (takeWhile (\<lambda>c. c \<notin> set d) s))"
  by (simp add: strcspn_def strcspn_loop_spec)

lemma strpbrk_spec:
  "cstr m p s \<Longrightarrow> cstr m q d \<Longrightarrow>
    strpbrk m p q = Some (if set s \<inter> set d = {} then null else p + length (takeWhile (\<lambda>c. c \<notin> set d) s))"
proof (induction s arbitrary: p)
  case Nil
  then show ?case by (subst strpbrk.simps) (simp add: cstr_Nil ld_def)
next
  case (Cons c s)
  then show ?case by (subst strpbrk.simps) (simp add: cstr_Cons ld_def reject_hit_spec)
qed

section \<open>A string in a string\<close>

partial_function (option) strstr_loop :: "bmem \<Rightarrow> nat \<Rightarrow> nat \<Rightarrow> byte \<Rightarrow> u32 \<Rightarrow> nat option" where
  "strstr_loop m scan wanted firstc len =
    do { c \<leftarrow> ld m scan;
         different \<leftarrow> (if c \<noteq> firstc then Some True
                       else do { r \<leftarrow> strncmp m scan wanted len; Some (r \<noteq> 0) });
         if different then if c = 0 then Some null else strstr_loop m (scan + 1) wanted firstc len
         else Some scan }"

definition strstr :: "bmem \<Rightarrow> nat \<Rightarrow> nat \<Rightarrow> nat option" where
  "strstr m s wanted =
    do { c \<leftarrow> ld m s; w \<leftarrow> ld m wanted;
         if c = 0 then Some (if w \<noteq> 0 then null else s)
         else if w = 0 then Some s
         else do { len \<leftarrow> strlen m wanted; strstr_loop m s wanted w (of_nat len) } }"

partial_function (option) memmem_match :: "bmem \<Rightarrow> nat \<Rightarrow> nat \<Rightarrow> nat \<Rightarrow> nat \<Rightarrow> bool option" where
  "memmem_match m ph pn n needlelen =
    do { x \<leftarrow> ld m (ph + n); y \<leftarrow> ld m (pn + n);
         if x = y then if n + 1 = needlelen then Some True else memmem_match m ph pn (n + 1) needlelen
         else Some False }"

partial_function (option) memmem_loop :: "bmem \<Rightarrow> nat \<Rightarrow> nat \<Rightarrow> nat \<Rightarrow> nat \<Rightarrow> nat option" where
  "memmem_loop m ph pn needlelen plast =
    do { hit \<leftarrow> memmem_match m ph pn 0 needlelen;
         if hit then Some ph
         else if ph + 1 \<le> plast then memmem_loop m (ph + 1) pn needlelen plast else Some null }"

definition memmem :: "bmem \<Rightarrow> nat \<Rightarrow> nat \<Rightarrow> nat \<Rightarrow> nat \<Rightarrow> nat option" where
  "memmem m haystack haystacklen needle needlelen =
    (if needlelen = 0 then Some haystack
     else if haystacklen \<ge> needlelen then memmem_loop m haystack needle needlelen (haystack + (haystacklen - needlelen))
     else Some null)"

text \<open>The first place where the one list is a prefix of the rest of the other.\<close>

fun sub_index :: "'a list \<Rightarrow> 'a list \<Rightarrow> nat option" where
  "sub_index w [] = (if w = [] then Some 0 else None)"
| "sub_index w (c # s) = (if prefix w (c # s) then Some 0 else map_option Suc (sub_index w s))"

lemma sub_index_Some:
  "sub_index w s = Some i \<longleftrightarrow> i \<le> length s \<and> prefix w (drop i s) \<and> (\<forall>j<i. \<not> prefix w (drop j s))"
proof (induction s arbitrary: i)
  case Nil
  then show ?case by auto
next
  case (Cons c s)
  then show ?case by (cases i) (auto simp: less_Suc_eq_0_disj)
qed

lemma sub_index_None: "sub_index w s = None \<longleftrightarrow> \<not> sublist w s"
  by (induction s) (auto simp: sublist_Cons_right)

lemma sub_index_short: "length s < length w \<Longrightarrow> sub_index w s = None"
  by (auto simp: sub_index_None dest: sublist_length_le)

definition found :: "nat \<Rightarrow> nat option \<Rightarrow> nat" where
  "found p i = (case i of None \<Rightarrow> null | Some i \<Rightarrow> p + i)"

lemma found_simps [simp]: "found p None = null" "found p (Some i) = p + i"
  by (simp_all add: found_def)

lemma found_Suc: "found p (map_option Suc i) = found (Suc p) i"
  by (cases i) simp_all

lemma take_eq_prefix: "strcmp_val (take (length w) s) w = 0 \<longleftrightarrow> prefix w s"
  by (auto simp: strcmp_val_eq_0 prefix_def) (metis append_take_drop_id)

lemma strstr_loop_spec:
  assumes "cstr m p s" "cstr m q w" "p \<noteq> 0" "q \<noteq> 0" "w \<noteq> []" "length w < 2 ^ 31"
  shows "strstr_loop m p q (hd w) (of_nat (length w)) = Some (found p (sub_index w s))"
  using assms
proof (induction s arbitrary: p)
  case Nil
  then show ?case by (subst strstr_loop.simps) (cases w, auto simp: cstr_Nil cstr_Cons ld_def)
next
  case (Cons c s)
  have "unat (of_nat (length w) :: u32) = length w" using Cons.prems(6) by (simp add: unat_of_nat take_bit_eq_mod)
  then have n: "strncmp m p q (of_nat (length w)) = Some (strcmp_val (take (length w) (c # s)) w)"
    using strncmp_spec [OF Cons.prems(1-4), of "of_nat (length w)"] Cons.prems(6) by simp
  have h: "c \<noteq> hd w \<Longrightarrow> \<not> prefix w (c # s)" using Cons.prems(5) by (cases w) auto
  show ?case using Cons n h take_eq_prefix [of w "c # s"]
    by (subst strstr_loop.simps) (auto simp: cstr_Cons ld_def found_Suc)
qed

lemma strstr_spec:
  assumes "cstr m p s" "cstr m q w" "p \<noteq> 0" "q \<noteq> 0" "length w < 2 ^ 31"
  shows "strstr m p q = Some (found p (sub_index w s))"
proof (cases "s = [] \<or> w = []")
  case True
  then show ?thesis using assms(1,2) by (cases s; cases w) (auto simp: strstr_def cstr_Nil cstr_Cons ld_def)
next
  case False
  then show ?thesis using strstr_loop_spec [OF assms(1-4) _ assms(5)] strlen_spec [OF assms(2,4)] assms(1,2)
    by (cases s; cases w) (auto simp: strstr_def cstr_Nil cstr_Cons ld_def simp del: sub_index.simps)
qed

lemma memmem_match_spec:
  assumes "block m (p + n) xs" "block m (q + n) ys" "length ys \<le> length xs" "ys \<noteq> []"
  shows "memmem_match m p q n (n + length ys) = Some (prefix ys xs)"
  using assms
proof (induction ys arbitrary: n xs)
  case (Cons y ys)
  obtain x t where x: "xs = x # t" using Cons.prems(3) by (cases xs) auto
  show ?case
  proof (cases "ys = []")
    case True
    then show ?thesis using Cons.prems x by (subst memmem_match.simps) (auto simp: block_Cons ld_def)
  next
    case False
    then show ?thesis using Cons.IH [of "Suc n" t] Cons.prems x
      by (subst memmem_match.simps) (auto simp: block_Cons ld_def)
  qed
qed simp

lemma memmem_loop_spec:
  assumes "block m p xs" "block m q ys" "length ys \<le> length xs" "ys \<noteq> []"
  shows "memmem_loop m p q (length ys) (p + (length xs - length ys)) = Some (found p (sub_index ys xs))"
  using assms
proof (induction xs arbitrary: p)
  case (Cons x xs)
  have h: "memmem_match m p q 0 (length ys) = Some (prefix ys (x # xs))"
    using memmem_match_spec [of m p 0 "x # xs" q ys] Cons.prems by simp
  show ?case
  proof (cases "length ys \<le> length xs")
    case True
    then have "p + (length (x # xs) - length ys) = Suc p + (length xs - length ys)" by simp
    then show ?thesis using Cons.IH [of "Suc p"] Cons.prems h True
      by (subst memmem_loop.simps) (auto simp: block_Cons found_Suc)
  next
    case False
    then show ?thesis using h sub_index_short [of xs ys] by (subst memmem_loop.simps) auto
  qed
qed simp

lemma memmem_spec:
  "block m p xs \<Longrightarrow> block m q ys \<Longrightarrow> memmem m p (length xs) q (length ys) = Some (found p (sub_index ys xs))"
  using memmem_loop_spec [of m p xs q ys] sub_index_short [of xs ys]
  by (cases "ys = []"; cases xs) (auto simp: memmem_def)

text \<open>C17: \<open>strstr\<close> finds the first occurrence: it returns \<open>NULL\<close> exactly when the wanted string
  is no substring, and otherwise a pointer to the first place where it is found; \<open>memmem\<close> on the
  bytes of the two strings returns the same pointer, although the one compares with \<open>strncmp\<close> and
  the other byte by byte.\<close>

theorem strstr_correct:
  assumes "cstr m p s" "cstr m q w" "p \<noteq> 0" "q \<noteq> 0" "length w < 2 ^ 31"
  shows "\<exists>r. strstr m p q = Some r \<and> memmem m p (length s) q (length w) = Some r \<and>
    (r = null \<longleftrightarrow> \<not> sublist w s) \<and>
    (r \<noteq> null \<longrightarrow> p \<le> r \<and> prefix w (drop (r - p) s) \<and> (\<forall>j < r - p. \<not> prefix w (drop j s)))"
proof -
  let ?r = "found p (sub_index w s)"
  have "strstr m p q = Some ?r" using assms by (rule strstr_spec)
  moreover have "memmem m p (length s) q (length w) = Some ?r"
    using memmem_spec [OF cstr_block [OF assms(1)] cstr_block [OF assms(2)]] .
  moreover have "?r = null \<longleftrightarrow> \<not> sublist w s"
    using assms(3) sub_index_None [of w s] by (cases "sub_index w s") (auto simp: null_def)
  moreover have "?r \<noteq> null \<longrightarrow> p \<le> ?r \<and> prefix w (drop (?r - p) s) \<and> (\<forall>j < ?r - p. \<not> prefix w (drop j s))"
  proof (cases "sub_index w s")
    case (Some i)
    then show ?thesis using sub_index_Some [of w s i] by simp
  qed simp
  ultimately show ?thesis by blast
qed

theorem strstr_correct_witness:
  "\<exists>r. strstr (wr (wr (\<lambda>_. Some 0) 10 [97, 98, 97, 99]) 20 [97, 99]) 10 20 = Some r"
proof -
  let ?m = "wr (wr (\<lambda>_. Some 0) 10 [97, 98, 97, 99]) 20 [97, 99] :: bmem"
  have "cstr ?m 10 [97, 98, 97, 99]" "cstr ?m 20 [97, 99]"
    by (simp_all add: cstr_def block_Cons wr_def)
  from strstr_correct [OF this] show ?thesis by auto
qed

end
