(* ===== verification/StrTok.thy ===== *)
theory StrTok
  imports StrSearch
begin

text \<open>
  Cutting a string into pieces: \<open>strtok_r\<close> and \<open>strtok\<close> (runs of delimiters separate the tokens,
  which are not empty) and \<open>strsep\<close> (every delimiter separates, fields may be empty). The pointer
  that a caller keeps between the calls (\<open>*scanpoint\<close>, the static \<open>save_ptr\<close>, \<open>*s\<close>) is passed in
  and returned.
\<close>

section \<open>The routines\<close>

partial_function (option) tok_skip :: "bmem \<Rightarrow> nat \<Rightarrow> nat \<Rightarrow> nat option" where
  "tok_skip m scan delim =
    do { c \<leftarrow> ld m scan;
         if c \<noteq> 0
         then do { a \<leftarrow> accept_scan m c delim; x \<leftarrow> ld m a;
                   if x = 0 then Some scan else tok_skip m (scan + 1) delim }
         else Some scan }"

partial_function (option) tok_end :: "bmem \<Rightarrow> nat \<Rightarrow> nat \<Rightarrow> (bmem \<times> nat) option" where
  "tok_end m scan delim =
    do { c \<leftarrow> ld m scan;
         if c \<noteq> 0
         then do { hit \<leftarrow> reject_hit m c delim;
                   if hit then do { m \<leftarrow> st m scan 0; Some (m, scan + 1) }
                   else tok_end m (scan + 1) delim }
         else Some (m, null) }"

text \<open>The result is the memory, the new \<open>*scanpoint\<close> and the token.\<close>

definition strtok_r :: "bmem \<Rightarrow> nat \<Rightarrow> nat \<Rightarrow> nat \<Rightarrow> (bmem \<times> nat \<times> nat) option" where
  "strtok_r m s delim scanpoint =
    (if s = null \<and> scanpoint = null then Some (m, scanpoint, null)
     else do { scan \<leftarrow> tok_skip m (if s \<noteq> null then s else scanpoint) delim;
               c \<leftarrow> ld m scan;
               if c = 0 then Some (m, null, null)
               else do { (m, scanpoint) \<leftarrow> tok_end m scan delim; Some (m, scanpoint, scan) } })"

definition strtok :: "bmem \<Rightarrow> nat \<Rightarrow> nat \<Rightarrow> nat \<Rightarrow> (bmem \<times> nat \<times> nat) option" where
  "strtok m s delim save_ptr = strtok_r m s delim save_ptr"

text \<open>The result is the memory, the new \<open>*s\<close> and the field.\<close>

definition strsep :: "bmem \<Rightarrow> nat \<Rightarrow> nat \<Rightarrow> (bmem \<times> nat \<times> nat) option" where
  "strsep m s sep =
    (if s \<noteq> null
     then do { ptr \<leftarrow> strpbrk m s sep;
               if ptr \<noteq> null then do { m \<leftarrow> st m ptr 0; Some (m, ptr + 1, s) }
               else Some (m, null, s) }
     else Some (m, s, null))"

section \<open>Fields and tokens of a byte sequence\<close>

function fields_of :: "('a \<Rightarrow> bool) \<Rightarrow> 'a list \<Rightarrow> 'a list list" where
  "fields_of P s = takeWhile (\<lambda>c. \<not> P c) s #
    (case dropWhile (\<lambda>c. \<not> P c) s of [] \<Rightarrow> [] | _ # r \<Rightarrow> fields_of P r)"
  by auto
termination
proof (relation "measure (length \<circ> snd)")
  fix P :: "'a \<Rightarrow> bool" and s x r
  assume "dropWhile (\<lambda>c. \<not> P c) s = x # r"
  then have "length (x # r) \<le> length s" by (metis length_dropWhile_le)
  then show "((P, r), P, s) \<in> measure (length \<circ> snd)" by simp
qed simp

declare fields_of.simps [simp del]

definition tokens :: "('a \<Rightarrow> bool) \<Rightarrow> 'a list \<Rightarrow> 'a list list" where
  "tokens P s = filter (\<lambda>w. w \<noteq> []) (fields_of P s)"

lemma fields_cut:
  "\<forall>x\<in>set w. \<not> P x \<Longrightarrow> P d \<Longrightarrow> fields_of P (w @ d # r) = w # fields_of P r"
  "\<forall>x\<in>set w. \<not> P x \<Longrightarrow> fields_of P w = [w]"
  by (simp_all add: fields_of.simps [of P "w @ d # r"] fields_of.simps [of P w] takeWhile_append2 dropWhile_append2
      takeWhile_eq_all_conv [THEN iffD2] dropWhile_eq_Nil_conv [THEN iffD2])

lemma tokens_cut:
  "w \<noteq> [] \<Longrightarrow> \<forall>x\<in>set w. \<not> P x \<Longrightarrow> P d \<Longrightarrow> tokens P (w @ d # r) = w # tokens P r"
  "w \<noteq> [] \<Longrightarrow> \<forall>x\<in>set w. \<not> P x \<Longrightarrow> tokens P w = [w]"
  by (simp_all add: tokens_def fields_cut)

lemma tokens_skip: "\<forall>x\<in>set w. P x \<Longrightarrow> tokens P (w @ r) = tokens P r"
proof (induction w)
  case (Cons d w)
  then show ?case using fields_cut(1) [of "[]" P d "w @ r"] by (simp add: tokens_def)
qed simp

lemma tokens_Nil [simp]: "tokens P [] = []"
  by (simp add: tokens_def fields_of.simps)

text \<open>A string is leading delimiters, a token, and a delimiter with the rest or nothing.\<close>

lemma token_split:
  obtains (none) "\<forall>x\<in>set s. P x"
  | (last) d w where "s = d @ w" "\<forall>x\<in>set d. P x" "w \<noteq> []" "\<forall>x\<in>set w. \<not> P x"
  | (more) d w c r where "s = d @ w @ c # r" "\<forall>x\<in>set d. P x" "w \<noteq> []" "\<forall>x\<in>set w. \<not> P x" "P c"
proof -
  let ?d = "takeWhile P s" and ?t = "dropWhile P s"
  have s: "s = ?d @ ?t" by simp
  have d: "\<forall>x\<in>set ?d. P x" by (auto dest: set_takeWhileD)
  let ?w = "takeWhile (\<lambda>c. \<not> P c) ?t" and ?r = "dropWhile (\<lambda>c. \<not> P c) ?t"
  have w: "\<forall>x\<in>set ?w. \<not> P x" by (auto dest: set_takeWhileD)
  show ?thesis
  proof (cases ?t)
    case Nil
    then show ?thesis using none by (metis append_Nil2 d s)
  next
    case (Cons x t)
    then have "\<not> P x" by (metis hd_dropWhile list.distinct(1) list.sel(1))
    then have ne: "?w \<noteq> []" using Cons by simp
    show ?thesis
    proof (cases ?r)
      case Nil
      then have "s = ?d @ ?w" by (metis append_Nil2 s takeWhile_dropWhile_id)
      then show ?thesis using last d ne w by blast
    next
      case (Cons c r)
      then have "P c" by (metis (mono_tags, lifting) hd_dropWhile list.distinct(1) list.sel(1))
      moreover have "s = ?d @ ?w @ c # r" by (metis Cons s takeWhile_dropWhile_id)
      ultimately show ?thesis using more d ne w by blast
    qed
  qed
qed

section \<open>One call\<close>

lemma cstr_append: "cstr m p (s @ t) \<longleftrightarrow> block m p s \<and> 0 \<notin> set s \<and> cstr m (p + length s) t"
  by (auto simp: cstr_def block_append)

lemma tok_skip_spec:
  "cstr m p (d @ t) \<Longrightarrow> cstr m q del \<Longrightarrow> set d \<subseteq> set del \<Longrightarrow> (t \<noteq> [] \<Longrightarrow> hd t \<notin> set del) \<Longrightarrow>
    tok_skip m p q = Some (p + length d)"
proof (induction d arbitrary: p)
  case Nil
  show ?case
  proof (cases t)
    case Nil
    then show ?thesis using Nil.prems by (subst tok_skip.simps) (simp add: cstr_Nil ld_def)
  next
    case (Cons x u)
    obtain a where "accept_scan m x q = Some a" "ld m a = Some (if x \<in> set del then x else 0)"
      using accept_scan_spec [OF Nil.prems(2)] by blast
    then show ?thesis using Cons Nil.prems by (subst tok_skip.simps) (simp add: cstr_Cons ld_def)
  qed
next
  case (Cons x d)
  obtain a where "accept_scan m x q = Some a" "ld m a = Some (if x \<in> set del then x else 0)"
    using accept_scan_spec [OF Cons.prems(2)] by blast
  then show ?case using Cons by (subst tok_skip.simps) (simp add: cstr_Cons ld_def)
qed

lemma tok_end_last:
  "cstr m p w \<Longrightarrow> cstr m q del \<Longrightarrow> \<forall>x\<in>set w. x \<notin> set del \<Longrightarrow> tok_end m p q = Some (m, null)"
proof (induction w arbitrary: p)
  case Nil
  then show ?case by (subst tok_end.simps) (simp add: cstr_Nil ld_def)
next
  case (Cons x w)
  then show ?case by (subst tok_end.simps) (simp add: cstr_Cons ld_def reject_hit_spec)
qed

lemma tok_end_more:
  "cstr m p (w @ c # r) \<Longrightarrow> cstr m q del \<Longrightarrow> \<forall>x\<in>set w. x \<notin> set del \<Longrightarrow> c \<in> set del \<Longrightarrow>
    tok_end m p q = Some (m(p + length w \<mapsto> 0), p + length w + 1)"
proof (induction w arbitrary: p)
  case Nil
  then show ?case by (subst tok_end.simps) (simp add: cstr_Cons ld_def reject_hit_spec)
next
  case (Cons x w)
  then show ?case by (subst tok_end.simps) (simp add: cstr_Cons ld_def reject_hit_spec del: fun_upd_apply)
qed

text \<open>A call with a string, and one that goes on from the saved pointer, do the same.\<close>

lemma strtok_r_continue: "p \<noteq> 0 \<Longrightarrow> strtok_r m null q p = strtok_r m p q sp"
  by (simp add: strtok_r_def null_def)

lemma strtok_r_none:
  assumes "cstr m p s" "cstr m q del" "p \<noteq> 0" "\<forall>x\<in>set s. x \<in> set del"
  shows "strtok_r m p q sp = Some (m, null, null)"
proof -
  have "tok_skip m p q = Some (p + length s)" using tok_skip_spec [of m p s "[]" q del] assms by auto
  then show ?thesis using assms(3) cstr_end [OF assms(1)] by (simp add: strtok_r_def null_def ld_def)
qed

lemma strtok_r_skip:
  assumes "cstr m p (d @ t)" "cstr m q del" "p \<noteq> 0" "\<forall>x\<in>set d. x \<in> set del" "t \<noteq> []" "hd t \<notin> set del"
  shows "strtok_r m p q sp = do { (m, scanpoint) \<leftarrow> tok_end m (p + length d) q; Some (m, scanpoint, p + length d) }"
proof -
  have "tok_skip m p q = Some (p + length d)" using tok_skip_spec [OF assms(1,2)] assms(4,6) by auto
  moreover have "\<exists>c. ld m (p + length d) = Some c \<and> c \<noteq> 0"
    using assms(1,5) by (cases t) (auto simp: cstr_append cstr_Cons ld_def)
  ultimately show ?thesis using assms(3) by (auto simp: strtok_r_def null_def)
qed

lemma strtok_r_last:
  assumes "cstr m p (d @ w)" "cstr m q del" "p \<noteq> 0"
    and "\<forall>x\<in>set d. x \<in> set del" "w \<noteq> []" "\<forall>x\<in>set w. x \<notin> set del"
  shows "strtok_r m p q sp = Some (m, null, p + length d)"
  using strtok_r_skip [OF assms(1-5)] tok_end_last [of m "p + length d" w q del] assms
  by (cases w) (simp_all add: cstr_append)

lemma strtok_r_more:
  assumes "cstr m p (d @ w @ c # r)" "cstr m q del" "p \<noteq> 0"
    and "\<forall>x\<in>set d. x \<in> set del" "w \<noteq> []" "\<forall>x\<in>set w. x \<notin> set del" "c \<in> set del"
  shows "strtok_r m p q sp =
    Some (m(p + length d + length w \<mapsto> 0), p + length d + length w + 1, p + length d)"
  using strtok_r_skip [OF assms(1-4)] tok_end_more [of m "p + length d" w c r q del] assms
  by (cases w) (simp_all add: cstr_append cstr_Cons block_Cons)

section \<open>All calls\<close>

text \<open>The calls of a client that wants all tokens, the first one with the string.\<close>

partial_function (option) strtok_all :: "bmem \<Rightarrow> nat \<Rightarrow> nat \<Rightarrow> nat \<Rightarrow> (bmem \<times> nat list) option" where
  "strtok_all m s delim sp =
    do { (m, sp, tok) \<leftarrow> strtok_r m s delim sp;
         if tok = null then Some (m, [])
         else do { (m, ts) \<leftarrow> strtok_all m null delim sp; Some (m, tok # ts) } }"

partial_function (option) strsep_all :: "bmem \<Rightarrow> nat \<Rightarrow> nat \<Rightarrow> (bmem \<times> nat list) option" where
  "strsep_all m s sep =
    do { (m, s, f) \<leftarrow> strsep m s sep;
         if f = null then Some (m, [])
         else do { (m, fs) \<leftarrow> strsep_all m s sep; Some (m, f # fs) } }"

text \<open>\<open>cut_state m m' p n ts ws\<close>: only the \<open>n\<close> cells from \<open>p\<close> on have changed, and the pointers hold the pieces.\<close>

definition cut_state :: "bmem \<Rightarrow> bmem \<Rightarrow> nat \<Rightarrow> nat \<Rightarrow> nat list \<Rightarrow> byte list list \<Rightarrow> bool" where
  "cut_state m m' p n ts ws \<longleftrightarrow>
    (\<forall>a. a < p \<or> p + n \<le> a \<longrightarrow> m' a = m a) \<and> list_all2 (cstr m') ts ws \<and> (\<forall>t\<in>set ts. p \<le> t)"

lemma cstr_frame: "cstr m p s \<Longrightarrow> \<forall>a. p \<le> a \<and> a \<le> p + length s \<longrightarrow> m' a = m a \<Longrightarrow> cstr m' p s"
  by (auto simp: cstr_def block_def)

lemma cut_stateI:
  assumes "cut_state (m(b \<mapsto> 0)) m' (b + 1) n ts ws" "block m t w" "0 \<notin> set w" "b = t + length w" "p \<le> t"
  shows "cut_state m m' p (b + 1 + n - p) (t # ts) (w # ws)"
proof -
  have frame: "m' a = (m(b \<mapsto> 0)) a" if "a \<le> b \<or> b + 1 + n \<le> a" for a
    using assms(1) that by (auto simp: cut_state_def)
  have "block m' t (w @ [0])"
    using assms(2,4) frame by (auto simp: block_def nth_append)
  then have "cstr m' t w" using assms(3) by (simp add: cstr_def)
  moreover have "m' a = m a" if "a < p \<or> b + 1 + n \<le> a" for a
    using frame [of a] that assms(4,5) by auto
  ultimately show ?thesis using assms(1,4,5) by (auto simp: cut_state_def)
qed

lemma cut_state_one: "cstr m t w \<Longrightarrow> p \<le> t \<Longrightarrow> cut_state m m p n [t] [w]"
  by (simp add: cut_state_def)

text \<open>The step both drivers share: the string that is left after the cut, and the delimiters.\<close>

lemma cut_rest:
  assumes "cstr m p (w @ c # r)" "cstr m q del" "disjnt_rng p (length (w @ c # r)) q (Suc (length del))"
    and "b = p + length w" 
  shows "cstr (m(b \<mapsto> 0)) (Suc b) r" "cstr (m(b \<mapsto> 0)) q del" "disjnt_rng (Suc b) (length r) q (Suc (length del))"
proof -
  show "cstr (m(b \<mapsto> 0)) (Suc b) r" using assms(1,4) by (subst cstr_upd_other) (auto simp: cstr_append cstr_Cons)
  show "cstr (m(b \<mapsto> 0)) q del" using assms(2-4) by (subst cstr_upd_other) (auto simp: disjnt_rng_def)
  show "disjnt_rng (Suc b) (length r) q (Suc (length del))" using assms(3,4) by (auto simp: disjnt_rng_def)
qed

lemma strtok_all_spec:
  assumes "cstr m p s" "cstr m q del" "p \<noteq> 0" "disjnt_rng p (length s) q (Suc (length del))"
  shows "\<exists>m' ts. strtok_all m p q sp = Some (m', ts) \<and> cut_state m m' p (length s) ts (tokens (\<lambda>c. c \<in> set del) s)"
  using assms
proof (induction "length s" arbitrary: m p s sp rule: less_induct)
  case less
  have stop: "strtok_all m' null q null = Some (m', [])" for m'
    by (subst strtok_all.simps) (simp add: strtok_r_def)
  show ?case
  proof (cases s "\<lambda>c. c \<in> set del" rule: token_split)
    case none
    then have "tokens (\<lambda>c. c \<in> set del) s = []" using tokens_skip [of s "\<lambda>c. c \<in> set del" "[]"] by simp
    then show ?thesis using strtok_r_none [OF less.prems(1-3), of sp] none
      by (subst strtok_all.simps) (simp add: cut_state_def)
  next
    case (last d w)
    have c: "cstr m (p + length d) w" using less.prems(1) last(1) by (simp add: cstr_append)
    have "strtok_all m p q sp = Some (m, [p + length d])"
      using strtok_r_last [of m p d w q del sp] less.prems last stop
      by (subst strtok_all.simps) (simp add: null_def)
    then show ?thesis using cut_state_one [OF c, of p] last tokens_skip [of d] tokens_cut(2) [of w] by simp
  next
    case (more d w c r)
    let ?b = "p + length d + length w" 
    have s: "s = (d @ w) @ c # r" using more(1) by simp
    note rest = cut_rest [OF less.prems(1) [unfolded s] less.prems(2) less.prems(4) [unfolded s], of ?b, simplified]
    obtain m' ts where ih: "strtok_all (m(?b \<mapsto> 0)) (Suc ?b) q (Suc ?b) = Some (m', ts)"
        "cut_state (m(?b \<mapsto> 0)) m' (Suc ?b) (length r) ts (tokens (\<lambda>c. c \<in> set del) r)"
      using less.hyps [of r "m(?b \<mapsto> 0)" "Suc ?b" "Suc ?b"] rest less.prems(3) s by auto
    have "strtok_all (m(?b \<mapsto> 0)) null q (Suc ?b) = strtok_all (m(?b \<mapsto> 0)) (Suc ?b) q (Suc ?b)"
      by (subst (1 2) strtok_all.simps) (simp add: strtok_r_continue [of "Suc ?b" _ q "Suc ?b"] del: fun_upd_apply)
    then have "strtok_all m p q sp = Some (m', (p + length d) # ts)"
      using strtok_r_more [of m p d w c r q del sp] less.prems more ih(1)
      by (subst strtok_all.simps) (simp add: null_def)
    moreover have "cut_state m m' p (?b + 1 + length r - p) ((p + length d) # ts) (w # tokens (\<lambda>c. c \<in> set del) r)"
      using ih(2) less.prems(1) more(1) by (intro cut_stateI) (auto simp: cstr_append)
    moreover have "tokens (\<lambda>c. c \<in> set del) s = w # tokens (\<lambda>c. c \<in> set del) r"
      using more tokens_skip [of d] tokens_cut(1) [of w] by simp
    ultimately show ?thesis using s by simp
  qed
qed

lemma strsep_all_spec:
  assumes "cstr m p s" "cstr m q del" "p \<noteq> 0" "disjnt_rng p (length s) q (Suc (length del))"
  shows "\<exists>m' ts. strsep_all m p q = Some (m', ts) \<and> cut_state m m' p (length s) ts (fields_of (\<lambda>c. c \<in> set del) s)"
  using assms
proof (induction "length s" arbitrary: m p s rule: less_induct)
  case less
  have stop: "strsep_all m' null q = Some (m', [])" for m'
    by (subst strsep_all.simps) (simp add: strsep_def)
  let ?P = "\<lambda>c. c \<in> set del"
  let ?w = "takeWhile (\<lambda>c. \<not> ?P c) s"
  have w: "\<forall>x\<in>set ?w. \<not> ?P x" by (auto dest: set_takeWhileD)
  show ?case
  proof (cases "dropWhile (\<lambda>c. \<not> ?P c) s")
    case Nil
    then have n: "set s \<inter> set del = {}" by (auto simp: dropWhile_eq_Nil_conv)
    then have "strsep_all m p q = Some (m, [p])"
      using strpbrk_spec [OF less.prems(1,2)] less.prems(3) stop by (subst strsep_all.simps) (simp add: strsep_def null_def)
    moreover have "fields_of ?P s = [s]" using n by (intro fields_cut(2)) auto
    ultimately show ?thesis using cut_state_one [OF less.prems(1), of p] by simp
  next
    case (Cons c r)
    have s: "s = ?w @ c # r" by (metis Cons takeWhile_dropWhile_id)
    have c: "?P c" using Cons by (metis (mono_tags, lifting) hd_dropWhile list.distinct(1) list.sel(1))
    have "c \<in> set s" by (subst s) simp
    let ?b = "p + length ?w"
    have sep: "strsep m p q = Some (m(?b \<mapsto> 0), Suc ?b, p)"
    proof -
      have "m ?b \<noteq> None" using less.prems(1) by (subst (asm) s) (simp add: cstr_append cstr_Cons)
      then show ?thesis using strpbrk_spec [OF less.prems(1,2)] c \<open>c \<in> set s\<close> less.prems(3)
        by (auto simp: strsep_def null_def)
    qed
    have "disjnt_rng p (length (?w @ c # r)) q (Suc (length del))" "cstr m p (?w @ c # r)"
      using less.prems(1,4) s by simp_all
    note rest = cut_rest [OF this(2) less.prems(2) this(1) refl]
    have "length r < length s" by (subst s) simp
    then obtain m' ts where ih: "strsep_all (m(?b \<mapsto> 0)) (Suc ?b) q = Some (m', ts)"
        "cut_state (m(?b \<mapsto> 0)) m' (Suc ?b) (length r) ts (fields_of ?P r)"
      using less.hyps [OF _ rest(1,2) _ rest(3)] by auto
    have "strsep_all m p q = Some (m', p # ts)"
      using sep ih(1) less.prems(3) by (subst strsep_all.simps) (simp add: null_def)
    moreover have "cut_state m m' p (?b + 1 + length r - p) (p # ts) (?w # fields_of ?P r)"
      using ih(2) \<open>cstr m p (?w @ c # r)\<close> by (intro cut_stateI) (auto simp: cstr_append)
    moreover have "fields_of ?P s = ?w # fields_of ?P r" by (subst s, rule fields_cut(1) [OF w c])
    moreover have "?b + 1 + length r - p = length s" using arg_cong [OF s, of length] by simp
    ultimately show ?thesis by metis
  qed
qed

text \<open>C18: A client that calls \<open>strtok_r\<close> until it returns \<open>NULL\<close> comes to an end, and the pointers it
  was given point to the tokens of the string: the pieces between delimiters that are not empty, in
  order. No byte outside the string has changed.\<close>

theorem strtok_tokens:
  assumes "cstr m p s" "cstr m q del" "p \<noteq> 0" "disjnt_rng p (length s) q (Suc (length del))"
  shows "\<exists>m' ts. strtok_all m p q sp = Some (m', ts) \<and>
    list_all2 (cstr m') ts (filter (\<lambda>w. w \<noteq> []) (fields_of (\<lambda>c. c \<in> set del) s)) \<and>
    (\<forall>a. a < p \<or> p + length s \<le> a \<longrightarrow> m' a = m a)"
  using strtok_all_spec [OF assms, of sp] by (auto simp: cut_state_def tokens_def)

theorem strtok_tokens_witness:
  "\<exists>m' ts. strtok_all (wr (wr (\<lambda>_. Some 0) 10 [44, 97, 44, 44, 98]) 20 [44]) 10 20 0 = Some (m', ts) \<and>
    list_all2 (cstr m') ts (filter (\<lambda>w. w \<noteq> []) (fields_of (\<lambda>c. c \<in> set [44]) [44, 97, 44, 44, 98]))"
proof -
  let ?m = "wr (wr (\<lambda>_. Some 0) 10 [44, 97, 44, 44, 98]) 20 [44] :: bmem"
  have "cstr ?m 10 [44, 97, 44, 44, 98]" "cstr ?m 20 [44]" by (simp_all add: cstr_def block_Cons wr_def)
  from strtok_tokens [OF this, of 0] show ?thesis by (auto simp: disjnt_rng_def)
qed

text \<open>A client that calls \<open>strsep\<close> until it returns \<open>NULL\<close> comes to an end, and the pointers it
  was given point to all fields of the string, the empty ones included: joined again with any
  delimiter they are as long as the string was.\<close>

theorem strsep_fields:
  assumes "cstr m p s" "cstr m q del" "p \<noteq> 0" "disjnt_rng p (length s) q (Suc (length del))"
  shows "\<exists>m' ts. strsep_all m p q = Some (m', ts) \<and> list_all2 (cstr m') ts (fields_of (\<lambda>c. c \<in> set del) s) \<and>
    (\<Sum>w\<leftarrow>fields_of (\<lambda>c. c \<in> set del) s. length w + 1) = length s + 1 \<and>
    (\<forall>a. a < p \<or> p + length s \<le> a \<longrightarrow> m' a = m a)"
proof -
  have "(\<Sum>w\<leftarrow>fields_of P s. length w + 1) = length s + 1" for P
  proof (induction P s rule: fields_of.induct)
    case (1 P s)
    let ?w = "takeWhile (\<lambda>c. \<not> P c) s" and ?r = "dropWhile (\<lambda>c. \<not> P c) s"
    have "length s = length ?w + length ?r" by (metis length_append takeWhile_dropWhile_id)
    then show ?case using 1 by (subst fields_of.simps) (auto split: list.splits)
  qed
  then show ?thesis using strsep_all_spec [OF assms] by (auto simp: cut_state_def)
qed

theorem strsep_fields_witness:
  "\<exists>m' ts. strsep_all (wr (wr (\<lambda>_. Some 0) 10 [44, 97, 44]) 20 [44]) 10 20 = Some (m', ts) \<and>
    list_all2 (cstr m') ts (fields_of (\<lambda>c. c \<in> set [44]) [44, 97, 44])"
proof -
  let ?m = "wr (wr (\<lambda>_. Some 0) 10 [44, 97, 44]) 20 [44] :: bmem"
  have "cstr ?m 10 [44, 97, 44]" "cstr ?m 20 [44]" by (simp_all add: cstr_def block_Cons wr_def)
  from strsep_fields [OF this] show ?thesis by (auto simp: disjnt_rng_def)
qed

end
