(* ===== verification/StrWord.thy ===== *)
theory StrWord
  imports StrSearch
begin

text \<open>
  The string routines that read the memory a machine word at a time: \<open>strchrnul\<close> and \<open>rawmemchr\<close>
  with their test for a zero byte in a 32-bit word, \<open>bcmp\<close> comparing longs and shorts where both
  pointers are even, and \<open>stpncpy\<close> with its loop unrolled four times. Each is equivalent to the
  search, the comparison or the copy that goes byte by byte. Words are stored with the most
  significant byte first.
\<close>

section \<open>Machine words in memory\<close>

definition bytes32 :: "byte \<Rightarrow> byte \<Rightarrow> byte \<Rightarrow> byte \<Rightarrow> u32" where
  "bytes32 b0 b1 b2 b3 = push_bit 24 (ucast b0) OR push_bit 16 (ucast b1) OR push_bit 8 (ucast b2) OR ucast b3"

definition ld32 :: "bmem \<Rightarrow> nat \<Rightarrow> u32 option" where
  "ld32 m p = do { b0 \<leftarrow> ld m p; b1 \<leftarrow> ld m (p + 1); b2 \<leftarrow> ld m (p + 2); b3 \<leftarrow> ld m (p + 3);
                   Some (bytes32 b0 b1 b2 b3) }"

definition ld16 :: "bmem \<Rightarrow> nat \<Rightarrow> 16 word option" where
  "ld16 m p = do { b0 \<leftarrow> ld m p; b1 \<leftarrow> ld m (p + 1); Some (push_bit 8 (ucast b0) OR ucast b1) }"

lemma ld32_block: "block m p [a, b, c, d] \<Longrightarrow> ld32 m p = Some (bytes32 a b c d)"
  by (simp add: ld32_def ld_def block_Cons numeral_2_eq_2 numeral_3_eq_3)

lemma ld16_block: "block m p [a, b] \<Longrightarrow> ld16 m p = Some (push_bit 8 (ucast a) OR ucast b)"
  by (simp add: ld16_def ld_def block_Cons)

lemma bit_bytes32:
  "bit (bytes32 b0 b1 b2 b3) n \<longleftrightarrow>
    (if n < 8 then bit b3 n else if n < 16 then bit b2 (n - 8)
     else if n < 24 then bit b1 (n - 16) else if n < 32 then bit b0 (n - 24) else False)"
  by (auto simp: bytes32_def bit_simps not_less dest: bit_imp_le_length)

lemma bytes32_xor:
  "bytes32 a b c d XOR bytes32 e f g h = bytes32 (a XOR e) (b XOR f) (c XOR g) (d XOR h)"
  by (rule bit_word_eqI) (simp add: bit_bytes32 bit_xor_iff)

lemma bytes32_eq_iff: "bytes32 a b c d = bytes32 e f g h \<longleftrightarrow> a = e \<and> b = f \<and> c = g \<and> d = h"
proof
  assume "bytes32 a b c d = bytes32 e f g h"
  then have "bit (bytes32 a b c d) n = bit (bytes32 e f g h) n" for n by simp
  note n = this [unfolded bit_bytes32]
  have "bit d n = bit h n" "bit c n = bit g n" "bit b n = bit f n" "bit a n = bit e n" if "n < 8" for n
    using n [of n] n [of "n + 8"] n [of "n + 16"] n [of "n + 24"] that by (simp_all split: if_splits)
  then show "a = e \<and> b = f \<and> c = g \<and> d = h" by (auto intro!: bit_word_eqI)
qed simp

lemma bytes16_eq_iff:
  "push_bit 8 (ucast (a :: byte)) OR ucast (b :: byte) = (push_bit 8 (ucast (e :: byte)) OR ucast (f :: byte) :: 16 word) \<longleftrightarrow>
    a = e \<and> b = f"
proof
  assume "push_bit 8 (ucast a) OR ucast b = (push_bit 8 (ucast e) OR ucast f :: 16 word)"
  then have n: "bit (push_bit 8 (ucast a) OR ucast b :: 16 word) n = bit (push_bit 8 (ucast e) OR ucast f :: 16 word) n" for n
    by simp
  have "bit b n = bit f n" "bit a n = bit e n" if "n < 8" for n
    using n [of n] n [of "n + 8"] that by (auto simp: bit_simps dest: bit_imp_le_length)
  then show "a = e \<and> b = f" by (auto intro!: bit_word_eqI)
qed simp

lemma bit_unat: "bit (unat w) k = bit w k"
  by (simp add: bit_unsigned_iff)

section \<open>A zero byte in a word\<close>

definition magic_bits :: u32 where "magic_bits = 0x7efefeff"

definition may_have_zero :: "u32 \<Rightarrow> bool" where
  "may_have_zero w \<longleftrightarrow> ((w + magic_bits) XOR NOT w) AND NOT magic_bits \<noteq> 0"

text \<open>A hole bit that no carry reaches is not changed by the addition.\<close>

lemma hole_unchanged:
  assumes "k < 32" "\<not> bit magic_bits k" "unat (take_bit k w) + unat (take_bit k magic_bits) < 2 ^ k"
  shows "may_have_zero w"
proof -
  let ?u = "unat w" and ?m = "unat magic_bits"
  have lt: "?u mod 2 ^ k + ?m mod 2 ^ k < 2 ^ k"
    using assms(3) by (simp only: unsigned_take_bit_eq take_bit_nat_def)
  have "\<not> bit ?m k" using assms(2) unfolding bit_unat .
  then have "\<not> odd (?m div 2 ^ k)" by (simp only: bit_iff_odd not_not)
  moreover have "(?u + ?m) div 2 ^ k = ?u div 2 ^ k + ?m div 2 ^ k"
    using lt div_add1_eq [of ?u ?m "2 ^ k"] by simp
  ultimately have "bit (?u + ?m) k = bit ?u k" by (simp add: bit_iff_odd)
  moreover have "unat (w + magic_bits) = take_bit 32 (?u + ?m)" by (simp add: unat_word_ariths take_bit_eq_mod)
  then have "bit (unat (w + magic_bits)) k = bit (?u + ?m) k" using assms(1) by (simp only: bit_take_bit_iff simp_thms)
  ultimately have "bit (w + magic_bits) k = bit w k" unfolding bit_unat by simp
  then have "bit (((w + magic_bits) XOR NOT w) AND NOT magic_bits) k"
    using assms(1,2) by (simp add: bit_simps)
  then show ?thesis unfolding may_have_zero_def by (metis bit_0_eq bot_apply bot_bool_def)
qed

lemma take_bit_zero_byte:
  assumes "\<And>j. n \<le> j \<Longrightarrow> j < k \<Longrightarrow> \<not> bit w j" "n \<le> k" "k \<le> 32"
  shows "unat (take_bit k (w :: u32)) < 2 ^ n"
proof -
  have "take_bit k w = take_bit n w"
  proof (rule bit_word_eqI)
    fix j
    show "bit (take_bit k w) j = bit (take_bit n w) j"
      using assms(1) [of j] assms(2) by (cases "n \<le> j") (auto simp: bit_take_bit_iff)
  qed
  then show ?thesis by (simp add: unsigned_take_bit_eq)
qed

lemma zero_byte_detected:
  assumes "b0 = 0 \<or> b1 = 0 \<or> b2 = 0 \<or> b3 = 0"
  shows "may_have_zero (bytes32 b0 b1 b2 b3)"
  using assms
proof (elim disjE)
  let ?w = "bytes32 b0 b1 b2 b3"
  assume "b3 = 0"
  then have "unat (take_bit 8 ?w) < 2 ^ 0" by (intro take_bit_zero_byte) (simp_all add: bit_bytes32)
  then show ?thesis by (intro hole_unchanged [of 8]) (simp_all add: magic_bits_def)
next
  let ?w = "bytes32 b0 b1 b2 b3"
  assume "b2 = 0"
  then have "unat (take_bit 16 ?w) < 2 ^ 8" by (intro take_bit_zero_byte) (simp_all add: bit_bytes32)
  then show ?thesis by (intro hole_unchanged [of 16]) (simp_all add: magic_bits_def)
next
  let ?w = "bytes32 b0 b1 b2 b3"
  assume "b1 = 0"
  then have "unat (take_bit 24 ?w) < 2 ^ 16" by (intro take_bit_zero_byte) (simp_all add: bit_bytes32)
  then show ?thesis by (intro hole_unchanged [of 24]) (simp_all add: magic_bits_def)
next
  let ?w = "bytes32 b0 b1 b2 b3"
  assume "b0 = 0"
  then have "unat (take_bit 31 ?w) < 2 ^ 24" by (intro take_bit_zero_byte) (simp_all add: bit_bytes32)
  then show ?thesis by (intro hole_unchanged [of 31]) (simp_all add: magic_bits_def)
qed

section \<open>strchrnul and rawmemchr\<close>

definition charmask :: "byte \<Rightarrow> u32" where
  "charmask c = (let m = ucast c OR push_bit 8 (ucast c) in m OR push_bit 16 m)"

lemma charmask_bytes: "charmask c = bytes32 c c c c"
  by (rule bit_word_eqI) (auto simp: charmask_def bit_bytes32 Let_def bit_simps dest: bit_imp_le_length)

text \<open>\<open>hit\<close> is the test on a byte: \<open>*cp == c || *cp == 0\<close> in the one, \<open>*cp == c\<close> in the other.\<close>

partial_function (option) chrnul_align :: "bmem \<Rightarrow> nat \<Rightarrow> byte \<Rightarrow> (nat \<times> bool) option" where
  "chrnul_align m char_ptr c =
    (if char_ptr mod 4 \<noteq> 0
     then do { x \<leftarrow> ld m char_ptr;
               if x = c \<or> x = 0 then Some (char_ptr, True) else chrnul_align m (char_ptr + 1) c }
     else Some (char_ptr, False))"

partial_function (option) chrnul_words :: "bmem \<Rightarrow> nat \<Rightarrow> byte \<Rightarrow> nat option" where
  "chrnul_words m cp c =
    do { longword \<leftarrow> ld32 m cp;
         if may_have_zero longword \<or> may_have_zero (longword XOR charmask c)
         then do { x \<leftarrow> ld m cp;
                   if x = c \<or> x = 0 then Some cp
                   else do { x \<leftarrow> ld m (cp + 1);
                   if x = c \<or> x = 0 then Some (cp + 1)
                   else do { x \<leftarrow> ld m (cp + 2);
                   if x = c \<or> x = 0 then Some (cp + 2)
                   else do { x \<leftarrow> ld m (cp + 3);
                   if x = c \<or> x = 0 then Some (cp + 3)
                   else chrnul_words m (cp + 4) c }}}}
         else chrnul_words m (cp + 4) c }"

definition strchrnul :: "bmem \<Rightarrow> nat \<Rightarrow> u32 \<Rightarrow> nat option" where
  "strchrnul m s c_in =
    do { (char_ptr, found) \<leftarrow> chrnul_align m s (ucast c_in);
         if found then Some char_ptr else chrnul_words m char_ptr (ucast c_in) }"

partial_function (option) raw_align :: "bmem \<Rightarrow> nat \<Rightarrow> byte \<Rightarrow> (nat \<times> bool) option" where
  "raw_align m char_ptr c =
    (if char_ptr mod 4 \<noteq> 0
     then do { x \<leftarrow> ld m char_ptr;
               if x = c then Some (char_ptr, True) else raw_align m (char_ptr + 1) c }
     else Some (char_ptr, False))"

partial_function (option) raw_words :: "bmem \<Rightarrow> nat \<Rightarrow> byte \<Rightarrow> nat option" where
  "raw_words m cp c =
    do { longword \<leftarrow> ld32 m cp;
         if may_have_zero (longword XOR charmask c)
         then do { x \<leftarrow> ld m cp;
                   if x = c then Some cp
                   else do { x \<leftarrow> ld m (cp + 1);
                   if x = c then Some (cp + 1)
                   else do { x \<leftarrow> ld m (cp + 2);
                   if x = c then Some (cp + 2)
                   else do { x \<leftarrow> ld m (cp + 3);
                   if x = c then Some (cp + 3)
                   else raw_words m (cp + 4) c }}}}
         else raw_words m (cp + 4) c }"

definition rawmemchr :: "bmem \<Rightarrow> nat \<Rightarrow> u32 \<Rightarrow> nat option" where
  "rawmemchr m s c =
    do { (char_ptr, found) \<leftarrow> raw_align m s (ucast c);
         if found then Some char_ptr else raw_words m char_ptr (ucast c) }"

text \<open>The word that holds the byte at \<open>e\<close> is mapped to its end.\<close>

definition word_mapped :: "bmem \<Rightarrow> nat \<Rightarrow> bool" where
  "word_mapped m e \<longleftrightarrow> (\<forall>a. e \<le> a \<and> a div 4 = e div 4 \<longrightarrow> m a \<noteq> None)"

text \<open>Both loops step over four cells that the search passes, and stop at the first other cell.\<close>

lemma four_cells:
  assumes "cp mod 4 = 0" "block m cp w" "m (cp + length w) = Some e" "word_mapped m (cp + length w)"
  obtains (pass) a b c d t where "w = a # b # c # d # t"
  | (stop) x0 x1 x2 x3 where "length w < 4" "block m cp [x0, x1, x2, x3]" "[x0, x1, x2, x3] ! length w = e"
      "take (length w) [x0, x1, x2, x3] = w"
proof (cases "length w < 4")
  case True
  have "m (cp + i) \<noteq> None" if "i < 4" for i
  proof (cases "i < length w")
    case True
    then show ?thesis using block_nth [OF assms(2)] by simp
  next
    case False
    have "cp div 4 * 4 = cp" using assms(1) by auto
    then have "(cp + i) div 4 = cp div 4" "(cp + length w) div 4 = cp div 4" using \<open>i < 4\<close> True by auto
    then show ?thesis using assms(4) False unfolding word_mapped_def by simp
  qed
  then have "mapped m cp 4" by (simp add: mapped_def)
  then obtain xs where xs: "length xs = 4" "block m cp xs" using mapped_block by blast
  then obtain x0 x1 x2 x3 where x: "xs = [x0, x1, x2, x3]"
    by (auto simp: eval_nat_numeral length_Suc_conv)
  have "xs ! length w = e" using block_nth [OF xs(2), of "length w"] assms(3) True xs(1) by simp
  moreover have "take (length w) xs = w"
    using block_unique [OF block_take [OF xs(2), of "length w"] assms(2)] True xs(1) by simp
  ultimately show ?thesis using stop True xs(2) x by blast
next
  case False
  then obtain a b c d t where "w = a # b # c # d # t"
    by (auto simp: eval_nat_numeral Suc_le_length_iff not_less)
  then show ?thesis by (rule pass)
qed

lemma four_stop:
  assumes "length w < 4" "[x0, x1, x2, x3] ! length w = e" "take (length w) [x0, x1, x2, x3] = w"
    and "P e" "\<forall>x\<in>set w. \<not> P x"
  obtains "length w = 0" "P x0" | "length w = 1" "\<not> P x0" "P x1" | "length w = 2" "\<not> P x0" "\<not> P x1" "P x2"
  | "length w = 3" "\<not> P x0" "\<not> P x1" "\<not> P x2" "P x3"
proof -
  have "\<forall>x\<in>set (take (length w) [x0, x1, x2, x3]). \<not> P x" "P ([x0, x1, x2, x3] ! length w)"
    using assms(2-5) by simp_all
  moreover have "length w = 0 \<or> length w = 1 \<or> length w = 2 \<or> length w = 3" using assms(1) by arith
  ultimately show ?thesis using that by (elim disjE) (simp_all add: eval_nat_numeral)
qed

lemma flagged:
  "x0 = 0 \<or> x1 = 0 \<or> x2 = 0 \<or> x3 = 0 \<Longrightarrow> may_have_zero (bytes32 x0 x1 x2 x3)"
  "x0 = c \<or> x1 = c \<or> x2 = c \<or> x3 = c \<Longrightarrow> may_have_zero (bytes32 x0 x1 x2 x3 XOR charmask c)"
  by (auto simp: charmask_bytes bytes32_xor intro!: zero_byte_detected)

text \<open>The search result: the first byte that is \<open>c\<close> or zero, or that is \<open>c\<close>.\<close>

lemma chrnul_words_spec:
  assumes "cp mod 4 = 0" "block m cp w" "m (cp + length w) = Some e" "e = c \<or> e = 0"
    and "\<forall>x\<in>set w. x \<noteq> c \<and> x \<noteq> 0" "word_mapped m (cp + length w)"
  shows "chrnul_words m cp c = Some (cp + length w)"
  using assms
proof (induction "length w" arbitrary: cp w rule: less_induct)
  case less
  show ?case
  proof (cases rule: four_cells [OF less.prems(1,2,3,6)])
    case (1 x0 x1 x2 x3 t)
    have ld: "ld32 m cp = Some (bytes32 x0 x1 x2 x3)" using less.prems(2) 1
      by (intro ld32_block) (simp add: block_Cons)
    have cells: "m cp = Some x0" "m (Suc cp) = Some x1" "m (Suc (Suc cp)) = Some x2" "m (Suc (Suc (Suc cp))) = Some x3"
      "block m (cp + 4) t" using less.prems(2) 1 by (simp_all add: block_Cons eval_nat_numeral)
    have e: "cp + length w = cp + 4 + length t" using 1 by simp
    have "(cp + 4) mod 4 = 0" using less.prems(1) by simp
    then have "chrnul_words m (cp + 4) c = Some (cp + 4 + length t)"
      using less.hyps [OF _ _ cells(5) less.prems(3) [unfolded e]] less.prems(4,5) less.prems(6) [unfolded e] 1 by simp
    moreover have "chrnul_words m cp c = chrnul_words m (cp + 4) c"
      using ld cells less.prems(5) 1 by (subst chrnul_words.simps) (simp add: ld_def eval_nat_numeral)
    ultimately show ?thesis using 1 by simp
  next
    case (2 x0 x1 x2 x3)
    have ld: "ld32 m cp = Some (bytes32 x0 x1 x2 x3)" using 2(2) by (rule ld32_block)
    have cells: "m cp = Some x0" "m (Suc cp) = Some x1" "m (Suc (Suc cp)) = Some x2" "m (Suc (Suc (Suc cp))) = Some x3"
      using 2(2) by (simp_all add: block_Cons)
    have "may_have_zero (bytes32 x0 x1 x2 x3) \<or> may_have_zero (bytes32 x0 x1 x2 x3 XOR charmask c)"
      using flagged(1) [of x0 x1 x2 x3] flagged(2) [of x0 c x1 x2 x3] less.prems(4) 2(1,3) by (auto simp: less_Suc_eq eval_nat_numeral)
    note flag = this
    have P: "e = c \<or> e = 0" "\<forall>x\<in>set w. \<not> (x = c \<or> x = 0)" using less.prems(4,5) by auto
    show ?thesis
      by (rule four_stop [where P = "\<lambda>x. x = c \<or> x = 0", OF 2(1,3,4) P])
        (use flag ld cells in \<open>subst chrnul_words.simps, simp add: ld_def eval_nat_numeral\<close>)+
  qed
qed

lemma raw_words_spec:
  assumes "cp mod 4 = 0" "block m cp w" "m (cp + length w) = Some c"
    and "c \<notin> set w" "word_mapped m (cp + length w)"
  shows "raw_words m cp c = Some (cp + length w)"
  using assms
proof (induction "length w" arbitrary: cp w rule: less_induct)
  case less
  have ne: "\<forall>x\<in>set w. x \<noteq> c" using less.prems(4) by metis
  show ?case
  proof (cases rule: four_cells [OF less.prems(1,2,3,5)])
    case (1 x0 x1 x2 x3 t)
    have ld: "ld32 m cp = Some (bytes32 x0 x1 x2 x3)" using less.prems(2) 1
      by (intro ld32_block) (simp add: block_Cons)
    have cells: "m cp = Some x0" "m (Suc cp) = Some x1" "m (Suc (Suc cp)) = Some x2" "m (Suc (Suc (Suc cp))) = Some x3"
      "block m (cp + 4) t" using less.prems(2) 1 by (simp_all add: block_Cons eval_nat_numeral)
    have e: "cp + length w = cp + 4 + length t" using 1 by simp
    have "(cp + 4) mod 4 = 0" using less.prems(1) by simp
    then have "raw_words m (cp + 4) c = Some (cp + 4 + length t)"
      using less.hyps [OF _ _ cells(5) less.prems(3) [unfolded e]] less.prems(4,5) less.prems(5) [unfolded e] 1 by simp
    moreover have "raw_words m cp c = raw_words m (cp + 4) c"
      using ld cells ne 1 by (subst raw_words.simps) (simp add: ld_def eval_nat_numeral)
    ultimately show ?thesis using 1 by simp
  next
    case (2 x0 x1 x2 x3)
    have ld: "ld32 m cp = Some (bytes32 x0 x1 x2 x3)" using 2(2) by (rule ld32_block)
    have cells: "m cp = Some x0" "m (Suc cp) = Some x1" "m (Suc (Suc cp)) = Some x2" "m (Suc (Suc (Suc cp))) = Some x3"
      using 2(2) by (simp_all add: block_Cons)
    have "may_have_zero (bytes32 x0 x1 x2 x3 XOR charmask c)"
      using flagged(2) [of x0 c x1 x2 x3] 2(1,3) by (auto simp: less_Suc_eq eval_nat_numeral)
    note flag = this
    show ?thesis
      by (rule four_stop [where P = "\<lambda>x. x = c", OF 2(1,3,4) refl ne])
        (use flag ld cells in \<open>subst raw_words.simps, simp add: ld_def eval_nat_numeral\<close>)+
  qed
qed

lemma chrnul_align_spec:
  assumes "block m p w" "m (p + length w) = Some e" "e = c \<or> e = 0" "\<forall>x\<in>set w. x \<noteq> c \<and> x \<noteq> 0"
  shows "chrnul_align m p c = Some (p + length w, True) \<or>
    (\<exists>k\<le>length w. (p + k) mod 4 = 0 \<and> chrnul_align m p c = Some (p + k, False))"
  using assms
proof (induction w arbitrary: p)
  case Nil
  then show ?case by (cases "p mod 4 = 0") (auto simp: chrnul_align.simps [of m p c] ld_def)
next
  case (Cons x w)
  show ?case
  proof (cases "p mod 4 = 0")
    case True
    then show ?thesis by (intro disjI2 exI [of _ 0]) (simp add: chrnul_align.simps [of m p c])
  next
    case False
    then have step: "chrnul_align m p c = chrnul_align m (Suc p) c"
      using Cons.prems by (subst chrnul_align.simps) (simp add: block_Cons ld_def)
    have "chrnul_align m (Suc p) c = Some (Suc p + length w, True) \<or>
      (\<exists>k\<le>length w. (Suc p + k) mod 4 = 0 \<and> chrnul_align m (Suc p) c = Some (Suc p + k, False))"
      using Cons.prems by (intro Cons.IH) (simp_all add: block_Cons)
    then show ?thesis
    proof (elim disjE exE conjE)
      fix k
      assume "k \<le> length w" "(Suc p + k) mod 4 = 0" "chrnul_align m (Suc p) c = Some (Suc p + k, False)"
      then show ?thesis using step by (intro disjI2 exI [of _ "Suc k"]) simp
    qed (simp add: step)
  qed
qed

lemma raw_align_spec:
  assumes "block m p w" "m (p + length w) = Some c" "\<forall>x\<in>set w. x \<noteq> c"
  shows "raw_align m p c = Some (p + length w, True) \<or>
    (\<exists>k\<le>length w. (p + k) mod 4 = 0 \<and> raw_align m p c = Some (p + k, False))"
  using assms
proof (induction w arbitrary: p)
  case Nil
  then show ?case by (cases "p mod 4 = 0") (auto simp: raw_align.simps [of m p c] ld_def)
next
  case (Cons x w)
  show ?case
  proof (cases "p mod 4 = 0")
    case True
    then show ?thesis by (intro disjI2 exI [of _ 0]) (simp add: raw_align.simps [of m p c])
  next
    case False
    then have step: "raw_align m p c = raw_align m (Suc p) c"
      using Cons.prems by (subst raw_align.simps) (simp add: block_Cons ld_def)
    have "raw_align m (Suc p) c = Some (Suc p + length w, True) \<or>
      (\<exists>k\<le>length w. (Suc p + k) mod 4 = 0 \<and> raw_align m (Suc p) c = Some (Suc p + k, False))"
      using Cons.prems by (intro Cons.IH) (simp_all add: block_Cons)
    then show ?thesis
    proof (elim disjE exE conjE)
      fix k
      assume "k \<le> length w" "(Suc p + k) mod 4 = 0" "raw_align m (Suc p) c = Some (Suc p + k, False)"
      then show ?thesis using step by (intro disjI2 exI [of _ "Suc k"]) simp
    qed (simp add: step)
  qed
qed

lemma strchrnul_spec:
  assumes "block m p w" "m (p + length w) = Some e" "e = ucast c \<or> e = 0"
    and "\<forall>x\<in>set w. x \<noteq> ucast c \<and> x \<noteq> 0" "word_mapped m (p + length w)"
  shows "strchrnul m p c = Some (p + length w)"
  using chrnul_align_spec [OF assms(1-4)]
proof (elim disjE exE conjE)
  fix k
  assume k: "k \<le> length w" "(p + k) mod 4 = 0" "chrnul_align m p (ucast c) = Some (p + k, False)"
  then have e: "p + length w = p + k + length (drop k w)" by simp
  have "chrnul_words m (p + k) (ucast c) = Some (p + k + length (drop k w))"
    using assms(4) by (intro chrnul_words_spec [OF k(2) block_drop [OF assms(1) k(1)] assms(2) [unfolded e] assms(3) _
      assms(5) [unfolded e]]) (blast dest: in_set_dropD)
  then show ?thesis using k by (simp add: strchrnul_def)
qed (simp add: strchrnul_def)

lemma rawmemchr_spec:
  assumes "block m p w" "m (p + length w) = Some (ucast c)" "\<forall>x\<in>set w. x \<noteq> ucast c" "word_mapped m (p + length w)"
  shows "rawmemchr m p c = Some (p + length w)"
  using raw_align_spec [OF assms(1-3)]
proof (elim disjE exE conjE)
  fix k
  assume k: "k \<le> length w" "(p + k) mod 4 = 0" "raw_align m p (ucast c) = Some (p + k, False)"
  then have e: "p + length w = p + k + length (drop k w)" by simp
  have "raw_words m (p + k) (ucast c) = Some (p + k + length (drop k w))"
    using assms(3) by (intro raw_words_spec [OF k(2) block_drop [OF assms(1) k(1)] assms(2) [unfolded e] _
      assms(4) [unfolded e]]) (blast dest: in_set_dropD)
  then show ?thesis using k by (simp add: rawmemchr_def)
qed (simp add: rawmemchr_def)

section \<open>bcmp\<close>

fun bcmp_longs :: "bmem \<Rightarrow> nat \<Rightarrow> nat \<Rightarrow> nat \<Rightarrow> (bool \<times> nat \<times> nat) option" where
  "bcmp_longs m dst src 0 = Some (False, dst, src)"
| "bcmp_longs m dst src (Suc l) =
    do { x \<leftarrow> ld32 m dst; y \<leftarrow> ld32 m src;
         if x \<noteq> y then Some (True, dst, src) else bcmp_longs m (dst + 4) (src + 4) l }"

fun bcmp_words :: "bmem \<Rightarrow> nat \<Rightarrow> nat \<Rightarrow> nat \<Rightarrow> (bool \<times> nat \<times> nat) option" where
  "bcmp_words m dst src 0 = Some (False, dst, src)"
| "bcmp_words m dst src (Suc w) =
    do { x \<leftarrow> ld16 m dst; y \<leftarrow> ld16 m src;
         if x \<noteq> y then Some (True, dst, src) else bcmp_words m (dst + 2) (src + 2) w }"

fun bcmp_bytes :: "bmem \<Rightarrow> nat \<Rightarrow> nat \<Rightarrow> nat \<Rightarrow> bool option" where
  "bcmp_bytes m dst src 0 = Some False"
| "bcmp_bytes m dst src (Suc n) =
    do { x \<leftarrow> ld m dst; y \<leftarrow> ld m src;
         if x \<noteq> y then Some True else bcmp_bytes m (dst + 1) (src + 1) n }"

definition bcmp_even :: "bmem \<Rightarrow> nat \<Rightarrow> nat \<Rightarrow> nat \<Rightarrow> bool option" where
  "bcmp_even m dst src n =
    do { (differ, dst, src) \<leftarrow> bcmp_longs m dst src (n div 4);
         if differ then Some True
         else do { (differ, dst, src) \<leftarrow> bcmp_words m dst src (n mod 4 div 2);
                   if differ then Some True else bcmp_bytes m dst src (n mod 4 mod 2) } }"

text \<open>A null pointer makes the assertion fail.\<close>

definition bcmp :: "bmem \<Rightarrow> nat \<Rightarrow> nat \<Rightarrow> nat \<Rightarrow> bool option" where
  "bcmp m src dst n =
    (if src = null \<or> dst = null then None
     else if src \<noteq> dst \<and> n > 0
     then (case src mod 2 + dst mod 2 of
             Suc (Suc 0) \<Rightarrow>
               do { x \<leftarrow> ld m dst; y \<leftarrow> ld m src;
                    if x \<noteq> y then Some True else bcmp_even m (dst + 1) (src + 1) (n - 1) }
           | 0 \<Rightarrow> bcmp_even m dst src n
           | _ \<Rightarrow> bcmp_bytes m dst src n)
     else Some False)"

lemma bcmp_bytes_spec:
  "block m p xs \<Longrightarrow> block m q ys \<Longrightarrow> length xs = n \<Longrightarrow> length ys = n \<Longrightarrow> bcmp_bytes m p q n = Some (xs \<noteq> ys)"
proof (induction n arbitrary: p q xs ys)
  case (Suc n)
  then show ?case by (cases xs; cases ys) (auto simp: block_Cons ld_def)
qed simp

lemma bcmp_words_spec:
  assumes "block m p xs" "block m q ys" "length xs = 2 * l" "length ys = 2 * l"
  shows "\<exists>p' q'. bcmp_words m p q l = Some (xs \<noteq> ys, p', q') \<and> (xs = ys \<longrightarrow> p' = p + 2 * l \<and> q' = q + 2 * l)"
  using assms
proof (induction l arbitrary: p q xs ys)
  case (Suc l)
  obtain a b s where xs: "xs = a # b # s" using Suc.prems(3) by (auto simp: length_Suc_conv)
  obtain c d t where ys: "ys = c # d # t" using Suc.prems(4) by (auto simp: length_Suc_conv)
  have "ld16 m p = Some (push_bit 8 (ucast a) OR ucast b)" "ld16 m q = Some (push_bit 8 (ucast c) OR ucast d)"
    using Suc.prems(1,2) xs ys by (simp_all add: ld16_block block_Cons)
  moreover have "\<exists>p' q'. bcmp_words m (p + 2) (q + 2) l = Some (s \<noteq> t, p', q') \<and>
      (s = t \<longrightarrow> p' = p + 2 + 2 * l \<and> q' = q + 2 + 2 * l)"
    using Suc.prems xs ys by (intro Suc.IH) (simp_all add: block_Cons)
  ultimately show ?case using xs ys by (auto simp: bytes16_eq_iff)
qed simp

lemma bcmp_longs_spec:
  assumes "block m p xs" "block m q ys" "length xs = 4 * l" "length ys = 4 * l"
  shows "\<exists>p' q'. bcmp_longs m p q l = Some (xs \<noteq> ys, p', q') \<and> (xs = ys \<longrightarrow> p' = p + 4 * l \<and> q' = q + 4 * l)"
  using assms
proof (induction l arbitrary: p q xs ys)
  case (Suc l)
  have l: "4 * Suc l = Suc (Suc (Suc (Suc (4 * l))))" by simp
  obtain a b c d s where xs: "xs = a # b # c # d # s"
    using Suc.prems(3) unfolding l by (auto simp: length_Suc_conv)
  obtain e f g h t where ys: "ys = e # f # g # h # t"
    using Suc.prems(4) unfolding l by (auto simp: length_Suc_conv)
  have "ld32 m p = Some (bytes32 a b c d)" "ld32 m q = Some (bytes32 e f g h)"
    using Suc.prems(1,2) xs ys by (simp_all add: ld32_block block_Cons)
  moreover have "\<exists>p' q'. bcmp_longs m (p + 4) (q + 4) l = Some (s \<noteq> t, p', q') \<and>
      (s = t \<longrightarrow> p' = p + 4 + 4 * l \<and> q' = q + 4 + 4 * l)"
    using Suc.prems xs ys by (intro Suc.IH) (simp_all add: block_Cons eval_nat_numeral)
  ultimately show ?case using xs ys by (auto simp: bytes32_eq_iff)
qed simp

lemma bcmp_even_spec:
  assumes "block m p xs" "block m q ys" "length xs = n" "length ys = n"
  shows "bcmp_even m p q n = Some (xs \<noteq> ys)"
proof -
  define l where "l = n div 4"
  define w where "w = n mod 4 div 2"
  define r where "r = n mod 4 mod 2"
  have n: "n = 4 * l + 2 * w + r"
    using mult_div_mod_eq [of 4 n] mult_div_mod_eq [of 2 "n mod 4"] unfolding l_def w_def r_def by linarith
  let ?a = "\<lambda>xs. take (4 * l) xs" and ?b = "\<lambda>xs. take (2 * w) (drop (4 * l) xs)" and ?c = "\<lambda>xs. drop (4 * l + 2 * w) xs"
  have split: "us = ?a us @ ?b us @ ?c us" for us :: "byte list"
    by (metis append_take_drop_id drop_drop add.commute)
  have blk: "block m a (?a us)" "block m (a + 4 * l) (?b us)" "block m (a + (4 * l + 2 * w)) (?c us)"
      "length (?a us) = 4 * l" "length (?b us) = 2 * w" "length (?c us) = r"
    if "block m a us" "length us = n" for a us
    using that n block_drop [OF that(1), of "4 * l"] block_drop [OF that(1), of "4 * l + 2 * w"]
    by (simp_all add: block_take)
  note X = blk [OF assms(1,3)] and Y = blk [OF assms(2,4)]
  obtain p1 q1 where l: "bcmp_longs m p q l = Some (?a xs \<noteq> ?a ys, p1, q1)"
      "?a xs = ?a ys \<longrightarrow> p1 = p + 4 * l \<and> q1 = q + 4 * l"
    using bcmp_longs_spec [OF X(1) Y(1) X(4) Y(4)] by blast
  obtain p2 q2 where w: "bcmp_words m (p + 4 * l) (q + 4 * l) w = Some (?b xs \<noteq> ?b ys, p2, q2)"
      "?b xs = ?b ys \<longrightarrow> p2 = p + (4 * l + 2 * w) \<and> q2 = q + (4 * l + 2 * w)"
    using bcmp_words_spec [OF X(2) Y(2) X(5) Y(5)] by (auto simp: add.assoc)
  note b = bcmp_bytes_spec [OF X(3) Y(3) X(6) Y(6)]
  have "xs = ys \<longleftrightarrow> ?a xs = ?a ys \<and> ?b xs = ?b ys \<and> ?c xs = ?c ys"
  proof
    assume e: "?a xs = ?a ys \<and> ?b xs = ?b ys \<and> ?c xs = ?c ys"
    have "xs = ?a xs @ ?b xs @ ?c xs" by (rule split)
    also have "\<dots> = ?a ys @ ?b ys @ ?c ys" using e by simp
    also have "\<dots> = ys" by (rule split [symmetric])
    finally show "xs = ys" .
  qed simp
  then show ?thesis using l w b by (auto simp: bcmp_even_def simp flip: l_def w_def r_def)
qed

lemma bcmp_spec:
  assumes "block m p xs" "block m q ys" "length xs = n" "length ys = n" "p \<noteq> 0" "q \<noteq> 0"
  shows "bcmp m p q n = Some (xs \<noteq> ys)"
proof (cases "p = q \<or> n = 0")
  case True
  then have "xs = ys" using assms block_unique [of m p xs ys] by auto
  then show ?thesis using True assms(5,6) by (auto simp: bcmp_def null_def)
next
  case False
  then obtain x s y t where c: "xs = x # s" "ys = y # t" using assms(3,4) by (cases xs; cases ys) auto
  have o: "bcmp_even m (q + 1) (p + 1) (n - 1) = Some (t \<noteq> s)" "m q = Some y" "m p = Some x"
    using assms c bcmp_even_spec [of m "q + 1" t "p + 1" s "n - 1"] by (auto simp: block_Cons)
  have "p mod 2 + q mod 2 = 0 \<or> p mod 2 + q mod 2 = 1 \<or> p mod 2 + q mod 2 = 2" by presburger
  then show ?thesis
    using False assms(5,6) o c bcmp_even_spec [OF assms(2,1,4,3)] bcmp_bytes_spec [OF assms(2,1,4,3)]
    by (elim disjE) (auto simp: bcmp_def null_def ld_def eval_nat_numeral)
qed

section \<open>stpncpy\<close>

text \<open>One round of the copy: the byte that was copied, with both pointers advanced.\<close>

definition stp_char :: "bmem \<Rightarrow> nat \<Rightarrow> nat \<Rightarrow> (bmem \<times> nat \<times> nat \<times> byte) option" where
  "stp_char m dest src = do { c \<leftarrow> ld m src; m \<leftarrow> st m dest c; Some (m, dest + 1, src + 1, c) }"

partial_function (option) stp_quads :: "bmem \<Rightarrow> nat \<Rightarrow> nat \<Rightarrow> nat \<Rightarrow> (bmem \<times> nat \<times> nat \<times> bool) option" where
  "stp_quads m dest src n4 =
    do { (m, dest, src, c) \<leftarrow> stp_char m dest src;
         if c = 0 then Some (m, dest, src, True)
         else do { (m, dest, src, c) \<leftarrow> stp_char m dest src;
         if c = 0 then Some (m, dest, src, True)
         else do { (m, dest, src, c) \<leftarrow> stp_char m dest src;
         if c = 0 then Some (m, dest, src, True)
         else do { (m, dest, src, c) \<leftarrow> stp_char m dest src;
         if c = 0 then Some (m, dest, src, True)
         else if n4 - 1 = 0 then Some (m, dest, src, False) else stp_quads m dest src (n4 - 1) }}}}"

partial_function (option) stp_tail :: "bmem \<Rightarrow> nat \<Rightarrow> nat \<Rightarrow> nat \<Rightarrow> (bmem \<times> nat \<times> nat \<times> bool) option" where
  "stp_tail m dest src n =
    do { (m, dest, src, c) \<leftarrow> stp_char m dest src;
         if c = 0 then Some (m, dest, n - 1, True)
         else if n - 1 = 0 then Some (m, dest, 0, False) else stp_tail m dest src (n - 1) }"

fun stp_zero :: "bmem \<Rightarrow> nat \<Rightarrow> nat \<Rightarrow> bmem option" where
  "stp_zero m dest 0 = Some m"
| "stp_zero m dest (Suc n) = do { m \<leftarrow> st m (dest + n) 0; stp_zero m dest n }"

definition stp_last :: "bmem \<Rightarrow> nat \<Rightarrow> nat \<Rightarrow> nat \<Rightarrow> (bmem \<times> nat) option" where
  "stp_last m dest src n =
    (if n mod 4 = 0 then Some (m, dest)
     else do { (m, dest, n, ended) \<leftarrow> stp_tail m dest src (n mod 4);
               if ended then do { m \<leftarrow> stp_zero m dest n; Some (m, dest - 1) } else Some (m, dest) })"

definition stpncpy :: "bmem \<Rightarrow> nat \<Rightarrow> nat \<Rightarrow> nat \<Rightarrow> (bmem \<times> nat) option" where
  "stpncpy m s src n =
    (if n \<ge> 4
     then do { (m, dest, src, ended) \<leftarrow> stp_quads m s src (n div 4);
               if ended then do { m \<leftarrow> stp_zero m dest (n - (dest - s)); Some (m, dest - 1) }
               else stp_last m dest src n }
     else stp_last m s src n)"

text \<open>The unrolled loop does what the loop of \<open>strlcpy\<close> does, and so does the rest loop.\<close>

lemma stp_char_cases:
  "stp_char m d s = (case ld m s of None \<Rightarrow> None | Some c \<Rightarrow>
     (case st m d c of None \<Rightarrow> None | Some m' \<Rightarrow> Some (m', d + 1, s + 1, c)))"
  by (simp add: stp_char_def split: option.split)

lemma strlcpy_loop_cases:
  "strlcpy_loop m d s (Suc n) = (case stp_char m d s of None \<Rightarrow> None | Some (m, d, s, c) \<Rightarrow>
     if c = 0 then Some (m, d, s, Suc n) else strlcpy_loop m d s n)"
  by (auto simp: stp_char_cases split: option.split)

lemma stp_quads_eq:
  "stp_quads m d s (Suc k) = map_option (\<lambda>(m, d, s, n). (m, d, s, n \<noteq> 0)) (strlcpy_loop m d s (4 * Suc k))"
proof (induction k arbitrary: m d s)
  case 0
  then show ?case
    by (subst stp_quads.simps) (simp add: eval_nat_numeral strlcpy_loop_cases del: strlcpy_loop.simps(2) split: option.split)
next
  case (Suc k)
  have "4 * Suc (Suc k) = Suc (Suc (Suc (Suc (4 * Suc k))))" by simp
  then show ?case
    by (subst stp_quads.simps)
      (simp add: Suc.IH strlcpy_loop_cases del: strlcpy_loop.simps(2) mult_Suc_right split: option.split)
qed

lemma stp_tail_eq:
  "stp_tail m d s (Suc k) = map_option (\<lambda>(m, d, s, n). (m, d, n - 1, n \<noteq> 0)) (strlcpy_loop m d s (Suc k))"
proof (induction k arbitrary: m d s)
  case 0
  then show ?case
    by (subst stp_tail.simps) (simp add: strlcpy_loop_cases del: strlcpy_loop.simps(2) split: option.split)
next
  case (Suc k)
  then show ?case
    by (subst stp_tail.simps) (subst strlcpy_loop_cases, simp del: strlcpy_loop.simps(2) split: option.split)
qed

lemma stp_zero_spec: "mapped m d n \<Longrightarrow> stp_zero m d n = Some (wr m d (replicate n 0))"
proof (induction n arbitrary: m)
  case (Suc n)
  have "mapped m d n" "m (d + n) \<noteq> None" using Suc.prems by (auto simp: mapped_def)
  then have "stp_zero m d (Suc n) = Some (wr (m(d + n \<mapsto> 0)) d (replicate n 0))" using Suc.IH [of "m(d + n \<mapsto> 0)"]
    by (simp del: fun_upd_apply)
  also have "wr (m(d + n \<mapsto> 0)) d (replicate n 0) = wr m d (replicate n 0 @ [0])"
    using wr_snoc_before [of m d "replicate n (0 :: byte)" 0] by simp
  finally show ?case by (simp add: replicate_append_same)
qed simp

lemma stp_last_spec:
  assumes "cstr m q s" "mapped m p (n mod 4)" "disjnt_rng p (n mod 4) q (Suc (length s))" "k = n mod 4"
  shows "stp_last m p q n = Some (wr m p (take k s @ replicate (k - length s) 0), p + min k (length s))"
proof (cases k)
  case 0
  then show ?thesis using assms(4) by (simp add: stp_last_def)
next
  case (Suc j)
  have mp: "mapped m p k" and l: "strlcpy_loop m p q k =
      (if length s < k then Some (wr m p (s @ [0]), p + length s + 1, q + length s + 1, k - length s)
       else Some (wr m p (take k s), p + k, q + k, 0))"
    using strlcpy_loop_spec [OF assms(1-3)] assms(2,4) by simp_all
  have t: "stp_tail m p q k = map_option (\<lambda>(m, d, s, n). (m, d, n - 1, n \<noteq> 0)) (strlcpy_loop m p q k)"
    unfolding Suc by (rule stp_tail_eq)
  show ?thesis
  proof (cases "length s < k")
    case True
    have "mapped m (p + (length s + 1)) (k - length s - 1)"
      using mp True mapped_add [of m p "length s + 1" "k - length s - 1"] by simp
    then have "stp_zero (wr m p (s @ [0])) (p + length s + 1) (k - length s - 1) =
        Some (wr (wr m p (s @ [0])) (p + length s + 1) (replicate (k - length s - 1) 0))"
      by (intro stp_zero_spec mapped_wr) (simp add: add.assoc)
    also have "wr (wr m p (s @ [0])) (p + length s + 1) (replicate (k - length s - 1) 0) =
        wr m p ((s @ [0]) @ replicate (k - length s - 1) 0)" by (subst wr_append) simp
    also have "(s @ [0]) @ replicate (k - length s - 1) 0 = s @ replicate (k - length s) (0 :: byte)"
      using True by (simp add: replicate_Suc [symmetric] del: replicate_Suc)
    finally show ?thesis using True t l Suc assms(4) by (simp add: stp_last_def)
  next
    case False
    then show ?thesis using t l Suc assms(4) by (simp add: stp_last_def)
  qed
qed

lemma stpncpy_spec:
  assumes "cstr m q s" "mapped m p n" "disjnt_rng p n q (Suc (length s))"
  shows "stpncpy m p q n = Some (wr m p (take n s @ replicate (n - length s) 0), p + min n (length s))"
proof (cases "n < 4")
  case True
  then have "n mod 4 = n" by simp
  then show ?thesis using stp_last_spec [OF assms(1), of p n n] assms(2,3) True by (simp add: stpncpy_def)
next
  case False
  define K where "K = 4 * (n div 4)"
  obtain j where j: "n div 4 = Suc j" using False by (cases "n div 4") auto
  have n: "n = K + n mod 4" unfolding K_def using mult_div_mod_eq [of 4 n] by linarith
  have mK: "mapped m p K" using assms(2) n by (metis mapped_le le_add1)
  have dK: "disjnt_rng p K q (Suc (length s))" using assms(3) n by (auto simp: disjnt_rng_def)
  have quads: "stp_quads m p q (n div 4) =
      (if length s < K then Some (wr m p (s @ [0]), p + length s + 1, q + length s + 1, True)
       else Some (wr m p (take K s), p + K, q + K, False))"
    using strlcpy_loop_spec [OF assms(1) mK dK] stp_quads_eq [of m p q j] j by (simp add: K_def)
  show ?thesis
  proof (cases "length s < K")
    case True
    then have lt: "length s < n" using n by linarith
    have "mapped m (p + (length s + 1)) (n - length s - 1)"
      using assms(2) lt mapped_add [of m p "length s + 1" "n - length s - 1"] by simp
    then have "stp_zero (wr m p (s @ [0])) (p + length s + 1) (n - length s - 1) =
        Some (wr (wr m p (s @ [0])) (p + length s + 1) (replicate (n - length s - 1) 0))"
      by (intro stp_zero_spec mapped_wr) (simp add: add.assoc)
    also have "wr (wr m p (s @ [0])) (p + length s + 1) (replicate (n - length s - 1) 0) =
        wr m p ((s @ [0]) @ replicate (n - length s - 1) 0)" by (subst wr_append) simp
    also have "(s @ [0]) @ replicate (n - length s - 1) 0 = s @ replicate (n - length s) (0 :: byte)"
      using lt by (simp add: replicate_Suc [symmetric] del: replicate_Suc)
    finally show ?thesis using True lt False quads by (simp add: stpncpy_def)
  next
    case f: False
    let ?m = "wr m p (take K s)" and ?t = "drop K s" and ?k = "n mod 4"
    have len: "length (take K s) = K" using f by simp
    have "cstr ?m q s" using assms(1) dK len by (subst cstr_wr_disjnt) simp_all
    then have c: "cstr ?m (q + K) ?t" using f by (intro cstr_drop) simp_all
    have "mapped m (p + K) ?k" using assms(2) n by (metis mapped_add)
    then have mp: "mapped ?m (p + K) ?k" by (rule mapped_wr)
    have "disjnt_rng (p + K) ?k (q + K) (Suc (length ?t))"
      using assms(3) n f by (auto simp: disjnt_rng_def)
    from stp_last_spec [OF c mp this refl]
    have last: "stp_last ?m (p + K) (q + K) n =
        Some (wr ?m (p + K) (take ?k ?t @ replicate (?k - length ?t) 0), p + K + min ?k (length ?t))" .
    have "wr ?m (p + K) (take ?k ?t @ replicate (?k - length ?t) 0) =
        wr m p (take K s @ take ?k ?t @ replicate (?k - length ?t) 0)" using len by (subst wr_append) simp
    also have "take K s @ take ?k ?t @ replicate (?k - length ?t) 0 = take n s @ replicate (n - length s) 0"
    proof -
      have "take K s @ take ?k ?t = take (K + ?k) s" by (simp only: take_add)
      moreover have "?k - length ?t = n - length s" using n f by simp
      ultimately show ?thesis using n by simp
    qed
    finally have "wr ?m (p + K) (take ?k ?t @ replicate (?k - length ?t) 0) = wr m p (take n s @ replicate (n - length s) 0)" .
    moreover have "p + K + min ?k (length ?t) = p + min n (length s)" using n f by simp
    ultimately show ?thesis using False f quads last by (simp add: stpncpy_def)
  qed
qed

section \<open>Properties\<close>

text \<open>C19: The search a word at a time is the search byte by byte, for every character: \<open>strchrnul\<close> returns the place of the
  first \<open>c\<close> in the string, and that of its terminator where there is none, for which \<open>strchr\<close> has \<open>NULL\<close>. Where \<open>c\<close> occurs, as the terminator
  does, \<open>rawmemchr\<close> and \<open>strchr\<close> return the same place. Beyond the string they read only the rest of the aligned word that holds the byte found.\<close>

theorem word_search_correct:
  assumes "cstr m p s" "ucast w = c" "word_mapped m (p + length (takeWhile (\<lambda>x. x \<noteq> c) s))"
  shows "strchrnul m p w = Some (p + length (takeWhile (\<lambda>x. x \<noteq> c) s)) \<and>
    (if c \<in> set (s @ [0]) then rawmemchr m p w = strchrnul m p w \<and> strchr m p w = strchrnul m p w
     else strchrnul m p w = Some (p + length s) \<and> strchr m p w = Some null)"
proof -
  let ?w = "takeWhile (\<lambda>x. x \<noteq> c) s"
  have nz: "\<forall>x\<in>set s. x \<noteq> 0" using assms(1) by (auto simp: cstr_def)
  have "s @ [0] = ?w @ dropWhile (\<lambda>x. x \<noteq> c) s @ [0]" by simp
  then have b: "block m p ?w" "block m (p + length ?w) (dropWhile (\<lambda>x. x \<noteq> c) s @ [0])"
    using assms(1) unfolding cstr_def by (metis block_append)+
  have e: "m (p + length ?w) = Some (if c \<in> set s then c else 0)"
  proof (cases "c \<in> set s")
    case True
    then obtain t where "dropWhile (\<lambda>x. x \<noteq> c) s = c # t"
      by (metis (mono_tags, lifting) dropWhile_eq_Nil_conv hd_dropWhile list.collapse)
    then show ?thesis using b(2) True by (simp add: block_Cons)
  next
    case False
    then have "?w = s" by (auto simp: takeWhile_eq_all_conv)
    then show ?thesis using cstr_end [OF assms(1)] False by (simp only: if_False)
  qed
  have w: "\<forall>x\<in>set ?w. x \<noteq> ucast w \<and> x \<noteq> 0" using nz assms(2) by (auto dest: set_takeWhileD)
  then have nul: "strchrnul m p w = Some (p + length ?w)" using strchrnul_spec [OF b(1) e, of w] assms(2,3) by simp
  show ?thesis
  proof (cases "c \<in> set (s @ [0])")
    case True
    then have "m (p + length ?w) = Some (ucast w)" using e assms(2) by (auto split: if_splits)
    then have "rawmemchr m p w = Some (p + length ?w)" using rawmemchr_spec [OF b(1), of w] w assms(3) by blast
    then show ?thesis using nul True strchr_spec [OF assms(1,2)] by simp
  next
    case False
    then have "?w = s" by (auto simp: takeWhile_eq_all_conv)
    then have "length ?w = length s" by (rule arg_cong)
    then show ?thesis using nul False strchr_spec [OF assms(1,2)] by simp
  qed
qed

theorem word_search_correct_witness:
  "strchrnul (wr (\<lambda>_. Some 0) 9 [1, 128, 2, 128, 128, 3]) 9 3 = Some 14 \<and> rawmemchr (wr (\<lambda>_. Some 0) 9 [1, 128, 2, 128, 128, 3]) 9 3 = Some 14 \<and>
   strchrnul (wr (\<lambda>_. Some 0) 9 [1, 128, 2, 128, 128, 3]) 9 7 = Some 15"
proof -
  let ?m = "wr (\<lambda>_. Some 0) 9 [1, 128, 2, 128, 128, 3] :: bmem"
  have "cstr ?m 9 [1, 128, 2, 128, 128, 3]" by (simp add: cstr_def block_Cons wr_def)
  note c = word_search_correct [OF this]
  show ?thesis using c [of 3 3] c [of 7 7] by (simp add: word_mapped_def wr_def)
qed

text \<open>\<open>bcmp\<close>, which compares longs and shorts where it can, says exactly when \<open>memcmp\<close> is not zero,
  at every alignment of the two objects, and \<open>memcmp\<close> orders them as \<open>strcmp\<close> orders byte sequences.\<close>

theorem bcmp_equiv_memcmp:
  assumes "block m p xs" "block m q ys" "length xs = n" "length ys = n" "p \<noteq> 0" "q \<noteq> 0"
  shows "memcmp m p q n = Some (strcmp_val xs ys) \<and> bcmp m p q n = Some (strcmp_val xs ys \<noteq> 0)"
  using memcmp_spec [OF assms(1-4)] bcmp_spec [OF assms] by (simp add: strcmp_val_eq_0)

theorem bcmp_equiv_memcmp_witness:
  "bcmp (wr (\<lambda>_. Some 0) 9 [1, 2, 3, 4, 5, 6]) 9 20 6 = Some True"
proof -
  let ?m = "wr (\<lambda>_. Some 0) 9 [1, 2, 3, 4, 5, 6] :: bmem"
  have "block ?m 9 [1, 2, 3, 4, 5, 6]" "block ?m 20 [0, 0, 0, 0, 0, 0]" by (simp_all add: block_Cons wr_def)
  from bcmp_equiv_memcmp [OF this, of 6] show ?thesis by simp
qed

text \<open>\<open>stpncpy\<close>, whose loop is unrolled four times, writes the first \<open>n\<close> bytes of the source padded
  with zeros, and returns the place of the first zero or the end of the destination.\<close>

theorem stpncpy_correct:
  assumes "cstr m q s" "mapped m p n" "disjnt_rng p n q (Suc (length s))"
  shows "stpncpy m p q n = Some (wr m p (take n s @ replicate (n - length s) 0), p + min n (length s))"
  using assms by (rule stpncpy_spec)

theorem stpncpy_correct_witness:
  "\<exists>m'. stpncpy (wr (\<lambda>_. Some 0) 9 [1, 2, 3, 4, 5]) 20 9 7 = Some (m', 25)"
proof -
  let ?m = "wr (\<lambda>_. Some 0) 9 [1, 2, 3, 4, 5] :: bmem"
  have "cstr ?m 9 [1, 2, 3, 4, 5]" "mapped ?m 20 7" by (simp_all add: cstr_def block_Cons wr_def mapped_def)
  from stpncpy_correct [OF this] show ?thesis by (simp add: disjnt_rng_def)
qed

end
