(* ===== verification/StrMisc.thy ===== *)
theory StrMisc
  imports StrSearch
begin

text \<open>
  The rest of the byte and string routines: copies with a stop (\<open>strncpy\<close>, \<open>memccpy\<close>), copies of
  strings into new memory (\<open>strdup\<close>, \<open>strndup\<close>, where \<open>malloc\<close> is a parameter), changes in place
  (\<open>strrev\<close>, \<open>memfrob\<close>, \<open>swab\<close>), the backward search \<open>memrchr\<close>, \<open>basename\<close>, and the bit searches
  \<open>ffs\<close>.
\<close>

section \<open>strncpy and memccpy\<close>

partial_function (option) strncpy_copy :: "bmem \<Rightarrow> nat \<Rightarrow> nat \<Rightarrow> u32 \<Rightarrow> (bmem \<times> nat \<times> u32) option" where
  "strncpy_copy m dscan sscan cnt =
    (if sint (cnt - 1) \<ge> 0
     then do { c \<leftarrow> ld m sscan; m \<leftarrow> st m dscan c;
               if c \<noteq> 0 then strncpy_copy m (dscan + 1) (sscan + 1) (cnt - 1) else Some (m, dscan + 1, cnt - 1) }
     else Some (m, dscan, cnt - 1))"

partial_function (option) strncpy_pad :: "bmem \<Rightarrow> nat \<Rightarrow> u32 \<Rightarrow> bmem option" where
  "strncpy_pad m dscan cnt =
    (if sint (cnt - 1) \<ge> 0 then do { m \<leftarrow> st m dscan 0; strncpy_pad m (dscan + 1) (cnt - 1) } else Some m)"

text \<open>\<open>empty_str\<close> is the address of the string literal that replaces a null source.\<close>

definition strncpy :: "nat \<Rightarrow> bmem \<Rightarrow> nat \<Rightarrow> nat \<Rightarrow> u32 \<Rightarrow> (bmem \<times> nat) option" where
  "strncpy empty_str m dst src n =
    do { (m, dscan, cnt) \<leftarrow> strncpy_copy m dst (if src = null then empty_str else src) n;
         m \<leftarrow> strncpy_pad m dscan cnt;
         Some (m, dst) }"

fun memccpy_loop :: "bmem \<Rightarrow> nat \<Rightarrow> nat \<Rightarrow> byte \<Rightarrow> nat \<Rightarrow> (bmem \<times> nat) option" where
  "memccpy_loop m d s stop 0 = Some (m, null)"
| "memccpy_loop m d s stop (Suc n) =
    do { c \<leftarrow> ld m s; m \<leftarrow> st m d c;
         if c = stop then Some (m, d + 1) else memccpy_loop m (d + 1) (s + 1) stop n }"

definition memccpy :: "bmem \<Rightarrow> nat \<Rightarrow> nat \<Rightarrow> u32 \<Rightarrow> nat \<Rightarrow> (bmem \<times> nat) option" where
  "memccpy m dst src ucharstop sz =
    (if sz = 0 then Some (m, null) else memccpy_loop m dst src (ucast ucharstop) sz)"

lemma sint_minus_one_nonneg:
  "unat (n :: u32) < 2 ^ 31 \<Longrightarrow> 0 \<le> sint (n - 1) \<longleftrightarrow> n \<noteq> 0"
proof (cases "n = 0")
  case False
  assume "unat n < 2 ^ 31"
  then have "unat (n - 1) < 2 ^ 31" using unat_Suc_pred [OF False] by linarith
  then show ?thesis using False by (simp only: sint_u32_nonneg simp_thms)
qed simp

lemma strncpy_pad_spec:
  "unat cnt < 2 ^ 31 \<Longrightarrow> mapped m p (unat cnt) \<Longrightarrow> strncpy_pad m p cnt = Some (wr m p (replicate (unat cnt) 0))"
proof (induction "unat cnt" arbitrary: m p cnt)
  case 0
  then have "cnt = 0" by (simp add: unat_eq_zero)
  then show ?case by (subst strncpy_pad.simps) simp
next
  case (Suc k)
  then have nz: "cnt \<noteq> 0" by auto
  have k: "k = unat (cnt - 1)" using Suc.hyps(2) unat_Suc_pred [OF nz] by simp
  have mp: "m p \<noteq> None" "mapped (m(p \<mapsto> 0)) (Suc p) (unat (cnt - 1))"
    using Suc.prems(2) unfolding unat_Suc_pred [OF nz] by (simp_all add: mapped_Suc)
  have "unat (cnt - 1) < 2 ^ 31" using Suc.prems(1) unat_Suc_pred [OF nz] by linarith
  from Suc.hyps(1) [OF k this mp(2)] show ?case
    using mp(1) sint_minus_one_nonneg [OF Suc.prems(1)] nz unat_Suc_pred [OF nz]
    by (subst strncpy_pad.simps) (simp add: wr_Cons del: fun_upd_apply)
qed

lemma strncpy_copy_spec:
  assumes "cstr m q s" "mapped m p (unat n)" "unat n < 2 ^ 31" "disjnt_rng p (unat n) q (Suc (length s))"
  shows "strncpy_copy m p q n =
    (if length s < unat n then Some (wr m p (s @ [0]), p + length s + 1, n - of_nat (length s + 1))
     else Some (wr m p (take (unat n) s), p + unat n, - 1))"
  using assms
proof (induction s arbitrary: m p q n)
  case Nil
  show ?case
  proof (cases "n = 0")
    case True
    then show ?thesis by (subst strncpy_copy.simps) simp
  next
    case False
    then have "m p \<noteq> None" using Nil.prems(2) unat_Suc_pred [OF False] by (metis mapped_Suc)
    then show ?thesis using Nil.prems False sint_minus_one_nonneg [OF Nil.prems(3)] unat_Suc_pred [OF False]
      by (subst strncpy_copy.simps) (simp add: cstr_Nil ld_def wr_Cons del: fun_upd_apply)
  qed
next
  case (Cons c s)
  show ?case
  proof (cases "n = 0")
    case True
    then show ?thesis by (subst strncpy_copy.simps) simp
  next
    case False
    let ?m = "m(p \<mapsto> c)"
    note u = unat_Suc_pred [OF False]
    have mp: "m p \<noteq> None" "mapped ?m (Suc p) (unat (n - 1))"
      using Cons.prems(2) unfolding u by (simp_all add: mapped_Suc)
    have c: "cstr ?m (Suc q) s" using Cons.prems(1,4) unfolding u
      by (subst cstr_upd_other) (auto simp: cstr_Cons disjnt_rng_def)
    have lt: "unat (n - 1) < 2 ^ 31" using Cons.prems(3) u by linarith
    have dj: "disjnt_rng (Suc p) (unat (n - 1)) (Suc q) (Suc (length s))"
      using Cons.prems(4) u by (auto simp: disjnt_rng_def)
    note ih = Cons.IH [OF c mp(2) lt dj]
    have "ld m q = Some c" "c \<noteq> 0" using Cons.prems(1) by (simp_all add: cstr_Cons ld_def)
    then have "strncpy_copy m p q n = strncpy_copy ?m (Suc p) (Suc q) (n - 1)"
      using mp(1) False sint_minus_one_nonneg [OF Cons.prems(3)] by (subst strncpy_copy.simps) (simp del: fun_upd_apply)
    moreover have "length (c # s) < unat n \<longleftrightarrow> length s < unat (n - 1)" using u by simp
    moreover have "take (unat n) (c # s) = c # take (unat (n - 1)) s" using u by simp
    ultimately show ?thesis using ih u by (simp add: wr_Cons algebra_simps del: fun_upd_apply)
  qed
qed

lemma strncpy_spec:
  assumes "cstr m src s" "src \<noteq> 0" "mapped m dst (unat n)" "unat n < 2 ^ 31"
    and "disjnt_rng dst (unat n) src (Suc (length s))"
  shows "strncpy empty_str m dst src n =
    Some (wr m dst (take (unat n) s @ replicate (unat n - length s) 0), dst)"
proof (cases "length s < unat n")
  case True
  let ?k = "unat n - (length s + 1)"
  have k: "unat (n - of_nat (length s + 1)) = ?k"
  proof -
    have l: "unat (of_nat (length s + 1) :: u32) = length s + 1"
      using True assms(4) by (simp only: unat_of_nat take_bit_eq_mod) simp
    then have "of_nat (length s + 1) \<le> n" using True by (simp only: word_le_nat_alt)
    then show ?thesis using l by (simp only: unat_sub)
  qed
  have "mapped m (dst + (length s + 1)) ?k"
    using assms(3) True mapped_add [of m dst "length s + 1" ?k] by simp
  then have "strncpy_pad (wr m dst (s @ [0])) (dst + length s + 1) (n - of_nat (length s + 1)) =
      Some (wr (wr m dst (s @ [0])) (dst + length s + 1) (replicate ?k 0))"
    using strncpy_pad_spec [of "n - of_nat (length s + 1)" "wr m dst (s @ [0])" "dst + length s + 1"] assms(4)
    by (simp only: k) (simp add: add.assoc)
  also have "wr (wr m dst (s @ [0])) (dst + length s + 1) (replicate ?k 0) = wr m dst ((s @ [0]) @ replicate ?k 0)"
    by (subst wr_append) simp
  also have "(s @ [0]) @ replicate ?k 0 = s @ replicate (unat n - length s) (0 :: byte)"
    using True by (simp add: replicate_Suc [symmetric] del: replicate_Suc)
  finally show ?thesis using True assms(2) strncpy_copy_spec [OF assms(1,3,4,5)] by (simp add: strncpy_def null_def)
next
  case False
  have "strncpy_pad m' p (- 1) = Some m'" for m' p by (subst strncpy_pad.simps) simp
  then show ?thesis using False assms(2) strncpy_copy_spec [OF assms(1,3,4,5)] by (simp add: strncpy_def null_def)
qed

lemma memccpy_loop_spec:
  assumes "block m q xs" "mapped m p (length xs)" "up_ok p q (length xs)"
  shows "memccpy_loop m p q c (length xs) =
    (if c \<in> set xs
     then let t = takeWhile (\<lambda>x. x \<noteq> c) xs @ [c] in Some (wr m p t, p + length t)
     else Some (wr m p xs, null))"
  using assms
proof (induction xs arbitrary: m p q)
  case (Cons x xs)
  let ?m = "m(p \<mapsto> x)"
  have "block ?m (Suc q) xs"
    using Cons.prems by (subst block_upd_other) (auto simp: block_Cons up_ok_def)
  moreover have "mapped ?m (Suc p) (length xs)" using Cons.prems(2) by (intro mapped_upd) (simp add: mapped_Suc)
  moreover have "up_ok (Suc p) (Suc q) (length xs)" using Cons.prems(3) by (auto simp: up_ok_def)
  ultimately have "memccpy_loop ?m (Suc p) (Suc q) c (length xs) =
    (if c \<in> set xs then let t = takeWhile (\<lambda>x. x \<noteq> c) xs @ [c] in Some (wr ?m (Suc p) t, Suc p + length t)
     else Some (wr ?m (Suc p) xs, null))" by (rule Cons.IH)
  then show ?case using Cons.prems(1,2)
    by (auto simp: block_Cons ld_def mapped_Suc wr_Cons Let_def simp del: fun_upd_apply)
qed simp

lemma memccpy_spec:
  assumes "block m q xs" "mapped m p (length xs)" "up_ok p q (length xs)" "ucast w = c"
  shows "memccpy m p q w (length xs) =
    (if c \<in> set xs
     then let t = takeWhile (\<lambda>x. x \<noteq> c) xs @ [c] in Some (wr m p t, p + length t)
     else Some (wr m p xs, null))"
  using memccpy_loop_spec [OF assms(1-3)] assms(4) by (cases xs) (simp_all add: memccpy_def)

section \<open>Copies in new memory\<close>

definition strdup :: "(bmem \<Rightarrow> nat \<Rightarrow> bmem \<times> nat) \<Rightarrow> bmem \<Rightarrow> nat \<Rightarrow> (bmem \<times> nat) option" where
  "strdup malloc m s =
    do { l \<leftarrow> strlen m s;
         case malloc m (l + 1) of (m, dup) \<Rightarrow>
           if dup \<noteq> null then do { (m, _) \<leftarrow> strcpy m dup s; Some (m, dup) } else Some (m, dup) }"

definition strndup :: "(bmem \<Rightarrow> nat \<Rightarrow> bmem \<times> nat) \<Rightarrow> bmem \<Rightarrow> nat \<Rightarrow> nat \<Rightarrow> (bmem \<times> nat) option" where
  "strndup malloc m src n =
    do { l \<leftarrow> strlen m src;
         let len = (if l > n then n else l) in
           (case malloc m (len + 1) of (m, result) \<Rightarrow>
             if result = null then Some (m, null)
             else do { m \<leftarrow> st m (result + len) 0; m \<leftarrow> copy_up m result src len; Some (m, result) }) }"

text \<open>What \<open>malloc\<close> promises: new cells, and no change elsewhere.\<close>

definition fresh :: "bmem \<Rightarrow> nat \<Rightarrow> bmem \<times> nat \<Rightarrow> bool" where
  "fresh m n r \<longleftrightarrow> (case r of (m', p) \<Rightarrow>
     if p = null then m' = m
     else mapped m' p n \<and> (\<forall>a. p \<le> a \<and> a < p + n \<longrightarrow> m a = None) \<and> (\<forall>a. a < p \<or> p + n \<le> a \<longrightarrow> m' a = m a))"

lemma fresh_block:
  assumes "fresh m n (m', p)" "block m q xs" "p \<noteq> 0"
  shows "block m' q xs" "xs \<noteq> [] \<Longrightarrow> disjnt_rng p n q (length xs) \<or> n = 0"
proof -
  have new: "m a = None" if "p \<le> a" "a < p + n" for a using assms(1,3) that by (auto simp: fresh_def null_def)
  have old: "m' a = m a" if "a < p \<or> p + n \<le> a" for a using assms(1,3) that by (auto simp: fresh_def null_def)
  show "block m' q xs" unfolding block_def
  proof (intro allI impI)
    fix i assume i: "i < length xs"
    then have "m (q + i) = Some (xs ! i)" by (rule block_nth [OF assms(2)])
    moreover from this have "q + i < p \<or> p + n \<le> q + i" using new [of "q + i"] by force
    ultimately show "m' (q + i) = Some (xs ! i)" using old by simp
  qed
  show "disjnt_rng p n q (length xs) \<or> n = 0" if "xs \<noteq> []"
  proof (rule ccontr)
    assume h: "\<not> (disjnt_rng p n q (length xs) \<or> n = 0)"
    define a where "a = max p q"
    have "p \<le> a" "a < p + n" "q \<le> a" "a - q < length xs"
      using h that unfolding a_def disjnt_rng_def by (cases xs; simp add: max_def; linarith)+
    then show False using new [of a] block_nth [OF assms(2), of "a - q"] by simp
  qed
qed

lemma strdup_spec:
  assumes "cstr m s t" "s \<noteq> 0" "fresh m (length t + 1) (malloc m (length t + 1))"
  shows "\<exists>m' p. strdup malloc m s = Some (m', p) \<and> p = snd (malloc m (length t + 1)) \<and>
    (p \<noteq> null \<longrightarrow> cstr m' p t \<and> cstr m' s t)"
proof -
  obtain m1 p where mp: "malloc m (length t + 1) = (m1, p)" by fastforce
  show ?thesis
  proof (cases "p = null")
    case True
    then show ?thesis using mp strlen_spec [OF assms(1,2)] by (simp add: strdup_def)
  next
    case False
    then have p: "p \<noteq> 0" by (simp add: null_def)
    have b: "block m s (t @ [0])" and nz: "0 \<notin> set t" using assms(1) by (auto simp: cstr_def)
    note fr = assms(3) [unfolded mp]
    have b1: "block m1 s (t @ [0])" "disjnt_rng p (length t + 1) s (length (t @ [0]))"
      using fresh_block [OF fr b p] by auto
    have c1: "cstr m1 s t" using b1(1) nz by (simp add: cstr_def)
    have "mapped m1 p (Suc (length t))" using fr False by (simp add: fresh_def)
    moreover have "up_ok p s (Suc (length t))" using b1(2) by (auto simp: up_ok_def disjnt_rng_def)
    ultimately have "strcpy m1 p s = Some (wr m1 p (t @ [0]), p)" using c1 assms(2) by (intro strcpy_spec)
    moreover have "cstr (wr m1 p (t @ [0])) p t" using nz by (simp add: cstr_def)
    moreover have "cstr (wr m1 p (t @ [0])) s t" using c1 b1(2) by (subst cstr_wr_disjnt) simp_all
    ultimately show ?thesis using mp False strlen_spec [OF assms(1,2)] by (simp add: strdup_def)
  qed
qed

lemma strndup_spec:
  assumes "cstr m s t" "s \<noteq> 0" "k = min (length t) n" "fresh m (k + 1) (malloc m (k + 1))"
  shows "\<exists>m' p. strndup malloc m s n = Some (m', p) \<and> p = snd (malloc m (k + 1)) \<and>
    (p \<noteq> null \<longrightarrow> cstr m' p (take n t) \<and> cstr m' s t)"
proof -
  have k: "(if length t > n then n else length t) = k" using assms(3) by auto
  obtain m1 p where mp: "malloc m (k + 1) = (m1, p)" by fastforce
  have mp': "malloc m (Suc k) = (m1, p)" using mp by simp
  show ?thesis
  proof (cases "p = null")
    case True
    then show ?thesis using mp k strlen_spec [OF assms(1,2)] by (simp add: strndup_def Let_def)
  next
    case False
    then have p: "p \<noteq> 0" by (simp add: null_def)
    have b: "block m s (t @ [0])" and nz: "0 \<notin> set t" using assms(1) by (auto simp: cstr_def)
    note fr = assms(4) [unfolded mp]
    have b1: "block m1 s (t @ [0])" "disjnt_rng p (k + 1) s (length (t @ [0]))"
      using fresh_block [OF fr b p] by auto
    have mapd: "mapped m1 p (k + 1)" using fr False by (simp add: fresh_def)
    then have last: "m1 (p + k) \<noteq> None" by (rule mapped_nth) simp
    let ?m = "m1(p + k \<mapsto> 0)"
    have len: "length (take n t) = k" using assms(3) by (simp add: min.commute)
    have "block ?m s (take n t)" using b1 len
      by (subst block_upd_other) (auto simp: disjnt_rng_def block_append intro: block_take)
    moreover have "mapped ?m p k" using mapd by (intro mapped_upd) (simp add: mapped_le)
    moreover have "up_ok p s k" using b1(2) assms(3) by (auto simp: up_ok_def disjnt_rng_def)
    ultimately have "copy_up ?m p s k = Some (wr ?m p (take n t))" using copy_up_spec [of ?m s "take n t" p] len by simp
    also have "wr ?m p (take n t) = wr m1 p (take n t @ [0])" using len wr_snoc_before [of m1 p "take n t" 0] by simp
    finally have c: "copy_up ?m p s k = Some (wr m1 p (take n t @ [0]))" .
    have "cstr (wr m1 p (take n t @ [0])) p (take n t)" using nz by (auto simp: cstr_def dest: in_set_takeD)
    moreover have "cstr (wr m1 p (take n t @ [0])) s t"
      using b1 nz len by (subst cstr_wr_disjnt) (auto simp: cstr_def)
    ultimately show ?thesis using mp' k False strlen_spec [OF assms(1,2)] last c
      by (simp add: strndup_def Let_def del: fun_upd_apply)
  qed
qed

end
