(* ===== verification/StrPlace.thy ===== *)
theory StrPlace
  imports StrMisc
begin

text \<open>
  Byte routines that work in place or bit by bit: \<open>strrev\<close>, \<open>memfrob\<close>, \<open>swab\<close>, the backward search
  \<open>memrchr\<close>, \<open>basename\<close>, and the searches for the lowest set bit \<open>ffss\<close>, \<open>ffsl\<close> and \<open>ffsll\<close> with
  their lookup tables; and the properties of the string copies.
\<close>

section \<open>Reversing and hiding\<close>

partial_function (option) strrev_loop :: "bmem \<Rightarrow> nat \<Rightarrow> nat \<Rightarrow> bmem option" where
  "strrev_loop m p q =
    (if q - 1 > p
     then do { c \<leftarrow> ld m (q - 1); x \<leftarrow> ld m p; m \<leftarrow> st m (q - 1) x; m \<leftarrow> st m p c;
               strrev_loop m (p + 1) (q - 1) }
     else Some m)"

definition strrev :: "bmem \<Rightarrow> nat \<Rightarrow> (bmem \<times> nat) option" where
  "strrev m s =
    do { c \<leftarrow> ld m s;
         if c \<noteq> 0 then do { q \<leftarrow> end_of_string m (s + 1); m \<leftarrow> strrev_loop m s q; Some (m, s) }
         else Some (m, s) }"

fun memfrob :: "bmem \<Rightarrow> nat \<Rightarrow> nat \<Rightarrow> bmem option" where
  "memfrob m p 0 = Some m"
| "memfrob m p (Suc n) = do { x \<leftarrow> ld m p; m \<leftarrow> st m p (x XOR 42); memfrob m (p + 1) n }"

lemma strrev_loop_spec:
  "block m p xs \<Longrightarrow> xs \<noteq> [] \<Longrightarrow> strrev_loop m p (p + length xs) = Some (wr m p (rev xs))"
proof (induction "length xs" arbitrary: m p xs rule: less_induct)
  case less
  show ?case
  proof (cases "length xs = 1")
    case True
    then obtain x where "xs = [x]" by (auto simp: length_Suc_conv)
    then show ?thesis using less.prems wr_block_id [of m p "[x]"] by (subst strrev_loop.simps) simp
  next
    case False
    then obtain a t where "xs = a # t" "t \<noteq> []" using less.prems(2) by (cases xs) auto
    then obtain ys b where xs: "xs = a # ys @ [b]" by (metis rev_exhaust)
    let ?q = "p + Suc (length ys)"
    let ?m = "m(?q \<mapsto> a, p \<mapsto> b)"
    have cells: "m p = Some a" "block m (Suc p) ys" "m ?q = Some b"
      using less.prems(1) xs by (simp_all add: block_Cons block_append)
    have "strrev_loop m p (p + length xs) = strrev_loop ?m (Suc p) ?q"
      using cells xs by (subst strrev_loop.simps) (simp add: ld_def)
    also have "\<dots> = Some (wr ?m (Suc p) (rev ys))"
    proof (cases "ys = []")
      case True
      then show ?thesis by (subst strrev_loop.simps) simp
    next
      case False
      have "block ?m (Suc p) ys" using cells(2) by (simp add: block_upd_other)
      then show ?thesis using less.hyps [of ys ?m "Suc p"] False xs by simp
    qed
    also have "wr ?m (Suc p) (rev ys) = wr m p (rev xs)"
    proof -
      have "wr ?m (Suc p) (rev ys) = wr (m(?q \<mapsto> a)) p (b # rev ys)" by (simp only: wr_Cons)
      also have "?q = p + length (b # rev ys)" by simp
      finally show ?thesis unfolding xs wr_snoc_before by (simp del: fun_upd_apply)
    qed
    finally show ?thesis .
  qed
qed

lemma strrev_spec: "cstr m p s \<Longrightarrow> strrev m p = Some (wr m p (rev s), p)"
proof (cases s)
  case Nil
  assume "cstr m p s"
  then show ?thesis using Nil by (simp add: strrev_def cstr_Nil ld_def)
next
  case (Cons c t)
  assume c: "cstr m p s"
  then have "end_of_string m (p + 1) = Some (p + length s)" using Cons end_of_string_spec [of m "p + 1" t] by (simp add: cstr_Cons)
  then show ?thesis using strrev_loop_spec [OF cstr_block [OF c]] c Cons by (simp add: strrev_def cstr_Cons ld_def)
qed

lemma memfrob_spec: "block m p xs \<Longrightarrow> memfrob m p (length xs) = Some (wr m p (map (\<lambda>x. x XOR 42) xs))"
proof (induction xs arbitrary: m p)
  case (Cons x xs)
  have "block (m(p \<mapsto> x XOR 42)) (Suc p) xs" using Cons.prems by (subst block_upd_other) (auto simp: block_Cons)
  from Cons.IH [OF this] show ?case using Cons.prems by (simp add: block_Cons ld_def wr_Cons del: fun_upd_apply)
qed simp

section \<open>Swapping the bytes of words\<close>

partial_function (option) swab_loop :: "bmem \<Rightarrow> nat \<Rightarrow> nat \<Rightarrow> u32 \<Rightarrow> bmem option" where
  "swab_loop m frm to n =
    (if sint (n - 2) \<ge> 0
     then do { c \<leftarrow> ld m frm; x \<leftarrow> ld m (frm + 1); m \<leftarrow> st m to x; m \<leftarrow> st m (to + 1) c;
               swab_loop m (frm + 2) (to + 2) (n - 2) }
     else Some m)"

definition swab :: "bmem \<Rightarrow> nat \<Rightarrow> nat \<Rightarrow> u32 \<Rightarrow> bmem option" where
  "swab m frm to n =
    (if n AND 1 \<noteq> 0
     then do { x \<leftarrow> ld m frm; m \<leftarrow> st m to x; swab_loop m (frm + 1) (to + 1) (n - 1) }
     else swab_loop m frm to n)"

fun swap_pairs :: "'a list \<Rightarrow> 'a list" where
  "swap_pairs (a # b # s) = b # a # swap_pairs s"
| "swap_pairs s = s"

definition swab_bytes :: "'a list \<Rightarrow> 'a list" where
  "swab_bytes xs = (if odd (length xs) then hd xs # swap_pairs (tl xs) else swap_pairs xs)"

lemma length_swap_pairs [simp]: "length (swap_pairs s) = length s"
  by (induction s rule: swap_pairs.induct) simp_all

lemma swap_pairs_twice [simp]: "swap_pairs (swap_pairs s) = s"
  by (induction s rule: swap_pairs.induct) simp_all

lemma swab_bytes_twice: "swab_bytes (swab_bytes s) = s"
  by (cases s) (simp_all add: swab_bytes_def)

lemma swab_loop_spec:
  assumes "block m q xs" "length xs = 2 * k" "unat n = 2 * k" "unat n < 2 ^ 31" "mapped m p (2 * k)" "up_ok p q (2 * k)"
  shows "swab_loop m q p n = Some (wr m p (swap_pairs xs))"
  using assms
proof (induction k arbitrary: m p q n xs)
  case 0
  then have "n = 0" by (simp add: unat_eq_zero)
  then show ?case using 0 by (subst swab_loop.simps) simp
next
  case (Suc k)
  obtain a b s where xs: "xs = a # b # s" using Suc.prems(2) by (auto simp: length_Suc_conv)
  let ?m = "m(p \<mapsto> b, Suc p \<mapsto> a)"
  have "2 \<le> n" using Suc.prems(3) by (simp add: word_le_nat_alt)
  then have u: "unat (n - 2) = 2 * k" using Suc.prems(3) by (simp add: unat_sub)
  have nn: "0 \<le> sint (n - 2)" using u Suc.prems(3,4) unfolding sint_u32_nonneg by simp
  have cells: "m q = Some a" "m (Suc q) = Some b" "block m (q + 2) s"
    using Suc.prems(1) xs by (simp_all add: block_Cons)
  have mp: "m p \<noteq> None" "m (Suc p) \<noteq> None" "mapped m (p + 2) (2 * k)"
    using Suc.prems(5) by (simp_all add: mapped_Suc)
  have len: "length s = 2 * k" using Suc.prems(2) xs by simp
  have bl: "block ?m (q + 2) s" using cells(3) Suc.prems(6) len
    by (subst block_upd_other, force simp: up_ok_def, subst block_upd_other) (force simp: up_ok_def)+
  have ma: "mapped ?m (p + 2) (2 * k)" using mp(3) by (intro mapped_upd)
  have up: "up_ok (p + 2) (q + 2) (2 * k)" using Suc.prems(6) by (auto simp: up_ok_def)
  have "unat (n - 2) < 2 ^ 31" using u Suc.prems(3,4) by simp
  from Suc.IH [OF bl len u this ma up]
  have "swab_loop ?m (q + 2) (p + 2) (n - 2) = Some (wr ?m (p + 2) (swap_pairs s))" .
  moreover have "swab_loop m q p n = swab_loop ?m (q + 2) (p + 2) (n - 2)"
    using cells(1,2) mp(1,2) nn by (subst swab_loop.simps) (simp add: ld_def)
  ultimately show ?case using xs by (simp add: wr_Cons del: fun_upd_apply)
qed

lemma and_1_iff_odd: "n AND 1 \<noteq> 0 \<longleftrightarrow> odd (unat (n :: u32))"
proof -
  have "odd (unat n) \<longleftrightarrow> odd n" using bit_unsigned_iff [of n 0, where ?'a = nat] by (simp add: bit_0)
  then show ?thesis by (simp add: and_one_eq odd_iff_mod_2_eq_one even_iff_mod_2_eq_zero)
qed

lemma swab_spec:
  assumes "block m q xs" "length xs = unat n" "unat n < 2 ^ 31" "mapped m p (unat n)" "up_ok p q (unat n)"
  shows "swab m q p n = Some (wr m p (swab_bytes xs))"
proof (cases "odd (unat n)")
  case True
  then obtain k where k: "unat n = Suc (2 * k)" by (metis oddE Suc_eq_plus1)
  obtain a s where xs: "xs = a # s" "length s = 2 * k" using assms(2) k by (cases xs) auto
  let ?m = "m(p \<mapsto> a)"
  have "n \<noteq> 0" using k by auto
  then have u: "unat (n - 1) = 2 * k" using unat_Suc_pred [of n] k by simp
  have b: "m q = Some a" "block m (Suc q) s" using assms(1) xs by (simp_all add: block_Cons)
  have "block ?m (Suc q) s" using b(2) assms(5) k xs(2) by (subst block_upd_other) (auto simp: up_ok_def)
  moreover have mp: "m p \<noteq> None" "mapped ?m (Suc p) (2 * k)" using assms(4) unfolding k by (simp_all add: mapped_Suc)
  moreover have "up_ok (Suc p) (Suc q) (2 * k)" using assms(5) k by (auto simp: up_ok_def)
  ultimately have "swab_loop ?m (Suc q) (Suc p) (n - 1) = Some (wr ?m (Suc p) (swap_pairs s))"
    using u assms(3) k xs(2) by (intro swab_loop_spec) auto
  then show ?thesis using b(1) mp(1) True xs and_1_iff_odd [of n]
    by (simp add: swab_def ld_def swab_bytes_def wr_Cons del: fun_upd_apply)
next
  case False
  then obtain k where k: "unat n = 2 * k" by (metis evenE)
  then show ?thesis using swab_loop_spec [of m q xs k n p] assms and_1_iff_odd [of n] False
    by (simp add: swab_def swab_bytes_def)
qed

section \<open>memrchr and basename\<close>

partial_function (option) memrchr_loop :: "bmem \<Rightarrow> nat \<Rightarrow> byte \<Rightarrow> nat \<Rightarrow> nat option" where
  "memrchr_loop m scan w n =
    (if n > 0 then do { c \<leftarrow> ld m scan; if c = w then Some scan else memrchr_loop m (scan - 1) w (n - 1) }
     else Some null)"

definition memrchr :: "bmem \<Rightarrow> nat \<Rightarrow> u32 \<Rightarrow> nat \<Rightarrow> nat option" where
  "memrchr m s ucharwanted sz = memrchr_loop m (s + sz - 1) (ucast ucharwanted) sz"

definition basename :: "bmem \<Rightarrow> nat \<Rightarrow> nat option" where
  "basename m filename =
    do { slash \<leftarrow> strrchr m filename 47;
         backslash \<leftarrow> strrchr m filename 92;
         Some (if slash > backslash then slash + 1
               else if backslash \<noteq> null then backslash + 1 else filename) }"

lemma memrchr_spec:
  assumes "block m p xs" "ucast w = c"
  shows "memrchr m p w (length xs) =
    Some (if c \<in> set xs then p + length xs - 1 - length (takeWhile (\<lambda>x. x \<noteq> c) (rev xs)) else null)"
proof -
  have "memrchr_loop m (p + length xs - 1) c (length xs) =
      Some (if c \<in> set xs then p + length xs - 1 - length (takeWhile (\<lambda>x. x \<noteq> c) (rev xs)) else null)"
    using assms(1)
  proof (induction xs rule: rev_induct)
    case Nil
    then show ?case by (subst memrchr_loop.simps) simp
  next
    case (snoc x xs)
    then show ?case by (subst memrchr_loop.simps) (auto simp: block_append block_Cons ld_def)
  qed
  then show ?thesis using assms(2) by (simp add: memrchr_def)
qed

text \<open>Where a byte occurs last: what is behind it has none.\<close>

lemma last_occurrence:
  assumes "c \<in> set s"
  shows "\<exists>u v. s = u @ c # v \<and> c \<notin> set v \<and> length s - 1 - length (takeWhile (\<lambda>x. x \<noteq> c) (rev s)) = length u"
proof -
  obtain u v where s: "s = u @ c # v" "c \<notin> set v" using split_list_last [OF assms] by blast
  have "takeWhile (\<lambda>x. x \<noteq> c) (rev s) = rev v" using s
    by (simp add: takeWhile_append takeWhile_eq_all_conv)
  then show ?thesis using s by (intro exI [of _ u] exI [of _ v]) simp
qed

lemma strrchr_last:
  assumes "cstr m p s" "ucast w = c" "c \<noteq> 0"
  shows "c \<in> set s \<Longrightarrow> \<exists>u v. s = u @ c # v \<and> c \<notin> set v \<and> strrchr m p w = Some (p + length u)"
    and "c \<notin> set s \<Longrightarrow> strrchr m p w = Some null"
proof -
  show "\<exists>u v. s = u @ c # v \<and> c \<notin> set v \<and> strrchr m p w = Some (p + length u)" if h: "c \<in> set s"
  proof -
    obtain u v where s: "s = u @ c # v" "c \<notin> set v"
        "length s - 1 - length (takeWhile (\<lambda>x. x \<noteq> c) (rev s)) = length u" using last_occurrence [OF h] by blast
    have "length (takeWhile (\<lambda>x. x \<noteq> c) (rev s)) \<le> length s - 1"
      using s(1,2) by (simp add: takeWhile_append)
    then have "p + length s - 1 - length (takeWhile (\<lambda>x. x \<noteq> c) (rev s)) = p + length u" using s(1,3) by simp
    then show ?thesis using strrchr_spec [OF assms] h s(1,2) by auto
  qed
  show "strrchr m p w = Some null" if "c \<notin> set s" using strrchr_spec [OF assms] that by simp
qed

text \<open>\<open>basename\<close> returns what is behind the last slash or backslash.\<close>

lemma basename_spec:
  assumes "cstr m p s" "p \<noteq> 0"
  obtains "\<forall>x\<in>set s. x \<noteq> 47 \<and> x \<noteq> 92" "basename m p = Some p"
  | u c v where "s = u @ c # v" "c = 47 \<or> c = 92" "\<forall>x\<in>set v. x \<noteq> 47 \<and> x \<noteq> 92" "basename m p = Some (p + length u + 1)"
proof -
  note f = strrchr_last [OF assms(1), of 47 47] and b = strrchr_last [OF assms(1), of 92 92]
  show ?thesis
  proof (cases "47 \<in> set s"; cases "92 \<in> set s")
    assume "47 \<notin> set s" "92 \<notin> set s"
    then show ?thesis using that(1) f(2) b(2) by (auto simp: basename_def null_def)
  next
    assume h: "47 \<notin> set s" "92 \<in> set s"
    then obtain u v where "s = u @ 92 # v" "92 \<notin> set v" "strrchr m p 92 = Some (p + length u)" using b(1) by auto
    then show ?thesis using that(2) [of u 92 v] f(2) h assms(2) by (auto simp: basename_def null_def)
  next
    assume h: "47 \<in> set s" "92 \<notin> set s"
    then obtain u v where "s = u @ 47 # v" "47 \<notin> set v" "strrchr m p 47 = Some (p + length u)" using f(1) by auto
    then show ?thesis using that(2) [of u 47 v] b(2) h assms(2) by (auto simp: basename_def null_def)
  next
    assume h: "47 \<in> set s" "92 \<in> set s"
    obtain u v where s: "s = u @ 47 # v" "47 \<notin> set v" "strrchr m p 47 = Some (p + length u)" using f(1) h by auto
    obtain u' v' where t: "s = u' @ 92 # v'" "92 \<notin> set v'" "strrchr m p 92 = Some (p + length u')" using b(1) h by auto
    have nth: "s ! length u = 47" "s ! length u' = 92" using s(1) t(1) by (metis nth_append_length)+
    have v: "v = drop (Suc (length u)) s" using s(1) by simp
    have v': "v' = drop (Suc (length u')) s" using t(1) by simp
    have lt: "length u < length s" "length u' < length s" using s(1) t(1) by (metis length_append length_Cons less_add_Suc1 add_Suc_right)+
    show ?thesis
    proof (cases "length u' < length u")
      case True
      have "92 \<notin> set v"
      proof
        assume "92 \<in> set v"
        then have "92 \<in> set v'" using True unfolding v v' by (meson Suc_le_mono less_imp_le set_drop_subset_set_drop subsetD)
        then show False using t(2) by simp
      qed
      then show ?thesis using that(2) [of u 47 v] s t True by (auto simp: basename_def)
    next
      case False
      then have lt: "length u < length u'" using nth by (cases "length u = length u'") auto
      have "47 \<notin> set v'"
      proof
        assume "47 \<in> set v'"
        then have "47 \<in> set v" using lt unfolding v v' by (meson Suc_le_mono less_imp_le set_drop_subset_set_drop subsetD)
        then show False using s(2) by simp
      qed
      then show ?thesis using that(2) [of u' 92 v'] s t lt assms(2) by (auto simp: basename_def null_def)
    qed
  qed
qed

section \<open>Properties\<close>

text \<open>C22: Copying with a size and then appending with it, for every size: neither call writes beyond the buffer, and both leave
  in it the longest prefix that fits, as a C string. \<open>strlcpy\<close> returns the length of its source, also where it had to cut it short, so that
  truncation is seen as a value that is not smaller than the size. \<open>strlcat\<close> returns the length of what the buffer held and of
  its source together. With size 0 nothing is written.\<close>

theorem strlcpy_strlcat_correct:
  assumes "cstr m src s" "cstr m app t" "app \<noteq> 0" "mapped m dst siz"
    and "disjnt_rng dst siz src (Suc (length s))" "disjnt_rng dst siz app (Suc (length t))"
  shows "\<exists>m1 m2. strlcpy m dst src siz = Some (m1, length s) \<and>
    strlcat m1 dst app siz = Some (m2, min (siz - 1) (length s) + length t) \<and>
    (if siz = 0 then m1 = m \<and> m2 = m else cstr m1 dst (take (siz - 1) s) \<and> cstr m2 dst (take (siz - 1) (s @ t))) \<and>
    (\<forall>a. a < dst \<or> dst + siz \<le> a \<longrightarrow> m1 a = m a \<and> m2 a = m a)"
proof (cases "siz = 0")
  case True
  then show ?thesis
    using strlcpy_spec [OF assms(1,4,5)] strlen_spec [OF assms(2,3)] by (simp add: strlcat_def)
next
  case False
  let ?u = "take (siz - 1) s"
  let ?m1 = "wr m dst (?u @ [0])" and ?r = "take (siz - 1) (?u @ t)"
  have r: "?r = take (siz - 1) (s @ t)" by (simp add: min_def)
  have one: "strlcpy m dst src siz = Some (?m1, length s)" using strlcpy_spec [OF assms(1,4,5)] False by simp
  have nz: "0 \<notin> set ?u" "0 \<notin> set t" using assms(1,2) by (auto simp: cstr_def dest: in_set_takeD)
  have u: "cstr ?m1 dst ?u" using nz by (simp add: cstr_def)
  have len: "length ?u < siz" using False by auto
  moreover have "cstr ?m1 app t" using assms(2,6) len by (subst cstr_wr_disjnt) (auto simp: disjnt_rng_def)
  ultimately have "strlcat ?m1 dst app siz = Some (wr ?m1 dst (?r @ [0]), length ?u + length t)"
    using u assms(3,4,6) by (intro strlcat_spec mapped_wr)
  moreover have "cstr (wr ?m1 dst (?r @ [0])) dst ?r" using nz by (auto simp: cstr_def dest: in_set_takeD)
  moreover have "?m1 a = m a \<and> wr ?m1 dst (?r @ [0]) a = m a" if "a < dst \<or> dst + siz \<le> a" for a
  proof -
    have "length (?u @ [0]) \<le> siz" "length (?r @ [0]) \<le> siz" using False by auto
    then have "a < dst \<or> dst + length (?u @ [0]) \<le> a" "a < dst \<or> dst + length (?r @ [0]) \<le> a" using that by linarith+
    then show ?thesis by (simp only: wr_apply_out simp_thms)
  qed
  moreover have "length ?u + length t = min (siz - 1) (length s) + length t" by simp
  ultimately show ?thesis using one u False
    by (intro exI [of _ ?m1] exI [of _ "wr ?m1 dst (?r @ [0])"]) (unfold r if_not_P [OF False], intro conjI allI impI; metis)
qed

theorem strlcpy_strlcat_correct_witness:
  "(\<exists>m1 m2. strlcpy (wr (wr (\<lambda>_. Some 0) 9 [1, 2]) 20 [3, 4, 5]) 30 9 5 = Some (m1, 2) \<and>
    strlcat m1 30 20 5 = Some (m2, 5) \<and> cstr m2 30 [1, 2, 3, 4]) \<and>
   (\<exists>m1. strlcpy (wr (wr (\<lambda>_. Some 0) 9 [1, 2]) 20 [3, 4, 5]) 30 20 3 = Some (m1, 3) \<and> cstr m1 30 [3, 4])"
proof -
  let ?m = "wr (wr (\<lambda>_. Some 0) 9 [1, 2]) 20 [3, 4, 5] :: bmem"
  have m: "cstr ?m 9 [1, 2]" "cstr ?m 20 [3, 4, 5]" "mapped ?m 30 5" "mapped ?m 30 3"
    by (simp_all add: cstr_def block_Cons wr_def mapped_def)
  have "\<exists>m1 m2. strlcpy ?m 30 9 5 = Some (m1, 2) \<and> strlcat m1 30 20 5 = Some (m2, 5) \<and> cstr m2 30 [1, 2, 3, 4]"
    using strlcpy_strlcat_correct [OF m(1,2) _ m(3)] by (auto simp: disjnt_rng_def)
  moreover have "\<exists>m1. strlcpy ?m 30 20 3 = Some (m1, 3) \<and> cstr m1 30 [3, 4]"
    using strlcpy_strlcat_correct [OF m(2,1) _ m(4)] by (auto simp: disjnt_rng_def)
  ultimately show ?thesis ..
qed

text \<open>\<open>swab\<close> in place, done twice, leaves the memory as it was, for every size below \<open>2^31\<close>; and it works for
  every destination at or below the source and behind its end.\<close>

theorem swab_twice:
  assumes "mapped m p (unat n)" "unat n < 2 ^ 31"
  shows "\<exists>m'. swab m p p n = Some m' \<and> swab m' p p n = Some m"
proof -
  obtain xs where xs: "length xs = unat n" "block m p xs" using mapped_block [OF assms(1)] by blast
  have len: "length (swab_bytes ys) = length ys" for ys :: "byte list" by (cases ys) (simp_all add: swab_bytes_def)
  have "swab m p p n = Some (wr m p (swab_bytes xs))"
    using swab_spec [OF xs(2,1) assms(2,1)] by (simp add: up_ok_def)
  moreover have "swab (wr m p (swab_bytes xs)) p p n = Some (wr (wr m p (swab_bytes xs)) p (swab_bytes (swab_bytes xs)))"
    using assms xs(1) len by (intro swab_spec) (simp_all add: up_ok_def)
  moreover have "wr (wr m p (swab_bytes xs)) p xs = m" using len xs by (simp add: wr_wr_same wr_block_id)
  ultimately show ?thesis by (simp add: swab_bytes_twice)
qed

theorem swab_twice_witness:
  "\<exists>m'. swab (\<lambda>_. Some 0) 7 7 5 = Some m' \<and> swab m' 7 7 5 = Some (\<lambda>_. Some 0)"
  using swab_twice [of "\<lambda>_. Some 0" 7 5] by simp

end
