(* ===== verification/Ffs.thy ===== *)
theory Ffs
  imports CMem
begin

text \<open>
  The searches for the lowest set bit: \<open>ffss\<close> on 16, \<open>ffsl\<close> on 32 and \<open>ffsll\<close> on 64 bits. They isolate
  the bit with \<open>bits & -bits\<close>, shift it into the range of a lookup table and add the shift. An index
  beyond the table is \<open>None\<close>.
\<close>

section \<open>The routines\<close>

text \<open>The table of \<open>ffsl\<close> has an entry for each of the 256 bytes, that of \<open>ffss\<close> for the first 128.\<close>

definition ffss_lookup :: "nat list" where
  "ffss_lookup = [0, 1, 2, 2] @ replicate 4 3 @ replicate 8 4 @ replicate 16 5 @ replicate 32 6 @ replicate 64 7"

definition ffsl_lookup :: "nat list" where
  "ffsl_lookup = ffss_lookup @ replicate 128 8"

definition table :: "nat list \<Rightarrow> nat \<Rightarrow> nat option" where
  "table t i = (if i < length t then Some (t ! i) else None)"

definition ffsl_index :: "u32 \<Rightarrow> nat option" where
  "ffsl_index ind =
    (let shift = (if ind > 0xffff then if ind > 0xffffff then 24 else 16 else if ind > 0xff then 8 else 0)
     in do { x \<leftarrow> table ffsl_lookup (unat (drop_bit shift ind)); Some (x + shift) })"

definition ffsl :: "u32 \<Rightarrow> nat option" where
  "ffsl bits = ffsl_index (bits AND - bits)"

definition ffss_index :: "16 word \<Rightarrow> nat option" where
  "ffss_index ind =
    (let shift = (if ind > 0xff then 8 else 0)
     in do { x \<leftarrow> table ffss_lookup (unat (drop_bit shift ind)); Some (x + shift) })"

definition ffss :: "16 word \<Rightarrow> nat option" where
  "ffss bits = ffss_index (bits AND - bits)"

definition ffsll :: "u64 \<Rightarrow> nat option" where
  "ffsll bits =
    (let ind = bits AND - bits in
     if ind \<le> 0xffffffff then ffsl (ucast bits)
     else do { x \<leftarrow> ffsl (ucast (signed_drop_bit 32 bits)); Some (32 + x) })"

section \<open>The lowest set bit\<close>

definition lowest_bit :: "'a::len word \<Rightarrow> nat \<Rightarrow> bool" where
  "lowest_bit w k \<longleftrightarrow> bit w k \<and> (\<forall>j<k. \<not> bit w j)"

lemma lowest_bit_exists: "w \<noteq> 0 \<Longrightarrow> \<exists>k. lowest_bit w k"
proof -
  assume "w \<noteq> 0"
  then obtain n where "bit w n" by (metis bit_eqI bit_0_eq bot_apply bot_bool_def)
  then show ?thesis unfolding lowest_bit_def by (metis exists_least_iff)
qed

lemma and_minus_odd: "odd v \<Longrightarrow> v AND - v = (1 :: 'a::len word)"
proof (rule bit_word_eqI)
  fix n assume "n < LENGTH('a)" and v: "odd v"
  then have "v = 1 + (v - 1)" "even (v - 1)" by simp_all
  then have v1: "bit v n = (bit (v - 1) n \<or> n = 0)" by (metis even_bit_succ_iff)
  have "bit (v - 1) 0 = False" using \<open>even (v - 1)\<close> by (simp add: bit_0)
  moreover have "bit (- v) n = (\<not> bit (v - 1) n)"
    using \<open>n < LENGTH('a)\<close> by (simp add: minus_eq_not_minus_1 bit_not_iff)
  ultimately show "bit (v AND - v) n = bit (1 :: 'a word) n"
    using v1 by (cases n) (simp_all add: bit_and_iff bit_1_iff)
qed

lemma lowest_bit_isolated:
  assumes "lowest_bit w k"
  shows "w AND - w = 2 ^ k"
proof -
  let ?v = "drop_bit k w"
  have k: "k < LENGTH('a)" using assms bit_imp_le_length by (auto simp: lowest_bit_def)
  have "take_bit k w = 0"
    using assms by (intro bit_word_eqI) (simp add: bit_take_bit_iff lowest_bit_def)
  then have w: "w = push_bit k ?v" using bits_ident [of k w] by simp
  have "odd ?v" using assms by (simp add: lowest_bit_def bit_iff_odd_drop_bit)
  have "- push_bit k ?v = push_bit k (- ?v)" by (simp add: push_bit_eq_mult)
  then have "w AND - w = push_bit k (?v AND - ?v)" using w by (metis push_bit_and)
  then show ?thesis using and_minus_odd [OF \<open>odd ?v\<close>] by (simp add: push_bit_eq_mult)
qed

section \<open>Correctness\<close>

lemma ffsl_0: "ffsl 0 = Some 0"
  by (simp add: ffsl_def ffsl_index_def table_def ffsl_lookup_def ffss_lookup_def)

lemma ffsl_powers: "\<forall>k<32. ffsl_index (2 ^ k) = Some (k + 1)"
proof -
  have "list_all (\<lambda>k. ffsl_index (2 ^ k) = Some (k + 1)) [0..<32]"
    by (simp add: ffsl_index_def Let_def table_def ffsl_lookup_def ffss_lookup_def nth_append nth_Cons' upt_rec)
  then show ?thesis by (simp add: list_all_iff)
qed

lemma ffss_powers: "\<forall>k<16. ffss_index (2 ^ k) = (if k = 7 \<or> k = 15 then None else Some (k + 1))"
  by code_simp

lemma ffsl_spec: "lowest_bit w k \<Longrightarrow> ffsl w = Some (k + 1)"
  using ffsl_powers lowest_bit_isolated [of w k] bit_imp_le_length [of w k]
  by (auto simp: ffsl_def lowest_bit_def)

lemma ffsll_spec:
  assumes "lowest_bit w k"
  shows "ffsll w = Some (k + 1)"
proof -
  have k: "k < 64" using assms bit_imp_le_length [of w k] by (simp add: lowest_bit_def)
  have ind: "w AND - w = 2 ^ k" using assms by (rule lowest_bit_isolated)
  have le: "\<forall>k<64. ((2 :: u64) ^ k \<le> 0xffffffff) = (k < 32)"
  proof -
    have "list_all (\<lambda>k. ((2 :: u64) ^ k \<le> 0xffffffff) = (k < 32)) [0..<64]" by (simp add: upt_rec)
    then show ?thesis by (simp add: list_all_iff)
  qed
  show ?thesis
  proof (cases "k < 32")
    case True
    then have "lowest_bit (ucast w :: u32) k" using assms by (auto simp: lowest_bit_def bit_simps)
    then show ?thesis using ffsl_spec [of "ucast w" k] True le k ind by (simp add: ffsll_def)
  next
    case False
    have "lowest_bit (ucast (signed_drop_bit 32 w) :: u32) (k - 32)"
      using assms False k unfolding lowest_bit_def
      by (auto simp: bit_simps min_def)
    then show ?thesis using ffsl_spec [of "ucast (signed_drop_bit 32 w)" "k - 32"] False le k ind by (simp add: ffsll_def)
  qed
qed

text \<open>\<open>ffsl\<close> and \<open>ffsll\<close> return the number of the lowest set bit, counted from 1, of every word that is not zero,
  \<open>ffsl\<close> returns 0 for zero, and \<open>ffss\<close> agrees on 16 bits except where the lowest bit is bit 7 or bit 15:
  there it reads beyond the end of its lookup table, which has 128 entries only.\<close>

theorem ffs_correct:
  "(w \<noteq> 0 \<longrightarrow> (\<exists>k. lowest_bit w k \<and> ffsl w = Some (k + 1))) \<and> ffsl 0 = Some 0 \<and>
   (x \<noteq> 0 \<longrightarrow> (\<exists>k. lowest_bit x k \<and> ffsll x = Some (k + 1))) \<and>
   (y \<noteq> 0 \<longrightarrow> (\<exists>k. lowest_bit y k \<and> ffss y = (if k = 7 \<or> k = 15 then None else Some (k + 1))))"
proof -
  have "\<exists>k. lowest_bit y k \<and> ffss y = (if k = 7 \<or> k = 15 then None else Some (k + 1))" if nz: "y \<noteq> 0"
  proof -
    obtain k where k: "lowest_bit y k" using lowest_bit_exists [OF nz] by blast
    have "k < 16" using k bit_imp_le_length [of y k] by (simp add: lowest_bit_def)
    then show ?thesis using ffss_powers k lowest_bit_isolated [OF k] by (intro exI [of _ k]) (simp add: ffss_def)
  qed
  then show ?thesis using lowest_bit_exists [of w] lowest_bit_exists [of x] ffsl_spec ffsll_spec ffsl_0 by blast
qed

theorem ffs_correct_witness: "\<exists>k. lowest_bit (128 :: 16 word) k \<and> ffss 128 = (if k = 7 \<or> k = 15 then None else Some (k + 1))"
  using ffs_correct [of 1 1 128] by simp

lemma ffss_128: "ffss 128 = None"
  by code_simp

end
