(* ===== verification/Argz.thy ===== *)
theory Argz
  imports StrTok StrMisc
begin

text \<open>
  Argz vectors (\<^verbatim>\<open>string/argz-*.c\<close>): a sequence of strings kept in one block of memory, each followed
  by its zero byte. \<open>argz_at m p ws\<close> says that the strings \<open>ws\<close> are kept at \<open>p\<close>; \<open>pack ws\<close> are the
  bytes. \<open>malloc\<close>, \<open>realloc\<close> and \<open>free\<close> are parameters, and a lemma about a routine that allocates
  assumes of the one call it makes what the allocator promises (\<open>fresh\<close>, \<open>grown\<close>). The vectors of
  pointers (\<open>argv\<close>) lie in a memory of their own, whose cells are pointers.
\<close>

datatype error_t = NoError | ENOMEM | EINVAL

text \<open>The caller's variables \<open>*argz\<close> and \<open>*argz_len\<close>, with the memory and the result.\<close>

record argz_result =
  amem :: bmem
  aptr :: nat
  alen :: nat
  aerr :: error_t

section \<open>The routines\<close>

partial_function (option) argz_count_loop :: "bmem \<Rightarrow> nat \<Rightarrow> nat \<Rightarrow> nat \<Rightarrow> nat option" where
  "argz_count_loop m argz len cnt =
    (if len > 0
     then do { part_len \<leftarrow> strlen m argz;
               argz_count_loop m (argz + (part_len + 1)) (len - (part_len + 1)) (cnt + 1) }
     else Some cnt)"

definition argz_count :: "bmem \<Rightarrow> nat \<Rightarrow> nat \<Rightarrow> nat option" where
  "argz_count m argz len = argz_count_loop m argz len 0"

partial_function (option) argz_extract :: "bmem \<Rightarrow> nat mem \<Rightarrow> nat \<Rightarrow> nat \<Rightarrow> nat \<Rightarrow> nat mem option" where
  "argz_extract m v argz len argv =
    (if len > 0
     then do { part_len \<leftarrow> strlen m argz;
               v \<leftarrow> st v argv argz;
               argz_extract m v (argz + (part_len + 1)) (len - (part_len + 1)) (argv + 1) }
     else st v argv null)"

definition argz_next :: "bmem \<Rightarrow> nat \<Rightarrow> nat \<Rightarrow> nat \<Rightarrow> nat option" where
  "argz_next m argz argz_len entry =
    (if entry \<noteq> null
     then do { entry \<leftarrow> (if entry < argz + argz_len then do { e \<leftarrow> strchr m entry 0; Some (e + 1) } else Some entry);
               Some (if entry \<ge> argz + argz_len then null else entry) }
     else Some (if argz_len > 0 then argz else null))"

partial_function (option) argz_stringify_loop :: "bmem \<Rightarrow> nat \<Rightarrow> nat \<Rightarrow> u32 \<Rightarrow> bmem option" where
  "argz_stringify_loop m argz len sep =
    do { part_len \<leftarrow> strnlen m argz len;
         if len - part_len \<le> 1 then Some m
         else do { m \<leftarrow> st m (argz + part_len) (ucast sep);
                   argz_stringify_loop m (argz + part_len + 1) (len - part_len - 1) sep } }"

definition argz_stringify :: "bmem \<Rightarrow> nat \<Rightarrow> nat \<Rightarrow> u32 \<Rightarrow> bmem option" where
  "argz_stringify m argz len sep = (if len > 0 then argz_stringify_loop m argz len sep else Some m)"

partial_function (option) argv_total :: "bmem \<Rightarrow> nat mem \<Rightarrow> nat \<Rightarrow> nat \<Rightarrow> nat option" where
  "argv_total m v argv tlen =
    do { a \<leftarrow> ld v argv;
         if a \<noteq> null then do { l \<leftarrow> strlen m a; argv_total m v (argv + 1) (tlen + (l + 1)) } else Some tlen }"

partial_function (option) argv_copy :: "bmem \<Rightarrow> nat mem \<Rightarrow> nat \<Rightarrow> nat \<Rightarrow> bmem option" where
  "argv_copy m v ap p =
    do { a \<leftarrow> ld v ap;
         if a \<noteq> null then do { (m, p) \<leftarrow> stpcpy m p a; argv_copy m v (ap + 1) (p + 1) } else Some m }"

definition argz_create :: "(bmem \<Rightarrow> nat \<Rightarrow> bmem \<times> nat) \<Rightarrow> bmem \<Rightarrow> nat mem \<Rightarrow> nat \<Rightarrow> nat \<Rightarrow> argz_result option" where
  "argz_create malloc m v argv len =
    do { tlen \<leftarrow> argv_total m v argv 0;
         if tlen = 0 then Some \<lparr>amem = m, aptr = null, alen = tlen, aerr = NoError\<rparr>
         else (case malloc m tlen of (m, argz) \<Rightarrow>
           if argz = null then Some \<lparr>amem = m, aptr = argz, alen = len, aerr = ENOMEM\<rparr>
           else do { m \<leftarrow> argv_copy m v argv argz;
                     Some \<lparr>amem = m, aptr = argz, alen = tlen, aerr = NoError\<rparr> }) }"

text \<open>
  The loop \<open>argz_create_sep\<close> and \<open>argz_add_sep\<close> share: the byte read is compared as a signed
  character with the \<open>int\<close> delimiter.
\<close>

partial_function (option) sep_loop :: "bmem \<Rightarrow> nat \<Rightarrow> nat \<Rightarrow> nat \<Rightarrow> u32 \<Rightarrow> nat \<Rightarrow> (bmem \<times> nat) option" where
  "sep_loop m argz rp wp delim nlen =
    do { c \<leftarrow> ld m rp;
         (m, wp, nlen) \<leftarrow>
           (if scast c = delim
            then do { last \<leftarrow> (if wp > argz then ld m (wp - 1) else Some 0);
                      if wp > argz \<and> last \<noteq> 0 then do { m \<leftarrow> st m wp 0; Some (m, wp + 1, nlen) }
                      else Some (m, wp, nlen - 1) }
            else do { m \<leftarrow> st m wp c; Some (m, wp + 1, nlen) });
         c \<leftarrow> ld m rp;
         if c \<noteq> 0 then sep_loop m argz (rp + 1) wp delim nlen else Some (m, nlen) }"

definition argz_create_sep ::
    "(bmem \<Rightarrow> nat \<Rightarrow> bmem \<times> nat) \<Rightarrow> (bmem \<Rightarrow> nat \<Rightarrow> bmem) \<Rightarrow> bmem \<Rightarrow> nat \<Rightarrow> u32 \<Rightarrow> nat \<Rightarrow> argz_result option" where
  "argz_create_sep malloc free m string delim len =
    do { l \<leftarrow> strlen m string;
         if l + 1 > 1
         then (case malloc m (l + 1) of (m, argz) \<Rightarrow>
           if argz = null then Some \<lparr>amem = m, aptr = argz, alen = len, aerr = ENOMEM\<rparr>
           else do { (m, nlen) \<leftarrow> sep_loop m argz string argz delim (l + 1);
                     Some (if nlen = 0 then \<lparr>amem = free m argz, aptr = null, alen = nlen, aerr = NoError\<rparr>
                           else \<lparr>amem = m, aptr = argz, alen = nlen, aerr = NoError\<rparr>) })
         else Some \<lparr>amem = m, aptr = null, alen = 0, aerr = NoError\<rparr> }"

definition argz_add_sep ::
    "(bmem \<Rightarrow> nat \<Rightarrow> nat \<Rightarrow> bmem \<times> nat) \<Rightarrow> bmem \<Rightarrow> nat \<Rightarrow> nat \<Rightarrow> nat \<Rightarrow> u32 \<Rightarrow> argz_result option" where
  "argz_add_sep realloc m argz argz_len string delim =
    do { l \<leftarrow> strlen m string;
         if l + 1 > 1
         then (case realloc m argz (argz_len + (l + 1)) of (m, argz) \<Rightarrow>
           if argz = null then Some \<lparr>amem = m, aptr = argz, alen = argz_len, aerr = ENOMEM\<rparr>
           else do { (m, nlen) \<leftarrow> sep_loop m argz string (argz + argz_len) delim (l + 1);
                     Some \<lparr>amem = m, aptr = argz, alen = argz_len + nlen, aerr = NoError\<rparr> })
         else Some \<lparr>amem = m, aptr = argz, alen = argz_len, aerr = NoError\<rparr> }"

definition argz_append ::
    "(bmem \<Rightarrow> nat \<Rightarrow> nat \<Rightarrow> bmem \<times> nat) \<Rightarrow> bmem \<Rightarrow> nat \<Rightarrow> nat \<Rightarrow> nat \<Rightarrow> nat \<Rightarrow> argz_result option" where
  "argz_append realloc m argz argz_len buf buf_len =
    (case realloc m argz (argz_len + buf_len) of (m, new_argz) \<Rightarrow>
       if new_argz \<noteq> null
       then do { m \<leftarrow> copy_up m (new_argz + argz_len) buf buf_len;
                 Some \<lparr>amem = m, aptr = new_argz, alen = argz_len + buf_len, aerr = NoError\<rparr> }
       else Some \<lparr>amem = m, aptr = argz, alen = argz_len, aerr = ENOMEM\<rparr>)"

definition argz_add ::
    "(bmem \<Rightarrow> nat \<Rightarrow> nat \<Rightarrow> bmem \<times> nat) \<Rightarrow> bmem \<Rightarrow> nat \<Rightarrow> nat \<Rightarrow> nat \<Rightarrow> argz_result option" where
  "argz_add realloc m argz argz_len str =
    do { l \<leftarrow> strlen m str; argz_append realloc m argz argz_len str (l + 1) }"

text \<open>\<open>memmove\<close>, in assembler in the library: it copies in the direction that is safe.\<close>

definition memmove :: "bmem \<Rightarrow> nat \<Rightarrow> nat \<Rightarrow> nat \<Rightarrow> bmem option" where
  "memmove m d s n = (if d \<le> s then copy_up m d s n else copy_down m d s n)"

definition argz_delete :: "(bmem \<Rightarrow> nat \<Rightarrow> bmem) \<Rightarrow> bmem \<Rightarrow> nat \<Rightarrow> nat \<Rightarrow> nat \<Rightarrow> argz_result option" where
  "argz_delete free m argz argz_len entry =
    (if entry \<noteq> null
     then do { l \<leftarrow> strlen m entry;
               m \<leftarrow> memmove m entry (entry + (l + 1)) (argz_len - (l + 1) - (entry - argz));
               Some (if argz_len - (l + 1) = 0 then \<lparr>amem = free m argz, aptr = null, alen = 0, aerr = NoError\<rparr>
                     else \<lparr>amem = m, aptr = argz, alen = argz_len - (l + 1), aerr = NoError\<rparr>) }
     else Some \<lparr>amem = m, aptr = argz, alen = argz_len, aerr = NoError\<rparr>)"

partial_function (option) entry_start :: "bmem \<Rightarrow> nat \<Rightarrow> nat option" where
  "entry_start m before =
    do { c \<leftarrow> ld m (before - 1); if c \<noteq> 0 then entry_start m (before - 1) else Some before }"

definition argz_insert ::
    "(bmem \<Rightarrow> nat \<Rightarrow> nat \<Rightarrow> bmem \<times> nat) \<Rightarrow> bmem \<Rightarrow> nat \<Rightarrow> nat \<Rightarrow> nat \<Rightarrow> nat \<Rightarrow> argz_result option" where
  "argz_insert realloc m argz argz_len before entry =
    (if before = null then argz_add realloc m argz argz_len entry
     else if before < argz \<or> before \<ge> argz + argz_len
     then Some \<lparr>amem = m, aptr = argz, alen = argz_len, aerr = EINVAL\<rparr>
     else do { before \<leftarrow> (if before > argz then entry_start m before else Some before);
               l \<leftarrow> strlen m entry;
               case realloc m argz (argz_len + (l + 1)) of (m, new_argz) \<Rightarrow>
                 if new_argz \<noteq> null
                 then do { m \<leftarrow> memmove m (new_argz + (before - argz) + (l + 1)) (new_argz + (before - argz))
                                (argz_len - (before - argz));
                           m \<leftarrow> memmove m (new_argz + (before - argz)) entry (l + 1);
                           Some \<lparr>amem = m, aptr = new_argz, alen = argz_len + (l + 1), aerr = NoError\<rparr> }
                 else Some \<lparr>amem = m, aptr = argz, alen = argz_len, aerr = ENOMEM\<rparr> })"

section \<open>The strings of a vector\<close>

definition pack :: "byte list list \<Rightarrow> byte list" where
  "pack ws = concat (map (\<lambda>w. w @ [0]) ws)"

definition argz_at :: "bmem \<Rightarrow> nat \<Rightarrow> byte list list \<Rightarrow> bool" where
  "argz_at m p ws \<longleftrightarrow> block m p (pack ws) \<and> (\<forall>w\<in>set ws. 0 \<notin> set w)"

lemma pack_simps [simp]: "pack [] = []" "pack (w # ws) = w @ 0 # pack ws" "pack (us @ vs) = pack us @ pack vs"
  by (simp_all add: pack_def)

lemma argz_at_Nil [simp]: "argz_at m p []"
  by (simp add: argz_at_def)

lemma argz_at_Cons: "argz_at m p (w # ws) \<longleftrightarrow> cstr m p w \<and> argz_at m (p + (length w + 1)) ws"
  by (auto simp: argz_at_def cstr_def block_append block_Cons)

lemma argz_at_append: "argz_at m p (us @ vs) \<longleftrightarrow> argz_at m p us \<and> argz_at m (p + length (pack us)) vs"
  by (auto simp: argz_at_def block_append)

lemma pack_snoc_0: "ws \<noteq> [] \<Longrightarrow> \<exists>t. pack ws = t @ [0]"
  by (cases ws rule: rev_cases) simp_all

lemma pack_eq_Nil [simp]: "pack ws = [] \<longleftrightarrow> ws = []"
  by (cases ws) simp_all

text \<open>The places where the strings begin.\<close>

fun places :: "nat \<Rightarrow> byte list list \<Rightarrow> nat list" where
  "places p [] = []"
| "places p (w # ws) = p # places (p + (length w + 1)) ws"

lemma length_places [simp]: "length (places p ws) = length ws"
  by (induction ws arbitrary: p) simp_all

section \<open>Counting, listing and walking\<close>

lemma argz_count_loop_spec:
  "argz_at m p ws \<Longrightarrow> p \<noteq> 0 \<Longrightarrow> argz_count_loop m p (length (pack ws)) n = Some (n + length ws)"
proof (induction ws arbitrary: p n)
  case Nil
  then show ?case by (subst argz_count_loop.simps) simp
next
  case (Cons w ws)
  then show ?case by (subst argz_count_loop.simps) (simp add: argz_at_Cons strlen_spec [of m p w])
qed

lemma argz_count_spec: "argz_at m p ws \<Longrightarrow> p \<noteq> 0 \<Longrightarrow> argz_count m p (length (pack ws)) = Some (length ws)"
  by (simp add: argz_count_def argz_count_loop_spec)

lemma argz_extract_spec:
  "argz_at m p ws \<Longrightarrow> p \<noteq> 0 \<Longrightarrow> mapped v a (length ws + 1) \<Longrightarrow>
    argz_extract m v p (length (pack ws)) a = Some (wr v a (places p ws @ [null]))"
proof (induction ws arbitrary: p v a)
  case Nil
  then show ?case by (subst argz_extract.simps) (simp add: mapped_Suc wr_Cons)
next
  case (Cons w ws)
  have "mapped (v(a \<mapsto> p)) (Suc a) (length ws + 1)" using Cons.prems(3) by (intro mapped_upd) (simp add: mapped_Suc)
  then show ?case using Cons
    by (subst argz_extract.simps) (simp add: argz_at_Cons strlen_spec [of m p w] mapped_Suc wr_Cons del: fun_upd_apply)
qed

lemma strchr_0_spec: "cstr m p s \<Longrightarrow> strchr m p 0 = Some (p + length s)"
proof -
  assume c: "cstr m p s"
  then have t: "takeWhile (\<lambda>x. x \<noteq> 0) s = s" by (auto simp: cstr_def takeWhile_eq_all_conv)
  show ?thesis using strchr_spec [OF c, of 0 0] unfolding t by simp
qed

text \<open>\<open>argz_next\<close> goes from one string to the next, and from the last one to \<open>NULL\<close>.\<close>

lemma argz_next_spec:
  assumes "argz_at m p (us @ w # vs)" "p \<noteq> 0"
  shows "argz_next m p (length (pack (us @ w # vs))) (p + length (pack us)) =
    Some (if vs = [] then null else p + length (pack (us @ [w])))"
proof -
  have "cstr m (p + length (pack us)) w" using assms(1) by (simp add: argz_at_append argz_at_Cons)
  then show ?thesis using assms(2) strchr_0_spec by (auto simp: argz_next_def null_def)
qed

lemma argz_next_first: "argz_next m p (length (pack ws)) null = Some (if ws = [] then null else p)"
  by (simp add: argz_next_def)

section \<open>Printing\<close>

fun joined :: "byte \<Rightarrow> byte list list \<Rightarrow> byte list" where
  "joined c [] = []"
| "joined c [w] = w @ [0]"
| "joined c (w # v # ws) = w @ c # joined c (v # ws)"

lemma length_joined [simp]: "length (joined c ws) = length (pack ws)"
  by (induction c ws rule: joined.induct) simp_all

lemma strnlen_argz: "cstr m p w \<Longrightarrow> p \<noteq> 0 \<Longrightarrow> strnlen m p (length w + n) = Some (length w)"
  by (simp add: strnlen_spec)

lemma argz_stringify_loop_spec:
  "argz_at m p ws \<Longrightarrow> p \<noteq> 0 \<Longrightarrow> ws \<noteq> [] \<Longrightarrow>
    argz_stringify_loop m p (length (pack ws)) sep = Some (wr m p (joined (ucast sep) ws))"
proof (induction "ucast sep :: byte" ws arbitrary: m p rule: joined.induct)
  case 1
  then show ?case by simp
next
  case (2 w)
  have "wr m p (w @ [0]) = m" using 2 by (intro wr_block_id) (simp add: argz_at_def)
  then show ?case using 2 strnlen_argz [of m p w 1]
    by (subst argz_stringify_loop.simps) (simp add: argz_at_Cons)
next
  case (3 w v ws)
  let ?b = "p + length w" and ?c = "ucast sep :: byte"
  have c: "cstr m p w" "argz_at m (Suc ?b) (v # ws)" using 3(2) by (simp_all add: argz_at_Cons)
  have "m ?b \<noteq> None" using cstr_end [OF c(1)] by simp
  then have "argz_stringify_loop m p (length (pack (w # v # ws))) sep =
      argz_stringify_loop (m(?b \<mapsto> ?c)) (Suc ?b) (length (pack (v # ws))) sep"
    using strnlen_argz [OF c(1) 3(3), of "Suc (length (pack (v # ws)))"]
    by (subst argz_stringify_loop.simps) (simp del: fun_upd_apply)
  moreover have "argz_at (m(?b \<mapsto> ?c)) (Suc ?b) (v # ws)"
    using c(2) unfolding argz_at_def by (subst block_upd_other) auto
  ultimately have "argz_stringify_loop m p (length (pack (w # v # ws))) sep =
      Some (wr (m(?b \<mapsto> ?c)) (Suc ?b) (joined ?c (v # ws)))"
    using 3(1) [of "m(?b \<mapsto> ?c)" "Suc ?b"] by (simp del: fun_upd_apply joined.simps pack_simps)
  also have "wr (m(?b \<mapsto> ?c)) (Suc ?b) (joined ?c (v # ws)) = wr m ?b (?c # joined ?c (v # ws))" by (simp only: wr_Cons)
  also have "\<dots> = wr m p (w @ ?c # joined ?c (v # ws))" by (rule wr_append_end [OF c(1)])
  finally show ?case by simp
qed

lemma argz_stringify_spec:
  "argz_at m p ws \<Longrightarrow> p \<noteq> 0 \<Longrightarrow> argz_stringify m p (length (pack ws)) sep = Some (wr m p (joined (ucast sep) ws))"
  using argz_stringify_loop_spec [of m p ws sep] by (cases ws) (auto simp: argz_stringify_def)

section \<open>Making a vector from pointers\<close>

text \<open>\<open>argv_at m v a ws\<close>: the pointers at \<open>a\<close>, up to a null pointer, point to the strings \<open>ws\<close>.\<close>

fun argv_at :: "bmem \<Rightarrow> nat mem \<Rightarrow> nat \<Rightarrow> byte list list \<Rightarrow> bool" where
  "argv_at m v a [] \<longleftrightarrow> v a = Some null"
| "argv_at m v a (w # ws) \<longleftrightarrow> (\<exists>p. v a = Some p \<and> p \<noteq> null \<and> cstr m p w) \<and> argv_at m v (a + 1) ws"

fun argv_apart :: "nat mem \<Rightarrow> nat \<Rightarrow> byte list list \<Rightarrow> nat \<Rightarrow> nat \<Rightarrow> bool" where
  "argv_apart v a [] p n \<longleftrightarrow> True"
| "argv_apart v a (w # ws) p n \<longleftrightarrow> disjnt_rng p n (the (v a)) (Suc (length w)) \<and> argv_apart v (a + 1) ws p n"

lemma argv_total_spec: "argv_at m v a ws \<Longrightarrow> argv_total m v a n = Some (n + length (pack ws))"
proof (induction ws arbitrary: a n)
  case Nil
  then show ?case by (subst argv_total.simps) (simp add: ld_def)
next
  case (Cons w ws)
  then show ?case by (subst argv_total.simps) (auto simp: ld_def strlen_spec null_def)
qed

lemma argv_at_frame:
  "argv_at m v a ws \<Longrightarrow> argv_apart v a ws p n \<Longrightarrow> length xs \<le> n \<Longrightarrow> argv_at (wr m p xs) v a ws"
proof (induction ws arbitrary: a)
  case (Cons w ws)
  obtain q where q: "v a = Some q" "q \<noteq> null" "cstr m q w" using Cons.prems(1) by auto
  moreover have "disjnt_rng p (length xs) q (Suc (length w))" using Cons.prems(2,3) q(1) by (auto simp: disjnt_rng_def)
  ultimately have "cstr (wr m p xs) q w" by (simp add: cstr_wr_disjnt)
  then show ?case using Cons q by auto
qed simp

lemma argv_apart_sub:
  "argv_apart v a ws p n \<Longrightarrow> p \<le> q \<Longrightarrow> q + k \<le> p + n \<Longrightarrow> argv_apart v a ws q k"
  by (induction ws arbitrary: a) (auto simp: disjnt_rng_def)

lemma argv_copy_spec:
  "argv_at m v a ws \<Longrightarrow> mapped m p (length (pack ws)) \<Longrightarrow> argv_apart v a ws p (length (pack ws)) \<Longrightarrow>
    argv_copy m v a p = Some (wr m p (pack ws))"
proof (induction ws arbitrary: m a p)
  case Nil
  then show ?case by (subst argv_copy.simps) (simp add: ld_def)
next
  case (Cons w ws)
  let ?m = "wr m p (w @ [0])" and ?p = "p + (length w + 1)"
  obtain q where q: "v a = Some q" "q \<noteq> null" "cstr m q w" using Cons.prems(1) by auto
  have mp: "mapped m p (Suc (length w))" "mapped m ?p (length (pack ws))"
    using Cons.prems(2) mapped_add [of m p "length w + 1" "length (pack ws)"] by simp_all
  have "disjnt_rng p (Suc (length w)) q (Suc (length w))" using Cons.prems(3) q(1) by (auto simp: disjnt_rng_def)
  then have c: "stpcpy m p q = Some (?m, p + length w)" using q(3) mp(1) by (intro stpcpy_spec)
  have "argv_at ?m v (a + 1) ws"
    using Cons.prems(1,3) by (intro argv_at_frame [of _ _ _ _ _ "length (pack (w # ws))"]) simp_all
  moreover have "mapped ?m ?p (length (pack ws))" using mp(2) by (rule mapped_wr)
  moreover have "argv_apart v (a + 1) ws ?p (length (pack ws))"
    using Cons.prems(3) by (auto intro: argv_apart_sub)
  ultimately have "argv_copy ?m v (a + 1) ?p = Some (wr ?m ?p (pack ws))" by (rule Cons.IH)
  moreover have "wr ?m ?p (pack ws) = wr m p (pack (w # ws))" using wr_append [of m p "w @ [0]" "pack ws"] by simp
  ultimately show ?case using q c by (subst argv_copy.simps) (simp add: ld_def)
qed

lemma argv_fresh:
  assumes "fresh m n (m', p)" "p \<noteq> null" "argv_at m v a ws" "0 < n"
  shows "argv_at m' v a ws \<and> argv_apart v a ws p n"
  using assms(3)
proof (induction ws arbitrary: a)
  case Nil
  then show ?case by simp
next
  case (Cons w ws)
  obtain q where q: "v a = Some q" "q \<noteq> null" "cstr m q w" using Cons.prems by auto
  have p: "p \<noteq> 0" using assms(2) by (simp add: null_def)
  have "block m' q (w @ [0])" "disjnt_rng p n q (length (w @ [0]))"
    using fresh_block [OF assms(1) cstr_terminated [OF q(3)] p] assms(4) by auto
  then have "cstr m' q w" "disjnt_rng p n q (Suc (length w))" using q(3) by (simp_all add: cstr_def)
  then show ?case using q Cons by auto
qed

lemma argv_at_nz: "argv_at m v a ws \<Longrightarrow> \<forall>w\<in>set ws. 0 \<notin> set w"
  by (induction ws arbitrary: a) (auto simp: cstr_def)

lemma argz_create_spec:
  assumes "argv_at m v a ws" "n = length (pack ws)" "fresh m n (malloc m n)"
  shows "\<exists>r. argz_create malloc m v a len = Some r \<and>
    (if ws = [] then aerr r = NoError \<and> aptr r = null \<and> alen r = 0
     else if snd (malloc m n) = null then aerr r = ENOMEM \<and> amem r = m
     else aerr r = NoError \<and> aptr r = snd (malloc m n) \<and> alen r = n \<and> argz_at (amem r) (aptr r) ws)"
proof -
  obtain m1 p where mp: "malloc m n = (m1, p)" by fastforce
  have t: "argv_total m v a 0 = Some n" using argv_total_spec [OF assms(1), of 0] assms(2) by simp
  show ?thesis
  proof (cases "ws = []")
    case True
    then show ?thesis using t assms(2) by (simp add: argz_create_def)
  next
    case ne: False
    then have n: "0 < n" using assms(2) by simp
    show ?thesis
    proof (cases "p = null")
      case True
      then show ?thesis using t n mp ne assms(3) by (simp add: argz_create_def fresh_def)
    next
      case False
      note fr = argv_fresh [OF assms(3) [unfolded mp] False assms(1) n]
      have "mapped m1 p n" using assms(3) mp False by (simp add: fresh_def)
      then have "argv_copy m1 v a p = Some (wr m1 p (pack ws))" using fr assms(2) by (intro argv_copy_spec) auto
      moreover have "argz_at (wr m1 p (pack ws)) p ws" using argv_at_nz [OF assms(1)] by (simp add: argz_at_def)
      ultimately show ?thesis using t n mp ne False by (simp add: argz_create_def)
    qed
  qed
qed

end
