(* ===== verification/ArgzEdit.thy ===== *)
theory ArgzEdit
  imports Argz
begin

text \<open>
  The routines that make and change argz vectors: \<open>argz_create_sep\<close> and \<open>argz_add_sep\<close>,
  \<open>argz_append\<close>, \<open>argz_add\<close>, \<open>argz_insert\<close> and \<open>argz_delete\<close>, specified on the list of strings the
  vector holds.
\<close>

section \<open>Cutting a string at its delimiters\<close>

fun sep_out :: "(byte \<Rightarrow> bool) \<Rightarrow> byte list \<Rightarrow> byte list \<Rightarrow> byte list" where
  "sep_out P out [] = out @ [0]"
| "sep_out P out (c # s) =
    (if P c then if out \<noteq> [] \<and> last out \<noteq> 0 then sep_out P (out @ [0]) s else sep_out P out s
     else sep_out P (out @ [c]) s)"

text \<open>The strings: the fields that are not empty, and the last field in any case.\<close>

definition sep_words :: "(byte \<Rightarrow> bool) \<Rightarrow> byte list \<Rightarrow> byte list list" where
  "sep_words P s = filter (\<lambda>w. w \<noteq> []) (butlast (fields_of P s)) @ [last (fields_of P s)]"

lemma fields_not_Nil [simp]: "fields_of P s \<noteq> []"
  by (simp add: fields_of.simps)

lemma sep_words_cut:
  "\<forall>x\<in>set w. \<not> P x \<Longrightarrow> P d \<Longrightarrow> sep_words P (w @ d # s) = (if w = [] then sep_words P s else w # sep_words P s)"
  "\<forall>x\<in>set w. \<not> P x \<Longrightarrow> sep_words P w = [w]"
  by (simp_all add: sep_words_def fields_cut)

lemma sep_words_tokens:
  assumes "last (fields_of P s) \<noteq> []"
  shows "sep_words P s = tokens P s"
proof -
  have "filter (\<lambda>w. w \<noteq> []) (butlast (fields_of P s) @ [last (fields_of P s)]) = sep_words P s"
    using assms by (simp add: sep_words_def del: append_butlast_last_id)
  moreover have "butlast (fields_of P s) @ [last (fields_of P s)] = fields_of P s" by simp
  ultimately show ?thesis unfolding tokens_def by metis
qed

lemma sep_words_nz: "0 \<notin> set s \<Longrightarrow> \<forall>w\<in>set (sep_words P s). 0 \<notin> set w"
proof -
  have "\<Union> (set ` set (fields_of P s)) \<subseteq> set s"
  proof (induction P s rule: fields_of.induct)
    case (1 P s)
    have t: "set (takeWhile (\<lambda>c. \<not> P c) s) \<subseteq> set s" by (auto dest: set_takeWhileD)
    show ?case
    proof (cases "dropWhile (\<lambda>c. \<not> P c) s")
      case Nil
      then have "fields_of P s = [takeWhile (\<lambda>c. \<not> P c) s]" by (simp only: fields_of.simps [of P s] list.case)
      then show ?thesis using t by simp
    next
      case (Cons x r)
      then have f: "fields_of P s = takeWhile (\<lambda>c. \<not> P c) s # fields_of P r" by (simp only: fields_of.simps [of P s] list.case)
      have "set r \<subseteq> set (dropWhile (\<lambda>c. \<not> P c) s)" using Cons by auto
      then have "set r \<subseteq> set s" using set_dropWhileD [of _ "\<lambda>c. \<not> P c" s] by blast
      moreover have "\<Union> (set ` set (fields_of P r)) \<subseteq> set r" using 1 Cons by blast
      ultimately show ?thesis using t by (simp add: f)
    qed
  qed
  moreover have "set (sep_words P s) \<subseteq> set (fields_of P s)"
    unfolding sep_words_def by (auto dest: in_set_butlastD)
  ultimately show "0 \<notin> set s \<Longrightarrow> \<forall>w\<in>set (sep_words P s). 0 \<notin> set w" by blast
qed

lemma sep_out_words:
  "\<forall>x\<in>set w. \<not> P x \<and> x \<noteq> 0 \<Longrightarrow> 0 \<notin> set s \<Longrightarrow> sep_out P (pack us @ w) s = pack (us @ sep_words P (w @ s))"
proof (induction s arbitrary: us w)
  case Nil
  then show ?case by (simp add: sep_words_cut)
next
  case (Cons c s)
  have w: "\<forall>x\<in>set w. \<not> P x" using Cons.prems(1) by blast
  show ?case
  proof (cases "P c")
    case False
    then show ?thesis using Cons.IH [of "w @ [c]" us] Cons.prems by simp
  next
    case P: True
    show ?thesis
    proof (cases "w = []")
      case True
      have "pack us \<noteq> [] \<longrightarrow> last (pack us) = 0" using pack_snoc_0 [of us] by (metis last_snoc pack_eq_Nil)
      then show ?thesis using True P Cons.IH [of "[]" us] Cons.prems sep_words_cut(1) [of "[]" P c s]
        by (cases "us = []") simp_all
    next
      case False
      then have "last w \<noteq> 0" using Cons.prems(1) last_in_set by blast
      then show ?thesis using False P Cons.IH [of "[]" "us @ [w]"] Cons.prems sep_words_cut(1) [OF w P, of s] by simp
    qed
  qed
qed

lemma length_sep_out: "length out < length (sep_out P out s) \<and> length (sep_out P out s) \<le> length out + length s + 1"
  by (induction P out s rule: sep_out.induct) auto

lemma sep_loop_spec:
  assumes "cstr m q s" "mapped m b (length out + length s + 1)" "delim \<noteq> 0"
    and "disjnt_rng b (length out + length s + 1) q (length s + 1)" "P = (\<lambda>c. scast c = delim)"
    and "length s + 1 \<le> n"
  shows "sep_loop (wr m b out) b q (b + length out) delim n =
    Some (wr m b (sep_out P out s), n + length (sep_out P out s) - (length out + length s + 1))"
  using assms
proof (induction s arbitrary: q out n)
  case Nil
  have "wr m b out q = Some 0" using Nil.prems(1,4) by (subst wr_apply_out) (auto simp: cstr_Nil disjnt_rng_def)
  moreover have "wr m b out (b + length out) \<noteq> None"
    using mapped_nth [OF Nil.prems(2), of "length out"] by (intro wr_not_None) simp
  moreover have "(wr m b out)(b + length out \<mapsto> 0) = wr m b (out @ [0])" by (simp add: wr_snoc)
  moreover have "wr m b (out @ [0]) q = Some 0" using Nil.prems(1,4) by (subst wr_apply_out) (auto simp: cstr_Nil disjnt_rng_def)
  ultimately show ?case using Nil.prems(3) by (subst sep_loop.simps) (simp add: ld_def del: fun_upd_apply)
next
  case (Cons c s)
  have q: "wr m b out q = Some c" using Cons.prems(1,4) by (subst wr_apply_out) (auto simp: cstr_Cons disjnt_rng_def)
  have qc: "c \<noteq> 0" "cstr m (Suc q) s" using Cons.prems(1) by (simp_all add: cstr_Cons)
  have q': "wr m b (out @ [x]) q = Some c" for x
    using Cons.prems(1,4) by (subst wr_apply_out) (auto simp: cstr_Cons disjnt_rng_def)
  have wp: "wr m b out (b + length out) \<noteq> None"
    using mapped_nth [OF Cons.prems(2), of "length out"] by (intro wr_not_None) simp
  have st: "st (wr m b out) (b + length out) x = Some (wr m b (out @ [x]))" for x
    using wp by (simp add: wr_snoc del: fun_upd_apply)
  have mp: "mapped m b (length out + length s + 1)" using Cons.prems(2) by (rule mapped_le) simp
  have dj: "disjnt_rng b (length out + length s + 1) (Suc q) (length s + 1)"
    "disjnt_rng b (length (out @ [x]) + length s + 1) (Suc q) (length s + 1)" for x
    using Cons.prems(4) by (auto simp: disjnt_rng_def)
  have ih1: "sep_loop (wr m b (out @ [x])) b (Suc q) (b + length (out @ [x])) delim n =
      Some (wr m b (sep_out P (out @ [x]) s), n + length (sep_out P (out @ [x]) s) - (length (out @ [x]) + length s + 1))" for x
    using Cons.prems(2,6) by (intro Cons.IH [OF qc(2) _ Cons.prems(3) dj(2) Cons.prems(5)]) simp_all
  have ih2: "sep_loop (wr m b out) b (Suc q) (b + length out) delim (n - 1) =
      Some (wr m b (sep_out P out s), n - 1 + length (sep_out P out s) - (length out + length s + 1))"
    using Cons.prems(6) by (intro Cons.IH [OF qc(2) mp Cons.prems(3) dj(1) Cons.prems(5)]) simp
  have last: "out \<noteq> [] \<Longrightarrow> ld (wr m b out) (b + length out - 1) = Some (last out)"
    by (cases out rule: rev_cases) (simp_all add: ld_def wr_snoc)
  show ?case
  proof (cases "P c")
    case False
    then show ?thesis using q qc q' st ih1 Cons.prems(5) by (subst sep_loop.simps) (simp add: ld_def)
  next
    case P: True
    show ?thesis
    proof (cases "out \<noteq> [] \<and> last out \<noteq> 0")
      case True
      then show ?thesis using P q qc q' st [of 0] ih1 [of 0] last Cons.prems(5) by (subst sep_loop.simps) (simp add: ld_def)
    next
      case False
      have e: "n - 1 + length (sep_out P out s) - (length out + length s + 1) =
          n + length (sep_out P out s) - (length out + length (c # s) + 1)" using Cons.prems(6) by simp
      show ?thesis using False P q qc ih2 [unfolded e] last Cons.prems(5)
        by (subst sep_loop.simps) (cases "out = []"; simp add: ld_def)
    qed
  qed
qed

lemma argz_create_sep_spec:
  assumes "cstr m q s" "q \<noteq> 0" "s \<noteq> []" "delim \<noteq> 0" "fresh m (length s + 1) (malloc m (length s + 1))"
    and "P = (\<lambda>c. scast c = delim)"
  shows "\<exists>r. argz_create_sep malloc free m q delim len = Some r \<and>
    (if snd (malloc m (length s + 1)) = null then aerr r = ENOMEM
     else aerr r = NoError \<and> aptr r = snd (malloc m (length s + 1)) \<and> alen r = length (pack (sep_words P s)) \<and>
       argz_at (amem r) (aptr r) (sep_words P s))"
proof -
  obtain m1 p where mp: "malloc m (length s + 1) = (m1, p)" by fastforce
  have mp': "malloc m (Suc (length s)) = (m1, p)" using mp by simp
  show ?thesis
  proof (cases "p = null")
    case True
    then show ?thesis using strlen_spec [OF assms(1,2)] assms(3) mp' by (simp add: argz_create_sep_def)
  next
    case False
    then have p: "p \<noteq> 0" by (simp add: null_def)
    have nz: "0 \<notin> set s" using assms(1) by (simp add: cstr_def)
    note fr = assms(5) [unfolded mp]
    have b: "block m1 q (s @ [0])" "disjnt_rng p (length s + 1) q (length s + 1)"
      using fresh_block [OF fr cstr_terminated [OF assms(1)] p] by auto
    have c: "cstr m1 q s" using b(1) nz by (simp add: cstr_def)
    have mapd: "mapped m1 p (length s + 1)" using fr False by (simp add: fresh_def)
    have out: "sep_out P [] s = pack (sep_words P s)" using sep_out_words [of "[]" P s "[]"] nz by simp
    have "sep_loop m1 p q p delim (length s + 1) = Some (wr m1 p (pack (sep_words P s)), length (pack (sep_words P s)))"
      using sep_loop_spec [OF c, of p "[]" delim P "length s + 1"] mapd assms(4,6) b(2) out by simp
    moreover have "argz_at (wr m1 p (pack (sep_words P s))) p (sep_words P s)"
      using sep_words_nz [OF nz, of P] by (simp add: argz_at_def)
    moreover have "pack (sep_words P s) \<noteq> []" by (simp add: sep_words_def)
    ultimately show ?thesis using strlen_spec [OF assms(1,2)] assms(3) mp' False by (simp add: argz_create_sep_def)
  qed
qed

lemma argz_add_sep_step:
  assumes "cstr m q s" "argz_at m p us" "delim \<noteq> 0" "P = (\<lambda>c. scast c = delim)"
    and "mapped m p (length (pack us) + length s + 1)"
    and "disjnt_rng p (length (pack us) + length s + 1) q (length s + 1)"
  shows "\<exists>m' n. sep_loop m p q (p + length (pack us)) delim (length s + 1) = Some (m', n) \<and>
    length (pack us) + n = length (pack (us @ sep_words P s)) \<and> argz_at m' p (us @ sep_words P s)"
proof -
  let ?out = "pack (us @ sep_words P s)"
  have nz: "0 \<notin> set s" using assms(1) by (simp add: cstr_def)
  have out: "sep_out P (pack us) s = ?out" using sep_out_words [of "[]" P s us] nz by simp
  have m: "wr m p (pack us) = m" using assms(2) by (intro wr_block_id) (simp add: argz_at_def)
  have "sep_loop m p q (p + length (pack us)) delim (length s + 1) = Some (wr m p ?out, length ?out - length (pack us))"
    using sep_loop_spec [OF assms(1,5,3,6,4) le_refl] unfolding m out by simp
  moreover have "argz_at (wr m p ?out) p (us @ sep_words P s)"
    using assms(2) sep_words_nz [OF nz, of P] by (auto simp: argz_at_def)
  ultimately show ?thesis by simp
qed

section \<open>Growing a vector\<close>

text \<open>What \<open>realloc\<close> promises for a block of \<open>old\<close> bytes: the bytes are kept, and no other object changes or overlaps.\<close>

definition grown :: "bmem \<Rightarrow> nat \<Rightarrow> nat \<Rightarrow> nat \<Rightarrow> bmem \<times> nat \<Rightarrow> bool" where
  "grown m p old n r \<longleftrightarrow> (case r of (m', q) \<Rightarrow>
     if q = null then m' = m
     else mapped m' q n \<and> (\<forall>i<old. m' (q + i) = m (p + i)) \<and>
       (\<forall>a. m a \<noteq> None \<and> (a < p \<or> p + old \<le> a) \<longrightarrow> m' a = m a \<and> (a < q \<or> q + n \<le> a)))"

lemma grown_old: "grown m p old n (m', q) \<Longrightarrow> q \<noteq> null \<Longrightarrow> block m p xs \<Longrightarrow> length xs \<le> old \<Longrightarrow> block m' q xs"
  by (auto simp: grown_def block_def)

lemma grown_other:
  assumes "grown m p old n (m', q)" "q \<noteq> null" "block m b xs" "disjnt_rng p old b (length xs)" "xs \<noteq> []" "0 < n"
  shows "block m' b xs" "disjnt_rng q n b (length xs)"
proof -
  have cell: "m' a = m a \<and> (a < q \<or> q + n \<le> a)" if "b \<le> a" "a < b + length xs" for a
  proof -
    have "m a \<noteq> None" using block_nth [OF assms(3), of "a - b"] that by simp
    moreover have "a < p \<or> p + old \<le> a" using assms(4) that by (auto simp: disjnt_rng_def)
    ultimately show ?thesis using assms(1,2) by (simp add: grown_def)
  qed
  show "block m' b xs" using assms(3) cell by (simp add: block_def)
  show "disjnt_rng q n b (length xs)"
  proof (rule ccontr)
    assume h: "\<not> disjnt_rng q n b (length xs)"
    have "b \<le> max q b" "max q b < b + length xs" "q \<le> max q b" "max q b < q + n"
      using h assms(5,6) unfolding disjnt_rng_def by (cases xs; simp add: max_def; linarith)+
    then show False using cell [of "max q b"] by auto
  qed
qed

lemma argz_append_spec:
  assumes "argz_at m p us" "argz_at m b vs" "vs \<noteq> []" "n = length (pack us)" "k = length (pack vs)"
    and "disjnt_rng p n b k" "grown m p n (n + k) (realloc m p (n + k))"
  shows "\<exists>r. argz_append realloc m p n b k = Some r \<and>
    (if snd (realloc m p (n + k)) = null then aerr r = ENOMEM \<and> aptr r = p \<and> alen r = n \<and> amem r = m
     else aerr r = NoError \<and> aptr r = snd (realloc m p (n + k)) \<and> alen r = length (pack (us @ vs)) \<and>
       argz_at (amem r) (aptr r) (us @ vs))"
proof -
  obtain m1 q where mp: "realloc m p (n + k) = (m1, q)" by fastforce
  note gr = assms(7) [unfolded mp]
  show ?thesis
  proof (cases "q = null")
    case True
    then show ?thesis using mp gr by (simp add: argz_append_def grown_def)
  next
    case False
    have b: "block m p (pack us)" "block m b (pack vs)" using assms(1,2) by (simp_all add: argz_at_def)
    have old: "block m1 q (pack us)" using grown_old [OF gr False b(1)] assms(4) by simp
    have "0 < k" using assms(3,5) by simp
    then have new: "block m1 b (pack vs)" "disjnt_rng q (n + k) b (length (pack vs))"
      using grown_other [OF gr False b(2)] assms(3,5,6) by auto
    have "mapped m1 q (n + k)" using gr False by (simp add: grown_def)
    then have "mapped m1 (q + n) (length (pack vs))" using assms(5) by (simp only: mapped_add)
    moreover have "up_ok (q + n) b (length (pack vs))" using new(2) assms(5) by (auto simp: up_ok_def disjnt_rng_def)
    ultimately have "copy_up m1 (q + n) b k = Some (wr m1 (q + n) (pack vs))"
      using copy_up_spec [OF new(1)] assms(5) by simp
    also have "wr m1 (q + n) (pack vs) = wr (wr m1 q (pack us)) (q + n) (pack vs)" using wr_block_id [OF old] by simp
    also have "\<dots> = wr m1 q (pack (us @ vs))" using assms(4) by (simp add: wr_append)
    finally have "copy_up m1 (q + n) b k = Some (wr m1 q (pack (us @ vs)))" .
    moreover have "argz_at (wr m1 q (pack (us @ vs))) q (us @ vs)" using assms(1,2) by (auto simp: argz_at_def)
    ultimately show ?thesis using mp False assms(4,5) by (simp add: argz_append_def)
  qed
qed

lemma cstr_argz: "cstr m b w \<longleftrightarrow> argz_at m b [w]"
  by (simp add: argz_at_Cons)

lemma argz_add_eq:
  "cstr m b w \<Longrightarrow> b \<noteq> 0 \<Longrightarrow> argz_add realloc m p n b = argz_append realloc m p n b (length (pack [w]))"
  using strlen_spec [of m b w] by (simp add: argz_add_def)

section \<open>Inserting and deleting\<close>

lemma memmove_spec:
  assumes "block m s xs" "mapped m d (length xs)"
  shows "memmove m d s (length xs) = Some (wr m d xs)"
  using copy_up_spec [OF assms] copy_down_spec [OF assms] by (auto simp: memmove_def up_ok_def down_ok_def)

lemma argz_delete_spec:
  assumes "argz_at m p (us @ w # vs)" "p \<noteq> 0"
  shows "\<exists>r. argz_delete free m p (length (pack (us @ w # vs))) (p + length (pack us)) = Some r \<and>
    alen r = length (pack (us @ vs)) \<and>
    (if us @ vs = [] then aptr r = null else aptr r = p \<and> argz_at (amem r) p (us @ vs))"
proof -
  let ?e = "p + length (pack us)"
  have at: "argz_at m p us" "cstr m ?e w" "argz_at m (?e + (length w + 1)) vs"
    using assms(1) by (simp_all add: argz_at_append argz_at_Cons)
  have b: "block m p (pack us)" "block m (?e + (length w + 1)) (pack vs)" "block m ?e (pack (w # vs))"
    using at assms(1) unfolding argz_at_def by (simp_all add: block_append)
  have "mapped m ?e (length (pack vs))" using block_mapped [OF b(3)] by (rule mapped_le) simp
  from memmove_spec [OF b(2) this]
  have mv: "memmove m ?e (?e + (length w + 1)) (length (pack vs)) = Some (wr m ?e (pack vs))" .
  have "wr m ?e (pack vs) = wr (wr m p (pack us)) ?e (pack vs)" using wr_block_id [OF b(1)] by simp
  also have "\<dots> = wr m p (pack (us @ vs))" by (simp add: wr_append)
  finally have "argz_at (wr m ?e (pack vs)) p (us @ vs)" using assms(1) by (simp add: argz_at_def ball_Un)
  then show ?thesis using mv strlen_spec [OF at(2)] assms(2) by (auto simp: argz_delete_def null_def)
qed

lemma entry_start_spec:
  assumes "argz_at m p (us @ w # vs)" "us \<noteq> []" "j \<le> length w" "p \<noteq> 0"
  shows "entry_start m (p + length (pack us) + j) = Some (p + length (pack us))"
  using assms(3)
proof (induction j)
  case 0
  obtain t where t: "pack us = t @ [0]" using pack_snoc_0 [OF assms(2)] by blast
  have "block m p (pack us)" using assms(1) by (simp add: argz_at_def block_append)
  then have "m (p + length t) = Some 0" by (simp add: t block_append block_Cons)
  then show ?case using t by (subst entry_start.simps) (simp add: ld_def)
next
  case (Suc j)
  have c: "cstr m (p + length (pack us)) w" using assms(1) by (simp add: argz_at_append argz_at_Cons)
  then have "m (p + length (pack us) + j) = Some (w ! j)" using Suc.prems by (intro block_nth [OF cstr_block]) simp_all
  moreover have "w ! j \<noteq> 0" using c nth_mem [of j w] Suc.prems unfolding cstr_def by (metis Suc_le_eq)
  ultimately show ?case using Suc by (subst entry_start.simps) (simp add: ld_def)
qed

text \<open>In the middle of the first string there is no zero to stop at: the byte before the vector is read.\<close>

lemma entry_start_first:
  assumes "argz_at m p ((c # w) # vs)" "p \<noteq> 0" "m (p - 1) = None"
  shows "entry_start m (p + 1) = None"
  using assms by (subst entry_start.simps) (simp add: argz_at_Cons cstr_Cons ld_def entry_start.simps [of m p])

lemma argz_insert_spec:
  assumes "argz_at m p (us @ w # vs)" "p \<noteq> 0" "j \<le> length w" "us = [] \<longrightarrow> j = 0" "cstr m b e" "b \<noteq> 0"
    and "n = length (pack (us @ w # vs))" "k = length e + 1" "disjnt_rng p n b k"
    and "grown m p n (n + k) (realloc m p (n + k))"
  shows "\<exists>r. argz_insert realloc m p n (p + length (pack us) + j) b = Some r \<and>
    (if snd (realloc m p (n + k)) = null then aerr r = ENOMEM \<and> aptr r = p \<and> alen r = n \<and> amem r = m
     else aerr r = NoError \<and> aptr r = snd (realloc m p (n + k)) \<and> alen r = length (pack (us @ e # w # vs)) \<and>
       argz_at (amem r) (aptr r) (us @ e # w # vs))"
proof -
  obtain m1 q where mp: "realloc m p (n + k) = (m1, q)" by fastforce
  note gr = assms(10) [unfolded mp]
  let ?u = "length (pack us)" and ?t = "pack (w # vs)"
  have nz: "(p + ?u + j = null) = False" using assms(2) by (simp add: null_def)
  have rng: "(p + ?u + j < p \<or> p + n \<le> p + ?u + j) = False" using assms(3,7) by simp
  have start: "(if p + ?u + j > p then entry_start m (p + ?u + j) else Some (p + ?u + j)) = Some (p + ?u)"
    using entry_start_spec [OF assms(1) _ assms(3,2)] assms(4) by (cases "us = []") simp_all
  have len: "strlen m b = Some (length e)" using strlen_spec [OF assms(5,6)] .
  have eq: "argz_insert realloc m p n (p + ?u + j) b =
      (case realloc m p (n + k) of (m, new_argz) \<Rightarrow>
         if new_argz \<noteq> null
         then do { m \<leftarrow> memmove m (new_argz + ?u + k) (new_argz + ?u) (n - ?u);
                   m \<leftarrow> memmove m (new_argz + ?u) b k;
                   Some \<lparr>amem = m, aptr = new_argz, alen = n + k, aerr = NoError\<rparr> }
         else Some \<lparr>amem = m, aptr = p, alen = n, aerr = ENOMEM\<rparr>)"
    by (simp only: argz_insert_def nz rng if_False start bind.bind_lunit len assms(8) [symmetric] add_diff_cancel_left')
  show ?thesis
  proof (cases "q = null")
    case True
    then show ?thesis using eq mp gr by (simp add: grown_def)
  next
    case False
    have "block m p (pack us @ ?t)" using assms(1) by (simp add: argz_at_def)
    then have old: "block m1 q (pack us @ ?t)" using grown_old [OF gr False] assms(7) by simp
    have "block m b (e @ [0])" using assms(5) by (simp add: cstr_def)
    then have new: "block m1 b (e @ [0])" "disjnt_rng q (n + k) b (length (e @ [0]))"
      using grown_other [OF gr False, of b "e @ [0]"] assms(8,9) by auto
    have mapd: "mapped m1 q (n + k)" using gr False by (simp add: grown_def)
    have nu: "n - ?u = length ?t" "n = ?u + length ?t" using assms(7) by simp_all
    have "n + k = ?u + (k + length ?t)" using nu(2) by linarith
    then have mk: "mapped m1 (q + ?u) k" "mapped m1 (q + ?u + k) (length ?t)" using mapd by (simp_all only: mapped_add)
    have "block m1 (q + ?u) ?t" using old by (simp add: block_append)
    then have mv: "memmove m1 (q + ?u + k) (q + ?u) (n - ?u) = Some (wr m1 (q + ?u + k) ?t)"
      unfolding nu(1) using mk(2) by (rule memmove_spec)
    let ?m = "wr m1 (q + ?u + k) ?t"
    have "block ?m b (e @ [0])" using new nu(2) by (subst block_wr_disjnt) (auto simp: disjnt_rng_def)
    moreover have "mapped ?m (q + ?u) (length (e @ [0]))" using mk(1) assms(8) by (intro mapped_wr) simp
    ultimately have mv2: "memmove ?m (q + ?u) b k = Some (wr ?m (q + ?u) (e @ [0]))" using memmove_spec [of ?m b "e @ [0]"] assms(8) by simp
    have "wr ?m (q + ?u) (e @ [0]) = wr (wr m1 (q + ?u) (e @ [0])) (q + ?u + k) ?t"
      using assms(8) by (intro wr_commute) (auto simp: disjnt_rng_def)
    also have "\<dots> = wr m1 (q + ?u) ((e @ [0]) @ ?t)" using assms(8) by (subst wr_append) simp
    also have "\<dots> = wr (wr m1 q (pack us)) (q + ?u) ((e @ [0]) @ ?t)"
    proof -
      have "block m1 q (pack us)" using old by (simp add: block_append)
      then show ?thesis by (simp add: wr_block_id)
    qed
    also have "\<dots> = wr m1 q (pack us @ (e @ [0]) @ ?t)" by (subst wr_append [of m1 q "pack us"]) simp
    also have "pack us @ (e @ [0]) @ ?t = pack (us @ e # w # vs)" by simp
    finally have "argz_at (wr ?m (q + ?u) (e @ [0])) q (us @ e # w # vs)"
      using assms(1,5) by (auto simp: argz_at_def cstr_def)
    moreover have "n + k = length (pack (us @ e # w # vs))" using nu(2) assms(8) by simp
    ultimately show ?thesis using eq mp False mv mv2 by simp
  qed
qed

section \<open>Properties\<close>

lemma joined_fields: "joined d (fields_of (\<lambda>c. c = d) s) = s @ [0]"
proof (induction "\<lambda>c :: byte. c = d" s rule: fields_of.induct)
  case (1 s)
  let ?w = "takeWhile (\<lambda>c. c \<noteq> d) s"
  show ?case
  proof (cases "dropWhile (\<lambda>c. c \<noteq> d) s")
    case Nil
    then have "?w = s" by (metis append_Nil2 takeWhile_dropWhile_id)
    then show ?thesis by (simp only: fields_of.simps [of _ s] Nil list.case joined.simps)
  next
    case (Cons x r)
    then have "x = d" by (metis (mono_tags, lifting) hd_dropWhile list.distinct(1) list.sel(1))
    then have s: "s = ?w @ d # r" by (metis Cons takeWhile_dropWhile_id)
    have f: "fields_of (\<lambda>c. c = d) s = ?w # fields_of (\<lambda>c. c = d) r" using Cons by (simp add: fields_of.simps [of _ s])
    obtain v ws where r: "fields_of (\<lambda>c. c = d) r = v # ws" by (cases "fields_of (\<lambda>c. c = d) r") auto
    have "joined d (?w # v # ws) = ?w @ d # (r @ [0])" using 1 [OF Cons] r by simp
    also have "\<dots> = s @ [0]" by (subst (2) s) simp
    finally show ?thesis unfolding f r .
  qed
qed

text \<open>C29: \<open>argz_create_sep\<close> turns a string into the vector of the pieces between the delimiters, without the
  empty ones except a last one; where no field of the string is empty, \<open>argz_stringify\<close> with the same
  delimiter turns the vector back into the string.\<close>

theorem argz_sep_stringify:
  assumes "cstr m q s" "q \<noteq> 0" "s \<noteq> []" "d \<noteq> 0" "fresh m (length s + 1) (malloc m (length s + 1))"
    and "snd (malloc m (length s + 1)) \<noteq> null"
  shows "\<exists>r. argz_create_sep malloc free m q (scast (d :: byte)) len = Some r \<and> aerr r = NoError \<and>
    argz_at (amem r) (aptr r) (sep_words (\<lambda>c. c = d) s) \<and>
    argz_count (amem r) (aptr r) (alen r) = Some (length (sep_words (\<lambda>c. c = d) s)) \<and>
    ([] \<notin> set (fields_of (\<lambda>c. c = d) s) \<longrightarrow>
      (\<exists>m'. argz_stringify (amem r) (aptr r) (alen r) (scast d) = Some m' \<and> cstr m' (aptr r) s))"
proof -
  let ?P = "\<lambda>c. c = d" and ?n = "length s + 1"
  have P: "?P = (\<lambda>c. (scast c :: u32) = scast d)" by (simp add: scast_byte_eq)
  have "(scast d :: u32) \<noteq> scast (0 :: byte)" using assms(4) unfolding scast_byte_eq .
  then have "(scast d :: u32) \<noteq> 0" by simp
  from argz_create_sep_spec [where malloc = malloc and len = len and free = free, OF assms(1-3) this assms(5) P]
  obtain r where r: "argz_create_sep malloc free m q (scast d) len = Some r" "aerr r = NoError"
    "aptr r = snd (malloc m ?n)" "alen r = length (pack (sep_words ?P s))" "argz_at (amem r) (aptr r) (sep_words ?P s)"
    using assms(6) by auto
  have p: "aptr r \<noteq> 0" using r(3) assms(6) by (simp add: null_def)
  have st: "argz_stringify (amem r) (aptr r) (alen r) (scast d) = Some (wr (amem r) (aptr r) (joined d (sep_words ?P s)))"
    using argz_stringify_spec [OF r(5) p, of "scast d"] r(4) ucast_scast_byte by simp
  have "cstr (wr (amem r) (aptr r) (joined d (sep_words ?P s))) (aptr r) s" if ne: "[] \<notin> set (fields_of ?P s)"
  proof -
    have "last (fields_of ?P s) \<noteq> []" using ne last_in_set [OF fields_not_Nil, of ?P s] by metis
    then have "sep_words ?P s = tokens ?P s" by (rule sep_words_tokens)
    also have "\<dots> = fields_of ?P s" using ne by (auto simp: tokens_def intro!: filter_True)
    finally show ?thesis using assms(1) by (simp add: joined_fields cstr_def)
  qed
  then show ?thesis using r st argz_count_spec [OF r(5) p] by auto
qed

text \<open>Inserting a string before another one and deleting it again leaves the strings of the vector as they
  were; after the insertion the new string stands right before the other one. The place may be given by a
  pointer into the string, except into the first one.\<close>

theorem argz_insert_delete:
  assumes "argz_at m p (us @ w # vs)" "p \<noteq> 0" "j \<le> length w" "us = [] \<longrightarrow> j = 0" "cstr m b e" "b \<noteq> 0"
    and "n = length (pack (us @ w # vs))" "k = length e + 1" "disjnt_rng p n b k"
    and "grown m p n (n + k) (realloc m p (n + k))" "snd (realloc m p (n + k)) \<noteq> null"
  shows "\<exists>r r'. argz_insert realloc m p n (p + length (pack us) + j) b = Some r \<and> aerr r = NoError \<and>
    argz_at (amem r) (aptr r) (us @ e # w # vs) \<and>
    argz_delete free (amem r) (aptr r) (alen r) (aptr r + length (pack us)) = Some r' \<and>
    aptr r' = aptr r \<and> alen r' = n \<and> argz_at (amem r') (aptr r') (us @ w # vs)"
proof -
  obtain r where r: "argz_insert realloc m p n (p + length (pack us) + j) b = Some r" "aerr r = NoError"
    "aptr r = snd (realloc m p (n + k))" "alen r = length (pack (us @ e # w # vs))" "argz_at (amem r) (aptr r) (us @ e # w # vs)"
    using argz_insert_spec [where realloc = realloc, OF assms(1-10)] assms(11) by auto
  have "aptr r \<noteq> 0" using r(3) assms(11) by (simp add: null_def)
  from argz_delete_spec [OF r(5) this, of free] show ?thesis using r assms(7) by auto
qed

theorem argz_sep_stringify_witness:
  "\<exists>r m'. argz_create_sep (\<lambda>m n. (wr m 20 (replicate n 7), 20)) (\<lambda>m p. m) (wr (\<lambda>a. if a < 20 then Some 0 else None) 9 [1, 44, 2])
      9 (scast (44 :: byte)) 0 = Some r \<and> argz_stringify (amem r) (aptr r) (alen r) (scast (44 :: byte)) = Some m' \<and>
    cstr m' (aptr r) [1, 44, 2]"
proof -
  let ?m = "wr (\<lambda>a. if a < 20 then Some 0 else None) 9 [1, 44, 2] :: bmem"
  let ?f = "\<lambda>m n. (wr m 20 (replicate n 7), 20) :: bmem \<times> nat"
  have c: "cstr ?m 9 [1, 44, 2]" by (simp add: cstr_def block_Cons wr_def)
  have f: "fresh ?m (length [1, 44, 2 :: byte] + 1) (?f ?m (length [1, 44, 2 :: byte] + 1))"
    by (auto simp: fresh_def null_def mapped_def wr_def)
  have "[] \<notin> set (fields_of (\<lambda>c. c = 44) [1, 44, 2 :: byte])" by (simp add: fields_of.simps)
  then show ?thesis
    using argz_sep_stringify [where malloc = ?f and d = 44 and free = "\<lambda>m p. m" and len = 0, OF c _ _ _ f] by (auto simp: null_def)
qed

theorem argz_insert_delete_witness:
  "\<exists>r r'. argz_insert (\<lambda>m p n. (wr m 9 (replicate 4 1 @ [0] @ replicate 3 2), 9))
      (wr (\<lambda>a. if a < 14 \<or> 20 \<le> a then Some 0 else None) 9 [1, 1, 1, 1]) 9 5 9 20 = Some r \<and> aerr r = NoError \<and>
    argz_delete (\<lambda>m p. m) (amem r) (aptr r) (alen r) (aptr r) = Some r' \<and> argz_at (amem r') (aptr r') [[1, 1, 1, 1]]"
proof -
  let ?m = "wr (wr (\<lambda>a. if a < 14 \<or> 20 \<le> a then Some 0 else None) 9 [1, 1, 1, 1]) 20 [] :: bmem"
  let ?f = "\<lambda>m p n. (wr m 9 (replicate 4 1 @ [0] @ replicate 3 2), 9) :: bmem \<times> nat"
  have a: "argz_at ?m 9 ([] @ [1, 1, 1, 1] # [])" by (simp add: argz_at_def block_Cons wr_def)
  have c: "cstr ?m 20 []" by (simp add: cstr_def block_Cons wr_def)
  have g: "grown ?m 9 5 (5 + 1) (?f ?m 9 (5 + 1))"
    by (auto simp: grown_def null_def mapped_def wr_def nth_append less_Suc_eq eval_nat_numeral nth_Cons')
  from argz_insert_delete [where realloc = ?f and us = "[]" and free = "\<lambda>m p. m", OF a _ _ _ c _ _ _ _ g, of 0] show ?thesis
    by (auto simp: null_def disjnt_rng_def)
qed

end
