(* ===== verification/Malloc.thy ===== *)
theory Malloc
  imports CMem
begin

text \<open>
  The allocator (\<^verbatim>\<open>mintlib/malloc.c\<close>, \<^verbatim>\<open>mintlib/realloc.c\<close>, \<^verbatim>\<open>mintlib/calloc.c\<close>, \<^verbatim>\<open>unix/sbrk.c\<close>,
  \<^verbatim>\<open>unix/getpagesize.c\<close>): its state and operations. A \<open>struct mem_chunk\<close> of 12 bytes precedes every
  piece of memory. The free pieces form a list in the order of the addresses that starts at
  \<open>_mchunk_free_list\<close>; a block from the system begins with a border of 16 bytes, which is in the list
  as well and holds the size of the rest of the block behind its structure (\<open>ALLOC_SIZE\<close>).

  Addresses and the sizes of pieces are natural numbers, \<open>NULL\<close> is 0. The arithmetic on the size that the
  caller asks for is on 32-bit words, where it can wrap around. The structures are kept in a map from
  addresses. It has a structure only where one was written and nothing was stored over any byte of it
  since: every store of bytes, by the library or by its client, and every structure written takes out
  those that it overlaps (\<open>wipe\<close>). Reading a structure where the map has none, that is, where the code
  would take other contents of the memory for one, is \<open>None\<close>, and so is writing one outside the memory that
  the system handed out. The contents of the bytes under a structure are not recorded. The system calls
  \<open>Malloc\<close> and \<open>sysctl\<close>, the contents of fresh memory and the stack pointer are parameters
  (\<open>gemdos\<close>); \<open>blocks\<close> records what the system handed out.
\<close>

definition VAL_FREE :: u32 where "VAL_FREE = 0xf4ee0abc"
definition VAL_ALLOC :: u32 where "VAL_ALLOC = 0xa11c0abc"
definition VAL_BORDER :: u32 where "VAL_BORDER = 0xb04d0abc"

lemma vals [simp]:
  "VAL_FREE \<noteq> VAL_ALLOC" "VAL_ALLOC \<noteq> VAL_FREE" "VAL_BORDER \<noteq> VAL_ALLOC" "VAL_ALLOC \<noteq> VAL_BORDER"
  "VAL_FREE \<noteq> VAL_BORDER" "VAL_BORDER \<noteq> VAL_FREE"
  by (simp_all add: VAL_FREE_def VAL_ALLOC_def VAL_BORDER_def)

record mem_chunk =
  valid :: u32
  nxt :: nat
  csize :: nat

record heap =
  chunks :: "nat \<rightharpoonup> mem_chunk"
  asize :: "nat \<rightharpoonup> nat"
  bytes :: bmem
  blocks :: "(nat \<times> nat) list"
  minhunk :: u32
  maxhunk :: u32
  page_size :: u32
  zero_mallocs :: bool
  heapbase :: nat
  stksize :: int
  split_mem :: bool

record gemdos =
  os_malloc :: "(nat \<times> nat) list \<Rightarrow> u32 \<Rightarrow> nat"
  os_garbage :: "nat \<Rightarrow> byte"
  os_sysctl :: "u32 option"
  stack_ptr :: nat
  fl :: nat  \<comment> \<open>the address of \<open>_mchunk_free_list\<close>\<close>

section \<open>Memory from the system\<close>

definition owned :: "(nat \<times> nat) list \<Rightarrow> nat \<Rightarrow> nat \<Rightarrow> bool" where
  "owned bs a n \<longleftrightarrow> (\<exists>(b, k) \<in> set bs. b \<le> a \<and> a + n \<le> b + k)"

definition os_take :: "gemdos \<Rightarrow> heap \<Rightarrow> u32 \<Rightarrow> heap \<times> nat" where
  "os_take G h n =
    (let p = os_malloc G (blocks h) n
     in (if p = 0 then h
         else h\<lparr>blocks := (p, unat n) # blocks h,
                bytes := (\<lambda>a. if p \<le> a \<and> a < p + unat n then Some (os_garbage G a) else bytes h a)\<rparr>, p))"

definition os_mfree :: "heap \<Rightarrow> nat \<Rightarrow> heap" where
  "os_mfree h p =
    (case map_of (blocks h) p of
       None \<Rightarrow> h
     | Some n \<Rightarrow> h\<lparr>blocks := filter (\<lambda>b. fst b \<noteq> p) (blocks h),
                   bytes := (\<lambda>a. if p \<le> a \<and> a < p + n then None else bytes h a),
                   chunks := (\<lambda>a. if p \<le> a \<and> a < p + n then None else chunks h a),
                   asize := (\<lambda>a. if p \<le> a \<and> a < p + n then None else asize h a)\<rparr>)"

definition getpagesize :: "gemdos \<Rightarrow> u32" where
  "getpagesize G = (case os_sysctl G of Some v \<Rightarrow> v | None \<Rightarrow> 8192)"

definition heap_alloc :: "gemdos \<Rightarrow> heap \<Rightarrow> u32 \<Rightarrow> heap \<times> nat" where
  "heap_alloc G h sz =
    (let sz = unat ((sz + 7) AND NOT 7)
     in if stack_ptr G < heapbase h + sz then (h, 0)
        else (h\<lparr>heapbase := heapbase h + sz, stksize := stksize h - int sz\<rparr>, heapbase h))"

text \<open>\<open>-1\<close> is \<open>None\<close>. The second attempt of \<open>sbrk\<close> is made when the split memory model ends.\<close>

definition sbrk_once :: "gemdos \<Rightarrow> heap \<Rightarrow> u32 \<Rightarrow> heap \<times> nat" where
  "sbrk_once G h n =
    (if \<not> split_mem h \<and> heapbase h \<noteq> 0
     then (if n \<noteq> 0 then heap_alloc G h n else (h, heapbase h))
     else os_take G h n)"

definition sbrk :: "gemdos \<Rightarrow> heap \<Rightarrow> u32 \<Rightarrow> heap \<times> nat option" where
  "sbrk G h n =
    (case sbrk_once G h n of
       (h, rval) \<Rightarrow>
         if rval \<noteq> 0 then (h, Some rval)
         else if split_mem h
         then (case sbrk_once G (h\<lparr>split_mem := False\<rparr>) n of
                 (h, rval) \<Rightarrow> (h, if rval \<noteq> 0 then Some rval else None))
         else (h, None))"

section \<open>Structures in memory\<close>

definition setc :: "heap \<Rightarrow> nat \<Rightarrow> mem_chunk \<Rightarrow> heap" where
  "setc h a c = h\<lparr>chunks := (chunks h)(a \<mapsto> c)\<rparr>"

text \<open>What was in the \<open>n\<close> bytes at \<open>a\<close> is overwritten: the structures and sizes of blocks that overlap them are gone.\<close>

definition wipe :: "heap \<Rightarrow> nat \<Rightarrow> nat \<Rightarrow> heap" where
  "wipe h a n =
    h\<lparr>chunks := (\<lambda>b. if 0 < n \<and> b < a + n \<and> a < b + 12 then None else chunks h b),
      asize := (\<lambda>b. if 0 < n \<and> b + 12 < a + n \<and> a < b + 16 then None else asize h b)\<rparr>"

text \<open>The memory is \<open>m\<close> after stores into the \<open>n\<close> bytes at \<open>a\<close>.\<close>

definition store_bytes :: "heap \<Rightarrow> nat \<Rightarrow> nat \<Rightarrow> bmem \<Rightarrow> heap" where
  "store_bytes h a n m = (wipe h a n)\<lparr>bytes := m\<rparr>"

definition put :: "heap \<Rightarrow> nat \<Rightarrow> mem_chunk \<Rightarrow> heap option" where
  "put h a c = (if owned (blocks h) a 12 then Some (setc (wipe h a 12) a c) else None)"

definition upd :: "heap \<Rightarrow> nat \<Rightarrow> (mem_chunk \<Rightarrow> mem_chunk) \<Rightarrow> heap option" where
  "upd h a f = (case chunks h a of None \<Rightarrow> None | Some c \<Rightarrow> Some (setc h a (f c)))"

definition put_asize :: "heap \<Rightarrow> nat \<Rightarrow> nat \<Rightarrow> heap option" where
  "put_asize h a n = (if owned (blocks h) (a + 12) 4 then Some ((wipe h (a + 12) 4)\<lparr>asize := (asize (wipe h (a + 12) 4))(a \<mapsto> n)\<rparr>) else None)"

section \<open>\<open>malloc\<close>\<close>

definition malloc_round :: "u32 \<Rightarrow> u32" where
  "malloc_round n = (n + 12 + 7) AND NOT 7"

partial_function (option) find_fit :: "heap \<Rightarrow> u32 \<Rightarrow> nat \<Rightarrow> nat \<Rightarrow> (nat \<times> nat) option" where
  "find_fit h n p q =
    (if q = 0 then Some (p, q)
     else do { c \<leftarrow> chunks h q;
               if csize c < unat n \<or> valid c = VAL_BORDER then find_fit h n q (nxt c) else Some (p, q) })"

partial_function (option) find_pos :: "heap \<Rightarrow> nat \<Rightarrow> nat \<Rightarrow> nat option" where
  "find_pos h q p = do { c \<leftarrow> chunks h p; if nxt c \<noteq> 0 \<and> q > nxt c then find_pos h q (nxt c) else Some p }"

definition request_size :: "gemdos \<Rightarrow> heap \<Rightarrow> u32 \<Rightarrow> heap \<times> u32" where
  "request_size G h n =
    (case (if (\<not> split_mem h \<and> heapbase h \<noteq> 0) \<or> n + 16 > minhunk h
           then (h, if heapbase h = 0 then n + 16 else n)
           else (if minhunk h < maxhunk h then h\<lparr>minhunk := minhunk h * 2\<rparr> else h, minhunk h)) of
       (h, sz) \<Rightarrow>
         if split_mem h \<or> heapbase h = 0
         then (let h = (if page_size h = 0 then h\<lparr>page_size := getpagesize G\<rparr> else h)
               in (h, (sz + page_size h - 1) AND - page_size h))
         else (h, sz))"

definition more_core :: "gemdos \<Rightarrow> heap \<Rightarrow> u32 \<Rightarrow> (heap \<times> (nat \<times> nat) option) option" where
  "more_core G h n =
    (case request_size G h n of
       (h, sz) \<Rightarrow>
         (case sbrk G h sz of
            (h, None) \<Rightarrow> Some (h, None)
          | (h, Some q) \<Rightarrow>
              do { p \<leftarrow> find_pos h q (fl G);
                   c \<leftarrow> chunks h p;
                   if heapbase h = 0
                   then do { h \<leftarrow> put h q \<lparr>valid = VAL_BORDER, nxt = q + 16, csize = 16\<rparr>;
                             h \<leftarrow> put_asize h q (unat (sz - 16));
                             h \<leftarrow> put h (q + 16) \<lparr>valid = VAL_FREE, nxt = nxt c, csize = unat (sz - 16)\<rparr>;
                             h \<leftarrow> upd h p (\<lambda>c. c\<lparr>nxt := q\<rparr>);
                             Some (h, Some (q, q + 16)) }
                   else do { h \<leftarrow> put h q \<lparr>valid = VAL_FREE, nxt = nxt c, csize = unat sz\<rparr>;
                             h \<leftarrow> upd h p (\<lambda>c. c\<lparr>nxt := q\<rparr>);
                             Some (h, Some (p, q)) } }))"

definition carve :: "heap \<Rightarrow> u32 \<Rightarrow> nat \<Rightarrow> nat \<Rightarrow> (heap \<times> nat) option" where
  "carve h n p q =
    do { c \<leftarrow> chunks h q;
         if csize c > unat (n + 12)
         then do { h \<leftarrow> upd h q (\<lambda>c. c\<lparr>csize := csize c - unat n\<rparr>);
                   h \<leftarrow> put h (q + (csize c - unat n)) \<lparr>valid = VAL_ALLOC, nxt = 0, csize = unat n\<rparr>;
                   Some (h, q + (csize c - unat n)) }
         else do { h \<leftarrow> upd h p (\<lambda>d. d\<lparr>nxt := nxt c\<rparr>);
                   h \<leftarrow> upd h q (\<lambda>c. c\<lparr>valid := VAL_ALLOC, nxt := 0\<rparr>);
                   Some (h, q) } }"

definition malloc :: "gemdos \<Rightarrow> heap \<Rightarrow> u32 \<Rightarrow> (heap \<times> nat) option" where
  "malloc G h n =
    (let n = malloc_round n
     in do { c \<leftarrow> chunks h (fl G);
             (p, q) \<leftarrow> find_fit h n (fl G) (nxt c);
             (h, r) \<leftarrow> (if q = 0 then more_core G h n else Some (h, Some (p, q)));
             (case r of
                None \<Rightarrow> Some (h, 0)
              | Some (p, q) \<Rightarrow>
                  do { (h, q) \<leftarrow> carve h n p q;
                       h \<leftarrow> (if zero_mallocs h
                            then do { m \<leftarrow> fill (bytes h) (q + 12) 0 (unat (n - 12)); Some (store_bytes h (q + 12) (unat (n - 12)) m) }
                            else Some h);
                       Some (h, q + 12) }) })"

section \<open>\<open>free\<close>\<close>

partial_function (option) free_pos :: "heap \<Rightarrow> nat \<Rightarrow> nat \<Rightarrow> nat \<Rightarrow> nat \<Rightarrow> (nat \<times> nat \<times> nat) option" where
  "free_pos h r o' p q =
    (if q \<noteq> 0 \<and> q < r then do { c \<leftarrow> chunks h q; free_pos h r p q (nxt c) } else Some (o', p, q))"

text \<open>The piece \<open>r\<close> joins the free piece right behind it; \<open>None\<close> in the pair when the code gives up.\<close>

definition merge_after :: "heap \<Rightarrow> nat \<Rightarrow> nat \<Rightarrow> (heap \<times> nat option) option" where
  "merge_after h r q =
    (if q = 0 then Some (h, Some q)
     else do { cr \<leftarrow> chunks h r; cq \<leftarrow> chunks h q;
               let s = r + csize cr in
               if s \<ge> q \<and> valid cq \<noteq> VAL_BORDER
               then if s \<noteq> q then Some (h, None)
                    else do { h \<leftarrow> upd h r (\<lambda>c. c\<lparr>csize := csize c + csize cq\<rparr>);
                              h \<leftarrow> upd h s (\<lambda>c. c\<lparr>csize := 0, nxt := 0\<rparr>);
                              Some (h, Some (nxt cq)) }
               else Some (h, Some q) })"

definition at_heapbase :: "heap \<Rightarrow> nat \<Rightarrow> bool" where
  "at_heapbase h s \<longleftrightarrow> \<not> split_mem h \<and> heapbase h \<noteq> 0 \<and> s \<ge> heapbase h \<and> int s < int (heapbase h) + stksize h"

partial_function (option) pred_of :: "heap \<Rightarrow> nat \<Rightarrow> nat \<Rightarrow> nat \<Rightarrow> (nat \<times> nat) option" where
  "pred_of h o' q s =
    (if s \<noteq> 0 \<and> s < o' then do { c \<leftarrow> chunks h s; pred_of h o' s (nxt c) } else Some (q, s))"

definition give_back :: "heap \<Rightarrow> nat \<Rightarrow> nat \<Rightarrow> nat \<Rightarrow> heap option" where
  "give_back h prev next border = do { h \<leftarrow> upd h prev (\<lambda>c. c\<lparr>nxt := next\<rparr>); Some (os_mfree h border) }"

text \<open>\<open>r\<close> joins the free piece \<open>p\<close> right before it, whose predecessor is \<open>o'\<close>.\<close>

definition merge_before :: "gemdos \<Rightarrow> heap \<Rightarrow> nat \<Rightarrow> nat \<Rightarrow> nat \<Rightarrow> heap option" where
  "merge_before G h o' p r =
    do { cr \<leftarrow> chunks h r;
         h \<leftarrow> upd h p (\<lambda>c. c\<lparr>csize := csize c + csize cr, nxt := nxt cr\<rparr>);
         h \<leftarrow> upd h r (\<lambda>c. c\<lparr>csize := 0, nxt := 0\<rparr>);
         cp \<leftarrow> chunks h p;
         let s = p + csize cp in
         if at_heapbase h s
         then if s \<noteq> heapbase h then Some h
              else upd (h\<lparr>heapbase := p, stksize := stksize h + int (csize cp)\<rparr>) o' (\<lambda>c. c\<lparr>nxt := nxt cp\<rparr>)
         else do { co \<leftarrow> chunks h o';
                   give \<leftarrow> (if valid co = VAL_BORDER then do { k \<leftarrow> asize h o'; Some (k = csize cp) } else Some False);
                   if give
                   then do { cf \<leftarrow> chunks h (fl G);
                             (q, s) \<leftarrow> pred_of h o' (fl G) (nxt cf);
                             if s \<noteq> 0 then if s \<noteq> o' then Some h else give_back h q (nxt cp) o'
                             else Some h }
                   else Some h } }"

definition free_link :: "gemdos \<Rightarrow> heap \<Rightarrow> nat \<Rightarrow> nat \<Rightarrow> nat \<Rightarrow> nat \<Rightarrow> heap option" where
  "free_link G h o' p q r =
    do { cp \<leftarrow> chunks h p; cr \<leftarrow> chunks h r;
         if q \<noteq> 0 \<and> p + csize cp \<ge> r \<and> p \<noteq> fl G
         then if p + csize cp \<noteq> r then Some h
              else if valid cp = VAL_BORDER
              then do { k \<leftarrow> asize h p;
                        if k = csize cr then give_back h o' (nxt cr) p
                        else upd h p (\<lambda>c. c\<lparr>nxt := r\<rparr>) }
              else merge_before G h o' p r
         else if at_heapbase h (r + csize cr)
         then if r + csize cr \<noteq> heapbase h then Some h
              else upd (h\<lparr>heapbase := r, stksize := stksize h + int (csize cr)\<rparr>) p (\<lambda>c. c\<lparr>nxt := nxt cr\<rparr>)
         else upd h p (\<lambda>c. c\<lparr>nxt := r\<rparr>) }"

definition free :: "gemdos \<Rightarrow> heap \<Rightarrow> nat \<Rightarrow> heap option" where
  "free G h param =
    (if param = 0 then Some h
     else let r = param - 12 in
       do { cr \<leftarrow> chunks h r;
            if valid cr \<noteq> VAL_ALLOC then Some h
            else do { h \<leftarrow> upd h r (\<lambda>c. c\<lparr>valid := VAL_FREE\<rparr>);
                      cf \<leftarrow> chunks h (fl G);
                      (o', p, q) \<leftarrow> free_pos h r 0 (fl G) (nxt cf);
                      (h, q) \<leftarrow> merge_after h r q;
                      (case q of
                         None \<Rightarrow> Some h
                       | Some q \<Rightarrow> do { h \<leftarrow> upd h r (\<lambda>c. c\<lparr>nxt := q\<rparr>); free_link G h o' p q r }) } })"

section \<open>\<open>realloc\<close> and \<open>calloc\<close>\<close>

partial_function (option) realloc_pos :: "heap \<Rightarrow> nat \<Rightarrow> nat \<Rightarrow> nat \<Rightarrow> (nat \<times> nat) option" where
  "realloc_pos h p q t = (if t \<noteq> 0 \<and> t < p then do { c \<leftarrow> chunks h t; realloc_pos h p t (nxt c) } else Some (q, t))"

text \<open>A new piece is allocated, \<open>k\<close> bytes are copied and the old piece is freed; 0 when there is no memory.\<close>

definition move_piece :: "gemdos \<Rightarrow> heap \<Rightarrow> nat \<Rightarrow> u32 \<Rightarrow> nat \<Rightarrow> (heap \<times> nat) option" where
  "move_piece G h r n k =
    do { (h, newr) \<leftarrow> malloc G h n;
         if newr = 0 then Some (h, 0)
         else do { m \<leftarrow> copy_up (bytes h) newr r k; h \<leftarrow> free G (store_bytes h newr k m) r; Some (h, newr) } }"

definition realloc :: "gemdos \<Rightarrow> heap \<Rightarrow> nat \<Rightarrow> u32 \<Rightarrow> (heap \<times> nat) option" where
  "realloc G h r n =
    (if r = 0 then malloc G h n
     else if n = 0 then do { h \<leftarrow> free G h r; Some (h, 0) }
     else let p = r - 12; sz = unat (malloc_round n) in
       do { c \<leftarrow> chunks h p;
            if csize c > unat (malloc_round n + 24)
            then do { (h, newr) \<leftarrow> move_piece G h r n (unat n); Some (h, if newr \<noteq> 0 then newr else r) }
            else if csize c < sz
            then do { cf \<leftarrow> chunks h (fl G);
                      (q, t) \<leftarrow> realloc_pos h p (fl G) (nxt cf);
                      ct \<leftarrow> (if t \<noteq> 0 then map_option Some (chunks h t) else Some None);
                      (case ct of
                         Some ct \<Rightarrow>
                           if p + csize c \<ge> t \<and> csize c + csize ct \<ge> sz \<and> valid ct \<noteq> VAL_BORDER
                           then do { h \<leftarrow> upd h p (\<lambda>c. c\<lparr>csize := csize c + csize ct\<rparr>);
                                     h \<leftarrow> upd h q (\<lambda>c. c\<lparr>nxt := nxt ct\<rparr>);
                                     h \<leftarrow> upd h t (\<lambda>c. c\<lparr>csize := 0, nxt := 0\<rparr>);
                                     Some (h, r) }
                           else move_piece G h r n (csize c - 12)
                       | None \<Rightarrow> move_piece G h r n (csize c - 12)) }
            else Some (h, r) })"

definition calloc :: "gemdos \<Rightarrow> heap \<Rightarrow> u32 \<Rightarrow> u32 \<Rightarrow> (heap \<times> nat) option" where
  "calloc G h n sz =
    (let total = n * sz
     in do { (h, r) \<leftarrow> malloc G h total;
             if r \<noteq> 0 then do { m \<leftarrow> fill (bytes h) r 0 (unat total); Some (store_bytes h r (unat total) m, r) } else Some (h, r) })"

text \<open>The settings.\<close>

definition malloc_chunk_size :: "heap \<Rightarrow> u32 \<Rightarrow> heap" where
  "malloc_chunk_size h siz = h\<lparr>maxhunk := siz, minhunk := siz\<rparr>"

definition malloczero :: "heap \<Rightarrow> bool \<Rightarrow> heap" where
  "malloczero h yes = h\<lparr>zero_mallocs := yes\<rparr>"

definition init_heap :: "gemdos \<Rightarrow> heap" where
  "init_heap G =
    \<lparr>chunks = [fl G \<mapsto> \<lparr>valid = VAL_FREE, nxt = 0, csize = 0\<rparr>], asize = Map.empty, bytes = Map.empty, blocks = [],
     minhunk = 8192, maxhunk = 32 * 1024, page_size = 0, zero_mallocs = False, heapbase = 0, stksize = 64 * 1024,
     split_mem = False\<rparr>"

end
