(* ===== verification/Pieces.thy ===== *)
theory Pieces
  imports CMem
begin

text \<open>
  What the allocator promises, without its list of free pieces: the memory that the system handed out,
  cut into pieces that are free, allocated or the border of a block. The steps are the ones that
  \<open>malloc\<close>, \<open>realloc\<close> and \<open>free\<close> are composed of; they keep the pieces apart and lose no byte.
\<close>

datatype kind = Free | Alloc | Border

type_synonym pieces = "nat \<rightharpoonup> kind \<times> nat"
type_synonym blocks = "(nat \<times> nat) list"

definition total :: "pieces \<Rightarrow> nat" where
  "total pc = (\<Sum>a \<in> dom pc. snd (the (pc a)))"

definition placed :: "blocks \<Rightarrow> nat \<Rightarrow> kind \<Rightarrow> nat \<Rightarrow> bool" where
  "placed bs a k s \<longleftrightarrow> (\<exists>b n. (b, n) \<in> set bs \<and> (if k = Border then a = b \<and> s = 16 else b + 16 \<le> a \<and> a + s \<le> b + n))"

definition blocks_ok :: "pieces \<Rightarrow> blocks \<Rightarrow> bool" where
  "blocks_ok pc bs \<longleftrightarrow>
    (\<forall>b n. (b, n) \<in> set bs \<longrightarrow> 0 < b \<and> 28 \<le> n \<and> pc b = Some (Border, 16)) \<and>
    (\<forall>b n b' n'. (b, n) \<in> set bs \<longrightarrow> (b', n') \<in> set bs \<longrightarrow> (b, n) \<noteq> (b', n') \<longrightarrow> disjnt_rng b n b' n') \<and>
    distinct (map fst bs)"

definition pieces_ok :: "pieces \<Rightarrow> blocks \<Rightarrow> bool" where
  "pieces_ok pc bs \<longleftrightarrow>
    finite (dom pc) \<and> blocks_ok pc bs \<and> total pc = sum_list (map snd bs) \<and>
    (\<forall>a k s. pc a = Some (k, s) \<longrightarrow> 12 \<le> s \<and> placed bs a k s) \<and>
    (\<forall>a k s b l t. pc a = Some (k, s) \<longrightarrow> pc b = Some (l, t) \<longrightarrow> a \<noteq> b \<longrightarrow> disjnt_rng a s b t)"

inductive piece_step :: "pieces \<times> blocks \<Rightarrow> pieces \<times> blocks \<Rightarrow> bool" where
  Grow: "28 \<le> n \<Longrightarrow> 0 < b \<Longrightarrow> \<forall>b' n'. (b', n') \<in> set bs \<longrightarrow> disjnt_rng b n b' n' \<Longrightarrow>
    piece_step (pc, bs) (pc(b \<mapsto> (Border, 16), b + 16 \<mapsto> (Free, n - 16)), (b, n) # bs)"
| Split: "pc q = Some (Free, s) \<Longrightarrow> n + 12 < s \<Longrightarrow> 12 \<le> n \<Longrightarrow>
    piece_step (pc, bs) (pc(q \<mapsto> (Free, s - n), q + (s - n) \<mapsto> (Alloc, n)), bs)"
| Take: "pc q = Some (Free, s) \<Longrightarrow> piece_step (pc, bs) (pc(q \<mapsto> (Alloc, s)), bs)"
| Release: "pc q = Some (Alloc, s) \<Longrightarrow> piece_step (pc, bs) (pc(q \<mapsto> (Free, s)), bs)"
| Join: "pc a = Some (k, s) \<Longrightarrow> k \<noteq> Border \<Longrightarrow> pc (a + s) = Some (Free, t) \<Longrightarrow>
    piece_step (pc, bs) ((pc(a \<mapsto> (k, s + t)))(a + s := None), bs)"
| Return: "(b, 16 + s) \<in> set bs \<Longrightarrow> pc (b + 16) = Some (Free, s) \<Longrightarrow>
    piece_step (pc, bs) (pc(b := None, b + 16 := None), filter (\<lambda>x. fst x \<noteq> b) bs)"

section \<open>Facts about pieces\<close>

lemma pieces_okD:
  assumes "pieces_ok pc bs"
  shows "finite (dom pc)" "blocks_ok pc bs" "total pc = sum_list (map snd bs)"
    and "\<And>a k s. pc a = Some (k, s) \<Longrightarrow> 12 \<le> s" "\<And>a k s. pc a = Some (k, s) \<Longrightarrow> placed bs a k s"
    and "\<And>a k s b l t. pc a = Some (k, s) \<Longrightarrow> pc b = Some (l, t) \<Longrightarrow> a \<noteq> b \<Longrightarrow> disjnt_rng a s b t"
  using assms unfolding pieces_ok_def by blast+

lemma block_border: "blocks_ok pc bs \<Longrightarrow> (b, n) \<in> set bs \<Longrightarrow> pc b = Some (Border, 16) \<and> 0 < b \<and> 28 \<le> n"
  by (auto simp: blocks_ok_def)

lemma blocks_apart: "blocks_ok pc bs \<Longrightarrow> (b, n) \<in> set bs \<Longrightarrow> (b', n') \<in> set bs \<Longrightarrow> (b, n) \<noteq> (b', n') \<Longrightarrow> disjnt_rng b n b' n'"
  by (auto simp: blocks_ok_def)

lemma placed_in: "placed bs a k s \<Longrightarrow> blocks_ok pc bs \<Longrightarrow> \<exists>b n. (b, n) \<in> set bs \<and> b \<le> a \<and> a + s \<le> b + n"
  unfolding placed_def by (fastforce dest: block_border split: if_splits)

lemma total_upd_new: "finite (dom pc) \<Longrightarrow> pc a = None \<Longrightarrow> total (pc(a \<mapsto> (k, s))) = total pc + s"
proof -
  assume *: "finite (dom pc)" "pc a = None"
  have "total (pc(a \<mapsto> (k, s))) = s + (\<Sum>x \<in> dom pc. snd (the ((pc(a \<mapsto> (k, s))) x)))"
    using * by (simp add: total_def domIff)
  also have "(\<Sum>x \<in> dom pc. snd (the ((pc(a \<mapsto> (k, s))) x))) = total pc"
    unfolding total_def using * by (intro sum.cong) auto
  finally show ?thesis by (simp only: add.commute)
qed

lemma total_del: "finite (dom pc) \<Longrightarrow> pc a = Some (k, s) \<Longrightarrow> total pc = total (pc(a := None)) + s"
proof -
  assume *: "finite (dom pc)" "pc a = Some (k, s)"
  have "pc = (pc(a := None))(a \<mapsto> (k, s))" using * by auto
  then show ?thesis using total_upd_new [of "pc(a := None)" a k s] * by simp
qed

lemma total_upd: "finite (dom pc) \<Longrightarrow> pc a = Some (k, s) \<Longrightarrow> total (pc(a \<mapsto> (l, t))) + s = total pc + t"
  using total_del [of pc a k s] total_upd_new [of "pc(a := None)" a l t] by simp

lemma placed_border: "placed bs a k s \<Longrightarrow> k = Border \<Longrightarrow> \<exists>n. (a, n) \<in> set bs"
  by (auto simp: placed_def)

text \<open>A piece begins inside no other one.\<close>

lemma inside_free:
  assumes ok: "pieces_ok pc bs" and q: "pc q = Some (k, s)" and a: "q < a" "a < q + s"
  shows "pc a = None"
proof (rule ccontr)
  assume "pc a \<noteq> None"
  then obtain l t where l: "pc a = Some (l, t)" by auto
  then have "disjnt_rng q s a t" using pieces_okD(6) [OF ok q] a(1) by blast
  then show False using a pieces_okD(4) [OF ok l] by (auto simp: disjnt_rng_def)
qed

section \<open>Every step keeps the pieces apart and loses no byte\<close>

lemma replace_ok:
  assumes ok: "pieces_ok pc bs" and q: "pc q = Some (k, s)"
    and b: "k \<noteq> Border" "l \<noteq> Border"
  shows "pieces_ok (pc(q \<mapsto> (l, s))) bs"
proof -
  have "total (pc(q \<mapsto> (l, s))) = total pc" using total_upd [OF pieces_okD(1) [OF ok] q, of l s] by simp
  moreover have "placed bs q l s" using pieces_okD(5) [OF ok q] b by (auto simp: placed_def split: if_splits)
  moreover have "blocks_ok (pc(q \<mapsto> (l, s))) bs" using pieces_okD(2) [OF ok] q b by (auto simp: blocks_ok_def)
  ultimately show ?thesis using ok q unfolding pieces_ok_def by auto
qed

lemma split_ok:
  assumes ok: "pieces_ok pc bs" and q: "pc q = Some (Free, s)" and n: "n + 12 < s" "12 \<le> n"
  shows "pieces_ok (pc(q \<mapsto> (Free, s - n), q + (s - n) \<mapsto> (Alloc, n))) bs"
proof -
  let ?r = "q + (s - n)"
  have new: "pc ?r = None" by (rule inside_free [OF ok q]) (use n in auto)
  have fin: "finite (dom (pc(q \<mapsto> (Free, s - n))))" using pieces_okD(1) [OF ok] by simp
  have "total (pc(q \<mapsto> (Free, s - n), ?r \<mapsto> (Alloc, n))) = total (pc(q \<mapsto> (Free, s - n))) + n"
    by (rule total_upd_new [OF fin]) (use new n in auto)
  then have "total (pc(q \<mapsto> (Free, s - n), ?r \<mapsto> (Alloc, n))) = total pc"
    using total_upd [OF pieces_okD(1) [OF ok] q, of Free "s - n"] n by simp
  moreover have "placed bs q Free s" using pieces_okD(5) [OF ok q] .
  then have "placed bs q Free (s - n)" "placed bs ?r Alloc n" using n by (force simp: placed_def)+
  moreover have "blocks_ok (pc(q \<mapsto> (Free, s - n), ?r \<mapsto> (Alloc, n))) bs"
    using pieces_okD(2) [OF ok] q new by (auto simp: blocks_ok_def)
  moreover have "disjnt_rng q (s - n) b t \<and> disjnt_rng ?r n b t" if b: "pc b = Some (l, t)" "b \<noteq> q" for b l t
    using pieces_okD(6) [OF ok q b(1)] b(2) n by (auto simp: disjnt_rng_def)
  moreover have "disjnt_rng b t q (s - n) \<and> disjnt_rng b t ?r n" if b: "pc b = Some (l, t)" "b \<noteq> q" for b l t
    using pieces_okD(6) [OF ok q b(1)] b(2) n by (auto simp: disjnt_rng_def)
  moreover have "disjnt_rng q (s - n) ?r n" "disjnt_rng ?r n q (s - n)" by (auto simp: disjnt_rng_def)
  ultimately show ?thesis using ok n unfolding pieces_ok_def by (auto split: if_splits)
qed

lemma join_ok:
  assumes ok: "pieces_ok pc bs" and a: "pc a = Some (k, s)" "k \<noteq> Border" and b: "pc (a + s) = Some (Free, t)"
  shows "pieces_ok ((pc(a \<mapsto> (k, s + t)))(a + s := None)) bs"
proof -
  let ?b = "a + s" and ?pc = "(pc(a \<mapsto> (k, s + t)))(a + s := None)"
  note s = pieces_okD(4) [OF ok a(1)] and t = pieces_okD(4) [OF ok b]
  have "total pc = total (pc(?b := None)) + t" by (rule total_del [OF pieces_okD(1) [OF ok] b])
  moreover have "?pc = (pc(?b := None))(a \<mapsto> (k, s + t))" using s by auto
  moreover have "total ((pc(?b := None))(a \<mapsto> (k, s + t))) + s = total (pc(?b := None)) + (s + t)"
    by (rule total_upd) (use a s pieces_okD(1) [OF ok] in auto)
  ultimately have "total ?pc = total pc" by simp
  moreover have "placed bs a k (s + t)"
  proof -
    obtain c n where c: "(c, n) \<in> set bs" "c + 16 \<le> a" "a + s \<le> c + n"
      using pieces_okD(5) [OF ok a(1)] a(2) by (auto simp: placed_def)
    obtain c' n' where c': "(c', n') \<in> set bs" "c' + 16 \<le> ?b" "?b + t \<le> c' + n'"
      using pieces_okD(5) [OF ok b] by (auto simp: placed_def)
    have "(c, n) = (c', n')"
    proof (rule ccontr)
      assume "(c, n) \<noteq> (c', n')"
      then have "disjnt_rng c n c' n'" using blocks_apart [OF pieces_okD(2) [OF ok]] c(1) c'(1) by blast
      then show False using c c' s t by (auto simp: disjnt_rng_def)
    qed
    then have "c + 16 \<le> a \<and> a + (s + t) \<le> c + n" using c c' by simp
    then show ?thesis using c(1) a(2) unfolding placed_def by auto
  qed
  moreover have "blocks_ok ?pc bs" using pieces_okD(2) [OF ok] a b by (auto simp: blocks_ok_def)
  moreover have "disjnt_rng a (s + t) c u \<and> disjnt_rng c u a (s + t)" if c: "pc c = Some (l, u)" "c \<noteq> a" "c \<noteq> ?b" for c l u
    using pieces_okD(6) [OF ok a(1) c(1)] pieces_okD(6) [OF ok b c(1)] pieces_okD(4) [OF ok c(1)] c(2,3) s t
    by (auto simp: disjnt_rng_def)
  ultimately show ?thesis using ok s unfolding pieces_ok_def by (auto split: if_splits)
qed

lemma fresh_none:
  assumes ok: "pieces_ok pc bs" and new: "\<forall>b' n'. (b', n') \<in> set bs \<longrightarrow> disjnt_rng b n b' n'"
    and a: "pc a = Some (k, s)"
  shows "disjnt_rng b n a s"
proof -
  obtain c m where "(c, m) \<in> set bs" "c \<le> a" "a + s \<le> c + m"
    using placed_in [OF pieces_okD(5) [OF ok a] pieces_okD(2) [OF ok]] by blast
  then show ?thesis using new by (fastforce simp: disjnt_rng_def)
qed

lemma grow_ok:
  assumes ok: "pieces_ok pc bs" and n: "28 \<le> n" "0 < b" and new: "\<forall>b' n'. (b', n') \<in> set bs \<longrightarrow> disjnt_rng b n b' n'"
  shows "pieces_ok (pc(b \<mapsto> (Border, 16), b + 16 \<mapsto> (Free, n - 16))) ((b, n) # bs)"
proof -
  let ?pc = "pc(b \<mapsto> (Border, 16), b + 16 \<mapsto> (Free, n - 16))"
  have far: "disjnt_rng b n a s" if "pc a = Some (k, s)" for a k s by (rule fresh_none [OF ok new that])
  have none: "pc b = None" "pc (b + 16) = None"
  proof -
    have "pc a = None" if a: "b \<le> a" "a < b + n" for a
    proof (rule ccontr)
      assume "pc a \<noteq> None"
      then obtain k s where "pc a = Some (k, s)" by auto
      then show False using far pieces_okD(4) [OF ok] a by (fastforce simp: disjnt_rng_def)
    qed
    then show "pc b = None" "pc (b + 16) = None" using n by simp_all
  qed
  have fin: "finite (dom pc)" using pieces_okD(1) [OF ok] .
  have "total ?pc = total (pc(b \<mapsto> (Border, 16))) + (n - 16)"
    by (rule total_upd_new) (use fin none in auto)
  then have "total ?pc = sum_list (map snd ((b, n) # bs))"
    using total_upd_new [OF fin none(1), of Border 16] pieces_okD(3) [OF ok] n by simp
  moreover have bsb: "(b, m) \<notin> set bs" for m
    using block_border [OF pieces_okD(2) [OF ok], of b m] none by auto
  moreover have "blocks_ok ?pc ((b, n) # bs)"
  proof -
    have "\<forall>b' n'. (b', n') \<in> set bs \<longrightarrow> disjnt_rng b' n' b n" using new by (auto simp: disjnt_rng_def)
    moreover have "b + 16 \<noteq> b'" if "(b', m) \<in> set bs" for b' m
      using block_border [OF pieces_okD(2) [OF ok] that] none by auto
    moreover have "b \<notin> fst ` set bs" using bsb by auto
    ultimately show ?thesis using pieces_okD(2) [OF ok] n new bsb unfolding blocks_ok_def
      by (intro conjI allI impI) auto
  qed
  moreover have "placed ((b, n) # bs) a k s" if "pc a = Some (k, s)" for a k s
    using pieces_okD(5) [OF ok that] by (auto simp: placed_def split: if_splits)
  moreover have "placed ((b, n) # bs) b Border 16" "placed ((b, n) # bs) (b + 16) Free (n - 16)"
    using n by (auto simp: placed_def)
  moreover have "disjnt_rng b 16 a s \<and> disjnt_rng a s b 16 \<and> disjnt_rng (b + 16) (n - 16) a s \<and> disjnt_rng a s (b + 16) (n - 16)"
    if "pc a = Some (k, s)" for a k s
    using far [OF that] n by (auto simp: disjnt_rng_def)
  moreover have "disjnt_rng b 16 (b + 16) (n - 16)" "disjnt_rng (b + 16) (n - 16) b 16" by (simp_all add: disjnt_rng_def)
  ultimately show ?thesis using ok n unfolding pieces_ok_def by (auto split: if_splits)
qed

lemma sum_without:
  "distinct (map fst bs) \<Longrightarrow> (b, n) \<in> set (bs :: blocks) \<Longrightarrow> sum_list (map snd bs) = sum_list (map snd (filter (\<lambda>x. fst x \<noteq> b) bs)) + n"
proof (induction bs)
  case (Cons x bs)
  show ?case
  proof (cases "fst x = b")
    case True
    then have "n = snd x" using Cons.prems by (cases x) (auto simp: rev_image_eqI)
    moreover have "filter (\<lambda>x. fst x \<noteq> b) bs = bs"
      using Cons.prems(1) True by (intro filter_True ballI) (metis distinct.simps(2) image_eqI list.map(2) list.set_map)
    ultimately show ?thesis using True by (simp add: add.commute)
  next
    case False
    then have "(b, n) \<in> set bs" using Cons.prems(2) by auto
    then show ?thesis using Cons False by simp
  qed
qed simp

lemma return_ok:
  assumes ok: "pieces_ok pc bs" and b: "(b, 16 + s) \<in> set bs" and f: "pc (b + 16) = Some (Free, s)"
  shows "pieces_ok (pc(b := None, b + 16 := None)) (filter (\<lambda>x. fst x \<noteq> b) bs)"
proof -
  let ?pc = "pc(b := None, b + 16 := None)" and ?bs = "filter (\<lambda>x. fst x \<noteq> b) bs"
  have bo: "pc b = Some (Border, 16)" using block_border [OF pieces_okD(2) [OF ok] b] by blast
  have fin: "finite (dom pc)" using pieces_okD(1) [OF ok] .
  have "total pc = total (pc(b := None)) + 16" by (rule total_del [OF fin bo])
  moreover have "total (pc(b := None)) = total ?pc + s" by (rule total_del) (use fin f in auto)
  moreover have "sum_list (map snd bs) = sum_list (map snd ?bs) + (16 + s)"
    using sum_without [OF _ b] pieces_okD(2) [OF ok] by (simp add: blocks_ok_def)
  ultimately have "total ?pc = sum_list (map snd ?bs)" using pieces_okD(3) [OF ok] by simp
  moreover have "placed ?bs a k t" if a: "pc a = Some (k, t)" "a \<noteq> b" "a \<noteq> b + 16" for a k t
  proof -
    obtain c n where c: "(c, n) \<in> set bs" "if k = Border then a = c \<and> t = 16 else c + 16 \<le> a \<and> a + t \<le> c + n"
      using pieces_okD(5) [OF ok a(1)] by (auto simp: placed_def)
    have "c \<noteq> b"
    proof
      assume "c = b"
      then have "n = 16 + s" using c(1) b pieces_okD(2) [OF ok] by (auto simp: blocks_ok_def dest: eq_key_imp_eq_value)
      then show False
        using c(2) a \<open>c = b\<close> pieces_okD(6) [OF ok a(1) f] pieces_okD(4) [OF ok a(1)]
        by (auto simp: disjnt_rng_def split: if_splits)
    qed
    then show ?thesis unfolding placed_def by (intro exI [of _ c] exI [of _ n]) (use c in simp)
  qed
  moreover have "blocks_ok ?pc ?bs"
  proof -
    have "c \<noteq> b + 16" if "(c, n) \<in> set bs" for c n using block_border [OF pieces_okD(2) [OF ok] that] f by auto
    then show ?thesis using pieces_okD(2) [OF ok] unfolding blocks_ok_def by (force simp: distinct_map_filter)
  qed
  ultimately show ?thesis using ok unfolding pieces_ok_def by (auto split: if_splits)
qed

definition state_ok :: "pieces \<times> blocks \<Rightarrow> bool" where "state_ok x = pieces_ok (fst x) (snd x)"

lemma piece_step_ok: "piece_step x y \<Longrightarrow> state_ok x \<Longrightarrow> state_ok y"
  unfolding state_ok_def
  by (induction rule: piece_step.induct)
    (simp_all only: fst_conv snd_conv grow_ok split_ok join_ok return_ok replace_ok kind.distinct not_False_eq_True)

lemma piece_steps_ok: "piece_step\<^sup>*\<^sup>* x y \<Longrightarrow> state_ok x \<Longrightarrow> state_ok y"
  by (induction rule: rtranclp_induct) (simp_all add: piece_step_ok)

section \<open>The pieces that a client holds\<close>

text \<open>\<open>live pc p\<close> is the number of bytes that the client may use at \<open>p\<close>, behind the structure of 12 bytes.\<close>

definition live :: "pieces \<Rightarrow> nat \<rightharpoonup> nat" where
  "live pc p = (if p < 12 then None else case pc (p - 12) of Some (Alloc, s) \<Rightarrow> Some (s - 12) | _ \<Rightarrow> None)"

lemma live_Some: "live pc p = Some n \<longleftrightarrow> 12 \<le> p \<and> (\<exists>s. pc (p - 12) = Some (Alloc, s) \<and> n = s - 12)"
  by (auto simp: live_def split: option.splits kind.splits)

lemma live_at: "pc a = Some (Alloc, s) \<Longrightarrow> live pc (a + 12) = Some (s - 12)"
  by (simp add: live_def)

lemma live_apart:
  assumes "pieces_ok pc bs" "live pc p = Some n" "live pc q = Some k" "p \<noteq> q"
  shows "disjnt_rng p n q k"
proof -
  obtain s where s: "12 \<le> p" "pc (p - 12) = Some (Alloc, s)" "n = s - 12" using assms(2) by (auto simp: live_Some)
  obtain t where t: "12 \<le> q" "pc (q - 12) = Some (Alloc, t)" "k = t - 12" using assms(3) by (auto simp: live_Some)
  have "disjnt_rng (p - 12) s (q - 12) t" by (rule pieces_okD(6) [OF assms(1) s(2) t(2)]) (use assms(4) s(1) t(1) in simp)
  then show ?thesis using s t pieces_okD(4) [OF assms(1)] by (auto simp: disjnt_rng_def)
qed

lemma live_owned:
  assumes "pieces_ok pc bs" "live pc p = Some n"
  shows "\<exists>b k. (b, k) \<in> set bs \<and> b \<le> p \<and> p + n \<le> b + k"
proof -
  obtain s where s: "12 \<le> p" "pc (p - 12) = Some (Alloc, s)" "n = s - 12" using assms(2) by (auto simp: live_Some)
  obtain b k where "(b, k) \<in> set bs" "b \<le> p - 12" "p - 12 + s \<le> b + k"
    using placed_in [OF pieces_okD(5) [OF assms(1) s(2)] pieces_okD(2) [OF assms(1)]] by blast
  then show ?thesis using s pieces_okD(4) [OF assms(1) s(2)] by (intro exI [of _ b] exI [of _ k]) auto
qed

text \<open>How the steps change what the client holds.\<close>

lemma live_upd:
  "live (pc(a \<mapsto> (Alloc, s))) = (live pc)(a + 12 \<mapsto> s - 12)"
  "k \<noteq> Alloc \<Longrightarrow> live (pc(a \<mapsto> (k, s))) = (live pc)(a + 12 := None)"
  "live (pc(a := None)) = (live pc)(a + 12 := None)"
  by (rule ext, auto simp: live_def split: kind.splits)+

lemma live_not_alloc: "\<forall>s. pc a \<noteq> Some (Alloc, s) \<Longrightarrow> live pc (a + 12) = None"
  by (auto simp: live_def split: option.splits kind.splits)

end
