(* ===== verification/MallocRep.thy ===== *)
theory MallocRep
  imports Malloc Pieces
begin

text \<open>
  How the structures in memory represent the pieces of \<^verbatim>\<open>Pieces\<close>, and that \<open>malloc\<close> carries out steps on them.
  The free pieces and the borders are exactly the entries of the list, in the order of their addresses.
\<close>

section \<open>Paths along the links\<close>

fun path :: "(nat \<Rightarrow> nat) \<Rightarrow> nat \<Rightarrow> nat list \<Rightarrow> nat \<Rightarrow> bool" where
  "path f a [] b \<longleftrightarrow> f a = b"
| "path f a (x # xs) b \<longleftrightarrow> f a = x \<and> path f x xs b"

lemma path_append: "path f a (xs @ y # ys) b \<longleftrightarrow> path f a xs y \<and> path f y ys b"
  by (induction xs arbitrary: a) auto

lemma path_other: "u \<notin> set (a # xs) \<Longrightarrow> path (f(u := v)) a xs b = path f a xs b"
  by (induction xs arbitrary: a) auto

lemma path_last: "path f a xs b \<Longrightarrow> distinct (a # xs) \<Longrightarrow> path (f(last (a # xs) := v)) a xs v"
proof (induction xs arbitrary: a)
  case (Cons x xs)
  then have "last (x # xs) \<in> set (x # xs)" by (intro last_in_set) simp
  then have "last (x # xs) \<noteq> a" using Cons.prems(2) by auto
  then show ?case using Cons by auto
qed simp

lemma path_last_val: "path f a xs b \<Longrightarrow> f (last (a # xs)) = b"
  by (induction xs arbitrary: a) auto

lemma path_ends: "path f a (xs @ ys) b \<longleftrightarrow> path f a xs (hd (ys @ [b])) \<and> (ys = [] \<or> path f (hd ys) (tl ys) b)"
  by (cases ys) (auto simp: path_append)

lemma path_remove:
  assumes "path f a (xs @ q # ys) b" "distinct (a # xs @ q # ys)"
  shows "path (f(last (a # xs) := f q)) a (xs @ ys) b"
proof -
  have p: "path f a xs q" "path f q ys b" using assms(1) by (simp_all add: path_append)
  have "f q = hd (ys @ [b])" using p(2) by (cases ys) auto
  moreover have "path (f(last (a # xs) := hd (ys @ [b]))) a xs (hd (ys @ [b]))"
    by (rule path_last [OF p(1)]) (use assms(2) in simp)
  moreover have "last (a # xs) \<notin> set ys" using last_in_set [of "a # xs"] assms(2) by auto
  then have "ys = [] \<or> path (f(last (a # xs) := hd (ys @ [b]))) (hd ys) (tl ys) b"
    using p(2) by (cases ys) (auto simp: path_other simp del: fun_upd_apply last.simps)
  ultimately show ?thesis unfolding path_ends [of _ a xs ys] by simp
qed

lemma path_insert:
  assumes "path f a (xs @ ys) b" "distinct (a # xs @ ys)" "q \<notin> set (a # xs @ ys)"
  shows "path (f(last (a # xs) := q, q := hd (ys @ [b]))) a (xs @ q # ys) b"
proof -
  have p: "path f a xs (hd (ys @ [b]))" "ys = [] \<or> path f (hd ys) (tl ys) b" using assms(1) by (simp_all add: path_ends)
  have "path (f(last (a # xs) := q)) a xs q" by (rule path_last [OF p(1)]) (use assms(2) in simp)
  then have "path (f(last (a # xs) := q, q := hd (ys @ [b]))) a xs q" using assms(3) by (subst path_other) auto
  moreover have "last (a # xs) \<notin> set ys" using last_in_set [of "a # xs"] assms(2) by auto
  then have "path (f(last (a # xs) := q, q := hd (ys @ [b]))) q ys b"
    using p(2) assms(3) by (cases ys) (auto simp: path_other simp del: fun_upd_apply last.simps simp: fun_upd_same)
  ultimately show ?thesis by (simp add: path_append del: fun_upd_apply last.simps)
qed

section \<open>The representation\<close>

lemma setc_simps [simp]:
  "chunks (setc h a x) = (chunks h)(a \<mapsto> x)" "blocks (setc h a x) = blocks h" "asize (setc h a x) = asize h"
  "bytes (setc h a x) = bytes h" "heapbase (setc h a x) = heapbase h" "split_mem (setc h a x) = split_mem h"
  "minhunk (setc h a x) = minhunk h" "maxhunk (setc h a x) = maxhunk h" "page_size (setc h a x) = page_size h"
  "zero_mallocs (setc h a x) = zero_mallocs h"
  by (simp_all add: setc_def)

lemma upd_Some [simp]: "chunks h a = Some c \<Longrightarrow> upd h a f = Some (setc h a (f c))"
  by (simp add: upd_def)

lemma put_Some: "owned (blocks h) a 12 \<Longrightarrow> put h a c = Some (setc (wipe h a 12) a c)"
  by (simp add: put_def)

lemma wipe_simps [simp]:
  "blocks (wipe h a n) = blocks h" "bytes (wipe h a n) = bytes h" "heapbase (wipe h a n) = heapbase h"
  "split_mem (wipe h a n) = split_mem h" "minhunk (wipe h a n) = minhunk h" "maxhunk (wipe h a n) = maxhunk h"
  "page_size (wipe h a n) = page_size h" "zero_mallocs (wipe h a n) = zero_mallocs h"
  by (simp_all add: wipe_def)

lemma store_bytes_simps [simp]:
  "blocks (store_bytes h a n m) = blocks h" "bytes (store_bytes h a n m) = m" "zero_mallocs (store_bytes h a n m) = zero_mallocs h"
  by (simp_all add: store_bytes_def)

lemma wipe_other:
  "disjnt_rng b 12 a n \<Longrightarrow> chunks (wipe h a n) b = chunks h b" "disjnt_rng b 16 a n \<Longrightarrow> asize (wipe h a n) b = asize h b"
  by (auto simp: wipe_def disjnt_rng_def)

lemma chunks_wipe_Some: "chunks (wipe h a n) b = Some c \<Longrightarrow> chunks h b = Some c"
  by (simp add: wipe_def split: if_splits)

definition nx :: "heap \<Rightarrow> nat \<Rightarrow> nat" where
  "nx h a = (case chunks h a of Some c \<Rightarrow> nxt c | None \<Rightarrow> 0)"

lemma nx_setc [simp]: "nx (setc h a x) = (nx h)(a := nxt x)"
  by (rule ext) (simp add: nx_def)

lemma nx_Some: "chunks h a = Some c \<Longrightarrow> nx h a = nxt c"
  by (simp add: nx_def)

fun kval :: "kind \<Rightarrow> u32" where
  "kval Free = VAL_FREE" | "kval Alloc = VAL_ALLOC" | "kval Border = VAL_BORDER"

lemma kval_eq [simp]:
  "kval k = VAL_ALLOC \<longleftrightarrow> k = Alloc" "kval k = VAL_BORDER \<longleftrightarrow> k = Border" "kval k = VAL_FREE \<longleftrightarrow> k = Free"
  by (cases k; simp)+

definition page_ok :: "u32 \<Rightarrow> bool" where
  "page_ok z \<longleftrightarrow> (\<exists>k. 3 \<le> k \<and> k \<le> 20 \<and> z = 2 ^ k)"

definition settings_ok :: "heap \<Rightarrow> bool" where
  "settings_ok h \<longleftrightarrow> unat (minhunk h) < 2 ^ 31 \<and> unat (maxhunk h) \<le> 2 ^ 30 \<and> (page_size h = 0 \<or> page_ok (page_size h)) \<and>
    heapbase h = 0 \<and> \<not> split_mem h"

definition cell :: "heap \<Rightarrow> nat \<Rightarrow> (u32 \<times> nat) option" where
  "cell h a = map_option (\<lambda>x. (valid x, csize x)) (chunks h a)"

lemma cell_setc [simp]: "cell (setc h a x) b = (if b = a then Some (valid x, csize x) else cell h b)"
  by (simp add: cell_def)

lemma cell_link: "chunks h a = Some x \<Longrightarrow> cell (setc h a (x\<lparr>nxt := v\<rparr>)) b = cell h b"
  by (simp add: cell_def)

lemma cell_Some: "cell h a = Some (v, s) \<longleftrightarrow> (\<exists>x. chunks h a = Some x \<and> valid x = v \<and> csize x = s)"
  by (auto simp: cell_def)

definition agree :: "gemdos \<Rightarrow> heap \<Rightarrow> pieces \<Rightarrow> bool" where
  "agree G h pc \<longleftrightarrow>
    (\<forall>a k s. pc a = Some (k, s) \<longrightarrow> cell h a = Some (kval k, s)) \<and>
    (\<forall>a s. cell h a = Some (VAL_ALLOC, s) \<longrightarrow> pc a = Some (Alloc, s)) \<and>
    cell h (fl G) = Some (VAL_FREE, 0) \<and> pc (fl G) = None \<and>
    (\<forall>b n. (b, n) \<in> set (blocks h) \<longrightarrow> disjnt_rng (fl G) 12 b n \<and> asize h b = Some (n - 16) \<and> mapped (bytes h) b n) \<and>
    settings_ok h"

definition listed :: "pieces \<Rightarrow> nat set \<Rightarrow> nat \<Rightarrow> bool" where
  "listed pc X a \<longleftrightarrow> a \<notin> X \<and> (\<exists>k s. pc a = Some (k, s) \<and> k \<noteq> Alloc)"

text \<open>\<open>X\<close> holds a free piece that is not in the list yet.\<close>

definition free_list :: "gemdos \<Rightarrow> heap \<Rightarrow> pieces \<Rightarrow> nat set \<Rightarrow> nat list \<Rightarrow> bool" where
  "free_list G h pc X F \<longleftrightarrow> sorted_wrt (<) F \<and> set F = {a. listed pc X a} \<and> path (nx h) (fl G) F 0"

definition rep :: "gemdos \<Rightarrow> heap \<Rightarrow> pieces \<Rightarrow> bool" where
  "rep G h pc \<longleftrightarrow> pieces_ok pc (blocks h) \<and> agree G h pc \<and> (\<exists>F. free_list G h pc {} F)"

lemma agree_piece:
  assumes "agree G h pc" "pc a = Some (k, s)"
  obtains x where "chunks h a = Some x" "valid x = kval k" "csize x = s"
  using assms that unfolding agree_def cell_Some by blast

lemma agreeD:
  assumes "agree G h pc"
  shows "\<And>a k s. pc a = Some (k, s) \<Longrightarrow> cell h a = Some (kval k, s)"
    and "\<And>a s. cell h a = Some (VAL_ALLOC, s) \<Longrightarrow> pc a = Some (Alloc, s)"
    and "cell h (fl G) = Some (VAL_FREE, 0)" "pc (fl G) = None"
    and "\<And>b n. (b, n) \<in> set (blocks h) \<Longrightarrow> disjnt_rng (fl G) 12 b n \<and> asize h b = Some (n - 16) \<and> mapped (bytes h) b n"
    and "settings_ok h"
  using assms unfolding agree_def by blast+

lemma agree_fl:
  assumes "agree G h pc"
  obtains x where "chunks h (fl G) = Some x" "valid x = VAL_FREE" "csize x = 0"
  using agreeD(3) [OF assms] that by (auto simp: cell_Some)

lemma agree_put:
  assumes "agree G h pc" "a \<noteq> fl G" "valid x = kval k" "csize x = s"
  shows "agree G (setc h a x) (pc(a \<mapsto> (k, s)))"
  using assms unfolding agree_def settings_ok_def by auto

lemma agree_del:
  assumes "agree G h pc" "a \<noteq> fl G" "valid x \<noteq> VAL_ALLOC"
  shows "agree G (setc h a x) (pc(a := None))"
  using assms unfolding agree_def settings_ok_def by auto

lemma agree_link:
  assumes "agree G h pc" "chunks h a = Some x"
  shows "agree G (setc h a (x\<lparr>nxt := v\<rparr>)) pc"
  using assms unfolding agree_def settings_ok_def cell_link [OF assms(2)] by simp

lemma free_listD:
  assumes "free_list G h pc X F"
  shows "sorted_wrt (<) F" "set F = {a. listed pc X a}" "path (nx h) (fl G) F 0" "distinct F"
  using assms strict_sorted_iff unfolding free_list_def by blast+

lemma listed_fl: "agree G h pc \<Longrightarrow> \<not> listed pc X (fl G)"
  by (simp add: agree_def listed_def)


lemma listed_piece: "listed pc X a \<Longrightarrow> \<exists>k s. pc a = Some (k, s)"
  by (auto simp: listed_def)

lemma piece_pos: "pieces_ok pc bs \<Longrightarrow> pc a = Some (k, s) \<Longrightarrow> 0 < a"
proof -
  assume ok: "pieces_ok pc bs" and a: "pc a = Some (k, s)"
  obtain b n where "(b, n) \<in> set bs" "b \<le> a" using placed_in [OF pieces_okD(5) [OF ok a] pieces_okD(2) [OF ok]] by blast
  then show "0 < a" using block_border [OF pieces_okD(2) [OF ok], of b n] by simp
qed

lemma list_cells:
  assumes "pieces_ok pc (blocks h)" "agree G h pc" "free_list G h pc X F"
  shows "\<forall>a \<in> set F. a \<noteq> 0 \<and> chunks h a \<noteq> None" "distinct (fl G # F)"
proof -
  show "\<forall>a \<in> set F. a \<noteq> 0 \<and> chunks h a \<noteq> None"
  proof (intro ballI)
    fix a assume "a \<in> set F"
    then obtain k s where a: "pc a = Some (k, s)" using free_listD(2) [OF assms(3)] listed_piece by blast
    then show "a \<noteq> 0 \<and> chunks h a \<noteq> None" using piece_pos [OF assms(1) a] agree_piece [OF assms(2) a] by blast
  qed
  show "distinct (fl G # F)" using free_listD [OF assms(3)] listed_fl [OF assms(2)] by simp
qed

lemma before_cell:
  assumes "agree G h pc" "\<forall>a \<in> set F. a \<noteq> 0 \<and> chunks h a \<noteq> None"
  shows "\<exists>x. chunks h (last (fl G # F)) = Some x"
  using assms last_in_set [of F] agree_fl [OF assms(1)] by (cases F) auto

section \<open>Overwriting what is no structure in use\<close>

definition clear_of :: "gemdos \<Rightarrow> pieces \<Rightarrow> nat \<Rightarrow> nat \<Rightarrow> bool" where
  "clear_of G pc a n \<longleftrightarrow> disjnt_rng (fl G) 12 a n \<and>
    (\<forall>b k s. pc b = Some (k, s) \<longrightarrow> disjnt_rng b 12 a n \<and> (k = Border \<longrightarrow> disjnt_rng b 16 a n))"

lemma clear_ofD:
  assumes "clear_of G pc a n"
  shows "disjnt_rng (fl G) 12 a n" "pc b = Some (k, s) \<Longrightarrow> disjnt_rng b 12 a n" "pc b = Some (Border, s) \<Longrightarrow> disjnt_rng b 16 a n"
  using assms unfolding clear_of_def by blast+

lemma disjnt_rng_le: "disjnt_rng a k q n \<Longrightarrow> m \<le> n \<Longrightarrow> disjnt_rng a k q m"
  by (auto simp: disjnt_rng_def)

lemma clear_le: "clear_of G pc a n \<Longrightarrow> m \<le> n \<Longrightarrow> clear_of G pc a m"
  unfolding clear_of_def using disjnt_rng_le by blast

lemma clear_chunk: "clear_of G pc a n \<Longrightarrow> b = fl G \<or> pc b \<noteq> None \<Longrightarrow> chunks (wipe h a n) b = chunks h b"
  by (rule wipe_other) (cases "pc b"; auto dest: clear_ofD)

lemma agree_wipe:
  assumes ok: "blocks_ok pc (blocks h)" and ag: "agree G h pc" and cl: "clear_of G pc a n"
  shows "agree G (wipe h a n) pc"
proof -
  have same: "cell (wipe h a n) b = cell h b" if "b = fl G \<or> pc b \<noteq> None" for b
    using clear_chunk [OF cl that, of h] by (simp add: cell_def)
  have as: "asize (wipe h a n) b = asize h b" if "(b, m) \<in> set (blocks h)" for b m
  proof -
    have "pc b = Some (Border, 16)" using block_border [OF ok that] by blast
    then have "disjnt_rng b 16 a n" using clear_ofD(3) [OF cl] by blast
    then show ?thesis by (rule wipe_other)
  qed
  show ?thesis
    unfolding agree_def
  proof (intro conjI allI impI)
    fix b k s assume "pc b = Some (k, s)"
    then show "cell (wipe h a n) b = Some (kval k, s)" using agreeD(1) [OF ag] same [of b] by simp
  next
    fix b s assume "cell (wipe h a n) b = Some (VAL_ALLOC, s)"
    then have "cell h b = Some (VAL_ALLOC, s)" using chunks_wipe_Some [of h a n b] by (auto simp: cell_def)
    then show "pc b = Some (Alloc, s)" by (rule agreeD(2) [OF ag])
  next
    fix b m assume "(b, m) \<in> set (blocks (wipe h a n))"
    then have b: "(b, m) \<in> set (blocks h)" by simp
    show "disjnt_rng (fl G) 12 b m" "asize (wipe h a n) b = Some (m - 16)" "mapped (bytes (wipe h a n)) b m"
      using agreeD(5) [OF ag b] as [OF b] by simp_all
  qed (use agreeD(3,4,6) [OF ag] same [of "fl G"] in \<open>simp_all add: settings_ok_def\<close>)
qed

lemma path_cong: "path f a xs b \<Longrightarrow> \<forall>x \<in> set (a # xs). f x = g x \<Longrightarrow> path g a xs b"
  by (induction xs arbitrary: a) auto

lemma free_list_wipe:
  assumes "free_list G h pc X F" "clear_of G pc a n"
  shows "free_list G (wipe h a n) pc X F"
proof -
  have "nx h x = nx (wipe h a n) x" if "x \<in> set (fl G # F)" for x
  proof -
    have "x = fl G \<or> pc x \<noteq> None" using that free_listD(2) [OF assms(1)] by (auto simp: listed_def)
    then show ?thesis using clear_chunk [OF assms(2), of x h] by (simp add: nx_def)
  qed
  then have "path (nx (wipe h a n)) (fl G) F 0" by (intro path_cong [OF free_listD(3) [OF assms(1)]] ballI)
  then show ?thesis using assms(1) by (simp add: free_list_def)
qed

lemma rep_store:
  assumes rep: "rep G h pc" and cl: "clear_of G pc a n" and m: "\<forall>b. bytes h b \<noteq> None \<longrightarrow> m b \<noteq> None"
  shows "rep G (store_bytes h a n m) pc"
proof -
  obtain F where ok: "pieces_ok pc (blocks h)" and ag: "agree G h pc" and fr: "free_list G h pc {} F" using rep by (auto simp: rep_def)
  have "agree G (wipe h a n) pc" by (rule agree_wipe [OF pieces_okD(2) [OF ok] ag cl])
  then have "agree G (store_bytes h a n m) pc"
    using m by (simp add: agree_def store_bytes_def cell_def settings_ok_def mapped_def)
  moreover have "free_list G (store_bytes h a n m) pc {} F"
    using free_list_wipe [OF fr cl] by (simp add: free_list_def store_bytes_def nx_def [abs_def])
  ultimately show ?thesis using ok by (auto simp: rep_def)
qed

text \<open>Behind its structure a piece is clear, and so is memory that is not in any block.\<close>

lemma inside_clear:
  assumes ok: "pieces_ok pc (blocks h)" and ag: "agree G h pc" and q: "pc q = Some (k, s)" "k \<noteq> Border"
    and a: "q + 12 \<le> a" "a + n \<le> q + s"
  shows "clear_of G pc a n"
  unfolding clear_of_def
proof (intro conjI allI impI)
  obtain b m where b: "(b, m) \<in> set (blocks h)" "b \<le> q" "q + s \<le> b + m"
    using placed_in [OF pieces_okD(5) [OF ok q(1)] pieces_okD(2) [OF ok]] by blast
  then have "disjnt_rng (fl G) 12 b m" using agreeD(5) [OF ag] by blast
  then show "disjnt_rng (fl G) 12 a n" using b a by (auto simp: disjnt_rng_def)
  fix c l t assume c: "pc c = Some (l, t)"
  have t: "12 \<le> t" "l = Border \<Longrightarrow> t = 16" using pieces_okD(4,5) [OF ok c] by (auto simp: placed_def)
  have d: "disjnt_rng c t q s" if "c \<noteq> q" by (rule pieces_okD(6) [OF ok c q(1) that])
  show "disjnt_rng c 12 a n" using d t a by (cases "c = q") (auto simp: disjnt_rng_def)
  show "disjnt_rng c 16 a n" if "l = Border"
  proof -
    have "c \<noteq> q" using c q that by auto
    then show ?thesis using d t(2) [OF that] a by (auto simp: disjnt_rng_def)
  qed
qed

lemma live_clear:
  assumes ok: "pieces_ok pc (blocks h)" and ag: "agree G h pc" and p: "live pc p = Some k" and a: "p \<le> a" "a + n \<le> p + k"
  shows "clear_of G pc a n"
proof -
  obtain s where s: "12 \<le> p" "pc (p - 12) = Some (Alloc, s)" "k = s - 12" using p by (auto simp: live_Some)
  have "12 \<le> s" by (rule pieces_okD(4) [OF ok s(2)])
  then show ?thesis using s a by (intro inside_clear [OF ok ag s(2)]) simp_all
qed

lemma fresh_clear:
  assumes ok: "pieces_ok pc (blocks h)" and q: "\<forall>b k. (b, k) \<in> set (blocks h) \<longrightarrow> disjnt_rng q n b k" "disjnt_rng (fl G) 12 q n"
  shows "clear_of G pc q n"
  unfolding clear_of_def
proof (intro conjI allI impI q(2))
  fix b k s assume b: "pc b = Some (k, s)"
  have "disjnt_rng q n b s" by (rule fresh_none [OF ok q(1) b])
  moreover have "12 \<le> s" "k = Border \<Longrightarrow> s = 16" using pieces_okD(4,5) [OF ok b] by (auto simp: placed_def)
  ultimately show "disjnt_rng b 12 q n" "k = Border \<Longrightarrow> disjnt_rng b 16 q n" by (auto simp: disjnt_rng_def)
qed

section \<open>Searching the list\<close>

definition unfit :: "heap \<Rightarrow> u32 \<Rightarrow> nat \<Rightarrow> bool" where
  "unfit h n q \<longleftrightarrow> (case chunks h q of Some c \<Rightarrow> csize c < unat n \<or> valid c = VAL_BORDER | None \<Rightarrow> False)"

lemma find_fit_spec:
  "path (nx h) p F 0 \<Longrightarrow> \<forall>a \<in> set F. a \<noteq> 0 \<and> chunks h a \<noteq> None \<Longrightarrow>
    find_fit h n p (nx h p) =
      Some (last (p # takeWhile (unfit h n) F), hd (dropWhile (unfit h n) F @ [0]))"
proof (induction F arbitrary: p)
  case Nil
  then show ?case by (subst find_fit.simps) simp
next
  case (Cons q F)
  obtain c where c: "chunks h q = Some c" "q \<noteq> 0" using Cons.prems(2) by auto
  have p: "nx h p = q" "path (nx h) q F 0" using Cons.prems(1) by simp_all
  have "find_fit h n q (nx h q) = Some (last (q # takeWhile (unfit h n) F), hd (dropWhile (unfit h n) F @ [0]))"
    by (rule Cons.IH [OF p(2)]) (use Cons.prems(2) in simp)
  then show ?case using c p(1) by (subst find_fit.simps) (simp add: unfit_def nx_Some)
qed

lemma find_pos_spec:
  "path (nx h) p F 0 \<Longrightarrow> chunks h p \<noteq> None \<Longrightarrow> \<forall>a \<in> set F. a \<noteq> 0 \<and> chunks h a \<noteq> None \<Longrightarrow>
    find_pos h q p = Some (last (p # takeWhile (\<lambda>a. a < q) F))"
proof (induction F arbitrary: p)
  case Nil
  then show ?case by (subst find_pos.simps) (auto simp: nx_def)
next
  case (Cons a F)
  have p: "nx h p = a" "path (nx h) a F 0" using Cons.prems(1) by simp_all
  have "find_pos h q a = Some (last (a # takeWhile (\<lambda>a. a < q) F))"
    by (rule Cons.IH [OF p(2)]) (use Cons.prems(3) in simp_all)
  then show ?case using p(1) Cons.prems(2,3) by (subst find_pos.simps) (auto simp: nx_def)
qed


section \<open>Cutting a piece off\<close>

lemma piece_not_fl: "agree G h pc \<Longrightarrow> pc a = Some (k, s) \<Longrightarrow> a \<noteq> fl G"
  using agreeD(4) by fastforce

lemma fl_not_owned:
  assumes "agree G h pc" "(b, n) \<in> set (blocks h)" "b \<le> a" "a < b + n"
  shows "a \<noteq> fl G"
  using agreeD(5) [OF assms(1,2)] assms(3,4) by (auto simp: disjnt_rng_def)

lemma piece_owned:
  assumes "pieces_ok pc (blocks h)" "pc q = Some (k, s)" "q \<le> a" "a + n \<le> q + s"
  shows "owned (blocks h) a n"
proof -
  obtain b m where "(b, m) \<in> set (blocks h)" "b \<le> q" "q + s \<le> b + m"
    using placed_in [OF pieces_okD(5) [OF assms(1,2)] pieces_okD(2) [OF assms(1)]] by blast
  then show ?thesis using assms(3,4) unfolding owned_def by (intro bexI [of _ "(b, m)"]) simp_all
qed

lemma listed_split:
  assumes "pc q = Some (Free, s)" "pc r = None" "r \<noteq> q"
  shows "listed (pc(q \<mapsto> (Free, t), r \<mapsto> (Alloc, n))) X = listed pc X"
  using assms by (intro ext) (auto simp: listed_def)

lemma listed_take: "listed (pc(q \<mapsto> (Alloc, t))) X a \<longleftrightarrow> listed pc X a \<and> a \<noteq> q"
  by (auto simp: listed_def)

lemma listed_free: "listed (pc(q \<mapsto> (Free, t))) {q} a \<longleftrightarrow> listed pc {} a \<and> a \<noteq> q"
  by (auto simp: listed_def)

lemma carve_split:
  assumes ok: "pieces_ok pc (blocks h)" and ag: "agree G h pc" and fr: "free_list G h pc {} F"
    and q: "pc q = Some (Free, s)" and n: "12 \<le> unat n" "unat (n + 12) = unat n + 12" "unat n + 12 < s"
  shows "\<exists>h'. carve h n p q = Some (h', q + (s - unat n)) \<and> blocks h' = blocks h \<and> bytes h' = bytes h \<and>
    zero_mallocs h' = zero_mallocs h \<and>
    rep G h' (pc(q \<mapsto> (Free, s - unat n), q + (s - unat n) \<mapsto> (Alloc, unat n)))"
proof -
  let ?r = "q + (s - unat n)"
  obtain c where c: "chunks h q = Some c" "valid c = VAL_FREE" "csize c = s" using agree_piece [OF ag q] by auto
  let ?h1 = "setc h q (c\<lparr>csize := s - unat n\<rparr>)"
  let ?w = "wipe ?h1 ?r 12"
  let ?h2 = "setc ?w ?r \<lparr>valid = VAL_ALLOC, nxt = 0, csize = unat n\<rparr>"
  let ?pc1 = "pc(q \<mapsto> (Free, s - unat n))"
  have r: "pc ?r = None" by (rule inside_free [OF ok q]) (use n in auto)
  have own: "owned (blocks h) ?r 12" by (rule piece_owned [OF ok q]) (use n in auto)
  have rfl: "?r \<noteq> fl G"
  proof -
    obtain b m where "(b, m) \<in> set (blocks h)" "b \<le> ?r" "?r + 12 \<le> b + m" using own by (auto simp: owned_def)
    then show ?thesis using fl_not_owned [OF ag] by simp
  qed
  have nq: "?r \<noteq> q" using n by simp
  have "carve h n p q = Some (?h2, ?r)" using c n own by (simp add: carve_def put_Some)
  moreover
  have "clear_of G pc ?r 12" by (rule inside_clear [OF ok ag q]) (use n in simp_all)
  then have cl: "clear_of G ?pc1 ?r 12" using q n unfolding clear_of_def by (auto split: if_splits)
  have ag1: "agree G ?h1 ?pc1" by (rule agree_put) (use ag c piece_not_fl [OF ag q] in simp_all)
  have "blocks_ok ?pc1 (blocks ?h1)" using pieces_okD(2) [OF ok] q by (auto simp: blocks_ok_def)
  then have "agree G ?w ?pc1" by (rule agree_wipe [OF _ ag1 cl])
  then have "agree G ?h2 (?pc1(?r \<mapsto> (Alloc, unat n)))" by (rule agree_put) (use rfl in simp_all)
  moreover have "free_list G ?h2 (pc(q \<mapsto> (Free, s - unat n), ?r \<mapsto> (Alloc, unat n))) {} F"
  proof -
    have rF: "?r \<notin> set F" using r free_listD(2) [OF fr] by (auto simp: listed_def)
    have "free_list G ?h1 ?pc1 {} F"
    proof -
      have "nx ?h1 = nx h" using c(1) by (auto simp: nx_Some)
      moreover have "listed ?pc1 {} = listed pc {}" using q by (intro ext) (auto simp: listed_def)
      ultimately show ?thesis using fr unfolding free_list_def by simp
    qed
    from free_listD(3) [OF free_list_wipe [OF this cl]]
    have "path ((nx ?w)(?r := 0)) (fl G) F 0" using rF rfl by (subst path_other) auto
    then have "path (nx ?h2) (fl G) F 0" by simp
    then show ?thesis using free_listD(1,2) [OF fr] unfolding free_list_def listed_split [OF q r nq] by blast
  qed
  ultimately show ?thesis using split_ok [OF ok q n(3,1)] by (auto simp: rep_def)
qed

lemma carve_take:
  assumes ok: "pieces_ok pc (blocks h)" and ag: "agree G h pc" and fr: "free_list G h pc {} (F1 @ q # F2)"
    and q: "pc q = Some (Free, s)" and n: "unat (n + 12) = unat n + 12" "s \<le> unat n + 12"
  shows "\<exists>h'. carve h n (last (fl G # F1)) q = Some (h', q) \<and> blocks h' = blocks h \<and> bytes h' = bytes h \<and>
    zero_mallocs h' = zero_mallocs h \<and> rep G h' (pc(q \<mapsto> (Alloc, s)))"
proof -
  let ?p = "last (fl G # F1)"
  note cells = list_cells [OF ok ag fr]
  obtain c where c: "chunks h q = Some c" "valid c = VAL_FREE" "csize c = s" using agree_piece [OF ag q] by auto
  obtain d where d: "chunks h ?p = Some d" using before_cell [OF ag, of F1] cells(1) by auto
  have pq: "?p \<noteq> q" using cells(2) last_in_set [of "fl G # F1"] by auto
  let ?h1 = "setc h ?p (d\<lparr>nxt := nxt c\<rparr>)"
  let ?h2 = "setc ?h1 q (c\<lparr>valid := VAL_ALLOC, nxt := 0\<rparr>)"
  have "carve h n ?p q = Some (?h2, q)" using c d n pq by (simp add: carve_def del: last.simps)
  moreover have "agree G ?h2 (pc(q \<mapsto> (Alloc, s)))"
    by (rule agree_put [OF agree_link [OF ag d]]) (use c piece_not_fl [OF ag q] in simp_all)
  moreover have "free_list G ?h2 (pc(q \<mapsto> (Alloc, s))) {} (F1 @ F2)"
  proof -
    have "path ((nx h)(?p := nx h q)) (fl G) (F1 @ F2) 0" by (rule path_remove [OF free_listD(3) [OF fr] cells(2)])
    then have "path ((nx h)(?p := nx h q, q := 0)) (fl G) (F1 @ F2) 0" using cells(2) by (subst path_other) auto
    then have "path (nx ?h2) (fl G) (F1 @ F2) 0" using c(1) by (simp add: nx_Some del: last.simps)
    moreover have "set (F1 @ F2) = {a. listed pc {} a \<and> a \<noteq> q}" using free_listD(2) [OF fr] cells(2) by auto
    moreover have "sorted_wrt (<) (F1 @ F2)" using free_listD(1) [OF fr] by (simp add: sorted_wrt_append)
    ultimately show ?thesis unfolding free_list_def listed_take by blast
  qed
  moreover have "pieces_ok (pc(q \<mapsto> (Alloc, s))) (blocks h)" by (rule replace_ok [OF ok q]) simp_all
  ultimately show ?thesis by (auto simp: rep_def simp del: last.simps)
qed

end
