(* ===== verification/MallocSpec.thy ===== *)
theory MallocSpec
  imports MallocRep
begin

text \<open>\<open>malloc\<close> carries out steps on the pieces, provided that the system hands out memory that is not in use.\<close>

section \<open>Rounding\<close>

lemma unat_and_not_mask: "unat ((w :: 'a::len word) AND NOT (mask k)) = unat w - unat w mod 2 ^ k"
proof -
  have "w AND NOT (mask k) = w - (w AND mask k)"
  proof -
    have "w AND NOT (mask k) = push_bit k (drop_bit k w)"
      by (rule bit_word_eqI) (auto simp: bit_simps)
    moreover have "push_bit k (drop_bit k w) + take_bit k w = w" by (rule bits_ident)
    ultimately show ?thesis by (simp add: algebra_simps flip: take_bit_eq_mask)
  qed
  moreover have "w AND mask k \<le> w" by (rule word_and_le2)
  moreover have "unat (w AND mask k) = unat w mod 2 ^ k" 
    by (simp only: take_bit_eq_mask [symmetric] unsigned_take_bit_eq) (simp only: take_bit_eq_mod)
  ultimately show ?thesis by (simp add: unat_sub)
qed

lemma page_round:
  assumes "page_ok z" "unat s < 2 ^ 31 + 2 ^ 20"
  shows "unat s \<le> unat ((s + z - 1) AND - z)"
proof -
  obtain k where k: "3 \<le> k" "k \<le> 20" "z = 2 ^ k" using assms(1) by (auto simp: page_ok_def)
  have p: "(2::nat) ^ k \<le> 2 ^ 20" using k(2) by (intro power_increasing) simp_all
  have z: "unat z = 2 ^ k" 
  proof -
    have "z = of_nat (2 ^ k)" using k(3) by simp
    then show ?thesis using p by (simp only: unsigned_of_nat of_nat_id take_bit_nat_eq_self_iff) simp
  qed
  have "unat (z - 1) = 2 ^ k - 1" using z by (subst unat_minus_one) (use z in auto)
  then have "unat (s + (z - 1)) = unat s + (2 ^ k - 1)" using assms(2) p by (simp add: unat_word_ariths(1))
  moreover have "s + z - 1 = s + (z - 1)" by simp
  ultimately have u: "unat (s + z - 1) = unat s + (2 ^ k - 1)" by (simp only:)
  have "unat ((s + z - 1) AND - z) = (unat s + (2 ^ k - 1)) - (unat s + (2 ^ k - 1)) mod 2 ^ k"
    unfolding k(3) minus_exp_eq_not_mask unat_and_not_mask u [unfolded k(3)] ..
  moreover have "(unat s + (2 ^ k - 1)) mod 2 ^ k < 2 ^ k" by simp
  ultimately show ?thesis by linarith
qed

lemma malloc_round_val:
  assumes "unat n < 2 ^ 31"
  shows "unat (malloc_round n) = (unat n + 19) div 8 * 8"
proof -
  have "(7 :: u32) = mask 3" by (simp add: mask_eq_exp_minus_1)
  then have "unat (malloc_round n) = unat (n + 19) - unat (n + 19) mod 8"
    unfolding malloc_round_def by (simp only: unat_and_not_mask add.assoc) simp
  moreover have "unat (n + 19) = unat n + 19" using assms by (simp add: unat_word_ariths)
  ultimately show ?thesis by (simp add: minus_mod_eq_div_mult)
qed

definition os_ok :: "gemdos \<Rightarrow> bool" where
  "os_ok G \<longleftrightarrow> page_ok (getpagesize G) \<and>
    (\<forall>bs n. os_malloc G bs n \<noteq> 0 \<longrightarrow>
      disjnt_rng (fl G) 12 (os_malloc G bs n) (unat n) \<and>
      (\<forall>b k. (b, k) \<in> set bs \<longrightarrow> disjnt_rng (os_malloc G bs n) (unat n) b k))"

lemma request_size_spec:
  assumes st: "settings_ok h" and pg: "page_ok (getpagesize G)" and n: "unat n \<le> 2 ^ 31 + 18" "unat (n + 16) = unat n + 16"
  shows "\<exists>a z sz. request_size G h n = (h\<lparr>minhunk := a, page_size := z\<rparr>, sz) \<and> unat n + 16 \<le> unat sz \<and>
    settings_ok (h\<lparr>minhunk := a, page_size := z\<rparr>)"
proof -
  have mode: "heapbase h = 0" "\<not> split_mem h" and mh: "unat (minhunk h) < 2 ^ 31" "unat (maxhunk h) \<le> 2 ^ 30"
    and ps: "page_size h = 0 \<or> page_ok (page_size h)" using st by (simp_all add: settings_ok_def)
  define z where "z = (if page_size h = 0 then getpagesize G else page_size h)"
  have z: "page_ok z" using ps pg by (auto simp: z_def)
  define s where "s = (if n + 16 > minhunk h then n + 16 else minhunk h)"
  define a where "a = (if n + 16 > minhunk h \<or> \<not> minhunk h < maxhunk h then minhunk h else minhunk h * 2)"
  have s: "unat n + 16 \<le> unat s" "unat s < 2 ^ 31 + 2 ^ 20"
    using n mh(1) by (auto simp: s_def not_less word_le_nat_alt)
  have "unat (minhunk h * 2) < 2 ^ 31" if "minhunk h < maxhunk h"
  proof -
    have "unat (minhunk h) < 2 ^ 30" using that mh(2) by (simp add: word_less_nat_alt)
    then show ?thesis by (simp add: unat_word_ariths)
  qed
  then have a: "unat a < 2 ^ 31" using mh(1) by (simp add: a_def)
  have "request_size G h n = (h\<lparr>minhunk := a, page_size := z\<rparr>, (s + z - 1) AND - z)"
    using mode by (auto simp: request_size_def a_def z_def s_def Let_def)
  moreover have "unat n + 16 \<le> unat ((s + z - 1) AND - z)" using page_round [OF z s(2)] s(1) by simp
  moreover have "settings_ok (h\<lparr>minhunk := a, page_size := z\<rparr>)" using a z mh(2) mode by (simp add: settings_ok_def)
  ultimately show ?thesis by blast
qed

lemma fresh_pieces:
  assumes ok: "pieces_ok pc bs" and new: "\<forall>b k. (b, k) \<in> set bs \<longrightarrow> disjnt_rng q n b k" and a: "q \<le> a" "a < q + n"
  shows "pc a = None"
proof (rule ccontr)
  assume "pc a \<noteq> None"
  then obtain k s where b: "pc a = Some (k, s)" by auto
  then show False using fresh_none [OF ok new b] pieces_okD(4) [OF ok b] a by (auto simp: disjnt_rng_def)
qed

text \<open>A new block: its border and one free piece enter the list at their place.\<close>

lemma less_sorted_split:
  assumes "sorted_wrt (<) (F :: nat list)" "q \<notin> set F"
  shows "(\<forall>a \<in> set (takeWhile (\<lambda>a. a < q) F). a < q) \<and> (\<forall>a \<in> set (dropWhile (\<lambda>a. a < q) F). q < a)"
  using assms by (induction F) (auto dest: set_takeWhileD)

lemma new_block:
  assumes ok: "pieces_ok pc (blocks h)" and ag: "agree G h pc" and fr: "free_list G h pc {} F"
    and q: "0 < q" "28 \<le> n" "\<forall>b k. (b, k) \<in> set (blocks h) \<longrightarrow> disjnt_rng q n b k" "disjnt_rng (fl G) 12 q n"
    and F: "F1 = takeWhile (\<lambda>a. a < q) F" "F2 = dropWhile (\<lambda>a. a < q) F" and p: "p = last (fl G # F1)" "chunks h p = Some c"
    and h': "chunks h' = (chunks h)(q \<mapsto> \<lparr>valid = VAL_BORDER, nxt = q + 16, csize = 16\<rparr>,
        q + 16 \<mapsto> \<lparr>valid = VAL_FREE, nxt = nxt c, csize = n - 16\<rparr>, p \<mapsto> c\<lparr>nxt := q\<rparr>)"
      "blocks h' = (q, n) # blocks h" "asize h' = (asize h)(q \<mapsto> n - 16)"
      "\<forall>a. q \<le> a \<and> a < q + n \<longrightarrow> bytes h' a \<noteq> None" "\<forall>a. bytes h a \<noteq> None \<longrightarrow> bytes h' a \<noteq> None" "settings_ok h'"
  shows "agree G h' (pc(q \<mapsto> (Border, 16), q + 16 \<mapsto> (Free, n - 16)))"
    and "free_list G h' (pc(q \<mapsto> (Border, 16), q + 16 \<mapsto> (Free, n - 16))) {} (F1 @ q # (q + 16) # F2)"
proof -
  let ?pc = "pc(q \<mapsto> (Border, 16), q + 16 \<mapsto> (Free, n - 16))"
  have F12: "F = F1 @ F2" using F by simp
  have far: "disjnt_rng q n a s" if "pc a = Some (k, s)" for a k s by (rule fresh_none [OF ok q(3) that])
  note none = fresh_pieces [OF ok q(3)]
  have new: "pc q = None" "pc (q + 16) = None" using none q(2) by simp_all
  have qF: "q \<notin> set F" "q + 16 \<notin> set F" using free_listD(2) [OF fr] new by (auto simp: listed_def)
  have qfl: "q \<noteq> fl G" "q + 16 \<noteq> fl G" using q(2,4) by (auto simp: disjnt_rng_def)
  have qp: "p \<noteq> q" "p \<noteq> q + 16" using qF qfl last_in_set [of "fl G # F1"] unfolding p(1) F12 by auto
  have cells: "cell h' a = (if a = q then Some (VAL_BORDER, 16) else if a = q + 16 then Some (VAL_FREE, n - 16) else cell h a)" for a
    using p(2) qp by (auto simp: cell_def h'(1))
  have bs: "b \<noteq> q" if "(b, k) \<in> set (blocks h)" for b k
    using block_border [OF pieces_okD(2) [OF ok] that] new by auto
  show "agree G h' ?pc"
    unfolding agree_def cells
  proof (intro conjI)
    show "\<forall>b k. (b, k) \<in> set (blocks h') \<longrightarrow> disjnt_rng (fl G) 12 b k \<and> asize h' b = Some (k - 16) \<and> mapped (bytes h') b k"
    proof (intro allI impI)
      fix b k assume b: "(b, k) \<in> set (blocks h')"
      show "disjnt_rng (fl G) 12 b k \<and> asize h' b = Some (k - 16) \<and> mapped (bytes h') b k"
      proof (cases "(b, k) = (q, n)")
        case True
        then show ?thesis using q(4) h'(3,4) by (simp add: mapped_def)
      next
        case False
        then have bk: "(b, k) \<in> set (blocks h)" using b h'(2) by auto
        then show ?thesis using agreeD(5) [OF ag bk] bs [OF bk] h'(3,5) by (auto simp: mapped_def)
      qed
    qed
  qed (use agreeD [OF ag] qfl h'(6) in \<open>auto split: if_splits\<close>)
  have F1: "\<forall>a \<in> set F1. a < q" and F2: "\<forall>a \<in> set F2. q < a"
    using less_sorted_split [OF free_listD(1) [OF fr] qF(1)] F by blast+
  have F2': "q + 16 < a" if "a \<in> set F2" for a
  proof -
    have "a \<in> set F" using that F12 by simp
    then obtain k s where a: "pc a = Some (k, s)" using free_listD(2) [OF fr] listed_piece by blast
    then show ?thesis using far [OF a] F2 that q(2) pieces_okD(4) [OF ok a] by (fastforce simp: disjnt_rng_def)
  qed
  have dist: "distinct (fl G # F1 @ F2)" using list_cells(2) [OF ok ag fr] F12 by simp
  have pth: "path (nx h) (fl G) (F1 @ F2) 0" using free_listD(3) [OF fr] F12 by simp
  then have np: "nxt c = hd (F2 @ [0])"
    using path_last_val [of "nx h" "fl G" F1] p nx_Some [OF p(2)] by (simp add: path_ends)
  have "path ((nx h)(p := q, q := hd (F2 @ [0]))) (fl G) (F1 @ q # F2) 0"
    unfolding p(1) by (rule path_insert [OF pth dist]) (use qF qfl F12 in auto)
  then have "path ((nx h)(p := q, q := hd (F2 @ [0]), last (fl G # F1 @ [q]) := q + 16, q + 16 := hd (F2 @ [0]))) (fl G)
      ((F1 @ [q]) @ (q + 16) # F2) 0"
    by (intro path_insert) (use dist qF qfl F12 in auto)
  moreover have "nx h' = (nx h)(p := q, q := hd (F2 @ [0]), last (fl G # F1 @ [q]) := q + 16, q + 16 := hd (F2 @ [0]))"
    using qp p(2) np by (auto simp: nx_def h'(1))
  ultimately have "path (nx h') (fl G) (F1 @ q # (q + 16) # F2) 0" by simp
  moreover have "sorted_wrt (<) (F1 @ q # (q + 16) # F2)"
    using free_listD(1) [OF fr] F1 F2 F2' unfolding F12 by (auto simp: sorted_wrt_append)
  moreover have "set (F1 @ q # (q + 16) # F2) = {a. listed ?pc {} a}"
    using free_listD(2) [OF fr] new unfolding F12 by (auto simp: listed_def)
  ultimately show "free_list G h' ?pc {} (F1 @ q # (q + 16) # F2)" by (simp add: free_list_def)
qed


lemma owned_first: "n \<le> k \<Longrightarrow> b \<le> a \<Longrightarrow> a + n \<le> b + k \<Longrightarrow> owned ((b, k) # bs) a n"
  by (simp add: owned_def)

lemma rep_settings:
  "rep G h pc \<Longrightarrow> settings_ok (h\<lparr>minhunk := a, page_size := z\<rparr>) \<Longrightarrow> rep G (h\<lparr>minhunk := a, page_size := z\<rparr>) pc"
  by (simp add: rep_def agree_def free_list_def nx_def [abs_def] cell_def)

lemma more_core_spec:
  assumes rep: "rep G h pc" and os: "os_ok G" and n: "12 \<le> unat n" "unat n \<le> 2 ^ 31 + 18" "unat (n + 16) = unat n + 16"
  shows "\<exists>h' r. more_core G h n = Some (h', r) \<and> zero_mallocs h' = zero_mallocs h \<and>
    (case r of
       None \<Rightarrow> rep G h' pc \<and> blocks h' = blocks h \<and> bytes h' = bytes h
     | Some (p, q) \<Rightarrow> \<exists>pc' F1 F2 s.
         piece_step (pc, blocks h) (pc', blocks h') \<and> pieces_ok pc' (blocks h') \<and> agree G h' pc' \<and>
         free_list G h' pc' {} (F1 @ q # F2) \<and> p = last (fl G # F1) \<and> pc' q = Some (Free, s) \<and> unat n \<le> s \<and>
         live pc' = live pc \<and> (\<forall>b k a. (b, k) \<in> set (blocks h) \<longrightarrow> b \<le> a \<longrightarrow> a < b + k \<longrightarrow> bytes h' a = bytes h a))"
proof -
  from rep obtain F where ok: "pieces_ok pc (blocks h)" and ag: "agree G h pc" and fr: "free_list G h pc {} F"
    by (auto simp: rep_def)
  obtain a z sz where rq: "request_size G h n = (h\<lparr>minhunk := a, page_size := z\<rparr>, sz)" "unat n + 16 \<le> unat sz"
      "settings_ok (h\<lparr>minhunk := a, page_size := z\<rparr>)"
    using request_size_spec [OF agreeD(6) [OF ag] _ n(2,3), of G] os unfolding os_ok_def by blast
  define h1 where "h1 = h\<lparr>minhunk := a, page_size := z\<rparr>"
  have mode: "heapbase h = 0" "\<not> split_mem h" using agreeD(6) [OF ag] by (simp_all add: settings_ok_def)
  define q where "q = os_malloc G (blocks h) sz"
  show ?thesis
  proof (cases "q = 0")
    case True
    then have "more_core G h n = Some (h1, None)"
      using mode by (simp add: more_core_def rq(1) sbrk_def sbrk_once_def os_take_def h1_def q_def)
    moreover have "rep G h1 pc" unfolding h1_def by (rule rep_settings [OF rep rq(3)])
    ultimately show ?thesis by (auto simp: h1_def)
  next
    case False
    let ?n = "unat sz"
    define h2 where "h2 = h1\<lparr>blocks := (q, ?n) # blocks h,
      bytes := (\<lambda>a. if q \<le> a \<and> a < q + ?n then Some (os_garbage G a) else bytes h1 a)\<rparr>"
    have ap: "disjnt_rng (fl G) 12 q ?n" "\<forall>b k. (b, k) \<in> set (blocks h) \<longrightarrow> disjnt_rng q ?n b k"
      using os False by (auto simp: os_ok_def q_def)
    define F1 where "F1 = takeWhile (\<lambda>a. a < q) F"
    define F2 where "F2 = dropWhile (\<lambda>a. a < q) F"
    define p where "p = last (fl G # F1)"
    note cells = list_cells [OF ok ag fr]
    obtain c where c: "chunks h p = Some c"
      unfolding p_def F1_def using before_cell [OF ag, of "takeWhile (\<lambda>a. a < q) F"] cells(1) by (auto dest: set_takeWhileD)
    have c2: "chunks h2 = chunks h" "nx h2 = nx h" by (simp_all add: h2_def h1_def nx_def [abs_def])
    obtain x where "chunks h (fl G) = Some x" using agree_fl [OF ag] .
    then have fp: "find_pos h2 q (fl G) = Some p"
      unfolding p_def F1_def using cells(1) free_listD(3) [OF fr] by (intro find_pos_spec) (simp_all add: c2)
    have n28: "28 \<le> ?n"
      using rq(2) n(1) by simp
    have u16: "unat (sz - 16) = ?n - 16" using n28 by (simp add: unat_sub word_le_nat_alt)
    have new: "pc q = None" "pc (q + 16) = None" by (rule fresh_pieces [OF ok ap(2)], use n28 in simp_all)+
    have "q \<noteq> fl G" "q + 16 \<noteq> fl G" using ap(1) n28 by (auto simp: disjnt_rng_def)
    moreover have "p = fl G \<or> p \<in> set F" unfolding p_def F1_def by (auto dest: set_takeWhileD last_in_set)
    ultimately have pq: "p \<noteq> q" "p \<noteq> q + 16" using new free_listD(2) [OF fr] by (auto simp: listed_def)
    let ?w = "wipe h q 28"
    have cl: "clear_of G pc q 28"
      by (rule clear_le [OF fresh_clear [OF ok ap(2,1)] n28])
    have agw: "agree G ?w pc" by (rule agree_wipe [OF pieces_okD(2) [OF ok] ag cl])
    have frw: "free_list G ?w pc {} F" by (rule free_list_wipe [OF fr cl])
    have okw: "pieces_ok pc (blocks ?w)" using ok by simp
    have cw: "chunks ?w p = Some c"
    proof -
      have "p = fl G \<or> pc p \<noteq> None"
        using \<open>p = fl G \<or> p \<in> set F\<close> free_listD(2) [OF fr] by (auto simp: listed_def)
      then show ?thesis using clear_chunk [OF cl, of p h] c by simp
    qed
    define ha where "ha = setc (wipe h2 q 12) q \<lparr>valid = VAL_BORDER, nxt = q + 16, csize = 16\<rparr>"
    define hb where "hb = (wipe ha (q + 12) 4)\<lparr>asize := (asize (wipe ha (q + 12) 4))(q \<mapsto> ?n - 16)\<rparr>"
    define hc where "hc = setc (wipe hb (q + 16) 12) (q + 16) \<lparr>valid = VAL_FREE, nxt = nxt c, csize = ?n - 16\<rparr>"
    let ?h' = "setc hc p (c\<lparr>nxt := q\<rparr>)"
    have hc: "chunks hc = (chunks ?w)(q \<mapsto> \<lparr>valid = VAL_BORDER, nxt = q + 16, csize = 16\<rparr>,
        q + 16 \<mapsto> \<lparr>valid = VAL_FREE, nxt = nxt c, csize = ?n - 16\<rparr>)" "asize hc = (asize ?w)(q \<mapsto> ?n - 16)"
      "blocks hc = blocks h2" "bytes hc = bytes h2" "zero_mallocs hc = zero_mallocs h2" "settings_ok ?h'"
      using rq(3) by (auto simp: hc_def hb_def ha_def fun_eq_iff wipe_def setc_def h2_def h1_def settings_ok_def)
    have p2: "chunks hc p = Some c" using pq cw by (simp add: hc(1))
    have mc: "more_core G h n = Some (?h', Some (q, q + 16))"
    proof -
      have "sbrk G h1 sz = (h2, Some q)"
      proof -
        have "heapbase h1 = 0" "\<not> split_mem h1" "blocks h1 = blocks h" using mode by (simp_all add: h1_def)
        then show ?thesis using False by (simp add: sbrk_def sbrk_once_def os_take_def h2_def q_def Let_def)
      qed
      moreover have "heapbase h2 = 0" "chunks h2 p = Some c" using mode c by (simp_all add: h2_def h1_def)
      moreover have "put_asize ha q (?n - 16) = Some hb"
        using n28 by (simp add: put_asize_def ha_def hb_def h2_def owned_first)
      moreover have "put hb (q + 16) \<lparr>valid = VAL_FREE, nxt = nxt c, csize = ?n - 16\<rparr> = Some hc"
        using n28 by (simp add: put_def ha_def hb_def hc_def h2_def owned_first)
      moreover have "put h2 q \<lparr>valid = VAL_BORDER, nxt = q + 16, csize = 16\<rparr> = Some ha"
        using n28 by (simp add: put_def ha_def h2_def owned_first)
      ultimately show ?thesis using rq(1) fp u16 p2 unfolding h1_def [symmetric] by (simp add: more_core_def)
    qed
    let ?pc = "pc(q \<mapsto> (Border, 16), q + 16 \<mapsto> (Free, ?n - 16))"
    have q0: "0 < q" using False by simp
    have apw: "\<forall>b k. (b, k) \<in> set (blocks ?w) \<longrightarrow> disjnt_rng q ?n b k" using ap(2) by simp
    note nb = new_block [OF okw agw frw q0 n28 apw ap(1) F1_def F2_def p_def cw, of ?h']
    have ag': "agree G ?h' ?pc" by (rule nb) (use hc(6) in \<open>simp_all add: hc(1-5) h2_def h1_def\<close>)
    have "free_list G ?h' ?pc {} (F1 @ q # (q + 16) # F2)"
      by (rule nb) (use hc(6) in \<open>simp_all add: hc(1-5) h2_def h1_def\<close>)
    then have fr': "free_list G ?h' ?pc {} ((F1 @ [q]) @ (q + 16) # F2)" by simp
    have step: "piece_step (pc, blocks h) (?pc, blocks ?h')"
      using piece_step.Grow [OF n28 q0 ap(2), of pc] by (simp add: hc(3) h2_def)
    have ok': "pieces_ok ?pc (blocks ?h')" using grow_ok [OF ok n28 q0 ap(2)] by (simp add: hc(3) h2_def)
    have live: "live ?pc = live pc"
      using live_not_alloc [of pc q] live_not_alloc [of pc "q + 16"] new by (simp add: live_upd fun_upd_idem)
    have "bytes ?h' a = bytes h a" if "(b, k) \<in> set (blocks h)" "b \<le> a" "a < b + k" for a b k
    proof -
      have "disjnt_rng q ?n b k" using ap(2) that(1) by blast
      then have "\<not> (q \<le> a \<and> a < q + ?n)" using that(2,3) by (auto simp: disjnt_rng_def)
      then show ?thesis by (auto simp: hc(4) h2_def h1_def)
    qed
    then have same: "\<forall>b k a. (b, k) \<in> set (blocks h) \<longrightarrow> b \<le> a \<longrightarrow> a < b + k \<longrightarrow> bytes ?h' a = bytes h a" by blast
    have zm: "zero_mallocs ?h' = zero_mallocs h" by (simp add: hc(5) h2_def h1_def)
    have q': "q = last (fl G # F1 @ [q])" "?pc (q + 16) = Some (Free, ?n - 16)" "unat n \<le> ?n - 16" using rq(2) by auto
    have "\<exists>pc' F1 F2 s. piece_step (pc, blocks h) (pc', blocks ?h') \<and> pieces_ok pc' (blocks ?h') \<and> agree G ?h' pc' \<and>
        free_list G ?h' pc' {} (F1 @ (q + 16) # F2) \<and> q = last (fl G # F1) \<and> pc' (q + 16) = Some (Free, s) \<and> unat n \<le> s \<and>
        live pc' = live pc \<and> (\<forall>b k a. (b, k) \<in> set (blocks h) \<longrightarrow> b \<le> a \<longrightarrow> a < b + k \<longrightarrow> bytes ?h' a = bytes h a)"
      by (rule exI [of _ ?pc], rule exI [of _ "F1 @ [q]"], rule exI [of _ F2], rule exI [of _ "?n - 16"])
        (intro conjI step ok' ag' fr' q' live same)
    then show ?thesis unfolding mc
      by (intro exI [of _ ?h'] exI [of _ "Some (q, q + 16)"] conjI refl zm) (simp only: option.case prod.case)
  qed
qed


text \<open>The contents of everything the client holds.\<close>

definition same_live :: "heap \<Rightarrow> pieces \<Rightarrow> bmem \<Rightarrow> bool" where
  "same_live h pc m \<longleftrightarrow> (\<forall>p n i. live pc p = Some n \<longrightarrow> i < n \<longrightarrow> m (p + i) = bytes h (p + i))"

lemma live_mapped:
  assumes "pieces_ok pc (blocks h)" "agree G h pc" "live pc p = Some n"
  shows "mapped (bytes h) p n"
proof -
  obtain b k where b: "(b, k) \<in> set (blocks h)" "b \<le> p" "p + n \<le> b + k" using live_owned [OF assms(1,3)] by blast
  then have "mapped (bytes h) b k" using agreeD(5) [OF assms(2)] by blast
  then have "bytes h (b + (p - b + i)) \<noteq> None" if "i < n" for i
  proof -
    have "p - b + i < k" using b(2,3) that by linarith
    then show ?thesis using \<open>mapped (bytes h) b k\<close> by (intro mapped_nth)
  qed
  then show ?thesis using b(2) by (simp add: mapped_def)
qed

text \<open>\<open>malloc\<close> takes the first piece that fits, or a new block from the system, and cuts what is asked for off its end.\<close>

lemma carve_spec:
  assumes ok: "pieces_ok pc (blocks h)" and ag: "agree G h pc" and fr: "free_list G h pc {} (F1 @ q # F2)"
    and q: "pc q = Some (Free, s)" and n: "12 \<le> unat n" "unat (n + 12) = unat n + 12" "unat n \<le> s"
  shows "\<exists>h' r t pc'. carve h n (last (fl G # F1)) q = Some (h', r) \<and> blocks h' = blocks h \<and> bytes h' = bytes h \<and>
    zero_mallocs h' = zero_mallocs h \<and> rep G h' pc' \<and> piece_step (pc, blocks h) (pc', blocks h) \<and>
    pc' r = Some (Alloc, t) \<and> unat n \<le> t \<and> live pc (r + 12) = None \<and> live pc' = (live pc)(r + 12 \<mapsto> t - 12)"
proof (cases "unat n + 12 < s")
  case True
  let ?pc = "pc(q \<mapsto> (Free, s - unat n), q + (s - unat n) \<mapsto> (Alloc, unat n))"
  obtain h' where h': "carve h n (last (fl G # F1)) q = Some (h', q + (s - unat n))" "blocks h' = blocks h"
      "bytes h' = bytes h" "zero_mallocs h' = zero_mallocs h" "rep G h' ?pc"
    using carve_split [OF ok ag fr q n(1,2) True] by blast
  have r: "pc (q + (s - unat n)) = None" by (rule inside_free [OF ok q]) (use True n in auto)
  have "piece_step (pc, blocks h) (?pc, blocks h)" using q True n(1) by (rule piece_step.Split)
  moreover have "live pc (q + (s - unat n) + 12) = None" "live pc (q + 12) = None"
    using live_not_alloc [of pc "q + (s - unat n)"] live_not_alloc [of pc q] r q by simp_all
  moreover then have "live ?pc = (live pc)(q + (s - unat n) + 12 \<mapsto> unat n - 12)" by (simp add: live_upd fun_upd_idem)
  moreover have "?pc (q + (s - unat n)) = Some (Alloc, unat n)" by simp
  ultimately show ?thesis using h' by (intro exI conjI) (assumption | rule order_refl)+
next
  case False
  then have "s \<le> unat n + 12" by simp
  then obtain h' where h': "carve h n (last (fl G # F1)) q = Some (h', q)" "blocks h' = blocks h"
      "bytes h' = bytes h" "zero_mallocs h' = zero_mallocs h" "rep G h' (pc(q \<mapsto> (Alloc, s)))"
    using carve_take [OF ok ag fr q n(2)] by blast
  moreover have "piece_step (pc, blocks h) (pc(q \<mapsto> (Alloc, s)), blocks h)" using q by (rule piece_step.Take)
  moreover have "live pc (q + 12) = None" using live_not_alloc [of pc q] q by simp
  moreover have "live (pc(q \<mapsto> (Alloc, s))) = (live pc)(q + 12 \<mapsto> s - 12)" by (simp add: live_upd)
  moreover have "(pc(q \<mapsto> (Alloc, s))) q = Some (Alloc, s)" by simp
  ultimately show ?thesis using n(3) by (intro exI conjI) assumption+
qed

lemma fit_free:
  assumes ag: "agree G h pc" and q: "listed pc {} q" "\<not> unfit h n q"
  shows "\<exists>s. pc q = Some (Free, s) \<and> unat n \<le> s"
proof -
  obtain k s where k: "pc q = Some (k, s)" "k \<noteq> Alloc" using q(1) by (auto simp: listed_def)
  obtain c where "chunks h q = Some c" "valid c = kval k" "csize c = s" by (rule agree_piece [OF ag k(1)])
  then show ?thesis using k q(2) by (cases k) (simp_all add: unfit_def)
qed

lemma find_fit_piece:
  assumes ok: "pieces_ok pc (blocks h)" and ag: "agree G h pc" and fr: "free_list G h pc {} F"
    and c: "chunks h (fl G) = Some c"
  shows "find_fit h n (fl G) (nxt c) = Some (last (fl G # F), 0) \<or>
    (\<exists>F1 q F2 s. find_fit h n (fl G) (nxt c) = Some (last (fl G # F1), q) \<and> F = F1 @ q # F2 \<and> q \<noteq> 0 \<and>
      pc q = Some (Free, s) \<and> unat n \<le> s)"
proof -
  note cells = list_cells(1) [OF ok ag fr]
  have ff: "find_fit h n (fl G) (nxt c) =
      Some (last (fl G # takeWhile (unfit h n) F), hd (dropWhile (unfit h n) F @ [0]))"
    using find_fit_spec [OF free_listD(3) [OF fr] cells] nx_Some [OF c] by simp
  show ?thesis
  proof (cases "dropWhile (unfit h n) F")
    case Nil
    then have "takeWhile (unfit h n) F = F" by (metis append_Nil2 takeWhile_dropWhile_id)
    then show ?thesis using ff Nil by (intro disjI1) (simp only: append_Nil list.sel)
  next
    case (Cons q F2)
    then have F: "F = takeWhile (unfit h n) F @ q # F2" by (metis takeWhile_dropWhile_id)
    then have "q \<in> set F" by (metis in_set_conv_decomp)
    then have "listed pc {} q" "q \<noteq> 0" using free_listD(2) [OF fr] cells by blast+
    moreover have "\<not> unfit h n q" using hd_dropWhile [of "unfit h n" F] Cons by simp
    ultimately show ?thesis using fit_free [OF ag, of q n] ff F Cons by (simp del: last.simps) blast
  qed
qed

section \<open>The whole of \<open>malloc\<close>\<close>

lemma carve_finish:
  assumes ok: "pieces_ok pc (blocks h)" and ag: "agree G h pc" and fr: "free_list G h pc {} (F1 @ q # F2)"
    and q: "pc q = Some (Free, s)" and n: "12 \<le> unat n" "unat (n + 12) = unat n + 12" "unat n \<le> s"
  shows "\<exists>h1 r h2 pc' k.
    carve h n (last (fl G # F1)) q = Some (h1, r) \<and>
    (if zero_mallocs h1
     then do { m \<leftarrow> fill (bytes h1) (r + 12) 0 (unat (n - 12)); Some (store_bytes h1 (r + 12) (unat (n - 12)) m) }
     else Some h1) = Some h2 \<and>
    zero_mallocs h2 = zero_mallocs h \<and> blocks h2 = blocks h \<and> rep G h2 pc' \<and> piece_step (pc, blocks h) (pc', blocks h) \<and>
    unat n - 12 \<le> k \<and> live pc (r + 12) = None \<and> live pc' = (live pc)(r + 12 \<mapsto> k) \<and> same_live h pc (bytes h2) \<and>
    (zero_mallocs h \<longrightarrow> (\<forall>i < unat n - 12. bytes h2 (r + 12 + i) = Some 0))"
proof -
  obtain h1 r t pc' where c: "carve h n (last (fl G # F1)) q = Some (h1, r)" "blocks h1 = blocks h" "bytes h1 = bytes h"
      "zero_mallocs h1 = zero_mallocs h" "rep G h1 pc'" "piece_step (pc, blocks h) (pc', blocks h)"
      "pc' r = Some (Alloc, t)" "unat n \<le> t" "live pc (r + 12) = None" "live pc' = (live pc)(r + 12 \<mapsto> t - 12)"
    using carve_spec [OF ok ag fr q n] by blast
  have u: "unat (n - 12) = unat n - 12" using n(1) by (simp add: unat_sub word_le_nat_alt)
  have rep: "pieces_ok pc' (blocks h1)" "agree G h1 pc'" using c(5) by (auto simp: rep_def)
  have l: "live pc' (r + 12) = Some (t - 12)" using c(10) by simp
  have mp: "mapped (bytes h1) (r + 12) (unat n - 12)"
    by (rule mapped_le [OF live_mapped [OF rep l]]) (use c(8) in simp)
  define m where "m = (if zero_mallocs h1 then wr (bytes h1) (r + 12) (replicate (unat n - 12) 0) else bytes h1)"
  define h2 where "h2 = (if zero_mallocs h1 then store_bytes h1 (r + 12) (unat n - 12) m else h1)"
  have h2: "bytes h2 = m" "zero_mallocs h2 = zero_mallocs h" "blocks h2 = blocks h" using c(2,4) by (simp_all add: h2_def m_def)
  have "(if zero_mallocs h1
     then do { m \<leftarrow> fill (bytes h1) (r + 12) 0 (unat (n - 12)); Some (store_bytes h1 (r + 12) (unat (n - 12)) m) }
     else Some h1) = Some h2"
    using fill_spec [OF mp] by (simp add: m_def h2_def u)
  moreover
  have "clear_of G pc' (r + 12) (unat n - 12)" by (rule live_clear [OF rep l]) (use c(8) in simp_all)
  then have "rep G (store_bytes h1 (r + 12) (unat n - 12) m) pc'" by (rule rep_store [OF c(5)]) (auto simp: m_def wr_def)
  then have "rep G h2 pc'" using c(5) by (simp add: h2_def)
  moreover have "same_live h pc m"
    unfolding same_live_def
  proof (intro allI impI)
    fix p k i assume p: "live pc p = Some k" "i < k"
    then have "p \<noteq> r + 12" using c(9) by auto
    then have "live pc' p = Some k" using p(1) c(10) by simp
    then have "disjnt_rng p k (r + 12) (t - 12)" by (rule live_apart [OF rep(1) _ l \<open>p \<noteq> r + 12\<close>])
    then have "p + i < r + 12 \<or> r + 12 + (unat n - 12) \<le> p + i" using p(2) c(8) by (auto simp: disjnt_rng_def)
    then show "m (p + i) = bytes h (p + i)" using c(3) by (auto simp: m_def wr_apply_out)
  qed
  moreover have "zero_mallocs h \<longrightarrow> (\<forall>i < unat n - 12. m (r + 12 + i) = Some 0)"
    using wr_apply_in [of _ "replicate (unat n - 12) 0" "bytes h1" "r + 12"] by (auto simp: m_def c(4))
  ultimately show ?thesis using c n(1) h2
    by (intro exI [of _ h1] exI [of _ r] exI [of _ h2] exI [of _ pc'] exI [of _ "t - 12"]) simp
qed

lemma malloc_spec:
  assumes rep: "rep G h pc" and os: "os_ok G" and n: "unat n < 2 ^ 31"
  shows "\<exists>h' p. malloc G h n = Some (h', p) \<and> zero_mallocs h' = zero_mallocs h \<and>
    (if p = 0 then rep G h' pc \<and> blocks h' = blocks h \<and> bytes h' = bytes h
     else \<exists>pc' k. rep G h' pc' \<and> piece_step\<^sup>*\<^sup>* (pc, blocks h) (pc', blocks h') \<and> unat (malloc_round n) - 12 \<le> k \<and> live pc p = None \<and>
       live pc' = (live pc)(p \<mapsto> k) \<and> same_live h pc (bytes h') \<and>
       (zero_mallocs h \<longrightarrow> (\<forall>i < unat n. bytes h' (p + i) = Some 0)))"
proof -
  from rep obtain F where ok: "pieces_ok pc (blocks h)" and ag: "agree G h pc" and fr: "free_list G h pc {} F"
    by (auto simp: rep_def)
  let ?n = "malloc_round n"
  have N: "unat n + 12 \<le> unat ?n" "unat ?n \<le> unat n + 19" using malloc_round_val [OF n] by linarith+
  have n12: "12 \<le> unat ?n" "unat (?n + 12) = unat ?n + 12" and n16: "unat ?n \<le> 2 ^ 31 + 18" "unat (?n + 16) = unat ?n + 16"
    using N n by (simp_all add: unat_word_ariths)
  obtain c where c: "chunks h (fl G) = Some c" by (rule agree_fl [OF ag])
  consider F1 q F2 s where "find_fit h ?n (fl G) (nxt c) = Some (last (fl G # F1), q)" "F = F1 @ q # F2" "q \<noteq> 0"
      "pc q = Some (Free, s)" "unat ?n \<le> s" | "find_fit h ?n (fl G) (nxt c) = Some (last (fl G # F), 0)"
    using find_fit_piece [OF ok ag fr c, of ?n] by blast
  then show ?thesis
  proof cases
    case (1 F1 q F2 s)
    obtain h1 r h2 pc' k where f: "carve h ?n (last (fl G # F1)) q = Some (h1, r)"
        "(if zero_mallocs h1
          then do { m \<leftarrow> fill (bytes h1) (r + 12) 0 (unat (?n - 12)); Some (store_bytes h1 (r + 12) (unat (?n - 12)) m) }
          else Some h1) = Some h2"
        "zero_mallocs h2 = zero_mallocs h" "blocks h2 = blocks h" "rep G h2 pc'"
        "piece_step (pc, blocks h) (pc', blocks h)" "unat ?n - 12 \<le> k" "live pc (r + 12) = None"
        "live pc' = (live pc)(r + 12 \<mapsto> k)" "same_live h pc (bytes h2)"
        "zero_mallocs h \<longrightarrow> (\<forall>i < unat ?n - 12. bytes h2 (r + 12 + i) = Some 0)"
      using carve_finish [OF ok ag fr [unfolded 1(2)] 1(4) n12 1(5)] by blast
    have "malloc G h n = Some (h2, r + 12)"
      using c 1(1,3) f(1,2) by (simp add: malloc_def Let_def del: last.simps)
    then show ?thesis using f N(1)
      by (intro exI [of _ h2] exI [of _ "r + 12"]) (auto intro!: exI [of _ pc'] exI [of _ k])
  next
    case 2
    obtain h0 r0 where mc: "more_core G h ?n = Some (h0, r0)" "zero_mallocs h0 = zero_mallocs h"
      "case r0 of
       None \<Rightarrow> rep G h0 pc \<and> blocks h0 = blocks h \<and> bytes h0 = bytes h
     | Some (p, q) \<Rightarrow> \<exists>pc' F1 F2 s.
         piece_step (pc, blocks h) (pc', blocks h0) \<and> pieces_ok pc' (blocks h0) \<and> agree G h0 pc' \<and>
         free_list G h0 pc' {} (F1 @ q # F2) \<and> p = last (fl G # F1) \<and> pc' q = Some (Free, s) \<and> unat ?n \<le> s \<and>
         live pc' = live pc \<and> (\<forall>b k a. (b, k) \<in> set (blocks h) \<longrightarrow> b \<le> a \<longrightarrow> a < b + k \<longrightarrow> bytes h0 a = bytes h a)"
      using more_core_spec [OF rep os n12(1) n16] by blast
    show ?thesis
    proof (cases r0)
      case None
      then have "malloc G h n = Some (h0, 0)" using c 2 mc(1) by (simp add: malloc_def Let_def)
      then show ?thesis using mc(2,3) None by auto
    next
      case (Some pq)
      obtain p q where pq: "pq = (p, q)" by (cases pq)
      from mc(3) Some pq obtain pc1 F1 F2 s where g: "piece_step (pc, blocks h) (pc1, blocks h0)" "pieces_ok pc1 (blocks h0)"
          "agree G h0 pc1" "free_list G h0 pc1 {} (F1 @ q # F2)" "p = last (fl G # F1)" "pc1 q = Some (Free, s)"
          "unat ?n \<le> s" "live pc1 = live pc"
          "\<forall>b k a. (b, k) \<in> set (blocks h) \<longrightarrow> b \<le> a \<longrightarrow> a < b + k \<longrightarrow> bytes h0 a = bytes h a"
        by (simp only: option.case prod.case) blast
      obtain h1 r h2 pc' k where f: "carve h0 ?n p q = Some (h1, r)"
          "(if zero_mallocs h1
            then do { m \<leftarrow> fill (bytes h1) (r + 12) 0 (unat (?n - 12)); Some (store_bytes h1 (r + 12) (unat (?n - 12)) m) }
            else Some h1) = Some h2"
          "zero_mallocs h2 = zero_mallocs h0" "blocks h2 = blocks h0" "rep G h2 pc'"
          "piece_step (pc1, blocks h0) (pc', blocks h0)" "unat ?n - 12 \<le> k" "live pc1 (r + 12) = None"
          "live pc' = (live pc1)(r + 12 \<mapsto> k)" "same_live h0 pc1 (bytes h2)"
          "zero_mallocs h0 \<longrightarrow> (\<forall>i < unat ?n - 12. bytes h2 (r + 12 + i) = Some 0)"
        using carve_finish [OF g(2-4) g(6) n12 g(7)] g(5) by blast
      have "malloc G h n = Some (h2, r + 12)"
        using c 2 mc(1) Some pq f(1,2) by (simp add: malloc_def Let_def)
      moreover have "same_live h pc (bytes h2)"
        unfolding same_live_def
      proof (intro allI impI)
        fix p k i assume p: "live pc p = Some k" "i < k"
        obtain b l where b: "(b, l) \<in> set (blocks h)" "b \<le> p" "p + k \<le> b + l" using live_owned [OF ok p(1)] by blast
        have "bytes h0 (p + i) = bytes h (p + i)" 
        proof -
          have "b \<le> p + i" "p + i < b + l" using b(2,3) p(2) by linarith+
          then show ?thesis using g(9) b(1) by blast
        qed
        then show "bytes h2 (p + i) = bytes h (p + i)" using f(10) p g(8) by (simp add: same_live_def)
      qed
      moreover have "piece_step\<^sup>*\<^sup>* (pc, blocks h) (pc', blocks h0)" using g(1) f(6) by (meson converse_rtranclp_into_rtranclp r_into_rtranclp)
      ultimately show ?thesis using f N(1) g(8) mc(2)
        by (intro exI [of _ h2] exI [of _ "r + 12"]) (auto intro!: exI [of _ pc'] exI [of _ k])
    qed
  qed
qed

end
