(* ===== verification/MallocFree.thy ===== *)
theory MallocFree
  imports MallocSpec
begin

text \<open>\<open>free\<close>, \<open>realloc\<close> and \<open>calloc\<close> carry out steps on the pieces too.\<close>

section \<open>Searching\<close>


lemma free_pos_spec:
  "path (nx h) p F 0 \<Longrightarrow> \<forall>a \<in> set F. a \<noteq> 0 \<and> chunks h a \<noteq> None \<Longrightarrow>
    free_pos h r o' p (nx h p) =
      Some (last (butlast (o' # p # takeWhile (\<lambda>a. a < r) F)), last (p # takeWhile (\<lambda>a. a < r) F),
        hd (dropWhile (\<lambda>a. a < r) F @ [0]))"
proof (induction F arbitrary: p o')
  case Nil
  then show ?case by (subst free_pos.simps) simp
next
  case (Cons q F)
  obtain c where c: "chunks h q = Some c" "q \<noteq> 0" using Cons.prems(2) by auto
  have p: "nx h p = q" "path (nx h) q F 0" using Cons.prems(1) by simp_all
  have "free_pos h r p q (nx h q) = Some (last (butlast (p # q # takeWhile (\<lambda>a. a < r) F)), last (q # takeWhile (\<lambda>a. a < r) F),
      hd (dropWhile (\<lambda>a. a < r) F @ [0]))"
    by (rule Cons.IH [OF p(2)]) (use Cons.prems(2) in simp)
  then show ?case using c p(1) by (subst free_pos.simps) (simp add: nx_Some)
qed

lemma pred_of_spec:
  "path (nx h) p (F0 @ x # F1) 0 \<Longrightarrow> \<forall>a \<in> set F0. a < x \<and> chunks h a \<noteq> None \<and> a \<noteq> 0 \<Longrightarrow> x \<noteq> 0 \<Longrightarrow>
    pred_of h x p (nx h p) = Some (last (p # F0), x)"
proof (induction F0 arbitrary: p)
  case Nil
  then show ?case by (subst pred_of.simps) simp
next
  case (Cons q F)
  obtain c where c: "chunks h q = Some c" "q \<noteq> 0" "q < x" using Cons.prems(2) by auto
  have p: "nx h p = q" "path (nx h) q (F @ x # F1) 0" using Cons.prems(1) by simp_all
  have "pred_of h x q (nx h q) = Some (last (q # F), x)"
    by (rule Cons.IH [OF p(2)]) (use Cons.prems(2,3) in simp_all)
  then show ?case using c p(1) by (subst pred_of.simps) (simp add: nx_Some)
qed

text \<open>While \<open>r\<close> is being freed the list is open: its part before \<open>r\<close> ends with any link, its part behind hangs on \<open>r\<close>.\<close>

definition open_list :: "gemdos \<Rightarrow> heap \<Rightarrow> pieces \<Rightarrow> nat \<Rightarrow> nat list \<Rightarrow> nat list \<Rightarrow> bool" where
  "open_list G h pc r F1 F2 \<longleftrightarrow> sorted_wrt (<) (F1 @ r # F2) \<and> set (F1 @ r # F2) = {a. listed pc {} a} \<and>
    (\<exists>b. path (nx h) (fl G) F1 b) \<and> path (nx h) r F2 0"

lemma link_up:
  assumes ol: "open_list G h pc r F1 F2" and ag: "agree G h pc" and ok: "pieces_ok pc (blocks h)"
    and p: "chunks h (last (fl G # F1)) = Some c"
  shows "rep G (setc h (last (fl G # F1)) (c\<lparr>nxt := r\<rparr>)) pc"
proof -
  let ?p = "last (fl G # F1)"
  obtain b where pth: "path (nx h) (fl G) F1 b" "path (nx h) r F2 0" using ol by (auto simp: open_list_def)
  have dist: "distinct (fl G # F1 @ r # F2)"
    using ol listed_fl [OF ag] strict_sorted_iff unfolding open_list_def by fastforce
  have "path ((nx h)(?p := r)) (fl G) F1 r" by (rule path_last [OF pth(1)]) (use dist in auto)
  moreover have "?p \<notin> set (r # F2)" using dist last_in_set [of "fl G # F1"] by auto
  then have "path ((nx h)(?p := r)) r F2 0" using pth(2) by (subst path_other)
  ultimately have "free_list G (setc h ?p (c\<lparr>nxt := r\<rparr>)) pc {} (F1 @ r # F2)"
    using ol by (simp add: free_list_def open_list_def path_append del: last.simps fun_upd_apply)
  then show ?thesis using agree_link [OF ag p] ok by (auto simp: rep_def simp del: last.simps)
qed

text \<open>Giving a block back to the system.\<close>

lemma mfree_simps [simp]:
  "zero_mallocs (os_mfree h b) = zero_mallocs h" "minhunk (os_mfree h b) = minhunk h" "maxhunk (os_mfree h b) = maxhunk h"
  "page_size (os_mfree h b) = page_size h" "heapbase (os_mfree h b) = heapbase h" "split_mem (os_mfree h b) = split_mem h"
  by (simp_all add: os_mfree_def split: option.split)

lemma mfree_block:
  assumes ok: "pieces_ok pc (blocks h)" and b: "(b, 16 + s) \<in> set (blocks h)"
  shows "blocks (os_mfree h b) = filter (\<lambda>x. fst x \<noteq> b) (blocks h)"
    "bytes (os_mfree h b) a = (if b \<le> a \<and> a < b + (16 + s) then None else bytes h a)"
    "chunks (os_mfree h b) a = (if b \<le> a \<and> a < b + (16 + s) then None else chunks h a)"
    "asize (os_mfree h b) a = (if b \<le> a \<and> a < b + (16 + s) then None else asize h a)"
proof -
  have "map_of (blocks h) b = Some (16 + s)"
    using b pieces_okD(2) [OF ok] by (intro map_of_is_SomeI) (simp_all add: blocks_ok_def)
  then show "blocks (os_mfree h b) = filter (\<lambda>x. fst x \<noteq> b) (blocks h)"
    "bytes (os_mfree h b) a = (if b \<le> a \<and> a < b + (16 + s) then None else bytes h a)"
    "chunks (os_mfree h b) a = (if b \<le> a \<and> a < b + (16 + s) then None else chunks h a)"
    "asize (os_mfree h b) a = (if b \<le> a \<and> a < b + (16 + s) then None else asize h a)"
    by (simp_all add: os_mfree_def)
qed

lemma return_outside:
  assumes ok: "pieces_ok pc bs" and b: "(b, 16 + s) \<in> set bs" and f: "pc (b + 16) = Some (Free, s)"
    and a: "(pc(b := None, b + 16 := None)) a = Some (k, t)" and i: "i < t"
  shows "\<not> (b \<le> a + i \<and> a + i < b + (16 + s))"
proof -
  have a': "pc a = Some (k, t)" "a \<noteq> b" "a \<noteq> b + 16" using a by (auto split: if_splits)
  have "pc b = Some (Border, 16)" using block_border [OF pieces_okD(2) [OF ok] b] by blast
  then have "disjnt_rng a t b 16" by (rule pieces_okD(6) [OF ok a'(1) _ a'(2)])
  moreover have "disjnt_rng a t (b + 16) s" by (rule pieces_okD(6) [OF ok a'(1) f a'(3)])
  ultimately show ?thesis using i pieces_okD(4) [OF ok f] by (auto simp: disjnt_rng_def)
qed

lemma mfree_agree:
  assumes ok: "pieces_ok pc (blocks h)" and ag: "agree G h pc"
    and b: "(b, 16 + s) \<in> set (blocks h)" and f: "pc (b + 16) = Some (Free, s)"
  shows "agree G (os_mfree h b) (pc(b := None, b + 16 := None))"
    and "\<And>a. a = fl G \<or> (pc(b := None, b + 16 := None)) a \<noteq> None \<Longrightarrow> nx (os_mfree h b) a = nx h a"
    and "same_live h (pc(b := None, b + 16 := None)) (bytes (os_mfree h b))"
proof -
  let ?pc = "pc(b := None, b + 16 := None)"
  note mf = mfree_block [OF ok b]
  have bo: "pc b = Some (Border, 16)" using block_border [OF pieces_okD(2) [OF ok] b] by blast
  have out: "\<not> (b \<le> a \<and> a < b + (16 + s))" if "?pc a = Some (k, t)" for a k t
  proof -
    have "pc a = Some (k, t)" using that by (auto split: if_splits)
    then have "0 < t" using pieces_okD(4) [OF ok] by fastforce
    then show ?thesis using return_outside [OF ok b f that, of 0] by simp
  qed
  have flo: "\<not> (b \<le> fl G \<and> fl G < b + (16 + s))" using agreeD(5) [OF ag b] by (auto simp: disjnt_rng_def)
  have cell: "cell (os_mfree h b) a = (if b \<le> a \<and> a < b + (16 + s) then None else cell h a)" for a
    by (simp add: cell_def mf)
  show "nx (os_mfree h b) a = nx h a" if "a = fl G \<or> ?pc a \<noteq> None" for a
  proof -
    have "\<not> (b \<le> a \<and> a < b + (16 + s))" using that flo out by (cases "?pc a") auto
    then show ?thesis by (auto simp: nx_def mf)
  qed
  have others: "disjnt_rng c m b (16 + s) \<and> c \<noteq> b" if "(c, m) \<in> set (blocks (os_mfree h b))" for c m
    using that blocks_apart [OF pieces_okD(2) [OF ok] _ b, of c m] by (auto simp: mf)
  show "agree G (os_mfree h b) ?pc"
    unfolding agree_def
  proof (intro conjI)
    show "\<forall>a k t. ?pc a = Some (k, t) \<longrightarrow> cell (os_mfree h b) a = Some (kval k, t)"
    proof (intro allI impI)
      fix a k t assume a: "?pc a = Some (k, t)"
      then have "pc a = Some (k, t)" by (auto split: if_splits)
      then show "cell (os_mfree h b) a = Some (kval k, t)" using agreeD(1) [OF ag] out [OF a] by (simp add: cell)
    qed
    show "\<forall>a t. cell (os_mfree h b) a = Some (VAL_ALLOC, t) \<longrightarrow> ?pc a = Some (Alloc, t)"
      using agreeD(2) [OF ag] bo f by (auto simp: cell split: if_splits)
    show "\<forall>c m. (c, m) \<in> set (blocks (os_mfree h b)) \<longrightarrow>
        disjnt_rng (fl G) 12 c m \<and> asize (os_mfree h b) c = Some (m - 16) \<and> mapped (bytes (os_mfree h b)) c m"
    proof (intro allI impI)
      fix c m assume c: "(c, m) \<in> set (blocks (os_mfree h b))"
      then have "(c, m) \<in> set (blocks h)" by (simp add: mf)
      then have "disjnt_rng (fl G) 12 c m \<and> asize h c = Some (m - 16) \<and> mapped (bytes h) c m" by (rule agreeD(5) [OF ag])
      moreover have away: "\<not> (b \<le> c + i \<and> c + i < b + (16 + s))" if "i < m" for i
        using others [OF c] that by (auto simp: disjnt_rng_def)
      moreover have "0 < m" using block_border [OF pieces_okD(2) [OF ok] \<open>(c, m) \<in> set (blocks h)\<close>] by simp
      then have "\<not> (b \<le> c \<and> c < b + (16 + s))" using away [of 0] by simp
      ultimately show "disjnt_rng (fl G) 12 c m \<and> asize (os_mfree h b) c = Some (m - 16) \<and> mapped (bytes (os_mfree h b)) c m"
        by (auto simp: mf mapped_def)
    qed
  qed (use agreeD [OF ag] flo in \<open>simp_all add: cell settings_ok_def\<close>)
  show "same_live h ?pc (bytes (os_mfree h b))"
    unfolding same_live_def
  proof (intro allI impI)
    fix p n i assume p: "live ?pc p = Some n" "i < n"
    obtain t where t: "12 \<le> p" "?pc (p - 12) = Some (Alloc, t)" "n = t - 12" using p(1) by (auto simp: live_Some)
    have "\<not> (b \<le> p - 12 + (12 + i) \<and> p - 12 + (12 + i) < b + (16 + s))"
      by (rule return_outside [OF ok b f t(2)]) (use t(3) p(2) in simp)
    then have "\<not> (b \<le> p + i \<and> p + i < b + (16 + s))" using t(1) by simp
    then show "bytes (os_mfree h b) (p + i) = bytes h (p + i)" by (simp only: mf if_False)
  qed
qed

section \<open>Joining and linking\<close>

lemma sum_pos: "pieces_ok pc bs \<Longrightarrow> pc a = Some (k, s) \<Longrightarrow> 0 < s"
  using pieces_okD(4) by fastforce

text \<open>A piece never reaches into the next entry of the list.\<close>

lemma next_piece:
  assumes "pieces_ok pc bs" "pc a = Some (k, s)" "pc b = Some (l, t)" "a < b"
  shows "a + s \<le> b"
  using pieces_okD(6) [OF assms(1-3)] pieces_okD(4) [OF assms(1,3)] assms(4) by (auto simp: disjnt_rng_def)

lemma merge_after_spec:
  assumes ok: "pieces_ok pc (blocks h)" and ag: "agree G h pc" and r: "pc r = Some (Free, s)"
    and fr: "free_list G h pc {r} (F1 @ F2)" and F: "\<forall>a \<in> set F1. a < r" "\<forall>a \<in> set F2. r < a"
  shows "\<exists>h' pc' F2' c. merge_after h r (hd (F2 @ [0])) = Some (h', Some (hd (F2' @ [0]))) \<and>
    chunks h' r = Some c \<and>
    agree G (setc h' r (c\<lparr>nxt := hd (F2' @ [0])\<rparr>)) pc' \<and>
    open_list G (setc h' r (c\<lparr>nxt := hd (F2' @ [0])\<rparr>)) pc' r F1 F2' \<and>
    pieces_ok pc' (blocks h') \<and> piece_step\<^sup>*\<^sup>* (pc, blocks h) (pc', blocks h') \<and> live pc' = live pc \<and>
    (\<exists>t. pc' r = Some (Free, t)) \<and>
    blocks h' = blocks h \<and> bytes h' = bytes h \<and> zero_mallocs h' = zero_mallocs h"
proof -
  note cells = list_cells [OF ok ag fr]
  obtain cr where cr: "chunks h r = Some cr" "valid cr = VAL_FREE" "csize cr = s" using agree_piece [OF ag r] by auto
  have path: "path (nx h) (fl G) F1 (hd (F2 @ [0]))" "F2 = [] \<or> path (nx h) (hd F2) (tl F2) 0"
    using free_listD(3) [OF fr] by (simp_all add: path_ends)
  have rF: "r \<notin> set F1" "r \<notin> set F2" "r \<noteq> fl G" using F piece_not_fl [OF ag r] by auto
  have srt: "sorted_wrt (<) (F1 @ r # F2)" using free_listD(1) [OF fr] F by (fastforce simp: sorted_wrt_append)
  have lst: "listed pc {} a \<longleftrightarrow> a = r \<or> a \<in> set (F1 @ F2)" for a
    using free_listD(2) [OF fr] r by (auto simp: listed_def)
  show ?thesis
  proof (cases "\<exists>q F t. F2 = q # F \<and> pc q = Some (Free, t) \<and> r + s = q")
    case True
    then obtain q F t where q: "F2 = q # F" "pc q = Some (Free, t)" "r + s = q" by blast
    obtain cq where cq: "chunks h q = Some cq" "valid cq = VAL_FREE" "csize cq = t" using agree_piece [OF ag q(2)] by auto
    have qr: "q \<noteq> r" "q \<noteq> 0" "q \<noteq> fl G" using F(2) q(1) cells rF by auto
    let ?h1 = "setc h r (cr\<lparr>csize := s + t\<rparr>)"
    let ?h' = "setc ?h1 q (cq\<lparr>csize := 0, nxt := 0\<rparr>)"
    let ?pc = "(pc(r \<mapsto> (Free, s + t)))(q := None)"
    have nq: "nxt cq = hd (F @ [0])" using path(2) q(1) nx_Some [OF cq(1)] by (cases F) auto
    let ?c = "cr\<lparr>csize := s + t\<rparr>"
    let ?h2 = "setc ?h' r (?c\<lparr>nxt := hd (F @ [0])\<rparr>)"
    have "merge_after h r (hd (F2 @ [0])) = Some (?h', Some (hd (F @ [0])))"
      using cr cq q qr nq by (simp add: merge_after_def Let_def)
    moreover have cr': "chunks ?h' r = Some ?c" using qr by simp
    moreover have "agree G ?h' ?pc"
      by (intro agree_del agree_put) (use ag cr cq rF qr in simp_all)
    then have "agree G ?h2 ?pc" using cr' by (rule agree_link)
    moreover have "open_list G ?h2 ?pc r F1 F"
      unfolding open_list_def
    proof (intro conjI)
      show "sorted_wrt (<) (F1 @ r # F)" using srt q(1) by (simp add: sorted_wrt_append)
      show "set (F1 @ r # F) = {a. listed ?pc {} a}"
      proof -
        have "listed ?pc {} a \<longleftrightarrow> listed pc {} a \<and> a \<noteq> q" for a using r qr by (auto simp: listed_def)
        moreover have "q \<notin> set F1" "q \<notin> set F" using cells(2) q(1) by auto
        ultimately show ?thesis using q(1) qr by (auto simp: lst)
      qed
      have nx: "nx ?h2 = (nx h)(q := 0, r := hd (F @ [0]))" using qr by auto
      show "\<exists>b. path (nx ?h2) (fl G) F1 b"
        using path(1) rF qr cells(2) q(1) unfolding nx by (intro exI) (subst path_other, simp)+
      have "path ((nx h)(q := 0, r := hd (F @ [0]))) r F 0"
      proof (cases F)
        case (Cons x xs)
        have "path (nx h) x xs 0" using path(2) q(1) Cons by simp
        moreover have "q \<notin> set F" "r \<notin> set F" using cells(2) q(1) rF by auto
        ultimately show ?thesis using Cons by (simp add: path_other)
      qed simp
      then show "path (nx ?h2) r F 0" unfolding nx .
    qed
    moreover have "pieces_ok ?pc (blocks ?h')" using join_ok [OF ok r _ ] q by simp
    moreover have "piece_step (pc, blocks h) (?pc, blocks ?h')"
      using piece_step.Join [of pc r Free s t "blocks h"] r q by simp
    moreover have "live ?pc = live pc"
      using live_not_alloc [of pc r] live_not_alloc [of pc q] r q by (simp add: live_upd fun_upd_idem)
    moreover have "?pc r = Some (Free, s + t)" using qr by simp
    ultimately show ?thesis
      by (intro exI [of _ ?h'] exI [of _ ?pc] exI [of _ F] exI [of _ ?c]) (auto simp del: setc_simps(1) fun_upd_apply simp: setc_simps(2-))
  next
    case False
    have "merge_after h r (hd (F2 @ [0])) = Some (h, Some (hd (F2 @ [0])))"
    proof (cases F2)
      case (Cons q F)
      then have "q \<in> set (F1 @ F2)" by simp
      then have "listed pc {r} q" using free_listD(2) [OF fr] by blast
      then obtain k t where q: "pc q = Some (k, t)" "k \<noteq> Alloc" by (auto simp: listed_def)
      obtain cq where cq: "chunks h q = Some cq" "valid cq = kval k" "csize cq = t" using agree_piece [OF ag q(1)] .
      have "r + s \<le> q" using next_piece [OF ok r q(1)] F(2) Cons by simp
      moreover have "\<not> (r + s = q \<and> k = Free)" using False Cons q(1) by auto
      ultimately have "\<not> (r + s \<ge> q \<and> valid cq \<noteq> VAL_BORDER)" using cq(2) q(2) by (cases k) auto
      then show ?thesis using cr cq(1) Cons cells(1) by (auto simp: merge_after_def Let_def)
    qed (simp add: merge_after_def)
    moreover have "agree G (setc h r (cr\<lparr>nxt := hd (F2 @ [0])\<rparr>)) pc" by (rule agree_link [OF ag cr(1)])
    moreover have "open_list G (setc h r (cr\<lparr>nxt := hd (F2 @ [0])\<rparr>)) pc r F1 F2"
      unfolding open_list_def
    proof (intro conjI)
      show "set (F1 @ r # F2) = {a. listed pc {} a}" using lst by auto
      show "\<exists>b. path (nx (setc h r (cr\<lparr>nxt := hd (F2 @ [0])\<rparr>))) (fl G) F1 b"
        using path(1) rF by (intro exI) (simp add: path_other)
      show "path (nx (setc h r (cr\<lparr>nxt := hd (F2 @ [0])\<rparr>))) r F2 0"
        using path(2) rF by (cases F2) (simp_all add: path_other)
    qed (rule srt)
    ultimately show ?thesis using ok cr(1) r
      by (intro exI [of _ h] exI [of _ pc] exI [of _ F2] exI [of _ cr]) auto
  qed
qed


lemma give_back_spec:
  assumes ok: "pieces_ok pc (blocks h)" and ag: "agree G h pc"
    and b: "(b, 16 + s) \<in> set (blocks h)" and f: "pc (b + 16) = Some (Free, s)"
    and pth: "path (nx h) (fl G) F0 x" "F2 = [] \<or> path (nx h) (hd F2) (tl F2) 0" and srt: "sorted_wrt (<) (F0 @ F2)"
    and lst: "set (F0 @ F2) = {a. listed pc {} a} - {b, b + 16}"
  shows "\<exists>h'. give_back h (last (fl G # F0)) (hd (F2 @ [0])) b = Some h' \<and> zero_mallocs h' = zero_mallocs h \<and>
    rep G h' (pc(b := None, b + 16 := None)) \<and> piece_step (pc, blocks h) (pc(b := None, b + 16 := None), blocks h') \<and>
    live (pc(b := None, b + 16 := None)) = live pc \<and> same_live h (pc(b := None, b + 16 := None)) (bytes h')"
proof -
  let ?pc = "pc(b := None, b + 16 := None)" and ?p = "last (fl G # F0)" and ?v = "hd (F2 @ [0])"
  have dist: "distinct (fl G # F0 @ F2)"
    using strict_sorted_iff [of "F0 @ F2"] srt lst listed_fl [OF ag, of "{}"] by auto
  have cells: "\<forall>a \<in> set F0. a \<noteq> 0 \<and> chunks h a \<noteq> None"
  proof
    fix a assume "a \<in> set F0"
    then have "listed pc {} a" using lst by auto
    then obtain k t where a: "pc a = Some (k, t)" using listed_piece by blast
    then show "a \<noteq> 0 \<and> chunks h a \<noteq> None" using piece_pos [OF ok a] agree_piece [OF ag a] by blast
  qed
  obtain c where c: "chunks h ?p = Some c" using before_cell [OF ag cells] by blast
  let ?h1 = "setc h ?p (c\<lparr>nxt := ?v\<rparr>)"
  have ag1: "agree G ?h1 pc" by (rule agree_link [OF ag c])
  have ok1: "pieces_ok pc (blocks ?h1)" and b1: "(b, 16 + s) \<in> set (blocks ?h1)" using ok b by simp_all
  note mf = mfree_agree [OF ok1 ag1 b1 f]
  have bo: "pc b = Some (Border, 16)" using block_border [OF pieces_okD(2) [OF ok] b] by blast
  have "give_back h ?p ?v b = Some (os_mfree ?h1 b)" using c by (simp add: give_back_def del: last.simps)
  moreover have "rep G (os_mfree ?h1 b) ?pc"
  proof -
    have "path ((nx h)(?p := ?v)) (fl G) F0 ?v" by (rule path_last [OF pth(1)]) (use dist in simp)
    moreover have "?p \<notin> set F2" using dist last_in_set [of "fl G # F0"] by auto
    then have "F2 = [] \<or> path ((nx h)(?p := ?v)) (hd F2) (tl F2) 0"
      using pth(2) by (cases F2) (auto simp: path_other simp del: last.simps fun_upd_apply)
    ultimately have "path (nx ?h1) (fl G) (F0 @ F2) 0" unfolding path_ends [of _ "fl G" F0] by (simp del: last.simps)
    then have "path (nx (os_mfree ?h1 b)) (fl G) (F0 @ F2) 0"
    proof (rule path_cong)
      show "\<forall>a \<in> set (fl G # F0 @ F2). nx ?h1 a = nx (os_mfree ?h1 b) a"
      proof
        fix a assume "a \<in> set (fl G # F0 @ F2)"
        then have "a = fl G \<or> ?pc a \<noteq> None" using lst by (auto simp: listed_def)
        then show "nx ?h1 a = nx (os_mfree ?h1 b) a" using mf(2) by metis
      qed
    qed
    moreover have "set (F0 @ F2) = {a. listed ?pc {} a}" unfolding lst by (auto simp: listed_def)
    ultimately have "free_list G (os_mfree ?h1 b) ?pc {} (F0 @ F2)" using srt by (simp add: free_list_def)
    then show ?thesis using mf(1) return_ok [OF ok1 b1 f] mfree_block(1) [OF ok1 b1] by (auto simp: rep_def)
  qed
  moreover have "piece_step (pc, blocks h) (?pc, blocks (os_mfree ?h1 b))"
    using piece_step.Return [where pc = pc, OF b f] mfree_block(1) [OF ok1 b1] by simp
  moreover have "live ?pc = live pc"
    using live_not_alloc [of pc b] live_not_alloc [of pc "b + 16"] bo f by (simp add: live_upd fun_upd_idem)
  moreover have "same_live h ?pc (bytes (os_mfree ?h1 b))" using mf(3) by (simp add: same_live_def)
  ultimately show ?thesis by (intro exI [of _ "os_mfree ?h1 b"]) simp
qed

lemma at_heapbase_False [simp]: "settings_ok h \<Longrightarrow> \<not> at_heapbase h s"
  by (simp add: at_heapbase_def settings_ok_def)

text \<open>A free piece right behind a border in the list is in its block.\<close>

lemma border_block:
  assumes ok: "pieces_ok pc bs" and p: "pc p = Some (Free, s)"
    and o': "(o', 16 + s) \<in> set bs" "o' < p" and adj: "\<And>b. pc b = Some (Border, 16) \<Longrightarrow> b < p \<Longrightarrow> b \<le> o'"
  shows "p = o' + 16"
proof -
  obtain b n where b: "(b, n) \<in> set bs" "b + 16 \<le> p" "p + s \<le> b + n" using pieces_okD(5) [OF ok p] by (auto simp: placed_def)
  have "pc b = Some (Border, 16)" using block_border [OF pieces_okD(2) [OF ok] b(1)] by blast
  then have "b \<le> o'" using adj b(2) by simp
  moreover have "\<not> b < o'"
  proof
    assume "b < o'"
    then have "disjnt_rng b n o' (16 + s)" using blocks_apart [OF pieces_okD(2) [OF ok] b(1) o'(1)] by auto
    then show False using \<open>b < o'\<close> b(3) o'(2) pieces_okD(4) [OF ok p] by (auto simp: disjnt_rng_def)
  qed
  ultimately have "b = o'" by simp
  then have "n = 16 + s" using b(1) o'(1) pieces_okD(2) [OF ok] by (auto simp: blocks_ok_def dest: eq_key_imp_eq_value)
  then show ?thesis using b \<open>b = o'\<close> by simp
qed


lemma open_listD:
  assumes "open_list G h pc r F1 F2" "agree G h pc"
  shows "sorted_wrt (<) (F1 @ r # F2)" "set (F1 @ r # F2) = {a. listed pc {} a}" "\<exists>b. path (nx h) (fl G) F1 b"
    "path (nx h) r F2 0" "nx h r = hd (F2 @ [0])" "F2 = [] \<or> path (nx h) (hd F2) (tl F2) 0" "distinct (fl G # F1 @ r # F2)"
proof -
  show *: "sorted_wrt (<) (F1 @ r # F2)" "set (F1 @ r # F2) = {a. listed pc {} a}" "\<exists>b. path (nx h) (fl G) F1 b"
    "path (nx h) r F2 0" using assms(1) by (simp_all add: open_list_def)
  show "nx h r = hd (F2 @ [0])" "F2 = [] \<or> path (nx h) (hd F2) (tl F2) 0" using *(4) by (cases F2; simp)+
  show "distinct (fl G # F1 @ r # F2)" using *(1,2) listed_fl [OF assms(2), of "{}"] strict_sorted_iff [of "F1 @ r # F2"] by auto
qed

lemma join_linked:
  assumes ok: "pieces_ok pc (blocks h)" and ag: "agree G h pc" and ol: "open_list G h pc r (F0 @ [p]) F2"
    and p: "pc p = Some (Free, sp)" and r: "pc r = Some (Free, t)" "p + sp = r"
    and cp: "chunks h p = Some cp" and cr: "chunks h r = Some cr"
  defines "h2 \<equiv> setc (setc h p (cp\<lparr>csize := csize cp + csize cr, nxt := nxt cr\<rparr>)) r (cr\<lparr>csize := 0, nxt := 0\<rparr>)"
    and "pc2 \<equiv> pc(p \<mapsto> (Free, sp + t), r := None)"
  shows "pieces_ok pc2 (blocks h2)" "agree G h2 pc2" "free_list G h2 pc2 {} (F0 @ p # F2)"
    "piece_step (pc, blocks h) (pc2, blocks h2)" "live pc2 = live pc"
    "chunks h2 p = Some (cp\<lparr>csize := sp + t, nxt := hd (F2 @ [0])\<rparr>)"
proof -
  note o = open_listD [OF ol ag]
  have c: "valid cp = VAL_FREE" "csize cp = sp" "valid cr = VAL_FREE" "csize cr = t"
    using agreeD(1) [OF ag p] agreeD(1) [OF ag r(1)] cp cr by (simp_all add: cell_def)
  have pr: "p \<noteq> r" using sum_pos [OF ok p] r(2) by simp
  have nr: "nxt cr = hd (F2 @ [0])" using o(5) nx_Some [OF cr] by simp
  show "pieces_ok pc2 (blocks h2)" using join_ok [OF ok p _ ] r by (simp add: pc2_def h2_def)
  show "agree G h2 pc2" unfolding h2_def pc2_def
    by (intro agree_del agree_put) (use ag c piece_not_fl [OF ag p] piece_not_fl [OF ag r(1)] in simp_all)
  show "piece_step (pc, blocks h) (pc2, blocks h2)"
    using piece_step.Join [of pc p Free sp t "blocks h"] p r by (simp add: pc2_def h2_def)
  show "live pc2 = live pc"
    using live_not_alloc [of pc p] live_not_alloc [of pc r] p r by (simp add: pc2_def live_upd fun_upd_idem)
  show "chunks h2 p = Some (cp\<lparr>csize := sp + t, nxt := hd (F2 @ [0])\<rparr>)" using c pr nr by (simp add: h2_def)
  have nx: "nx h2 = (nx h)(p := hd (F2 @ [0]), r := 0)" using pr nr by (auto simp: h2_def)
  obtain b where "path (nx h) (fl G) (F0 @ [p]) b" using o(3) by blast
  then have "path ((nx h)(last (fl G # F0 @ [p]) := hd (F2 @ [0]))) (fl G) (F0 @ [p]) (hd (F2 @ [0]))"
    by (rule path_last) (use o(7) in auto)
  then have "path ((nx h)(p := hd (F2 @ [0]))) (fl G) (F0 @ [p]) (hd (F2 @ [0]))" by simp
  then have "path (nx h2) (fl G) (F0 @ [p]) (hd (F2 @ [0]))" unfolding nx using o(7) by (subst path_other) auto
  moreover have "F2 = [] \<or> path (nx h2) (hd F2) (tl F2) 0"
    using o(6,7) unfolding nx by (cases F2) (auto simp: path_other simp del: fun_upd_apply)
  ultimately have "path (nx h2) (fl G) ((F0 @ [p]) @ F2) 0" unfolding path_ends [of _ _ "F0 @ [p]"] by blast
  moreover have "set (F0 @ p # F2) = {a. listed pc2 {} a}"
  proof -
    have "listed pc2 {} a \<longleftrightarrow> listed pc {} a \<and> a \<noteq> r" for a using p pr by (auto simp: listed_def pc2_def)
    then show ?thesis using o(2,7) by auto
  qed
  ultimately show "free_list G h2 pc2 {} (F0 @ p # F2)" using o(1) by (simp add: free_list_def sorted_wrt_append)
qed

lemma merge_before_spec:
  assumes ok: "pieces_ok pc (blocks h)" and ag: "agree G h pc" and ol: "open_list G h pc r (F0 @ [p]) F2"
    and p: "pc p = Some (Free, sp)" and r: "pc r = Some (Free, t)" "p + sp = r"
  shows "\<exists>h' pc'. merge_before G h (last (fl G # F0)) p r = Some h' \<and> zero_mallocs h' = zero_mallocs h \<and> rep G h' pc' \<and>
    piece_step\<^sup>*\<^sup>* (pc, blocks h) (pc', blocks h') \<and> live pc' = live pc \<and> same_live h pc' (bytes h')"
proof -
  obtain cp where cp: "chunks h p = Some cp" "csize cp = sp" using agree_piece [OF ag p] by auto
  obtain cr where cr: "chunks h r = Some cr" "csize cr = t" using agree_piece [OF ag r(1)] by auto
  define h2 where "h2 = setc (setc h p (cp\<lparr>csize := csize cp + csize cr, nxt := nxt cr\<rparr>)) r (cr\<lparr>csize := 0, nxt := 0\<rparr>)"
  define pc2 where "pc2 = pc(p \<mapsto> (Free, sp + t), r := None)"
  note j = join_linked [OF ok ag ol p r cp(1) cr(1), folded h2_def pc2_def]
  note cells = list_cells [OF j(1-3)]
  let ?o = "last (fl G # F0)"
  have rep: "rep G h2 pc2" using j(1-3) by (auto simp: rep_def)
  have pr: "p \<noteq> r" using sum_pos [OF ok p] r(2) by simp
  have st: "settings_ok h2" using agreeD(6) [OF j(2)] .
  have "\<forall>a \<in> set F0. a \<noteq> 0 \<and> chunks h2 a \<noteq> None" using cells(1) by simp
  then obtain co where co: "chunks h2 ?o = Some co" using before_cell [OF j(2)] by blast
  let ?cp = "cp\<lparr>csize := sp + t, nxt := hd (F2 @ [0])\<rparr>"
  have rest: "merge_before G h ?o p r =
      do { give \<leftarrow> (if valid co = VAL_BORDER then do { k \<leftarrow> asize h2 ?o; Some (k = sp + t) } else Some False);
           if give
           then do { cf \<leftarrow> chunks h2 (fl G);
                     (q, s) \<leftarrow> pred_of h2 ?o (fl G) (nxt cf);
                     if s \<noteq> 0 then if s \<noteq> ?o then Some h2 else give_back h2 q (hd (F2 @ [0])) ?o
                     else Some h2 }
           else Some h2 }"
  proof -
    have u1: "upd h p (\<lambda>c. c\<lparr>csize := csize c + csize cr, nxt := nxt cr\<rparr>) =
        Some (setc h p (cp\<lparr>csize := csize cp + csize cr, nxt := nxt cr\<rparr>))" using cp(1) by simp
    have u2: "upd (setc h p (cp\<lparr>csize := csize cp + csize cr, nxt := nxt cr\<rparr>)) r (\<lambda>c. c\<lparr>csize := 0, nxt := 0\<rparr>) = Some h2"
      using cr(1) pr by (simp add: h2_def)
    obtain c3 where c3: "chunks h2 p = Some c3" "csize c3 = sp + t" "nxt c3 = hd (F2 @ [0])" using j(6) by simp
    show ?thesis unfolding merge_before_def
      by (simp only: cr(1) u1 u2 c3 co Option.bind.simps Let_def at_heapbase_False [OF st] if_False mem_chunk.simps)
  qed
  have base: "same_live h pc2 (bytes h2)" "zero_mallocs h2 = zero_mallocs h" "blocks h2 = blocks h"
    by (simp_all add: h2_def same_live_def)
  have step: "piece_step\<^sup>*\<^sup>* (pc, blocks h) (pc2, blocks h2)" using j(4) by blast
  show ?thesis
  proof (cases "valid co = VAL_BORDER \<and> asize h2 ?o = Some (sp + t)")
    case False
    have "?o = fl G \<or> (\<exists>n. (?o, n) \<in> set (blocks h2))" if "valid co = VAL_BORDER"
    proof (cases F0)
      case (Cons x xs)
      then have "?o \<in> set (F0 @ p # F2)" by simp
      then have "listed pc2 {} ?o" using free_listD(2) [OF j(3)] by blast
      then obtain k s where k: "pc2 ?o = Some (k, s)" by (auto simp: listed_def simp del: last.simps)
      then have "k = Border" using agreeD(1) [OF j(2) k] co that by (simp add: cell_def eq_commute [of VAL_BORDER] del: last.simps)
      then show ?thesis using placed_border [OF pieces_okD(5) [OF j(1) k]] by simp
    qed simp
    then have "asize h2 ?o \<noteq> None" if "valid co = VAL_BORDER"
      using that agreeD(3,5) [OF j(2)] co by (fastforce simp: cell_def)
    then have "merge_before G h ?o p r = Some h2" unfolding rest using False
      by (cases "asize h2 ?o") (auto simp del: last.simps)
    then show ?thesis using rep base step j(5) by blast
  next
    case True
    have "?o \<noteq> fl G" using agreeD(3) [OF j(2)] co True by (auto simp: cell_def simp del: last.simps)
    then obtain F00 o' where F0: "F0 = F00 @ [o']" by (cases F0 rule: rev_cases) auto
    then have o': "?o = o'" by simp
    have "o' \<in> set (F0 @ p # F2)" using F0 by simp
    then have "listed pc2 {} o'" using free_listD(2) [OF j(3)] by blast
    then obtain k s where k: "pc2 o' = Some (k, s)" by (auto simp: listed_def)
    then have "k = Border" using agreeD(1) [OF j(2) k] co True unfolding o' by (simp add: cell_def eq_commute [of VAL_BORDER])
    then obtain n where n: "(o', n) \<in> set (blocks h2)" using placed_border [OF pieces_okD(5) [OF j(1) k]] by blast
    moreover have "n - 16 = sp + t" "28 \<le> n"
      using agreeD(5) [OF j(2) n] True block_border [OF pieces_okD(2) [OF j(1)] n] unfolding o' by simp_all
    ultimately have "n = 16 + (sp + t)" by linarith
    then have blk: "(o', 16 + (sp + t)) \<in> set (blocks h2)" using n by simp
    have p2: "pc2 p = Some (Free, sp + t)" using pr by (simp add: pc2_def)
    have srt: "sorted_wrt (<) (F00 @ o' # p # F2)" using free_listD(1) [OF j(3)] F0 by simp
    have p16: "p = o' + 16"
    proof (rule border_block [OF j(1) p2 blk])
      show "o' < p" using srt by (simp add: sorted_wrt_append)
      fix b assume b: "pc2 b = Some (Border, 16)" "b < p"
      then have "b \<in> set (F0 @ p # F2)" using free_listD(2) [OF j(3)] by (auto simp: listed_def)
      then show "b \<le> o'" using b(2) srt F0 by (auto simp: sorted_wrt_append)
    qed
    obtain cf where cf: "chunks h2 (fl G) = Some cf" by (rule agree_fl [OF j(2)])
    have pth: "path (nx h2) (fl G) (F00 @ o' # p # F2) 0" using free_listD(3) [OF j(3)] F0 by simp
    have "pred_of h2 o' (fl G) (nx h2 (fl G)) = Some (last (fl G # F00), o')"
      by (rule pred_of_spec [OF pth]) (use srt cells(1) F0 in \<open>auto simp: sorted_wrt_append\<close>)
    then have "merge_before G h ?o p r = give_back h2 (last (fl G # F00)) (hd (F2 @ [0])) o'"
      unfolding rest using True cf cells(1) F0 nx_Some [OF cf] unfolding o' by (simp del: last.simps)
    moreover have "\<exists>h'. give_back h2 (last (fl G # F00)) (hd (F2 @ [0])) o' = Some h' \<and> zero_mallocs h' = zero_mallocs h2 \<and>
      rep G h' (pc2(o' := None, o' + 16 := None)) \<and> piece_step (pc2, blocks h2) (pc2(o' := None, o' + 16 := None), blocks h') \<and>
      live (pc2(o' := None, o' + 16 := None)) = live pc2 \<and> same_live h2 (pc2(o' := None, o' + 16 := None)) (bytes h')"
    proof (rule give_back_spec [OF j(1,2) blk])
      show "pc2 (o' + 16) = Some (Free, sp + t)" using p2 p16 by simp
      show "path (nx h2) (fl G) F00 o'" using pth by (simp add: path_append)
      show "F2 = [] \<or> path (nx h2) (hd F2) (tl F2) 0" using pth by (cases F2) (auto simp: path_append)
      show "sorted_wrt (<) (F00 @ F2)" using srt by (simp add: sorted_wrt_append)
      show "set (F00 @ F2) = {a. listed pc2 {} a} - {o', o' + 16}"
        using free_listD(2) [OF j(3)] cells(2) F0 p16 by auto
    qed
    ultimately show ?thesis using base step j(5)
      by (auto simp: same_live_def h2_def simp del: last.simps intro: rtranclp.rtrancl_into_rtrancl)
  qed
qed


lemma free_link_spec:
  assumes ok: "pieces_ok pc (blocks h)" and ag: "agree G h pc" and ol: "open_list G h pc r F1 F2" and r: "pc r = Some (Free, t)"
  shows "\<exists>h' pc'. free_link G h (last (butlast (0 # fl G # F1))) (last (fl G # F1)) (hd (F2 @ [0])) r = Some h' \<and>
    zero_mallocs h' = zero_mallocs h \<and> rep G h' pc' \<and>
    piece_step\<^sup>*\<^sup>* (pc, blocks h) (pc', blocks h') \<and> live pc' = live pc \<and> same_live h pc' (bytes h')"
proof -
  note o = open_listD [OF ol ag]
  let ?p = "last (fl G # F1)"
  have cells: "\<forall>a \<in> set F1. a \<noteq> 0 \<and> chunks h a \<noteq> None"
  proof
    fix a assume "a \<in> set F1"
    then have "listed pc {} a" using o(2) by auto
    then obtain k t where a: "pc a = Some (k, t)" using listed_piece by blast
    then show "a \<noteq> 0 \<and> chunks h a \<noteq> None" using piece_pos [OF ok a] agree_piece [OF ag a] by blast
  qed
  obtain cp where cp: "chunks h ?p = Some cp" using before_cell [OF ag cells] by blast
  obtain cr where cr: "chunks h r = Some cr" "csize cr = t" using agree_piece [OF ag r] by auto
  have st: "settings_ok h" using agreeD(6) [OF ag] .
  let ?h1 = "setc h ?p (cp\<lparr>nxt := r\<rparr>)"
  have up: "upd h ?p (\<lambda>c. c\<lparr>nxt := r\<rparr>) = Some ?h1" using cp by (simp del: last.simps)
  have linked: "rep G ?h1 pc" by (rule link_up [OF ol ag ok cp])
  have stay: "?thesis" if "free_link G h (last (butlast (0 # fl G # F1))) ?p (hd (F2 @ [0])) r = Some ?h1"
    using that linked by (intro exI [of _ ?h1] exI [of _ pc]) (simp add: same_live_def del: last.simps)
  show ?thesis
  proof (cases "hd (F2 @ [0]) \<noteq> 0 \<and> ?p + csize cp \<ge> r \<and> ?p \<noteq> fl G")
    case False
    then have "free_link G h (last (butlast (0 # fl G # F1))) ?p (hd (F2 @ [0])) r = Some ?h1"
      unfolding free_link_def by (simp only: cp cr(1) Option.bind.simps if_False at_heapbase_False [OF st] up)
    then show ?thesis by (rule stay)
  next
    case True
    then obtain F0 p where F1: "F1 = F0 @ [p]" by (cases F1 rule: rev_cases) auto
    have p: "?p = p" and o': "last (butlast (0 # fl G # F1)) = last (fl G # F0)" unfolding F1 by (simp_all add: butlast_append)
    have "p \<in> set (F1 @ r # F2)" unfolding F1 by simp
    then have "listed pc {} p" using o(2) by blast
    then obtain k sp where k: "pc p = Some (k, sp)" "k \<noteq> Alloc" by (auto simp: listed_def)
    have c: "valid cp = kval k" "csize cp = sp" using agreeD(1) [OF ag k(1)] cp unfolding p by (simp_all add: cell_def)
    have "p < r" using o(1) unfolding F1 by (simp add: sorted_wrt_append)
    then have adj: "p + sp = r" using next_piece [OF ok k(1) r] True c(2) unfolding p by simp
    have cond: "hd (F2 @ [0]) \<noteq> 0 \<and> p + csize cp \<ge> r \<and> p \<noteq> fl G" using True unfolding p .
    have cp': "chunks h p = Some cp" using cp unfolding p .
    have ol': "open_list G h pc r (F0 @ [p]) F2" using ol unfolding F1 .
    show ?thesis
    proof (cases "k = Border")
      case False
      then have k': "pc p = Some (Free, sp)" "valid cp \<noteq> VAL_BORDER" using k c(1) by (cases k; simp)+
      have "free_link G h (last (fl G # F0)) p (hd (F2 @ [0])) r = merge_before G h (last (fl G # F0)) p r"
        using cp' cr adj c(2) cond k'(2) by (simp add: free_link_def del: last.simps)
      then show ?thesis unfolding o' p using merge_before_spec [OF ok ag ol' k'(1) r adj] by simp
    next
      case True
      then obtain n where n: "(p, n) \<in> set (blocks h)" using placed_border [OF pieces_okD(5) [OF ok k(1)]] by blast
      have sp: "sp = 16" "28 \<le> n" using block_border [OF pieces_okD(2) [OF ok] n] k(1) by simp_all
      have as: "asize h p = Some (n - 16)" using agreeD(5) [OF ag n] by blast
      have vb: "valid cp = VAL_BORDER" using c(1) True by simp
      have fk: "free_link G h (last (fl G # F0)) p (hd (F2 @ [0])) r =
          (if n - 16 = t then give_back h (last (fl G # F0)) (hd (F2 @ [0])) p else upd h p (\<lambda>c. c\<lparr>nxt := r\<rparr>))"
        using cp' cr adj c(2) cond vb as o(5) nx_Some [OF cr(1)] by (simp add: free_link_def del: last.simps)
      show ?thesis
      proof (cases "n - 16 = t")
        case False
        then show ?thesis using fk up stay unfolding o' p by simp
      next
        case True
        have f: "pc (p + 16) = Some (Free, t)" using r adj sp(1) by simp
        have n': "n = 16 + t" using True sp(2) by simp
        have "\<exists>h'. give_back h (last (fl G # F0)) (hd (F2 @ [0])) p = Some h' \<and> zero_mallocs h' = zero_mallocs h \<and>
            rep G h' (pc(p := None, p + 16 := None)) \<and> piece_step (pc, blocks h) (pc(p := None, p + 16 := None), blocks h') \<and>
            live (pc(p := None, p + 16 := None)) = live pc \<and> same_live h (pc(p := None, p + 16 := None)) (bytes h')"
        proof (rule give_back_spec [OF ok ag n [unfolded n'] f])
          obtain b where "path (nx h) (fl G) (F0 @ [p]) b" using o(3) unfolding F1 by blast
          then show "path (nx h) (fl G) F0 p" by (simp add: path_append)
          show "F2 = [] \<or> path (nx h) (hd F2) (tl F2) 0" by (rule o(6))
          show "sorted_wrt (<) (F0 @ F2)" using o(1) unfolding F1 by (simp add: sorted_wrt_append)
          show "set (F0 @ F2) = {a. listed pc {} a} - {p, p + 16}"
            using o(2,7) adj sp(1) unfolding F1 by auto
        qed
        then obtain h' where g: "give_back h (last (fl G # F0)) (hd (F2 @ [0])) p = Some h'" "zero_mallocs h' = zero_mallocs h"
          "rep G h' (pc(p := None, p + 16 := None))" "piece_step (pc, blocks h) (pc(p := None, p + 16 := None), blocks h')"
          "live (pc(p := None, p + 16 := None)) = live pc" "same_live h (pc(p := None, p + 16 := None)) (bytes h')" by blast
        have "free_link G h (last (fl G # F0)) p (hd (F2 @ [0])) r = Some h'" using fk True g(1) by simp
        moreover have "piece_step\<^sup>*\<^sup>* (pc, blocks h) (pc(p := None, p + 16 := None), blocks h')" using g(4) by (rule r_into_rtranclp)
        ultimately show ?thesis unfolding o' p using g by blast
      qed
    qed
  qed
qed

text \<open>\<open>free\<close> takes back exactly the piece that it is given, and leaves everything else that the client holds.\<close>

lemma free_spec:
  assumes rep: "rep G h pc" and p: "live pc p = Some n"
  shows "\<exists>h' pc'. free G h p = Some h' \<and> zero_mallocs h' = zero_mallocs h \<and> rep G h' pc' \<and>
    piece_step\<^sup>*\<^sup>* (pc, blocks h) (pc', blocks h') \<and> live pc' = (live pc)(p := None) \<and> same_live h pc' (bytes h')"
proof -
  from rep obtain F where ok: "pieces_ok pc (blocks h)" and ag: "agree G h pc" and fr: "free_list G h pc {} F"
    by (auto simp: rep_def)
  obtain s where s: "12 \<le> p" "pc (p - 12) = Some (Alloc, s)" "n = s - 12" using p by (auto simp: live_Some)
  define r where "r = p - 12"
  have r: "pc r = Some (Alloc, s)" "p \<noteq> 0" "p = r + 12" using s by (simp_all add: r_def)
  obtain cr where cr: "chunks h r = Some cr" "valid cr = VAL_ALLOC" "csize cr = s" using agree_piece [OF ag r(1)] by auto
  let ?h1 = "setc h r (cr\<lparr>valid := VAL_FREE\<rparr>)" and ?pc1 = "pc(r \<mapsto> (Free, s))"
  have rfl: "r \<noteq> fl G" using piece_not_fl [OF ag r(1)] .
  have ag1: "agree G ?h1 ?pc1" by (rule agree_put [OF ag rfl]) (use cr in simp_all)
  have ok1: "pieces_ok ?pc1 (blocks ?h1)" using replace_ok [OF ok r(1)] by simp
  have rF: "r \<notin> set F" using free_listD(2) [OF fr] r(1) by (auto simp: listed_def)
  have nx1: "nx ?h1 = nx h" using nx_Some [OF cr(1)] by (simp add: fun_upd_idem)
  have fr1: "free_list G ?h1 ?pc1 {r} F"
  proof -
    have "{a. listed ?pc1 {r} a} = {a. listed pc {} a}" using rF free_listD(2) [OF fr] unfolding listed_free by blast
    then show ?thesis using fr unfolding free_list_def nx1 by metis
  qed
  define F1 where "F1 = takeWhile (\<lambda>a. a < r) F"
  define F2 where "F2 = dropWhile (\<lambda>a. a < r) F"
  have F: "F = F1 @ F2" by (simp add: F1_def F2_def)
  have lt: "\<forall>a \<in> set F1. a < r" "\<forall>a \<in> set F2. r < a"
    using less_sorted_split [OF free_listD(1) [OF fr] rF] by (simp_all add: F1_def F2_def)
  note cells = list_cells [OF ok1 ag1 fr1]
  obtain cf where cf: "chunks ?h1 (fl G) = Some cf" by (rule agree_fl [OF ag1])
  have fp: "free_pos ?h1 r 0 (fl G) (nxt cf) =
      Some (last (butlast (0 # fl G # F1)), last (fl G # F1), hd (F2 @ [0]))"
    using free_pos_spec [OF free_listD(3) [OF fr1] cells(1), of r 0] nx_Some [OF cf] by (simp only: F1_def F2_def)
  have r1: "?pc1 r = Some (Free, s)" by simp
  obtain h2 pc2 F2' c where m: "merge_after ?h1 r (hd (F2 @ [0])) = Some (h2, Some (hd (F2' @ [0])))" "chunks h2 r = Some c"
      "agree G (setc h2 r (c\<lparr>nxt := hd (F2' @ [0])\<rparr>)) pc2" "open_list G (setc h2 r (c\<lparr>nxt := hd (F2' @ [0])\<rparr>)) pc2 r F1 F2'"
      "pieces_ok pc2 (blocks h2)" "piece_step\<^sup>*\<^sup>* (?pc1, blocks ?h1) (pc2, blocks h2)" "live pc2 = live ?pc1"
      "\<exists>t. pc2 r = Some (Free, t)" "blocks h2 = blocks ?h1" "bytes h2 = bytes ?h1" "zero_mallocs h2 = zero_mallocs ?h1"
    using merge_after_spec [OF ok1 ag1 r1 fr1 [unfolded F] lt] by blast
  obtain t where t: "pc2 r = Some (Free, t)" using m(8) by blast
  let ?h3 = "setc h2 r (c\<lparr>nxt := hd (F2' @ [0])\<rparr>)"
  have ok3: "pieces_ok pc2 (blocks ?h3)" using m(5) by simp
  obtain h' pc' where l: "free_link G ?h3 (last (butlast (0 # fl G # F1))) (last (fl G # F1)) (hd (F2' @ [0])) r = Some h'"
      "zero_mallocs h' = zero_mallocs ?h3" "rep G h' pc'" "piece_step\<^sup>*\<^sup>* (pc2, blocks ?h3) (pc', blocks h')"
      "live pc' = live pc2" "same_live ?h3 pc' (bytes h')"
    using free_link_spec [OF ok3 m(3,4) t] by blast
  have "free G h p = Some h'"
    unfolding free_def Let_def r_def [symmetric]
    using r(2) cr cf fp m(1,2) l(1) by (simp del: last.simps butlast.simps hd_append)
  moreover have "piece_step (pc, blocks h) (?pc1, blocks h)" using r(1) by (rule piece_step.Release)
  then have "piece_step\<^sup>*\<^sup>* (pc, blocks h) (pc', blocks h')"
    using m(6,9) l(4) by (simp add: converse_rtranclp_into_rtranclp rtranclp_trans)
  moreover have "live pc' = (live pc)(p := None)" using l(5) m(7) r(3) by (simp add: live_upd)
  moreover have "same_live h pc' (bytes h')" using l(6) m(10) by (simp add: same_live_def)
  moreover have "zero_mallocs h' = zero_mallocs h" using l(2) m(11) by simp
  ultimately show ?thesis using l(3) by (intro exI [of _ h'] exI [of _ pc'] conjI)
qed

text \<open>What is not allocated is not freed: a pointer that was freed before is ignored as long as its structure is still there.\<close>

lemma free_ignores:
  assumes "agree G h pc" "live pc p = None" "p = 0 \<or> 12 \<le> p \<and> chunks h (p - 12) \<noteq> None"
  shows "free G h p = Some h"
proof (cases "p = 0")
  case False
  then obtain c where c: "chunks h (p - 12) = Some c" "12 \<le> p" using assms(3) by auto
  have "valid c \<noteq> VAL_ALLOC"
  proof
    assume "valid c = VAL_ALLOC"
    then have "cell h (p - 12) = Some (VAL_ALLOC, csize c)" using c by (simp add: cell_def)
    then have "pc (p - 12) = Some (Alloc, csize c)" by (rule agreeD(2) [OF assms(1)])
    then show False using assms(2) c(2) live_at [of pc "p - 12"] by simp
  qed
  then show ?thesis using c False by (simp add: free_def)
qed (simp add: free_def)

end
