(* ===== verification/Realloc.thy ===== *)
theory Realloc
  imports MallocFree
begin

text \<open>\<open>realloc\<close>, \<open>calloc\<close> and the settings of the allocator.\<close>

section \<open>Moving and growing\<close>

lemma live_pos:
  assumes "pieces_ok pc bs" "live pc p = Some n"
  shows "p \<noteq> 0" "12 \<le> p"
  using assms(2) by (auto simp: live_Some)

lemma move_piece_spec:
  assumes rep: "rep G h pc" and os: "os_ok G" and n: "unat n < 2 ^ 31"
    and r: "live pc r = Some k0" and kk: "kk \<le> k0" "kk \<le> unat (malloc_round n) - 12"
  shows "\<exists>h' p. move_piece G h r n kk = Some (h', p) \<and> zero_mallocs h' = zero_mallocs h \<and>
    (if p = 0 then rep G h' pc \<and> blocks h' = blocks h \<and> bytes h' = bytes h
     else \<exists>pc' k. rep G h' pc' \<and> piece_step\<^sup>*\<^sup>* (pc, blocks h) (pc', blocks h') \<and> unat (malloc_round n) - 12 \<le> k \<and>
       live pc p = None \<and> live pc' = (live pc)(r := None, p \<mapsto> k) \<and> (\<forall>i < kk. bytes h' (p + i) = bytes h (r + i)) \<and>
       (\<forall>q l i. q \<noteq> r \<longrightarrow> live pc q = Some l \<longrightarrow> i < l \<longrightarrow> bytes h' (q + i) = bytes h (q + i)))"
proof -
  obtain h1 p where m: "malloc G h n = Some (h1, p)" "zero_mallocs h1 = zero_mallocs h"
    "if p = 0 then rep G h1 pc \<and> blocks h1 = blocks h \<and> bytes h1 = bytes h
     else \<exists>pc' k. rep G h1 pc' \<and> piece_step\<^sup>*\<^sup>* (pc, blocks h) (pc', blocks h1) \<and> unat (malloc_round n) - 12 \<le> k \<and>
       live pc p = None \<and> live pc' = (live pc)(p \<mapsto> k) \<and> same_live h pc (bytes h1) \<and>
       (zero_mallocs h \<longrightarrow> (\<forall>i < unat n. bytes h1 (p + i) = Some 0))"
    using malloc_spec [OF rep os n] by blast
  show ?thesis
  proof (cases "p = 0")
    case True
    then have "move_piece G h r n kk = Some (h1, 0)" using m(1) by (simp add: move_piece_def)
    then show ?thesis using m(2,3) True by (intro exI [of _ h1] exI [of _ 0]) simp
  next
    case False
    then obtain pc1 k where g: "rep G h1 pc1" "piece_step\<^sup>*\<^sup>* (pc, blocks h) (pc1, blocks h1)"
        "unat (malloc_round n) - 12 \<le> k" "live pc p = None" "live pc1 = (live pc)(p \<mapsto> k)" "same_live h pc (bytes h1)"
      using m(3) by auto
    have pr: "p \<noteq> r" using g(4) r by auto
    have ok1: "pieces_ok pc1 (blocks h1)" and ag1: "agree G h1 pc1" using g(1) by (auto simp: rep_def)
    have l: "live pc1 p = Some k" "live pc1 r = Some k0" using g(5) r pr by simp_all
    have dj: "disjnt_rng p k r k0" by (rule live_apart [OF ok1 l pr])
    have mp: "mapped (bytes h1) p kk" by (rule mapped_le [OF live_mapped [OF ok1 ag1 l(1)]]) (use kk(2) g(3) in simp)
    obtain xs where xs: "length xs = kk" "block (bytes h1) r xs"
      using mapped_block [OF mapped_le [OF live_mapped [OF ok1 ag1 l(2)] kk(1)]] by blast
    let ?m = "wr (bytes h1) p xs"
    have cp: "copy_up (bytes h1) p r kk = Some ?m"
      using copy_up_spec [OF xs(2), of p] mp xs(1) dj kk g(3) by (auto simp: up_ok_def disjnt_rng_def)
    let ?h1 = "store_bytes h1 p kk ?m"
    have "clear_of G pc1 p kk" by (rule live_clear [OF ok1 ag1 l(1)]) (use kk(2) g(3) in simp_all)
    then have "rep G ?h1 pc1" by (rule rep_store [OF g(1)]) (auto simp: wr_def)
    then obtain h' pc' where f: "free G ?h1 r = Some h'" "zero_mallocs h' = zero_mallocs h1" "rep G h' pc'"
        "piece_step\<^sup>*\<^sup>* (pc1, blocks h1) (pc', blocks h')" "live pc' = (live pc1)(r := None)"
        "same_live ?h1 pc' (bytes h')"
      using free_spec [of G ?h1 pc1 r k0] l(2) by auto
    have "move_piece G h r n kk = Some (h', p)" using m(1) False cp f(1) by (simp add: move_piece_def)
    moreover have "live pc' = (live pc)(r := None, p \<mapsto> k)" using f(5) g(5) pr by auto
    moreover have "\<forall>i < kk. bytes h' (p + i) = bytes h (r + i)"
    proof (intro allI impI)
      fix i assume i: "i < kk"
      have "live pc' p = Some k" using f(5) l(1) pr by simp
      then have "bytes h' (p + i) = ?m (p + i)" using f(6) i kk(2) g(3) by (simp add: same_live_def)
      also have "\<dots> = Some (xs ! i)" using i xs(1) by (intro wr_apply_in) simp
      also have "\<dots> = bytes h1 (r + i)" using block_nth [OF xs(2)] i xs(1) by simp
      also have "\<dots> = bytes h (r + i)" using g(6) r i kk(1) by (simp add: same_live_def)
      finally show "bytes h' (p + i) = bytes h (r + i)" .
    qed
    moreover have "bytes h' (q + i) = bytes h (q + i)" if q: "q \<noteq> r" "live pc q = Some t" "i < t" for q t i
    proof -
      have qp: "q \<noteq> p" using q(2) g(4) by auto
      then have "live pc1 q = Some t" using q(2) g(5) by simp
      then have "disjnt_rng q t p k" "live pc' q = Some t" using live_apart [OF ok1 _ l(1) qp] f(5) q(1) by simp_all
      then have "bytes h' (q + i) = ?m (q + i)" using f(6) q(3) by (simp add: same_live_def)
      also have "\<dots> = bytes h1 (q + i)"
        using \<open>disjnt_rng q t p k\<close> q(3) xs(1) kk(2) g(3) by (intro wr_apply_out) (auto simp: disjnt_rng_def)
      also have "\<dots> = bytes h (q + i)" using g(6) q(2,3) by (simp add: same_live_def)
      finally show ?thesis .
    qed
    moreover have "piece_step\<^sup>*\<^sup>* (pc, blocks h) (pc', blocks h')" using g(2) f(4) by (rule rtranclp_trans)
    ultimately show ?thesis using False m(2) f(2,3) g(3,4)
      by (intro exI [of _ h'] exI [of _ p]) (auto intro!: exI [of _ pc'] exI [of _ k])
  qed
qed

lemma realloc_pos_spec:
  "path (nx h) q F 0 \<Longrightarrow> \<forall>a \<in> set F. a \<noteq> 0 \<and> chunks h a \<noteq> None \<Longrightarrow>
    realloc_pos h p q (nx h q) = Some (last (q # takeWhile (\<lambda>a. a < p) F), hd (dropWhile (\<lambda>a. a < p) F @ [0]))"
proof (induction F arbitrary: q)
  case Nil
  then show ?case by (subst realloc_pos.simps) simp
next
  case (Cons t F)
  obtain c where c: "chunks h t = Some c" "t \<noteq> 0" using Cons.prems(2) by auto
  have q: "nx h q = t" "path (nx h) t F 0" using Cons.prems(1) by simp_all
  have "realloc_pos h p t (nx h t) = Some (last (t # takeWhile (\<lambda>a. a < p) F), hd (dropWhile (\<lambda>a. a < p) F @ [0]))"
    by (rule Cons.IH [OF q(2)]) (use Cons.prems(2) in simp)
  then show ?case using c q(1) by (subst realloc_pos.simps) (simp add: nx_Some)
qed

text \<open>Growing in place: the free piece \<open>t\<close> right behind the allocated piece \<open>p\<close> is taken out of the list.\<close>

lemma grow_in_place:
  assumes ok: "pieces_ok pc (blocks h)" and ag: "agree G h pc" and fr: "free_list G h pc {} (F1 @ t # F2)"
    and p: "pc p = Some (Alloc, s)" and t: "pc t = Some (Free, u)" "p + s = t"
    and c: "chunks h p = Some cp" "chunks h (last (fl G # F1)) = Some cq" "chunks h t = Some ct"
  defines "h' \<equiv> setc (setc (setc h p (cp\<lparr>csize := s + u\<rparr>)) (last (fl G # F1)) (cq\<lparr>nxt := nxt ct\<rparr>)) t (ct\<lparr>csize := 0, nxt := 0\<rparr>)"
  shows "rep G h' (pc(p \<mapsto> (Alloc, s + u), t := None))"
    and "piece_step (pc, blocks h) (pc(p \<mapsto> (Alloc, s + u), t := None), blocks h')"
    and "live (pc(p \<mapsto> (Alloc, s + u), t := None)) = (live pc)(p + 12 \<mapsto> s + u - 12)"
proof -
  let ?q = "last (fl G # F1)" and ?pc = "pc(p \<mapsto> (Alloc, s + u), t := None)"
  note cells = list_cells [OF ok ag fr]
  have v: "valid cp = VAL_ALLOC" "valid ct = VAL_FREE"
    using agreeD(1) [OF ag p] agreeD(1) [OF ag t(1)] c by (simp_all add: cell_def)
  have pF: "p \<notin> set (F1 @ t # F2)" "p \<noteq> fl G" using free_listD(2) [OF fr] p piece_not_fl [OF ag p] by (auto simp: listed_def)
  then have qp: "?q \<noteq> p" using last_in_set [of "fl G # F1"] by auto
  have qt: "?q \<noteq> t" using cells(2) last_in_set [of "fl G # F1"] by auto
  have tp: "t \<noteq> p" using p t(1) by auto
  show "piece_step (pc, blocks h) (?pc, blocks h')"
    using piece_step.Join [of pc p Alloc s u "blocks h"] p t by (simp add: h'_def)
  show "live ?pc = (live pc)(p + 12 \<mapsto> s + u - 12)"
    using live_not_alloc [of pc t] t(1) tp by (auto simp: live_upd fun_upd_idem)
  have "agree G (setc h ?q (cq\<lparr>nxt := nxt ct\<rparr>)) pc" by (rule agree_link [OF ag c(2)])
  then have "agree G (setc (setc (setc h ?q (cq\<lparr>nxt := nxt ct\<rparr>)) p (cp\<lparr>csize := s + u\<rparr>)) t (ct\<lparr>csize := 0, nxt := 0\<rparr>)) ?pc"
    by (intro agree_del agree_put) (use v pF piece_not_fl [OF ag t(1)] in simp_all)
  moreover have "setc (setc h ?q (cq\<lparr>nxt := nxt ct\<rparr>)) p (cp\<lparr>csize := s + u\<rparr>) =
      setc (setc h p (cp\<lparr>csize := s + u\<rparr>)) ?q (cq\<lparr>nxt := nxt ct\<rparr>)"
    unfolding setc_def using qp by (simp add: fun_upd_twist del: last.simps)
  ultimately have "agree G h' ?pc" by (simp only: h'_def)
  moreover have "pieces_ok ?pc (blocks h')" using join_ok [OF ok p _] t by (simp add: h'_def)
  moreover have "free_list G h' ?pc {} (F1 @ F2)"
  proof -
    have "path ((nx h)(?q := nx h t)) (fl G) (F1 @ F2) 0" by (rule path_remove [OF free_listD(3) [OF fr] cells(2)])
    then have "path ((nx h)(?q := nx h t, t := 0)) (fl G) (F1 @ F2) 0" using cells(2) by (subst path_other) auto
    moreover have "nx h' = (nx h)(?q := nx h t, t := 0)"
      using qp tp c nx_Some [OF c(1)] nx_Some [OF c(3)] by (simp add: h'_def fun_upd_idem del: last.simps)
    ultimately have "path (nx h') (fl G) (F1 @ F2) 0" by simp
    moreover have "listed ?pc {} a \<longleftrightarrow> listed pc {} a \<and> a \<noteq> t" for a using p tp by (auto simp: listed_def)
    then have "set (F1 @ F2) = {a. listed ?pc {} a}" using free_listD(2) [OF fr] cells(2) by auto
    moreover have "sorted_wrt (<) (F1 @ F2)" using free_listD(1) [OF fr] by (simp add: sorted_wrt_append)
    ultimately show ?thesis by (simp add: free_list_def)
  qed
  ultimately show "rep G h' ?pc" by (auto simp: rep_def)
qed


section \<open>\<open>realloc\<close>\<close>

definition realloc_ok :: "gemdos \<Rightarrow> heap \<Rightarrow> pieces \<Rightarrow> nat \<Rightarrow> nat \<Rightarrow> nat \<Rightarrow> heap \<Rightarrow> nat \<Rightarrow> bool" where
  "realloc_ok G h pc r k0 n h' p \<longleftrightarrow>
    (if p = 0 then rep G h' pc \<and> blocks h' = blocks h \<and> bytes h' = bytes h
     else \<exists>pc' k. rep G h' pc' \<and> piece_step\<^sup>*\<^sup>* (pc, blocks h) (pc', blocks h') \<and> n \<le> k \<and>
       (p = r \<or> live pc p = None) \<and> live pc' = (live pc)(r := None, p \<mapsto> k) \<and> (\<forall>i < min k0 n. bytes h' (p + i) = bytes h (r + i)) \<and>
       (\<forall>q l i. q \<noteq> r \<longrightarrow> live pc q = Some l \<longrightarrow> i < l \<longrightarrow> bytes h' (q + i) = bytes h (q + i)))"

lemma realloc_stay:
  assumes "rep G h' pc" "blocks h' = blocks h" "bytes h' = bytes h" "live pc r = Some k0" "n \<le> k0" "r \<noteq> 0"
  shows "realloc_ok G h pc r k0 n h' r"
proof -
  have "live pc = (live pc)(r := None, r \<mapsto> k0)" using assms(4) by (simp add: fun_upd_idem)
  then show ?thesis unfolding realloc_ok_def using assms
    by (auto intro!: exI [of _ pc] exI [of _ k0])
qed

lemma realloc_move:
  assumes rep: "rep G h pc" and os: "os_ok G" and n: "unat n < 2 ^ 31"
    and r: "live pc r = Some k0" and kk: "kk \<le> k0" "kk \<le> unat (malloc_round n) - 12" "min k0 (unat n) \<le> kk"
  shows "\<exists>h' p. move_piece G h r n kk = Some (h', p) \<and> zero_mallocs h' = zero_mallocs h \<and>
    realloc_ok G h pc r k0 (unat n) h' p"
proof -
  have N: "unat n \<le> unat (malloc_round n) - 12" using malloc_round_val [OF n] by linarith
  obtain h' p where m: "move_piece G h r n kk = Some (h', p)" "zero_mallocs h' = zero_mallocs h"
    "if p = 0 then rep G h' pc \<and> blocks h' = blocks h \<and> bytes h' = bytes h
     else \<exists>pc' k. rep G h' pc' \<and> piece_step\<^sup>*\<^sup>* (pc, blocks h) (pc', blocks h') \<and> unat (malloc_round n) - 12 \<le> k \<and>
       live pc p = None \<and> live pc' = (live pc)(r := None, p \<mapsto> k) \<and> (\<forall>i < kk. bytes h' (p + i) = bytes h (r + i)) \<and>
       (\<forall>q l i. q \<noteq> r \<longrightarrow> live pc q = Some l \<longrightarrow> i < l \<longrightarrow> bytes h' (q + i) = bytes h (q + i))"
    using move_piece_spec [OF rep os n r kk(1,2)] by blast
  have "realloc_ok G h pc r k0 (unat n) h' p"
  proof (cases "p = 0")
    case False
    then obtain pc' k where g: "rep G h' pc'" "piece_step\<^sup>*\<^sup>* (pc, blocks h) (pc', blocks h')" "unat (malloc_round n) - 12 \<le> k"
      "live pc p = None" "live pc' = (live pc)(r := None, p \<mapsto> k)" "\<forall>i < kk. bytes h' (p + i) = bytes h (r + i)"
      "\<forall>q l i. q \<noteq> r \<longrightarrow> live pc q = Some l \<longrightarrow> i < l \<longrightarrow> bytes h' (q + i) = bytes h (q + i)" using m(3) by auto
    have "unat n \<le> k" "\<forall>i < min k0 (unat n). bytes h' (p + i) = bytes h (r + i)" using N g(3,6) kk(3) by auto
    then show ?thesis using False g unfolding realloc_ok_def by auto
  qed (use m(3) in \<open>simp add: realloc_ok_def\<close>)
  then show ?thesis using m(1,2) by blast
qed

lemma realloc_spec:
  assumes rep: "rep G h pc" and os: "os_ok G" and n: "unat n < 2 ^ 31" "n \<noteq> 0" and r: "live pc r = Some k0"
  shows "\<exists>h' p. realloc G h r n = Some (h', p) \<and> zero_mallocs h' = zero_mallocs h \<and> realloc_ok G h pc r k0 (unat n) h' p"
proof -
  from rep obtain F where ok: "pieces_ok pc (blocks h)" and ag: "agree G h pc" and fr: "free_list G h pc {} F"
    by (auto simp: rep_def)
  obtain s where s: "12 \<le> r" "pc (r - 12) = Some (Alloc, s)" "k0 = s - 12" using r by (auto simp: live_Some)
  define p where "p = r - 12"
  have p: "pc p = Some (Alloc, s)" "r = p + 12" "r \<noteq> 0" using s by (simp_all add: p_def)
  obtain cp where cp: "chunks h p = Some cp" "csize cp = s" using agree_piece [OF ag p(1)] by auto
  let ?n = "malloc_round n"
  have N: "unat n + 12 \<le> unat ?n" "unat ?n \<le> unat n + 19" using malloc_round_val [OF n(1)] by linarith+
  have u24: "unat (?n + 24) = unat ?n + 24" using N n(1) by (simp add: unat_word_ariths)
  have s12: "12 \<le> s" using pieces_okD(4) [OF ok p(1)] .
  have re: "realloc G h r n =
      (if s > unat ?n + 24 then do { (h, newr) \<leftarrow> move_piece G h r n (unat n); Some (h, if newr \<noteq> 0 then newr else r) }
       else if s < unat ?n
       then do { cf \<leftarrow> chunks h (fl G);
                 (q, t) \<leftarrow> realloc_pos h p (fl G) (nxt cf);
                 ct \<leftarrow> (if t \<noteq> 0 then map_option Some (chunks h t) else Some None);
                 (case ct of
                    Some ct \<Rightarrow>
                      if p + s \<ge> t \<and> s + csize ct \<ge> unat ?n \<and> valid ct \<noteq> VAL_BORDER
                      then do { h \<leftarrow> upd h p (\<lambda>c. c\<lparr>csize := csize c + csize ct\<rparr>);
                                h \<leftarrow> upd h q (\<lambda>c. c\<lparr>nxt := nxt ct\<rparr>);
                                h \<leftarrow> upd h t (\<lambda>c. c\<lparr>csize := 0, nxt := 0\<rparr>);
                                Some (h, r) }
                      else move_piece G h r n (s - 12)
                  | None \<Rightarrow> move_piece G h r n (s - 12)) }
       else Some (h, r))"
    unfolding realloc_def Let_def p_def [symmetric]
    by (simp only: cp n(2) p(3) if_False u24 Option.bind.simps)
  have move: "?thesis" if "realloc G h r n = move_piece G h r n (s - 12)" "s < unat ?n"
    unfolding that(1) by (rule realloc_move [OF rep os n(1) r]) (use that(2) s(3) in auto)
  consider "s > unat ?n + 24" | "s < unat ?n" | "unat ?n \<le> s" "s \<le> unat ?n + 24" by linarith
  then show ?thesis
  proof cases
    case 1
    have "unat n \<le> k0" using 1 N(1) s(3) by simp
    then obtain h' q where m: "move_piece G h r n (unat n) = Some (h', q)" "zero_mallocs h' = zero_mallocs h"
        "realloc_ok G h pc r k0 (unat n) h' q"
      using realloc_move [OF rep os n(1) r] N(1) by fastforce
    have "realloc_ok G h pc r k0 (unat n) h' (if q \<noteq> 0 then q else r)"
    proof (cases "q = 0")
      case True
      then have "realloc_ok G h pc r k0 (unat n) h' r"
        using m(3) by (intro realloc_stay [OF _ _ _ r \<open>unat n \<le> k0\<close> p(3)]) (simp_all add: realloc_ok_def)
      then show ?thesis using True by simp
    qed (use m(3) in simp)
    moreover have "realloc G h r n = Some (h', if q \<noteq> 0 then q else r)" using 1 m(1) by (simp add: re)
    ultimately show ?thesis using m(2) by blast
  next
    case 3
    then have "realloc G h r n = Some (h, r)" by (simp add: re)
    moreover have "realloc_ok G h pc r k0 (unat n) h r"
      by (rule realloc_stay [OF rep refl refl r _ p(3)]) (use 3 N(1) s(3) in simp)
    ultimately show ?thesis by blast
  next
    case 2
    define F1 where "F1 = takeWhile (\<lambda>a. a < p) F"
    define F2 where "F2 = dropWhile (\<lambda>a. a < p) F"
    let ?q = "last (fl G # F1)" and ?t = "hd (F2 @ [0])"
    note cells = list_cells(1) [OF ok ag fr]
    obtain cf where cf: "chunks h (fl G) = Some cf" by (rule agree_fl [OF ag])
    have rp: "realloc_pos h p (fl G) (nxt cf) = Some (?q, ?t)"
      using realloc_pos_spec [OF free_listD(3) [OF fr] cells, of p] nx_Some [OF cf] by (simp only: F1_def F2_def)
    have F: "F = F1 @ F2" by (simp add: F1_def F2_def)
    show ?thesis
    proof (cases F2)
      case Nil
      then have "realloc G h r n = move_piece G h r n (s - 12)" using 2 cf rp by (simp add: re del: last.simps)
      then show ?thesis using 2 by (rule move)
    next
      case (Cons t F3)
      then have tF: "t \<in> set F" using F by simp
      obtain ct where ct: "chunks h t = Some ct" "t \<noteq> 0" using cells tF by auto
      have "listed pc {} t" using tF free_listD(2) [OF fr] by blast
      then obtain k u where k: "pc t = Some (k, u)" "k \<noteq> Alloc" by (auto simp: listed_def)
      have kc: "valid ct = kval k" "csize ct = u" using agreeD(1) [OF ag k(1)] ct by (simp_all add: cell_def)
      have "\<not> t < p" by (metis Cons F2_def hd_dropWhile list.sel(1) list.distinct(1))
      then have pt: "p < t" using k p(1) by (cases "t = p") auto
      have r': "realloc G h r n =
          (if p + s \<ge> t \<and> s + u \<ge> unat ?n \<and> valid ct \<noteq> VAL_BORDER
           then do { h \<leftarrow> upd h p (\<lambda>c. c\<lparr>csize := csize c + csize ct\<rparr>);
                     h \<leftarrow> upd h ?q (\<lambda>c. c\<lparr>nxt := nxt ct\<rparr>);
                     h \<leftarrow> upd h t (\<lambda>c. c\<lparr>csize := 0, nxt := 0\<rparr>);
                     Some (h, r) }
           else move_piece G h r n (s - 12))"
        using 2 cf rp ct Cons kc(2) by (simp add: re del: last.simps)
      show ?thesis
      proof (cases "p + s \<ge> t \<and> s + u \<ge> unat ?n \<and> valid ct \<noteq> VAL_BORDER")
        case False
        then have "realloc G h r n = move_piece G h r n (s - 12)" using r' by (simp only: if_False)
        then show ?thesis using 2 by (rule move)
      next
        case True
        have fr': "free_list G h pc {} (F1 @ t # F3)" using fr F Cons by simp
        have kF: "pc t = Some (Free, u)" using k True kc(1) by (cases k) simp_all
        have adj: "p + s = t" using next_piece [OF ok p(1) kF pt] True by simp
        have "\<forall>a \<in> set F1. a \<noteq> 0 \<and> chunks h a \<noteq> None" using cells F by simp
        then obtain cq where cq: "chunks h ?q = Some cq" using before_cell [OF ag] by blast
        note g = grow_in_place [OF ok ag fr' p(1) kF adj cp(1) cq ct(1)]
        let ?h' = "setc (setc (setc h p (cp\<lparr>csize := s + u\<rparr>)) ?q (cq\<lparr>nxt := nxt ct\<rparr>)) t (ct\<lparr>csize := 0, nxt := 0\<rparr>)"
        have dist: "distinct (fl G # F1 @ t # F3)" using list_cells(2) [OF ok ag fr'] .
        have "\<not> listed pc {} p" using p(1) by (simp add: listed_def)
        then have "p \<notin> set (F1 @ t # F3)" using free_listD(2) [OF fr'] by blast
        then have "p \<notin> set (fl G # F1)" using piece_not_fl [OF ag p(1)] by auto
        then have "?q \<noteq> p" "?q \<noteq> t" using last_in_set [of "fl G # F1"] dist by auto
        then have "realloc G h r n = Some (?h', r)"
          using r' True cp cq ct(1) kc(2) pt by (simp del: last.simps)
        moreover have "realloc_ok G h pc r k0 (unat n) ?h' r"
        proof -
          have "unat n \<le> s + u - 12" using True N(1) by linarith
          moreover have "piece_step\<^sup>*\<^sup>* (pc, blocks h) (pc(p \<mapsto> (Alloc, s + u), t := None), blocks ?h')"
            using g(2) by (rule r_into_rtranclp)
          moreover have "live (pc(p \<mapsto> (Alloc, s + u), t := None)) = (live pc)(r := None, r \<mapsto> s + u - 12)"
            using g(3) p(2) by simp
          ultimately show ?thesis using g(1) p(3) unfolding realloc_ok_def by auto
        qed
        ultimately show ?thesis by (intro exI conjI) simp_all
      qed
    qed
  qed
qed


section \<open>\<open>calloc\<close>, the initial state and the settings\<close>

lemma calloc_spec:
  assumes rep: "rep G h pc" and os: "os_ok G" and n: "unat n * unat sz < 2 ^ 31"
  shows "\<exists>h' p. calloc G h n sz = Some (h', p) \<and>
    (if p = 0 then rep G h' pc \<and> bytes h' = bytes h
     else \<exists>pc' k. rep G h' pc' \<and> piece_step\<^sup>*\<^sup>* (pc, blocks h) (pc', blocks h') \<and> unat n * unat sz \<le> k \<and> live pc p = None \<and>
       live pc' = (live pc)(p \<mapsto> k) \<and> same_live h pc (bytes h') \<and> block (bytes h') p (replicate (unat n * unat sz) 0))"
proof -
  let ?t = "unat n * unat sz"
  have t: "unat (n * sz) = ?t" using n by (simp add: unat_word_ariths)
  then have lt: "unat (n * sz) < 2 ^ 31" using n by simp
  obtain h1 p where m: "malloc G h (n * sz) = Some (h1, p)"
    "if p = 0 then rep G h1 pc \<and> blocks h1 = blocks h \<and> bytes h1 = bytes h
     else \<exists>pc' k. rep G h1 pc' \<and> piece_step\<^sup>*\<^sup>* (pc, blocks h) (pc', blocks h1) \<and> unat (malloc_round (n * sz)) - 12 \<le> k \<and>
       live pc p = None \<and> live pc' = (live pc)(p \<mapsto> k) \<and> same_live h pc (bytes h1) \<and>
       (zero_mallocs h \<longrightarrow> (\<forall>i < unat (n * sz). bytes h1 (p + i) = Some 0))"
    using malloc_spec [OF rep os lt] by blast
  show ?thesis
  proof (cases "p = 0")
    case True
    then have "calloc G h n sz = Some (h1, 0)" using m(1) by (simp add: calloc_def)
    then show ?thesis using m(2) True by (intro exI [of _ h1] exI [of _ 0]) simp
  next
    case False
    then obtain pc1 k where g: "rep G h1 pc1" "piece_step\<^sup>*\<^sup>* (pc, blocks h) (pc1, blocks h1)"
        "unat (malloc_round (n * sz)) - 12 \<le> k" "live pc p = None" "live pc1 = (live pc)(p \<mapsto> k)" "same_live h pc (bytes h1)"
      using m(2) by auto
    have tk: "?t \<le> k" using malloc_round_val [OF lt] g(3) t by linarith
    have ok1: "pieces_ok pc1 (blocks h1)" and ag1: "agree G h1 pc1" using g(1) by (auto simp: rep_def)
    have l: "live pc1 p = Some k" using g(5) by simp
    have mp: "mapped (bytes h1) p ?t" by (rule mapped_le [OF live_mapped [OF ok1 ag1 l] tk])
    let ?m = "wr (bytes h1) p (replicate ?t 0)"
    let ?h1 = "store_bytes h1 p ?t ?m"
    have "calloc G h n sz = Some (?h1, p)"
      using m(1) False fill_spec [OF mp] t by (simp add: calloc_def)
    moreover
    have "clear_of G pc1 p ?t" by (rule live_clear [OF ok1 ag1 l]) (use tk in simp_all)
    then have "rep G ?h1 pc1" by (rule rep_store [OF g(1)]) (auto simp: wr_def)
    moreover have "same_live h pc ?m"
      unfolding same_live_def
    proof (intro allI impI)
      fix q l' i assume q: "live pc q = Some l'" "i < l'"
      then have "q \<noteq> p" "live pc1 q = Some l'" using g(4,5) by auto
      then have "disjnt_rng q l' p k" using live_apart [OF ok1 _ l] by blast
      then have "?m (q + i) = bytes h1 (q + i)" using q(2) tk by (intro wr_apply_out) (auto simp: disjnt_rng_def)
      then show "?m (q + i) = bytes h (q + i)" using g(6) q by (simp add: same_live_def)
    qed
    ultimately show ?thesis using False g(2,4,5) tk
      by (intro exI [of _ ?h1] exI [of _ p]) (auto intro!: exI [of _ pc1] exI [of _ k])
  qed
qed

lemma rep_init: "rep G (init_heap G) Map.empty"
proof -
  have "pieces_ok Map.empty []" by (simp add: pieces_ok_def blocks_ok_def total_def)
  moreover have "free_list G (init_heap G) Map.empty {} []" by (simp add: free_list_def listed_def init_heap_def nx_def)
  moreover have "agree G (init_heap G) Map.empty"
    by (auto simp: agree_def init_heap_def cell_def settings_ok_def)
  moreover have "blocks (init_heap G) = []" by (simp add: init_heap_def)
  ultimately show ?thesis by (auto simp: rep_def)
qed

lemma settings_rep:
  "rep G h pc \<Longrightarrow> unat siz \<le> 2 ^ 30 \<Longrightarrow> rep G (malloc_chunk_size h siz) pc"
  "rep G h pc \<Longrightarrow> rep G (malloczero h yes) pc"
  by (simp_all add: rep_def agree_def free_list_def nx_def [abs_def] cell_def settings_ok_def malloc_chunk_size_def malloczero_def)

end
