(* ===== verification/MallocClient.thy ===== *)
theory MallocClient
  imports Realloc
begin

text \<open>
  What a client of an allocator may rely on. The locale \<open>allocator\<close> states the contract of \<open>malloc\<close>,
  \<open>realloc\<close> and \<open>free\<close>; its consequence, proved once, is that a client which only writes into the objects it
  holds finds in each of them what it wrote there last. The interpretation shows that the
  library's allocator fulfils the contract.
\<close>

section \<open>Clients\<close>

text \<open>The objects a client holds: the size asked for and the bytes written so far.\<close>

type_synonym store = "nat \<rightharpoonup> nat \<times> (nat \<rightharpoonup> byte)"

inductive client_step ::
    "('h \<Rightarrow> u32 \<Rightarrow> ('h \<times> nat) option) \<Rightarrow> ('h \<Rightarrow> nat \<Rightarrow> 'h option) \<Rightarrow> ('h \<Rightarrow> nat \<Rightarrow> u32 \<Rightarrow> ('h \<times> nat) option) \<Rightarrow>
      ('h \<Rightarrow> nat \<Rightarrow> byte \<Rightarrow> 'h) \<Rightarrow> nat \<Rightarrow> 'h \<times> store \<Rightarrow> 'h \<times> store \<Rightarrow> bool"
  for alloc release resize poke limit where
  New: "unat n < limit \<Longrightarrow> alloc h n = Some (h', p) \<Longrightarrow> p \<noteq> 0 \<Longrightarrow>
    client_step alloc release resize poke limit (h, S) (h', S(p \<mapsto> (unat n, Map.empty)))"
| New_fails: "unat n < limit \<Longrightarrow> alloc h n = Some (h', 0) \<Longrightarrow> client_step alloc release resize poke limit (h, S) (h', S)"
| Dispose: "S p \<noteq> None \<Longrightarrow> release h p = Some h' \<Longrightarrow> client_step alloc release resize poke limit (h, S) (h', S(p := None))"
| Resize: "S p = Some (k, f) \<Longrightarrow> unat n < limit \<Longrightarrow> n \<noteq> 0 \<Longrightarrow> resize h p n = Some (h', q) \<Longrightarrow> q \<noteq> 0 \<Longrightarrow>
    client_step alloc release resize poke limit (h, S) (h', S(p := None, q \<mapsto> (unat n, f |` {..<min k (unat n)})))"
| Resize_fails: "S p \<noteq> None \<Longrightarrow> unat n < limit \<Longrightarrow> n \<noteq> 0 \<Longrightarrow> resize h p n = Some (h', 0) \<Longrightarrow>
    client_step alloc release resize poke limit (h, S) (h', S)"
| Poke: "S p = Some (n, f) \<Longrightarrow> i < n \<Longrightarrow>
    client_step alloc release resize poke limit (h, S) (poke h (p + i) b, S(p \<mapsto> (n, f(i \<mapsto> b))))"

section \<open>The contract\<close>

locale allocator =
  fixes inv :: "'h \<Rightarrow> bool" and held :: "'h \<Rightarrow> nat \<rightharpoonup> nat" and mem :: "'h \<Rightarrow> bmem"
    and alloc :: "'h \<Rightarrow> u32 \<Rightarrow> ('h \<times> nat) option" and release :: "'h \<Rightarrow> nat \<Rightarrow> 'h option"
    and resize :: "'h \<Rightarrow> nat \<Rightarrow> u32 \<Rightarrow> ('h \<times> nat) option" and poke :: "'h \<Rightarrow> nat \<Rightarrow> byte \<Rightarrow> 'h" and limit :: nat
  assumes held_apart: "inv h \<Longrightarrow> held h p = Some l \<Longrightarrow> held h q = Some k \<Longrightarrow> p \<noteq> q \<Longrightarrow> disjnt_rng p l q k"
    and alloc_ok: "inv h \<Longrightarrow> unat n < limit \<Longrightarrow>
      \<exists>h' p. alloc h n = Some (h', p) \<and> inv h' \<and>
        (if p = 0 then held h' = held h else held h p = None \<and> (\<exists>k \<ge> unat n. held h' = (held h)(p \<mapsto> k))) \<and>
        (\<forall>q l i. held h q = Some l \<longrightarrow> i < l \<longrightarrow> mem h' (q + i) = mem h (q + i))"
    and release_ok: "inv h \<Longrightarrow> held h p \<noteq> None \<Longrightarrow>
      \<exists>h'. release h p = Some h' \<and> inv h' \<and> held h' = (held h)(p := None) \<and>
        (\<forall>q l i. held h' q = Some l \<longrightarrow> i < l \<longrightarrow> mem h' (q + i) = mem h (q + i))"
    and resize_ok: "inv h \<Longrightarrow> unat n < limit \<Longrightarrow> n \<noteq> 0 \<Longrightarrow> held h p = Some k0 \<Longrightarrow>
      \<exists>h' q. resize h p n = Some (h', q) \<and> inv h' \<and>
        (if q = 0 then held h' = held h \<and> mem h' = mem h
         else (\<exists>k \<ge> unat n. held h' = (held h)(p := None, q \<mapsto> k)) \<and>
           (\<forall>i < min k0 (unat n). mem h' (q + i) = mem h (p + i)) \<and> (q = p \<or> held h q = None) \<and>
           (\<forall>r l i. r \<noteq> p \<longrightarrow> held h r = Some l \<longrightarrow> i < l \<longrightarrow> mem h' (r + i) = mem h (r + i)))"
    and poke_ok: "inv h \<Longrightarrow> held h p = Some k \<Longrightarrow> i < k \<Longrightarrow>
      inv (poke h (p + i) b) \<and> held (poke h (p + i) b) = held h \<and> mem (poke h (p + i) b) = (mem h)(p + i \<mapsto> b)"
begin

definition shows_store :: "'h \<Rightarrow> store \<Rightarrow> bool" where
  "shows_store h S \<longleftrightarrow> inv h \<and>
    (\<forall>p n f. S p = Some (n, f) \<longrightarrow> (\<exists>k. held h p = Some k \<and> n \<le> k) \<and>
      (\<forall>i b. f i = Some b \<longrightarrow> i < n \<and> mem h (p + i) = Some b))"

lemma shows_storeD:
  assumes "shows_store h S" "S p = Some (n, f)"
  shows "inv h" "\<exists>k. held h p = Some k \<and> n \<le> k" "f i = Some b \<Longrightarrow> i < n \<and> mem h (p + i) = Some b"
  using assms by (auto simp: shows_store_def)

lemma new_shows:
  assumes s: "shows_store h S" and n: "unat n < limit" and a: "alloc h n = Some (h', p)"
  shows "shows_store h' (if p = 0 then S else S(p \<mapsto> (unat n, Map.empty)))"
proof -
  have i: "inv h" using s by (simp add: shows_store_def)
  have h': "inv h'" "if p = 0 then held h' = held h else held h p = None \<and> (\<exists>k \<ge> unat n. held h' = (held h)(p \<mapsto> k))"
      "\<forall>q l i. held h q = Some l \<longrightarrow> i < l \<longrightarrow> mem h' (q + i) = mem h (q + i)"
    using alloc_ok [OF i n] a by auto
  have old: "(\<exists>k. held h' q = Some k \<and> l \<le> k) \<and> (\<forall>i b. f i = Some b \<longrightarrow> i < l \<and> mem h' (q + i) = Some b)"
    if q: "S q = Some (l, f)" for q l f
  proof -
    obtain k where k: "held h q = Some k" "l \<le> k" using shows_storeD(2) [OF s q] by blast
    then have "held h' q = Some k" using h'(2) by (auto split: if_splits)
    then show ?thesis using k h'(3) shows_storeD(3) [OF s q] by fastforce
  qed
  show ?thesis using h'(1,2) old by (auto simp: shows_store_def)
qed

lemma dispose_shows:
  assumes s: "shows_store h S" and p: "S p \<noteq> None" and r: "release h p = Some h'"
  shows "shows_store h' (S(p := None))"
proof -
  obtain n f where nf: "S p = Some (n, f)" using p by auto
  have i: "inv h" using s by (simp add: shows_store_def)
  have "held h p \<noteq> None" using shows_storeD(2) [OF s nf] by auto
  then have h': "inv h'" "held h' = (held h)(p := None)"
      "\<forall>q l i. held h' q = Some l \<longrightarrow> i < l \<longrightarrow> mem h' (q + i) = mem h (q + i)"
    using release_ok [OF i, of p] r by auto
  have "(\<exists>k. held h' q = Some k \<and> l \<le> k) \<and> (\<forall>i b. f i = Some b \<longrightarrow> i < l \<and> mem h' (q + i) = Some b)"
    if q: "S q = Some (l, f)" "q \<noteq> p" for q l f
  proof -
    obtain k where k: "held h q = Some k" "l \<le> k" using shows_storeD(2) [OF s q(1)] by blast
    then have "held h' q = Some k" using h'(2) q(2) by simp
    then show ?thesis using k h'(3) shows_storeD(3) [OF s q(1)] by fastforce
  qed
  then show ?thesis using h'(1) by (auto simp: shows_store_def)
qed

lemma resize_shows:
  assumes s: "shows_store h S" and p: "S p = Some (k, f)" and n: "unat n < limit" "n \<noteq> 0" and r: "resize h p n = Some (h', q)"
  shows "shows_store h' (if q = 0 then S else S(p := None, q \<mapsto> (unat n, f |` {..<min k (unat n)})))"
proof -
  have i: "inv h" using s by (simp add: shows_store_def)
  obtain k0 where k0: "held h p = Some k0" "k \<le> k0" using shows_storeD(2) [OF s p] by blast
  have h': "inv h'"
      "if q = 0 then held h' = held h \<and> mem h' = mem h
       else (\<exists>k \<ge> unat n. held h' = (held h)(p := None, q \<mapsto> k)) \<and>
         (\<forall>i < min k0 (unat n). mem h' (q + i) = mem h (p + i)) \<and> (q = p \<or> held h q = None) \<and>
         (\<forall>r l i. r \<noteq> p \<longrightarrow> held h r = Some l \<longrightarrow> i < l \<longrightarrow> mem h' (r + i) = mem h (r + i))"
    using resize_ok [OF i n k0(1)] r by auto
  show ?thesis
  proof (cases "q = 0")
    case True
    then show ?thesis using h' s by (simp add: shows_store_def)
  next
    case False
    then obtain k' where k': "unat n \<le> k'" "held h' = (held h)(p := None, q \<mapsto> k')" using h'(2) by auto
    have keep: "\<forall>i < min k0 (unat n). mem h' (q + i) = mem h (p + i)" "q = p \<or> held h q = None"
        "\<forall>r l i. r \<noteq> p \<longrightarrow> held h r = Some l \<longrightarrow> i < l \<longrightarrow> mem h' (r + i) = mem h (r + i)" using h'(2) False by auto
    have old: "(\<exists>k. held h' r = Some k \<and> l \<le> k) \<and> (\<forall>i b. g i = Some b \<longrightarrow> i < l \<and> mem h' (r + i) = Some b)"
      if r: "S r = Some (l, g)" "r \<noteq> p" for r l g
    proof -
      obtain m where m: "held h r = Some m" "l \<le> m" using shows_storeD(2) [OF s r(1)] by blast
      then have "r \<noteq> q" using keep(2) r(2) by auto
      then have "held h' r = Some m" using m k'(2) r(2) by simp
      then show ?thesis using m keep(3) r(2) shows_storeD(3) [OF s r(1)] by fastforce
    qed
    have new: "i < unat n \<and> mem h' (q + i) = Some b" if "(f |` {..<min k (unat n)}) i = Some b" for i b
    proof -
      have "i < min k (unat n)" "f i = Some b" using that by (auto simp: restrict_map_def split: if_splits)
      then have "mem h (p + i) = Some b" "i < min k0 (unat n)" "i < unat n" using shows_storeD(3) [OF s p, of i b] k0(2) by auto
      then show ?thesis using keep(1) by simp
    qed
    have "shows_store h' (S(p := None, q \<mapsto> (unat n, f |` {..<min k (unat n)})))"
      unfolding shows_store_def
    proof (intro conjI allI impI h'(1))
      fix r l g assume r: "(S(p := None, q \<mapsto> (unat n, f |` {..<min k (unat n)}))) r = Some (l, g)"
      have at: "(\<exists>k. held h' r = Some k \<and> l \<le> k) \<and> (\<forall>i b. g i = Some b \<longrightarrow> i < l \<and> mem h' (r + i) = Some b)"
      proof (cases "r = q")
        case True
        then have lg: "l = unat n" "g = f |` {..<min k (unat n)}" using r by auto
        have "held h' q = Some k'" unfolding k'(2) by simp
        then show ?thesis unfolding lg True using k'(1) new by blast
      next
        case False
        then have "r \<noteq> p" "S r = Some (l, g)" using r by (simp_all split: if_splits)
        then show ?thesis using old by blast
      qed
      then show "\<exists>k. held h' r = Some k \<and> l \<le> k" by blast
      fix i b assume "g i = Some b"
      then show "i < l" "mem h' (r + i) = Some b" using at by blast+
    qed
    then show ?thesis using False by simp
  qed
qed

lemma poke_shows:
  assumes s: "shows_store h S" and p: "S p = Some (n, f)" and i: "i < n"
  shows "shows_store (poke h (p + i) b) (S(p \<mapsto> (n, f(i \<mapsto> b))))"
proof -
  have inv: "inv h" using s by (simp add: shows_store_def)
  obtain k where k: "held h p = Some k" "n \<le> k" using shows_storeD(2) [OF s p] by blast
  have h': "inv (poke h (p + i) b)" "held (poke h (p + i) b) = held h" "mem (poke h (p + i) b) = (mem h)(p + i \<mapsto> b)"
    using poke_ok [OF inv k(1)] i k(2) by auto
  have "(\<exists>m. held h q = Some m \<and> l \<le> m) \<and> (\<forall>j c. g j = Some c \<longrightarrow> j < l \<and> mem (poke h (p + i) b) (q + j) = Some c)"
    if q: "S q = Some (l, g)" "q \<noteq> p" for q l g
  proof -
    obtain m where m: "held h q = Some m" "l \<le> m" using shows_storeD(2) [OF s q(1)] by blast
    have "disjnt_rng q m p k" by (rule held_apart [OF inv m(1) k(1) q(2)])
    then have "q + j \<noteq> p + i" if "j < l" for j using that i k(2) m(2) by (auto simp: disjnt_rng_def)
    then show ?thesis using m shows_storeD(3) [OF s q(1)] h'(3) by fastforce
  qed
  then show ?thesis using h' k shows_storeD(3) [OF s p] i by (auto simp: shows_store_def)
qed

lemma client_step_shows:
  assumes "client_step alloc release resize poke limit x y" "shows_store (fst x) (snd x)"
  shows "shows_store (fst y) (snd y)"
  using assms
proof (induction rule: client_step.induct)
  case (New n h h' p S)
  then show ?case using new_shows [of h S n h' p] by (simp del: fun_upd_apply)
next
  case (New_fails n h h' S)
  then show ?case using new_shows [of h S n h' 0] by simp
next
  case (Dispose S p h h')
  then show ?case using dispose_shows [of h S p h'] by (simp del: fun_upd_apply)
next
  case (Resize S p k f n h h' q)
  then show ?case using resize_shows [of h S p k f n h' q] by (simp del: fun_upd_apply)
next
  case (Resize_fails S p n h h')
  then show ?case using resize_shows [of h S p _ _ n h' 0] by auto
next
  case (Poke S p n f i h b)
  then show ?case using poke_shows [of h S p n f i b] by (simp del: fun_upd_apply)
qed

text \<open>So a client never sees anything but what it wrote, and its requests never go wrong.\<close>

lemma client_safe:
  assumes "(client_step alloc release resize poke limit)\<^sup>*\<^sup>* (h0, Map.empty) (h, S)" "inv h0"
  shows "shows_store h S"
    and "S p = Some (n, f) \<Longrightarrow> f i = Some b \<Longrightarrow> mem h (p + i) = Some b"
    and "S p = Some (n, f) \<Longrightarrow> S q = Some (k, g) \<Longrightarrow> p \<noteq> q \<Longrightarrow> disjnt_rng p n q k"
    and "unat m < limit \<Longrightarrow> alloc h m \<noteq> None" "S p \<noteq> None \<Longrightarrow> release h p \<noteq> None"
    and "S p \<noteq> None \<Longrightarrow> unat m < limit \<Longrightarrow> m \<noteq> 0 \<Longrightarrow> resize h p m \<noteq> None"
proof -
  have "shows_store (fst y) (snd y)"
    if "(client_step alloc release resize poke limit)\<^sup>*\<^sup>* x y" "shows_store (fst x) (snd x)" for x y
    using that by (induction rule: rtranclp_induct) (auto intro: client_step_shows)
  from this [OF assms(1)] show s: "shows_store h S" using assms(2) by (simp add: shows_store_def)
  then have i: "inv h" by (simp add: shows_store_def)
  show "S p = Some (n, f) \<Longrightarrow> f i = Some b \<Longrightarrow> mem h (p + i) = Some b" using shows_storeD(3) [OF s] by blast
  show "disjnt_rng p n q k" if pq: "S p = Some (n, f)" "S q = Some (k, g)" "p \<noteq> q"
  proof -
    obtain n' k' where "held h p = Some n'" "n \<le> n'" "held h q = Some k'" "k \<le> k'"
      using shows_storeD(2) [OF s pq(1)] shows_storeD(2) [OF s pq(2)] by blast
    then show ?thesis using held_apart [OF i _ _ pq(3)] by (fastforce simp: disjnt_rng_def)
  qed
  show "alloc h m \<noteq> None" if "unat m < limit" using alloc_ok [OF i that] by auto
  have "held h p \<noteq> None" if "S p \<noteq> None" using that shows_storeD(2) [OF s] by fastforce
  then show "S p \<noteq> None \<Longrightarrow> release h p \<noteq> None" "S p \<noteq> None \<Longrightarrow> unat m < limit \<Longrightarrow> m \<noteq> 0 \<Longrightarrow> resize h p m \<noteq> None"
    using release_ok [OF i, of p] resize_ok [OF i, of m p] by fastforce+
qed

end


section \<open>The library's allocator\<close>

text \<open>What the client holds, read off the structures in memory.\<close>

definition held :: "heap \<Rightarrow> nat \<rightharpoonup> nat" where
  "held h p =
    (if p < 12 then None
     else case chunks h (p - 12) of Some c \<Rightarrow> if valid c = VAL_ALLOC then Some (csize c - 12) else None | None \<Rightarrow> None)"

definition heap_inv :: "gemdos \<Rightarrow> heap \<Rightarrow> bool" where
  "heap_inv G h \<longleftrightarrow> (\<exists>pc. rep G h pc)"

lemma held_live: "agree G h pc \<Longrightarrow> held h = live pc"
proof
  fix p assume ag: "agree G h pc"
  show "held h p = live pc p"
  proof (cases "p < 12")
    case True
    then show ?thesis by (simp add: held_def live_def)
  next
    case False
    show ?thesis
    proof (cases "live pc p")
      case None
      then have "pc (p - 12) \<noteq> Some (Alloc, s)" for s using False live_at [of pc "p - 12" s] by auto
      then have "cell h (p - 12) \<noteq> Some (VAL_ALLOC, s)" for s using agreeD(2) [OF ag] by blast
      then have "chunks h (p - 12) = Some c \<Longrightarrow> valid c \<noteq> VAL_ALLOC" for c by (fastforce simp: cell_def)
      then have "held h p = None" by (auto simp: held_def split: option.split)
      then show ?thesis using None by simp
    next
      case (Some n)
      then obtain s where s: "pc (p - 12) = Some (Alloc, s)" "n = s - 12" by (auto simp: live_Some)
      obtain c where "chunks h (p - 12) = Some c" "valid c = VAL_ALLOC" "csize c = s" using agree_piece [OF ag s(1)] by auto
      then show ?thesis using Some s(2) False by (simp add: held_def)
    qed
  qed
qed

lemma rep_held: "rep G h pc \<Longrightarrow> held h = live pc"
  by (auto simp: rep_def dest: held_live)

text \<open>A system with its heap, and a store into the client's memory.\<close>

definition sys_inv :: "gemdos \<times> heap \<Rightarrow> bool" where "sys_inv x \<longleftrightarrow> os_ok (fst x) \<and> heap_inv (fst x) (snd x)"
definition sys_alloc :: "gemdos \<times> heap \<Rightarrow> u32 \<Rightarrow> ((gemdos \<times> heap) \<times> nat) option" where
  "sys_alloc x n = map_option (\<lambda>(h, p). ((fst x, h), p)) (malloc (fst x) (snd x) n)"
definition sys_release :: "gemdos \<times> heap \<Rightarrow> nat \<Rightarrow> (gemdos \<times> heap) option" where
  "sys_release x p = map_option (\<lambda>h. (fst x, h)) (free (fst x) (snd x) p)"
definition sys_resize :: "gemdos \<times> heap \<Rightarrow> nat \<Rightarrow> u32 \<Rightarrow> ((gemdos \<times> heap) \<times> nat) option" where
  "sys_resize x p n = map_option (\<lambda>(h, p). ((fst x, h), p)) (realloc (fst x) (snd x) p n)"
definition sys_poke :: "gemdos \<times> heap \<Rightarrow> nat \<Rightarrow> byte \<Rightarrow> gemdos \<times> heap" where
  "sys_poke x a b = (fst x, store_bytes (snd x) a 1 ((bytes (snd x))(a \<mapsto> b)))"

lemma sys_alloc_ok:
  assumes "sys_inv x" "unat n < 2 ^ 31"
  shows "\<exists>y p. sys_alloc x n = Some (y, p) \<and> sys_inv y \<and>
    (if p = 0 then held (snd y) = held (snd x)
     else held (snd x) p = None \<and> (\<exists>k \<ge> unat n. held (snd y) = (held (snd x))(p \<mapsto> k))) \<and>
    (\<forall>q l i. held (snd x) q = Some l \<longrightarrow> i < l \<longrightarrow> bytes (snd y) (q + i) = bytes (snd x) (q + i))"
proof -
  obtain G h where x: "x = (G, h)" by (cases x)
  obtain pc where rep: "rep G h pc" and os: "os_ok G" using assms(1) x by (auto simp: sys_inv_def heap_inv_def)
  note hl = rep_held [OF rep]
  have N: "unat n \<le> unat (malloc_round n) - 12" using malloc_round_val [OF assms(2)] by linarith
  obtain h' p where m: "malloc G h n = Some (h', p)"
    "if p = 0 then rep G h' pc \<and> blocks h' = blocks h \<and> bytes h' = bytes h
     else \<exists>pc' k. rep G h' pc' \<and> piece_step\<^sup>*\<^sup>* (pc, blocks h) (pc', blocks h') \<and> unat (malloc_round n) - 12 \<le> k \<and>
       live pc p = None \<and> live pc' = (live pc)(p \<mapsto> k) \<and> same_live h pc (bytes h') \<and>
       (zero_mallocs h \<longrightarrow> (\<forall>i < unat n. bytes h' (p + i) = Some 0))"
    using malloc_spec [OF rep os assms(2)] by blast
  have "sys_alloc x n = Some ((G, h'), p)" using m(1) x by (simp add: sys_alloc_def)
  moreover have "sys_inv (G, h') \<and>
      (if p = 0 then held h' = held h else held h p = None \<and> (\<exists>k \<ge> unat n. held h' = (held h)(p \<mapsto> k))) \<and>
      (\<forall>q l i. held h q = Some l \<longrightarrow> i < l \<longrightarrow> bytes h' (q + i) = bytes h (q + i))"
  proof (cases "p = 0")
    case True
    then show ?thesis using m(2) os hl rep_held [of G h' pc] by (auto simp: sys_inv_def heap_inv_def)
  next
    case False
    then obtain pc' k where g: "rep G h' pc'" "unat (malloc_round n) - 12 \<le> k" "live pc p = None"
        "live pc' = (live pc)(p \<mapsto> k)" "same_live h pc (bytes h')" using m(2) by auto
    have "unat n \<le> k" using N g(2) by simp
    then show ?thesis using False g os hl rep_held [OF g(1)] by (auto simp: sys_inv_def heap_inv_def same_live_def)
  qed
  ultimately show ?thesis unfolding x by (intro exI [of _ "(G, h')"] exI [of _ p], unfold fst_conv snd_conv) blast
qed

lemma sys_release_ok:
  assumes "sys_inv x" "held (snd x) p \<noteq> None"
  shows "\<exists>y. sys_release x p = Some y \<and> sys_inv y \<and> held (snd y) = (held (snd x))(p := None) \<and>
    (\<forall>q l i. held (snd y) q = Some l \<longrightarrow> i < l \<longrightarrow> bytes (snd y) (q + i) = bytes (snd x) (q + i))"
proof -
  obtain G h where x: "x = (G, h)" by (cases x)
  obtain pc where rep: "rep G h pc" and os: "os_ok G" using assms(1) x by (auto simp: sys_inv_def heap_inv_def)
  note hl = rep_held [OF rep]
  obtain n where "live pc p = Some n" using assms(2) x hl by auto
  then obtain h' pc' where f: "free G h p = Some h'" "rep G h' pc'" "live pc' = (live pc)(p := None)" "same_live h pc' (bytes h')"
    using free_spec [OF rep] by blast
  show ?thesis using f os hl rep_held [OF f(2)] x
    by (intro exI [of _ "(G, h')"]) (auto simp: sys_release_def sys_inv_def heap_inv_def same_live_def simp del: fun_upd_apply)
qed

lemma sys_resize_ok:
  assumes "sys_inv x" "unat n < 2 ^ 31" "n \<noteq> 0" "held (snd x) p = Some k0"
  shows "\<exists>y q. sys_resize x p n = Some (y, q) \<and> sys_inv y \<and>
    (if q = 0 then held (snd y) = held (snd x) \<and> bytes (snd y) = bytes (snd x)
     else (\<exists>k \<ge> unat n. held (snd y) = (held (snd x))(p := None, q \<mapsto> k)) \<and>
       (\<forall>i < min k0 (unat n). bytes (snd y) (q + i) = bytes (snd x) (p + i)) \<and> (q = p \<or> held (snd x) q = None) \<and>
       (\<forall>r l i. r \<noteq> p \<longrightarrow> held (snd x) r = Some l \<longrightarrow> i < l \<longrightarrow> bytes (snd y) (r + i) = bytes (snd x) (r + i)))"
proof -
  obtain G h where x: "x = (G, h)" by (cases x)
  obtain pc where rep: "rep G h pc" and os: "os_ok G" using assms(1) x by (auto simp: sys_inv_def heap_inv_def)
  note hl = rep_held [OF rep]
  have l: "live pc p = Some k0" using assms(4) x hl by simp
  obtain h' q where m: "realloc G h p n = Some (h', q)" "realloc_ok G h pc p k0 (unat n) h' q"
    using realloc_spec [OF rep os assms(2,3) l] by blast
  have "sys_resize x p n = Some ((G, h'), q)" using m(1) x by (simp add: sys_resize_def)
  moreover have "sys_inv (G, h') \<and>
    (if q = 0 then held h' = held h \<and> bytes h' = bytes h
     else (\<exists>k \<ge> unat n. held h' = (held h)(p := None, q \<mapsto> k)) \<and>
       (\<forall>i < min k0 (unat n). bytes h' (q + i) = bytes h (p + i)) \<and> (q = p \<or> held h q = None) \<and>
       (\<forall>r l i. r \<noteq> p \<longrightarrow> held h r = Some l \<longrightarrow> i < l \<longrightarrow> bytes h' (r + i) = bytes h (r + i)))"
  proof (cases "q = 0")
    case True
    then show ?thesis using m(2) os hl rep_held [of G h' pc] by (auto simp: realloc_ok_def sys_inv_def heap_inv_def)
  next
    case False
    then obtain pc' k where g: "rep G h' pc'" "unat n \<le> k" "q = p \<or> live pc q = None"
        "live pc' = (live pc)(p := None, q \<mapsto> k)" "\<forall>i < min k0 (unat n). bytes h' (q + i) = bytes h (p + i)"
        "\<forall>r l i. r \<noteq> p \<longrightarrow> live pc r = Some l \<longrightarrow> i < l \<longrightarrow> bytes h' (r + i) = bytes h (r + i)"
      using m(2) unfolding realloc_ok_def by auto
    have "sys_inv (G, h')" using g(1) os by (auto simp: sys_inv_def heap_inv_def)
    then show ?thesis using False g(2-) hl rep_held [OF g(1)] by (auto simp del: fun_upd_apply)
  qed
  ultimately show ?thesis unfolding x by (intro exI [of _ "(G, h')"] exI [of _ q], unfold fst_conv snd_conv) blast
qed

lemma sys_poke_ok:
  assumes "sys_inv x" "held (snd x) p = Some k" "i < k"
  shows "sys_inv (sys_poke x (p + i) b) \<and> held (snd (sys_poke x (p + i) b)) = held (snd x) \<and>
    bytes (snd (sys_poke x (p + i) b)) = (bytes (snd x))(p + i \<mapsto> b)"
proof -
  obtain G h where x: "x = (G, h)" by (cases x)
  obtain pc where rep: "rep G h pc" and os: "os_ok G" using assms(1) x by (auto simp: sys_inv_def heap_inv_def)
  have ok: "pieces_ok pc (blocks h)" "agree G h pc" using rep by (auto simp: rep_def)
  have "live pc p = Some k" using rep_held [OF rep] assms(2) x by simp
  then have "clear_of G pc (p + i) 1" by (rule live_clear [OF ok]) (use assms(3) in simp_all)
  then have r: "rep G (store_bytes h (p + i) 1 ((bytes h)(p + i \<mapsto> b))) pc" by (rule rep_store [OF rep]) simp
  then show ?thesis using x os rep_held [OF rep] rep_held [OF r] by (auto simp: sys_inv_def heap_inv_def sys_poke_def)
qed

interpretation mint: allocator sys_inv "\<lambda>x. held (snd x)" "\<lambda>x. bytes (snd x)" sys_alloc sys_release sys_resize sys_poke "2 ^ 31"
proof (unfold_locales, goal_cases)
  case (1 x p l q k)
  then obtain pc where rep: "rep (fst x) (snd x) pc" by (auto simp: sys_inv_def heap_inv_def)
  then have "pieces_ok pc (blocks (snd x))" by (simp add: rep_def)
  then show ?case using live_apart 1(2-) rep_held [OF rep] by simp
next
  case (2 x n)
  then show ?case by (rule sys_alloc_ok)
next
  case (3 x p)
  then show ?case by (rule sys_release_ok)
next
  case (4 x n p k0)
  then show ?case by (rule sys_resize_ok)
next
  case (5 x p k i b)
  then show ?case by (rule sys_poke_ok)
qed

end
