(* ===== verification/MallocProps.thy ===== *)
theory MallocProps
  imports MallocClient
begin

text \<open>The properties of the allocator, and an example of a system for which they are evaluated.\<close>

section \<open>An example system\<close>

definition demo_os :: gemdos where
  "demo_os = \<lparr>os_malloc = (\<lambda>bs n. if bs = [] \<and> n \<le> 65536 then 4096 else 0), os_garbage = (\<lambda>_. 0xAA),
     os_sysctl = None, stack_ptr = 0, fl = 16\<rparr>"

lemma demo_ok: "os_ok demo_os"
proof -
  have "page_ok 8192" unfolding page_ok_def by (intro exI [of _ 13]) simp
  then show ?thesis by (simp add: os_ok_def demo_os_def getpagesize_def disjnt_rng_def)
qed

lemma demo_rep: "rep demo_os (init_heap demo_os) Map.empty" by (rule rep_init)

section \<open>Refinement\<close>

text \<open>C1: \<open>malloc\<close> refines the abstract heap: it always returns, either \<open>NULL\<close> with all as it was, or a new piece
  of at least the size asked for, apart from all others, whose contents it leaves alone; with
  \<open>_malloczero\<close> set the new piece is zero. What it does to the pieces is a sequence of abstract steps.\<close>

theorem malloc_refines:
  assumes "rep G h pc" "os_ok G" "unat n < 2 ^ 31"
  shows "\<exists>h' p. malloc G h n = Some (h', p) \<and>
    (if p = 0 then rep G h' pc \<and> held h' = held h \<and> bytes h' = bytes h
     else \<exists>pc' k. rep G h' pc' \<and> piece_step\<^sup>*\<^sup>* (pc, blocks h) (pc', blocks h') \<and> unat n \<le> k \<and> held h p = None \<and>
       held h' = (held h)(p \<mapsto> k) \<and>
       (\<forall>q l i. held h q = Some l \<longrightarrow> i < l \<longrightarrow> bytes h' (q + i) = bytes h (q + i)) \<and>
       (zero_mallocs h \<longrightarrow> (\<forall>i < unat n. bytes h' (p + i) = Some 0)))"
proof -
  have N: "unat n \<le> unat (malloc_round n) - 12" using malloc_round_val [OF assms(3)] by linarith
  note hl = rep_held [OF assms(1)]
  obtain h' p where m: "malloc G h n = Some (h', p)"
    "if p = 0 then rep G h' pc \<and> blocks h' = blocks h \<and> bytes h' = bytes h
     else \<exists>pc' k. rep G h' pc' \<and> piece_step\<^sup>*\<^sup>* (pc, blocks h) (pc', blocks h') \<and> unat (malloc_round n) - 12 \<le> k \<and>
       live pc p = None \<and> live pc' = (live pc)(p \<mapsto> k) \<and> same_live h pc (bytes h') \<and>
       (zero_mallocs h \<longrightarrow> (\<forall>i < unat n. bytes h' (p + i) = Some 0))"
    using malloc_spec [OF assms] by blast
  show ?thesis
  proof (cases "p = 0")
    case True
    then show ?thesis using m hl rep_held [of G h' pc] by auto
  next
    case False
    then obtain pc' k where g: "rep G h' pc'" "piece_step\<^sup>*\<^sup>* (pc, blocks h) (pc', blocks h')" "unat (malloc_round n) - 12 \<le> k"
        "live pc p = None" "live pc' = (live pc)(p \<mapsto> k)" "same_live h pc (bytes h')"
        "zero_mallocs h \<longrightarrow> (\<forall>i < unat n. bytes h' (p + i) = Some 0)" using m(2) by auto
    have "held h' = (held h)(p \<mapsto> k)" "unat n \<le> k" using rep_held [OF g(1)] hl g(3,5) N by simp_all
    then show ?thesis using m(1) False g hl
      by (intro exI [of _ h'] exI [of _ p]) (auto intro!: exI [of _ pc'] exI [of _ k] simp: same_live_def simp del: fun_upd_apply)
  qed
qed

theorem malloc_refines_witness:
  "\<exists>h' p. malloc demo_os (init_heap demo_os) 100 = Some (h', p) \<and> heap_inv demo_os h'"
  using malloc_refines [OF demo_rep demo_ok, of 100] unfolding heap_inv_def by (auto split: if_splits)

text \<open>C2: \<open>free\<close> takes back exactly the piece it is given, joins it with free neighbours and gives a block
  back to the system when it is all free; every other piece keeps its place and its contents. A null
  pointer, and a pointer to a structure that is not that of an allocated piece, change nothing.\<close>

theorem free_refines:
  assumes "rep G h pc"
  shows "(held h p \<noteq> None \<longrightarrow>
      (\<exists>h' pc'. free G h p = Some h' \<and> rep G h' pc' \<and> piece_step\<^sup>*\<^sup>* (pc, blocks h) (pc', blocks h') \<and>
        held h' = (held h)(p := None) \<and>
        (\<forall>q l i. q \<noteq> p \<longrightarrow> held h q = Some l \<longrightarrow> i < l \<longrightarrow> bytes h' (q + i) = bytes h (q + i)))) \<and>
    (held h p = None \<longrightarrow> p = 0 \<or> 12 \<le> p \<and> chunks h (p - 12) \<noteq> None \<longrightarrow> free G h p = Some h)"
proof (intro conjI impI)
  note hl = rep_held [OF assms]
  assume "held h p \<noteq> None"
  then obtain n where "live pc p = Some n" using hl by auto
  then obtain h' pc' where f: "free G h p = Some h'" "rep G h' pc'" "piece_step\<^sup>*\<^sup>* (pc, blocks h) (pc', blocks h')"
      "live pc' = (live pc)(p := None)" "same_live h pc' (bytes h')" using free_spec [OF assms] by blast
  have "held h' = (held h)(p := None)" using rep_held [OF f(2)] f(4) hl by simp
  moreover have "\<forall>q l i. q \<noteq> p \<longrightarrow> held h q = Some l \<longrightarrow> i < l \<longrightarrow> bytes h' (q + i) = bytes h (q + i)"
    using f(4,5) hl by (auto simp: same_live_def)
  ultimately show "\<exists>h' pc'. free G h p = Some h' \<and> rep G h' pc' \<and> piece_step\<^sup>*\<^sup>* (pc, blocks h) (pc', blocks h') \<and>
      held h' = (held h)(p := None) \<and>
      (\<forall>q l i. q \<noteq> p \<longrightarrow> held h q = Some l \<longrightarrow> i < l \<longrightarrow> bytes h' (q + i) = bytes h (q + i))"
    using f(1-3) by blast
next
  assume "held h p = None" "p = 0 \<or> 12 \<le> p \<and> chunks h (p - 12) \<noteq> None"
  moreover have "agree G h pc" using assms by (simp add: rep_def)
  ultimately show "free G h p = Some h" using free_ignores rep_held [OF assms] by metis
qed

text \<open>C3: \<open>realloc\<close> keeps the contents up to the smaller of the two sizes, whether it stays in place, takes the free
  piece behind it, or moves; when there is no memory the old piece stays as it was. No other piece
  is touched.\<close>

theorem realloc_refines:
  assumes "rep G h pc" "os_ok G" "unat n < 2 ^ 31" "n \<noteq> 0" "held h r = Some k0"
  shows "\<exists>h' p. realloc G h r n = Some (h', p) \<and>
    (if p = 0 then rep G h' pc \<and> bytes h' = bytes h
     else \<exists>pc' k. rep G h' pc' \<and> piece_step\<^sup>*\<^sup>* (pc, blocks h) (pc', blocks h') \<and> unat n \<le> k \<and>
       held h' = (held h)(r := None, p \<mapsto> k) \<and> (\<forall>i < min k0 (unat n). bytes h' (p + i) = bytes h (r + i)) \<and>
       (\<forall>q l i. q \<noteq> r \<longrightarrow> held h q = Some l \<longrightarrow> i < l \<longrightarrow> bytes h' (q + i) = bytes h (q + i)))"
proof -
  note hl = rep_held [OF assms(1)]
  obtain h' p where m: "realloc G h r n = Some (h', p)" "realloc_ok G h pc r k0 (unat n) h' p"
    using realloc_spec [OF assms(1-4)] assms(5) hl by metis
  show ?thesis
  proof (cases "p = 0")
    case True
    then show ?thesis using m by (auto simp: realloc_ok_def)
  next
    case False
    then obtain pc' k where g: "rep G h' pc'" "piece_step\<^sup>*\<^sup>* (pc, blocks h) (pc', blocks h')" "unat n \<le> k"
        "live pc' = (live pc)(r := None, p \<mapsto> k)" "\<forall>i < min k0 (unat n). bytes h' (p + i) = bytes h (r + i)"
        "\<forall>q l i. q \<noteq> r \<longrightarrow> live pc q = Some l \<longrightarrow> i < l \<longrightarrow> bytes h' (q + i) = bytes h (q + i)"
      using m(2) unfolding realloc_ok_def if_not_P [OF False] by blast
    have "held h' = (held h)(r := None, p \<mapsto> k)" using rep_held [OF g(1)] hl g(4) by simp
    then show ?thesis using m(1) False g hl
      by (intro exI [of _ h'] exI [of _ p]) (auto intro!: exI [of _ pc'] exI [of _ k] simp del: fun_upd_apply)
  qed
qed

text \<open>C4: Whatever a client does with \<open>malloc\<close>, \<open>realloc\<close>, \<open>free\<close> and stores into the objects it holds, every object
  shows what was last written to it, no two objects overlap, and no call goes wrong.\<close>

theorem client_sees_its_writes:
  assumes "os_ok G" "(client_step sys_alloc sys_release sys_resize sys_poke (2 ^ 31))\<^sup>*\<^sup>* ((G, init_heap G), Map.empty) ((G, h), S)"
  shows "(\<forall>p n f i b. S p = Some (n, f) \<longrightarrow> f i = Some b \<longrightarrow> bytes h (p + i) = Some b) \<and>
    (\<forall>p n f q k g. S p = Some (n, f) \<longrightarrow> S q = Some (k, g) \<longrightarrow> p \<noteq> q \<longrightarrow> disjnt_rng p n q k) \<and>
    (\<forall>m. unat m < 2 ^ 31 \<longrightarrow> malloc G h m \<noteq> None) \<and>
    (\<forall>p m. S p \<noteq> None \<longrightarrow> free G h p \<noteq> None \<and> (unat m < 2 ^ 31 \<longrightarrow> m \<noteq> 0 \<longrightarrow> realloc G h p m \<noteq> None))"
proof -
  have i: "sys_inv (G, init_heap G)" using assms(1) rep_init by (auto simp: sys_inv_def heap_inv_def)
  note safe = mint.client_safe [OF assms(2) i]
  show ?thesis
  proof (intro conjI allI impI)
    fix p n f i b assume "S p = Some (n, f)" "f i = Some b"
    then show "bytes h (p + i) = Some b" using safe(2) by simp
  next
    fix p n f q k g assume "S p = Some (n, f)" "S q = Some (k, g)" "p \<noteq> q"
    then show "disjnt_rng p n q k" by (rule safe(3))
  next
    fix m :: u32 assume "unat m < 2 ^ 31"
    then show "malloc G h m \<noteq> None" using safe(4) by (fastforce simp: sys_alloc_def)
  next
    fix p assume "S p \<noteq> None"
    then show "free G h p \<noteq> None" using safe(5) by (fastforce simp: sys_release_def)
  next
    fix p and m :: u32 assume "S p \<noteq> None" "unat m < 2 ^ 31" "m \<noteq> 0"
    then show "realloc G h p m \<noteq> None" using safe(6) by (fastforce simp: sys_resize_def)
  qed
qed

section \<open>Two defects\<close>

lemmas demo_eval = malloc_def malloc_round_def more_core_def request_size_def init_heap_def demo_os_def getpagesize_def Let_def
  sbrk_def sbrk_once_def os_take_def find_fit.simps find_pos.simps put_def owned_def upd_def put_asize_def setc_def carve_def
  wipe_def store_bytes_def

lemmas demo_free = free_def free_pos.simps merge_after_def free_link_def at_heapbase_def upd_def setc_def Let_def

text \<open>The size of the piece is computed in 32 bits and wraps around: a request of almost 4 gigabytes gets a piece
  of 8164 bytes, and a slightly larger one makes \<open>malloc\<close> write a structure behind the end of the block.\<close>

theorem malloc_overflow:
  "(\<exists>h p. malloc demo_os (init_heap demo_os) 0xFFFFFFE0 = Some (h, p) \<and> held h p = Some 8164) \<and>
    malloc demo_os (init_heap demo_os) 0xFFFFFFF0 = None"
  by (simp add: demo_eval held_def)

lemma demo_malloc_100:
  "\<exists>h. malloc demo_os (init_heap demo_os) 100 = Some (h, 12188) \<and> blocks h = [(4096, 8192)] \<and>
    chunks h = [16 \<mapsto> \<lparr>valid = VAL_FREE, nxt = 4096, csize = 0\<rparr>, 4096 \<mapsto> \<lparr>valid = VAL_BORDER, nxt = 4112, csize = 16\<rparr>,
      4112 \<mapsto> \<lparr>valid = VAL_FREE, nxt = 0, csize = 8064\<rparr>, 12176 \<mapsto> \<lparr>valid = VAL_ALLOC, nxt = 0, csize = 112\<rparr>] \<and>
    asize h = [4096 \<mapsto> 8176] \<and> heapbase h = 0 \<and> minhunk h = 16384 \<and> maxhunk h = 32768 \<and> page_size h = 8192 \<and> \<not> split_mem h"
  by (simp add: demo_eval) (auto simp: fun_eq_iff)

text \<open>\<open>free\<close> does not join a piece with the free piece before it when no free piece follows, since it tests the
  next piece \<open>q\<close>: after the only piece has been given back the block stays cut in two, is not returned to the
  system, and a request that the fresh heap could serve is refused.\<close>

theorem free_last_piece:
  "\<exists>h1 p h2 h3 h4 p4. malloc demo_os (init_heap demo_os) 100 = Some (h1, p) \<and> free demo_os h1 p = Some h2 \<and>
    held h2 = Map.empty \<and> blocks h2 = [(4096, 8192)] \<and> malloc demo_os h2 8100 = Some (h3, 0) \<and>
    malloc demo_os (init_heap demo_os) 8100 = Some (h4, p4) \<and> p4 \<noteq> 0"
proof -
  obtain h where h: "malloc demo_os (init_heap demo_os) 100 = Some (h, 12188)" "blocks h = [(4096, 8192)]"
    "chunks h = [16 \<mapsto> \<lparr>valid = VAL_FREE, nxt = 4096, csize = 0\<rparr>, 4096 \<mapsto> \<lparr>valid = VAL_BORDER, nxt = 4112, csize = 16\<rparr>,
      4112 \<mapsto> \<lparr>valid = VAL_FREE, nxt = 0, csize = 8064\<rparr>, 12176 \<mapsto> \<lparr>valid = VAL_ALLOC, nxt = 0, csize = 112\<rparr>]"
    "asize h = [4096 \<mapsto> 8176]" "heapbase h = 0" "minhunk h = 16384" "maxhunk h = 32768" "page_size h = 8192" "\<not> split_mem h"
    using demo_malloc_100 by blast
  obtain h2 where h2: "free demo_os h 12188 = Some h2" "blocks h2 = [(4096, 8192)]"
    "chunks h2 = [16 \<mapsto> \<lparr>valid = VAL_FREE, nxt = 4096, csize = 0\<rparr>, 4096 \<mapsto> \<lparr>valid = VAL_BORDER, nxt = 4112, csize = 16\<rparr>,
      4112 \<mapsto> \<lparr>valid = VAL_FREE, nxt = 12176, csize = 8064\<rparr>, 12176 \<mapsto> \<lparr>valid = VAL_FREE, nxt = 0, csize = 112\<rparr>]"
    "heapbase h2 = 0" "minhunk h2 = 16384" "maxhunk h2 = 32768" "page_size h2 = 8192" "\<not> split_mem h2"
    using h(2-) by (simp add: demo_free demo_os_def fun_eq_iff)
  have "held h2 = Map.empty" by (rule ext) (auto simp: held_def h2(3))
  moreover have "\<exists>h3. malloc demo_os h2 8100 = Some (h3, 0)" using h2(2-) by (simp add: demo_eval)
  moreover have "\<exists>h4 p4. malloc demo_os (init_heap demo_os) 8100 = Some (h4, p4) \<and> p4 \<noteq> 0" by (simp add: demo_eval)
  ultimately show ?thesis using h(1) h2(1,2) by blast
qed

section \<open>Witnesses\<close>

lemma demo_held: "\<exists>h pc k. malloc demo_os (init_heap demo_os) 100 = Some (h, 12188) \<and> rep demo_os h pc \<and> held h 12188 = Some k"
proof -
  obtain h where m: "malloc demo_os (init_heap demo_os) 100 = Some (h, 12188)" using demo_malloc_100 by blast
  obtain h' p where n: "malloc demo_os (init_heap demo_os) 100 = Some (h', p)"
    "if p = 0 then rep demo_os h' Map.empty \<and> blocks h' = blocks (init_heap demo_os) \<and> bytes h' = bytes (init_heap demo_os)
     else \<exists>pc' k. rep demo_os h' pc' \<and> piece_step\<^sup>*\<^sup>* (Map.empty, blocks (init_heap demo_os)) (pc', blocks h') \<and>
       unat (malloc_round 100) - 12 \<le> k \<and> live Map.empty p = None \<and> live pc' = (live Map.empty)(p \<mapsto> k) \<and>
       same_live (init_heap demo_os) Map.empty (bytes h') \<and>
       (zero_mallocs (init_heap demo_os) \<longrightarrow> (\<forall>i < unat (100 :: u32). bytes h' (p + i) = Some 0))"
    using malloc_spec [OF demo_rep demo_ok, of 100] by auto
  have e: "h' = h" "p = 12188" using m n(1) by simp_all
  obtain pc' k where "rep demo_os h pc'" "live pc' = (live Map.empty)(12188 \<mapsto> k)" using n(2) unfolding e by (auto simp del: fun_upd_apply)
  then show ?thesis using m rep_held [of demo_os h pc'] by auto
qed

theorem free_refines_witness:
  "\<exists>h k h2 h3. malloc demo_os (init_heap demo_os) 100 = Some (h, 12188) \<and> held h 12188 = Some k \<and>
    free demo_os h 12188 = Some h2 \<and> held h2 12188 = None \<and> heap_inv demo_os h2 \<and>
    free demo_os (init_heap demo_os) 28 = Some (init_heap demo_os) \<and> free demo_os h2 0 = Some h3 \<and> h3 = h2"
proof -
  obtain h pc k where h: "malloc demo_os (init_heap demo_os) 100 = Some (h, 12188)" "rep demo_os h pc" "held h 12188 = Some k"
    using demo_held by blast
  obtain h2 pc2 where h2: "free demo_os h 12188 = Some h2" "rep demo_os h2 pc2" "held h2 = (held h)(12188 := None)"
    using free_refines [OF h(2), of 12188] h(3) by auto
  have "free demo_os (init_heap demo_os) 28 = Some (init_heap demo_os)"
    using free_refines [OF demo_rep, of 28] by (simp add: held_def init_heap_def demo_os_def)
  moreover have "free demo_os h2 0 = Some h2" using free_refines [OF h2(2), of 0] by (simp add: held_def)
  ultimately show ?thesis using h h2 unfolding heap_inv_def by auto
qed

theorem realloc_refines_witness:
  "\<exists>h h' p. malloc demo_os (init_heap demo_os) 100 = Some (h, 12188) \<and> realloc demo_os h 12188 200 = Some (h', p) \<and>
    heap_inv demo_os h'"
proof -
  obtain h pc k where h: "malloc demo_os (init_heap demo_os) 100 = Some (h, 12188)" "rep demo_os h pc" "held h 12188 = Some k"
    using demo_held by blast
  show ?thesis using realloc_refines [OF h(2) demo_ok _ _ h(3), of 200] h(1) unfolding heap_inv_def by (auto split: if_splits)
qed

theorem client_sees_its_writes_witness:
  "\<exists>h k. malloc demo_os (init_heap demo_os) 100 = Some (h, 12188) \<and> free demo_os h 12188 \<noteq> None \<and> held h 12188 = Some k"
proof -
  obtain h pc k where h: "malloc demo_os (init_heap demo_os) 100 = Some (h, 12188)" "rep demo_os h pc" "held h 12188 = Some k"
    using demo_held by blast
  have s: "client_step sys_alloc sys_release sys_resize sys_poke (2 ^ 31) ((demo_os, init_heap demo_os), Map.empty)
      ((demo_os, h), Map.empty(12188 \<mapsto> (unat (100 :: u32), Map.empty)))"
    by (rule client_step.intros) (simp_all add: sys_alloc_def h(1))
  have "(client_step sys_alloc sys_release sys_resize sys_poke (2 ^ 31))\<^sup>*\<^sup>* ((demo_os, init_heap demo_os), Map.empty)
      ((demo_os, h), Map.empty(12188 \<mapsto> (unat (100 :: u32), Map.empty)))" using s by (rule r_into_rtranclp)
  from client_sees_its_writes [OF demo_ok this] have "free demo_os h 12188 \<noteq> None" by simp
  then show ?thesis using h by blast
qed

end
