(* ===== verification/Hsearch.thy ===== *)
theory Hsearch
  imports StrCmp
begin

text \<open>
  The hash table of \<^verbatim>\<open>misc/hsearch_r.c\<close> and \<^verbatim>\<open>misc/hsearch.c\<close>: open addressing with double hashing
  in a table of prime size. A key is a pointer to a string in the memory, a position in the table
  stands for the pointer to its entry. The field \<open>used\<close> of a position holds the first hash value of its
  key, 0 when the position is free; the table has one more position than its size, since position 0 is
  not used. A position outside the table is \<open>None\<close>, and so is a search that never ends.
\<close>

datatype hash_error = EINVAL | ENOMEM | ESRCH
datatype action = FIND | ENTER

record entry =
  ekey :: nat
  edata :: nat

record slot =
  used :: u32
  entry :: entry

record hsearch_data =
  table :: "slot list option"
  hsize :: u32
  filled :: u32

section \<open>Creating and destroying a table\<close>

partial_function (option) isprime_loop :: "u32 \<Rightarrow> u32 \<Rightarrow> u32 option" where
  "isprime_loop number d =
    (if d * d < number \<and> number mod d \<noteq> 0 then isprime_loop number (d + 2) else Some d)"

definition isprime :: "u32 \<Rightarrow> bool option" where
  "isprime number = do { d \<leftarrow> isprime_loop number 3; Some (number mod d \<noteq> 0) }"

partial_function (option) next_prime :: "u32 \<Rightarrow> u32 option" where
  "next_prime nel = do { b \<leftarrow> isprime nel; if \<not> b then next_prime (nel + 2) else Some nel }"

text \<open>\<open>calloc n k\<close> tells whether there is memory for \<open>n\<close> zeroed objects of \<open>k\<close> bytes. The result is
  the new table, if there was one, and \<open>errno\<close> or the value that is returned.\<close>

definition hcreate_r ::
    "(u32 \<Rightarrow> u32 \<Rightarrow> bool) \<Rightarrow> u32 \<Rightarrow> hsearch_data option \<Rightarrow> (hsearch_data option \<times> (hash_error + bool)) option" where
  "hcreate_r calloc nel htab =
    (case htab of
       None \<Rightarrow> Some (None, Inl EINVAL)
     | Some h \<Rightarrow>
         if table h \<noteq> None then Some (Some h, Inr False)
         else do { nel \<leftarrow> next_prime (nel OR 1);
                   let h = h\<lparr>hsize := nel, filled := 0\<rparr>;
                   if calloc (hsize h + 1) 12
                   then Some (Some (h\<lparr>table := Some (replicate (unat (hsize h + 1)) \<lparr>used = 0, entry = \<lparr>ekey = 0, edata = 0\<rparr>\<rparr>)\<rparr>), Inr True)
                   else Some (Some (h\<lparr>table := None\<rparr>), Inr False) })"

definition hdestroy_r :: "hsearch_data option \<Rightarrow> hsearch_data option \<times> hash_error option" where
  "hdestroy_r htab =
    (case htab of None \<Rightarrow> (None, Some EINVAL) | Some h \<Rightarrow> (Some (h\<lparr>table := None\<rparr>), None))"

section \<open>Searching\<close>

fun hash_loop :: "bmem \<Rightarrow> nat \<Rightarrow> u32 \<Rightarrow> nat \<Rightarrow> u32 option" where
  "hash_loop m key hval 0 = Some hval"
| "hash_loop m key hval (Suc n) = do { c \<leftarrow> ld m (key + n); hash_loop m key (push_bit 4 hval + scast c) n }"

definition first_index :: "u32 \<Rightarrow> u32 \<Rightarrow> u32" where
  "first_index sz hval = (let hval = hval mod sz in if hval = 0 then hval + 1 else hval)"

definition slot_at :: "slot list \<Rightarrow> u32 \<Rightarrow> slot option" where
  "slot_at t i = (if unat i < length t then Some (t ! unat i) else None)"

definition slot_matches :: "bmem \<Rightarrow> nat \<Rightarrow> u32 \<Rightarrow> slot \<Rightarrow> bool option" where
  "slot_matches m key hval s =
    (if used s = hval then do { c \<leftarrow> strcmp m key (ekey (entry s)); Some (c = 0) } else Some False)"

definition step_back :: "u32 \<Rightarrow> u32 \<Rightarrow> u32 \<Rightarrow> u32" where
  "step_back sz hval2 idx = (if idx \<le> hval2 then sz + idx - hval2 else idx - hval2)"

text \<open>The loop gives the position where it stops, and whether it has found the key there.\<close>

partial_function (option) probe :: "bmem \<Rightarrow> nat \<Rightarrow> slot list \<Rightarrow> u32 \<Rightarrow> u32 \<Rightarrow> u32 \<Rightarrow> u32 \<Rightarrow> (u32 \<times> bool) option" where
  "probe m key t sz hval hval2 idx =
    (let idx = step_back sz hval2 idx
     in if idx = hval then Some (idx, False)
        else do { s \<leftarrow> slot_at t idx;
                  b \<leftarrow> slot_matches m key hval s;
                  if b then Some (idx, True)
                  else if used s \<noteq> 0 then probe m key t sz hval hval2 idx
                  else Some (idx, False) })"

definition search :: "bmem \<Rightarrow> nat \<Rightarrow> slot list \<Rightarrow> u32 \<Rightarrow> u32 \<Rightarrow> (u32 \<times> bool) option" where
  "search m key t sz hval =
    do { s \<leftarrow> slot_at t hval;
         if used s \<noteq> 0
         then do { b \<leftarrow> slot_matches m key hval s;
                   if b then Some (hval, True) else probe m key t sz hval (1 + hval mod (sz - 2)) hval }
         else Some (hval, False) }"

definition hsearch_r ::
    "bmem \<Rightarrow> entry \<Rightarrow> action \<Rightarrow> hsearch_data \<Rightarrow> (hsearch_data \<times> (hash_error + nat)) option" where
  "hsearch_r m item act htab =
    do { len \<leftarrow> strlen m (ekey item);
         h \<leftarrow> hash_loop m (ekey item) (of_nat len) len;
         let hval = first_index (hsize htab) h;
         t \<leftarrow> table htab;
         (idx, found) \<leftarrow> search m (ekey item) t (hsize htab) hval;
         s \<leftarrow> slot_at t idx;
         if found
         then Some (if act = ENTER
                    then htab\<lparr>table := Some (t[unat idx := s\<lparr>entry := (entry s)\<lparr>edata := edata item\<rparr>\<rparr>])\<rparr> else htab,
                    Inr (unat idx))
         else if act = ENTER
         then if filled htab = hsize htab then Some (htab, Inl ENOMEM)
              else Some (htab\<lparr>table := Some (t[unat idx := s\<lparr>used := hval, entry := item\<rparr>]), filled := filled htab + 1\<rparr>,
                         Inr (unat idx))
         else Some (htab, Inl ESRCH) }"

text \<open>The functions on the global table; \<open>None\<close> in the pair is the null pointer.\<close>

definition hsearch :: "bmem \<Rightarrow> entry \<Rightarrow> action \<Rightarrow> hsearch_data \<Rightarrow> (hsearch_data \<times> nat option) option" where
  "hsearch m item act htab =
    do { (htab, r) \<leftarrow> hsearch_r m item act htab; Some (htab, case r of Inl _ \<Rightarrow> None | Inr i \<Rightarrow> Some i) }"

definition hcreate :: "(u32 \<Rightarrow> u32 \<Rightarrow> bool) \<Rightarrow> u32 \<Rightarrow> hsearch_data \<Rightarrow> (hsearch_data option \<times> (hash_error + bool)) option" where
  "hcreate calloc nel htab = hcreate_r calloc nel (Some htab)"

definition hdestroy :: "hsearch_data \<Rightarrow> hsearch_data option \<times> hash_error option" where
  "hdestroy htab = hdestroy_r (Some htab)"

definition htab0 :: hsearch_data where "htab0 = \<lparr>table = None, hsize = 0, filled = 0\<rparr>"

section \<open>Primes\<close>

definition is_prime :: "nat \<Rightarrow> bool" where
  "is_prime p \<longleftrightarrow> 1 < p \<and> (\<forall>d. d dvd p \<longrightarrow> d = 1 \<or> d = p)"

definition odd_free :: "nat \<Rightarrow> nat \<Rightarrow> bool" where
  "odd_free n d \<longleftrightarrow> (\<forall>e. odd e \<and> 3 \<le> e \<and> e < d \<longrightarrow> \<not> e dvd n)"

lemma odd_free_3 [simp]: "odd_free n 3"
  by (auto simp: odd_free_def)

lemma odd_free_step: "odd_free n d \<Longrightarrow> odd d \<Longrightarrow> \<not> d dvd n \<Longrightarrow> odd_free n (d + 2)"
  unfolding odd_free_def by (metis add_2_eq_Suc' even_Suc less_Suc_eq)

lemma odd_free_prime:
  assumes "odd_free n d" "n \<le> d * d" "odd d" "3 \<le> d" "\<not> d dvd n" "odd n" "1 < n"
  shows "is_prime n"
  unfolding is_prime_def
proof (intro conjI allI impI)
  fix a assume a: "a dvd n"
  then obtain b where b: "n = a * b" by (auto simp: dvd_def)
  have odd: "odd a" "odd b" using b assms(6) by auto
  have small: "e = 1" if "e dvd n" "odd e" "e \<le> d" for e
  proof (rule ccontr)
    assume "e \<noteq> 1"
    then have "3 \<le> e" using that(2) by (cases e) (auto elim!: oddE)
    then show False using that assms(1,5) by (cases "e = d") (auto simp: odd_free_def)
  qed
  show "a = 1 \<or> a = n"
  proof (cases "a \<le> d")
    case True
    then show ?thesis using small a odd by blast
  next
    case False
    have "b \<le> d"
    proof (rule ccontr)
      assume "\<not> b \<le> d"
      then have "d * d < a * b" using False by (intro mult_strict_mono) auto
      then show False using assms(2) b by simp
    qed
    then have "b = 1" using small [of b] b odd by simp
    then show ?thesis using b by simp
  qed
qed (rule assms(7))

lemma isprime_loop_spec:
  assumes "unat n < 65535 * 65535" "odd (unat n)" "odd (unat d)" "3 \<le> unat d" "unat d \<le> 65535" "unat d < unat n" "odd_free (unat n) (unat d)"
  shows "\<exists>e. isprime_loop n d = Some e \<and> odd (unat e) \<and> 3 \<le> unat e \<and> unat e < unat n \<and> odd_free (unat n) (unat e) \<and>
    (unat n \<le> unat e * unat e \<or> unat e dvd unat n)"
  using assms
proof (induction "65535 - unat d" arbitrary: d rule: less_induct)
  case less
  have sq: "unat (d * d) = unat d * unat d"
  proof -
    have "unat d * unat d \<le> 65535 * 65535" using less.prems(5) by (intro mult_mono) auto
    then show ?thesis by (simp add: unat_word_ariths)
  qed
  have dv: "(n mod d = 0) = (unat d dvd unat n)" by (simp add: unat_mod dvd_eq_mod_eq_0 flip: unat_eq_0)
  show ?case
  proof (cases "d * d < n \<and> n mod d \<noteq> 0")
    case True
    then have lt: "unat d * unat d < 65535 * 65535" "\<not> unat d dvd unat n"
      using less.prems(1) sq dv by (auto simp: word_less_nat_alt)
    then have "unat d < 65535" by (metis less.prems(5) le_neq_implies_less nat_neq_iff)
    then have d2: "unat (d + 2) = unat d + 2" "unat d + 2 \<le> 65535" using less.prems(3)
      by (auto simp: unat_word_ariths elim!: oddE)
    have "unat d + 2 \<le> unat d * unat d" using less.prems(4) mult_le_mono [of 3 "unat d" "unat d" "unat d"] by linarith
    then have d3: "unat d + 2 < unat n" using True sq by (simp add: word_less_nat_alt)
    have "\<exists>e. isprime_loop n (d + 2) = Some e \<and> odd (unat e) \<and> 3 \<le> unat e \<and> unat e < unat n \<and> odd_free (unat n) (unat e) \<and>
        (unat n \<le> unat e * unat e \<or> unat e dvd unat n)"
      by (rule less.hyps) (use less.prems d2 d3 lt(2) odd_free_step in \<open>auto\<close>)
    then show ?thesis using True by (subst isprime_loop.simps) simp
  next
    case False
    then have "isprime_loop n d = Some d" by (subst isprime_loop.simps) auto
    then show ?thesis using less.prems False sq dv by (auto simp: word_less_nat_alt not_less)
  qed
qed

text \<open>The test is right for odd numbers other than 1, which passes, and 3, which does not.\<close>

lemma isprime_spec:
  assumes "odd (unat n)" "unat n < 65535 * 65535" "3 < unat n"
  shows "isprime n = Some (is_prime (unat n))"
proof -
  obtain e where e: "isprime_loop n 3 = Some e" "odd (unat e)" "3 \<le> unat e" "unat e < unat n" "odd_free (unat n) (unat e)"
      "unat n \<le> unat e * unat e \<or> unat e dvd unat n"
    using isprime_loop_spec [of n 3] assms odd_free_3 by auto
  have dv: "(n mod e = 0) = (unat e dvd unat n)" by (simp add: unat_mod dvd_eq_mod_eq_0 flip: unat_eq_0)
  have "is_prime (unat n)" if "\<not> unat e dvd unat n"
    by (rule odd_free_prime [OF e(5) _ e(2,3)]) (use that e(6) assms in auto)
  moreover have "\<not> is_prime (unat n)" if "unat e dvd unat n" using that e(3,4) by (auto simp: is_prime_def)
  ultimately show ?thesis using e(1) dv by (auto simp: isprime_def)
qed


lemma prime_65521: "is_prime 65521"
proof -
  have c: "\<forall>e \<in> set [3..257]. 65521 mod e \<noteq> (0 :: int)" by code_simp
  have i: "\<not> e dvd 65521" if "3 \<le> e" "e \<le> 257" for e :: int
    using bspec [OF c, of e] that by (simp only: dvd_eq_mod_eq_0 set_upto atLeastAtMost_iff) simp
  have n: "\<not> e dvd 65521" if "3 \<le> e" "e \<le> 257" for e :: nat
    using i [of "int e"] that int_dvd_int_iff [of e 65521] by simp
  show ?thesis by (rule odd_free_prime [of _ 257]) (use n in \<open>auto simp: odd_free_def\<close>)
qed

lemma not_prime_4: "\<not> is_prime 4"
  unfolding is_prime_def by (auto intro!: exI [of _ 2])

lemma isprime_1: "isprime 1 = Some True"
  by (simp add: isprime_def isprime_loop.simps [of 1 3])

lemma isprime_3: "isprime 3 = Some False"
  by (simp add: isprime_def isprime_loop.simps [of 3 3])

lemma next_prime_spec:
  assumes "odd (unat n)" "3 < unat n" "unat n \<le> p" "is_prime p" "p < 65535 * 65535"
  shows "\<exists>r. next_prime n = Some r \<and> unat n \<le> unat r \<and> unat r \<le> p \<and> is_prime (unat r) \<and>
    (\<forall>k. unat n \<le> k \<and> k < unat r \<longrightarrow> \<not> is_prime k)"
  using assms
proof (induction "p - unat n" arbitrary: n rule: less_induct)
  case less
  have i: "isprime n = Some (is_prime (unat n))" using less.prems by (intro isprime_spec) auto
  show ?case
  proof (cases "is_prime (unat n)")
    case True
    then show ?thesis using i less.prems by (subst next_prime.simps) auto
  next
    case False
    have even: "\<not> is_prime k" if "even k" "2 < k" for k
    proof
      assume "is_prime k"
      then have "2 = (1 :: nat) \<or> 2 = k" using that(1) unfolding is_prime_def by blast
      then show False using that(2) by simp
    qed
    have "unat n \<noteq> p" using False less.prems by auto
    then have lt: "unat n < p" using less.prems by simp
    have "odd p" using even [of p] less.prems(2,4) lt by linarith
    then have le: "unat n + 2 \<le> p" using lt less.prems(1) by (auto elim!: oddE)
    then have n2: "unat (n + 2) = unat n + 2" using less.prems by (simp add: unat_word_ariths)
    have "\<exists>r. next_prime (n + 2) = Some r \<and> unat (n + 2) \<le> unat r \<and> unat r \<le> p \<and> is_prime (unat r) \<and>
        (\<forall>k. unat (n + 2) \<le> k \<and> k < unat r \<longrightarrow> \<not> is_prime k)"
      by (rule less.hyps) (use less.prems le n2 in auto)
    then obtain r where r: "next_prime (n + 2) = Some r" "unat n + 2 \<le> unat r" "unat r \<le> p" "is_prime (unat r)"
        "\<forall>k. unat n + 2 \<le> k \<and> k < unat r \<longrightarrow> \<not> is_prime k" using n2 by auto
    have "\<not> is_prime k" if k: "unat n \<le> k" "k < unat r" for k
    proof -
      consider "k = unat n" | "k = unat n + 1" | "unat n + 2 \<le> k" using k(1) by atomize_elim arith
      then show ?thesis using False r(5) k(2) even [of k] less.prems(1,2) by cases auto
    qed
    then show ?thesis using r i False by (subst next_prime.simps) auto
  qed
qed

text \<open>The size of a new table is 1 or the first prime other than 3 that is not smaller.\<close>

lemma unat_or_1: "unat ((n :: u32) OR 1) = (if even (unat n) then unat n + 1 else unat n)"
proof -
  have "unat (n OR 1) = unat n OR 1" by (simp only: unsigned_or_eq unsigned_1)
  also have "\<dots> = (if even (unat n) then unat n + 1 else unat n)" by (simp only: or_one_eq) (auto simp: of_bool_def)
  finally show ?thesis .
qed

lemma table_size:
  assumes "unat nel \<le> 65521"
  shows "\<exists>r. next_prime (nel OR 1) = Some r \<and> unat nel \<le> unat r \<and> unat r \<le> 65521 \<and>
    (if unat nel \<le> 1 then unat r = 1 else is_prime (unat r) \<and> 5 \<le> unat r \<and> (\<forall>k. unat nel \<le> k \<and> k < unat r \<and> is_prime k \<longrightarrow> k \<le> 3))"
proof -
  let ?n = "nel OR 1"
  have n: "unat ?n = (if even (unat nel) then unat nel + 1 else unat nel)" "odd (unat ?n)" by (simp_all add: unat_or_1)
  consider "unat ?n = 1" | "unat ?n = 3" | "3 < unat ?n"
    using n(2) by atomize_elim presburger
  then show ?thesis
  proof cases
    case 1
    then have "?n = 1" by (simp add: word_unat_eq_iff)
    moreover have "unat nel \<le> 1" using 1 n by (auto split: if_splits)
    ultimately show ?thesis by (subst next_prime.simps) (simp add: isprime_1)
  next
    case 2
    then have e: "?n = 3" by (simp add: word_unat_eq_iff)
    have "5 mod (3 :: u32) = 2" by simp
    then have "isprime 5 = Some True" by (simp add: isprime_def isprime_loop.simps [of 5 3])
    then have "next_prime ?n = Some 5" unfolding e
      by (subst next_prime.simps) (simp add: isprime_3 next_prime.simps [of 5])
    moreover have "is_prime 5" by (rule odd_free_prime [of _ 3]) simp_all
    moreover have "k \<le> 3" if "k < 5" "is_prime k" for k
      using that not_prime_4 by (cases "k = 4") auto
    moreover have "2 \<le> unat nel" "unat nel \<le> 3" using 2 n by (auto split: if_splits)
    ultimately show ?thesis by (intro exI [of _ 5]) simp
  next
    case 3
    have le: "unat ?n \<le> 65521" using assms n by (auto split: if_splits)
    obtain r where r: "next_prime ?n = Some r" "unat ?n \<le> unat r" "unat r \<le> 65521" "is_prime (unat r)"
        "\<forall>k. unat ?n \<le> k \<and> k < unat r \<longrightarrow> \<not> is_prime k"
      using next_prime_spec [OF n(2) 3 le prime_65521] by auto
    have "k \<le> 3" if "unat nel \<le> k" "k < unat r" "is_prime k" for k
    proof (rule ccontr)
      assume "\<not> k \<le> 3"
      moreover have "\<not> unat ?n \<le> k" using r(5) that by blast
      then have "even (unat nel)" "k = unat nel" using that(1) n(1) by (auto split: if_splits)
      ultimately have "2 dvd k" "k \<noteq> 2" by auto
      then show False using that(3) unfolding is_prime_def by (metis one_eq_numeral_iff semiring_norm(85))
    qed
    moreover have "unat nel \<le> unat ?n" "\<not> unat nel \<le> 1" using n 3 by (auto split: if_splits)
    moreover have "unat r \<noteq> 4" using r(4) not_prime_4 by metis
    ultimately show ?thesis using r 3 by (intro exI [of _ r]) auto
  qed
qed

end
