(* ===== verification/HashTable.thy ===== *)
theory HashTable
  imports Hsearch
begin

text \<open>
  The hash table as a dictionary: the invariant of the table, the path a search follows, and what
  \<open>hsearch_r\<close> does to the dictionary that the table stands for.
\<close>

section \<open>The path of a search\<close>

definition prev_pos :: "nat \<Rightarrow> nat \<Rightarrow> nat \<Rightarrow> nat" where
  "prev_pos n d i = (if i \<le> d then n + i - d else i - d)"

definition hpath :: "nat \<Rightarrow> nat \<Rightarrow> nat \<Rightarrow> nat \<Rightarrow> nat" where
  "hpath n d h k = (prev_pos n d ^^ k) h"

lemma hpath_0 [simp]: "hpath n d h 0 = h"
  by (simp add: hpath_def)

lemma hpath_Suc: "hpath n d h (Suc k) = prev_pos n d (hpath n d h k)"
  by (simp add: hpath_def)

text \<open>In a table of prime size the path visits every position before it comes back to the first one.\<close>

definition prime_table :: "nat \<Rightarrow> nat \<Rightarrow> nat \<Rightarrow> bool" where
  "prime_table n d h \<longleftrightarrow> is_prime n \<and> 1 \<le> d \<and> d < n \<and> 1 \<le> h \<and> h \<le> n"

lemma path_range: "prime_table n d h \<Longrightarrow> 1 \<le> hpath n d h k \<and> hpath n d h k \<le> n"
proof (induction k)
  case (Suc k)
  then show ?case by (auto simp: hpath_Suc prev_pos_def prime_table_def)
qed (simp add: prime_table_def)

lemma hpath_cong: assumes "prime_table n d h" shows "(hpath n d h k + k * d) mod n = h mod n"
proof (induction k)
  case (Suc k)
  have "prev_pos n d (hpath n d h k) + d = hpath n d h k \<or> prev_pos n d (hpath n d h k) + d = hpath n d h k + n"
    using path_range [OF assms, of k] assms by (auto simp: prev_pos_def prime_table_def)
  moreover have "hpath n d h (Suc k) + Suc k * d = prev_pos n d (hpath n d h k) + d + k * d" by (simp add: hpath_Suc)
  ultimately have "hpath n d h (Suc k) + Suc k * d = hpath n d h k + k * d \<or>
      hpath n d h (Suc k) + Suc k * d = hpath n d h k + k * d + n" by linarith
  then show ?case using Suc.IH by (elim disjE) (simp_all only: mod_add_self2)
qed simp

lemma same_position: "1 \<le> a \<Longrightarrow> a \<le> n \<Longrightarrow> 1 \<le> b \<Longrightarrow> b \<le> n \<Longrightarrow> a mod n = b mod n \<Longrightarrow> a = (b :: nat)"
  by (cases "a = n"; cases "b = n") auto

lemma path_period: assumes "prime_table n d h" shows "hpath n d h n = h"
proof (rule same_position)
  show "hpath n d h n mod n = h mod n" using hpath_cong [OF assms, of n] by (simp only: mod_mult_self2)
qed (use path_range [OF assms, of n] assms in \<open>simp_all add: prime_table_def\<close>)

lemma path_inj:
  assumes p: "prime_table n d h" and "i < j" "j < n + i" shows "hpath n d h i \<noteq> hpath n d h j"
proof
  assume eq: "hpath n d h i = hpath n d h j"
  have "(hpath n d h i + j * d) mod n = (hpath n d h i + i * d) mod n"
    using hpath_cong [OF p, of i] hpath_cong [OF p, of j] eq by simp
  then have "n dvd (hpath n d h i + j * d) - (hpath n d h i + i * d)"
    using assms(2) by (subst (asm) mod_eq_dvd_iff_nat) auto
  then have "n dvd (j - i) * d" by (simp add: diff_mult_distrib)
  moreover have "gcd n d = 1"
  proof -
    have "gcd n d \<le> d" "gcd n d dvd n" using p by (auto simp: prime_table_def intro!: gcd_le2_nat)
    then show ?thesis using p unfolding is_prime_def prime_table_def by (metis not_less)
  qed
  ultimately have "n dvd j - i" by (simp add: coprime_iff_gcd_eq_1 coprime_dvd_mult_left_iff)
  then show False using assms by (auto dest!: dvd_imp_le)
qed

lemma path_covers:
  assumes p: "prime_table n d h" and a: "1 \<le> a" "a \<le> n"
  shows "\<exists>k < n. hpath n d h k = a"
proof -
  have "inj_on (hpath n d h) {..<n}"
  proof (rule linorder_inj_onI')
    fix i j assume "i \<in> {..<n}" "j \<in> {..<n}" "i < j"
    then show "hpath n d h i \<noteq> hpath n d h j" by (intro path_inj [OF p]) auto
  qed
  then have "card (hpath n d h ` {..<n}) = n" by (simp add: card_image)
  moreover have "hpath n d h ` {..<n} \<subseteq> {1..n}" using path_range [OF p] by auto
  ultimately have "hpath n d h ` {..<n} = {1..n}" by (intro card_subset_eq) auto
  then show ?thesis using a by (metis atLeastAtMost_iff image_iff lessThan_iff)
qed

lemma path_start:
  assumes "prime_table n d h" "0 < k" "k \<le> n"
  shows "hpath n d h k = h \<longleftrightarrow> k = n"
  using path_inj [OF assms(1), of 0 k] path_period [OF assms(1)] assms(2,3) by (cases "k < n") auto

section \<open>The loop\<close>

definition slot_used :: "slot list \<Rightarrow> nat \<Rightarrow> bool" where
  "slot_used t i \<longleftrightarrow> used (t ! i) \<noteq> 0"

definition stops :: "slot list \<Rightarrow> nat \<Rightarrow> nat \<Rightarrow> nat \<Rightarrow> nat \<Rightarrow> bool" where
  "stops t n d h k \<longleftrightarrow> 0 < k \<and> (hpath n d h k = h \<or> \<not> slot_used t (hpath n d h k)) \<and>
    (\<forall>j. 0 < j \<and> j < k \<longrightarrow> hpath n d h j \<noteq> h \<and> slot_used t (hpath n d h j))"

definition keys_ok :: "bmem \<Rightarrow> slot list \<Rightarrow> bool" where
  "keys_ok m t \<longleftrightarrow> (\<forall>i < length t. slot_used t i \<longrightarrow> ekey (entry (t ! i)) \<noteq> 0 \<and> (\<exists>s. cstr m (ekey (entry (t ! i))) s))"

definition key_at :: "bmem \<Rightarrow> slot list \<Rightarrow> u32 \<Rightarrow> byte list \<Rightarrow> nat \<Rightarrow> bool" where
  "key_at m t hval s i \<longleftrightarrow> used (t ! i) = hval \<and> cstr m (ekey (entry (t ! i))) s"

lemma slot_matches_spec:
  assumes "keys_ok m t" "i < length t" "cstr m key s" "key \<noteq> 0" "hval \<noteq> 0"
  shows "slot_matches m key hval (t ! i) = Some (key_at m t hval s i)"
proof (cases "used (t ! i) = hval")
  case True
  then obtain u where u: "ekey (entry (t ! i)) \<noteq> 0" "cstr m (ekey (entry (t ! i))) u"
    using assms unfolding keys_ok_def slot_used_def by auto
  then show ?thesis using True strcmp_spec [OF assms(3) u(2) assms(4) u(1)] cstr_unique
    by (auto simp: slot_matches_def key_at_def strcmp_val_eq_0)
qed (simp add: slot_matches_def key_at_def)

lemma unat_step_back:
  assumes "unat i \<le> unat n" "unat n < 2 ^ 31" "unat d \<le> unat n + unat i"
  shows "unat (step_back n d i) = prev_pos (unat n) (unat d) (unat i)"
proof (cases "i \<le> d")
  case True
  have "unat (n + i) = unat n + unat i" using assms by (intro unat_plus_simple [THEN iffD1] ) (simp add: no_olen_add_nat)
  then show ?thesis using True assms by (simp add: step_back_def prev_pos_def word_le_nat_alt unat_sub)
next
  case False
  then show ?thesis by (simp add: step_back_def prev_pos_def word_le_nat_alt unat_sub)
qed

lemma probe_spec:
  fixes sz hval hval2 :: u32
  defines "P \<equiv> hpath (unat sz) (unat hval2) (unat hval)"
  assumes t: "length t = unat sz + 1" "unat sz < 2 ^ 31" "keys_ok m t"
    and range: "\<And>j. j \<le> K \<Longrightarrow> P j \<le> unat sz" "\<And>j. j < K \<Longrightarrow> unat hval2 \<le> unat sz + P j"
    and key: "cstr m key s" "key \<noteq> 0" "hval \<noteq> 0"
    and stop: "stops t (unat sz) (unat hval2) (unat hval) K" and k: "k < K" "unat idx = P k"
  shows "\<exists>i b. probe m key t sz hval hval2 idx = Some (i, b) \<and>
    (if b then \<exists>j. k < j \<and> j < K \<and> key_at m t hval s (P j) \<and> unat i = P j
     else unat i = P K \<and> (\<forall>j. k < j \<and> j < K \<longrightarrow> \<not> key_at m t hval s (P j)))"
  using k
proof (induction "K - k" arbitrary: k idx rule: less_induct)
  case less
  let ?i = "step_back sz hval2 idx"
  have i: "unat ?i = P (Suc k)" using range(1) [of k] range(2) [of k] less.prems t(2)
    unfolding P_def hpath_Suc by (subst unat_step_back) (auto simp: P_def)
  have le: "P (Suc k) \<le> unat sz" using range(1) [of "Suc k"] less.prems(1) by simp
  have eq: "?i = hval \<longleftrightarrow> P (Suc k) = unat hval" using i by (simp add: word_unat_eq_iff)
  have at: "slot_at t ?i = Some (t ! P (Suc k))" using i le t(1) by (simp add: slot_at_def)
  have matches: "slot_matches m key hval (t ! P (Suc k)) = Some (key_at m t hval s (P (Suc k)))"
    using le t key by (intro slot_matches_spec) auto
  show ?case
  proof (cases "Suc k = K")
    case True
    then have "P (Suc k) = unat hval \<or> \<not> slot_used t (P (Suc k))" using stop by (simp add: stops_def P_def)
    then have "probe m key t sz hval hval2 idx = Some (?i, False)"
    proof
      assume "P (Suc k) = unat hval"
      then show ?thesis using eq by (subst probe.simps) (simp add: Let_def)
    next
      assume u: "\<not> slot_used t (P (Suc k))"
      then have "slot_matches m key hval (t ! P (Suc k)) = Some False"
        using key(3) by (simp add: slot_used_def slot_matches_def)
      then show ?thesis using u at by (subst probe.simps) (simp add: Let_def slot_used_def)
    qed
    then show ?thesis using i True by (intro exI [of _ ?i] exI [of _ False]) auto
  next
    case False
    then have lt: "Suc k < K" using less.prems(1) by simp
    then have on: "P (Suc k) \<noteq> unat hval" "slot_used t (P (Suc k))" using stop unfolding stops_def P_def by auto
    show ?thesis
    proof (cases "key_at m t hval s (P (Suc k))")
      case True
      then show ?thesis using on eq at matches i lt
        by (intro exI [of _ ?i] exI [of _ True], subst probe.simps) (auto simp: Let_def)
    next
      case no: False
      have "probe m key t sz hval hval2 idx = probe m key t sz hval hval2 ?i"
        using on eq at matches no by (subst probe.simps) (simp add: Let_def slot_used_def)
      moreover have "\<exists>i b. probe m key t sz hval hval2 ?i = Some (i, b) \<and>
          (if b then \<exists>j. Suc k < j \<and> j < K \<and> key_at m t hval s (P j) \<and> unat i = P j
           else unat i = P K \<and> (\<forall>j. Suc k < j \<and> j < K \<longrightarrow> \<not> key_at m t hval s (P j)))"
        by (rule less.hyps) (use lt i in auto)
      ultimately show ?thesis using no by (metis Suc_lessD Suc_lessI)
    qed
  qed
qed


section \<open>The dictionary\<close>

text \<open>The table stands for a map from strings to positions and data. A key is reached from the first position
  of its path over positions that are in use.\<close>

definition hash_val :: "byte list \<Rightarrow> u32" where
  "hash_val s = foldr (\<lambda>c h. push_bit 4 h + scast c) s (of_nat (length s))"

definition reached :: "slot list \<Rightarrow> nat \<Rightarrow> nat \<Rightarrow> nat \<Rightarrow> nat \<Rightarrow> bool" where
  "reached t n d h i \<longleftrightarrow> (\<exists>k. hpath n d h k = i \<and>
    (\<forall>j < k. slot_used t (hpath n d h j) \<and> (0 < j \<longrightarrow> hpath n d h j \<noteq> h)))"

definition first_pos :: "u32 \<Rightarrow> byte list \<Rightarrow> u32" where
  "first_pos sz s = first_index sz (hash_val s)"

definition step_size :: "u32 \<Rightarrow> byte list \<Rightarrow> u32" where
  "step_size sz s = 1 + first_pos sz s mod (sz - 2)"

definition size_ok :: "u32 \<Rightarrow> bool" where
  "size_ok sz \<longleftrightarrow> sz = 1 \<or> is_prime (unat sz) \<and> 5 \<le> unat sz \<and> unat sz < 2 ^ 31"

definition stored :: "bmem \<Rightarrow> u32 \<Rightarrow> slot list \<Rightarrow> byte list \<Rightarrow> nat \<Rightarrow> nat \<Rightarrow> bool" where
  "stored m sz t s i v \<longleftrightarrow> 1 \<le> i \<and> i \<le> unat sz \<and> used (t ! i) = first_pos sz s \<and>
    edata (entry (t ! i)) = v \<and> ekey (entry (t ! i)) \<noteq> 0 \<and> cstr m (ekey (entry (t ! i))) s \<and>
    reached t (unat sz) (unat (step_size sz s)) (unat (first_pos sz s)) i"

definition table_ok :: "bmem \<Rightarrow> u32 \<Rightarrow> slot list \<Rightarrow> (byte list \<rightharpoonup> nat \<times> nat) \<Rightarrow> bool" where
  "table_ok m sz t D \<longleftrightarrow> length t = unat sz + 1 \<and> size_ok sz \<and>
    (\<forall>s i v. D s = Some (i, v) \<longrightarrow> stored m sz t s i v) \<and>
    (\<forall>i < length t. slot_used t i \<longrightarrow> (\<exists>s v. D s = Some (i, v)))"

definition hrep :: "bmem \<Rightarrow> hsearch_data \<Rightarrow> (byte list \<rightharpoonup> nat \<times> nat) \<Rightarrow> bool" where
  "hrep m ht D \<longleftrightarrow> (\<exists>t. table ht = Some t \<and> table_ok m (hsize ht) t D \<and> unat (filled ht) = card (dom D))"

lemma hash_loop_spec: "cstr m p (s @ u) \<Longrightarrow> hash_loop m p h (length s) = Some (foldr (\<lambda>c h. push_bit 4 h + scast c) s h)"
proof (induction s arbitrary: h u rule: rev_induct)
  case (snoc c s)
  have "m (p + length s) = Some c" using cstr_block [OF snoc.prems] by (simp add: block_append block_Cons)
  then show ?case using snoc.IH [of "c # u"] snoc.prems by (simp add: ld_def)
qed simp

lemma first_index_range: "size_ok sz \<Longrightarrow> 1 \<le> unat (first_index sz h) \<and> unat (first_index sz h) \<le> unat sz \<and> first_index sz h \<noteq> 0"
proof -
  assume ok: "size_ok sz"
  have lt: "unat (h mod sz) < unat sz" using ok by (auto simp: unat_mod size_ok_def)
  show ?thesis
  proof (cases "h mod sz = 0")
    case True
    then show ?thesis using lt by (simp add: first_index_def Let_def)
  next
    case False
    then have "0 < unat (h mod sz)" by (simp add: unat_gt_0)
    then show ?thesis using lt False by (simp add: first_index_def Let_def)
  qed
qed

lemma first_index_less: "size_ok sz \<Longrightarrow> sz \<noteq> 1 \<Longrightarrow> unat (first_index sz h) < unat sz"
proof -
  assume ok: "size_ok sz" "sz \<noteq> 1"
  have lt: "unat (h mod sz) < unat sz" using ok by (auto simp: unat_mod size_ok_def)
  then show ?thesis using ok by (auto simp: first_index_def Let_def size_ok_def)
qed

lemma step_size_1 [simp]: "first_pos 1 s = 1" "step_size 1 s = 2"
proof -
  show one: "first_pos 1 s = 1" by (simp add: first_pos_def first_index_def)
  have "(1 :: u32) mod (1 - 2) = 1" by code_simp
  then show "step_size 1 s = 2" by (simp only: step_size_def one) simp
qed

lemma step_size_range:
  assumes "size_ok sz" "sz \<noteq> 1"
  shows "1 \<le> unat (step_size sz s) \<and> unat (step_size sz s) < unat sz"
proof -
  have 2: "unat (sz - 2) = unat sz - 2" using assms by (subst unat_sub) (auto simp: size_ok_def word_le_nat_alt)
  have "unat (first_pos sz s mod (sz - 2)) < unat sz - 2" using assms 2 by (auto simp: unat_mod size_ok_def)
  moreover from this have "unat (1 + first_pos sz s mod (sz - 2)) = 1 + unat (first_pos sz s mod (sz - 2))"
    using assms by (intro trans [OF unat_add_lem [THEN iffD1]]) (auto simp: size_ok_def)
  ultimately show ?thesis by (simp add: step_size_def)
qed

lemma table_is_prime:
  "size_ok sz \<Longrightarrow> sz \<noteq> 1 \<Longrightarrow> prime_table (unat sz) (unat (step_size sz s)) (unat (first_pos sz s))"
  using step_size_range [of sz s] first_index_range [of sz "hash_val s"]
  by (auto simp: prime_table_def size_ok_def first_pos_def)


lemma stored_used: "table_ok m sz t D \<Longrightarrow> D s = Some (i, v) \<Longrightarrow> 1 \<le> i \<and> i \<le> unat sz \<and> slot_used t i"
  using first_index_range [of sz "hash_val s"] by (auto simp: table_ok_def stored_def slot_used_def first_pos_def)

lemma stored_inj: "table_ok m sz t D \<Longrightarrow> D s = Some (i, v) \<Longrightarrow> D s' = Some (i, v') \<Longrightarrow> s = s' \<and> v = v'"
  using cstr_unique unfolding table_ok_def stored_def by blast

lemma table_keys_ok: "table_ok m sz t D \<Longrightarrow> keys_ok m t"
  unfolding keys_ok_def table_ok_def stored_def by blast

lemma used_stored: "table_ok m sz t D \<Longrightarrow> i \<le> unat sz \<Longrightarrow> slot_used t i \<Longrightarrow> \<exists>s v. D s = Some (i, v)"
  unfolding table_ok_def by (metis Suc_eq_plus1 less_Suc_eq_le)

lemma key_at_stored:
  assumes ok: "table_ok m sz t D" "i \<le> unat sz" "slot_used t i"
  shows "key_at m t (first_pos sz s) s i \<longleftrightarrow> (\<exists>v. D s = Some (i, v))"
proof
  assume k: "key_at m t (first_pos sz s) s i"
  obtain s' v where d: "D s' = Some (i, v)" using used_stored [OF ok] by blast
  then have "cstr m (ekey (entry (t ! i))) s'" using ok by (auto simp: table_ok_def stored_def)
  then have "s' = s" using k cstr_unique by (auto simp: key_at_def)
  then show "\<exists>v. D s = Some (i, v)" using d by blast
next
  assume "\<exists>v. D s = Some (i, v)"
  then show "key_at m t (first_pos sz s) s i" using ok(1) by (auto simp: table_ok_def stored_def key_at_def)
qed

lemma table_card:
  assumes ok: "table_ok m sz t D"
  shows "finite (dom D)" "card (dom D) = card {i \<in> {1..unat sz}. slot_used t i}"
proof -
  let ?f = "\<lambda>s. fst (the (D s))"
  have inj: "inj_on ?f (dom D)" by (rule inj_onI) (use stored_inj [OF ok] in \<open>force simp: dom_def\<close>)
  have img: "?f ` dom D = {i \<in> {1..unat sz}. slot_used t i}"
  proof
    show "?f ` dom D \<subseteq> {i \<in> {1..unat sz}. slot_used t i}" using stored_used [OF ok] by (force simp: dom_def)
    show "{i \<in> {1..unat sz}. slot_used t i} \<subseteq> ?f ` dom D"
    proof
      fix i assume "i \<in> {i \<in> {1..unat sz}. slot_used t i}"
      then obtain s v where "D s = Some (i, v)" using used_stored [OF ok, of i] by auto
      then show "i \<in> ?f ` dom D" by (force simp: dom_def image_def)
    qed
  qed
  have "finite (?f ` dom D)" unfolding img by simp
  then show "finite (dom D)" using inj by (rule finite_imageD)
  show "card (dom D) = card {i \<in> {1..unat sz}. slot_used t i}" using card_image [OF inj] img by simp
qed

lemma table_full:
  assumes ok: "table_ok m sz t D"
  shows "card (dom D) = unat sz \<longleftrightarrow> (\<forall>i. 1 \<le> i \<and> i \<le> unat sz \<longrightarrow> slot_used t i)"
proof -
  let ?S = "{i \<in> {1..unat sz}. slot_used t i}"
  have "card ?S = card {1..unat sz} \<longleftrightarrow> ?S = {1..unat sz}"
  proof
    assume "card ?S = card {1..unat sz}"
    then show "?S = {1..unat sz}" by (intro card_subset_eq) auto
  qed simp
  moreover have "?S = {1..unat sz} \<longleftrightarrow> (\<forall>i. 1 \<le> i \<and> i \<le> unat sz \<longrightarrow> slot_used t i)"
    unfolding set_eq_iff by (simp only: mem_Collect_eq atLeastAtMost_iff) blast
  ultimately show ?thesis unfolding table_card(2) [OF ok] by simp
qed

lemma path_stops:
  fixes sz :: u32
  assumes ok: "table_ok m sz t D" and first: "slot_used t (unat (first_pos sz s))"
  defines "P \<equiv> hpath (unat sz) (unat (step_size sz s)) (unat (first_pos sz s))"
  shows "\<exists>K. stops t (unat sz) (unat (step_size sz s)) (unat (first_pos sz s)) K \<and> (\<forall>j \<le> K. P j \<le> unat sz) \<and>
    (\<forall>j < K. unat (step_size sz s) \<le> unat sz + P j) \<and>
    (card (dom D) = unat sz \<or> 1 \<le> P K \<and> P K \<le> unat sz \<and> \<not> slot_used t (P K))"
proof (cases "sz = 1")
  case True
  have p: "P 0 = 1" "P (Suc 0) = 0" by (simp_all add: P_def True hpath_Suc prev_pos_def)
  have u: "\<not> slot_used t 0" using used_stored [OF ok, of 0] stored_used [OF ok] by force
  have "slot_used t i" if "1 \<le> i" "i \<le> unat sz" for i using first that True by (simp add: le_Suc_eq)
  then have c: "card (dom D) = unat sz" unfolding table_full [OF ok] by blast
  have "stops t (unat sz) (unat (step_size sz s)) (unat (first_pos sz s)) (Suc 0)"
    using p(2) u unfolding stops_def P_def by auto
  moreover have "P j \<le> unat sz" if "j \<le> Suc 0" for j using that p True by (cases j) auto
  moreover have "unat (step_size sz s) \<le> unat sz + P j" if "j < Suc 0" for j using that p True by simp
  ultimately show ?thesis using c by blast
next
  case False
  have "size_ok sz" using ok by (simp add: table_ok_def)
  then have p: "prime_table (unat sz) (unat (step_size sz s)) (unat (first_pos sz s))" using False by (rule table_is_prime)
  note r = path_range [OF p, folded P_def]
  let ?stop = "\<lambda>k. 0 < k \<and> (P k = unat (first_pos sz s) \<or> \<not> slot_used t (P k))"
  define K where "K = (LEAST k. ?stop k)"
  have n: "?stop (unat sz)" using path_period [OF p, folded P_def] p by (auto simp: prime_table_def)
  have K: "?stop K" "K \<le> unat sz" unfolding K_def using LeastI [of ?stop, OF n] Least_le [of ?stop, OF n] by auto
  have before: "P j \<noteq> unat (first_pos sz s) \<and> slot_used t (P j)" if "0 < j" "j < K" for j
    using not_less_Least [of j ?stop] that unfolding K_def by blast
  have "card (dom D) = unat sz \<or> \<not> slot_used t (P K)"
  proof (cases "slot_used t (P K)")
    case True
    then have "P K = unat (first_pos sz s)" using K(1) by blast
    then have e: "K = unat sz" using path_start [OF p, of K] K unfolding P_def by blast
    have "slot_used t i" if i: "1 \<le> i" "i \<le> unat sz" for i
    proof -
      obtain k where "k < unat sz" "P k = i" using path_covers [OF p i] unfolding P_def by blast
      then show ?thesis using before [of k] first e by (cases "k = 0") (auto simp: P_def)
    qed
    then show ?thesis unfolding table_full [OF ok] by blast
  qed simp
  then show ?thesis using K(1) before r p
    by (intro exI [of _ K]) (auto simp: stops_def prime_table_def simp flip: P_def intro: trans_le_add1)
qed


section \<open>Searching\<close>

lemma search_spec:
  fixes sz :: u32
  assumes ok: "table_ok m sz t D" and key: "cstr m key s" "key \<noteq> 0"
  shows "\<exists>i b. search m key t sz (first_pos sz s) = Some (i, b) \<and>
    (if b then \<exists>v. D s = Some (unat i, v)
     else D s = None \<and> (card (dom D) = unat sz \<and> unat i \<le> unat sz \<or>
       1 \<le> unat i \<and> unat i \<le> unat sz \<and> \<not> slot_used t (unat i) \<and>
       reached t (unat sz) (unat (step_size sz s)) (unat (first_pos sz s)) (unat i)))"
proof -
  let ?h = "first_pos sz s" and ?d = "step_size sz s"
  let ?P = "hpath (unat sz) (unat ?d) (unat ?h)"
  have t: "length t = unat sz + 1" "size_ok sz" using ok by (simp_all add: table_ok_def)
  then have sz: "unat sz < 2 ^ 31" by (auto simp: size_ok_def)
  have h: "1 \<le> unat ?h" "unat ?h \<le> unat sz" "?h \<noteq> 0" using first_index_range [OF t(2)] by (simp_all add: first_pos_def)
  have at: "slot_at t ?h = Some (t ! unat ?h)" using h t by (simp add: slot_at_def)
  have matches: "slot_matches m key ?h (t ! unat ?h) = Some (key_at m t ?h s (unat ?h))"
    using h t key by (intro slot_matches_spec [OF table_keys_ok [OF ok]]) auto
  have reach: "reached t (unat sz) (unat ?d) (unat ?h) i" if "D s = Some (i, v)" for i v
    using ok that by (auto simp: table_ok_def stored_def)
  show ?thesis
  proof (cases "slot_used t (unat ?h)")
    case False
    have "D s = None"
    proof (rule ccontr)
      assume "D s \<noteq> None"
      then obtain i v where d: "D s = Some (i, v)" by auto
      then obtain k where k: "?P k = i" "\<forall>j < k. slot_used t (?P j) \<and> (0 < j \<longrightarrow> ?P j \<noteq> unat ?h)"
        using reach unfolding reached_def by blast
      have "slot_used t i" using stored_used [OF ok d] by simp
      then show False using False k by (cases "k = 0") auto
    qed
    moreover have "reached t (unat sz) (unat ?d) (unat ?h) (unat ?h)" unfolding reached_def by (intro exI [of _ 0]) simp
    ultimately show ?thesis using False h at
      by (intro exI [of _ ?h] exI [of _ False]) (simp add: search_def slot_used_def)
  next
    case used: True
    show ?thesis
    proof (cases "key_at m t ?h s (unat ?h)")
      case True
      then have "\<exists>v. D s = Some (unat ?h, v)" using key_at_stored [OF ok h(2) used] by simp
      then show ?thesis using used at matches True
        by (intro exI [of _ ?h] exI [of _ True]) (simp add: search_def slot_used_def)
    next
      case no: False
      obtain K where K: "stops t (unat sz) (unat ?d) (unat ?h) K" "\<And>j. j \<le> K \<Longrightarrow> ?P j \<le> unat sz"
          "\<And>j. j < K \<Longrightarrow> unat ?d \<le> unat sz + ?P j"
          "card (dom D) = unat sz \<or> 1 \<le> ?P K \<and> ?P K \<le> unat sz \<and> \<not> slot_used t (?P K)"
        using path_stops [OF ok used] by blast
      have before: "?P j \<noteq> unat ?h \<and> slot_used t (?P j)" if "0 < j" "j < K" for j using K(1) that by (simp add: stops_def)
      have pos: "0 < K" "?P K = unat ?h \<or> \<not> slot_used t (?P K)" using K(1) by (simp_all add: stops_def)
      obtain i b where p: "probe m key t sz ?h ?d ?h = Some (i, b)"
          "if b then \<exists>j. 0 < j \<and> j < K \<and> key_at m t ?h s (?P j) \<and> unat i = ?P j
           else unat i = ?P K \<and> (\<forall>j. 0 < j \<and> j < K \<longrightarrow> \<not> key_at m t ?h s (?P j))"
        using probe_spec [OF t(1) sz table_keys_ok [OF ok] K(2,3) key h(3) K(1) pos(1), of ?h] by auto
      have search: "search m key t sz ?h = Some (i, b)"
        using used at matches no p(1) by (simp add: search_def slot_used_def step_size_def)
      show ?thesis
      proof (cases b)
        case True
        then obtain j where j: "0 < j" "j < K" "key_at m t ?h s (?P j)" "unat i = ?P j" using p(2) by auto
        then have "\<exists>v. D s = Some (unat i, v)" using key_at_stored [OF ok K(2), of j] before [of j] by simp
        then show ?thesis using search True by auto
      next
        case False
        have "D s = None"
        proof (rule ccontr)
          assume "D s \<noteq> None"
          then obtain i' v where d: "D s = Some (i', v)" by auto
          have u: "slot_used t i'" "i' \<le> unat sz" using stored_used [OF ok d] by simp_all
          obtain k where k: "?P k = i'" "\<forall>j < k. slot_used t (?P j) \<and> (0 < j \<longrightarrow> ?P j \<noteq> unat ?h)"
            using reach [OF d] unfolding reached_def by blast
          have m: "key_at m t ?h s i'" using key_at_stored [OF ok u(2,1)] d by blast
          have "i' \<noteq> unat ?h" using m no by auto
          then have "k \<noteq> 0" using k(1) by (cases k) auto
          moreover have "\<not> K \<le> k"
          proof
            assume "K \<le> k"
            then show False using k u pos \<open>i' \<noteq> unat ?h\<close> by (cases "K = k") auto
          qed
          ultimately show False using p(2) False m k(1) by auto
        qed
        moreover have "reached t (unat sz) (unat ?d) (unat ?h) (?P K)"
          unfolding reached_def using before used by (intro exI [of _ K]) (metis bot_nat_0.not_eq_extremum hpath_0)
        moreover have "unat i = ?P K" "?P K \<le> unat sz" using p(2) False K(2) by auto
        ultimately show ?thesis using search False K(4) by auto
      qed
    qed
  qed
qed

lemma reached_mono:
  assumes "reached t n d h i" "\<And>j. slot_used t j \<Longrightarrow> slot_used u j" shows "reached u n d h i"
  using assms unfolding reached_def by blast

text \<open>Changing the data of an entry, and adding an entry.\<close>

lemma set_data_ok:
  assumes ok: "table_ok m sz t D" and s: "D s = Some (i, v)"
  shows "table_ok m sz (t[i := (t ! i)\<lparr>entry := (entry (t ! i))\<lparr>edata := w\<rparr>\<rparr>]) (D(s \<mapsto> (i, w)))"
proof -
  let ?t = "t[i := (t ! i)\<lparr>entry := (entry (t ! i))\<lparr>edata := w\<rparr>\<rparr>]"
  have i: "i < length t" using stored_used [OF ok s] ok by (simp add: table_ok_def)
  have same: "used (?t ! j) = used (t ! j)" "ekey (entry (?t ! j)) = ekey (entry (t ! j))"
    "edata (entry (?t ! j)) = (if j = i then w else edata (entry (t ! j)))" for j
    using i by (cases "j = i"; simp)+
  have u: "slot_used ?t j = slot_used t j" for j by (simp add: slot_used_def same)
  have "stored m sz ?t s' j x" if d: "(D(s \<mapsto> (i, w))) s' = Some (j, x)" for s' j x
  proof -
    obtain y where y: "D s' = Some (j, y)" "x = (if j = i then w else y)"
    proof (cases "s' = s")
      case False
      then have "D s' = Some (j, x)" "j \<noteq> i" using d stored_inj [OF ok s, of s'] by auto
      then show ?thesis by (intro that [of x]) auto
    qed (use d s that in auto)
    then have "stored m sz t s' j y" using ok by (simp add: table_ok_def)
    then show ?thesis using y(2) reached_mono [of t _ _ _ j ?t] by (auto simp: stored_def same u)
  qed
  moreover have "\<exists>s' x. (D(s \<mapsto> (i, w))) s' = Some (j, x)" if j: "j < length t" "slot_used t j" for j
  proof -
    obtain s' x where "D s' = Some (j, x)" using j ok unfolding table_ok_def by blast
    then show ?thesis using s by (cases "s' = s") auto
  qed
  ultimately show ?thesis using ok u unfolding table_ok_def by (auto simp del: fun_upd_apply)
qed

lemma add_entry_ok:
  assumes ok: "table_ok m sz t D" and s: "D s = None" and i: "1 \<le> i" "i \<le> unat sz" "\<not> slot_used t i"
    and r: "reached t (unat sz) (unat (step_size sz s)) (unat (first_pos sz s)) i"
    and key: "cstr m (ekey item) s" "ekey item \<noteq> 0"
  shows "table_ok m sz (t[i := (t ! i)\<lparr>used := first_pos sz s, entry := item\<rparr>]) (D(s \<mapsto> (i, edata item)))"
proof -
  let ?t = "t[i := (t ! i)\<lparr>used := first_pos sz s, entry := item\<rparr>]"
  have sz: "size_ok sz" "length t = unat sz + 1" using ok by (simp_all add: table_ok_def)
  have h: "first_pos sz s \<noteq> 0" using first_index_range [OF sz(1)] by (simp add: first_pos_def)
  have at: "?t ! j = (if j = i then (t ! i)\<lparr>used := first_pos sz s, entry := item\<rparr> else t ! j)" for j
    using i sz by simp
  have u: "slot_used ?t j \<longleftrightarrow> j = i \<or> slot_used t j" for j using h by (simp add: slot_used_def at)
  have "stored m sz ?t s' j x" if d: "(D(s \<mapsto> (i, edata item))) s' = Some (j, x)" for s' j x
  proof (cases "s' = s")
    case True
    then have "j = i" "x = edata item" using d by auto
    then show ?thesis using True i key reached_mono [OF r, of ?t] u by (simp add: stored_def at)
  next
    case False
    then have y: "D s' = Some (j, x)" using d by simp
    then have "stored m sz t s' j x" "j \<noteq> i" using ok stored_used [OF ok y] i by (auto simp: table_ok_def)
    then show ?thesis using reached_mono [of t _ _ _ j ?t] u by (auto simp: stored_def at)
  qed
  moreover have "\<exists>s' x. (D(s \<mapsto> (i, edata item))) s' = Some (j, x)" if j: "j < length t" "slot_used ?t j" for j
  proof (cases "j = i")
    case False
    then obtain s' x where d: "D s' = Some (j, x)" using j u ok unfolding table_ok_def by blast
    then have "s' \<noteq> s" using s by auto
    then show ?thesis using d by auto
  qed auto
  ultimately show ?thesis using sz unfolding table_ok_def by (auto simp del: fun_upd_apply)
qed


lemma hsearch_r_spec:
  assumes rep: "hrep m ht D" and key: "cstr m (ekey item) s" "ekey item \<noteq> 0"
  shows "case D s of
      Some (i, v) \<Rightarrow> hsearch_r m item FIND ht = Some (ht, Inr i) \<and>
        (\<exists>ht'. hsearch_r m item ENTER ht = Some (ht', Inr i) \<and> hsize ht' = hsize ht \<and> hrep m ht' (D(s \<mapsto> (i, edata item))))
    | None \<Rightarrow> hsearch_r m item FIND ht = Some (ht, Inl ESRCH) \<and>
        (if card (dom D) = unat (hsize ht) then hsearch_r m item ENTER ht = Some (ht, Inl ENOMEM)
         else \<exists>ht' i. hsearch_r m item ENTER ht = Some (ht', Inr i) \<and> 1 \<le> i \<and> i \<le> unat (hsize ht) \<and>
           (\<forall>s' v. D s' \<noteq> Some (i, v)) \<and> hsize ht' = hsize ht \<and> hrep m ht' (D(s \<mapsto> (i, edata item))))"
proof -
  let ?sz = "hsize ht"
  obtain t where t: "table ht = Some t" "table_ok m ?sz t D" "unat (filled ht) = card (dom D)"
    using rep unfolding hrep_def by auto
  have len: "length t = unat ?sz + 1" "size_ok ?sz" using t(2) by (simp_all add: table_ok_def)
  have hash: "hash_loop m (ekey item) (of_nat (length s)) (length s) = Some (hash_val s)"
    using hash_loop_spec [of m "ekey item" s "[]"] key(1) by (simp add: hash_val_def)
  obtain i b where srch: "search m (ekey item) t ?sz (first_pos ?sz s) = Some (i, b)"
      "if b then \<exists>v. D s = Some (unat i, v)
       else D s = None \<and> (card (dom D) = unat ?sz \<and> unat i \<le> unat ?sz \<or>
         1 \<le> unat i \<and> unat i \<le> unat ?sz \<and> \<not> slot_used t (unat i) \<and>
         reached t (unat ?sz) (unat (step_size ?sz s)) (unat (first_pos ?sz s)) (unat i))"
    using search_spec [OF t(2) key] by blast
  have le: "unat i \<le> unat ?sz" using srch(2) stored_used [OF t(2)] by (auto split: if_splits)
  then have at: "slot_at t i = Some (t ! unat i)" using len by (simp add: slot_at_def)
  note ev = hsearch_r_def strlen_spec [OF key] hash t(1) srch(1) first_pos_def [symmetric] at Let_def
  show ?thesis
  proof (cases b)
    case True
    then obtain v where v: "D s = Some (unat i, v)" using srch(2) by auto
    have "hrep m (ht\<lparr>table := Some (t[unat i := (t ! unat i)\<lparr>entry := (entry (t ! unat i))\<lparr>edata := edata item\<rparr>\<rparr>])\<rparr>)
        (D(s \<mapsto> (unat i, edata item)))"
      using set_data_ok [OF t(2) v] t(3) v unfolding hrep_def by (auto simp: insert_absorb domI)
    then show ?thesis using v True by (simp add: ev)
  next
    case False
    then have n: "D s = None" "card (dom D) = unat ?sz \<or>
         1 \<le> unat i \<and> \<not> slot_used t (unat i) \<and>
         reached t (unat ?sz) (unat (step_size ?sz s)) (unat (first_pos ?sz s)) (unat i)" using srch(2) by auto
    have full: "filled ht = ?sz \<longleftrightarrow> card (dom D) = unat ?sz" using t(3) by (metis word_unat_eq_iff)
    have find: "hsearch_r m item FIND ht = Some (ht, Inl ESRCH)" using False by (simp add: ev)
    show ?thesis
    proof (cases "card (dom D) = unat ?sz")
      case True
      then show ?thesis using n find full False by (simp add: ev)
    next
      case room: False
      let ?t = "t[unat i := (t ! unat i)\<lparr>used := first_pos ?sz s, entry := item\<rparr>]"
      have free: "1 \<le> unat i" "\<not> slot_used t (unat i)" using n(2) room by auto
      have "card {j \<in> {1..unat ?sz}. slot_used t j} \<le> card {1..unat ?sz}" by (intro card_mono) auto
      then have "card (dom D) \<le> unat ?sz" using table_card(2) [OF t(2)] by simp
      moreover have "unat ?sz < 2 ^ 31" using len(2) by (auto simp: size_ok_def)
      ultimately have "unat (filled ht + 1) = card (dom D) + 1" using t(3) by (simp add: unat_word_ariths)
      moreover have "card (dom (D(s \<mapsto> (unat i, edata item)))) = card (dom D) + 1"
        using n(1) table_card(1) [OF t(2)] by (auto simp: card_insert_if domIff)
      moreover have "table_ok m ?sz ?t (D(s \<mapsto> (unat i, edata item)))"
        using add_entry_ok [OF t(2) n(1) free(1) le free(2) _ key] n(2) room by blast
      ultimately have "hrep m (ht\<lparr>table := Some ?t, filled := filled ht + 1\<rparr>) (D(s \<mapsto> (unat i, edata item)))"
        unfolding hrep_def by simp
      moreover have "D s' \<noteq> Some (unat i, v)" for s' v using stored_used [OF t(2)] free(2) by blast
      ultimately show ?thesis using n find full False room free(1) le by (simp add: ev)
    qed
  qed
qed


section \<open>Creating a table\<close>

lemma new_table_ok:
  "size_ok sz \<Longrightarrow> unat sz < 2 ^ 31 \<Longrightarrow>
    table_ok m sz (replicate (unat (sz + 1)) \<lparr>used = 0, entry = \<lparr>ekey = 0, edata = 0\<rparr>\<rparr>) Map.empty"
proof -
  assume ok: "size_ok sz" "unat sz < 2 ^ 31"
  then have "unat (sz + 1) = unat sz + 1" by (simp add: unat_word_ariths)
  then show ?thesis using ok(1) unfolding table_ok_def slot_used_def by (simp del: replicate_Suc add: nth_replicate)
qed

lemma hcreate_r_spec:
  assumes "table ht = None" "unat nel \<le> 65521"
  shows "\<exists>r. next_prime (nel OR 1) = Some r \<and> unat nel \<le> unat r \<and> unat r \<le> 65521 \<and>
    (if calloc (r + 1) 12
     then \<exists>ht'. hcreate_r calloc nel (Some ht) = Some (Some ht', Inr True) \<and> hsize ht' = r \<and> hrep m ht' Map.empty
     else \<exists>ht'. hcreate_r calloc nel (Some ht) = Some (Some ht', Inr False) \<and> table ht' = None)"
proof -
  obtain r where r: "next_prime (nel OR 1) = Some r" "unat nel \<le> unat r" "unat r \<le> 65521"
      "if unat nel \<le> 1 then unat r = 1 else is_prime (unat r) \<and> 5 \<le> unat r \<and> (\<forall>k. unat nel \<le> k \<and> k < unat r \<and> is_prime k \<longrightarrow> k \<le> 3)"
    using table_size [OF assms(2)] by blast
  have "size_ok r" using r by (auto simp: size_ok_def word_unat_eq_iff split: if_splits)
  then have "hrep m ht' Map.empty" if "hsize ht' = r" "filled ht' = 0"
      "table ht' = Some (replicate (unat (r + 1)) \<lparr>used = 0, entry = \<lparr>ekey = 0, edata = 0\<rparr>\<rparr>)" for ht'
    using that r new_table_ok [of r m] unfolding hrep_def by auto
  then show ?thesis using assms(1) r by (intro exI [of _ r]) (auto simp: hcreate_r_def Let_def)
qed


section \<open>Sequences of calls\<close>

text \<open>What the calls of \<open>hsearch_r\<close> on one table return (the data of the entry, or the error), and what a dictionary
  with room for \<open>n\<close> entries returns.\<close>

fun hrun :: "bmem \<Rightarrow> hsearch_data \<Rightarrow> (entry \<times> action) list \<Rightarrow> (hash_error + nat) list option" where
  "hrun m ht [] = Some []"
| "hrun m ht ((item, act) # calls) =
    do { (ht, r) \<leftarrow> hsearch_r m item act ht;
         t \<leftarrow> table ht;
         rs \<leftarrow> hrun m ht calls;
         Some ((case r of Inl e \<Rightarrow> Inl e | Inr i \<Rightarrow> Inr (edata (entry (t ! i)))) # rs) }"

fun drun :: "nat \<Rightarrow> (byte list \<rightharpoonup> nat) \<Rightarrow> (byte list \<times> nat \<times> action) list \<Rightarrow> (hash_error + nat) list" where
  "drun n D [] = []"
| "drun n D ((s, v, FIND) # calls) = (case D s of None \<Rightarrow> Inl ESRCH | Some w \<Rightarrow> Inr w) # drun n D calls"
| "drun n D ((s, v, ENTER) # calls) =
    (if D s = None \<and> card (dom D) = n then Inl ENOMEM # drun n D calls else Inr v # drun n (D(s \<mapsto> v)) calls)"

definition call_key :: "bmem \<Rightarrow> entry \<times> action \<Rightarrow> byte list \<times> nat \<times> action \<Rightarrow> bool" where
  "call_key m x y \<longleftrightarrow> cstr m (ekey (fst x)) (fst y) \<and> ekey (fst x) \<noteq> 0 \<and> edata (fst x) = fst (snd y) \<and> snd x = snd (snd y)"

lemma hrep_data:
  assumes "hrep m ht D" "D s = Some (i, v)"
  shows "\<exists>t. table ht = Some t \<and> edata (entry (t ! i)) = v"
  using assms unfolding hrep_def table_ok_def stored_def by blast

lemma hrep_table: "hrep m ht D \<Longrightarrow> \<exists>t. table ht = Some t"
  by (auto simp: hrep_def)

lemma map_snd_upd: "(\<lambda>u. map_option snd ((D(s \<mapsto> (i, v))) u)) = (\<lambda>u. map_option snd (D u))(s \<mapsto> v)"
  by auto

lemma dom_map_snd: "dom (\<lambda>s. map_option snd (D s)) = dom D"
  by (auto simp: dom_def)

lemma hrun_spec:
  assumes "list_all2 (call_key m) calls ops" "hrep m ht D"
  shows "hrun m ht calls = Some (drun (unat (hsize ht)) (\<lambda>u. map_option snd (D u)) ops)"
  using assms
proof (induction calls ops arbitrary: ht D rule: list_all2_induct)
  case (Cons x calls y ops)
  obtain item act s v where xy: "x = (item, act)" "y = (s, v, act)" "cstr m (ekey item) s" "ekey item \<noteq> 0" "edata item = v"
    using Cons.hyps(1) by (cases x; cases y) (auto simp: call_key_def)
  note spec = hsearch_r_spec [OF Cons.prems xy(3,4)]
  obtain t where t: "table ht = Some t" using hrep_table [OF Cons.prems] by blast
  show ?case
  proof (cases act)
    case FIND
    then show ?thesis using spec t Cons.IH [OF Cons.prems] hrep_data [OF Cons.prems, of s]
      by (auto simp: xy(1,2) split: option.splits)
  next
    case ENTER
    show ?thesis
    proof (cases "D s = None \<and> card (dom D) = unat (hsize ht)")
      case True
      then show ?thesis using spec t Cons.IH [OF Cons.prems] ENTER by (simp add: xy(1,2) dom_map_snd)
    next
      case False
      then obtain ht' i where h: "hsearch_r m item ENTER ht = Some (ht', Inr i)" "hsize ht' = hsize ht"
          "hrep m ht' (D(s \<mapsto> (i, v)))"
        using spec xy(5) by (cases "D s") (auto split: if_splits simp del: fun_upd_apply)
      obtain t' where "table ht' = Some t'" "edata (entry (t' ! i)) = v" using hrep_data [OF h(3), of s] by auto
      then show ?thesis using h Cons.IH [OF h(3)] False ENTER
        by (simp add: xy(1,2) dom_map_snd map_snd_upd del: fun_upd_apply)
    qed
  qed
qed simp


section \<open>Properties\<close>

text \<open>\<open>hcreate_r\<close> always returns. The size of the table is the first prime that is not smaller than the number
  asked for (1 for at most one entry, never 3).\<close>

theorem hcreate_r_size:
  assumes "table ht = None" "unat nel \<le> 65521"
  shows "\<exists>ht' ok. hcreate_r calloc nel (Some ht) = Some (Some ht', Inr ok) \<and> unat nel \<le> unat (hsize ht') \<and>
    (if unat nel \<le> 1 then hsize ht' = 1
     else is_prime (unat (hsize ht')) \<and> (\<forall>k. unat nel \<le> k \<and> k < unat (hsize ht') \<and> is_prime k \<longrightarrow> k \<le> 3))"
proof -
  obtain r where r: "next_prime (nel OR 1) = Some r" "unat nel \<le> unat r"
      "if unat nel \<le> 1 then unat r = 1 else is_prime (unat r) \<and> 5 \<le> unat r \<and> (\<forall>k. unat nel \<le> k \<and> k < unat r \<and> is_prime k \<longrightarrow> k \<le> 3)"
    using table_size [OF assms(2)] by blast
  have "r = 1" if "unat r = 1" using that by (simp add: word_unat_eq_iff)
  then show ?thesis using assms(1) r by (auto simp: hcreate_r_def Let_def)
qed

theorem hcreate_r_size_witness:
  "\<exists>ht' ok. hcreate_r (\<lambda>_ _. True) 24 (Some htab0) = Some (Some ht', Inr ok) \<and> is_prime (unat (hsize ht'))"
  using hcreate_r_size [of htab0 24 "\<lambda>_ _. True"] by (auto simp: htab0_def)

text \<open>C5: A table made by \<open>hcreate_r\<close> is a dictionary: every sequence of calls of \<open>hsearch_r\<close> returns what a map from
  strings to data with room for as many entries as the size of the table returns. Every search ends.\<close>

theorem hash_table_is_dictionary:
  assumes "hcreate_r calloc nel (Some ht0) = Some (Some ht, Inr True)" "table ht0 = None" "unat nel \<le> 65521"
    and "list_all2 (call_key m) calls ops"
  shows "hrun m ht calls = Some (drun (unat (hsize ht)) Map.empty ops)"
proof -
  have "hrep m ht Map.empty" using hcreate_r_spec [OF assms(2,3), of calloc m] assms(1) by (auto split: if_splits)
  then show ?thesis using hrun_spec [OF assms(4)] by (simp add: comp_def)
qed

theorem hash_table_is_dictionary_witness:
  "\<exists>ht. hcreate_r (\<lambda>_ _. True) 1 (Some htab0) = Some (Some ht, Inr True) \<and>
    hrun [1 \<mapsto> 97, 2 \<mapsto> 0, 3 \<mapsto> 98, 4 \<mapsto> 0] ht
      [(\<lparr>ekey = 1, edata = 10\<rparr>, ENTER), (\<lparr>ekey = 3, edata = 0\<rparr>, FIND), (\<lparr>ekey = 3, edata = 7\<rparr>, ENTER), (\<lparr>ekey = 1, edata = 0\<rparr>, FIND)] =
    Some [Inr 10, Inl ESRCH, Inl ENOMEM, Inr 10]"
proof -
  obtain r where r: "next_prime (1 OR 1) = Some r" "if (True :: bool)
     then \<exists>ht'. hcreate_r (\<lambda>_ _. True) 1 (Some htab0) = Some (Some ht', Inr True) \<and> hsize ht' = r \<and> hrep Map.empty ht' Map.empty
     else \<exists>ht'. hcreate_r (\<lambda>_ _. True) 1 (Some htab0) = Some (Some ht', Inr False) \<and> table ht' = None"
    using hcreate_r_spec [of htab0 1 "\<lambda>_ _. True" Map.empty] by (auto simp: htab0_def)
  have "r = 1" using r(1) by (simp add: next_prime.simps [of 1] isprime_1)
  then obtain ht where ht: "hcreate_r (\<lambda>_ _. True) 1 (Some htab0) = Some (Some ht, Inr True)" "hsize ht = 1" using r(2) by auto
  let ?m = "[1 \<mapsto> 97, 2 \<mapsto> 0, 3 \<mapsto> 98, 4 \<mapsto> 0] :: bmem"
  have "list_all2 (call_key ?m)
      [(\<lparr>ekey = 1, edata = 10\<rparr>, ENTER), (\<lparr>ekey = 3, edata = 0\<rparr>, FIND), (\<lparr>ekey = 3, edata = 7\<rparr>, ENTER), (\<lparr>ekey = 1, edata = 0\<rparr>, FIND)]
      [([97], 10, ENTER), ([98], 0, FIND), ([98], 7, ENTER), ([97], 0, FIND)]"
    by (simp add: call_key_def cstr_simps)
  from hash_table_is_dictionary [OF ht(1) _ _ this] show ?thesis using ht by (intro exI [of _ ht]) (simp add: htab0_def)
qed

end
