(* ===== verification/Tsearch.thy ===== *)
theory Tsearch
  imports Sorting
begin

text \<open>
  The search trees of \<^verbatim>\<open>misc/tsearch.c\<close>: the nodes in memory and the operations. A \<open>node *\<close> is the
  address of a node, 0 is \<open>NULL\<close>; a \<open>node **\<close> is a location, which is the variable of the caller that holds the
  root, or the left or the right pointer of a node. Reading or writing a node that is not there is \<open>None\<close>,
  and so is a loop that never ends. Keys are of any type; the comparison function is a parameter. New
  nodes come from \<open>malloc\<close>, the argument \<open>q\<close> of \<open>tsearch\<close> is the address it returns; \<open>free\<close> removes the node.
\<close>

record 'k node_t =
  nkey :: 'k
  nleft :: nat
  nright :: nat
  nred :: bool

record 'k tree_mem =
  rootv :: nat
  nodes :: "nat \<rightharpoonup> 'k node_t"

datatype loc = Root | LeftOf nat | RightOf nat

section \<open>Access\<close>

definition get :: "'k tree_mem \<Rightarrow> loc \<Rightarrow> nat option" where
  "get s l = (case l of Root \<Rightarrow> Some (rootv s) | LeftOf a \<Rightarrow> map_option nleft (nodes s a) | RightOf a \<Rightarrow> map_option nright (nodes s a))"

definition modify :: "'k tree_mem \<Rightarrow> nat \<Rightarrow> ('k node_t \<Rightarrow> 'k node_t) \<Rightarrow> 'k tree_mem option" where
  "modify s a f = (case nodes s a of None \<Rightarrow> None | Some n \<Rightarrow> Some (s\<lparr>nodes := (nodes s)(a \<mapsto> f n)\<rparr>))"

definition assign :: "'k tree_mem \<Rightarrow> loc \<Rightarrow> nat \<Rightarrow> 'k tree_mem option" where
  "assign s l v =
    (case l of
       Root \<Rightarrow> Some (s\<lparr>rootv := v\<rparr>)
     | LeftOf a \<Rightarrow> modify s a (\<lambda>n. n\<lparr>nleft := v\<rparr>)
     | RightOf a \<Rightarrow> modify s a (\<lambda>n. n\<lparr>nright := v\<rparr>))"

definition paint :: "'k tree_mem \<Rightarrow> nat \<Rightarrow> bool \<Rightarrow> 'k tree_mem option" where
  "paint s a c = modify s a (\<lambda>n. n\<lparr>nred := c\<rparr>)"

text \<open>\<open>p != NULL && p->red\<close>.\<close>

definition is_red :: "'k tree_mem \<Rightarrow> nat \<Rightarrow> bool option" where
  "is_red s a = (if a = 0 then Some False else map_option nred (nodes s a))"

section \<open>\<open>tsearch\<close>\<close>

text \<open>The two rotations: the child becomes the top, or its parent does.\<close>

definition rotate_child :: "'k tree_mem \<Rightarrow> nat \<Rightarrow> nat \<Rightarrow> nat \<Rightarrow> loc \<Rightarrow> int \<Rightarrow> 'k tree_mem option" where
  "rotate_child s root p gp gparentp p_r =
    do { s \<leftarrow> paint s p True;
         s \<leftarrow> paint s gp True;
         s \<leftarrow> paint s root False;
         s \<leftarrow> (if p_r < 0
              then do { v \<leftarrow> get s (RightOf root); s \<leftarrow> assign s (LeftOf p) v; s \<leftarrow> assign s (RightOf root) p;
                        v \<leftarrow> get s (LeftOf root); s \<leftarrow> assign s (RightOf gp) v; assign s (LeftOf root) gp }
              else do { v \<leftarrow> get s (LeftOf root); s \<leftarrow> assign s (RightOf p) v; s \<leftarrow> assign s (LeftOf root) p;
                        v \<leftarrow> get s (RightOf root); s \<leftarrow> assign s (LeftOf gp) v; assign s (RightOf root) gp });
         assign s gparentp root }"

definition rotate_parent :: "'k tree_mem \<Rightarrow> nat \<Rightarrow> nat \<Rightarrow> loc \<Rightarrow> int \<Rightarrow> 'k tree_mem option" where
  "rotate_parent s p gp gparentp p_r =
    do { s \<leftarrow> assign s gparentp p;
         s \<leftarrow> paint s p False;
         s \<leftarrow> paint s gp True;
         (if p_r < 0
          then do { v \<leftarrow> get s (RightOf p); s \<leftarrow> assign s (LeftOf gp) v; assign s (RightOf p) gp }
          else do { v \<leftarrow> get s (LeftOf p); s \<leftarrow> assign s (RightOf gp) v; assign s (LeftOf p) gp }) }"

definition maybe_split_for_insert ::
    "'k tree_mem \<Rightarrow> loc \<Rightarrow> loc option \<Rightarrow> loc option \<Rightarrow> int \<Rightarrow> int \<Rightarrow> bool \<Rightarrow> 'k tree_mem option" where
  "maybe_split_for_insert s rootp parentp gparentp p_r gp_r mode =
    do { root \<leftarrow> get s rootp;
         rp \<leftarrow> get s (RightOf root);
         lp \<leftarrow> get s (LeftOf root);
         both \<leftarrow> (if rp \<noteq> 0 \<and> lp \<noteq> 0 then do { a \<leftarrow> is_red s rp; if a then is_red s lp else Some False } else Some False);
         if mode \<or> both
         then do { s \<leftarrow> paint s root True;
                   s \<leftarrow> (if rp \<noteq> 0 then paint s rp False else Some s);
                   s \<leftarrow> (if lp \<noteq> 0 then paint s lp False else Some s);
                   (case parentp of
                      None \<Rightarrow> Some s
                    | Some parentp \<Rightarrow>
                        do { p \<leftarrow> get s parentp;
                             n \<leftarrow> nodes s p;
                             if nred n
                             then do { gparentp \<leftarrow> gparentp;
                                       gp \<leftarrow> get s gparentp;
                                       if (p_r > 0) \<noteq> (gp_r > 0) then rotate_child s root p gp gparentp p_r
                                       else rotate_parent s p gp gparentp p_r }
                             else Some s }) }
         else Some s }"

text \<open>The loop ends at a node with the key, or at a null pointer; \<open>Missing nextp rootp parentp r p_r\<close> holds the
  variables that are used afterwards.\<close>

datatype search_end = Found nat | Missing loc loc "loc option" int int

partial_function (option) tsearch_loop ::
    "('k \<Rightarrow> 'k \<Rightarrow> int) \<Rightarrow> 'k \<Rightarrow> 'k tree_mem \<Rightarrow> loc \<Rightarrow> loc option \<Rightarrow> loc option \<Rightarrow> int \<Rightarrow> int \<Rightarrow> ('k tree_mem \<times> search_end) option" where
  "tsearch_loop cmp k s rootp parentp gparentp p_r gp_r =
    do { root \<leftarrow> get s rootp;
         if root = 0 then Some (s, Missing rootp rootp parentp 0 p_r)
         else do { n \<leftarrow> nodes s root;
                   let r = cmp k (nkey n);
                   if r = 0 then Some (s, Found root)
                   else do { s \<leftarrow> maybe_split_for_insert s rootp parentp gparentp p_r gp_r False;
                             let nextp = (if r < 0 then LeftOf root else RightOf root);
                             v \<leftarrow> get s nextp;
                             if v = 0 then Some (s, Missing nextp rootp parentp r p_r)
                             else tsearch_loop cmp k s nextp (Some rootp) parentp r p_r } } }"

definition tsearch ::
    "('k \<Rightarrow> 'k \<Rightarrow> int) \<Rightarrow> nat \<Rightarrow> 'k \<Rightarrow> 'k tree_mem \<Rightarrow> loc option \<Rightarrow> ('k tree_mem \<times> nat) option" where
  "tsearch cmp q k s vrootp =
    (case vrootp of
       None \<Rightarrow> Some (s, 0)
     | Some rootp \<Rightarrow>
         do { root \<leftarrow> get s rootp;
              s \<leftarrow> (if root \<noteq> 0 then paint s root False else Some s);
              (s, e) \<leftarrow> tsearch_loop cmp k s rootp None None 0 0;
              (case e of
                 Found a \<Rightarrow> Some (s, a)
               | Missing nextp rootp parentp r p_r \<Rightarrow>
                   do { s \<leftarrow> (if q \<noteq> 0
                             then do { s \<leftarrow> assign s nextp q;
                                       Some (s\<lparr>nodes := (nodes s)(q \<mapsto> \<lparr>nkey = k, nleft = 0, nright = 0, nred = True\<rparr>)\<rparr>) }
                             else Some s);
                        s \<leftarrow> (if nextp \<noteq> rootp then maybe_split_for_insert s nextp (Some rootp) parentp r p_r True else Some s);
                        Some (s, q) }) })"

section \<open>\<open>tfind\<close>\<close>

partial_function (option) tfind_loop :: "('k \<Rightarrow> 'k \<Rightarrow> int) \<Rightarrow> 'k \<Rightarrow> 'k tree_mem \<Rightarrow> loc \<Rightarrow> nat option" where
  "tfind_loop cmp k s rootp =
    do { root \<leftarrow> get s rootp;
         if root = 0 then Some 0
         else do { n \<leftarrow> nodes s root;
                   let r = cmp k (nkey n);
                   if r = 0 then Some root else tfind_loop cmp k s (if r < 0 then LeftOf root else RightOf root) } }"

definition tfind :: "('k \<Rightarrow> 'k \<Rightarrow> int) \<Rightarrow> 'k \<Rightarrow> 'k tree_mem \<Rightarrow> loc option \<Rightarrow> nat option" where
  "tfind cmp k s vrootp = (case vrootp of None \<Rightarrow> Some 0 | Some rootp \<Rightarrow> tfind_loop cmp k s rootp)"

section \<open>\<open>tdelete\<close>\<close>

text \<open>
  The size of the array \<open>nodestack\<close> when \<open>sp\<close> locations have been pushed on the way down: it is enlarged before a
  push that finds it full. The loop that restores the black height pushes as well, and does not enlarge it.
\<close>

primrec stack_size :: "nat \<Rightarrow> nat" where
  "stack_size 0 = 40"
| "stack_size (Suc sp) = (if sp = stack_size sp then stack_size sp + 20 else stack_size sp)"

text \<open>The way down to the node, with the stack of the locations passed (the last one first) and the node above.\<close>

partial_function (option) tdelete_down ::
    "('k \<Rightarrow> 'k \<Rightarrow> int) \<Rightarrow> 'k \<Rightarrow> 'k tree_mem \<Rightarrow> loc \<Rightarrow> nat \<Rightarrow> loc list \<Rightarrow> (loc \<times> nat \<times> loc list) option option" where
  "tdelete_down cmp k s rootp p stack =
    do { a \<leftarrow> get s rootp;
         n \<leftarrow> nodes s a;
         let c = cmp k (nkey n);
         if c = 0 then Some (Some (rootp, p, stack))
         else do { let next = (if c < 0 then LeftOf a else RightOf a);
                   v \<leftarrow> get s next;
                   if v = 0 then Some None else tdelete_down cmp k s next a (rootp # stack) } }"

partial_function (option) tdelete_succ :: "'k tree_mem \<Rightarrow> loc \<Rightarrow> loc \<Rightarrow> loc list \<Rightarrow> (nat \<times> loc list) option" where
  "tdelete_succ s parent up stack =
    do { a \<leftarrow> get s up;
         l \<leftarrow> get s (LeftOf a);
         if l = 0 then Some (a, parent # stack) else tdelete_succ s up (LeftOf a) (parent # stack) }"

text \<open>One side of the loop that restores the black height: \<open>near\<close> is the pointer of \<open>p\<close> that leads to \<open>r\<close>, \<open>far\<close>
  the other one, \<open>q\<close> the brother of \<open>r\<close>. The result says whether the loop goes on with \<open>p\<close> in the place of \<open>r\<close>.
  A push onto a stack that has \<open>stacksize\<close> entries is a write behind the array.\<close>

definition fix_brother ::
    "(nat \<Rightarrow> loc) \<Rightarrow> (nat \<Rightarrow> loc) \<Rightarrow> 'k tree_mem \<Rightarrow> loc \<Rightarrow> nat \<Rightarrow> nat \<Rightarrow> ('k tree_mem \<times> bool) option" where
  "fix_brother near far s pp p q =
    do { n \<leftarrow> get s (near q);
         f \<leftarrow> get s (far q);
         nr \<leftarrow> is_red s n;
         fr \<leftarrow> is_red s f;
         if \<not> nr \<and> \<not> fr
         then do { s \<leftarrow> paint s q True; Some (s, True) }
         else do { pn \<leftarrow> nodes s p;
                   s \<leftarrow> (if \<not> fr
                        then do { s \<leftarrow> paint s n (nred pn);
                                  v \<leftarrow> get s (near n);
                                  s \<leftarrow> assign s (far p) v;
                                  v \<leftarrow> get s (far n);
                                  s \<leftarrow> assign s (near q) v;
                                  s \<leftarrow> assign s (far n) q;
                                  s \<leftarrow> assign s (near n) p;
                                  s \<leftarrow> assign s pp n;
                                  paint s p False }
                        else do { s \<leftarrow> paint s q (nred pn);
                                  s \<leftarrow> paint s p False;
                                  s \<leftarrow> paint s f False;
                                  v \<leftarrow> get s (near q);
                                  s \<leftarrow> assign s (far p) v;
                                  s \<leftarrow> assign s (near q) p;
                                  assign s pp q });
                   Some (s, False) } }"

definition fix_side ::
    "nat \<Rightarrow> (nat \<Rightarrow> loc) \<Rightarrow> (nat \<Rightarrow> loc) \<Rightarrow> 'k tree_mem \<Rightarrow> loc \<Rightarrow> nat \<Rightarrow> loc list \<Rightarrow> ('k tree_mem \<times> loc list \<times> bool) option" where
  "fix_side stacksize near far s pp p stack =
    do { q \<leftarrow> get s (far p);
         c \<leftarrow> is_red s q;
         if c
         then do { s \<leftarrow> paint s q False;
                   s \<leftarrow> paint s p True;
                   v \<leftarrow> get s (near q);
                   s \<leftarrow> assign s (far p) v;
                   s \<leftarrow> assign s (near q) p;
                   s \<leftarrow> assign s pp q;
                   stack \<leftarrow> (if length stack = stacksize then None else Some (near q # stack));
                   q' \<leftarrow> get s (far p);
                   (s, again) \<leftarrow> fix_brother near far s (near q) p q';
                   Some (s, stack, again) }
         else do { (s, again) \<leftarrow> fix_brother near far s pp p q; Some (s, stack, again) } }"

partial_function (option) fix_loop :: "nat \<Rightarrow> 'k tree_mem \<Rightarrow> nat \<Rightarrow> loc list \<Rightarrow> ('k tree_mem \<times> nat) option" where
  "fix_loop stacksize s r stack =
    (case stack of
       [] \<Rightarrow> Some (s, r)
     | pp # _ \<Rightarrow>
         do { c \<leftarrow> is_red s r;
              if c then Some (s, r)
              else do { p \<leftarrow> get s pp;
                        l \<leftarrow> get s (LeftOf p);
                        (s, stack, again) \<leftarrow>
                          (if r = l then fix_side stacksize LeftOf RightOf s pp p stack else fix_side stacksize RightOf LeftOf s pp p stack);
                        if again then fix_loop stacksize s p (tl stack) else Some (s, 0) } })"

text \<open>The pointer to the node \<open>u\<close>, which is found through the node above, is replaced.\<close>

definition unlink :: "'k tree_mem \<Rightarrow> loc \<Rightarrow> loc list \<Rightarrow> nat \<Rightarrow> nat \<Rightarrow> 'k tree_mem option" where
  "unlink s rootp stack u r =
    (case stack of
       [] \<Rightarrow> assign s rootp r
     | pp # _ \<Rightarrow> do { q \<leftarrow> get s pp; v \<leftarrow> get s (RightOf q); if u = v then assign s (RightOf q) r else assign s (LeftOf q) r })"

text \<open>The node at \<open>rootp\<close> is deleted: it gets the key of its successor, which is taken out, or is taken out itself.\<close>

definition tdelete_at :: "'k tree_mem \<Rightarrow> loc \<Rightarrow> loc list \<Rightarrow> 'k tree_mem option" where
  "tdelete_at s rootp stack =
    do { root \<leftarrow> get s rootp;
         r \<leftarrow> get s (RightOf root);
         q \<leftarrow> get s (LeftOf root);
         (unchained, stack) \<leftarrow>
           (if q = 0 \<or> r = 0 then Some (root, stack) else tdelete_succ s rootp (RightOf root) stack);
         l \<leftarrow> get s (LeftOf unchained);
         r \<leftarrow> (if l = 0 then get s (RightOf unchained) else Some l);
         s \<leftarrow> unlink s rootp stack unchained r;
         un \<leftarrow> nodes s unchained;
         s \<leftarrow> (if unchained \<noteq> root then modify s root (\<lambda>n. n\<lparr>nkey := nkey un\<rparr>) else Some s);
         s \<leftarrow> (if \<not> nred un
              then do { (s, r) \<leftarrow> fix_loop (stack_size (length stack)) s r stack; if r \<noteq> 0 then paint s r False else Some s }
              else Some s);
         Some (s\<lparr>nodes := (nodes s)(unchained := None)\<rparr>) }"

definition tdelete :: "('k \<Rightarrow> 'k \<Rightarrow> int) \<Rightarrow> 'k \<Rightarrow> 'k tree_mem \<Rightarrow> loc option \<Rightarrow> ('k tree_mem \<times> nat) option" where
  "tdelete cmp k s vrootp =
    (case vrootp of
       None \<Rightarrow> Some (s, 0)
     | Some rootp \<Rightarrow>
         do { p \<leftarrow> get s rootp;
              if p = 0 then Some (s, 0)
              else do { d \<leftarrow> tdelete_down cmp k s rootp p [];
                        (case d of
                           None \<Rightarrow> Some (s, 0)
                         | Some (rootp, retval, stack) \<Rightarrow> do { s \<leftarrow> tdelete_at s rootp stack; Some (s, retval) }) } })"

section \<open>\<open>twalk\<close> and \<open>tdestroy\<close>\<close>

text \<open>The calls of the action, and the keys that the function for freeing them gets.\<close>

datatype visit = preorder | postorder | endorder | leaf

partial_function (option) trecurse :: "'k tree_mem \<Rightarrow> nat \<Rightarrow> int \<Rightarrow> (nat \<times> visit \<times> int) list option" where
  "trecurse s root level =
    do { n \<leftarrow> nodes s root;
         if nleft n = 0 \<and> nright n = 0 then Some [(root, leaf, level)]
         else do { xs \<leftarrow> (if nleft n \<noteq> 0 then trecurse s (nleft n) (level + 1) else Some []);
                   ys \<leftarrow> (if nright n \<noteq> 0 then trecurse s (nright n) (level + 1) else Some []);
                   Some ((root, preorder, level) # xs @ (root, postorder, level) # ys @ [(root, endorder, level)]) } }"

definition twalk :: "'k tree_mem \<Rightarrow> nat \<Rightarrow> bool \<Rightarrow> (nat \<times> visit \<times> int) list option" where
  "twalk s root action = (if root \<noteq> 0 \<and> action then trecurse s root 0 else Some [])"

partial_function (option) tdestroy_recurse :: "'k tree_mem \<Rightarrow> nat \<Rightarrow> ('k tree_mem \<times> 'k list) option" where
  "tdestroy_recurse s root =
    do { n \<leftarrow> nodes s root;
         (s, xs) \<leftarrow> (if nleft n \<noteq> 0 then tdestroy_recurse s (nleft n) else Some (s, []));
         (s, ys) \<leftarrow> (if nright n \<noteq> 0 then tdestroy_recurse s (nright n) else Some (s, []));
         Some (s\<lparr>nodes := (nodes s)(root := None)\<rparr>, xs @ ys @ [nkey n]) }"

definition tdestroy :: "'k tree_mem \<Rightarrow> nat \<Rightarrow> ('k tree_mem \<times> 'k list) option" where
  "tdestroy s root = (if root \<noteq> 0 then tdestroy_recurse s root else Some (s, []))"

end
