(* ===== verification/RbTree.thy ===== *)
theory RbTree
  imports Tsearch
begin

text \<open>
  Red-black trees with the addresses of their nodes, the trees that the nodes in memory form, and the way
  to a subtree (a list of the nodes above it, the nearest first). A tree is well formed when no red
  node has a red child and all ways down have the same number of black nodes; the root may be red.
\<close>

section \<open>Trees\<close>

datatype 'k rbt = Tip | Nd bool "'k rbt" nat 'k "'k rbt"

fun addr :: "'k rbt \<Rightarrow> nat" where
  "addr Tip = 0"
| "addr (Nd c l a k r) = a"

fun redt :: "'k rbt \<Rightarrow> bool" where
  "redt Tip = False"
| "redt (Nd c l a k r) = c"

fun ino :: "'k rbt \<Rightarrow> (nat \<times> 'k) list" where
  "ino Tip = []"
| "ino (Nd c l a k r) = ino l @ (a, k) # ino r"

fun rb :: "'k rbt \<Rightarrow> nat \<Rightarrow> bool" where
  "rb Tip n \<longleftrightarrow> n = 0"
| "rb (Nd True l a k r) n \<longleftrightarrow> rb l n \<and> rb r n \<and> \<not> redt l \<and> \<not> redt r"
| "rb (Nd False l a k r) n \<longleftrightarrow> (\<exists>m. n = Suc m \<and> rb l m \<and> rb r m)"

fun blacken :: "'k rbt \<Rightarrow> 'k rbt" where
  "blacken Tip = Tip"
| "blacken (Nd c l a k r) = Nd False l a k r"

lemma blacken_simps [simp]: "addr (blacken t) = addr t" "ino (blacken t) = ino t" "redt (blacken t) = False"
  by (cases t; simp)+

lemma rb_blacken: "rb t n \<Longrightarrow> redt t \<Longrightarrow> rb (blacken t) (Suc n)"
  by (cases t) auto

lemma rb_blacken_black: "rb t n \<Longrightarrow> \<not> redt t \<Longrightarrow> blacken t = t"
  by (cases t) auto

section \<open>The way to a subtree\<close>

datatype 'k frame = InLeft bool nat 'k "'k rbt" | InRight bool "'k rbt" nat 'k

fun fill1 :: "'k frame \<Rightarrow> 'k rbt \<Rightarrow> 'k rbt" where
  "fill1 (InLeft c a k s) t = Nd c t a k s"
| "fill1 (InRight c s a k) t = Nd c s a k t"

fun plug :: "'k frame list \<Rightarrow> 'k rbt \<Rightarrow> 'k rbt" where
  "plug [] t = t"
| "plug (f # fs) t = plug fs (fill1 f t)"

fun fred :: "'k frame \<Rightarrow> bool" where
  "fred (InLeft c a k s) = c"
| "fred (InRight c s a k) = c"

fun sib :: "'k frame \<Rightarrow> 'k rbt" where
  "sib (InLeft c a k s) = s"
| "sib (InRight c s a k) = s"

fun faddr :: "'k frame \<Rightarrow> nat" where
  "faddr (InLeft c a k s) = a"
| "faddr (InRight c s a k) = a"

fun fkey :: "'k frame \<Rightarrow> 'k" where
  "fkey (InLeft c a k s) = k"
| "fkey (InRight c s a k) = k"

fun goes_left :: "'k frame \<Rightarrow> bool" where
  "goes_left (InLeft c a k s) = True"
| "goes_left (InRight c s a k) = False"

fun lefts :: "'k frame list \<Rightarrow> (nat \<times> 'k) list" where
  "lefts [] = []"
| "lefts (InLeft c a k s # fs) = lefts fs"
| "lefts (InRight c s a k # fs) = lefts fs @ ino s @ [(a, k)]"

fun rights :: "'k frame list \<Rightarrow> (nat \<times> 'k) list" where
  "rights [] = []"
| "rights (InLeft c a k s # fs) = (a, k) # ino s @ rights fs"
| "rights (InRight c s a k # fs) = rights fs"

fun loc_of :: "'k frame list \<Rightarrow> loc" where
  "loc_of [] = Root"
| "loc_of (InLeft c a k s # fs) = LeftOf a"
| "loc_of (InRight c s a k # fs) = RightOf a"

lemma ino_plug: "ino (plug fs t) = lefts fs @ ino t @ rights fs"
proof (induction fs arbitrary: t)
  case (Cons f fs)
  then show ?case by (cases f) simp_all
qed simp

text \<open>\<open>ctx_ok fs n b\<close>: the tree stays well formed around a subtree of black height \<open>n\<close>, which is red if \<open>b\<close>.\<close>

fun ctx_ok :: "'k frame list \<Rightarrow> nat \<Rightarrow> bool \<Rightarrow> bool" where
  "ctx_ok [] n b \<longleftrightarrow> True"
| "ctx_ok (f # fs) n b \<longleftrightarrow> rb (sib f) n \<and> (fred f \<longrightarrow> \<not> b \<and> \<not> redt (sib f)) \<and> ctx_ok fs (if fred f then n else Suc n) (fred f)"

lemma rb_plug: "(\<exists>m. rb (plug fs t) m) \<longleftrightarrow> (\<exists>n. rb t n \<and> ctx_ok fs n (redt t))"
proof (induction fs arbitrary: t)
  case (Cons f fs)
  show ?case
  proof (cases f)
    case (InLeft c a k s)
    then show ?thesis using Cons by (cases c) auto
  next
    case (InRight c s a k)
    then show ?thesis using Cons by (cases c) auto
  qed
qed simp

lemma ctx_ok_black: "ctx_ok fs n b \<Longrightarrow> ctx_ok fs n False"
  by (cases fs) auto

section \<open>Trees in memory\<close>

fun tree_in :: "(nat \<rightharpoonup> 'k node_t) \<Rightarrow> 'k rbt \<Rightarrow> bool" where
  "tree_in N Tip \<longleftrightarrow> True"
| "tree_in N (Nd c l a k r) \<longleftrightarrow> a \<noteq> 0 \<and> N a = Some \<lparr>nkey = k, nleft = addr l, nright = addr r, nred = c\<rparr> \<and> tree_in N l \<and> tree_in N r"

fun frames_in :: "(nat \<rightharpoonup> 'k node_t) \<Rightarrow> nat \<Rightarrow> 'k frame list \<Rightarrow> nat \<Rightarrow> bool" where
  "frames_in N v [] x \<longleftrightarrow> v = x"
| "frames_in N v (InLeft c a k s # fs) x \<longleftrightarrow>
    a \<noteq> 0 \<and> N a = Some \<lparr>nkey = k, nleft = x, nright = addr s, nred = c\<rparr> \<and> tree_in N s \<and> frames_in N v fs a"
| "frames_in N v (InRight c s a k # fs) x \<longleftrightarrow>
    a \<noteq> 0 \<and> N a = Some \<lparr>nkey = k, nleft = addr s, nright = x, nred = c\<rparr> \<and> tree_in N s \<and> frames_in N v fs a"

definition zrep :: "'k tree_mem \<Rightarrow> 'k frame list \<Rightarrow> 'k rbt \<Rightarrow> bool" where
  "zrep s fs t \<longleftrightarrow> tree_in (nodes s) t \<and> frames_in (nodes s) (rootv s) fs (addr t) \<and>
    distinct (map fst (lefts fs @ ino t @ rights fs))"

definition trep :: "'k tree_mem \<Rightarrow> 'k rbt \<Rightarrow> bool" where
  "trep s t \<longleftrightarrow> zrep s [] t"

lemma zrep_left: "zrep s (InLeft c a k r # fs) l \<longleftrightarrow> zrep s fs (Nd c l a k r)"
  by (auto simp: zrep_def)

lemma zrep_right: "zrep s (InRight c l a k # fs) r \<longleftrightarrow> zrep s fs (Nd c l a k r)"
  by (auto simp: zrep_def)

lemma zrep_up: "zrep s (f # fs) t \<longleftrightarrow> zrep s fs (fill1 f t)"
  by (cases f) (simp_all add: zrep_left zrep_right)

lemma zrep_plug: "zrep s fs t \<longleftrightarrow> trep s (plug fs t)"
  by (induction fs arbitrary: t) (simp_all add: trep_def zrep_up)

lemma tree_in_upd [simp]: "a \<notin> fst ` set (ino t) \<Longrightarrow> tree_in (N(a := v)) t = tree_in N t"
  by (induction t) (auto simp: image_Un fun_upd_other simp del: fun_upd_apply)

lemma frames_in_upd [simp]: "a \<notin> fst ` set (lefts fs) \<Longrightarrow> a \<notin> fst ` set (rights fs) \<Longrightarrow> frames_in (N(a := v)) x fs y = frames_in N x fs y"
proof (induction fs arbitrary: y)
  case (Cons f fs)
  then show ?case by (cases f) (auto simp: image_Un fun_upd_other simp del: fun_upd_apply)
qed simp

lemma addr_in: "t \<noteq> Tip \<Longrightarrow> addr t \<in> fst ` set (ino t)"
  by (cases t) auto

lemma tree_in_addr: "tree_in N t \<Longrightarrow> addr t = 0 \<longleftrightarrow> t = Tip"
  by (cases t) auto

lemma get_loc: "zrep s fs t \<Longrightarrow> get s (loc_of fs) = Some (addr t)"
  by (cases fs rule: loc_of.cases) (auto simp: zrep_def get_def)

lemma node_at: "zrep s fs (Nd c l a k r) \<Longrightarrow> nodes s a = Some \<lparr>nkey = k, nleft = addr l, nright = addr r, nred = c\<rparr> \<and> a \<noteq> 0"
  by (simp add: zrep_def)

lemma get_left: "zrep s fs (Nd c l a k r) \<Longrightarrow> get s (LeftOf a) = Some (addr l)"
  by (simp add: zrep_def get_def)

lemma get_right: "zrep s fs (Nd c l a k r) \<Longrightarrow> get s (RightOf a) = Some (addr r)"
  by (simp add: zrep_def get_def)

lemma is_red_tree: "tree_in (nodes s) t \<Longrightarrow> is_red s (addr t) = Some (redt t)"
  by (cases t) (auto simp: is_red_def)


lemma zrep_set:
  assumes "zrep s fs (Nd c l a k r)"
  shows "zrep (s\<lparr>nodes := (nodes s)(a \<mapsto> \<lparr>nkey = k', nleft = addr l, nright = addr r, nred = c'\<rparr>)\<rparr>) fs (Nd c' l a k' r)"
  using assms by (auto simp: zrep_def image_Un simp del: fun_upd_apply) (auto simp: fun_upd_same)

lemma paint_root:
  assumes "zrep s fs (Nd c l a k r)"
  shows "\<exists>s'. paint s a c' = Some s' \<and> zrep s' fs (Nd c' l a k r)"
  using node_at [OF assms] zrep_set [OF assms, of k c'] by (simp add: paint_def modify_def)

lemma paint_blacken:
  assumes "zrep s fs t"
  shows "\<exists>s'. (if addr t \<noteq> 0 then paint s (addr t) False else Some s) = Some s' \<and> zrep s' fs (blacken t)"
proof (cases t)
  case Tip
  then show ?thesis using assms by simp
next
  case (Nd c l a k r)
  then show ?thesis using paint_root [of s fs c l a k r False] node_at [of s fs c l a k r] assms by auto
qed

lemma blacken_children:
  assumes "zrep s fs (Nd c l a k r)"
  shows "\<exists>s1 s2. (if addr r \<noteq> 0 then paint s (addr r) False else Some s) = Some s1 \<and>
    (if addr l \<noteq> 0 then paint s1 (addr l) False else Some s1) = Some s2 \<and> zrep s2 fs (Nd c (blacken l) a k (blacken r))"
proof -
  obtain s1 where s1: "(if addr r \<noteq> 0 then paint s (addr r) False else Some s) = Some s1" "zrep s1 fs (Nd c l a k (blacken r))"
    using paint_blacken [of s "InRight c l a k # fs" r] assms unfolding zrep_right by blast
  obtain s2 where "(if addr l \<noteq> 0 then paint s1 (addr l) False else Some s1) = Some s2" "zrep s2 fs (Nd c (blacken l) a k (blacken r))"
    using paint_blacken [of s1 "InLeft c a k (blacken r) # fs" l] s1(2) unfolding zrep_left by blast
  then show ?thesis using s1(1) by blast
qed

end
