(* ===== verification/TsearchInsert.thy ===== *)
theory TsearchInsert
  imports RbTree
begin

text \<open>
  \<open>tsearch\<close> on red-black trees: the two rotations, the splitting of a node with two red children on the way
  down, and the insertion of the new leaf.
\<close>

section \<open>Changing memory around a tree\<close>

lemma tree_in_cong: "(\<And>a. a \<in> fst ` set (ino t) \<Longrightarrow> N' a = N a) \<Longrightarrow> tree_in N' t = tree_in N t"
  by (induction t) (auto simp: image_Un)

lemma tree_in_apart:
  "tree_in N t \<Longrightarrow> \<forall>a. a \<notin> X \<longrightarrow> N' a = N a \<Longrightarrow> fst ` set (ino t) \<inter> X = {} \<Longrightarrow> tree_in N' t"
  using tree_in_cong [of t N' N] by blast

lemma frames_in_cong:
  "(\<And>a. a \<in> fst ` set (lefts fs) \<union> fst ` set (rights fs) \<Longrightarrow> N' a = N a) \<Longrightarrow> frames_in N' v fs x = frames_in N v fs x"
proof (induction fs arbitrary: x)
  case (Cons f fs)
  have "tree_in N' (sib f) = tree_in N (sib f)" by (rule tree_in_cong, rule Cons.prems) (cases f; auto)
  moreover have "frames_in N' v fs y = frames_in N v fs y" for y by (rule Cons.IH, rule Cons.prems) (cases f; auto)
  moreover have "N' (faddr f) = N (faddr f)" by (rule Cons.prems) (cases f; auto)
  ultimately show ?case by (cases f) auto
qed simp

lemma assign_loc:
  assumes "frames_in (nodes s) (rootv s) fs x" "distinct (map fst (lefts fs @ rights fs))"
  shows "\<exists>s'. assign s (loc_of fs) y = Some s' \<and> frames_in (nodes s') (rootv s') fs y \<and>
    (\<forall>a. a \<notin> fst ` set (lefts fs) \<union> fst ` set (rights fs) \<longrightarrow> nodes s' a = nodes s a)"
  using assms by (cases fs rule: loc_of.cases) (auto simp: assign_def modify_def image_Un simp del: fun_upd_apply, auto)

lemma zrep_apart: "zrep s fs t \<Longrightarrow> fst ` set (ino t) \<inter> (fst ` set (lefts fs) \<union> fst ` set (rights fs)) = {}"
  unfolding zrep_def by (simp only: map_append distinct_append set_append set_map) blast

section \<open>Rotations\<close>

fun rotate :: "'k frame \<Rightarrow> 'k frame \<Rightarrow> 'k rbt \<Rightarrow> 'k rbt" where
  "rotate (InLeft cp p kp sp) (InLeft cg g kg sg) t = Nd False t p kp (Nd True sp g kg sg)"
| "rotate (InRight cp sp p kp) (InRight cg sg g kg) t = Nd False (Nd True sg g kg sp) p kp t"
| "rotate (InRight cp sp p kp) (InLeft cg g kg sg) (Nd c l x k r) = Nd False (Nd True sp p kp l) x k (Nd True r g kg sg)"
| "rotate (InLeft cp p kp sp) (InRight cg sg g kg) (Nd c l x k r) = Nd False (Nd True sg g kg l) x k (Nd True r p kp sp)"
| "rotate f g Tip = Tip"

lemma assign_tree:
  assumes "frames_in (nodes s) (rootv s) fs y" "tree_in (nodes s) t" "distinct (map fst (lefts fs @ ino t @ rights fs))"
  shows "\<exists>s'. assign s (loc_of fs) (addr t) = Some s' \<and> zrep s' fs t"
proof -
  have "distinct (map fst (lefts fs @ rights fs))" using assms(3) by auto
  then obtain s' where s': "assign s (loc_of fs) (addr t) = Some s'" "frames_in (nodes s') (rootv s') fs (addr t)"
      "\<forall>a. a \<notin> fst ` set (lefts fs) \<union> fst ` set (rights fs) \<longrightarrow> nodes s' a = nodes s a"
    using assign_loc [OF assms(1)] by blast
  have "tree_in (nodes s') t" using assms(3)
    by (intro tree_in_apart [OF assms(2) s'(3)]) (simp only: map_append distinct_append set_append set_map, blast)
  then show ?thesis using s'(1,2) assms(3) by (simp add: zrep_def)
qed

text \<open>The nodes of the rotated tree are written first, and then the pointer to it.\<close>

lemma rotate_child_rep:
  assumes z: "zrep s (f # g # fs) (Nd c l x k r)" and d: "goes_left f \<noteq> goes_left g" "goes_left f \<longleftrightarrow> p_r < 0"
  shows "\<exists>s'. rotate_child s x (faddr f) (faddr g) (loc_of fs) p_r = Some s' \<and> zrep s' fs (rotate f g (Nd c l x k r))"
proof (cases f)
  case f: (InLeft cp p kp sp)
  then obtain cg sg ag kg where g: "g = InRight cg sg ag kg" using d by (cases g) auto
  note zz = z [unfolded f g zrep_def, simplified]
  let ?s = "s\<lparr>nodes := (nodes s)(p \<mapsto> \<lparr>nkey = kp, nleft = addr r, nright = addr sp, nred = True\<rparr>,
      ag \<mapsto> \<lparr>nkey = kg, nleft = addr sg, nright = addr l, nred = True\<rparr>, x \<mapsto> \<lparr>nkey = k, nleft = ag, nright = p, nred = False\<rparr>)\<rparr>"
  have "rotate_child s x p ag (loc_of fs) p_r = assign ?s (loc_of fs) (addr (rotate f g (Nd c l x k r)))"
    using zz d f g by (simp add: rotate_child_def paint_def modify_def get_def assign_def fun_upd_twist)
  moreover have "frames_in (nodes ?s) (rootv ?s) fs ag" using zz by (simp add: image_Un)
  moreover have "tree_in (nodes ?s) (rotate f g (Nd c l x k r))" using zz f g by (simp add: image_Un)
  moreover have "distinct (map fst (lefts fs @ ino (rotate f g (Nd c l x k r)) @ rights fs))" using zz f g by auto
  ultimately show ?thesis using assign_tree [of ?s fs ag "rotate f g (Nd c l x k r)"] f g by simp
next
  case f: (InRight cp sp p kp)
  then obtain cg ag kg sg where g: "g = InLeft cg ag kg sg" using d by (cases g) auto
  note zz = z [unfolded f g zrep_def, simplified]
  let ?s = "s\<lparr>nodes := (nodes s)(p \<mapsto> \<lparr>nkey = kp, nleft = addr sp, nright = addr l, nred = True\<rparr>,
      ag \<mapsto> \<lparr>nkey = kg, nleft = addr r, nright = addr sg, nred = True\<rparr>, x \<mapsto> \<lparr>nkey = k, nleft = p, nright = ag, nred = False\<rparr>)\<rparr>"
  have "rotate_child s x p ag (loc_of fs) p_r = assign ?s (loc_of fs) (addr (rotate f g (Nd c l x k r)))"
    using zz d f g by (simp add: rotate_child_def paint_def modify_def get_def assign_def fun_upd_twist)
  moreover have "frames_in (nodes ?s) (rootv ?s) fs ag" using zz by (simp add: image_Un)
  moreover have "tree_in (nodes ?s) (rotate f g (Nd c l x k r))" using zz f g by (simp add: image_Un)
  moreover have "distinct (map fst (lefts fs @ ino (rotate f g (Nd c l x k r)) @ rights fs))" using zz f g by auto
  ultimately show ?thesis using assign_tree [of ?s fs ag "rotate f g (Nd c l x k r)"] f g by simp
qed

lemma rotate_parent_rep:
  assumes z: "zrep s (f # g # fs) t" and d: "goes_left f = goes_left g" "goes_left f \<longleftrightarrow> p_r < 0"
  shows "\<exists>s'. rotate_parent s (faddr f) (faddr g) (loc_of fs) p_r = Some s' \<and> zrep s' fs (rotate f g t)"
proof -
  have fr: "frames_in (nodes s) (rootv s) fs (faddr g)" "distinct (map fst (lefts fs @ rights fs))"
    using z by (cases f; cases g; auto simp: zrep_def)+
  obtain s1 where s1: "assign s (loc_of fs) (faddr f) = Some s1" "frames_in (nodes s1) (rootv s1) fs (faddr f)"
      "\<forall>a. a \<notin> fst ` set (lefts fs) \<union> fst ` set (rights fs) \<longrightarrow> nodes s1 a = nodes s a"
    using assign_loc [OF fr] by blast
  have ap: "fst ` set (ino (fill1 g (fill1 f t))) \<inter> (fst ` set (lefts fs) \<union> fst ` set (rights fs)) = {}"
    using z by (intro zrep_apart) (simp add: zrep_up)
  show ?thesis
  proof (cases f)
    case f: (InLeft cp p kp sp)
    then obtain cg ag kg sg where g: "g = InLeft cg ag kg sg" using d by (cases g) auto
    note zz = z [unfolded f g zrep_def, simplified]
    have eq: "nodes s1 p = nodes s p" "nodes s1 ag = nodes s ag" using s1(3) zz by auto
    have "tree_in (nodes s1) t" "tree_in (nodes s1) sp" "tree_in (nodes s1) sg"
      by (rule tree_in_apart [OF _ s1(3)]; use zz ap f g in \<open>simp add: image_Un Int_Un_distrib2\<close>)+
    note tr = this
    let ?s = "s1\<lparr>nodes := (nodes s1)(p \<mapsto> \<lparr>nkey = kp, nleft = addr t, nright = ag, nred = False\<rparr>,
        ag \<mapsto> \<lparr>nkey = kg, nleft = addr sp, nright = addr sg, nred = True\<rparr>)\<rparr>"
    have "rotate_parent s p ag (loc_of fs) p_r = Some ?s"
      using zz d f s1(1) eq by (simp add: rotate_parent_def paint_def modify_def get_def assign_def fun_upd_twist)
    moreover have "zrep ?s fs (rotate f g t)" using zz f g s1(2) tr by (simp add: zrep_def image_Un)
    ultimately show ?thesis using f g by simp
  next
    case f: (InRight cp sp p kp)
    then obtain cg sg ag kg where g: "g = InRight cg sg ag kg" using d by (cases g) auto
    note zz = z [unfolded f g zrep_def, simplified]
    have eq: "nodes s1 p = nodes s p" "nodes s1 ag = nodes s ag" using s1(3) zz by auto
    have "tree_in (nodes s1) t" "tree_in (nodes s1) sp" "tree_in (nodes s1) sg"
      by (rule tree_in_apart [OF _ s1(3)]; use zz ap f g in \<open>simp add: image_Un Int_Un_distrib2\<close>)+
    note tr = this
    let ?s = "s1\<lparr>nodes := (nodes s1)(p \<mapsto> \<lparr>nkey = kp, nleft = ag, nright = addr t, nred = False\<rparr>,
        ag \<mapsto> \<lparr>nkey = kg, nleft = addr sg, nright = addr sp, nred = True\<rparr>)\<rparr>"
    have "rotate_parent s p ag (loc_of fs) p_r = Some ?s"
      using zz d f s1(1) eq by (simp add: rotate_parent_def paint_def modify_def get_def assign_def fun_upd_twist)
    moreover have "zrep ?s fs (rotate f g t)" using zz f g s1(2) tr by (simp add: zrep_def image_Un)
    ultimately show ?thesis using f g by simp
  qed
qed


section \<open>Splitting\<close>

fun goes :: "'k frame \<Rightarrow> int \<Rightarrow> bool" where
  "goes f r \<longleftrightarrow> r \<noteq> 0 \<and> (goes_left f \<longleftrightarrow> r < 0)"

fun par_ok :: "'k frame list \<Rightarrow> loc option \<Rightarrow> int \<Rightarrow> bool" where
  "par_ok [] parentp r \<longleftrightarrow> parentp = None"
| "par_ok (f # fs) parentp r \<longleftrightarrow> parentp = Some (loc_of fs) \<and> goes f r"

fun resplit :: "'k frame list \<Rightarrow> 'k rbt \<Rightarrow> 'k frame list \<times> 'k rbt" where
  "resplit (f # g # fs) t = (if fred f then (fs, rotate f g t) else (f # g # fs, t))"
| "resplit fs t = (fs, t)"

lemma both_red:
  assumes "zrep s fs (Nd c l a k r)"
  shows "(if addr r \<noteq> 0 \<and> addr l \<noteq> 0 then do { b \<leftarrow> is_red s (addr r); if b then is_red s (addr l) else Some False } else Some False) =
    Some (redt l \<and> redt r)"
proof -
  have "tree_in (nodes s) l" "tree_in (nodes s) r" using assms by (simp_all add: zrep_def)
  then show ?thesis by (auto simp: is_red_tree tree_in_addr)
qed

lemma no_split:
  assumes "zrep s fs (Nd c l a k r)" "\<not> (redt l \<and> redt r)"
  shows "maybe_split_for_insert s (loc_of fs) parentp gparentp p_r gp_r False = Some s"
  using get_loc [OF assms(1)] get_right [OF assms(1)] get_left [OF assms(1)] both_red [OF assms(1)] assms(2)
  by (simp add: maybe_split_for_insert_def del: if_split)

lemma get_parent:
  assumes "zrep s (f # fs) t" shows "get s (loc_of fs) = Some (faddr f) \<and> (\<exists>n. nodes s (faddr f) = Some n \<and> nred n = fred f)"
proof (cases f)
  case (InLeft c a k sb)
  then show ?thesis using get_loc [of s fs "Nd c t a k sb"] node_at [of s fs c t a k sb] assms by (simp add: zrep_left)
next
  case (InRight c sb a k)
  then show ?thesis using get_loc [of s fs "Nd c sb a k t"] node_at [of s fs c sb a k t] assms by (simp add: zrep_right)
qed

lemma split_spec:
  assumes z: "zrep s fs (Nd c l a k r)" and m: "mode \<or> redt l \<and> redt r" and p: "par_ok fs parentp p_r"
    and g: "\<And>f fs'. fs = f # fs' \<Longrightarrow> fred f \<Longrightarrow> \<exists>h fs''. fs' = h # fs'' \<and> gparentp = Some (loc_of fs'') \<and> goes h gp_r"
  shows "\<exists>s'. maybe_split_for_insert s (loc_of fs) parentp gparentp p_r gp_r mode = Some s' \<and>
    zrep s' (fst (resplit fs (Nd True (blacken l) a k (blacken r)))) (snd (resplit fs (Nd True (blacken l) a k (blacken r))))"
proof -
  let ?t = "Nd True (blacken l) a k (blacken r)"
  obtain s1 where s1: "paint s a True = Some s1" "zrep s1 fs (Nd True l a k r)" using paint_root [OF z] by blast
  obtain s2 s3 where s3: "(if addr r \<noteq> 0 then paint s1 (addr r) False else Some s1) = Some s2"
    "(if addr l \<noteq> 0 then paint s2 (addr l) False else Some s2) = Some s3" "zrep s3 fs ?t"
    using blacken_children [OF s1(2)] by blast
  have ev: "maybe_split_for_insert s (loc_of fs) parentp gparentp p_r gp_r mode =
      (case parentp of
         None \<Rightarrow> Some s3
       | Some parentp \<Rightarrow>
           do { p \<leftarrow> get s3 parentp;
                n \<leftarrow> nodes s3 p;
                if nred n
                then do { gparentp \<leftarrow> gparentp;
                          gp \<leftarrow> get s3 gparentp;
                          if (p_r > 0) \<noteq> (gp_r > 0) then rotate_child s3 a p gp gparentp p_r
                          else rotate_parent s3 p gp gparentp p_r }
                else Some s3 })"
    by (simp only: maybe_split_for_insert_def get_loc [OF z] addr.simps get_right [OF z] get_left [OF z] both_red [OF z]
        s1(1) s3(1,2) Option.bind.simps if_P [OF m])
  show ?thesis
  proof (cases fs)
    case Nil
    then show ?thesis unfolding ev using p s3(3) by simp
  next
    case (Cons f fs')
    then have pp: "parentp = Some (loc_of fs')" "goes f p_r" using p by auto
    obtain n where n: "get s3 (loc_of fs') = Some (faddr f)" "nodes s3 (faddr f) = Some n" "nred n = fred f"
      using get_parent [of s3 f fs' ?t] s3(3) Cons by auto
    show ?thesis
    proof (cases "fred f")
      case False
      then have "resplit fs ?t = (fs, ?t)" unfolding Cons by (cases fs') auto
      then show ?thesis unfolding ev using s3(3) pp n False by simp
    next
      case True
      then obtain h fs'' where h: "fs' = h # fs''" "gparentp = Some (loc_of fs'')" "goes h gp_r" using g [OF Cons] by blast
      have gp: "get s3 (loc_of fs'') = Some (faddr h)"
        using get_parent [of s3 h fs'' "fill1 f ?t"] s3(3) Cons h by (simp add: zrep_up)
      have z3: "zrep s3 (f # h # fs'') ?t" using s3(3) Cons h by simp
      have "\<exists>s'. (if (p_r > 0) \<noteq> (gp_r > 0) then rotate_child s3 a (faddr f) (faddr h) (loc_of fs'') p_r
          else rotate_parent s3 (faddr f) (faddr h) (loc_of fs'') p_r) = Some s' \<and> zrep s' fs'' (rotate f h ?t)"
      proof (cases "goes_left f = goes_left h")
        case eq: True
        then have "(p_r > 0) = (gp_r > 0)" using pp(2) h(3) by auto
        then show ?thesis using rotate_parent_rep [OF z3 eq, of p_r] pp(2) by simp
      next
        case ne: False
        then have "(p_r > 0) \<noteq> (gp_r > 0)" using pp(2) h(3) by auto
        then show ?thesis using rotate_child_rep [OF z3 ne, of p_r] pp(2) by simp
      qed
      moreover have "resplit fs ?t = (fs'', rotate f h ?t)" using Cons h True by simp
      ultimately show ?thesis unfolding ev using pp n True h gp by simp
    qed
  qed
qed

end
