(* ===== verification/TsearchLoop.thy ===== *)
theory TsearchLoop
  imports TsearchInsert
begin

text \<open>
  The loop of \<open>tsearch\<close> and the insertion as a whole: the invariant that tells which of the locations the code keeps
  are still right, and what the tree holds in the end.
\<close>

section \<open>The way down\<close>

fun dist :: "('k \<Rightarrow> 'k \<Rightarrow> int) \<Rightarrow> 'k \<Rightarrow> 'k rbt \<Rightarrow> nat" where
  "dist cmp k Tip = 0"
| "dist cmp k (Nd c l a x r) = Suc (if cmp k x < 0 then dist cmp k l else dist cmp k r)"

fun splittable :: "'k rbt \<Rightarrow> bool" where
  "splittable Tip \<longleftrightarrow> False"
| "splittable (Nd c l a x r) \<longleftrightarrow> redt l \<and> redt r"

definition mu :: "('k \<Rightarrow> 'k \<Rightarrow> int) \<Rightarrow> 'k \<Rightarrow> 'k rbt \<Rightarrow> nat" where
  "mu cmp k t = 2 * dist cmp k t + (if splittable t then 1 else 0)"

fun next_child :: "('k \<Rightarrow> 'k \<Rightarrow> int) \<Rightarrow> 'k \<Rightarrow> 'k rbt \<Rightarrow> 'k rbt" where
  "next_child cmp k Tip = Tip"
| "next_child cmp k (Nd c l a x r) = (if cmp k x < 0 then l else r)"

definition gpar_ok :: "'k frame list \<Rightarrow> loc option \<Rightarrow> int \<Rightarrow> bool" where
  "gpar_ok fs gparentp gp_r \<longleftrightarrow> (\<forall>f fs'. fs = f # fs' \<and> fred f \<longrightarrow>
    (\<exists>h fs''. fs' = h # fs'' \<and> gparentp = Some (loc_of fs'') \<and> goes h gp_r \<and> \<not> redt (sib h)))"

definition on_path :: "('k \<Rightarrow> 'k \<Rightarrow> int) \<Rightarrow> 'k \<Rightarrow> 'k frame list \<Rightarrow> bool" where
  "on_path cmp k fs \<longleftrightarrow> (\<forall>f \<in> set fs. goes f (cmp k (fkey f)))"

definition wf_at :: "'k frame list \<Rightarrow> 'k rbt \<Rightarrow> bool" where
  "wf_at fs t \<longleftrightarrow> (\<exists>n. rb t n \<and> ctx_ok fs n (redt t))"

text \<open>The invariant of the loop: a node that has to be split knows its parent, and its grandparent when the parent is
  red; after a rotation these locations are no longer right, but then no node is split for two steps.\<close>

definition loop_inv ::
    "('k \<Rightarrow> 'k \<Rightarrow> int) \<Rightarrow> 'k \<Rightarrow> 'k frame list \<Rightarrow> 'k rbt \<Rightarrow> loc option \<Rightarrow> loc option \<Rightarrow> int \<Rightarrow> int \<Rightarrow> bool" where
  "loop_inv cmp k fs t parentp gparentp p_r gp_r \<longleftrightarrow> wf_at fs t \<and> on_path cmp k fs \<and>
    (splittable t \<longrightarrow> par_ok fs parentp p_r \<and> gpar_ok fs gparentp gp_r) \<and>
    (redt t \<longrightarrow> fs \<noteq> [] \<and> par_ok fs parentp p_r \<and> \<not> redt (sib (hd fs)) \<or>
      next_child cmp k t \<noteq> Tip \<and> \<not> redt (next_child cmp k t) \<and> \<not> splittable (next_child cmp k t))"

lemma wf_plug: "(\<exists>n. rb (plug fs t) n) \<longleftrightarrow> wf_at fs t"
  by (simp add: wf_at_def rb_plug)

lemma on_path_Cons [simp]: "on_path cmp k (f # fs) \<longleftrightarrow> goes f (cmp k (fkey f)) \<and> on_path cmp k fs"
  by (simp add: on_path_def)

lemma not_splittable_red: "rb t n \<Longrightarrow> redt t \<Longrightarrow> \<not> splittable t"
  by (cases t) auto

lemma splittable_blacken [simp]: "splittable (blacken t) = splittable t"
  by (cases t) auto

lemma dist_blacken [simp]: "dist cmp k (blacken t) = dist cmp k t"
  by (cases t) auto

lemma blacken_Tip [simp]: "blacken t = Tip \<longleftrightarrow> t = Tip"
  by (cases t) auto

fun frame_for :: "('k \<Rightarrow> 'k \<Rightarrow> int) \<Rightarrow> 'k \<Rightarrow> 'k rbt \<Rightarrow> 'k frame" where
  "frame_for cmp k (Nd c l a x r) = (if cmp k x < 0 then InLeft c a x r else InRight c l a x)"
| "frame_for cmp k Tip = undefined"

lemma frame_for:
  assumes "t = Nd c l a x r" "cmp k x \<noteq> 0"
  shows "fill1 (frame_for cmp k t) (next_child cmp k t) = t" "fred (frame_for cmp k t) = c"
    "goes (frame_for cmp k t) (cmp k x)" "fkey (frame_for cmp k t) = x" "faddr (frame_for cmp k t) = a"
    "loc_of (frame_for cmp k t # fs) = (if cmp k x < 0 then LeftOf a else RightOf a)"
  using assms by auto

lemma wf_down:
  assumes "wf_at fs t" "t = Nd c l a x r" "cmp k x \<noteq> 0"
  shows "wf_at (frame_for cmp k t # fs) (next_child cmp k t)"
proof -
  have "\<exists>n. rb (plug (frame_for cmp k t # fs) (next_child cmp k t)) n"
    using assms frame_for(1) [where cmp = cmp and k = k and x = x, OF assms(2,3)] by (simp add: wf_plug)
  then show ?thesis by (simp only: wf_plug)
qed

lemma wf_up: "wf_at (f # fs) t \<longleftrightarrow> wf_at fs (fill1 f t)"
  by (simp flip: wf_plug)

text \<open>The step without a split.\<close>

lemma inv_down:
  assumes i: "loop_inv cmp k fs t parentp gparentp p_r gp_r" and t: "t = Nd c l a x r" and ne: "cmp k x \<noteq> 0" and n: "\<not> splittable t"
  shows "gpar_ok (frame_for cmp k t # fs) parentp p_r \<or> next_child cmp k t \<noteq> Tip \<and> \<not> splittable (next_child cmp k t)"
    and "next_child cmp k t \<noteq> Tip \<Longrightarrow> loop_inv cmp k (frame_for cmp k t # fs) (next_child cmp k t) (Some (loc_of fs)) parentp (cmp k x) p_r"
    and "mu cmp k (next_child cmp k t) < mu cmp k t"
proof -
  note f = frame_for [where cmp = cmp and k = k and x = x, OF t ne]
  show g: "gpar_ok (frame_for cmp k t # fs) parentp p_r \<or> next_child cmp k t \<noteq> Tip \<and> \<not> splittable (next_child cmp k t)"
  proof (cases "c \<and> (fs \<noteq> [] \<and> par_ok fs parentp p_r \<and> \<not> redt (sib (hd fs)))")
    case True
    then have "gpar_ok (frame_for cmp k t # fs) parentp p_r" by (cases fs) (auto simp: gpar_ok_def)
    then show ?thesis by blast
  next
    case False
    then show ?thesis using i f(2) t unfolding loop_inv_def gpar_ok_def by auto
  qed
  have "\<not> redt (sib (frame_for cmp k t))" if "redt (next_child cmp k t)" using n t that by (auto split: if_splits)
  then show "loop_inv cmp k (frame_for cmp k t # fs) (next_child cmp k t) (Some (loc_of fs)) parentp (cmp k x) p_r"
    if "next_child cmp k t \<noteq> Tip"
    using i wf_down [where cmp = cmp and k = k and x = x and fs = fs, OF _ t ne] f(3,4) g unfolding loop_inv_def by (simp del: goes.simps) blast
  show "mu cmp k (next_child cmp k t) < mu cmp k t" using t by (simp add: mu_def)
qed

text \<open>After a split, whatever the variables hold.\<close>

lemma inv_free:
  "wf_at fs t \<Longrightarrow> on_path cmp k fs \<Longrightarrow> \<not> splittable t \<Longrightarrow>
    \<not> redt t \<or> next_child cmp k t \<noteq> Tip \<and> \<not> redt (next_child cmp k t) \<and> \<not> splittable (next_child cmp k t) \<Longrightarrow>
    loop_inv cmp k fs t parentp gparentp p_r gp_r"
  by (auto simp: loop_inv_def)


lemma rotate_wf:
  assumes "ctx_ok (f # g # fs) n False" "fred f" "\<not> redt (sib g)" "rb (Nd True l a x r) n"
  shows "wf_at fs (rotate f g (Nd True l a x r))"
  using assms unfolding wf_at_def by (intro exI [of _ "Suc n"], cases f; cases g) (auto split: if_splits)

lemma rotate_ino: "t \<noteq> Tip \<Longrightarrow> ino (rotate f g t) = ino (fill1 g (fill1 f t))"
  by (cases t; cases f; cases g) simp_all

lemma split_next:
  assumes i: "loop_inv cmp k fs t parentp gparentp p_r gp_r" and t: "t = Nd c l a x r" and ne: "cmp k x \<noteq> 0"
    and sp: "redt l" "redt r"
  defines "z \<equiv> resplit fs (Nd True (blacken l) a x (blacken r))"
  shows "\<exists>fs2 t2. plug fs2 t2 = plug (fst z) (snd z) \<and> loc_of fs2 = (if cmp k x < 0 then LeftOf a else RightOf a) \<and> t2 \<noteq> Tip \<and>
    ino (plug fs2 t2) = ino (plug fs t) \<and> loop_inv cmp k fs2 t2 parentp' gparentp' p_r' gp_r' \<and> mu cmp k t2 < mu cmp k t"
proof -
  let ?t = "Nd True (blacken l) a x (blacken r)"
  obtain n where n: "rb t n" "ctx_ok fs n (redt t)" using i by (auto simp: loop_inv_def wf_at_def)
  have c: "\<not> c" using n(1) sp unfolding t by (cases c) auto
  then obtain m where m: "n = Suc m" "rb l m" "rb r m" using n(1) unfolding t by auto
  have b: "rb (blacken l) n" "rb (blacken r) n" using rb_blacken [OF m(2) sp(1)] rb_blacken [OF m(3) sp(2)] m(1) by auto
  have ns: "\<not> splittable l" "\<not> splittable r" "l \<noteq> Tip" "r \<noteq> Tip" using not_splittable_red m sp by auto
  have path: "on_path cmp k fs" using i by (simp add: loop_inv_def)
  have gp: "gpar_ok fs gparentp gp_r" using i t sp by (simp add: loop_inv_def)
  show ?thesis
  proof (cases "fs = [] \<or> \<not> fred (hd fs)")
    case True
    then have z: "z = (fs, ?t)" unfolding z_def by (cases "(fs, ?t)" rule: resplit.cases) auto
    have "wf_at fs ?t" using n(2) b True c t unfolding wf_at_def by (cases fs) auto
    note down = wf_down [where cmp = cmp and k = k and x = x, OF this refl ne]
    have "loop_inv cmp k (frame_for cmp k ?t # fs) (next_child cmp k ?t) parentp' gparentp' p_r' gp_r'"
      using down path ns by (intro inv_free) (auto simp: ne)
    then show ?thesis using ns ne unfolding z t
      by (intro exI [of _ "frame_for cmp k ?t # fs"] exI [of _ "next_child cmp k ?t"]) (auto simp: mu_def sp ino_plug)
  next
    case False
    then obtain f fs1 where f: "fs = f # fs1" "fred f" by (cases fs) auto
    then obtain g fs2 where g: "fs1 = g # fs2" "goes g gp_r" "\<not> redt (sib g)" using gp unfolding gpar_ok_def by blast
    have z: "z = (fs2, rotate f g ?t)" unfolding z_def f g by (simp add: f)
    have wf: "wf_at fs2 (rotate f g ?t)"
      using n(2) f g b c t by (intro rotate_wf) auto
    have pth: "on_path cmp k fs2" "goes f (cmp k (fkey f))" "goes g (cmp k (fkey g))" using path f(1) g(1) by simp_all
    show ?thesis
    proof (cases "goes_left f = goes_left g")
      case True
      define h where "h = (case f of InLeft cp p kp sp \<Rightarrow> InLeft False p kp (Nd True sp (faddr g) (fkey g) (sib g))
        | InRight cp sp p kp \<Rightarrow> InRight False (Nd True (sib g) (faddr g) (fkey g) sp) p kp)"
      have h: "fill1 h ?t = rotate f g ?t" "goes h (cmp k (fkey h))"
        using True pth(2) by (cases f; cases g; simp add: h_def)+
      have "wf_at (h # fs2) ?t" unfolding wf_up h(1) by (rule wf)
      note down = wf_down [where cmp = cmp and k = k and x = x, OF this refl ne]
      have "loop_inv cmp k (frame_for cmp k ?t # h # fs2) (next_child cmp k ?t) parentp' gparentp' p_r' gp_r'"
        using down pth h(2) ns by (intro inv_free) (auto simp: ne)
      moreover have "ino (plug fs2 (fill1 h ?t)) = ino (plug fs t)"
        using True unfolding h(1) f(1) g(1) t by (cases f; cases g) (simp_all add: ino_plug)
      ultimately show ?thesis using ns ne h(1) unfolding z t
        by (intro exI [of _ "frame_for cmp k ?t # h # fs2"] exI [of _ "next_child cmp k ?t"]) (auto simp: mu_def sp)
    next
      case False
      consider cp sp p kp cg ag kg sg where "f = InRight cp sp p kp" "g = InLeft cg ag kg sg"
        | cp p kp sp cg sg ag kg where "f = InLeft cp p kp sp" "g = InRight cg sg ag kg"
        using False by (cases f; cases g) auto
      then have "\<exists>h t2. fill1 h t2 = rotate f g ?t \<and> loc_of (h # fs2) = (if cmp k x < 0 then LeftOf a else RightOf a) \<and>
        goes h (cmp k (fkey h)) \<and> redt t2 \<and> \<not> splittable t2 \<and> next_child cmp k t2 = blacken (next_child cmp k t) \<and>
        dist cmp k t2 = dist cmp k t \<and> ino (rotate f g ?t) = ino (fill1 g (fill1 f t))"
      proof cases
        case 1
        then have k: "0 < cmp k kp" "cmp k kg < 0" using pth(2,3) by auto
        show ?thesis
        proof (cases "cmp k x < 0")
          case True
          then show ?thesis using 1 k ne t
            by (intro exI [of _ "InLeft False a x (Nd True (blacken r) ag kg sg)"] exI [of _ "Nd True sp p kp (blacken l)"]) auto
        next
          case False
          then show ?thesis using 1 k ne t
            by (intro exI [of _ "InRight False (Nd True sp p kp (blacken l)) a x"] exI [of _ "Nd True (blacken r) ag kg sg"]) auto
        qed
      next
        case 2
        then have k: "cmp k kp < 0" "0 < cmp k kg" using pth(2,3) by auto
        show ?thesis
        proof (cases "cmp k x < 0")
          case True
          then show ?thesis using 2 k ne t
            by (intro exI [of _ "InLeft False a x (Nd True (blacken r) p kp sp)"] exI [of _ "Nd True sg ag kg (blacken l)"]) auto
        next
          case False
          then show ?thesis using 2 k ne t
            by (intro exI [of _ "InRight False (Nd True sg ag kg (blacken l)) a x"] exI [of _ "Nd True (blacken r) p kp sp"]) auto
        qed
      qed
      then obtain h t2 where h: "fill1 h t2 = rotate f g ?t" "loc_of (h # fs2) = (if cmp k x < 0 then LeftOf a else RightOf a)"
          "goes h (cmp k (fkey h))" "redt t2" "\<not> splittable t2" "next_child cmp k t2 = blacken (next_child cmp k t)"
          "dist cmp k t2 = dist cmp k t" "ino (rotate f g ?t) = ino (fill1 g (fill1 f t))" by blast
      have "wf_at (h # fs2) t2" unfolding wf_up h(1) by (rule wf)
      then have "loop_inv cmp k (h # fs2) t2 parentp' gparentp' p_r' gp_r'"
        using h ns pth(1) t by (intro inv_free) auto
      moreover have "t2 \<noteq> Tip" using h(4) by auto
      moreover have "ino (plug (h # fs2) t2) = ino (plug fs t)" using h(1,8) f(1) g(1) by (simp add: ino_plug)
      moreover have "mu cmp k t2 < mu cmp k t" using h(5,7) sp t by (simp add: mu_def)
      ultimately show ?thesis using h(1,2) unfolding z by (intro exI [of _ "h # fs2"] exI [of _ t2]) simp
    qed
  qed
qed


definition loop_end :: "('k \<Rightarrow> 'k \<Rightarrow> int) \<Rightarrow> 'k \<Rightarrow> (nat \<times> 'k) list \<Rightarrow> 'k tree_mem \<Rightarrow> search_end \<Rightarrow> bool" where
  "loop_end cmp k xs s e \<longleftrightarrow>
    (case e of
       Found a \<Rightarrow> \<exists>T n x. trep s T \<and> rb T n \<and> ino T = xs \<and> (a, x) \<in> set xs \<and> cmp k x = 0
     | Missing nextp rootp parentp r p_r \<Rightarrow>
         \<exists>f fs. zrep s (f # fs) Tip \<and> nextp = loc_of (f # fs) \<and> rootp = loc_of fs \<and> goes f r \<and> on_path cmp k (f # fs) \<and>
           wf_at (f # fs) Tip \<and> gpar_ok (f # fs) parentp p_r \<and> lefts (f # fs) @ rights (f # fs) = xs)"

lemma tsearch_loop_spec:
  assumes "zrep s fs t" "loop_inv cmp k fs t parentp gparentp p_r gp_r" "t \<noteq> Tip"
  shows "\<exists>s' e. tsearch_loop cmp k s (loc_of fs) parentp gparentp p_r gp_r = Some (s', e) \<and> loop_end cmp k (ino (plug fs t)) s' e"
  using assms
proof (induction "mu cmp k t" arbitrary: s fs t parentp gparentp p_r gp_r rule: less_induct)
  case less
  obtain c l a x r where t: "t = Nd c l a x r" using less.prems(3) by (cases t) auto
  note z = less.prems(1) [unfolded t]
  have root: "get s (loc_of fs) = Some a" "a \<noteq> 0" "\<exists>n. nodes s a = Some n \<and> nkey n = x" using get_loc [OF z] node_at [OF z] by auto
  then obtain n where n: "nodes s a = Some n" "nkey n = x" by blast
  let ?next = "if cmp k x < 0 then LeftOf a else RightOf a"
  show ?case
  proof (cases "cmp k x = 0")
    case True
    then have "tsearch_loop cmp k s (loc_of fs) parentp gparentp p_r gp_r = Some (s, Found a)"
      using root n by (subst tsearch_loop.simps) (simp add: Let_def)
    moreover have "\<exists>n. rb (plug fs t) n" using less.prems(2) unfolding loop_inv_def wf_plug by blast
    moreover have "trep s (plug fs t)" using less.prems(1) by (simp add: zrep_plug)
    moreover have "(a, x) \<in> set (ino (plug fs t))" by (simp add: ino_plug t)
    ultimately show ?thesis using True by (force simp: loop_end_def)
  next
    case ne: False
    show ?thesis
    proof (cases "splittable t")
      case False
      let ?f = "frame_for cmp k t" and ?c = "next_child cmp k t"
      note f = frame_for [where cmp = cmp and k = k and x = x, OF t ne]
      note d = inv_down [where cmp = cmp and k = k and x = x, OF less.prems(2) t ne False]
      have split: "maybe_split_for_insert s (loc_of fs) parentp gparentp p_r gp_r False = Some s"
        using no_split [OF z] False t by simp
      have zc: "zrep s (?f # fs) ?c" using less.prems(1) f(1) by (simp add: zrep_up)
      have loc: "loc_of (?f # fs) = ?next" by (rule f(6))
      have get: "get s ?next = Some (addr ?c)" using get_loc [OF zc] loc by simp
      have tip: "addr ?c = 0 \<longleftrightarrow> ?c = Tip" using tree_in_addr [of "nodes s" ?c] zc by (simp add: zrep_def)
      show ?thesis
      proof (cases "?c = Tip")
        case True
        have "tsearch_loop cmp k s (loc_of fs) parentp gparentp p_r gp_r = Some (s, Missing ?next (loc_of fs) parentp (cmp k x) p_r)"
          using root n ne split get tip True by (subst tsearch_loop.simps) (simp add: Let_def)
        moreover have "loop_end cmp k (ino (plug fs t)) s (Missing ?next (loc_of fs) parentp (cmp k x) p_r)"
        proof -
          have "ino (plug (?f # fs) ?c) = ino (plug fs t)" using f(1) by simp
          then have "lefts (?f # fs) @ rights (?f # fs) = ino (plug fs t)" by (subst (asm) ino_plug) (simp add: True)
          moreover have "gpar_ok (?f # fs) parentp p_r" using d(1) True by blast
          moreover have "wf_at (?f # fs) Tip" "on_path cmp k (?f # fs)"
            using wf_down [where cmp = cmp and k = k and x = x and fs = fs, OF _ t ne] less.prems(2) f(3,4) True
            by (auto simp: loop_inv_def simp del: goes.simps)
          ultimately show ?thesis using zc loc f(3) True unfolding loop_end_def
            by (simp del: goes.simps loc_of.simps) metis
        qed
        ultimately show ?thesis by blast
      next
        case no: False
        have "tsearch_loop cmp k s (loc_of fs) parentp gparentp p_r gp_r =
            tsearch_loop cmp k s (loc_of (?f # fs)) (Some (loc_of fs)) parentp (cmp k x) p_r"
          using root n ne split get tip no unfolding loc by (subst tsearch_loop.simps) (simp add: Let_def)
        moreover have "\<exists>s' e. tsearch_loop cmp k s (loc_of (?f # fs)) (Some (loc_of fs)) parentp (cmp k x) p_r = Some (s', e) \<and>
            loop_end cmp k (ino (plug (?f # fs) ?c)) s' e"
          by (rule less.hyps [OF d(3) zc d(2) no]) (rule no)
        ultimately show ?thesis using f(1) by simp
      qed
    next
      case True
      then have sp: "redt l" "redt r" using t by simp_all
      let ?z = "resplit fs (Nd True (blacken l) a x (blacken r))"
      have "par_ok fs parentp p_r" "gpar_ok fs gparentp gp_r" using less.prems(2) True by (simp_all add: loop_inv_def)
      then obtain s' where s': "maybe_split_for_insert s (loc_of fs) parentp gparentp p_r gp_r False = Some s'" "zrep s' (fst ?z) (snd ?z)"
        using split_spec [OF z, of False parentp p_r gparentp gp_r] sp unfolding gpar_ok_def by metis
      obtain fs2 t2 where f2: "plug fs2 t2 = plug (fst ?z) (snd ?z)" "loc_of fs2 = ?next" "t2 \<noteq> Tip"
          "ino (plug fs2 t2) = ino (plug fs t)" "loop_inv cmp k fs2 t2 (Some (loc_of fs)) parentp (cmp k x) p_r" "mu cmp k t2 < mu cmp k t"
        using split_next [OF less.prems(2) t ne sp] by blast
      have z2: "zrep s' fs2 t2" using s'(2) f2(1) by (simp add: zrep_plug)
      have "addr t2 \<noteq> 0" using tree_in_addr [of "nodes s'" t2] z2 f2(3) by (simp add: zrep_def)
      then have "tsearch_loop cmp k s (loc_of fs) parentp gparentp p_r gp_r =
          tsearch_loop cmp k s' (loc_of fs2) (Some (loc_of fs)) parentp (cmp k x) p_r"
        using root n ne s'(1) get_loc [OF z2] unfolding f2(2) by (subst tsearch_loop.simps) (simp add: Let_def)
      then show ?thesis using less.hyps [OF f2(6) z2 f2(5,3)] f2(4) by simp
    qed
  qed
qed


section \<open>The insertion\<close>

lemma zrep_leaf:
  assumes z: "zrep s fs Tip" and q: "q \<noteq> 0" "q \<notin> fst ` set (lefts fs)" "q \<notin> fst ` set (rights fs)"
  shows "\<exists>s'. assign s (loc_of fs) q = Some s' \<and>
    zrep (s'\<lparr>nodes := (nodes s')(q \<mapsto> \<lparr>nkey = k, nleft = 0, nright = 0, nred = True\<rparr>)\<rparr>) fs (Nd True Tip q k Tip)"
proof -
  have "frames_in (nodes s) (rootv s) fs 0" "distinct (map fst (lefts fs @ rights fs))" using z by (auto simp: zrep_def)
  then obtain s' where s': "assign s (loc_of fs) q = Some s'" "frames_in (nodes s') (rootv s') fs q"
    using assign_loc by blast
  then show ?thesis using z q by (auto simp: zrep_def fun_upd_same simp del: fun_upd_apply)
qed

lemma loc_neq: "zrep s (f # fs) t \<Longrightarrow> loc_of (f # fs) \<noteq> loc_of fs"
  by (cases f; cases fs; (cases "hd fs")?) (auto simp: zrep_def)

lemma leaf_spec:
  assumes z: "zrep s (f # fs) Tip" and e: "goes f r" "wf_at (f # fs) Tip" "gpar_ok (f # fs) parentp p_r"
    and q: "q \<noteq> 0" "q \<notin> fst ` set (lefts (f # fs) @ rights (f # fs))"
  shows "\<exists>s1 s2 T n. assign s (loc_of (f # fs)) q = Some s1 \<and>
    maybe_split_for_insert (s1\<lparr>nodes := (nodes s1)(q \<mapsto> \<lparr>nkey = k, nleft = 0, nright = 0, nred = True\<rparr>)\<rparr>)
      (loc_of (f # fs)) (Some (loc_of fs)) parentp r p_r True = Some s2 \<and>
    trep s2 T \<and> rb T n \<and> ino T = lefts (f # fs) @ (q, k) # rights (f # fs)"
proof -
  let ?t = "Nd True Tip q k Tip"
  obtain s1 where s1: "assign s (loc_of (f # fs)) q = Some s1"
      "zrep (s1\<lparr>nodes := (nodes s1)(q \<mapsto> \<lparr>nkey = k, nleft = 0, nright = 0, nred = True\<rparr>)\<rparr>) (f # fs) ?t"
    using zrep_leaf [OF z q(1), of k] q(2) by (auto simp: image_Un)
  have gp: "\<And>f' fs'. f # fs = f' # fs' \<Longrightarrow> fred f' \<Longrightarrow> \<exists>h fs''. fs' = h # fs'' \<and> parentp = Some (loc_of fs'') \<and> goes h p_r"
    using e(3) unfolding gpar_ok_def by blast
  obtain s2 where s2: "maybe_split_for_insert (s1\<lparr>nodes := (nodes s1)(q \<mapsto> \<lparr>nkey = k, nleft = 0, nright = 0, nred = True\<rparr>)\<rparr>)
      (loc_of (f # fs)) (Some (loc_of fs)) parentp r p_r True = Some s2"
      "zrep s2 (fst (resplit (f # fs) ?t)) (snd (resplit (f # fs) ?t))"
    using split_spec [OF s1(2), of True "Some (loc_of fs)" r parentp p_r] e(1) gp by auto
  have ctx: "ctx_ok (f # fs) 0 False" using e(2) by (auto simp: wf_at_def)
  let ?T = "plug (fst (resplit (f # fs) ?t)) (snd (resplit (f # fs) ?t))"
  have T: "wf_at (fst (resplit (f # fs) ?t)) (snd (resplit (f # fs) ?t)) \<and> ino ?T = lefts (f # fs) @ (q, k) # rights (f # fs)"
  proof (cases "fred f")
    case True
    then obtain g fs2 where g: "fs = g # fs2" "\<not> redt (sib g)" using e(3) unfolding gpar_ok_def by blast
    have r: "resplit (f # fs) ?t = (fs2, rotate f g ?t)" using True g by simp
    have "wf_at fs2 (rotate f g ?t)" using ctx g True by (intro rotate_wf [of _ _ _ 0]) auto
    moreover have "ino (plug fs2 (rotate f g ?t)) = ino (plug (f # fs) ?t)" using g by (simp add: ino_plug rotate_ino)
    ultimately show ?thesis unfolding r by (simp only: fst_conv snd_conv ino_plug) simp
  next
    case False
    then have r: "resplit (f # fs) ?t = (f # fs, ?t)" by (cases fs) auto
    have "wf_at (f # fs) ?t" using ctx False unfolding wf_at_def by (intro exI [of _ 0]) auto
    then show ?thesis unfolding r by (simp only: fst_conv snd_conv ino_plug) simp
  qed
  then obtain n where "rb ?T n" using wf_plug by blast
  then show ?thesis using s1(1) s2 T by (metis zrep_plug)
qed

text \<open>What \<open>tsearch\<close> does to the nodes in the order of the tree: nothing when a key is equal, otherwise the new node is
  put between the smaller and the larger keys.\<close>

definition tsearch_ok ::
    "('k \<Rightarrow> 'k \<Rightarrow> int) \<Rightarrow> 'k \<Rightarrow> nat \<Rightarrow> (nat \<times> 'k) list \<Rightarrow> (nat \<times> 'k) list \<Rightarrow> nat \<Rightarrow> bool" where
  "tsearch_ok cmp k q xs ys a \<longleftrightarrow>
    (\<exists>x. (a, x) \<in> set xs \<and> cmp k x = 0 \<and> ys = xs) \<or>
    a = q \<and> (\<exists>ls rs fs. xs = ls @ rs \<and> ys = ls @ (q, k) # rs \<and> ls = lefts fs \<and> rs = rights fs \<and> on_path cmp k fs)"

lemma blacken_wf: "rb t n \<Longrightarrow> \<exists>m. rb (blacken t) m"
  using rb_blacken [of t n] rb_blacken_black [of t n] by (cases "redt t") auto

lemma tsearch_spec:
  assumes z: "trep s T" and rb: "rb T n" and q: "q \<noteq> 0" "q \<notin> fst ` set (ino T)"
  shows "\<exists>s' a T' n'. tsearch cmp q k s (Some Root) = Some (s', a) \<and> trep s' T' \<and> rb T' n' \<and> tsearch_ok cmp k q (ino T) (ino T') a"
proof -
  have get: "get s Root = Some (addr T)" using get_loc [of s "[]" T] z by (simp add: trep_def)
  obtain s1 where s1: "(if addr T \<noteq> 0 then paint s (addr T) False else Some s) = Some s1" "zrep s1 [] (blacken T)"
    using paint_blacken z unfolding trep_def by blast
  have get1: "get s1 Root = Some (addr T)" using get_loc [OF s1(2)] by simp
  show ?thesis
  proof (cases "T = Tip")
    case True
    have "tsearch_loop cmp k s1 Root None None 0 0 = Some (s1, Missing Root Root None 0 0)"
      using get1 True by (subst tsearch_loop.simps) simp
    moreover obtain s2 where "assign s1 Root q = Some s2"
      "zrep (s2\<lparr>nodes := (nodes s2)(q \<mapsto> \<lparr>nkey = k, nleft = 0, nright = 0, nred = True\<rparr>)\<rparr>) [] (Nd True Tip q k Tip)"
      using zrep_leaf [of s1 "[]" q k] s1(2) q True by auto
    moreover have "rb (Nd True Tip q k Tip) 0" by simp
    moreover have "tsearch_ok cmp k q (ino T) (ino (Nd True Tip q k Tip)) q"
      unfolding tsearch_ok_def True by (intro disjI2 conjI refl exI [of _ "[]"]) (simp_all add: on_path_def)
    ultimately show ?thesis using get s1(1) q(1) True unfolding tsearch_def trep_def by fastforce
  next
    case False
    have "wf_at [] (blacken T)" using blacken_wf [OF rb] by (simp add: wf_at_def)
    then have "loop_inv cmp k [] (blacken T) None None 0 0"
      using q by (auto simp: loop_inv_def gpar_ok_def on_path_def)
    then obtain s2 e where e: "tsearch_loop cmp k s1 Root None None 0 0 = Some (s2, e)" "loop_end cmp k (ino T) s2 e"
      using tsearch_loop_spec [OF s1(2), of cmp k None None 0 0] False by auto
    show ?thesis
    proof (cases e)
      case (Found a)
      then show ?thesis using e get s1(1) unfolding tsearch_def loop_end_def tsearch_ok_def by fastforce
    next
      case (Missing nextp rootp parentp r p_r)
      then obtain f fs where f: "zrep s2 (f # fs) Tip" "nextp = loc_of (f # fs)" "rootp = loc_of fs" "goes f r" "on_path cmp k (f # fs)"
          "wf_at (f # fs) Tip" "gpar_ok (f # fs) parentp p_r" "lefts (f # fs) @ rights (f # fs) = ino T"
        using e(2) unfolding loop_end_def by auto
      have q': "q \<notin> fst ` set (lefts (f # fs) @ rights (f # fs))" using q(2) unfolding f(8) .
      obtain s3 s4 T' n' where l: "assign s2 nextp q = Some s3"
          "maybe_split_for_insert (s3\<lparr>nodes := (nodes s3)(q \<mapsto> \<lparr>nkey = k, nleft = 0, nright = 0, nred = True\<rparr>)\<rparr>)
            nextp (Some rootp) parentp r p_r True = Some s4"
          "trep s4 T'" "rb T' n'" "ino T' = lefts (f # fs) @ (q, k) # rights (f # fs)"
        using leaf_spec [OF f(1,4,6,7) q(1) q', of k] f(2,3) by blast
      have "tsearch cmp q k s (Some Root) = Some (s4, q)"
        using get s1(1) e(1) Missing l(1,2) q(1) loc_neq [OF f(1)] f(2,3) by (simp add: tsearch_def del: if_split)
      moreover have "tsearch_ok cmp k q (ino T) (ino T') q" using f(5,8) l(5) unfolding tsearch_ok_def by metis
      ultimately show ?thesis using l(3,4) by blast
    qed
  qed
qed

end
