(* ===== verification/TsearchDelete.thy ===== *)
theory TsearchDelete
  imports TsearchLoop
begin

text \<open>
  \<open>tdelete\<close> on red-black trees: the loop that restores the black height after a black node has been taken out, and the
  deletion as a whole. The two sides of the code are proved at once: \<open>mk b\<close> builds a node whose left child
  comes first when \<open>b\<close> holds, and whose right child comes first otherwise.
\<close>

section \<open>Both sides\<close>

definition near :: "bool \<Rightarrow> nat \<Rightarrow> loc" where "near b = (if b then LeftOf else RightOf)"

definition mk :: "bool \<Rightarrow> bool \<Rightarrow> 'k rbt \<Rightarrow> nat \<Rightarrow> 'k \<Rightarrow> 'k rbt \<Rightarrow> 'k rbt" where
  "mk b c x a k y = (if b then Nd c x a k y else Nd c y a k x)"

definition fr :: "bool \<Rightarrow> bool \<Rightarrow> nat \<Rightarrow> 'k \<Rightarrow> 'k rbt \<Rightarrow> 'k frame" where
  "fr b c a k s = (if b then InLeft c a k s else InRight c s a k)"

lemma fill_fr [simp]: "fill1 (fr b c a k s) t = mk b c t a k s"
  by (simp add: fr_def mk_def)

lemma mk_simps [simp]: "addr (mk b c x a k y) = a" "redt (mk b c x a k y) = c" "mk b c x a k y \<noteq> Tip"
  "rb (mk b True x a k y) n \<longleftrightarrow> rb x n \<and> rb y n \<and> \<not> redt x \<and> \<not> redt y"
  "rb (mk b False x a k y) n \<longleftrightarrow> (\<exists>m. n = Suc m \<and> rb x m \<and> rb y m)"
  "blacken (mk b c x a k y) = mk b False x a k y"
  by (auto simp: mk_def)

lemma fr_simps [simp]: "sib (fr b c a k s) = s" "fred (fr b c a k s) = c" "faddr (fr b c a k s) = a" "loc_of (fr b c a k s # fs) = near b a"
  by (simp_all add: fr_def near_def)

lemma zrep_fr: "zrep s (fr b c a k u # fs) t \<longleftrightarrow> zrep s fs (mk b c t a k u)"
  by (simp add: zrep_up)

lemma mk_flip: "mk (\<not> b) c x a k y = mk b c y a k x"
  by (simp add: mk_def)

lemma get_near: "zrep s fs (mk b c x a k y) \<Longrightarrow> get s (near b a) = Some (addr x) \<and> get s (near (\<not> b) a) = Some (addr y)"
  using get_left [of s fs c] get_right [of s fs c] by (cases b) (simp_all add: mk_def near_def)

lemma node_mk: "zrep s fs (mk b c x a k y) \<Longrightarrow> \<exists>n. nodes s a = Some n \<and> nred n = c \<and> nkey n = k"
  using node_at [of s fs c] by (cases b) (auto simp: mk_def)

lemma paint_mk: "zrep s fs (mk b c x a k y) \<Longrightarrow> \<exists>s'. paint s a c' = Some s' \<and> zrep s' fs (mk b c' x a k y)"
  using paint_root [of s fs c] by (cases b) (auto simp: mk_def)

lemma ex_mk: "t \<noteq> Tip \<Longrightarrow> \<exists>c x a k y. t = mk b c x a k y"
  by (cases t; cases b) (auto simp: mk_def)

section \<open>The rotations of the loop\<close>

lemma rotate_up:
  assumes z: "zrep s fs (mk b c t p kp (mk b d x a k y))"
  shows "\<exists>s1 s2 s3. assign s (near (\<not> b) p) (addr x) = Some s1 \<and> assign s1 (near b a) p = Some s2 \<and>
    assign s2 (loc_of fs) a = Some s3 \<and> zrep s3 fs (mk b d (mk b c t p kp x) a k y)"
proof -
  let ?t = "mk b d (mk b c t p kp x) a k y"
  have dist: "distinct (map fst (lefts fs @ ino ?t @ rights fs))" using z by (cases b) (auto simp: mk_def zrep_def)
  obtain s2 where s2: "rootv s2 = rootv s" "tree_in (nodes s2) ?t" "frames_in (nodes s2) (rootv s) fs p"
    "\<exists>s1. assign s (near (\<not> b) p) (addr x) = Some s1 \<and> assign s1 (near b a) p = Some s2"
  proof (cases b)
    case True
    note zz = z [unfolded mk_def zrep_def, simplified True, simplified]
    let ?s = "s\<lparr>nodes := (nodes s)(p \<mapsto> \<lparr>nkey = kp, nleft = addr t, nright = addr x, nred = c\<rparr>,
      a \<mapsto> \<lparr>nkey = k, nleft = p, nright = addr y, nred = d\<rparr>)\<rparr>"
    show ?thesis by (rule that [of ?s]) (use True zz in \<open>simp_all add: mk_def near_def assign_def modify_def image_Un\<close>)
  next
    case False
    note zz = z [unfolded mk_def zrep_def, simplified False, simplified]
    let ?s = "s\<lparr>nodes := (nodes s)(p \<mapsto> \<lparr>nkey = kp, nleft = addr x, nright = addr t, nred = c\<rparr>,
      a \<mapsto> \<lparr>nkey = k, nleft = addr y, nright = p, nred = d\<rparr>)\<rparr>"
    show ?thesis by (rule that [of ?s]) (use False zz in \<open>simp_all add: mk_def near_def assign_def modify_def image_Un\<close>)
  qed
  then show ?thesis using assign_tree [of s2 fs p ?t] dist by auto
qed

lemma rotate_over:
  assumes z: "zrep s fs (mk b c t p kp (mk b d (mk b e u n kn v) a k y))"
  shows "\<exists>s1 s2 s3 s4 s5. assign s (near (\<not> b) p) (addr u) = Some s1 \<and> get s1 (near (\<not> b) n) = Some (addr v) \<and>
    assign s1 (near b a) (addr v) = Some s2 \<and> assign s2 (near (\<not> b) n) a = Some s3 \<and> assign s3 (near b n) p = Some s4 \<and>
    assign s4 (loc_of fs) n = Some s5 \<and> zrep s5 fs (mk b e (mk b c t p kp u) n kn (mk b d v a k y))"
proof -
  let ?t = "mk b e (mk b c t p kp u) n kn (mk b d v a k y)"
  have dist: "distinct (map fst (lefts fs @ ino ?t @ rights fs))" using z by (cases b) (auto simp: mk_def zrep_def)
  obtain s4 where s4: "rootv s4 = rootv s" "tree_in (nodes s4) ?t" "frames_in (nodes s4) (rootv s) fs p"
    "\<exists>s1 s2 s3. assign s (near (\<not> b) p) (addr u) = Some s1 \<and> get s1 (near (\<not> b) n) = Some (addr v) \<and>
      assign s1 (near b a) (addr v) = Some s2 \<and> assign s2 (near (\<not> b) n) a = Some s3 \<and> assign s3 (near b n) p = Some s4"
  proof (cases b)
    case True
    note zz = z [unfolded mk_def zrep_def, simplified True, simplified]
    let ?s = "s\<lparr>nodes := (nodes s)(p \<mapsto> \<lparr>nkey = kp, nleft = addr t, nright = addr u, nred = c\<rparr>,
      a \<mapsto> \<lparr>nkey = k, nleft = addr v, nright = addr y, nred = d\<rparr>, n \<mapsto> \<lparr>nkey = kn, nleft = p, nright = a, nred = e\<rparr>)\<rparr>"
    show ?thesis by (rule that [of ?s]) (use True zz in \<open>simp_all add: mk_def near_def get_def assign_def modify_def image_Un\<close>)
  next
    case False
    note zz = z [unfolded mk_def zrep_def, simplified False, simplified]
    let ?s = "s\<lparr>nodes := (nodes s)(p \<mapsto> \<lparr>nkey = kp, nleft = addr u, nright = addr t, nred = c\<rparr>,
      a \<mapsto> \<lparr>nkey = k, nleft = addr y, nright = addr v, nred = d\<rparr>, n \<mapsto> \<lparr>nkey = kn, nleft = a, nright = p, nred = e\<rparr>)\<rparr>"
    show ?thesis by (rule that [of ?s]) (use False zz in \<open>simp_all add: mk_def near_def get_def assign_def modify_def image_Un\<close>)
  qed
  then show ?thesis using assign_tree [of s4 fs p ?t] dist by auto
qed


lemma fr_subtrees: "zrep s (fr b c p kp q # fs) t \<Longrightarrow> tree_in (nodes s) q \<and> tree_in (nodes s) t"
  by (cases b) (auto simp: fr_def zrep_def)

lemma ino_mk [simp]: "ino (mk b c x a k y) = (if b then ino x @ (a, k) # ino y else ino y @ (a, k) # ino x)"
  by (simp add: mk_def)

lemma fix_brother_spec:
  assumes z: "zrep s (fr b c p kp (mk b False x a k y) # fs) t"
  shows "\<exists>s' again. fix_brother (near b) (near (\<not> b)) s (loc_of fs) p a = Some (s', again) \<and>
    (if again then \<not> redt x \<and> \<not> redt y \<and> zrep s' fs (mk b c t p kp (mk b True x a k y))
     else \<exists>T. zrep s' fs T \<and> redt T = c \<and> ino T = ino (mk b c t p kp (mk b False x a k y)) \<and>
       (\<forall>m. rb t m \<and> rb x m \<and> rb y m \<longrightarrow> rb T (if c then Suc m else Suc (Suc m))))"
proof -
  let ?q = "mk b False x a k y"
  have zp: "zrep s fs (mk b c t p kp ?q)" using z by (simp add: zrep_fr)
  then have zq: "zrep s (fr (\<not> b) c p kp t # fs) ?q" by (simp add: zrep_fr mk_flip)
  have gets: "get s (near b a) = Some (addr x)" "get s (near (\<not> b) a) = Some (addr y)" using get_near [OF zq] by simp_all
  have sub: "tree_in (nodes s) x" "tree_in (nodes s) y" using fr_subtrees [OF z] by (cases b; simp add: mk_def)+
  note reds = is_red_tree [OF sub(1)] is_red_tree [OF sub(2)]
  obtain pn where pn: "nodes s p = Some pn" "nred pn = c" using node_mk [OF zp] by auto
  show ?thesis
  proof (cases "redt x \<or> redt y")
    case False
    obtain s' where "paint s a True = Some s'" "zrep s' (fr (\<not> b) c p kp t # fs) (mk b True x a k y)"
      using paint_mk [OF zq] by blast
    moreover from this have "zrep s' fs (mk b c t p kp (mk b True x a k y))" by (simp add: zrep_fr mk_flip)
    ultimately show ?thesis using False gets reds by (auto simp: fix_brother_def)
  next
    case red: True
    show ?thesis
    proof (cases "redt y")
      case False
      then have "x \<noteq> Tip" "redt x" using red by auto
      then obtain e u n kn v where x: "x = mk b e u n kn v" using ex_mk by blast
      have e: e using \<open>redt x\<close> x by simp
      have "zrep s (fr b False a k y # fr (\<not> b) c p kp t # fs) (mk b e u n kn v)" using zq x by (simp add: zrep_fr)
      from paint_mk [OF this, of c] obtain s1 where s1: "paint s n c = Some s1" "zrep s1 (fr b False a k y # fr (\<not> b) c p kp t # fs) (mk b c u n kn v)"
        by blast
      have get1: "get s1 (near b n) = Some (addr u)" using get_near [OF s1(2)] by simp
      have z1: "zrep s1 fs (mk b c t p kp (mk b False (mk b c u n kn v) a k y))"
        using s1(2) by (simp add: zrep_fr mk_flip)
      obtain t1 t2 t3 t4 t5 where r: "assign s1 (near (\<not> b) p) (addr u) = Some t1" "get t1 (near (\<not> b) n) = Some (addr v)"
        "assign t1 (near b a) (addr v) = Some t2" "assign t2 (near (\<not> b) n) a = Some t3" "assign t3 (near b n) p = Some t4"
        "assign t4 (loc_of fs) n = Some t5" "zrep t5 fs (mk b c (mk b c t p kp u) n kn (mk b False v a k y))"
        using rotate_over [OF z1] by blast
      have "zrep t5 (fr b c n kn (mk b False v a k y) # fs) (mk b c t p kp u)" using r(7) by (simp add: zrep_fr)
      from paint_mk [OF this, of False] obtain t6 where t6: "paint t5 p False = Some t6" "zrep t6 (fr b c n kn (mk b False v a k y) # fs) (mk b False t p kp u)"
        by blast
      have "zrep t6 fs (mk b c (mk b False t p kp u) n kn (mk b False v a k y))" using t6(2) by (simp add: zrep_fr)
      moreover have "fix_brother (near b) (near (\<not> b)) s (loc_of fs) p a = Some (t6, False)"
        using gets reds red False pn s1(1) get1 r(1-6) t6(1) x by (simp add: fix_brother_def)
      moreover have "rb (mk b c (mk b False t p kp u) n kn (mk b False v a k y)) (if c then Suc m else Suc (Suc m))"
        if "rb t m \<and> rb x m \<and> rb y m" for m using that x e by (cases c) auto
      moreover have "ino (mk b c (mk b False t p kp u) n kn (mk b False v a k y)) = ino (mk b c t p kp (mk b False x a k y))"
        by (simp add: x)
      ultimately show ?thesis using mk_simps(2) by (intro exI [of _ t6] exI [of _ False]) auto
    next
      case yr: True
      then have "y \<noteq> Tip" by auto
      obtain s1 where s1: "paint s a c = Some s1" "zrep s1 (fr (\<not> b) c p kp t # fs) (mk b c x a k y)"
        using paint_mk [OF zq] by blast
      have "zrep s1 fs (mk b c t p kp (mk b c x a k y))" using s1(2) by (simp add: zrep_fr mk_flip)
      from paint_mk [OF this, of False] obtain s2 where s2: "paint s1 p False = Some s2" "zrep s2 fs (mk b False t p kp (mk b c x a k y))"
        by blast
      have z2: "zrep s2 (fr (\<not> b) c a k x # fr (\<not> b) False p kp t # fs) y" using s2(2) by (simp add: zrep_fr mk_flip)
      have "addr y \<noteq> 0" using tree_in_addr [OF sub(2)] \<open>y \<noteq> Tip\<close> by simp
      then obtain s3 where s3: "paint s2 (addr y) False = Some s3" "zrep s3 (fr (\<not> b) c a k x # fr (\<not> b) False p kp t # fs) (blacken y)"
        using paint_blacken [OF z2] by auto
      have z3: "zrep s3 fs (mk b False t p kp (mk b c x a k (blacken y)))" using s3(2) by (simp add: zrep_fr mk_flip)
      have "zrep s3 (fr (\<not> b) False p kp t # fs) (mk b c x a k (blacken y))" using s3(2) by (simp add: zrep_fr mk_flip)
      from get_near [OF this] have get3: "get s3 (near b a) = Some (addr x)" by simp
      obtain t1 t2 t3 where r: "assign s3 (near (\<not> b) p) (addr x) = Some t1" "assign t1 (near b a) p = Some t2"
        "assign t2 (loc_of fs) a = Some t3" "zrep t3 fs (mk b c (mk b False t p kp x) a k (blacken y))"
        using rotate_up [OF z3] by blast
      have "fix_brother (near b) (near (\<not> b)) s (loc_of fs) p a = Some (t3, False)"
        using gets reds yr pn s1(1) s2(1) s3(1) get3 r(1-3) by (simp add: fix_brother_def)
      moreover have "rb (mk b c (mk b False t p kp x) a k (blacken y)) (if c then Suc m else Suc (Suc m))"
        if "rb t m \<and> rb x m \<and> rb y m" for m using that rb_blacken [of y m] yr by (cases c) auto
      ultimately show ?thesis using r(4) by (intro exI [of _ t3] exI [of _ False]) auto
    qed
  qed
qed


section \<open>The loop\<close>

fun stack_of :: "'k frame list \<Rightarrow> loc list" where
  "stack_of [] = []"
| "stack_of (f # fs) = loc_of fs # stack_of fs"

lemma length_stack_of: "length (stack_of fs) = length fs"
  by (induction fs) simp_all

text \<open>What a pass leaves: a subtree that is a black node short and that the loop goes on with, or that only has to be
  painted black, or a tree that is in order.\<close>

definition pass_ok :: "(nat \<times> 'k) list \<Rightarrow> nat \<Rightarrow> 'k tree_mem \<Rightarrow> nat \<Rightarrow> loc list \<Rightarrow> bool \<Rightarrow> bool" where
  "pass_ok xs n s p stack again \<longleftrightarrow>
    (if again
     then \<exists>fs T m. zrep s fs T \<and> addr T = p \<and> stack = stack_of fs \<and> ino (plug fs T) = xs \<and>
       (redt T \<and> wf_at fs (blacken T) \<or> \<not> redt T \<and> rb T m \<and> ctx_ok fs (Suc m) False \<and> length fs < n)
     else \<exists>T m. trep s T \<and> rb T m \<and> ino T = xs)"

lemma ino_fr: "ino (plug (fr b c p kp q # fs) t) = lefts fs @ ino (mk b c t p kp q) @ rights fs"
  by (simp add: ino_plug fr_def)

lemma fix_brother_pass:
  assumes z: "zrep s (fr b c p kp (mk b False x a k y) # fs) t"
    and wf: "rb t m" "rb x m" "rb y m" "ctx_ok fs (if c then Suc m else Suc (Suc m)) c" and n: "c \<or> length fs < n" "\<not> redt t"
  shows "\<exists>s' again. fix_brother (near b) (near (\<not> b)) s (loc_of fs) p a = Some (s', again) \<and>
    pass_ok (ino (plug (fr b c p kp (mk b False x a k y) # fs) t)) n s' p (stack_of fs) again"
proof -
  obtain s' again where f: "fix_brother (near b) (near (\<not> b)) s (loc_of fs) p a = Some (s', again)"
    "if again then \<not> redt x \<and> \<not> redt y \<and> zrep s' fs (mk b c t p kp (mk b True x a k y))
     else \<exists>T. zrep s' fs T \<and> redt T = c \<and> ino T = ino (mk b c t p kp (mk b False x a k y)) \<and>
       (\<forall>m. rb t m \<and> rb x m \<and> rb y m \<longrightarrow> rb T (if c then Suc m else Suc (Suc m)))"
    using fix_brother_spec [OF z] by blast
  have "pass_ok (ino (plug (fr b c p kp (mk b False x a k y) # fs) t)) n s' p (stack_of fs) again"
  proof (cases again)
    case True
    let ?T = "mk b c t p kp (mk b True x a k y)"
    have z': "zrep s' fs ?T" "\<not> redt x" "\<not> redt y" using f(2) True by auto
    have i: "ino (plug fs ?T) = ino (plug (fr b c p kp (mk b False x a k y) # fs) t)" by (simp add: ino_fr ino_plug)
    have "redt ?T \<and> wf_at fs (blacken ?T) \<or> \<not> redt ?T \<and> rb ?T (Suc m) \<and> ctx_ok fs (Suc (Suc m)) False \<and> length fs < n"
    proof (cases c)
      case True
      have "rb (blacken ?T) (Suc m) \<and> ctx_ok fs (Suc m) (redt (blacken ?T))"
        using wf z' ctx_ok_black [of fs "Suc m" True] True by simp
      then show ?thesis using True unfolding wf_at_def by auto
    next
      case False
      then show ?thesis using wf z' n by simp
    qed
    then show ?thesis using True z'(1) i unfolding pass_ok_def by (auto intro!: exI [of _ fs] exI [of _ ?T])
  next
    case False
    then obtain T where T: "zrep s' fs T" "redt T = c" "ino T = ino (mk b c t p kp (mk b False x a k y))"
      "\<forall>m. rb t m \<and> rb x m \<and> rb y m \<longrightarrow> rb T (if c then Suc m else Suc (Suc m))" using f(2) by auto
    have "wf_at fs T" using T(2,4) wf unfolding wf_at_def by auto
    then obtain n' where "rb (plug fs T) n'" using wf_plug by blast
    moreover have "trep s' (plug fs T)" using T(1) by (simp add: zrep_plug)
    moreover have "ino (plug fs T) = ino (plug (fr b c p kp (mk b False x a k y) # fs) t)" using T(3) by (subst ino_fr) (simp only: ino_plug)
    ultimately show ?thesis using False unfolding pass_ok_def by auto
  qed
  then show ?thesis using f(1) by blast
qed

lemma fix_side_spec:
  assumes z: "zrep s (fr b c p kp q # fs) t" and wf: "rb t m" "ctx_ok (fr b c p kp q # fs) (Suc m) False"
    and n: "length fs < n" "\<not> redt t" and sz: "Suc (length fs) < sz"
  shows "\<exists>s' sk again. fix_side sz (near b) (near (\<not> b)) s (loc_of fs) p (stack_of (fr b c p kp q # fs)) = Some (s', sk, again) \<and>
    pass_ok (ino (plug (fr b c p kp q # fs) t)) n s' p (tl sk) again"
proof -
  have ctx: "rb q (Suc m)" "c \<longrightarrow> \<not> redt q" "ctx_ok fs (if c then Suc m else Suc (Suc m)) c" using wf(2) by auto
  have "zrep s fs (mk b c t p kp q)" using z by (simp add: zrep_fr)
  from get_near [OF this] have get: "get s (near (\<not> b) p) = Some (addr q)" by simp
  have isr: "is_red s (addr q) = Some (redt q)" using fr_subtrees [OF z] by (simp add: is_red_tree)
  have "q \<noteq> Tip" using ctx(1) by auto
  then obtain d x a k y where q: "q = mk b d x a k y" using ex_mk by blast
  show ?thesis
  proof (cases d)
    case False
    then have "rb x m" "rb y m" using ctx(1) q by auto
    then obtain s' again where "fix_brother (near b) (near (\<not> b)) s (loc_of fs) p a = Some (s', again)"
      "pass_ok (ino (plug (fr b c p kp (mk b False x a k y) # fs) t)) n s' p (stack_of fs) again"
      using fix_brother_pass [of s b c p kp x a k y fs t m n] z wf ctx n q False by auto
    then show ?thesis using get isr q False by (simp add: fix_side_def)
  next
    case True
    then have c: "\<not> c" and xy: "rb x (Suc m)" "rb y (Suc m)" "\<not> redt x" "\<not> redt y" using ctx(1,2) q by auto
    have "zrep s (fr (\<not> b) c p kp t # fs) (mk b True x a k y)" using z q True by (simp add: zrep_fr mk_flip)
    from paint_mk [OF this, of False] obtain s1 where s1: "paint s a False = Some s1" "zrep s1 (fr (\<not> b) c p kp t # fs) (mk b False x a k y)"
      by blast
    have "zrep s1 fs (mk b c t p kp (mk b False x a k y))" using s1(2) by (simp add: zrep_fr mk_flip)
    from paint_mk [OF this, of True] obtain s2 where s2: "paint s1 p True = Some s2" "zrep s2 fs (mk b True t p kp (mk b False x a k y))"
      by blast
    have "zrep s2 (fr (\<not> b) True p kp t # fs) (mk b False x a k y)" using s2(2) by (simp add: zrep_fr mk_flip)
    from get_near [OF this] have get2: "get s2 (near b a) = Some (addr x)" by simp
    obtain t1 t2 t3 where r: "assign s2 (near (\<not> b) p) (addr x) = Some t1" "assign t1 (near b a) p = Some t2"
        "assign t2 (loc_of fs) a = Some t3" "zrep t3 fs (mk b False (mk b True t p kp x) a k y)"
      using rotate_up [OF s2(2)] by blast
    have z3: "zrep t3 (fr b True p kp x # fr b False a k y # fs) t" using r(4) by (simp add: zrep_fr)
    then have "zrep t3 (fr b False a k y # fs) (mk b True t p kp x)" by (simp add: zrep_fr)
    from get_near [OF this] have get3: "get t3 (near (\<not> b) p) = Some (addr x)" by simp
    have "x \<noteq> Tip" using xy(1) by auto
    then obtain x1 a1 k1 x2 where x: "x = mk b False x1 a1 k1 x2" using ex_mk [of x b] xy(3) by auto
    let ?fs = "fr b False a k y # fs"
    have "\<exists>s' again. fix_brother (near b) (near (\<not> b)) t3 (loc_of ?fs) p a1 = Some (s', again) \<and>
        pass_ok (ino (plug (fr b True p kp x # ?fs) t)) n s' p (stack_of ?fs) again"
      unfolding x by (rule fix_brother_pass) (use z3 x xy wf(1) ctx(3) c n(2) in auto)
    then obtain s' again where fb: "fix_brother (near b) (near (\<not> b)) t3 (near b a) p a1 = Some (s', again)"
      "pass_ok (ino (plug (fr b True p kp x # ?fs) t)) n s' p (stack_of ?fs) again" by auto
    have "fix_side sz (near b) (near (\<not> b)) s (loc_of fs) p (stack_of (fr b c p kp q # fs)) = Some (s', near b a # stack_of (fr b c p kp q # fs), again)"
      using get isr q True s1(1) s2(1) get2 r(1-3) get3 x fb(1) sz by (simp add: fix_side_def length_stack_of)
    moreover have "ino (plug (fr b True p kp x # ?fs) t) = ino (plug (fr b c p kp q # fs) t)" by (simp add: ino_fr ino_plug fr_def q)
    ultimately show ?thesis using fb(2) by simp
  qed
qed


lemma fix_stop:
  assumes z: "zrep s fs t" and stop: "fix_loop sz s (addr t) (stack_of fs) = Some (s, addr t)" and wf: "wf_at fs (blacken t)"
  shows "\<exists>s' r s'' T n. fix_loop sz s (addr t) (stack_of fs) = Some (s', r) \<and> (if r \<noteq> 0 then paint s' r False else Some s') = Some s'' \<and>
    trep s'' T \<and> rb T n \<and> ino T = ino (plug fs t)"
proof -
  obtain s'' where p: "(if addr t \<noteq> 0 then paint s (addr t) False else Some s) = Some s''" "zrep s'' fs (blacken t)"
    using paint_blacken [OF z] by blast
  obtain n where "rb (plug fs (blacken t)) n" using wf wf_plug by blast
  moreover have "ino (plug fs (blacken t)) = ino (plug fs t)" by (simp add: ino_plug)
  ultimately show ?thesis using stop p unfolding zrep_plug by blast
qed

lemma fix_loop_red:
  assumes "zrep s fs t" "redt t"
  shows "fix_loop sz s (addr t) (stack_of fs) = Some (s, addr t)"
proof -
  have "is_red s (addr t) = Some True" using is_red_tree [of s t] assms by (simp add: zrep_def)
  then show ?thesis by (cases fs; subst fix_loop.simps) simp_all
qed

lemma ex_fr: "\<exists>b c a k u. f = fr b c a k u"
  by (cases f) (auto simp: fr_def split: if_splits intro: exI [of _ True] exI [of _ False])

lemma near_differs:
  assumes z: "zrep s (fr False c p kp q # fs) t" and q: "q \<noteq> Tip"
  shows "addr t \<noteq> addr q"
proof -
  have "addr q \<in> fst ` set (ino q)" using q by (rule addr_in)
  moreover have "addr t = 0 \<or> addr t \<in> fst ` set (ino t)" using addr_in by (cases "t = Tip") auto
  moreover have "addr q \<noteq> 0" using tree_in_addr [of "nodes s" q] fr_subtrees [OF z] q by simp
  moreover have "fst ` set (ino t) \<inter> fst ` set (ino q) = {}" using z by (auto simp: zrep_def fr_def)
  ultimately show ?thesis by (metis disjoint_iff)
qed

lemma fix_step:
  assumes z: "zrep s (fr b c p kp q # fs) t" and t: "\<not> redt t" and q: "q \<noteq> Tip"
    and f: "fix_side sz (near b) (near (\<not> b)) s (loc_of fs) p (stack_of (fr b c p kp q # fs)) = Some (s', sk, again)"
  shows "fix_loop sz s (addr t) (stack_of (fr b c p kp q # fs)) = (if again then fix_loop sz s' p (tl sk) else Some (s', 0))"
proof -
  have zp: "zrep s fs (mk b c t p kp q)" using z by (simp add: zrep_fr)
  have getp: "get s (loc_of fs) = Some p" using get_loc [OF zp] by simp
  have isr: "is_red s (addr t) = Some False" using fr_subtrees [OF z] t by (simp add: is_red_tree)
  obtain l where l: "get s (LeftOf p) = Some l" "(addr t = l) = b"
  proof (cases b)
    case True
    then show ?thesis using get_near [OF zp] that [of "addr t"] by (simp add: near_def)
  next
    case False
    then show ?thesis using get_near [OF zp] near_differs [of s c p kp q fs t] z q that [of "addr q"] by (simp add: near_def)
  qed
  then have "(if addr t = l then fix_side sz LeftOf RightOf s (loc_of fs) p (stack_of (fr b c p kp q # fs))
      else fix_side sz RightOf LeftOf s (loc_of fs) p (stack_of (fr b c p kp q # fs))) = Some (s', sk, again)"
    using f by (cases b) (simp_all add: near_def)
  then show ?thesis using isr getp l(1) by (subst fix_loop.simps) simp
qed

lemma fix_loop_spec:
  assumes "zrep s fs t" "redt t \<and> wf_at fs (blacken t) \<or> \<not> redt t \<and> rb t m \<and> ctx_ok fs (Suc m) False" "length fs < sz"
  shows "\<exists>s' r s'' T n. fix_loop sz s (addr t) (stack_of fs) = Some (s', r) \<and> (if r \<noteq> 0 then paint s' r False else Some s') = Some s'' \<and>
    trep s'' T \<and> rb T n \<and> ino T = ino (plug fs t)"
  using assms
proof (induction "length fs" arbitrary: s fs t m rule: less_induct)
  case less
  show ?case
  proof (cases "redt t")
    case True
    then show ?thesis using fix_stop [OF less.prems(1)] fix_loop_red [OF less.prems(1)] less.prems(2) by blast
  next
    case black: False
    then have wf: "rb t m" "ctx_ok fs (Suc m) False" using less.prems(2) by auto
    show ?thesis
    proof (cases fs)
      case Nil
      then have "wf_at fs (blacken t)" using wf(1) rb_blacken_black [OF wf(1) black] by (auto simp: wf_at_def)
      moreover have "fix_loop sz s (addr t) (stack_of fs) = Some (s, addr t)" using Nil by (subst fix_loop.simps) simp
      ultimately show ?thesis using fix_stop [OF less.prems(1)] by blast
    next
      case (Cons f fs1)
      obtain b c p kp q where f: "f = fr b c p kp q" using ex_fr [of f] by auto
      have fs: "fs = fr b c p kp q # fs1" using Cons f by simp
      note z = less.prems(1) [unfolded fs]
      have "length fs1 < length fs" using Cons by simp
      then obtain s' sk again where fx: "fix_side sz (near b) (near (\<not> b)) s (loc_of fs1) p (stack_of fs) = Some (s', sk, again)"
        "pass_ok (ino (plug fs t)) (length fs) s' p (tl sk) again"
        using fix_side_spec [OF z wf(1) wf(2) [unfolded fs] _ black, of "length fs" sz] less.prems(3) unfolding fs by auto
      have "q \<noteq> Tip" using wf(2) fs by auto
      note step = fix_step [OF z black this fx(1) [unfolded fs], folded fs]
      show ?thesis
      proof (cases again)
        case True
        then obtain fs' T m' where T: "zrep s' fs' T" "addr T = p" "tl sk = stack_of fs'" "ino (plug fs' T) = ino (plug fs t)"
          "redt T \<and> wf_at fs' (blacken T) \<or> \<not> redt T \<and> rb T m' \<and> ctx_ok fs' (Suc m') False \<and> length fs' < length fs"
          using fx(2) unfolding pass_ok_def by auto
        show ?thesis
        proof (cases "redt T")
          case red: True
          then show ?thesis using fix_stop [OF T(1) fix_loop_red [OF T(1) red]] T(2-5) True unfolding step by auto
        next
          case False
          then show ?thesis using less.hyps [of fs' s' T m'] T True less.prems(3) unfolding step by auto
        qed
      next
        case False
        then show ?thesis using fx(2) step unfolding pass_ok_def by auto
      qed
    qed
  qed
qed

end
