(* ===== verification/TsearchRemove.thy ===== *)
theory TsearchRemove
  imports TsearchDelete
begin

text \<open>
  \<open>tdelete\<close> as a whole: the way down to the node and on to its successor, taking a node out, and what becomes of
  the tree.
\<close>

section \<open>The way down\<close>

lemma zrep_append: "zrep s (gs @ fs) t \<longleftrightarrow> zrep s fs (plug gs t)"
  by (induction gs arbitrary: t) (simp_all add: zrep_up)

lemma plug_append: "plug (gs @ fs) t = plug fs (plug gs t)"
  by (induction gs arbitrary: t) simp_all

lemma child_get:
  assumes "zrep s fs t" "t = Nd c l a x r" "cmp k x \<noteq> 0"
  shows "get s (if cmp k x < 0 then LeftOf a else RightOf a) = Some (addr (next_child cmp k t))"
    "addr (next_child cmp k t) = 0 \<longleftrightarrow> next_child cmp k t = Tip"
  using assms get_left [of s fs c l a x r] get_right [of s fs c l a x r] tree_in_addr [of "nodes s" l] tree_in_addr [of "nodes s" r]
  by (auto simp: zrep_def)

definition down_ok ::
    "('k \<Rightarrow> 'k \<Rightarrow> int) \<Rightarrow> 'k \<Rightarrow> 'k tree_mem \<Rightarrow> 'k rbt \<Rightarrow> nat \<Rightarrow> (loc \<times> nat \<times> loc list) option \<Rightarrow> bool" where
  "down_ok cmp k s T p0 res \<longleftrightarrow>
    (case res of
       None \<Rightarrow> \<exists>fs. on_path cmp k fs \<and> T = plug fs Tip
     | Some (rootp, p, stack) \<Rightarrow> \<exists>fs c l a x r. T = plug fs (Nd c l a x r) \<and> zrep s fs (Nd c l a x r) \<and> cmp k x = 0 \<and>
         rootp = loc_of fs \<and> stack = stack_of fs \<and> p = (case fs of [] \<Rightarrow> p0 | f # _ \<Rightarrow> faddr f))"

lemma tdelete_down_spec:
  assumes "zrep s fs t" "t \<noteq> Tip" "on_path cmp k fs" "p = (case fs of [] \<Rightarrow> p0 | f # _ \<Rightarrow> faddr f)"
  shows "\<exists>res. tdelete_down cmp k s (loc_of fs) p (stack_of fs) = Some res \<and> down_ok cmp k s (plug fs t) p0 res"
  using assms
proof (induction "dist cmp k t" arbitrary: fs t p rule: less_induct)
  case less
  obtain c l a x r where t: "t = Nd c l a x r" using less.prems(2) by (cases t) auto
  note z = less.prems(1) [unfolded t]
  have root: "get s (loc_of fs) = Some a" using get_loc [OF z] by simp
  obtain n where n: "nodes s a = Some n" "nkey n = x" using node_at [OF z] by auto
  show ?case
  proof (cases "cmp k x = 0")
    case True
    then have "tdelete_down cmp k s (loc_of fs) p (stack_of fs) = Some (Some (loc_of fs, p, stack_of fs))"
      using root n by (subst tdelete_down.simps) (simp add: Let_def)
    then show ?thesis using True z t less.prems(4) unfolding down_ok_def
      by (intro exI [of _ "Some (loc_of fs, p, stack_of fs)"]) (simp, intro exI [of _ fs] exI [of _ c] exI [of _ l] exI [of _ a] exI [of _ x] exI [of _ r], simp)
  next
    case ne: False
    let ?f = "frame_for cmp k t" and ?c = "next_child cmp k t"
    note f = frame_for [where cmp = cmp and k = k and x = x, OF t ne]
    note get = child_get [where cmp = cmp and k = k and x = x, OF less.prems(1) t ne]
    have path: "on_path cmp k (?f # fs)" using less.prems(3) f(3,4) by (simp del: goes.simps)
    show ?thesis
    proof (cases "?c = Tip")
      case True
      then have "tdelete_down cmp k s (loc_of fs) p (stack_of fs) = Some None"
        using root n ne get by (subst tdelete_down.simps) (simp add: Let_def)
      moreover have "plug fs t = plug (?f # fs) Tip" using f(1) True by simp
      then have "down_ok cmp k s (plug fs t) p0 None" unfolding down_ok_def option.case using path by blast
      ultimately show ?thesis by blast
    next
      case False
      have z': "zrep s (?f # fs) ?c" using less.prems(1) f(1) by (simp add: zrep_up)
      have "tdelete_down cmp k s (loc_of fs) p (stack_of fs) = tdelete_down cmp k s (loc_of (?f # fs)) a (stack_of (?f # fs))"
        using root n ne get False unfolding f(6) by (subst tdelete_down.simps) (simp add: Let_def)
      moreover have "\<exists>res. tdelete_down cmp k s (loc_of (?f # fs)) a (stack_of (?f # fs)) = Some res \<and> down_ok cmp k s (plug (?f # fs) ?c) p0 res"
        by (rule less.hyps [OF _ z' False path]) (use t f(5) in auto)
      ultimately show ?thesis using f(1) by simp
    qed
  qed
qed

fun all_left :: "'k frame list \<Rightarrow> bool" where
  "all_left gs \<longleftrightarrow> (\<forall>g \<in> set gs. goes_left g)"

lemma all_left_lefts: "all_left gs \<Longrightarrow> lefts gs = []"
  by (induction gs rule: lefts.induct) auto

lemma lefts_append: "lefts (gs @ fs) = lefts fs @ lefts gs"
  by (induction gs rule: lefts.induct) auto

lemma rights_append: "rights (gs @ fs) = rights gs @ rights fs"
  by (induction gs rule: rights.induct) auto

lemma tdelete_succ_spec:
  assumes "zrep s fs t" "t \<noteq> Tip" "stack_of fs = parent # stack"
  shows "\<exists>gs c a x r. tdelete_succ s parent (loc_of fs) stack = Some (a, stack_of (gs @ fs)) \<and>
    all_left gs \<and> t = plug gs (Nd c Tip a x r)"
  using assms
proof (induction t arbitrary: fs parent stack)
  case (Nd c l a x r)
  have root: "get s (loc_of fs) = Some a" using get_loc [OF Nd.prems(1)] by simp
  have left: "get s (LeftOf a) = Some (addr l)" using get_left [OF Nd.prems(1)] .
  have tip: "addr l = 0 \<longleftrightarrow> l = Tip" using tree_in_addr [of "nodes s" l] Nd.prems(1) by (simp add: zrep_def)
  show ?case
  proof (cases "l = Tip")
    case True
    then have "tdelete_succ s parent (loc_of fs) stack = Some (a, stack_of ([] @ fs))"
      using root left Nd.prems(3) by (subst tdelete_succ.simps) simp
    then show ?thesis using True by (intro exI [of _ "[]"]) auto
  next
    case False
    have z: "zrep s (InLeft c a x r # fs) l" using Nd.prems(1) by (simp add: zrep_left)
    have "tdelete_succ s parent (loc_of fs) stack = tdelete_succ s (loc_of fs) (loc_of (InLeft c a x r # fs)) (stack_of fs)"
      using root left tip False Nd.prems(3) by (subst tdelete_succ.simps) simp
    moreover obtain gs c' a' x' r' where "tdelete_succ s (loc_of fs) (loc_of (InLeft c a x r # fs)) (stack_of fs) =
        Some (a', stack_of (gs @ InLeft c a x r # fs))" "all_left gs" "l = plug gs (Nd c' Tip a' x' r')"
      using Nd.IH(1) [OF z False] by auto
    ultimately show ?thesis
      by (intro exI [of _ "gs @ [InLeft c a x r]"] exI [of _ c'] exI [of _ a'] exI [of _ x'] exI [of _ r']) (auto simp: plug_append)
  qed
qed simp

section \<open>Taking a node out\<close>

lemma wf_unchain:
  assumes "wf_at fs (Nd c l a x r)" "l = Tip \<or> r = Tip"
  shows "if c then wf_at fs (if l = Tip then r else l)
    else redt (if l = Tip then r else l) \<and> wf_at fs (blacken (if l = Tip then r else l)) \<or>
      \<not> redt (if l = Tip then r else l) \<and> rb (if l = Tip then r else l) 0 \<and> ctx_ok fs (Suc 0) False"
proof -
  obtain n where n: "rb (Nd c l a x r) n" "ctx_ok fs n c" using assms(1) by (auto simp: wf_at_def)
  let ?r = "if l = Tip then r else l"
  show ?thesis
  proof (cases c)
    case True
    then have "rb ?r n" "\<not> redt ?r" using n(1) by auto
    then show ?thesis using True n(2) ctx_ok_black [of fs n True] unfolding wf_at_def by auto
  next
    case False
    then have "rb l 0 \<and> rb r 0" "n = Suc 0" using n(1) assms(2) by auto
    moreover have "wf_at fs (blacken ?r)" if "redt ?r" using that n(2) calculation False rb_blacken [of ?r 0]
      unfolding wf_at_def by (auto split: if_splits)
    ultimately show ?thesis using False n(2) by auto
  qed
qed

lemma unlink_spec:
  assumes z: "zrep s fs (Nd c l a x r)" "l = Tip \<or> r = Tip" and top: "fs = [] \<longrightarrow> rootp = Root"
  shows "\<exists>s'. unlink s rootp (stack_of fs) a (addr (if l = Tip then r else l)) = Some s' \<and>
    zrep s' fs (if l = Tip then r else l) \<and> nodes s' a = nodes s a"
proof -
  let ?r = "if l = Tip then r else l"
  have fr: "frames_in (nodes s) (rootv s) fs a" "tree_in (nodes s) ?r" using z(1) by (auto simp: zrep_def)
  have d: "distinct (map fst (lefts fs @ ino ?r @ rights fs))" using z by (auto simp: zrep_def)
  obtain s' where s': "assign s (loc_of fs) (addr ?r) = Some s'" "zrep s' fs ?r" using assign_tree [OF fr d] by blast
  have "distinct (map fst (lefts fs @ rights fs))" "a \<notin> fst ` set (lefts fs) \<union> fst ` set (rights fs)" using z by (auto simp: zrep_def)
  then have "nodes s' a = nodes s a" using assign_loc [OF fr(1), of "addr ?r"] s'(1) by auto
  moreover have "unlink s rootp (stack_of fs) a (addr ?r) = assign s (loc_of fs) (addr ?r)"
  proof (cases fs)
    case Nil
    then show ?thesis using top by (simp add: unlink_def)
  next
    case (Cons f fs1)
    obtain b c' p kp q where f: "f = fr b c' p kp q" using ex_fr [of f] by auto
    have zq: "zrep s (fr b c' p kp q # fs1) (Nd c l a x r)" using z(1) Cons f by simp
    then have "zrep s fs1 (mk b c' (Nd c l a x r) p kp q)" by (simp add: zrep_fr)
    from get_near [OF this] get_loc [OF this] have g: "get s (loc_of fs1) = Some p" "get s (near b p) = Some a" "get s (near (\<not> b) p) = Some (addr q)"
      by simp_all
    have "a \<noteq> addr q" if b
    proof -
      have "a \<noteq> 0" using z(1) by (simp add: zrep_def)
      moreover have "a \<notin> fst ` set (ino q)" using zq that by (auto simp: zrep_def fr_def)
      ultimately show ?thesis using addr_in [of q] by (cases "q = Tip") auto
    qed
    then show ?thesis using g Cons f by (cases b) (simp_all add: unlink_def near_def)
  qed
  ultimately show ?thesis using s' by auto
qed

lemma zrep_free: "trep s T \<Longrightarrow> u \<notin> fst ` set (ino T) \<Longrightarrow> trep (s\<lparr>nodes := (nodes s)(u := None)\<rparr>) T"
  by (simp add: trep_def zrep_def del: fun_upd_apply)


section \<open>The deletion\<close>

text \<open>The stack has room as long as no path is longer than the array was at first.\<close>

fun height :: "'k rbt \<Rightarrow> nat" where
  "height Tip = 0"
| "height (Nd c l a k r) = Suc (max (height l) (height r))"

lemma height_plug: "length fs + height t \<le> height (plug fs t)"
proof (induction fs arbitrary: t)
  case (Cons f fs)
  show ?case
  proof (cases f)
    case (InLeft c a x u)
    then show ?thesis using Cons.IH [of "Nd c t a x u"] by simp
  next
    case (InRight c u a x)
    then show ?thesis using Cons.IH [of "Nd c u a x t"] by simp
  qed
qed simp

lemma stack_size_40: "n \<le> 40 \<Longrightarrow> stack_size n = 40"
  by (induction n) auto

lemma stack_room: "length fs < 40 \<Longrightarrow> length fs < stack_size (length (stack_of fs))"
  using stack_size_40 [of "length fs"] by (simp add: length_stack_of)

text \<open>After the node has been unlinked, and with the key of the successor in its place.\<close>

lemma rebalance:
  assumes z: "zrep s fs t" and c: "if c then wf_at fs t
      else redt t \<and> wf_at fs (blacken t) \<or> \<not> redt t \<and> rb t 0 \<and> ctx_ok fs (Suc 0) False"
    and sz: "length fs < sz"
  shows "\<exists>s' T n. (if \<not> c then do { (s, r) \<leftarrow> fix_loop sz s (addr t) (stack_of fs); if r \<noteq> 0 then paint s r False else Some s }
      else Some s) = Some s' \<and> trep s' T \<and> rb T n \<and> ino T = ino (plug fs t)"
proof (cases c)
  case True
  then obtain n where "rb (plug fs t) n" using c wf_plug by force
  then show ?thesis using z True unfolding zrep_plug by auto
next
  case False
  then obtain s1 r s2 T n where "fix_loop sz s (addr t) (stack_of fs) = Some (s1, r)" "(if r \<noteq> 0 then paint s1 r False else Some s1) = Some s2"
    "trep s2 T" "rb T n" "ino T = ino (plug fs t)"
    using fix_loop_spec [OF z _ sz, of 0] c by auto
  then show ?thesis using False by (simp del: if_split) blast
qed

lemma free_node:
  assumes "trep s T" "u \<notin> fst ` set (ino T)"
  shows "trep (s\<lparr>nodes := (nodes s)(u := None)\<rparr>) T \<and> nodes (s\<lparr>nodes := (nodes s)(u := None)\<rparr>) u = None"
  using zrep_free [OF assms] by simp

lemma delete_leafish:
  assumes z: "zrep s fs (Nd c l a x r)" "l = Tip \<or> r = Tip" and wf: "wf_at fs (Nd c l a x r)" and room: "length fs < 40"
  shows "\<exists>s' T n. tdelete_at s (loc_of fs) (stack_of fs) = Some s' \<and> trep s' T \<and> rb T n \<and>
    ino T = lefts fs @ ino l @ ino r @ rights fs \<and> nodes s' a = None"
proof -
  let ?r = "if l = Tip then r else l"
  have get: "get s (loc_of fs) = Some a" "get s (LeftOf a) = Some (addr l)" "get s (RightOf a) = Some (addr r)"
    using get_loc [OF z(1)] get_left [OF z(1)] get_right [OF z(1)] by simp_all
  have tip: "addr l = 0 \<longleftrightarrow> l = Tip" "addr r = 0 \<longleftrightarrow> r = Tip"
    using tree_in_addr [of "nodes s" l] tree_in_addr [of "nodes s" r] z(1) by (simp_all add: zrep_def)
  have r: "(if addr l = 0 then get s (RightOf a) else Some (addr l)) = Some (addr ?r)" using get tip by simp
  obtain s1 where s1: "unlink s (loc_of fs) (stack_of fs) a (addr ?r) = Some s1" "zrep s1 fs ?r" "nodes s1 a = nodes s a"
    using unlink_spec [OF z, of "loc_of fs"] by auto
  obtain un where un: "nodes s1 a = Some un" "nred un = c" using node_at [OF z(1)] s1(3) by auto
  obtain s2 T n where s2: "(if \<not> c then do { (s, r) \<leftarrow> fix_loop (stack_size (length (stack_of fs))) s1 (addr ?r) (stack_of fs); if r \<noteq> 0 then paint s r False else Some s }
      else Some s1) = Some s2" "trep s2 T" "rb T n" "ino T = ino (plug fs ?r)"
    using rebalance [OF s1(2) wf_unchain [OF wf z(2)] stack_room [OF room]] by blast
  have ino: "ino T = lefts fs @ ino l @ ino r @ rights fs" using s2(4) z(2) by (auto simp: ino_plug)
  have "a \<notin> fst ` set (ino T)" using z(1) unfolding ino by (auto simp: zrep_def)
  note free = free_node [OF s2(2) this]
  have "tdelete_at s (loc_of fs) (stack_of fs) = Some (s2\<lparr>nodes := (nodes s2)(a := None)\<rparr>)"
    using get tip z(2) r s1(1) un s2(1) by (simp add: tdelete_at_def del: if_split)
  then show ?thesis using free s2(3) ino by blast
qed


lemma ctx_ok_rekey: "ctx_ok (gs @ InRight c l a x # fs) n b = ctx_ok (gs @ InRight c l a y # fs) n b"
  by (induction gs arbitrary: n b) simp_all

lemma stack_rekey: "stack_of (gs @ InRight c l a x # fs) = stack_of (gs @ InRight c l a y # fs)"
proof (induction gs)
  case (Cons g gs)
  have "loc_of (gs @ InRight c l a x # fs) = loc_of (gs @ InRight c l a y # fs)" by (cases gs rule: loc_of.cases) simp_all
  then show ?case using Cons.IH by simp
qed simp

lemma delete_inner:
  assumes z: "zrep s fs (Nd c l a x r)" and ne: "l \<noteq> Tip" "r \<noteq> Tip" and wf: "wf_at fs (Nd c l a x r)"
    and room: "length fs + height (Nd c l a x r) \<le> 40"
  shows "\<exists>s' T n u ku rest. tdelete_at s (loc_of fs) (stack_of fs) = Some s' \<and> trep s' T \<and> rb T n \<and> ino r = (u, ku) # rest \<and>
    ino T = lefts fs @ ino l @ (a, ku) # rest @ rights fs \<and> nodes s' u = None"
proof -
  let ?F = "InRight c l a x"
  have get: "get s (loc_of fs) = Some a" "get s (LeftOf a) = Some (addr l)" "get s (RightOf a) = Some (addr r)"
    using get_loc [OF z] get_left [OF z] get_right [OF z] by simp_all
  have tip: "addr l \<noteq> 0" "addr r \<noteq> 0"
    using tree_in_addr [of "nodes s" l] tree_in_addr [of "nodes s" r] z ne by (simp_all add: zrep_def)
  have zr: "zrep s (?F # fs) r" using z by (simp add: zrep_right)
  obtain gs cu u ku ru where succ: "tdelete_succ s (loc_of fs) (RightOf a) (stack_of fs) = Some (u, stack_of (gs @ ?F # fs))"
      "all_left gs" "r = plug gs (Nd cu Tip u ku ru)"
    using tdelete_succ_spec [OF zr ne(2), of "loc_of fs" "stack_of fs"] by auto
  let ?G = "gs @ ?F # fs" and ?G' = "gs @ InRight c l a ku # fs"
  have zu: "zrep s ?G (Nd cu Tip u ku ru)" using zr succ(3) by (simp add: zrep_append)
  have "wf_at ?G (Nd cu Tip u ku ru)" using wf succ(3) by (simp add: wf_plug [symmetric] plug_append)
  from wf_unchain [OF this] have wfu: "if cu then wf_at ?G ru else redt ru \<and> wf_at ?G (blacken ru) \<or> \<not> redt ru \<and> rb ru 0 \<and> ctx_ok ?G (Suc 0) False"
    by (cases cu) simp_all
  have getu: "get s (LeftOf u) = Some 0" "get s (RightOf u) = Some (addr ru)" using get_left [OF zu] get_right [OF zu] by simp_all
  obtain s1 where s1: "unlink s (loc_of fs) (stack_of ?G) u (addr ru) = Some s1" "zrep s1 ?G ru" "nodes s1 u = nodes s u"
    using unlink_spec [OF zu, of "loc_of fs"] by auto
  obtain un where un: "nodes s1 u = Some un" "nred un = cu" "nkey un = ku" using node_at [OF zu] s1(3) by auto
  have za: "zrep s1 fs (Nd c l a x (plug gs ru))" using s1(2) by (simp add: zrep_append zrep_right)
  obtain s2 where s2: "modify s1 a (\<lambda>n. n\<lparr>nkey := nkey un\<rparr>) = Some s2" "zrep s2 fs (Nd c l a ku (plug gs ru))"
    using zrep_set [OF za, of ku c] node_at [OF za] un(3) by (auto simp: modify_def)
  have z2: "zrep s2 ?G' ru" using s2(2) by (simp add: zrep_append zrep_right)
  have wfu': "if cu then wf_at ?G' ru else redt ru \<and> wf_at ?G' (blacken ru) \<or> \<not> redt ru \<and> rb ru 0 \<and> ctx_ok ?G' (Suc 0) False"
    using wfu unfolding wf_at_def ctx_ok_rekey [of gs c l a x fs _ _ ku] .
  have "length gs + 1 \<le> height r" using height_plug [of gs "Nd cu Tip u ku ru"] succ(3) by simp
  then have room': "length ?G' < 40" using room by simp
  obtain s3 T n where s3: "(if \<not> cu then do { (s, r) \<leftarrow> fix_loop (stack_size (length (stack_of ?G'))) s2 (addr ru) (stack_of ?G'); if r \<noteq> 0 then paint s r False else Some s }
      else Some s2) = Some s3" "trep s3 T" "rb T n" "ino T = ino (plug ?G' ru)"
    using rebalance [OF z2 wfu' stack_room [OF room']] by blast
  have rest: "ino r = (u, ku) # ino ru @ rights gs" using succ(2,3) by (simp add: ino_plug all_left_lefts)
  have ino: "ino T = lefts fs @ ino l @ (a, ku) # (ino ru @ rights gs) @ rights fs"
    using s3(4) succ(2) by (simp add: ino_plug lefts_append rights_append all_left_lefts)
  have "distinct (map fst (lefts fs @ ino (Nd c l a x r) @ rights fs))" using z by (simp add: zrep_def)
  then have "u \<notin> fst ` set (ino T)" "u \<noteq> a" unfolding ino ino.simps rest by auto
  note free = free_node [OF s3(2) this(1)]
  have "tdelete_at s (loc_of fs) (stack_of fs) = Some (s3\<lparr>nodes := (nodes s3)(u := None)\<rparr>)"
    using get tip succ(1) getu s1(1) un(1,2) s2(1) s3(1) \<open>u \<noteq> a\<close> unfolding stack_rekey [of gs c l a ku fs x]
    by (simp add: tdelete_at_def del: if_split)
  then show ?thesis using free s3(3) ino rest by blast
qed

text \<open>What \<open>tdelete\<close> does to the nodes in the order of the tree.\<close>

definition tdelete_ok ::
    "('k \<Rightarrow> 'k \<Rightarrow> int) \<Rightarrow> 'k \<Rightarrow> 'k tree_mem \<Rightarrow> (nat \<times> 'k) list \<Rightarrow> (nat \<times> 'k) list \<Rightarrow> nat \<Rightarrow> bool" where
  "tdelete_ok cmp k s xs ys ret \<longleftrightarrow>
    (ret = 0 \<and> ys = xs \<and> (\<exists>fs. xs = lefts fs @ rights fs \<and> on_path cmp k fs)) \<or>
    (ret \<noteq> 0 \<and> (\<exists>ls a x rs. xs = ls @ (a, x) # rs \<and> cmp k x = 0 \<and>
      (ys = ls @ rs \<and> nodes s a = None \<or> (\<exists>u ku rest. rs = (u, ku) # rest \<and> ys = ls @ (a, ku) # rest \<and> nodes s u = None))))"

lemma tdelete_okI:
  assumes "ret \<noteq> 0" "xs = ls @ (a, x) # rs" "cmp k x = 0"
    and "ys = ls @ rs \<and> nodes s a = None \<or> rs = (u, ku) # rest \<and> ys = ls @ (a, ku) # rest \<and> nodes s u = None"
  shows "tdelete_ok cmp k s xs ys ret"
  using assms unfolding tdelete_ok_def by blast

lemma tdelete_spec:
  assumes z: "trep s T" and rb: "rb T n" and room: "height T \<le> 40"
  shows "\<exists>s' ret T' n'. tdelete cmp k s (Some Root) = Some (s', ret) \<and> trep s' T' \<and> rb T' n' \<and> tdelete_ok cmp k s' (ino T) (ino T') ret"
proof (cases "T = Tip")
  case True
  have "get s Root = Some 0" using get_loc [of s "[]" T] z True by (simp add: trep_def)
  then have "tdelete cmp k s (Some Root) = Some (s, 0)" by (simp add: tdelete_def)
  moreover have "tdelete_ok cmp k s (ino T) (ino T) 0" unfolding tdelete_ok_def True
    by (intro disjI1 conjI refl exI [of _ "[]"]) (simp_all add: on_path_def)
  ultimately show ?thesis using z rb by blast
next
  case False
  have z0: "zrep s [] T" using z by (simp add: trep_def)
  have get: "get s Root = Some (addr T)" "addr T \<noteq> 0"
    using get_loc [OF z0] tree_in_addr [of "nodes s" T] z0 False by (simp_all add: zrep_def)
  obtain res where d: "tdelete_down cmp k s Root (addr T) [] = Some res" "down_ok cmp k s T (addr T) res"
    using tdelete_down_spec [OF z0 False, of cmp k "addr T" "addr T"] by (auto simp: on_path_def)
  show ?thesis
  proof (cases res)
    case None
    then obtain fs where "on_path cmp k fs" "T = plug fs Tip" using d(2) by (auto simp: down_ok_def)
    then have "tdelete_ok cmp k s (ino T) (ino T) 0" unfolding tdelete_ok_def by (intro disjI1) (auto simp: ino_plug)
    moreover have "tdelete cmp k s (Some Root) = Some (s, 0)" using get d(1) None by (simp add: tdelete_def)
    ultimately show ?thesis using z rb by blast
  next
    case (Some y)
    obtain rootp p stack where y: "y = (rootp, p, stack)" by (cases y)
    obtain fs c l a x r where f: "T = plug fs (Nd c l a x r)" "zrep s fs (Nd c l a x r)" "cmp k x = 0"
         "rootp = loc_of fs" "stack = stack_of fs" "p = (case fs of [] \<Rightarrow> addr T | f # _ \<Rightarrow> faddr f)"
      using d(2) unfolding Some y down_ok_def by auto
    have wf: "wf_at fs (Nd c l a x r)" using rb f(1) wf_plug by blast
    have h: "length fs + height (Nd c l a x r) \<le> 40" using height_plug [of fs "Nd c l a x r"] room f(1) by simp
    then have h1: "length fs < 40" by simp
    have xs: "ino T = (lefts fs @ ino l) @ (a, x) # ino r @ rights fs" using f(1) by (simp add: ino_plug)
    have p: "p \<noteq> 0"
    proof (cases fs)
      case (Cons f1 fs1)
      then show ?thesis using f(2,6) by (cases f1) (auto simp: zrep_def)
    qed (use f(6) get(2) in simp)
    have td: "tdelete cmp k s (Some Root) = Some (s', p)" if "tdelete_at s (loc_of fs) (stack_of fs) = Some s'" for s'
      using get d(1) Some y f(4,5) that by (simp add: tdelete_def)
    show ?thesis
    proof (cases "l = Tip \<or> r = Tip")
      case True
      obtain s' T' n' where "tdelete_at s (loc_of fs) (stack_of fs) = Some s'" "trep s' T'" "rb T' n'"
          "ino T' = lefts fs @ ino l @ ino r @ rights fs" "nodes s' a = None"
        using delete_leafish [OF f(2) True wf h1] by blast
      moreover from this have "tdelete_ok cmp k s' (ino T) (ino T') p"
        using p f(3) by (intro tdelete_okI [OF _ xs]) auto
      ultimately show ?thesis using td by blast
    next
      case False
      then obtain s' T' n' u ku rest where "tdelete_at s (loc_of fs) (stack_of fs) = Some s'" "trep s' T'" "rb T' n'"
          "ino r = (u, ku) # rest" "ino T' = lefts fs @ ino l @ (a, ku) # rest @ rights fs" "nodes s' u = None"
        using delete_inner [OF f(2) _ _ wf h] by blast
      moreover from this have "tdelete_ok cmp k s' (ino T) (ino T') p"
        using p f(3) by (intro tdelete_okI [OF _ xs]) auto
      ultimately show ?thesis using td by blast
    qed
  qed
qed

end
