(* ===== verification/TsearchMem.thy ===== *)
theory TsearchMem
  imports TsearchLoop
begin

text \<open>
  Which nodes there are: no operation of \<^verbatim>\<open>misc/tsearch.c\<close> makes or removes a node but \<open>tsearch\<close>, which adds the one it
  gets from \<open>malloc\<close>, and \<open>tdelete\<close>, which frees one. And \<open>tsearch\<close> when \<open>malloc\<close> has none.
\<close>

section \<open>The nodes there are\<close>

definition addrs :: "'k tree_mem \<Rightarrow> nat set" where "addrs s = dom (nodes s)"

lemma bindE: "Option.bind m f = Some y \<Longrightarrow> (\<And>x. m = Some x \<Longrightarrow> f x = Some y \<Longrightarrow> P) \<Longrightarrow> P"
  by (cases m) auto

lemma addrs_upd:
  "addrs (s\<lparr>nodes := (nodes s)(q \<mapsto> n)\<rparr>) = insert q (addrs s)" "addrs (s\<lparr>nodes := (nodes s)(q := None)\<rparr>) = addrs s - {q}"
  by (auto simp: addrs_def)

lemma modify_dom: "modify s a f = Some s' \<Longrightarrow> addrs s' = addrs s"
  by (auto simp: modify_def addrs_def split: option.splits if_splits)

lemma paint_dom: "paint s a c = Some s' \<Longrightarrow> addrs s' = addrs s"
  unfolding paint_def by (rule modify_dom)

lemma assign_dom: "assign s l v = Some s' \<Longrightarrow> addrs s' = addrs s"
  by (cases l) (simp add: assign_def addrs_def, force, (simp add: assign_def modify_dom)+)

lemmas write_dom = modify_dom paint_dom assign_dom

lemma rotate_dom:
  "rotate_child s root p gp gparentp p_r = Some s' \<Longrightarrow> addrs s' = addrs s"
  "rotate_parent s p gp gparentp p_r = Some s' \<Longrightarrow> addrs s' = addrs s"
  by (auto simp: rotate_child_def rotate_parent_def dest!: write_dom elim!: bindE split: if_splits)

lemma maybe_split_dom:
  "maybe_split_for_insert s rootp parentp gparentp p_r gp_r mode = Some s' \<Longrightarrow> addrs s' = addrs s"
  by (auto simp: maybe_split_for_insert_def dest!: write_dom rotate_dom elim!: bindE split: if_splits option.splits)

lemma tsearch_loop_dom:
  "tsearch_loop cmp k s rootp parentp gparentp p_r gp_r = Some y \<Longrightarrow> addrs (fst y) = addrs s"
proof (induction cmp k s rootp parentp gparentp p_r gp_r y rule: tsearch_loop.raw_induct [rotated 1, consumes 1])
  case (1 f cmp k s rootp parentp gparentp p_r gp_r y)
  have IH: "addrs (fst y) = addrs s" if "f cmp k s rootp parentp gparentp p_r gp_r = Some y" for s rootp parentp gparentp p_r gp_r
    using 1(1) [OF that] .
  from 1(2) show ?case
    by (auto simp: Let_def dest!: maybe_split_dom IH elim!: bindE split: if_splits)
qed

lemma tsearch_dom:
  assumes "tsearch cmp q k s l = Some (s', a)"
  shows "addrs s' \<subseteq> addrs s \<union> ({q} - {0})"
proof -
  have "addrs s2 = addrs s1" if "tsearch_loop cmp k s1 rootp parentp gparentp p_r gp_r = Some (s2, e)"
    for s1 rootp parentp gparentp p_r gp_r s2 e
    using tsearch_loop_dom [OF that] by simp
  then show ?thesis using assms
    by (auto simp: tsearch_def addrs_upd dest!: write_dom maybe_split_dom elim!: bindE split: if_splits option.splits prod.splits search_end.splits)
qed

lemma fix_side_dom:
  "fix_brother near far s pp p q = Some (s', again) \<Longrightarrow> addrs s' = addrs s"
  "fix_side sz near far s pp p stack = Some (s', stack', again) \<Longrightarrow> addrs s' = addrs s"
proof -
  show b: "addrs s' = addrs s" if "fix_brother near far s pp p q = Some (s', again)" for s pp p q s' again
    using that by (auto simp: fix_brother_def dest!: write_dom elim!: bindE split: if_splits)
  show "addrs s' = addrs s" if "fix_side sz near far s pp p stack = Some (s', stack', again)"
    using that by (auto simp: fix_side_def dest!: write_dom b elim!: bindE split: if_splits)
qed

lemma fix_loop_dom: "fix_loop sz s r stack = Some y \<Longrightarrow> addrs (fst y) = addrs s"
proof (induction sz s r stack y rule: fix_loop.raw_induct [rotated 1, consumes 1])
  case (1 f sz s r stack y)
  have IH: "addrs (fst y) = addrs s" if "f sz s r stack = Some y" for s r stack using 1(1) [OF that] .
  from 1(2) show ?case
    by (auto dest!: fix_side_dom IH elim!: bindE split: if_splits list.splits)
qed

lemma tdelete_dom:
  assumes "tdelete cmp k s l = Some (s', a)"
  shows "addrs s' \<subseteq> addrs s"
proof -
  have f: "addrs s2 = addrs s1" if "fix_loop sz s1 r stack = Some (s2, r')" for sz s1 r stack s2 r'
    using fix_loop_dom [OF that] by simp
  have u: "addrs s2 = addrs s1" if "unlink s1 rootp stack u r = Some s2" for s1 rootp stack u r s2
    using that by (auto simp: unlink_def dest!: write_dom elim!: bindE split: if_splits list.splits)
  have "addrs s' \<subseteq> addrs s" if "tdelete_at s rootp stack = Some s'" for s rootp stack s'
  proof -
    from that obtain s1 s2 s3 rootp stack u r root n un v where
      "unlink s rootp stack u r = Some s1" "(if u \<noteq> root then modify s1 root n else Some s1) = Some s2"
      "(if un then do { (s, r) \<leftarrow> fix_loop v s2 r stack; if r \<noteq> 0 then paint s r False else Some s } else Some s2) = Some s3"
      "s' = s3\<lparr>nodes := (nodes s3)(u := None)\<rparr>"
      unfolding tdelete_at_def by (elim bindE) (simp split: prod.splits, elim bindE conjE, blast)
    then show ?thesis by (auto simp: addrs_upd dest!: write_dom u f elim!: bindE split: if_splits)
  qed
  then show ?thesis using assms by (fastforce simp: tdelete_def elim!: bindE split: if_splits option.splits prod.splits)
qed

section \<open>No memory for the new node\<close>

text \<open>Then a key that is there is found, an empty tree stays empty, and any other call follows the null pointer in the place
  where the new node should be.\<close>

lemma tsearch_without_node:
  assumes z: "trep s T" and rb: "rb T n" and n0: "0 \<notin> addrs s"
  shows "(\<exists>s' a x T' n'. tsearch cmp 0 k s (Some Root) = Some (s', a) \<and> trep s' T' \<and> rb T' n' \<and> ino T' = ino T \<and>
      (a, x) \<in> set (ino T) \<and> cmp k x = 0) \<or>
    (\<exists>fs. ino T = lefts fs @ rights fs \<and> on_path cmp k fs) \<and>
      tsearch cmp 0 k s (Some Root) = (if T = Tip then Some (s, 0) else None)"
proof -
  have get: "get s Root = Some (addr T)" using get_loc [of s "[]" T] z by (simp add: trep_def)
  obtain s1 where s1: "(if addr T \<noteq> 0 then paint s (addr T) False else Some s) = Some s1" "zrep s1 [] (blacken T)"
    using paint_blacken z unfolding trep_def by blast
  have get1: "get s1 Root = Some (addr T)" using get_loc [OF s1(2)] by simp
  show ?thesis
  proof (cases "T = Tip")
    case True
    have "tsearch_loop cmp k s1 Root None None 0 0 = Some (s1, Missing Root Root None 0 0)"
      using get1 True by (subst tsearch_loop.simps) simp
    then have "tsearch cmp 0 k s (Some Root) = Some (s, 0)" using get s1(1) True by (simp add: tsearch_def)
    then show ?thesis using True by (intro disjI2 conjI exI [of _ "[]"]) (simp_all add: on_path_def)
  next
    case False
    have "wf_at [] (blacken T)" using blacken_wf [OF rb] by (simp add: wf_at_def)
    then have "loop_inv cmp k [] (blacken T) None None 0 0" by (auto simp: loop_inv_def gpar_ok_def on_path_def)
    then obtain s2 e where e: "tsearch_loop cmp k s1 Root None None 0 0 = Some (s2, e)" "loop_end cmp k (ino T) s2 e"
      using tsearch_loop_spec [OF s1(2), of cmp k None None 0 0] False by auto
    show ?thesis
    proof (cases e)
      case (Found a)
      then show ?thesis using e get s1(1) unfolding tsearch_def loop_end_def by (intro disjI1) fastforce
    next
      case (Missing nextp rootp parentp r p_r)
      then obtain f fs where f: "zrep s2 (f # fs) Tip" "nextp = loc_of (f # fs)" "rootp = loc_of fs" "on_path cmp k (f # fs)"
          "lefts (f # fs) @ rights (f # fs) = ino T"
        using e(2) unfolding loop_end_def by auto
      have "addrs s1 = addrs s" using s1(1) by (auto dest: paint_dom split: if_splits)
      then have "nodes s2 0 = None" using tsearch_loop_dom [OF e(1)] n0 by (auto simp: addrs_def)
      moreover have "get s2 nextp = Some 0" using get_loc [OF f(1)] f(2) by simp
      ultimately have "maybe_split_for_insert s2 nextp (Some rootp) parentp r p_r True = None"
        by (simp add: maybe_split_for_insert_def) (simp add: get_def)
      then have "tsearch cmp 0 k s (Some Root) = None"
        using get s1(1) e(1) Missing loc_neq [OF f(1)] f(2,3) by (simp add: tsearch_def del: if_split)
      then show ?thesis using f(4,5) False by (intro disjI2 conjI exI [of _ "f # fs"]) simp_all
    qed
  qed
qed

end
