(* ===== verification/TsearchProps.thy ===== *)
theory TsearchProps
  imports TsearchRemove TsearchMem
begin

text \<open>
  The search trees as sets: the invariant of a tree in memory, every operation on it, and what a sequence of calls
  returns.
\<close>

section \<open>Order\<close>

definition key_less :: "('k \<Rightarrow> 'k \<Rightarrow> int) \<Rightarrow> nat \<times> 'k \<Rightarrow> nat \<times> 'k \<Rightarrow> bool" where
  "key_less cmp x y \<longleftrightarrow> cmp (snd x) (snd y) < 0"

context comparator
begin

lemma less_trans': "cmp x y < 0 \<Longrightarrow> cmp y z < 0 \<Longrightarrow> cmp x z < 0"
  using cmp_less_trans by force

lemma path_splits:
  assumes "sorted_wrt (key_less cmp) (lefts fs @ xs @ rights fs)" "on_path cmp k fs"
  shows "(\<forall>y \<in> set (lefts fs). cmp (snd y) k < 0) \<and> (\<forall>y \<in> set (rights fs). cmp k (snd y) < 0)"
  using assms
proof (induction fs arbitrary: xs)
  case (Cons f fs)
  show ?case
  proof (cases f)
    case (InLeft c a x u)
    have s: "sorted_wrt (key_less cmp) (lefts fs @ (xs @ (a, x) # ino u) @ rights fs)" using Cons.prems(1) InLeft by simp
    have k: "cmp k x < 0" using Cons.prems(2) InLeft by simp
    have "cmp k (snd y) < 0" if "y \<in> set (ino u)" for y
      using s that less_trans' [OF k] by (auto simp: sorted_wrt_append key_less_def)
    then show ?thesis using Cons.IH [OF s] Cons.prems(2) k InLeft by auto
  next
    case (InRight c u a x)
    have s: "sorted_wrt (key_less cmp) (lefts fs @ (ino u @ (a, x) # xs) @ rights fs)" using Cons.prems(1) InRight by simp
    have k: "cmp x k < 0" using Cons.prems(2) InRight cmp_sym [of x k] by auto
    have "cmp (snd y) k < 0" if "y \<in> set (ino u)" for y
      using s that less_trans' [OF _ k] by (auto simp: sorted_wrt_append key_less_def)
    then show ?thesis using Cons.IH [OF s] Cons.prems(2) k InRight by auto
  qed
qed simp

lemma path_absent:
  assumes "sorted_wrt (key_less cmp) (lefts fs @ rights fs)" "on_path cmp k fs" "y \<in> set (lefts fs @ rights fs)"
  shows "cmp k (snd y) \<noteq> 0"
  using path_splits [of fs "[]" k] assms cmp_sym [of "snd y" k] by auto

lemma sorted_add:
  assumes "sorted_wrt (key_less cmp) (lefts fs @ rights fs)" "on_path cmp k fs"
  shows "sorted_wrt (key_less cmp) (lefts fs @ (q, k) # rights fs)"
  using path_splits [of fs "[]" k] assms by (auto simp: sorted_wrt_append key_less_def)

text \<open>A key equal to the one looked for stands alone.\<close>

lemma equal_unique:
  assumes "sorted_wrt (key_less cmp) xs" "x \<in> set xs" "y \<in> set xs" "cmp k (snd x) = 0" "cmp k (snd y) = 0"
  shows "x = y"
proof (rule ccontr)
  assume "x \<noteq> y"
  then have "cmp (snd x) (snd y) < 0 \<or> cmp (snd y) (snd x) < 0"
    using assms(1-3) by (induction xs) (auto simp: key_less_def)
  then show False
  proof
    assume "cmp (snd x) (snd y) < 0"
    then show False using cmp_less_trans [of k "snd x" "snd y"] assms(4,5) by simp
  next
    assume "cmp (snd y) (snd x) < 0"
    then show False using cmp_less_trans [of k "snd y" "snd x"] assms(4,5) by simp
  qed
qed

end

section \<open>Size\<close>

lemma rb_size: "rb T n \<Longrightarrow> 2 ^ n \<le> length (ino T) + 1"
proof (induction T arbitrary: n)
  case (Nd c l a k r)
  show ?case
  proof (cases c)
    case True
    then show ?thesis using Nd.IH(1) [of n] Nd.prems by simp
  next
    case False
    then obtain m where "n = Suc m" "rb l m" "rb r m" using Nd.prems by auto
    then show ?thesis using Nd.IH(1) [of m] Nd.IH(2) [of m] by simp
  qed
qed simp

lemma rb_height: "rb T n \<Longrightarrow> height T \<le> 2 * n + (if redt T then 1 else 0)"
proof (induction T arbitrary: n)
  case (Nd c l a k r)
  show ?case
  proof (cases c)
    case True
    then show ?thesis using Nd.IH(1) [of n] Nd.IH(2) [of n] Nd.prems by simp
  next
    case False
    then obtain m where "n = Suc m" "rb l m" "rb r m" using Nd.prems by auto
    then show ?thesis using Nd.IH(1) [of m] Nd.IH(2) [of m] False by (auto split: if_splits)
  qed
qed simp

text \<open>The number of nodes on a path is at most twice the logarithm of the number of nodes and one.\<close>

lemma rb_height_size:
  assumes "rb T n"
  shows "2 ^ height T \<le> (length (ino T) + 1)\<^sup>2"
proof (cases "redt T")
  case False
  then have "2 ^ height T \<le> (2 :: nat) ^ (2 * n)" using rb_height [OF assms] by (intro power_increasing) simp_all
  also have "\<dots> = (2 ^ n)\<^sup>2" by (simp add: power_mult mult.commute [of 2])
  also have "\<dots> \<le> (length (ino T) + 1)\<^sup>2" using rb_size [OF assms] by (rule power_mono) simp
  finally show ?thesis .
next
  case True
  then obtain l a k r where T: "T = Nd True l a k r" by (cases T) auto
  then have lr: "rb l n" "rb r n" using assms by simp_all
  have "2 ^ height T \<le> (2 :: nat) ^ (2 * (n + 1))" using rb_height [OF assms] True by (intro power_increasing) simp_all
  also have "\<dots> = (2 * 2 ^ n)\<^sup>2" by (simp only: power_mult mult.commute [of 2] power_add power_one_right)
  also have "\<dots> \<le> (length (ino T) + 1)\<^sup>2" using rb_size [OF lr(1)] rb_size [OF lr(2)] T by (intro power_mono) simp_all
  finally show ?thesis .
qed

lemma rb_low:
  assumes "rb T n" "length (ino T) < 2 ^ 20"
  shows "height T \<le> 40"
proof -
  have "length (ino T) + 1 \<le> 2 ^ 20" using assms(2) by simp
  then have "(length (ino T) + 1)\<^sup>2 \<le> (2 ^ 20)\<^sup>2" by (rule power_mono) simp
  then have "(2 :: nat) ^ height T \<le> 2 ^ 40" using rb_height_size [OF assms(1)] by simp
  then show ?thesis by (subst (asm) power_increasing_iff) simp_all
qed

section \<open>The invariant\<close>

definition tree_inv :: "('k \<Rightarrow> 'k \<Rightarrow> int) \<Rightarrow> 'k tree_mem \<Rightarrow> (nat \<times> 'k) list \<Rightarrow> bool" where
  "tree_inv cmp s xs \<longleftrightarrow> (\<exists>T n. trep s T \<and> rb T n \<and> ino T = xs \<and> sorted_wrt (key_less cmp) xs)"

lemma tree_node: "tree_in N T \<Longrightarrow> (a, x) \<in> set (ino T) \<Longrightarrow> \<exists>n. N a = Some n \<and> nkey n = x \<and> a \<noteq> 0"
proof (induction T)
  case (Nd c l b k r)
  then show ?case by (cases "(a, x) \<in> set (ino l)"; cases "(a, x) \<in> set (ino r)") simp_all
qed simp

lemma inv_node: "tree_inv cmp s xs \<Longrightarrow> (a, x) \<in> set xs \<Longrightarrow> \<exists>n. nodes s a = Some n \<and> nkey n = x \<and> a \<noteq> 0"
proof -
  assume i: "tree_inv cmp s xs" "(a, x) \<in> set xs"
  obtain T where "tree_in (nodes s) T" "ino T = xs" using i(1) by (auto simp: tree_inv_def trep_def zrep_def)
  then show ?thesis using tree_node [of "nodes s" T a x] i(2) by simp
qed

lemma tsearch_inv:
  assumes c: "comparator cmp" and i: "tree_inv cmp s xs" and q: "q \<noteq> 0" "q \<notin> fst ` set xs"
  shows "\<exists>s' a ys. tsearch cmp q k s (Some Root) = Some (s', a) \<and> tree_inv cmp s' ys \<and>
    ((\<exists>x. (a, x) \<in> set xs \<and> cmp k x = 0 \<and> ys = xs) \<or>
     (\<forall>y \<in> set xs. cmp k (snd y) \<noteq> 0) \<and> a = q \<and> (\<exists>ls rs. xs = ls @ rs \<and> ys = ls @ (q, k) # rs))"
proof -
  obtain T n where T: "trep s T" "rb T n" "ino T = xs" "sorted_wrt (key_less cmp) xs" using i by (auto simp: tree_inv_def)
  obtain s' a T' n' where r: "tsearch cmp q k s (Some Root) = Some (s', a)" "trep s' T'" "rb T' n'" "tsearch_ok cmp k q xs (ino T') a"
    using tsearch_spec [OF T(1,2) q(1)] q(2) T(3) by metis
  show ?thesis
  proof (cases "\<exists>x. (a, x) \<in> set xs \<and> cmp k x = 0 \<and> ino T' = xs")
    case True
    then show ?thesis using r T(4) unfolding tree_inv_def by blast
  next
    case False
    then obtain fs where f: "xs = lefts fs @ rights fs" "ino T' = lefts fs @ (q, k) # rights fs" "on_path cmp k fs" "a = q"
      using r(4) unfolding tsearch_ok_def by blast
    have "tree_inv cmp s' (ino T')" using r(2,3) comparator.sorted_add [OF c] T(4) f unfolding tree_inv_def by auto
    then show ?thesis using r(1) f comparator.path_absent [OF c] T(4) by blast
  qed
qed

lemma tsearch_no_memory:
  assumes c: "comparator cmp" and i: "tree_inv cmp s xs" and n0: "0 \<notin> addrs s"
  shows "if \<exists>y \<in> set xs. cmp k (snd y) = 0
    then \<exists>s' a x. tsearch cmp 0 k s (Some Root) = Some (s', a) \<and> tree_inv cmp s' xs \<and> (a, x) \<in> set xs \<and> cmp k x = 0
    else tsearch cmp 0 k s (Some Root) = (if xs = [] then Some (s, 0) else None)"
proof -
  obtain T n where T: "trep s T" "rb T n" "ino T = xs" "sorted_wrt (key_less cmp) xs" using i by (auto simp: tree_inv_def)
  have tip: "T = Tip \<longleftrightarrow> xs = []" using T(3) by (cases T) auto
  from tsearch_without_node [OF T(1,2) n0, of cmp k] show ?thesis
  proof
    assume "\<exists>s' a x T' n'. tsearch cmp 0 k s (Some Root) = Some (s', a) \<and> trep s' T' \<and> rb T' n' \<and> ino T' = ino T \<and>
      (a, x) \<in> set (ino T) \<and> cmp k x = 0"
    then obtain s' a x where "tsearch cmp 0 k s (Some Root) = Some (s', a)" "tree_inv cmp s' xs" "(a, x) \<in> set xs" "cmp k x = 0"
      using T(3,4) unfolding tree_inv_def by blast
    then show ?thesis by force
  next
    assume "(\<exists>fs. ino T = lefts fs @ rights fs \<and> on_path cmp k fs) \<and>
      tsearch cmp 0 k s (Some Root) = (if T = Tip then Some (s, 0) else None)"
    then show ?thesis using comparator.path_absent [OF c, where k = k] T(3,4) tip by metis
  qed
qed

lemma tdelete_inv:
  assumes c: "comparator cmp" and i: "tree_inv cmp s xs" and few: "length xs < 2 ^ 20"
  shows "\<exists>s' a ys. tdelete cmp k s (Some Root) = Some (s', a) \<and> tree_inv cmp s' ys \<and>
    (if a = 0 then (\<forall>y \<in> set xs. cmp k (snd y) \<noteq> 0) \<and> ys = xs
     else (\<exists>y \<in> set xs. cmp k (snd y) = 0) \<and> map snd ys = filter (\<lambda>x. cmp k x \<noteq> 0) (map snd xs) \<and> fst ` set ys \<subseteq> fst ` set xs)"
proof -
  obtain T n where T: "trep s T" "rb T n" "ino T = xs" "sorted_wrt (key_less cmp) xs" using i by (auto simp: tree_inv_def)
  obtain s' ret T' n' where r: "tdelete cmp k s (Some Root) = Some (s', ret)" "trep s' T'" "rb T' n'" "tdelete_ok cmp k s' xs (ino T') ret"
    using tdelete_spec [OF T(1,2) rb_low [OF T(2)]] T(3) few by metis
  show ?thesis
  proof (cases "ret = 0")
    case True
    then obtain fs where "ino T' = xs" "xs = lefts fs @ rights fs" "on_path cmp k fs" using r(4) unfolding tdelete_ok_def by blast
    moreover from this have "\<forall>y \<in> set xs. cmp k (snd y) \<noteq> 0" using comparator.path_absent [OF c, of fs k] T(4) by simp
    ultimately show ?thesis using True r T(4) unfolding tree_inv_def by auto
  next
    case False
    then obtain ls a x rs where d: "xs = ls @ (a, x) # rs" "cmp k x = 0"
      "ino T' = ls @ rs \<or> (\<exists>u ku rest. rs = (u, ku) # rest \<and> ino T' = ls @ (a, ku) # rest)"
      using r(4) unfolding tdelete_ok_def by blast
    have keys: "map snd (ino T') = map snd ls @ map snd rs" using d(3) by auto
    have addrs: "fst ` set (ino T') \<subseteq> fst ` set xs" using d(1,3) by auto
    have "cmp k (snd y) \<noteq> 0" if y: "y \<in> set ls \<union> set rs" for y
    proof
      assume "cmp k (snd y) = 0"
      then have "y = (a, x)" using comparator.equal_unique [OF c T(4), of y "(a, x)" k] y d(1,2) by auto
      moreover have "distinct xs"
      proof -
        have "distinct (map fst xs)" using T(1,3) by (simp add: trep_def zrep_def)
        then show ?thesis by (simp add: distinct_map)
      qed
      ultimately show False using y d(1) by auto
    qed
    then have f: "filter (\<lambda>x. cmp k x \<noteq> 0) (map snd xs) = map snd ls @ map snd rs"
      using d(1,2) by (auto simp: filter_id_conv)
    have "sorted_wrt (\<lambda>x y. cmp x y < 0) (map snd xs)" using T(4) by (simp add: sorted_wrt_map key_less_def [abs_def])
    then have "sorted_wrt (\<lambda>x y. cmp x y < 0) (map snd (ino T'))" unfolding keys d(1) by (auto simp: sorted_wrt_append)
    then have "sorted_wrt (key_less cmp) (ino T')" by (simp add: sorted_wrt_map key_less_def [abs_def])
    moreover have "\<exists>y \<in> set xs. cmp k (snd y) = 0" using d(1,2) by auto
    ultimately show ?thesis using False r(1-3) f keys addrs unfolding tree_inv_def by auto
  qed
qed

lemma tfind_loop_spec:
  assumes "zrep s fs t" "on_path cmp k fs"
  shows "\<exists>a. tfind_loop cmp k s (loc_of fs) = Some a \<and>
    (if a = 0 then \<exists>fs'. plug fs t = plug fs' Tip \<and> on_path cmp k fs'
     else \<exists>x. (a, x) \<in> set (ino t) \<and> cmp k x = 0)"
  using assms
proof (induction "dist cmp k t" arbitrary: fs t rule: less_induct)
  case less
  show ?case
  proof (cases t)
    case Tip
    then have "tfind_loop cmp k s (loc_of fs) = Some 0" using get_loc [OF less.prems(1)] by (subst tfind_loop.simps) simp
    then show ?thesis using Tip less.prems(2) by auto
  next
    case t: (Nd c l a x r)
    note z = less.prems(1) [unfolded t]
    have root: "get s (loc_of fs) = Some a" using get_loc [OF z] by simp
    obtain n where n: "nodes s a = Some n" "nkey n = x" "a \<noteq> 0" using node_at [OF z] by auto
    show ?thesis
    proof (cases "cmp k x = 0")
      case True
      then have "tfind_loop cmp k s (loc_of fs) = Some a" using root n by (subst tfind_loop.simps) (simp add: Let_def)
      then show ?thesis using True n(3) t by auto
    next
      case ne: False
      let ?f = "frame_for cmp k t" and ?c = "next_child cmp k t"
      note f = frame_for [where cmp = cmp and k = k and x = x, OF t ne]
      have "zrep s (?f # fs) ?c" "on_path cmp k (?f # fs)"
        using less.prems f(1,3,4) by (simp_all add: zrep_up del: goes.simps)
      moreover have "dist cmp k ?c < dist cmp k t" by (simp add: t)
      ultimately obtain b where b: "tfind_loop cmp k s (loc_of (?f # fs)) = Some b"
        "if b = 0 then \<exists>fs'. plug (?f # fs) ?c = plug fs' Tip \<and> on_path cmp k fs' else \<exists>x. (b, x) \<in> set (ino ?c) \<and> cmp k x = 0"
        using less.hyps by blast
      have "tfind_loop cmp k s (loc_of fs) = Some b"
        using root n ne b(1) unfolding f(6) by (subst tfind_loop.simps) (simp add: Let_def)
      moreover have "set (ino ?c) \<subseteq> set (ino t)" by (auto simp: t)
      ultimately show ?thesis using b(2) f(1) by (auto split: if_splits)
    qed
  qed
qed

lemma tfind_inv:
  assumes c: "comparator cmp" and i: "tree_inv cmp s xs"
  shows "\<exists>a. tfind cmp k s (Some Root) = Some a \<and>
    (if a = 0 then \<forall>y \<in> set xs. cmp k (snd y) \<noteq> 0 else \<exists>x. (a, x) \<in> set xs \<and> cmp k x = 0)"
proof -
  obtain T n where T: "trep s T" "rb T n" "ino T = xs" "sorted_wrt (key_less cmp) xs" using i by (auto simp: tree_inv_def)
  have z: "zrep s [] T" "on_path cmp k []" using T(1) by (simp_all add: trep_def on_path_def)
  obtain a where l: "tfind_loop cmp k s Root = Some a"
    "if a = 0 then \<exists>fs'. T = plug fs' Tip \<and> on_path cmp k fs' else \<exists>x. (a, x) \<in> set (ino T) \<and> cmp k x = 0"
    using tfind_loop_spec [OF z, unfolded loc_of.simps plug.simps] by (elim exE conjE) (rule that)
  then have a: "tfind cmp k s (Some Root) = Some a"
    "if a = 0 then \<exists>fs'. T = plug fs' Tip \<and> on_path cmp k fs' else \<exists>x. (a, x) \<in> set xs \<and> cmp k x = 0"
    unfolding T(3) by (simp_all add: tfind_def)
  show ?thesis
  proof (cases "a = 0")
    case True
    then obtain fs where "T = plug fs Tip" "on_path cmp k fs" using a(2) by auto
    then show ?thesis using a(1) True comparator.path_absent [OF c, of fs k] T(3,4) by (auto simp: ino_plug)
  qed (use a in auto)
qed


section \<open>Sequences of calls\<close>

text \<open>
  A program that keeps a tree: what it passes, and what it sees of each result (the key of the node it gets, or whether
  a node was deleted). \<open>mal i L\<close> is what \<open>malloc\<close> returns in the \<open>i\<close>th call when the nodes at the addresses \<open>L\<close> are in use: any other
  address, also one that was freed, or \<open>NULL\<close> in the calls that \<open>fails\<close> tells.
\<close>

datatype 'k call = Insert 'k | Find 'k | Delete 'k

definition malloc_ok :: "(nat \<Rightarrow> nat set \<Rightarrow> nat) \<Rightarrow> (nat \<Rightarrow> bool) \<Rightarrow> bool" where
  "malloc_ok mal fails \<longleftrightarrow> (\<forall>i L. finite L \<longrightarrow> 0 \<notin> L \<longrightarrow> mal i L \<notin> L \<and> (mal i L = 0 \<longleftrightarrow> fails i))"

definition seen :: "'k tree_mem \<Rightarrow> nat \<Rightarrow> 'k option" where
  "seen s a = (if a = 0 then None else map_option nkey (nodes s a))"

definition tree_call ::
    "('k \<Rightarrow> 'k \<Rightarrow> int) \<Rightarrow> (nat \<Rightarrow> nat set \<Rightarrow> nat) \<Rightarrow> nat \<Rightarrow> 'k tree_mem \<Rightarrow> 'k call \<Rightarrow> ('k tree_mem \<times> ('k option + bool)) option" where
  "tree_call cmp mal i s c =
    (case c of
       Insert k \<Rightarrow> do { (s, a) \<leftarrow> tsearch cmp (mal i (addrs s)) k s (Some Root); Some (s, Inl (seen s a)) }
     | Find k \<Rightarrow> do { a \<leftarrow> tfind cmp k s (Some Root); Some (s, Inl (seen s a)) }
     | Delete k \<Rightarrow> do { (s, a) \<leftarrow> tdelete cmp k s (Some Root); Some (s, Inr (a \<noteq> 0)) })"

text \<open>The set of keys, as a list. A call goes wrong in one case: there is no memory to insert a key into a set that is not empty.\<close>

definition key_call ::
    "('k \<Rightarrow> 'k \<Rightarrow> int) \<Rightarrow> (nat \<Rightarrow> bool) \<Rightarrow> nat \<Rightarrow> 'k list \<Rightarrow> 'k call \<Rightarrow> ('k list \<times> ('k option + bool)) option" where
  "key_call cmp fails i K c =
    (case c of
       Insert k \<Rightarrow>
         (case find (\<lambda>x. cmp k x = 0) K of
            Some x \<Rightarrow> Some (K, Inl (Some x))
          | None \<Rightarrow> if \<not> fails i then Some (k # K, Inl (Some k)) else if K = [] then Some (K, Inl None) else None)
     | Find k \<Rightarrow> Some (K, Inl (find (\<lambda>x. cmp k x = 0) K))
     | Delete k \<Rightarrow> Some (filter (\<lambda>x. cmp k x \<noteq> 0) K, Inr (find (\<lambda>x. cmp k x = 0) K \<noteq> None)))"

text \<open>The calls in turn, and the largest set among them.\<close>

fun calls :: "(nat \<Rightarrow> 's \<Rightarrow> 'c \<Rightarrow> ('s \<times> 'r) option) \<Rightarrow> nat \<Rightarrow> 's \<Rightarrow> 'c list \<Rightarrow> ('s \<times> 'r list) option" where
  "calls f i s [] = Some (s, [])"
| "calls f i s (c # cs) = do { (s, r) \<leftarrow> f i s c; (s, rs) \<leftarrow> calls f (Suc i) s cs; Some (s, r # rs) }"

fun peak :: "(nat \<Rightarrow> 'k list \<Rightarrow> 'c \<Rightarrow> ('k list \<times> 'r) option) \<Rightarrow> nat \<Rightarrow> 'k list \<Rightarrow> 'c list \<Rightarrow> nat" where
  "peak f i K [] = length K"
| "peak f i K (c # cs) = max (length K) (case f i K c of None \<Rightarrow> 0 | Some (K, r) \<Rightarrow> peak f (Suc i) K cs)"

lemma find_key:
  assumes c: "comparator cmp" and i: "tree_inv cmp s xs" and K: "mset K = mset (map snd xs)"
  shows "(a, x) \<in> set xs \<Longrightarrow> cmp k x = 0 \<Longrightarrow> find (\<lambda>x. cmp k x = 0) K = Some x"
    "\<forall>y \<in> set xs. cmp k (snd y) \<noteq> 0 \<Longrightarrow> find (\<lambda>x. cmp k x = 0) K = None"
proof -
  have s: "set K = snd ` set xs" using K by (metis set_map set_mset_mset)
  show "find (\<lambda>x. cmp k x = 0) K = None" if "\<forall>y \<in> set xs. cmp k (snd y) \<noteq> 0"
    using that s by (auto simp: find_None_iff)
  show "find (\<lambda>x. cmp k x = 0) K = Some x" if x: "(a, x) \<in> set xs" "cmp k x = 0"
  proof (cases "find (\<lambda>x. cmp k x = 0) K")
    case None
    then show ?thesis using x s by (force simp: find_None_iff)
  next
    case (Some z)
    then have "z \<in> set K" "cmp k z = 0" by (auto simp: find_Some_iff)
    then obtain b where b: "(b, z) \<in> set xs" using s by auto
    have "sorted_wrt (key_less cmp) xs" using i by (auto simp: tree_inv_def)
    then have "(a, x) = (b, z)" using comparator.equal_unique [OF c, of xs "(a, x)" "(b, z)" k] x b \<open>cmp k z = 0\<close> by simp
    then show ?thesis using Some by simp
  qed
qed

definition represents :: "('k \<Rightarrow> 'k \<Rightarrow> int) \<Rightarrow> 'k tree_mem \<Rightarrow> 'k list \<Rightarrow> bool" where
  "represents cmp s K \<longleftrightarrow> (\<exists>xs. tree_inv cmp s xs \<and> mset K = mset (map snd xs)) \<and> finite (addrs s) \<and> 0 \<notin> addrs s"

lemma insert_call:
  assumes c: "comparator cmp" and m: "malloc_ok mal fails" and r: "represents cmp s K"
  shows "case key_call cmp fails i K (Insert k) of
      None \<Rightarrow> tree_call cmp mal i s (Insert k) = None
    | Some (K', r) \<Rightarrow> \<exists>s'. tree_call cmp mal i s (Insert k) = Some (s', r) \<and> represents cmp s' K'"
proof -
  obtain xs where xs: "tree_inv cmp s xs" "mset K = mset (map snd xs)" and fin: "finite (addrs s)" "0 \<notin> addrs s"
    using r by (auto simp: represents_def)
  let ?q = "mal i (addrs s)"
  have q: "?q \<notin> addrs s" "?q = 0 \<longleftrightarrow> fails i" using m fin by (auto simp: malloc_ok_def)
  have qx: "?q \<notin> fst ` set xs" using inv_node [OF xs(1)] q(1) by (force simp: addrs_def)
  have keep: "finite (addrs s') \<and> 0 \<notin> addrs s'" if "tsearch cmp ?q k s (Some Root) = Some (s', a)" for s' a
    using tsearch_dom [OF that] fin finite_subset by fastforce
  have found: ?thesis if t: "tsearch cmp ?q k s (Some Root) = Some (s', a)" "tree_inv cmp s' xs" "(a, x) \<in> set xs" "cmp k x = 0" for s' a x
  proof -
    have "seen s' a = Some x" using inv_node [OF t(2,3)] by (auto simp: seen_def)
    then show ?thesis using t find_key(1) [OF c xs t(3,4)] xs(2) keep by (auto simp: key_call_def tree_call_def represents_def)
  qed
  show ?thesis
  proof (cases "fails i")
    case True
    then have q0: "?q = 0" using q(2) by simp
    show ?thesis
    proof (cases "\<exists>y \<in> set xs. cmp k (snd y) = 0")
      case True
      then show ?thesis using tsearch_no_memory [OF c xs(1) fin(2), of k] found unfolding q0 by (auto simp del: split_paired_Ex)
    next
      case False
      then have "tsearch cmp 0 k s (Some Root) = (if xs = [] then Some (s, 0) else None)"
        using tsearch_no_memory [OF c xs(1) fin(2), of k] by simp
      moreover have "K = [] \<longleftrightarrow> xs = []" using xs(2) by auto
      moreover have "find (\<lambda>x. cmp k x = 0) K = None" using find_key(2) [OF c xs] False by blast
      ultimately show ?thesis using r True q0 by (simp add: key_call_def tree_call_def seen_def)
    qed
  next
    case False
    then have q0: "?q \<noteq> 0" using q(2) by simp
    obtain s' a ys where t: "tsearch cmp ?q k s (Some Root) = Some (s', a)" "tree_inv cmp s' ys"
      "(\<exists>x. (a, x) \<in> set xs \<and> cmp k x = 0 \<and> ys = xs) \<or>
       (\<forall>y \<in> set xs. cmp k (snd y) \<noteq> 0) \<and> a = ?q \<and> (\<exists>ls rs. xs = ls @ rs \<and> ys = ls @ (?q, k) # rs)"
      using tsearch_inv [OF c xs(1) q0 qx, of k] by (elim exE conjE) (rule that)
    show ?thesis
      using t(3)
    proof
      assume "\<exists>x. (a, x) \<in> set xs \<and> cmp k x = 0 \<and> ys = xs"
      then show ?thesis using found t(1,2) by blast
    next
      assume "(\<forall>y \<in> set xs. cmp k (snd y) \<noteq> 0) \<and> a = ?q \<and> (\<exists>ls rs. xs = ls @ rs \<and> ys = ls @ (?q, k) # rs)"
      then obtain ls rs where z: "\<forall>y \<in> set xs. cmp k (snd y) \<noteq> 0" "a = ?q" "xs = ls @ rs" "ys = ls @ (?q, k) # rs" by blast
      have "seen s' a = Some k" using inv_node [OF t(2), of ?q k] z by (auto simp: seen_def)
      moreover have "mset (k # K) = mset (map snd ys)" using xs(2) z by simp
      ultimately show ?thesis using t(1,2) find_key(2) [OF c xs z(1)] False keep
        by (auto simp: key_call_def tree_call_def represents_def)
    qed
  qed
qed

lemma find_call:
  assumes c: "comparator cmp" and r: "represents cmp s K"
  shows "tree_call cmp mal i s (Find k) = Some (s, Inl (find (\<lambda>x. cmp k x = 0) K))"
proof -
  obtain xs where xs: "tree_inv cmp s xs" "mset K = mset (map snd xs)" using r by (auto simp: represents_def)
  obtain a where f: "tfind cmp k s (Some Root) = Some a"
    "if a = 0 then \<forall>y \<in> set xs. cmp k (snd y) \<noteq> 0 else \<exists>x. (a, x) \<in> set xs \<and> cmp k x = 0"
    using tfind_inv [OF c xs(1), of k] by (elim exE conjE) (rule that)
  have "seen s a = find (\<lambda>x. cmp k x = 0) K"
  proof (cases "a = 0")
    case True
    then show ?thesis using f(2) find_key(2) [OF c xs] by (simp add: seen_def)
  next
    case False
    then obtain z where z: "(a, z) \<in> set xs" "cmp k z = 0" using f(2) by auto
    then show ?thesis using inv_node [OF xs(1) z(1)] find_key(1) [OF c xs z] by (auto simp: seen_def)
  qed
  then show ?thesis using f(1) by (simp add: tree_call_def)
qed

lemma delete_call:
  assumes c: "comparator cmp" and r: "represents cmp s K" and few: "length K < 2 ^ 20"
  shows "\<exists>s'. tree_call cmp mal i s (Delete k) = Some (s', Inr (find (\<lambda>x. cmp k x = 0) K \<noteq> None)) \<and>
    represents cmp s' (filter (\<lambda>x. cmp k x \<noteq> 0) K)"
proof -
  obtain xs where xs: "tree_inv cmp s xs" "mset K = mset (map snd xs)" and fin: "finite (addrs s)" "0 \<notin> addrs s"
    using r by (auto simp: represents_def)
  have "length xs < 2 ^ 20" using few xs(2) by (metis length_map size_mset)
  from tdelete_inv [OF c xs(1) this, of k]
  obtain s' a ys where d: "tdelete cmp k s (Some Root) = Some (s', a)" "tree_inv cmp s' ys"
    "if a = 0 then (\<forall>y \<in> set xs. cmp k (snd y) \<noteq> 0) \<and> ys = xs
     else (\<exists>y \<in> set xs. cmp k (snd y) = 0) \<and> map snd ys = filter (\<lambda>x. cmp k x \<noteq> 0) (map snd xs) \<and> fst ` set ys \<subseteq> fst ` set xs"
    by (elim exE conjE) (rule that)
  have "map snd ys = filter (\<lambda>x. cmp k x \<noteq> 0) (map snd xs)"
    using d(3) by (auto simp: filter_id_conv split: if_splits)
  then have "mset (filter (\<lambda>x. cmp k x \<noteq> 0) K) = mset (map snd ys)" using xs(2) by (simp add: mset_filter)
  moreover have "finite (addrs s') \<and> 0 \<notin> addrs s'" using tdelete_dom [OF d(1)] fin finite_subset by blast
  moreover have "(find (\<lambda>x. cmp k x = 0) K \<noteq> None) = (a \<noteq> 0)"
  proof (cases "a = 0")
    case False
    then obtain y where "y \<in> set xs" "cmp k (snd y) = 0" using d(3) by auto
    then show ?thesis using find_key(1) [OF c xs, of "fst y" "snd y" k] False by simp
  qed (use d(3) find_key(2) [OF c xs] in simp)
  ultimately show ?thesis using d(1,2) by (auto simp: tree_call_def represents_def)
qed

lemma calls_spec:
  assumes c: "comparator cmp" and m: "malloc_ok mal fails"
  shows "represents cmp s K \<Longrightarrow> peak (key_call cmp fails) i K cs < 2 ^ 20 \<Longrightarrow>
    (case calls (key_call cmp fails) i K cs of
       None \<Rightarrow> calls (tree_call cmp mal) i s cs = None
     | Some (K', rs) \<Rightarrow> \<exists>t. calls (tree_call cmp mal) i s cs = Some (t, rs) \<and> represents cmp t K')"
proof (induction cs arbitrary: i s K)
  case (Cons x cs)
  have few: "length K < 2 ^ 20" using Cons.prems(2) by simp
  have step: "case key_call cmp fails i K x of
      None \<Rightarrow> tree_call cmp mal i s x = None
    | Some (K', r) \<Rightarrow> \<exists>s'. tree_call cmp mal i s x = Some (s', r) \<and> represents cmp s' K'"
  proof (cases x)
    case (Insert k)
    show ?thesis unfolding Insert by (rule insert_call [OF c m Cons.prems(1)])
  next
    case (Find k)
    then show ?thesis using find_call [OF c Cons.prems(1)] Cons.prems(1) by (simp add: key_call_def)
  next
    case (Delete k)
    then show ?thesis using delete_call [OF c Cons.prems(1) few] by (simp add: key_call_def)
  qed
  show ?case
  proof (cases "key_call cmp fails i K x")
    case None
    then show ?thesis using step by simp
  next
    case (Some y)
    obtain K' r where y: "y = (K', r)" by (cases y)
    obtain s' where s': "tree_call cmp mal i s x = Some (s', r)" "represents cmp s' K'" using step Some y by auto
    have "peak (key_call cmp fails) (Suc i) K' cs < 2 ^ 20" using Cons.prems(2) Some y by simp
    from Cons.IH [OF s'(2) this] show ?thesis using s'(1) Some y
      by (cases "calls (key_call cmp fails) (Suc i) K' cs") auto
  qed
qed simp

abbreviation empty_mem :: "'k tree_mem" where "empty_mem \<equiv> \<lparr>rootv = 0, nodes = Map.empty\<rparr>"

lemma empty_tree: "represents cmp empty_mem []"
proof -
  have "tree_inv cmp empty_mem []"
    unfolding tree_inv_def by (intro exI [of _ Tip] exI [of _ 0]) (simp add: trep_def zrep_def)
  then show ?thesis by (simp add: represents_def addrs_def)
qed

section \<open>Walking and destroying\<close>

definition walked :: "(nat \<times> visit \<times> int) list \<Rightarrow> nat list" where
  "walked evs = map fst (filter (\<lambda>(a, v, l). v = postorder \<or> v = leaf) evs)"

lemma walked_simps [simp]:
  "walked [] = []" "walked (xs @ ys) = walked xs @ walked ys"
  "walked ((a, v, l) # xs) = (if v = postorder \<or> v = leaf then a # walked xs else walked xs)"
  by (simp_all add: walked_def)

lemma trecurse_spec:
  assumes "tree_in (nodes s) T" "T \<noteq> Tip"
  shows "\<exists>evs. trecurse s (addr T) lv = Some evs \<and> walked evs = map fst (ino T) \<and>
    (\<forall>(a, v, l) \<in> set evs. lv \<le> l \<and> l < lv + int (height T))"
  using assms
proof (induction T arbitrary: lv)
  case (Nd c l a k r)
  have n: "nodes s a = Some \<lparr>nkey = k, nleft = addr l, nright = addr r, nred = c\<rparr>" using Nd.prems by simp
  have tl: "tree_in (nodes s) l" "tree_in (nodes s) r" using Nd.prems by simp_all
  have sub: "\<exists>evs. (if addr t \<noteq> 0 then trecurse s (addr t) (lv + 1) else Some []) = Some evs \<and> walked evs = map fst (ino t) \<and>
      (\<forall>(a, v, l) \<in> set evs. lv \<le> l \<and> l < lv + 1 + int (height t))" if t: "t = l \<or> t = r" for t
  proof (cases "t = Tip")
    case False
    then have "addr t \<noteq> 0" using tree_in_addr [of "nodes s" t] t tl by auto
    moreover have "\<exists>evs. trecurse s (addr t) (lv + 1) = Some evs \<and> walked evs = map fst (ino t) \<and>
        (\<forall>(a, v, l) \<in> set evs. lv + 1 \<le> l \<and> l < lv + 1 + int (height t))"
      using t Nd.IH tl False by blast
    ultimately show ?thesis by (auto; fastforce)
  qed simp
  obtain xs where xs: "(if addr l \<noteq> 0 then trecurse s (addr l) (lv + 1) else Some []) = Some xs" "walked xs = map fst (ino l)"
      "\<forall>(a, v, j) \<in> set xs. lv \<le> j \<and> j < lv + 1 + int (height l)" using sub [OF disjI1 [OF refl]] by (elim exE conjE) (rule that)
  obtain ys where ys: "(if addr r \<noteq> 0 then trecurse s (addr r) (lv + 1) else Some []) = Some ys" "walked ys = map fst (ino r)"
      "\<forall>(a, v, j) \<in> set ys. lv \<le> j \<and> j < lv + 1 + int (height r)" using sub [OF disjI2 [OF refl]] by (elim exE conjE) (rule that)
  show ?case
  proof (cases "l = Tip \<and> r = Tip")
    case True
    then show ?thesis using n by (subst trecurse.simps) simp
  next
    case False
    then have nz: "\<not> (addr l = 0 \<and> addr r = 0)" using tree_in_addr tl by blast
    have "trecurse s a lv = Some ((a, preorder, lv) # xs @ (a, postorder, lv) # ys @ [(a, endorder, lv)])"
      by (subst trecurse.simps) (simp only: n Option.bind.simps node_t.select_convs xs(1) ys(1) if_not_P [OF nz])
    then show ?thesis using xs(2,3) ys(2,3) by (auto; fastforce)
  qed
qed simp

lemma tdestroy_spec:
  assumes "tree_in (nodes s) T" "T \<noteq> Tip" "distinct (map fst (ino T))"
  shows "\<exists>s' ks. tdestroy_recurse s (addr T) = Some (s', ks) \<and> mset ks = mset (map snd (ino T)) \<and>
    nodes s' = (\<lambda>a. if a \<in> fst ` set (ino T) then None else nodes s a)"
  using assms
proof (induction T arbitrary: s)
  case (Nd c l a k r)
  have n: "nodes s a = Some \<lparr>nkey = k, nleft = addr l, nright = addr r, nred = c\<rparr>" using Nd.prems by simp
  have d: "distinct (map fst (ino l))" "distinct (map fst (ino r))" "fst ` set (ino l) \<inter> fst ` set (ino r) = {}"
    "a \<notin> fst ` set (ino l)" "a \<notin> fst ` set (ino r)" using Nd.prems(3) by auto
  obtain s1 xs where l: "(if addr l \<noteq> 0 then tdestroy_recurse s (addr l) else Some (s, [])) = Some (s1, xs)"
      "mset xs = mset (map snd (ino l))" "nodes s1 = (\<lambda>b. if b \<in> fst ` set (ino l) then None else nodes s b)"
  proof (cases "l = Tip")
    case True
    then show ?thesis using that [of s "[]"] by simp
  next
    case False
    then have "addr l \<noteq> 0" using tree_in_addr [of "nodes s" l] Nd.prems(1) by simp
    moreover obtain s1 xs where "tdestroy_recurse s (addr l) = Some (s1, xs)" "mset xs = mset (map snd (ino l))"
        "nodes s1 = (\<lambda>b. if b \<in> fst ` set (ino l) then None else nodes s b)"
      using Nd.IH(1) [of s] Nd.prems(1) False d(1) by auto
    ultimately show ?thesis using that [of s1 xs] by simp
  qed
  have r1: "tree_in (nodes s1) r"
    using tree_in_apart [of "nodes s" r "fst ` set (ino l)" "nodes s1"] Nd.prems(1) d(3) l(3) by auto
  obtain s2 ys where r: "(if addr r \<noteq> 0 then tdestroy_recurse s1 (addr r) else Some (s1, [])) = Some (s2, ys)"
      "mset ys = mset (map snd (ino r))" "nodes s2 = (\<lambda>b. if b \<in> fst ` set (ino r) then None else nodes s1 b)"
  proof (cases "r = Tip")
    case True
    then show ?thesis using that [of s1 "[]"] by simp
  next
    case False
    then have "addr r \<noteq> 0" using tree_in_addr [OF r1] by simp
    moreover obtain s2 ys where "tdestroy_recurse s1 (addr r) = Some (s2, ys)" "mset ys = mset (map snd (ino r))"
        "nodes s2 = (\<lambda>b. if b \<in> fst ` set (ino r) then None else nodes s1 b)"
      using Nd.IH(2) [OF r1 False d(2)] by auto
    ultimately show ?thesis using that [of s2 ys] by simp
  qed
  have "tdestroy_recurse s a = Some (s2\<lparr>nodes := (nodes s2)(a := None)\<rparr>, xs @ ys @ [k])"
    by (subst tdestroy_recurse.simps) (simp only: n Option.bind.simps node_t.select_convs l(1) r(1) prod.case)
  then show ?case using l(2,3) r(2,3) by (auto simp: fun_eq_iff image_iff)
qed simp

section \<open>Properties\<close>

text \<open>C6: A tree is a set: every sequence of \<open>tsearch\<close>, \<open>tfind\<close> and \<open>tdelete\<close> on a tree that is empty at first returns what a set of keys
  returns, for any comparison function that is an order and any \<open>malloc\<close>, which may return addresses again after \<open>tdelete\<close> has freed
  them and may fail. As long as the tree has fewer than \<open>2 ^ 20\<close> nodes no operation fails to return, follows a wrong pointer or writes
  outside the stack of \<open>tdelete\<close>, but for one case: \<open>tsearch\<close> goes through a null pointer exactly when there is no memory for a new
  key in a tree that is not empty.\<close>

theorem tree_is_set:
  assumes "comparator cmp" "malloc_ok mal fails" "peak (key_call cmp fails) 0 [] cs < 2 ^ 20"
  shows "map_option snd (calls (tree_call cmp mal) 0 empty_mem cs) = map_option snd (calls (key_call cmp fails) 0 [] cs)"
  using calls_spec [OF assms(1,2) empty_tree assms(3)] by (cases "calls (key_call cmp fails) 0 [] cs") auto

lemma int_comparator: "comparator (\<lambda>x y. x - y :: int)"
  by unfold_locales auto

text \<open>A \<open>malloc\<close> that returns the address behind the last node in use, and fails in one call.\<close>

definition demo_malloc :: "nat \<Rightarrow> nat \<Rightarrow> nat set \<Rightarrow> nat" where
  "demo_malloc j i L = (if i = j then 0 else Suc (Max (insert 0 L)))"

lemma demo_malloc_ok: "malloc_ok (demo_malloc j) (\<lambda>i. i = j)"
proof -
  have "Suc (Max (insert 0 L)) \<notin> L" if "finite L" for L
  proof
    assume "Suc (Max (insert 0 L)) \<in> L"
    then have "Suc (Max (insert 0 L)) \<le> Max (insert 0 L)" using that by (intro Max_ge) simp_all
    then show False by simp
  qed
  then show ?thesis by (auto simp: malloc_ok_def demo_malloc_def)
qed

theorem tree_is_set_witness:
  "map_option snd (calls (tree_call (\<lambda>x y. x - y :: int) (demo_malloc 5)) 0 empty_mem
      [Insert 5, Insert 3, Delete 3, Insert 4, Find 4, Insert 4, Delete 5, Find 5, Delete 7]) =
    Some [Inl (Some 5), Inl (Some 3), Inr True, Inl (Some 4), Inl (Some 4), Inl (Some 4), Inr True, Inl None, Inr False] \<and>
   map_option snd (calls (tree_call (\<lambda>x y. x - y :: int) (demo_malloc 1)) 0 empty_mem [Insert 5, Insert 3]) = None"
proof
  show "map_option snd (calls (tree_call (\<lambda>x y. x - y :: int) (demo_malloc 5)) 0 empty_mem
      [Insert 5, Insert 3, Delete 3, Insert 4, Find 4, Insert 4, Delete 5, Find 5, Delete 7]) =
    Some [Inl (Some 5), Inl (Some 3), Inr True, Inl (Some 4), Inl (Some 4), Inl (Some 4), Inr True, Inl None, Inr False]"
    by (subst tree_is_set [OF int_comparator demo_malloc_ok]) (simp_all add: key_call_def)
  show "map_option snd (calls (tree_call (\<lambda>x y. x - y :: int) (demo_malloc 1)) 0 empty_mem [Insert 5, Insert 3]) = None"
    by (subst tree_is_set [OF int_comparator demo_malloc_ok]) (simp_all add: key_call_def)
qed

text \<open>C7: After every sequence of calls the tree is sorted and balanced: \<open>twalk\<close> meets exactly the keys of the set, in increasing order,
  and a path from the root to a node, of level \<open>l\<close> and \<open>l + 1\<close> nodes, is no longer than twice the binary logarithm of the number of
  nodes and one. As before, \<open>malloc\<close> may return freed addresses again, and the tree has fewer than \<open>2 ^ 20\<close> nodes at any time.\<close>

theorem tree_sorted_balanced:
  assumes "comparator cmp" "malloc_ok mal fails" "peak (key_call cmp fails) 0 [] cs < 2 ^ 20"
    and "calls (tree_call cmp mal) 0 empty_mem cs = Some (t, rs)"
  shows "\<exists>evs ks K. twalk t (rootv t) True = Some evs \<and> calls (key_call cmp fails) 0 [] cs = Some (K, rs) \<and>
    map (seen t) (walked evs) = map Some ks \<and> mset ks = mset K \<and> sorted_wrt (\<lambda>x y. cmp x y < 0) ks \<and>
    (\<forall>(a, v, l) \<in> set evs. 2 ^ nat (l + 1) \<le> (length ks + 1)\<^sup>2)"
proof -
  obtain K where K: "calls (key_call cmp fails) 0 [] cs = Some (K, rs)" "represents cmp t K"
    using calls_spec [OF assms(1,2) empty_tree assms(3)] assms(4) by (auto split: option.splits)
  obtain xs where xs: "tree_inv cmp t xs" "mset K = mset (map snd xs)" using K(2) by (auto simp: represents_def)
  obtain T n where T: "trep t T" "rb T n" "ino T = xs" "sorted_wrt (key_less cmp) xs" using xs(1) by (auto simp: tree_inv_def)
  have tr: "tree_in (nodes t) T" "rootv t = addr T" using T(1) by (simp_all add: trep_def zrep_def)
  obtain evs where e: "twalk t (rootv t) True = Some evs" "walked evs = map fst xs" "\<forall>(a, v, l) \<in> set evs. 0 \<le> l \<and> l < int (height T)"
  proof (cases "T = Tip")
    case True
    then show ?thesis using that [of "[]"] tr T(3) by (simp add: twalk_def)
  next
    case False
    obtain evs where "trecurse t (addr T) 0 = Some evs" "walked evs = map fst (ino T)"
        "\<forall>(a, v, l) \<in> set evs. 0 \<le> l \<and> l < 0 + int (height T)"
      using trecurse_spec [OF tr(1) False, of 0] by (elim exE conjE) (rule that)
    then show ?thesis using that [of evs] tree_in_addr [OF tr(1)] False tr(2) T(3) by (simp add: twalk_def)
  qed
  have "map (seen t) (walked evs) = map Some (map snd xs)" using inv_node [OF xs(1)] e(2) by (force simp: seen_def)
  moreover have "sorted_wrt (\<lambda>x y. cmp x y < 0) (map snd xs)" using T(4) by (simp add: sorted_wrt_map key_less_def [abs_def])
  moreover have "2 ^ nat (l + 1) \<le> (length (map snd xs) + 1)\<^sup>2" if "(a, v, l) \<in> set evs" for a v l
  proof -
    have "nat (l + 1) \<le> height T" using e(3) that by auto
    then have "(2 :: nat) ^ nat (l + 1) \<le> 2 ^ height T" by (intro power_increasing) auto
    also have "\<dots> \<le> (length (map snd xs) + 1)\<^sup>2" using rb_height_size [OF T(2)] T(3) by simp
    finally show ?thesis .
  qed
  ultimately show ?thesis using e(1) K(1) xs(2) by (intro exI [of _ evs] exI [of _ "map snd xs"] exI [of _ K] conjI) auto
qed

theorem tree_sorted_balanced_witness:
  "\<exists>t rs evs. calls (tree_call (\<lambda>x y. x - y :: int) (demo_malloc 9)) 0 empty_mem [Insert 5, Insert 3, Delete 5, Insert 4] = Some (t, rs) \<and>
    twalk t (rootv t) True = Some evs"
proof -
  let ?cs = "[Insert 5, Insert 3, Delete 5, Insert 4] :: int call list"
  have p: "peak (key_call (\<lambda>x y. x - y :: int) (\<lambda>i. i = 9)) 0 [] ?cs < 2 ^ 20" by (simp add: key_call_def)
  obtain t rs where t: "calls (tree_call (\<lambda>x y. x - y :: int) (demo_malloc 9)) 0 empty_mem ?cs = Some (t, rs)"
    using calls_spec [OF int_comparator demo_malloc_ok empty_tree p] by (auto simp: key_call_def)
  from tree_sorted_balanced [OF int_comparator demo_malloc_ok p t] show ?thesis using t by blast
qed

end
