(* ===== verification/Localtime.thy ===== *)
theory Localtime
  imports CMem
begin

text \<open>
  Broken-down time (\<open>tz/localtime.c\<close>): from a count of seconds to \<open>struct tm\<close> and back.

  C integers are HOL integers; \<open>i32\<close> checks a value that is stored in a variable of 32 bits (\<open>int\<close>,
  \<open>int_fast32_t\<close>, \<open>time_t\<close>), and yields \<open>None\<close> where the addition or subtraction would overflow. Division and
  remainder truncate towards zero, as in C. Where a function can return a null pointer or \<open>WRONG\<close>, its result is
  an option inside the option. The pointer \<open>tm_zone\<close> and the global \<open>tzname\<close> are left out.
\<close>

section \<open>Integers\<close>

definition i32 :: "int \<Rightarrow> int option" where
  "i32 x = (if - (2 ^ 31) \<le> x \<and> x < 2 ^ 31 then Some x else None)"

abbreviation (input) INT_MIN :: int where "INT_MIN \<equiv> - 2147483648"
abbreviation (input) INT_MAX :: int where "INT_MAX \<equiv> 2147483647"
abbreviation (input) TIME_T_MIN :: int where "TIME_T_MIN \<equiv> - 2147483648"
abbreviation (input) TIME_T_MAX :: int where "TIME_T_MAX \<equiv> 2147483647"

definition cdiv :: "int \<Rightarrow> int \<Rightarrow> int" where
  "cdiv a b = (if a < 0 then - ((- a) div b) else a div b)"

definition cmod :: "int \<Rightarrow> int \<Rightarrow> int" where
  "cmod a b = a - cdiv a b * b"

text \<open>Conversion to a type of 32 bits.\<close>

definition to_time_t :: "int \<Rightarrow> int" where
  "to_time_t x = (x + 2 ^ 31) mod 2 ^ 32 - 2 ^ 31"

section \<open>Data\<close>

abbreviation (input) SECSPERMIN :: int where "SECSPERMIN \<equiv> 60"
abbreviation (input) MINSPERHOUR :: int where "MINSPERHOUR \<equiv> 60"
abbreviation (input) HOURSPERDAY :: int where "HOURSPERDAY \<equiv> 24"
abbreviation (input) DAYSPERWEEK :: int where "DAYSPERWEEK \<equiv> 7"
abbreviation (input) DAYSPERNYEAR :: int where "DAYSPERNYEAR \<equiv> 365"
abbreviation (input) DAYSPERLYEAR :: int where "DAYSPERLYEAR \<equiv> 366"
abbreviation (input) SECSPERHOUR :: int where "SECSPERHOUR \<equiv> 3600"
abbreviation (input) SECSPERDAY :: int where "SECSPERDAY \<equiv> 86400"
abbreviation (input) MONSPERYEAR :: int where "MONSPERYEAR \<equiv> 12"
abbreviation (input) TM_YEAR_BASE :: int where "TM_YEAR_BASE \<equiv> 1900"
abbreviation (input) TM_WDAY_BASE :: int where "TM_WDAY_BASE \<equiv> 1"
abbreviation (input) EPOCH_YEAR :: int where "EPOCH_YEAR \<equiv> 1970"
abbreviation (input) YEARSPERREPEAT :: int where "YEARSPERREPEAT \<equiv> 400"
abbreviation (input) DAYSPERREPEAT :: int where "DAYSPERREPEAT \<equiv> 146097"
abbreviation (input) SECSPERREPEAT :: int where "SECSPERREPEAT \<equiv> 12622780800"
abbreviation (input) AVGSECSPERYEAR :: int where "AVGSECSPERYEAR \<equiv> 31556952"

record tm =
  tm_sec :: int
  tm_min :: int
  tm_hour :: int
  tm_mday :: int
  tm_mon :: int
  tm_year :: int
  tm_wday :: int
  tm_yday :: int
  tm_isdst :: int
  tm_gmtoff :: int

record ttinfo =
  tt_utoff :: int
  tt_isdst :: int
  tt_desigidx :: nat
  tt_ttisstd :: int
  tt_ttisut :: int

record lsinfo =
  ls_trans :: int
  ls_corr :: int

text \<open>The lengths of \<open>ats\<close>, \<open>ttis\<close> and \<open>lsis\<close> are \<open>timecnt\<close>, \<open>typecnt\<close> and \<open>leapcnt\<close>.\<close>

record tzstate =
  goback :: bool
  goahead :: bool
  ats :: "int list"
  types :: "nat list"
  ttis :: "ttinfo list"
  chars :: "byte list"
  lsis :: "lsinfo list"
  defaulttype :: nat

definition init_ttinfo :: "int \<Rightarrow> int \<Rightarrow> nat \<Rightarrow> ttinfo" where
  "init_ttinfo utoff isdst desigidx =
    \<lparr>tt_utoff = utoff, tt_isdst = isdst, tt_desigidx = desigidx, tt_ttisstd = 0, tt_ttisut = 0\<rparr>"

text \<open>The abbreviation is \<open>-00\<close>.\<close>

definition ttunspecified :: "tzstate \<Rightarrow> ttinfo \<Rightarrow> bool" where
  "ttunspecified sp ti \<longleftrightarrow> take 4 (drop (tt_desigidx ti) (chars sp)) = [45, 48, 48, 0]"

section \<open>The calendar\<close>

definition isleap :: "int \<Rightarrow> bool" where
  "isleap y \<longleftrightarrow> cmod y 4 = 0 \<and> (cmod y 100 \<noteq> 0 \<or> cmod y 400 = 0)"

definition mon_lengths :: "bool \<Rightarrow> int list" where
  "mon_lengths leap =
    (if leap then [31, 29, 31, 30, 31, 30, 31, 31, 30, 31, 30, 31] else [31, 28, 31, 30, 31, 30, 31, 31, 30, 31, 30, 31])"

definition year_lengths :: "bool \<Rightarrow> int" where
  "year_lengths leap = (if leap then DAYSPERLYEAR else DAYSPERNYEAR)"

definition leaps_thru_end_of_nonneg :: "int \<Rightarrow> int" where
  "leaps_thru_end_of_nonneg y = cdiv y 4 - cdiv y 100 + cdiv y 400"

definition leaps_thru_end_of :: "int \<Rightarrow> int" where
  "leaps_thru_end_of y = (if y < 0 then - 1 - leaps_thru_end_of_nonneg (- 1 - y) else leaps_thru_end_of_nonneg y)"

section \<open>From seconds to broken-down time\<close>

text \<open>The correction in force at \<open>t\<close>, and \<open>secs_since_posleap\<close>.\<close>

fun leap_scan :: "lsinfo list \<Rightarrow> int \<Rightarrow> nat \<Rightarrow> int \<times> int" where
  "leap_scan ls t 0 = (0, SECSPERMIN)"
| "leap_scan ls t (Suc i) =
    (let lp = ls ! i in
     if t \<ge> ls_trans lp then
       (ls_corr lp, if (if i = 0 then 0 else ls_corr (ls ! (i - 1))) < ls_corr lp then t - ls_trans lp else SECSPERMIN)
     else leap_scan ls t i)"

partial_function (option) year_loop :: "int \<Rightarrow> int \<Rightarrow> (int \<times> int) option" where
  "year_loop y idays =
    (if year_lengths (isleap y) \<le> idays then
       do { tdelta \<leftarrow> i32 (cdiv idays DAYSPERLYEAR);
            ydelta \<leftarrow> i32 (tdelta + (if tdelta = 0 then 1 else 0));
            newy \<leftarrow> i32 (y + ydelta);
            leapdays \<leftarrow> i32 (leaps_thru_end_of (newy - 1) - leaps_thru_end_of (y - 1));
            idays \<leftarrow> i32 (idays - ydelta * DAYSPERNYEAR);
            idays \<leftarrow> i32 (idays - leapdays);
            year_loop newy idays }
     else Some (y, idays))"

partial_function (option) month_loop :: "int list \<Rightarrow> nat \<Rightarrow> int \<Rightarrow> (nat \<times> int) option" where
  "month_loop ip mon idays =
    do { n \<leftarrow> get ip mon;
         if idays \<ge> n then month_loop ip (mon + 1) (idays - n) else Some (mon, idays) }"

text \<open>\<open>timesub\<close> without the leap seconds of the zone: the correction and \<open>secs_since_posleap\<close> are arguments.\<close>

definition broken_down :: "int \<Rightarrow> int \<Rightarrow> int \<Rightarrow> int \<Rightarrow> tm option option" where
  "broken_down t offset corr secs_since_posleap =
    do { tdays \<leftarrow> i32 (cdiv t SECSPERDAY);
         rem \<leftarrow> i32 (t - tdays * SECSPERDAY);
         rem \<leftarrow> i32 (rem + (cmod offset SECSPERDAY - cmod corr SECSPERDAY + 3 * SECSPERDAY));
         dayoff \<leftarrow> i32 (cdiv offset SECSPERDAY - cdiv corr SECSPERDAY + cdiv rem SECSPERDAY - 3);
         let rem = cmod rem SECSPERDAY; dayrem = cmod tdays DAYSPERREPEAT in
         do { dayrem \<leftarrow> i32 (dayrem + cmod dayoff DAYSPERREPEAT);
              y \<leftarrow> i32 (EPOCH_YEAR - YEARSPERREPEAT +
                (1 + cdiv dayoff DAYSPERREPEAT + cdiv dayrem DAYSPERREPEAT - (if cmod dayrem DAYSPERREPEAT < 0 then 1 else 0) +
                 cdiv tdays DAYSPERREPEAT) * YEARSPERREPEAT);
              let idays = cmod tdays DAYSPERREPEAT in
              do { idays \<leftarrow> i32 (idays + (cmod dayoff DAYSPERREPEAT + 2 * DAYSPERREPEAT));
                   (y, idays) \<leftarrow> year_loop y (cmod idays DAYSPERREPEAT);
                   case i32 (y - TM_YEAR_BASE) of
                     None \<Rightarrow> Some None
                   | Some year \<Rightarrow>
                       do { wday \<leftarrow> i32 (TM_WDAY_BASE + cmod year DAYSPERWEEK * cmod DAYSPERNYEAR DAYSPERWEEK +
                              leaps_thru_end_of (y - 1) - leaps_thru_end_of (TM_YEAR_BASE - 1) + idays);
                            let wday = cmod wday DAYSPERWEEK;
                                wday = (if wday < 0 then wday + DAYSPERWEEK else wday);
                                hour = cdiv rem SECSPERHOUR;
                                rem = cmod rem SECSPERHOUR;
                                minute = cdiv rem SECSPERMIN;
                                sec = cmod rem SECSPERMIN;
                                sec = sec + (if secs_since_posleap \<le> sec then 1 else 0) in
                            do { (mon, mday) \<leftarrow> month_loop (mon_lengths (isleap y)) 0 idays;
                                 Some (Some \<lparr>tm_sec = sec, tm_min = minute, tm_hour = hour, tm_mday = mday + 1, tm_mon = int mon,
                                   tm_year = year, tm_wday = wday, tm_yday = idays, tm_isdst = 0, tm_gmtoff = offset\<rparr>) } } } } }"

definition timesub :: "int \<Rightarrow> int \<Rightarrow> tzstate option \<Rightarrow> tm option option" where
  "timesub t offset sp =
    (case leap_scan (case sp of None \<Rightarrow> [] | Some sp \<Rightarrow> lsis sp) t (case sp of None \<Rightarrow> 0 | Some sp \<Rightarrow> length (lsis sp)) of
       (corr, secs_since_posleap) \<Rightarrow> broken_down t offset corr secs_since_posleap)"

text \<open>\<open>gmtptr\<close> is the state that \<open>gmtcheck\<close> has set up.\<close>

definition gmtsub :: "tzstate option \<Rightarrow> tzstate option \<Rightarrow> int \<Rightarrow> int \<Rightarrow> tm option option" where
  "gmtsub gmtptr sp t offset = timesub t offset gmtptr"

definition gmtime_r :: "tzstate option \<Rightarrow> int \<Rightarrow> tm option option" where
  "gmtime_r gmtptr t = gmtsub gmtptr gmtptr t 0"

definition offtime :: "tzstate option \<Rightarrow> int \<Rightarrow> int \<Rightarrow> tm option option" where
  "offtime gmtptr t offset = gmtsub gmtptr gmtptr t offset"

text \<open>The search for the last transition that is not after \<open>t\<close>.\<close>

function trans_search :: "int list \<Rightarrow> int \<Rightarrow> nat \<Rightarrow> nat \<Rightarrow> nat" where
  "trans_search tab t lo hi =
    (if lo < hi then
       (let mid = (lo + hi) div 2 in
        if t < tab ! mid then trans_search tab t lo mid else trans_search tab t (mid + 1) hi)
     else lo)"
  by pat_completeness auto
termination by (relation "measure (\<lambda>(_, _, lo, hi). hi - lo)") auto

declare trans_search.simps [simp del]

partial_function (option) localsub :: "tzstate option \<Rightarrow> tzstate option \<Rightarrow> int \<Rightarrow> tm option option" where
  "localsub gmtptr sp t =
    (case sp of None \<Rightarrow> gmtsub gmtptr gmtptr t 0
     | Some s \<Rightarrow>
         if goback s \<and> t < ats s ! 0 \<or> goahead s \<and> t > last (ats s) then
           do { seconds \<leftarrow> i32 (if t < ats s ! 0 then ats s ! 0 - t else t - last (ats s));
                seconds \<leftarrow> i32 (seconds - 1);
                let years = cdiv seconds SECSPERREPEAT * YEARSPERREPEAT; seconds = to_time_t (years * AVGSECSPERYEAR);
                    years = years + YEARSPERREPEAT;
                    newt = to_time_t (if t < ats s ! 0 then t + seconds + SECSPERREPEAT else t - seconds - SECSPERREPEAT) in
                if newt < ats s ! 0 \<or> newt > last (ats s) then Some None
                else do { r \<leftarrow> localsub gmtptr sp newt;
                          Some (case r of None \<Rightarrow> None
                            | Some tmp \<Rightarrow>
                                (case i32 (if t < ats s ! 0 then tm_year tmp - years else tm_year tmp + years) of
                                   None \<Rightarrow> None | Some y \<Rightarrow> Some (tmp\<lparr>tm_year := y\<rparr>))) } }
         else do { i \<leftarrow> (if ats s = [] \<or> t < ats s ! 0 then Some (defaulttype s)
                         else get (types s) (trans_search (ats s) t 1 (length (ats s)) - 1));
                   ttisp \<leftarrow> get (ttis s) i;
                   r \<leftarrow> timesub t (tt_utoff ttisp) sp;
                   Some (map_option (\<lambda>tmp. tmp\<lparr>tm_isdst := tt_isdst ttisp\<rparr>) r) })"

end
