(* ===== verification/Calendar.thy ===== *)
theory Calendar
  imports Localtime
begin

text \<open>
  The Gregorian calendar, counted from the epoch: leap years, the first day of a year and of a month, the seconds of
  a broken-down time, and the order of valid broken-down times.
\<close>

section \<open>C division\<close>

lemma cmod_eq: "cmod a b = (if a < 0 then - ((- a) mod b) else a mod b)"
  by (simp add: cmod_def cdiv_def flip: minus_div_mult_eq_mod)

lemma cdiv_cmod: "a = cdiv a b * b + cmod a b"
  by (simp add: cmod_def)

lemma cmod_bounds: "0 < b \<Longrightarrow> - b < cmod a b \<and> cmod a b < b" "0 \<le> a \<Longrightarrow> 0 < b \<Longrightarrow> 0 \<le> cmod a b"
proof -
  show "- b < cmod a b \<and> cmod a b < b" if "0 < b"
  proof -
    have "0 \<le> a mod b" "a mod b < b" "0 \<le> (- a) mod b" "(- a) mod b < b" using that by simp_all
    then show ?thesis unfolding cmod_eq using that by (cases "a < 0"; simp only: if_True if_False; intro conjI; linarith)
  qed
  show "0 \<le> a \<Longrightarrow> 0 < b \<Longrightarrow> 0 \<le> cmod a b" by (simp add: cmod_eq)
qed

lemma cmod_zero: "cmod a b = 0 \<longleftrightarrow> a mod b = 0"
  by (auto simp: cmod_eq mod_eq_0_iff_dvd)

lemma cdiv_pos: "0 \<le> a \<Longrightarrow> cdiv a b = a div b" "0 \<le> a \<Longrightarrow> cmod a b = a mod b"
  by (simp_all add: cdiv_def cmod_eq)

lemma i32_Some: "- (2 ^ 31) \<le> x \<Longrightarrow> x < 2 ^ 31 \<Longrightarrow> i32 x = Some x"
  by (simp add: i32_def)

section \<open>Years\<close>

lemma isleap_iff: "isleap y \<longleftrightarrow> 4 dvd y \<and> (\<not> 100 dvd y \<or> 400 dvd y)"
  by (simp add: isleap_def cmod_zero mod_eq_0_iff_dvd)

definition year_len :: "int \<Rightarrow> int" where "year_len y = year_lengths (isleap y)"

text \<open>The day, counted from the epoch, on which a year begins.\<close>

definition year_start :: "int \<Rightarrow> int" where
  "year_start y = 365 * (y - 1970) + ((y - 1) div 4 - (y - 1) div 100 + (y - 1) div 400) - 477"

lemma year_start_epoch: "year_start 1970 = 0"
  by (simp add: year_start_def)

lemma div_step:
  assumes "0 < (k :: int)"
  shows "y div k = (y - 1) div k + (if k dvd y then 1 else 0)"
proof -
  let ?q = "(y - 1) div k" and ?r = "(y - 1) mod k"
  have y: "y = ?q * k + (?r + 1)" using div_mult_mod_eq [of "y - 1" k] by linarith
  have r: "0 \<le> ?r" "?r < k" using assms by simp_all
  show ?thesis
  proof (cases "?r + 1 = k")
    case True
    then have "y = (?q + 1) * k" using y by (simp add: algebra_simps)
    then show ?thesis using assms by (metis dvd_triv_right nonzero_mult_div_cancel_right less_irrefl)
  next
    case False
    then have "0 \<le> ?r + 1" "?r + 1 < k" using r by linarith+
    moreover have "y = k * ?q + (?r + 1)" using y by (simp add: mult.commute)
    ultimately have "y div k = ?q" "y mod k = ?r + 1" by (metis int_div_pos_eq, metis int_mod_pos_eq)
    then show ?thesis using r by (auto simp: dvd_eq_mod_eq_0)
  qed
qed

lemma year_start_Suc: "year_start (y + 1) = year_start y + year_len y"
proof -
  have d: "400 dvd y \<Longrightarrow> 100 dvd y" "100 dvd y \<Longrightarrow> 4 dvd y" using dvd_trans [of 100 400 y] dvd_trans [of 4 100 y] by simp_all
  have "year_len y = 365 + (if 4 dvd y then 1 else 0) - (if 100 dvd y then 1 else 0) + (if 400 dvd y then 1 else 0)"
    unfolding year_len_def year_lengths_def isleap_iff using d
    by (cases "400 dvd y"; cases "100 dvd y"; cases "4 dvd y"; simp only: simp_thms if_True if_False)
  moreover have "y div 4 = (y - 1) div 4 + (if 4 dvd y then 1 else 0)" "y div 100 = (y - 1) div 100 + (if 100 dvd y then 1 else 0)"
    "y div 400 = (y - 1) div 400 + (if 400 dvd y then 1 else 0)"
    by (rule div_step, simp)+
  ultimately show ?thesis unfolding year_start_def add_diff_cancel_right' by (simp only:) (simp add: algebra_simps)
qed

lemma year_start_repeat: "year_start (y + 400 * k) = year_start y + 146097 * k"
proof -
  have d: "(a + b * c) div c = a div c + b" if "c \<noteq> 0" for a b c :: int using that by simp
  have "y + 400 * k - 1 = (y - 1) + (100 * k) * 4" "y + 400 * k - 1 = (y - 1) + (4 * k) * 100" "y + 400 * k - 1 = (y - 1) + k * 400" by linarith+
  then have "(y + 400 * k - 1) div 4 = (y - 1) div 4 + 100 * k" "(y + 400 * k - 1) div 100 = (y - 1) div 100 + 4 * k"
    "(y + 400 * k - 1) div 400 = (y - 1) div 400 + k"
    using d [of 4 "y - 1" "100 * k"] d [of 100 "y - 1" "4 * k"] d [of 400 "y - 1" k] by (simp_all only:)
  then show ?thesis unfolding year_start_def by (simp only:) (simp add: algebra_simps)
qed

lemma div_floor_neg: "0 < (k :: int) \<Longrightarrow> y < 0 \<Longrightarrow> y div k = - 1 - (- 1 - y) div k"
proof -
  assume k: "0 < k"
  let ?q = "(- 1 - y) div k" and ?r = "(- 1 - y) mod k"
  have "- 1 - y = ?q * k + ?r" by simp
  then have "y = k * (- 1 - ?q) + (k - 1 - ?r)" by (simp add: algebra_simps)
  moreover have "0 \<le> k - 1 - ?r" "k - 1 - ?r < k" using k pos_mod_bound [of k "- 1 - y"] pos_mod_sign [of k "- 1 - y"] by linarith+
  ultimately show "y div k = - 1 - ?q" by (intro int_div_pos_eq)
qed

lemma leaps_floor: "leaps_thru_end_of y = y div 4 - y div 100 + y div 400"
proof (cases "y < 0")
  case True
  then show ?thesis
    using div_floor_neg [of 4 y] div_floor_neg [of 100 y] div_floor_neg [of 400 y]
    by (simp add: leaps_thru_end_of_def leaps_thru_end_of_nonneg_def cdiv_pos)
next
  case False
  then show ?thesis by (simp add: leaps_thru_end_of_def leaps_thru_end_of_nonneg_def cdiv_pos)
qed

lemma year_start_leaps: "year_start y = 365 * (y - 1970) + leaps_thru_end_of (y - 1) - leaps_thru_end_of 1969"
  by (simp add: year_start_def leaps_floor)

lemma year_len_bounds: "365 \<le> year_len y" "year_len y \<le> 366"
  by (simp_all add: year_len_def year_lengths_def)

lemma year_start_mono: "y < z \<Longrightarrow> year_start y + year_len y \<le> year_start z"
proof (induction z rule: int_gr_induct [of y])
  case base
  then show ?case by (simp add: year_start_Suc)
next
  case (step z)
  then show ?case using year_len_bounds(1) [of z] by (simp add: year_start_Suc)
qed

section \<open>Months\<close>

definition month_start :: "bool \<Rightarrow> int \<Rightarrow> int" where
  "month_start leap m = sum_list (take (nat m) (mon_lengths leap))"

lemma month_start_0 [simp]: "month_start leap 0 = 0"
  by (simp add: month_start_def)

lemma mon_lengths_length [simp]: "length (mon_lengths leap) = 12"
  by (simp add: mon_lengths_def)

lemma month_start_Suc: "0 \<le> m \<Longrightarrow> m < 12 \<Longrightarrow> month_start leap (m + 1) = month_start leap m + mon_lengths leap ! nat m"
  by (simp add: month_start_def nat_add_distrib take_Suc_conv_app_nth)

lemma month_start_12: "month_start leap 12 = year_lengths leap"
  by (simp add: month_start_def mon_lengths_def year_lengths_def)

lemma mon_lengths_bounds: "n < 12 \<Longrightarrow> 28 \<le> mon_lengths leap ! n \<and> mon_lengths leap ! n \<le> 31"
proof -
  assume "n < 12"
  then have "mon_lengths leap ! n \<in> set (mon_lengths leap)" by simp
  moreover have "\<forall>x \<in> set (mon_lengths leap). 28 \<le> x \<and> x \<le> 31" by (simp add: mon_lengths_def)
  ultimately show ?thesis by blast
qed

lemma month_start_mono: "m < k \<Longrightarrow> 0 \<le> m \<Longrightarrow> k \<le> 12 \<Longrightarrow> month_start leap m + mon_lengths leap ! nat m \<le> month_start leap k"
proof (induction k rule: int_gr_induct [of m])
  case base
  then show ?case by (simp add: month_start_Suc)
next
  case (step k)
  then show ?case using mon_lengths_bounds [of "nat k" leap] by (auto simp: month_start_Suc nat_less_iff)
qed

section \<open>Broken-down times\<close>

definition days_of :: "int \<Rightarrow> int \<Rightarrow> int \<Rightarrow> int" where
  "days_of y mon mday = year_start y + month_start (isleap y) mon + (mday - 1)"

text \<open>The seconds since the epoch, leap seconds not counted.\<close>

definition tm_value :: "tm \<Rightarrow> int" where
  "tm_value x = days_of (tm_year x + 1900) (tm_mon x) (tm_mday x) * 86400 + tm_hour x * 3600 + tm_min x * 60 + tm_sec x"

definition valid_date :: "int \<Rightarrow> int \<Rightarrow> int \<Rightarrow> bool" where
  "valid_date y mon mday \<longleftrightarrow> 0 \<le> mon \<and> mon < 12 \<and> 1 \<le> mday \<and> mday \<le> mon_lengths (isleap y) ! nat mon"

definition valid_tm :: "tm \<Rightarrow> bool" where
  "valid_tm x \<longleftrightarrow> valid_date (tm_year x + 1900) (tm_mon x) (tm_mday x) \<and> 0 \<le> tm_hour x \<and> tm_hour x < 24 \<and>
    0 \<le> tm_min x \<and> tm_min x < 60 \<and> 0 \<le> tm_sec x \<and> tm_sec x < 60"

lemma days_of_year: "valid_date y mon mday \<Longrightarrow> year_start y \<le> days_of y mon mday \<and> days_of y mon mday < year_start y + year_len y"
proof -
  assume v: "valid_date y mon mday"
  then have "0 \<le> month_start (isleap y) mon"
    using month_start_mono [of 0 mon "isleap y"] mon_lengths_bounds [of 0 "isleap y"] by (cases "mon = 0") (auto simp: valid_date_def)
  moreover have "month_start (isleap y) mon + mon_lengths (isleap y) ! nat mon \<le> year_len y"
    using v month_start_mono [of mon 12 "isleap y"] by (simp add: valid_date_def month_start_12 year_len_def)
  ultimately show ?thesis using v by (simp add: days_of_def valid_date_def)
qed

text \<open>Dates are ordered as their days are.\<close>

lemma days_of_less:
  assumes "valid_date y mon mday" "valid_date y' mon' mday'"
    "y < y' \<or> y = y' \<and> (mon < mon' \<or> mon = mon' \<and> mday < mday')"
  shows "days_of y mon mday < days_of y' mon' mday'"
  using assms(3)
proof (elim disjE conjE)
  assume "y < y'"
  then show ?thesis using year_start_mono [of y y'] days_of_year [OF assms(1)] days_of_year [OF assms(2)] by linarith
next
  assume y: "y = y'" "mon < mon'"
  then have "month_start (isleap y) mon + mon_lengths (isleap y) ! nat mon \<le> month_start (isleap y) mon'"
    using assms(1,2) by (intro month_start_mono) (simp_all add: valid_date_def)
  then show ?thesis using y assms(1,2) by (simp add: days_of_def valid_date_def)
next
  assume "y = y'" "mon = mon'" "mday < mday'"
  then show ?thesis by (simp add: days_of_def)
qed

lemma days_of_inject:
  assumes "valid_date y mon mday" "valid_date y' mon' mday'" "days_of y mon mday = days_of y' mon' mday'"
  shows "y = y' \<and> mon = mon' \<and> mday = mday'"
  using days_of_less [OF assms(1,2)] days_of_less [OF assms(2,1)] assms(3) by (metis linorder_neqE_linordered_idom less_irrefl)

end
