(* ===== verification/Timesub.thy ===== *)
theory Timesub
  imports Calendar
begin

text \<open>
  The loops of \<open>timesub\<close> and the broken-down time it computes: it is the date and the time of day of the corrected
  count of seconds, no intermediate value overflows and no loop runs forever.
\<close>

section \<open>The loops\<close>

lemma leaps_year_start: "leaps_thru_end_of (z - 1) - leaps_thru_end_of (y - 1) = year_start z - year_start y - 365 * (z - y)"
  unfolding year_start_leaps by (simp add: algebra_simps)

lemma year_start_span: "0 \<le> n \<Longrightarrow> 365 * n \<le> year_start (y + n) - year_start y \<and> year_start (y + n) - year_start y \<le> 366 * n"
proof (induction n rule: int_ge_induct [of 0])
  case (step n)
  have "year_start (y + (n + 1)) = year_start (y + n) + year_len (y + n)"
    using year_start_Suc [of "y + n"] by (simp add: add.assoc)
  then show ?case using step year_len_bounds [of "y + n"] by auto
qed simp

lemma year_loop_spec:
  assumes "0 \<le> idays" "idays < 200000" "\<bar>y\<bar> \<le> 1000000 - idays"
  shows "\<exists>y' i. year_loop y idays = Some (y', i) \<and> year_start y' + i = year_start y + idays \<and> 0 \<le> i \<and> i < year_len y' \<and> y \<le> y' \<and> y' \<le> y + idays"
  using assms
proof (induction "nat idays" arbitrary: y idays rule: less_induct)
  case less
  show ?case
  proof (cases "year_len y \<le> idays")
    case False
    then show ?thesis using less.prems by (subst year_loop.simps) (simp add: year_len_def)
  next
    case True
    define d where "d = idays div 366"
    define e where "e = (if d = 0 then 1 else d)"
    have d: "0 \<le> d" "366 * d \<le> idays" using less.prems by (simp_all add: d_def)
    have e: "1 \<le> e" "e = d + (if d = 0 then 1 else 0)" using d by (auto simp: e_def)
    have span: "365 * e \<le> year_start (y + e) - year_start y" "year_start (y + e) - year_start y \<le> idays"
    proof -
      show "365 * e \<le> year_start (y + e) - year_start y" using year_start_span [of e y] e(1) by simp
      show "year_start (y + e) - year_start y \<le> idays"
      proof (cases "d = 0")
        case True
        then show ?thesis using \<open>year_len y \<le> idays\<close> year_start_Suc [of y] by (simp add: e_def)
      next
        case False
        then show ?thesis using year_start_span [of e y] d by (simp add: e_def)
      qed
    qed
    let ?i = "idays - (year_start (y + e) - year_start y)"
    have c: "cdiv idays 366 = d" using less.prems by (simp add: cdiv_pos d_def)
    have l: "leaps_thru_end_of (y + e - 1) - leaps_thru_end_of (y - 1) = year_start (y + e) - year_start y - 365 * e"
      using leaps_year_start [of "y + e" y] by simp
    have "nat ?i < nat idays" using span e less.prems by linarith
    moreover have "0 \<le> ?i" "?i < 200000" "\<bar>y + e\<bar> \<le> 1000000 - ?i" using span e less.prems by linarith+
    ultimately obtain y' i where IH: "year_loop (y + e) ?i = Some (y', i)" "year_start y' + i = year_start (y + e) + ?i" "0 \<le> i" "i < year_len y'"
      "y + e \<le> y'" "y' \<le> y + e + ?i" using less.hyps [of ?i "y + e"] by blast
    have "year_loop y idays = year_loop (y + e) ?i"
    proof -
      have r: "i32 d = Some d" "i32 (d + (if d = 0 then 1 else 0)) = Some e" "i32 (y + e) = Some (y + e)"
        "i32 (year_start (y + e) - year_start y - 365 * e) = Some (year_start (y + e) - year_start y - 365 * e)"
        "i32 (idays - e * 365) = Some (idays - e * 365)" "i32 (idays - e * 365 - (year_start (y + e) - year_start y - 365 * e)) = Some ?i"
        using d e span less.prems by (auto simp: i32_def)
      show ?thesis
        by (subst year_loop.simps) (simp only: year_len_def [symmetric] True if_True c r l bind.bind_lunit)
    qed
    then show ?thesis using IH e span by (intro exI [of _ y'] exI [of _ i]) simp
  qed
qed

lemma month_loop_spec:
  assumes "0 \<le> m" "m < 12" "0 \<le> idays" "month_start leap m + idays < year_lengths leap"
  shows "\<exists>mon d. month_loop (mon_lengths leap) (nat m) idays = Some (mon, d) \<and> mon < 12 \<and>
    month_start leap (int mon) + d = month_start leap m + idays \<and> 0 \<le> d \<and> d < mon_lengths leap ! mon"
  using assms
proof (induction "nat (12 - m)" arbitrary: m idays rule: less_induct)
  case less
  let ?n = "mon_lengths leap ! nat m"
  have g: "get (mon_lengths leap) (nat m) = Some ?n" using less.prems by (simp add: get_def nat_less_iff)
  have s: "month_start leap (m + 1) = month_start leap m + ?n" using less.prems by (intro month_start_Suc)
  show ?case
  proof (cases "idays \<ge> ?n")
    case False
    then show ?thesis using less.prems g by (subst month_loop.simps) (simp add: nat_less_iff)
  next
    case True
    have "m + 1 \<noteq> 12"
    proof
      assume "m + 1 = 12"
      then have "month_start leap m + ?n = year_lengths leap" using s month_start_12 [of leap] by simp
      then show False using True less.prems by linarith
    qed
    then have "m + 1 < 12" using less.prems by linarith
    then obtain mon d where IH: "month_loop (mon_lengths leap) (nat (m + 1)) (idays - ?n) = Some (mon, d)" "mon < 12"
      "month_start leap (int mon) + d = month_start leap (m + 1) + (idays - ?n)" "0 \<le> d" "d < mon_lengths leap ! mon"
      using less.hyps [of "m + 1" "idays - ?n"] less.prems True s by fastforce
    have "month_loop (mon_lengths leap) (nat m) idays = month_loop (mon_lengths leap) (nat (m + 1)) (idays - ?n)"
      using g True less.prems by (subst month_loop.simps) (simp add: nat_add_distrib)
    then show ?thesis using IH s by simp
  qed
qed

section \<open>The broken-down time\<close>

definition day_of_week :: "int \<Rightarrow> int" where "day_of_week d = (d + 4) mod 7"

text \<open>The time of day and the date of \<open>n\<close> seconds; \<open>hit\<close> is the extra second of a leap second.\<close>

definition breaks_down :: "int \<Rightarrow> int \<Rightarrow> tm \<Rightarrow> bool" where
  "breaks_down n hit x \<longleftrightarrow> valid_tm (x\<lparr>tm_sec := tm_sec x - hit\<rparr>) \<and> tm_value (x\<lparr>tm_sec := tm_sec x - hit\<rparr>) = n \<and>
    tm_wday x = day_of_week (n div 86400) \<and> tm_yday x = n div 86400 - year_start (tm_year x + 1900)"

lemma cdiv_floor:
  assumes "0 < b"
  shows "cdiv a b - (if cmod a b < 0 then 1 else 0) = a div b"
proof (cases "cmod a b < 0")
  case True
  then have "a = (cdiv a b - 1) * b + (cmod a b + b)" "0 \<le> cmod a b + b" "cmod a b + b < b"
    using cdiv_cmod [of a b] cmod_bounds(1) [OF assms, of a] by (simp_all add: algebra_simps)
  then show ?thesis using True int_div_pos_eq [of a b "cdiv a b - 1" "cmod a b + b"] by (simp add: mult.commute)
next
  case False
  then have "a = b * cdiv a b + cmod a b" "0 \<le> cmod a b" "cmod a b < b"
    using cdiv_cmod [of a b] cmod_bounds(1) [OF assms, of a] by (simp_all add: mult.commute)
  then show ?thesis using False int_div_pos_eq [of a b "cdiv a b" "cmod a b"] by simp
qed

lemma i32_small: "\<bar>x\<bar> \<le> 2000000000 \<Longrightarrow> i32 x = Some x"
  by (rule i32_Some; simp; linarith)

text \<open>The day of the week that the code computes from the year and the day in the year.\<close>

lemma weekday:
  fixes y i :: int
  defines "w \<equiv> 1 + cmod (y - 1900) 7 * cmod 365 7 + leaps_thru_end_of (y - 1) - leaps_thru_end_of (1900 - 1) + i"
  shows "(if cmod w 7 < 0 then cmod w 7 + 7 else cmod w 7) = day_of_week (year_start y + i)"
    and "\<bar>y - 1970\<bar> \<le> 1000000 \<Longrightarrow> 0 \<le> i \<Longrightarrow> i \<le> 366 \<Longrightarrow> i32 w = Some w"
proof -
  have c: "(if cmod w 7 < 0 then cmod w 7 + 7 else cmod w 7) = w mod 7"
  proof -
    have "\<not> w mod 7 < 0" "w mod 7 < 7" by (simp_all add: not_less)
    then show ?thesis by (simp only: cmod_eq zmod_zminus1_eq_if) auto
  qed
  have "cmod 365 7 = 1" by (simp add: cmod_eq)
  moreover have "leaps_thru_end_of (1900 - 1) = 460" "leaps_thru_end_of 1969 = 477" by (simp_all add: leaps_floor)
  ultimately have w: "w = year_start y + i + (18 + cmod (y - 1900) 7 - 365 * (y - 1970))"
    unfolding w_def year_start_leaps by simp
  also have "cmod (y - 1900) 7 = (y - 1900) - cdiv (y - 1900) 7 * 7" by (simp add: cmod_def)
  finally have "w = (year_start y + i + 4) + (3652 - cdiv (y - 1900) 7 - 52 * (y - 1900)) * 7" by simp
  then have "w mod 7 = (year_start y + i + 4) mod 7" by (simp only: mod_mult_self1)
  then show "(if cmod w 7 < 0 then cmod w 7 + 7 else cmod w 7) = day_of_week (year_start y + i)"
    unfolding c day_of_week_def .
  show "i32 w = Some w" if y: "\<bar>y - 1970\<bar> \<le> 1000000" and i: "0 \<le> i" "i \<le> 366"
  proof -
    have yb: "- 1000000 \<le> y - 1970" "y - 1970 \<le> 1000000" using y by linarith+
    have "- 366000000 \<le> year_start y \<and> year_start y \<le> 366000000"
    proof (cases "y < 1970")
      case True
      then show ?thesis using year_start_span [of "1970 - y" y] yb by (simp add: year_start_epoch)
    next
      case False
      then show ?thesis using year_start_span [of "y - 1970" 1970] yb by (simp add: year_start_epoch)
    qed
    moreover have "- 7 < cmod (y - 1900) 7 \<and> cmod (y - 1900) 7 < 7" by (rule cmod_bounds(1)) simp
    moreover note yb
    ultimately show ?thesis unfolding w using i by (intro i32_Some; simp; linarith)
  qed
qed

text \<open>The time of day.\<close>

lemma time_of_day:
  assumes "0 \<le> R" "R < (86400 :: int)"
  shows "cdiv R 3600 = R div 3600" "cdiv (cmod R 3600) 60 = R mod 3600 div 60" "cmod (cmod R 3600) 60 = R mod 60"
    "R = (R div 3600) * 3600 + (R mod 3600 div 60) * 60 + R mod 60"
proof -
  have r: "0 \<le> R mod 3600" by simp
  have m: "R mod 3600 mod 60 = R mod 60" by (simp add: mod_mod_cancel)
  show "cdiv R 3600 = R div 3600" "cdiv (cmod R 3600) 60 = R mod 3600 div 60" "cmod (cmod R 3600) 60 = R mod 60"
    using assms r m by (simp_all add: cdiv_pos)
  show "R = (R div 3600) * 3600 + (R mod 3600 div 60) * 60 + R mod 60"
    using div_mult_mod_eq [of R 3600] div_mult_mod_eq [of "R mod 3600" 60] m by linarith
qed

lemma broken_down_spec:
  assumes t: "- (2 ^ 31) \<le> t" "t < 2 ^ 31" and off: "- (2 ^ 31) \<le> offset" "offset < 2 ^ 31" and corr: "- (2 ^ 31) \<le> corr" "corr < 2 ^ 31"
  shows "\<exists>x. broken_down t offset corr h = Some (Some x) \<and> breaks_down (t + offset - corr) (if h \<le> (t + offset - corr) mod 60 then 1 else 0) x \<and>
    tm_isdst x = 0 \<and> tm_gmtoff x = offset"
proof -
  define n where "n = t + offset - corr"
  define D where "D = n div 86400"
  define R where "R = n mod 86400"
  define q where "q = cmod t 86400 + (cmod offset 86400 - cmod corr 86400 + 3 * 86400)"
  have cb: "- 86400 < cmod x 86400 \<and> cmod x 86400 < 86400" for x by (rule cmod_bounds(1)) simp
  have q: "0 < q" "q < 6 * 86400" using cb [of t] cb [of offset] cb [of corr] by (simp_all add: q_def)
  define e where "e = cdiv t 86400 + (cdiv offset 86400 - cdiv corr 86400 + q div 86400 - 3)"
  define K where "K = cdiv t 86400 + cdiv offset 86400 - cdiv corr 86400 - 3"
  have n: "n = q + K * 86400"
    using cdiv_cmod [of t 86400] cdiv_cmod [of offset 86400] cdiv_cmod [of corr 86400] by (simp add: n_def q_def K_def)
  have DR: "D = e" "q mod 86400 = R"
    unfolding D_def R_def n by (simp add: e_def K_def, simp only: mod_mult_self1)
  have eb: "\<bar>cdiv x 86400\<bar> \<le> 24856" if "- (2 ^ 31) \<le> x" "x < 2 ^ 31" for x
    using that by (simp add: cdiv_def) linarith
  note ebs = eb [OF t] eb [OF off] eb [OF corr]
  define g where "g = cdiv offset 86400 - cdiv corr 86400 + q div 86400 - 3"
  have g: "\<bar>g\<bar> \<le> 50000" "D = cdiv t 86400 + g" using ebs q DR(1) by (simp_all add: g_def e_def)
  have "D = 146097 * (D div 146097) + D mod 146097" by simp
  define M where "M = cmod (cdiv t 86400) 146097 + cmod g 146097"
  have M: "\<bar>M\<bar> < 292194"
    using cmod_bounds(1) [of 146097 "cdiv t 86400"] cmod_bounds(1) [of 146097 g] unfolding M_def abs_less_iff by linarith
  have DM: "D = (cdiv (cdiv t 86400) 146097 + cdiv g 146097) * 146097 + M"
    using cdiv_cmod [of "cdiv t 86400" 146097] cdiv_cmod [of g 146097] g(2) by (simp add: M_def)
  have floor: "cdiv M 146097 - (if cmod M 146097 < 0 then 1 else 0) = M div 146097"
    by (rule cdiv_floor) simp
  define y0 where "y0 = 1970 + 400 * (D div 146097)"
  have y0: "1970 - 400 + (1 + cdiv g 146097 + cdiv M 146097 - (if cmod M 146097 < 0 then 1 else 0) + cdiv (cdiv t 86400) 146097) * 400 = y0"
  proof -
    have "D div 146097 = cdiv (cdiv t 86400) 146097 + cdiv g 146097 + M div 146097"
      by (subst DM, subst div_mult_self3) simp_all
    then show ?thesis unfolding y0_def floor [symmetric] by simp
  qed
  have i0: "cmod (cmod (cdiv t 86400) 146097 + (cmod g 146097 + 2 * 146097)) 146097 = D mod 146097"
  proof -
    have "cmod (M + 2 * 146097) 146097 = (M + 2 * 146097) mod 146097" using M by (simp add: cdiv_pos)
    also have "\<dots> = M mod 146097" by (simp only: mod_mult_self1)
    also have "\<dots> = D mod 146097" unfolding DM by (simp only: add.commute mod_mult_self1)
    finally show ?thesis by (simp add: M_def add.assoc)
  qed
  have Dr: "0 \<le> D mod 146097" "D mod 146097 < 146097" by simp_all
  have yb: "\<bar>y0\<bar> \<le> 2500" using g eb [OF t] Dr \<open>D = 146097 * (D div 146097) + D mod 146097\<close> by (simp add: y0_def)
  have "year_start y0 + D mod 146097 = D"
    using year_start_repeat [of 1970 "D div 146097"] by (simp add: y0_def year_start_epoch)
  then obtain y i where loop: "year_loop y0 (D mod 146097) = Some (y, i)" "year_start y + i = D" "0 \<le> i" "i < year_len y" "y0 \<le> y" "y \<le> y0 + D mod 146097"
    using year_loop_spec [of "D mod 146097" y0] Dr yb by auto
  obtain mon d where mon: "month_loop (mon_lengths (isleap y)) 0 i = Some (mon, d)" "mon < 12"
    "month_start (isleap y) (int mon) + d = i" "0 \<le> d" "d < mon_lengths (isleap y) ! mon"
    using month_loop_spec [of 0 i "isleap y"] loop by (auto simp: year_len_def)
  have R: "0 \<le> R" "R < 86400" by (simp_all add: R_def)
  note tod = time_of_day [OF R]
  define hit where "hit = (if h \<le> R mod 60 then 1 else 0 :: int)"
  define x where "x = \<lparr>tm_sec = R mod 60 + hit, tm_min = R mod 3600 div 60, tm_hour = R div 3600, tm_mday = d + 1, tm_mon = int mon,
    tm_year = y - 1900, tm_wday = day_of_week D, tm_yday = i, tm_isdst = 0, tm_gmtoff = offset\<rparr>"
  have ylen: "i \<le> 366" using loop(4) year_len_bounds(2) [of y] by linarith
  have yr: "\<bar>y - 1970\<bar> \<le> 1000000" using yb loop(5,6) Dr by linarith
  have "broken_down t offset corr h = Some (Some x)"
  proof -
    have e: "t - cdiv t 86400 * 86400 = cmod t 86400" "cmod t 86400 + (cmod offset 86400 - cmod corr 86400 + 3 * 86400) = q"
      "cdiv offset 86400 - cdiv corr 86400 + cdiv q 86400 - 3 = g" "cmod (cdiv t 86400) 146097 + cmod g 146097 = M"
      using q by (simp_all only: cmod_def [symmetric] q_def [symmetric] M_def cdiv_pos less_imp_le g_def)
    have i: "i32 (cdiv t 86400) = Some (cdiv t 86400)" "i32 (cmod t 86400) = Some (cmod t 86400)" "i32 q = Some q" "i32 g = Some g" "i32 M = Some M"
      "i32 y0 = Some y0" "i32 (y - 1900) = Some (y - 1900)"
      by (rule i32_small, use ebs cb [of t] q g M yb yr in linarith)+
    have i2: "i32 (cmod (cdiv t 86400) 146097 + (cmod g 146097 + 2 * 146097)) = Some (cmod (cdiv t 86400) 146097 + (cmod g 146097 + 2 * 146097))"
      by (rule i32_small) (use M in \<open>unfold M_def, linarith\<close>)
    have cq: "cmod q 86400 = R" using q DR(2) by (simp add: cdiv_pos)
    have w: "i32 (1 + cmod (y - 1900) 7 * cmod 365 7 + leaps_thru_end_of (y - 1) - leaps_thru_end_of (1900 - 1) + i) =
        Some (1 + cmod (y - 1900) 7 * cmod 365 7 + leaps_thru_end_of (y - 1) - leaps_thru_end_of (1900 - 1) + i)"
      using weekday(2) [OF yr loop(3) ylen] .
    show ?thesis
      unfolding broken_down_def Let_def
      by (simp only: e i i2 y0 i0 cq w loop(1) weekday(1) mon(1) tod(1-3) bind.bind_lunit prod.case option.case x_def hit_def loop(2))
  qed
  moreover have "breaks_down n hit x"
  proof -
    define x' where "x' = x\<lparr>tm_sec := R mod 60\<rparr>"
    have sel: "tm_year x' + 1900 = y" "tm_mon x' = int mon" "tm_mday x' = d + 1" "tm_hour x' = R div 3600" "tm_min x' = R mod 3600 div 60"
      "tm_sec x' = R mod 60" by (simp_all add: x'_def x_def)
    have x': "x\<lparr>tm_sec := tm_sec x - hit\<rparr> = x'" by (simp add: x_def x'_def)
    have days: "days_of y (int mon) (d + 1) = D" using mon(3) loop(2) by (simp add: days_of_def)
    have "valid_date y (int mon) (d + 1)" using mon(2,4,5) by (simp add: valid_date_def)
    moreover have "0 \<le> R div 3600" "R div 3600 < 24" "0 \<le> R mod 3600 div 60" "R mod 3600 div 60 < 60"
      using R by (simp_all add: div_less_iff_less_mult pos_imp_zdiv_nonneg_iff)
    ultimately have "valid_tm x'" unfolding valid_tm_def sel by simp
    moreover have "tm_value x' = n"
    proof -
      have "tm_value x' = D * 86400 + (R div 3600 * 3600 + R mod 3600 div 60 * 60 + R mod 60)"
        unfolding tm_value_def sel days by (simp only: add.assoc)
      also have "\<dots> = D * 86400 + R" by (simp only: tod(4) [symmetric])
      also have "\<dots> = n" by (simp add: D_def R_def)
      finally show ?thesis .
    qed
    moreover have "tm_wday x = day_of_week (n div 86400)" "tm_yday x = n div 86400 - year_start (tm_year x + 1900)"
      using loop(2) by (simp_all add: x_def D_def)
    ultimately show ?thesis unfolding breaks_down_def x' by blast
  qed
  moreover have "R mod 60 = n mod 60" by (simp add: R_def mod_mod_cancel)
  ultimately show ?thesis by (intro exI [of _ x]) (simp add: hit_def n_def x_def)
qed

end
