(* ===== verification/Mktime.thy ===== *)
theory Mktime
  imports Timesub
begin

text \<open>
  From broken-down time to seconds (\<open>tz/localtime.c\<close>): \<open>mktime\<close> and \<open>timegm\<close> with the functions they are made of, and
  the conversions between counts with and without leap seconds.

  A function that can return \<open>WRONG\<close> without a broken-down time has the result \<open>Some None\<close>; \<open>None\<close> is an overflow
  or a loop that does not end, as in \<open>Localtime\<close>. The conversion that is inverted (\<open>funcp\<close> applied to the zone and
  the offset) is an argument \<open>f\<close>.
\<close>

section \<open>Normalising the fields\<close>

text \<open>\<open>None\<close> is a sum that does not fit; the code then gives up.\<close>

definition increment_overflow :: "int \<Rightarrow> int \<Rightarrow> int option" where
  "increment_overflow i j = (if (if i \<ge> 0 then j > INT_MAX - i else j < INT_MIN - i) then None else Some (i + j))"

definition increment_overflow32 :: "int \<Rightarrow> int \<Rightarrow> int option" where
  "increment_overflow32 l m = (if (if l \<ge> 0 then m > INT_MAX - l else m < INT_MIN - l) then None else Some (l + m))"

definition increment_overflow_time :: "int \<Rightarrow> int \<Rightarrow> int option" where
  "increment_overflow_time t j = (if (if j < 0 then TIME_T_MIN - j \<le> t else t \<le> TIME_T_MAX - j) then Some (t + j) else None)"

definition normalize_overflow :: "int \<Rightarrow> int \<Rightarrow> int \<Rightarrow> (int \<times> int) option" where
  "normalize_overflow tens units base =
    (let tensdelta = (if units \<ge> 0 then cdiv units base else - 1 - cdiv (- 1 - units) base)
     in do { tens \<leftarrow> increment_overflow tens tensdelta; Some (tens, units - tensdelta * base) })"

definition normalize_overflow32 :: "int \<Rightarrow> int \<Rightarrow> int \<Rightarrow> (int \<times> int) option" where
  "normalize_overflow32 tens units base =
    (let tensdelta = (if units \<ge> 0 then cdiv units base else - 1 - cdiv (- 1 - units) base)
     in do { tens \<leftarrow> increment_overflow32 tens tensdelta; Some (tens, units - tensdelta * base) })"

definition tmcomp :: "tm \<Rightarrow> tm \<Rightarrow> int" where
  "tmcomp a b =
    (if tm_year a \<noteq> tm_year b then (if tm_year a < tm_year b then - 1 else 1)
     else if tm_mon a - tm_mon b \<noteq> 0 then tm_mon a - tm_mon b
     else if tm_mday a - tm_mday b \<noteq> 0 then tm_mday a - tm_mday b
     else if tm_hour a - tm_hour b \<noteq> 0 then tm_hour a - tm_hour b
     else if tm_min a - tm_min b \<noteq> 0 then tm_min a - tm_min b
     else tm_sec a - tm_sec b)"

text \<open>The three loops over the day of the month. The year and the day (and the month) or \<open>Some None\<close>.\<close>

partial_function (option) mday_up :: "int \<Rightarrow> int \<Rightarrow> int \<Rightarrow> (int \<times> int) option option" where
  "mday_up y mday mon =
    (if mday \<le> 0 then
       (case increment_overflow32 y (- 1) of
          None \<Rightarrow> Some None
        | Some y \<Rightarrow>
            do { li \<leftarrow> i32 (y + (if 1 < mon then 1 else 0));
                 mday \<leftarrow> i32 (mday + year_lengths (isleap li));
                 mday_up y mday mon })
     else Some (Some (y, mday)))"

partial_function (option) mday_down :: "int \<Rightarrow> int \<Rightarrow> int \<Rightarrow> (int \<times> int) option option" where
  "mday_down y mday mon =
    (if mday > DAYSPERLYEAR then
       do { li \<leftarrow> i32 (y + (if 1 < mon then 1 else 0));
            mday \<leftarrow> i32 (mday - year_lengths (isleap li));
            case increment_overflow32 y 1 of
              None \<Rightarrow> Some None
            | Some y \<Rightarrow> mday_down y mday mon }
     else Some (Some (y, mday)))"

partial_function (option) mday_month :: "int \<Rightarrow> int \<Rightarrow> int \<Rightarrow> (int \<times> int \<times> int) option option" where
  "mday_month y mday mon =
    do { i \<leftarrow> (if mon < 0 then None else get (mon_lengths (isleap y)) (nat mon));
         if mday \<le> i then Some (Some (y, mday, mon))
         else let mday = mday - i; mon = mon + 1 in
           if mon \<ge> MONSPERYEAR then
             (case increment_overflow32 y 1 of None \<Rightarrow> Some None | Some y \<Rightarrow> mday_month y mday 0)
           else mday_month y mday mon }"

text \<open>An operation that gives up, in a sequence of steps.\<close>

definition try_next :: "'a option option \<Rightarrow> ('a \<Rightarrow> 'b option option) \<Rightarrow> 'b option option" where
  "try_next r f = do { x \<leftarrow> r; case x of None \<Rightarrow> Some None | Some a \<Rightarrow> f a }"

definition norm_tm :: "bool \<Rightarrow> tm \<Rightarrow> tm option option" where
  "norm_tm do_norm_secs tmp =
    try_next (Some (if do_norm_secs then normalize_overflow (tm_min tmp) (tm_sec tmp) SECSPERMIN else Some (tm_min tmp, tm_sec tmp)))
      (\<lambda>(minute, sec).
    try_next (Some (normalize_overflow (tm_hour tmp) minute MINSPERHOUR)) (\<lambda>(hour, minute).
    try_next (Some (normalize_overflow (tm_mday tmp) hour HOURSPERDAY)) (\<lambda>(mday, hour).
    try_next (Some (normalize_overflow32 (tm_year tmp) (tm_mon tmp) MONSPERYEAR)) (\<lambda>(y, mon).
    try_next (Some (increment_overflow32 y TM_YEAR_BASE)) (\<lambda>y.
    try_next (mday_up y mday mon) (\<lambda>(y, mday).
    try_next (mday_down y mday mon) (\<lambda>(y, mday).
    try_next (mday_month y mday mon) (\<lambda>(y, mday, mon).
    try_next (Some (increment_overflow32 y (- TM_YEAR_BASE))) (\<lambda>year.
    Some (Some (tmp\<lparr>tm_sec := sec, tm_min := minute, tm_hour := hour, tm_mday := mday, tm_mon := mon, tm_year := year\<rparr>)))))))))))"

text \<open>The seconds that are kept aside, and the broken-down time that is searched for.\<close>

definition save_seconds :: "tm \<Rightarrow> (tm \<times> int) option" where
  "save_seconds yourtm =
    (if tm_sec yourtm \<ge> 0 \<and> tm_sec yourtm < SECSPERMIN then Some (yourtm, 0)
     else if tm_year yourtm < EPOCH_YEAR - TM_YEAR_BASE then
       do { sec \<leftarrow> increment_overflow (tm_sec yourtm) (1 - SECSPERMIN); Some (yourtm\<lparr>tm_sec := SECSPERMIN - 1\<rparr>, sec) }
     else Some (yourtm\<lparr>tm_sec := 0\<rparr>, tm_sec yourtm))"

section \<open>The binary search\<close>

definition midpoint :: "int \<Rightarrow> int \<Rightarrow> int" where
  "midpoint lo hi = (let t = cdiv lo 2 + cdiv hi 2 in if t < lo then lo else if t > hi then hi else t)"

partial_function (option) time_search :: "(int \<Rightarrow> tm option option) \<Rightarrow> tm \<Rightarrow> int \<Rightarrow> int \<Rightarrow> (int \<times> tm) option option" where
  "time_search f yourtm lo hi =
    (let t = midpoint lo hi in
     do { r \<leftarrow> f t;
          let dir = (case r of None \<Rightarrow> if t > 0 then 1 else - 1 | Some mytm \<Rightarrow> tmcomp mytm yourtm) in
          if dir \<noteq> 0 then
            (if t = lo \<and> t = TIME_T_MAX \<or> t \<noteq> lo \<and> t = hi \<and> t = TIME_T_MIN then Some None
             else let (t, lo, hi) = (if t = lo then (t + 1, lo + 1, hi) else if t = hi then (t - 1, lo, hi - 1) else (t, lo, hi)) in
               if lo > hi then Some None
               else if dir > 0 then time_search f yourtm lo t else time_search f yourtm t hi)
          else Some (map_option (\<lambda>mytm. (t, mytm)) r) })"

text \<open>A time that differs only in its offset from universal time: the code tries the offset it was given.\<close>

definition plausible_gmtoff :: "tm \<Rightarrow> tm \<Rightarrow> bool" where
  "plausible_gmtoff mytm yourtm \<longleftrightarrow> tm_gmtoff mytm \<noteq> tm_gmtoff yourtm \<and>
    (if tm_gmtoff yourtm < 0 then - SECSPERDAY \<le> tm_gmtoff yourtm \<and> tm_gmtoff mytm \<le> INT_MAX + tm_gmtoff yourtm
     else tm_gmtoff yourtm \<le> SECSPERDAY \<and> INT_MIN + tm_gmtoff yourtm \<le> tm_gmtoff mytm)"

definition try_gmtoff :: "(int \<Rightarrow> tm option option) \<Rightarrow> tm \<Rightarrow> int \<Rightarrow> tm \<Rightarrow> (int \<times> tm) option" where
  "try_gmtoff f yourtm t mytm =
    (if plausible_gmtoff mytm yourtm then
       do { diff \<leftarrow> i32 (tm_gmtoff mytm - tm_gmtoff yourtm);
            case increment_overflow_time t diff of
              None \<Rightarrow> Some (t, mytm)
            | Some altt \<Rightarrow>
                do { r \<leftarrow> f altt;
                     Some (case r of None \<Rightarrow> (t, mytm)
                       | Some alttm \<Rightarrow>
                           if tm_isdst alttm = tm_isdst mytm \<and> tm_gmtoff alttm = tm_gmtoff yourtm \<and> tmcomp alttm yourtm = 0
                           then (altt, alttm) else (t, mytm)) } }
     else Some (t, mytm))"

text \<open>Right time, wrong type: the hunt through the pairs \<open>(i, j)\<close> of types, from the last ones down.\<close>

fun hunt :: "(int \<Rightarrow> tm option option) \<Rightarrow> tzstate \<Rightarrow> tm \<Rightarrow> int \<Rightarrow> (ttinfo \<times> ttinfo) list \<Rightarrow> int option option" where
  "hunt f sp yourtm t [] = Some None"
| "hunt f sp yourtm t ((ti, tj) # ps) =
    (if tt_isdst ti \<noteq> tm_isdst yourtm \<or> tt_isdst tj = tm_isdst yourtm \<or> ttunspecified sp tj then hunt f sp yourtm t ps
     else do { newt \<leftarrow> i32 (t + tt_utoff tj);
               newt \<leftarrow> i32 (newt - tt_utoff ti);
               r \<leftarrow> f newt;
               case r of None \<Rightarrow> hunt f sp yourtm t ps
               | Some mytm \<Rightarrow>
                   if tmcomp mytm yourtm \<noteq> 0 \<or> tm_isdst mytm \<noteq> tm_isdst yourtm then hunt f sp yourtm t ps
                   else Some (Some newt) })"

definition right_type :: "(int \<Rightarrow> tm option option) \<Rightarrow> tzstate option \<Rightarrow> tm \<Rightarrow> int \<Rightarrow> tm \<Rightarrow> int option option" where
  "right_type f sp yourtm t mytm =
    (if tm_isdst yourtm < 0 \<or> tm_isdst mytm = tm_isdst yourtm then Some (Some t)
     else case sp of None \<Rightarrow> Some None
       | Some s \<Rightarrow> hunt f s yourtm t (List.product (rev (ttis s)) (rev (ttis s))))"

text \<open>The result is the time and, when it is all right (\<open>okayp\<close>), the broken-down time.\<close>

definition WRONG :: int where "WRONG = - 1"

definition time2sub :: "(int \<Rightarrow> tm option option) \<Rightarrow> tzstate option \<Rightarrow> bool \<Rightarrow> tm \<Rightarrow> (int \<times> tm option) option" where
  "time2sub f sp do_norm_secs tmp =
    do { r \<leftarrow> try_next (norm_tm do_norm_secs tmp) (\<lambda>yourtm.
           try_next (Some (save_seconds yourtm)) (\<lambda>(yourtm, saved_seconds).
           try_next (time_search f yourtm TIME_T_MIN TIME_T_MAX) (\<lambda>(t, mytm).
           do { (t, mytm) \<leftarrow> try_gmtoff f yourtm t mytm;
                try_next (right_type f sp yourtm t mytm) (\<lambda>t.
                let newt = to_time_t (t + saved_seconds) in
                if (newt < t) \<noteq> (saved_seconds < 0) then Some None
                else do { r \<leftarrow> f newt; Some (Some (newt, r)) }) })));
         Some (case r of None \<Rightarrow> (WRONG, None) | Some x \<Rightarrow> x) }"

definition time2 :: "(int \<Rightarrow> tm option option) \<Rightarrow> tzstate option \<Rightarrow> tm \<Rightarrow> (int \<times> tm option) option" where
  "time2 f sp tmp =
    do { (t, r) \<leftarrow> time2sub f sp False tmp;
         if r \<noteq> None then Some (t, r) else time2sub f sp True tmp }"

text \<open>The types of the transitions, from the last one down, each once.\<close>

fun seen_types :: "tzstate \<Rightarrow> nat list \<Rightarrow> nat list \<Rightarrow> nat list option" where
  "seen_types sp [] ts = Some ts"
| "seen_types sp (i # is) ts =
    do { ti \<leftarrow> get (ttis sp) i;
         if i \<notin> set ts \<and> \<not> ttunspecified sp ti then seen_types sp is (ts @ [i]) else seen_types sp is ts }"

text \<open>A broken-down time of the other type, adjusted by the difference of the two types.\<close>

fun try_types :: "(int \<Rightarrow> tm option option) \<Rightarrow> tzstate \<Rightarrow> tm \<Rightarrow> (ttinfo \<times> ttinfo) list \<Rightarrow> (int \<times> tm) option" where
  "try_types f sp tmp [] = Some (WRONG, tmp)"
| "try_types f sp tmp ((samei, otheri) # ps) =
    (if tt_isdst samei \<noteq> tm_isdst tmp \<or> tt_isdst otheri = tm_isdst tmp then try_types f sp tmp ps
     else do { sec \<leftarrow> i32 (tm_sec tmp + (tt_utoff otheri - tt_utoff samei));
               (t, r) \<leftarrow> time2 f (Some sp) (tmp\<lparr>tm_sec := sec, tm_isdst := if tm_isdst tmp = 0 then 1 else 0\<rparr>);
               case r of Some x \<Rightarrow> Some (t, x) | None \<Rightarrow> try_types f sp tmp ps })"

text \<open>The result is the time and what is left in the argument.\<close>

definition time1 :: "(int \<Rightarrow> tm option option) \<Rightarrow> tzstate option \<Rightarrow> tm \<Rightarrow> (int \<times> tm) option" where
  "time1 f sp tmp =
    (let tmp = (if tm_isdst tmp > 1 then tmp\<lparr>tm_isdst := 1\<rparr> else tmp)
     in do { (t, r) \<leftarrow> time2 f sp tmp;
             case r of Some x \<Rightarrow> Some (t, x)
             | None \<Rightarrow>
                 if tm_isdst tmp < 0 then Some (t, tmp)
                 else (case sp of None \<Rightarrow> Some (WRONG, tmp)
                   | Some s \<Rightarrow>
                       do { is \<leftarrow> seen_types s (rev (types s)) [];
                            let ts = map ((!) (ttis s)) is in try_types f s tmp (List.product ts ts) }) })"

definition mktime_tzname :: "tzstate option \<Rightarrow> tzstate option \<Rightarrow> tm \<Rightarrow> (int \<times> tm) option" where
  "mktime_tzname gmtptr sp tmp =
    (case sp of None \<Rightarrow> time1 (\<lambda>t. gmtsub gmtptr gmtptr t 0) gmtptr tmp | Some s \<Rightarrow> time1 (localsub gmtptr sp) sp tmp)"

definition timeoff :: "tzstate option \<Rightarrow> tm \<Rightarrow> int \<Rightarrow> (int \<times> tm) option" where
  "timeoff gmtptr tmp offset = time1 (\<lambda>t. gmtsub gmtptr gmtptr t offset) gmtptr (tmp\<lparr>tm_isdst := 0\<rparr>)"

definition timegm :: "tzstate option \<Rightarrow> tm \<Rightarrow> (int \<times> tm) option" where
  "timegm gmtptr tmp =
    do { (t, tmcpy) \<leftarrow> timeoff gmtptr (tmp\<lparr>tm_wday := - 1\<rparr>) 0;
         Some (t, if 0 \<le> tm_wday tmcpy then tmcpy else tmp) }"

section \<open>Counts with and without leap seconds\<close>

fun leapcorr_scan :: "lsinfo list \<Rightarrow> int \<Rightarrow> nat \<Rightarrow> int" where
  "leapcorr_scan ls t 0 = 0"
| "leapcorr_scan ls t (Suc i) = (if t \<ge> ls_trans (ls ! i) then ls_corr (ls ! i) else leapcorr_scan ls t i)"

definition leapcorr :: "tzstate \<Rightarrow> int \<Rightarrow> int" where
  "leapcorr sp t = leapcorr_scan (lsis sp) t (length (lsis sp))"

definition time2posix_z :: "tzstate \<Rightarrow> int \<Rightarrow> int option" where
  "time2posix_z sp t = i32 (t - leapcorr sp t)"

partial_function (option) posix_up :: "tzstate \<Rightarrow> int \<Rightarrow> int \<Rightarrow> (int \<times> int) option" where
  "posix_up sp t x =
    do { x \<leftarrow> i32 (x + 1);
         y \<leftarrow> i32 (x - leapcorr sp x);
         if y < t then posix_up sp t x else Some (x, y) }"

partial_function (option) posix_down :: "tzstate \<Rightarrow> int \<Rightarrow> int \<Rightarrow> (int \<times> int) option" where
  "posix_down sp t x =
    do { x \<leftarrow> i32 (x - 1);
         y \<leftarrow> i32 (x - leapcorr sp x);
         if y > t then posix_down sp t x else Some (x, y) }"

definition posix2time_z :: "tzstate \<Rightarrow> int \<Rightarrow> int option" where
  "posix2time_z sp t =
    do { x \<leftarrow> i32 (t + leapcorr sp t);
         y \<leftarrow> i32 (x - leapcorr sp x);
         if y < t then do { (x, y) \<leftarrow> posix_up sp t x; i32 (x - (if y \<noteq> t then 1 else 0)) }
         else if y > t then do { (x, y) \<leftarrow> posix_down sp t x; i32 (x + (if y \<noteq> t then 1 else 0)) }
         else Some x }"

end
