(* ===== verification/MktimeProps.thy ===== *)
theory MktimeProps
  imports Mktime
begin

text \<open>
  \<open>timegm\<close> inverts \<open>gmtime\<close>: it normalises the fields, and its binary search finds the one count of seconds with that
  broken-down time. The search needs of the conversion only that it is exact (the locale \<open>exact_clock\<close>), which
  \<open>gmtsub\<close> is when its zone has no leap seconds.
\<close>

text \<open>In the range of \<open>time_t\<close>.\<close>

abbreviation (input) in_range :: "int \<Rightarrow> bool" where "in_range t \<equiv> TIME_T_MIN \<le> t \<and> t \<le> TIME_T_MAX"

section \<open>Comparing broken-down times\<close>

lemma clock_value:
  assumes "0 \<le> h" "h < 24" "0 \<le> m" "m < 60" "0 \<le> s" "s < (60 :: int)"
  shows "0 \<le> h * 3600 + m * 60 + s" "h * 3600 + m * 60 + s < 86400"
  using assms by simp_all

lemma tm_value_day:
  assumes "valid_tm a" "valid_tm b"
    "days_of (tm_year a + 1900) (tm_mon a) (tm_mday a) < days_of (tm_year b + 1900) (tm_mon b) (tm_mday b)"
  shows "tm_value a < tm_value b"
proof -
  have "0 \<le> tm_hour x * 3600 + tm_min x * 60 + tm_sec x \<and> tm_hour x * 3600 + tm_min x * 60 + tm_sec x < 86400" if "valid_tm x" for x
    using that clock_value [of "tm_hour x" "tm_min x" "tm_sec x"] by (simp add: valid_tm_def)
  from this [OF assms(1)] this [OF assms(2)] assms(3) show ?thesis unfolding tm_value_def by linarith
qed

lemma tmcomp_less:
  assumes "valid_tm a" "valid_tm b" "tmcomp a b < 0"
  shows "tm_value a < tm_value b"
proof -
  let ?d = "\<lambda>x. days_of (tm_year x + 1900) (tm_mon x) (tm_mday x)"
  have v: "valid_date (tm_year a + 1900) (tm_mon a) (tm_mday a)" "valid_date (tm_year b + 1900) (tm_mon b) (tm_mday b)"
    using assms by (simp_all add: valid_tm_def)
  show ?thesis
  proof (cases "tm_year a = tm_year b \<and> tm_mon a = tm_mon b \<and> tm_mday a = tm_mday b")
    case False
    then have "tm_year a + 1900 < tm_year b + 1900 \<or> tm_year a + 1900 = tm_year b + 1900 \<and>
        (tm_mon a < tm_mon b \<or> tm_mon a = tm_mon b \<and> tm_mday a < tm_mday b)"
      using assms(3) by (simp add: tmcomp_def split: if_splits)
    then show ?thesis using days_of_less [OF v] tm_value_day [OF assms(1,2)] by blast
  next
    case True
    then show ?thesis using assms by (simp add: tmcomp_def tm_value_def valid_tm_def split: if_splits)
  qed
qed

lemma tmcomp_swap: "tmcomp b a = - tmcomp a b"
  by (simp add: tmcomp_def)

lemma tmcomp_zero:
  assumes "tmcomp a b = 0"
  shows "tm_value a = tm_value b"
  using assms by (simp add: tmcomp_def tm_value_def split: if_splits)

lemma tmcomp_iff:
  assumes "valid_tm a" "valid_tm b"
  shows "tmcomp a b < 0 \<longleftrightarrow> tm_value a < tm_value b" "tmcomp a b > 0 \<longleftrightarrow> tm_value b < tm_value a" "tmcomp a b = 0 \<longleftrightarrow> tm_value a = tm_value b"
proof -
  consider "tmcomp a b < 0" | "tmcomp a b = 0" | "tmcomp b a < 0" using tmcomp_swap [of b a] by linarith
  then show "tmcomp a b < 0 \<longleftrightarrow> tm_value a < tm_value b" "tmcomp a b > 0 \<longleftrightarrow> tm_value b < tm_value a" "tmcomp a b = 0 \<longleftrightarrow> tm_value a = tm_value b"
    using tmcomp_less [OF assms] tmcomp_less [OF assms(2,1)] tmcomp_zero [of a b] tmcomp_swap [of b a] by (cases; auto)+
qed

section \<open>Normalising\<close>

text \<open>The count of seconds of a broken-down time whose fields may have any value.\<close>

definition tm_total :: "tm \<Rightarrow> int" where
  "tm_total x = days_of (tm_year x + 1900 + tm_mon x div 12) (tm_mon x mod 12) (tm_mday x) * 86400 +
    tm_hour x * 3600 + tm_min x * 60 + tm_sec x"

lemma tm_total_valid: "0 \<le> tm_mon x \<Longrightarrow> tm_mon x < 12 \<Longrightarrow> tm_total x = tm_value x"
  by (simp add: tm_total_def tm_value_def)

lemma floor_div: "0 < b \<Longrightarrow> (if u \<ge> 0 then cdiv u b else - 1 - cdiv (- 1 - u) b) = u div b"
  using div_floor_neg [of b u] by (simp add: cdiv_pos)

lemma increment_overflow_ok:
  "- 2000000000 \<le> i + j \<Longrightarrow> i + j \<le> 2000000000 \<Longrightarrow> increment_overflow i j = Some (i + j)"
  "- 2147483648 \<le> i + j \<Longrightarrow> i + j \<le> 2147483647 \<Longrightarrow> increment_overflow32 i j = Some (i + j)"
  by (auto simp: increment_overflow_def increment_overflow32_def)

lemma normalize_overflow_ok:
  assumes "0 < base" "- 2000000000 \<le> tens + units div base" "tens + units div base \<le> 2000000000"
  shows "normalize_overflow tens units base = Some (tens + units div base, units mod base)"
    and "normalize_overflow32 tens units base = Some (tens + units div base, units mod base)"
proof -
  have i: "increment_overflow tens (units div base) = Some (tens + units div base)"
    "increment_overflow32 tens (units div base) = Some (tens + units div base)"
    using increment_overflow_ok [of tens "units div base"] assms(2,3) by linarith+
  show "normalize_overflow tens units base = Some (tens + units div base, units mod base)"
    "normalize_overflow32 tens units base = Some (tens + units div base, units mod base)"
    by (simp_all only: normalize_overflow_def normalize_overflow32_def floor_div [OF assms(1)] Let_def minus_div_mult_eq_mod i bind.bind_lunit)
qed

text \<open>A year from the first day of a month on is as long as the one of the two years that has its February.\<close>

lemma month_start_leap:
  assumes "0 \<le> mon" "mon < 12"
  shows "month_start leap mon = month_start False mon + (if leap \<and> 1 < mon then 1 else 0)"
proof -
  have "mon = 0 \<or> mon = 1 \<or> mon = 2 \<or> mon = 3 \<or> mon = 4 \<or> mon = 5 \<or> mon = 6 \<or> mon = 7 \<or> mon = 8 \<or> mon = 9 \<or> mon = 10 \<or> mon = 11"
    using assms by presburger
  then show ?thesis by (elim disjE) (simp_all add: month_start_def mon_lengths_def)
qed

lemma days_of_window:
  assumes "0 \<le> mon" "mon < 12"
  shows "days_of (y + 1) mon mday = days_of y mon (mday + year_lengths (isleap (y + (if 1 < mon then 1 else 0))))"
  unfolding days_of_def using year_start_Suc [of y] month_start_leap [OF assms, of "isleap y"] month_start_leap [OF assms, of "isleap (y + 1)"]
  by (cases "1 < mon"; cases "isleap y"; cases "isleap (y + 1)"; simp add: year_len_def year_lengths_def)

lemma mday_up_spec:
  assumes "0 \<le> mon" "mon < 12" "\<bar>y\<bar> + \<bar>mday\<bar> \<le> 2147000000"
  shows "\<exists>y' d. mday_up y mday mon = Some (Some (y', d)) \<and> days_of y' mon d = days_of y mon mday \<and> 1 \<le> d \<and>
    \<bar>y'\<bar> + \<bar>d\<bar> \<le> \<bar>y\<bar> + \<bar>mday\<bar> + 400"
  using assms(3)
proof (induction "nat (1 - mday)" arbitrary: y mday rule: less_induct)
  case less
  show ?case
  proof (cases "mday \<le> 0")
    case False
    then show ?thesis by (subst mday_up.simps) simp
  next
    case True
    define n where "n = year_lengths (isleap (y - 1 + (if 1 < mon then 1 else 0)))"
    have n: "365 \<le> n" "n \<le> 366" by (simp_all add: n_def year_lengths_def)
    have bounds: "- 2147000000 \<le> y" "y \<le> 2147000000" "- 2147000000 \<le> mday" "\<bar>y\<bar> - mday \<le> 2147000000"
      using less.prems True by linarith+
    have "mday_up y mday mon = mday_up (y - 1) (mday + n) mon"
    proof -
      have "increment_overflow32 y (- 1) = Some (y - 1)" using increment_overflow_ok(2) [of y "- 1"] bounds by simp
      moreover have "i32 (y - 1 + (if 1 < mon then 1 else 0)) = Some (y - 1 + (if 1 < mon then 1 else 0))"
        using bounds by (intro i32_Some) auto
      moreover have "i32 (mday + n) = Some (mday + n)" using bounds n True by (intro i32_Some) auto
      ultimately show ?thesis using True by (subst mday_up.simps) (simp add: n_def)
    qed
    moreover have "days_of (y - 1) mon (mday + n) = days_of y mon mday"
      using days_of_window [OF assms(1,2), of "y - 1" mday] by (simp add: n_def)
    moreover have "\<exists>y' d. mday_up (y - 1) (mday + n) mon = Some (Some (y', d)) \<and> days_of y' mon d = days_of (y - 1) mon (mday + n) \<and> 1 \<le> d \<and>
        \<bar>y'\<bar> + \<bar>d\<bar> \<le> \<bar>y\<bar> + \<bar>mday\<bar> + 400"
    proof (cases "mday + n \<le> 0")
      case True
      then have "\<bar>y - 1\<bar> + \<bar>mday + n\<bar> \<le> \<bar>y\<bar> + \<bar>mday\<bar>" using n by linarith
      moreover have "nat (1 - (mday + n)) < nat (1 - mday)" using n \<open>mday \<le> 0\<close> by simp
      ultimately show ?thesis using less.hyps [of "mday + n" "y - 1"] less.prems by fastforce
    next
      case False
      then have "mday_up (y - 1) (mday + n) mon = Some (Some (y - 1, mday + n))" by (subst mday_up.simps) simp
      moreover have "\<bar>y - 1\<bar> + \<bar>mday + n\<bar> \<le> \<bar>y\<bar> + \<bar>mday\<bar> + 400" using n False True by linarith
      ultimately show ?thesis using False by simp
    qed
    ultimately show ?thesis by simp
  qed
qed

lemma mday_down_spec:
  assumes "0 \<le> mon" "mon < 12" "1 \<le> mday" "\<bar>y\<bar> + \<bar>mday\<bar> \<le> 2147000400"
  shows "\<exists>y' d. mday_down y mday mon = Some (Some (y', d)) \<and> days_of y' mon d = days_of y mon mday \<and> 1 \<le> d \<and> d \<le> 366 \<and>
    \<bar>y'\<bar> \<le> \<bar>y\<bar> + \<bar>mday\<bar>"
  using assms(3,4)
proof (induction "nat mday" arbitrary: y mday rule: less_induct)
  case less
  show ?case
  proof (cases "mday > 366")
    case False
    then show ?thesis using less.prems by (subst mday_down.simps) simp
  next
    case True
    define n where "n = year_lengths (isleap (y + (if 1 < mon then 1 else 0)))"
    have n: "365 \<le> n" "n \<le> 366" by (simp_all add: n_def year_lengths_def)
    have bounds: "- 2147000400 \<le> y" "y \<le> 2147000400" "mday \<le> 2147000400" using less.prems by linarith+
    have "mday_down y mday mon = mday_down (y + 1) (mday - n) mon"
    proof -
      have "increment_overflow32 y 1 = Some (y + 1)" using increment_overflow_ok(2) [of y 1] bounds by simp
      moreover have "i32 (y + (if 1 < mon then 1 else 0)) = Some (y + (if 1 < mon then 1 else 0))" using bounds by (intro i32_Some) auto
      moreover have "i32 (mday - n) = Some (mday - n)" using bounds n True by (intro i32_Some) auto
      ultimately show ?thesis using True by (subst mday_down.simps) (simp add: n_def)
    qed
    moreover have "days_of (y + 1) mon (mday - n) = days_of y mon mday"
      using days_of_window [OF assms(1,2), of y "mday - n"] by (simp add: n_def)
    moreover have "nat (mday - n) < nat mday" "1 \<le> mday - n" "\<bar>y + 1\<bar> + \<bar>mday - n\<bar> \<le> \<bar>y\<bar> + \<bar>mday\<bar>" using n True by linarith+
    ultimately show ?thesis using less.hyps [of "mday - n" "y + 1"] less.prems(2) by fastforce
  qed
qed

lemma mday_month_spec:
  assumes "0 \<le> mon" "mon < 12" "1 \<le> mday" "mday \<le> 1000" "\<bar>y\<bar> + mday \<le> 2147002000"
  shows "\<exists>y' d m. mday_month y mday mon = Some (Some (y', d, m)) \<and> days_of y' m d = days_of y mon mday \<and> valid_date y' m d \<and>
    \<bar>y'\<bar> \<le> \<bar>y\<bar> + mday"
  using assms
proof (induction "nat mday" arbitrary: y mday mon rule: less_induct)
  case less
  define i where "i = mon_lengths (isleap y) ! nat mon"
  have i: "28 \<le> i" "i \<le> 31" using mon_lengths_bounds [of "nat mon" "isleap y"] less.prems by (simp_all add: i_def nat_less_iff)
  have g: "(if mon < 0 then None else get (mon_lengths (isleap y)) (nat mon)) = Some i"
    using less.prems by (simp add: get_def i_def nat_less_iff)
  show ?case
  proof (cases "mday \<le> i")
    case True
    have "mday_month y mday mon = Some (Some (y, mday, mon))"
      by (subst mday_month.simps) (simp only: g bind.bind_lunit True if_True)
    then show ?thesis using True less.prems by (simp add: valid_date_def i_def)
  next
    case False
    have inc: "increment_overflow32 y 1 = Some (y + 1)" using increment_overflow_ok(2) [of y 1] less.prems by linarith
    show ?thesis
    proof (cases "mon + 1 \<ge> 12")
      case True
      then have m: "mon = 11" using less.prems by linarith
      have "mday_month y mday mon = mday_month (y + 1) (mday - i) 0"
        by (subst mday_month.simps) (simp only: g bind.bind_lunit False if_False Let_def True if_True inc option.case)
      moreover have "days_of (y + 1) 0 (mday - i) = days_of y mon mday"
        using month_start_Suc [of 11 "isleap y"] month_start_12 [of "isleap y"]
        by (simp add: days_of_def year_start_Suc m i_def year_len_def)
      moreover have "nat (mday - i) < nat mday" "1 \<le> mday - i" "mday - i \<le> 1000" "\<bar>y + 1\<bar> + (mday - i) \<le> \<bar>y\<bar> + mday"
        using i False less.prems by linarith+
      ultimately show ?thesis using less.hyps [of "mday - i" 0 "y + 1"] less.prems(5) by fastforce
    next
      case mon: False
      have "mday_month y mday mon = mday_month y (mday - i) (mon + 1)"
        by (subst mday_month.simps) (simp only: g bind.bind_lunit False if_False Let_def mon)
      moreover have "days_of y (mon + 1) (mday - i) = days_of y mon mday"
        using month_start_Suc [of mon "isleap y"] less.prems by (simp add: days_of_def i_def)
      moreover have "nat (mday - i) < nat mday" "1 \<le> mday - i" "mday - i \<le> 1000" "\<bar>y\<bar> + (mday - i) \<le> \<bar>y\<bar> + mday" "mon + 1 < 12" "0 \<le> mon + 1"
        using i False less.prems mon by linarith+
      ultimately show ?thesis using less.hyps [of "mday - i" "mon + 1" y] less.prems(5) by fastforce
    qed
  qed
qed

definition small_tm :: "tm \<Rightarrow> bool" where
  "small_tm x \<longleftrightarrow> (\<forall>v \<in> {tm_sec x, tm_min x, tm_hour x, tm_mday x, tm_mon x, tm_year x}. - 1000000000 \<le> v \<and> v \<le> 1000000000)"

lemma small_tmD:
  assumes "small_tm x"
  shows "- 1000000000 \<le> tm_sec x" "tm_sec x \<le> 1000000000" "- 1000000000 \<le> tm_min x" "tm_min x \<le> 1000000000"
    "- 1000000000 \<le> tm_hour x" "tm_hour x \<le> 1000000000" "- 1000000000 \<le> tm_mday x" "tm_mday x \<le> 1000000000"
    "- 1000000000 \<le> tm_mon x" "tm_mon x \<le> 1000000000" "- 1000000000 \<le> tm_year x" "tm_year x \<le> 1000000000"
  using assms by (simp_all add: small_tm_def)

lemma try_next_Some [simp]: "try_next (Some (Some a)) f = f a" "try_next (Some None) f = Some None"
  by (simp_all add: try_next_def)

lemma div_between: "0 < (k :: int) \<Longrightarrow> - (k * b) \<le> a \<Longrightarrow> a \<le> k * b \<Longrightarrow> - b \<le> a div k \<and> a div k \<le> b"
proof -
  assume k: "0 < k" and a: "- (k * b) \<le> a" "a \<le> k * b"
  have "(- b) * k div k \<le> a div k" "a div k \<le> b * k div k" using k a by (intro zdiv_mono1; simp add: mult.commute)+
  then show "- b \<le> a div k \<and> a div k \<le> b"
    using k nonzero_mult_div_cancel_right [of k "- b"] nonzero_mult_div_cancel_right [of k b] by (simp only: less_imp_neq not_sym)
qed

text \<open>The normalised broken-down time stands for the same count of seconds.\<close>

definition normal_form :: "bool \<Rightarrow> tm \<Rightarrow> tm \<Rightarrow> bool" where
  "normal_form b x y \<longleftrightarrow> tm_total y = tm_total x \<and> valid_date (tm_year y + 1900) (tm_mon y) (tm_mday y) \<and>
    0 \<le> tm_hour y \<and> tm_hour y < 24 \<and> 0 \<le> tm_min y \<and> tm_min y < 60 \<and>
    tm_sec y = (if b then tm_sec x mod 60 else tm_sec x) \<and> tm_isdst y = tm_isdst x"

lemma norm_tm_spec:
  assumes "small_tm x"
  shows "\<exists>y. norm_tm b x = Some (Some y) \<and> normal_form b x y"
proof -
  note s = small_tmD [OF assms]
  define m1 where "m1 = (if b then tm_min x + tm_sec x div 60 else tm_min x)"
  define s1 where "s1 = (if b then tm_sec x mod 60 else tm_sec x)"
  define h1 where "h1 = tm_hour x + m1 div 60"
  define d1 where "d1 = tm_mday x + h1 div 24"
  define y1 where "y1 = tm_year x + tm_mon x div 12"
  define mon where "mon = tm_mon x mod 12"
  have mon: "0 \<le> mon" "mon < 12" by (simp_all add: mon_def)
  have q: "- 16666667 \<le> tm_sec x div 60 \<and> tm_sec x div 60 \<le> 16666667" using s by (intro div_between) simp_all
  then have m: "- 1016666667 \<le> m1" "m1 \<le> 1016666667" using s by (simp_all add: m1_def)
  have q1: "- 16944445 \<le> m1 div 60 \<and> m1 div 60 \<le> 16944445" using m by (intro div_between) simp_all
  then have h: "- 1016944445 \<le> h1" "h1 \<le> 1016944445" using s by (simp_all add: h1_def)
  have q2: "- 42372686 \<le> h1 div 24 \<and> h1 div 24 \<le> 42372686" using h by (intro div_between) simp_all
  then have d: "- 1042372686 \<le> d1" "d1 \<le> 1042372686" using s by (simp_all add: d1_def)
  have q3: "- 83333334 \<le> tm_mon x div 12 \<and> tm_mon x div 12 \<le> 83333334" using s by (intro div_between) simp_all
  then have y: "- 1083333334 \<le> y1" "y1 \<le> 1083333334" using s by (simp_all add: y1_def)
  have yd: "\<bar>y1 + 1900\<bar> + \<bar>d1\<bar> \<le> 2147000000" using y d by linarith
  obtain y2 d2 where 2: "mday_up (y1 + 1900) d1 mon = Some (Some (y2, d2))" "days_of y2 mon d2 = days_of (y1 + 1900) mon d1" "1 \<le> d2"
    "\<bar>y2\<bar> + \<bar>d2\<bar> \<le> \<bar>y1 + 1900\<bar> + \<bar>d1\<bar> + 400" using mday_up_spec [OF mon yd] by blast
  then obtain y3 d3 where 3: "mday_down y2 d2 mon = Some (Some (y3, d3))" "days_of y3 mon d3 = days_of y2 mon d2" "1 \<le> d3" "d3 \<le> 366"
    "\<bar>y3\<bar> \<le> \<bar>y2\<bar> + \<bar>d2\<bar>" using mday_down_spec [OF mon 2(3), of y2] yd by auto
  have y3: "\<bar>y3\<bar> \<le> \<bar>y1 + 1900\<bar> + \<bar>d1\<bar> + 400" using 2(4) 3(5) by linarith
  then obtain y4 d4 m4 where 4: "mday_month y3 d3 mon = Some (Some (y4, d4, m4))" "days_of y4 m4 d4 = days_of y3 mon d3" "valid_date y4 m4 d4"
    "\<bar>y4\<bar> \<le> \<bar>y3\<bar> + d3" using mday_month_spec [OF mon 3(3), of y3] 3(4) yd by auto
  have y4: "- 2147000766 \<le> y4" "y4 \<le> 2147000766" using 4(4) 3(4) y3 yd by linarith+
  have n: "(if b then normalize_overflow (tm_min x) (tm_sec x) 60 else Some (tm_min x, tm_sec x)) = Some (m1, s1)"
    "normalize_overflow (tm_hour x) m1 60 = Some (h1, m1 mod 60)" "normalize_overflow (tm_mday x) h1 24 = Some (d1, h1 mod 24)"
    "normalize_overflow32 (tm_year x) (tm_mon x) 12 = Some (y1, mon)" "increment_overflow32 y1 1900 = Some (y1 + 1900)"
  proof -
    show "(if b then normalize_overflow (tm_min x) (tm_sec x) 60 else Some (tm_min x, tm_sec x)) = Some (m1, s1)"
      using normalize_overflow_ok(1) [of 60 "tm_min x" "tm_sec x"] m by (cases b) (simp_all add: m1_def s1_def)
    show "normalize_overflow (tm_hour x) m1 60 = Some (h1, m1 mod 60)"
      using normalize_overflow_ok(1) [of 60 "tm_hour x" m1] h by (simp add: h1_def)
    show "normalize_overflow (tm_mday x) h1 24 = Some (d1, h1 mod 24)"
      using normalize_overflow_ok(1) [of 24 "tm_mday x" h1] d by (simp add: d1_def)
    show "normalize_overflow32 (tm_year x) (tm_mon x) 12 = Some (y1, mon)"
      using normalize_overflow_ok(2) [of 12 "tm_year x" "tm_mon x"] y by (simp add: y1_def mon_def)
    show "increment_overflow32 y1 1900 = Some (y1 + 1900)"
      using increment_overflow_ok(2) [of y1 1900] y by simp
  qed
  have n2: "increment_overflow32 y4 (- 1900) = Some (y4 - 1900)"
    using increment_overflow_ok(2) [of y4 "- 1900"] y4 by simp
  define z where "z = x\<lparr>tm_sec := s1, tm_min := m1 mod 60, tm_hour := h1 mod 24, tm_mday := d4, tm_mon := m4, tm_year := y4 - 1900\<rparr>"
  have "norm_tm b x = Some (Some z)"
    unfolding norm_tm_def by (simp only: n 2(1) 3(1) 4(1) n2 try_next_Some prod.case z_def)
  moreover have "tm_total z = tm_total x"
  proof -
    have "m4 div 12 = 0" "m4 mod 12 = m4" using 4(3) by (simp_all add: valid_date_def)
    then have "tm_total z = days_of (y1 + 1900) mon d1 * 86400 + h1 mod 24 * 3600 + m1 mod 60 * 60 + s1"
      by (simp add: tm_total_def z_def 4(2) 3(2) 2(2))
    moreover have "days_of (y1 + 1900) mon d1 = days_of (y1 + 1900) mon (tm_mday x) + h1 div 24" by (simp add: days_of_def d1_def)
    moreover have "h1 div 24 * 24 + h1 mod 24 = h1" "m1 div 60 * 60 + m1 mod 60 = m1" by (rule div_mult_mod_eq)+
    moreover have "m1 * 60 + s1 = tm_min x * 60 + tm_sec x"
      using div_mult_mod_eq [of "tm_sec x" 60] by (simp add: m1_def s1_def algebra_simps)
    moreover have "tm_total x = days_of (y1 + 1900) mon (tm_mday x) * 86400 + tm_hour x * 3600 + tm_min x * 60 + tm_sec x"
      by (simp add: tm_total_def y1_def mon_def algebra_simps)
    ultimately show ?thesis unfolding h1_def by linarith
  qed
  ultimately show ?thesis using 4(3)
    by (intro exI [of _ z]) (simp add: normal_form_def z_def s1_def)
qed

section \<open>The search\<close>

locale exact_clock =
  fixes f :: "int \<Rightarrow> tm option option" and g :: "int \<Rightarrow> tm" and off :: int
  assumes runs: "TIME_T_MIN \<le> t \<Longrightarrow> t \<le> TIME_T_MAX \<Longrightarrow> f t = Some (Some (g t))"
    and valid: "TIME_T_MIN \<le> t \<Longrightarrow> t \<le> TIME_T_MAX \<Longrightarrow> valid_tm (g t)"
    and exact: "TIME_T_MIN \<le> t \<Longrightarrow> t \<le> TIME_T_MAX \<Longrightarrow> tm_value (g t) = t + off"
    and off: "- 2147483648 \<le> off" "off \<le> 2147483647"
    and isdst: "TIME_T_MIN \<le> t \<Longrightarrow> t \<le> TIME_T_MAX \<Longrightarrow> tm_isdst (g t) = 0"
    and gmtoff: "TIME_T_MIN \<le> t \<Longrightarrow> t \<le> TIME_T_MAX \<Longrightarrow> tm_gmtoff (g t) = off"

lemma midpoint_bounds: "lo \<le> hi \<Longrightarrow> lo \<le> midpoint lo hi \<and> midpoint lo hi \<le> hi"
  by (simp add: midpoint_def Let_def)

context exact_clock
begin

lemma time_search_spec:
  assumes "valid_tm yourtm" "TIME_T_MIN \<le> lo" "lo \<le> hi" "hi \<le> TIME_T_MAX"
  defines "v \<equiv> tm_value yourtm - off"
  shows "time_search f yourtm lo hi = Some (if lo \<le> v \<and> v \<le> hi then Some (v, g v) else None)"
  using assms(2-4)
proof (induction "nat (hi - lo)" arbitrary: lo hi rule: less_induct)
  case less
  define t where "t = midpoint lo hi"
  have t: "lo \<le> t" "t \<le> hi" using midpoint_bounds [OF less.prems(2)] by (simp_all add: t_def)
  then have r: "TIME_T_MIN \<le> t" "t \<le> TIME_T_MAX" using less.prems by linarith+
  define dir where "dir = tmcomp (g t) yourtm"
  have dir: "dir < 0 \<longleftrightarrow> t < v" "dir > 0 \<longleftrightarrow> v < t" "dir = 0 \<longleftrightarrow> t = v"
    using tmcomp_iff [OF valid [OF r] assms(1)] exact [OF r] by (auto simp: dir_def v_def)
  show ?case
  proof (cases "dir = 0")
    case True
    have "time_search f yourtm lo hi = Some (Some (t, g t))"
      by (subst time_search.simps) (simp only: Let_def t_def [symmetric] runs [OF r] bind.bind_lunit option.case dir_def [symmetric]
        True simp_thms if_False option.map)
    then show ?thesis using dir(3) t True by simp
  next
    case False
    let ?t = "if t = lo then t + 1 else if t = hi then t - 1 else t"
    let ?lo = "if t = lo then lo + 1 else lo" and ?hi = "if t \<noteq> lo \<and> t = hi then hi - 1 else hi"
    have step: "time_search f yourtm lo hi =
        (if t = lo \<and> t = TIME_T_MAX \<or> t \<noteq> lo \<and> t = hi \<and> t = TIME_T_MIN \<or> ?lo > ?hi then Some None
         else if dir > 0 then time_search f yourtm ?lo ?t else time_search f yourtm ?t ?hi)"
      by (subst time_search.simps, simp only: Let_def t_def [symmetric] runs [OF r] bind.bind_lunit option.case dir_def [symmetric]
        False simp_thms if_True) auto
    show ?thesis
    proof (cases "t = lo")
      case True
      show ?thesis
      proof (cases "hi = lo")
        case one: True
        then show ?thesis using step True dir(3) False by auto
      next
        case two: False
        have *: "time_search f yourtm (lo + 1) h = Some (if lo + 1 \<le> v \<and> v \<le> h then Some (v, g v) else None)" if "h = lo + 1 \<or> h = hi" for h
          using less.hyps [of h "lo + 1"] less.prems two that by auto
        then show ?thesis using step True two False dir less.prems by auto
      qed
    next
      case nlo: False
      show ?thesis
      proof (cases "t = hi")
        case True
        have *: "time_search f yourtm l (hi - 1) = Some (if l \<le> v \<and> v \<le> hi - 1 then Some (v, g v) else None)" if "l = lo \<or> l = hi - 1" for l
          using less.hyps [of "hi - 1" l] less.prems t nlo True that by auto
        then show ?thesis using step True nlo False dir less.prems t by auto
      next
        case nhi: False
        then have s: "lo < t" "t < hi" using t nlo by linarith+
        have "time_search f yourtm lo t = Some (if lo \<le> v \<and> v \<le> t then Some (v, g v) else None)"
          "time_search f yourtm t hi = Some (if t \<le> v \<and> v \<le> hi then Some (v, g v) else None)"
          using less.hyps [of t lo] less.hyps [of hi t] less.prems s by auto
        then show ?thesis using step nlo nhi False dir s by auto
      qed
    qed
  qed
qed

lemma try_gmtoff_none:
  assumes "in_range t"
  shows "try_gmtoff f yourtm t (g t) = Some (t, g t)"
proof (cases "plausible_gmtoff (g t) yourtm")
  case False
  then show ?thesis by (simp add: try_gmtoff_def)
next
  case True
  have g: "tm_gmtoff (g t) = off" using gmtoff assms by blast
  have "i32 (off - tm_gmtoff yourtm) \<noteq> None"
    using True off by (auto simp: plausible_gmtoff_def g i32_def split: if_splits)
  then obtain diff where d: "i32 (off - tm_gmtoff yourtm) = Some diff" by blast
  show ?thesis
  proof (cases "increment_overflow_time t diff")
    case None
    then show ?thesis by (simp add: try_gmtoff_def g d)
  next
    case (Some altt)
    then have "in_range altt" using assms by (auto simp: increment_overflow_time_def split: if_splits)
    then have "f altt = Some (Some (g altt))" "tm_gmtoff (g altt) = off" using runs gmtoff by blast+
    moreover have "off \<noteq> tm_gmtoff yourtm" using True by (simp add: plausible_gmtoff_def g)
    ultimately show ?thesis using Some by (simp add: try_gmtoff_def g d)
  qed
qed

lemma save_seconds_spec:
  assumes "valid_date (tm_year y + 1900) (tm_mon y) (tm_mday y)" "0 \<le> tm_hour y" "tm_hour y < 24" "0 \<le> tm_min y" "tm_min y < 60"
    "- 1000000000 \<le> tm_sec y" "tm_sec y \<le> 1000000000"
  shows "\<exists>z s. save_seconds y = Some (z, s) \<and> valid_tm z \<and> tm_value z + s = tm_total y \<and> - 1000000100 \<le> s \<and> s \<le> 1000000000 \<and>
    tm_isdst z = tm_isdst y \<and> (0 \<le> tm_sec y \<and> tm_sec y < 60 \<longrightarrow> s = 0)"
proof -
  have t: "tm_total y = days_of (tm_year y + 1900) (tm_mon y) (tm_mday y) * 86400 + tm_hour y * 3600 + tm_min y * 60 + tm_sec y"
    using assms(1) tm_total_valid [of y] by (simp add: valid_date_def tm_value_def)
  have "increment_overflow (tm_sec y) (1 - 60) = Some (tm_sec y + (1 - 60))"
    using assms(6,7) by (intro increment_overflow_ok(1)) simp_all
  then show ?thesis using assms t by (auto simp: save_seconds_def valid_tm_def tm_value_def)
qed

lemma to_time_t_sum:
  assumes "in_range v" "- 1000000100 \<le> s" "s \<le> 1000000000"
  shows "((to_time_t (v + s) < v) \<noteq> (s < 0)) = (\<not> in_range (v + s))" "in_range (v + s) \<Longrightarrow> to_time_t (v + s) = v + s"
proof -
  consider "in_range (v + s)" | "v + s > TIME_T_MAX" | "v + s < TIME_T_MIN" by linarith
  then have "(in_range (v + s) \<and> to_time_t (v + s) = v + s) \<or> (v + s > TIME_T_MAX \<and> to_time_t (v + s) = v + s - 2 ^ 32) \<or>
      (v + s < TIME_T_MIN \<and> to_time_t (v + s) = v + s + 2 ^ 32)"
  proof cases
    case 1
    then have "(v + s + 2 ^ 31) mod 2 ^ 32 = v + s + 2 ^ 31" by (intro mod_pos_pos_trivial) simp_all
    then show ?thesis using 1 by (simp add: to_time_t_def)
  next
    case 2
    then have "(v + s + 2 ^ 31) mod 2 ^ 32 = v + s + 2 ^ 31 - 2 ^ 32" using assms by (intro int_mod_pos_eq [of _ _ 1]) simp_all
    then show ?thesis using 2 by (simp add: to_time_t_def)
  next
    case 3
    then have "(v + s + 2 ^ 31) mod 2 ^ 32 = v + s + 2 ^ 31 + 2 ^ 32" using assms by (intro int_mod_pos_eq [of _ _ "- 1"]) simp_all
    then show ?thesis using 3 by (simp add: to_time_t_def)
  qed
  then show "((to_time_t (v + s) < v) \<noteq> (s < 0)) = (\<not> in_range (v + s))" "in_range (v + s) \<Longrightarrow> to_time_t (v + s) = v + s"
    using assms by auto
qed

lemma time2sub_spec:
  assumes "small_tm x" "tm_isdst x = 0"
  defines "n \<equiv> tm_total x - off"
  shows "\<exists>v. time2sub f sp b x = Some (if in_range n \<and> in_range v then (n, Some (g n)) else (WRONG, None)) \<and> (b \<longrightarrow> v = n)"
proof -
  obtain y where y: "norm_tm b x = Some (Some y)" "normal_form b x y" using norm_tm_spec [OF assms(1)] by blast
  have sec: "- 1000000000 \<le> tm_sec y" "tm_sec y \<le> 1000000000"
    using y(2) small_tmD(1,2) [OF assms(1)] by (auto simp: normal_form_def intro: order_trans [of _ 0] order_trans [of _ 60])
  then obtain z s where z: "save_seconds y = Some (z, s)" "valid_tm z" "tm_value z + s = tm_total y" "- 1000000100 \<le> s" "s \<le> 1000000000"
    "tm_isdst z = tm_isdst y" "0 \<le> tm_sec y \<and> tm_sec y < 60 \<longrightarrow> s = 0"
    using save_seconds_spec [of y] y(2) unfolding normal_form_def by blast
  define v where "v = tm_value z - off"
  have n: "n = v + s" using z(3) y(2) by (simp add: n_def v_def normal_form_def)
  have b: "b \<longrightarrow> v = n" using z(7) y(2) n by (simp add: normal_form_def)
  have search: "time_search f z TIME_T_MIN TIME_T_MAX = Some (if in_range v then Some (v, g v) else None)"
    using time_search_spec [OF z(2), of TIME_T_MIN TIME_T_MAX] by (simp add: v_def)
  have "time2sub f sp b x = Some (if in_range n \<and> in_range v then (n, Some (g n)) else (WRONG, None))"
  proof (cases "in_range v")
    case False
    then show ?thesis unfolding time2sub_def by (simp only: y(1) z(1) search try_next_Some prod.case if_False simp_thms bind.bind_lunit option.case)
  next
    case True
    have "tm_isdst (g v) = tm_isdst z" using isdst True z(6) y(2) assms(2) by (simp add: normal_form_def)
    then have right: "right_type f sp z v (g v) = Some (Some v)" by (simp add: right_type_def)
    have wrap: "((to_time_t (v + s) < v) \<noteq> (s < 0)) = (\<not> in_range n)" "in_range n \<Longrightarrow> to_time_t (v + s) = n"
      using to_time_t_sum [of v s] True z(4,5) by (simp_all add: n)
    show ?thesis
    proof (cases "in_range n")
      case in_n: True
      then have "f n = Some (Some (g n))" using runs by blast
      then show ?thesis unfolding time2sub_def
        using True in_n wrap by (simp only: y(1) z(1) search try_next_Some prod.case if_True simp_thms bind.bind_lunit option.case
          try_gmtoff_none right Let_def) simp
    next
      case False
      then show ?thesis unfolding time2sub_def
        using True wrap by (simp only: y(1) z(1) search try_next_Some prod.case if_True simp_thms bind.bind_lunit option.case
          try_gmtoff_none right Let_def) simp
    qed
  qed
  then show ?thesis using b by blast
qed

lemma time2_spec:
  assumes "small_tm x" "tm_isdst x = 0"
  defines "n \<equiv> tm_total x - off"
  shows "time2 f sp x = Some (if in_range n then (n, Some (g n)) else (WRONG, None))"
  using time2sub_spec [OF assms(1,2), of sp False] time2sub_spec [OF assms(1,2), of sp True]
  by (auto simp: time2_def n_def split: if_splits)

end

end
