(* ===== verification/TimeProps.thy ===== *)
theory TimeProps
  imports MktimeProps
begin

text \<open>
  The properties of the conversions between counts of seconds and broken-down times: \<open>gmtime\<close> is exact and \<open>timegm\<close>
  is its inverse on all counts of 32 bits, \<open>timegm\<close> normalises, and \<open>localtime\<close> applies the type of the last
  transition that is not later.
\<close>

section \<open>Universal time\<close>

text \<open>The state that \<open>gmtcheck\<close> sets up for a zone without leap seconds and transitions, or none at all.\<close>

definition utc_state :: "tzstate option \<Rightarrow> bool" where
  "utc_state gmtptr \<longleftrightarrow> (case gmtptr of None \<Rightarrow> True | Some s \<Rightarrow> lsis s = [] \<and> types s = [])"

lemma timesub_no_leap:
  assumes "in_range t" "in_range offset" "case sp of None \<Rightarrow> True | Some s \<Rightarrow> lsis s = []"
  shows "\<exists>x. timesub t offset sp = Some (Some x) \<and> breaks_down (t + offset) 0 x \<and> tm_isdst x = 0 \<and> tm_gmtoff x = offset"
proof -
  have "timesub t offset sp = broken_down t offset 0 60"
    using assms(3) by (cases sp) (simp_all add: timesub_def)
  moreover have "\<not> 60 \<le> (t + offset - 0) mod 60" by (simp add: not_le)
  ultimately show ?thesis using broken_down_spec [of t offset 0 60] assms(1,2) by auto
qed

lemma breaks_down_valid: "breaks_down n 0 x \<Longrightarrow> valid_tm x \<and> tm_value x = n"
  by (simp add: breaks_down_def)

lemma gmtsub_exact:
  assumes "utc_state gmtptr" "in_range off"
  shows "exact_clock (\<lambda>t. gmtsub gmtptr sp t off) (\<lambda>t. the (the (gmtsub gmtptr sp t off))) off"
proof -
  have "case gmtptr of None \<Rightarrow> True | Some s \<Rightarrow> lsis s = []" using assms(1) by (auto simp: utc_state_def split: option.splits)
  from timesub_no_leap [where sp = gmtptr and offset = off, OF _ assms(2) this]
  have "\<exists>x. timesub t off gmtptr = Some (Some x) \<and> valid_tm x \<and> tm_value x = t + off \<and> tm_isdst x = 0 \<and> tm_gmtoff x = off"
    if "in_range t" for t using that breaks_down_valid by blast
  then show ?thesis using assms(2) by unfold_locales (force simp: gmtsub_def)+
qed

interpretation gmt: exact_clock "\<lambda>t. gmtsub None None t 0" "\<lambda>t. the (the (gmtsub None None t 0))" 0
  by (rule gmtsub_exact) (simp_all add: utc_state_def)

lemma breaks_down_small:
  assumes "breaks_down t 0 x" "in_range t"
  shows "small_tm x" "tm_total x = t" "0 \<le> tm_wday x"
proof -
  have v: "valid_tm x" "tm_value x = t" using breaks_down_valid [OF assms(1)] by simp_all
  let ?y = "tm_year x + 1900"
  have vd: "valid_date ?y (tm_mon x) (tm_mday x)" using v(1) by (simp add: valid_tm_def)
  have d: "year_start ?y \<le> days_of ?y (tm_mon x) (tm_mday x)" "days_of ?y (tm_mon x) (tm_mday x) < year_start ?y + 366"
    using days_of_year [OF vd] year_len_bounds(2) [of ?y] by linarith+
  have "days_of ?y (tm_mon x) (tm_mday x) * 86400 \<le> t" "t < days_of ?y (tm_mon x) (tm_mday x) * 86400 + 86400"
    using v by (simp_all add: tm_value_def valid_tm_def)
  then have ys: "year_start ?y \<le> 30000" "- 30000 \<le> year_start ?y" using d assms(2) by linarith+
  have "- 1000 \<le> ?y - 1970 \<and> ?y - 1970 \<le> 1000"
  proof (cases "?y < 1970")
    case True
    then show ?thesis using year_start_span [of "1970 - ?y" ?y] ys by (simp add: year_start_epoch)
  next
    case False
    then show ?thesis using year_start_span [of "?y - 1970" 1970] ys by (simp add: year_start_epoch add.commute [of 1900])
  qed
  moreover have "tm_mday x \<le> 31" using vd mon_lengths_bounds [of "nat (tm_mon x)" "isleap ?y"] by (auto simp: valid_date_def nat_less_iff)
  ultimately show "small_tm x" using v(1) vd by (auto simp: small_tm_def valid_tm_def valid_date_def)
  show "tm_total x = t" using vd v(2) tm_total_valid [of x] by (simp add: valid_date_def)
  show "0 \<le> tm_wday x" using assms(1) by (simp add: breaks_down_def day_of_week_def)
qed

lemma timegm_value:
  assumes "utc_state gmtptr" "small_tm x"
  shows "timegm gmtptr x = Some (if in_range (tm_total x) then (tm_total x, the (the (gmtime_r gmtptr (tm_total x)))) else (WRONG, x))"
proof -
  let ?n = "tm_total x" and ?z = "x\<lparr>tm_wday := - 1, tm_isdst := 0\<rparr>"
  let ?g = "\<lambda>t. the (the (gmtsub gmtptr gmtptr t 0))"
  have c: "exact_clock (\<lambda>t. gmtsub gmtptr gmtptr t 0) ?g 0" using assms(1) by (rule gmtsub_exact) simp
  have z: "small_tm ?z" "tm_total ?z = ?n" using assms(2) by (simp_all add: small_tm_def tm_total_def)
  have t2: "time2 (\<lambda>t. gmtsub gmtptr gmtptr t 0) gmtptr ?z = Some (if in_range ?n then (?n, Some (?g ?n)) else (WRONG, None))"
    using exact_clock.time2_spec [OF c z(1), of gmtptr] using z(2) by simp
  show ?thesis
  proof (cases "in_range ?n")
    case True
    then obtain y where "gmtsub gmtptr gmtptr ?n 0 = Some (Some y)" "breaks_down ?n 0 y"
      using timesub_no_leap [of ?n 0 gmtptr] assms(1) by (auto simp: gmtsub_def utc_state_def split: option.splits)
    then show ?thesis using t2 True breaks_down_small(3) [of ?n y]
      by (simp add: timegm_def timeoff_def time1_def gmtime_r_def)
  next
    case False
    have "time1 (\<lambda>t. gmtsub gmtptr gmtptr t 0) gmtptr ?z = Some (WRONG, ?z)"
      using t2 False assms(1) by (auto simp: time1_def utc_state_def Let_def split: option.splits)
    then show ?thesis using False by (auto simp: timegm_def timeoff_def)
  qed
qed

text \<open>C14: \<open>timegm\<close> inverts \<open>gmtime\<close>: for every count of 32 bits, \<open>gmtime_r\<close> stores the date of the Gregorian calendar, the
  time of day, the day of the week and the day of the year of that count, and \<open>timegm\<close> of the result is the count and
  leaves the broken-down time as it is.\<close>

theorem timegm_gmtime:
  assumes "utc_state gmtptr" "- 2147483648 \<le> t" "t \<le> 2147483647"
  shows "\<exists>x. gmtime_r gmtptr t = Some (Some x) \<and> breaks_down t 0 x \<and> timegm gmtptr x = Some (t, x)"
proof -
  have "case gmtptr of None \<Rightarrow> True | Some s \<Rightarrow> lsis s = []" using assms(1) by (auto simp: utc_state_def split: option.splits)
  then obtain x where x: "gmtime_r gmtptr t = Some (Some x)" "breaks_down t 0 x"
    using timesub_no_leap [of t 0 gmtptr] assms(2,3) by (auto simp: gmtime_r_def gmtsub_def)
  then show ?thesis using timegm_value [OF assms(1) breaks_down_small(1) [OF x(2)]] breaks_down_small(2) [OF x(2)] assms(2,3) by simp
qed

theorem timegm_gmtime_witness:
  "\<exists>x. gmtime_r None 951782400 = Some (Some x) \<and> breaks_down 951782400 0 x \<and> timegm None x = Some (951782400, x)"
  by (rule timegm_gmtime) (simp_all add: utc_state_def)

text \<open>C28: \<open>timegm\<close> normalises: fields that are out of their ranges, up to a thousand million either way, carry into the
  larger ones, so that the result is the count of seconds of the date; a count that does not fit into \<open>time_t\<close> is
  reported as \<open>WRONG\<close>, and the argument is then left alone.\<close>

theorem timegm_normalises:
  assumes "utc_state gmtptr" "small_tm x"
  shows "timegm gmtptr x = Some (if - 2147483648 \<le> tm_total x \<and> tm_total x \<le> 2147483647
      then (tm_total x, the (the (gmtime_r gmtptr (tm_total x)))) else (WRONG, x))"
  by (rule timegm_value [OF assms])

theorem timegm_normalises_witness:
  "let x = \<lparr>tm_sec = - 1, tm_min = 0, tm_hour = 0, tm_mday = 0, tm_mon = 14, tm_year = 99, tm_wday = 0, tm_yday = 0, tm_isdst = 0, tm_gmtoff = 0\<rparr>
   in timegm None x = Some (tm_total x, the (the (gmtime_r None (tm_total x)))) \<and> tm_total x = 951782399"
  unfolding Let_def
  by (subst timegm_normalises)
    (simp_all add: utc_state_def small_tm_def tm_total_def days_of_def year_start_def month_start_def mon_lengths_def isleap_iff upt_rec)

section \<open>Local time\<close>

lemma trans_search_spec:
  assumes "sorted tab" "lo \<le> hi" "hi \<le> length tab" "\<forall>i < lo. tab ! i \<le> t" "\<forall>i. hi \<le> i \<longrightarrow> i < length tab \<longrightarrow> t < tab ! i"
  shows "trans_search tab t lo hi = length (filter (\<lambda>a. a \<le> t) tab)"
  using assms
proof (induction tab t lo hi rule: trans_search.induct)
  case (1 tab t lo hi)
  show ?case
  proof (cases "lo < hi")
    case False
    then have split: "\<forall>a \<in> set (take lo tab). a \<le> t" "\<forall>a \<in> set (drop lo tab). t < a"
      using 1(4-7) by (auto simp: in_set_conv_nth)
    have "filter (\<lambda>a. a \<le> t) (take lo tab @ drop lo tab) = take lo tab"
      using split by (subst filter_append) (auto simp: filter_id_conv filter_empty_conv)
    then show ?thesis using False 1(4,5) by (subst trans_search.simps) simp
  next
    case True
    define mid where "mid = (lo + hi) div 2"
    have m: "lo \<le> mid" "mid < hi" using True by (simp_all add: mid_def)
    show ?thesis
    proof (cases "t < tab ! mid")
      case left: True
      have "t < tab ! i" if "mid \<le> i" "i < length tab" for i
        using left sorted_nth_mono [OF 1(3) that] by simp
      then show ?thesis using left True m 1(1) [OF True mid_def left 1(3)] 1(4-7) by (subst trans_search.simps) (simp flip: mid_def)
    next
      case right: False
      have "tab ! i \<le> t" if "i < Suc mid" for i
        using right sorted_nth_mono [OF 1(3), of i mid] that m 1(5) by simp
      then show ?thesis using right True m 1(2) [OF True mid_def right 1(3)] 1(4-7) by (subst trans_search.simps) (simp flip: mid_def)
    qed
  qed
qed

lemma leap_scan_corr: "fst (leap_scan ls t n) = leapcorr_scan ls t n"
  by (induction n) (simp_all add: Let_def)

lemma leapcorr_range:
  assumes "\<forall>l \<in> set ls. in_range (ls_corr l)" "n \<le> length ls"
  shows "in_range (leapcorr_scan ls t n)"
  using assms by (induction n) simp_all

lemma timesub_spec:
  assumes "in_range t" "in_range offset" "\<forall>l \<in> set (lsis s). in_range (ls_corr l)"
  shows "\<exists>x hit. timesub t offset (Some s) = Some (Some x) \<and> breaks_down (t + offset - leapcorr s t) hit x \<and>
    (lsis s = [] \<longrightarrow> hit = 0) \<and> (hit = 0 \<or> hit = 1) \<and> tm_isdst x = 0 \<and> tm_gmtoff x = offset"
proof -
  let ?r = "leap_scan (lsis s) t (length (lsis s))"
  have "timesub t offset (Some s) = broken_down t offset (leapcorr s t) (snd ?r)"
    by (simp add: timesub_def leapcorr_def leap_scan_corr [symmetric] split_beta)
  moreover have "in_range (leapcorr s t)" using leapcorr_range [OF assms(3) order.refl, of t] by (simp add: leapcorr_def)
  moreover have "\<not> snd ?r \<le> n mod 60" if "lsis s = []" for n using that by (simp add: not_le)
  ultimately show ?thesis using broken_down_spec [of t offset "leapcorr s t" "snd ?r"] assms(1,2) by fastforce
qed

text \<open>The type of local time that a table of transitions prescribes.\<close>

definition local_type :: "tzstate \<Rightarrow> int \<Rightarrow> nat" where
  "local_type s t = (case filter (\<lambda>(a, i). a \<le> t) (zip (ats s) (types s)) of [] \<Rightarrow> defaulttype s | ps \<Rightarrow> snd (last ps))"

definition zone_ok :: "tzstate \<Rightarrow> bool" where
  "zone_ok s \<longleftrightarrow> \<not> goback s \<and> \<not> goahead s \<and> sorted (ats s) \<and> length (types s) = length (ats s) \<and> defaulttype s < length (ttis s) \<and>
    (\<forall>i \<in> set (types s). i < length (ttis s)) \<and> (\<forall>ti \<in> set (ttis s). in_range (tt_utoff ti)) \<and> (\<forall>l \<in> set (lsis s). in_range (ls_corr l))"

lemma zip_filter_sorted:
  assumes "sorted xs" "length ys = length xs"
  shows "filter (\<lambda>(a, i). a \<le> t) (zip xs ys) = take (length (filter (\<lambda>a. a \<le> t) xs)) (zip xs ys)"
  using assms(2,1)
proof (induction xs ys rule: list_induct2')
  case (4 x xs y ys)
  show ?case
  proof (cases "x \<le> t")
    case False
    then have "\<forall>a \<in> set xs. \<not> a \<le> t" using 4(3) by auto
    then have "filter (\<lambda>a. a \<le> t) xs = []" "filter (\<lambda>(a, i). a \<le> t) (zip xs ys) = []" by (auto simp: filter_empty_conv dest: set_zip_leftD)
    then show ?thesis using False by simp
  qed (use 4 in simp)
qed simp_all

lemma last_take: "n < length xs \<Longrightarrow> last (take (Suc n) xs) = xs ! n"
  by (simp add: take_Suc_conv_app_nth)

lemma local_type_search:
  assumes "sorted (ats s)" "length (types s) = length (ats s)"
  shows "(if ats s = [] \<or> t < ats s ! 0 then Some (defaulttype s) else get (types s) (trans_search (ats s) t 1 (length (ats s)) - 1)) =
    Some (local_type s t)"
proof (cases "ats s = [] \<or> t < ats s ! 0")
  case True
  then have "filter (\<lambda>(a, i). a \<le> t) (zip (ats s) (types s)) = []"
    using assms(1) by (auto simp: filter_empty_conv in_set_zip sorted_iff_nth_mono)
      (metis le0 length_greater_0_conv list.size(3) order.strict_trans1 order.strict_trans2 not_less)
  then show ?thesis using True by (simp add: local_type_def)
next
  case False
  let ?n = "length (filter (\<lambda>a. a \<le> t) (ats s))"
  have n: "?n \<le> length (ats s)" by (rule length_filter_le)
  have "ats s ! 0 \<in> set (filter (\<lambda>a. a \<le> t) (ats s))" using False by (cases "ats s") auto
  then have "?n \<noteq> 0" by (metis length_0_conv list.set(1) empty_iff)
  then obtain m where m: "?n = Suc m" by (cases ?n) simp_all
  have search: "trans_search (ats s) t 1 (length (ats s)) = Suc m"
    using False assms(1) m by (subst trans_search_spec) (auto simp: Suc_le_eq)
  have l: "m < length (zip (ats s) (types s))" using m n assms(2) by simp
  then obtain p ps where p: "take (Suc m) (zip (ats s) (types s)) = p # ps" by (cases "take (Suc m) (zip (ats s) (types s))") auto
  have "last (p # ps) = (ats s ! m, types s ! m)" using last_take [OF l] l by (simp add: p [symmetric] nth_zip del: last.simps)
  moreover have "filter (\<lambda>(a, i). a \<le> t) (zip (ats s) (types s)) = p # ps" using zip_filter_sorted [OF assms, of t] m p by simp
  ultimately have "local_type s t = types s ! m" by (simp add: local_type_def del: last.simps)
  then show ?thesis using False l search by (simp add: get_def)
qed

lemma local_type_valid:
  assumes "zone_ok s"
  shows "local_type s t < length (ttis s)"
proof (cases "filter (\<lambda>(a, i). a \<le> t) (zip (ats s) (types s))")
  case (Cons p ps)
  then have "last (p # ps) \<in> set (zip (ats s) (types s))" using last_in_set [of "p # ps"] by (metis filter_is_subset list.distinct(1) subsetD)
  then have "snd (last (p # ps)) \<in> set (types s)" using in_set_zipE [of _ _ "ats s" "types s"] by (metis prod.collapse)
  then show ?thesis using assms Cons by (simp add: local_type_def zone_ok_def)
qed (use assms in \<open>simp add: local_type_def zone_ok_def\<close>)

text \<open>C23: \<open>localtime_rz\<close> applies the type of local time that the table of transitions prescribes: the type of the last
  transition that is not later than the time, or the default type before the first. The result is the date and time of
  day of that offset, less the correction for leap seconds; only during a leap second is the second off by one.\<close>

theorem localtime_type:
  assumes "zone_ok s" "- 2147483648 \<le> t" "t \<le> 2147483647"
  shows "\<exists>x hit. localsub gmtptr (Some s) t = Some (Some x) \<and>
    breaks_down (t + tt_utoff (ttis s ! local_type s t) - leapcorr s t) hit x \<and> (lsis s = [] \<longrightarrow> hit = 0) \<and> (hit = 0 \<or> hit = 1) \<and>
    tm_isdst x = tt_isdst (ttis s ! local_type s t) \<and> tm_gmtoff x = tt_utoff (ttis s ! local_type s t)"
proof -
  let ?ti = "ttis s ! local_type s t"
  have z: "\<not> goback s" "\<not> goahead s" "sorted (ats s)" "length (types s) = length (ats s)" "\<forall>l \<in> set (lsis s). in_range (ls_corr l)"
    using assms(1) by (simp_all add: zone_ok_def)
  have i: "local_type s t < length (ttis s)" by (rule local_type_valid [OF assms(1)])
  then have "in_range (tt_utoff ?ti)" using assms(1) by (simp add: zone_ok_def)
  from timesub_spec [OF _ this z(5), of t] assms(2,3) obtain x hit where
    x: "timesub t (tt_utoff ?ti) (Some s) = Some (Some x)" "breaks_down (t + tt_utoff ?ti - leapcorr s t) hit x" "lsis s = [] \<longrightarrow> hit = 0" "hit = 0 \<or> hit = 1"
      "tm_gmtoff x = tt_utoff ?ti" by blast
  have "localsub gmtptr (Some s) t = Some (Some (x\<lparr>tm_isdst := tt_isdst ?ti\<rparr>))"
    using z(1,2) i x(1) by (subst localsub.simps) (simp add: local_type_search [OF z(3,4)] get_def)
  moreover have "breaks_down (t + tt_utoff ?ti - leapcorr s t) hit (x\<lparr>tm_isdst := tt_isdst ?ti\<rparr>)"
    using x(2) by (simp add: breaks_down_def valid_tm_def tm_value_def)
  ultimately show ?thesis using x(3-5) by (intro exI [of _ "x\<lparr>tm_isdst := tt_isdst ?ti\<rparr>"] exI [of _ hit]) simp
qed

theorem localtime_type_witness:
  "let s = \<lparr>goback = False, goahead = False, ats = [100, 500], types = [1, 0], ttis = [init_ttinfo 3600 0 0, init_ttinfo 7200 1 4],
     chars = [], lsis = [], defaulttype = 0\<rparr>
   in local_type s 400 = 1 \<and> (\<exists>x hit. localsub None (Some s) 400 = Some (Some x) \<and> breaks_down (400 + tt_utoff (ttis s ! local_type s 400) - leapcorr s 400) hit x \<and>
    (lsis s = [] \<longrightarrow> hit = 0) \<and> (hit = 0 \<or> hit = 1) \<and> tm_isdst x = tt_isdst (ttis s ! local_type s 400) \<and> tm_gmtoff x = tt_utoff (ttis s ! local_type s 400))"
  unfolding Let_def
  by (intro conjI localtime_type; simp add: zone_ok_def local_type_def init_ttinfo_def)

end
