(* ===== verification/StrCase.thy ===== *)
theory StrCase
  imports Ctype StrMisc
begin

text \<open>
  The string routines that look at the case of letters or at digits: \<open>strlwr\<close>, \<open>strupr\<close>, \<open>strcasecmp\<close>,
  \<open>strncasecmp\<close>, \<open>strcasestr\<close>, \<open>strverscmp\<close>, and the trivial \<open>strcoll\<close> and \<open>strxfrm\<close>. A \<open>char\<close> is signed: it
  reaches \<open>toupper\<close> with its sign (\<open>scast\<close>) unless the code casts it.
\<close>

section \<open>Operations\<close>

partial_function (option) lwr_loop :: "bmem \<Rightarrow> nat \<Rightarrow> bmem option" where
  "lwr_loop m string =
    do { c \<leftarrow> ld m string;
         if c = 0 then Some m
         else do { m \<leftarrow> (if isupper (scast c) \<noteq> 0 then st m string (ucast (tolower (scast c))) else Some m);
                   lwr_loop m (string + 1) } }"

definition strlwr :: "bmem \<Rightarrow> nat \<Rightarrow> (bmem \<times> nat) option" where
  "strlwr m string = do { m \<leftarrow> (if string \<noteq> null then lwr_loop m string else Some m); Some (m, string) }"

partial_function (option) upr_loop :: "bmem \<Rightarrow> nat \<Rightarrow> bmem option" where
  "upr_loop m string =
    do { c \<leftarrow> ld m string;
         if c = 0 then Some m
         else do { m \<leftarrow> (if islower (scast c) \<noteq> 0 then st m string (ucast (toupper (scast c))) else Some m);
                   upr_loop m (string + 1) } }"

definition strupr :: "bmem \<Rightarrow> nat \<Rightarrow> (bmem \<times> nat) option" where
  "strupr m string = do { m \<leftarrow> (if string \<noteq> null then upr_loop m string else Some m); Some (m, string) }"

text \<open>\<open>strcasecmp\<close> compares signed characters, \<open>strncasecmp\<close> unsigned ones.\<close>

partial_function (option) casecmp_loop :: "bmem \<Rightarrow> nat \<Rightarrow> nat \<Rightarrow> (byte \<times> byte) option" where
  "casecmp_loop m scan1 scan2 =
    do { c \<leftarrow> ld m scan1; d \<leftarrow> ld m scan2;
         let c1 = ucast (toupper (scast c)); c2 = ucast (toupper (scast d)) in
         if c1 \<noteq> 0 \<and> c1 = c2 then casecmp_loop m (scan1 + 1) (scan2 + 1) else Some (c1, c2) }"

definition strcasecmp :: "bmem \<Rightarrow> nat \<Rightarrow> nat \<Rightarrow> int option" where
  "strcasecmp m scan1 scan2 =
    (if scan1 = null then Some (if scan2 \<noteq> null then -1 else 0)
     else if scan2 = null then Some 1
     else do { (c1, c2) \<leftarrow> casecmp_loop m scan1 scan2;
               Some (if c1 = c2 then 0 else if c1 = 0 then -1 else if c2 = 0 then 1 else sint c1 - sint c2) })"

partial_function (option) ncasecmp_loop :: "bmem \<Rightarrow> nat \<Rightarrow> nat \<Rightarrow> u32 \<Rightarrow> (byte \<times> byte \<times> u32) option" where
  "ncasecmp_loop m scan1 scan2 cnt =
    do { c \<leftarrow> ld m scan1; d \<leftarrow> ld m scan2;
         let c1 = ucast (toupper (ucast c)); c2 = ucast (toupper (ucast d)) in
         if 0 \<le> sint (cnt - 1) \<and> c1 \<noteq> 0 \<and> c1 = c2 then ncasecmp_loop m (scan1 + 1) (scan2 + 1) (cnt - 1)
         else Some (c1, c2, cnt - 1) }"

definition strncasecmp :: "bmem \<Rightarrow> nat \<Rightarrow> nat \<Rightarrow> u32 \<Rightarrow> int option" where
  "strncasecmp m scan1 scan2 n =
    (if scan1 = null then Some (if scan2 \<noteq> null then -1 else 0)
     else if scan2 = null then Some 1
     else do { (c1, c2, cnt) \<leftarrow> ncasecmp_loop m scan1 scan2 n;
               Some (if sint cnt < 0 then 0 else char_order c1 c2) })"

partial_function (option) casestr_loop :: "bmem \<Rightarrow> nat \<Rightarrow> nat \<Rightarrow> byte \<Rightarrow> u32 \<Rightarrow> nat option" where
  "casestr_loop m scan wanted firstc len =
    do { c \<leftarrow> ld m scan;
         different \<leftarrow> (if toupper (scast c) \<noteq> toupper (scast firstc) then Some True
                       else do { r \<leftarrow> strncasecmp m scan wanted len; Some (r \<noteq> 0) });
         if different then if c = 0 then Some null else casestr_loop m (scan + 1) wanted firstc len
         else Some scan }"

definition strcasestr :: "bmem \<Rightarrow> nat \<Rightarrow> nat \<Rightarrow> nat option" where
  "strcasestr m s wanted =
    do { c \<leftarrow> ld m s; w \<leftarrow> ld m wanted;
         if c = 0 then Some (if w \<noteq> 0 then null else s)
         else if w = 0 then Some s
         else do { len \<leftarrow> strlen m wanted; casestr_loop m s wanted w (of_nat len) } }"

definition strcoll :: "bmem \<Rightarrow> nat \<Rightarrow> nat \<Rightarrow> int option" where
  "strcoll m scan1 scan2 = strcmp m scan1 scan2"

definition strxfrm :: "nat \<Rightarrow> bmem \<Rightarrow> nat \<Rightarrow> nat \<Rightarrow> u32 \<Rightarrow> (bmem \<times> nat) option" where
  "strxfrm empty_str m to from maxsize =
    do { (m, _) \<leftarrow> strncpy empty_str m to from (maxsize - 1);
         m \<leftarrow> st m (to + unat maxsize) 0;
         n \<leftarrow> strlen m to;
         Some (m, n) }"

text \<open>Version strings. The states and the two tables are those of the code; the last table has 60 entries.\<close>

definition next_state :: "nat list" where
  "next_state = [0, 4, 12, 0,  0, 4, 4, 4,  0, 8, 8, 8,  0, 8, 12, 12]"

definition result_type :: "int list" where
  "result_type =
    [2, 2, 2, 2, 2, 3, 2, 2,  2, 2, 2, 2, 2, 2, 2, 2,
     2, -1, -1, 2, 1, 3, 3, 2,  1, 3, 3, 2, 2, 2, 2, 2,
     2, 2, 2, 2, 2, 3, 2, 2,  2, 2, 2, 2, 2, 2, 2, 2,
     2, 1, 1, 2, -1, 2, 2, 2,  -1, 2, 2, 2]"

text \<open>The symbol of a character: 0 for other characters, 1 for a digit from 1 on, 2 for a zero.\<close>

definition symbol :: "byte \<Rightarrow> nat" where
  "symbol c = (if c = 48 then 1 else 0) + (if isdigit (ucast c) \<noteq> 0 then 1 else 0)"

partial_function (option) vers_loop :: "bmem \<Rightarrow> nat \<Rightarrow> nat \<Rightarrow> nat \<Rightarrow> byte \<Rightarrow> byte \<Rightarrow> (nat \<times> nat \<times> nat \<times> byte \<times> byte) option" where
  "vers_loop m state p1 p2 c1 c2 =
    (if c1 = c2 \<and> c1 \<noteq> 0 then
       do { state \<leftarrow> get next_state state; c1 \<leftarrow> ld m p1; c2 \<leftarrow> ld m p2;
            vers_loop m (state + symbol c1) (p1 + 1) (p2 + 1) c1 c2 }
     else Some (state, p1, p2, c1, c2))"

partial_function (option) vers_len :: "bmem \<Rightarrow> nat \<Rightarrow> nat \<Rightarrow> int \<Rightarrow> int option" where
  "vers_len m p1 p2 diff =
    do { c \<leftarrow> ld m p1;
         d \<leftarrow> ld m p2;
         if isdigit (ucast c) \<noteq> 0 then if isdigit (ucast d) = 0 then Some 1 else vers_len m (p1 + 1) (p2 + 1) diff
         else Some (if isdigit (ucast d) \<noteq> 0 then -1 else diff) }"

definition strverscmp :: "bmem \<Rightarrow> nat \<Rightarrow> nat \<Rightarrow> int option" where
  "strverscmp m s1 s2 =
    (if s1 = s2 then Some 0
     else do { c1 \<leftarrow> ld m s1; c2 \<leftarrow> ld m s2;
               (state, p1, p2, c1, c2) \<leftarrow> vers_loop m (symbol c1) (s1 + 1) (s2 + 1) c1 c2;
               r \<leftarrow> get result_type (4 * state + symbol c2);
               if r = 2 then Some (uint c1 - uint c2)
               else if r = 3 then vers_len m p1 p2 (uint c1 - uint c2)
               else Some r })"

section \<open>Letters\<close>

definition upper :: "byte \<Rightarrow> byte" where "upper c = (if 97 \<le> c \<and> c \<le> 122 then c - 32 else c)"
definition lower :: "byte \<Rightarrow> byte" where "lower c = (if 65 \<le> c \<and> c \<le> 90 then c + 32 else c)"

lemma byte_range: "n < 256 \<Longrightarrow> m < 256 \<Longrightarrow> (of_nat n \<le> (c :: byte) \<and> c \<le> of_nat m) = (n \<le> unat c \<and> unat c \<le> m)"
proof -
  assume "n < 256" "m < 256"
  then have "unat (of_nat n :: byte) = n" "unat (of_nat m :: byte) = m" by (simp_all add: unat_of_nat take_bit_nat_eq_self)
  then show ?thesis by (simp only: word_le_nat_alt)
qed

lemma islower_upper: "islower (scast (c :: byte)) \<noteq> 0 \<longleftrightarrow> 97 \<le> c \<and> c \<le> 122" "islower (ucast (c :: byte)) \<noteq> 0 \<longleftrightarrow> 97 \<le> c \<and> c \<le> 122"
proof -
  show l: "islower (scast c) \<noteq> 0 \<longleftrightarrow> 97 \<le> c \<and> c \<le> 122" by (simp only: islower_byte word_le_nat_alt) simp
  show "islower (ucast c) \<noteq> 0 \<longleftrightarrow> 97 \<le> c \<and> c \<le> 122" using l by (simp only: islower_def class_byte)
qed

lemma isupper_byte: "isupper (scast (c :: byte)) \<noteq> 0 \<longleftrightarrow> 65 \<le> c \<and> c \<le> 90" "isupper (ucast (c :: byte)) \<noteq> 0 \<longleftrightarrow> 65 \<le> c \<and> c \<le> 90"
proof -
  have "isupper (of_nat (unat c)) \<noteq> 0 \<longleftrightarrow> unat c \<in> {65..90}"
    using byte_255 [of c] ctype_cases(3) [of "unat c"] ctype_cases_255(3) by (cases "unat c = 255") simp_all
  then show "isupper (scast c) \<noteq> 0 \<longleftrightarrow> 65 \<le> c \<and> c \<le> 90" "isupper (ucast c) \<noteq> 0 \<longleftrightarrow> 65 \<le> c \<and> c \<le> 90"
    by (simp_all only: isupper_def class_byte word_le_nat_alt) simp_all
qed

lemma low_bits:
  assumes "\<forall>k \<in> set [a..<Suc b]. P (of_nat k :: byte)" "of_nat a \<le> c" "c \<le> of_nat b" "b < 256"  "a < 256"
  shows "P c"
proof -
  have "unat c \<in> set [a..<Suc b]" using assms byte_range [of a b c] by auto
  then show ?thesis using assms(1) by fastforce
qed

lemma toupper_byte: "toupper (scast (c :: byte)) = scast (upper c)" "toupper (ucast (c :: byte)) = ucast (upper c)"
proof -
  have "(scast c :: u32) AND NOT 0x20 = scast (c - 32) \<and> (ucast c :: u32) AND NOT 0x20 = ucast (c - 32)" if "97 \<le> c" "c \<le> 122"
    by (rule low_bits [of 97 122]) (use that in \<open>simp_all add: upt_rec\<close>)
  then show "toupper (scast c) = scast (upper c)" "toupper (ucast c) = ucast (upper c)"
    using islower_upper [of c] by (auto simp: toupper_def upper_def)
qed

lemma tolower_byte: "tolower (scast (c :: byte)) = scast (lower c)" "tolower (ucast (c :: byte)) = ucast (lower c)"
proof -
  have "(scast c :: u32) OR 0x20 = scast (c + 32) \<and> (ucast c :: u32) OR 0x20 = ucast (c + 32)" if "65 \<le> c" "c \<le> 90"
    by (rule low_bits [of 65 90]) (use that in \<open>simp_all add: upt_rec\<close>)
  then show "tolower (scast c) = scast (lower c)" "tolower (ucast c) = ucast (lower c)"
    using isupper_byte [of c] by (auto simp: tolower_def lower_def)
qed

lemma case_byte [simp]:
  "ucast (toupper (scast c)) = upper c" "ucast (toupper (ucast c)) = upper c" "ucast (tolower (scast c)) = lower c" "ucast (tolower (ucast c)) = lower c"
  for c :: byte
  by (simp_all only: toupper_byte tolower_byte ucast_scast_byte ucast_ucast_byte)

lemma unat_upper: "unat (upper c) = (if 97 \<le> unat c \<and> unat c \<le> 122 then unat c - 32 else unat c)"
proof (cases "97 \<le> c \<and> c \<le> 122")
  case True
  then have "32 \<le> c" by (auto simp: word_le_nat_alt)
  then have "unat (c - 32) = unat c - 32" by (simp add: unat_sub)
  then show ?thesis using True by (simp add: upper_def word_le_nat_alt)
qed (auto simp: upper_def word_le_nat_alt)

lemma unat_lower: "unat (lower c) = (if 65 \<le> unat c \<and> unat c \<le> 90 then unat c + 32 else unat c)"
proof (cases "65 \<le> c \<and> c \<le> 90")
  case True
  then have "unat c + 32 < 2 ^ 8" by (simp add: word_le_nat_alt)
  then have "unat (c + 32) = unat c + 32" by (simp add: unat_word_ariths)
  then show ?thesis using True by (simp add: lower_def word_le_nat_alt)
qed (auto simp: lower_def word_le_nat_alt)

lemma upper_0 [simp]: "upper c = 0 \<longleftrightarrow> c = 0"
  by (simp only: word_unat_eq_iff unat_upper) auto

lemma lower_other:
  fixes c d :: byte
  assumes "unat d < 65 \<or> 122 < unat d \<or> 91 \<le> unat d \<and> unat d \<le> 96"
  shows "lower c = d \<longleftrightarrow> c = d"
  using assms by (simp only: word_unat_eq_iff unat_lower) auto

section \<open>Strings without case\<close>

lemma upr_loop_spec:
  "cstr m p s \<Longrightarrow> upr_loop m p = Some (wr m p (map upper s))"
proof (induction s arbitrary: m p)
  case Nil
  then show ?case by (subst upr_loop.simps) (simp add: cstr_Nil ld_def)
next
  case (Cons c s)
  have u: "islower (scast c) = 0 \<Longrightarrow> upper c = c" using islower_upper(1) [of c] by (simp add: upper_def)
  have "cstr (m(p \<mapsto> upper c)) (Suc p) s" "cstr (m(p \<mapsto> c)) (Suc p) s" using Cons.prems by (simp_all add: cstr_Cons cstr_upd_other)
  moreover have "m(p \<mapsto> c) = m" using Cons.prems by (auto simp: cstr_Cons)
  ultimately show ?case using Cons u
    by (subst upr_loop.simps) (auto simp: cstr_Cons ld_def st_def wr_Cons simp del: fun_upd_apply)
qed

lemma lwr_loop_spec:
  "cstr m p s \<Longrightarrow> lwr_loop m p = Some (wr m p (map lower s))"
proof (induction s arbitrary: m p)
  case Nil
  then show ?case by (subst lwr_loop.simps) (simp add: cstr_Nil ld_def)
next
  case (Cons c s)
  have u: "isupper (scast c) = 0 \<Longrightarrow> lower c = c" using isupper_byte(1) [of c] by (simp add: lower_def)
  have "cstr (m(p \<mapsto> lower c)) (Suc p) s" "cstr (m(p \<mapsto> c)) (Suc p) s" using Cons.prems by (simp_all add: cstr_Cons cstr_upd_other)
  moreover have "m(p \<mapsto> c) = m" using Cons.prems by (auto simp: cstr_Cons)
  ultimately show ?case using Cons u
    by (subst lwr_loop.simps) (auto simp: cstr_Cons ld_def st_def wr_Cons simp del: fun_upd_apply)
qed

text \<open>The comparison of signed characters.\<close>

definition signed_order :: "byte \<Rightarrow> byte \<Rightarrow> int" where
  "signed_order c1 c2 = (if c1 = c2 then 0 else if c1 = 0 then -1 else if c2 = 0 then 1 else sint c1 - sint c2)"

lemma signed_order_simps [simp]:
  "signed_order c c = 0" "d \<noteq> 0 \<Longrightarrow> signed_order 0 d = -1" "c \<noteq> 0 \<Longrightarrow> signed_order c 0 = 1"
  "c \<noteq> 0 \<Longrightarrow> d \<noteq> 0 \<Longrightarrow> c \<noteq> d \<Longrightarrow> signed_order c d = sint c - sint d"
  by (simp_all add: signed_order_def)

lemma case_0 [simp]: "upper 0 = 0" "lower 0 = 0"
  by (simp_all add: upper_def lower_def)

lemma toupper_0 [simp]: "toupper 0 = 0"
  using toupper_byte(2) [of 0] by (simp add: upper_def)

fun signed_val :: "byte list \<Rightarrow> byte list \<Rightarrow> int" where
  "signed_val [] [] = 0"
| "signed_val [] (d # t) = -1"
| "signed_val (c # s) [] = 1"
| "signed_val (c # s) (d # t) = (if c = d then signed_val s t else sint c - sint d)"

lemma strcasecmp_spec:
  assumes "cstr m p s" "cstr m q t" "p \<noteq> 0" "q \<noteq> 0"
  shows "strcasecmp m p q = Some (signed_val (map upper s) (map upper t))"
proof -
  have "\<exists>c1 c2. casecmp_loop m p q = Some (c1, c2) \<and> signed_order c1 c2 = signed_val (map upper s) (map upper t)"
    using assms(1,2)
  proof (induction s t arbitrary: p q rule: list_induct2')
    case (4 c s d t)
    show ?case
    proof (cases "upper c = upper d")
      case True
      then show ?thesis using "4.IH" [of "Suc p" "Suc q"] "4.prems" by (subst casecmp_loop.simps) (simp add: cstr_Cons ld_def)
    next
      case False
      then show ?thesis using "4.prems" by (subst casecmp_loop.simps) (simp add: cstr_Cons ld_def)
    qed
  qed (subst casecmp_loop.simps, simp add: cstr_Nil cstr_Cons ld_def Let_def)+
  then obtain c1 c2 where c: "casecmp_loop m p q = Some (c1, c2)" "signed_order c1 c2 = signed_val (map upper s) (map upper t)" by blast
  then show ?thesis using assms(3,4) by (simp add: strcasecmp_def null_def flip: signed_order_def)
qed

text \<open>
  The other two are the routines that distinguish case, on the memory with all letters in upper case.
\<close>

definition upper_mem :: "bmem \<Rightarrow> bmem" where
  "upper_mem m = (\<lambda>a. map_option upper (m a))"

lemma cstr_upper_mem: "cstr m p s \<Longrightarrow> cstr (upper_mem m) p (map upper s)"
  by (induction s arbitrary: p) (simp_all add: cstr_Nil cstr_Cons upper_mem_def)

lemma ncasecmp_loop_upper:
  assumes "strncmp_loop (upper_mem m) p q n = Some r"
  shows "ncasecmp_loop m p q n = Some r"
  using assms
proof (induction "upper_mem m" p q n r rule: strncmp_loop.raw_induct [rotated 1, consumes 1])
  case (1 f p q n r)
  obtain c d where c: "m p = Some c" "m q = Some d"
    using 1(2) by (auto simp: ld_def upper_mem_def bind_eq_Some_conv)
  have u: "upper_mem m p = Some (upper c)" "upper_mem m q = Some (upper d)" using c by (simp_all add: upper_mem_def)
  show ?case
  proof (cases "0 \<le> sint (n - 1) \<and> upper c \<noteq> 0 \<and> upper c = upper d")
    case True
    then have "d \<noteq> 0" using upper_0 by metis
    then show ?thesis using 1 c u True by (subst ncasecmp_loop.simps) (simp add: ld_def)
  next
    case False
    then show ?thesis using 1(2) c u by (subst ncasecmp_loop.simps) (auto simp: ld_def)
  qed
qed

lemma strncasecmp_upper:
  assumes "strncmp (upper_mem m) p q n = Some r"
  shows "strncasecmp m p q n = Some r"
proof (cases "p = null \<or> q = null")
  case False
  then obtain x where x: "strncmp_loop (upper_mem m) p q n = Some x" using assms by (auto simp: strncmp_def bind_eq_Some_conv)
  then show ?thesis using assms ncasecmp_loop_upper [OF x] False by (simp add: strncmp_def strncasecmp_def)
qed (use assms in \<open>auto simp: strncmp_def strncasecmp_def\<close>)

lemma scast_byte_inject: "(scast (c :: byte) :: u32) = scast d \<longleftrightarrow> c = d"
  using ucast_scast_byte by metis

lemma casestr_loop_upper:
  assumes "strstr_loop (upper_mem m) p q (upper w) n = Some r"
  shows "casestr_loop m p q w n = Some r"
  using assms
proof (induction "upper_mem m" p q "upper w" n r rule: strstr_loop.raw_induct [rotated 1, consumes 1])
  case (1 f p q n r)
  obtain c where c: "m p = Some c" using 1(2) by (auto simp: ld_def upper_mem_def bind_eq_Some_conv)
  have up: "upper_mem m p = Some (upper c)" using c by (simp add: upper_mem_def)
  obtain different where d: "(if upper c \<noteq> upper w then Some True else do { r \<leftarrow> strncmp (upper_mem m) p q n; Some (r \<noteq> 0) }) = Some different"
    "(if different then if upper c = 0 then Some null else f (upper_mem m) (p + 1) q (upper w) n else Some p) = Some r"
    using 1(2) up by (auto simp: ld_def bind_eq_Some_conv)
  have "(if toupper (scast c) \<noteq> toupper (scast w) then Some True else do { r \<leftarrow> strncasecmp m p q n; Some (r \<noteq> 0) }) = Some different"
    using d(1) by (auto simp: toupper_byte scast_byte_inject bind_eq_Some_conv dest: strncasecmp_upper split: if_splits)
  moreover have "(if different then if c = 0 then Some null else casestr_loop m (p + 1) q w n else Some p) = Some r"
    using d(2) 1(1) by (auto split: if_splits)
  ultimately show ?case using c by (subst casestr_loop.simps) (simp add: ld_def)
qed

lemma strcasestr_upper:
  assumes "cstr m p s" "cstr m q w" "p \<noteq> 0" "q \<noteq> 0" "length w < 2 ^ 31"
  shows "strcasestr m p q = strstr (upper_mem m) p q"
proof -
  note u = cstr_upper_mem [OF assms(1)] cstr_upper_mem [OF assms(2)]
  show ?thesis
  proof (cases "s = [] \<or> w = []")
    case True
    then show ?thesis using assms(1,2) u by (cases s; cases w) (auto simp: strcasestr_def strstr_def cstr_Nil cstr_Cons ld_def)
  next
    case False
    then obtain c s' d w' where s: "s = c # s'" "w = d # w'" by (cases s; cases w) auto
    have "strstr_loop (upper_mem m) p q (upper d) (of_nat (length w)) = Some (found p (sub_index (map upper w) (map upper s)))"
      using strstr_loop_spec [OF u assms(3,4)] assms(5) s by simp
    from casestr_loop_upper [OF this] this show ?thesis
      using assms(1,2) u strlen_spec [OF assms(2,4)] strlen_spec [OF u(2) assms(4)] s
      by (simp add: strcasestr_def strstr_def cstr_Cons ld_def)
  qed
qed

text \<open>The routines that ignore case agree with those that do not on the strings in upper case: \<open>strcasestr\<close> finds the
  first occurrence as \<open>strstr\<close> would, \<open>strcasecmp\<close> is zero for the same pairs of strings for which \<open>strcmp\<close> would be,
  and \<open>strupr\<close> stores the string in upper case and changes no other byte.\<close>

theorem case_insensitive:
  assumes "cstr m p s" "cstr m q w" "p \<noteq> 0" "q \<noteq> 0" "length w < 2 ^ 31"
  shows "strcasestr m p q = Some (found p (sub_index (map upper w) (map upper s))) \<and>
    (\<exists>r. strcasecmp m p q = Some r \<and> (r = 0 \<longleftrightarrow> map upper s = map upper w)) \<and>
    strupr m p = Some (wr m p (map upper s), p)"
proof -
  have "signed_val s t = 0 \<longleftrightarrow> s = t" for s t
    by (induction s t rule: signed_val.induct) (auto dest: signed_word_eqI)
  moreover have "strcasestr m p q = Some (found p (sub_index (map upper w) (map upper s)))"
    using strcasestr_upper [OF assms] strstr_spec [OF cstr_upper_mem [OF assms(1)] cstr_upper_mem [OF assms(2)] assms(3,4)] assms(5) by simp
  moreover have "strupr m p = Some (wr m p (map upper s), p)"
    using upr_loop_spec [OF assms(1)] assms(3) by (simp add: strupr_def null_def)
  ultimately show ?thesis using strcasecmp_spec [OF assms(1-4)] by blast
qed

theorem case_insensitive_witness:
  "let m = wr (wr (\<lambda>_. Some 0) 10 [98, 65, 98]) 20 [97, 66]
   in strcasestr m 10 20 = Some 11 \<and> (\<exists>r. strcasecmp m 10 20 = Some r \<and> r \<noteq> 0)"
proof -
  let ?m = "wr (wr (\<lambda>_. Some 0) 10 [98, 65, 98]) 20 [97, 66] :: bmem"
  have "cstr ?m 10 [98, 65, 98]" "cstr ?m 20 [97, 66]"
    by (simp_all add: cstr_def block_Cons wr_def)
  from case_insensitive [OF this] show ?thesis by (auto simp: upper_def Let_def)
qed

end
