(* ===== verification/Fnmatch.thy ===== *)
theory Fnmatch
  imports StrCase
begin

text \<open>
  File name patterns (\<open>posix/fnmatch.c\<close>). The pattern and the string are C strings in memory; the setting of
  \<open>POSIXLY_CORRECT\<close> in the environment is an argument. A character set is scanned by \<open>bracket_scan\<close> until a member
  matches, and the rest of it is passed over by \<open>bracket_skip\<close>.

  The flags are a word. \<open>char\<close> is signed, which concerns the lower end of a range (\<open>cold\<close>) only.
\<close>

abbreviation (input) FNM_FILE_NAME :: u32 where "FNM_FILE_NAME \<equiv> 1"
abbreviation (input) FNM_NOESCAPE :: u32 where "FNM_NOESCAPE \<equiv> 2"
abbreviation (input) FNM_PERIOD :: u32 where "FNM_PERIOD \<equiv> 4"
abbreviation (input) FNM_LEADING_DIR :: u32 where "FNM_LEADING_DIR \<equiv> 8"
abbreviation (input) FNM_CASEFOLD :: u32 where "FNM_CASEFOLD \<equiv> 16"

abbreviation (input) FNM_NOMATCH :: int where "FNM_NOMATCH \<equiv> 1"

abbreviation (input) "ch_star \<equiv> 42 :: byte"
abbreviation (input) "ch_dot \<equiv> 46 :: byte"
abbreviation (input) "ch_slash \<equiv> 47 :: byte"
abbreviation (input) "ch_colon \<equiv> 58 :: byte"
abbreviation (input) "ch_quest \<equiv> 63 :: byte"
abbreviation (input) "ch_open \<equiv> 91 :: byte"
abbreviation (input) "ch_esc \<equiv> 92 :: byte"
abbreviation (input) "ch_close \<equiv> 93 :: byte"
abbreviation (input) "ch_minus \<equiv> 45 :: byte"
abbreviation (input) "ch_not \<equiv> 33 :: byte"
abbreviation (input) "ch_caret \<equiv> 94 :: byte"

definition flag :: "u32 \<Rightarrow> u32 \<Rightarrow> bool" where
  "flag flags f \<longleftrightarrow> flags AND f \<noteq> 0"

definition fold_char :: "u32 \<Rightarrow> byte \<Rightarrow> byte" where
  "fold_char flags c = (if flag flags FNM_CASEFOLD then ucast (tolower (ucast c)) else c)"

text \<open>A period that only a period in the pattern matches.\<close>

definition hidden_dot :: "bmem \<Rightarrow> u32 \<Rightarrow> nat \<Rightarrow> nat \<Rightarrow> byte \<Rightarrow> bool option" where
  "hidden_dot m flags string n ch =
    (if flag flags FNM_PERIOD \<and> ch = ch_dot then
       if n = string then Some True
       else if flag flags FNM_FILE_NAME then do { b \<leftarrow> ld m (n - 1); Some (b = ch_slash) }
       else Some False
     else Some False)"

section \<open>Character sets\<close>

definition CHAR_CLASS_MAX_LENGTH :: nat where "CHAR_CLASS_MAX_LENGTH = 6"

text \<open>
  The name of a character class: \<open>str[c1++] = 'c'\<close> stores the letter c (99), whatever the character read. The result
  is the buffer and the pointer behind the closing \<open>:]\<close>.
\<close>

partial_function (option) class_name :: "bmem \<Rightarrow> nat \<Rightarrow> byte list \<Rightarrow> (byte list \<times> nat) option option" where
  "class_name m p str =
    (if length str = CHAR_CLASS_MAX_LENGTH then Some None
     else do { c \<leftarrow> ld m (p + 1);
               nxt \<leftarrow> (if c = ch_colon then ld m (p + 2) else Some 0);
               if c = ch_colon \<and> nxt = ch_close then Some (Some (str, p + 3))
               else class_name m (p + 1) (str @ [99]) })"

definition ascii :: "string \<Rightarrow> byte list" where
  "ascii s = map of_char s"

definition in_class :: "byte list \<Rightarrow> byte \<Rightarrow> bool" where
  "in_class str ch \<longleftrightarrow>
    str = ascii ''alnum'' \<and> isalnum (ucast ch) \<noteq> 0 \<or> str = ascii ''alpha'' \<and> isalpha (ucast ch) \<noteq> 0 \<or>
    str = ascii ''blank'' \<and> isblank (ucast ch) \<noteq> 0 \<or> str = ascii ''cntrl'' \<and> iscntrl (ucast ch) \<noteq> 0 \<or>
    str = ascii ''digit'' \<and> isdigit (ucast ch) \<noteq> 0 \<or> str = ascii ''graph'' \<and> isgraph (ucast ch) \<noteq> 0 \<or>
    str = ascii ''lower'' \<and> islower (ucast ch) \<noteq> 0 \<or> str = ascii ''print'' \<and> isprint (ucast ch) \<noteq> 0 \<or>
    str = ascii ''punct'' \<and> ispunct (ucast ch) \<noteq> 0 \<or> str = ascii ''space'' \<and> isspace (ucast ch) \<noteq> 0 \<or>
    str = ascii ''upper'' \<and> isupper (ucast ch) \<noteq> 0 \<or> str = ascii ''xdigit'' \<and> isxdigit (ucast ch) \<noteq> 0"

text \<open>
  How the scan of a set ends: with \<open>return FNM_NOMATCH\<close>, at a member that matches (the pointer and \<open>c\<close> there), or at
  the closing bracket.
\<close>

datatype scan = Fail | Matched nat byte | Closed nat

text \<open>One member: the loop's body up to \<open>cold = c\<close>. \<open>p\<close> points behind \<open>c\<close>.\<close>

definition bracket_member :: "bmem \<Rightarrow> u32 \<Rightarrow> byte \<Rightarrow> nat \<Rightarrow> byte \<Rightarrow> (scan + nat \<times> byte) option" where
  "bracket_member m flags ch p c =
    (if \<not> flag flags FNM_NOESCAPE \<and> c = ch_esc then
       do { e \<leftarrow> ld m p;
            if e = 0 then Some (Inl Fail)
            else let c = fold_char flags e in
              Some (if c = fold_char flags ch then Inl (Matched (p + 1) c) else Inr (p + 1, c)) }
     else do {
       nxt \<leftarrow> (if c = ch_open then ld m p else Some 0);
       if c = ch_open \<and> nxt = ch_colon then
         do { r \<leftarrow> class_name m p [];
              Some (case r of None \<Rightarrow> Inl Fail
                | Some (str, p) \<Rightarrow> if in_class str ch then Inl (Matched p ch_colon) else Inr (p, ch_colon)) }
       else if c = 0 then Some (Inl Fail)
       else Some (if fold_char flags c = fold_char flags ch then Inl (Matched p c) else Inr (p, c)) })"

partial_function (option) bracket_scan :: "bmem \<Rightarrow> u32 \<Rightarrow> byte \<Rightarrow> nat \<Rightarrow> byte \<Rightarrow> scan option" where
  "bracket_scan m flags ch p c =
    do { r \<leftarrow> bracket_member m flags ch p c;
         case r of Inl s \<Rightarrow> Some s
         | Inr (p, cold) \<Rightarrow>
             do { c \<leftarrow> ld m p;
                  nxt \<leftarrow> (if c = ch_minus then ld m (p + 1) else Some 0);
                  if c = ch_minus \<and> nxt \<noteq> ch_close then
                    do { (cend, p) \<leftarrow> (if \<not> flag flags FNM_NOESCAPE \<and> nxt = ch_esc then do { e \<leftarrow> ld m (p + 2); Some (e, p + 3) }
                                       else Some (nxt, p + 2));
                         if cend = 0 then Some Fail
                         else if sint cold \<le> uint (fold_char flags ch) \<and> fold_char flags ch \<le> fold_char flags cend
                         then Some (Matched p ch_minus)
                         else do { c \<leftarrow> ld m p;
                                   if c = ch_close then Some (Closed (p + 1)) else bracket_scan m flags ch (p + 1) c } }
                  else if c = ch_close then Some (Closed (p + 1))
                  else bracket_scan m flags ch (p + 1) c } }"

text \<open>The rest of a set that has matched: the pointer behind its closing bracket, or no match.\<close>

partial_function (option) class_skip :: "bmem \<Rightarrow> nat \<Rightarrow> nat option option" where
  "class_skip m p =
    do { c \<leftarrow> ld m (p + 1);
         if c = 0 then Some None
         else do { nxt \<leftarrow> (if c = ch_colon then ld m (p + 2) else Some 0);
                   if c \<noteq> ch_colon \<or> nxt = ch_close then class_skip m (p + 1) else Some (Some (p + 1)) } }"

partial_function (option) bracket_skip :: "bmem \<Rightarrow> u32 \<Rightarrow> nat \<Rightarrow> byte \<Rightarrow> nat option option" where
  "bracket_skip m flags p c =
    (if c = ch_close then Some (Some p)
     else if c = 0 then Some None
     else do { c \<leftarrow> ld m p;
               if \<not> flag flags FNM_NOESCAPE \<and> c = ch_esc then
                 do { e \<leftarrow> ld m (p + 1); if e = 0 then Some None else bracket_skip m flags (p + 2) c }
               else do {
                 nxt \<leftarrow> (if c = ch_open then ld m (p + 1) else Some 0);
                 if c = ch_open \<and> nxt = ch_colon then
                   do { r \<leftarrow> class_skip m (p + 1);
                        case r of None \<Rightarrow> Some None
                        | Some p \<Rightarrow> do { c \<leftarrow> ld m (p + 2); bracket_skip m flags (p + 2) c } }
                 else bracket_skip m flags (p + 1) c } })"

text \<open>A whole set against the character \<open>ch\<close>: the pointer behind the set when it matches.\<close>

definition bracket :: "bool \<Rightarrow> bmem \<Rightarrow> u32 \<Rightarrow> byte \<Rightarrow> nat \<Rightarrow> nat option option" where
  "bracket posixly m flags ch p =
    do { c \<leftarrow> ld m p;
         let inv = (c = ch_not \<or> \<not> posixly \<and> c = ch_caret); p = (if inv then p + 1 else p) in
         do { c \<leftarrow> ld m p;
              s \<leftarrow> bracket_scan m flags ch (p + 1) c;
              case s of Fail \<Rightarrow> Some None
              | Closed p \<Rightarrow> Some (if inv then Some p else None)
              | Matched p c \<Rightarrow> do { r \<leftarrow> bracket_skip m flags p c; Some (if inv then None else r) } } }"

section \<open>Patterns\<close>

text \<open>The wildcards that follow an asterisk: the first other character, the pointer behind it, and the string.\<close>

partial_function (option) star_prefix :: "bmem \<Rightarrow> u32 \<Rightarrow> nat \<Rightarrow> nat \<Rightarrow> (byte \<times> nat \<times> nat) option option" where
  "star_prefix m flags p n =
    do { c \<leftarrow> ld m p;
         if c = ch_quest \<or> c = ch_star then
           do { ch \<leftarrow> ld m n;
                if flag flags FNM_FILE_NAME \<and> ch = ch_slash then Some None
                else if c = ch_quest then if ch = 0 then Some None else star_prefix m flags (p + 1) (n + 1)
                else star_prefix m flags (p + 1) n }
         else Some (Some (c, p + 1, n)) }"

text \<open>
  The loops of \<open>fnmatch\<close>, with their pointers into the pattern and the string: the loop over the pattern, and the loop
  over the string that follows an asterisk, with \<open>c\<close> and \<open>c1\<close>, which calls \<open>fnmatch\<close> for the rest of the pattern.
\<close>

datatype place = Main nat nat | Star byte byte nat nat

partial_function (option) fnmatch_loop :: "bool \<Rightarrow> bmem \<Rightarrow> u32 \<Rightarrow> nat \<Rightarrow> place \<Rightarrow> int option" where
  "fnmatch_loop posixly m flags string pl =
    (case pl of
       Star c c1 p n \<Rightarrow>
         do { ch \<leftarrow> ld m n;
              if ch = 0 then Some FNM_NOMATCH
              else do { r \<leftarrow> (if c = ch_open \<or> fold_char flags ch = c1
                            then fnmatch_loop posixly m (flags AND NOT FNM_PERIOD) n (Main p n) else Some FNM_NOMATCH);
                        if r = 0 then Some 0 else fnmatch_loop posixly m flags string (Star c c1 p (n + 1)) } }
     | Main p n \<Rightarrow>
         do { c \<leftarrow> ld m p;
              ch \<leftarrow> ld m n;
              if c = 0 then Some (if ch = 0 then 0 else if flag flags FNM_LEADING_DIR \<and> ch = ch_slash then 0 else FNM_NOMATCH)
              else let c = fold_char flags c in
                if c = ch_quest then
                  (if ch = 0 then Some FNM_NOMATCH
                   else if flag flags FNM_FILE_NAME \<and> ch = ch_slash then Some FNM_NOMATCH
                   else do { h \<leftarrow> hidden_dot m flags string n ch;
                             if h then Some FNM_NOMATCH else fnmatch_loop posixly m flags string (Main (p + 1) (n + 1)) })
                else if c = ch_esc then
                  (if \<not> flag flags FNM_NOESCAPE then
                     do { e \<leftarrow> ld m (p + 1);
                          if e = 0 then Some FNM_NOMATCH
                          else if fold_char flags ch \<noteq> fold_char flags e then Some FNM_NOMATCH
                          else fnmatch_loop posixly m flags string (Main (p + 2) (n + 1)) }
                   else if fold_char flags ch \<noteq> c then Some FNM_NOMATCH
                   else fnmatch_loop posixly m flags string (Main (p + 1) (n + 1)))
                else if c = ch_star then
                  do { h \<leftarrow> hidden_dot m flags string n ch;
                       if h then Some FNM_NOMATCH
                       else do { r \<leftarrow> star_prefix m flags (p + 1) n;
                                 case r of None \<Rightarrow> Some FNM_NOMATCH
                                 | Some (c, p, n) \<Rightarrow>
                                     if c = 0 then Some 0
                                     else do { c1 \<leftarrow> (if \<not> flag flags FNM_NOESCAPE \<and> c = ch_esc then ld m p else Some c);
                                               fnmatch_loop posixly m flags string (Star c (fold_char flags c1) (p - 1) n) } } }
                else if c = ch_open then
                  (if ch = 0 then Some FNM_NOMATCH
                   else do { h \<leftarrow> hidden_dot m flags string n ch;
                             if h then Some FNM_NOMATCH
                             else if ch = ch_slash \<and> flag flags FNM_FILE_NAME then Some FNM_NOMATCH
                             else do { r \<leftarrow> bracket posixly m flags ch (p + 1);
                                       case r of None \<Rightarrow> Some FNM_NOMATCH
                                       | Some p \<Rightarrow> fnmatch_loop posixly m flags string (Main p (n + 1)) } })
                else if c \<noteq> fold_char flags ch then Some FNM_NOMATCH
                else fnmatch_loop posixly m flags string (Main (p + 1) (n + 1)) })"

definition fnmatch :: "bool \<Rightarrow> bmem \<Rightarrow> nat \<Rightarrow> nat \<Rightarrow> u32 \<Rightarrow> int option" where
  "fnmatch posixly m pattern string flags = fnmatch_loop posixly m flags string (Main pattern string)"

end
