(* ===== verification/FnmatchProps.thy ===== *)
theory FnmatchProps
  imports Fnmatch
begin

text \<open>
  What \<open>fnmatch\<close> matches. The reference is a relation on parsed patterns (\<open>glob\<close>); \<open>glob_text\<close> is the pattern as the
  user writes it. Where the sets contain no named classes and no bracket or backslash, the ranges are of the kind
  \<open>range_ok\<close>, and the string has no slash when slashes are special, \<open>fnmatch\<close> decides the reference. What it does outside
  of these limits is shown by the lemmas at the end.
\<close>

section \<open>Patterns and their meaning\<close>

datatype member = One byte | Range byte byte

datatype glob = Lit byte | Quest | Any | Set bool "member list"

definition lit_text :: "byte \<Rightarrow> byte list" where
  "lit_text c = (if c \<in> {ch_quest, ch_star, ch_open, ch_esc} then [ch_esc, c] else [c])"

fun member_text :: "member \<Rightarrow> byte list" where
  "member_text (One c) = [c]"
| "member_text (Range a b) = [a, ch_minus, b]"

definition set_text :: "member list \<Rightarrow> byte list" where
  "set_text ms = concat (map member_text ms)"

fun glob_text :: "glob list \<Rightarrow> byte list" where
  "glob_text [] = []"
| "glob_text (Lit c # gs) = lit_text c @ glob_text gs"
| "glob_text (Quest # gs) = ch_quest # glob_text gs"
| "glob_text (Any # gs) = ch_star # glob_text gs"
| "glob_text (Set neg ms # gs) = ch_open # (if neg then [ch_not] else []) @ set_text ms @ ch_close # glob_text gs"

text \<open>Characters that mean nothing but themselves inside brackets.\<close>

definition plain :: "byte \<Rightarrow> bool" where
  "plain c \<longleftrightarrow> c \<notin> {0, ch_minus, ch_open, ch_esc, ch_close}"

text \<open>
  The ranges the reference speaks of: from a character below 128 to a later one. Without regard to case
  (\<open>folded\<close>), a range must contain no capital letter or all the letters; for the others see
  \<open>fnmatch_range_signed\<close> and \<open>fnmatch_range_case\<close> below.
\<close>

definition range_ok :: "bool \<Rightarrow> byte \<Rightarrow> byte \<Rightarrow> bool" where
  "range_ok folded a b \<longleftrightarrow> a < 128 \<and> a \<le> b \<and> (folded \<longrightarrow> b < 65 \<or> 90 < a \<or> a \<le> 65 \<and> 122 \<le> b)"

fun member_ok :: "bool \<Rightarrow> member \<Rightarrow> bool" where
  "member_ok folded (One c) \<longleftrightarrow> plain c"
| "member_ok folded (Range a b) \<longleftrightarrow> plain a \<and> plain b \<and> range_ok folded a b"

definition set_ok :: "bool \<Rightarrow> bool \<Rightarrow> member list \<Rightarrow> bool" where
  "set_ok folded neg ms \<longleftrightarrow> ms \<noteq> [] \<and> (\<forall>x \<in> set ms. member_ok folded x) \<and> (\<not> neg \<longrightarrow> hd (set_text ms) \<notin> {ch_not, ch_caret})"

fun glob_ok :: "bool \<Rightarrow> glob list \<Rightarrow> bool" where
  "glob_ok folded [] \<longleftrightarrow> True"
| "glob_ok folded (Lit c # gs) \<longleftrightarrow> c \<noteq> 0 \<and> glob_ok folded gs"
| "glob_ok folded (Set neg ms # gs) \<longleftrightarrow> set_ok folded neg ms \<and> glob_ok folded gs"
| "glob_ok folded (_ # gs) \<longleftrightarrow> glob_ok folded gs"

definition fold_byte :: "u32 \<Rightarrow> byte \<Rightarrow> byte" where
  "fold_byte flags c = (if flag flags FNM_CASEFOLD then lower c else c)"

text \<open>The characters that are the same as \<open>ch\<close>: without regard to case, both forms of a letter.\<close>

definition variants :: "u32 \<Rightarrow> byte \<Rightarrow> byte list" where
  "variants flags ch = (if flag flags FNM_CASEFOLD then [lower ch, upper ch] else [ch])"

text \<open>A range holds the characters whose codes lie between its ends.\<close>

fun member_match :: "u32 \<Rightarrow> byte \<Rightarrow> member \<Rightarrow> bool" where
  "member_match flags ch (One c) \<longleftrightarrow> fold_byte flags c = fold_byte flags ch"
| "member_match flags ch (Range a b) \<longleftrightarrow> (\<exists>c \<in> set (variants flags ch). a \<le> c \<and> c \<le> b)"

text \<open>\<open>dot\<close>: a period at the start of the string is matched only by a period in the pattern.\<close>

fun glob_match :: "u32 \<Rightarrow> bool \<Rightarrow> glob list \<Rightarrow> byte list \<Rightarrow> bool" where
  "glob_match flags dot [] s \<longleftrightarrow> s = [] \<or> flag flags FNM_LEADING_DIR \<and> hd s = ch_slash"
| "glob_match flags dot (Any # gs) s \<longleftrightarrow> \<not> (dot \<and> s \<noteq> [] \<and> hd s = ch_dot) \<and> (\<exists>k \<in> set [0..<Suc (length s)]. glob_match flags False gs (drop k s))"
| "glob_match flags dot (g # gs) [] \<longleftrightarrow> False"
| "glob_match flags dot (Lit c # gs) (ch # s) \<longleftrightarrow> fold_byte flags c = fold_byte flags ch \<and> glob_match flags False gs s"
| "glob_match flags dot (Quest # gs) (ch # s) \<longleftrightarrow> \<not> (dot \<and> ch = ch_dot) \<and> glob_match flags False gs s"
| "glob_match flags dot (Set neg ms # gs) (ch # s) \<longleftrightarrow> \<not> (dot \<and> ch = ch_dot) \<and> (\<exists>x \<in> set ms. member_match flags ch x) \<noteq> neg \<and> glob_match flags False gs s"

lemma any_iff [simp]:
  "glob_match flags dot (Any # gs) s \<longleftrightarrow> \<not> (dot \<and> s \<noteq> [] \<and> hd s = ch_dot) \<and> (\<exists>k \<le> length s. glob_match flags False gs (drop k s))"
  by (simp add: Bex_def less_Suc_eq_le del: upt_Suc)

declare glob_match.simps(2) [simp del]

section \<open>Characters\<close>

lemma fold_char_byte [simp]: "fold_char flags c = fold_byte flags c"
  by (simp add: fold_char_def fold_byte_def)

lemma fold_special [simp]:
  "fold_byte flags c = 0 \<longleftrightarrow> c = 0" "fold_byte flags c = ch_quest \<longleftrightarrow> c = ch_quest" "fold_byte flags c = ch_star \<longleftrightarrow> c = ch_star"
  "fold_byte flags c = ch_open \<longleftrightarrow> c = ch_open" "fold_byte flags c = ch_esc \<longleftrightarrow> c = ch_esc"
  using lower_other [of 0 c] lower_other [of ch_quest c] lower_other [of ch_star c] lower_other [of ch_open c] lower_other [of ch_esc c]
  by (auto simp: fold_byte_def)

lemma fold_0 [simp]: "fold_byte flags 0 = 0"
  by simp

lemma fold_special_sym [simp]:
  "0 = fold_byte flags c \<longleftrightarrow> c = 0"
  using fold_special(1) [of flags c] by metis

section \<open>Sets\<close>

definition safe :: "byte list \<Rightarrow> bool" where
  "safe ys \<longleftrightarrow> (\<forall>y \<in> set ys. y \<notin> {0, ch_open, ch_esc, ch_close})"

lemma safe_simps [simp]: "safe []" "safe (y # ys) \<longleftrightarrow> y \<notin> {0, ch_open, ch_esc, ch_close} \<and> safe ys" "safe (xs @ ys) \<longleftrightarrow> safe xs \<and> safe ys"
  by (auto simp: safe_def)

lemma safe_set_text: "\<forall>x \<in> set ms. member_ok folded x \<Longrightarrow> safe (set_text ms)"
proof (induction ms)
  case (Cons x ms)
  then show ?case by (cases x) (auto simp: set_text_def plain_def)
qed (simp add: set_text_def)

lemma bracket_skip_spec:
  assumes "block m p (ys @ [ch_close])" "safe ys" "c \<noteq> ch_close" "c \<noteq> 0"
  shows "bracket_skip m flags p c = Some (Some (p + length ys + 1))"
  using assms
proof (induction ys arbitrary: p c)
  case Nil
  then show ?case by (subst bracket_skip.simps, subst bracket_skip.simps) (simp add: block_Cons ld_def)
next
  case (Cons y ys)
  then show ?case by (subst bracket_skip.simps) (simp add: block_Cons ld_def)
qed

lemma bracket_member_plain:
  "plain c \<Longrightarrow> bracket_member m flags ch p c = Some (if fold_byte flags c = fold_byte flags ch then Inl (Matched p c) else Inr (p, c))"
  by (auto simp: bracket_member_def plain_def)

lemma set_text_simps [simp]: "set_text [] = []" "set_text (x # ms) = member_text x @ set_text ms"
  by (simp_all add: set_text_def)

lemma set_text_hd:
  assumes "ms \<noteq> []" "\<forall>x \<in> set ms. member_ok folded x"
  obtains c t where "set_text ms = c # t" "plain c"
proof -
  obtain x ms' where "ms = x # ms'" using assms(1) by (cases ms) auto
  then show ?thesis using assms(2) that by (cases x) auto
qed

definition scan_result :: "bmem \<Rightarrow> nat \<Rightarrow> bool \<Rightarrow> scan option \<Rightarrow> bool" where
  "scan_result m e hit r \<longleftrightarrow>
    (if hit then \<exists>p c ys. r = Some (Matched p c) \<and> block m p (ys @ [ch_close]) \<and> safe ys \<and> c \<noteq> ch_close \<and> c \<noteq> 0 \<and> p + length ys + 1 = e
     else r = Some (Closed e))"

lemma scan_resultI:
  "block m p (ys @ [ch_close]) \<Longrightarrow> safe ys \<Longrightarrow> c \<noteq> ch_close \<Longrightarrow> c \<noteq> 0 \<Longrightarrow> p + length ys + 1 = e \<Longrightarrow> hit \<Longrightarrow>
    scan_result m e hit (Some (Matched p c))"
  by (auto simp: scan_result_def)

text \<open>What follows a member that has not matched.\<close>

lemma scan_next:
  assumes "block m p (set_text ms @ [ch_close])" "\<forall>x \<in> set ms. member_ok folded x"
    and "\<And>c. ms \<noteq> [] \<Longrightarrow> m p = Some c \<Longrightarrow> scan_result m (p + length (set_text ms) + 1) hit (bracket_scan m flags ch (p + 1) c)"
    and "ms = [] \<Longrightarrow> \<not> hit"
  shows "\<exists>c. m p = Some c \<and> c \<noteq> ch_minus \<and>
    scan_result m (p + length (set_text ms) + 1) hit (if c = ch_close then Some (Closed (p + 1)) else bracket_scan m flags ch (p + 1) c)"
proof (cases "ms = []")
  case True
  then show ?thesis using assms(1,4) by (simp add: block_Cons scan_result_def)
next
  case False
  then obtain c t where "set_text ms = c # t" "plain c" using assms(2) by (rule set_text_hd)
  then show ?thesis using assms(1,3) False by (simp add: block_Cons plain_def)
qed

lemma sint_low:
  fixes a :: byte
  assumes "a < 128"
  shows "sint a = int (unat a)"
proof -
  have "uint a < 128" using assms by (simp add: word_less_def)
  moreover have "- 128 \<le> uint a" by (rule order_trans [OF _ uint_ge_0]) simp
  ultimately have "signed_take_bit 7 (uint a) = uint a" by (intro signed_take_bit_int_eq_self) simp_all
  then show ?thesis by (simp add: sint_uint)
qed

lemma range_letters:
  fixes lo up :: "nat \<Rightarrow> nat"
  defines "lo \<equiv> \<lambda>x. if 65 \<le> x \<and> x \<le> 90 then x + 32 else x" and "up \<equiv> \<lambda>x. if 97 \<le> x \<and> x \<le> 122 then x - 32 else x"
  assumes "a \<le> b" "b < 65 \<or> 90 < a \<or> a \<le> 65 \<and> 122 \<le> b"
  shows "lo a = lo x \<or> a \<le> lo x \<and> lo x \<le> lo b \<longleftrightarrow> a \<le> lo x \<and> lo x \<le> b \<or> a \<le> up x \<and> up x \<le> b"
  using assms(4)
proof (elim disjE)
  assume "b < 65"
  then show ?thesis using assms(3) unfolding lo_def up_def by auto
next
  assume "90 < a"
  then show ?thesis using assms(3) unfolding lo_def up_def by auto
next
  assume "a \<le> 65 \<and> 122 \<le> b"
  then show ?thesis using assms(3) unfolding lo_def up_def by auto
qed

text \<open>What the code compares, in place of the ends of the range.\<close>

lemma range_code:
  assumes "range_ok (flag flags FNM_CASEFOLD) a b"
  shows "fold_byte flags a = fold_byte flags ch \<or> sint a \<le> uint (fold_byte flags ch) \<and> fold_byte flags ch \<le> fold_byte flags b \<longleftrightarrow>
    member_match flags ch (Range a b)"
proof -
  have "sint a = int (unat a)" using assms by (intro sint_low) (simp add: range_ok_def)
  then have le: "sint a \<le> uint c \<longleftrightarrow> unat a \<le> unat c" for c :: byte
    by (simp only: uint_nat of_nat_le_iff)
  have ok: "unat a \<le> unat b" "flag flags FNM_CASEFOLD \<Longrightarrow> unat b < 65 \<or> 90 < unat a \<or> unat a \<le> 65 \<and> 122 \<le> unat b"
    using assms by (simp_all add: range_ok_def word_le_nat_alt word_less_nat_alt)
  show ?thesis
  proof (cases "flag flags FNM_CASEFOLD")
    case True
    show ?thesis
      by (simp only: member_match.simps variants_def fold_byte_def True if_True le word_le_nat_alt word_unat_eq_iff unat_lower unat_upper
        list.set bex_simps simp_thms) (rule range_letters [OF ok(1) ok(2) [OF True]])
  next
    case False
    then show ?thesis using ok(1) by (auto simp: le variants_def fold_byte_def word_le_nat_alt)
  qed
qed

lemma bracket_scan_spec:
  assumes "block m p (set_text ms @ [ch_close])" "ms \<noteq> []" "\<forall>x \<in> set ms. member_ok (flag flags FNM_CASEFOLD) x" "m p = Some c"
  shows "scan_result m (p + length (set_text ms) + 1) (\<exists>x \<in> set ms. member_match flags ch x) (bracket_scan m flags ch (p + 1) c)"
  using assms
proof (induction ms arbitrary: p c)
  case (Cons x ms)
  let ?hit = "\<exists>x \<in> set ms. member_match flags ch x" and ?hit' = "\<exists>y \<in> set (x # ms). member_match flags ch y"
  have ok: "\<forall>x \<in> set ms. member_ok (flag flags FNM_CASEFOLD) x" and safe: "safe (set_text ms)" using Cons.prems(3) safe_set_text by auto
  show ?case
  proof (cases x)
    case (One d)
    then have d: "d = c" "plain c" "block m (Suc p) (set_text ms @ [ch_close])" using Cons.prems by (auto simp: block_Cons)
    show ?thesis
    proof (cases "fold_byte flags c = fold_byte flags ch")
      case True
      then have "bracket_scan m flags ch (p + 1) c = Some (Matched (p + 1) c)"
        by (subst bracket_scan.simps) (simp add: bracket_member_plain [OF d(2)])
      then show ?thesis using d safe True One by (auto simp: plain_def intro!: scan_resultI [of _ _ "set_text ms"])
    next
      case False
      from scan_next [OF d(3) ok, of ?hit flags ch] Cons.IH [OF d(3) _ ok] obtain c' where c': "m (Suc p) = Some c'" "c' \<noteq> ch_minus"
        "scan_result m (Suc p + length (set_text ms) + 1) ?hit (if c' = ch_close then Some (Closed (Suc p + 1)) else bracket_scan m flags ch (Suc p + 1) c')"
        by auto
      have "bracket_scan m flags ch (p + 1) c = (if c' = ch_close then Some (Closed (Suc p + 1)) else bracket_scan m flags ch (Suc p + 1) c')"
        using False c' by (subst bracket_scan.simps) (simp add: bracket_member_plain [OF d(2)] ld_def)
      then show ?thesis using c'(3) False One d(1) by simp
    qed
  next
    case (Range a b)
    then have d: "a = c" "plain c" "plain b" "m (Suc p) = Some ch_minus" "m (Suc (Suc p)) = Some b" "block m (p + 3) (set_text ms @ [ch_close])"
      "block m (Suc p) (ch_minus # b # set_text ms @ [ch_close])"
      using Cons.prems by (auto simp: block_Cons numeral_3_eq_3)
    have code: "fold_byte flags c = fold_byte flags ch \<or> sint c \<le> uint (fold_byte flags ch) \<and> fold_byte flags ch \<le> fold_byte flags b \<longleftrightarrow>
        member_match flags ch x"
      using range_code [of flags a b ch] Cons.prems(3) Range d(1) by simp
    show ?thesis
    proof (cases "fold_byte flags c = fold_byte flags ch")
      case True
      then have "bracket_scan m flags ch (p + 1) c = Some (Matched (p + 1) c)"
        by (subst bracket_scan.simps) (simp add: bracket_member_plain [OF d(2)])
      moreover have ?hit' using code True by simp
      ultimately show ?thesis using d safe Range by (auto simp: plain_def intro!: scan_resultI [of _ _ "ch_minus # b # set_text ms"])
    next
      case first: False
      show ?thesis
      proof (cases "sint c \<le> uint (fold_byte flags ch) \<and> fold_byte flags ch \<le> fold_byte flags b")
        case True
        then have "bracket_scan m flags ch (p + 1) c = Some (Matched (p + 3) ch_minus)"
          using first d by (subst bracket_scan.simps) (simp add: bracket_member_plain [OF d(2)] ld_def plain_def numeral_3_eq_3)
        moreover have ?hit' using code True by simp
        ultimately show ?thesis using d safe Range by (auto simp: plain_def intro!: scan_resultI [of _ _ "set_text ms"])
      next
        case False
        from scan_next [OF d(6) ok, of ?hit flags ch] Cons.IH [OF d(6) _ ok] obtain c' where c': "m (p + 3) = Some c'"
          "scan_result m (p + 3 + length (set_text ms) + 1) ?hit (if c' = ch_close then Some (Closed (p + 3 + 1)) else bracket_scan m flags ch (p + 3 + 1) c')"
          by auto
        have "bracket_scan m flags ch (p + 1) c = (if c' = ch_close then Some (Closed (p + 3 + 1)) else bracket_scan m flags ch (p + 3 + 1) c')"
          using False first c' d by (subst bracket_scan.simps) (auto simp add: bracket_member_plain [OF d(2)] ld_def plain_def numeral_3_eq_3)
        moreover have "\<not> member_match flags ch x" using code False first by simp
        ultimately show ?thesis using c'(2) Range by (simp del: member_match.simps add: numeral_3_eq_3)
      qed
    qed
  qed
qed simp

lemma bracket_spec:
  assumes "set_ok (flag flags FNM_CASEFOLD) neg ms" "block m p ((if neg then [ch_not] else []) @ set_text ms @ [ch_close])"
  shows "bracket posixly m flags ch p =
    Some (if (\<exists>x \<in> set ms. member_match flags ch x) \<noteq> neg then Some (p + length ((if neg then [ch_not] else []) @ set_text ms) + 1) else None)"
proof -
  let ?p = "if neg then p + 1 else p" and ?hit = "\<exists>x \<in> set ms. member_match flags ch x"
  have ok: "ms \<noteq> []" "\<forall>x \<in> set ms. member_ok (flag flags FNM_CASEFOLD) x" using assms(1) by (simp_all add: set_ok_def)
  then obtain c t where c: "set_text ms = c # t" "plain c" by (rule set_text_hd)
  have b: "block m ?p (set_text ms @ [ch_close])" using assms(2) by (cases neg) (simp_all add: block_Cons)
  then have mp: "m ?p = Some c" using c by (simp add: block_Cons)
  let ?e = "?p + length (set_text ms) + 1"
  have scan: "scan_result m ?e ?hit (bracket_scan m flags ch (?p + 1) c)" by (rule bracket_scan_spec [OF b ok mp])
  have "bracket posixly m flags ch p =
      do { s \<leftarrow> bracket_scan m flags ch (?p + 1) c;
           case s of Fail \<Rightarrow> Some None | Closed p \<Rightarrow> Some (if neg then Some p else None)
           | Matched p c \<Rightarrow> do { r \<leftarrow> bracket_skip m flags p c; Some (if neg then None else r) } }"
    using assms mp c(1) by (cases neg) (auto simp: bracket_def ld_def block_Cons set_ok_def Let_def)
  also have "\<dots> = Some (if ?hit \<noteq> neg then Some ?e else None)"
  proof (cases ?hit)
    case True
    then obtain p' c' ys where r: "bracket_scan m flags ch (?p + 1) c = Some (Matched p' c')" "block m p' (ys @ [ch_close])" "safe ys"
      "c' \<noteq> ch_close" "c' \<noteq> 0" "p' + length ys + 1 = ?e" using scan by (auto simp: scan_result_def)
    from bracket_skip_spec [OF r(2-5)] show ?thesis using True r(1,6) by simp
  qed (use scan in \<open>simp add: scan_result_def\<close>)
  finally show ?thesis by (simp split: if_splits)
qed

section \<open>Wildcards\<close>

text \<open>What is left of the pattern and the string after the wildcards that follow an asterisk.\<close>

fun collapse :: "glob list \<Rightarrow> byte list \<Rightarrow> (glob list \<times> byte list) option" where
  "collapse (Any # gs) s = collapse gs s"
| "collapse (Quest # gs) [] = None"
| "collapse (Quest # gs) (c # s) = collapse gs s"
| "collapse [] s = Some ([], s)"
| "collapse (Lit c # gs) s = Some (Lit c # gs, s)"
| "collapse (Set neg ms # gs) s = Some (Set neg ms # gs, s)"

lemma any_any: "glob_match flags False (Any # Any # gs) s = glob_match flags False (Any # gs) s"
proof
  assume "glob_match flags False (Any # Any # gs) s"
  then obtain k j where "k \<le> length s" "j \<le> length s - k" "glob_match flags False gs (drop (j + k) s)" by auto
  then show "glob_match flags False (Any # gs) s" by (auto intro!: exI [of _ "j + k"])
next
  assume "glob_match flags False (Any # gs) s"
  then show "glob_match flags False (Any # Any # gs) s" by (subst any_iff) (intro conjI exI [of _ 0]; simp)
qed

lemma any_quest: "glob_match flags False (Any # Quest # gs) s = (s \<noteq> [] \<and> glob_match flags False (Any # gs) (tl s))"
proof -
  have q: "glob_match flags False (Quest # gs) s' = (s' \<noteq> [] \<and> glob_match flags False gs (tl s'))" for s' by (cases s') auto
  show ?thesis
  proof (cases s)
    case Nil
    then show ?thesis by (simp add: q)
  next
    case (Cons c t)
    have "(\<exists>k \<le> length s. drop k s \<noteq> [] \<and> glob_match flags False gs (tl (drop k s))) = (\<exists>k \<le> length t. glob_match flags False gs (drop k t))"
    proof
      assume "\<exists>k \<le> length s. drop k s \<noteq> [] \<and> glob_match flags False gs (tl (drop k s))"
      then obtain k where "k \<le> length s" "drop k s \<noteq> []" "glob_match flags False gs (tl (drop k s))" by blast
      then show "\<exists>k \<le> length t. glob_match flags False gs (drop k t)"
        using Cons by (intro exI [of _ k]) (auto simp: tl_drop drop_Suc [symmetric])
    next
      assume "\<exists>k \<le> length t. glob_match flags False gs (drop k t)"
      then obtain k where "k \<le> length t" "glob_match flags False gs (drop k t)" by blast
      then show "\<exists>k \<le> length s. drop k s \<noteq> [] \<and> glob_match flags False gs (tl (drop k s))"
        using Cons by (intro exI [of _ k]) (auto simp: tl_drop drop_Suc [symmetric])
    qed
    then show ?thesis using Cons by (simp add: q)
  qed
qed

lemma collapse_match:
  "glob_match flags False (Any # gs) s = (case collapse gs s of None \<Rightarrow> False | Some (gs', s') \<Rightarrow> glob_match flags False (Any # gs') s')"
proof (induction gs s rule: collapse.induct)
  case (1 gs s)
  show ?case unfolding any_any collapse.simps by (rule 1)
next
  case (2 gs)
  show ?case unfolding any_quest by simp
next
  case (3 gs c s)
  show ?case unfolding any_quest using 3 by simp
qed simp_all

lemma collapse_ok:
  "collapse gs s = Some (gs', s') \<Longrightarrow> glob_ok folded gs \<Longrightarrow>
    glob_ok folded gs' \<and> length gs' \<le> length gs \<and> (\<exists>k \<le> length s. s' = drop k s) \<and>
    (gs' = [] \<or> (\<exists>c t. gs' = Lit c # t) \<or> (\<exists>neg ms t. gs' = Set neg ms # t))"
proof (induction gs s rule: collapse.induct)
  case (3 gs c s)
  then have "collapse gs s = Some (gs', s')" "glob_ok folded gs" by simp_all
  from 3(1) [OF this] obtain k where "k \<le> length s" "s' = drop k s" by blast
  then have "\<exists>k \<le> length (c # s). s' = drop k (c # s)" by (intro exI [of _ "Suc k"]) simp
  then show ?case using 3(1) [OF \<open>collapse gs s = Some (gs', s')\<close> \<open>glob_ok folded gs\<close>] by auto
qed auto

lemma glob_text_first:
  assumes "glob_ok folded gs" "gs = [] \<or> (\<exists>c t. gs = Lit c # t) \<or> (\<exists>neg ms t. gs = Set neg ms # t)"
  shows "hd (glob_text gs @ [0]) \<notin> {ch_quest, ch_star}" "hd (glob_text gs @ [0]) = 0 \<longleftrightarrow> gs = []"
  using assms by (auto simp: lit_text_def split: if_splits)

lemma star_prefix_spec:
  assumes "cstr m p (glob_text gs)" "cstr m n s" "glob_ok folded gs" "\<not> flag flags FNM_FILE_NAME \<or> ch_slash \<notin> set s"
  shows "case collapse gs s of
      None \<Rightarrow> star_prefix m flags p n = Some None
    | Some (gs', s') \<Rightarrow> \<exists>p'. star_prefix m flags p n = Some (Some (hd (glob_text gs' @ [0]), p' + 1, n + (length s - length s'))) \<and> cstr m p' (glob_text gs')"
  using assms
proof (induction gs s arbitrary: p n rule: collapse.induct)
  case (1 gs s)
  have "m n = Some (hd (s @ [0]))" "hd (s @ [0]) = ch_slash \<longrightarrow> ch_slash \<in> set s" using 1(3) by (cases s; simp add: cstr_Nil cstr_Cons)+
  then have eq: "star_prefix m flags p n = star_prefix m flags (Suc p) n"
    using 1 by (subst star_prefix.simps) (auto simp: cstr_Cons ld_def)
  show ?case unfolding collapse.simps eq by (rule 1(1)) (use 1 in \<open>simp_all add: cstr_Cons\<close>)
next
  case (2 gs)
  then show ?case by (subst star_prefix.simps) (simp add: cstr_Nil cstr_Cons ld_def)
next
  case (3 gs c s)
  then have eq: "star_prefix m flags p n = star_prefix m flags (Suc p) (Suc n)"
    by (subst star_prefix.simps) (auto simp: cstr_Cons ld_def)
  have ih: "case collapse gs s of None \<Rightarrow> star_prefix m flags (Suc p) (Suc n) = Some None
    | Some (gs', s') \<Rightarrow> \<exists>p'. star_prefix m flags (Suc p) (Suc n) = Some (Some (hd (glob_text gs' @ [0]), p' + 1, Suc n + (length s - length s'))) \<and> cstr m p' (glob_text gs')"
    by (rule 3(1)) (use 3 in \<open>simp_all add: cstr_Cons\<close>)
  show ?case
  proof (cases "collapse gs s")
    case (Some r)
    then obtain gs' s' where r: "collapse gs s = Some (gs', s')" by (cases r) simp
    then have "glob_ok folded gs" using 3(4) by simp
    from collapse_ok [OF r this] have "length s' \<le> length s" by auto
    then have "n + (length (c # s) - length s') = Suc n + (length s - length s')" by simp
    then show ?thesis unfolding collapse.simps eq using ih by (simp only: r option.case prod.case)
  qed (use ih eq in simp)
next
  case 4
  then show ?case by (subst star_prefix.simps) (simp add: cstr_Nil ld_def)
next
  case (5 c gs s)
  then have "m p = Some (hd (lit_text c))" "hd (lit_text c) \<notin> {ch_quest, ch_star}" by (auto simp: lit_text_def cstr_Cons split: if_splits)
  then show ?case using 5 by (subst star_prefix.simps) (auto simp: ld_def lit_text_def)
next
  case (6 neg ms gs s)
  then show ?case by (subst star_prefix.simps) (auto simp: ld_def cstr_Cons)
qed

section \<open>The loop\<close>

text \<open>The situation in the loop: the string began at \<open>string\<close>, and where slashes are special the character before is none.\<close>

definition reached :: "bmem \<Rightarrow> u32 \<Rightarrow> nat \<Rightarrow> nat \<Rightarrow> bool" where
  "reached m flags string n \<longleftrightarrow> string \<le> n \<and> (n = string \<or> (flag flags FNM_FILE_NAME \<longrightarrow> (\<exists>b. m (n - 1) = Some b \<and> b \<noteq> ch_slash)))"

lemma hidden_dot_reached:
  "reached m flags string n \<Longrightarrow> hidden_dot m flags string n ch = Some ((flag flags FNM_PERIOD \<and> n = string) \<and> ch = ch_dot)"
  by (auto simp: hidden_dot_def ld_def reached_def)

definition no_slash :: "u32 \<Rightarrow> byte list \<Rightarrow> bool" where
  "no_slash flags s \<longleftrightarrow> \<not> flag flags FNM_FILE_NAME \<or> ch_slash \<notin> set s"

lemma reached_Suc: "reached m flags string n \<Longrightarrow> m n = Some ch \<Longrightarrow> no_slash flags (ch # s) \<Longrightarrow> reached m flags string (Suc n)"
  by (auto simp: reached_def no_slash_def)

text \<open>\<open>- 5\<close> is the complement of \<open>FNM_PERIOD\<close>.\<close>

lemma flag_period [simp]:
  "flag (flags AND - 5) FNM_PERIOD \<longleftrightarrow> False" "flag (flags AND - 5) FNM_FILE_NAME \<longleftrightarrow> flag flags FNM_FILE_NAME"
  "flag (flags AND - 5) FNM_NOESCAPE \<longleftrightarrow> flag flags FNM_NOESCAPE" "flag (flags AND - 5) FNM_CASEFOLD \<longleftrightarrow> flag flags FNM_CASEFOLD"
  "flag (flags AND - 5) FNM_LEADING_DIR \<longleftrightarrow> flag flags FNM_LEADING_DIR"
  by (simp_all add: flag_def and.assoc)

lemma glob_match_period [simp]: "glob_match (flags AND - 5) dot gs s = glob_match flags dot gs s"
proof -
  have f: "fold_byte (fl AND - 5) c = fold_byte fl c" for fl c by (simp add: fold_byte_def)
  have mm: "member_match (fl AND - 5) c x = member_match fl c x" for fl c x by (cases x) (simp_all add: f variants_def)
  show ?thesis
  proof (induction gs arbitrary: dot s)
    case (Cons g gs)
    then show ?case by (cases g; cases s) (simp_all add: f mm)
  qed simp
qed

abbreviation (input) mode :: "bool \<Rightarrow> u32 \<Rightarrow> bool" where
  "mode folded flags \<equiv> \<not> flag flags FNM_NOESCAPE \<and> flag flags FNM_CASEFOLD = folded"

definition decides :: "bool \<Rightarrow> bool \<Rightarrow> bmem \<Rightarrow> nat \<Rightarrow> glob list \<Rightarrow> bool" where
  "decides folded posixly m p gs \<longleftrightarrow> (\<forall>flags string n s. cstr m n s \<longrightarrow> mode folded flags \<longrightarrow>
    no_slash flags s \<longrightarrow> reached m flags string n \<longrightarrow>
    fnmatch_loop posixly m flags string (Main p n) = Some (if glob_match flags (flag flags FNM_PERIOD \<and> n = string) gs s then 0 else FNM_NOMATCH))"

lemma decidesD:
  "decides folded posixly m p gs \<Longrightarrow> cstr m n s \<Longrightarrow> mode folded flags \<Longrightarrow> no_slash flags s \<Longrightarrow> reached m flags string n \<Longrightarrow>
    fnmatch_loop posixly m flags string (Main p n) = Some (if glob_match flags (flag flags FNM_PERIOD \<and> n = string) gs s then 0 else FNM_NOMATCH)"
  by (simp add: decides_def)

lemma decides_next:
  assumes "decides folded posixly m p gs" "cstr m n (ch # s)" "mode folded flags" "no_slash flags (ch # s)" "reached m flags string n"
  shows "fnmatch_loop posixly m flags string (Main p (Suc n)) = Some (if glob_match flags False gs s then 0 else FNM_NOMATCH)"
proof -
  have "m n = Some ch" "cstr m (Suc n) s" using assms(2) by (simp_all add: cstr_Cons)
  moreover have "no_slash flags s" using assms(4) by (auto simp: no_slash_def)
  moreover have "Suc n \<noteq> string" using assms(5) by (auto simp: reached_def)
  ultimately show ?thesis using decidesD [OF assms(1) _ assms(3), of "Suc n" s string] reached_Suc [OF assms(5) _ assms(4)] by simp
qed

text \<open>The loop over the string behind an asterisk; \<open>c\<close> and \<open>c1\<close> only save calls that cannot succeed.\<close>

lemma star_loop_spec:
  assumes "decides folded posixly m p gs" "cstr m n s" "mode folded flags" "no_slash flags s"
    and skip: "\<And>ch t. c \<noteq> ch_open \<Longrightarrow> fold_byte flags ch \<noteq> c1 \<Longrightarrow> \<not> glob_match flags False gs (ch # t)"
  shows "fnmatch_loop posixly m flags string (Star c c1 p n) = Some (if \<exists>k < length s. glob_match flags False gs (drop k s) then 0 else FNM_NOMATCH)"
  using assms(2,4)
proof (induction s arbitrary: n)
  case Nil
  then show ?case by (subst fnmatch_loop.simps) (simp add: cstr_Nil ld_def)
next
  case (Cons ch s)
  have ih: "fnmatch_loop posixly m flags string (Star c c1 p (n + 1)) = Some (if \<exists>k < length s. glob_match flags False gs (drop k s) then 0 else FNM_NOMATCH)"
    by (rule Cons.IH) (use Cons.prems in \<open>auto simp: cstr_Cons no_slash_def\<close>)
  have call: "fnmatch_loop posixly m (flags AND - 5) n (Main p n) = Some (if glob_match flags False gs (ch # s) then 0 else FNM_NOMATCH)"
    using decidesD [OF assms(1) Cons.prems(1), of "flags AND - 5" n] assms(3) Cons.prems(2) by (simp add: no_slash_def reached_def)
  have ex: "(\<exists>k < length (ch # s). glob_match flags False gs (drop k (ch # s))) \<longleftrightarrow>
      glob_match flags False gs (ch # s) \<or> (\<exists>k < length s. glob_match flags False gs (drop k s))"
    by (subst length_Cons, subst Ex_less_Suc2) simp
  have "(if c = ch_open \<or> fold_byte flags ch = c1 then fnmatch_loop posixly m (flags AND - 5) n (Main p n) else Some FNM_NOMATCH) =
      Some (if glob_match flags False gs (ch # s) then 0 else FNM_NOMATCH)"
    using call skip [of ch s] by auto
  moreover have "fnmatch_loop posixly m flags string (Star c c1 p n) =
      do { r \<leftarrow> (if c = ch_open \<or> fold_byte flags ch = c1 then fnmatch_loop posixly m (flags AND - 5) n (Main p n) else Some FNM_NOMATCH);
           if r = 0 then Some 0 else fnmatch_loop posixly m flags string (Star c c1 p (n + 1)) }"
    using Cons.prems(1) by (subst fnmatch_loop.simps) (simp add: cstr_Cons ld_def)
  ultimately show ?case unfolding ex ih by simp
qed

lemma ex_less_le: "\<not> P n \<Longrightarrow> (\<exists>k < n. P k) \<longleftrightarrow> (\<exists>k \<le> n. P k)" for n :: nat
  by (metis le_neq_implies_less less_imp_le)

lemma decides_Any:
  assumes "\<And>gs' p. length gs' \<le> length gs \<Longrightarrow> glob_ok folded gs' \<Longrightarrow> cstr m p (glob_text gs') \<Longrightarrow> decides folded posixly m p gs'"
    and "cstr m p (glob_text (Any # gs))" "glob_ok folded gs"
  shows "decides folded posixly m p (Any # gs)"
  unfolding decides_def
proof (intro allI impI)
  fix flags string n s
  assume h: "cstr m n s" "mode folded flags" "no_slash flags s" "reached m flags string n"
  let ?dot = "flag flags FNM_PERIOD \<and> n = string"
  have p: "m p = Some ch_star" "cstr m (Suc p) (glob_text gs)" using assms(2) by (simp_all add: cstr_Cons)
  have n: "m n = Some (hd (s @ [0]))" using h(1) by (cases s) (simp_all add: cstr_Nil cstr_Cons)
  show "fnmatch_loop posixly m flags string (Main p n) = Some (if glob_match flags ?dot (Any # gs) s then 0 else FNM_NOMATCH)"
  proof (cases "?dot \<and> s \<noteq> [] \<and> hd s = ch_dot")
    case True
    then show ?thesis using p n h(4) by (subst fnmatch_loop.simps) (simp add: ld_def hidden_dot_reached)
  next
    case False
    then have nd: "\<not> (?dot \<and> hd (s @ [0]) = ch_dot)" by (cases s) auto
    have hd: "hidden_dot m flags string n (hd (s @ [0])) = Some False" using hidden_dot_reached [OF h(4)] nd by simp
    have any: "glob_match flags ?dot (Any # gs) s = glob_match flags False (Any # gs) s" using False by auto
    note cm = collapse_match [of flags gs s]
    note sp = star_prefix_spec [OF p(2) h(1) assms(3), of flags]
    show ?thesis
    proof (cases "collapse gs s")
      case None
      then have "star_prefix m flags (Suc p) n = Some None" using sp h(3) by (simp add: no_slash_def)
      then show ?thesis using p n None unfolding any cm by (subst fnmatch_loop.simps) (simp add: ld_def hd)
    next
      case (Some r)
      then obtain gs' s' where r: "collapse gs s = Some (gs', s')" by (cases r) simp
      then obtain p' where p': "star_prefix m flags (Suc p) n = Some (Some (hd (glob_text gs' @ [0]), p' + 1, n + (length s - length s')))"
        "cstr m p' (glob_text gs')" using sp h(3) by (auto simp: no_slash_def)
      have c: "glob_ok folded gs'" "length gs' \<le> length gs" "gs' = [] \<or> (\<exists>c t. gs' = Lit c # t) \<or> (\<exists>neg ms t. gs' = Set neg ms # t)"
        using collapse_ok [OF r assms(3)] by blast+
      obtain k where k: "k \<le> length s" "s' = drop k s" using collapse_ok [OF r assms(3)] by blast
      have s': "cstr m (n + (length s - length s')) s'" "no_slash flags s'" using cstr_drop [OF h(1) k(1)] k h(3) by (auto simp: no_slash_def dest: in_set_dropD)
      have dec: "decides folded posixly m p' gs'" using assms(1) c p'(2) by blast
      let ?c = "hd (glob_text gs' @ [0])" and ?n = "n + (length s - length s')"
      have step: "fnmatch_loop posixly m flags string (Main p n) =
          (if ?c = 0 then Some 0 else do { c1 \<leftarrow> (if ?c = ch_esc then ld m (p' + 1) else Some ?c);
             fnmatch_loop posixly m flags string (Star ?c (fold_byte flags c1) p' ?n) })"
        using p n p'(1) h(2) by (subst fnmatch_loop.simps) (simp add: ld_def hd)
      show ?thesis
      proof (cases "gs' = []")
        case True
        then show ?thesis using step unfolding any cm r by (auto intro: exI [of _ "length s'"])
      next
        case False
        then have c0: "?c \<noteq> 0" using glob_text_first(2) [OF c(1,3)] by simp
        obtain c1 where c1: "(if ?c = ch_esc then ld m (p' + 1) else Some ?c) = Some c1"
          "\<And>ch t. ?c \<noteq> ch_open \<Longrightarrow> fold_byte flags ch \<noteq> fold_byte flags c1 \<Longrightarrow> \<not> glob_match flags False gs' (ch # t)"
          using c(3) False p'(2) by (auto simp: lit_text_def cstr_Cons ld_def split: if_splits)
        have ex: "(\<exists>k < length s'. glob_match flags False gs' (drop k s')) = glob_match flags False (Any # gs') s'"
        proof -
          have "\<not> glob_match flags False gs' []" using c(3) False by auto
          then have "\<not> glob_match flags False gs' (drop (length s') s')" by simp
          from ex_less_le [of "\<lambda>k. glob_match flags False gs' (drop k s')", OF this] show ?thesis by simp
        qed
        have "fnmatch_loop posixly m flags string (Main p n) =
            Some (if \<exists>k < length s'. glob_match flags False gs' (drop k s') then 0 else FNM_NOMATCH)"
          by (simp only: step c0 if_False c1(1) Option.bind.bind_lunit) (rule star_loop_spec [OF dec s'(1) h(2) s'(2) c1(2)])
        then show ?thesis by (simp only: any cm r option.case prod.case ex)
      qed
    qed
  qed
qed

lemma decides_all: "glob_ok folded gs \<Longrightarrow> cstr m p (glob_text gs) \<Longrightarrow> decides folded posixly m p gs"
proof (induction "length gs" arbitrary: gs p rule: less_induct)
  case less
  show ?case
  proof (cases gs)
    case Nil
    then show ?thesis using less.prems unfolding decides_def
    proof (intro allI impI)
      fix flags string n s
      assume "cstr m n s"
      then have "m n = Some (hd (s @ [0]))" "hd (s @ [0]) = 0 \<longleftrightarrow> s = []" "s \<noteq> [] \<longrightarrow> hd (s @ [0]) = hd s" by (cases s; simp add: cstr_Nil cstr_Cons)+
      then show "fnmatch_loop posixly m flags string (Main p n) = Some (if glob_match flags (flag flags FNM_PERIOD \<and> n = string) gs s then 0 else FNM_NOMATCH)"
        using less.prems Nil by (subst fnmatch_loop.simps) (auto simp: cstr_Nil ld_def)
    qed
  next
    case (Cons g gs')
    show ?thesis
    proof (cases "g = Any")
      case True
      then show ?thesis using less Cons by (auto intro!: decides_Any)
    next
      case False
      define w where "w = (case g of Lit c \<Rightarrow> lit_text c | Quest \<Rightarrow> [ch_quest] | Any \<Rightarrow> [] | Set neg ms \<Rightarrow> ch_open # (if neg then [ch_not] else []) @ set_text ms @ [ch_close])"
      have w: "glob_text gs = w @ glob_text gs'" using Cons False by (cases g) (simp_all add: w_def)
      have b: "block m p w" "cstr m (p + length w) (glob_text gs')"
        using less.prems(2) cstr_drop [OF less.prems(2), of "length w"] cstr_block [OF less.prems(2)] by (simp_all add: w block_append)
      have dec: "decides folded posixly m (p + length w) gs'" using less b(2) Cons by (cases g) auto
      show ?thesis unfolding decides_def
      proof (intro allI impI)
        fix flags string n s
        assume h: "cstr m n s" "mode folded flags" "no_slash flags s" "reached m flags string n"
        let ?dot = "flag flags FNM_PERIOD \<and> n = string"
        show "fnmatch_loop posixly m flags string (Main p n) = Some (if glob_match flags ?dot gs s then 0 else FNM_NOMATCH)"
        proof (cases s)
          case Nil
          then show ?thesis using h b(1) less.prems(1) False Cons
            by (subst fnmatch_loop.simps) (cases g; auto simp: w_def cstr_Nil lit_text_def block_Cons ld_def split: if_splits)
        next
          case (Cons ch t)
          then have n: "m n = Some ch" "ch \<noteq> 0" "ch = ch_slash \<longrightarrow> \<not> flag flags FNM_FILE_NAME" using h by (auto simp: cstr_Cons no_slash_def)
          have next_: "fnmatch_loop posixly m flags string (Main (p + length w) (Suc n)) = Some (if glob_match flags False gs' t then 0 else FNM_NOMATCH)"
            using decides_next [OF dec] h Cons by blast
          have hd: "hidden_dot m flags string n ch = Some (?dot \<and> ch = ch_dot)" using hidden_dot_reached [OF h(4)] by simp
          show ?thesis
          proof (cases g)
            case (Lit c)
            have c: "c \<noteq> 0" "glob_ok folded gs'" using less.prems(1) \<open>gs = g # gs'\<close> Lit by simp_all
            have "fnmatch_loop posixly m flags string (Main p n) =
                (if fold_byte flags c = fold_byte flags ch then fnmatch_loop posixly m flags string (Main (p + length w) (Suc n)) else Some FNM_NOMATCH)"
            proof (cases "c \<in> {ch_quest, ch_star, ch_open, ch_esc}")
              case True
              then have "m p = Some ch_esc" "m (Suc p) = Some c" "length w = 2" using b(1) Lit by (auto simp: w_def lit_text_def block_Cons)
              then show ?thesis using n h(2) c by (subst fnmatch_loop.simps) (auto simp: ld_def Let_def)
            next
              case False
              then have "m p = Some c" "length w = 1" using b(1) Lit by (auto simp: w_def lit_text_def block_Cons)
              then show ?thesis using False n c by (subst fnmatch_loop.simps) (simp add: ld_def Let_def)
            qed
            then show ?thesis using next_ \<open>s = ch # t\<close> \<open>gs = g # gs'\<close> Lit by simp
          next
            case Quest
            then show ?thesis using h(2) n b(1) next_ \<open>s = ch # t\<close> \<open>gs = g # gs'\<close> hd
              by (subst fnmatch_loop.simps) (auto simp add: w_def block_Cons ld_def)
          next
            case (Set neg ms)
            then have st: "set_ok folded neg ms" "m p = Some ch_open" "block m (Suc p) ((if neg then [ch_not] else []) @ set_text ms @ [ch_close])"
              using less.prems(1) \<open>gs = g # gs'\<close> b(1) by (simp_all add: w_def block_Cons)
            have "bracket posixly m flags ch (p + 1) = Some (if (\<exists>x \<in> set ms. member_match flags ch x) \<noteq> neg then Some (p + length w) else None)"
              using bracket_spec [of flags neg ms m "Suc p" posixly ch] st(1,3) h(2) Set by (simp add: w_def)
            then show ?thesis using n st(2) next_ \<open>s = ch # t\<close> \<open>gs = g # gs'\<close> hd Set
              by (subst fnmatch_loop.simps) (simp add: ld_def)
          qed (use False in simp)
        qed
      qed
    qed
  qed
qed

section \<open>Results\<close>

text \<open>C21: \<open>fnmatch\<close> decides whether the string matches the pattern: literal characters, escaped where they are special, \<open>?\<close>
  for any character, \<open>*\<close> for any run of characters, and sets of characters and ranges, negated or not, with periods at
  the start of the string, folded case and trailing directories as the flags ask for. A range holds the characters whose
  codes lie between its ends; without regard to case, those of which one form does. It returns on every such pattern and
  reads only the two strings. The pattern is read with escapes (not \<open>FNM_NOESCAPE\<close>); its sets hold no named classes,
  brackets or backslashes; a range begins below 128 and, without regard to case, contains no capital letter or all the
  letters; where slashes are special the string has none.\<close>

theorem fnmatch_correct:
  assumes "cstr m p (glob_text gs)" "cstr m n s" "glob_ok (flag flags FNM_CASEFOLD) gs" "\<not> flag flags FNM_NOESCAPE" "no_slash flags s"
  shows "fnmatch posixly m p n flags = Some (if glob_match flags (flag flags FNM_PERIOD) gs s then 0 else FNM_NOMATCH)"
  using decidesD [OF decides_all [OF assms(3,1)] assms(2) _ assms(5), of n] assms(4) by (simp add: fnmatch_def reached_def)

theorem fnmatch_correct_witness:
  "let m = wr (wr (\<lambda>_. Some 0) 10 [97, 42, 91, 98, 45, 100, 93]) 30 [97, 120, 67]
   in fnmatch True m 10 30 (FNM_PERIOD + FNM_CASEFOLD) = Some 0"
proof -
  let ?m = "wr (wr (\<lambda>_. Some 0) 10 [97, 42, 91, 98, 45, 100, 93]) 30 [97, 120, 67] :: bmem"
  let ?gs = "[Lit 97, Any, Set False [Range 98 100]]"
  have "cstr ?m 10 (glob_text ?gs)" "cstr ?m 30 [97, 120, 67]"
    by (simp_all add: cstr_def block_Cons wr_def lit_text_def)
  from fnmatch_correct [OF this, of 20 True] have "fnmatch True ?m 10 30 20 =
      Some (if glob_match 20 (flag 20 FNM_PERIOD) ?gs [97, 120, 67] then 0 else FNM_NOMATCH)"
    by (simp add: plain_def range_ok_def set_ok_def flag_def no_slash_def del: glob_match.simps any_iff)
  moreover have "glob_match 20 True ?gs [97, 120, 67]"
    by (auto simp: fold_byte_def variants_def lower_def flag_def intro!: exI [of _ "1 :: nat"])
  ultimately show ?thesis by (simp add: flag_def Let_def del: glob_match.simps any_iff)
qed

text \<open>A set that is one range, whatever its ends: what the code compares.\<close>

lemma fnmatch_range:
  assumes "cstr m p [ch_open, a, ch_minus, b, ch_close]" "cstr m n [ch]" "plain a" "plain b" "a \<notin> {ch_not, ch_caret}"
    "flags AND 7 = 0"
  shows "fnmatch posixly m p n flags =
    Some (if fold_byte flags a = fold_byte flags ch \<or> sint a \<le> uint (fold_byte flags ch) \<and> fold_byte flags ch \<le> fold_byte flags b
          then 0 else FNM_NOMATCH)"
proof -
  have m: "m p = Some ch_open" "m (Suc p) = Some a" "m (Suc (Suc p)) = Some ch_minus" "m (Suc (Suc (Suc p))) = Some b"
    "m (Suc (Suc (Suc (Suc p)))) = Some ch_close" "m (Suc (Suc (Suc (Suc (Suc p))))) = Some 0" "m n = Some ch" "m (Suc n) = Some 0" "ch \<noteq> 0"
    using assms(1,2) by (simp_all add: cstr_Cons cstr_Nil)
  have low: "flags AND x = 0" if "7 AND x = x" for x using assms(6) that by (metis and.assoc zero_and_eq)
  have f: "flag flags FNM_FILE_NAME = False" "flag flags FNM_PERIOD = False" "flag flags FNM_NOESCAPE = False"
    using low [of 1] low [of 4] low [of 2] by (simp_all add: flag_def)
  let ?in = "sint a \<le> uint (fold_byte flags ch) \<and> fold_byte flags ch \<le> fold_byte flags b"
  have skip: "bracket_skip m flags q c = Some (Some (p + 5))"
    if "q = p + 2 \<and> c = a \<or> q = p + 4 \<and> c = ch_minus" for q c
  proof -
    have "block m (p + 2) ([ch_minus, b] @ [ch_close])" "block m (p + 4) ([] @ [ch_close])"
      using m by (simp_all add: block_Cons numeral_eq_Suc)
    then show ?thesis
      using bracket_skip_spec [of m "p + 2" "[ch_minus, b]" a flags] bracket_skip_spec [of m "p + 4" "[]" ch_minus flags] that assms(3,4)
      by (auto simp: plain_def)
  qed
  have "bracket_scan m flags ch (p + 2) a =
      Some (if fold_byte flags a = fold_byte flags ch then Matched (p + 2) a else if ?in then Matched (p + 4) ch_minus else Closed (p + 5))"
    using m assms(4) by (subst bracket_scan.simps)
      (auto simp: bracket_member_plain [OF assms(3)] ld_def plain_def numeral_eq_Suc)
  then have bracket: "bracket posixly m flags ch (p + 1) = Some (if fold_byte flags a = fold_byte flags ch \<or> ?in then Some (p + 5) else None)"
    using m assms(5) skip by (simp add: bracket_def ld_def Let_def)
  have "fnmatch_loop posixly m flags n (Main (p + 5) (n + 1)) = Some 0"
    using m by (subst fnmatch_loop.simps) (simp add: ld_def numeral_eq_Suc)
  moreover have "fnmatch_loop posixly m flags n (Main p n) =
      (if fold_byte flags a = fold_byte flags ch \<or> ?in then fnmatch_loop posixly m flags n (Main (p + 5) (n + 1)) else Some FNM_NOMATCH)"
    using m f bracket by (subst fnmatch_loop.simps) (simp add: ld_def hidden_dot_def)
  ultimately show ?thesis by (simp add: fnmatch_def)
qed

text \<open>The lower end is a signed character, so that a range from a character above 127 holds every character up to its end.\<close>

lemma fnmatch_range_signed:
  assumes "cstr m p [ch_open, 128, ch_minus, 144, ch_close]" "cstr m n [65]"
  shows "fnmatch posixly m p n 0 = Some 0"
  using fnmatch_range [OF assms, of 0 posixly] by (simp add: plain_def fold_byte_def flag_def)

text \<open>
  Without regard to case the lower end is the only character that is not made a small letter, so that \<open>[A-Z]\<close> holds the
  underscore, and \<open>[a-z]\<close> does not.
\<close>

lemma fnmatch_range_case:
  assumes "cstr m n [95]"
  shows "cstr m p [ch_open, 65, ch_minus, 90, ch_close] \<Longrightarrow> fnmatch posixly m p n FNM_CASEFOLD = Some 0"
    and "cstr m p [ch_open, 97, ch_minus, 122, ch_close] \<Longrightarrow> fnmatch posixly m p n FNM_CASEFOLD = Some FNM_NOMATCH"
  using fnmatch_range [OF _ assms, of p 65 90 FNM_CASEFOLD posixly] fnmatch_range [OF _ assms, of p 97 122 FNM_CASEFOLD posixly]
  by (simp_all add: plain_def fold_byte_def flag_def lower_def)

text \<open>Named classes.\<close>

lemma class_name_spec:
  assumes "block m (p + 1) (name @ [ch_colon, ch_close])" "ch_colon \<notin> set name" "k \<le> CHAR_CLASS_MAX_LENGTH"
  shows "class_name m p (replicate k 99) =
    Some (if k + length name < CHAR_CLASS_MAX_LENGTH then Some (replicate (k + length name) 99, p + length name + 3) else None)"
  using assms
proof (induction name arbitrary: p k)
  case Nil
  then show ?case by (subst class_name.simps) (simp add: block_Cons ld_def)
next
  case (Cons c name)
  show ?case
  proof (cases "k = CHAR_CLASS_MAX_LENGTH")
    case True
    then show ?thesis by (subst class_name.simps) simp
  next
    case False
    have "class_name m (p + 1) (replicate (Suc k) 99) =
        Some (if Suc k + length name < CHAR_CLASS_MAX_LENGTH then Some (replicate (Suc k + length name) 99, p + 1 + length name + 3) else None)"
      by (rule Cons.IH) (use Cons.prems False in \<open>simp_all add: block_Cons\<close>)
    then show ?thesis using Cons.prems False
      by (subst class_name.simps) (auto simp: block_Cons ld_def replicate_append_same)
  qed
qed

lemma in_class_c: "\<not> in_class (replicate k 99) ch"
proof -
  have "replicate k (99 :: byte) \<noteq> ascii s" if "CHR ''a'' \<in> set s \<or> CHR ''i'' \<in> set s \<or> CHR ''p'' \<in> set s \<or> CHR ''l'' \<in> set s \<or> CHR ''r'' \<in> set s" for s
  proof
    assume "replicate k 99 = ascii s"
    then have "set (ascii s) \<subseteq> {99}" by (metis set_replicate_conv_if empty_subsetI order.refl)
    then have "of_char x = (99 :: byte)" if "x \<in> set s" for x using that by (auto simp: ascii_def)
    from this [of "CHR ''a''"] this [of "CHR ''i''"] this [of "CHR ''p''"] this [of "CHR ''l''"] this [of "CHR ''r''"] that show False by auto
  qed
  then show ?thesis by (simp add: in_class_def)
qed

text \<open>C40: A named class such as \<open>[[:alpha:]]\<close> matches no character at all: instead of the name, the letter c is stored for
  each of its characters, which is the name of no class; a name of six letters or more (\<open>xdigit\<close>) is taken to be too
  long.\<close>

theorem fnmatch_class:
  assumes "cstr m p ([ch_open, ch_open, ch_colon] @ name @ [ch_colon, ch_close, ch_close])" "ch_colon \<notin> set name" "cstr m n s"
  shows "fnmatch posixly m p n flags = Some FNM_NOMATCH"
proof -
  have p: "m p = Some ch_open" "m (p + 1) = Some ch_open" "m (p + 2) = Some ch_colon" "block m (p + 3) (name @ [ch_colon, ch_close])"
    "m (p + length name + 5) = Some ch_close"
    using cstr_block [OF assms(1)] by (simp_all add: block_Cons block_append numeral_eq_Suc add_ac)
  have n: "m n = Some (hd (s @ [0]))" using assms(3) by (cases s) (simp_all add: cstr_Nil cstr_Cons)
  let ?ch = "hd (s @ [0])"
  have "class_name m (p + 2) [] = Some (if length name < CHAR_CLASS_MAX_LENGTH then Some (replicate (length name) 99, p + length name + 5) else None)"
    using class_name_spec [of m "p + 2" name 0] p(4) assms(2) by (simp add: CHAR_CLASS_MAX_LENGTH_def numeral_eq_Suc)
  then have "bracket_member m flags ?ch (p + 2) ch_open =
      Some (if length name < CHAR_CLASS_MAX_LENGTH then Inr (p + length name + 5, ch_colon) else Inl Fail)"
    using p(3) by (simp add: bracket_member_def ld_def in_class_c)
  then have "bracket_scan m flags ?ch (p + 2) ch_open = Some (if length name < CHAR_CLASS_MAX_LENGTH then Closed (p + length name + 6) else Fail)"
    using p(5) by (subst bracket_scan.simps) (simp add: ld_def)
  then have "bracket posixly m flags ?ch (p + 1) = Some None"
    using p(2) by (simp add: bracket_def ld_def Let_def)
  then show ?thesis using p(1) n
    by (simp add: fnmatch_def) (subst fnmatch_loop.simps; simp add: ld_def hidden_dot_def)
qed

theorem fnmatch_class_witness:
  "fnmatch False (wr (wr (\<lambda>_. Some 0) 10 [91, 91, 58, 97, 108, 112, 104, 97, 58, 93, 93]) 30 [120]) 10 30 0 = Some 1"
proof -
  let ?m = "wr (wr (\<lambda>_. Some 0) 10 [91, 91, 58, 97, 108, 112, 104, 97, 58, 93, 93]) 30 [120] :: bmem"
  have "cstr ?m 10 ([91, 91, 58] @ [97, 108, 112, 104, 97] @ [58, 93, 93])" "cstr ?m 30 [120]"
    by (simp_all add: cstr_def block_Cons wr_def)
  from fnmatch_class [OF this(1) _ this(2), of False 0] show ?thesis by simp
qed

text \<open>Behind an asterisk at the end of the pattern no slash is looked for, so that it matches slashes in any case.\<close>

lemma fnmatch_star_slash:
  assumes "cstr m p [ch_star]" "cstr m n s"
  shows "fnmatch posixly m p n FNM_FILE_NAME = Some 0"
proof -
  have "m n = Some (hd (s @ [0]))" using assms(2) by (cases s) (simp_all add: cstr_Nil cstr_Cons)
  moreover have "star_prefix m FNM_FILE_NAME (p + 1) n = Some (Some (0, p + 2, n))"
    using assms(1) by (subst star_prefix.simps) (simp add: cstr_Cons cstr_Nil ld_def)
  ultimately show ?thesis using assms(1)
    by (simp add: fnmatch_def) (subst fnmatch_loop.simps; simp add: cstr_Cons ld_def hidden_dot_def flag_def fold_byte_def Let_def)
qed

text \<open>A closing bracket that comes first in a set stands for itself, but when it matches, the set is taken to end there.\<close>

lemma fnmatch_close_first:
  assumes "cstr m p [ch_open, ch_close, 97, ch_close]" "cstr m n [ch_close]"
  shows "fnmatch posixly m p n 0 = Some FNM_NOMATCH"
proof -
  have m: "m p = Some ch_open" "m (Suc p) = Some ch_close" "m (Suc (Suc p)) = Some 97" "m n = Some ch_close" "m (Suc n) = Some 0"
    using assms by (simp_all add: cstr_Cons cstr_Nil)
  have f: "flag 0 f = False" for f by (simp add: flag_def)
  have fb: "fold_byte 0 c = c" for c by (simp add: fold_byte_def f)
  have "bracket_scan m 0 ch_close (Suc (Suc p)) ch_close = Some (Matched (Suc (Suc p)) ch_close)"
    by (subst bracket_scan.simps) (simp add: bracket_member_def f)
  moreover have "bracket_skip m 0 (Suc (Suc p)) ch_close = Some (Some (Suc (Suc p)))" by (subst bracket_skip.simps) simp
  ultimately have "bracket posixly m 0 ch_close (Suc p) = Some (Some (Suc (Suc p)))"
    using m by (simp add: bracket_def ld_def Let_def)
  then have "fnmatch_loop posixly m 0 n (Main p n) = fnmatch_loop posixly m 0 n (Main (Suc (Suc p)) (Suc n))"
    using m by (subst fnmatch_loop.simps) (simp add: ld_def hidden_dot_def f fb Let_def)
  also have "\<dots> = Some FNM_NOMATCH" using m by (subst fnmatch_loop.simps) (simp add: ld_def f fb Let_def)
  finally show ?thesis by (simp add: fnmatch_def)
qed

end
