(* ===== verification/VersCmp.thy ===== *)
theory VersCmp
  imports StrCase
begin

text \<open>
  \<open>strverscmp\<close> orders numbers inside strings by their value: the automaton with its two tables is followed over the
  common part of the strings, and the digits from the first difference on are compared by their number first.
\<close>

section \<open>Digits\<close>

definition dig :: "byte \<Rightarrow> bool" where "dig c \<longleftrightarrow> 48 \<le> unat c \<and> unat c \<le> 57"

lemma isdigit_byte: "isdigit (ucast (c :: byte)) \<noteq> 0 \<longleftrightarrow> dig c"
proof -
  have "isdigit (of_nat (unat c)) \<noteq> 0 \<longleftrightarrow> unat c \<in> {48..57}"
    using byte_255 [of c] ctype_cases(2) [of "unat c"] ctype_cases_255(2) by (cases "unat c = 255") simp_all
  then have "isdigit (of_nat (unat c)) \<noteq> 0 \<longleftrightarrow> dig c" by (simp only: dig_def atLeastAtMost_iff)
  then show ?thesis by (simp only: isdigit_def class_byte)
qed

lemma isdigit_zero: "isdigit (ucast (c :: byte)) = 0 \<longleftrightarrow> \<not> dig c"
  using isdigit_byte [of c] by blast

lemma symbol_eq: "symbol c = (if \<not> dig c then 0 else if c = 48 then 2 else 1)"
  by (auto simp: symbol_def isdigit_byte dig_def)

fun val :: "byte list \<Rightarrow> nat" where
  "val [] = 0"
| "val (c # a) = (unat c - 48) * 10 ^ length a + val a"

definition digits :: "byte list \<Rightarrow> bool" where "digits a \<longleftrightarrow> (\<forall>c \<in> set a. dig c)"

lemma digits_simps [simp]: "digits []" "digits (c # a) \<longleftrightarrow> dig c \<and> digits a"
  by (auto simp: digits_def)

lemma val_bound: "digits a \<Longrightarrow> val a < 10 ^ length a"
proof (induction a)
  case (Cons c a)
  then have "unat c - 48 \<le> 9" "val a < 10 ^ length a" by (auto simp: dig_def)
  then have "(unat c - 48) * 10 ^ length a \<le> 9 * 10 ^ length a" "val a < 10 ^ length a" by (blast intro: mult_le_mono1)+
  then show ?case unfolding val.simps length_Cons power_Suc by linarith
qed simp

lemma val_first:
  assumes "digits a" "digits b" "length a = length b" "dig c" "dig d" "unat c < unat d"
  shows "val (c # a) < val (d # b)"
proof -
  have "unat c - 48 + 1 \<le> unat d - 48" using assms(4-6) by (simp add: dig_def)
  then have "(unat c - 48 + 1) * 10 ^ length a \<le> (unat d - 48) * 10 ^ length a" by (rule mult_le_mono1)
  then show ?thesis using val_bound [OF assms(1)] assms(3) by simp
qed

lemma val_longer:
  assumes "digits a" "digits (d # b)" "d \<noteq> 48" "length a < length (d # b)"
  shows "val a < val (d # b)"
proof -
  have "1 \<le> unat d - 48" using assms(2,3) by (auto simp: dig_def word_unat_eq_iff)
  from mult_le_mono1 [OF this, of "10 ^ length b"] have "10 ^ length b \<le> (unat d - 48) * 10 ^ length b" by simp
  moreover have "(10 :: nat) ^ length a \<le> 10 ^ length b" using assms(4) by (simp add: power_increasing)
  ultimately show ?thesis using val_bound [OF assms(1)] unfolding val.simps by linarith
qed

text \<open>The order the code finds: first by the number of digits.\<close>

definition before :: "byte list \<Rightarrow> byte list \<Rightarrow> bool" where
  "before a b \<longleftrightarrow> length a < length b \<or> length a = length b \<and> val a < val b"

lemma before_Cons:
  assumes "digits a" "digits b" "dig c" "dig d"
  shows "before (c # a) (d # b) \<longleftrightarrow> length a < length b \<or> length a = length b \<and> (unat c < unat d \<or> c = d \<and> val a < val b)"
  using val_first [OF assms(1,2) _ assms(3,4)] val_first [OF assms(2,1) _ assms(4,3)]
  by (cases "unat c" "unat d" rule: linorder_cases) (auto simp: before_def word_unat_eq_iff)

section \<open>The automaton\<close>

definition vers_end :: "bmem \<Rightarrow> (nat \<times> nat \<times> nat \<times> byte \<times> byte) option \<Rightarrow> int option" where
  "vers_end m r =
    do { (state, p1, p2, c1, c2) \<leftarrow> r;
         r \<leftarrow> get result_type (4 * state + symbol c2);
         if r = 2 then Some (uint c1 - uint c2)
         else if r = 3 then vers_len m p1 p2 (uint c1 - uint c2)
         else Some r }"

lemma cstr_hd: "cstr m p s \<Longrightarrow> m p = Some (hd (s @ [0]))"
  by (cases s) (simp_all add: cstr_Nil cstr_Cons)

definition no_digit :: "byte list \<Rightarrow> bool" where "no_digit x \<longleftrightarrow> (x = [] \<or> \<not> dig (hd x))"

lemma dig_0 [simp]: "\<not> dig 0"
  by (simp add: dig_def)

lemma hd_no_digit: "no_digit x \<Longrightarrow> \<not> dig (hd (x @ [0]))"
  by (cases x) (simp_all add: no_digit_def)

lemma vers_len_spec:
  assumes "cstr m p (a @ x)" "cstr m q (b @ y)" "digits a" "digits b" "no_digit x" "no_digit y"
  shows "vers_len m p q diff = Some (if length b < length a then 1 else if length a < length b then -1 else diff)"
  using assms
proof (induction a b arbitrary: p q rule: list_induct2')
  case 1
  then show ?case using cstr_hd [of m p x] cstr_hd [of m q y] hd_no_digit [of x] hd_no_digit [of y]
    by (subst vers_len.simps) (simp add: ld_def isdigit_byte isdigit_zero)
next
  case (2 c a)
  then show ?case using cstr_hd [of m q y] hd_no_digit [of y] by (subst vers_len.simps) (simp add: ld_def isdigit_byte isdigit_zero cstr_Cons)
next
  case (3 d b)
  then show ?case using cstr_hd [of m p x] hd_no_digit [of x] by (subst vers_len.simps) (simp add: ld_def isdigit_byte isdigit_zero cstr_Cons)
next
  case (4 c a d b)
  then show ?case by (subst vers_len.simps) (simp add: ld_def isdigit_byte isdigit_zero cstr_Cons)
qed

lemma vers_integer:
  assumes "cstr m p (a @ x)" "cstr m q (b @ y)" "digits a" "digits b" "no_digit x" "no_digit y" "a \<noteq> b"
  shows "\<exists>r. vers_end m (vers_loop m (4 + symbol (hd (a @ x @ [0]))) (p + 1) (q + 1) (hd (a @ x @ [0])) (hd (b @ y @ [0]))) = Some r \<and>
    r \<noteq> 0 \<and> (r < 0 \<longleftrightarrow> before a b)"
  using assms
proof (induction a b arbitrary: p q rule: list_induct2')
  case (2 c a)
  have "hd (y @ [0]) \<noteq> c" "\<not> dig (hd (y @ [0]))" using 2 hd_no_digit [of y] by auto
  then show ?case using 2 by (subst vers_loop.simps) (auto simp: vers_end_def symbol_eq get_def result_type_def before_def)
next
  case (3 d b)
  have "hd (x @ [0]) \<noteq> d" "\<not> dig (hd (x @ [0]))" using 3 hd_no_digit [of x] by auto
  then show ?case using 3 by (subst vers_loop.simps) (auto simp: vers_end_def symbol_eq get_def result_type_def before_def)
next
  case (4 c a d b)
  show ?case
  proof (cases "c = d")
    case True
    have "get next_state (4 + symbol c) = Some 4" "c \<noteq> 0" using 4 by (auto simp: symbol_eq get_def next_state_def)
    moreover have "before (c # a) (d # b) = before a b" using True 4 before_Cons [of a b c d] by (auto simp: before_def)
    moreover have "cstr m (Suc p) (a @ x)" "cstr m (Suc q) (b @ y)" using 4 by (simp_all add: cstr_Cons)
    ultimately show ?thesis using True "4.IH" [of "Suc p" "Suc q"] "4.prems" cstr_hd [of m "Suc p" "a @ x"] cstr_hd [of m "Suc q" "b @ y"]
      by (subst vers_loop.simps) (simp add: ld_def)
  next
    case False
    have l: "vers_len m (Suc p) (Suc q) (uint c - uint d) = Some (if length b < length a then 1 else if length a < length b then -1 else uint c - uint d)"
      by (rule vers_len_spec [of _ _ a x _ b y]) (use 4 in \<open>simp_all add: cstr_Cons\<close>)
    have u: "uint c \<noteq> uint d" "uint c < uint d \<longleftrightarrow> unat c < unat d"
      using False word_less_def [of c d] word_less_nat_alt [of c d] by (simp_all add: word_uint_eq_iff)
    have "get result_type (4 * (4 + symbol c) + symbol d) = Some 3"
      using 4 False by (auto simp: symbol_eq get_def result_type_def)
    then have "vers_end m (vers_loop m (4 + symbol c) (p + 1) (q + 1) c d) =
        Some (if length b < length a then 1 else if length a < length b then -1 else uint c - uint d)"
      using False l by (subst vers_loop.simps) (simp add: vers_end_def)
    then show ?thesis using u "4.prems"(3,4) before_Cons [of a b c d] False by (simp split: if_splits)
  qed
qed simp

lemma next_state_any: "S \<in> {0, 4, 8, 12} \<Longrightarrow> \<exists>S' \<in> {0, 4, 8, 12}. get next_state (S + symbol c) = Some S' \<and> (\<not> dig c \<longrightarrow> S' = 0)"
  by (auto simp: symbol_eq get_def next_state_def)

text \<open>The common part, up to a character that is not a digit.\<close>

lemma vers_common:
  assumes "cstr m p (u @ s)" "cstr m q (u @ t)" "u \<noteq> []" "\<not> dig (last u)" "S \<in> {0, 4, 8, 12}"
  shows "vers_loop m (S + symbol (hd u)) (p + 1) (q + 1) (hd u) (hd u) =
    vers_loop m (symbol (hd (s @ [0]))) (p + length u + 1) (q + length u + 1) (hd (s @ [0])) (hd (t @ [0]))"
  using assms
proof (induction u arbitrary: p q S)
  case (Cons c u)
  obtain S' where S': "S' \<in> {0, 4, 8, 12}" "get next_state (S + symbol c) = Some S'" "\<not> dig c \<longrightarrow> S' = 0"
    using next_state_any [OF Cons.prems(5), of c] by blast
  have c: "cstr m (Suc p) (u @ s)" "cstr m (Suc q) (u @ t)" "c \<noteq> 0" using Cons.prems by (simp_all add: cstr_Cons)
  have "vers_loop m (S + symbol c) (p + 1) (q + 1) c c =
      vers_loop m (S' + symbol (hd (u @ s @ [0]))) (p + 2) (q + 2) (hd (u @ s @ [0])) (hd (u @ t @ [0]))"
    using c S'(2) cstr_hd [OF c(1)] cstr_hd [OF c(2)] by (subst vers_loop.simps) (simp add: ld_def)
  then show ?case
  proof (cases "u = []")
    case False
    then have "\<not> dig (last u)" using Cons.prems(4) by simp
    from Cons.IH [OF c(1,2) False this S'(1)] show ?thesis
      using \<open>vers_loop m (S + symbol c) _ _ _ _ = _\<close> False by simp
  qed (use S'(3) Cons.prems(4) in simp)
qed simp

text \<open>Numbers as they are usually written, without zeros in front.\<close>

definition numeral_text :: "byte list \<Rightarrow> bool" where
  "numeral_text a \<longleftrightarrow> digits a \<and> a \<noteq> [] \<and> (hd a = 48 \<longrightarrow> a = [48])"

lemma val_before:
  assumes "numeral_text a" "numeral_text b"
  shows "val a < val b \<longleftrightarrow> before a b"
proof -
  have *: "val a < val b" if t: "numeral_text a" "numeral_text b" "length a < length b" for a b
  proof -
    obtain d b' where b: "b = d # b'" using t(2) by (cases b) (auto simp: numeral_text_def)
    then have "d \<noteq> 48" using t by (auto simp: numeral_text_def)
    then show ?thesis using val_longer [of a d b'] t b by (simp add: numeral_text_def)
  qed
  from *[OF assms] *[OF assms(2,1)] show ?thesis by (auto simp: before_def) (metis linorder_neqE_nat less_asym)
qed

text \<open>C27: \<open>strverscmp\<close> orders numbers in strings by their value: where two strings agree up to a place that is not
  inside a number, and different numbers follow there, the string with the smaller number comes first, whatever follows.\<close>

theorem strverscmp_numbers:
  assumes "cstr m p (u @ a @ x)" "cstr m q (u @ b @ y)" "p \<noteq> q" "u = [] \<or> \<not> dig (last u)"
    "numeral_text a" "numeral_text b" "a \<noteq> b" "no_digit x" "no_digit y"
  shows "\<exists>r. strverscmp m p q = Some r \<and> r \<noteq> 0 \<and> (r < 0 \<longleftrightarrow> val a < val b)"
proof -
  obtain c a' d b' where ab: "a = c # a'" "b = d # b'" using assms(5,6) by (cases a; cases b) (auto simp: numeral_text_def)
  have dg: "dig c" "dig d" "digits a'" "digits b'" "c = 48 \<Longrightarrow> a' = []" "d = 48 \<Longrightarrow> b' = []"
    using assms(5,6) ab by (auto simp: numeral_text_def)
  define P Q where "P = p + length u" and "Q = q + length u"
  have PQ: "cstr m P (a @ x)" "cstr m Q (b @ y)"
    using cstr_drop [OF assms(1), of "length u"] cstr_drop [OF assms(2), of "length u"] by (simp_all add: P_def Q_def)
  have "strverscmp m p q = vers_end m (vers_loop m (symbol (hd (u @ a))) (p + 1) (q + 1) (hd (u @ a)) (hd (u @ b)))"
    using assms(3) cstr_hd [OF assms(1)] cstr_hd [OF assms(2)] ab by (simp add: strverscmp_def vers_end_def ld_def hd_append)
  also have "\<dots> = vers_end m (vers_loop m (symbol c) (P + 1) (Q + 1) c d)"
    using vers_common [OF assms(1,2), of 0] assms(4) ab by (cases "u = []") (simp_all add: P_def Q_def)
  finally have start: "strverscmp m p q = vers_end m (vers_loop m (symbol c) (P + 1) (Q + 1) c d)" .
  have bf: "val a < val b \<longleftrightarrow> before a b" using assms(5,6) by (rule val_before)
  show ?thesis
  proof (cases "c = d")
    case True
    then have "c \<noteq> 48" "a' \<noteq> b'" using dg(5,6) ab assms(7) by auto
    have "get next_state (symbol c) = Some 4" "c \<noteq> 0" using \<open>c \<noteq> 48\<close> dg(1) by (auto simp: symbol_eq get_def next_state_def)
    moreover have tl: "cstr m (Suc P) (a' @ x)" "cstr m (Suc Q) (b' @ y)" using PQ ab by (simp_all add: cstr_Cons)
    ultimately have "vers_loop m (symbol c) (P + 1) (Q + 1) c d =
        vers_loop m (4 + symbol (hd (a' @ x @ [0]))) (Suc P + 1) (Suc Q + 1) (hd (a' @ x @ [0])) (hd (b' @ y @ [0]))"
      using True cstr_hd [OF tl(1)] cstr_hd [OF tl(2)] by (subst vers_loop.simps) (simp add: ld_def)
    moreover have "before a b = before a' b'" using True before_Cons [OF dg(3,4,1,2)] ab by (auto simp: before_def)
    ultimately show ?thesis using start bf vers_integer [OF tl dg(3,4) assms(8,9) \<open>a' \<noteq> b'\<close>] by simp
  next
    case False
    have u: "uint c \<noteq> uint d" "uint c < uint d \<longleftrightarrow> unat c < unat d"
      using False word_less_def [of c d] word_less_nat_alt [of c d] by (simp_all add: word_uint_eq_iff)
    have l: "vers_len m (Suc P) (Suc Q) (uint c - uint d) =
        Some (if length b' < length a' then 1 else if length a' < length b' then -1 else uint c - uint d)"
      by (rule vers_len_spec [of _ _ a' x _ b' y]) (use PQ ab dg assms(8,9) in \<open>simp_all add: cstr_Cons\<close>)
    have t: "get result_type (4 * symbol c + symbol d) = Some (if c = 48 \<or> d = 48 then 2 else 3)"
      using dg(1,2) False by (auto simp: symbol_eq get_def result_type_def)
    have v: "vers_end m (vers_loop m (symbol c) (P + 1) (Q + 1) c d) = Some (if c = 48 \<or> d = 48 then uint c - uint d
        else if length b' < length a' then 1 else if length a' < length b' then -1 else uint c - uint d)"
      using False l t by (subst vers_loop.simps) (simp add: vers_end_def)
    have z: "c = 48 \<or> d = 48 \<Longrightarrow> before a b \<longleftrightarrow> unat c < unat d"
      using before_Cons [OF dg(3,4,1,2)] dg ab False word_unat_eq_iff [of c d] by (auto simp: dig_def)
    show ?thesis using start bf v z u before_Cons [OF dg(3,4,1,2)] ab False by (auto split: if_splits)
  qed
qed

theorem strverscmp_numbers_witness:
  "let m = wr (wr (\<lambda>_. Some 0) 10 [97, 57, 46]) 20 [97, 49, 48]
   in \<exists>r. strverscmp m 10 20 = Some r \<and> r \<noteq> 0 \<and> (r < 0 \<longleftrightarrow> val [57] < val [49, 48])"
proof -
  let ?m = "wr (wr (\<lambda>_. Some 0) 10 [97, 57, 46]) 20 [97, 49, 48] :: bmem"
  have "cstr ?m 10 ([97] @ [57] @ [46])" "cstr ?m 20 ([97] @ [49, 48] @ [])"
    by (simp_all add: cstr_def block_Cons wr_def)
  from strverscmp_numbers [OF this] show ?thesis by (simp add: Let_def dig_def numeral_text_def no_digit_def)
qed

end
