(* ===== verification/Xdr.thy ===== *)
theory Xdr
  imports CMem
begin

text \<open>
  External data representation (\<open>sunrpc/xdr.c\<close>, \<open>xdr_intXX_t.c\<close>, \<open>xdr_array.c\<close>, \<open>xdr_ref.c\<close>, \<open>xdr_mem.c\<close>): filters
  that write a C object to a stream or read it from there, as \<open>x_op\<close> says, and the stream over a buffer in memory.

  The machine is big-endian with 32-bit \<open>int\<close>, \<open>long\<close> and pointers. A scalar that is passed by address to a filter or a
  stream operation is passed in and returned by value (\<open>at_int\<close> and \<open>at_byte\<close> are the filters applied to an object in memory);
  blocks of bytes, arrays and structures are addresses, \<open>NULL\<close> being 0. The table of operations of a stream is the record \<open>xdr_ops\<close>
  (without \<open>x_inline\<close>, which no filter uses, and \<open>x_destroy\<close>).
  A filter yields whether it succeeds, the stream, the memory, and the object. \<open>malloc\<close> and \<open>free\<close> are parameters.
\<close>

section \<open>Words in memory\<close>

definition be32 :: "u32 \<Rightarrow> byte list" where
  "be32 x = [ucast (drop_bit 24 x), ucast (drop_bit 16 x), ucast (drop_bit 8 x), ucast x]"

definition of_be32 :: "byte \<Rightarrow> byte \<Rightarrow> byte \<Rightarrow> byte \<Rightarrow> u32" where
  "of_be32 a b c d = push_bit 24 (ucast a) OR push_bit 16 (ucast b) OR push_bit 8 (ucast c) OR ucast d"

definition ld_word :: "bmem \<Rightarrow> nat \<Rightarrow> u32 option" where
  "ld_word m p = do { a \<leftarrow> ld m p; b \<leftarrow> ld m (p + 1); c \<leftarrow> ld m (p + 2); d \<leftarrow> ld m (p + 3); Some (of_be32 a b c d) }"

fun st_list :: "bmem \<Rightarrow> nat \<Rightarrow> byte list \<Rightarrow> bmem option" where
  "st_list m p [] = Some m"
| "st_list m p (x # xs) = do { m \<leftarrow> st m p x; st_list m (p + 1) xs }"

fun ld_list :: "bmem \<Rightarrow> nat \<Rightarrow> nat \<Rightarrow> byte list option" where
  "ld_list m p 0 = Some []"
| "ld_list m p (Suc n) = do { x \<leftarrow> ld m p; xs \<leftarrow> ld_list m (p + 1) n; Some (x # xs) }"

definition st_word :: "bmem \<Rightarrow> nat \<Rightarrow> u32 \<Rightarrow> bmem option" where
  "st_word m p x = st_list m p (be32 x)"

section \<open>Streams\<close>

datatype xdr_op = XDR_ENCODE | XDR_DECODE | XDR_FREE

record xdr =
  x_op :: xdr_op
  x_private :: nat
  x_base :: nat
  x_handy :: u32

record xdr_ops =
  x_getlong :: "xdr \<Rightarrow> bmem \<Rightarrow> (u32 option \<times> xdr) option"
  x_putlong :: "xdr \<Rightarrow> bmem \<Rightarrow> u32 \<Rightarrow> (bool \<times> xdr \<times> bmem) option"
  x_getbytes :: "xdr \<Rightarrow> bmem \<Rightarrow> nat \<Rightarrow> u32 \<Rightarrow> (bool \<times> xdr \<times> bmem) option"
  x_putbytes :: "xdr \<Rightarrow> bmem \<Rightarrow> nat \<Rightarrow> u32 \<Rightarrow> (bool \<times> xdr \<times> bmem) option"
  x_getpostn :: "xdr \<Rightarrow> u32"
  x_setpostn :: "xdr \<Rightarrow> u32 \<Rightarrow> bool \<times> xdr"
  x_getint32 :: "xdr \<Rightarrow> bmem \<Rightarrow> (u32 option \<times> xdr) option"
  x_putint32 :: "xdr \<Rightarrow> bmem \<Rightarrow> u32 \<Rightarrow> (bool \<times> xdr \<times> bmem) option"

text \<open>The stream over a buffer. \<open>x_handy\<close> is an \<open>int\<close>: what is left of the buffer, and negative after a failure.\<close>

definition xdrmem_getlong :: "xdr \<Rightarrow> bmem \<Rightarrow> (u32 option \<times> xdr) option" where
  "xdrmem_getlong xdrs m =
    (let xdrs = xdrs\<lparr>x_handy := x_handy xdrs - 4\<rparr> in
     if sint (x_handy xdrs) < 0 then Some (None, xdrs)
     else do { l \<leftarrow> ld_word m (x_private xdrs); Some (Some l, xdrs\<lparr>x_private := x_private xdrs + 4\<rparr>) })"

definition xdrmem_putlong :: "xdr \<Rightarrow> bmem \<Rightarrow> u32 \<Rightarrow> (bool \<times> xdr \<times> bmem) option" where
  "xdrmem_putlong xdrs m l =
    (let xdrs = xdrs\<lparr>x_handy := x_handy xdrs - 4\<rparr> in
     if sint (x_handy xdrs) < 0 then Some (False, xdrs, m)
     else do { m \<leftarrow> st_word m (x_private xdrs) l; Some (True, xdrs\<lparr>x_private := x_private xdrs + 4\<rparr>, m) })"

definition xdrmem_getbytes :: "xdr \<Rightarrow> bmem \<Rightarrow> nat \<Rightarrow> u32 \<Rightarrow> (bool \<times> xdr \<times> bmem) option" where
  "xdrmem_getbytes xdrs m addr len =
    (let xdrs = xdrs\<lparr>x_handy := x_handy xdrs - len\<rparr> in
     if sint (x_handy xdrs) < 0 then Some (False, xdrs, m)
     else do { bs \<leftarrow> ld_list m (x_private xdrs) (unat len); m \<leftarrow> st_list m addr bs;
               Some (True, xdrs\<lparr>x_private := x_private xdrs + unat len\<rparr>, m) })"

definition xdrmem_putbytes :: "xdr \<Rightarrow> bmem \<Rightarrow> nat \<Rightarrow> u32 \<Rightarrow> (bool \<times> xdr \<times> bmem) option" where
  "xdrmem_putbytes xdrs m addr len =
    (let xdrs = xdrs\<lparr>x_handy := x_handy xdrs - len\<rparr> in
     if sint (x_handy xdrs) < 0 then Some (False, xdrs, m)
     else do { bs \<leftarrow> ld_list m addr (unat len); m \<leftarrow> st_list m (x_private xdrs) bs;
               Some (True, xdrs\<lparr>x_private := x_private xdrs + unat len\<rparr>, m) })"

definition xdrmem_getpos :: "xdr \<Rightarrow> u32" where
  "xdrmem_getpos xdrs = of_nat (x_private xdrs) - of_nat (x_base xdrs)"

definition xdrmem_setpos :: "xdr \<Rightarrow> u32 \<Rightarrow> bool \<times> xdr" where
  "xdrmem_setpos xdrs pos =
    (let newaddr = of_nat (x_base xdrs) + pos; lastaddr = of_nat (x_private xdrs) + x_handy xdrs :: u32 in
     if sint newaddr > sint lastaddr then (False, xdrs)
     else (True, xdrs\<lparr>x_private := unat newaddr, x_handy := lastaddr - newaddr\<rparr>))"

definition xdrmem_inline :: "xdr \<Rightarrow> u32 \<Rightarrow> nat \<times> xdr" where
  "xdrmem_inline xdrs len =
    (if sint (x_handy xdrs) \<ge> sint len
     then (x_private xdrs, xdrs\<lparr>x_handy := x_handy xdrs - len, x_private := nat (int (x_private xdrs) + sint len)\<rparr>)
     else (0, xdrs))"

definition xdrmem_getint32 :: "xdr \<Rightarrow> bmem \<Rightarrow> (u32 option \<times> xdr) option" where
  "xdrmem_getint32 xdrs m =
    (let xdrs = xdrs\<lparr>x_handy := x_handy xdrs - 4\<rparr> in
     if sint (x_handy xdrs) < 0 then Some (None, xdrs)
     else do { l \<leftarrow> ld_word m (x_private xdrs); Some (Some l, xdrs\<lparr>x_private := x_private xdrs + 4\<rparr>) })"

definition xdrmem_putint32 :: "xdr \<Rightarrow> bmem \<Rightarrow> u32 \<Rightarrow> (bool \<times> xdr \<times> bmem) option" where
  "xdrmem_putint32 xdrs m l =
    (let xdrs = xdrs\<lparr>x_handy := x_handy xdrs - 4\<rparr> in
     if sint (x_handy xdrs) < 0 then Some (False, xdrs, m)
     else do { m \<leftarrow> st_word m (x_private xdrs) l; Some (True, xdrs\<lparr>x_private := x_private xdrs + 4\<rparr>, m) })"

definition xdrmem_ops :: xdr_ops where
  "xdrmem_ops =
    \<lparr>x_getlong = xdrmem_getlong, x_putlong = xdrmem_putlong, x_getbytes = xdrmem_getbytes, x_putbytes = xdrmem_putbytes,
     x_getpostn = xdrmem_getpos, x_setpostn = xdrmem_setpos,
     x_getint32 = xdrmem_getint32, x_putint32 = xdrmem_putint32\<rparr>"

definition xdrmem_create :: "nat \<Rightarrow> u32 \<Rightarrow> xdr_op \<Rightarrow> xdr" where
  "xdrmem_create addr sz op = \<lparr>x_op = op, x_private = addr, x_base = addr, x_handy = sz\<rparr>"

section \<open>Scalars\<close>

type_synonym 'v filter = "xdr \<Rightarrow> bmem \<Rightarrow> 'v \<Rightarrow> (bool \<times> xdr \<times> bmem \<times> 'v) option"

definition put_long :: "xdr_ops \<Rightarrow> xdr \<Rightarrow> bmem \<Rightarrow> u32 \<Rightarrow> 'v \<Rightarrow> (bool \<times> xdr \<times> bmem \<times> 'v) option" where
  "put_long ops xdrs m l v = do { (b, xdrs, m) \<leftarrow> x_putlong ops xdrs m l; Some (b, xdrs, m, v) }"

definition get_long :: "xdr_ops \<Rightarrow> xdr \<Rightarrow> bmem \<Rightarrow> (u32 \<Rightarrow> 'v) \<Rightarrow> 'v \<Rightarrow> (bool \<times> xdr \<times> bmem \<times> 'v) option" where
  "get_long ops xdrs m f v =
    do { (r, xdrs) \<leftarrow> x_getlong ops xdrs m;
         Some (case r of None \<Rightarrow> (False, xdrs, m, v) | Some l \<Rightarrow> (True, xdrs, m, f l)) }"

definition xdr_void :: bool where "xdr_void = True"

definition xdr_long :: "xdr_ops \<Rightarrow> u32 filter" where
  "xdr_long ops xdrs m lp =
    (case x_op xdrs of XDR_ENCODE \<Rightarrow> put_long ops xdrs m lp lp | XDR_DECODE \<Rightarrow> get_long ops xdrs m (\<lambda>l. l) lp
     | XDR_FREE \<Rightarrow> Some (True, xdrs, m, lp))"

definition xdr_u_long :: "xdr_ops \<Rightarrow> u32 filter" where
  "xdr_u_long ops xdrs m ulp =
    (case x_op xdrs of XDR_DECODE \<Rightarrow> get_long ops xdrs m (\<lambda>l. l) ulp | XDR_ENCODE \<Rightarrow> put_long ops xdrs m ulp ulp
     | XDR_FREE \<Rightarrow> Some (True, xdrs, m, ulp))"

definition xdr_int :: "xdr_ops \<Rightarrow> u32 filter" where "xdr_int ops = xdr_long ops"
definition xdr_u_int :: "xdr_ops \<Rightarrow> u32 filter" where "xdr_u_int ops = xdr_u_long ops"
definition xdr_enum :: "xdr_ops \<Rightarrow> u32 filter" where "xdr_enum ops = xdr_long ops"

text \<open>Two words, the upper one first; the second is not tried when the first fails.\<close>

definition put_two :: "xdr_ops \<Rightarrow> xdr \<Rightarrow> bmem \<Rightarrow> u32 \<Rightarrow> u32 \<Rightarrow> 'v \<Rightarrow> (bool \<times> xdr \<times> bmem \<times> 'v) option" where
  "put_two ops xdrs m t1 t2 v =
    do { (b, xdrs, m) \<leftarrow> x_putlong ops xdrs m t1;
         if b then put_long ops xdrs m t2 v else Some (False, xdrs, m, v) }"

definition get_two :: "xdr_ops \<Rightarrow> xdr \<Rightarrow> bmem \<Rightarrow> (u32 \<Rightarrow> u32 \<Rightarrow> 'v) \<Rightarrow> 'v \<Rightarrow> (bool \<times> xdr \<times> bmem \<times> 'v) option" where
  "get_two ops xdrs m f v =
    do { (r, xdrs) \<leftarrow> x_getlong ops xdrs m;
         case r of None \<Rightarrow> Some (False, xdrs, m, v) | Some t1 \<Rightarrow> get_long ops xdrs m (f t1) v }"

definition xdr_hyper :: "xdr_ops \<Rightarrow> u64 filter" where
  "xdr_hyper ops xdrs m llp =
    (case x_op xdrs of XDR_ENCODE \<Rightarrow> put_two ops xdrs m (ucast (drop_bit 32 llp)) (ucast llp) llp
     | XDR_DECODE \<Rightarrow> get_two ops xdrs m (\<lambda>t1 t2. push_bit 32 (scast t1) OR ucast t2) llp
     | XDR_FREE \<Rightarrow> Some (True, xdrs, m, llp))"

definition xdr_u_hyper :: "xdr_ops \<Rightarrow> u64 filter" where
  "xdr_u_hyper ops xdrs m ullp =
    (case x_op xdrs of XDR_ENCODE \<Rightarrow> put_two ops xdrs m (ucast (drop_bit 32 ullp)) (ucast ullp) ullp
     | XDR_DECODE \<Rightarrow> get_two ops xdrs m (\<lambda>t1 t2. push_bit 32 (ucast t1) OR ucast t2) ullp
     | XDR_FREE \<Rightarrow> Some (True, xdrs, m, ullp))"

definition xdr_longlong_t :: "xdr_ops \<Rightarrow> u64 filter" where "xdr_longlong_t ops = xdr_hyper ops"
definition xdr_u_longlong_t :: "xdr_ops \<Rightarrow> u64 filter" where "xdr_u_longlong_t ops = xdr_u_hyper ops"

definition xdr_short :: "xdr_ops \<Rightarrow> 16 word filter" where
  "xdr_short ops xdrs m sp =
    (case x_op xdrs of XDR_ENCODE \<Rightarrow> put_long ops xdrs m (scast sp) sp | XDR_DECODE \<Rightarrow> get_long ops xdrs m ucast sp
     | XDR_FREE \<Rightarrow> Some (True, xdrs, m, sp))"

definition xdr_u_short :: "xdr_ops \<Rightarrow> 16 word filter" where
  "xdr_u_short ops xdrs m usp =
    (case x_op xdrs of XDR_ENCODE \<Rightarrow> put_long ops xdrs m (ucast usp) usp | XDR_DECODE \<Rightarrow> get_long ops xdrs m ucast usp
     | XDR_FREE \<Rightarrow> Some (True, xdrs, m, usp))"

definition xdr_char :: "xdr_ops \<Rightarrow> byte filter" where
  "xdr_char ops xdrs m cp =
    do { (b, xdrs, m, i) \<leftarrow> xdr_int ops xdrs m (scast cp); Some (b, xdrs, m, if b then ucast i else cp) }"

definition xdr_u_char :: "xdr_ops \<Rightarrow> byte filter" where
  "xdr_u_char ops xdrs m cp =
    do { (b, xdrs, m, u) \<leftarrow> xdr_u_int ops xdrs m (ucast cp); Some (b, xdrs, m, if b then ucast u else cp) }"

definition xdr_bool :: "xdr_ops \<Rightarrow> u32 filter" where
  "xdr_bool ops xdrs m bp =
    (case x_op xdrs of XDR_ENCODE \<Rightarrow> put_long ops xdrs m (if bp \<noteq> 0 then 1 else 0) bp
     | XDR_DECODE \<Rightarrow> get_long ops xdrs m (\<lambda>lb. if lb = 0 then 0 else 1) bp
     | XDR_FREE \<Rightarrow> Some (True, xdrs, m, bp))"

text \<open>The filters of \<open>xdr_intXX_t.c\<close> use the operations on 32 bits.\<close>

definition put_int32 :: "xdr_ops \<Rightarrow> xdr \<Rightarrow> bmem \<Rightarrow> u32 \<Rightarrow> 'v \<Rightarrow> (bool \<times> xdr \<times> bmem \<times> 'v) option" where
  "put_int32 ops xdrs m l v = do { (b, xdrs, m) \<leftarrow> x_putint32 ops xdrs m l; Some (b, xdrs, m, v) }"

definition get_int32 :: "xdr_ops \<Rightarrow> xdr \<Rightarrow> bmem \<Rightarrow> (u32 \<Rightarrow> 'v) \<Rightarrow> 'v \<Rightarrow> (bool \<times> xdr \<times> bmem \<times> 'v) option" where
  "get_int32 ops xdrs m f v =
    do { (r, xdrs) \<leftarrow> x_getint32 ops xdrs m;
         Some (case r of None \<Rightarrow> (False, xdrs, m, v) | Some l \<Rightarrow> (True, xdrs, m, f l)) }"

definition xdr_int64_t :: "xdr_ops \<Rightarrow> u64 filter" where
  "xdr_int64_t ops xdrs m ip =
    (case x_op xdrs of XDR_ENCODE \<Rightarrow>
       do { (b, xdrs, m) \<leftarrow> x_putint32 ops xdrs m (ucast (drop_bit 32 ip));
            if b then put_int32 ops xdrs m (ucast ip) ip else Some (False, xdrs, m, ip) }
     | XDR_DECODE \<Rightarrow>
       do { (r, xdrs) \<leftarrow> x_getint32 ops xdrs m;
            case r of None \<Rightarrow> Some (False, xdrs, m, ip)
            | Some t1 \<Rightarrow> get_int32 ops xdrs m (\<lambda>t2. push_bit 32 (scast t1) OR ucast t2) ip }
     | XDR_FREE \<Rightarrow> Some (True, xdrs, m, ip))"

definition xdr_uint64_t :: "xdr_ops \<Rightarrow> u64 filter" where
  "xdr_uint64_t ops xdrs m uip =
    (case x_op xdrs of XDR_ENCODE \<Rightarrow>
       do { (b, xdrs, m) \<leftarrow> x_putint32 ops xdrs m (ucast (drop_bit 32 uip));
            if b then put_int32 ops xdrs m (ucast uip) uip else Some (False, xdrs, m, uip) }
     | XDR_DECODE \<Rightarrow>
       do { (r, xdrs) \<leftarrow> x_getint32 ops xdrs m;
            case r of None \<Rightarrow> Some (False, xdrs, m, uip)
            | Some t1 \<Rightarrow> get_int32 ops xdrs m (\<lambda>t2. push_bit 32 (ucast t1) OR ucast t2) uip }
     | XDR_FREE \<Rightarrow> Some (True, xdrs, m, uip))"

definition xdr_int32_t :: "xdr_ops \<Rightarrow> u32 filter" where
  "xdr_int32_t ops xdrs m lp =
    (case x_op xdrs of XDR_ENCODE \<Rightarrow> put_int32 ops xdrs m lp lp | XDR_DECODE \<Rightarrow> get_int32 ops xdrs m (\<lambda>l. l) lp
     | XDR_FREE \<Rightarrow> Some (True, xdrs, m, lp))"

definition xdr_uint32_t :: "xdr_ops \<Rightarrow> u32 filter" where
  "xdr_uint32_t ops xdrs m ulp =
    (case x_op xdrs of XDR_ENCODE \<Rightarrow> put_int32 ops xdrs m ulp ulp | XDR_DECODE \<Rightarrow> get_int32 ops xdrs m (\<lambda>l. l) ulp
     | XDR_FREE \<Rightarrow> Some (True, xdrs, m, ulp))"

definition xdr_int16_t :: "xdr_ops \<Rightarrow> 16 word filter" where
  "xdr_int16_t ops xdrs m ip =
    (case x_op xdrs of XDR_ENCODE \<Rightarrow> put_int32 ops xdrs m (scast ip) ip | XDR_DECODE \<Rightarrow> get_int32 ops xdrs m ucast ip
     | XDR_FREE \<Rightarrow> Some (True, xdrs, m, ip))"

definition xdr_uint16_t :: "xdr_ops \<Rightarrow> 16 word filter" where
  "xdr_uint16_t ops xdrs m uip =
    (case x_op xdrs of XDR_ENCODE \<Rightarrow> put_int32 ops xdrs m (ucast uip) uip | XDR_DECODE \<Rightarrow> get_int32 ops xdrs m ucast uip
     | XDR_FREE \<Rightarrow> Some (True, xdrs, m, uip))"

definition xdr_int8_t :: "xdr_ops \<Rightarrow> byte filter" where
  "xdr_int8_t ops xdrs m ip =
    (case x_op xdrs of XDR_ENCODE \<Rightarrow> put_int32 ops xdrs m (scast ip) ip | XDR_DECODE \<Rightarrow> get_int32 ops xdrs m ucast ip
     | XDR_FREE \<Rightarrow> Some (True, xdrs, m, ip))"

definition xdr_uint8_t :: "xdr_ops \<Rightarrow> byte filter" where
  "xdr_uint8_t ops xdrs m uip =
    (case x_op xdrs of XDR_ENCODE \<Rightarrow> put_int32 ops xdrs m (ucast uip) uip | XDR_DECODE \<Rightarrow> get_int32 ops xdrs m ucast uip
     | XDR_FREE \<Rightarrow> Some (True, xdrs, m, uip))"

section \<open>Blocks of bytes and strings\<close>

type_synonym xproc = "xdr \<Rightarrow> bmem \<Rightarrow> nat \<Rightarrow> (bool \<times> xdr \<times> bmem) option"

text \<open>\<open>crud\<close> is the address of the bytes that padding is read into, \<open>xdr_zero\<close> that of four zeros.\<close>

definition xdr_opaque :: "nat \<Rightarrow> nat \<Rightarrow> xdr_ops \<Rightarrow> xdr \<Rightarrow> bmem \<Rightarrow> nat \<Rightarrow> u32 \<Rightarrow> (bool \<times> xdr \<times> bmem) option" where
  "xdr_opaque crud xdr_zero ops xdrs m cp cnt =
    (if cnt = 0 then Some (True, xdrs, m)
     else let rndup = cnt mod 4; rndup = (if rndup > 0 then 4 - rndup else rndup) in
       case x_op xdrs of
         XDR_DECODE \<Rightarrow>
           do { (b, xdrs, m) \<leftarrow> x_getbytes ops xdrs m cp cnt;
                if \<not> b then Some (False, xdrs, m) else if rndup = 0 then Some (True, xdrs, m)
                else x_getbytes ops xdrs m crud rndup }
       | XDR_ENCODE \<Rightarrow>
           do { (b, xdrs, m) \<leftarrow> x_putbytes ops xdrs m cp cnt;
                if \<not> b then Some (False, xdrs, m) else if rndup = 0 then Some (True, xdrs, m)
                else x_putbytes ops xdrs m xdr_zero rndup }
       | XDR_FREE \<Rightarrow> Some (True, xdrs, m))"

definition xdr_bytes :: "(bmem \<Rightarrow> u32 \<Rightarrow> bmem \<times> nat) \<Rightarrow> (bmem \<Rightarrow> nat \<Rightarrow> bmem) \<Rightarrow> nat \<Rightarrow> nat \<Rightarrow> xdr_ops \<Rightarrow> xdr \<Rightarrow> bmem \<Rightarrow> nat \<Rightarrow> u32 \<Rightarrow> u32 \<Rightarrow>
    (bool \<times> xdr \<times> bmem \<times> nat \<times> u32) option" where
  "xdr_bytes mem_alloc mem_free crud xdr_zero ops xdrs m sp sizep maxsize =
    do { (b, xdrs, m, nodesize) \<leftarrow> xdr_u_int ops xdrs m sizep;
         if \<not> b then Some (False, xdrs, m, sp, nodesize)
         else if nodesize > maxsize \<and> x_op xdrs \<noteq> XDR_FREE then Some (False, xdrs, m, sp, nodesize)
         else case x_op xdrs of
           XDR_DECODE \<Rightarrow>
             if nodesize = 0 then Some (True, xdrs, m, sp, nodesize)
             else let (m, sp) = (if sp = 0 then mem_alloc m nodesize else (m, sp)) in
               if sp = 0 then Some (False, xdrs, m, sp, nodesize)
               else do { (b, xdrs, m) \<leftarrow> xdr_opaque crud xdr_zero ops xdrs m sp nodesize; Some (b, xdrs, m, sp, nodesize) }
         | XDR_ENCODE \<Rightarrow> do { (b, xdrs, m) \<leftarrow> xdr_opaque crud xdr_zero ops xdrs m sp nodesize; Some (b, xdrs, m, sp, nodesize) }
         | XDR_FREE \<Rightarrow> Some (if sp \<noteq> 0 then (True, xdrs, mem_free m sp, 0, nodesize) else (True, xdrs, m, sp, nodesize)) }"

definition MAX_NETOBJ_SZ :: u32 where "MAX_NETOBJ_SZ = 1024"

definition xdr_netobj :: "(bmem \<Rightarrow> u32 \<Rightarrow> bmem \<times> nat) \<Rightarrow> (bmem \<Rightarrow> nat \<Rightarrow> bmem) \<Rightarrow> nat \<Rightarrow> nat \<Rightarrow> xdr_ops \<Rightarrow> xdr \<Rightarrow> bmem \<Rightarrow> nat \<Rightarrow> u32 \<Rightarrow>
    (bool \<times> xdr \<times> bmem \<times> nat \<times> u32) option" where
  "xdr_netobj mem_alloc mem_free crud xdr_zero ops xdrs m n_bytes n_len =
    xdr_bytes mem_alloc mem_free crud xdr_zero ops xdrs m n_bytes n_len MAX_NETOBJ_SZ"

partial_function (option) xstrlen :: "bmem \<Rightarrow> nat \<Rightarrow> u32 \<Rightarrow> u32 option" where
  "xstrlen m p n = do { c \<leftarrow> ld m p; if c = 0 then Some n else xstrlen m (p + 1) (n + 1) }"

text \<open>\<open>size\<close> is not set before it is decoded; the uninitialised value is an argument.\<close>

definition xdr_string :: "(bmem \<Rightarrow> u32 \<Rightarrow> bmem \<times> nat) \<Rightarrow> (bmem \<Rightarrow> nat \<Rightarrow> bmem) \<Rightarrow> nat \<Rightarrow> nat \<Rightarrow> u32 \<Rightarrow> xdr_ops \<Rightarrow> xdr \<Rightarrow> bmem \<Rightarrow> nat \<Rightarrow> u32 \<Rightarrow>
    (bool \<times> xdr \<times> bmem \<times> nat) option" where
  "xdr_string mem_alloc mem_free crud xdr_zero uninit ops xdrs m sp maxsize =
    (if x_op xdrs = XDR_FREE \<and> sp = 0 then Some (True, xdrs, m, sp)
     else if x_op xdrs = XDR_ENCODE \<and> sp = 0 then Some (False, xdrs, m, sp)
     else do {
       size \<leftarrow> (if x_op xdrs = XDR_DECODE then Some uninit else xstrlen m sp 0);
       (b, xdrs, m, size) \<leftarrow> xdr_u_int ops xdrs m size;
       if \<not> b then Some (False, xdrs, m, sp)
       else if size > maxsize then Some (False, xdrs, m, sp)
       else let nodesize = size + 1 in
         case x_op xdrs of
           XDR_DECODE \<Rightarrow>
             if nodesize = 0 then Some (True, xdrs, m, sp)
             else let (m, sp) = (if sp = 0 then mem_alloc m nodesize else (m, sp)) in
               if sp = 0 then Some (False, xdrs, m, sp)
               else do { m \<leftarrow> st m (sp + unat size) 0;
                         (b, xdrs, m) \<leftarrow> xdr_opaque crud xdr_zero ops xdrs m sp size; Some (b, xdrs, m, sp) }
         | XDR_ENCODE \<Rightarrow> do { (b, xdrs, m) \<leftarrow> xdr_opaque crud xdr_zero ops xdrs m sp size; Some (b, xdrs, m, sp) }
         | XDR_FREE \<Rightarrow> Some (True, xdrs, mem_free m sp, 0) })"

definition xdr_wrapstring :: "(bmem \<Rightarrow> u32 \<Rightarrow> bmem \<times> nat) \<Rightarrow> (bmem \<Rightarrow> nat \<Rightarrow> bmem) \<Rightarrow> nat \<Rightarrow> nat \<Rightarrow> u32 \<Rightarrow> xdr_ops \<Rightarrow> xdr \<Rightarrow> bmem \<Rightarrow> nat \<Rightarrow>
    (bool \<times> xdr \<times> bmem \<times> nat) option" where
  "xdr_wrapstring mem_alloc mem_free crud xdr_zero uninit ops xdrs m cpp =
    xdr_string mem_alloc mem_free crud xdr_zero uninit ops xdrs m cpp (- 1)"

text \<open>The stream of \<open>xdr_free\<close> has no other field set.\<close>

definition xdr_free :: "xproc \<Rightarrow> xdr \<Rightarrow> bmem \<Rightarrow> nat \<Rightarrow> bmem option" where
  "xdr_free proc x m objp = do { (_, _, m) \<leftarrow> proc (x\<lparr>x_op := XDR_FREE\<rparr>) m objp; Some m }"

section \<open>Arrays, unions and pointers\<close>

text \<open>
  The filters applied to an object in memory. \<open>xdr_int\<close> reads \<open>*ip\<close> when it encodes, stores it when it has decoded a word, and leaves
  it alone otherwise; the value its model is given for decoding is not looked at. \<open>xdr_char\<close> reads \<open>*cp\<close> first and stores it
  after every success.
\<close>

definition at_int :: "u32 filter \<Rightarrow> xproc" where
  "at_int f xdrs m ip =
    (case x_op xdrs of
       XDR_ENCODE \<Rightarrow> do { l \<leftarrow> ld_word m ip; (b, xdrs, m, _) \<leftarrow> f xdrs m l; Some (b, xdrs, m) }
     | XDR_DECODE \<Rightarrow>
         do { (b, xdrs, m, l) \<leftarrow> f xdrs m 0;
              if b then do { m \<leftarrow> st_word m ip l; Some (b, xdrs, m) } else Some (b, xdrs, m) }
     | XDR_FREE \<Rightarrow> do { (b, xdrs, m, _) \<leftarrow> f xdrs m 0; Some (b, xdrs, m) })"

definition at_byte :: "byte filter \<Rightarrow> xproc" where
  "at_byte f xdrs m cp =
    do { c \<leftarrow> ld m cp; (b, xdrs, m, c) \<leftarrow> f xdrs m c;
         if b then do { m \<leftarrow> st m cp c; Some (b, xdrs, m) } else Some (b, xdrs, m) }"

fun elements :: "xproc \<Rightarrow> xdr \<Rightarrow> bmem \<Rightarrow> nat \<Rightarrow> u32 \<Rightarrow> nat \<Rightarrow> (bool \<times> xdr \<times> bmem) option" where
  "elements proc xdrs m target elsize 0 = Some (True, xdrs, m)"
| "elements proc xdrs m target elsize (Suc n) =
    do { (b, xdrs, m) \<leftarrow> proc xdrs m target;
         if b then elements proc xdrs m (target + unat elsize) elsize n else Some (False, xdrs, m) }"

text \<open>New memory, set to zero, where it is needed.\<close>

definition alloc_zeroed :: "(bmem \<Rightarrow> u32 \<Rightarrow> bmem \<times> nat) \<Rightarrow> bool \<Rightarrow> bmem \<Rightarrow> nat \<Rightarrow> u32 \<Rightarrow> (bmem \<times> nat) option" where
  "alloc_zeroed mem_alloc needed m loc sz =
    (if needed then
       (let (m, loc) = mem_alloc m sz in
        if loc = 0 then Some (m, loc) else do { m \<leftarrow> st_list m loc (replicate (unat sz) 0); Some (m, loc) })
     else Some (m, loc))"

definition xdr_array :: "(bmem \<Rightarrow> u32 \<Rightarrow> bmem \<times> nat) \<Rightarrow> (bmem \<Rightarrow> nat \<Rightarrow> bmem) \<Rightarrow> xdr_ops \<Rightarrow> xdr \<Rightarrow> bmem \<Rightarrow> nat \<Rightarrow> u32 \<Rightarrow> u32 \<Rightarrow> u32 \<Rightarrow> xproc \<Rightarrow>
    (bool \<times> xdr \<times> bmem \<times> nat \<times> u32) option" where
  "xdr_array mem_alloc mem_free ops xdrs m addrp sizep maxsize elsize elproc =
    do { (b, xdrs, m, c) \<leftarrow> xdr_u_int ops xdrs m sizep;
         if \<not> b then Some (False, xdrs, m, addrp, c)
         else if c > maxsize \<and> x_op xdrs \<noteq> XDR_FREE then Some (False, xdrs, m, addrp, c)
         else let nodesize = c * elsize in
           if addrp = 0 \<and> (x_op xdrs = XDR_DECODE \<and> c = 0 \<or> x_op xdrs = XDR_FREE) then Some (True, xdrs, m, addrp, c)
           else do {
             (m, addrp) \<leftarrow> alloc_zeroed mem_alloc (addrp = 0 \<and> x_op xdrs = XDR_DECODE) m addrp nodesize;
             if addrp = 0 \<and> x_op xdrs = XDR_DECODE then Some (False, xdrs, m, addrp, c)
             else do {
               (stat, xdrs, m) \<leftarrow> elements elproc xdrs m addrp elsize (unat c);
               Some (if x_op xdrs = XDR_FREE then (stat, xdrs, mem_free m addrp, 0, c) else (stat, xdrs, m, addrp, c)) } } }"

definition xdr_vector :: "xdr \<Rightarrow> bmem \<Rightarrow> nat \<Rightarrow> u32 \<Rightarrow> u32 \<Rightarrow> xproc \<Rightarrow> (bool \<times> xdr \<times> bmem) option" where
  "xdr_vector xdrs m basep nelem elemsize xdr_elem = elements xdr_elem xdrs m basep elemsize (unat nelem)"

text \<open>The choices up to the one without a procedure.\<close>

fun union_arm :: "(u32 \<times> xproc) list \<Rightarrow> u32 \<Rightarrow> xproc option \<Rightarrow> xproc option" where
  "union_arm [] dscm dfault = dfault"
| "union_arm ((v, proc) # cs) dscm dfault = (if v = dscm then Some proc else union_arm cs dscm dfault)"

definition xdr_union :: "xdr_ops \<Rightarrow> xdr \<Rightarrow> bmem \<Rightarrow> u32 \<Rightarrow> nat \<Rightarrow> (u32 \<times> xproc) list \<Rightarrow> xproc option \<Rightarrow> (bool \<times> xdr \<times> bmem \<times> u32) option" where
  "xdr_union ops xdrs m dscmp unp choices dfault =
    do { (b, xdrs, m, dscm) \<leftarrow> xdr_enum ops xdrs m dscmp;
         if \<not> b then Some (False, xdrs, m, dscm)
         else case union_arm choices dscm dfault of
           None \<Rightarrow> Some (False, xdrs, m, dscm)
         | Some proc \<Rightarrow> do { (b, xdrs, m) \<leftarrow> proc xdrs m unp; Some (b, xdrs, m, dscm) } }"

definition xdr_reference :: "(bmem \<Rightarrow> u32 \<Rightarrow> bmem \<times> nat) \<Rightarrow> (bmem \<Rightarrow> nat \<Rightarrow> bmem) \<Rightarrow> xdr \<Rightarrow> bmem \<Rightarrow> nat \<Rightarrow> u32 \<Rightarrow> xproc \<Rightarrow>
    (bool \<times> xdr \<times> bmem \<times> nat) option" where
  "xdr_reference mem_alloc mem_free xdrs m pp sz proc =
    (if pp = 0 \<and> x_op xdrs = XDR_FREE then Some (True, xdrs, m, pp)
     else do {
       (m, loc) \<leftarrow> alloc_zeroed mem_alloc (pp = 0 \<and> x_op xdrs = XDR_DECODE) m pp sz;
       if loc = 0 \<and> x_op xdrs = XDR_DECODE then Some (False, xdrs, m, loc)
       else do { (stat, xdrs, m) \<leftarrow> proc xdrs m loc;
                 Some (if x_op xdrs = XDR_FREE then (stat, xdrs, mem_free m loc, 0) else (stat, xdrs, m, loc)) } })"

definition xdr_pointer :: "(bmem \<Rightarrow> u32 \<Rightarrow> bmem \<times> nat) \<Rightarrow> (bmem \<Rightarrow> nat \<Rightarrow> bmem) \<Rightarrow> xdr_ops \<Rightarrow> xdr \<Rightarrow> bmem \<Rightarrow> nat \<Rightarrow> u32 \<Rightarrow> xproc \<Rightarrow>
    (bool \<times> xdr \<times> bmem \<times> nat) option" where
  "xdr_pointer mem_alloc mem_free ops xdrs m objpp obj_size xdr_obj =
    do { (b, xdrs, m, more_data) \<leftarrow> xdr_bool ops xdrs m (if objpp \<noteq> 0 then 1 else 0);
         if \<not> b then Some (False, xdrs, m, objpp)
         else if more_data = 0 then Some (True, xdrs, m, 0)
         else xdr_reference mem_alloc mem_free xdrs m objpp obj_size xdr_obj }"

section \<open>Counting the bytes\<close>

text \<open>The operations of \<open>xdr_sizeof.c\<close> write nothing. Its \<open>malloc\<close>ed area is for \<open>x_inline\<close> only.\<close>

definition size_putlong :: "xdr \<Rightarrow> bmem \<Rightarrow> u32 \<Rightarrow> (bool \<times> xdr \<times> bmem) option" where
  "size_putlong xdrs m l = Some (True, xdrs\<lparr>x_handy := x_handy xdrs + 4\<rparr>, m)"

definition size_putbytes :: "xdr \<Rightarrow> bmem \<Rightarrow> nat \<Rightarrow> u32 \<Rightarrow> (bool \<times> xdr \<times> bmem) option" where
  "size_putbytes xdrs m bp len = Some (True, xdrs\<lparr>x_handy := x_handy xdrs + len\<rparr>, m)"

definition size_putint32 :: "xdr \<Rightarrow> bmem \<Rightarrow> u32 \<Rightarrow> (bool \<times> xdr \<times> bmem) option" where
  "size_putint32 xdrs m l = Some (True, xdrs\<lparr>x_handy := x_handy xdrs + 4\<rparr>, m)"

definition harmless :: "xdr \<Rightarrow> bmem \<Rightarrow> (u32 option \<times> xdr) option" where
  "harmless xdrs m = Some (None, xdrs)"

definition size_ops :: xdr_ops where
  "size_ops =
    \<lparr>x_getlong = harmless, x_putlong = size_putlong, x_getbytes = (\<lambda>xdrs m addr len. Some (False, xdrs, m)), x_putbytes = size_putbytes,
     x_getpostn = x_handy, x_setpostn = (\<lambda>xdrs len. (False, xdrs)), x_getint32 = harmless, x_putint32 = size_putint32\<rparr>"

definition xdr_sizeof :: "(xdr_ops \<Rightarrow> xproc) \<Rightarrow> bmem \<Rightarrow> nat \<Rightarrow> (u32 \<times> bmem) option" where
  "xdr_sizeof func m data =
    do { (stat, x, m) \<leftarrow> func size_ops \<lparr>x_op = XDR_ENCODE, x_private = 0, x_base = 0, x_handy = 0\<rparr> m data;
         Some (if stat then x_handy x else 0, m) }"

end
