(* ===== verification/XdrProps.thy ===== *)
theory XdrProps
  imports Xdr
begin

text \<open>
  What the filters promise, proved for every stream that keeps the laws of \<open>xdr_sink\<close> (for encoding) or \<open>xdr_source\<close>
  (for decoding); the stream over a buffer keeps both, the one of \<open>xdr_sizeof\<close> the first. The objects are described by a
  \<open>shape\<close>; \<open>encoding\<close> is what RFC 4506 says of an object.
\<close>

section \<open>Words and blocks\<close>

lemma of_be32_be32:
  assumes "be32 x = [a, b, c, d]"
  shows "of_be32 a b c d = x"
proof (rule bit_eqI)
  fix n
  assume "possible_bit TYPE(u32) n"
  then have "n < 32" by simp
  then have "n < 8 \<or> (\<exists>k<8. n = 8 + k) \<or> (\<exists>k<8. n = 16 + k) \<or> (\<exists>k<8. n = 24 + k)" by presburger
  then consider "n < 8" | k where "n = 8 + k" "k < 8" | k where "n = 16 + k" "k < 8" | k where "n = 24 + k" "k < 8" by blast
  then show "bit (of_be32 a b c d) n = bit x n" using assms
    by cases (auto simp: be32_def of_be32_def bit_simps)
qed

lemma be32_of_be32: "be32 (of_be32 a b c d) = [a, b, c, d]"
  by (simp add: be32_def of_be32_def; intro conjI; rule bit_eqI; auto simp: bit_simps dest: bit_imp_le_length)

lemma length_be32 [simp]: "length (be32 x) = 4"
  by (simp add: be32_def)

lemma ld_word_block: "block m p (be32 x) \<Longrightarrow> ld_word m p = Some x"
proof -
  assume b: "block m p (be32 x)"
  obtain a b c d where x: "be32 x = [a, b, c, d]" by (simp add: be32_def)
  then have "ld_word m p = Some (of_be32 a b c d)" using b by (simp add: ld_word_def ld_def block_Cons numeral_eq_Suc)
  then show ?thesis using of_be32_be32 [OF x] by simp
qed

lemma st_list_wr: "mapped m p (length xs) \<Longrightarrow> st_list m p xs = Some (wr m p xs)"
proof (induction xs arbitrary: m p)
  case (Cons x xs)
  then have "m p \<noteq> None" "mapped (m(p \<mapsto> x)) (Suc p) (length xs)" by (auto simp: mapped_Suc mapped_def)
  then show ?case using Cons.IH by (auto simp: st_def wr_Cons simp del: fun_upd_apply)
qed simp

lemma st_word_wr: "mapped m p 4 \<Longrightarrow> st_word m p x = Some (wr m p (be32 x))"
  by (simp add: st_word_def st_list_wr)

lemma ld_list_block: "block m p xs \<Longrightarrow> ld_list m p (length xs) = Some xs"
  by (induction xs arbitrary: p) (simp_all add: block_Cons ld_def)

lemma ld_list_mapped: "\<not> mapped m p n \<Longrightarrow> ld_list m p n = None"
  by (induction n arbitrary: p) (auto simp: mapped_Suc ld_def split: Option.bind_splits)

section \<open>Flat objects\<close>

text \<open>Objects without pointers: an \<open>int\<close>, a \<open>char\<close>, opaque bytes, vectors and structures of two members.\<close>

datatype shape = SInt | SChar | SOpaque nat | SVector nat shape | SPair shape shape

fun bytes_in :: "shape \<Rightarrow> nat" where
  "bytes_in SInt = 4"
| "bytes_in SChar = 1"
| "bytes_in (SOpaque n) = n"
| "bytes_in (SVector n sh) = n * bytes_in sh"
| "bytes_in (SPair s t) = bytes_in s + bytes_in t"

definition padding :: "nat \<Rightarrow> nat" where "padding n = (if n mod 4 = 0 then 0 else 4 - n mod 4)"

text \<open>The elements of an array of objects of \<open>k\<close> bytes.\<close>

fun chunks :: "nat \<Rightarrow> nat \<Rightarrow> byte list \<Rightarrow> byte list list" where
  "chunks k 0 bs = []"
| "chunks k (Suc n) bs = take k bs # chunks k n (drop k bs)"

fun encoding :: "shape \<Rightarrow> byte list \<Rightarrow> byte list" where
  "encoding SInt bs = bs"
| "encoding SChar bs = be32 (scast (hd bs))"
| "encoding (SOpaque n) bs = bs @ replicate (padding n) 0"
| "encoding (SVector n sh) bs = concat (map (encoding sh) (chunks (bytes_in sh) n bs))"
| "encoding (SPair s t) bs = encoding s (take (bytes_in s) bs) @ encoding t (drop (bytes_in s) bs)"

text \<open>The procedure that \<open>rpcgen\<close> would write for an object of a shape: the members in order, until one fails.\<close>

fun proc :: "nat \<Rightarrow> nat \<Rightarrow> xdr_ops \<Rightarrow> shape \<Rightarrow> xproc" where
  "proc crud zero ops SInt = at_int (xdr_int ops)"
| "proc crud zero ops SChar = at_byte (xdr_char ops)"
| "proc crud zero ops (SOpaque n) = (\<lambda>xdrs m p. xdr_opaque crud zero ops xdrs m p (of_nat n))"
| "proc crud zero ops (SVector n sh) = (\<lambda>xdrs m p. xdr_vector xdrs m p (of_nat n) (of_nat (bytes_in sh)) (proc crud zero ops sh))"
| "proc crud zero ops (SPair s t) = (\<lambda>xdrs m p.
    do { (b, xdrs, m) \<leftarrow> proc crud zero ops s xdrs m p;
         if b then proc crud zero ops t xdrs m (p + bytes_in s) else Some (False, xdrs, m) })"

fun shape_ok :: "shape \<Rightarrow> bool" where
  "shape_ok (SOpaque n) \<longleftrightarrow> n < 2 ^ 31"
| "shape_ok (SVector n sh) \<longleftrightarrow> n < 2 ^ 31 \<and> bytes_in sh < 2 ^ 31 \<and> shape_ok sh"
| "shape_ok (SPair s t) \<longleftrightarrow> shape_ok s \<and> shape_ok t"
| "shape_ok _ \<longleftrightarrow> True"

lemma opaque_pad:
  assumes "n < 2 ^ 31"
  shows "(let r = of_nat n mod 4 :: u32 in if r > 0 then 4 - r else r) = of_nat (padding n)"
proof -
  have mod4: "unat (of_nat n mod 4 :: u32) = n mod 4" using assms by (simp add: unat_mod unat_of_nat take_bit_nat_eq_self)
  then have "(of_nat n mod 4 :: u32) = of_nat (n mod 4)" by (metis of_nat_unat ucast_id)
  moreover have "(4 :: u32) - of_nat (n mod 4) = of_nat (4 - n mod 4)" by (simp add: of_nat_diff less_imp_le)
  moreover have "(0 :: u32) < of_nat (n mod 4) \<longleftrightarrow> n mod 4 \<noteq> 0" using mod4 calculation(1) by (simp only: word_less_nat_alt) simp
  ultimately show ?thesis by (simp add: padding_def Let_def)
qed

section \<open>Encoding\<close>

locale xdr_sink =
  fixes ops :: xdr_ops and fits :: "xdr \<Rightarrow> bmem \<Rightarrow> nat \<Rightarrow> bool" and adv :: "xdr \<Rightarrow> nat \<Rightarrow> xdr"
    and out :: "xdr \<Rightarrow> bmem \<Rightarrow> byte list \<Rightarrow> bmem" and apart :: "xdr \<Rightarrow> nat \<Rightarrow> nat \<Rightarrow> bool"
  assumes putlong: "fits s m 4 \<Longrightarrow> x_putlong ops s m l = Some (True, adv s 4, out s m (be32 l))"
    and putbytes: "fits s m (length bs) \<Longrightarrow> length bs < 2 ^ 31 \<Longrightarrow> block m p bs \<Longrightarrow> apart s p (length bs) \<Longrightarrow>
      x_putbytes ops s m p (of_nat (length bs)) = Some (True, adv s (length bs), out s m bs)"
    and op_adv: "x_op (adv s n) = x_op s"
    and adv_0: "adv s 0 = s"
    and adv_adv: "adv (adv s a) b = adv s (a + b)"
    and fits_le: "fits s m n \<Longrightarrow> k \<le> n \<Longrightarrow> fits s m k"
    and fits_adv: "fits s m (length xs + b) \<Longrightarrow> fits (adv s (length xs)) (out s m xs) b"
    and out_Nil: "out s m [] = m"
    and out_append: "fits s m (length xs + length ys) \<Longrightarrow> out (adv s (length xs)) (out s m xs) ys = out s m (xs @ ys)"
    and out_apart: "fits s m (length xs) \<Longrightarrow> apart s p (length bs) \<Longrightarrow> block m p bs \<Longrightarrow> block (out s m xs) p bs"
    and apart_adv: "fits s m k \<Longrightarrow> apart s p n \<Longrightarrow> apart (adv s k) p n"
    and apart_sub: "apart s p n \<Longrightarrow> a + b \<le> n \<Longrightarrow> apart s (p + a) b"

definition encodes :: "(xdr \<Rightarrow> bmem \<Rightarrow> nat \<Rightarrow> bool) \<Rightarrow> (xdr \<Rightarrow> nat \<Rightarrow> xdr) \<Rightarrow> (xdr \<Rightarrow> bmem \<Rightarrow> byte list \<Rightarrow> bmem) \<Rightarrow> (xdr \<Rightarrow> nat \<Rightarrow> nat \<Rightarrow> bool) \<Rightarrow>
    nat \<Rightarrow> xproc \<Rightarrow> nat \<Rightarrow> (byte list \<Rightarrow> byte list) \<Rightarrow> bool" where
  "encodes fits adv out apart zero f k enc \<longleftrightarrow> (\<forall>s m p obj. x_op s = XDR_ENCODE \<longrightarrow> block m p obj \<longrightarrow> length obj = k \<longrightarrow> apart s p k \<longrightarrow>
    block m zero [0, 0, 0, 0] \<longrightarrow> apart s zero 4 \<longrightarrow> fits s m (length (enc obj)) \<longrightarrow>
    f s m p = Some (True, adv s (length (enc obj)), out s m (enc obj)))"

lemma encodesD:
  "encodes fits adv out apart zero f k enc \<Longrightarrow> x_op s = XDR_ENCODE \<Longrightarrow> block m p obj \<Longrightarrow> length obj = k \<Longrightarrow> apart s p k \<Longrightarrow>
    block m zero [0, 0, 0, 0] \<Longrightarrow> apart s zero 4 \<Longrightarrow> fits s m (length (enc obj)) \<Longrightarrow>
    f s m p = Some (True, adv s (length (enc obj)), out s m (enc obj))"
  by (simp add: encodes_def)

lemma chunks_length: "length bs = n * k \<Longrightarrow> c \<in> set (chunks k n bs) \<Longrightarrow> length c = k"
proof (induction n arbitrary: bs)
  case (Suc n)
  then show ?case using Suc.IH [of "drop k bs"] by auto
qed simp

lemma chunks_concat: "length bs = n * k \<Longrightarrow> concat (chunks k n bs) = bs"
  by (induction n arbitrary: bs) auto

context xdr_sink
begin

lemma int_encodes: "encodes fits adv out apart zero (at_int (xdr_int ops)) 4 (\<lambda>bs. bs)"
  unfolding encodes_def
proof (intro allI impI)
  fix s m p obj
  assume h: "x_op s = XDR_ENCODE" "block m p obj" "length obj = 4" "apart s p 4" "fits s m (length obj)"
  obtain a b c d where "obj = [a, b, c, d]" using h(3) by (auto simp: length_Suc_conv numeral_eq_Suc)
  then obtain x where x: "obj = be32 x" using be32_of_be32 by metis
  have "ld_word m p = Some x" using ld_word_block h(2) x by simp
  then show "at_int (xdr_int ops) s m p = Some (True, adv s (length obj), out s m obj)"
    using putlong [of s m x] h x by (simp add: at_int_def xdr_int_def xdr_long_def put_long_def)
qed

lemma char_encodes: "encodes fits adv out apart zero (at_byte (xdr_char ops)) 1 (\<lambda>bs. be32 (scast (hd bs)))"
  unfolding encodes_def
proof (intro allI impI)
  fix s m p obj
  assume h: "x_op s = XDR_ENCODE" "block m p obj" "length obj = 1" "apart s p 1" "fits s m (length (be32 (scast (hd obj))))"
  obtain c where c: "obj = [c]" using h(3) by (auto simp: length_Suc_conv)
  let ?e = "be32 (scast c)"
  have "block (out s m ?e) p obj" by (rule out_apart) (use h c in simp_all)
  then have "out s m ?e p = Some c" by (simp add: c block_Cons)
  then have "st (out s m ?e) p c = Some (out s m ?e)" by (auto simp: st_def)
  then show "at_byte (xdr_char ops) s m p = Some (True, adv s (length (be32 (scast (hd obj)))), out s m (be32 (scast (hd obj))))"
    using putlong [of s m "scast c"] h c
    by (simp add: at_byte_def xdr_char_def xdr_int_def xdr_long_def put_long_def ld_def block_Cons ucast_scast_byte)
qed

lemma opaque_encodes:
  assumes "n < 2 ^ 31"
  shows "encodes fits adv out apart zero (\<lambda>xdrs m p. xdr_opaque crud zero ops xdrs m p (of_nat n)) n (\<lambda>bs. bs @ replicate (padding n) 0)"
  unfolding encodes_def
proof (intro allI impI)
  fix s m p obj
  assume h: "x_op s = XDR_ENCODE" "block m p obj" "length obj = n" "apart s p n" "block m zero [0, 0, 0, 0]" "apart s zero 4"
    "fits s m (length (obj @ replicate (padding n) 0))"
  have n0: "(of_nat n :: u32) = 0 \<longleftrightarrow> n = 0" using assms by (simp add: word_unat_eq_iff unat_of_nat take_bit_nat_eq_self)
  note pad = opaque_pad [OF assms]
  have pl: "padding n < 4" by (simp add: padding_def)
  let ?z = "replicate (padding n) 0 :: byte list"
  have z: "block m zero ?z" "apart s zero (padding n)"
  proof -
    have "[0, 0, 0, 0] = replicate 4 (0 :: byte)" by (simp add: numeral_eq_Suc)
    then have "block m zero (take (padding n) (replicate 4 0))" using block_take [OF h(5), of "padding n"] by (simp only:)
    then show "block m zero ?z" using pl by (simp only: take_replicate min.absorb1 less_imp_le)
    show "apart s zero (padding n)" using apart_sub [OF h(6), of 0 "padding n"] pl by simp
  qed
  have put: "x_putbytes ops s m p (of_nat n) = Some (True, adv s n, out s m obj)"
    using putbytes [of s m obj p] h assms fits_le [OF h(7), of n] by simp
  have "x_putbytes ops (adv s n) (out s m obj) zero (of_nat (padding n)) = Some (True, adv (adv s n) (padding n), out (adv s n) (out s m obj) ?z)"
  proof -
    have "fits (adv s n) (out s m obj) (padding n)" using fits_adv [of s m obj "padding n"] h(3,7) by simp
    moreover have "block (out s m obj) zero ?z" by (rule out_apart) (use z h fits_le [OF h(7), of n] in simp_all)
    moreover have "apart (adv s n) zero (padding n)" using apart_adv [OF _ z(2)] fits_le [OF h(7), of n] h(3) by simp
    ultimately show ?thesis using putbytes [of "adv s n" "out s m obj" ?z zero] pl by simp
  qed
  moreover have "out (adv s n) (out s m obj) ?z = out s m (obj @ ?z)" using out_append [of s m obj ?z] h(3,7) by simp
  moreover have "(of_nat (padding n) :: u32) = 0 \<longleftrightarrow> padding n = 0"
    using pl by (simp add: word_unat_eq_iff unat_of_nat take_bit_nat_eq_self)
  ultimately show "xdr_opaque crud zero ops s m p (of_nat n) = Some (True, adv s (length (obj @ ?z)), out s m (obj @ ?z))"
    using put h(1,3) pad n0 adv_0 out_Nil
    by (cases "n = 0"; cases "padding n = 0") (simp_all add: xdr_opaque_def Let_def adv_adv padding_def)
qed

lemma out_zero: "fits s m (length xs) \<Longrightarrow> apart s zero 4 \<Longrightarrow> block m zero [0, 0, 0, 0] \<Longrightarrow> block (out s m xs) zero [0, 0, 0, 0]"
  using out_apart [of s m xs zero "[0, 0, 0, 0]"] by (simp add: numeral_eq_Suc)

lemma elements_encode:
  assumes f: "encodes fits adv out apart zero f k enc" and k: "k < 2 ^ 31"
    and h: "x_op s = XDR_ENCODE" "block m p bs" "length bs = n * k" "apart s p (n * k)" "block m zero [0, 0, 0, 0]" "apart s zero 4"
      "fits s m (length (concat (map enc (chunks k n bs))))"
  shows "elements f s m p (of_nat k) n =
    Some (True, adv s (length (concat (map enc (chunks k n bs)))), out s m (concat (map enc (chunks k n bs))))"
  using h
proof (induction n arbitrary: s m p bs)
  case 0
  then show ?case by (simp add: adv_0 out_Nil)
next
  case (Suc n)
  let ?c = "take k bs" and ?r = "drop k bs"
  let ?e = "concat (map enc (chunks k n ?r))"
  have u: "unat (of_nat k :: u32) = k" using k by (simp add: unat_of_nat take_bit_nat_eq_self)
  have fc: "fits s m (length (enc ?c))" using fits_le [OF Suc.prems(7)] by simp
  have c: "f s m p = Some (True, adv s (length (enc ?c)), out s m (enc ?c))"
    by (rule encodesD [OF f]) (use Suc.prems fc block_take apart_sub [OF Suc.prems(4), of 0 k] in simp_all)
  let ?s = "adv s (length (enc ?c))" and ?m = "out s m (enc ?c)"
  have r: "block m (p + k) ?r" "length ?r = n * k" using block_drop [OF Suc.prems(2), of k] Suc.prems(3) by simp_all
  have ap: "apart s (p + k) (n * k)" using apart_sub [OF Suc.prems(4), of k "n * k"] by simp
  have "elements f ?s ?m (p + k) (of_nat k) n = Some (True, adv ?s (length ?e), out ?s ?m ?e)"
  proof (rule Suc.IH)
    show "x_op ?s = XDR_ENCODE" using Suc.prems(1) by (simp add: op_adv)
    show "block ?m (p + k) ?r" by (rule out_apart) (use fc ap r in simp_all)
    show "length ?r = n * k" by (rule r)
    show "apart ?s (p + k) (n * k)" using fc ap by (rule apart_adv)
    show "block ?m zero [0, 0, 0, 0]" by (rule out_zero) (use fc Suc.prems in simp_all)
    show "apart ?s zero 4" using fc Suc.prems(6) by (rule apart_adv)
    show "fits ?s ?m (length ?e)" using fits_adv [of s m "enc ?c" "length ?e"] Suc.prems(7) by simp
  qed
  moreover have "out ?s ?m ?e = out s m (enc ?c @ ?e)" using out_append [of s m "enc ?c" ?e] Suc.prems(7) by simp
  ultimately show ?case using c by (simp add: u adv_adv)
qed

lemma proc_encodes: "shape_ok sh \<Longrightarrow> encodes fits adv out apart zero (proc crud zero ops sh) (bytes_in sh) (encoding sh)"
proof (induction sh)
  case SInt
  have "encoding SInt = (\<lambda>bs. bs)" by (rule ext) simp
  then show ?case using int_encodes by simp
next
  case SChar
  have "encoding SChar = (\<lambda>bs. be32 (scast (hd bs)))" by (rule ext) simp
  then show ?case using char_encodes by simp
next
  case (SOpaque n)
  have "encoding (SOpaque n) = (\<lambda>bs. bs @ replicate (padding n) 0)" by (rule ext) simp
  then show ?case using opaque_encodes [of n zero crud] SOpaque by simp
next
  case (SVector n sh)
  then have f: "encodes fits adv out apart zero (proc crud zero ops sh) (bytes_in sh) (encoding sh)" "bytes_in sh < 2 ^ 31" by simp_all
  have "unat (of_nat n :: u32) = n" using SVector.prems by (simp add: unat_of_nat take_bit_nat_eq_self)
  then show ?case unfolding encodes_def using elements_encode [OF f] by (simp add: xdr_vector_def)
next
  case (SPair a b)
  then have ab: "encodes fits adv out apart zero (proc crud zero ops a) (bytes_in a) (encoding a)"
    "encodes fits adv out apart zero (proc crud zero ops b) (bytes_in b) (encoding b)" by simp_all
  show ?case unfolding encodes_def
  proof (intro allI impI)
    fix s m p obj
    assume h: "x_op s = XDR_ENCODE" "block m p obj" "length obj = bytes_in (SPair a b)" "apart s p (bytes_in (SPair a b))"
      "block m zero [0, 0, 0, 0]" "apart s zero 4" "fits s m (length (encoding (SPair a b) obj))"
    let ?x = "take (bytes_in a) obj" and ?y = "drop (bytes_in a) obj"
    let ?ex = "encoding a ?x" and ?ey = "encoding b ?y"
    have fx: "fits s m (length ?ex)" using fits_le [OF h(7)] by simp
    have 1: "proc crud zero ops a s m p = Some (True, adv s (length ?ex), out s m ?ex)"
      by (rule encodesD [OF ab(1)]) (use h fx block_take apart_sub [OF h(4), of 0 "bytes_in a"] in simp_all)
    have ap: "apart s (p + bytes_in a) (bytes_in b)" using apart_sub [OF h(4), of "bytes_in a" "bytes_in b"] by simp
    have "proc crud zero ops b (adv s (length ?ex)) (out s m ?ex) (p + bytes_in a) =
        Some (True, adv (adv s (length ?ex)) (length ?ey), out (adv s (length ?ex)) (out s m ?ex) ?ey)"
    proof (rule encodesD [OF ab(2)])
      show "x_op (adv s (length ?ex)) = XDR_ENCODE" using h(1) by (simp add: op_adv)
      show "block (out s m ?ex) (p + bytes_in a) ?y" by (rule out_apart) (use fx ap block_drop [OF h(2)] h(3) in simp_all)
      show "length ?y = bytes_in b" using h(3) by simp
      show "apart (adv s (length ?ex)) (p + bytes_in a) (bytes_in b)" using fx ap by (rule apart_adv)
      show "block (out s m ?ex) zero [0, 0, 0, 0]" by (rule out_zero) (use fx h in simp_all)
      show "apart (adv s (length ?ex)) zero 4" using fx h(6) by (rule apart_adv)
      show "fits (adv s (length ?ex)) (out s m ?ex) (length ?ey)" using fits_adv [of s m ?ex "length ?ey"] h(7) by simp
    qed
    moreover have "out (adv s (length ?ex)) (out s m ?ex) ?ey = out s m (?ex @ ?ey)" using out_append [of s m ?ex ?ey] h(7) by simp
    ultimately show "proc crud zero ops (SPair a b) s m p =
        Some (True, adv s (length (encoding (SPair a b) obj)), out s m (encoding (SPair a b) obj))"
      using 1 by (simp add: adv_adv)
  qed
qed

end

section \<open>Decoding\<close>

text \<open>Only the cells of two blocks may differ.\<close>

definition only_at :: "nat \<Rightarrow> nat \<Rightarrow> nat \<Rightarrow> nat \<Rightarrow> bmem \<Rightarrow> bmem \<Rightarrow> bool" where
  "only_at p n q k m m' \<longleftrightarrow> (\<forall>a. \<not> (p \<le> a \<and> a < p + n) \<longrightarrow> \<not> (q \<le> a \<and> a < q + k) \<longrightarrow> m' a = m a)"

locale xdr_source =
  fixes ops :: xdr_ops and src :: "xdr \<Rightarrow> bmem \<Rightarrow> byte list \<Rightarrow> bool" and adv :: "xdr \<Rightarrow> nat \<Rightarrow> xdr" and apart :: "xdr \<Rightarrow> nat \<Rightarrow> nat \<Rightarrow> bool"
  assumes getlong: "src s m (be32 l @ rest) \<Longrightarrow> x_getlong ops s m = Some (Some l, adv s 4)"
    and getbytes: "src s m (bs @ rest) \<Longrightarrow> mapped m p (length bs) \<Longrightarrow> apart s p (length bs) \<Longrightarrow>
      x_getbytes ops s m p (of_nat (length bs)) = Some (True, adv s (length bs), wr m p bs)"
    and op_adv: "x_op (adv s n) = x_op s"
    and adv_0: "adv s 0 = s"
    and adv_adv: "adv (adv s a) b = adv s (a + b)"
    and src_adv: "src s m (xs @ ys) \<Longrightarrow> src (adv s (length xs)) m ys"
    and src_only: "src s m xs \<Longrightarrow> apart s p n \<Longrightarrow> apart s q k \<Longrightarrow> only_at p n q k m m' \<Longrightarrow> src s m' xs"
    and apart_adv: "src s m (xs @ ys) \<Longrightarrow> apart s p n \<Longrightarrow> apart (adv s (length xs)) p n"
    and apart_sub: "apart s p n \<Longrightarrow> a + b \<le> n \<Longrightarrow> apart s (p + a) b"

definition decodes :: "(xdr \<Rightarrow> bmem \<Rightarrow> byte list \<Rightarrow> bool) \<Rightarrow> (xdr \<Rightarrow> nat \<Rightarrow> xdr) \<Rightarrow> (xdr \<Rightarrow> nat \<Rightarrow> nat \<Rightarrow> bool) \<Rightarrow>
    nat \<Rightarrow> xproc \<Rightarrow> nat \<Rightarrow> (byte list \<Rightarrow> byte list) \<Rightarrow> bool" where
  "decodes src adv apart crud f k enc \<longleftrightarrow> (\<forall>s m p obj rest. x_op s = XDR_DECODE \<longrightarrow> mapped m p k \<longrightarrow> length obj = k \<longrightarrow> apart s p k \<longrightarrow>
    mapped m crud 4 \<longrightarrow> apart s crud 4 \<longrightarrow> disjnt_rng p k crud 4 \<longrightarrow> src s m (enc obj @ rest) \<longrightarrow>
    (\<exists>m'. f s m p = Some (True, adv s (length (enc obj)), m') \<and> block m' p obj \<and> only_at p k crud 4 m m' \<and> mapped m' crud 4))"

lemma decodesD:
  assumes "decodes src adv apart crud f k enc" "x_op s = XDR_DECODE" "mapped m p k" "length obj = k" "apart s p k"
    "mapped m crud 4" "apart s crud 4" "disjnt_rng p k crud 4" "src s m (enc obj @ rest)"
  obtains m' where "f s m p = Some (True, adv s (length (enc obj)), m')" "block m' p obj" "only_at p k crud 4 m m'" "mapped m' crud 4"
  using assms unfolding decodes_def by blast

lemma only_at_wr: "only_at p (length xs) q k m (wr m p xs)"
  by (simp add: only_at_def wr_def)

lemma only_at_mapped: "only_at p n q k m m' \<Longrightarrow> disjnt_rng a j p n \<Longrightarrow> disjnt_rng a j q k \<Longrightarrow> mapped m a j \<Longrightarrow> mapped m' a j"
  by (auto simp: only_at_def mapped_def disjnt_rng_def)

lemma only_at_block: "only_at p n q k m m' \<Longrightarrow> disjnt_rng a (length xs) p n \<Longrightarrow> disjnt_rng a (length xs) q k \<Longrightarrow> block m a xs \<Longrightarrow> block m' a xs"
  by (auto simp: only_at_def block_def disjnt_rng_def)

lemma only_at_trans:
  assumes "only_at p a q k m m1" "only_at (p + a) b q k m1 m2"
  shows "only_at p (a + b) q k m m2"
  unfolding only_at_def
proof (intro allI impI)
  fix x
  assume x: "\<not> (p \<le> x \<and> x < p + (a + b))" "\<not> (q \<le> x \<and> x < q + k)"
  have "\<not> (p \<le> x \<and> x < p + a)" "\<not> (p + a \<le> x \<and> x < p + a + b)" using x(1) by linarith+
  then have "m1 x = m x" "m2 x = m1 x" using assms x(2) unfolding only_at_def by blast+
  then show "m2 x = m x" by simp
qed

context xdr_source
begin

lemma int_decodes: "decodes src adv apart crud (at_int (xdr_int ops)) 4 (\<lambda>bs. bs)"
  unfolding decodes_def
proof (intro allI impI)
  fix s m p obj rest
  assume h: "x_op s = XDR_DECODE" "mapped m p 4" "length obj = 4" "apart s p 4" "mapped m crud 4" "disjnt_rng p 4 crud 4" "src s m (obj @ rest)"
  obtain a b c d where "obj = [a, b, c, d]" using h(3) by (auto simp: length_Suc_conv numeral_eq_Suc)
  then obtain x where x: "obj = be32 x" using be32_of_be32 by metis
  have "at_int (xdr_int ops) s m p = Some (True, adv s 4, wr m p obj)"
    using getlong [of s m x rest] h(1,7) st_word_wr [OF h(2)] x by (simp add: at_int_def xdr_int_def xdr_long_def get_long_def)
  moreover have "only_at p 4 crud 4 m (wr m p obj)" using only_at_wr [of p obj] h(3) by simp
  moreover have "mapped (wr m p obj) crud 4" using h(5) by (simp add: mapped_def wr_def)
  ultimately show "\<exists>m'. at_int (xdr_int ops) s m p = Some (True, adv s (length obj), m') \<and> block m' p obj \<and> only_at p 4 crud 4 m m' \<and> mapped m' crud 4"
    using h(3) by (intro exI [of _ "wr m p obj"]) (simp add: block_wr_same)
qed

lemma char_decodes: "decodes src adv apart crud (at_byte (xdr_char ops)) 1 (\<lambda>bs. be32 (scast (hd bs)))"
  unfolding decodes_def
proof (intro allI impI)
  fix s m p rest and obj :: "byte list"
  assume h: "x_op s = XDR_DECODE" "mapped m p 1" "length obj = 1" "apart s p 1" "mapped m crud 4" "disjnt_rng p 1 crud 4"
    "src s m (be32 (scast (hd obj)) @ rest)"
  obtain c where c: "obj = [c]" using h(3) by (auto simp: length_Suc_conv)
  obtain y where y: "m p = Some y" using h(2) by (auto simp: mapped_def)
  have "at_byte (xdr_char ops) s m p = Some (True, adv s 4, wr m p obj)"
    using getlong [of s m "scast c" rest] h(1,7) c y
    by (simp add: at_byte_def xdr_char_def xdr_int_def xdr_long_def get_long_def ld_def st_def ucast_scast_byte wr_Cons)
  moreover have "only_at p 1 crud 4 m (wr m p obj)" using only_at_wr [of p obj] h(3) by simp
  moreover have "mapped (wr m p obj) crud 4" using h(5) by (simp add: mapped_def wr_def)
  ultimately show "\<exists>m'. at_byte (xdr_char ops) s m p = Some (True, adv s (length (be32 (scast (hd obj)))), m') \<and> block m' p obj \<and>
      only_at p 1 crud 4 m m' \<and> mapped m' crud 4"
    using h(3) by (intro exI [of _ "wr m p obj"]) (simp add: block_wr_same)
qed

lemma opaque_decodes:
  assumes "n < 2 ^ 31"
  shows "decodes src adv apart crud (\<lambda>xdrs m p. xdr_opaque crud zero ops xdrs m p (of_nat n)) n (\<lambda>bs. bs @ replicate (padding n) 0)"
  unfolding decodes_def
proof (intro allI impI)
  fix s m p obj rest
  let ?z = "replicate (padding n) 0 :: byte list"
  assume h: "x_op s = XDR_DECODE" "mapped m p n" "length obj = n" "apart s p n" "mapped m crud 4" "apart s crud 4" "disjnt_rng p n crud 4"
    "src s m ((obj @ ?z) @ rest)"
  have pl: "padding n < 4" by (simp add: padding_def)
  have n0: "(of_nat n :: u32) = 0 \<longleftrightarrow> n = 0" using assms by (simp add: word_unat_eq_iff unat_of_nat take_bit_nat_eq_self)
  have p0: "(of_nat (padding n) :: u32) = 0 \<longleftrightarrow> padding n = 0"
    using pl by (simp add: word_unat_eq_iff unat_of_nat take_bit_nat_eq_self)
  let ?m1 = "wr m p obj" and ?s1 = "adv s n"
  let ?m2 = "wr ?m1 crud ?z"
  have get: "x_getbytes ops s m p (of_nat n) = Some (True, ?s1, ?m1)"
    using getbytes [of s m obj "?z @ rest" p] h by simp
  have oa: "only_at p n crud 4 m ?m1" using only_at_wr [of p obj crud 4 m] h(3) by simp
  have ap: "apart s crud (padding n)" using apart_sub [OF h(6), of 0 "padding n"] pl by simp
  have "src s ?m1 (obj @ ?z @ rest)" using src_only [OF _ h(4,6) oa] h(8) by simp
  then have "src ?s1 ?m1 (?z @ rest)" "apart ?s1 crud (padding n)" using src_adv apart_adv [OF _ ap] h(3) by auto
  then have "x_getbytes ops ?s1 ?m1 crud (of_nat (padding n)) = Some (True, adv ?s1 (padding n), ?m2)"
    using getbytes [of ?s1 ?m1 ?z rest crud] mapped_le [OF h(5)] pl by simp
  then have res: "xdr_opaque crud zero ops s m p (of_nat n) = Some (True, adv s (length (obj @ ?z)), ?m2)"
    using get h(1,3) opaque_pad [OF assms] n0 p0 adv_0
    by (cases "n = 0"; cases "padding n = 0") (simp_all add: xdr_opaque_def Let_def adv_adv padding_def)
  have dj: "disjnt_rng crud (length ?z) p (length obj)" using h(3,7) pl by (auto simp: disjnt_rng_def)
  have "block ?m2 p obj" by (simp only: block_wr_disjnt [OF dj] block_wr_same)
  moreover have "only_at p n crud 4 m ?m2" using h(3) pl by (auto simp: only_at_def wr_def)
  moreover have "mapped ?m2 crud 4" using h(5) by simp
  ultimately show "\<exists>m'. xdr_opaque crud zero ops s m p (of_nat n) = Some (True, adv s (length (obj @ ?z)), m') \<and> block m' p obj \<and>
      only_at p n crud 4 m m' \<and> mapped m' crud 4"
    using res by blast
qed

text \<open>What holds after the first of two pieces has been decoded, and what holds after both.\<close>

lemma second_piece:
  assumes "mapped m p (a + b)" "apart s p (a + b)" "apart s crud 4" "disjnt_rng p (a + b) crud 4" "src s m (e @ xs)"
    "only_at p a crud 4 m m1"
  shows "mapped m1 (p + a) b" "apart (adv s (length e)) (p + a) b" "apart (adv s (length e)) crud 4"
    "disjnt_rng (p + a) b crud 4" "src (adv s (length e)) m1 xs"
proof -
  have dj: "disjnt_rng (p + a) b p a" "disjnt_rng (p + a) b crud 4" using assms(4) by (auto simp: disjnt_rng_def)
  show "disjnt_rng (p + a) b crud 4" by (rule dj)
  show "mapped m1 (p + a) b" by (rule only_at_mapped [OF assms(6) dj]) (use assms(1) in \<open>simp add: mapped_add\<close>)
  show "apart (adv s (length e)) (p + a) b" by (rule apart_adv [OF assms(5) apart_sub [OF assms(2)]]) simp
  show "apart (adv s (length e)) crud 4" by (rule apart_adv [OF assms(5,3)])
  have "apart s p a" using apart_sub [OF assms(2), of 0 a] by simp
  then have "src s m1 (e @ xs)" by (rule src_only [OF assms(5) _ assms(3,6)])
  then show "src (adv s (length e)) m1 xs" by (rule src_adv)
qed

lemma both_pieces:
  assumes "block m1 p x" "length x = a" "disjnt_rng p (a + b) crud 4" "only_at p a crud 4 m m1" "block m2 (p + a) y"
    "only_at (p + a) b crud 4 m1 m2"
  shows "block m2 p (x @ y)" "only_at p (a + b) crud 4 m m2"
proof -
  have dj: "disjnt_rng p (length x) (p + a) b" "disjnt_rng p (length x) crud 4" using assms(2,3) by (auto simp: disjnt_rng_def)
  have "block m2 p x" by (rule only_at_block [OF assms(6) dj assms(1)])
  then show "block m2 p (x @ y)" using assms(2,5) by (simp add: block_append)
  show "only_at p (a + b) crud 4 m m2" by (rule only_at_trans [OF assms(4,6)])
qed

lemma elements_decode:
  assumes f: "decodes src adv apart crud f k enc" and k: "k < 2 ^ 31"
    and h: "x_op s = XDR_DECODE" "mapped m p (n * k)" "length bs = n * k" "apart s p (n * k)" "mapped m crud 4" "apart s crud 4"
      "disjnt_rng p (n * k) crud 4" "src s m (concat (map enc (chunks k n bs)) @ rest)"
  shows "\<exists>m'. elements f s m p (of_nat k) n = Some (True, adv s (length (concat (map enc (chunks k n bs)))), m') \<and> block m' p bs \<and>
    only_at p (n * k) crud 4 m m' \<and> mapped m' crud 4"
  using h
proof (induction n arbitrary: s m p bs)
  case 0
  then show ?case by (simp add: adv_0 only_at_def)
next
  case (Suc n)
  let ?c = "take k bs" and ?r = "drop k bs"
  let ?e = "concat (map enc (chunks k n ?r))"
  have u: "unat (of_nat k :: u32) = k" using k by (simp add: unat_of_nat take_bit_nat_eq_self)
  have len: "length ?c = k" "length ?r = n * k" using Suc.prems(3) by simp_all
  have pre: "mapped m p (k + n * k)" "apart s p (k + n * k)" "disjnt_rng p (k + n * k) crud 4" "src s m (enc ?c @ ?e @ rest)"
    using Suc.prems by simp_all
  have "mapped m p k" "apart s p k" "disjnt_rng p k crud 4"
    using mapped_le [OF pre(1)] apart_sub [OF pre(2), of 0 k] pre(3) by (auto simp: disjnt_rng_def)
  then obtain m1 where m1: "f s m p = Some (True, adv s (length (enc ?c)), m1)" "block m1 p ?c" "only_at p k crud 4 m m1" "mapped m1 crud 4"
    using decodesD [OF f Suc.prems(1) _ len(1) _ Suc.prems(5,6) _ pre(4)] by blast
  note nx = second_piece [OF pre(1,2) Suc.prems(6) pre(3,4) m1(3)]
  obtain m2 where m2: "elements f (adv s (length (enc ?c))) m1 (p + k) (of_nat k) n = Some (True, adv (adv s (length (enc ?c))) (length ?e), m2)"
    "block m2 (p + k) ?r" "only_at (p + k) (n * k) crud 4 m1 m2" "mapped m2 crud 4"
    using Suc.IH [of "adv s (length (enc ?c))" m1 "p + k" ?r] Suc.prems(1) nx len(2) m1(4) by (auto simp: op_adv)
  note bp = both_pieces [OF m1(2) len(1) pre(3) m1(3) m2(2,3)]
  show ?case using m1(1) m2(1,4) bp by (intro exI [of _ m2]) (simp add: u adv_adv)
qed

lemma proc_decodes: "shape_ok sh \<Longrightarrow> decodes src adv apart crud (proc crud zero ops sh) (bytes_in sh) (encoding sh)"
proof (induction sh)
  case SInt
  have "encoding SInt = (\<lambda>bs. bs)" by (rule ext) simp
  then show ?case using int_decodes by simp
next
  case SChar
  have "encoding SChar = (\<lambda>bs. be32 (scast (hd bs)))" by (rule ext) simp
  then show ?case using char_decodes by simp
next
  case (SOpaque n)
  have "encoding (SOpaque n) = (\<lambda>bs. bs @ replicate (padding n) 0)" by (rule ext) simp
  then show ?case using opaque_decodes [of n crud zero] SOpaque by simp
next
  case (SVector n sh)
  then have f: "decodes src adv apart crud (proc crud zero ops sh) (bytes_in sh) (encoding sh)" "bytes_in sh < 2 ^ 31" by simp_all
  have "unat (of_nat n :: u32) = n" using SVector.prems by (simp add: unat_of_nat take_bit_nat_eq_self)
  then show ?case unfolding decodes_def using elements_decode [OF f] by (simp add: xdr_vector_def)
next
  case (SPair a b)
  then have ab: "decodes src adv apart crud (proc crud zero ops a) (bytes_in a) (encoding a)"
    "decodes src adv apart crud (proc crud zero ops b) (bytes_in b) (encoding b)" by simp_all
  show ?case unfolding decodes_def
  proof (intro allI impI)
    fix s m p rest and obj :: "byte list"
    let ?x = "take (bytes_in a) obj" and ?y = "drop (bytes_in a) obj"
    let ?ex = "encoding a ?x" and ?ey = "encoding b ?y"
    assume h: "x_op s = XDR_DECODE" "mapped m p (bytes_in (SPair a b))" "length obj = bytes_in (SPair a b)" "apart s p (bytes_in (SPair a b))"
      "mapped m crud 4" "apart s crud 4" "disjnt_rng p (bytes_in (SPair a b)) crud 4" "src s m (encoding (SPair a b) obj @ rest)"
    have len: "length ?x = bytes_in a" "length ?y = bytes_in b" using h(3) by simp_all
    have pre: "mapped m p (bytes_in a + bytes_in b)" "apart s p (bytes_in a + bytes_in b)" "disjnt_rng p (bytes_in a + bytes_in b) crud 4"
      "src s m (?ex @ ?ey @ rest)" using h by simp_all
    have "mapped m p (bytes_in a)" "apart s p (bytes_in a)" "disjnt_rng p (bytes_in a) crud 4"
      using mapped_le [OF pre(1)] apart_sub [OF pre(2), of 0 "bytes_in a"] pre(3) by (auto simp: disjnt_rng_def)
    then obtain m1 where m1: "proc crud zero ops a s m p = Some (True, adv s (length ?ex), m1)" "block m1 p ?x"
      "only_at p (bytes_in a) crud 4 m m1" "mapped m1 crud 4"
      using decodesD [OF ab(1) h(1) _ len(1) _ h(5,6) _ pre(4)] by blast
    note nx = second_piece [OF pre(1,2) h(6) pre(3,4) m1(3)]
    obtain m2 where m2: "proc crud zero ops b (adv s (length ?ex)) m1 (p + bytes_in a) = Some (True, adv (adv s (length ?ex)) (length ?ey), m2)"
      "block m2 (p + bytes_in a) ?y" "only_at (p + bytes_in a) (bytes_in b) crud 4 m1 m2" "mapped m2 crud 4"
      by (rule decodesD [OF ab(2) _ nx(1) len(2) nx(2) m1(4) nx(3,4,5)]) (use h(1) op_adv in simp_all)
    note bp = both_pieces [OF m1(2) len(1) pre(3) m1(3) m2(2,3)]
    show "\<exists>m'. proc crud zero ops (SPair a b) s m p = Some (True, adv s (length (encoding (SPair a b) obj)), m') \<and> block m' p obj \<and>
        only_at p (bytes_in (SPair a b)) crud 4 m m' \<and> mapped m' crud 4"
      using m1(1) m2(1,4) bp by (intro exI [of _ m2]) (simp add: adv_adv)
  qed
qed

end

section \<open>The stream over a buffer\<close>

definition mem_adv :: "xdr \<Rightarrow> nat \<Rightarrow> xdr" where
  "mem_adv s n = s\<lparr>x_private := x_private s + n, x_handy := x_handy s - of_nat n\<rparr>"

definition mem_fits :: "xdr \<Rightarrow> bmem \<Rightarrow> nat \<Rightarrow> bool" where
  "mem_fits s m n \<longleftrightarrow> mapped m (x_private s) n \<and> n \<le> unat (x_handy s) \<and> unat (x_handy s) < 2 ^ 31"

definition mem_out :: "xdr \<Rightarrow> bmem \<Rightarrow> byte list \<Rightarrow> bmem" where "mem_out s m xs = wr m (x_private s) xs"

definition mem_apart :: "xdr \<Rightarrow> nat \<Rightarrow> nat \<Rightarrow> bool" where
  "mem_apart s p n \<longleftrightarrow> disjnt_rng p n (x_private s) (unat (x_handy s))"

definition mem_src :: "xdr \<Rightarrow> bmem \<Rightarrow> byte list \<Rightarrow> bool" where
  "mem_src s m xs \<longleftrightarrow> block m (x_private s) xs \<and> length xs \<le> unat (x_handy s) \<and> unat (x_handy s) < 2 ^ 31"

lemma handy_sub:
  fixes h :: u32
  assumes "n \<le> unat h" "unat h < 2 ^ 31"
  shows "unat (h - of_nat n) = unat h - n" "\<not> sint (h - of_nat n) < 0"
proof -
  have "of_nat n \<le> h" using assms by (simp add: word_le_nat_alt unat_of_nat take_bit_nat_eq_self)
  then show u: "unat (h - of_nat n) = unat h - n" using assms by (simp add: unat_sub unat_of_nat take_bit_nat_eq_self)
  then show "\<not> sint (h - of_nat n) < 0" using assms(2) by (simp add: not_less sint_u32_nonneg)
qed

lemmas mem_stream_defs = mem_adv_def mem_fits_def mem_out_def mem_apart_def mem_src_def

lemma mem_adv_adv: "mem_adv (mem_adv s a) b = mem_adv s (a + b)"
  by (simp add: mem_adv_def)

lemma mem_apart_sub: "mem_apart s p n \<Longrightarrow> a + b \<le> n \<Longrightarrow> mem_apart s (p + a) b"
  by (auto simp: mem_apart_def disjnt_rng_def)

interpretation mem_sink: xdr_sink xdrmem_ops mem_fits mem_adv mem_out mem_apart
proof unfold_locales
  fix s m l
  assume f: "mem_fits s m 4"
  then have "\<not> sint (x_handy s - 4) < 0" using handy_sub(2) [of 4 "x_handy s"] by (simp add: mem_fits_def)
  then show "x_putlong xdrmem_ops s m l = Some (True, mem_adv s 4, mem_out s m (be32 l))"
    using f by (simp add: xdrmem_ops_def xdrmem_putlong_def st_word_wr mem_stream_defs)
next
  fix s m p and bs :: "byte list"
  assume f: "mem_fits s m (length bs)" and l: "length bs < 2 ^ 31" and b: "block m p bs"
  have "\<not> sint (x_handy s - of_nat (length bs)) < 0" using handy_sub(2) f by (simp add: mem_fits_def)
  moreover have "unat (of_nat (length bs) :: u32) = length bs" using l by (simp add: unat_of_nat take_bit_nat_eq_self)
  ultimately show "x_putbytes xdrmem_ops s m p (of_nat (length bs)) = Some (True, mem_adv s (length bs), mem_out s m bs)"
    using f by (simp add: xdrmem_ops_def xdrmem_putbytes_def ld_list_block [OF b] st_list_wr mem_stream_defs)
next
  fix s m and xs :: "byte list" and b
  assume f: "mem_fits s m (length xs + b)"
  then show "mem_fits (mem_adv s (length xs)) (mem_out s m xs) b"
    using handy_sub(1) [of "length xs" "x_handy s"] by (auto simp: mem_stream_defs mapped_add)
next
  fix s m k p n
  assume "mem_fits s m k" "mem_apart s p n"
  then show "mem_apart (mem_adv s k) p n"
    using handy_sub(1) [of k "x_handy s"] by (auto simp: mem_stream_defs disjnt_rng_def)
next
  fix s m p and xs bs :: "byte list"
  assume "mem_fits s m (length xs)" and a: "mem_apart s p (length bs)" and b: "block m p bs"
  then have "disjnt_rng (x_private s) (length xs) p (length bs)" by (auto simp: mem_stream_defs disjnt_rng_def)
  then show "block (mem_out s m xs) p bs" using b by (simp add: mem_out_def block_wr_disjnt)
qed (auto simp: mem_stream_defs wr_append intro: mapped_le mem_apart_sub [unfolded mem_apart_def])

interpretation mem_source: xdr_source xdrmem_ops mem_src mem_adv mem_apart
proof unfold_locales
  fix s m l rest
  assume f: "mem_src s m (be32 l @ rest)"
  then have "\<not> sint (x_handy s - 4) < 0" using handy_sub(2) [of 4 "x_handy s"] by (simp add: mem_src_def)
  moreover have "ld_word m (x_private s) = Some l" using f by (intro ld_word_block) (simp add: mem_src_def block_append)
  ultimately show "x_getlong xdrmem_ops s m = Some (Some l, mem_adv s 4)"
    by (simp add: xdrmem_ops_def xdrmem_getlong_def mem_adv_def)
next
  fix s m p and bs rest :: "byte list"
  assume f: "mem_src s m (bs @ rest)" and d: "mapped m p (length bs)"
  have "\<not> sint (x_handy s - of_nat (length bs)) < 0" using handy_sub(2) f by (simp add: mem_src_def)
  moreover have "unat (of_nat (length bs) :: u32) = length bs" using f by (simp add: mem_src_def unat_of_nat take_bit_nat_eq_self)
  moreover have "ld_list m (x_private s) (length bs) = Some bs" using f by (intro ld_list_block) (simp add: mem_src_def block_append)
  ultimately show "x_getbytes xdrmem_ops s m p (of_nat (length bs)) = Some (True, mem_adv s (length bs), wr m p bs)"
    using d by (simp add: xdrmem_ops_def xdrmem_getbytes_def st_list_wr mem_adv_def)
next
  fix s m and xs ys :: "byte list"
  assume "mem_src s m (xs @ ys)"
  then show "mem_src (mem_adv s (length xs)) m ys"
    using handy_sub(1) [of "length xs" "x_handy s"] by (auto simp: mem_stream_defs block_append)
next
  fix s m m' p n q k and xs :: "byte list"
  assume f: "mem_src s m xs" "mem_apart s p n" "mem_apart s q k" and o: "only_at p n q k m m'"
  have "disjnt_rng (x_private s) (length xs) p n" "disjnt_rng (x_private s) (length xs) q k"
    using f by (auto simp: mem_stream_defs disjnt_rng_def)
  then show "mem_src s m' xs" using only_at_block [OF o] f(1) by (simp add: mem_src_def)
next
  fix s m p n and xs ys :: "byte list"
  assume "mem_src s m (xs @ ys)" "mem_apart s p n"
  then show "mem_apart (mem_adv s (length xs)) p n"
    using handy_sub(1) [of "length xs" "x_handy s"] by (auto simp: mem_stream_defs disjnt_rng_def)
qed (auto simp: mem_stream_defs intro: mem_apart_sub [unfolded mem_apart_def])

section \<open>The stream that counts\<close>

definition size_adv :: "xdr \<Rightarrow> nat \<Rightarrow> xdr" where "size_adv s n = s\<lparr>x_handy := x_handy s + of_nat n\<rparr>"

interpretation size_sink: xdr_sink size_ops "\<lambda>s m n. True" size_adv "\<lambda>s m xs. m" "\<lambda>s p n. True"
  by unfold_locales (simp_all add: size_ops_def size_putlong_def size_putbytes_def size_adv_def add.assoc)

lemma xdrmem_encodes:
  assumes "shape_ok sh" "block m p obj" "length obj = bytes_in sh" "block m zero [0, 0, 0, 0]"
    and "mapped m buf (length (encoding sh obj))" "length (encoding sh obj) \<le> unat sz" "unat sz < 2 ^ 31"
    and "disjnt_rng p (bytes_in sh) buf (unat sz)" "disjnt_rng zero 4 buf (unat sz)"
  shows "proc crud zero xdrmem_ops sh (xdrmem_create buf sz XDR_ENCODE) m p =
    Some (True, mem_adv (xdrmem_create buf sz XDR_ENCODE) (length (encoding sh obj)), wr m buf (encoding sh obj))"
proof -
  let ?s = "xdrmem_create buf sz XDR_ENCODE"
  have s: "x_op ?s = XDR_ENCODE" "x_private ?s = buf" "x_handy ?s = sz" by (simp_all add: xdrmem_create_def)
  have "mem_apart ?s p (bytes_in sh)" "mem_apart ?s zero 4" "mem_fits ?s m (length (encoding sh obj))"
    using assms(5-9) s by (simp_all add: mem_apart_def mem_fits_def)
  then show ?thesis
    using encodesD [OF mem_sink.proc_encodes [OF assms(1)] s(1) assms(2,3) _ assms(4)] s(2) by (simp add: mem_out_def)
qed

text \<open>C15: An object that a filter procedure writes into a buffer is read back from the buffer, by the same procedure on a decoding
  stream, byte for byte; for procedures made of \<open>xdr_int\<close>, \<open>xdr_char\<close>, \<open>xdr_opaque\<close>, \<open>xdr_vector\<close> and sequences. Both streams end at
  the same position, that of the RFC's encoding, and the bytes between are that encoding.\<close>

theorem xdr_round_trip:
  assumes "shape_ok sh" "block m p obj" "length obj = bytes_in sh" "block m zero [0, 0, 0, 0]"
    and "mapped m buf (length (encoding sh obj))" "length (encoding sh obj) \<le> unat sz" "unat sz < 2 ^ 31"
    and "disjnt_rng p (bytes_in sh) buf (unat sz)" "disjnt_rng zero 4 buf (unat sz)"
    and "mapped m q (bytes_in sh)" "mapped m crud 4"
    and "disjnt_rng q (bytes_in sh) buf (unat sz)" "disjnt_rng crud 4 buf (unat sz)" "disjnt_rng q (bytes_in sh) crud 4"
  shows "\<exists>x m1 y m2. proc crud zero xdrmem_ops sh (xdrmem_create buf sz XDR_ENCODE) m p = Some (True, x, m1) \<and>
    block m1 buf (encoding sh obj) \<and>
    proc crud zero xdrmem_ops sh (xdrmem_create buf sz XDR_DECODE) m1 q = Some (True, y, m2) \<and> block m2 q obj \<and>
    xdrmem_getpos x = of_nat (length (encoding sh obj)) \<and> xdrmem_getpos y = xdrmem_getpos x"
proof -
  let ?e = "encoding sh obj" and ?s = "xdrmem_create buf sz XDR_ENCODE" and ?t = "xdrmem_create buf sz XDR_DECODE"
  let ?m = "wr m buf ?e"
  have t: "x_op ?t = XDR_DECODE" "x_private ?t = buf" "x_handy ?t = sz" by (simp_all add: xdrmem_create_def)
  have ap: "mem_apart ?t q (bytes_in sh)" "mem_apart ?t crud 4" "mem_src ?t ?m (?e @ [])"
    using assms(6,7,12,13) t by (simp_all add: mem_apart_def mem_src_def)
  have mp: "mapped ?m q (bytes_in sh)" "mapped ?m crud 4" using assms(10,11) by simp_all
  obtain m2 where m2: "proc crud zero xdrmem_ops sh ?t ?m q = Some (True, mem_adv ?t (length ?e), m2)" "block m2 q obj"
    by (rule decodesD [OF mem_source.proc_decodes [OF assms(1)] t(1) mp(1) assms(3) ap(1) mp(2) ap(2) assms(14) ap(3)])
  have pos: "xdrmem_getpos (mem_adv (xdrmem_create buf sz op) n) = of_nat n" for op n
    by (simp add: xdrmem_getpos_def mem_adv_def xdrmem_create_def)
  note en = xdrmem_encodes [OF assms(1-9), of crud]
  show ?thesis
    by (rule exI [of _ "mem_adv ?s (length ?e)"], rule exI [of _ ?m], rule exI [of _ "mem_adv ?t (length ?e)"], rule exI [of _ m2])
      (simp only: en m2 pos block_wr_same simp_thms)
qed

lemma xdr_round_trip_witness:
  "let m = wr (\<lambda>_. Some 0) 100 [1, 2, 3, 4, 5, 6, 7, 8]; sh = SPair SInt (SPair SChar (SOpaque 3)) in
   \<exists>x m1 y m2. proc 60 50 xdrmem_ops sh (xdrmem_create 200 64 XDR_ENCODE) m 100 = Some (True, x, m1) \<and>
    block m1 200 (encoding sh [1, 2, 3, 4, 5, 6, 7, 8]) \<and>
    proc 60 50 xdrmem_ops sh (xdrmem_create 200 64 XDR_DECODE) m1 300 = Some (True, y, m2) \<and> block m2 300 [1, 2, 3, 4, 5, 6, 7, 8] \<and>
    xdrmem_getpos x = of_nat (length (encoding sh [1, 2, 3, 4, 5, 6, 7, 8])) \<and> xdrmem_getpos y = xdrmem_getpos x"
  unfolding Let_def
proof (rule xdr_round_trip)
  show "block (wr (\<lambda>_. Some 0) 100 [1, 2, 3, 4, 5, 6, 7, 8]) 50 [0, 0, 0, 0 :: byte]"
    by (subst block_wr_disjnt) (simp_all add: disjnt_rng_def block_Cons)
qed (simp_all add: padding_def disjnt_rng_def)

text \<open>C24: \<open>xdr_sizeof\<close> yields the length of what the procedure writes, and changes nothing: a buffer of that size takes the object and is
  then full, so that a further word is refused. For the procedures of the round trip.\<close>

theorem xdr_sizeof_exact:
  assumes "shape_ok sh" "block m p obj" "length obj = bytes_in sh" "block m zero [0, 0, 0, 0]" "length (encoding sh obj) < 2 ^ 31"
    and "mapped m buf (length (encoding sh obj))"
    and "disjnt_rng p (bytes_in sh) buf (length (encoding sh obj))" "disjnt_rng zero 4 buf (length (encoding sh obj))"
  shows "\<exists>n x m'. xdr_sizeof (\<lambda>ops. proc crud zero ops sh) m p = Some (n, m) \<and> unat n = length (encoding sh obj) \<and>
    proc crud zero xdrmem_ops sh (xdrmem_create buf n XDR_ENCODE) m p = Some (True, x, m') \<and> m' = wr m buf (encoding sh obj) \<and>
    x_handy x = 0 \<and> (\<forall>v. \<exists>y. xdrmem_putlong x m' v = Some (False, y, m'))"
proof -
  let ?n = "of_nat (length (encoding sh obj)) :: u32"
  let ?s = "\<lparr>x_op = XDR_ENCODE, x_private = 0, x_base = 0, x_handy = 0\<rparr>"
  have n: "unat ?n = length (encoding sh obj)" using assms(5) by (simp add: unat_of_nat take_bit_nat_eq_self)
  have "xdr_sizeof (\<lambda>ops. proc crud zero ops sh) m p = Some (?n, m)"
    using encodesD [OF size_sink.proc_encodes [OF assms(1)], of ?s m p obj zero crud] assms(2-4)
    by (simp add: xdr_sizeof_def size_adv_def)
  moreover have "proc crud zero xdrmem_ops sh (xdrmem_create buf ?n XDR_ENCODE) m p =
      Some (True, mem_adv (xdrmem_create buf ?n XDR_ENCODE) (length (encoding sh obj)), wr m buf (encoding sh obj))"
    by (rule xdrmem_encodes) (use assms n in simp_all)
  moreover have "x_handy (mem_adv (xdrmem_create buf ?n XDR_ENCODE) (length (encoding sh obj))) = 0"
    by (simp add: mem_adv_def xdrmem_create_def)
  moreover have "sint (- 4 :: u32) < 0" by simp
  ultimately show ?thesis using n by (intro exI conjI) (assumption | simp add: xdrmem_putlong_def)+
qed

lemma xdr_sizeof_exact_witness:
  "let m = wr (\<lambda>_. Some 0) 100 [1, 2, 3, 4, 5, 6]; sh = SVector 2 (SPair SChar (SOpaque 2)) in
   \<exists>n x m'. xdr_sizeof (\<lambda>ops. proc 60 50 ops sh) m 100 = Some (n, m) \<and> unat n = length (encoding sh [1, 2, 3, 4, 5, 6]) \<and>
    proc 60 50 xdrmem_ops sh (xdrmem_create 200 n XDR_ENCODE) m 100 = Some (True, x, m') \<and> m' = wr m 200 (encoding sh [1, 2, 3, 4, 5, 6]) \<and>
    x_handy x = 0 \<and> (\<forall>v. \<exists>y. xdrmem_putlong x m' v = Some (False, y, m'))"
  unfolding Let_def
proof (rule xdr_sizeof_exact)
  have e: "length (encoding (SVector 2 (SPair SChar (SOpaque 2))) [1, 2, 3, 4, 5, 6]) = 16" by code_simp
  show "block (wr (\<lambda>_. Some 0) 100 [1, 2, 3, 4, 5, 6]) 50 [0, 0, 0, 0 :: byte]"
    by (subst block_wr_disjnt) (simp_all add: disjnt_rng_def block_Cons)
  show "length (encoding (SVector 2 (SPair SChar (SOpaque 2))) [1, 2, 3, 4, 5, 6]) < 2 ^ 31"
    "disjnt_rng 50 4 200 (length (encoding (SVector 2 (SPair SChar (SOpaque 2))) [1, 2, 3, 4, 5, 6]))"
    "disjnt_rng 100 (bytes_in (SVector 2 (SPair SChar (SOpaque 2)))) 200 (length (encoding (SVector 2 (SPair SChar (SOpaque 2))) [1, 2, 3, 4, 5, 6]))"
    by (simp_all only: e) (simp_all add: disjnt_rng_def)
qed simp_all

section \<open>Errors\<close>

text \<open>C38: The check of \<open>xdrmem_getbytes\<close> for the end of the buffer: a length that exceeds what is left is refused, nothing being copied,
  when the excess is at most \<open>2 ^ 31\<close>; a greater one wraps \<open>x_handy\<close> round to a value that is not negative and is let through, so that
  the copy runs past the buffer: it succeeds when the memory goes on that far, and leaves the memory otherwise.\<close>

theorem xdrmem_getbytes_check:
  assumes "unat (x_handy s) < 2 ^ 31" "unat (x_handy s) < unat len" "mapped m addr (unat len)"
  shows "xdrmem_getbytes s m addr len =
    (if unat len - unat (x_handy s) \<le> 2 ^ 31 then Some (False, s\<lparr>x_handy := x_handy s - len\<rparr>, m)
     else if mapped m (x_private s) (unat len)
       then Some (True, s\<lparr>x_private := x_private s + unat len, x_handy := x_handy s - len\<rparr>,
              wr m addr (map (\<lambda>i. the (m (x_private s + i))) [0..<unat len]))
     else None)"
proof -
  let ?bs = "map (\<lambda>i. the (m (x_private s + i))) [0..<unat len]"
  have lt: "unat len < 2 ^ 32" using unsigned_less [where w = len] by simp
  have u: "unat (x_handy s - len) = 2 ^ 32 - (unat len - unat (x_handy s))"
    using assms(2) lt by (simp add: unat_sub_if')
  have neg: "sint (x_handy s - len) < 0 \<longleftrightarrow> unat len - unat (x_handy s) \<le> 2 ^ 31"
    using sint_u32_nonneg [of "x_handy s - len"] u lt assms by (auto simp: not_less [symmetric])
  have "mapped m (x_private s) (unat len) \<Longrightarrow> ld_list m (x_private s) (unat len) = Some ?bs"
    using ld_list_block [of m "x_private s" ?bs] by (auto simp: block_def mapped_def)
  then show ?thesis
    using neg assms(3) ld_list_mapped [of m "x_private s" "unat len"]
    by (cases "mapped m (x_private s) (unat len)") (simp_all add: xdrmem_getbytes_def st_list_wr)
qed

lemma xdrmem_getbytes_check_witness:
  "xdrmem_getbytes (xdrmem_create 12 8 XDR_DECODE) ((\<lambda>_. Some 0)(20 := None)) (2 ^ 40) 0xC0000000 = None"
proof -
  have "\<not> mapped ((\<lambda>_. Some (0 :: byte))(20 := None)) 12 0xC0000000" by (auto simp: mapped_def intro!: exI [of _ 8])
  moreover have "mapped ((\<lambda>_. Some (0 :: byte))(20 := None)) (2 ^ 40) 0xC0000000" by (simp add: mapped_def)
  ultimately show ?thesis
    using xdrmem_getbytes_check [of "xdrmem_create 12 8 XDR_DECODE" "0xC0000000" "(\<lambda>_. Some 0)(20 := None)" "2 ^ 40"]
    by (simp add: xdrmem_create_def)
qed

lemma decode_u_int: "x_op s = XDR_DECODE \<Longrightarrow> mem_src s m (be32 c @ rest) \<Longrightarrow> xdr_u_int xdrmem_ops s m v = Some (True, mem_adv s 4, m, c)"
  using mem_source.getlong by (simp add: xdr_u_int_def xdr_u_long_def get_long_def)

text \<open>C39: \<open>xdr_array\<close> bounds the count of the elements but not its product with their size: a count of \<open>2 ^ 30 + 1\<close> integers makes
  it ask for a block of four bytes. When the message has the count and two elements more, twelve bytes, the second element is
  decoded from it and stored past the end of the block.\<close>

theorem xdr_array_overflow:
  assumes "x_op s = XDR_DECODE" "mem_src s m (be32 0x40000001 @ be32 v @ be32 w @ rest)" "0x40000001 \<le> maxsize"
    and "mem_alloc m 4 = (m1, loc)" "loc \<noteq> 0" "mapped m1 loc 4" "m1 (loc + 4) = None"
    and "mem_src s m1 (be32 0x40000001 @ be32 v @ be32 w @ rest)" "disjnt_rng loc 4 (x_private s) (unat (x_handy s))"
  shows "xdr_array mem_alloc mem_free xdrmem_ops s m 0 sizep maxsize 4 (at_int (xdr_int xdrmem_ops)) = None"
proof -
  let ?f = "at_int (xdr_int xdrmem_ops)" and ?s = "mem_adv s 4" and ?msg = "be32 0x40000001 @ be32 v @ be32 w @ rest"
  let ?m = "wr m1 loc [0, 0, 0, 0 :: byte]" and ?m' = "wr (wr m1 loc [0, 0, 0, 0 :: byte]) loc (be32 v)"
  have z: "replicate 4 0 = [0, 0, 0, 0 :: byte]" by (simp add: numeral_eq_Suc)
  have al: "alloc_zeroed mem_alloc True m 0 4 = Some (?m, loc)"
  proof -
    have "st_list m1 loc (replicate 4 0) = Some (wr m1 loc (replicate 4 0))" by (rule st_list_wr) (simp add: assms(6))
    then show ?thesis using assms(4,5) by (simp add: alloc_zeroed_def z del: st_list.simps)
  qed
  have ap: "mem_apart s loc 4" "mem_apart s loc 0" using assms(9) by (auto simp: mem_apart_def disjnt_rng_def)
  have "only_at loc 4 loc 0 m1 ?m" "only_at loc 4 loc 0 m1 ?m'" by (auto simp: only_at_def wr_def)
  then have "mem_src s ?m ?msg" "mem_src s ?m' ?msg" using mem_source.src_only [OF assms(8) ap] by blast+
  then have src: "mem_src ?s ?m (be32 v @ be32 w @ rest)" "mem_src (mem_adv ?s 4) ?m' (be32 w @ rest)"
    using mem_source.src_adv [of s _ "be32 0x40000001"] mem_source.src_adv [of ?s _ "be32 v"] by simp_all
  have "st_word ?m loc v = Some ?m'" by (rule st_word_wr) (simp add: assms(6))
  then have 1: "?f ?s ?m loc = Some (True, mem_adv ?s 4, ?m')"
    using mem_source.getlong [OF src(1)] assms(1) by (simp add: at_int_def xdr_int_def xdr_long_def get_long_def mem_source.op_adv)
  have "?m' (loc + 4) = None" using assms(7) by (simp add: wr_def)
  then have "st_word ?m' (loc + 4) w = None" by (simp add: st_word_def be32_def st_def)
  then have 2: "?f (mem_adv ?s 4) ?m' (loc + 4) = None"
    using mem_source.getlong [OF src(2)] assms(1) by (simp add: at_int_def xdr_int_def xdr_long_def get_long_def mem_source.op_adv)
  have "\<exists>k. (0x40000001 :: nat) = Suc (Suc k)" by (rule exI [where x = "0x3FFFFFFF"]) simp
  then obtain k where u: "(0x40000001 :: nat) = Suc (Suc k)" by blast
  have "elements ?f ?s ?m loc 4 (Suc (Suc k)) = None" using 1 2 by simp
  then have el: "elements ?f ?s ?m loc 4 0x40000001 = None" by (simp only: u)
  have four: "(4294967300 :: u32) = 4" by (simp add: word_unat_eq_iff)
  then show ?thesis
    using decode_u_int [OF assms(1,2)] assms(1,3,5) al el by (simp add: xdr_array_def mem_source.op_adv not_less [symmetric] four del: elements.simps)
qed

lemma xdr_array_overflow_witness:
  "let m = wr (wr ((\<lambda>_. Some 0)(304 := None)) 100 (be32 0x40000001)) 104 (be32 7 @ be32 9) in
   xdr_array (\<lambda>m n. (m, 300)) (\<lambda>m p. m) xdrmem_ops (xdrmem_create 100 12 XDR_DECODE) m 0 0 (- 1) 4 (at_int (xdr_int xdrmem_ops)) = None"
  unfolding Let_def
proof (rule xdr_array_overflow [where v = 7 and w = 9 and rest = "[]" and loc = 300])
  let ?m = "wr (wr ((\<lambda>_. Some 0)(304 := None)) 100 (be32 0x40000001)) 104 (be32 7 @ be32 9)"
  have "wr m 100 (be32 a @ xs) = wr (wr m 100 (be32 a)) 104 xs" for m a xs by (simp add: wr_append)
  then have "block ?m 100 (be32 0x40000001 @ be32 7 @ be32 9)" by (metis block_wr_same)
  then show "mem_src (xdrmem_create 100 12 XDR_DECODE) ?m (be32 0x40000001 @ be32 7 @ be32 9 @ [])"
    "mem_src (xdrmem_create 100 12 XDR_DECODE) ?m (be32 0x40000001 @ be32 7 @ be32 9 @ [])"
    by (simp_all add: mem_src_def xdrmem_create_def)
  show "mapped ?m 300 4" by (intro mapped_wr) (auto simp: mapped_def)
  show "?m (300 + 4) = None" by (simp add: wr_def)
qed (simp_all add: xdrmem_create_def disjnt_rng_def)

text \<open>In a shorter message there is no second element to store, and the procedure reports the failure.\<close>

lemma int_short_message:
  "x_op s = XDR_DECODE \<Longrightarrow> sint (x_handy s - 4) < 0 \<Longrightarrow> at_int (xdr_int xdrmem_ops) s m p = Some (False, s\<lparr>x_handy := x_handy s - 4\<rparr>, m)"
  by (simp add: at_int_def xdr_int_def xdr_long_def get_long_def xdrmem_ops_def xdrmem_getlong_def)

text \<open>A string of the length \<open>2 ^ 32 - 1\<close> is taken for decoded, though nothing is.\<close>

lemma xdr_wrapstring_longest:
  "x_op s = XDR_DECODE \<Longrightarrow> mem_src s m (be32 (- 1) @ rest) \<Longrightarrow>
    xdr_wrapstring mem_alloc mem_free crud zero uninit xdrmem_ops s m sp = Some (True, mem_adv s 4, m, sp)"
  using decode_u_int [of s m "- 1" rest uninit]
  by (simp add: xdr_wrapstring_def xdr_string_def mem_source.op_adv)

end
