(* ===== verification/Environ.thy ===== *)
theory Environ
  imports StrMisc StrSearch
begin

text \<open>
  The environment of a process: \<open>getenv\<close> (\<^verbatim>\<open>mintlib/getenv.c\<close>), \<open>setenv\<close>, \<open>unsetenv\<close>, \<open>clearenv\<close>
  (\<^verbatim>\<open>setenv.c\<close>) and \<open>putenv\<close> (\<^verbatim>\<open>putenv.c\<close>).

  \<open>environ\<close> points to a vector of pointers to strings \<open>name=value\<close>, ended by \<open>NULL\<close>. The vector is in a memory of
  pointers, where a cell is one pointer; the strings are bytes. The vectors come from the allocator of the library, which is
  seen here as its clients see it: \<open>blocks\<close> are the blocks handed out, \<open>pick\<close> is the address it chooses (0 when it has no
  memory), the contents of new cells are \<open>junk\<close>. Its \<open>free\<close> ignores a pointer it has not handed out (\<open>MallocFree.free_ignores\<close>); its
  \<open>realloc\<close> of such a pointer is undefined. For strings, \<open>malloc\<close> is a parameter.
\<close>

section \<open>Vectors\<close>

record vheap =
  cells :: "nat mem"
  blocks :: "nat \<Rightarrow> nat option"

definition unmap :: "'a mem \<Rightarrow> nat \<Rightarrow> nat \<Rightarrow> 'a mem" where
  "unmap m p n = (\<lambda>a. if p \<le> a \<and> a < p + n then None else m a)"

type_synonym picker = "vheap \<Rightarrow> nat \<Rightarrow> nat"

definition vmalloc :: "picker \<Rightarrow> nat \<Rightarrow> vheap \<Rightarrow> nat \<Rightarrow> vheap \<times> nat" where
  "vmalloc pick junk h n =
    (let p = pick h n in
     if p = null then (h, null) else (h\<lparr>cells := wr (cells h) p (replicate n junk), blocks := (blocks h)(p \<mapsto> n)\<rparr>, p))"

definition vfree :: "vheap \<Rightarrow> nat \<Rightarrow> vheap" where
  "vfree h p =
    (case blocks h p of None \<Rightarrow> h | Some n \<Rightarrow> h\<lparr>cells := unmap (cells h) p n, blocks := (blocks h)(p := None)\<rparr>)"

definition vrealloc :: "picker \<Rightarrow> nat \<Rightarrow> vheap \<Rightarrow> nat \<Rightarrow> nat \<Rightarrow> (vheap \<times> nat) option" where
  "vrealloc pick junk h p n =
    (if p = null then Some (vmalloc pick junk h n)
     else case blocks h p of
       None \<Rightarrow> None
     | Some k \<Rightarrow>
         let q = pick (vfree h p) n in
         if q = null then Some (h, null)
         else Some ((vfree h p)\<lparr>cells := wr (cells (vfree h p)) q (take n (map (\<lambda>i. the (cells h (p + i))) [0..<k] @ replicate (n - k) junk)),
                                blocks := (blocks (vfree h p))(q \<mapsto> n)\<rparr>, q))"

section \<open>The operations\<close>

record env =
  heap :: vheap
  bytes :: bmem
  environ :: nat
  last_environ :: nat

datatype errno = EINVAL | ENOMEM

text \<open>Whether the entry at \<open>p\<close> starts with the name and an equals sign.\<close>

definition is_entry :: "bmem \<Rightarrow> nat \<Rightarrow> nat \<Rightarrow> nat \<Rightarrow> bool option" where
  "is_entry m p name len =
    do { r \<leftarrow> strncmp m p name (of_nat len); if r = 0 then do { c \<leftarrow> ld m (p + len); Some (c = 61) } else Some False }"

text \<open>The position of the entry, or of the end of the vector, and the number of entries before it.\<close>

partial_function (option) find_entry :: "nat mem \<Rightarrow> bmem \<Rightarrow> nat \<Rightarrow> nat \<Rightarrow> nat \<Rightarrow> nat \<Rightarrow> (nat \<times> nat) option" where
  "find_entry v m ep name len sz =
    do { p \<leftarrow> ld v ep;
         if p = null then Some (ep, sz)
         else do { hit \<leftarrow> is_entry m p name len;
                   if hit then Some (ep, sz) else find_entry v m (ep + 1) name len (sz + 1) } }"

definition getenv :: "env \<Rightarrow> nat \<Rightarrow> nat option" where
  "getenv s tag =
    (if environ s = null then Some null
     else do { len \<leftarrow> strlen (bytes s) tag;
               (var, _) \<leftarrow> find_entry (cells (heap s)) (bytes s) (environ s) tag len 0;
               name \<leftarrow> ld (cells (heap s)) var;
               Some (if name = null then null else name + len + 1) })"

text \<open>A new string \<open>name=value\<close>; \<open>vallen\<close> counts the null character.\<close>

definition new_entry :: "(bmem \<Rightarrow> nat \<Rightarrow> bmem \<times> nat) \<Rightarrow> bmem \<Rightarrow> nat \<Rightarrow> nat \<Rightarrow> nat \<Rightarrow> nat \<Rightarrow> (bmem \<times> nat) option" where
  "new_entry malloc m name namelen value vallen =
    (case malloc m (namelen + 1 + vallen) of (m, np) \<Rightarrow>
       if np = null then Some (m, null)
       else do { m \<leftarrow> copy_up m np name namelen; m \<leftarrow> st m (np + namelen) 61;
                 m \<leftarrow> copy_up m (np + namelen + 1) value vallen; Some (m, np) })"

text \<open>The user's string \<open>combined\<close> if there is one, else a new one.\<close>

definition entry_string :: "(bmem \<Rightarrow> nat \<Rightarrow> bmem \<times> nat) \<Rightarrow> env \<Rightarrow> nat \<Rightarrow> nat \<Rightarrow> nat \<Rightarrow> nat \<Rightarrow> nat \<Rightarrow> (env \<times> nat) option" where
  "entry_string malloc s name namelen value vallen combined =
    (if combined \<noteq> null then Some (s, combined)
     else do { (m, np) \<leftarrow> new_entry malloc (bytes s) name namelen value vallen; Some (s\<lparr>bytes := m\<rparr>, np) })"

text \<open>A vector with one more entry. Until \<open>environ\<close> is set to it the old one may be gone.\<close>

definition append_entry :: "(bmem \<Rightarrow> nat \<Rightarrow> bmem \<times> nat) \<Rightarrow> picker \<Rightarrow> nat \<Rightarrow> env \<Rightarrow> nat \<Rightarrow> nat \<Rightarrow> nat \<Rightarrow> nat \<Rightarrow> nat \<Rightarrow> nat \<Rightarrow>
    (env \<times> errno option \<times> int) option" where
  "append_entry malloc pick junk s name namelen value vallen combined sz =
    do { (h, new_environ) \<leftarrow> vrealloc pick junk (heap s) (last_environ s) (sz + 2);
         if new_environ = null then Some (s, None, -1)
         else do {
           let s = s\<lparr>heap := h\<rparr>;
           (s, np) \<leftarrow> entry_string malloc s name namelen value vallen combined;
           v \<leftarrow> st (cells (heap s)) (new_environ + sz) np;
           if np = null then Some (s\<lparr>heap := (heap s)\<lparr>cells := v\<rparr>\<rparr>, Some ENOMEM, -1)
           else do {
             v \<leftarrow> (if environ s \<noteq> last_environ s then copy_up v new_environ (environ s) sz else Some v);
             v \<leftarrow> st v (new_environ + sz + 1) null;
             Some (s\<lparr>heap := (heap s)\<lparr>cells := v\<rparr>, environ := new_environ, last_environ := new_environ\<rparr>, None, 0) } } }"

definition add_to_environ :: "(bmem \<Rightarrow> nat \<Rightarrow> bmem \<times> nat) \<Rightarrow> picker \<Rightarrow> nat \<Rightarrow> env \<Rightarrow> nat \<Rightarrow> nat \<Rightarrow> nat \<Rightarrow> bool \<Rightarrow>
    (env \<times> errno option \<times> int) option" where
  "add_to_environ malloc pick junk s name value combined replace =
    do { namelen \<leftarrow> strlen (bytes s) name;
         vallen \<leftarrow> (if value \<noteq> null then do { l \<leftarrow> strlen (bytes s) value; Some (l + 1) } else Some 0);
         (ep, sz) \<leftarrow> (if environ s \<noteq> null then find_entry (cells (heap s)) (bytes s) (environ s) name namelen 0 else Some (null, 0));
         p \<leftarrow> (if ep = null then Some null else ld (cells (heap s)) ep);
         if ep = null \<or> p = null then append_entry malloc pick junk s name namelen value vallen combined sz
         else if replace then do {
           (s, np) \<leftarrow> entry_string malloc s name namelen value vallen combined;
           if np = null then Some (s, None, -1)
           else do { v \<leftarrow> st (cells (heap s)) ep np; Some (s\<lparr>heap := (heap s)\<lparr>cells := v\<rparr>\<rparr>, None, 0) } }
         else Some (s, None, 0) }"

definition bad_name :: "bmem \<Rightarrow> nat \<Rightarrow> bool option" where
  "bad_name m name =
    (if name = null then Some True
     else do { c \<leftarrow> ld m name;
               if c = 0 then Some True else do { e \<leftarrow> strchr m name 61; Some (e \<noteq> null) } })"

definition setenv :: "(bmem \<Rightarrow> nat \<Rightarrow> bmem \<times> nat) \<Rightarrow> picker \<Rightarrow> nat \<Rightarrow> env \<Rightarrow> nat \<Rightarrow> nat \<Rightarrow> bool \<Rightarrow> (env \<times> errno option \<times> int) option" where
  "setenv malloc pick junk s name value replace =
    do { bad \<leftarrow> bad_name (bytes s) name;
         if bad then Some (s, Some EINVAL, -1) else add_to_environ malloc pick junk s name value null replace }"

text \<open>The later entries move down by one.\<close>

partial_function (option) move_down :: "nat mem \<Rightarrow> nat \<Rightarrow> nat mem option" where
  "move_down v dp = do { q \<leftarrow> ld v (dp + 1); v \<leftarrow> st v dp q; if q = null then Some v else move_down v (dp + 1) }"

partial_function (option) remove_entries :: "nat mem \<Rightarrow> bmem \<Rightarrow> nat \<Rightarrow> nat \<Rightarrow> nat \<Rightarrow> nat mem option" where
  "remove_entries v m ep name len =
    do { p \<leftarrow> ld v ep;
         if p = null then Some v
         else do { hit \<leftarrow> is_entry m p name len;
                   if hit then do { v \<leftarrow> move_down v ep; remove_entries v m ep name len }
                   else remove_entries v m (ep + 1) name len } }"

definition unsetenv :: "env \<Rightarrow> nat \<Rightarrow> (env \<times> errno option \<times> int) option" where
  "unsetenv s name =
    do { bad \<leftarrow> bad_name (bytes s) name;
         if bad then Some (s, Some EINVAL, -1)
         else do { len \<leftarrow> strlen (bytes s) name;
                   v \<leftarrow> (if environ s \<noteq> null then remove_entries (cells (heap s)) (bytes s) (environ s) name len
                         else Some (cells (heap s)));
                   Some (s\<lparr>heap := (heap s)\<lparr>cells := v\<rparr>\<rparr>, None, 0) } }"

definition clearenv :: "env \<Rightarrow> env" where
  "clearenv s =
    (let s = (if environ s = last_environ s \<and> environ s \<noteq> null then s\<lparr>heap := vfree (heap s) (environ s), last_environ := null\<rparr> else s)
     in s\<lparr>environ := null\<rparr>)"

text \<open>\<open>putenv\<close> has a search of its own; the name ends at an equals sign or at the end of the string.\<close>

partial_function (option) tag_length :: "bmem \<Rightarrow> nat \<Rightarrow> nat \<Rightarrow> nat option" where
  "tag_length m name len = do { c \<leftarrow> ld m name; if c \<noteq> 0 \<and> c \<noteq> 61 then tag_length m (name + 1) (len + 1) else Some len }"

definition del_env :: "env \<Rightarrow> nat \<Rightarrow> env option" where
  "del_env s strng =
    (if environ s = null then Some s
     else do { len \<leftarrow> tag_length (bytes s) strng 0;
               (var, _) \<leftarrow> find_entry (cells (heap s)) (bytes s) (environ s) strng len 0;
               name \<leftarrow> ld (cells (heap s)) var;
               if name \<noteq> null then do { v \<leftarrow> move_down (cells (heap s)) var; Some (s\<lparr>heap := (heap s)\<lparr>cells := v\<rparr>\<rparr>) }
               else Some s })"

partial_function (option) count_entries :: "nat mem \<Rightarrow> nat \<Rightarrow> nat \<Rightarrow> nat option" where
  "count_entries v e i = do { p \<leftarrow> ld v (e + i); if p \<noteq> null then count_entries v e (i + 1) else Some i }"

definition putenv :: "picker \<Rightarrow> nat \<Rightarrow> env \<Rightarrow> nat \<Rightarrow> (env \<times> int) option" where
  "putenv pick junk s strng =
    do { s \<leftarrow> del_env s strng;
         i \<leftarrow> (if environ s = null then Some 0 else count_entries (cells (heap s)) (environ s) 0);
         let (h, e) = vmalloc pick junk (heap s) (i + 2);
         if e = null then Some (s, -1)
         else do {
           v \<leftarrow> (if environ s = null then Some (cells h) else copy_up (cells h) e (environ s) (i + 1));
           let h = (if environ s = null then h else vfree (h\<lparr>cells := v\<rparr>) (environ s));
           v \<leftarrow> st (cells h) (e + i) strng;
           v \<leftarrow> st v (e + i + 1) null;
           Some (s\<lparr>heap := h\<lparr>cells := v\<rparr>, environ := e\<rparr>, 0) } }"

end
