(* ===== verification/EnvProps.thy ===== *)
theory EnvProps
  imports Environ
begin

text \<open>
  The environment as a list of names and values: every operation does to the list what it should, for any allocator that
  finds free cells whenever the memory is finite. \<open>putenv\<close> and \<open>setenv\<close> keep different accounts of who owns the vector, and the
  last section shows where that leads.
\<close>

section \<open>What represents an environment\<close>

type_synonym entry = "byte list \<times> byte list"

definition entry_text :: "entry \<Rightarrow> byte list" where "entry_text e = fst e @ 61 # snd e"

definition entry_at :: "bmem \<Rightarrow> nat \<Rightarrow> entry \<Rightarrow> bool" where
  "entry_at m p e \<longleftrightarrow> p \<noteq> 0 \<and> cstr m p (entry_text e) \<and> 61 \<notin> set (fst e)"

definition vec :: "nat mem \<Rightarrow> bmem \<Rightarrow> nat \<Rightarrow> nat list \<Rightarrow> entry list \<Rightarrow> bool" where
  "vec v m ep ps es \<longleftrightarrow> block v ep (ps @ [0]) \<and> list_all2 (entry_at m) ps es"

definition name_at :: "bmem \<Rightarrow> nat \<Rightarrow> byte list \<Rightarrow> bool" where
  "name_at m p k \<longleftrightarrow> p \<noteq> 0 \<and> cstr m p k \<and> k \<noteq> [] \<and> 61 \<notin> set k \<and> length k < 2 ^ 31"

text \<open>A string that begins with a name.\<close>

definition prefix_at :: "bmem \<Rightarrow> nat \<Rightarrow> byte list \<Rightarrow> bool" where
  "prefix_at m p k \<longleftrightarrow> p \<noteq> 0 \<and> (\<exists>t. cstr m p (k @ t)) \<and> 61 \<notin> set k \<and> length k < 2 ^ 31"

lemma name_prefix: "name_at m p k \<Longrightarrow> prefix_at m p k"
  unfolding name_at_def prefix_at_def by (metis append_Nil2)

definition before :: "byte list \<Rightarrow> entry list \<Rightarrow> nat" where
  "before k es = length (takeWhile (\<lambda>e. fst e \<noteq> k) es)"

lemma before_simps [simp]:
  "before k [] = 0"
  "before k (e # es) = (if fst e = k then 0 else Suc (before k es))"
  by (simp_all add: before_def)

lemma before_le: "before k es \<le> length es"
  by (simp add: before_def length_takeWhile_le)

lemma before_less: "before k es < length es \<longleftrightarrow> k \<in> fst ` set es"
  by (induction es) auto

lemma before_nth: "before k es < length es \<Longrightarrow> fst (es ! before k es) = k"
  by (induction es) (auto split: if_splits)

lemma map_of_before: "map_of es k = (if before k es < length es then Some (snd (es ! before k es)) else None)"
  by (induction es) auto

lemma vec_Nil: "vec v m ep ps [] \<longleftrightarrow> ps = [] \<and> v ep = Some 0"
  by (auto simp: vec_def block_Cons)

lemma vec_Cons: "vec v m ep (p # ps) (e # es) \<longleftrightarrow> v ep = Some p \<and> entry_at m p e \<and> vec v m (Suc ep) ps es"
  by (auto simp: vec_def block_Cons)

lemma vec_ConsE:
  assumes "vec v m ep ps (e # es)"
  obtains p qs where "ps = p # qs" "v ep = Some p" "entry_at m p e" "vec v m (Suc ep) qs es"
  using assms by (cases ps) (auto simp: vec_def block_Cons)

lemma vec_length: "vec v m ep ps es \<Longrightarrow> length ps = length es"
  by (auto simp: vec_def dest: list_all2_lengthD)

lemma vec_nth: "vec v m ep ps es \<Longrightarrow> i < length es \<Longrightarrow> v (ep + i) = Some (ps ! i) \<and> entry_at m (ps ! i) (es ! i)"
  unfolding vec_def
  by (metis block_nth length_append length_greater_0_conv list_all2_lengthD list_all2_nthD2 nth_append trans_less_add1)

lemma vec_end: "vec v m ep ps es \<Longrightarrow> v (ep + length es) = Some 0"
  by (auto simp: vec_def block_append block_Cons dest: list_all2_lengthD)

section \<open>Searching\<close>

lemma is_entry_spec:
  assumes "entry_at m p e" "prefix_at m name k"
  shows "is_entry m p name (length k) = Some (fst e = k)"
proof -
  obtain a b where e: "e = (a, b)" by fastforce
  obtain t where "cstr m name (k @ t)" using assms(2) by (auto simp: prefix_at_def)
  then have h: "p \<noteq> 0" "cstr m p (a @ 61 # b)" "61 \<notin> set a" "name \<noteq> 0" "cstr m name (k @ t)" "61 \<notin> set k" "length k < 2 ^ 31"
    using assms by (simp_all add: entry_at_def prefix_at_def entry_text_def e)
  have u: "unat (of_nat (length k) :: u32) = length k" using h(7) by (simp add: unat_of_nat take_bit_nat_eq_self)
  have cmp: "strncmp m p name (of_nat (length k)) = Some (strcmp_val (take (length k) (a @ 61 # b)) k)"
    using strncmp_spec [OF h(2,5,1,4), of "of_nat (length k)"] u h(7) by simp
  show ?thesis
  proof (cases "take (length k) (a @ 61 # b) = k")
    case False
    then have "fst e \<noteq> k" by (auto simp: e)
    then show ?thesis using False cmp strcmp_val_eq_0 [of _ k] by (simp add: is_entry_def)
  next
    case True
    have le: "length k \<le> length a"
    proof (rule ccontr)
      assume "\<not> length k \<le> length a"
      then have "61 \<in> set (take (length k) (a @ 61 # b))" by (simp add: take_Cons')
      then have "61 \<in> set k" by (simp only: True)
      then show False using h(6) by simp
    qed
    have "block m p ((a @ 61 # b) @ [0])" using h(2) by (simp add: cstr_def)
    then have "m (p + length k) = Some (((a @ 61 # b) @ [0]) ! length k)" using le by (intro block_nth) simp_all
    also have "((a @ 61 # b) @ [0]) ! length k = (if length k = length a then 61 else a ! length k)" using le by (simp add: nth_append)
    finally have c: "m (p + length k) = Some (if length k = length a then 61 else a ! length k)" .
    have "take (length k) a = k" using arg_cong [OF True, of "take (length k)"] le by simp
    then have "fst e = k \<longleftrightarrow> length k = length a" by (auto simp: e)
    moreover have "length k \<noteq> length a \<Longrightarrow> a ! length k \<noteq> 61" using le h(3) by (metis le_neq_implies_less nth_mem)
    moreover have "strncmp m p name (of_nat (length k)) = Some 0" using cmp strcmp_val_eq_0 [of k k] by (simp only: True) simp
    ultimately show ?thesis using c by (auto simp: is_entry_def ld_def)
  qed
qed

lemma find_entry_spec:
  "vec v m ep ps es \<Longrightarrow> prefix_at m name k \<Longrightarrow> find_entry v m ep name (length k) sz = Some (ep + before k es, sz + before k es)"
proof (induction es arbitrary: ep ps sz)
  case Nil
  then show ?case by (subst find_entry.simps) (auto simp: vec_Nil ld_def null_def)
next
  case (Cons e es)
  obtain p qs where p: "v ep = Some p" "entry_at m p e" "vec v m (Suc ep) qs es" by (rule vec_ConsE [OF Cons.prems(1)])
  have "p \<noteq> 0" using p(2) by (simp add: entry_at_def)
  then show ?case
    using p(1) is_entry_spec [OF p(2) Cons.prems(2)] Cons.IH [OF p(3) Cons.prems(2)]
    by (subst find_entry.simps) (auto simp: ld_def null_def)
qed

lemma strlen_name: "name_at m name k \<Longrightarrow> strlen m name = Some (length k)"
  by (simp add: name_at_def strlen_spec)

lemma good_name: "name_at m name k \<Longrightarrow> bad_name m name = Some False"
proof -
  assume h: "name_at m name k"
  then obtain c k' where k: "k = c # k'" by (cases k) (simp_all add: name_at_def)
  then have c: "m name = Some c" "c \<noteq> 0" using h by (auto simp: name_at_def cstr_Cons)
  have "cstr m name k" using h by (simp add: name_at_def)
  from strchr_spec [OF this, of 61 61] have "strchr m name 61 = Some null" using h by (simp add: name_at_def)
  then show ?thesis using c h by (simp add: bad_name_def ld_def name_at_def null_def)
qed

section \<open>Enough memory\<close>

definition ample :: "(bmem \<Rightarrow> nat \<Rightarrow> bmem \<times> nat) \<Rightarrow> bool" where
  "ample malloc \<longleftrightarrow> (\<forall>m n. finite (dom m) \<longrightarrow> fresh m n (malloc m n) \<and> snd (malloc m n) \<noteq> null)"

definition ample_cells :: "picker \<Rightarrow> bool" where
  "ample_cells pick \<longleftrightarrow> (\<forall>h n. finite (dom (cells h)) \<longrightarrow> pick h n \<noteq> null \<and> (\<forall>a. pick h n \<le> a \<and> a < pick h n + n \<longrightarrow> cells h a = None))"

lemma ample_cellsD:
  assumes "ample_cells pick" "finite (dom (cells h))"
  shows "pick h n \<noteq> 0" "pick h n \<le> a \<Longrightarrow> a < pick h n + n \<Longrightarrow> cells h a = None"
  using assms by (simp_all add: ample_cells_def null_def)

lemma finite_wr: "finite (dom m) \<Longrightarrow> finite (dom (wr m p xs))"
proof -
  assume "finite (dom m)"
  moreover have "dom (wr m p xs) \<subseteq> dom m \<union> {p..<p + length xs}" by (auto simp: wr_def split: if_splits)
  ultimately show ?thesis by (meson finite_Un finite_atLeastLessThan finite_subset)
qed

lemma finite_unmap: "finite (dom m) \<Longrightarrow> finite (dom (unmap m p n))"
proof -
  assume "finite (dom m)"
  moreover have "dom (unmap m p n) \<subseteq> dom m" by (auto simp: unmap_def split: if_splits)
  ultimately show ?thesis by (rule rev_finite_subset)
qed

lemma fresh_finite: "fresh m n (m', p) \<Longrightarrow> finite (dom m) \<Longrightarrow> finite (dom m')"
proof -
  assume f: "fresh m n (m', p)" and fin: "finite (dom m)"
  have "dom m' \<subseteq> dom m \<union> {p..<p + n}"
    using f by (fastforce simp: fresh_def dom_def split: if_splits)
  then show ?thesis using fin by (meson finite_Un finite_atLeastLessThan finite_subset)
qed

text \<open>A new string changes no other one.\<close>

definition keeps :: "bmem \<Rightarrow> bmem \<Rightarrow> bool" where "keeps m m' \<longleftrightarrow> (\<forall>p t. cstr m p t \<longrightarrow> cstr m' p t)"

lemma keeps_refl: "keeps m m"
  by (simp add: keeps_def)

lemma keeps_trans: "keeps m m1 \<Longrightarrow> keeps m1 m2 \<Longrightarrow> keeps m m2"
  by (simp add: keeps_def)

lemma keeps_entries: "keeps m m' \<Longrightarrow> list_all2 (entry_at m) ps es \<Longrightarrow> list_all2 (entry_at m') ps es"
  by (erule list_all2_mono) (simp add: entry_at_def keeps_def)

lemma keeps_name: "keeps m m' \<Longrightarrow> name_at m p k \<Longrightarrow> name_at m' p k"
  by (simp add: name_at_def keeps_def)

lemma new_entry_spec:
  assumes al: "ample malloc" and fin: "finite (dom m)" and n: "name_at m name k" and v: "value \<noteq> 0" "cstr m value v"
  obtains m' np where "new_entry malloc m name (length k) value (length v + 1) = Some (m', np)" "np \<noteq> 0" "entry_at m' np (k, v)"
    "keeps m m'" "finite (dom m')"
proof -
  let ?n = "length k + 1 + (length v + 1)" and ?t = "k @ 61 # v @ [0]"
  obtain m1 np where mp: "malloc m ?n = (m1, np)" by fastforce
  have fr: "fresh m ?n (m1, np)" and np: "np \<noteq> null" using al fin mp unfolding ample_def by (metis snd_conv)+
  then have p: "np \<noteq> 0" by (simp add: null_def)
  have k: "block m name (k @ [0])" and vb: "block m value (v @ [0])" using n v by (simp_all add: name_at_def cstr_def)
  have nz: "0 \<notin> set k" "0 \<notin> set v" using n v by (simp_all add: name_at_def cstr_def)
  have dn: "disjnt_rng np ?n name (length k + 1)" "disjnt_rng np ?n value (length v + 1)"
    using fresh_block(2) [OF fr k p] fresh_block(2) [OF fr vb p] by simp_all
  have kb: "block m1 name k" "block m1 value (v @ [0])"
    using fresh_block(1) [OF fr k p] fresh_block(1) [OF fr vb p] by (simp_all add: block_append)
  have mapd: "mapped m1 np ?n" using fr np by (simp add: fresh_def)
  have 1: "copy_up m1 np name (length k) = Some (wr m1 np k)"
    by (rule copy_up_spec [OF kb(1)]) (use mapped_le [OF mapd] dn(1) in \<open>auto simp: up_ok_def disjnt_rng_def\<close>)
  have "wr m1 np k (np + length k) \<noteq> None" using mapped_nth [OF mapd, of "length k"] by (simp add: wr_not_None)
  then have 2: "st (wr m1 np k) (np + length k) 61 = Some (wr m1 np (k @ [61]))" by (auto simp: st_def wr_snoc)
  have "block (wr m1 np (k @ [61])) value (v @ [0])"
    using kb(2) dn(2) by (subst block_wr_disjnt) (auto simp: disjnt_rng_def)
  moreover have "mapped (wr m1 np (k @ [61])) (np + length k + 1) (length v + 1)"
    using mapd by (intro mapped_wr) (simp only: mapped_add add.assoc)
  ultimately have "copy_up (wr m1 np (k @ [61])) (np + length k + 1) value (length (v @ [0])) =
      Some (wr (wr m1 np (k @ [61])) (np + length k + 1) (v @ [0]))"
    by (intro copy_up_spec) (use dn(2) in \<open>auto simp: up_ok_def disjnt_rng_def\<close>)
  also have "wr (wr m1 np (k @ [61])) (np + length k + 1) (v @ [0]) = wr m1 np ?t"
    using wr_append [of m1 np "k @ [61]" "v @ [0]"] by simp
  finally have "new_entry malloc m name (length k) value (length v + 1) = Some (wr m1 np ?t, np)"
    using mp 1 2 np by (simp add: new_entry_def del: copy_up.simps)
  moreover have "entry_at (wr m1 np ?t) np (k, v)"
    using p n nz by (simp add: entry_at_def entry_text_def cstr_def name_at_def)
  moreover have "keeps m (wr m1 np ?t)" unfolding keeps_def
  proof (intro allI impI)
    fix q t
    assume c: "cstr m q t"
    then have b: "block m q (t @ [0])" by (simp add: cstr_def)
    have "block m1 q (t @ [0])" "disjnt_rng np ?n q (length (t @ [0]))" using fresh_block [OF fr b p] by simp_all
    then have "block (wr m1 np ?t) q (t @ [0])" by (subst block_wr_disjnt) (simp_all add: disjnt_rng_def)
    then show "cstr (wr m1 np ?t) q t" using c by (simp add: cstr_def)
  qed
  moreover have "finite (dom (wr m1 np ?t))" by (rule finite_wr [OF fresh_finite [OF fr fin]])
  ultimately show thesis using p by (blast intro: that)
qed

section \<open>Storing\<close>

text \<open>The vector is the allocator's exactly when \<open>last_environ\<close> is set, and then has room for its end.\<close>

definition env_ok :: "env \<Rightarrow> entry list \<Rightarrow> bool" where
  "env_ok s es \<longleftrightarrow> finite (dom (bytes s)) \<and> finite (dom (cells (heap s))) \<and>
    (if environ s = 0 then es = [] else \<exists>ps. vec (cells (heap s)) (bytes s) (environ s) ps es) \<and>
    (last_environ s \<noteq> 0 \<longrightarrow> environ s = last_environ s \<and> (\<exists>n. blocks (heap s) (last_environ s) = Some n \<and> length es < n \<and> mapped (cells (heap s)) (last_environ s) n))"

text \<open>The vector with room for one more entry: the old entries are in it or where they were.\<close>

lemma grow_spec:
  assumes al: "ample_cells pick" and fin: "finite (dom (cells (heap s)))"
    and own: "last_environ s \<noteq> 0 \<Longrightarrow> environ s = last_environ s \<and> (\<exists>n. blocks (heap s) (last_environ s) = Some n \<and> length ps < n)"
    and b: "environ s \<noteq> 0 \<Longrightarrow> block (cells (heap s)) (environ s) (ps @ [0])" and e: "environ s = 0 \<Longrightarrow> ps = []"
  obtains h q where "vrealloc pick junk (heap s) (last_environ s) (length ps + 2) = Some (h, q)" "q \<noteq> 0" "finite (dom (cells h))"
    "blocks h q = Some (length ps + 2)" "mapped (cells h) q (length ps + 2)"
    "environ s = last_environ s \<Longrightarrow> block (cells h) q ps"
    "environ s \<noteq> last_environ s \<Longrightarrow> block (cells h) (environ s) ps \<and> disjnt_rng q (length ps + 2) (environ s) (length ps + 1)"
proof (cases "last_environ s = 0")
  case True
  let ?q = "pick (heap s) (length ps + 2)"
  let ?h = "(heap s)\<lparr>cells := wr (cells (heap s)) ?q (replicate (length ps + 2) junk), blocks := (blocks (heap s))(?q \<mapsto> length ps + 2)\<rparr>"
  have q: "?q \<noteq> 0" and fr: "\<And>a. ?q \<le> a \<Longrightarrow> a < ?q + (length ps + 2) \<Longrightarrow> cells (heap s) a = None"
    using ample_cellsD [OF al fin] by simp_all
  have dj: "disjnt_rng ?q (length ps + 2) (environ s) (length ps + 1)" if "environ s \<noteq> 0"
  proof (rule ccontr)
    assume n: "\<not> ?thesis"
    define a where "a = max ?q (environ s)"
    have "?q \<le> a" "a < ?q + (length ps + 2)" "environ s \<le> a" "a - environ s < length (ps @ [0])"
      using n unfolding a_def disjnt_rng_def by (auto simp: max_def)
    then show False using fr [of a] block_nth [OF b [OF that], of "a - environ s"] by simp
  qed
  have "block (cells ?h) (environ s) ps" if "environ s \<noteq> 0"
  proof -
    have "block (cells (heap s)) (environ s) ps" using b [OF that] by (simp add: block_append)
    moreover have "disjnt_rng ?q (length (replicate (length ps + 2) junk)) (environ s) (length ps)"
      using dj [OF that] by (auto simp: disjnt_rng_def)
    ultimately have "block (wr (cells (heap s)) ?q (replicate (length ps + 2) junk)) (environ s) ps"
      by (simp only: block_wr_disjnt)
    then show ?thesis by simp
  qed
  moreover have "vrealloc pick junk (heap s) (last_environ s) (length ps + 2) = Some (?h, ?q)"
    using True q by (simp add: vrealloc_def vmalloc_def null_def Let_def)
  moreover have "mapped (cells ?h) ?q (length ps + 2)"
    using block_mapped [OF block_wr_same, of "cells (heap s)" ?q "replicate (length ps + 2) junk"] by simp
  ultimately show thesis using True q finite_wr [OF fin] dj e by (intro that [of ?h ?q]) (auto simp: block_def)
next
  case False
  let ?p = "last_environ s"
  obtain n where n: "blocks (heap s) ?p = Some n" "length ps < n" and ep: "environ s = ?p" using own [OF False] by auto
  let ?f = "vfree (heap s) ?p"
  have fin': "finite (dom (cells ?f))" using n(1) finite_unmap [OF fin] by (simp add: vfree_def)
  let ?q = "pick ?f (length ps + 2)"
  let ?old = "map (\<lambda>i. the (cells (heap s) (?p + i))) [0..<n]"
  let ?xs = "take (length ps + 2) (?old @ replicate (length ps + 2 - n) junk)"
  let ?h = "?f\<lparr>cells := wr (cells ?f) ?q ?xs, blocks := (blocks ?f)(?q \<mapsto> length ps + 2)\<rparr>"
  have q: "?q \<noteq> 0" using ample_cellsD(1) [OF al fin'] by simp
  have len: "length ?xs = length ps + 2" using n(2) by simp
  have "block (cells (heap s)) ?p ps" using b ep False by (simp add: block_append)
  then have "take (length ps) ?old = ps" using n(2) by (intro nth_equalityI) (auto simp: block_def)
  then have "take (length ps) ?xs = ps" using n(2) by (simp add: min_def)
  then have "block (wr (cells ?f) ?q ?xs) ?q ps" using block_take [OF block_wr_same, of "cells ?f" ?q ?xs "length ps"] by simp
  moreover have "mapped (wr (cells ?f) ?q ?xs) ?q (length ps + 2)" using block_mapped [OF block_wr_same, of "cells ?f" ?q ?xs] len by simp
  moreover have "vrealloc pick junk (heap s) ?p (length ps + 2) = Some (?h, ?q)"
    using False q n(1) by (simp add: vrealloc_def null_def Let_def)
  ultimately show thesis using q finite_wr [OF fin'] ep by (intro that [of ?h ?q]) simp_all
qed

lemma env_ok_vec:
  assumes "env_ok s es"
  obtains ps where "length ps = length es" "list_all2 (entry_at (bytes s)) ps es"
    "environ s \<noteq> 0 \<Longrightarrow> vec (cells (heap s)) (bytes s) (environ s) ps es" "environ s = 0 \<Longrightarrow> ps = []"
  using assms by (cases "environ s = 0") (auto simp: env_ok_def vec_def dest: list_all2_lengthD)

lemma append_entry_spec:
  assumes al: "ample malloc" "ample_cells pick" and ok: "env_ok s es" and n: "name_at (bytes s) name k" and v: "value \<noteq> 0" "cstr (bytes s) value v"
  obtains s' where "append_entry malloc pick junk s name (length k) value (length v + 1) null (length es) = Some (s', None, 0)"
    "env_ok s' (es @ [(k, v)])" "keeps (bytes s) (bytes s')"
proof -
  obtain ps where ps: "length ps = length es" "list_all2 (entry_at (bytes s)) ps es"
    "environ s \<noteq> 0 \<Longrightarrow> vec (cells (heap s)) (bytes s) (environ s) ps es" "environ s = 0 \<Longrightarrow> ps = []"
    using env_ok_vec [OF ok] by metis
  have fin: "finite (dom (cells (heap s)))" "finite (dom (bytes s))" using ok by (simp_all add: env_ok_def)
  have own: "last_environ s \<noteq> 0 \<Longrightarrow> environ s = last_environ s \<and> (\<exists>n. blocks (heap s) (last_environ s) = Some n \<and> length ps < n)"
    and b: "environ s \<noteq> 0 \<Longrightarrow> block (cells (heap s)) (environ s) (ps @ [0])" using ok ps by (auto simp: env_ok_def vec_def)
  obtain h q where g: "vrealloc pick junk (heap s) (last_environ s) (length ps + 2) = Some (h, q)" "q \<noteq> 0" "finite (dom (cells h))"
    "blocks h q = Some (length ps + 2)" "mapped (cells h) q (length ps + 2)"
    "environ s = last_environ s \<Longrightarrow> block (cells h) q ps"
    "environ s \<noteq> last_environ s \<Longrightarrow> block (cells h) (environ s) ps \<and> disjnt_rng q (length ps + 2) (environ s) (length ps + 1)"
    using grow_spec [where junk = junk, OF al(2) fin(1) own b ps(4)] by metis
  obtain m' np where ne: "new_entry malloc (bytes s) name (length k) value (length v + 1) = Some (m', np)" "np \<noteq> 0" "entry_at m' np (k, v)"
    "keeps (bytes s) m'" "finite (dom m')" by (rule new_entry_spec [OF al(1) fin(2) n v])
  let ?L = "length ps" and ?v = "(cells h)(q + length ps \<mapsto> np)"
  have st1: "st (cells h) (q + ?L) np = Some ?v" using mapped_nth [OF g(5), of ?L] by (simp add: st_mapped)
  have mv: "mapped ?v q (?L + 2)" using g(5) by simp
  obtain w where w: "(if environ s \<noteq> last_environ s then copy_up ?v q (environ s) ?L else Some ?v) = Some w"
    "block w q (ps @ [np])" "mapped w q (?L + 2)" "finite (dom w)"
  proof (cases "environ s = last_environ s")
    case True
    then have "block ?v q (ps @ [np])" using g(6) by (simp add: block_append block_Cons block_upd_other)
    then show thesis using that [of ?v] True mv g(3) by simp
  next
    case False
    then have e: "block (cells h) (environ s) ps" "disjnt_rng q (?L + 2) (environ s) (?L + 1)" using g(7) by simp_all
    have "block ?v (environ s) ps" using e by (subst block_upd_other) (auto simp: disjnt_rng_def)
    then have "copy_up ?v q (environ s) ?L = Some (wr ?v q ps)"
      using mapped_le [OF mv, of ?L] e(2) by (intro copy_up_spec) (auto simp: up_ok_def disjnt_rng_def)
    moreover have "block (wr ?v q ps) q (ps @ [np])" by (simp add: block_append block_Cons wr_apply_out)
    moreover have "finite (dom (wr ?v q ps))" by (rule finite_wr) (simp add: g(3))
    ultimately show thesis using that [of "wr ?v q ps"] False mv by simp
  qed
  let ?w = "w(q + ?L + 1 \<mapsto> 0)"
  have st2: "st w (q + ?L + 1) null = Some ?w" using mapped_nth [OF w(3), of "?L + 1"] by (simp add: st_mapped null_def)
  let ?s = "s\<lparr>heap := h\<lparr>cells := ?w\<rparr>, bytes := m', environ := q, last_environ := q\<rparr>"
  have "block ?w q ((ps @ [np]) @ [0])" using w(2) by (simp add: block_append block_Cons block_upd_other del: append_assoc)
  moreover have "list_all2 (entry_at m') (ps @ [np]) (es @ [(k, v)])"
    using keeps_entries [OF ne(4) ps(2)] ne(3) ps(1) by (simp add: list_all2_appendI)
  ultimately have "vec ?w m' q (ps @ [np]) (es @ [(k, v)])" unfolding vec_def by blast
  then have "\<exists>qs. vec ?w m' q qs (es @ [(k, v)])" by blast
  then have "env_ok ?s (es @ [(k, v)])"
    using g(2,4) w(3,4) ne(5) ps(1) by (simp add: env_ok_def)
  moreover have "append_entry malloc pick junk s name (length k) value (length v + 1) null (length es) = Some (?s, None, 0)"
    using g(1,2) ne(1,2) st1 w(1) st2 ps(1)
    by (cases "environ s = last_environ s") (simp_all add: append_entry_def entry_string_def null_def)
  ultimately show thesis using that ne(4) by simp
qed

definition set_env :: "entry list \<Rightarrow> byte list \<Rightarrow> byte list \<Rightarrow> bool \<Rightarrow> entry list" where
  "set_env es k v replace =
    (if k \<in> fst ` set es then if replace then es[before k es := (k, v)] else es else es @ [(k, v)])"

lemma replace_entry:
  assumes "vec w m ep ps es" "keeps m m'" "entry_at m' np e" "i < length es"
  shows "vec (w(ep + i \<mapsto> np)) m' ep (ps[i := np]) (es[i := e])"
proof -
  have len: "length ps = length es" by (rule vec_length [OF assms(1)])
  have "block (w(ep + i \<mapsto> np)) ep ((ps @ [0])[i := np])"
    using assms(1) by (auto simp: vec_def block_def nth_list_update)
  then have "block (w(ep + i \<mapsto> np)) ep (ps[i := np] @ [0])" using assms(4) len by (simp add: list_update_append)
  moreover have "list_all2 (entry_at m') (ps[i := np]) (es[i := e])"
    using keeps_entries [OF assms(2)] assms(1,3) by (intro list_all2_update_cong) (auto simp: vec_def)
  ultimately show ?thesis by (simp add: vec_def)
qed

lemma setenv_spec:
  assumes al: "ample malloc" "ample_cells pick" and ok: "env_ok s es" and n: "name_at (bytes s) name k" and v: "value \<noteq> 0" "cstr (bytes s) value v"
  obtains s' where "setenv malloc pick junk s name value replace = Some (s', None, 0)" "env_ok s' (set_env es k v replace)" "keeps (bytes s) (bytes s')"
proof -
  note names = good_name [OF n] strlen_name [OF n] strlen_spec [OF v(2,1)]
  have start: "setenv malloc pick junk s name value replace = add_to_environ malloc pick junk s name value null replace"
    using names(1) by (simp add: setenv_def)
  obtain s1 where ap: "append_entry malloc pick junk s name (length k) value (length v + 1) null (length es) = Some (s1, None, 0)"
    "env_ok s1 (es @ [(k, v)])" "keeps (bytes s) (bytes s1)" by (rule append_entry_spec [OF al ok n v])
  show thesis
  proof (cases "environ s = 0")
    case True
    then have "es = []" using ok by (simp add: env_ok_def)
    then show thesis using that [of s1] ap start names v(1) True by (simp add: add_to_environ_def set_env_def null_def)
  next
    case False
    then obtain ps where ps: "vec (cells (heap s)) (bytes s) (environ s) ps es" using ok by (auto simp: env_ok_def)
    note find = find_entry_spec [OF ps name_prefix [OF n], of 0]
    let ?i = "before k es"
    show thesis
    proof (cases "?i < length es")
      case old: True
      note at = vec_nth [OF ps old]
      have p: "ps ! ?i \<noteq> 0" using at by (simp add: entry_at_def)
      show thesis
      proof (cases replace)
        case False
        then have "add_to_environ malloc pick junk s name value null replace = Some (s, None, 0)"
          using names v(1) find at p \<open>environ s \<noteq> 0\<close> by (simp add: add_to_environ_def null_def ld_def)
        then show thesis using that [of s] start ok False old by (simp add: set_env_def keeps_refl before_less [symmetric])
      next
        case True
        have fin: "finite (dom (bytes s))" using ok by (simp add: env_ok_def)
        obtain m' np where ne: "new_entry malloc (bytes s) name (length k) value (length v + 1) = Some (m', np)" "np \<noteq> 0" "entry_at m' np (k, v)"
          "keeps (bytes s) m'" "finite (dom m')" by (rule new_entry_spec [OF al(1) fin n v])
        let ?v = "(cells (heap s))(environ s + ?i \<mapsto> np)" and ?s = "s\<lparr>bytes := m', heap := (heap s)\<lparr>cells := (cells (heap s))(environ s + before k es \<mapsto> np)\<rparr>\<rparr>"
        have "add_to_environ malloc pick junk s name value null replace = Some (?s, None, 0)"
          using names v(1) find at p \<open>environ s \<noteq> 0\<close> True ne(1,2)
          by (simp add: add_to_environ_def entry_string_def null_def ld_def st_def)
        moreover have "env_ok ?s (set_env es k v replace)"
          using ok ne(5) replace_entry [OF ps ne(4,3) old] True old \<open>environ s \<noteq> 0\<close>
          by (auto simp: env_ok_def set_env_def before_less [symmetric])
        ultimately show thesis using that [of ?s] start ne(4) by simp
      qed
    next
      case new: False
      then have i: "?i = length es" using before_le [of k es] by simp
      have "add_to_environ malloc pick junk s name value null replace = Some (s1, None, 0)"
        using names v(1) find vec_end [OF ps] ap(1) i \<open>environ s \<noteq> 0\<close> by (simp add: add_to_environ_def null_def ld_def)
      moreover have "set_env es k v replace = es @ [(k, v)]" using new by (simp add: set_env_def before_less [symmetric])
      ultimately show thesis using that [of s1] start ap by simp
    qed
  qed
qed

section \<open>Removing\<close>

lemma move_down_spec:
  "block v dp (x # ps @ [0]) \<Longrightarrow> 0 \<notin> set ps \<Longrightarrow> move_down v dp = Some (wr v dp (ps @ [0]))"
proof (induction ps arbitrary: v dp x)
  case Nil
  then show ?case by (subst move_down.simps) (auto simp: block_Cons ld_def st_def null_def wr_Cons)
next
  case (Cons p ps)
  then have b: "v dp = Some x" "v (Suc dp) = Some p" "block v (Suc dp) (p # ps @ [0])" "p \<noteq> 0" by (simp_all add: block_Cons)
  have "block (v(dp \<mapsto> p)) (Suc dp) (p # ps @ [0])" using b(3) by (subst block_upd_other) simp_all
  then have "move_down (v(dp \<mapsto> p)) (Suc dp) = Some (wr (v(dp \<mapsto> p)) (Suc dp) (ps @ [0]))" using Cons.IH Cons.prems(2) by simp
  then show ?case using b by (subst move_down.simps) (simp add: ld_def st_def null_def wr_Cons del: fun_upd_apply)
qed

lemma vec_nonzero: "vec v m ep ps es \<Longrightarrow> 0 \<notin> set ps"
  by (auto simp: vec_def in_set_conv_nth entry_at_def dest: list_all2_nthD)

lemma remove_entries_spec:
  assumes "vec v m ep ps es" "name_at m name k" "finite (dom v)"
  shows "\<exists>v' qs. remove_entries v m ep name (length k) = Some v' \<and> vec v' m ep qs (filter (\<lambda>e. fst e \<noteq> k) es) \<and>
    (\<forall>a<ep. v' a = v a) \<and> (\<forall>a. v a \<noteq> None \<longrightarrow> v' a \<noteq> None) \<and> finite (dom v')"
  using assms
proof (induction es arbitrary: v ep ps)
  case Nil
  then show ?case by (subst remove_entries.simps) (auto simp: vec_Nil ld_def null_def)
next
  case (Cons e es)
  obtain p qs where p: "ps = p # qs" "v ep = Some p" "entry_at m p e" "vec v m (Suc ep) qs es" by (rule vec_ConsE [OF Cons.prems(1)])
  have nz: "p \<noteq> 0" using p(3) by (simp add: entry_at_def)
  note hit = is_entry_spec [OF p(3) name_prefix [OF Cons.prems(2)]]
  show ?case
  proof (cases "fst e = k")
    case False
    obtain v' rs where v': "remove_entries v m (Suc ep) name (length k) = Some v'" "vec v' m (Suc ep) rs (filter (\<lambda>e. fst e \<noteq> k) es)"
      "\<forall>a<Suc ep. v' a = v a" "\<forall>a. v a \<noteq> None \<longrightarrow> v' a \<noteq> None" "finite (dom v')" using Cons.IH [OF p(4) Cons.prems(2,3)] by blast
    have "vec v' m ep (p # rs) (e # filter (\<lambda>e. fst e \<noteq> k) es)" using v'(2,3) p(2,3) by (simp add: vec_Cons)
    then show ?thesis using v' False hit p(2) nz by (subst remove_entries.simps) (auto simp: ld_def null_def)
  next
    case True
    have b: "block v ep (p # qs @ [0])" "0 \<notin> set qs" using Cons.prems(1) p(1) vec_nonzero [OF Cons.prems(1)] by (simp_all add: vec_def)
    let ?v = "wr v ep (qs @ [0])"
    have "vec ?v m ep qs es" using p(4) by (simp add: vec_def)
    then obtain v' rs where v': "remove_entries ?v m ep name (length k) = Some v'" "vec v' m ep rs (filter (\<lambda>e. fst e \<noteq> k) es)"
      "\<forall>a<ep. v' a = ?v a" "\<forall>a. ?v a \<noteq> None \<longrightarrow> v' a \<noteq> None" "finite (dom v')" using Cons.IH [OF _ Cons.prems(2) finite_wr [OF Cons.prems(3)]] by blast
    have "\<forall>a<ep. v' a = v a" using v'(3) by (simp add: wr_apply_out)
    moreover have "\<forall>a. v a \<noteq> None \<longrightarrow> v' a \<noteq> None" using v'(4) wr_not_None by metis
    ultimately show ?thesis using v'(1,2,5) True hit p(2) nz move_down_spec [OF b] by (subst remove_entries.simps) (auto simp: ld_def null_def)
  qed
qed

lemma unsetenv_spec:
  assumes ok: "env_ok s es" and n: "name_at (bytes s) name k"
  obtains s' where "unsetenv s name = Some (s', None, 0)" "env_ok s' (filter (\<lambda>e. fst e \<noteq> k) es)" "bytes s' = bytes s"
proof (cases "environ s = 0")
  case True
  then have "unsetenv s name = Some (s, None, 0)" "es = []"
    using good_name [OF n] strlen_name [OF n] ok by (simp_all add: unsetenv_def null_def env_ok_def)
  then show thesis using that [of s] ok by simp
next
  case False
  then obtain ps where ps: "vec (cells (heap s)) (bytes s) (environ s) ps es" and fin: "finite (dom (cells (heap s)))"
    using ok by (auto simp: env_ok_def)
  obtain v' qs where v': "remove_entries (cells (heap s)) (bytes s) (environ s) name (length k) = Some v'"
    "vec v' (bytes s) (environ s) qs (filter (\<lambda>e. fst e \<noteq> k) es)" "\<forall>a. cells (heap s) a \<noteq> None \<longrightarrow> v' a \<noteq> None" "finite (dom v')"
    using remove_entries_spec [OF ps n fin] by blast
  let ?s = "s\<lparr>heap := (heap s)\<lparr>cells := v'\<rparr>\<rparr>"
  have "unsetenv s name = Some (?s, None, 0)" using good_name [OF n] strlen_name [OF n] False v'(1) by (simp add: unsetenv_def null_def)
  moreover have "env_ok ?s (filter (\<lambda>e. fst e \<noteq> k) es)"
    using ok v'(2,3,4) False le_less_trans [OF length_filter_le] by (auto simp: env_ok_def mapped_def)
  ultimately show thesis using that [of ?s] by simp
qed

lemma clearenv_spec: "env_ok s es \<Longrightarrow> env_ok (clearenv s) [] \<and> bytes (clearenv s) = bytes s"
  by (auto simp: clearenv_def env_ok_def Let_def null_def vfree_def finite_unmap split: option.splits)

lemma getenv_spec:
  assumes ok: "env_ok s es" and n: "name_at (bytes s) name k"
  shows "\<exists>p. getenv s name = Some p \<and> (case map_of es k of None \<Rightarrow> p = 0 | Some v \<Rightarrow> p \<noteq> 0 \<and> cstr (bytes s) p v)"
proof (cases "environ s = 0")
  case True
  then show ?thesis using ok by (simp add: getenv_def null_def env_ok_def)
next
  case False
  then obtain ps where ps: "vec (cells (heap s)) (bytes s) (environ s) ps es" using ok by (auto simp: env_ok_def)
  note find = find_entry_spec [OF ps name_prefix [OF n], of 0]
  let ?i = "before k es"
  show ?thesis
  proof (cases "?i < length es")
    case True
    have at: "cells (heap s) (environ s + ?i) = Some (ps ! ?i)" "ps ! ?i \<noteq> 0" "cstr (bytes s) (ps ! ?i) (k @ 61 # snd (es ! ?i))"
      using vec_nth [OF ps True] before_nth [OF True] by (simp_all add: entry_at_def entry_text_def)
    have "cstr (bytes s) (ps ! ?i + length (k @ [61])) (snd (es ! ?i))"
      using at(3) cstr_drop [of "bytes s" "ps ! ?i" "k @ 61 # snd (es ! ?i)" "length (k @ [61])"] by simp
    then show ?thesis using False find strlen_name [OF n] at(1,2) True by (simp add: getenv_def null_def ld_def map_of_before)
  next
    case i: False
    then have "?i = length es" using before_le [of k es] by simp
    then show ?thesis using False find strlen_name [OF n] vec_end [OF ps] by (simp add: getenv_def null_def ld_def map_of_before)
  qed
qed

section \<open>Sequences of calls\<close>

datatype env_call = Setenv nat nat bool | Unsetenv nat | Clearenv

datatype map_call = Put "byte list" "byte list" bool | Del "byte list" | Clear

definition env_step :: "(bmem \<Rightarrow> nat \<Rightarrow> bmem \<times> nat) \<Rightarrow> picker \<Rightarrow> nat \<Rightarrow> env \<Rightarrow> env_call \<Rightarrow> (env \<times> errno option \<times> int) option" where
  "env_step malloc pick junk s c =
    (case c of Setenv name value r \<Rightarrow> setenv malloc pick junk s name value r | Unsetenv name \<Rightarrow> unsetenv s name
     | Clearenv \<Rightarrow> Some (clearenv s, None, 0))"

fun env_run :: "(bmem \<Rightarrow> nat \<Rightarrow> bmem \<times> nat) \<Rightarrow> picker \<Rightarrow> nat \<Rightarrow> env \<Rightarrow> env_call list \<Rightarrow> (env \<times> int list) option" where
  "env_run malloc pick junk s [] = Some (s, [])"
| "env_run malloc pick junk s (c # cs) =
    do { (s, _, r) \<leftarrow> env_step malloc pick junk s c; (s, rs) \<leftarrow> env_run malloc pick junk s cs; Some (s, r # rs) }"

fun denotes :: "bmem \<Rightarrow> env_call \<Rightarrow> map_call \<Rightarrow> bool" where
  "denotes m (Setenv name value r) (Put k v r') \<longleftrightarrow> name_at m name k \<and> value \<noteq> 0 \<and> cstr m value v \<and> r = r'"
| "denotes m (Unsetenv name) (Del k) \<longleftrightarrow> name_at m name k"
| "denotes m Clearenv Clear \<longleftrightarrow> True"
| "denotes m _ _ \<longleftrightarrow> False"

fun map_step :: "map_call \<Rightarrow> (byte list \<rightharpoonup> byte list) \<Rightarrow> byte list \<rightharpoonup> byte list" where
  "map_step (Put k v r) f = (if r \<or> k \<notin> dom f then f(k \<mapsto> v) else f)"
| "map_step (Del k) f = f(k := None)"
| "map_step Clear f = Map.empty"

lemma keeps_denotes: "keeps m m' \<Longrightarrow> denotes m c a \<Longrightarrow> denotes m' c a"
  by (cases "(m, c, a)" rule: denotes.cases) (auto simp: keeps_name keeps_def)

lemma map_of_replaced: "k \<in> fst ` set es \<Longrightarrow> map_of (es[before k es := (k, v)]) = (map_of es)(k \<mapsto> v)"
proof (induction es)
  case (Cons e es)
  show ?case
  proof (cases "fst e = k")
    case False
    then have "k \<in> fst ` set es" using Cons.prems by simp
    then have "map_of (es[before k es := (k, v)]) = (map_of es)(k \<mapsto> v)" by (rule Cons.IH)
    then show ?thesis using False by (cases e) (auto simp: fun_eq_iff)
  qed (auto simp: fun_eq_iff)
qed simp

lemma map_of_set_env: "map_of (set_env es k v r) = map_step (Put k v r) (map_of es)"
proof -
  have "map_of (es @ [(k, v)]) = (map_of es)(k \<mapsto> v)" if "k \<notin> fst ` set es"
    using that by (induction es) (auto simp: fun_upd_twist)
  then show ?thesis using map_of_replaced by (simp add: set_env_def dom_map_of_conv_image_fst)
qed

lemma map_of_filter_neq: "map_of (filter (\<lambda>e. fst e \<noteq> k) es) = (map_of es)(k := None)"
  by (induction es) (auto simp: fun_upd_twist)

lemma env_step_spec:
  assumes al: "ample malloc" "ample_cells pick" and ok: "env_ok s es" and d: "denotes (bytes s) c a"
  obtains s' e es' where "env_step malloc pick junk s c = Some (s', e, 0)" "env_ok s' es'" "map_of es' = map_step a (map_of es)"
    "keeps (bytes s) (bytes s')"
proof (cases c)
  case (Setenv name vp r)
  then obtain k v where a: "a = Put k v r" "name_at (bytes s) name k" "vp \<noteq> 0" "cstr (bytes s) vp v" using d by (cases a) auto
  obtain s' where "setenv malloc pick junk s name vp r = Some (s', None, 0)" "env_ok s' (set_env es k v r)" "keeps (bytes s) (bytes s')"
    by (rule setenv_spec [OF al ok a(2,3,4)])
  then show thesis using that Setenv a(1) map_of_set_env by (simp add: env_step_def)
next
  case (Unsetenv name)
  then obtain k where a: "a = Del k" "name_at (bytes s) name k" using d by (cases a) auto
  obtain s' where "unsetenv s name = Some (s', None, 0)" "env_ok s' (filter (\<lambda>e. fst e \<noteq> k) es)" "bytes s' = bytes s"
    by (rule unsetenv_spec [OF ok a(2)])
  then show thesis
    using that [of s' None "filter (\<lambda>e. fst e \<noteq> k) es"] Unsetenv a(1) by (simp add: env_step_def map_of_filter_neq keeps_refl)
next
  case Clearenv
  then have "a = Clear" using d by (cases a) auto
  then show thesis using that [of "clearenv s" None "[]"] Clearenv clearenv_spec [OF ok] by (simp add: env_step_def keeps_refl)
qed

lemma env_run_spec:
  assumes "ample malloc" "ample_cells pick" "env_ok s es" "list_all2 (denotes (bytes s)) cs as"
  shows "\<exists>s' es'. env_run malloc pick junk s cs = Some (s', replicate (length cs) 0) \<and> env_ok s' es' \<and>
    map_of es' = fold map_step as (map_of es) \<and> keeps (bytes s) (bytes s')"
  using assms(3,4)
proof (induction cs arbitrary: s es as)
  case Nil
  then show ?case by (auto simp: keeps_refl)
next
  case (Cons c cs)
  obtain a as' where a: "as = a # as'" "denotes (bytes s) c a" "list_all2 (denotes (bytes s)) cs as'"
    using Cons.prems(2) by (auto simp: list_all2_Cons1)
  obtain s1 e es1 where 1: "env_step malloc pick junk s c = Some (s1, e, 0)" "env_ok s1 es1" "map_of es1 = map_step a (map_of es)"
    "keeps (bytes s) (bytes s1)" by (rule env_step_spec [OF assms(1,2) Cons.prems(1) a(2)])
  have "list_all2 (denotes (bytes s1)) cs as'" using a(3) by (rule list_all2_mono) (rule keeps_denotes [OF 1(4)])
  from Cons.IH [OF 1(2) this] obtain s2 es2 where 2: "env_run malloc pick junk s1 cs = Some (s2, replicate (length cs) 0)" "env_ok s2 es2"
    "map_of es2 = fold map_step as' (map_of es1)" "keeps (bytes s1) (bytes s2)" by blast
  show ?case using 1 2 keeps_trans [OF 1(4) 2(4)] by (auto simp: a(1))
qed

text \<open>C8: The environment is a map from names to values. Any sequence of calls of \<open>setenv\<close>, \<open>unsetenv\<close> and \<open>clearenv\<close>, started in
  any environment with well-formed entries, whether the vector comes from the start-up code or from \<open>setenv\<close>, succeeds when there is memory, and \<open>getenv\<close> of any name
  yields what the same calls on a map yield; no string that the caller may hold is changed.\<close>

theorem environment_is_map:
  assumes "ample malloc" "ample_cells pick" "env_ok s es" "list_all2 (denotes (bytes s)) calls abstract"
  shows "\<exists>s'. env_run malloc pick junk s calls = Some (s', replicate (length calls) 0) \<and>
    (\<forall>p t. cstr (bytes s) p t \<longrightarrow> cstr (bytes s') p t) \<and>
    (\<forall>name k. name_at (bytes s') name k \<longrightarrow>
      (\<exists>p. getenv s' name = Some p \<and>
        (case fold map_step abstract (map_of es) k of None \<Rightarrow> p = 0 | Some v \<Rightarrow> p \<noteq> 0 \<and> cstr (bytes s') p v)))"
proof -
  obtain s' es' where s': "env_run malloc pick junk s calls = Some (s', replicate (length calls) 0)" "env_ok s' es'"
    "map_of es' = fold map_step abstract (map_of es)" "keeps (bytes s) (bytes s')"
    using env_run_spec [OF assms] by blast
  then show ?thesis using getenv_spec [OF s'(2)] by (auto simp: keeps_def)
qed

text \<open>An allocator that takes the cells behind all others.\<close>

definition mem_top :: "'a mem \<Rightarrow> nat" where "mem_top m = Suc (Max (insert 0 (dom m)))"

lemma above_top: "finite (dom m) \<Longrightarrow> mem_top m \<le> a \<Longrightarrow> m a = None"
proof (rule ccontr)
  assume h: "finite (dom m)" "mem_top m \<le> a" "m a \<noteq> None"
  then have "a \<le> Max (insert 0 (dom m))" by (intro Max_ge) auto
  then show False using h(2) by (simp add: mem_top_def)
qed

lemma ample_top: "ample (\<lambda>m n. (wr m (mem_top m) (replicate n 0), mem_top m))" "ample_cells (\<lambda>h n. mem_top (cells h))"
proof -
  show "ample_cells (\<lambda>h n. mem_top (cells h))" by (auto simp: ample_cells_def null_def above_top) (simp add: mem_top_def)
  show "ample (\<lambda>m n. (wr m (mem_top m) (replicate n 0), mem_top m))" unfolding ample_def
  proof (intro allI impI conjI)
    fix m :: bmem and n
    assume f: "finite (dom m)"
    show "snd (wr m (mem_top m) (replicate n 0), mem_top m) \<noteq> null" by (simp add: null_def mem_top_def)
    have "mapped (wr m (mem_top m) (replicate n 0)) (mem_top m) n" using block_mapped [OF block_wr_same, of m "mem_top m" "replicate n 0"] by simp
    then show "fresh m n (wr m (mem_top m) (replicate n 0), mem_top m)"
      using above_top [OF f] by (simp add: fresh_def null_def wr_apply_out mem_top_def)
  qed
qed

definition demo_env :: env where
  "demo_env = \<lparr>heap = \<lparr>cells = [10 \<mapsto> 100, 11 \<mapsto> 0], blocks = Map.empty\<rparr>,
    bytes = wr Map.empty 100 [65, 61, 49, 0, 66, 0, 50, 0], environ = 10, last_environ = 0\<rparr>"

lemma demo_strings:
  "entry_at (bytes demo_env) 100 ([65], [49])" "name_at (bytes demo_env) 104 [66]" "cstr (bytes demo_env) 106 [50]"
  by (simp_all add: demo_env_def entry_at_def entry_text_def name_at_def cstr_def block_Cons wr_def)

lemma demo_env_ok: "env_ok demo_env [([65], [49])]"
proof -
  have "vec (cells (heap demo_env)) (bytes demo_env) 10 [100] [([65], [49])]"
    using demo_strings(1) by (simp add: vec_def block_Cons) (simp add: demo_env_def)
  moreover have "finite (dom (bytes demo_env))" by (simp add: demo_env_def finite_wr)
  ultimately show ?thesis by (auto simp: env_ok_def demo_env_def)
qed

lemma environment_is_map_witness:
  "\<exists>s'. env_run (\<lambda>m n. (wr m (mem_top m) (replicate n 0), mem_top m)) (\<lambda>h n. mem_top (cells h)) 7 demo_env [Setenv 104 106 True, Unsetenv 104, Clearenv] =
      Some (s', [0, 0, 0]) \<and>
    (\<forall>p t. cstr (bytes demo_env) p t \<longrightarrow> cstr (bytes s') p t) \<and>
    (\<forall>name k. name_at (bytes s') name k \<longrightarrow>
      (\<exists>p. getenv s' name = Some p \<and>
        (case fold map_step [Put [66] [50] True, Del [66], Clear] (map_of [([65], [49])]) k of None \<Rightarrow> p = 0 | Some v \<Rightarrow> p \<noteq> 0 \<and> cstr (bytes s') p v)))"
proof -
  have "list_all2 (denotes (bytes demo_env)) [Setenv 104 106 True, Unsetenv 104, Clearenv] [Put [66] [50] True, Del [66], Clear]"
    using demo_strings by simp
  from environment_is_map [OF ample_top demo_env_ok this, of 7] show ?thesis by (simp add: numeral_eq_Suc)
qed

section \<open>putenv\<close>

definition without_first :: "byte list \<Rightarrow> 'a list \<Rightarrow> entry list \<Rightarrow> 'a list" where
  "without_first k xs es = take (before k es) xs @ drop (Suc (before k es)) xs"

lemma tag_length_spec: "cstr m p (k @ 61 # t) \<Longrightarrow> 61 \<notin> set k \<Longrightarrow> tag_length m p n = Some (n + length k)"
proof (induction k arbitrary: p n)
  case Nil
  then show ?case by (subst tag_length.simps) (simp add: cstr_Cons ld_def)
next
  case (Cons c k)
  then show ?case by (subst tag_length.simps) (auto simp: cstr_Cons ld_def)
qed

lemma entry_prefix: "entry_at m p (k, v) \<Longrightarrow> length k < 2 ^ 31 \<Longrightarrow> prefix_at m p k"
  by (auto simp: entry_at_def entry_text_def prefix_at_def)

lemma del_env_spec:
  assumes v: "environ s \<noteq> 0" "vec (cells (heap s)) (bytes s) (environ s) ps es" and e: "entry_at (bytes s) strng (k, x)" "length k < 2 ^ 31"
  obtains w where "del_env s strng = Some (s\<lparr>heap := (heap s)\<lparr>cells := w\<rparr>\<rparr>)"
    "vec w (bytes s) (environ s) (without_first k ps es) (without_first k es es)"
    "\<forall>a. cells (heap s) a \<noteq> None \<longrightarrow> w a \<noteq> None" "finite (dom (cells (heap s))) \<longrightarrow> finite (dom w)"
proof -
  let ?i = "before k es" and ?v = "cells (heap s)"
  have tag: "tag_length (bytes s) strng 0 = Some (length k)"
    using e(1) tag_length_spec [of "bytes s" strng k x 0] by (simp add: entry_at_def entry_text_def)
  note find = find_entry_spec [OF v(2) entry_prefix [OF e], of 0]
  have len: "length ps = length es" by (rule vec_length [OF v(2)])
  show thesis
  proof (cases "?i < length es")
    case False
    then have i: "?i = length es" using before_le [of k es] by simp
    then have "del_env s strng = Some s" using v(1) tag find vec_end [OF v(2)] by (simp add: del_env_def null_def ld_def)
    then show thesis using that [of ?v] v(2) i len by (simp add: without_first_def)
  next
    case True
    let ?q = "drop (Suc ?i) ps" and ?w = "wr ?v (environ s + ?i) (drop (Suc ?i) ps @ [0])"
    have cut: "ps = take ?i ps @ ps ! ?i # ?q" using True len by (simp add: id_take_nth_drop)
    then have "block ?v (environ s) (take ?i ps @ ps ! ?i # ?q @ [0])" using v(2) by (metis append.assoc append_Cons vec_def)
    then have b: "block ?v (environ s) (take ?i ps)" "block ?v (environ s + ?i) (ps ! ?i # ?q @ [0])"
      using True len by (simp_all add: block_append)
    have nz: "0 \<notin> set ?q" using vec_nonzero [OF v(2)] by (meson in_set_dropD)
    have li: "length (take ?i ps) = ?i" using True len by simp
    then have "disjnt_rng (environ s + ?i) (length (?q @ [0])) (environ s) (length (take ?i ps))" by (simp add: disjnt_rng_def)
    then have "block ?w (environ s) (take ?i ps)" using b(1) by (simp only: block_wr_disjnt)
    then have "block ?w (environ s) (take ?i ps @ ?q @ [0])"
      using block_wr_same [of ?v "environ s + ?i" "?q @ [0]"] li by (simp only: block_append [of _ _ "take ?i ps"])
    moreover have "list_all2 (entry_at (bytes s)) (without_first k ps es) (without_first k es es)"
      using v(2) by (auto simp: without_first_def vec_def intro: list_all2_appendI list_all2_takeI list_all2_dropI)
    ultimately have B: "vec ?w (bytes s) (environ s) (without_first k ps es) (without_first k es es)" by (simp add: vec_def without_first_def)
    have A: "del_env s strng = Some (s\<lparr>heap := (heap s)\<lparr>cells := ?w\<rparr>\<rparr>)"
      using v(1) tag find vec_nth [OF v(2) True] move_down_spec [OF b(2) nz] by (simp add: del_env_def null_def ld_def entry_at_def)
    have C: "\<forall>a. ?v a \<noteq> None \<longrightarrow> ?w a \<noteq> None" "finite (dom ?v) \<longrightarrow> finite (dom ?w)"
      by (simp add: wr_def) (simp add: finite_wr)
    show thesis by (rule that [OF A B C])
  qed
qed

lemma count_entries_spec: "block v e (ps @ [0]) \<Longrightarrow> 0 \<notin> set ps \<Longrightarrow> i \<le> length ps \<Longrightarrow> count_entries v e i = Some (length ps)"
proof (induction "length ps - i" arbitrary: i)
  case 0
  then have "i = length ps" by simp
  then have "v (e + i) = Some 0" using block_nth [OF 0(2), of "length ps"] by simp
  then show ?case using 0 by (subst count_entries.simps) (simp add: ld_def null_def)
next
  case (Suc d)
  then have i: "i < length ps" by simp
  have "v (e + i) = Some (ps ! i)" using block_nth [OF Suc.prems(1), of i] i by (simp add: nth_append)
  moreover have "ps ! i \<noteq> 0" using i Suc.prems(2) by (metis nth_mem)
  ultimately show ?case using Suc.hyps(1) [of "i + 1"] Suc.hyps(2) Suc.prems i by (subst count_entries.simps) (simp add: ld_def null_def)
qed

lemma putenv_step:
  assumes "del_env s strng = Some s2" "environ s2 \<noteq> 0" "count_entries (cells (heap s2)) (environ s2) 0 = Some L"
    and "vmalloc pick junk (heap s2) (L + 2) = (h1, e)" "e \<noteq> 0" "copy_up (cells h1) e (environ s2) (L + 1) = Some v"
    and "vfree (h1\<lparr>cells := v\<rparr>) (environ s2) = h2" "st (cells h2) (e + L) strng = Some v2" "st v2 (e + L + 1) 0 = Some v3"
  shows "putenv pick junk s strng = Some (s2\<lparr>heap := h2\<lparr>cells := v3\<rparr>, environ := e\<rparr>, 0)"
  using assms by (simp add: putenv_def null_def Let_def del: copy_up.simps)

text \<open>The new vector of \<open>putenv\<close>, and what it does to the old one.\<close>

lemma putenv_spec:
  assumes al: "ample_cells pick" and ok: "env_ok s es" and e: "entry_at (bytes s) strng (k, x)" "length k < 2 ^ 31"
    and env: "environ s \<noteq> 0" "\<And>n. blocks (heap s) (environ s) = Some n \<Longrightarrow> mapped (cells (heap s)) (environ s) n"
  obtains s1 ps where "putenv pick junk s strng = Some (s1, 0)" "bytes s1 = bytes s" "last_environ s1 = last_environ s"
    "environ s1 \<noteq> 0" "vec (cells (heap s1)) (bytes s) (environ s1) ps (without_first k es es @ [(k, x)])" "blocks (heap s1) (environ s) = None"
proof -
  obtain ps0 where ps0: "vec (cells (heap s)) (bytes s) (environ s) ps0 es" using ok env(1) by (auto simp: env_ok_def)
  let ?ps = "without_first k ps0 es" and ?es = "without_first k es es"
  obtain w where w: "del_env s strng = Some (s\<lparr>heap := (heap s)\<lparr>cells := w\<rparr>\<rparr>)" "vec w (bytes s) (environ s) ?ps ?es"
    "\<forall>a. cells (heap s) a \<noteq> None \<longrightarrow> w a \<noteq> None" "finite (dom (cells (heap s))) \<longrightarrow> finite (dom w)"
    by (rule del_env_spec [OF env(1) ps0 e])
  let ?s = "s\<lparr>heap := (heap s)\<lparr>cells := w\<rparr>\<rparr>" and ?h = "(heap s)\<lparr>cells := w\<rparr>" and ?L = "length ?ps" and ?o = "environ s"
  have b: "block w ?o (?ps @ [0])" "0 \<notin> set ?ps" using w(2) vec_nonzero [OF w(2)] by (simp_all add: vec_def)
  have cnt: "count_entries w ?o 0 = Some ?L" by (rule count_entries_spec [OF b]) simp
  have fin: "finite (dom (cells ?h))" using ok w(4) by (simp add: env_ok_def)
  define q where "q = pick ?h (?L + 2)"
  have q: "q \<noteq> 0" "\<And>a. q \<le> a \<Longrightarrow> a < q + (?L + 2) \<Longrightarrow> w a = None" using ample_cellsD [OF al fin] by (simp_all add: q_def)
  have apart: "disjnt_rng q (?L + 2) ?o n" if "mapped w ?o n" "n \<noteq> 0" for n
  proof (rule ccontr)
    assume n: "\<not> ?thesis"
    define a where "a = max q ?o"
    have "q \<le> a" "a < q + (?L + 2)" "?o \<le> a" "a - ?o < n" using n that(2) unfolding a_def disjnt_rng_def by (auto simp: max_def)
    then show False using q(2) [of a] mapped_nth [OF that(1), of "a - ?o"] by simp
  qed
  have dj: "disjnt_rng q (?L + 2) ?o (?L + 1)" using apart [of "?L + 1"] block_mapped [OF b(1)] by simp
  let ?v = "wr w q (replicate (?L + 2) junk)" and ?B = "(blocks (heap s))(q \<mapsto> ?L + 2)"
  have vm: "vmalloc pick junk ?h (?L + 2) = ((heap s)\<lparr>cells := ?v, blocks := ?B\<rparr>, q)"
    using q(1) by (simp add: vmalloc_def Let_def null_def q_def)
  have "disjnt_rng q (length (replicate (?L + 2) junk)) ?o (length (?ps @ [0]))" using dj by simp
  then have "block ?v ?o (?ps @ [0])" using b(1) by (simp only: block_wr_disjnt)
  moreover have mv: "mapped ?v q (?L + 2)" using block_mapped [OF block_wr_same, of w q "replicate (?L + 2) junk"] by simp
  then have "mapped ?v q (length (?ps @ [0]))" by (rule mapped_le) simp
  moreover have "up_ok q ?o (length (?ps @ [0]))" using dj by (auto simp: up_ok_def disjnt_rng_def)
  ultimately have cp: "copy_up ?v q ?o (?L + 1) = Some (wr ?v q (?ps @ [0]))" using copy_up_spec by fastforce
  let ?c = "wr ?v q (?ps @ [0])"
  let ?h2 = "vfree ((heap s)\<lparr>cells := ?c, blocks := ?B\<rparr>) ?o"
  have ne: "?o \<noteq> q" using dj by (auto simp: disjnt_rng_def)
  have keep: "cells ?h2 a = ?c a" if "q \<le> a" "a < q + (?L + 2)" for a
  proof (cases "blocks (heap s) ?o")
    case (Some n)
    have "mapped w ?o n" using env(2) [OF Some] w(3) by (simp add: mapped_def)
    then have "\<not> (?o \<le> a \<and> a < ?o + n)" using apart [of n] that by (cases "n = 0") (auto simp: disjnt_rng_def)
    then show ?thesis using Some ne by (auto simp: vfree_def unmap_def)
  qed (use ne in \<open>simp add: vfree_def\<close>)
  have cells2: "block (cells ?h2) q ?ps" "cells ?h2 (q + ?L) \<noteq> None" "cells ?h2 (q + ?L + 1) \<noteq> None"
  proof -
    have "block ?c q ?ps" using block_wr_same [of ?v q "?ps @ [0]"] by (simp only: block_append)
    then show "block (cells ?h2) q ?ps" using keep by (simp add: block_def)
    show "cells ?h2 (q + ?L) \<noteq> None" "cells ?h2 (q + ?L + 1) \<noteq> None"
      using keep [of "q + ?L"] keep [of "q + ?L + 1"] mapped_nth [OF mapped_wr [OF mv], of "?L"] mapped_nth [OF mapped_wr [OF mv], of "?L + 1"] by simp_all
  qed
  have b2: "blocks ?h2 ?o = None" using ne by (auto simp: vfree_def split: option.splits)
  let ?f = "(cells ?h2)(q + ?L \<mapsto> strng, q + ?L + 1 \<mapsto> 0)"
  let ?s1 = "s\<lparr>heap := ?h2\<lparr>cells := ?f\<rparr>, environ := q\<rparr>"
  have "block ?f q ((?ps @ [strng]) @ [0])" using cells2(1) by (simp add: block_append block_Cons block_upd_other)
  moreover have "list_all2 (entry_at (bytes s)) (?ps @ [strng]) (?es @ [(k, x)])"
    using w(2) e(1) by (simp add: vec_def list_all2_appendI)
  ultimately have "vec ?f (bytes s) q (?ps @ [strng]) (?es @ [(k, x)])" by (simp add: vec_def)
  moreover have "putenv pick junk s strng = Some (?s1, 0)"
  proof -
    have 1: "st (cells ?h2) (q + ?L) strng = Some ((cells ?h2)(q + ?L \<mapsto> strng))"
      and 2: "st ((cells ?h2)(q + ?L \<mapsto> strng)) (q + ?L + 1) null = Some ?f"
      using cells2(2,3) by (auto simp: st_def null_def)
    have 3: "vfree ((heap s)\<lparr>cells := ?v, blocks := ?B\<rparr>\<lparr>cells := ?c\<rparr>) (environ ?s) = ?h2" by (cases "heap s") simp
    have "environ ?s \<noteq> 0" "count_entries (cells (heap ?s)) (environ ?s) 0 = Some ?L" "vmalloc pick junk (heap ?s) (?L + 2) = ((heap s)\<lparr>cells := ?v, blocks := ?B\<rparr>, q)"
      "copy_up (cells ((heap s)\<lparr>cells := ?v, blocks := ?B\<rparr>)) q (environ ?s) (?L + 1) = Some ?c" "st ((cells ?h2)(q + ?L \<mapsto> strng)) (q + ?L + 1) 0 = Some ?f"
      using env(1) cnt vm cp 2 by (simp_all add: null_def del: copy_up.simps replicate.simps fun_upd_apply)
    from putenv_step [OF w(1) this(1-3) q(1) this(4) 3 1 this(5)]
    have "putenv pick junk s strng = Some (?s\<lparr>heap := ?h2\<lparr>cells := ?f\<rparr>, environ := q\<rparr>, 0)" .
    then show ?thesis by simp
  qed
  ultimately show thesis using q(1) b2 by (intro that [of ?s1 "?ps @ [strng]"]) simp_all
qed

lemma set_without_first: "set (without_first k xs es) \<subseteq> set xs"
  by (auto simp: without_first_def dest: in_set_takeD in_set_dropD)

text \<open>A new name needs a longer vector, from the block \<open>setenv\<close> had last; when that is gone the call is undefined.\<close>

lemma setenv_no_block:
  assumes v: "vec (cells (heap s)) (bytes s) (environ s) ps es" "environ s \<noteq> 0" and n: "name_at (bytes s) name k" "k \<notin> fst ` set es"
    and x: "value \<noteq> 0" "cstr (bytes s) value x" and l: "last_environ s \<noteq> 0" "blocks (heap s) (last_environ s) = None"
  shows "setenv malloc pick junk s name value replace = None"
proof -
  have i: "before k es = length es" using n(2) before_le [of k es] before_less [of k es] by simp
  show ?thesis
    using good_name [OF n(1)] strlen_name [OF n(1)] strlen_spec [OF x(2,1)] find_entry_spec [OF v(1) name_prefix [OF n(1)], of 0] vec_end [OF v(1)] i x(1) v(2) l
    by (simp add: setenv_def add_to_environ_def append_entry_def vrealloc_def null_def ld_def)
qed

text \<open>C37: \<open>putenv\<close> frees the vector it replaces but does not tell \<open>setenv\<close>, whose \<open>last_environ\<close> still points to it: once \<open>setenv\<close>
  has allocated the vector, a \<open>putenv\<close> succeeds and its entry is found, and the next \<open>setenv\<close> of a new name hands the freed vector to
  \<open>realloc\<close>, which is undefined.\<close>

theorem putenv_then_setenv:
  assumes "ample_cells pick" "env_ok s es" "last_environ s \<noteq> 0" "entry_at (bytes s) strng (k, x)" "length k < 2 ^ 31"
    and "name_at (bytes s) name k'" "k' \<notin> fst ` set es" "k' \<noteq> k" "value \<noteq> 0" "cstr (bytes s) value v"
  shows "\<exists>s1. putenv pick junk s strng = Some (s1, 0) \<and> last_environ s1 = last_environ s \<and> blocks (heap s1) (last_environ s1) = None \<and>
    (\<exists>ps. vec (cells (heap s1)) (bytes s1) (environ s1) ps (without_first k es es @ [(k, x)])) \<and>
    setenv malloc pick junk s1 name value replace = None"
proof -
  have own: "environ s = last_environ s" "\<exists>n. blocks (heap s) (environ s) = Some n \<and> mapped (cells (heap s)) (environ s) n"
    using assms(2,3) by (auto simp: env_ok_def)
  then have e: "environ s \<noteq> 0" "\<And>n. blocks (heap s) (environ s) = Some n \<Longrightarrow> mapped (cells (heap s)) (environ s) n"
    using assms(3) by auto
  obtain s1 ps where s1: "putenv pick junk s strng = Some (s1, 0)" "bytes s1 = bytes s" "last_environ s1 = last_environ s"
    "environ s1 \<noteq> 0" "vec (cells (heap s1)) (bytes s) (environ s1) ps (without_first k es es @ [(k, x)])" "blocks (heap s1) (environ s) = None"
    by (rule putenv_spec [OF assms(1,2,4,5) e])
  have "k' \<notin> fst ` set (without_first k es es @ [(k, x)])" using assms(7,8) set_without_first [of k es es] by auto
  then have "setenv malloc pick junk s1 name value replace = None"
    using s1 own(1) assms(3,6,9,10) by (intro setenv_no_block [where es = "without_first k es es @ [(k, x)]"]) simp_all
  then show ?thesis using s1 own(1) by auto
qed

definition demo_env2 :: env where
  "demo_env2 = \<lparr>heap = \<lparr>cells = [10 \<mapsto> 100, 11 \<mapsto> 0], blocks = [10 \<mapsto> 2]\<rparr>,
    bytes = wr Map.empty 100 [65, 61, 49, 0, 66, 61, 50, 0, 67, 0, 51, 0], environ = 10, last_environ = 10\<rparr>"

lemma putenv_then_setenv_witness:
  "\<exists>s1. putenv (\<lambda>h n. mem_top (cells h)) 7 demo_env2 104 = Some (s1, 0) \<and> last_environ s1 = last_environ demo_env2 \<and>
    blocks (heap s1) (last_environ s1) = None \<and>
    (\<exists>ps. vec (cells (heap s1)) (bytes s1) (environ s1) ps (without_first [66] [([65], [49])] [([65], [49])] @ [([66], [50])])) \<and>
    setenv (\<lambda>m n. (m, 0)) (\<lambda>h n. mem_top (cells h)) 7 s1 108 110 True = None"
proof (rule putenv_then_setenv [OF ample_top(2), where k' = "[67]" and v = "[51]"])
  have "vec (cells (heap demo_env2)) (bytes demo_env2) 10 [100] [([65], [49])]"
    by (simp add: vec_def block_Cons demo_env2_def entry_at_def entry_text_def cstr_def wr_def)
  moreover have "finite (dom (bytes demo_env2))" by (simp add: demo_env2_def finite_wr)
  ultimately show "env_ok demo_env2 [([65], [49])]" by (auto simp: env_ok_def demo_env2_def mapped_def less_Suc_eq numeral_eq_Suc)
qed (simp_all add: demo_env2_def entry_at_def entry_text_def name_at_def cstr_def block_Cons wr_def)

end
