(* ===== verification/Rand.thy ===== *)
theory Rand
  imports CMem Complex_Main "HOL-Library.Signed_Division"
begin

text \<open>
  Pseudo-random numbers: \<open>rand\<close> (\<^verbatim>\<open>stdlib/rand.c\<close>), \<open>rand_r\<close>, the additive generators of \<^verbatim>\<open>random.c\<close> and the linear
  congruential ones of \<^verbatim>\<open>drand48-iter.c\<close> and the files around it; and the numbers in radix 64 of \<^verbatim>\<open>a64l.c\<close> and \<^verbatim>\<open>l64a.c\<close>.
\<close>

section \<open>rand\<close>

text \<open>The seed is a \<open>long\<close>, whose operations here do not overflow: an integer. Division truncates.\<close>

definition srand :: "u32 \<Rightarrow> int" where "srand seed = sint seed"

definition rand :: "int \<Rightarrow> int" where
  "rand lseed =
    (let lseed = 16807 * (lseed smod 127773) - 2836 * (lseed sdiv 127773) in if lseed < 0 then lseed + 2147483647 else lseed)"

definition rand_r :: "u32 \<Rightarrow> u32 \<times> u32" where
  "rand_r seed =
    (let next = seed * 1103515245 + 12345; result = (next div 65536) mod 2048;
         next = next * 1103515245 + 12345; result = push_bit 10 result XOR ((next div 65536) mod 1024);
         next = next * 1103515245 + 12345; result = push_bit 10 result XOR ((next div 65536) mod 1024)
     in (result, next))"

section \<open>random\<close>

text \<open>The state tables are in a memory of \<open>long\<close>s; the pointers into the current one are the variables of the file.\<close>

record rng =
  longs :: "u32 mem"
  fptr :: nat
  rptr :: nat
  state :: nat
  end_ptr :: nat
  rand_type :: nat
  rand_deg :: nat
  rand_sep :: nat

definition degrees :: "nat list" where "degrees = [0, 7, 15, 31, 63]"
definition seps :: "nat list" where "seps = [0, 3, 1, 3, 1]"

definition random :: "rng \<Rightarrow> (u32 \<times> rng) option" where
  "random s =
    (if rand_type s = 0 then
       do { x \<leftarrow> ld (longs s) (state s);
            let i = (x * 1103515245 + 12345) AND 0x7fffffff;
            m \<leftarrow> st (longs s) (state s) i;
            Some (i, s\<lparr>longs := m\<rparr>) }
     else
       do { f \<leftarrow> ld (longs s) (fptr s);
            r \<leftarrow> ld (longs s) (rptr s);
            m \<leftarrow> st (longs s) (fptr s) (f + r);
            let i = signed_drop_bit 1 (f + r) AND 0x7fffffff;
            let s = s\<lparr>longs := m, fptr := fptr s + 1\<rparr>;
            let s = (if fptr s \<ge> end_ptr s then s\<lparr>fptr := state s, rptr := rptr s + 1\<rparr>
                     else let s = s\<lparr>rptr := rptr s + 1\<rparr> in if rptr s \<ge> end_ptr s then s\<lparr>rptr := state s\<rparr> else s);
            Some (i, s) })"

text \<open>\<open>n\<close> entries from \<open>i\<close> on, each from the one before.\<close>

fun fill_state :: "u32 mem \<Rightarrow> nat \<Rightarrow> nat \<Rightarrow> nat \<Rightarrow> u32 mem option" where
  "fill_state m base i 0 = Some m"
| "fill_state m base i (Suc n) =
    do { x \<leftarrow> ld m (base + i - 1); m \<leftarrow> st m (base + i) (1103515245 * x + 12345); fill_state m base (i + 1) n }"

fun cycle :: "nat \<Rightarrow> rng \<Rightarrow> rng option" where
  "cycle 0 s = Some s"
| "cycle (Suc n) s = do { (_, s) \<leftarrow> random s; cycle n s }"

definition srandom :: "u32 \<Rightarrow> rng \<Rightarrow> rng option" where
  "srandom x s =
    (if rand_type s = 0 then do { m \<leftarrow> st (longs s) (state s) x; Some (s\<lparr>longs := m\<rparr>) }
     else do { m \<leftarrow> st (longs s) (state s) x;
               m \<leftarrow> fill_state m (state s) 1 (rand_deg s - 1);
               cycle (10 * rand_deg s) (s\<lparr>longs := m, fptr := state s + rand_sep s, rptr := state s\<rparr>) })"

text \<open>The type and the position of the rear pointer go into the word before the table.\<close>

definition save_type :: "rng \<Rightarrow> rng option" where
  "save_type s =
    do { m \<leftarrow> st (longs s) (state s - 1) (if rand_type s = 0 then 0 else of_nat (5 * (rptr s - state s) + rand_type s));
         Some (s\<lparr>longs := m\<rparr>) }"

definition type_for :: "nat \<Rightarrow> nat" where
  "type_for n = (if n < 32 then 0 else if n < 64 then 1 else if n < 128 then 2 else if n < 256 then 3 else 4)"

text \<open>The old state, or \<open>NULL\<close> when the array is too small.\<close>

definition initstate :: "u32 \<Rightarrow> nat \<Rightarrow> nat \<Rightarrow> rng \<Rightarrow> (nat \<times> rng) option" where
  "initstate seed arg_state n s =
    do { let ostate = state s - 1;
         s \<leftarrow> save_type s;
         if n < 8 then Some (0, s)
         else do {
           let t = type_for n;
           s \<leftarrow> srandom seed (s\<lparr>rand_type := t, rand_deg := degrees ! t, rand_sep := seps ! t, state := arg_state + 1,
                               end_ptr := arg_state + 1 + degrees ! t\<rparr>);
           s \<leftarrow> save_type s;
           Some (ostate, s) } }"

definition setstate :: "nat \<Rightarrow> rng \<Rightarrow> (nat \<times> rng) option" where
  "setstate arg_state s =
    do { w \<leftarrow> ld (longs s) arg_state;
         let ty = sint w smod 5;
         let rear = sint w sdiv 5;
         let ostate = state s - 1;
         s \<leftarrow> save_type s;
         let s = (if 0 \<le> ty then s\<lparr>rand_type := nat ty, rand_deg := degrees ! nat ty, rand_sep := seps ! nat ty\<rparr> else s);
         let s = s\<lparr>state := arg_state + 1\<rparr>;
         let s = (if rand_type s \<noteq> 0
                  then s\<lparr>rptr := nat (int (state s) + rear), fptr := nat (int (state s) + (rear + int (rand_sep s)) smod int (rand_deg s))\<rparr>
                  else s);
         Some (ostate, s\<lparr>end_ptr := state s + rand_deg s\<rparr>) }"

text \<open>The initial table, at the address \<open>p\<close> of \<open>randtbl\<close>.\<close>

definition randtbl :: "u32 list" where
  "randtbl = 3 #
    [0x9a319039, 0x32d9c024, 0x9b663182, 0x5da1f342, 0xde3b81e0, 0xdf0a6fb5, 0xf103bc02,
     0x48f340fb, 0x7449e56b, 0xbeb1dbb0, 0xab5c5918, 0x946554fd, 0x8c2e680f, 0xeb3d799f,
     0xb11ee0b7, 0x2d436b86, 0xda672e2a, 0x1588ca88, 0xe369735d, 0x904f35f7, 0xd7158fd6,
     0x6fa6f051, 0x616e6b96, 0xac94efdc, 0x36413f93, 0xc622c298, 0xf5a42ab8, 0x8a88d77b,
     0xf5ad9d0e, 0x8999220b, 0x27fb47b9]"

definition initial_rng :: "nat \<Rightarrow> rng" where
  "initial_rng p = \<lparr>longs = wr Map.empty p randtbl, fptr = p + 4, rptr = p + 1, state = p + 1, end_ptr = p + 32,
    rand_type = 3, rand_deg = 31, rand_sep = 3\<rparr>"

section \<open>drand48\<close>

type_synonym u16 = "16 word"
type_synonym three = "u16 \<times> u16 \<times> u16"

record drand48_data =
  x48 :: three
  a48 :: three
  c48 :: u16
  old_x :: three
  init48 :: bool

definition drand48_iterate :: "three \<Rightarrow> drand48_data \<Rightarrow> three \<times> drand48_data" where
  "drand48_iterate xsubi buffer =
    (let buffer = (if \<not> init48 buffer then buffer\<lparr>a48 := (0xe66d, 0xdeec, 0x5), c48 := 0xb, init48 := True\<rparr> else buffer);
         (x0, x1, x2) = xsubi; (a0, a1, a2) = a48 buffer;
         X = push_bit 32 (ucast x2) OR push_bit 16 (ucast x1) OR ucast x0 :: u64;
         a = push_bit 32 (ucast a2) OR push_bit 16 (ucast a1) OR ucast a0 :: u64;
         result = X * a + ucast (c48 buffer)
     in ((ucast result, ucast (drop_bit 16 result), ucast (drop_bit 32 result)), buffer))"

text \<open>The fraction of the number is put together from its fields; the value of a \<open>double\<close> with the exponent of 1 is \<open>1 + mantissa / 2 ^ 52\<close>.\<close>

definition erand48_r :: "three \<Rightarrow> drand48_data \<Rightarrow> three \<times> drand48_data \<times> rat" where
  "erand48_r xsubi buffer =
    (let (xsubi, buffer) = drand48_iterate xsubi buffer; (x0, x1, x2) = xsubi;
         mantissa0 = push_bit 4 (ucast x2) OR ucast (drop_bit 12 x1) :: u32;
         mantissa1 = push_bit 20 (ucast (x1 AND 0xfff)) OR push_bit 4 (ucast x0) :: u32
     in (xsubi, buffer, 1 + of_nat (unat mantissa0 * 2 ^ 32 + unat mantissa1) / 2 ^ 52 - 1))"

definition nrand48_r :: "three \<Rightarrow> drand48_data \<Rightarrow> three \<times> drand48_data \<times> int" where
  "nrand48_r xsubi buffer =
    (let (xsubi, buffer) = drand48_iterate xsubi buffer; (x0, x1, x2) = xsubi
     in (xsubi, buffer, sint (push_bit 15 (ucast x2) OR ucast (drop_bit 1 x1) :: u32)))"

definition jrand48_r :: "three \<Rightarrow> drand48_data \<Rightarrow> three \<times> drand48_data \<times> int" where
  "jrand48_r xsubi buffer =
    (let (xsubi, buffer) = drand48_iterate xsubi buffer; (x0, x1, x2) = xsubi;
         result = sint (push_bit 16 (ucast (x2 AND 0x7fff)) OR ucast x1 :: u32)
     in (xsubi, buffer, if x2 AND 0x8000 \<noteq> 0 then result * -1 else result))"

text \<open>The functions without an argument use the sequence in the buffer.\<close>

definition drand48 :: "drand48_data \<Rightarrow> drand48_data \<times> rat" where
  "drand48 buffer = (let (x, b, r) = erand48_r (x48 buffer) buffer in (b\<lparr>x48 := x\<rparr>, r))"

definition lrand48 :: "drand48_data \<Rightarrow> drand48_data \<times> int" where
  "lrand48 buffer = (let (x, b, r) = nrand48_r (x48 buffer) buffer in (b\<lparr>x48 := x\<rparr>, r))"

definition mrand48 :: "drand48_data \<Rightarrow> drand48_data \<times> int" where
  "mrand48 buffer = (let (x, b, r) = jrand48_r (x48 buffer) buffer in (b\<lparr>x48 := x\<rparr>, r))"

definition srand48_r :: "u32 \<Rightarrow> drand48_data \<Rightarrow> drand48_data" where
  "srand48_r seedval buffer =
    buffer\<lparr>x48 := (0x330e, ucast seedval, ucast (signed_drop_bit 16 seedval)), a48 := (0xe66d, 0xdeec, 0x5), c48 := 0xb, init48 := True\<rparr>"

definition seed48_r :: "three \<Rightarrow> drand48_data \<Rightarrow> drand48_data" where
  "seed48_r seed16v buffer =
    buffer\<lparr>old_x := x48 buffer, x48 := seed16v, a48 := (0xe66d, 0xdeec, 0x5), c48 := 0xb, init48 := True\<rparr>"

definition lcong48_r :: "three \<Rightarrow> three \<Rightarrow> u16 \<Rightarrow> drand48_data \<Rightarrow> drand48_data" where
  "lcong48_r px pa pc buffer = buffer\<lparr>x48 := px, a48 := pa, c48 := pc, init48 := True\<rparr>"

section \<open>Radix 64\<close>

text \<open>A \<open>char\<close> is signed; errors are -1, and 127 for a digit.\<close>

definition a64i :: "byte \<Rightarrow> int" where
  "a64i c =
    (if sint c < 46 \<or> sint c > 122 then -1
     else let r = sint c - 46; r = (if sint c > 57 then r - 7 else r); r = (if sint c > 90 then r - 6 else r)
       in if r > 63 then -1 else r)"

fun a64l_loop :: "bmem \<Rightarrow> nat \<Rightarrow> nat \<Rightarrow> u32 \<Rightarrow> u32 option" where
  "a64l_loop m ptr 0 retval = Some retval"
| "a64l_loop m ptr (Suc n) retval =
    do { c \<leftarrow> ld m ptr;
         if c = 0 then Some retval
         else if a64i c = -1 then Some (-1)
         else a64l_loop m (ptr + 1) n (push_bit 6 retval + of_int (a64i c)) }"

definition a64l :: "bmem \<Rightarrow> nat \<Rightarrow> u32 option" where "a64l m s = a64l_loop m s 6 0"

definition i64a :: "int \<Rightarrow> byte" where
  "i64a i =
    (if i < 0 \<or> i > 63 then 127
     else let r = i + 46; r = (if i > 11 then r + 7 else r); r = (if i > 37 then r + 6 else r) in of_int r)"

text \<open>The digits, the last one first; \<open>None\<close> is the error of \<open>i64a\<close>.\<close>

fun l64a_digits :: "nat \<Rightarrow> u32 \<Rightarrow> byte list option" where
  "l64a_digits 0 l = Some []"
| "l64a_digits (Suc n) l =
    (if sint l > 0 then
       (let v = i64a (sint (ucast (l AND 0x3f) :: byte)) in
        if v = 127 then None else do { ds \<leftarrow> l64a_digits n (signed_drop_bit 6 l); Some (v # ds) })
     else Some [])"

text \<open>\<open>empty_str\<close> is the address of the empty string, \<open>retval\<close> that of the static buffer.\<close>

definition l64a :: "nat \<Rightarrow> nat \<Rightarrow> bmem \<Rightarrow> u32 \<Rightarrow> (bmem \<times> nat) option" where
  "l64a empty_str retval m l =
    (if sint l \<le> 0 then Some (m, empty_str)
     else case l64a_digits 6 l of
       None \<Rightarrow> Some (m, empty_str)
     | Some ds \<Rightarrow> if mapped m retval (length ds + 1) then Some (wr m retval (rev ds @ [0]), retval) else None)"

end
