(* ===== verification/RandProps.thy ===== *)
theory RandProps
  imports Rand
begin

text \<open>
  \<open>rand\<close> is multiplication modulo a prime; \<open>random\<close> keeps its state well-formed, and \<open>setstate\<close> resumes a sequence where it
  was left.
\<close>

section \<open>rand\<close>

lemma rand_step:
  assumes "0 < s" "s < 2147483647"
  shows "rand s = 16807 * s mod 2147483647" "0 < rand s" "rand s < 2147483647"
proof -
  let ?q = "s div 127773" and ?r = "s mod 127773"
  have q: "s sdiv 127773 = ?q" "s smod 127773 = ?r" using assms(1) by (simp_all add: signed_divide_int_def signed_modulo_int_def)
  have s: "s = 127773 * ?q + ?r" by simp
  have b: "0 \<le> ?q" "?q \<le> 16807" "0 \<le> ?r" "?r < 127773" using assms by simp_all
  define x where "x = 16807 * ?r - 2836 * ?q"
  have x: "16807 * s = x + ?q * 2147483647" using s unfolding x_def by linarith
  have lim: "- 2147483647 < x" "x < 2147483647" using b unfolding x_def by linarith+
  have r: "rand s = (if x < 0 then x + 2147483647 else x)" by (simp add: rand_def q x_def)
  have m: "16807 * s mod 2147483647 = x mod 2147483647" using x by simp
  show eq: "rand s = 16807 * s mod 2147483647"
  proof (cases "x < 0")
    case True
    have "x mod 2147483647 = (x + 2147483647) mod 2147483647" by (rule mod_add_self2 [symmetric])
    also have "\<dots> = x + 2147483647" using True lim by (intro mod_pos_pos_trivial) linarith+
    finally show ?thesis using True unfolding m r by simp
  next
    case False
    then have "x mod 2147483647 = x" using lim by (intro mod_pos_pos_trivial) linarith+
    then show ?thesis using False unfolding m r by simp
  qed
  show "rand s < 2147483647" unfolding eq by simp
  have "16807 * s mod 2147483647 \<noteq> 0"
  proof
    assume "16807 * s mod 2147483647 = 0"
    then have "2147483647 dvd 16807 * s" by (rule mod_0_imp_dvd)
    then obtain k where "16807 * s = 2147483647 * k" by (rule dvdE)
    then have "1407677000 * (16807 * s) = 1407677000 * (2147483647 * k)" by (rule arg_cong)
    then have "s = 2147483647 * (1407677000 * k - 11017 * s)" by (simp add: right_diff_distrib)
    then have "2147483647 dvd s" by (metis dvd_triv_left)
    then show False using assms by (auto dest: zdvd_imp_le)
  qed
  then show "0 < rand s" unfolding eq by (simp add: less_le)
qed

text \<open>From a seed between 1 and \<open>2 ^ 31 - 2\<close> the values of \<open>rand\<close> are the seed times the powers of 16807 modulo the prime
  \<open>2 ^ 31 - 1\<close>, although the product does not fit into a \<open>long\<close>; the seed never leaves the range, and so never becomes 0, where it would stay.\<close>

theorem rand_lehmer:
  assumes "0 < s" "s < 2147483647"
  shows "(rand ^^ n) s = 16807 ^ n * s mod 2147483647 \<and> 0 < (rand ^^ n) s \<and> (rand ^^ n) s < 2147483647 \<and> rand 0 = 0"
proof (induction n)
  case 0
  then show ?case using assms by (simp add: rand_def)
next
  case (Suc n)
  then have "rand ((rand ^^ n) s) = 16807 * ((rand ^^ n) s) mod 2147483647" "0 < rand ((rand ^^ n) s)" "rand ((rand ^^ n) s) < 2147483647"
    using rand_step by blast+
  then show ?case using Suc by (simp add: mod_mult_right_eq mult.assoc)
qed

lemma rand_lehmer_witness: "(rand ^^ 3) 1 = 16807 ^ 3 * 1 mod 2147483647 \<and> 0 < (rand ^^ 3) 1 \<and> (rand ^^ 3) 1 < 2147483647 \<and> rand 0 = 0"
  by (rule rand_lehmer) simp_all

section \<open>random\<close>

text \<open>The words of a table with its header, for a type.\<close>

definition words :: "nat \<Rightarrow> nat" where "words t = max 2 (Suc (degrees ! t))"

definition rng_ok :: "rng \<Rightarrow> bool" where
  "rng_ok s \<longleftrightarrow> rand_type s \<le> 4 \<and> rand_deg s = degrees ! rand_type s \<and> rand_sep s = seps ! rand_type s \<and> 1 \<le> state s \<and>
    end_ptr s = state s + rand_deg s \<and> mapped (longs s) (state s - 1) (words (rand_type s)) \<and>
    (rand_type s \<noteq> 0 \<longrightarrow> (\<exists>r. rptr s = state s + r \<and> r < rand_deg s \<and> fptr s = state s + (r + rand_sep s) mod rand_deg s))"

text \<open>Two generators with the same table and pointers; the memory around may differ.\<close>

definition same_table :: "rng \<Rightarrow> rng \<Rightarrow> bool" where
  "same_table s t \<longleftrightarrow> state t = state s \<and> end_ptr t = end_ptr s \<and> rand_type t = rand_type s \<and> rand_deg t = rand_deg s \<and>
    rand_sep t = rand_sep s \<and> (rand_type s \<noteq> 0 \<longrightarrow> fptr t = fptr s \<and> rptr t = rptr s) \<and>
    (\<forall>a. state s \<le> a \<and> a < state s - 1 + words (rand_type s) \<longrightarrow> longs t a = longs s a)"

lemma types: "t \<le> 4 \<Longrightarrow> t = 0 \<or> t = 1 \<or> t = 2 \<or> t = 3 \<or> t = (4 :: nat)"
  by presburger

lemma type_table:
  assumes "t \<le> 4"
  shows "t \<noteq> 0 \<Longrightarrow> 0 < seps ! t" "t \<noteq> 0 \<Longrightarrow> seps ! t < degrees ! t" "degrees ! t \<le> 63" "t = 0 \<Longrightarrow> degrees ! t = 0 \<and> seps ! t = 0"
  using types [OF assms] by (auto simp: degrees_def seps_def)

definition table_at :: "rng \<Rightarrow> nat \<Rightarrow> bool" where
  "table_at s a \<longleftrightarrow> state s \<le> a \<and> a < state s - 1 + words (rand_type s)"

lemma rng_mapped: "rng_ok s \<Longrightarrow> state s - 1 \<le> a \<Longrightarrow> a < state s - 1 + words (rand_type s) \<Longrightarrow> longs s a \<noteq> None"
  unfolding rng_ok_def mapped_def by (metis le_add_diff_inverse nat_add_left_cancel_less)

lemma rng_at: "rng_ok s \<Longrightarrow> table_at s a \<Longrightarrow> \<exists>x. longs s a = Some x"
  using rng_mapped [of s a] by (auto simp: table_at_def)

lemma advance:
  assumes "r < d" "0 < p" "p < (d :: nat)"
  shows "(if Suc ((r + p) mod d) \<ge> d then (0, Suc r) else (Suc ((r + p) mod d), if Suc r \<ge> d then 0 else Suc r)) =
    ((Suc r mod d + p) mod d, Suc r mod d)"
proof (cases "r + p < d")
  case True
  then show ?thesis using assms by (cases "Suc (r + p) = d") auto
next
  case False
  then have "(r + p) mod d = r + p - d" using assms by (simp add: le_mod_geq)
  moreover have "(Suc r mod d + p) mod d = Suc (r + p - d)"
  proof (cases "Suc r = d")
    case True
    then show ?thesis using False assms by auto
  next
    case n: False
    then have "Suc r mod d = Suc r" using assms by simp
    moreover have "(Suc r + p) mod d = Suc r + p - d" using False assms n by (simp add: le_mod_geq)
    ultimately show ?thesis using False by simp
  qed
  moreover have "Suc r mod d = (if d \<le> Suc r then 0 else Suc r)" using assms by (cases "Suc r = d") auto
  ultimately show ?thesis using assms False by auto
qed

text \<open>One step: a number of 31 bits, a well-formed state, the same in every memory that holds the same table.\<close>

lemma random_spec:
  assumes "rng_ok s"
  obtains i m f r where "random s = Some (i, s\<lparr>longs := m, fptr := f, rptr := r\<rparr>)" "rng_ok (s\<lparr>longs := m, fptr := f, rptr := r\<rparr>)"
    "unat i < 2 ^ 31" "\<forall>a. \<not> table_at s a \<longrightarrow> m a = longs s a"
proof -
  have low: "unat (x AND 0x7fffffff) < 2 ^ 31" for x :: u32
  proof -
    have "x AND 0x7fffffff = take_bit 31 x" by (simp add: take_bit_eq_mask mask_eq_exp_minus_1)
    then show ?thesis using take_bit_nat_less_exp [of 31 "unat x"] by (simp add: unsigned_take_bit_eq)
  qed
  show thesis
  proof (cases "rand_type s = 0")
    case True
    have at: "table_at s (state s)" using assms by (simp add: table_at_def rng_ok_def words_def)
    obtain x where x: "longs s (state s) = Some x" using rng_at [OF assms at] by blast
    define i :: u32 where "i = (x * 1103515245 + 12345) AND 0x7fffffff"
    have s: "s\<lparr>longs := (longs s)(state s \<mapsto> i), fptr := fptr s, rptr := rptr s\<rparr> = s\<lparr>longs := (longs s)(state s \<mapsto> i)\<rparr>" by simp
    have "random s = Some (i, s\<lparr>longs := (longs s)(state s \<mapsto> i)\<rparr>)" using True x by (simp add: random_def ld_def st_def i_def Let_def)
    moreover have "rng_ok (s\<lparr>longs := (longs s)(state s \<mapsto> i)\<rparr>)" using assms True by (simp add: rng_ok_def)
    moreover have "\<forall>a. \<not> table_at s a \<longrightarrow> ((longs s)(state s \<mapsto> i)) a = longs s a" using at by auto
    ultimately show thesis using that [of i "rptr s" "fptr s" "(longs s)(state s \<mapsto> i)"] low unfolding s unfolding i_def by blast
  next
    case False
    let ?d = "rand_deg s" and ?p = "rand_sep s"
    have d: "0 < ?p" "?p < ?d" "words (rand_type s) = Suc ?d" using assms type_table [of "rand_type s"] False by (auto simp: rng_ok_def words_def)
    obtain r where r: "rptr s = state s + r" "r < ?d" "fptr s = state s + (r + ?p) mod ?d" using assms False by (auto simp: rng_ok_def)
    have st1: "1 \<le> state s" "end_ptr s = state s + ?d" using assms by (simp_all add: rng_ok_def)
    have md: "(r + ?p) mod ?d < ?d" using d by simp
    have at: "table_at s (fptr s)" "table_at s (rptr s)" using r md d st1 by (simp_all add: table_at_def)
    obtain x y where x: "longs s (fptr s) = Some x" "longs s (rptr s) = Some y"
      using rng_at [OF assms at(1)] rng_at [OF assms at(2)] by blast
    let ?m = "(longs s)(fptr s \<mapsto> x + y)" and ?r = "Suc r mod ?d"
    let ?s = "s\<lparr>longs := ?m, fptr := state s + (?r + ?p) mod ?d, rptr := state s + ?r\<rparr>"
    define i where "i = signed_drop_bit 1 (x + y) AND 0x7fffffff"
    have eq: "random s = Some (i, ?s)"
      using False x advance [OF r(2) d(1,2)] unfolding i_def
      by (auto simp: random_def ld_def st_def r st1 Let_def split: if_splits)
    have ok: "rng_ok ?s" using assms d(1,2) by (simp add: rng_ok_def)
    have "\<forall>a. \<not> table_at s a \<longrightarrow> ?m a = longs s a" using at(1) by auto
    then show thesis using that eq ok low unfolding i_def by blast
  qed
qed

lemma random_same:
  assumes "rng_ok s" "rng_ok t" "same_table s t" "random s = Some (i, s')"
  obtains t' where "random t = Some (i, t')" "same_table s' t'"
proof -
  have eq: "rand_type s \<noteq> 0 \<Longrightarrow> fptr t = fptr s \<and> rptr t = rptr s" "state t = state s" "end_ptr t = end_ptr s" "rand_type t = rand_type s" "rand_deg t = rand_deg s"
    "rand_sep t = rand_sep s" and mem: "\<And>a. table_at s a \<Longrightarrow> longs t a = longs s a"
    using assms(3) by (auto simp: same_table_def table_at_def)
  show thesis
  proof (cases "rand_type s = 0")
    case True
    have at: "table_at s (state s)" using assms(1) by (simp add: table_at_def rng_ok_def words_def)
    obtain x where x: "longs s (state s) = Some x" using rng_at [OF assms(1) at] by blast
    then show thesis
      using that assms(3,4) True mem [OF at] eq by (auto simp: random_def ld_def st_def Let_def same_table_def)
  next
    case False
    have at: "table_at s (fptr s)" "table_at s (rptr s)" 
      using assms(1) False type_table(2) [of "rand_type s"] by (auto simp: table_at_def rng_ok_def words_def)
    obtain x y where x: "longs s (fptr s) = Some x" "longs s (rptr s) = Some y"
      using rng_at [OF assms(1) at(1)] rng_at [OF assms(1) at(2)] by blast
    then show thesis
      using that assms(3,4) False mem [OF at(1)] mem [OF at(2)] eq
      by (auto simp: random_def ld_def st_def Let_def same_table_def split: if_splits)
  qed
qed

fun numbers :: "nat \<Rightarrow> rng \<Rightarrow> (u32 list \<times> rng) option" where
  "numbers 0 s = Some ([], s)"
| "numbers (Suc n) s = do { (i, s) \<leftarrow> random s; (xs, s) \<leftarrow> numbers n s; Some (i # xs, s) }"

lemma numbers_same:
  assumes "rng_ok s" "rng_ok t" "same_table s t"
  shows "\<exists>xs s' t'. numbers n s = Some (xs, s') \<and> numbers n t = Some (xs, t') \<and> length xs = n \<and> list_all (\<lambda>x. unat x < 2 ^ 31) xs"
  using assms
proof (induction n arbitrary: s t)
  case (Suc n)
  obtain i m f r where 1: "random s = Some (i, s\<lparr>longs := m, fptr := f, rptr := r\<rparr>)" "rng_ok (s\<lparr>longs := m, fptr := f, rptr := r\<rparr>)"
    "unat i < 2 ^ 31" by (rule random_spec [OF Suc.prems(1)])
  obtain t' where 2: "random t = Some (i, t')" "same_table (s\<lparr>longs := m, fptr := f, rptr := r\<rparr>) t'"
    by (rule random_same [OF Suc.prems 1(1)])
  have "rng_ok t'" using random_spec [OF Suc.prems(2)] 2(1) by force
  from Suc.IH [OF 1(2) this 2(2)] show ?case using 1 2 by auto
qed simp

lemma cycle_spec:
  "rng_ok s \<Longrightarrow> \<exists>m f r. cycle k s = Some (s\<lparr>longs := m, fptr := f, rptr := r\<rparr>) \<and> rng_ok (s\<lparr>longs := m, fptr := f, rptr := r\<rparr>) \<and>
    (\<forall>a. \<not> table_at s a \<longrightarrow> m a = longs s a)"
proof (induction k arbitrary: s)
  case 0
  have "s = s\<lparr>longs := longs s, fptr := fptr s, rptr := rptr s\<rparr>" by simp
  then show ?case using 0 by (metis cycle.simps(1))
next
  case (Suc k)
  obtain i m f r where 1: "random s = Some (i, s\<lparr>longs := m, fptr := f, rptr := r\<rparr>)" "rng_ok (s\<lparr>longs := m, fptr := f, rptr := r\<rparr>)"
    "\<forall>a. \<not> table_at s a \<longrightarrow> m a = longs s a" by (rule random_spec [OF Suc.prems])
  from Suc.IH [OF 1(2)] obtain m2 f2 r2 where
    2: "cycle k (s\<lparr>longs := m, fptr := f, rptr := r\<rparr>) = Some (s\<lparr>longs := m2, fptr := f2, rptr := r2\<rparr>)"
    "rng_ok (s\<lparr>longs := m2, fptr := f2, rptr := r2\<rparr>)" "\<forall>a. \<not> table_at s a \<longrightarrow> m2 a = m a" by (auto simp: table_at_def)
  then show ?case using 1(1,3) by (intro exI [of _ m2] exI [of _ f2] exI [of _ r2]) simp
qed

section \<open>Tables\<close>

text \<open>A table that \<open>setstate\<close> can take up: a valid header, and as many words as its type needs.\<close>

definition rng_table_ok :: "u32 mem \<Rightarrow> nat \<Rightarrow> nat \<Rightarrow> nat \<Rightarrow> bool" where
  "rng_table_ok m b t r \<longleftrightarrow> t \<le> 4 \<and> (t \<noteq> 0 \<longrightarrow> r < degrees ! t) \<and> mapped m b (words t) \<and> (\<exists>w. m b = Some w \<and> sint w = 5 * int r + int t)"

lemma sint_small: "n < 2 ^ 31 \<Longrightarrow> sint (of_nat n :: u32) = int n"
proof -
  assume n: "n < 2 ^ 31"
  have "- (2 ^ (LENGTH(32) - 1)) \<le> int n" "int n < 2 ^ (LENGTH(32) - 1)" using n by simp_all
  then have "signed_take_bit (LENGTH(32) - 1) (int n) = int n" using signed_take_bit_int_eq_self by blast
  moreover have "uint (of_nat n :: u32) = int n" using n by (simp add: unsigned_of_nat take_bit_nat_eq_self)
  ultimately show ?thesis unfolding sint_uint by (simp only: One_nat_def)
qed

text \<open>\<open>save_type\<close> writes a header from which the table can be taken up where it is.\<close>

lemma save_type_spec:
  assumes "rng_ok s"
  obtains w r where "save_type s = Some (s\<lparr>longs := (longs s)(state s - 1 \<mapsto> w)\<rparr>)" "sint w = 5 * int r + int (rand_type s)"
    "rand_type s \<noteq> 0 \<Longrightarrow> rptr s = state s + r \<and> r < rand_deg s \<and> fptr s = state s + (r + rand_sep s) mod rand_deg s"
proof -
  have m: "longs s (state s - 1) \<noteq> None" using rng_mapped [OF assms, of "state s - 1"] by (simp add: words_def)
  show thesis
  proof (cases "rand_type s = 0")
    case True
    then have "save_type s = Some (s\<lparr>longs := (longs s)(state s - 1 \<mapsto> 0)\<rparr>)" using m by (auto simp: save_type_def st_def)
    then show thesis using that [of 0 0] True by simp
  next
    case False
    then obtain r where r: "rptr s = state s + r" "r < rand_deg s" "fptr s = state s + (r + rand_sep s) mod rand_deg s"
      using assms by (auto simp: rng_ok_def)
    have t: "rand_type s \<le> 4" "rand_deg s \<le> 63" using assms type_table(3) by (auto simp: rng_ok_def)
    then have "sint (of_nat (5 * r + rand_type s) :: u32) = int (5 * r + rand_type s)" using r(2) by (intro sint_small) simp
    moreover have "save_type s = Some (s\<lparr>longs := (longs s)(state s - 1 \<mapsto> of_nat (5 * r + rand_type s))\<rparr>)"
      using False m r(1) by (auto simp: save_type_def st_def)
    ultimately show thesis using that r by simp
  qed
qed

text \<open>Taking up a table elsewhere.\<close>

lemma setstate_spec:
  assumes ok: "rng_ok s" and tb: "rng_table_ok (longs s) b t r"
  obtains w u f g where
    "setstate b s = Some (state s - 1, s\<lparr>longs := (longs s)(state s - 1 \<mapsto> w), fptr := f, rptr := g, state := b + 1, end_ptr := b + 1 + degrees ! t,
        rand_type := t, rand_deg := degrees ! t, rand_sep := seps ! t\<rparr>)"
    "sint w = 5 * int u + int (rand_type s)"
    "rand_type s \<noteq> 0 \<longrightarrow> rptr s = state s + u \<and> u < rand_deg s \<and> fptr s = state s + (u + rand_sep s) mod rand_deg s"
    "t \<noteq> 0 \<longrightarrow> g = b + 1 + r \<and> f = b + 1 + (r + seps ! t) mod degrees ! t"
proof -
  obtain v where v: "longs s b = Some v" "sint v = 5 * int r + int t" and t: "t \<le> 4" "t \<noteq> 0 \<Longrightarrow> r < degrees ! t"
    using tb by (auto simp: rng_table_ok_def)
  have dec: "sint v smod 5 = int t" "sint v sdiv 5 = int r"
    using v(2) t(1) by (auto simp: signed_divide_int_def signed_modulo_int_def sgn_if)
  obtain w u where w: "save_type s = Some (s\<lparr>longs := (longs s)(state s - 1 \<mapsto> w)\<rparr>)" "sint w = 5 * int u + int (rand_type s)"
    "rand_type s \<noteq> 0 \<Longrightarrow> rptr s = state s + u \<and> u < rand_deg s \<and> fptr s = state s + (u + rand_sep s) mod rand_deg s"
    using save_type_spec [OF ok] by metis
  show thesis
  proof (cases "t = 0")
    case True
    then have "setstate b s = Some (state s - 1, s\<lparr>longs := (longs s)(state s - 1 \<mapsto> w), fptr := fptr s, rptr := rptr s, state := b + 1,
        end_ptr := b + 1 + degrees ! t, rand_type := t, rand_deg := degrees ! t, rand_sep := seps ! t\<rparr>)"
      using v(1) dec w(1) by (simp add: setstate_def ld_def Let_def)
    then show thesis using that w(2,3) True by blast
  next
    case False
    have "nat (int (b + 1) + (int r + int (seps ! t)) smod int (degrees ! t)) = b + 1 + (r + seps ! t) mod degrees ! t"
    proof -
      have "(int r + int (seps ! t)) smod int (degrees ! t) = int ((r + seps ! t) mod degrees ! t)"
        by (simp add: signed_modulo_int_def sgn_if zmod_int)
      then show ?thesis by simp
    qed
    moreover have "nat (int (b + 1) + int r) = b + 1 + r" by simp
    ultimately have "setstate b s = Some (state s - 1, s\<lparr>longs := (longs s)(state s - 1 \<mapsto> w), fptr := b + 1 + (r + seps ! t) mod degrees ! t, rptr := b + 1 + r,
        state := b + 1, end_ptr := b + 1 + degrees ! t, rand_type := t, rand_deg := degrees ! t, rand_sep := seps ! t\<rparr>)"
      using v(1) dec w(1) False by (simp add: setstate_def ld_def Let_def)
    then show thesis using that w(2,3) by blast
  qed
qed

lemma setstate_ok:
  assumes "rng_ok s" "rng_table_ok (longs s) b t r" "t \<noteq> 0 \<longrightarrow> g = b + 1 + r \<and> f = b + 1 + (r + seps ! t) mod degrees ! t"
  shows "rng_ok (s\<lparr>longs := (longs s)(state s - 1 \<mapsto> w), fptr := f, rptr := g, state := b + 1, end_ptr := b + 1 + degrees ! t,
    rand_type := t, rand_deg := degrees ! t, rand_sep := seps ! t\<rparr>)"
  using assms by (auto simp: rng_ok_def rng_table_ok_def)

lemma rng_ok_upd: "rng_ok s \<Longrightarrow> rng_ok (s\<lparr>longs := (longs s)(a \<mapsto> v)\<rparr>)"
  by (auto simp: rng_ok_def)

lemma fill_state_spec:
  "mapped m (base + i - 1) (Suc n) \<Longrightarrow> 1 \<le> i \<Longrightarrow> \<exists>m'. fill_state m base i n = Some m' \<and> (\<forall>a. m a \<noteq> None \<longrightarrow> m' a \<noteq> None)"
proof (induction n arbitrary: m i)
  case (Suc n)
  have c: "m (base + i - 1) \<noteq> None" "m (base + i) \<noteq> None"
    using mapped_nth [OF Suc.prems(1), of 0] mapped_nth [OF Suc.prems(1), of 1] Suc.prems(2) by simp_all
  then obtain x where x: "m (base + i - 1) = Some x" by auto
  let ?m = "m(base + i \<mapsto> 1103515245 * x + 12345)"
  have "Suc (base + i - 1) = base + (i + 1) - 1" using Suc.prems(2) by simp
  then have "mapped m (base + (i + 1) - 1) (Suc n)" using Suc.prems(1) mapped_Suc [of m "base + i - 1" "Suc n"] by simp
  then have "mapped ?m (base + (i + 1) - 1) (Suc n)" by simp
  from Suc.IH [OF this le_add2] obtain m' where m': "fill_state ?m base (i + 1) n = Some m'" "\<forall>a. ?m a \<noteq> None \<longrightarrow> m' a \<noteq> None" by blast
  have "st m (base + i) (1103515245 * x + 12345) = Some ?m" using c(2) by (auto simp: st_def)
  moreover have "\<forall>a. m a \<noteq> None \<longrightarrow> m' a \<noteq> None" using m'(2) by auto
  ultimately show ?case using x m'(1) by (simp add: ld_def)
qed auto

lemma srandom_spec:
  assumes "rand_type s \<le> 4" "rand_deg s = degrees ! rand_type s" "rand_sep s = seps ! rand_type s" "1 \<le> state s"
    and "end_ptr s = state s + rand_deg s" "mapped (longs s) (state s - 1) (words (rand_type s))"
  obtains s' where "srandom x s = Some s'" "rng_ok s'" "state s' = state s" "rand_type s' = rand_type s"
proof -
  have m: "longs s (state s) \<noteq> None" using mapped_nth [OF assms(6), of 1] assms(4) by (simp add: words_def)
  let ?m = "(longs s)(state s \<mapsto> x)"
  have mm: "mapped ?m (state s - 1) (words (rand_type s))" using assms(6) by simp
  show thesis
  proof (cases "rand_type s = 0")
    case True
    then show thesis using that [of "s\<lparr>longs := ?m\<rparr>"] assms mm m by (auto simp: srandom_def st_def rng_ok_def)
  next
    case False
    have d: "0 < rand_sep s" "rand_sep s < rand_deg s" using type_table [OF assms(1)] False assms(2,3) by simp_all
    then have w: "words (rand_type s) = Suc (Suc (rand_deg s - 1))" using assms(2) by (simp add: words_def)
    have "mapped ?m (state s + 1 - 1) (Suc (rand_deg s - 1))"
      using mm assms(4) unfolding w by (simp only: mapped_Suc [of _ "state s - 1"]) simp
    then obtain m' where m': "fill_state ?m (state s) 1 (rand_deg s - 1) = Some m'" "\<forall>a. ?m a \<noteq> None \<longrightarrow> m' a \<noteq> None"
      using fill_state_spec [of ?m "state s" 1] by blast
    let ?s = "s\<lparr>longs := m', fptr := state s + rand_sep s, rptr := state s\<rparr>"
    have "mapped m' (state s - 1) (words (rand_type s))" using mm m'(2) by (simp add: mapped_def)
    then have "rng_ok ?s" using assms d by (simp add: rng_ok_def)
    from cycle_spec [OF this, of "10 * rand_deg s"] show thesis
      using that False m m'(1) by (auto simp: srandom_def st_def)
  qed
qed

lemma words_fit: "8 \<le> n \<Longrightarrow> words (type_for n) \<le> n div 4"
  by (auto simp: type_for_def words_def degrees_def)

lemma initstate_spec:
  assumes ok: "rng_ok s" and m: "mapped (longs s) a (n div 4)" and n: "8 \<le> n"
  obtains s' where "initstate seed a n s = Some (state s - 1, s')" "rng_ok s'" "state s' = a + 1" "rand_type s' = type_for n"
proof -
  obtain w u where w: "save_type s = Some (s\<lparr>longs := (longs s)(state s - 1 \<mapsto> w)\<rparr>)" using save_type_spec [OF ok] by metis
  let ?t = "type_for n"
  let ?s = "s\<lparr>longs := (longs s)(state s - 1 \<mapsto> w), rand_type := ?t, rand_deg := degrees ! ?t, rand_sep := seps ! ?t, state := a + 1,
    end_ptr := a + 1 + degrees ! ?t\<rparr>"
  have "mapped (longs ?s) (state ?s - 1) (words (rand_type ?s))" using mapped_le [OF m words_fit [OF n]] by simp
  moreover have "?t \<le> 4" by (simp add: type_for_def)
  ultimately obtain s1 where s1: "srandom seed ?s = Some s1" "rng_ok s1" "state s1 = state ?s" "rand_type s1 = rand_type ?s"
    by - (rule srandom_spec [of ?s seed], simp_all)
  obtain v where v: "save_type s1 = Some (s1\<lparr>longs := (longs s1)(state s1 - 1 \<mapsto> v)\<rparr>)" using save_type_spec [OF s1(2)] by metis
  have "rng_ok (s1\<lparr>longs := (longs s1)(state s1 - 1 \<mapsto> v)\<rparr>)" using s1(2) by (rule rng_ok_upd)
  then show thesis using that w v s1 n by (simp add: initstate_def Let_def)
qed

text \<open>The calls a program makes, with arrays that are large enough and hold a table where one is taken up.\<close>

inductive rng_step :: "rng \<Rightarrow> rng \<Rightarrow> bool" where
  Random: "random s = Some (i, s') \<Longrightarrow> rng_step s s'"
| Srandom: "srandom x s = Some s' \<Longrightarrow> rng_step s s'"
| Initstate: "mapped (longs s) a (n div 4) \<Longrightarrow> initstate seed a n s = Some (q, s') \<Longrightarrow> rng_step s s'"
| Setstate: "rng_table_ok (longs s) b t r \<Longrightarrow> setstate b s = Some (q, s') \<Longrightarrow> rng_step s s'"

inductive_cases rng_stepE: "rng_step s s'"

lemma initstate_small: "rng_ok s \<Longrightarrow> n < 8 \<Longrightarrow> \<exists>w. initstate seed a n s = Some (0, s\<lparr>longs := (longs s)(state s - 1 \<mapsto> w)\<rparr>)"
proof -
  assume h: "rng_ok s" "n < 8"
  obtain w u where "save_type s = Some (s\<lparr>longs := (longs s)(state s - 1 \<mapsto> w)\<rparr>)" using save_type_spec [OF h(1)] by metis
  then show ?thesis using h(2) by (intro exI [of _ w]) (simp add: initstate_def)
qed

lemma rng_step_ok: "rng_step s s' \<Longrightarrow> rng_ok s \<Longrightarrow> rng_ok s'"
proof (induction rule: rng_step.induct)
  case (Random s i s')
  then show ?case using random_spec [OF Random.prems] by force
next
  case (Srandom x s s')
  obtain s1 where "srandom x s = Some s1" "rng_ok s1"
    by (rule srandom_spec [of s x]) (use Srandom.prems in \<open>auto simp: rng_ok_def\<close>)
  then show ?case using Srandom by simp
next
  case (Initstate s a n seed q s')
  show ?case
  proof (cases "8 \<le> n")
    case True
    then show ?thesis using initstate_spec [OF Initstate.prems Initstate(1)] Initstate(2) by (metis option.inject prod.inject)
  next
    case False
    then obtain w where "initstate seed a n s = Some (0, s\<lparr>longs := (longs s)(state s - 1 \<mapsto> w)\<rparr>)"
      using initstate_small [OF Initstate.prems, of n] by (meson not_le)
    then show ?thesis using Initstate rng_ok_upd by auto
  qed
next
  case (Setstate s b t r q s')
  then show ?case using setstate_spec [OF Setstate.prems Setstate(1)] setstate_ok [OF Setstate.prems Setstate(1)]
    by (metis option.inject prod.inject)
qed

lemma rng_progress:
  assumes "rng_ok s"
  shows "random s \<noteq> None" "srandom x s \<noteq> None" "mapped (longs s) a (n div 4) \<Longrightarrow> initstate seed a n s \<noteq> None"
    "rng_table_ok (longs s) b t r \<Longrightarrow> setstate b s \<noteq> None"
proof -
  show "random s \<noteq> None" by (rule random_spec [OF assms]) simp
  obtain s1 where "srandom x s = Some s1"
    by (rule srandom_spec [of s x]) (use assms in \<open>auto simp: rng_ok_def\<close>)
  then show "srandom x s \<noteq> None" by simp
  show "initstate seed a n s \<noteq> None" if "mapped (longs s) a (n div 4)"
  proof (cases "8 \<le> n")
    case True
    show ?thesis by (rule initstate_spec [OF assms that True, of seed]) simp
  next
    case False
    then obtain w where "initstate seed a n s = Some (0, s\<lparr>longs := (longs s)(state s - 1 \<mapsto> w)\<rparr>)"
      using initstate_small [OF assms, of n seed a] by auto
    then show ?thesis by simp
  qed
  show "setstate b s \<noteq> None" if "rng_table_ok (longs s) b t r" by (rule setstate_spec [OF assms that]) simp
qed

text \<open>C30: The state of \<open>random\<close> is well-typed: after any sequence of \<open>random\<close>, \<open>srandom\<close>, \<open>initstate\<close> and \<open>setstate\<close>, from a well-formed state,
  the type is one of the five, degree and separation are those of the type, both pointers lie in the table and at the distance of the separation; and no
  call then leaves the table, whatever its arguments, as long as a new array has the size given with it.\<close>

theorem random_state_ok:
  assumes "rng_step\<^sup>*\<^sup>* s0 s" "rng_ok s0"
  shows "rng_ok s \<and> random s \<noteq> None \<and> srandom x s \<noteq> None \<and> (mapped (longs s) a (n div 4) \<longrightarrow> initstate seed a n s \<noteq> None) \<and>
    (rng_table_ok (longs s) b t r \<longrightarrow> setstate b s \<noteq> None)"
proof -
  from assms have "rng_ok s" by (induction rule: rtranclp_induct) (auto intro: rng_step_ok)
  then show ?thesis using rng_progress by blast
qed

lemma initial_rng_ok: "rng_ok (initial_rng p)"
proof -
  have "length randtbl = 32" by (simp add: randtbl_def)
  then have "mapped (wr Map.empty p randtbl) p 32" using block_mapped [OF block_wr_same, of Map.empty p randtbl] by simp
  then show ?thesis by (auto simp: rng_ok_def initial_rng_def degrees_def seps_def words_def intro!: exI [of _ 0])
qed

lemma initial_rng_table: "mapped (longs (initial_rng p)) p 32" "rng_table_ok (longs (initial_rng p)) p 3 0"
proof -
  show m: "mapped (longs (initial_rng p)) p 32" using initial_rng_ok [of p] by (simp add: rng_ok_def initial_rng_def words_def degrees_def)
  have "longs (initial_rng p) p = Some 3" by (simp add: initial_rng_def randtbl_def wr_def)
  then show "rng_table_ok (longs (initial_rng p)) p 3 0" using m by (simp add: rng_table_ok_def words_def degrees_def)
qed

lemma random_state_ok_witness:
  "\<exists>i s. random (initial_rng 100) = Some (i, s) \<and> rng_ok s \<and> random s \<noteq> None \<and> srandom 5 s \<noteq> None \<and>
    initstate 7 100 128 s \<noteq> None \<and> setstate 100 s \<noteq> None"
proof -
  obtain i m f r where 1: "random (initial_rng 100) = Some (i, initial_rng 100\<lparr>longs := m, fptr := f, rptr := r\<rparr>)"
    "rng_ok (initial_rng 100\<lparr>longs := m, fptr := f, rptr := r\<rparr>)" "\<forall>a. \<not> table_at (initial_rng 100) a \<longrightarrow> m a = longs (initial_rng 100) a"
    by (rule random_spec [OF initial_rng_ok])
  let ?s = "initial_rng 100\<lparr>longs := m, fptr := f, rptr := r\<rparr>"
  have m: "mapped (longs ?s) 100 32" using 1(2) by (simp add: rng_ok_def initial_rng_def words_def degrees_def)
  have "m 100 = Some 3" using 1(3) by (simp add: table_at_def initial_rng_def randtbl_def wr_def)
  then have "rng_table_ok (longs ?s) 100 3 0" using m by (simp add: rng_table_ok_def words_def degrees_def)
  moreover have "rng_step\<^sup>*\<^sup>* (initial_rng 100) ?s" by (rule r_into_rtranclp) (rule rng_step.Random [OF 1(1)])
  ultimately have "rng_ok ?s \<and> random ?s \<noteq> None \<and> srandom 5 ?s \<noteq> None \<and> initstate 7 100 128 ?s \<noteq> None \<and> setstate 100 ?s \<noteq> None"
    using random_state_ok [OF _ initial_rng_ok, of 100 ?s 5 100 128 7 100 3 0] m by simp
  then show ?thesis using 1(1) by blast
qed

text \<open>C31: A program may switch to another table and come back: after \<open>setstate\<close> of a table elsewhere, any number of calls of \<open>random\<close> from it and
  \<open>setstate\<close> of the pointer the first call returned, the numbers are those that would have come without the interruption, and the second call
  returns the other table. All numbers have 31 bits.\<close>

theorem random_resumes:
  assumes "rng_ok s" "rng_table_ok (longs s) b t r" "disjnt_rng b (words t) (state s - 1) (words (rand_type s))"
  shows "\<exists>s1 s2 s3. setstate b s = Some (state s - 1, s1) \<and> cycle k s1 = Some s2 \<and> setstate (state s - 1) s2 = Some (b, s3) \<and>
    (\<forall>n. \<exists>xs s' s''. numbers n s = Some (xs, s') \<and> numbers n s3 = Some (xs, s'') \<and> length xs = n \<and> list_all (\<lambda>x. unat x < 2 ^ 31) xs)"
proof -
  obtain w u f g where 1: "setstate b s = Some (state s - 1, s\<lparr>longs := (longs s)(state s - 1 \<mapsto> w), fptr := f, rptr := g, state := b + 1,
      end_ptr := b + 1 + degrees ! t, rand_type := t, rand_deg := degrees ! t, rand_sep := seps ! t\<rparr>)"
    "sint w = 5 * int u + int (rand_type s)"
    "rand_type s \<noteq> 0 \<longrightarrow> rptr s = state s + u \<and> u < rand_deg s \<and> fptr s = state s + (u + rand_sep s) mod rand_deg s"
    "t \<noteq> 0 \<longrightarrow> g = b + 1 + r \<and> f = b + 1 + (r + seps ! t) mod degrees ! t"
    by (rule setstate_spec [OF assms(1,2)])
  define s1 where "s1 = s\<lparr>longs := (longs s)(state s - 1 \<mapsto> w), fptr := f, rptr := g, state := b + 1,
      end_ptr := b + 1 + degrees ! t, rand_type := t, rand_deg := degrees ! t, rand_sep := seps ! t\<rparr>"
  have ok1: "rng_ok s1" unfolding s1_def by (rule setstate_ok [OF assms(1,2) 1(4)])
  obtain m2 f2 g2 where 2: "cycle k s1 = Some (s1\<lparr>longs := m2, fptr := f2, rptr := g2\<rparr>)" "rng_ok (s1\<lparr>longs := m2, fptr := f2, rptr := g2\<rparr>)"
    "\<forall>a. \<not> table_at s1 a \<longrightarrow> m2 a = longs s1 a" using cycle_spec [OF ok1] by blast
  define s2 where "s2 = s1\<lparr>longs := m2, fptr := f2, rptr := g2\<rparr>"
  have st1: "1 \<le> state s" "rand_type s \<le> 4" "rand_deg s = degrees ! rand_type s" "rand_sep s = seps ! rand_type s"
    "end_ptr s = state s + rand_deg s" "mapped (longs s) (state s - 1) (words (rand_type s))" using assms(1) by (auto simp: rng_ok_def)
  have far: "m2 a = ((longs s)(state s - 1 \<mapsto> w)) a" if "state s - 1 \<le> a" "a < state s - 1 + words (rand_type s)" for a
  proof -
    have "\<not> table_at s1 a" using that assms(3) by (auto simp: table_at_def s1_def disjnt_rng_def)
    then show ?thesis using 2(3) by (simp add: s1_def)
  qed
  have wd: "0 < words (rand_type s)" by (simp add: words_def)
  have ret: "rng_table_ok (longs s2) (state s - 1) (rand_type s) u"
    using st1 far [of "state s - 1"] wd 1(2,3) far by (auto simp: rng_table_ok_def s2_def mapped_def)
  obtain w2 u2 f3 g3 where 3: "setstate (state s - 1) s2 = Some (state s2 - 1, s2\<lparr>longs := (longs s2)(state s2 - 1 \<mapsto> w2), fptr := f3, rptr := g3,
      state := state s - 1 + 1, end_ptr := state s - 1 + 1 + degrees ! rand_type s, rand_type := rand_type s, rand_deg := degrees ! rand_type s,
      rand_sep := seps ! rand_type s\<rparr>)"
    "rand_type s \<noteq> 0 \<longrightarrow> g3 = state s - 1 + 1 + u \<and> f3 = state s - 1 + 1 + (u + seps ! rand_type s) mod degrees ! rand_type s"
    using setstate_spec [OF 2(2) ret [unfolded s2_def]] unfolding s2_def by metis
  define s3 where "s3 = s2\<lparr>longs := (longs s2)(state s2 - 1 \<mapsto> w2), fptr := f3, rptr := g3,
      state := state s - 1 + 1, end_ptr := state s - 1 + 1 + degrees ! rand_type s, rand_type := rand_type s, rand_deg := degrees ! rand_type s,
      rand_sep := seps ! rand_type s\<rparr>"
  have ok3: "rng_ok s3" unfolding s3_def by (rule setstate_ok [OF 2(2) [folded s2_def] ret 3(2)])
  have b: "state s2 - 1 = b" by (simp add: s2_def s1_def)
  have s3m: "longs s3 = m2(b \<mapsto> w2)" by (simp only: s3_def b) (simp add: s2_def)
  have "same_table s s3"
  proof -
    have "longs s3 a = longs s a" if "state s \<le> a" "a < state s - 1 + words (rand_type s)" for a
    proof -
      have "a \<noteq> b" using that assms(3) by (auto simp: disjnt_rng_def words_def)
      moreover have "m2 a = longs s a"
      proof -
        have "state s - 1 \<le> a" "a \<noteq> state s - 1" using that st1(1) by linarith+
        then show ?thesis using far [OF _ that(2)] by simp
      qed
      ultimately show ?thesis by (simp add: s3m)
    qed
    then show ?thesis using st1 1(3) 3(2) by (simp add: same_table_def s3_def)
  qed
  then show ?thesis
    using numbers_same [OF assms(1) ok3] 1(1) [folded s1_def] 2(1) [folded s2_def] 3(1) [folded s3_def] unfolding b by blast
qed

lemma rng_ok_upd2: "rng_ok s \<Longrightarrow> rng_ok (s\<lparr>longs := (longs s)(a \<mapsto> v, b \<mapsto> w)\<rparr>)"
  by (auto simp: rng_ok_def)

text \<open>The initial generator, with a second table of two words at 200.\<close>

definition two_tables :: rng where
  "two_tables = initial_rng 100\<lparr>longs := (longs (initial_rng 100))(200 \<mapsto> 0, 201 \<mapsto> 7)\<rparr>"

lemma random_resumes_witness:
  "\<exists>s1 s2 s3. setstate 200 two_tables = Some (100, s1) \<and> cycle 5 s1 = Some s2 \<and> setstate 100 s2 = Some (200, s3) \<and>
    (\<forall>n. \<exists>xs s' s''. numbers n two_tables = Some (xs, s') \<and> numbers n s3 = Some (xs, s'') \<and> length xs = n \<and>
      list_all (\<lambda>x. unat x < 2 ^ 31) xs)"
proof -
  have "rng_ok two_tables" unfolding two_tables_def by (intro initial_rng_ok rng_ok_upd2)
  moreover have "rng_table_ok (longs two_tables) 200 0 0"
    by (simp add: two_tables_def rng_table_ok_def words_def degrees_def mapped_Suc numeral_2_eq_2)
  moreover have "disjnt_rng 200 (words 0) (state two_tables - 1) (words (rand_type two_tables))"
    by (simp add: two_tables_def initial_rng_def words_def degrees_def disjnt_rng_def)
  moreover have "state two_tables - 1 = 100" by (simp add: two_tables_def initial_rng_def)
  ultimately show ?thesis using random_resumes [of two_tables 200 0 0 5] by (simp only:)
qed

end
