(* ===== verification/RandTable.thy ===== *)
theory RandTable
  imports RandProps
begin

text \<open>
  The table that \<^verbatim>\<open>stdlib/random.c\<close> starts with. Its comment says that everything is set up as if from \<open>initstate (1, randtbl, 128)\<close>:
  the generator on lists computes the table, and \<open>initstate\<close> on the memory does the same as the one on lists.
\<close>

fun lcg_list :: "nat \<Rightarrow> u32 \<Rightarrow> u32 list" where
  "lcg_list 0 x = []"
| "lcg_list (Suc n) x = x # lcg_list n (1103515245 * x + 12345)"

definition next_index :: "nat \<Rightarrow> nat \<Rightarrow> nat" where "next_index d i = (if Suc i \<ge> d then 0 else Suc i)"

fun cycle_list :: "nat \<Rightarrow> nat \<Rightarrow> nat \<Rightarrow> nat \<Rightarrow> u32 list \<Rightarrow> u32 list" where
  "cycle_list d 0 f r xs = xs"
| "cycle_list d (Suc k) f r xs = cycle_list d k (next_index d f) (next_index d r) (xs[f := xs ! f + xs ! r])"

lemma randtbl_list: "cycle_list 31 310 3 0 (lcg_list 31 1) = tl randtbl"
  by code_simp

lemma length_lcg_list [simp]: "length (lcg_list n x) = n"
  by (induction n arbitrary: x) simp_all

lemma length_cycle_list [simp]: "length (cycle_list d k f r xs) = length xs"
  by (induction k arbitrary: f r xs) simp_all

lemma next_index: "f < d \<Longrightarrow> next_index d f = Suc f mod d"
  by (auto simp: next_index_def le_Suc_eq)

lemma wr_upd: "i < length xs \<Longrightarrow> (wr m p xs)(p + i \<mapsto> x) = wr m p (xs[i := x])"
  by (rule ext) (auto simp: wr_def nth_list_update)

lemma wr_inside: "p \<le> a \<Longrightarrow> a < p + length xs \<Longrightarrow> wr m p xs a = wr m' p xs a"
  by (simp add: wr_def)

lemma random_list:
  assumes "rand_type s \<noteq> 0" "end_ptr s = state s + d" "length xs = d" "f < d" "r < d" "f \<noteq> r"
  shows "\<exists>i. random (s\<lparr>longs := wr m (state s) xs, fptr := state s + f, rptr := state s + r\<rparr>) =
    Some (i, s\<lparr>longs := wr m (state s) (xs[f := xs ! f + xs ! r]), fptr := state s + next_index d f, rptr := state s + next_index d r\<rparr>)"
  using assms by (auto simp: random_def ld_def st_def Let_def wr_apply_in wr_upd next_index_def)

lemma cycle_as_list:
  "rand_type s \<noteq> 0 \<Longrightarrow> end_ptr s = state s + d \<Longrightarrow> length xs = d \<Longrightarrow> f < d \<Longrightarrow> r < d \<Longrightarrow> f \<noteq> r \<Longrightarrow>
    cycle k (s\<lparr>longs := wr m (state s) xs, fptr := state s + f, rptr := state s + r\<rparr>) =
    Some (s\<lparr>longs := wr m (state s) (cycle_list d k f r xs), fptr := state s + (f + k) mod d, rptr := state s + (r + k) mod d\<rparr>)"
proof (induction k arbitrary: f r xs)
  case (Suc k)
  obtain i where i: "random (s\<lparr>longs := wr m (state s) xs, fptr := state s + f, rptr := state s + r\<rparr>) =
    Some (i, s\<lparr>longs := wr m (state s) (xs[f := xs ! f + xs ! r]), fptr := state s + next_index d f, rptr := state s + next_index d r\<rparr>)"
    using random_list [OF Suc.prems] by blast
  have n: "next_index d f < d" "next_index d r < d" "next_index d f \<noteq> next_index d r"
    using Suc.prems(4-6) by (auto simp: next_index_def)
  have "(next_index d f + k) mod d = (f + Suc k) mod d" "(next_index d r + k) mod d = (r + Suc k) mod d"
    using Suc.prems(4,5) by (simp_all add: next_index mod_simps)
  then show ?case using Suc.IH [OF Suc.prems(1,2) _ n] Suc.prems(3) i by simp
qed simp

lemma fill_state_list:
  "m (base + i - 1) = Some x \<Longrightarrow> 1 \<le> i \<Longrightarrow> mapped m (base + i) n \<Longrightarrow>
    fill_state m base i n = Some (wr m (base + i) (lcg_list n (1103515245 * x + 12345)))"
proof (induction n arbitrary: m i x)
  case (Suc n)
  define y where "y = 1103515245 * x + 12345"
  have c: "m (base + i) \<noteq> None" "mapped m (Suc (base + i)) n" using Suc.prems(3) by (auto simp: mapped_Suc)
  have "fill_state (m(base + i \<mapsto> y)) base (i + 1) n = Some (wr (m(base + i \<mapsto> y)) (Suc (base + i)) (lcg_list n (1103515245 * y + 12345)))"
    using Suc.IH [of "m(base + i \<mapsto> y)" "i + 1" y] c(2) by (simp del: fun_upd_apply) simp
  moreover have "st m (base + i) y = Some (m(base + i \<mapsto> y))" using c(1) by (auto simp: st_def)
  ultimately show ?case using Suc.prems(1) by (simp add: ld_def wr_Cons flip: y_def)
qed simp

lemma srandom_list:
  assumes "rand_type s \<noteq> 0" "end_ptr s = state s + rand_deg s" "1 \<le> state s" "mapped (longs s) (state s) (rand_deg s)"
    and "0 < rand_sep s" "rand_sep s < rand_deg s"
  shows "srandom x s = Some (s\<lparr>longs := wr (longs s) (state s) (cycle_list (rand_deg s) (10 * rand_deg s) (rand_sep s) 0 (lcg_list (rand_deg s) x)),
    fptr := state s + rand_sep s, rptr := state s\<rparr>)"
proof -
  obtain n where n: "rand_deg s = Suc n" using assms(6) by (cases "rand_deg s") auto
  have m: "longs s (state s) \<noteq> None" "mapped (longs s) (Suc (state s)) n" using assms(4) n by (auto simp: mapped_Suc)
  then have "fill_state ((longs s)(state s \<mapsto> x)) (state s) 1 n = Some (wr ((longs s)(state s \<mapsto> x)) (Suc (state s)) (lcg_list n (1103515245 * x + 12345)))"
    using fill_state_list [of "(longs s)(state s \<mapsto> x)" "state s" 1 x n] assms(3) by simp
  then have "fill_state ((longs s)(state s \<mapsto> x)) (state s) 1 n = Some (wr (longs s) (state s) (lcg_list (Suc n) x))"
    by (simp add: wr_Cons)
  moreover have "cycle (10 * rand_deg s) (s\<lparr>longs := wr (longs s) (state s) (lcg_list (Suc n) x), fptr := state s + rand_sep s, rptr := state s + 0\<rparr>) =
    Some (s\<lparr>longs := wr (longs s) (state s) (cycle_list (rand_deg s) (10 * rand_deg s) (rand_sep s) 0 (lcg_list (rand_deg s) x)),
      fptr := state s + (rand_sep s + 10 * rand_deg s) mod rand_deg s, rptr := state s + (0 + 10 * rand_deg s) mod rand_deg s\<rparr>)"
    unfolding n [symmetric] by (rule cycle_as_list) (use assms in simp_all)
  moreover have "(rand_sep s + 10 * rand_deg s) mod rand_deg s = rand_sep s" "(0 + 10 * rand_deg s) mod rand_deg s = 0"
    using assms(6) by simp_all
  moreover have "st (longs s) (state s) x = Some ((longs s)(state s \<mapsto> x))" using m(1) by (auto simp: st_def)
  moreover have "rand_deg s - 1 = n" by (simp add: n)
  ultimately show ?thesis using assms(1) unfolding srandom_def by simp
qed

text \<open>C32: What a program gets without any call is what \<open>initstate (1, randtbl, 128)\<close> sets up, as the comment says: at the same place, from any
  well-formed state, that call leaves the initial table, header included, and the initial pointers, so the same numbers follow.\<close>

theorem initial_table:
  assumes "rng_ok s" "1 \<le> p" "mapped (longs s) p 32"
  shows "\<exists>s'. initstate 1 p 128 s = Some (state s - 1, s') \<and> block (longs s') p randtbl \<and> same_table (initial_rng p) s' \<and>
    (\<forall>n. \<exists>xs a b. numbers n (initial_rng p) = Some (xs, a) \<and> numbers n s' = Some (xs, b))"
proof -
  obtain w where w: "save_type s = Some (s\<lparr>longs := (longs s)(state s - 1 \<mapsto> w)\<rparr>)" using save_type_spec [OF assms(1)] by metis
  define u where "u = s\<lparr>longs := (longs s)(state s - 1 \<mapsto> w), rand_type := 3, rand_deg := 31, rand_sep := 3, state := p + 1, end_ptr := p + 1 + 31\<rparr>"
  have u: "rand_type u = 3" "rand_deg u = 31" "rand_sep u = 3" "state u = p + 1" "end_ptr u = p + 1 + 31" "mapped (longs u) p 32"
    using assms(3) by (simp_all add: u_def)
  have m: "longs u p \<noteq> None" "mapped (longs u) (p + 1) 31" using u(6) mapped_Suc [of "longs u" p 31] by simp_all
  define v where "v = u\<lparr>longs := wr (longs u) (p + 1) (tl randtbl), fptr := p + 1 + 3, rptr := p + 1\<rparr>"
  have sr: "srandom 1 u = Some v" unfolding v_def using srandom_list [of u 1] u m(2) by (simp add: randtbl_list)
  define t where "t = v\<lparr>longs := (longs v)(p \<mapsto> 3)\<rparr>"
  have "longs v p \<noteq> None" using m(1) by (simp add: v_def wr_apply_out)
  then have st: "save_type v = Some t" using u by (auto simp: save_type_def st_def t_def v_def)
  have i: "initstate 1 p 128 s = Some (state s - 1, t)" using w sr st
    by (simp add: initstate_def type_for_def degrees_def seps_def Let_def u_def)
  have tbl: "randtbl = 3 # tl randtbl" "length randtbl = 32" by (simp_all add: randtbl_def)
  have t: "longs t = wr (longs u) p randtbl"
    by (subst tbl(1)) (simp add: t_def v_def wr_Cons wr_upd_before)
  have eq: "state t = p + 1" "end_ptr t = p + 32" "rand_type t = 3" "rand_deg t = 31" "rand_sep t = 3" "fptr t = p + 4" "rptr t = p + 1"
    using u by (simp_all add: t_def v_def)
  have ini: "state (initial_rng p) = p + 1" "end_ptr (initial_rng p) = p + 32" "rand_type (initial_rng p) = 3" "rand_deg (initial_rng p) = 31"
    "rand_sep (initial_rng p) = 3" "fptr (initial_rng p) = p + 4" "rptr (initial_rng p) = p + 1"
    "longs (initial_rng p) = wr Map.empty p randtbl" by (simp_all add: initial_rng_def)
  have w3: "words 3 = 32" by (simp add: words_def degrees_def)
  have same: "same_table (initial_rng p) t" unfolding same_table_def eq t ini w3
    using wr_inside [of p _ randtbl "longs u" Map.empty] tbl(2) by simp
  have ok: "rng_ok t"
    by (rule initstate_spec [OF assms(1), of p 128 1]) (use assms(3) i in simp_all)
  have "\<exists>xs a b. numbers n (initial_rng p) = Some (xs, a) \<and> numbers n t = Some (xs, b)" for n
    using numbers_same [OF initial_rng_ok ok same] by blast
  then show ?thesis using i same t by auto
qed

lemma initial_table_witness:
  "\<exists>s'. initstate 1 100 128 (initial_rng 100) = Some (100, s') \<and> block (longs s') 100 randtbl \<and> same_table (initial_rng 100) s'"
  using initial_table [of "initial_rng 100" 100] initial_rng_ok [of 100] initial_rng_table(1) [of 100] by (auto simp: initial_rng_def)

end
