(* ===== verification/Rand48.thy ===== *)
theory Rand48
  imports Rand
begin

text \<open>
  \<^verbatim>\<open>stdlib/drand48.c\<close> and the files around it: the functions of the family draw on one linear congruential generator of 48 bits.
\<close>

section \<open>drand48\<close>

lemma unat_push_or:
  assumes l: "unat l < 2 ^ n" and h: "(unat h + 1) * 2 ^ n \<le> 2 ^ LENGTH('a)"
  shows "unat (push_bit n h OR l :: 'a :: len word) = unat h * 2 ^ n + unat l"
proof -
  have hn: "unat h * 2 ^ n + unat l < 2 ^ LENGTH('a)" using assms by simp
  have push: "unat (push_bit n h) = unat h * 2 ^ n"
    using hn by (subst unsigned_push_bit_eq) (simp add: push_bit_eq_mult take_bit_nat_eq_self)
  have "\<not> bit l i" if "n \<le> i" for i
  proof -
    have "take_bit n (unat l) = unat l" using l by (rule take_bit_nat_eq_self)
    then have "\<not> bit (unat l) i" using that by (metis bit_take_bit_iff not_le)
    then show ?thesis by (simp add: bit_unsigned_iff bit_imp_le_length)
  qed
  then have "push_bit n h AND l = 0" by (intro bit_word_eqI) (auto simp: bit_and_iff bit_push_bit_iff)
  then have "push_bit n h OR l = push_bit n h + l" by (simp add: disjunctive_add_eq_or)
  then show ?thesis using hn push by (simp add: unat_word_ariths)
qed

lemma u16_less: "unat (x :: u16) < 65536"
proof -
  have "unat x < 2 ^ LENGTH(16)" by (rule unsigned_less)
  then show ?thesis by simp
qed

lemma ucast_u16: "unat (ucast (x :: u16) :: u64) = unat x" "unat (ucast x :: u32) = unat x"
  using u16_less [of x] by (simp_all add: unsigned_ucast_eq take_bit_nat_eq_self)

lemma unat_drop: "unat (drop_bit n (w :: 'a :: len word)) = unat w div 2 ^ n"
  by (simp only: unat_drop_bit_eq drop_bit_eq_div [of n "unat w"])

definition val48 :: "three \<Rightarrow> nat" where
  "val48 x = (case x of (x0, x1, x2) \<Rightarrow> unat x0 + 2 ^ 16 * unat x1 + 2 ^ 32 * unat x2)"

lemma val48_less: "val48 x < 2 ^ 48"
proof -
  obtain x0 x1 x2 where x: "x = (x0, x1, x2)" by (cases x)
  show ?thesis using u16_less [of x0] u16_less [of x1] u16_less [of x2] by (simp add: x val48_def)
qed

lemma unat_and_mask: "unat (w AND mask n :: 'a :: len word) = unat w mod 2 ^ n"
proof -
  have "unat (take_bit n w) = take_bit n (unat w)" by (rule bit_eqI) (auto simp: bit_unsigned_iff bit_take_bit_iff)
  then show ?thesis by (simp only: take_bit_eq_mod [of n "unat w"] flip: take_bit_eq_mask)
qed

lemma word48: "unat (push_bit 32 (ucast x2) OR push_bit 16 (ucast x1) OR ucast x0 :: u64) = val48 (x0, x1, x2)"
proof -
  have 1: "unat (push_bit 16 (ucast x1) OR ucast x0 :: u64) = unat x1 * 2 ^ 16 + unat x0"
    by (subst unat_push_or) (use u16_less [of x0] u16_less [of x1] in \<open>simp_all add: ucast_u16\<close>)
  then show ?thesis unfolding or.assoc
    by (subst unat_push_or) (use u16_less [of x0] u16_less [of x1] u16_less [of x2] in \<open>simp_all add: val48_def ucast_u16\<close>)
qed

lemma val48_split: "val48 (ucast r, ucast (drop_bit 16 r), ucast (drop_bit 32 r)) = unat (r :: u64) mod 2 ^ 48"
proof -
  have "unat r mod 2 ^ 48 = unat r mod 65536 + 65536 * (unat r div 65536 mod 65536) + 4294967296 * (unat r div 4294967296 mod 65536)"
    by (simp add: mod_mult2_eq [of _ 65536 4294967296, simplified] mod_mult2_eq [of _ 65536 65536, simplified] div_mult2_eq [of _ 65536 65536, simplified] algebra_simps)
  moreover have "unat (ucast w :: u16) = unat w mod 65536" for w :: u64 by (simp add: unsigned_ucast_eq take_bit_eq_mod)
  ultimately show ?thesis unfolding val48_def split_conv by (simp add: unat_drop)
qed

definition mult48 :: "drand48_data \<Rightarrow> nat" where "mult48 b = (if init48 b then val48 (a48 b) else 0x5deece66d)"
definition add48 :: "drand48_data \<Rightarrow> nat" where "add48 b = (if init48 b then unat (c48 b) else 11)"

lemma drand48_iterate_val:
  assumes "drand48_iterate x b = (x', b')"
  shows "val48 x' = (val48 x * mult48 b + add48 b) mod 2 ^ 48" "mult48 b' = mult48 b" "add48 b' = add48 b" "init48 b'" "x48 b' = x48 b"
proof -
  obtain x0 x1 x2 where x: "x = (x0, x1, x2)" by (cases x)
  let ?b = "if \<not> init48 b then b\<lparr>a48 := (0xe66d, 0xdeec, 0x5), c48 := 0xb, init48 := True\<rparr> else b"
  obtain a0 a1 a2 where a: "a48 ?b = (a0, a1, a2)" by (metis prod_cases3)
  let ?X = "push_bit 32 (ucast x2) OR push_bit 16 (ucast x1) OR ucast x0 :: u64"
  let ?a = "push_bit 32 (ucast a2) OR push_bit 16 (ucast a1) OR ucast a0 :: u64"
  let ?r = "?X * ?a + ucast (c48 ?b)"
  have r: "x' = (ucast ?r, ucast (drop_bit 16 ?r), ucast (drop_bit 32 ?r))" "b' = ?b"
    using assms a unfolding drand48_iterate_def Let_def x by auto
  have ma: "mult48 b = val48 (a0, a1, a2)" "add48 b = unat (c48 ?b)" using a by (auto simp: mult48_def add48_def val48_def)
  have "unat (ucast (c48 ?b) :: u64) = unat (c48 ?b)" by (rule ucast_u16)
  then have "unat ?r = (val48 x * mult48 b + add48 b) mod 2 ^ 64" unfolding ma x
    by (simp only: unat_word_ariths word48) (simp add: mod_simps)
  then show "val48 x' = (val48 x * mult48 b + add48 b) mod 2 ^ 48" unfolding r val48_split
    by (simp add: mod_mod_cancel)
  show "mult48 b' = mult48 b" "add48 b' = add48 b" "init48 b'" "x48 b' = x48 b"
    by (simp_all add: r(2) mult48_def add48_def val48_def)
qed

lemma mult48_upd [simp]: "mult48 (b\<lparr>x48 := x\<rparr>) = mult48 b" "add48 (b\<lparr>x48 := x\<rparr>) = add48 b"
  by (simp_all add: mult48_def add48_def)

definition next48 :: "drand48_data \<Rightarrow> nat" where
  "next48 b = (val48 (x48 b) * mult48 b + add48 b) mod 2 ^ 48"

lemma next48_iterate:
  obtains x0 x1 x2 b' where "drand48_iterate (x48 b) b = ((x0, x1, x2), b')" "val48 (x0, x1, x2) = next48 b" "mult48 b' = mult48 b"
    "add48 b' = add48 b"
proof -
  obtain x0 x1 x2 b' where "drand48_iterate (x48 b) b = ((x0, x1, x2), b')" by (metis prod_cases4 prod_cases3 surj_pair)
  then show thesis using that drand48_iterate_val(1-3) by (simp add: next48_def)
qed

lemma split20: "n mod 4096 * 2 ^ 20 + n div 4096 * 2 ^ 32 = (n :: nat) * 2 ^ 20"
proof -
  obtain q r where q: "n div 4096 = q" "n mod 4096 = r" "n = q * 4096 + r" by (metis div_mult_mod_eq)
  show ?thesis unfolding q(1,2) by (subst q(3)) simp
qed

lemma mantissa:
  "unat (push_bit 4 (ucast x2) OR ucast (drop_bit 12 x1) :: u32) * 2 ^ 32 + unat (push_bit 20 (ucast (x1 AND 0xfff)) OR push_bit 4 (ucast x0) :: u32)
    = 16 * val48 (x0, x1, x2)"
proof -
  have d: "unat (drop_bit 12 x1) = unat x1 div 4096" by (simp add: unat_drop)
  have m: "unat (x1 AND 0xfff) = unat x1 mod 4096" using unat_and_mask [of x1 12] by (simp add: mask_numeral)
  have 0: "unat (push_bit 4 (ucast x0) :: u32) = unat x0 * 16"
    using unat_push_or [of "0 :: u32" 4 "ucast x0"] u16_less [of x0] by (simp add: ucast_u16)
  have 1: "unat (push_bit 4 (ucast x2) OR ucast (drop_bit 12 x1) :: u32) = unat x2 * 16 + unat x1 div 4096"
    by (subst unat_push_or) (use u16_less [of x2] u16_less [of x1] in \<open>simp_all add: ucast_u16 d less_mult_imp_div_less\<close>)
  have "unat (push_bit 20 (ucast (x1 AND 0xfff)) OR push_bit 4 (ucast x0) :: u32) = (unat x1 mod 4096) * 2 ^ 20 + unat x0 * 16"
  proof (subst unat_push_or)
    show "unat (push_bit 4 (ucast x0) :: u32) < 2 ^ 20" using u16_less [of x0] by (simp add: 0)
    have "unat x1 mod 4096 < 4096" by simp
    then show "(unat (ucast (x1 AND 0xfff) :: u32) + 1) * 2 ^ 20 \<le> 2 ^ LENGTH(32)" unfolding ucast_u16 m by simp
    show "unat (ucast (x1 AND 0xfff) :: u32) * 2 ^ 20 + unat (push_bit 4 (ucast x0) :: u32) = unat x1 mod 4096 * 2 ^ 20 + unat x0 * 16"
      unfolding ucast_u16 m 0 ..
  qed
  moreover have "unat x1 mod 4096 * 2 ^ 20 + unat x1 div 4096 * 2 ^ 32 = unat x1 * 2 ^ 20"
    by (rule split20)
  ultimately show ?thesis unfolding 1 val48_def split_conv by (simp only:) (simp add: algebra_simps)
qed

lemma sign_bit: "(x :: u16) AND 0x8000 \<noteq> 0 \<longleftrightarrow> 32768 \<le> unat x"
proof -
  have "(0x8000 :: u16) = 2 ^ 15" by simp
  then have "x AND 0x8000 \<noteq> 0 \<longleftrightarrow> bit x 15" using and_exp_eq_0_iff_not_bit [of x 15] by metis
  also have "bit x 15 \<longleftrightarrow> odd (unat x div 2 ^ 15)" using bit_iff_odd [of "unat x" 15] by (simp add: bit_unsigned_iff)
  also have "\<dots> \<longleftrightarrow> 32768 \<le> unat x"
  proof (cases "32768 \<le> unat x")
    case True
    then have "unat x div 32768 = 1" using u16_less [of x] by (intro div_nat_eqI) simp_all
    then show ?thesis using True by simp
  qed simp
  finally show ?thesis .
qed

lemma sint_nonneg:
  assumes "unat (w :: 'a :: len word) < 2 ^ (LENGTH('a) - 1)"
  shows "sint w = int (unat w)"
proof -
  have "int (unat w) < 2 ^ (LENGTH('a) - 1)" using assms by (metis of_nat_less_iff of_nat_power of_nat_numeral)
  moreover have "- (2 ^ (LENGTH('a) - 1)) \<le> int (unat w)" by (rule order_trans [of _ 0]) simp_all
  ultimately have "signed_take_bit (LENGTH('a) - 1) (int (unat w)) = int (unat w)" by (intro signed_take_bit_int_eq_self)
  then show ?thesis unfolding sint_uint by (simp only: uint_nat One_nat_def)
qed

lemma low15: "unat ((x :: u16) AND 0x7fff) = unat x mod 32768"
  using unat_and_mask [of x 15] by (simp add: mask_numeral)

text \<open>C33: All functions without an argument draw on one sequence, \<open>x' = (a * x + c) mod 2 ^ 48\<close>, with the default \<open>a\<close> and \<open>c\<close> until they are set:
  \<open>drand48\<close> is exactly \<open>x' / 2 ^ 48\<close>, a number from 0 to less than 1, \<open>lrand48\<close> the upper 31 bits, and \<open>mrand48\<close> the upper 32 bits as sign and magnitude.\<close>

theorem drand48_sequence:
  "\<exists>b1. drand48 b = (b1, of_nat (next48 b) / 2 ^ 48) \<and> lrand48 b = (b1, int (next48 b div 2 ^ 17)) \<and>
    mrand48 b = (b1, if next48 b < 2 ^ 47 then int (next48 b div 2 ^ 16) else - int (next48 b div 2 ^ 16 - 2 ^ 31)) \<and>
    val48 (x48 b1) = next48 b \<and> mult48 b1 = mult48 b \<and> add48 b1 = add48 b \<and> next48 b < 2 ^ 48"
proof -
  obtain x0 x1 x2 b' where it: "drand48_iterate (x48 b) b = ((x0, x1, x2), b')" and v: "val48 (x0, x1, x2) = next48 b"
    and p: "mult48 b' = mult48 b" "add48 b' = add48 b" by (rule next48_iterate)
  have x: "next48 b = unat x0 + 65536 * unat x1 + 4294967296 * unat x2" using v by (simp add: val48_def)
  have lt: "unat x0 < 65536" "unat x1 < 65536" "unat x2 < 65536" by (rule u16_less)+
  let ?b = "b'\<lparr>x48 := (x0, x1, x2)\<rparr>"
  have b: "val48 (x48 ?b) = next48 b" "mult48 ?b = mult48 b" "add48 ?b = add48 b" using v p(1,2) by simp_all
  have d: "drand48 b = (?b, of_nat (next48 b) / 2 ^ 48)"
    unfolding drand48_def erand48_r_def it Let_def split_conv mantissa v by simp
  have "unat (push_bit 15 (ucast x2) OR ucast (drop_bit 1 x1) :: u32) = unat x2 * 2 ^ 15 + unat x1 div 2"
    by (subst unat_push_or) (use lt in \<open>simp_all add: ucast_u16 unat_drop less_mult_imp_div_less\<close>)
  also have "\<dots> = next48 b div 2 ^ 17" using lt unfolding x by simp
  finally have l: "unat (push_bit 15 (ucast x2) OR ucast (drop_bit 1 x1) :: u32) = next48 b div 2 ^ 17" .
  moreover have lt48: "next48 b < 2 ^ 48" by (simp add: next48_def)
  ultimately have "sint (push_bit 15 (ucast x2) OR ucast (drop_bit 1 x1) :: u32) = int (next48 b div 2 ^ 17)"
    by (subst sint_nonneg) (simp_all add: less_mult_imp_div_less)
  then have l: "lrand48 b = (?b, int (next48 b div 2 ^ 17))"
    unfolding lrand48_def nrand48_r_def it Let_def split_conv by simp
  have j: "unat (push_bit 16 (ucast (x2 AND 0x7fff)) OR ucast x1 :: u32) = unat x2 mod 32768 * 2 ^ 16 + unat x1"
    by (subst unat_push_or) (use lt mod_less_divisor [of 32768 "unat x2"] in \<open>simp_all add: ucast_u16 low15 del: mod_less_divisor\<close>)
  have "unat x2 mod 32768 * 2 ^ 16 + unat x1 < 2 ^ 31" using lt mod_less_divisor [of 32768 "unat x2"] by (simp del: mod_less_divisor)
  then have j1: "sint (push_bit 16 (ucast (x2 AND 0x7fff)) OR ucast x1 :: u32) = int (unat x2 mod 32768 * 2 ^ 16 + unat x1)"
    by (subst sint_nonneg) (simp_all add: j)
  have j2: "(if 32768 \<le> unat x2 then int (unat x2 mod 32768 * 2 ^ 16 + unat x1) * -1 else int (unat x2 mod 32768 * 2 ^ 16 + unat x1))
      = (if next48 b < 2 ^ 47 then int (next48 b div 2 ^ 16) else - int (next48 b div 2 ^ 16 - 2 ^ 31))"
  proof -
    have dv: "next48 b div 2 ^ 16 = unat x2 * 65536 + unat x1" using lt unfolding x by simp
    have c: "next48 b < 2 ^ 47 \<longleftrightarrow> unat x2 < 32768" using lt unfolding x by auto
    show ?thesis
    proof (cases "unat x2 < 32768")
      case False
      then have "unat x2 mod 32768 = unat x2 - 32768" using lt(3) by (simp add: le_mod_geq)
      then have "unat x2 mod 32768 * 2 ^ 16 + unat x1 = unat x2 * 65536 + unat x1 - 2 ^ 31" using False by simp
      then show ?thesis using False unfolding dv c by simp
    next
      case True
      then show ?thesis unfolding dv c by simp
    qed
  qed
  have j: "mrand48 b = (?b, if next48 b < 2 ^ 47 then int (next48 b div 2 ^ 16) else - int (next48 b div 2 ^ 16 - 2 ^ 31))"
    unfolding mrand48_def jrand48_r_def it Let_def split_conv sign_bit j1 j2 ..
  show ?thesis unfolding d l j using b lt48 by blast
qed

end
