(* ===== verification/Radix64.thy ===== *)
theory Radix64
  imports Rand48
begin

text \<open>
  \<^verbatim>\<open>stdlib/a64l.c\<close> and \<^verbatim>\<open>stdlib/l64a.c\<close>: the numbers in radix 64 are read back as they are written.
\<close>

section \<open>Radix 64\<close>

lemma i64a_digit:
  assumes "d < 64"
  shows "a64i (i64a (int d)) = int d" "i64a (int d) \<noteq> 127" "i64a (int d) \<noteq> 0"
proof -
  have "\<forall>d\<in>set [0..<64]. a64i (i64a (int d)) = int d \<and> i64a (int d) \<noteq> 127 \<and> i64a (int d) \<noteq> 0" by code_simp
  then show "a64i (i64a (int d)) = int d" "i64a (int d) \<noteq> 127" "i64a (int d) \<noteq> 0" using assms by auto
qed

text \<open>The number of a list of digits, the last one first.\<close>

definition digits_val :: "byte list \<Rightarrow> u32" where
  "digits_val ds = foldr (\<lambda>c r. push_bit 6 r + of_int (a64i c)) ds 0"

definition is_digit :: "byte \<Rightarrow> bool" where "is_digit c \<longleftrightarrow> c \<noteq> 0 \<and> a64i c \<noteq> -1"

lemma l64a_digit: "sint l = int k \<Longrightarrow> sint (ucast ((l :: u32) AND 0x3f) :: byte) = int (k mod 64)"
proof -
  assume l: "sint l = int k"
  then have "unat l < 2 ^ 31" using sint_u32_nonneg [of l] by simp
  then have "int (unat l) = int k" using l sint_nonneg [of l] by (simp del: of_nat_unat)
  then have k: "unat l = k" by (simp only: of_nat_eq_iff)
  have a: "unat (l AND 0x3f) = k mod 64" using unat_and_mask [of l 6] k by (simp add: mask_numeral)
  have "k mod 64 < 64" by simp
  then have b: "unat (ucast (l AND 0x3f) :: byte) = k mod 64" by (simp add: unsigned_ucast_eq a take_bit_nat_eq_self)
  then show ?thesis by (subst sint_nonneg) simp_all
qed

lemma l64a_digits_spec:
  "sint l = int k \<Longrightarrow> k < 64 ^ n \<Longrightarrow>
    \<exists>ds. l64a_digits n l = Some ds \<and> length ds \<le> n \<and> list_all is_digit ds \<and> digits_val ds = of_nat k \<and> (0 < k \<longrightarrow> ds \<noteq> [])"
proof (induction n arbitrary: l k)
  case 0
  then show ?case by (simp add: digits_val_def)
next
  case (Suc n)
  show ?case
  proof (cases "k = 0")
    case True
    then show ?thesis using Suc.prems by (simp add: digits_val_def)
  next
    case False
    have "sint (signed_drop_bit 6 l) = int (k div 64)" using Suc.prems(1) by (simp add: sint_signed_drop_bit_eq drop_bit_eq_div zdiv_int)
    moreover have "k div 64 < 64 ^ n" using Suc.prems(2) by (simp add: less_mult_imp_div_less mult.commute)
    ultimately obtain ds where ds: "l64a_digits n (signed_drop_bit 6 l) = Some ds" "length ds \<le> n" "list_all is_digit ds"
      "digits_val ds = of_nat (k div 64)" using Suc.IH by blast
    let ?d = "i64a (int (k mod 64))"
    have d: "a64i ?d = int (k mod 64)" "?d \<noteq> 127" "?d \<noteq> 0" by (rule i64a_digit, simp)+
    have "digits_val (?d # ds) = push_bit 6 (of_nat (k div 64)) + of_nat (k mod 64)" using ds(4) d(1) by (simp add: digits_val_def)
    also have "\<dots> = of_nat (k div 64 * 64 + k mod 64)" by (simp only: push_bit_eq_mult of_nat_add of_nat_mult) simp
    also have "k div 64 * 64 + k mod 64 = k" by (rule div_mult_mod_eq)
    finally have "digits_val (?d # ds) = of_nat k" .
    moreover have "l64a_digits (Suc n) l = Some (?d # ds)"
      using Suc.prems(1) False ds(1) d(2) by (simp add: l64a_digit [OF Suc.prems(1)] Let_def)
    moreover have "list_all is_digit (?d # ds)" using ds(3) d by (simp add: is_digit_def [of ?d])
    ultimately show ?thesis using ds(2) by (intro exI [of _ "?d # ds"]) simp
  qed
qed

lemma a64l_loop_digits:
  "block m p (cs @ [0]) \<Longrightarrow> list_all is_digit cs \<Longrightarrow> length cs \<le> n \<Longrightarrow>
    a64l_loop m p n r = Some (foldl (\<lambda>r c. push_bit 6 r + of_int (a64i c)) r cs)"
proof (induction cs arbitrary: p n r)
  case Nil
  then show ?case by (cases n) (simp_all add: block_Cons ld_def)
next
  case (Cons c cs)
  then obtain k where n: "n = Suc k" by (cases n) auto
  have c: "m p = Some c" "block m (Suc p) (cs @ [0])" "c \<noteq> 0" "a64i c \<noteq> -1" using Cons.prems by (auto simp: block_Cons is_digit_def)
  then show ?case using Cons.IH [OF c(2), of k] Cons.prems(2,3) n by (simp add: ld_def)
qed

text \<open>A number from 0 to \<open>2 ^ 31 - 1\<close> that is written by \<open>l64a\<close> and read by \<open>a64l\<close> is itself again; the string fits into the seven bytes.\<close>

theorem a64l_l64a:
  assumes "0 \<le> sint l" "mapped m retval 7" "m empty_str = Some 0"
  shows "\<exists>m' p. l64a empty_str retval m l = Some (m', p) \<and> a64l m' p = Some l \<and> (\<forall>a. a < retval \<or> retval + 7 \<le> a \<longrightarrow> m' a = m a)"
proof (cases "sint l = 0")
  case True
  then have "l = 0" by (simp only: signed_eq_0_iff)
  then show ?thesis using assms(3) by (simp add: l64a_def a64l_def ld_def eval_nat_numeral)
next
  case False
  define k where "k = unat l"
  have k: "k < 2 ^ 31" using assms(1) sint_u32_nonneg [of l] by (simp add: k_def)
  have l: "sint l = int k" "l = of_nat k" using sint_nonneg [of l] k by (simp_all add: k_def)
  have "k < 64 ^ 6" using k by simp
  then obtain ds where ds: "l64a_digits 6 l = Some ds" "length ds \<le> 6" "list_all is_digit ds" "digits_val ds = of_nat k"
    using l64a_digits_spec [OF l(1)] by blast
  let ?m = "wr m retval (rev ds @ [0])"
  have "mapped m retval (length ds + 1)" using assms(2) ds(2) by (auto intro: mapped_le)
  then have w: "l64a empty_str retval m l = Some (?m, retval)" using assms(1) False ds(1) by (simp add: l64a_def)
  have "a64l ?m retval = Some (foldl (\<lambda>r c. push_bit 6 r + of_int (a64i c)) 0 (rev ds))"
    unfolding a64l_def by (rule a64l_loop_digits [OF block_wr_same]) (use ds(2,3) in \<open>simp_all add: list_all_iff\<close>)
  also have "\<dots> = Some l" using ds(4) l(2) by (simp add: digits_val_def foldr_conv_foldl)
  finally show ?thesis using w ds(2) by (auto simp: wr_def)
qed

lemma a64l_l64a_witness:
  "\<exists>m' p. l64a 50 10 ((wr Map.empty 10 (replicate 7 1))(50 \<mapsto> 0)) 1000000 = Some (m', p) \<and> a64l m' p = Some 1000000"
proof -
  have "mapped ((wr Map.empty 10 (replicate 7 (1 :: byte)))(50 \<mapsto> 0)) 10 7"
    using block_mapped [OF block_wr_same [of Map.empty 10 "replicate 7 (1 :: byte)"]] by simp
  then show ?thesis using a64l_l64a [of 1000000 _ 10 50] by force
qed

text \<open>The documentation promises -1 for an illegal character; but the characters between the digits and the letters, and between the
  upper and the lower case letters, are taken for digits.\<close>

lemma a64i_illegal: "a64i 58 = 5" "a64i 64 = 11" "a64i 91 = 32" "a64i 96 = 37"
  by code_simp+

end
