(* ===== verification/Spec2Isabelle.thy ===== *)
theory Spec2Isabelle
  imports InetProps Md5Props MpnMulN MpnDiv1 Quick StrTok StrWord StrPlace Ffs ArgzEdit Ctype Strtol MallocProps HashTable TsearchProps TimeProps FnmatchProps VersCmp XdrProps EnvProps RandTable Radix64
begin

text \<open>
  Verification of mintlib, the C library of the MiNT operating system (a 68000: big-endian, 32-bit \<open>int\<close>, \<open>long\<close> and
  pointers). The library has no global state machine of its own; it is a set of modules that call each other through C
  interfaces. Modelled are the modules with algorithms of their own, and where one calls another the models are composed the
  same way: \<open>inet_ntop\<close>, \<open>inet_ntoa\<close> and \<open>inet_addr\<close> read and write strings with the models of \<open>strtol\<close>, \<open>ctype\<close> and
  \<open>strcpy\<close>; \<open>mpn_mul\<close> works on the limb primitives; \<open>calloc\<close> and \<open>realloc\<close> on \<open>malloc\<close>, \<open>free\<close> and \<open>sbrk\<close>;
  \<open>timegm\<close> searches with \<open>gmtsub\<close>.

  \<^bold>\<open>Conventions.\<close> \<open>CMem\<close> is the prelude: the memory is a partial map from addresses (\<open>nat\<close>, \<open>NULL\<close> is 0) to cells, of bytes,
  limbs or values of any type; a load or store outside its domain is \<open>None\<close>, so a theorem that a function returns \<open>Some\<close>
  includes that it stays inside its objects. Blocks, C strings, disjointness of blocks and the loops shared by many functions
  (copying upwards and downwards, filling) are there with their lemmas. Integers whose wrap-around matters are \<open>32 word\<close> and so on,
  read with \<open>unat\<close> or \<open>sint\<close>. Loops that may fail to end are \<open>partial_function (option)\<close>: not returning is \<open>None\<close> as well, so
  that no fuel is needed, and theorems that state a result state termination. Loops over a structure are \<open>fun\<close>. Errors are
  the values the code returns, with \<open>errno\<close> where it is set. Interfaces between a client and the code (a queue of calls, a
  stream of bytes, a heap) are locales, each interpreted on the model of the code.

  \<^bold>\<open>Theories and sources.\<close>
  \<^item> Allocator, \<^verbatim>\<open>mintlib/malloc.c\<close>, \<^verbatim>\<open>realloc.c\<close>, \<^verbatim>\<open>calloc.c\<close>, \<^verbatim>\<open>unix/sbrk.c\<close>: \<open>Malloc\<close> has the free list and every operation;
    \<open>Pieces\<close> the abstract heap, a list of used and free pieces; \<open>MallocRep\<close> when memory represents it; \<open>MallocSpec\<close>,
    \<open>MallocFree\<close>, \<open>Realloc\<close> that each operation refines its counterpart (a structure that bytes have been stored over is gone); \<open>MallocClient\<close> a locale for client programs;
    \<open>MallocProps\<close> the properties.
  \<^item> Hash tables, \<^verbatim>\<open>misc/hsearch_r.c\<close>: \<open>Hsearch\<close> (operations, size of the table), \<open>HashTable\<close> (probing visits every slot;
    the table is a dictionary).
  \<^item> Search trees, \<^verbatim>\<open>misc/tsearch.c\<close>: \<open>Tsearch\<close> (operations on nodes in memory), \<open>RbTree\<close> (red-black trees with a hole),
    \<open>TsearchInsert\<close>, \<open>TsearchLoop\<close>, \<open>TsearchDelete\<close>, \<open>TsearchRemove\<close> (one step, insertion, rebalancing, deletion),
    \<open>TsearchMem\<close> (which nodes there are; no memory for a new one), \<open>TsearchProps\<close> (sequences of calls, with a \<open>malloc\<close> that
    may fail and may return freed addresses again).
  \<^item> Sorting and searching, \<^verbatim>\<open>stdlib/qsort.c\<close>, \<^verbatim>\<open>msort.c\<close>, \<^verbatim>\<open>bsearch.c\<close>, \<^verbatim>\<open>misc/lsearch.c\<close>: \<open>Sorting\<close>, \<open>Quick\<close>.
  \<^item> Strings, \<^verbatim>\<open>string/\<close>: \<open>Str\<close>, \<open>StrCmp\<close>, \<open>StrSearch\<close>, \<open>StrTok\<close>, \<open>StrMisc\<close>, \<open>StrPlace\<close>, \<open>StrWord\<close> (the functions that work on
    four bytes at a time), \<open>StrCase\<close>, \<open>VersCmp\<close>, \<open>Ffs\<close>; vectors of strings in \<open>Argz\<close>, \<open>ArgzEdit\<close>.
  \<^item> Characters and numbers, \<^verbatim>\<open>mintlib/ctype.c\<close>, \<^verbatim>\<open>include/ctype.h\<close>, \<^verbatim>\<open>stdlib/strtol.c\<close>: \<open>Ctype\<close>, \<open>Strtol\<close>.
  \<^item> Natural numbers of many limbs, \<^verbatim>\<open>gmp/\<close>, \<^verbatim>\<open>stdlib/longlong.h\<close>: \<open>Limbs\<close> (one and two limbs), \<open>Mpn\<close>, \<open>MpnShift\<close>, \<open>MpnMul\<close>
    (schoolbook), \<open>MpnKaratsuba\<close>, \<open>MpnMulN\<close>, \<open>MpnDiv1\<close>.
  \<^item> Internet addresses, \<^verbatim>\<open>socket/inet_*.c\<close>: \<open>Inet\<close>, \<open>InetProps\<close>.
  \<^item> MD5, \<^verbatim>\<open>crypt/md5.c\<close>: \<open>Md5\<close>, and \<open>Md5Props\<close> with RFC 1321 as the reference.
  \<^item> Time, \<^verbatim>\<open>tz/localtime.c\<close>: \<open>Localtime\<close> (to broken-down time), \<open>Mktime\<close> (back), \<open>Calendar\<close> (the Gregorian calendar),
    \<open>Timesub\<close>, \<open>MktimeProps\<close>, \<open>TimeProps\<close>.
  \<^item> File name patterns, \<^verbatim>\<open>posix/fnmatch.c\<close>: \<open>Fnmatch\<close>, and \<open>FnmatchProps\<close> with a reference matcher.
  \<^item> Environment, \<^verbatim>\<open>mintlib/getenv.c\<close>, \<^verbatim>\<open>setenv.c\<close>, \<^verbatim>\<open>putenv.c\<close>: \<open>Environ\<close>, and \<open>EnvProps\<close> (a map from names to values).
  \<^item> External data representation, \<^verbatim>\<open>sunrpc/xdr*.c\<close>: \<open>Xdr\<close>, and \<open>XdrProps\<close> with the encoding of RFC 4506.
  \<^item> Pseudo-random numbers and radix 64, \<^verbatim>\<open>stdlib/rand.c\<close>, \<^verbatim>\<open>random.c\<close>, \<^verbatim>\<open>drand48-iter.c\<close> and its callers, \<^verbatim>\<open>a64l.c\<close>, \<^verbatim>\<open>l64a.c\<close>:
    \<open>Rand\<close> has the operations; \<open>RandProps\<close> (\<open>rand\<close>, the tables of \<open>random\<close>), \<open>RandTable\<close> (the initial one), \<open>Rand48\<close>, \<open>Radix64\<close>.

  Each definition has the name of the C function it models; a loop or a branch of one has a name that starts from it or says what
  it does, and its lines are given in the manifest. A parameter of a definition is either an argument of the C function or
  something outside the library: a comparison function, the system calls below \<open>sbrk\<close>, the allocator of a client.

  \<^bold>\<open>What is shown.\<close> For the allocator, hash tables and search trees: every operation refines an abstract one, for all sequences of
  calls, and the representation invariant holds throughout. For the pure algorithms: the result is the specified one for
  all inputs that meet the documented conditions, with the memory outside the result unchanged. For pairs of functions: round
  trips. For errors: what is returned, and that nothing is changed. The lemmas named after a function and \<open>_spec\<close> are its
  specification and are what its callers' proofs use. Where the code does not do what it should, the theorem states what it does.

  \<^bold>\<open>Not modelled.\<close> Wrappers of system calls (\<^verbatim>\<open>unix\<close>, \<^verbatim>\<open>termios\<close>, \<^verbatim>\<open>sysvipc\<close>, \<^verbatim>\<open>signal\<close>, \<^verbatim>\<open>syscall\<close>), which have little logic of
  their own; input and output (\<^verbatim>\<open>stdio\<close>, \<^verbatim>\<open>stdiio\<close>), readers of system files (\<^verbatim>\<open>pwdgrp\<close>, \<^verbatim>\<open>shadow\<close>, \<^verbatim>\<open>login\<close>), the network
  part of \<^verbatim>\<open>socket\<close> and \<^verbatim>\<open>sunrpc\<close>; floating-point conversions, since the kernel theories have no IEEE arithmetic; the imported
  \<^verbatim>\<open>regex.c\<close>, \<^verbatim>\<open>argp\<close> and the zone compiler \<^verbatim>\<open>zic\<close>; start-up code and assembler. Inside the modelled files: locale
  tables other than C, thread locks, the zone-file reader and \<open>TZ\<close> strings, \<open>valloc\<close> and \<open>posix_memalign\<close>.
\<close>

end
